(* ===== verification/Prelude.thy ===== *)
theory Prelude
  imports Main "HOL-Library.Word" "HOL-Library.Product_Lexorder"
begin

text \<open>
  The base of the development: the machine integers of the Rust code as words, Rust's checked
  and saturating arithmetic on them, and the few generic facts on lists and options that the
  component theories share. The collections \<open>arith_ok\<close> and \<open>map_ok\<close> gather the
  facts on machine arithmetic and on ordered maps that the component proofs simplify with.
\<close>

named_theorems arith_ok \<open>checked and saturating machine arithmetic, read as natural numbers\<close>
named_theorems map_ok \<open>what the ordered map operations do to a lookup\<close>

type_synonym u8 = "8 word"
type_synonym u16 = "16 word"
type_synonym u32 = "32 word"
type_synonym u64 = "64 word"
type_synonym hash256 = "256 word"
type_synonym bytes = "u8 list"

text \<open>A byte string literal \<open>b"..."\<close>.\<close>

definition ascii :: "string \<Rightarrow> bytes" where
  "ascii s = map of_char s"

section \<open>Checked and saturating machine arithmetic\<close>

definition checked_add :: "'a::len word \<Rightarrow> 'a word \<Rightarrow> 'a word option" where
  "checked_add a b = (if unat a + unat b < 2 ^ LENGTH('a) then Some (a + b) else None)"

definition checked_sub :: "'a::len word \<Rightarrow> 'a word \<Rightarrow> 'a word option" where
  "checked_sub a b = (if b \<le> a then Some (a - b) else None)"

definition checked_mul :: "'a::len word \<Rightarrow> 'a word \<Rightarrow> 'a word option" where
  "checked_mul a b = (if unat a * unat b < 2 ^ LENGTH('a) then Some (a * b) else None)"

definition saturating_add :: "'a::len word \<Rightarrow> 'a word \<Rightarrow> 'a word" where
  "saturating_add a b = (if unat a + unat b < 2 ^ LENGTH('a) then a + b else - 1)"

definition saturating_sub :: "'a::len word \<Rightarrow> 'a word \<Rightarrow> 'a word" where
  "saturating_sub a b = (if b \<le> a then a - b else 0)"

definition saturating_mul :: "'a::len word \<Rightarrow> 'a word \<Rightarrow> 'a word" where
  "saturating_mul a b = (if unat a * unat b < 2 ^ LENGTH('a) then a * b else - 1)"

lemma checked_add_SomeD [arith_ok, dest]:
  "checked_add a b = Some c \<Longrightarrow> unat c = unat a + unat b"
  by (auto simp: checked_add_def unat_word_ariths split: if_splits)

lemma checked_add_None_iff [arith_ok]:
  "checked_add (a :: 'a::len word) b = None \<longleftrightarrow> 2 ^ LENGTH('a) \<le> unat a + unat b"
  by (auto simp: checked_add_def not_less)

lemma checked_sub_SomeD [arith_ok, dest]:
  "checked_sub a b = Some c \<Longrightarrow> unat a = unat c + unat b"
  by (auto simp: checked_sub_def unat_sub word_le_nat_alt split: if_splits)

lemma checked_sub_None_iff [arith_ok]:
  "checked_sub a b = None \<longleftrightarrow> unat a < unat b"
  by (auto simp: checked_sub_def word_le_nat_alt)

lemma checked_mul_SomeD [arith_ok, dest]:
  "checked_mul a b = Some c \<Longrightarrow> unat c = unat a * unat b"
  by (auto simp: checked_mul_def unat_word_ariths split: if_splits)

lemma checked_mul_None_iff [arith_ok]:
  "checked_mul (a :: 'a::len word) b = None \<longleftrightarrow> 2 ^ LENGTH('a) \<le> unat a * unat b"
  by (auto simp: checked_mul_def not_less)

lemma unat_saturating_add [arith_ok]:
  "unat (saturating_add (a :: 'a::len word) b) = min (unat a + unat b) (2 ^ LENGTH('a) - 1)"
  by (auto simp: saturating_add_def unat_word_ariths unsigned_minus_1_eq_mask mask_eq_exp_minus_1)

lemma unat_saturating_sub [arith_ok]:
  "unat (saturating_sub a b) = unat a - unat b"
  by (auto simp: saturating_sub_def unat_sub word_le_nat_alt)

lemma unat_saturating_mul [arith_ok]:
  "unat (saturating_mul (a :: 'a::len word) b) = min (unat a * unat b) (2 ^ LENGTH('a) - 1)"
  by (auto simp: saturating_mul_def unat_word_ariths unsigned_minus_1_eq_mask mask_eq_exp_minus_1)

lemma unat_succ: "x \<noteq> - 1 \<Longrightarrow> unat (x + 1) = unat (x :: 'a::len word) + 1"
  by (metis Suc_eq_plus1 add.commute add.inverse_inverse add_eq_0_iff unatSuc)

lemma word_less_succ: "x \<noteq> - 1 \<Longrightarrow> (x :: 'a::len word) < x + 1"
  by (simp add: word_less_nat_alt unat_succ)

section \<open>Lists and options\<close>

text \<open>Rust's \<open>collect\<close> of fallible items: the first failure wins.\<close>

fun option_seq :: "'a option list \<Rightarrow> 'a list option" where
  "option_seq [] = Some []"
| "option_seq (None # xs) = None"
| "option_seq (Some x # xs) = map_option ((#) x) (option_seq xs)"

lemma option_seq_Some_iff: "option_seq xs = Some ys \<longleftrightarrow> xs = map Some ys"
  by (induction xs arbitrary: ys rule: option_seq.induct) auto

text \<open>
  A fallible step with a state, run over a list from the left: the shape of a Rust loop that
  collects results while it mutates a cache. \<open>None\<close> is a panic.
\<close>

fun map_state :: "('a \<Rightarrow> 's \<Rightarrow> ('b \<times> 's) option) \<Rightarrow> 'a list \<Rightarrow> 's \<Rightarrow> ('b list \<times> 's) option" where
  "map_state f [] s = Some ([], s)"
| "map_state f (x # xs) s =
     (case f x s of
        None \<Rightarrow> None
      | Some (y, s') \<Rightarrow> map_option (\<lambda>(ys, s''). (y # ys, s'')) (map_state f xs s'))"

text \<open>A loop body that keeps an invariant and returns \<open>g x\<close> makes the loop return \<open>map g xs\<close>.\<close>

lemma map_state_inv:
  assumes "\<And>x s. x \<in> set xs \<Longrightarrow> I s \<Longrightarrow> \<exists>s'. f x s = Some (g x, s') \<and> I s'"
  shows "I s \<Longrightarrow> \<exists>s'. map_state f xs s = Some (map g xs, s') \<and> I s'"
  using assms
proof (induction xs arbitrary: s)
  case (Cons x xs)
  from Cons.prems(2) [of x s] Cons.prems(1)
  obtain s' where s': "f x s = Some (g x, s')" "I s'" by auto
  with Cons.IH [of s'] Cons.prems(2)
  obtain s'' where "map_state f xs s' = Some (map g xs, s'')" "I s''"
    by (metis list.set_intros(2))
  with s' show ?case by auto
qed simp

lemma map_state_length: "map_state f xs s = Some (ys, s') \<Longrightarrow> length ys = length xs"
  by (induction xs arbitrary: ys s) (auto split: option.splits)

lemma map_state_total:
  assumes "\<And>x s. I s \<Longrightarrow> \<exists>y s'. f x s = Some (y, s') \<and> I s'"
  shows "I s \<Longrightarrow> \<exists>ys s'. map_state f xs s = Some (ys, s') \<and> length ys = length xs"
proof (induction xs arbitrary: s)
  case (Cons x xs)
  from assms [OF Cons.prems, of x] obtain y s1 where 1: "f x s = Some (y, s1)" "I s1" by blast
  from Cons.IH [OF 1(2)] 1(1) show ?case by auto
qed simp

lemma card_Int_ge:
  assumes "finite U" "A \<subseteq> U" "B \<subseteq> U"
  shows "card A + card B \<le> card U + card (A \<inter> B)"
proof -
  have "card A + card B = card (A \<union> B) + card (A \<inter> B)"
    using assms by (intro card_Un_Int) (auto intro: finite_subset)
  also have "card (A \<union> B) \<le> card U"
    using assms by (intro card_mono) auto
  finally show ?thesis by simp
qed

end
