(* ===== verification/Ordered_Map.thy ===== *)
theory Ordered_Map
  imports Prelude
begin

text \<open>
  Rust's \<open>BTreeMap\<close> and \<open>BTreeSet\<close>: finite maps and sets whose iteration order is the
  order of their keys. A map is the list of its entries in strictly ascending key order, so two
  maps are equal exactly when their lookups are, and iteration is a computation on a list. The
  tables of the database crate are typed views of the same structure.
\<close>

section \<open>Sorted entry lists\<close>

definition sorted_keys :: "('k::linorder \<times> 'v) list \<Rightarrow> bool" where
  "sorted_keys xs \<longleftrightarrow> sorted_wrt (<) (map fst xs)"

fun ins_entry :: "'k::linorder \<Rightarrow> 'v \<Rightarrow> ('k \<times> 'v) list \<Rightarrow> ('k \<times> 'v) list" where
  "ins_entry k v [] = [(k, v)]"
| "ins_entry k v ((k', v') # xs) =
     (if k < k' then (k, v) # (k', v') # xs
      else if k = k' then (k, v) # xs
      else (k', v') # ins_entry k v xs)"

definition del_entry :: "'k \<Rightarrow> ('k \<times> 'v) list \<Rightarrow> ('k \<times> 'v) list" where
  "del_entry k xs = filter (\<lambda>e. fst e \<noteq> k) xs"

lemma sorted_keys_simps [simp]:
  "sorted_keys []"
  "sorted_keys ((k, v) # xs) \<longleftrightarrow> (\<forall>e \<in> set xs. k < fst e) \<and> sorted_keys xs"
  by (auto simp: sorted_keys_def)

lemma sorted_keys_filter [simp]: "sorted_keys xs \<Longrightarrow> sorted_keys (filter P xs)"
  by (induction xs) auto

lemma fst_set_ins_entry: "fst ` set (ins_entry k v xs) = insert k (fst ` set xs)"
  by (induction k v xs rule: ins_entry.induct) auto

lemma sorted_keys_ins_entry [simp]: "sorted_keys xs \<Longrightarrow> sorted_keys (ins_entry k v xs)"
proof (induction k v xs rule: ins_entry.induct)
  case (2 k v k' v' xs)
  have "k' < fst e" if "k' < k" "\<forall>e \<in> set xs. k' < fst e" "e \<in> set (ins_entry k v xs)" for e
    using that fst_set_ins_entry [of k v xs] by (metis image_iff insert_iff)
  moreover have "k' < k" if "\<not> k < k'" "k \<noteq> k'"
    using that by simp
  moreover have "k < fst e" if "k < k'" "\<forall>e \<in> set xs. k' < fst e" "e \<in> set xs" for e
    using that by (metis less_trans)
  ultimately show ?case
    using 2 by auto
qed simp

lemma sorted_keys_distinct: "sorted_keys xs \<Longrightarrow> distinct (map fst xs)"
  by (auto simp: sorted_keys_def strict_sorted_iff)

lemma map_of_ins_entry: "map_of (ins_entry k v xs) = (map_of xs)(k \<mapsto> v)"
  by (induction k v xs rule: ins_entry.induct) auto

lemma map_of_del_entry: "map_of (del_entry k xs) = (map_of xs)(k := None)"
  by (induction xs) (auto simp: del_entry_def)

lemma map_of_below: "\<forall>e \<in> set xs. (k :: 'k::linorder) < fst e \<Longrightarrow> map_of xs k = None"
  by (force simp: map_of_eq_None_iff)

lemma sorted_keys_eqI:
  "sorted_keys xs \<Longrightarrow> sorted_keys ys \<Longrightarrow> map_of xs = map_of ys \<Longrightarrow> xs = ys"
proof (induction xs arbitrary: ys)
  case Nil
  then show ?case by (metis map_of_eq_empty_iff)
next
  case (Cons e xs)
  obtain k v where e: "e = (k, v)" by fastforce
  from Cons.prems e obtain k' v' ys' where ys: "ys = (k', v') # ys'"
    by (cases ys) (auto simp: fun_eq_iff, metis option.distinct(1))
  have lo: "\<forall>e \<in> set xs. k < fst e" "\<forall>e \<in> set ys'. k' < fst e" "sorted_keys xs" "sorted_keys ys'"
    using Cons.prems e ys by auto
  have "\<not> k < k'"
  proof
    assume "k < k'"
    then have "map_of ys k = None"
      using lo(2) by (intro map_of_below) (auto simp: ys)
    then show False using Cons.prems(3) e by (metis map_of_Cons_code(2) option.distinct(1))
  qed
  moreover have "\<not> k' < k"
  proof
    assume "k' < k"
    then have "map_of (e # xs) k' = None"
      using lo(1) by (intro map_of_below) (auto simp: e)
    then show False using Cons.prems(3) ys by (metis map_of_Cons_code(2) option.distinct(1))
  qed
  ultimately have k: "k = k'" by simp
  with Cons.prems(3) e ys have v: "v = v'" by (metis map_of_Cons_code(2) option.inject)
  have "map_of xs = map_of ys'"
  proof
    fix a
    show "map_of xs a = map_of ys' a"
    proof (cases "a = k")
      case True
      then show ?thesis using lo k by (simp add: map_of_below)
    next
      case False
      then show ?thesis using Cons.prems(3) e ys k by (auto simp: fun_eq_iff split: if_splits)
    qed
  qed
  with Cons.IH lo k v e ys show ?case by blast
qed

section \<open>Ordered maps\<close>

typedef (overloaded) ('k::linorder, 'v) btmap = "{xs :: ('k \<times> 'v) list. sorted_keys xs}"
  morphisms entries Btmap
  by (rule exI [of _ "[]"]) simp

setup_lifting type_definition_btmap

lift_definition bt_empty :: "('k::linorder, 'v) btmap" is "[]" by simp

lift_definition bt_insert :: "'k::linorder \<Rightarrow> 'v \<Rightarrow> ('k, 'v) btmap \<Rightarrow> ('k, 'v) btmap" is ins_entry
  by simp

lift_definition bt_remove :: "'k::linorder \<Rightarrow> ('k, 'v) btmap \<Rightarrow> ('k, 'v) btmap" is del_entry
  by (simp add: del_entry_def)

lift_definition bt_filter :: "('k \<Rightarrow> 'v \<Rightarrow> bool) \<Rightarrow> ('k::linorder, 'v) btmap \<Rightarrow> ('k, 'v) btmap"
  is "\<lambda>P xs. filter (\<lambda>(k, v). P k v) xs"
  by simp

definition bt_get :: "('k::linorder, 'v) btmap \<Rightarrow> 'k \<Rightarrow> 'v option" where
  "bt_get m = map_of (entries m)"

definition bt_has :: "('k::linorder, 'v) btmap \<Rightarrow> 'k \<Rightarrow> bool" where
  "bt_has m k = (bt_get m k \<noteq> None)"

definition bt_keys :: "('k::linorder, 'v) btmap \<Rightarrow> 'k list" where
  "bt_keys m = map fst (entries m)"

definition bt_values :: "('k::linorder, 'v) btmap \<Rightarrow> 'v list" where
  "bt_values m = map snd (entries m)"

definition bt_len :: "('k::linorder, 'v) btmap \<Rightarrow> nat" where
  "bt_len m = length (entries m)"

definition bt_of_list :: "('k::linorder \<times> 'v) list \<Rightarrow> ('k, 'v) btmap" where
  "bt_of_list xs = fold (\<lambda>(k, v). bt_insert k v) xs bt_empty"

text \<open>The entries with a key in the half-open range, in key order: \<open>range(lo..hi)\<close>.\<close>

definition bt_range :: "'k::linorder \<Rightarrow> 'k \<Rightarrow> ('k, 'v) btmap \<Rightarrow> ('k \<times> 'v) list" where
  "bt_range lo hi m = filter (\<lambda>e. lo \<le> fst e \<and> fst e < hi) (entries m)"

definition bt_last :: "('k::linorder, 'v) btmap \<Rightarrow> ('k \<times> 'v) option" where
  "bt_last m = (if entries m = [] then None else Some (last (entries m)))"

type_synonym 'k btset = "('k, unit) btmap"

abbreviation bs_insert :: "'k::linorder \<Rightarrow> 'k btset \<Rightarrow> 'k btset" where
  "bs_insert k s \<equiv> bt_insert k () s"

lemmas entries_ops [simp] = bt_empty.rep_eq bt_insert.rep_eq bt_remove.rep_eq bt_filter.rep_eq

lemma sorted_keys_entries [simp]: "sorted_keys (entries m)"
  using entries [of m] by simp

lemma distinct_entries [simp]: "distinct (map fst (entries m))"
  by (rule sorted_keys_distinct) simp

lemma bt_get_empty [simp, map_ok]: "bt_get bt_empty k = None"
  by (simp add: bt_get_def)

lemma bt_get_insert [simp, map_ok]:
  "bt_get (bt_insert k v m) k' = (if k' = k then Some v else bt_get m k')"
  by (simp add: bt_get_def map_of_ins_entry)

lemma bt_get_remove [simp, map_ok]:
  "bt_get (bt_remove k m) k' = (if k' = k then None else bt_get m k')"
  by (simp add: bt_get_def map_of_del_entry)

lemma map_of_filter_distinct:
  "distinct (map fst xs) \<Longrightarrow>
   map_of (filter (\<lambda>(k, v). P k v) xs) k =
     (case map_of xs k of None \<Rightarrow> None | Some v \<Rightarrow> if P k v then Some v else None)"
  by (induction xs) (auto split: option.splits dest: map_of_SomeD intro: rev_image_eqI)

lemma bt_get_filter [simp, map_ok]:
  "bt_get (bt_filter P m) k =
     (case bt_get m k of None \<Rightarrow> None | Some v \<Rightarrow> if P k v then Some v else None)"
  by (simp add: bt_get_def map_of_filter_distinct)

lemma bt_get_Some_iff: "bt_get m k = Some v \<longleftrightarrow> (k, v) \<in> set (entries m)"
  by (simp add: bt_get_def)

lemma bt_eqI: "(\<And>k. bt_get m k = bt_get m' k) \<Longrightarrow> m = m'"
  by (metis (no_types) bt_get_def entries_inject ext sorted_keys_entries sorted_keys_eqI)

lemma bt_eq_iff: "m = m' \<longleftrightarrow> (\<forall>k. bt_get m k = bt_get m' k)"
  by (auto intro: bt_eqI)

lemma set_bt_keys: "set (bt_keys m) = {k. bt_get m k \<noteq> None}"
  by (force simp: bt_keys_def bt_get_def map_of_eq_None_iff)

lemma bt_keys_strict_sorted [simp]: "sorted_wrt (<) (bt_keys m)"
  using sorted_keys_entries [of m] by (simp add: bt_keys_def sorted_keys_def)

lemma distinct_bt_keys [simp]: "distinct (bt_keys m)"
  by (simp add: bt_keys_def)

lemma bt_len_card: "bt_len m = card {k. bt_get m k \<noteq> None}"
  by (metis bt_keys_def bt_len_def distinct_bt_keys distinct_card length_map set_bt_keys)

lemma finite_bt_dom [simp]: "finite {k. bt_get m k \<noteq> None}"
  by (metis List.finite_set set_bt_keys)

lemma bt_values_iff: "v \<in> set (bt_values m) \<longleftrightarrow> (\<exists>k. bt_get m k = Some v)"
  by (force simp: bt_values_def bt_get_Some_iff)

lemma length_bt_values [simp]: "length (bt_values m) = bt_len m"
  by (simp add: bt_values_def bt_len_def)

lemma bt_insert_remove_commute:
  "k \<noteq> k' \<Longrightarrow> bt_insert k v (bt_remove k' m) = bt_remove k' (bt_insert k v m)"
  by (rule bt_eqI) auto

lemma bt_get_of_list: "bt_get (bt_of_list xs) k = map_of (rev xs) k"
proof -
  have "bt_get (fold (\<lambda>(k, v). bt_insert k v) xs m) k = (case map_of (rev xs) k of None \<Rightarrow> bt_get m k | Some v \<Rightarrow> Some v)"
    for m by (induction xs arbitrary: m) (auto simp: map_add_def split: option.splits)
  then show ?thesis by (simp add: bt_of_list_def split: option.splits)
qed

lemma bt_get_of_list_distinct:
  "distinct (map fst xs) \<Longrightarrow> bt_get (bt_of_list xs) k = Some v \<longleftrightarrow> (k, v) \<in> set xs"
  by (simp add: bt_get_of_list rev_map [symmetric])

lemma bt_get_of_list_map: "distinct (map fst xs) \<Longrightarrow> bt_get (bt_of_list xs) k = map_of xs k"
proof -
  assume d: "distinct (map fst xs)"
  show ?thesis
  proof (cases "bt_get (bt_of_list xs) k")
    case None
    then have "map_of (rev xs) k = None" by (simp add: bt_get_of_list)
    then have "map_of xs k = None" by (simp add: map_of_eq_None_iff)
    then show ?thesis using None by simp
  next
    case (Some v)
    then have "(k, v) \<in> set xs" using bt_get_of_list_distinct [OF d] by simp
    then show ?thesis using Some d by simp
  qed
qed

lemma set_keys_of_list: "set (bt_keys (bt_of_list xs)) = fst ` set xs"
proof -
  have "bt_get (bt_of_list xs) k \<noteq> None \<longleftrightarrow> k \<in> fst ` set xs" for k
    by (simp add: bt_get_of_list map_of_eq_None_iff del: not_None_eq)
  then show ?thesis by (simp add: set_bt_keys set_eq_iff del: not_None_eq)
qed

lemma bt_len_of_list: "distinct (map fst xs) \<Longrightarrow> bt_len (bt_of_list xs) = length xs"
  by (metis bt_keys_def bt_len_def distinct_bt_keys distinct_card length_map set_keys_of_list set_map)

lemma bt_values_keys: "bt_values m = map (\<lambda>k. the (bt_get m k)) (bt_keys m)"
  by (auto simp: bt_values_def bt_keys_def bt_get_def intro!: map_cong)

lemma length_bt_keys: "length (bt_keys m) = length (entries m)"
  by (simp add: bt_keys_def)

lemma bt_keys_eqI: "set (bt_keys m) = set (bt_keys m') \<Longrightarrow> bt_keys m = bt_keys m'"
  by (meson bt_keys_strict_sorted sorted_distinct_set_unique strict_sorted_iff)

lemma bt_len_insert: "bt_get m k = None \<Longrightarrow> bt_len (bt_insert k v m) = bt_len m + 1"
proof -
  assume "bt_get m k = None"
  moreover have "{j. bt_get (bt_insert k v m) j \<noteq> None} = insert k {j. bt_get m j \<noteq> None}" by auto
  moreover have "finite {j. bt_get m j \<noteq> None}" by (rule finite_bt_dom)
  ultimately show ?thesis unfolding bt_len_card by (simp del: not_None_eq)
qed

lemma bt_len_empty [simp]: "bt_len bt_empty = 0"
  by (simp add: bt_len_def)

lemma bt_len_insert_le: "bt_len (bt_insert k v m) \<le> bt_len m + 1"
proof -
  have "{j. bt_get (bt_insert k v m) j \<noteq> None} = insert k {j. bt_get m j \<noteq> None}" by auto
  then show ?thesis unfolding bt_len_card by (simp add: card_insert_if del: not_None_eq)
qed

lemma bt_len_remove: "bt_get m k = Some v \<Longrightarrow> bt_len m = bt_len (bt_remove k m) + 1"
proof -
  assume "bt_get m k = Some v"
  then have "{j. bt_get m j \<noteq> None} = insert k {j. bt_get (bt_remove k m) j \<noteq> None}" by (auto split: if_splits)
  moreover have "k \<notin> {j. bt_get (bt_remove k m) j \<noteq> None}" by simp
  ultimately show ?thesis unfolding bt_len_card by (metis Suc_eq_plus1 card_insert_disjoint finite_bt_dom)
qed

lemma bt_len_replace: "bt_get m k = Some v \<Longrightarrow> bt_len (bt_insert k' v' (bt_remove k m)) \<le> bt_len m"
proof -
  assume a: "bt_get m k = Some v"
  have "{j. bt_get (bt_insert k' v' (bt_remove k m)) j \<noteq> None} = insert k' {j. bt_get (bt_remove k m) j \<noteq> None}" by auto
  then have "bt_len (bt_insert k' v' (bt_remove k m)) \<le> bt_len (bt_remove k m) + 1"
    unfolding bt_len_card by (simp add: card_insert_if del: not_None_eq bt_get_insert bt_get_remove)
  then show ?thesis using bt_len_remove [OF a] by simp
qed

lemma bt_len_single: "bt_len (bt_insert i v bt_empty) = 1"
  using bt_len_insert [of bt_empty i v] by (simp add: bt_len_def)

text \<open>A map that agrees with another wherever it is defined: what insertions of fresh keys grow.\<close>

definition bt_sub :: "('k::linorder, 'v) btmap \<Rightarrow> ('k, 'v) btmap \<Rightarrow> bool" where
  "bt_sub m m' \<longleftrightarrow> (\<forall>k v. bt_get m k = Some v \<longrightarrow> bt_get m' k = Some v)"

lemma bt_sub_refl [simp, intro]: "bt_sub m m"
  by (simp add: bt_sub_def)

lemma bt_sub_trans [trans]: "bt_sub m m' \<Longrightarrow> bt_sub m' m'' \<Longrightarrow> bt_sub m m''"
  by (simp add: bt_sub_def)

lemma bt_subD: "bt_sub m m' \<Longrightarrow> bt_get m k = Some v \<Longrightarrow> bt_get m' k = Some v"
  by (simp add: bt_sub_def)

lemma bt_sub_insert: "bt_get m k = None \<Longrightarrow> bt_sub m (bt_insert k v m)"
  by (auto simp: bt_sub_def)

text \<open>The sum of a measure over the values: what a table adds up to.\<close>

definition bt_sum :: "('v \<Rightarrow> nat) \<Rightarrow> ('k::linorder, 'v) btmap \<Rightarrow> nat" where
  "bt_sum f m = sum_list (map f (bt_values m))"

lemma bt_sum_empty [simp]: "bt_sum f bt_empty = 0"
  by (simp add: bt_sum_def bt_values_def)

lemma sum_ins_entry:
  "k \<notin> fst ` set xs \<Longrightarrow>
   sum_list (map (\<lambda>e. (f :: 'v \<Rightarrow> nat) (snd e)) (ins_entry k v xs)) = f v + sum_list (map (\<lambda>e. f (snd e)) xs)"
  by (induction k v xs rule: ins_entry.induct) (auto simp: add_ac)

lemma sum_del_entry:
  "distinct (map fst xs) \<Longrightarrow> (k, v) \<in> set xs \<Longrightarrow>
   sum_list (map (\<lambda>e. (f :: 'v \<Rightarrow> nat) (snd e)) xs) =
     f v + sum_list (map (\<lambda>e. f (snd e)) (del_entry k xs))"
proof (induction xs)
  case (Cons x xs)
  show ?case
  proof (cases "fst x = k")
    case True
    with Cons.prems have n: "k \<notin> fst ` set xs"
      by simp
    moreover from n have "(k, v) \<notin> set xs"
      by force
    ultimately have x: "x = (k, v)" "k \<notin> fst ` set xs"
      using Cons.prems by simp_all
    then have "filter (\<lambda>e. fst e \<noteq> k) xs = xs"
      by (auto simp: filter_id_conv)
    with x show ?thesis by (simp add: del_entry_def)
  next
    case False
    with Cons show ?thesis by (auto simp: del_entry_def)
  qed
qed simp

lemma bt_sum_insert: "bt_get m k = None \<Longrightarrow> bt_sum f (bt_insert k v m) = f v + bt_sum f m"
  using sum_ins_entry [of k "entries m" f v]
  by (auto simp: bt_sum_def bt_values_def comp_def bt_get_def map_of_eq_None_iff)

lemma bt_sum_remove: "bt_get m k = Some v \<Longrightarrow> bt_sum f m = f v + bt_sum f (bt_remove k m)"
  using sum_del_entry [of "entries m" k v f]
  by (simp add: bt_sum_def bt_values_def comp_def bt_get_Some_iff)

instantiation btmap :: (linorder, equal) equal
begin

definition equal_btmap :: "('a, 'b) btmap \<Rightarrow> ('a, 'b) btmap \<Rightarrow> bool" where
  "equal_btmap m m' = (entries m = entries m')"

instance
  by standard (simp add: equal_btmap_def entries_inject)

end

end
