(* ===== verification/Codec.thy ===== *)
theory Codec
  imports Ordered_Map
begin

text \<open>
  The consensus encoding (\<open>picomint-encoding/src/lib.rs\<close>): one encoder and one partial
  decoder per type. An encoder appends bytes; a decoder takes the bytes its type needs off the
  front of a reader and returns the rest, or fails (\<open>None\<close>, the \<open>io::Error\<close> of the
  code). An encoder that panics (a collection whose length does not fit the \<open>u32\<close> prefix, a
  string that is not UTF-8, which Rust's \<open>String\<close> excludes) is described by the predicate
  \<open>ok\<close> on its values. The locale \<open>codec\<close> is the contract every type's pair keeps, and
  what the callers (the database, the hashes, the wire) rely on is proved inside it.
\<close>

type_synonym 'a decoder = "bytes \<Rightarrow> ('a \<times> bytes) option"

section \<open>The contract\<close>

text \<open>\<open>Decodable::consensus_decode\<close>: decode the whole buffer, rejecting trailing bytes.\<close>

definition consensus_decode :: "'a decoder \<Rightarrow> bytes \<Rightarrow> 'a option" where
  "consensus_decode dec bs =
     (case dec bs of
        None \<Rightarrow> None
      | Some (x, rest) \<Rightarrow> if rest \<noteq> [] then None else Some x)"

locale codec =
  fixes ok :: "'a \<Rightarrow> bool"
    and enc :: "'a \<Rightarrow> bytes"
    and dec :: "'a decoder"
  assumes dec_enc: "ok x \<Longrightarrow> dec (enc x @ r) = Some (x, r)"
    and dec_canonical: "dec bs = Some (x, r) \<Longrightarrow> ok x \<and> bs = enc x @ r"
begin

lemma decode_encode: "ok x \<Longrightarrow> consensus_decode dec (enc x) = Some x"
  using dec_enc [of x "[]"] by (simp add: consensus_decode_def)

lemma decode_iff: "consensus_decode dec bs = Some x \<longleftrightarrow> ok x \<and> bs = enc x"
proof
  assume "consensus_decode dec bs = Some x"
  then have "dec bs = Some (x, [])"
    by (simp add: consensus_decode_def split: option.splits prod.splits if_splits)
  then show "ok x \<and> bs = enc x"
    by (metis append_Nil2 dec_canonical)
qed (simp add: decode_encode)

lemma decode_trailing: "ok x \<Longrightarrow> r \<noteq> [] \<Longrightarrow> consensus_decode dec (enc x @ r) = None"
  by (simp add: consensus_decode_def dec_enc)

lemma prefix_free:
  assumes "ok x" "ok y" "enc x @ r = enc y @ r'"
  shows "x = y \<and> r = r'"
  using assms dec_enc by (metis Pair_inject option.inject)

lemma enc_inj: "ok x \<Longrightarrow> ok y \<Longrightarrow> enc x = enc y \<Longrightarrow> x = y"
  using prefix_free [of x y "[]" "[]"] by simp

lemma enc_inj_on: "inj_on enc {x. ok x}"
  by (rule inj_onI) (auto dest: enc_inj)

lemma decode_unique: "consensus_decode dec bs = Some x \<Longrightarrow> consensus_decode dec bs' = Some x \<Longrightarrow> bs = bs'"
  by (simp add: decode_iff)

end

section \<open>Fixed-width big-endian integers\<close>

fun be_bytes :: "nat \<Rightarrow> nat \<Rightarrow> bytes" where
  "be_bytes 0 v = []"
| "be_bytes (Suc n) v = be_bytes n (v div 256) @ [of_nat (v mod 256)]"

definition be_value :: "bytes \<Rightarrow> nat" where
  "be_value bs = foldl (\<lambda>a b. 256 * a + unat b) 0 bs"

text \<open>\<open>read_exact\<close> of a buffer of \<open>n\<close> bytes.\<close>

definition read_exact :: "nat \<Rightarrow> bytes decoder" where
  "read_exact n bs = (if length bs < n then None else Some (take n bs, drop n bs))"

definition enc_int :: "'a::len word \<Rightarrow> bytes" where
  "enc_int w = be_bytes (LENGTH('a) div 8) (unat w)"

definition dec_int :: "'a::len word decoder" where
  "dec_int bs =
     (case read_exact (LENGTH('a) div 8) bs of
        None \<Rightarrow> None
      | Some (buf, r) \<Rightarrow> Some (of_nat (be_value buf), r))"

abbreviation enc_u8 :: "u8 \<Rightarrow> bytes" where "enc_u8 \<equiv> enc_int"
abbreviation enc_u16 :: "u16 \<Rightarrow> bytes" where "enc_u16 \<equiv> enc_int"
abbreviation enc_u32 :: "u32 \<Rightarrow> bytes" where "enc_u32 \<equiv> enc_int"
abbreviation enc_u64 :: "u64 \<Rightarrow> bytes" where "enc_u64 \<equiv> enc_int"
abbreviation dec_u8 :: "u8 decoder" where "dec_u8 \<equiv> dec_int"
abbreviation dec_u16 :: "u16 decoder" where "dec_u16 \<equiv> dec_int"
abbreviation dec_u32 :: "u32 decoder" where "dec_u32 \<equiv> dec_int"
abbreviation dec_u64 :: "u64 decoder" where "dec_u64 \<equiv> dec_int"

lemma length_be_bytes [simp]: "length (be_bytes n v) = n"
  by (induction n arbitrary: v) auto

lemma be_value_snoc [simp]: "be_value (bs @ [b]) = 256 * be_value bs + unat b"
  by (simp add: be_value_def)

lemma be_value_Nil [simp]: "be_value [] = 0"
  by (simp add: be_value_def)

lemma be_value_less: "be_value bs < 256 ^ length bs"
proof (induction bs rule: rev_induct)
  case (snoc b bs)
  have "unat b < 256" using unsigned_less [of b] by simp
  with snoc show ?case by simp
qed simp

lemma be_value_be_bytes: "v < 256 ^ n \<Longrightarrow> be_value (be_bytes n v) = v"
proof (induction n arbitrary: v)
  case (Suc n)
  then have "v div 256 < 256 ^ n"
    by (simp add: less_mult_imp_div_less mult.commute)
  with Suc.IH have "be_value (be_bytes n (v div 256)) = v div 256" by blast
  moreover have "unat (of_nat (v mod 256) :: u8) = v mod 256"
    by (simp add: unat_of_nat)
  ultimately show ?case by simp
qed simp

lemma be_bytes_be_value: "be_bytes (length bs) (be_value bs) = bs"
proof (induction bs rule: rev_induct)
  case (snoc b bs)
  have "unat b < 256" using unsigned_less [of b] by simp
  then have "(256 * be_value bs + unat b) div 256 = be_value bs"
    "(256 * be_value bs + unat b) mod 256 = unat b" by auto
  with snoc show ?case by simp
qed simp

lemma read_exact_append [simp]: "length xs = n \<Longrightarrow> read_exact n (xs @ r) = Some (xs, r)"
  by (simp add: read_exact_def)

lemma read_exact_SomeD: "read_exact n bs = Some (xs, r) \<Longrightarrow> bs = xs @ r \<and> length xs = n"
  by (auto simp: read_exact_def split: if_splits)

lemma length_enc_int [simp]: "length (enc_int (w :: 'a::len word)) = LENGTH('a) div 8"
  by (simp add: enc_int_def)

lemma codec_int:
  assumes "8 dvd LENGTH('a::len)"
  shows "codec (\<lambda>_. True) (enc_int :: 'a word \<Rightarrow> bytes) dec_int"
proof
  have len: "(256 :: nat) ^ (LENGTH('a) div 8) = 2 ^ LENGTH('a)"
  proof -
    have "(256 :: nat) ^ (LENGTH('a) div 8) = (2 ^ 8) ^ (LENGTH('a) div 8)" by simp
    also have "\<dots> = 2 ^ (8 * (LENGTH('a) div 8))" by (simp only: power_mult)
    finally show ?thesis using assms by simp
  qed
  {
    fix x :: "'a word" and r
    show "dec_int (enc_int x @ r) = Some (x, r)"
      using unsigned_less [of x] by (simp add: dec_int_def enc_int_def be_value_be_bytes len)
  next
    fix bs r and x :: "'a word"
    assume "dec_int bs = Some (x, r)"
    then obtain buf where buf: "read_exact (LENGTH('a) div 8) bs = Some (buf, r)"
      and x: "x = of_nat (be_value buf)"
      by (auto simp: dec_int_def split: option.splits)
    from read_exact_SomeD [OF buf] have b: "bs = buf @ r" "length buf = LENGTH('a) div 8"
      by auto
    have "be_value buf < 2 ^ LENGTH('a)"
      using be_value_less [of buf] b(2) len by simp
    then have "unat x = be_value buf" by (simp add: x unat_of_nat)
    then show "True \<and> bs = enc_int x @ r"
      using b be_bytes_be_value [of buf] by (simp add: enc_int_def)
  }
qed

interpretation u8c: codec "\<lambda>_. True" enc_u8 dec_u8
  by (rule codec_int) simp

interpretation u16c: codec "\<lambda>_. True" enc_u16 dec_u16
  by (rule codec_int) simp

interpretation u32c: codec "\<lambda>_. True" enc_u32 dec_u32
  by (rule codec_int) simp

interpretation u64c: codec "\<lambda>_. True" enc_u64 dec_u64
  by (rule codec_int) simp

section \<open>Booleans, tuples, options and results\<close>

definition enc_bool :: "bool \<Rightarrow> bytes" where
  "enc_bool b = enc_u8 (if b then 1 else 0)"

definition dec_bool :: "bool decoder" where
  "dec_bool bs =
     (case dec_u8 bs of
        None \<Rightarrow> None
      | Some (n, r) \<Rightarrow> if n = 0 then Some (False, r) else if n = 1 then Some (True, r) else None)"

definition enc_unit_val :: "unit \<Rightarrow> bytes" where
  "enc_unit_val u = []"

definition dec_unit_val :: "unit decoder" where
  "dec_unit_val bs = Some ((), bs)"

definition enc_pair :: "('a \<Rightarrow> bytes) \<Rightarrow> ('b \<Rightarrow> bytes) \<Rightarrow> 'a \<times> 'b \<Rightarrow> bytes" where
  "enc_pair ea eb p = ea (fst p) @ eb (snd p)"

definition dec_pair :: "'a decoder \<Rightarrow> 'b decoder \<Rightarrow> ('a \<times> 'b) decoder" where
  "dec_pair da db bs =
     (case da bs of
        None \<Rightarrow> None
      | Some (a, r) \<Rightarrow> (case db r of None \<Rightarrow> None | Some (b, r') \<Rightarrow> Some ((a, b), r')))"

definition ok_pair :: "('a \<Rightarrow> bool) \<Rightarrow> ('b \<Rightarrow> bool) \<Rightarrow> 'a \<times> 'b \<Rightarrow> bool" where
  "ok_pair oa ob p \<longleftrightarrow> oa (fst p) \<and> ob (snd p)"

fun enc_option :: "('a \<Rightarrow> bytes) \<Rightarrow> 'a option \<Rightarrow> bytes" where
  "enc_option e None = enc_u8 0"
| "enc_option e (Some v) = enc_u8 1 @ e v"

definition dec_option :: "'a decoder \<Rightarrow> 'a option decoder" where
  "dec_option d bs =
     (case dec_u8 bs of
        None \<Rightarrow> None
      | Some (n, r) \<Rightarrow>
          if n = 0 then Some (None, r)
          else if n = 1 then map_option (\<lambda>(v, r'). (Some v, r')) (d r)
          else None)"

text \<open>\<open>Result<T, E>\<close> is \<open>'e + 't\<close> here, \<open>Inl\<close> the error.\<close>

fun enc_result :: "('e \<Rightarrow> bytes) \<Rightarrow> ('t \<Rightarrow> bytes) \<Rightarrow> 'e + 't \<Rightarrow> bytes" where
  "enc_result ee et (Inl e) = enc_u8 0 @ ee e"
| "enc_result ee et (Inr v) = enc_u8 1 @ et v"

definition dec_result :: "'e decoder \<Rightarrow> 't decoder \<Rightarrow> ('e + 't) decoder" where
  "dec_result de dt bs =
     (case dec_u8 bs of
        None \<Rightarrow> None
      | Some (n, r) \<Rightarrow>
          if n = 0 then map_option (\<lambda>(e, r'). (Inl e, r')) (de r)
          else if n = 1 then map_option (\<lambda>(v, r'). (Inr v, r')) (dt r)
          else None)"

lemma dec_u8_enc [simp]: "dec_u8 (enc_u8 n @ r) = Some (n, r)"
  by (simp add: u8c.dec_enc)

lemma dec_u8_SomeD: "dec_u8 bs = Some (n, r) \<Longrightarrow> bs = enc_u8 n @ r"
  using u8c.dec_canonical by blast

lemma dec_u32_enc [simp]: "dec_u32 (enc_u32 n @ r) = Some (n, r)"
  by (simp add: u32c.dec_enc)

lemma dec_u32_SomeD: "dec_u32 bs = Some (n, r) \<Longrightarrow> bs = enc_u32 n @ r"
  using u32c.dec_canonical by blast

lemma codec_bool: "codec (\<lambda>_. True) enc_bool dec_bool"
proof
  fix bs x r assume "dec_bool bs = Some (x, r)"
  then show "True \<and> bs = enc_bool x @ r"
    by (auto simp: dec_bool_def enc_bool_def split: option.splits if_splits dest: dec_u8_SomeD)
qed (simp add: dec_bool_def enc_bool_def)

lemma codec_unit_val: "codec (\<lambda>_. True) enc_unit_val dec_unit_val"
  by standard (simp_all add: enc_unit_val_def dec_unit_val_def)

lemma codec_pair:
  assumes "codec oa ea da" "codec ob eb db"
  shows "codec (ok_pair oa ob) (enc_pair ea eb) (dec_pair da db)"
proof
  fix x r assume "ok_pair oa ob x"
  then show "dec_pair da db (enc_pair ea eb x @ r) = Some (x, r)"
    by (simp add: ok_pair_def dec_pair_def enc_pair_def assms [THEN codec.dec_enc])
next
  fix bs x r assume "dec_pair da db bs = Some (x, r)"
  then show "ok_pair oa ob x \<and> bs = enc_pair ea eb x @ r"
    by (auto simp: dec_pair_def enc_pair_def ok_pair_def split: option.splits
        dest!: codec.dec_canonical [OF assms(1)] codec.dec_canonical [OF assms(2)])
qed

lemma codec_option:
  assumes "codec oa ea da"
  shows "codec (pred_option oa) (enc_option ea) (dec_option da)"
proof
  fix x r assume "pred_option oa x"
  then show "dec_option da (enc_option ea x @ r) = Some (x, r)"
    by (cases x) (simp_all add: dec_option_def codec.dec_enc [OF assms])
next
  fix bs x r assume "dec_option da bs = Some (x, r)"
  then show "pred_option oa x \<and> bs = enc_option ea x @ r"
    by (auto simp: dec_option_def split: option.splits if_splits
        dest!: dec_u8_SomeD codec.dec_canonical [OF assms])
qed

lemma codec_result:
  assumes "codec oe ee de" "codec ot et dt"
  shows "codec (pred_sum oe ot) (enc_result ee et) (dec_result de dt)"
proof
  fix x r assume "pred_sum oe ot x"
  then show "dec_result de dt (enc_result ee et x @ r) = Some (x, r)"
    by (cases x) (simp_all add: dec_result_def assms [THEN codec.dec_enc])
next
  fix bs x r assume "dec_result de dt bs = Some (x, r)"
  then show "pred_sum oe ot x \<and> bs = enc_result ee et x @ r"
    by (auto simp: dec_result_def split: option.splits if_splits
        dest!: dec_u8_SomeD codec.dec_canonical [OF assms(1)] codec.dec_canonical [OF assms(2)])
qed

section \<open>Collections\<close>

text \<open>A collection is prefixed with its length as a \<open>u32\<close>; a longer one panics.\<close>

definition len_fits :: "'a list \<Rightarrow> bool" where
  "len_fits xs \<longleftrightarrow> length xs < 2 ^ 32"

definition enc_len :: "nat \<Rightarrow> bytes" where
  "enc_len n = enc_u32 (of_nat n)"

definition dec_len :: "nat decoder" where
  "dec_len bs = map_option (\<lambda>(n, r). (unat n, r)) (dec_u32 bs)"

fun dec_items :: "'a decoder \<Rightarrow> nat \<Rightarrow> 'a list decoder" where
  "dec_items d 0 bs = Some ([], bs)"
| "dec_items d (Suc n) bs =
     (case d bs of
        None \<Rightarrow> None
      | Some (x, r) \<Rightarrow> map_option (\<lambda>(xs, r'). (x # xs, r')) (dec_items d n r))"

definition enc_vec :: "('a \<Rightarrow> bytes) \<Rightarrow> 'a list \<Rightarrow> bytes" where
  "enc_vec e xs = enc_len (length xs) @ concat (map e xs)"

definition dec_vec :: "'a decoder \<Rightarrow> 'a list decoder" where
  "dec_vec d bs =
     (case dec_len bs of None \<Rightarrow> None | Some (n, r) \<Rightarrow> dec_items d n r)"

text \<open>The specialised path for byte vectors and byte arrays: one write, one exact read.\<close>

definition enc_byte_vec :: "bytes \<Rightarrow> bytes" where
  "enc_byte_vec xs = enc_len (length xs) @ xs"

definition dec_byte_vec :: "bytes decoder" where
  "dec_byte_vec bs =
     (case dec_len bs of None \<Rightarrow> None | Some (n, r) \<Rightarrow> read_exact n r)"

definition enc_array :: "('a \<Rightarrow> bytes) \<Rightarrow> 'a list \<Rightarrow> bytes" where
  "enc_array e xs = concat (map e xs)"

definition dec_array :: "nat \<Rightarrow> 'a decoder \<Rightarrow> 'a list decoder" where
  "dec_array n d = dec_items d n"

definition enc_byte_array :: "bytes \<Rightarrow> bytes" where
  "enc_byte_array xs = xs"

definition dec_byte_array :: "nat \<Rightarrow> bytes decoder" where
  "dec_byte_array = read_exact"

lemma dec_len_enc [simp]: "n < 2 ^ 32 \<Longrightarrow> dec_len (enc_len n @ r) = Some (n, r)"
  by (simp add: dec_len_def enc_len_def unat_of_nat)

lemma dec_len_SomeD:
  assumes "dec_len bs = Some (n, r)"
  shows "bs = enc_len n @ r \<and> n < 2 ^ 32"
proof -
  from assms obtain w where w: "dec_u32 bs = Some (w, r)" "n = unat w"
    by (auto simp: dec_len_def)
  have "unat w < 2 ^ 32" using unsigned_less [of w] by simp
  with w show ?thesis by (simp add: enc_len_def dec_u32_SomeD)
qed

lemma dec_items_enc:
  assumes "codec oa ea da" "list_all oa xs"
  shows "dec_items da (length xs) (concat (map ea xs) @ r) = Some (xs, r)"
  using assms(2) by (induction xs) (simp_all add: codec.dec_enc [OF assms(1)])

lemma dec_items_SomeD:
  assumes "codec oa ea da" "dec_items da n bs = Some (xs, r)"
  shows "list_all oa xs \<and> length xs = n \<and> bs = concat (map ea xs) @ r"
  using assms(2)
proof (induction n arbitrary: bs xs)
  case (Suc n)
  then obtain x rest ys where x: "da bs = Some (x, rest)"
    and ys: "dec_items da n rest = Some (ys, r)" "xs = x # ys"
    by (auto split: option.splits)
  from codec.dec_canonical [OF assms(1) x] Suc.IH [OF ys(1)] ys(2) show ?case by simp
qed simp

lemma codec_vec:
  assumes "codec oa ea da"
  shows "codec (\<lambda>xs. list_all oa xs \<and> len_fits xs) (enc_vec ea) (dec_vec da)"
proof
  fix xs r assume "list_all oa xs \<and> len_fits xs"
  then show "dec_vec da (enc_vec ea xs @ r) = Some (xs, r)"
    by (simp add: dec_vec_def enc_vec_def len_fits_def dec_items_enc [OF assms])
next
  fix bs xs r assume "dec_vec da bs = Some (xs, r)"
  then obtain n rest where n: "dec_len bs = Some (n, rest)" "dec_items da n rest = Some (xs, r)"
    by (auto simp: dec_vec_def split: option.splits)
  from dec_len_SomeD [OF n(1)] dec_items_SomeD [OF assms n(2)]
  show "(list_all oa xs \<and> len_fits xs) \<and> bs = enc_vec ea xs @ r"
    by (simp add: enc_vec_def len_fits_def)
qed

lemma codec_array:
  assumes "codec oa ea da"
  shows "codec (\<lambda>xs. list_all oa xs \<and> length xs = n) (enc_array ea) (dec_array n da)"
proof
  fix xs r assume "list_all oa xs \<and> length xs = n"
  then show "dec_array n da (enc_array ea xs @ r) = Some (xs, r)"
    using dec_items_enc [OF assms] by (auto simp: dec_array_def enc_array_def)
next
  fix bs xs r assume "dec_array n da bs = Some (xs, r)"
  then show "(list_all oa xs \<and> length xs = n) \<and> bs = enc_array ea xs @ r"
    using dec_items_SomeD [OF assms] by (auto simp: dec_array_def enc_array_def)
qed

lemma enc_u8_single: "enc_u8 b = [b]"
proof -
  have "unat b < 256" using unsigned_less [of b] by simp
  then show ?thesis by (simp add: enc_int_def)
qed

lemma concat_enc_u8 [simp]: "concat (map enc_u8 xs) = xs"
  by (induction xs) (simp_all add: enc_u8_single)

lemma dec_u8_simps [simp]: "dec_u8 [] = None" "dec_u8 (b # bs) = Some (b, bs)"
  by (simp add: dec_int_def read_exact_def)
    (metis append_Cons append_Nil dec_u8_enc enc_u8_single)

lemma dec_items_u8: "dec_items dec_u8 n bs = read_exact n bs"
proof (induction n arbitrary: bs)
  case (Suc n)
  then show ?case by (cases bs) (auto simp: read_exact_def)
qed (simp add: read_exact_def)

lemma enc_byte_vec_eq: "enc_byte_vec = enc_vec enc_u8"
proof
  fix xs show "enc_byte_vec xs = enc_vec enc_u8 xs"
    by (simp add: enc_byte_vec_def enc_vec_def)
qed

lemma dec_byte_vec_eq: "dec_byte_vec = dec_vec dec_u8"
  by (simp add: fun_eq_iff dec_byte_vec_def dec_vec_def dec_items_u8 split: option.splits)

lemma enc_byte_array_eq: "enc_byte_array = enc_array enc_u8"
  by (simp add: fun_eq_iff enc_byte_array_def enc_array_def)

lemma dec_byte_array_eq: "dec_byte_array n = dec_array n dec_u8"
  by (simp add: fun_eq_iff dec_byte_array_def dec_array_def dec_items_u8)

lemma codec_byte_vec: "codec len_fits enc_byte_vec dec_byte_vec"
  using codec_vec [OF u8c.codec_axioms]
  by (simp add: enc_byte_vec_eq dec_byte_vec_eq list.pred_True)

lemma codec_byte_array: "codec (\<lambda>xs. length xs = n) enc_byte_array (dec_byte_array n)"
  using codec_array [OF u8c.codec_axioms]
  by (simp add: enc_byte_array_eq dec_byte_array_eq list.pred_True)

section \<open>Ordered maps and sets\<close>

text \<open>
  \<open>BTreeMap\<close> and \<open>BTreeSet\<close>: the entries in key order. The decoders refuse a key that is
  not above the last one, so every map has one encoding.
\<close>

definition enc_btmap :: "('k::linorder \<Rightarrow> bytes) \<Rightarrow> ('v \<Rightarrow> bytes) \<Rightarrow> ('k, 'v) btmap \<Rightarrow> bytes" where
  "enc_btmap ek ev m =
     enc_len (bt_len m) @ concat (map (\<lambda>(k, v). ek k @ ev v) (entries m))"

fun dec_btmap_loop ::
  "'k::linorder decoder \<Rightarrow> 'v decoder \<Rightarrow> nat \<Rightarrow> ('k, 'v) btmap \<Rightarrow> ('k, 'v) btmap decoder" where
  "dec_btmap_loop dk dv 0 m bs = Some (m, bs)"
| "dec_btmap_loop dk dv (Suc n) m bs =
     (case dk bs of
        None \<Rightarrow> None
      | Some (k, r) \<Rightarrow>
          if (case bt_last m of None \<Rightarrow> False | Some (prev, _) \<Rightarrow> k \<le> prev) then None
          else
            (case dv r of
               None \<Rightarrow> None
             | Some (v, r') \<Rightarrow>
                 if bt_get m k \<noteq> None then None
                 else dec_btmap_loop dk dv n (bt_insert k v m) r'))"

definition dec_btmap :: "'k::linorder decoder \<Rightarrow> 'v decoder \<Rightarrow> ('k, 'v) btmap decoder" where
  "dec_btmap dk dv bs =
     (case dec_len bs of None \<Rightarrow> None | Some (n, r) \<Rightarrow> dec_btmap_loop dk dv n bt_empty r)"

definition enc_btset :: "('k::linorder \<Rightarrow> bytes) \<Rightarrow> 'k btset \<Rightarrow> bytes" where
  "enc_btset ek s = enc_len (bt_len s) @ concat (map ek (bt_keys s))"

fun dec_btset_loop :: "'k::linorder decoder \<Rightarrow> nat \<Rightarrow> 'k btset \<Rightarrow> 'k btset decoder" where
  "dec_btset_loop dk 0 s bs = Some (s, bs)"
| "dec_btset_loop dk (Suc n) s bs =
     (case dk bs of
        None \<Rightarrow> None
      | Some (k, r) \<Rightarrow>
          if (case bt_last s of None \<Rightarrow> False | Some (prev, _) \<Rightarrow> k \<le> prev) then None
          else if bt_get s k \<noteq> None then None
          else dec_btset_loop dk n (bs_insert k s) r)"

definition dec_btset :: "'k::linorder decoder \<Rightarrow> 'k btset decoder" where
  "dec_btset dk bs =
     (case dec_len bs of None \<Rightarrow> None | Some (n, r) \<Rightarrow> dec_btset_loop dk n bt_empty r)"

definition ok_btmap :: "('k::linorder \<Rightarrow> bool) \<Rightarrow> ('v \<Rightarrow> bool) \<Rightarrow> ('k, 'v) btmap \<Rightarrow> bool" where
  "ok_btmap ok ov m \<longleftrightarrow> list_all (\<lambda>(k, v). ok k \<and> ov v) (entries m) \<and> len_fits (entries m)"

text \<open>Appending an entry above every key is what both loops do to the map they build.\<close>

lemma ins_entry_append:
  "\<forall>e \<in> set xs. fst e < k \<Longrightarrow> ins_entry k v xs = xs @ [(k, v)]"
  by (induction k v xs rule: ins_entry.induct) auto

lemma bt_last_above:
  assumes "sorted_keys xs" "entries m = xs"
  shows "(case bt_last m of None \<Rightarrow> False | Some (prev, _) \<Rightarrow> k \<le> prev) \<longleftrightarrow>
    \<not> (\<forall>e \<in> set xs. fst e < k)"
proof (cases xs rule: rev_cases)
  case Nil
  then show ?thesis using assms by (simp add: bt_last_def)
next
  case (snoc ys e)
  have "\<forall>e' \<in> set ys. fst e' < fst e"
    using assms(1) by (simp add: snoc sorted_keys_def sorted_wrt_append)
  then show ?thesis
    using assms(2) by (auto simp: bt_last_def snoc split: prod.splits dest: less_trans)
qed

lemma bt_get_above: "\<forall>e \<in> set (entries m). fst e < (k :: 'k::linorder) \<Longrightarrow> bt_get m k = None"
  by (force simp: bt_get_def map_of_eq_None_iff)

lemma dec_btmap_loop_enc:
  assumes "codec ok ek dk" "codec ov ev dv"
  shows "list_all (\<lambda>(k, v). ok k \<and> ov v) xs \<Longrightarrow> sorted_keys (entries m @ xs) \<Longrightarrow>
    dec_btmap_loop dk dv (length xs) m (concat (map (\<lambda>(k, v). ek k @ ev v) xs) @ r) =
      Some (Btmap (entries m @ xs), r)"
proof (induction xs arbitrary: m)
  case Nil
  then show ?case by (simp add: entries_inverse)
next
  case (Cons e xs)
  obtain k v where e: "e = (k, v)" by fastforce
  have above: "\<forall>e \<in> set (entries m). fst e < k"
    using Cons.prems(2) by (auto simp: e sorted_keys_def sorted_wrt_append)
  show ?case
    using Cons.prems Cons.IH [of "bt_insert k v m"] above bt_get_above [OF above]
    by (simp add: e ins_entry_append [OF above] bt_last_above [OF sorted_keys_entries refl]
        codec.dec_enc [OF assms(1)] codec.dec_enc [OF assms(2)])
qed

lemma dec_btmap_loop_SomeD:
  assumes "codec ok ek dk" "codec ov ev dv"
  shows "dec_btmap_loop dk dv n m bs = Some (m', r) \<Longrightarrow>
    \<exists>xs. entries m' = entries m @ xs \<and> length xs = n \<and> list_all (\<lambda>(k, v). ok k \<and> ov v) xs
      \<and> bs = concat (map (\<lambda>(k, v). ek k @ ev v) xs) @ r"
proof (induction n arbitrary: m bs)
  case (Suc n)
  from Suc.prems obtain k rk v rv where
    k: "dk bs = Some (k, rk)" and v: "dv rk = Some (v, rv)"
    and above: "\<forall>e \<in> set (entries m). fst e < k"
    and rest: "dec_btmap_loop dk dv n (bt_insert k v m) rv = Some (m', r)"
    by (auto simp: bt_last_above [OF sorted_keys_entries refl] split: option.splits if_splits)
  from Suc.IH [OF rest] obtain xs where
    xs: "entries m' = entries (bt_insert k v m) @ xs" "length xs = n"
      "list_all (\<lambda>(k, v). ok k \<and> ov v) xs" "rv = concat (map (\<lambda>(k, v). ek k @ ev v) xs) @ r"
    by blast
  have "entries m' = entries m @ (k, v) # xs"
    using xs(1) above by (simp add: ins_entry_append)
  then show ?case
    using xs codec.dec_canonical [OF assms(1) k] codec.dec_canonical [OF assms(2) v]
    by (intro exI [of _ "(k, v) # xs"]) simp
qed simp

lemma codec_btmap:
  assumes "codec ok ek dk" "codec ov ev dv"
  shows "codec (ok_btmap ok ov) (enc_btmap ek ev) (dec_btmap dk dv)"
proof
  fix m r assume "ok_btmap ok ov m"
  then show "dec_btmap dk dv (enc_btmap ek ev m @ r) = Some (m, r)"
    using dec_btmap_loop_enc [OF assms, of "entries m" bt_empty r]
    by (simp add: ok_btmap_def len_fits_def dec_btmap_def enc_btmap_def bt_len_def
        bt_empty.rep_eq entries_inverse)
next
  fix bs m r assume "dec_btmap dk dv bs = Some (m, r)"
  then obtain n rest where n: "dec_len bs = Some (n, rest)"
    "dec_btmap_loop dk dv n bt_empty rest = Some (m, r)"
    by (auto simp: dec_btmap_def split: option.splits)
  from dec_btmap_loop_SomeD [OF assms n(2)] dec_len_SomeD [OF n(1)]
  show "ok_btmap ok ov m \<and> bs = enc_btmap ek ev m @ r"
    by (auto simp: ok_btmap_def enc_btmap_def len_fits_def bt_len_def)
qed

text \<open>A set is coded as the map from its elements to nothing.\<close>

lemma enc_btset_eq: "enc_btset ek s = enc_btmap ek enc_unit_val s"
  by (simp add: enc_btset_def enc_btmap_def bt_keys_def enc_unit_val_def comp_def case_prod_unfold)

lemma dec_btset_loop_eq: "dec_btset_loop dk n s bs = dec_btmap_loop dk dec_unit_val n s bs"
  by (induction dk n s bs rule: dec_btset_loop.induct)
    (simp_all add: dec_unit_val_def split: option.splits)

lemma dec_btset_eq: "dec_btset dk = dec_btmap dk dec_unit_val"
  by (simp add: fun_eq_iff dec_btset_def dec_btmap_def dec_btset_loop_eq split: option.splits)

lemma codec_btset:
  "codec ok ek dk \<Longrightarrow> codec (ok_btmap ok (\<lambda>_. True)) (enc_btset ek) (dec_btset dk)"
  using codec_btmap [OF _ codec_unit_val] by (simp add: enc_btset_eq [abs_def] dec_btset_eq)

section \<open>Strings\<close>

text \<open>
  A Rust \<open>String\<close> is its bytes, which are well-formed UTF-8. The table of well-formed byte
  sequences (Unicode 15, table 3-7) is what \<open>String::from_utf8\<close> checks.
\<close>

definition utf8_cont :: "nat \<Rightarrow> bool" where
  "utf8_cont b \<longleftrightarrow> 128 \<le> b \<and> b < 192"

definition utf8_second :: "nat \<Rightarrow> nat \<Rightarrow> bool" where
  "utf8_second b0 b1 \<longleftrightarrow>
     (if b0 = 224 then 160 \<le> b1 \<and> b1 < 192
      else if b0 = 237 then 128 \<le> b1 \<and> b1 < 160
      else if b0 = 240 then 144 \<le> b1 \<and> b1 < 192
      else if b0 = 244 then 128 \<le> b1 \<and> b1 < 144
      else utf8_cont b1)"

fun valid_utf8 :: "nat list \<Rightarrow> bool" where
  "valid_utf8 [] \<longleftrightarrow> True"
| "valid_utf8 (b0 # bs) \<longleftrightarrow>
     (if b0 < 128 then valid_utf8 bs
      else if 194 \<le> b0 \<and> b0 < 224 then
        (case bs of b1 # r \<Rightarrow> utf8_cont b1 \<and> valid_utf8 r | _ \<Rightarrow> False)
      else if 224 \<le> b0 \<and> b0 < 240 then
        (case bs of b1 # b2 # r \<Rightarrow> utf8_second b0 b1 \<and> utf8_cont b2 \<and> valid_utf8 r | _ \<Rightarrow> False)
      else if 240 \<le> b0 \<and> b0 < 245 then
        (case bs of b1 # b2 # b3 # r \<Rightarrow>
           utf8_second b0 b1 \<and> utf8_cont b2 \<and> utf8_cont b3 \<and> valid_utf8 r | _ \<Rightarrow> False)
      else False)"

definition ok_string :: "bytes \<Rightarrow> bool" where
  "ok_string s \<longleftrightarrow> valid_utf8 (map unat s) \<and> len_fits s"

definition enc_string :: "bytes \<Rightarrow> bytes" where
  "enc_string s = enc_byte_vec s"

definition dec_string :: "bytes decoder" where
  "dec_string bs =
     (case dec_byte_vec bs of
        None \<Rightarrow> None
      | Some (s, r) \<Rightarrow> if valid_utf8 (map unat s) then Some (s, r) else None)"

lemma codec_string: "codec ok_string enc_string dec_string"
proof
  fix s r assume "ok_string s"
  then show "dec_string (enc_string s @ r) = Some (s, r)"
    by (simp add: dec_string_def enc_string_def ok_string_def codec.dec_enc [OF codec_byte_vec])
next
  fix bs s r assume "dec_string bs = Some (s, r)"
  then show "ok_string s \<and> bs = enc_string s @ r"
    by (auto simp: dec_string_def enc_string_def ok_string_def split: option.splits if_splits
        dest: codec.dec_canonical [OF codec_byte_vec])
qed

section \<open>Derived encodings\<close>

text \<open>
  The derive macros (\<open>picomint-derive/src/lib.rs\<close>). A struct is its fields in order, which is
  \<open>enc_pair\<close> again up to the record's constructor; \<open>enc_via\<close> and \<open>dec_via\<close> carry a
  codec through that isomorphism. An enum is its variant's index as one byte, then the variant's
  fields. The index is the position of the variant, unless every variant is annotated.
\<close>

definition enc_via :: "('b \<Rightarrow> 'a) \<Rightarrow> ('a \<Rightarrow> bytes) \<Rightarrow> 'b \<Rightarrow> bytes" where
  "enc_via rep e x = e (rep x)"

definition dec_via :: "('a \<Rightarrow> 'b) \<Rightarrow> 'a decoder \<Rightarrow> 'b decoder" where
  "dec_via mk d bs = map_option (\<lambda>(x, r). (mk x, r)) (d bs)"

lemma codec_via:
  assumes "codec oa ea da" "\<And>x. mk (rep x) = x" "\<And>y. rep (mk y) = y"
  shows "codec (oa \<circ> rep) (enc_via rep ea) (dec_via mk da)"
proof
  fix x r assume "(oa \<circ> rep) x"
  then show "dec_via mk da (enc_via rep ea x @ r) = Some (x, r)"
    by (simp add: dec_via_def enc_via_def codec.dec_enc [OF assms(1)] assms(2))
next
  fix bs x r assume "dec_via mk da bs = Some (x, r)"
  then show "(oa \<circ> rep) x \<and> bs = enc_via rep ea x @ r"
    by (auto simp: dec_via_def enc_via_def assms(3) dest!: codec.dec_canonical [OF assms(1)])
qed

text \<open>\<open>variant_indices\<close>: \<open>None\<close> where the macro panics.\<close>

definition variant_indices :: "nat option list \<Rightarrow> nat list option" where
  "variant_indices anns =
     (if length anns > 256 then None
      else if (\<forall>a \<in> set anns. a \<noteq> None) then Some (map the anns)
      else if (\<forall>a \<in> set anns. a = None) then Some [0..<length anns]
      else None)"

text \<open>
  An enum value is the index of its variant in declaration order with the value of its fields;
  \<open>fields i\<close> is the codec of the fields of variant \<open>i\<close>.
\<close>

definition enc_enum :: "nat list \<Rightarrow> (nat \<Rightarrow> 'a \<Rightarrow> bytes) \<Rightarrow> nat \<times> 'a \<Rightarrow> bytes" where
  "enc_enum idx fields p = enc_u8 (of_nat (idx ! fst p)) @ fields (fst p) (snd p)"

definition dec_enum :: "nat list \<Rightarrow> (nat \<Rightarrow> 'a decoder) \<Rightarrow> (nat \<times> 'a) decoder" where
  "dec_enum idx fields bs =
     (case dec_u8 bs of
        None \<Rightarrow> None
      | Some (variant, r) \<Rightarrow>
          (case find (\<lambda>i. of_nat (idx ! i) = variant) [0..<length idx] of
             None \<Rightarrow> None
           | Some i \<Rightarrow> map_option (\<lambda>(x, r'). ((i, x), r')) (fields i r)))"

lemma find_index:
  assumes "distinct idx" "\<forall>j \<in> set idx. j < 256" "i < length idx"
  shows "find (\<lambda>j. (of_nat (idx ! j) :: u8) = of_nat (idx ! i)) [0..<length idx] = Some i"
proof -
  have inj: "(of_nat (idx ! j) :: u8) = of_nat (idx ! i) \<longleftrightarrow> j = i" if "j < length idx" for j
  proof -
    have "idx ! j < 256" "idx ! i < 256" using assms that by auto
    then have "(of_nat (idx ! j) :: u8) = of_nat (idx ! i) \<longleftrightarrow> idx ! j = idx ! i"
      by (simp add: word_of_nat_eq_iff take_bit_eq_mod)
    then show ?thesis using assms(1,3) that by (simp add: nth_eq_iff_index_eq)
  qed
  then show ?thesis using assms(3) by (auto simp: find_Some_iff)
qed

lemma variant_indices_ok:
  assumes "variant_indices anns = Some idx" "distinct (filter (\<lambda>a. a \<noteq> None) anns)"
    "\<forall>a j. a \<in> set anns \<longrightarrow> a = Some j \<longrightarrow> j < 256"
  shows "distinct idx \<and> (\<forall>j \<in> set idx. j < 256) \<and> length idx = length anns"
proof (cases "\<forall>a \<in> set anns. a \<noteq> None")
  case True
  then have "filter (\<lambda>a. a \<noteq> None) anns = anns" by (simp add: filter_id_conv)
  moreover have "idx = map the anns"
    using assms(1) True by (auto simp: variant_indices_def split: if_splits)
  moreover have "inj_on the (set anns)"
    using True by (metis inj_onI option.expand)
  ultimately show ?thesis
    using assms(2,3) True by (auto simp: distinct_map)
next
  case False
  then show ?thesis
    using assms(1) by (auto simp: variant_indices_def split: if_splits)
qed

lemma codec_enum:
  assumes idx: "distinct idx" "\<forall>j \<in> set idx. j < 256"
    and fields: "\<And>i. i < length idx \<Longrightarrow> codec (okf i) (encf i) (decf i)"
  shows "codec (\<lambda>p. fst p < length idx \<and> okf (fst p) (snd p)) (enc_enum idx encf) (dec_enum idx decf)"
proof
  fix p r assume ok: "fst p < length idx \<and> okf (fst p) (snd p)"
  then show "dec_enum idx decf (enc_enum idx encf p @ r) = Some (p, r)"
    using codec.dec_enc [OF fields]
    by (simp add: dec_enum_def enc_enum_def find_index [OF idx])
next
  fix bs p r assume "dec_enum idx decf bs = Some (p, r)"
  then obtain v rest i x where v: "dec_u8 bs = Some (v, rest)"
    and i: "find (\<lambda>i. of_nat (idx ! i) = v) [0..<length idx] = Some i"
    and x: "decf i rest = Some (x, r)" "p = (i, x)"
    by (auto simp: dec_enum_def split: option.splits)
  from i have "i < length idx" "of_nat (idx ! i) = v" by (auto simp: find_Some_iff)
  then show "(fst p < length idx \<and> okf (fst p) (snd p)) \<and> bs = enc_enum idx encf p @ r"
    using codec.dec_canonical [OF fields x(1)] x(2) dec_u8_SomeD [OF v] by (simp add: enc_enum_def)
qed

end
