(* ===== verification/Mint_Nodes.thy ===== *)
theory Mint_Nodes
  imports Codec
begin

text \<open>
  The small types every part shares: node ids and the size of a mint
  (\<open>picomint-core/src/node.rs\<close>), amounts in millisatoshi (\<open>picomint-core/src/amount.rs\<close>)
  and the consensus version (\<open>picomint-core/src/version.rs\<close>), with the quorum facts the
  Byzantine fault tolerance rests on: of \<open>3f + 1\<close> nodes any two sets of \<open>2f + 1\<close> share an
  honest one.
\<close>

section \<open>Node ids and the size of a mint\<close>

type_synonym node_id = u8

definition allowed_mint_sizes :: "nat list" where
  "allowed_mint_sizes = [4, 7, 10, 13, 16, 19, 22]"

text \<open>\<open>NumNodes\<close> stores the number \<open>f\<close> of Byzantine nodes tolerated.\<close>

datatype num_nodes = NumNodes (max_evil: nat)

definition total :: "num_nodes \<Rightarrow> nat" where
  "total n = 3 * max_evil n + 1"

definition one_honest :: "num_nodes \<Rightarrow> nat" where
  "one_honest n = max_evil n + 1"

definition threshold :: "num_nodes \<Rightarrow> nat" where
  "threshold n = 2 * max_evil n + 1"

text \<open>\<open>(0u8..(self.total() as u8)).map(NodeId)\<close>: the cast truncates.\<close>

definition node_ids :: "num_nodes \<Rightarrow> node_id list" where
  "node_ids n = map of_nat [0..<unat (of_nat (total n) :: u8)]"

text \<open>\<open>NumNodes::from(usize)\<close>: a size outside the list panics.\<close>

definition num_nodes_from :: "nat \<Rightarrow> num_nodes option" where
  "num_nodes_from t = (if t \<in> set allowed_mint_sizes then Some (NumNodes (t div 3)) else None)"

text \<open>\<open>to_num_nodes\<close> of a map keyed by node ids.\<close>

definition to_num_nodes :: "(node_id, 'a) btmap \<Rightarrow> num_nodes option" where
  "to_num_nodes m = num_nodes_from (bt_len m)"

definition small_mint :: "num_nodes \<Rightarrow> bool" where
  "small_mint n \<longleftrightarrow> total n < 256"

lemma num_nodes_from_total:
  "num_nodes_from t = Some n \<Longrightarrow> total n = t \<and> small_mint n \<and> 1 \<le> max_evil n"
  by (auto simp: num_nodes_from_def allowed_mint_sizes_def total_def small_mint_def split: if_splits)

lemma unat_total [simp]: "small_mint n \<Longrightarrow> unat (of_nat (total n) :: u8) = total n"
  by (simp add: small_mint_def unat_of_nat)

lemma set_node_ids:
  assumes "small_mint n"
  shows "set (node_ids n) = {c. unat c < total n}"
proof -
  have "c \<in> of_nat ` {0..<total n}" if "unat c < total n" for c :: u8
    using that by (intro image_eqI [of _ _ "unat c"]) auto
  moreover have "unat (of_nat i :: u8) < total n" if "i < total n" for i
    using that assms by (simp add: unat_of_nat small_mint_def)
  ultimately show ?thesis
    using assms by (auto simp: node_ids_def)
qed

lemma card_node_ids: "small_mint n \<Longrightarrow> card (set (node_ids n)) = total n"
proof -
  assume n: "small_mint n"
  have "inj_on (of_nat :: nat \<Rightarrow> u8) {0..<total n}"
    using n by (auto simp: inj_on_def small_mint_def word_of_nat_eq_iff take_bit_eq_mod)
  then show ?thesis
    using n card_image [of "of_nat :: nat \<Rightarrow> u8" "{0..<total n}"] by (simp add: node_ids_def)
qed

lemma distinct_node_ids: "small_mint n \<Longrightarrow> distinct (node_ids n)"
  by (metis card_distinct card_node_ids length_map length_upt minus_nat.diff_0 node_ids_def unat_total)

section \<open>Quorums\<close>

text \<open>
  The contract a quorum system offers to the ordering protocol: a family of sets of nodes any two
  of which share a node of the honest set.
\<close>

locale quorums =
  fixes quorum :: "'n set \<Rightarrow> bool" and honest :: "'n set"
  assumes honest_intersection: "quorum A \<Longrightarrow> quorum B \<Longrightarrow> \<exists>c. c \<in> A \<and> c \<in> B \<and> c \<in> honest"
begin

lemma quorum_has_honest: "quorum A \<Longrightarrow> \<exists>c \<in> A. c \<in> honest"
  using honest_intersection by blast

text \<open>
  What makes votes consistent: two functions on the honest nodes that a quorum answers alike
  cannot disagree where they are the same function.
\<close>

lemma unanimous_agree:
  assumes "quorum A" "quorum B" "\<And>c. c \<in> A \<Longrightarrow> vote c = x" "\<And>c. c \<in> B \<Longrightarrow> vote c = y"
  shows "x = y"
  using honest_intersection [OF assms(1,2)] assms(3,4) by blast

end

definition is_quorum :: "num_nodes \<Rightarrow> node_id set \<Rightarrow> bool" where
  "is_quorum n A \<longleftrightarrow> A \<subseteq> set (node_ids n) \<and> threshold n \<le> card A"

text \<open>An honest set leaves out at most \<open>f\<close> nodes of the mint.\<close>

definition honest_set :: "num_nodes \<Rightarrow> node_id set \<Rightarrow> bool" where
  "honest_set n H \<longleftrightarrow> small_mint n \<and> H \<subseteq> set (node_ids n) \<and> card (set (node_ids n) - H) \<le> max_evil n"

lemma quorum_overlap:
  assumes "small_mint n" "is_quorum n A" "is_quorum n B"
  shows "one_honest n \<le> card (A \<inter> B)"
proof -
  have "card A + card B \<le> total n + card (A \<inter> B)"
    using card_Int_ge [of "set (node_ids n)" A B] assms
    by (simp add: is_quorum_def card_node_ids)
  with assms(2,3) show ?thesis
    by (simp add: is_quorum_def threshold_def total_def one_honest_def)
qed

lemma quorum_honest_overlap:
  assumes "honest_set n H" "is_quorum n A" "is_quorum n B"
  shows "\<exists>c. c \<in> A \<and> c \<in> B \<and> c \<in> H"
proof (rule ccontr)
  assume "\<not> ?thesis"
  then have "A \<inter> B \<subseteq> set (node_ids n) - H"
    using assms(2) by (auto simp: is_quorum_def)
  then have "card (A \<inter> B) \<le> max_evil n"
    using assms(1) card_mono [of "set (node_ids n) - H" "A \<inter> B"]
    by (simp add: honest_set_def)
  with quorum_overlap [OF _ assms(2,3)] assms(1) show False
    by (simp add: honest_set_def one_honest_def)
qed

text \<open>
  The sets of at least \<open>threshold\<close> nodes of a mint are such a quorum system, for every set of
  honest nodes that leaves out at most \<open>f\<close> of them.
\<close>

definition mint_quorum :: "num_nodes \<Rightarrow> node_id set \<Rightarrow> node_id set \<Rightarrow> bool" where
  "mint_quorum n H A \<longleftrightarrow> honest_set n H \<and> is_quorum n A"

interpretation mq: quorums "mint_quorum n H" H for n H
  by unfold_locales (auto simp: mint_quorum_def dest: quorum_honest_overlap)

section \<open>Amounts\<close>

text \<open>\<open>Amount(pub u64)\<close>, in millisatoshi. The checked operations are Rust's.\<close>

datatype amount = Amount (msat: u64)

definition amount_zero :: amount where
  "amount_zero = Amount 0"

definition amount_from_sat :: "u64 \<Rightarrow> amount" where
  "amount_from_sat sat = Amount (sat * 1000)"

definition amount_checked_add :: "amount \<Rightarrow> amount \<Rightarrow> amount option" where
  "amount_checked_add a b = map_option Amount (checked_add (msat a) (msat b))"

definition amount_checked_sub :: "amount \<Rightarrow> amount \<Rightarrow> amount option" where
  "amount_checked_sub a b = map_option Amount (checked_sub (msat a) (msat b))"

definition amount_saturating_sub :: "amount \<Rightarrow> amount \<Rightarrow> amount" where
  "amount_saturating_sub a b = Amount (saturating_sub (msat a) (msat b))"

abbreviation amount_nat :: "amount \<Rightarrow> nat" where
  "amount_nat a \<equiv> unat (msat a)"

lemma amount_checked_add_SomeD [arith_ok, dest]:
  "amount_checked_add a b = Some c \<Longrightarrow> amount_nat c = amount_nat a + amount_nat b"
  by (auto simp: amount_checked_add_def)

lemma amount_checked_sub_SomeD [arith_ok, dest]:
  "amount_checked_sub a b = Some c \<Longrightarrow> amount_nat a = amount_nat c + amount_nat b"
  by (auto simp: amount_checked_sub_def)

section \<open>Consensus versions\<close>

text \<open>Votes compare lexicographically, major first, by the derived order of the struct.\<close>

datatype consensus_version = ConsensusVersion (major: u8) (minor: u8)

instantiation consensus_version :: linorder
begin

definition less_eq_consensus_version :: "consensus_version \<Rightarrow> consensus_version \<Rightarrow> bool" where
  "less_eq_consensus_version v w \<longleftrightarrow>
     major v < major w \<or> major v = major w \<and> minor v \<le> minor w"

definition less_consensus_version :: "consensus_version \<Rightarrow> consensus_version \<Rightarrow> bool" where
  "less_consensus_version v w \<longleftrightarrow>
     major v < major w \<or> major v = major w \<and> minor v < minor w"

instance
  by standard
    (auto simp: less_eq_consensus_version_def less_consensus_version_def
      intro: consensus_version.expand)

end

text \<open>The highest version this binary runs.\<close>

definition CONSENSUS_VERSION :: consensus_version where
  "CONSENSUS_VERSION = ConsensusVersion 1 0"

end
