(* ===== verification/Bft_Unit.thy ===== *)
theory Bft_Unit
  imports Mint_Nodes
begin

text \<open>
  The units of the broadcast DAG (\<open>picomint-bft/src/unit.rs\<close>), the wire messages
  (\<open>network.rs\<close>) and the signing keychain (\<open>keychain.rs\<close>). SHA-256 and the Schnorr
  signatures are foreign code: they are the fields of the record \<open>crypto\<close>, an argument of
  every definition that uses them. A round is a \<open>u32\<close> in the code and a natural number
  here: its wire form is four bytes, and the engine's only saturating addition on a round read
  off the wire is written out where it happens.
\<close>

record crypto =
  sha256 :: "bytes \<Rightarrow> hash256"
  sign_schnorr :: "bytes \<Rightarrow> hash256 \<Rightarrow> bytes"  \<comment> \<open>secret key, digest\<close>
  verify_schnorr :: "bytes \<Rightarrow> hash256 \<Rightarrow> bytes \<Rightarrow> bool"  \<comment> \<open>signature, digest, public key\<close>

section \<open>Units and messages\<close>

record bft_unit =
  round :: nat
  creator :: node_id
  parents :: "(node_id, hash256) btmap"
  data :: "hash256 option"

record 'd unit_envelope =
  unit :: bft_unit
  payload :: "'d list"
  signature :: bytes

datatype 'd message = MUnit "'d unit_envelope" | MRequest hash256

datatype recipient = Everyone | Node node_id

definition enc_hash :: "hash256 \<Rightarrow> bytes" where
  "enc_hash = enc_int"

definition dec_hash :: "hash256 decoder" where
  "dec_hash = dec_int"

definition enc_unit :: "bft_unit \<Rightarrow> bytes" where
  "enc_unit u =
     enc_len (round u) @ enc_u8 (creator u) @ enc_btmap enc_u8 enc_hash (parents u)
     @ enc_option enc_hash (data u)"

definition dec_unit :: "bft_unit decoder" where
  "dec_unit =
     dec_via (\<lambda>(r, c, ps, d). \<lparr>round = r, creator = c, parents = ps, data = d\<rparr>)
       (dec_pair dec_len (dec_pair dec_u8 (dec_pair (dec_btmap dec_u8 dec_hash) (dec_option dec_hash))))"

definition ok_unit :: "bft_unit \<Rightarrow> bool" where
  "ok_unit u \<longleftrightarrow> round u < 2 ^ 32 \<and> bt_len (parents u) < 2 ^ 32"

text \<open>\<open>Unit::hash\<close>: the SHA-256 of the encoding, the unit's identity everywhere.\<close>

definition unit_hash :: "crypto \<Rightarrow> bft_unit \<Rightarrow> hash256" where
  "unit_hash C u = sha256 C (enc_unit u)"

text \<open>
  The consensus hash of a payload of items with encoder \<open>enc_item\<close>, and the commitment a unit
  carries to it: none when the payload is empty.
\<close>

definition payload_hash :: "crypto \<Rightarrow> ('d \<Rightarrow> bytes) \<Rightarrow> 'd list \<Rightarrow> hash256" where
  "payload_hash C enc_item ds = sha256 C (enc_vec enc_item ds)"

definition payload_commitment :: "crypto \<Rightarrow> ('d \<Rightarrow> bytes) \<Rightarrow> 'd list \<Rightarrow> hash256 option" where
  "payload_commitment C enc_item ds = (if ds \<noteq> [] then Some (payload_hash C enc_item ds) else None)"

interpretation hashc: codec "\<lambda>_. True" enc_hash dec_hash
  unfolding enc_hash_def dec_hash_def by (rule codec_int) simp

lemma codec_len: "codec (\<lambda>n. n < 2 ^ 32) enc_len dec_len"
proof
  fix bs x r assume "dec_len bs = Some (x, r)"
  then show "x < 2 ^ 32 \<and> bs = enc_len x @ r"
    using dec_len_SomeD by blast
qed simp

interpretation unitc: codec ok_unit enc_unit dec_unit
proof -
  let ?rep = "\<lambda>u. (round u, creator u, parents u, data u)"
  let ?mk = "\<lambda>(r, c, ps, d). \<lparr>round = r, creator = c, parents = ps, data = d\<rparr>"
  have "codec
    (ok_pair (\<lambda>n. n < 2 ^ 32) (ok_pair (\<lambda>_. True)
      (ok_pair (ok_btmap (\<lambda>_. True) (\<lambda>_. True)) (pred_option (\<lambda>_. True)))) \<circ> ?rep)
    (enc_via ?rep (enc_pair enc_len (enc_pair enc_u8
      (enc_pair (enc_btmap enc_u8 enc_hash) (enc_option enc_hash)))))
    dec_unit"
    unfolding dec_unit_def
    by (intro codec_via codec_pair codec_len codec_btmap codec_option u8c.codec_axioms
        hashc.codec_axioms) auto
  moreover have "enc_via ?rep (enc_pair enc_len (enc_pair enc_u8
      (enc_pair (enc_btmap enc_u8 enc_hash) (enc_option enc_hash)))) = enc_unit"
    by (simp add: fun_eq_iff enc_via_def enc_pair_def enc_unit_def)
  moreover have "ok_pair (\<lambda>n. n < 2 ^ 32) (ok_pair (\<lambda>_. True)
      (ok_pair (ok_btmap (\<lambda>_. True) (\<lambda>_. True)) (pred_option (\<lambda>_. True)))) \<circ> ?rep = ok_unit"
    by (auto simp: fun_eq_iff ok_pair_def ok_btmap_def ok_unit_def len_fits_def bt_len_def
        list_all_iff option.pred_True)
  ultimately show "codec ok_unit enc_unit dec_unit" by simp
qed

section \<open>The keychain\<close>

record keychain =
  keypair :: bytes
  pubkeys :: "(node_id, bytes) btmap"

text \<open>
  Both sign and verify take the encoding of the value. The session in front of it is what binds
  the signature to the session.
\<close>

definition keychain_sign :: "crypto \<Rightarrow> keychain \<Rightarrow> u32 \<Rightarrow> bytes \<Rightarrow> bytes" where
  "keychain_sign C kc session v = sign_schnorr C (keypair kc) (sha256 C (enc_u32 session @ v))"

definition keychain_verify :: "crypto \<Rightarrow> keychain \<Rightarrow> u32 \<Rightarrow> bytes \<Rightarrow> bytes \<Rightarrow> node_id \<Rightarrow> bool" where
  "keychain_verify C kc session v sig node =
     (case bt_get (pubkeys kc) node of
        None \<Rightarrow> False
      | Some pk \<Rightarrow> verify_schnorr C sig (sha256 C (enc_u32 session @ v)) pk)"

text \<open>Two values that sign to the same message are equal and of the same session.\<close>

lemma signed_bytes_inj:
  assumes "ok_unit u" "ok_unit u'" "enc_u32 s @ enc_unit u = enc_u32 s' @ enc_unit u'"
  shows "s = s' \<and> u = u'"
  using u32c.prefix_free [OF TrueI TrueI assms(3)] unitc.enc_inj [OF assms(1,2)] by simp

end
