(* ===== verification/Bft_State.thy ===== *)
theory Bft_State
  imports Bft_Unit
begin

text \<open>
  The state of a broadcast engine and its extension cascade (\<open>picomint-bft/src/engine.rs\<close>).
  The three persistent tables come first; the fields after them are the in-memory state the code
  rebuilds on startup. The channel of ordered items and the network are the logs \<open>ordered\<close> and
  \<open>sent\<close> of what was put on them.
\<close>

record 'd engine =
  my_id :: node_id
  eng_session :: u32
  num_n :: num_nodes
  keychain_of :: keychain
  unit_table :: "(hash256, bft_unit) btmap"
  unit_data_table :: "(hash256, 'd list) btmap"
  unit_signature_table :: "(hash256, bytes) btmap"
  rounds :: "(nat, hash256 btset) btmap"
  extended :: "(hash256, bft_unit) btmap"
  emitted :: "hash256 btset"
  next_decide_round :: nat
  decided :: "(hash256, bool \<times> nat) btmap"
  votes :: "(hash256 \<times> hash256, bool) btmap"
  unordered_own_data :: "nat btset"
  own_top :: "(nat \<times> hash256) option"
  request_sent_at :: "(hash256, nat) btmap"
  ordered :: "(nat \<times> node_id \<times> 'd) list"
  sent :: "(recipient \<times> 'd message) list"

text \<open>\<open>Engine::new\<close> over the tables of the database: every in-memory field starts empty.\<close>

definition engine_new ::
  "node_id \<Rightarrow> u32 \<Rightarrow> num_nodes \<Rightarrow> keychain \<Rightarrow> (hash256, bft_unit) btmap \<Rightarrow>
   (hash256, 'd list) btmap \<Rightarrow> (hash256, bytes) btmap \<Rightarrow> 'd engine" where
  "engine_new i s n kc units datas sigs =
     \<lparr>my_id = i, eng_session = s, num_n = n, keychain_of = kc,
      unit_table = units, unit_data_table = datas, unit_signature_table = sigs,
      rounds = bt_empty, extended = bt_empty, emitted = bt_empty, next_decide_round = 0,
      decided = bt_empty, votes = bt_empty, unordered_own_data = bt_empty, own_top = None,
      request_sent_at = bt_empty, ordered = [], sent = []\<rparr>"

definition round_saturating_add :: "nat \<Rightarrow> nat \<Rightarrow> nat" where
  "round_saturating_add r k = min (r + k) (2 ^ 32 - 1)"

definition is_extended :: "'d engine \<Rightarrow> hash256 \<Rightarrow> bool" where
  "is_extended e h = bt_has (extended e) h"

text \<open>The stored units of a round, in ascending hash order.\<close>

definition units_at :: "(nat, hash256 btset) btmap \<Rightarrow> nat \<Rightarrow> hash256 list" where
  "units_at rs r = (case bt_get rs r of None \<Rightarrow> [] | Some s \<Rightarrow> bt_keys s)"

definition round_units :: "'d engine \<Rightarrow> nat \<Rightarrow> hash256 list" where
  "round_units e r = units_at (rounds e) r"

text \<open>The extended units of a round, in ascending hash order.\<close>

definition extended_at ::
  "(nat, hash256 btset) btmap \<Rightarrow> (hash256, bft_unit) btmap \<Rightarrow> nat \<Rightarrow> hash256 list" where
  "extended_at rs ext r = filter (\<lambda>h. bt_has ext h) (units_at rs r)"

text \<open>\<open>self.rounds.entry(round).or_default().insert(hash)\<close>\<close>

definition index_round ::
  "nat \<Rightarrow> hash256 \<Rightarrow> (nat, hash256 btset) btmap \<Rightarrow> (nat, hash256 btset) btmap" where
  "index_round r h rs =
     bt_insert r (bs_insert h (case bt_get rs r of None \<Rightarrow> bt_empty | Some s \<Rightarrow> s)) rs"

section \<open>The extension cascade\<close>

text \<open>
  Every parent is an extended unit, created by the node it is keyed under, exactly one round down.
\<close>

definition parents_fed :: "(hash256, bft_unit) btmap \<Rightarrow> bft_unit \<Rightarrow> bool" where
  "parents_fed ext u =
     list_all
       (\<lambda>(c, p). case bt_get ext p of
          None \<Rightarrow> False
        | Some q \<Rightarrow> creator q = c \<and> round q + 1 = round u)
       (entries (parents u))"

definition maybe_extend :: "hash256 \<Rightarrow> 'd engine \<Rightarrow> nat option \<times> 'd engine" where
  "maybe_extend h e =
     (if is_extended e h then (None, e)
      else
        (case bt_get (unit_table e) h of
           None \<Rightarrow> (None, e)
         | Some u \<Rightarrow>
             if \<not> parents_fed (extended e) u then (None, e)
             else (Some (round u), e\<lparr>extended := bt_insert h u (extended e)\<rparr>)))"

text \<open>One sweep over a round's candidates; the flag says whether any was extended.\<close>

fun extend_all :: "hash256 list \<Rightarrow> 'd engine \<Rightarrow> bool \<times> 'd engine" where
  "extend_all [] e = (False, e)"
| "extend_all (h # hs) e =
     (case maybe_extend h e of
        (r, e') \<Rightarrow>
          (case extend_all hs e' of (any, e'') \<Rightarrow> (r \<noteq> None \<or> any, e'')))"

definition unextended :: "'d engine \<Rightarrow> hash256 set" where
  "unextended e = {h. bt_get (unit_table e) h \<noteq> None} - {h. bt_get (extended e) h \<noteq> None}"

lemma finite_unextended [simp]: "finite (unextended e)"
  by (simp add: unextended_def)

lemma maybe_extend_simps [simp]:
  "unit_table (snd (maybe_extend h e)) = unit_table e"
  by (simp add: maybe_extend_def split: option.splits)

lemma unextended_maybe_extend:
  "unextended (snd (maybe_extend h e)) \<subseteq> unextended e"
  "fst (maybe_extend h e) \<noteq> None \<Longrightarrow> unextended (snd (maybe_extend h e)) \<subset> unextended e"
  by (auto simp: maybe_extend_def unextended_def is_extended_def bt_has_def
      split: option.splits if_splits)

lemma unextended_extend_all:
  "unextended (snd (extend_all hs e)) \<subseteq> unextended e \<and>
   (fst (extend_all hs e) \<longrightarrow> unextended (snd (extend_all hs e)) \<subset> unextended e)"
proof (induction hs arbitrary: e)
  case (Cons h hs)
  obtain r e' where m: "maybe_extend h e = (r, e')" by fastforce
  obtain any e'' where a: "extend_all hs e' = (any, e'')" by fastforce
  have "unextended e' \<subseteq> unextended e" "r \<noteq> None \<Longrightarrow> unextended e' \<subset> unextended e"
    using unextended_maybe_extend [of h e] by (simp_all add: m)
  moreover have "unextended e'' \<subseteq> unextended e'" "any \<Longrightarrow> unextended e'' \<subset> unextended e'"
    using Cons.IH [of e'] by (simp_all add: a)
  ultimately show ?case by (auto simp: m a)
qed simp

text \<open>
  Sweeping ascending rounds while a sweep extends something. Every such sweep shrinks the set of
  stored units that are not extended, so the loop ends even where the round number saturates.
\<close>

function extend_sweep :: "nat \<Rightarrow> 'd engine \<Rightarrow> 'd engine" where
  "extend_sweep r e =
     (case extend_all (round_units e r) e of
        (any, e') \<Rightarrow> if \<not> any then e' else extend_sweep (round_saturating_add r 1) e')"
  by pat_completeness auto
termination
proof (relation "measure (\<lambda>(r, e). card (unextended e))", goal_cases)
  case (2 r e any e')
  then have "unextended e' \<subset> unextended e"
    using unextended_extend_all [of "round_units e r" e] by (metis fst_conv snd_conv)
  then show ?case by (auto intro: psubset_card_mono)
qed simp

declare extend_sweep.simps [simp del]

definition try_extend :: "hash256 \<Rightarrow> 'd engine \<Rightarrow> 'd engine" where
  "try_extend h e =
     (case maybe_extend h e of
        (None, e') \<Rightarrow> e'
      | (Some r, e') \<Rightarrow> extend_sweep (round_saturating_add r 1) e')"

section \<open>What the cascade keeps\<close>

text \<open>
  The cascade changes nothing but \<open>extended\<close>, which it only grows: a state is related to what
  the cascade makes of it by \<open>grown\<close>.
\<close>

definition grown :: "'d engine \<Rightarrow> 'd engine \<Rightarrow> bool" where
  "grown e e' \<longleftrightarrow> (\<exists>ext. e' = e\<lparr>extended := ext\<rparr> \<and> bt_sub (extended e) ext)"

lemma grown_refl [simp]: "grown e e"
  unfolding grown_def by (rule exI [of _ "extended e"]) simp

lemma grown_trans: "grown e e' \<Longrightarrow> grown e' e'' \<Longrightarrow> grown e e''"
proof -
  assume "grown e e'" "grown e' e''"
  then obtain x y where "e' = e\<lparr>extended := x\<rparr>" "bt_sub (extended e) x"
    "e'' = e\<lparr>extended := y\<rparr>" "bt_sub x y"
    by (auto simp: grown_def)
  then show ?thesis by (auto simp: grown_def intro!: exI [of _ y] bt_sub_trans [of _ x])
qed

lemma grownI: "bt_sub (extended e) ext \<Longrightarrow> grown e (e\<lparr>extended := ext\<rparr>)"
  by (auto simp: grown_def)

lemma maybe_extend_grown: "grown e (snd (maybe_extend h e))"
  by (auto simp: maybe_extend_def is_extended_def bt_has_def
      split: option.splits intro!: grownI bt_sub_insert)

lemma extend_all_grown: "grown e (snd (extend_all hs e))"
proof (induction hs arbitrary: e)
  case (Cons h hs)
  obtain r e' where m: "maybe_extend h e = (r, e')" by fastforce
  obtain any e'' where a: "extend_all hs e' = (any, e'')" by fastforce
  show ?case
    using maybe_extend_grown [of e h] Cons.IH [of e'] by (auto simp: m a intro: grown_trans)
qed simp

lemma extend_sweep_grown: "grown e (extend_sweep r e)"
proof (induction r e rule: extend_sweep.induct)
  case (1 r e)
  obtain any e' where a: "extend_all (round_units e r) e = (any, e')" by fastforce
  have "grown e e'" using extend_all_grown [of e "round_units e r"] by (simp add: a)
  with 1 a show ?case
    by (subst extend_sweep.simps) (auto intro: grown_trans)
qed

lemma try_extend_grown: "grown e (try_extend h e)"
proof -
  obtain r e' where m: "maybe_extend h e = (r, e')" by fastforce
  show ?thesis
    using maybe_extend_grown [of e h] grown_trans [OF _ extend_sweep_grown, of e e']
    by (auto simp: try_extend_def m split: option.splits)
qed

text \<open>
  An invariant of the extended map is kept by the whole cascade as soon as adding one fed unit of
  the table keeps it.
\<close>

definition fed_step :: "(hash256, bft_unit) btmap \<Rightarrow> ((hash256, bft_unit) btmap \<Rightarrow> bool) \<Rightarrow> bool" where
  "fed_step tab I \<longleftrightarrow>
     (\<forall>ext h u. I ext \<longrightarrow> bt_get ext h = None \<longrightarrow> bt_get tab h = Some u \<longrightarrow>
        parents_fed ext u \<longrightarrow> I (bt_insert h u ext))"

lemma grown_fields:
  "grown e e' \<Longrightarrow> unit_table e' = unit_table e \<and> rounds e' = rounds e"
  by (auto simp: grown_def)

lemma maybe_extend_inv:
  "fed_step (unit_table e) I \<Longrightarrow> I (extended e) \<Longrightarrow> I (extended (snd (maybe_extend h e)))"
  by (auto simp: fed_step_def maybe_extend_def is_extended_def bt_has_def split: option.splits)

lemma extend_all_inv:
  "fed_step (unit_table e) I \<Longrightarrow> I (extended e) \<Longrightarrow> I (extended (snd (extend_all hs e)))"
proof (induction hs arbitrary: e)
  case (Cons h hs)
  obtain r e' where m: "maybe_extend h e = (r, e')" by fastforce
  obtain any e'' where a: "extend_all hs e' = (any, e'')" by fastforce
  have "I (extended e')" "unit_table e' = unit_table e"
    using maybe_extend_inv [OF Cons.prems, of h] maybe_extend_simps [of h e]
    by (simp_all add: m)
  with Cons.IH [of e'] Cons.prems show ?case by (simp add: m a)
qed simp

lemma extend_sweep_inv:
  "fed_step (unit_table e) I \<Longrightarrow> I (extended e) \<Longrightarrow> I (extended (extend_sweep r e))"
proof (induction r e rule: extend_sweep.induct)
  case (1 r e)
  obtain any e' where a: "extend_all (round_units e r) e = (any, e')" by fastforce
  have "I (extended e')" "unit_table e' = unit_table e"
    using extend_all_inv [OF 1(2,3), of "round_units e r"]
      grown_fields [OF extend_all_grown [of e "round_units e r"]] by (simp_all add: a)
  with 1 a show ?case
    by (subst extend_sweep.simps) auto
qed

lemma try_extend_inv:
  assumes "fed_step (unit_table e) I" "I (extended e)"
  shows "I (extended (try_extend h e))"
proof -
  obtain r e' where m: "maybe_extend h e = (r, e')" by fastforce
  have "I (extended e')" "unit_table e' = unit_table e"
    using maybe_extend_inv [OF assms, of h] maybe_extend_simps [of h e] by (simp_all add: m)
  then show ?thesis
    using extend_sweep_inv [of e' I] assms(1) by (auto simp: try_extend_def m split: option.splits)
qed

end
