(* ===== verification/Bft_Extender.thy ===== *)
theory Bft_Extender
  imports Bft_State
begin

unbundle bit_operations_syntax

text \<open>
  The order extender (\<open>picomint-bft/src/extender.rs\<close>): virtual votes, decisions, head
  election and batch extraction, with the vote and decision caches threaded through as the code
  mutates them. A panic (\<open>expect\<close>, \<open>assert!\<close>, an arithmetic underflow) is the value
  \<open>None\<close> of the outer option. The theory \<open>Bft_Refine\<close> proves that no panic happens on a
  well-formed engine and that the caches compute the votes of \<open>Bft_Votes\<close>.
\<close>

section \<open>Votes\<close>

definition common_vote :: "crypto \<Rightarrow> hash256 \<Rightarrow> nat \<Rightarrow> nat \<Rightarrow> bool option" where
  "common_vote C cand cand_round r =
     (if r < cand_round then None
      else if r - cand_round = 2 then Some True
      else if r - cand_round = 3 then Some False
      else Some (hd (enc_hash (sha256 C (enc_len r @ enc_hash cand))) AND 1 = 1))"

type_synonym vote_cache = "(hash256 \<times> hash256, bool) btmap"

text \<open>
  The recursion of \<open>vote\<close> descends one round per level; the fuel bounds its depth, and every
  caller passes one more than the voter's round, which \<open>Bft_Refine\<close> shows to be enough.
\<close>

fun vote ::
  "crypto \<Rightarrow> nat \<Rightarrow> (hash256, bft_unit) btmap \<Rightarrow> hash256 \<Rightarrow> hash256 \<Rightarrow> vote_cache \<Rightarrow>
   (bool \<times> vote_cache) option" where
  "vote C 0 ext cand u vs = None"
| "vote C (Suc fuel) ext cand u vs =
     (case bt_get ext cand of
        None \<Rightarrow> None
      | Some candu \<Rightarrow>
          (case bt_get ext u of
             None \<Rightarrow> None
           | Some voter \<Rightarrow>
               if round voter = round candu + 1 then
                 Some (bt_get (parents voter) (creator candu) = Some cand, vs)
               else
                 (case bt_get vs (cand, u) of
                    Some b \<Rightarrow> Some (b, vs)
                  | None \<Rightarrow>
                      (case common_vote C cand (round candu) (round voter) of
                         None \<Rightarrow> None
                       | Some dflt \<Rightarrow>
                           (case map_state (\<lambda>p. vote C fuel ext cand p)
                                   (bt_values (parents voter)) vs of
                              None \<Rightarrow> None
                            | Some (parent_votes, vs') \<Rightarrow>
                                let b = (if list_all (\<lambda>b. b) parent_votes then True
                                           else if list_all Not parent_votes then False
                                           else dflt)
                                in Some (b, bt_insert (cand, u) b vs'))))))"

definition vote_fuel :: "(hash256, bft_unit) btmap \<Rightarrow> hash256 \<Rightarrow> nat" where
  "vote_fuel ext u = (case bt_get ext u of None \<Rightarrow> 1 | Some v \<Rightarrow> Suc (round v))"

section \<open>Decisions\<close>

text \<open>The inner loop of \<open>decide\<close>: the first unit of the round whose parents carry a quorum.\<close>

fun decide_scan ::
  "crypto \<Rightarrow> nat \<Rightarrow> (hash256, bft_unit) btmap \<Rightarrow> hash256 \<Rightarrow> bool \<Rightarrow> hash256 list \<Rightarrow> vote_cache \<Rightarrow>
   (bool \<times> vote_cache) option" where
  "decide_scan C thr ext cand v [] vs = Some (False, vs)"
| "decide_scan C thr ext cand v (u # us) vs =
     (case bt_get ext u of
        None \<Rightarrow> None
      | Some un \<Rightarrow>
          (case map_state (\<lambda>p. vote C (vote_fuel ext p) ext cand p) (bt_values (parents un)) vs of
             None \<Rightarrow> None
           | Some (bits, vs') \<Rightarrow>
               let matching = length (filter (\<lambda>b. b = v) bits)
               in if matching \<ge> thr then Some (True, vs')
                  else decide_scan C thr ext cand v us vs'))"

text \<open>
  The outer loop: one round after the other while there are extended units, from
  \<open>candidate_round + 2\<close>. It ends because only rounds of the index have units.
\<close>

function decide_loop ::
  "crypto \<Rightarrow> nat \<Rightarrow> (nat, hash256 btset) btmap \<Rightarrow> (hash256, bft_unit) btmap \<Rightarrow> hash256 \<Rightarrow> nat \<Rightarrow> nat \<Rightarrow>
   vote_cache \<Rightarrow> ((bool \<times> nat) option \<times> vote_cache) option" where
  "decide_loop C thr rs ext cand cand_round r vs =
     (if extended_at rs ext r = [] then Some (None, vs)
      else
        (case common_vote C cand cand_round r of
           None \<Rightarrow> None
         | Some v \<Rightarrow>
             (case decide_scan C thr ext cand v (extended_at rs ext r) vs of
                None \<Rightarrow> None
              | Some (found, vs') \<Rightarrow>
                  if found then Some (Some (v, r), vs')
                  else decide_loop C thr rs ext cand cand_round (r + 1) vs')))"
  by pat_completeness auto

definition rounds_from :: "(nat, hash256 btset) btmap \<Rightarrow> nat \<Rightarrow> nat set" where
  "rounds_from rs r = {k. bt_get rs k \<noteq> None \<and> r \<le> k}"

lemma finite_rounds_from [simp]: "finite (rounds_from rs r)"
  by (rule finite_subset [OF _ finite_bt_dom [of rs]]) (auto simp: rounds_from_def)

lemma rounds_from_less:
  assumes "extended_at rs ext r \<noteq> []" "r \<le> q" "q < q'"
  shows "card (rounds_from rs q') < card (rounds_from rs q) \<or> q \<noteq> r"
proof (cases "q = r")
  case True
  have "bt_get rs r \<noteq> None"
    using assms(1) by (auto simp: extended_at_def units_at_def split: option.splits)
  then have "r \<in> rounds_from rs q" "r \<notin> rounds_from rs q'" "rounds_from rs q' \<subseteq> rounds_from rs q"
    using assms(3) True by (auto simp: rounds_from_def)
  then have "rounds_from rs q' \<subset> rounds_from rs q" by blast
  then show ?thesis by (simp add: psubset_card_mono)
qed simp

termination decide_loop
proof (relation "measure (\<lambda>(C, thr, rs, ext, cand, cr, r, vs). card (rounds_from rs r))", goal_cases)
  case (2 C thr rs ext cand cr r vs)
  then show ?case using rounds_from_less [of rs ext r r "r + 1"] by simp
qed simp

declare decide_loop.simps [simp del]

definition decide :: "crypto \<Rightarrow> hash256 \<Rightarrow> 'd engine \<Rightarrow> (bool option \<times> 'd engine) option" where
  "decide C cand e =
     (case bt_get (decided e) cand of
        Some d \<Rightarrow> Some (Some (fst d), e)
      | None \<Rightarrow>
          (case bt_get (extended e) cand of
             None \<Rightarrow> None
           | Some candu \<Rightarrow>
               (case decide_loop C (threshold (num_n e)) (rounds e) (extended e) cand (round candu)
                       (round candu + 2) (votes e) of
                  None \<Rightarrow> None
                | Some (None, vs) \<Rightarrow> Some (None, e\<lparr>votes := vs\<rparr>)
                | Some (Some (v, r), vs) \<Rightarrow>
                    Some (Some v,
                      e\<lparr>votes := vs, decided := bt_insert cand (v, r) (decided e)\<rparr>))))"

section \<open>Head election\<close>

fun choose_loop :: "crypto \<Rightarrow> hash256 list \<Rightarrow> 'd engine \<Rightarrow> (hash256 option \<times> 'd engine) option" where
  "choose_loop C [] e = Some (None, e)"
| "choose_loop C (c # cs) e =
     (case decide C c e of
        None \<Rightarrow> None
      | Some (None, e') \<Rightarrow> Some (None, e')
      | Some (Some True, e') \<Rightarrow> Some (Some c, e')
      | Some (Some False, e') \<Rightarrow> choose_loop C cs e')"

definition choose_head :: "crypto \<Rightarrow> nat \<Rightarrow> 'd engine \<Rightarrow> (hash256 option \<times> 'd engine) option" where
  "choose_head C r e =
     (if extended_at (rounds e) (extended e) (r + 3) = [] then Some (None, e)
      else choose_loop C (extended_at (rounds e) (extended e) r) e)"

section \<open>Batch extraction\<close>

text \<open>Enqueue the parents that were not emitted yet, marking each as it is enqueued.\<close>

fun enqueue_new :: "hash256 list \<Rightarrow> hash256 list \<times> hash256 btset \<Rightarrow> hash256 list \<times> hash256 btset" where
  "enqueue_new [] s = s"
| "enqueue_new (p # ps) (queue, em) =
     (if bt_has em p then enqueue_new ps (queue, em)
      else enqueue_new ps (queue @ [p], bs_insert p em))"

definition all_parents :: "(hash256, bft_unit) btmap \<Rightarrow> hash256 set" where
  "all_parents ext = (\<Union>u \<in> set (bt_values ext). set (bt_values (parents u)))"

lemma finite_all_parents [simp]: "finite (all_parents ext)"
  by (simp add: all_parents_def)

definition unmarked :: "(hash256, bft_unit) btmap \<Rightarrow> hash256 btset \<Rightarrow> hash256 set" where
  "unmarked ext em = all_parents ext - {h. bt_has em h}"

lemma finite_unmarked [simp]: "finite (unmarked ext em)"
  by (simp add: unmarked_def)

lemma enqueue_new_measure:
  assumes "set ps \<subseteq> all_parents ext" "enqueue_new ps (q, em) = (q', em')"
  shows "2 * card (unmarked ext em') + length q' \<le> 2 * card (unmarked ext em) + length q"
  using assms
proof (induction ps arbitrary: q em)
  case (Cons p ps)
  show ?case
  proof (cases "bt_has em p")
    case True
    with Cons show ?thesis by simp
  next
    case False
    have "p \<in> unmarked ext em" using False Cons.prems(1) by (simp add: unmarked_def)
    moreover have "unmarked ext (bs_insert p em) = unmarked ext em - {p}"
      by (auto simp: unmarked_def bt_has_def)
    ultimately have "card (unmarked ext em) = Suc (card (unmarked ext (bs_insert p em)))"
      by (metis card.remove finite_unmarked)
    with Cons.IH [of "q @ [p]" "bs_insert p em"] Cons.prems False show ?thesis by simp
  qed
qed simp

text \<open>The breadth-first loop; the batch comes out in visiting order.\<close>

function bfs_loop ::
  "(hash256, bft_unit) btmap \<Rightarrow> hash256 list \<Rightarrow> hash256 btset \<Rightarrow> hash256 list \<Rightarrow>
   (hash256 list \<times> hash256 btset) option" where
  "bfs_loop ext [] em batch = Some (batch, em)"
| "bfs_loop ext (h # queue) em batch =
     (case bt_get ext h of
        None \<Rightarrow> None
      | Some u \<Rightarrow>
          (case enqueue_new (bt_values (parents u)) (queue, em) of
             (queue', em') \<Rightarrow> bfs_loop ext queue' em' (batch @ [h])))"
  by pat_completeness auto

termination
proof (relation "measure (\<lambda>(ext, q, em, b). 2 * card (unmarked ext em) + length q)", goal_cases)
  case (2 ext h queue em batch u queue' em')
  have "set (bt_values (parents u)) \<subseteq> all_parents ext"
    using 2(1) bt_values_iff [of u ext] by (auto simp: all_parents_def)
  with enqueue_new_measure [of _ ext queue em queue' em'] 2(2) show ?case by force
qed simp

definition bfs_batch :: "hash256 \<Rightarrow> 'd engine \<Rightarrow> (hash256 list \<times> 'd engine) option" where
  "bfs_batch head e =
     (if bt_has (emitted e) head then None
      else
        (case bfs_loop (extended e) [head] (bs_insert head (emitted e)) [] of
           None \<Rightarrow> None
         | Some (batch, em) \<Rightarrow> Some (rev batch, e\<lparr>emitted := em\<rparr>)))"

section \<open>Emission\<close>

definition emit_unit :: "hash256 \<Rightarrow> 'd engine \<Rightarrow> 'd engine option" where
  "emit_unit h e =
     (case bt_get (extended e) h of
        None \<Rightarrow> None
      | Some u \<Rightarrow>
          (case bt_get (unit_data_table e) h of
             None \<Rightarrow> None
           | Some ds \<Rightarrow>
               let e' = e\<lparr>ordered := ordered e @ map (\<lambda>d. (round u, creator u, d)) ds\<rparr>
               in Some (if creator u = my_id e
                        then e'\<lparr>unordered_own_data := bt_remove (round u) (unordered_own_data e)\<rparr>
                        else e')))"

fun emit_batch :: "hash256 list \<Rightarrow> 'd engine \<Rightarrow> 'd engine option" where
  "emit_batch [] e = Some e"
| "emit_batch (h # hs) e = Option.bind (emit_unit h e) (emit_batch hs)"

text \<open>One resolved round of \<open>run_extender\<close>.\<close>

definition commit_head :: "hash256 \<Rightarrow> 'd engine \<Rightarrow> 'd engine option" where
  "commit_head head e =
     (case bfs_batch head e of
        None \<Rightarrow> None
      | Some (batch, e') \<Rightarrow>
          map_option (\<lambda>e''. e''\<lparr>next_decide_round := next_decide_round e'' + 1\<rparr>)
            (emit_batch batch e'))"

text \<open>What election and emission leave alone.\<close>

definition same_dag :: "'d engine \<Rightarrow> 'd engine \<Rightarrow> bool" where
  "same_dag e e' \<longleftrightarrow>
     my_id e' = my_id e \<and> eng_session e' = eng_session e \<and> num_n e' = num_n e \<and>
     keychain_of e' = keychain_of e \<and> unit_table e' = unit_table e \<and>
     unit_data_table e' = unit_data_table e \<and> unit_signature_table e' = unit_signature_table e \<and>
     rounds e' = rounds e \<and> extended e' = extended e \<and> own_top e' = own_top e \<and>
     request_sent_at e' = request_sent_at e \<and> sent e' = sent e"

lemma same_dag_refl [simp]: "same_dag e e"
  by (simp add: same_dag_def)

lemma same_dag_trans: "same_dag e e' \<Longrightarrow> same_dag e' e'' \<Longrightarrow> same_dag e e''"
  by (simp add: same_dag_def)

lemma decide_same:
  "decide C c e = Some (d, e') \<Longrightarrow> same_dag e e' \<and> emitted e' = emitted e \<and>
     ordered e' = ordered e \<and> next_decide_round e' = next_decide_round e \<and>
     unordered_own_data e' = unordered_own_data e"
  by (auto simp: decide_def same_dag_def split: option.splits prod.splits)

lemma choose_loop_same:
  "choose_loop C cs e = Some (d, e') \<Longrightarrow> same_dag e e' \<and> emitted e' = emitted e \<and>
     ordered e' = ordered e \<and> next_decide_round e' = next_decide_round e \<and>
     unordered_own_data e' = unordered_own_data e"
proof (induction cs arbitrary: e)
  case (Cons c cs)
  then show ?case
    by (auto split: option.splits prod.splits bool.splits dest!: decide_same
        intro: same_dag_trans)
qed simp

lemma choose_head_same:
  "choose_head C r e = Some (d, e') \<Longrightarrow> same_dag e e' \<and> emitted e' = emitted e \<and>
     ordered e' = ordered e \<and> next_decide_round e' = next_decide_round e \<and>
     unordered_own_data e' = unordered_own_data e"
  by (auto simp: choose_head_def dest: choose_loop_same split: if_splits)

lemma emit_unit_same:
  "emit_unit h e = Some e' \<Longrightarrow> same_dag e e' \<and> emitted e' = emitted e \<and>
     next_decide_round e' = next_decide_round e \<and> decided e' = decided e \<and> votes e' = votes e"
  by (auto simp: emit_unit_def same_dag_def Let_def split: option.splits if_splits)

lemma emit_batch_same:
  "emit_batch hs e = Some e' \<Longrightarrow> same_dag e e' \<and> emitted e' = emitted e \<and>
     next_decide_round e' = next_decide_round e \<and> decided e' = decided e \<and> votes e' = votes e"
proof (induction hs arbitrary: e)
  case (Cons h hs)
  then obtain e1 where "emit_unit h e = Some e1" "emit_batch hs e1 = Some e'"
    by (auto simp: bind_eq_Some_conv)
  with Cons.IH [of e1] emit_unit_same [of h e e1] show ?case
    by (auto intro: same_dag_trans)
qed simp

lemma commit_head_same:
  "commit_head h e = Some e' \<Longrightarrow> same_dag e e' \<and>
     next_decide_round e' = next_decide_round e + 1 \<and> decided e' = decided e \<and> votes e' = votes e"
  by (auto simp: commit_head_def bfs_batch_def same_dag_def split: option.splits if_splits
      dest!: emit_batch_same)

text \<open>
  The loop of \<open>run_extender\<close> ends because every committed round has extended units three
  rounds up, and only the rounds of the index do.
\<close>

function run_extender :: "crypto \<Rightarrow> 'd engine \<Rightarrow> 'd engine option" where
  "run_extender C e =
     (case choose_head C (next_decide_round e) e of
        None \<Rightarrow> None
      | Some (None, e') \<Rightarrow> Some e'
      | Some (Some head, e') \<Rightarrow>
          (case commit_head head e' of
             None \<Rightarrow> None
           | Some e'' \<Rightarrow> run_extender C e''))"
  by pat_completeness auto

termination
proof (relation "measure (\<lambda>(C, e). card (rounds_from (rounds e) (next_decide_round e + 3)))", goal_cases)
  case (2 C e p d e' head e'')
  then have ch: "choose_head C (next_decide_round e) e = Some (Some head, e')" by simp
  then have "extended_at (rounds e) (extended e) (next_decide_round e + 3) \<noteq> []"
    by (auto simp: choose_head_def split: if_splits)
  moreover have "rounds e'' = rounds e" "next_decide_round e'' = next_decide_round e + 1"
    using choose_head_same [OF ch] commit_head_same [of head e' e''] 2
    by (auto simp: same_dag_def)
  ultimately show ?case
    using rounds_from_less [of "rounds e" "extended e" "next_decide_round e + 3"
        "next_decide_round e + 3" "next_decide_round e + 4"] by (simp add: add.commute)
qed simp

declare run_extender.simps [simp del]

end
