(* ===== verification/Bft_Votes.thy ===== *)
theory Bft_Votes
  imports Bft_Extender
begin

text \<open>
  The virtual votes as a specification, without caches, and why they are safe: the four facts of
  the section "Safety" of \<open>picomint-bft/README.md\<close> and its coverage lemma. A view is a map
  from unit hashes to units; \<open>dag_ok\<close> says that every unit has its parents in the view, at
  their claimed positions, in a quorum of the right size. Two nodes hold two views of one graph,
  in which the honest creators have one unit per round.
\<close>

type_synonym view = "hash256 \<Rightarrow> bft_unit option"

definition unit_shape :: "num_nodes \<Rightarrow> bft_unit \<Rightarrow> bool" where
  "unit_shape n u \<longleftrightarrow>
     creator u \<in> set (node_ids n) \<and>
     (if round u = 0 then parents u = bt_empty
      else bt_len (parents u) = threshold n \<and> set (bt_keys (parents u)) \<subseteq> set (node_ids n))"

definition parents_in :: "view \<Rightarrow> bft_unit \<Rightarrow> bool" where
  "parents_in V u \<longleftrightarrow>
     (\<forall>c p. bt_get (parents u) c = Some p \<longrightarrow>
        (\<exists>q. V p = Some q \<and> creator q = c \<and> round q + 1 = round u))"

definition dag_ok :: "num_nodes \<Rightarrow> view \<Rightarrow> bool" where
  "dag_ok n V \<longleftrightarrow> (\<forall>h u. V h = Some u \<longrightarrow> unit_shape n u \<and> parents_in V u)"

text \<open>An honest creator has one unit per round.\<close>

definition single_voiced :: "node_id set \<Rightarrow> view \<Rightarrow> bool" where
  "single_voiced H V \<longleftrightarrow>
     (\<forall>h h' u u'. V h = Some u \<longrightarrow> V h' = Some u' \<longrightarrow> creator u = creator u' \<longrightarrow>
        creator u \<in> H \<longrightarrow> round u = round u' \<longrightarrow> h = h')"

definition good_dag :: "num_nodes \<Rightarrow> node_id set \<Rightarrow> view \<Rightarrow> bool" where
  "good_dag n H G \<longleftrightarrow> honest_set n H \<and> dag_ok n G \<and> single_voiced H G"

section \<open>The vote of a unit\<close>

definition level_vote :: "crypto \<Rightarrow> hash256 \<Rightarrow> nat \<Rightarrow> nat \<Rightarrow> bool" where
  "level_vote C cand cand_round k = the (common_vote C cand cand_round (cand_round + k))"

lemma level_vote_fixed [simp]:
  "level_vote C cand r 2 = True" "level_vote C cand r 3 = False"
  by (simp_all add: level_vote_def common_vote_def)

definition tally :: "bool list \<Rightarrow> bool \<Rightarrow> bool" where
  "tally bs dflt = (if list_all (\<lambda>b. b) bs then True else if list_all Not bs then False else dflt)"

text \<open>
  \<open>spec_vote C V cand candu k u\<close>: the vote on the candidate of a unit \<open>k\<close> rounds above it.
\<close>

fun spec_vote :: "crypto \<Rightarrow> view \<Rightarrow> hash256 \<Rightarrow> bft_unit \<Rightarrow> nat \<Rightarrow> bft_unit \<Rightarrow> bool" where
  "spec_vote C V cand candu 0 u = False"
| "spec_vote C V cand candu (Suc 0) u = (bt_get (parents u) (creator candu) = Some cand)"
| "spec_vote C V cand candu (Suc (Suc k)) u =
     tally (map (\<lambda>p. spec_vote C V cand candu (Suc k) (the (V p))) (bt_values (parents u)))
       (level_vote C cand (round candu) (Suc (Suc k)))"

definition parent_votes ::
  "crypto \<Rightarrow> view \<Rightarrow> hash256 \<Rightarrow> bft_unit \<Rightarrow> nat \<Rightarrow> bft_unit \<Rightarrow> bool list" where
  "parent_votes C V cand candu k u =
     map (\<lambda>p. spec_vote C V cand candu k (the (V p))) (bt_values (parents u))"

lemma spec_vote_step:
  "2 \<le> k \<Longrightarrow> spec_vote C V cand candu k u =
     tally (parent_votes C V cand candu (k - 1) u) (level_vote C cand (round candu) k)"
proof -
  assume "2 \<le> k"
  then obtain j where "k = Suc (Suc j)" by (metis add_2_eq_Suc le_Suc_ex)
  then show ?thesis by (simp add: parent_votes_def)
qed

lemma tally_all: "bs \<noteq> [] \<Longrightarrow> \<forall>b \<in> set bs. b = v \<Longrightarrow> tally bs d = v"
  by (cases bs) (auto simp: tally_def list_all_iff)

lemma tally_some: "v \<in> set bs \<Longrightarrow> tally bs v = v"
  by (auto simp: tally_def list_all_iff)

lemma tally_True: "bs \<noteq> [] \<Longrightarrow> tally bs d \<Longrightarrow> True \<in> set bs"
  by (cases bs) (auto simp: tally_def list_all_iff split: if_splits)

lemma tally_default_False: "tally bs False \<Longrightarrow> b \<in> set bs \<Longrightarrow> b"
  by (auto simp: tally_def list_all_iff split: if_splits)

lemma parents_nonempty:
  "unit_shape n u \<Longrightarrow> round u \<noteq> 0 \<Longrightarrow> bt_values (parents u) \<noteq> []"
  using length_bt_values [of "parents u"]
  by (auto simp: unit_shape_def threshold_def simp del: length_bt_values)

lemma parent_position:
  assumes "dag_ok n V" "V h = Some u" "p \<in> set (bt_values (parents u))"
  shows "\<exists>q. V p = Some q \<and> round q + 1 = round u"
  using assms by (fastforce simp: dag_ok_def parents_in_def bt_values_iff)

section \<open>Quorum intersection lands on a unit\<close>

lemma parents_quorum:
  assumes "good_dag n H G" "G h = Some u" "round u \<noteq> 0"
  shows "mint_quorum n H (set (bt_keys (parents u)))"
proof -
  have s: "unit_shape n u" using assms by (auto simp: good_dag_def dag_ok_def)
  have "card (set (bt_keys (parents u))) = bt_len (parents u)"
    by (metis bt_keys_def bt_len_def distinct_bt_keys distinct_card length_map)
  then show ?thesis
    using s assms by (auto simp: unit_shape_def mint_quorum_def is_quorum_def good_dag_def)
qed

lemma common_parent:
  assumes G: "good_dag n H G" and u: "G a = Some u" and v: "G b = Some v"
    and r: "round u = round v" "round u \<noteq> 0"
  shows "\<exists>p. p \<in> set (bt_values (parents u)) \<and> p \<in> set (bt_values (parents v))"
proof -
  have "mint_quorum n H (set (bt_keys (parents u)))" "mint_quorum n H (set (bt_keys (parents v)))"
    using parents_quorum [OF G] u v r by auto
  from mq.honest_intersection [OF this] obtain c p q where
    c: "c \<in> H" "bt_get (parents u) c = Some p" "bt_get (parents v) c = Some q"
    by (auto simp: set_bt_keys)
  have "parents_in G u" "parents_in G v"
    using G u v by (auto simp: good_dag_def dag_ok_def)
  then obtain pu qu where "G p = Some pu" "creator pu = c" "round pu + 1 = round u"
    "G q = Some qu" "creator qu = c" "round qu + 1 = round v"
    using c(2,3) by (fastforce simp: parents_in_def)
  then have "p = q"
    using G r(1) c(1) by (auto simp: good_dag_def single_voiced_def)
  then show ?thesis using c(2,3) by (auto simp: bt_values_iff)
qed

section \<open>Decisions propagate\<close>

text \<open>
  A unit \<open>k\<close> rounds above the candidate decides the common vote of its round when every parent
  votes it (a quorum is all of the parents).
\<close>

definition decides :: "crypto \<Rightarrow> view \<Rightarrow> hash256 \<Rightarrow> bft_unit \<Rightarrow> bool \<Rightarrow> nat \<Rightarrow> hash256 \<Rightarrow> bool" where
  "decides C V cand candu v k w \<longleftrightarrow>
     2 \<le> k \<and> v = level_vote C cand (round candu) k \<and>
     (\<exists>u. V w = Some u \<and> round u = round candu + k \<and>
        (\<forall>b \<in> set (parent_votes C V cand candu (k - 1) u). b = v))"

lemma all_vote_up:
  assumes G: "dag_ok n G"
    and base: "\<And>h u. G h = Some u \<Longrightarrow> round u = round candu + k \<Longrightarrow> spec_vote C G cand candu k u = v"
    and k: "1 \<le> k" "k \<le> j" and u: "G h = Some u" "round u = round candu + j"
  shows "spec_vote C G cand candu j u = v"
  using k(2) u
proof (induction j arbitrary: h u rule: dec_induct)
  case base
  then show ?case using assms(2) by blast
next
  case (step j)
  have ne: "bt_values (parents u) \<noteq> []"
    using G step.prems by (intro parents_nonempty [of n]) (auto simp: dag_ok_def)
  have "\<forall>b \<in> set (parent_votes C G cand candu j u). b = v"
  proof
    fix b assume "b \<in> set (parent_votes C G cand candu j u)"
    then obtain p where p: "p \<in> set (bt_values (parents u))"
      and b: "b = spec_vote C G cand candu j (the (G p))"
      by (auto simp: parent_votes_def)
    from parent_position [OF G step.prems(1) p] obtain q where "G p = Some q" "round q + 1 = round u"
      by blast
    with step.IH [of p q] step.prems(2) b show "b = v" by simp
  qed
  moreover have "parent_votes C G cand candu j u \<noteq> []" using ne by (simp add: parent_votes_def)
  ultimately show ?case
    using k(1) step.hyps spec_vote_step [of "Suc j" C G cand candu u] by (simp add: tally_all)
qed

lemma decides_round:
  assumes G: "good_dag n H G" and d: "decides C G cand candu v k w"
    and x: "G x = Some xu" "round xu = round candu + k"
  shows "spec_vote C G cand candu k xu = v"
proof -
  from d obtain u where u: "G w = Some u" "round u = round candu + k"
    and votes: "\<forall>b \<in> set (parent_votes C G cand candu (k - 1) u). b = v"
    and k: "2 \<le> k" "v = level_vote C cand (round candu) k"
    by (auto simp: decides_def)
  from common_parent [OF G u(1) x(1)] u(2) x(2) k obtain p where
    p: "p \<in> set (bt_values (parents u))" "p \<in> set (bt_values (parents xu))"
    by auto
  then have "v \<in> set (parent_votes C G cand candu (k - 1) xu)"
    using votes by (force simp: parent_votes_def)
  then show ?thesis
    using spec_vote_step [OF k(1), of C G cand candu xu]
    by (simp add: k(2) [symmetric] tally_some)
qed

lemma decides_up:
  assumes "good_dag n H G" "decides C G cand candu v k w" "k \<le> j"
    "G x = Some xu" "round xu = round candu + j"
  shows "spec_vote C G cand candu j xu = v"
proof (rule all_vote_up)
  show "dag_ok n G" using assms(1) by (simp add: good_dag_def)
  show "1 \<le> k" using assms(2) by (simp add: decides_def)
qed (use assms decides_round in blast)+

lemma decides_parents:
  assumes "dag_ok n G" "decides C G cand candu v k w"
  shows "\<exists>p q. G p = Some q \<and> round q = round candu + (k - 1) \<and> spec_vote C G cand candu (k - 1) q = v"
proof -
  from assms(2) obtain u where u: "G w = Some u" "round u = round candu + k" "2 \<le> k"
    and votes: "\<forall>b \<in> set (parent_votes C G cand candu (k - 1) u). b = v"
    by (auto simp: decides_def)
  have "bt_values (parents u) \<noteq> []"
    using assms(1) u by (intro parents_nonempty [of n]) (auto simp: dag_ok_def)
  then obtain p where p: "p \<in> set (bt_values (parents u))" by (cases "bt_values (parents u)") auto
  from parent_position [OF assms(1) u(1) p] obtain q where "G p = Some q" "round q + 1 = round u"
    by blast
  then show ?thesis
    using votes p u(2,3) by (intro exI [of _ p] exI [of _ q]) (auto simp: parent_votes_def)
qed

text \<open>Two decisions on a candidate, anywhere in the graph, agree.\<close>

lemma decides_unique:
  assumes G: "good_dag n H G" and d: "decides C G cand candu v k w" "decides C G cand candu v' k' w'"
  shows "v = v'"
proof -
  have *: "v = v'" if "decides C G cand candu v k w" "decides C G cand candu v' k' w'" "k < k'"
    for v v' k k' w w'
  proof -
    from G have "dag_ok n G" by (simp add: good_dag_def)
    from decides_parents [OF this that(2)] obtain p q where
      "G p = Some q" "round q = round candu + (k' - 1)" "spec_vote C G cand candu (k' - 1) q = v'"
      by blast
    with decides_up [OF G that(1), of "k' - 1"] that(3) show ?thesis by force
  qed
  show ?thesis
  proof (cases k k' rule: linorder_cases)
    case less
    with * [OF d] show ?thesis by simp
  next
    case equal
    with d show ?thesis by (auto simp: decides_def)
  next
    case greater
    with * [OF d(2,1)] show ?thesis by simp
  qed
qed

section \<open>The coverage lemma\<close>

text \<open>A vote for the candidate two rounds up comes from a view that holds the candidate.\<close>

lemma yes_vote_holds:
  assumes "dag_ok n V" "V x = Some xu" "round xu = round candu + 2"
    "spec_vote C V cand candu 2 xu"
  shows "V cand \<noteq> None"
proof -
  let ?vs = "parent_votes C V cand candu (Suc 0) xu"
  have "bt_values (parents xu) \<noteq> []"
    using assms by (intro parents_nonempty [of n]) (auto simp: dag_ok_def)
  then have "?vs \<noteq> []" by (simp add: parent_votes_def)
  moreover have "tally ?vs (level_vote C cand (round candu) 2)"
    using assms(4) spec_vote_step [of 2 C V cand candu xu] by simp
  ultimately have "True \<in> set ?vs" by (rule tally_True)
  then obtain p where p: "p \<in> set (bt_values (parents xu))" "spec_vote C V cand candu (Suc 0) (the (V p))"
    by (auto simp: parent_votes_def)
  from parent_position [OF assms(1,2) p(1)] obtain q where q: "V p = Some q" by blast
  with p(2) have "bt_get (parents q) (creator candu) = Some cand" by simp
  then show ?thesis
    using assms(1) q by (fastforce simp: dag_ok_def parents_in_def)
qed

lemma spec_vote_mono:
  assumes "dag_ok n V" "V \<subseteq>\<^sub>m G" "V h = Some u" "round u = round candu + k"
  shows "spec_vote C G cand candu k u = spec_vote C V cand candu k u"
  using assms(3,4)
proof (induction k arbitrary: h u rule: less_induct)
  case (less k)
  show ?case
  proof (cases "2 \<le> k")
    case False
    then consider "k = 0" | "k = Suc 0" by linarith
    then show ?thesis by cases simp_all
  next
    case True
    have "spec_vote C G cand candu (k - 1) (the (G p)) = spec_vote C V cand candu (k - 1) (the (V p))"
      if p: "p \<in> set (bt_values (parents u))" for p
    proof -
      from parent_position [OF assms(1) less.prems(1) p] obtain q where
        q: "V p = Some q" "round q + 1 = round u" by blast
      moreover have "G p = Some q" using q(1) assms(2) by (metis domI map_le_def)
      ultimately show ?thesis using less.IH [of "k - 1" p q] less.prems(2) True by simp
    qed
    then show ?thesis
      using True by (simp add: spec_vote_step parent_votes_def cong: map_cong)
  qed
qed

lemma decides_mono:
  assumes "dag_ok n V" "V \<subseteq>\<^sub>m G" "decides C V cand candu v k w"
  shows "decides C G cand candu v k w"
proof -
  from assms(3) obtain u where u: "V w = Some u" "round u = round candu + k" "2 \<le> k"
    and votes: "\<forall>b \<in> set (parent_votes C V cand candu (k - 1) u). b = v"
    and v: "v = level_vote C cand (round candu) k"
    by (auto simp: decides_def)
  have "spec_vote C G cand candu (k - 1) (the (G p)) = spec_vote C V cand candu (k - 1) (the (V p))"
    if p: "p \<in> set (bt_values (parents u))" for p
  proof -
    from parent_position [OF assms(1) u(1) p] obtain q where
      q: "V p = Some q" "round q + 1 = round u" by blast
    moreover have "G p = Some q" using q(1) assms(2) by (metis domI map_le_def)
    ultimately show ?thesis using spec_vote_mono [OF assms(1,2), of p q candu "k - 1"] u by simp
  qed
  moreover have "G w = Some u" using u(1) assms(2) by (metis domI map_le_def)
  ultimately show ?thesis
    using u votes v by (auto simp: decides_def parent_votes_def)
qed

text \<open>
  A candidate that a view with a unit three rounds up does not hold is voted 0 by every unit
  three rounds up anywhere, and decided 1 nowhere.
\<close>

lemma uncovered_votes_False:
  assumes G: "good_dag n H G" and V: "dag_ok n V" "V \<subseteq>\<^sub>m G"
    and w: "V w = Some wu" "round wu = round candu + 3" and c: "V cand = None"
    and x: "G x = Some xu" "round xu = round candu + 3"
  shows "\<not> spec_vote C G cand candu 3 xu"
proof
  assume yes: "spec_vote C G cand candu 3 xu"
  have "G w = Some wu" using w(1) V(2) by (metis domI map_le_def)
  from common_parent [OF G this x(1)] w(2) x(2) obtain p where
    p: "p \<in> set (bt_values (parents wu))" "p \<in> set (bt_values (parents xu))" by auto
  from parent_position [OF V(1) w(1) p(1)] obtain q where q: "V p = Some q" "round q + 1 = round wu"
    by blast
  then have gq: "G p = Some q" using V(2) by (metis domI map_le_def)
  have "spec_vote C G cand candu 2 q"
    using yes p(2) gq spec_vote_step [of 3 C G cand candu xu]
    by (auto simp: parent_votes_def dest!: tally_default_False)
  then have "spec_vote C V cand candu 2 q"
    using spec_vote_mono [OF V q(1), of candu 2 C cand] q(2) w(2) by simp
  then show False
    using yes_vote_holds [OF V(1) q(1), of candu C cand] q(2) w(2) c by simp
qed

lemma coverage:
  assumes G: "good_dag n H G" and V: "dag_ok n V" "V \<subseteq>\<^sub>m G"
    and w: "V w = Some wu" "round wu = round candu + 3" and c: "V cand = None"
  shows "\<not> decides C G cand candu True k x"
proof
  assume d: "decides C G cand candu True k x"
  note no = uncovered_votes_False [OF G V w c]
  have dag: "dag_ok n G" using G by (simp add: good_dag_def)
  have gw: "G w = Some wu" using w(1) V(2) by (metis domI map_le_def)
  have k: "2 \<le> k" "level_vote C cand (round candu) k" using d by (auto simp: decides_def)
  show False
  proof (cases "k = 2")
    case True
    then show False using decides_up [OF G d _ gw w(2)] no [OF gw w(2)] by simp
  next
    case False
    with k have "4 \<le> k" by (cases "k = 3") auto
    from decides_parents [OF dag d] obtain p q where
      q: "G p = Some q" "round q = round candu + (k - 1)" "spec_vote C G cand candu (k - 1) q"
      by auto
    have "spec_vote C G cand candu (k - 1) q = False"
      by (rule all_vote_up [OF dag _ _ _ q(1,2), of 3]) (use no \<open>4 \<le> k\<close> in auto)
    with q(3) show False by simp
  qed
qed

section \<open>Heads\<close>

text \<open>
  The head of a round in a view: the first candidate in hash order that is decided 1, every
  candidate before it decided 0, once the view has a unit three rounds up.
\<close>

definition is_head :: "crypto \<Rightarrow> view \<Rightarrow> nat \<Rightarrow> hash256 \<Rightarrow> bool" where
  "is_head C V r h \<longleftrightarrow>
     (\<exists>w wu. V w = Some wu \<and> round wu = r + 3) \<and>
     (\<exists>hu. V h = Some hu \<and> round hu = r \<and> (\<exists>k w. decides C V h hu True k w)) \<and>
     (\<forall>c cu. V c = Some cu \<longrightarrow> round cu = r \<longrightarrow> c < h \<longrightarrow> (\<exists>k w. decides C V c cu False k w))"

lemma head_not_above:
  assumes G: "good_dag n H G" and V: "dag_ok n V" "V \<subseteq>\<^sub>m G" and W: "dag_ok n W" "W \<subseteq>\<^sub>m G"
    and h: "is_head C V r h" "is_head C W r h'"
  shows "\<not> h < h'"
proof
  assume lt: "h < h'"
  from h(1) obtain hu k w where hu: "V h = Some hu" "round hu = r" "decides C V h hu True k w"
    by (auto simp: is_head_def)
  have d: "decides C G h hu True k w" by (rule decides_mono [OF V hu(3)])
  from h(2) obtain x xu where x: "W x = Some xu" "round xu = round hu + 3"
    using hu(2) by (auto simp: is_head_def)
  show False
  proof (cases "W h")
    case None
    with coverage [OF G W x, of h C k w] d show False by simp
  next
    case (Some hu')
    then have "hu' = hu" using hu(1) V(2) W(2) by (metis domI map_le_def option.inject)
    then have "W h = Some hu" using Some by simp
    then obtain k' w' where "decides C W h hu False k' w'"
      using h(2) lt hu(2) unfolding is_head_def by blast
    from decides_unique [OF G d decides_mono [OF W this]] show False by simp
  qed
qed

theorem heads_agree:
  assumes "good_dag n H G" "dag_ok n V" "V \<subseteq>\<^sub>m G" "dag_ok n W" "W \<subseteq>\<^sub>m G"
    "is_head C V r h" "is_head C W r h'"
  shows "h = h'"
  using head_not_above [OF assms] head_not_above [OF assms(1,4,5,2,3,7,6)] by (simp add: not_less)

end
