(* ===== verification/Bft_Refine.thy ===== *)
theory Bft_Refine
  imports Bft_Votes
begin

text \<open>
  The extender's code computes the specification of \<open>Bft_Votes\<close>: on an engine whose extended
  units form a graph and whose caches are sound, \<open>vote\<close> returns the virtual vote,
  \<open>decide\<close> returns the decision exactly when there is one, \<open>choose_head\<close> elects exactly the
  head, and none of them panics.
\<close>

definition view_of :: "'d engine \<Rightarrow> view" where
  "view_of e = bt_get (extended e)"

definition votes_ok :: "crypto \<Rightarrow> view \<Rightarrow> vote_cache \<Rightarrow> bool" where
  "votes_ok C V vs \<longleftrightarrow>
     (\<forall>c u b. bt_get vs (c, u) = Some b \<longrightarrow>
        (\<exists>cu uu. V c = Some cu \<and> V u = Some uu \<and> round cu + 2 \<le> round uu \<and>
           b = spec_vote C V c cu (round uu - round cu) uu))"

definition decided_ok :: "crypto \<Rightarrow> view \<Rightarrow> (hash256, bool \<times> nat) btmap \<Rightarrow> bool" where
  "decided_ok C V ds \<longleftrightarrow>
     (\<forall>c v r. bt_get ds c = Some (v, r) \<longrightarrow>
        (\<exists>cu w. V c = Some cu \<and> decides C V c cu v (r - round cu) w))"

definition index_ok :: "(nat, hash256 btset) btmap \<Rightarrow> (hash256, bft_unit) btmap \<Rightarrow> bool" where
  "index_ok rs tab \<longleftrightarrow>
     (\<forall>r h. h \<in> set (units_at rs r) \<longleftrightarrow> (\<exists>u. bt_get tab h = Some u \<and> round u = r))"

section \<open>The index\<close>

lemma set_extended_at:
  assumes "index_ok rs tab" "bt_sub ext tab"
  shows "h \<in> set (extended_at rs ext r) \<longleftrightarrow> (\<exists>u. bt_get ext h = Some u \<and> round u = r)"
proof -
  have "bt_get ext h = Some u \<Longrightarrow> bt_get tab h = Some u" for u
    using assms(2) by (rule bt_subD)
  then show ?thesis
    using assms(1) by (auto simp: extended_at_def bt_has_def index_ok_def)
qed

lemma sorted_extended_at: "sorted_wrt (<) (extended_at rs ext r)"
  by (auto simp: extended_at_def units_at_def sorted_wrt_filter split: option.splits)

lemma index_ok_index_round:
  assumes "index_ok rs tab" "bt_get tab h = None"
  shows "index_ok (index_round (round u) h rs) (bt_insert h u tab)"
  unfolding index_ok_def
proof (intro allI)
  fix r k
  have *: "k \<in> set (units_at rs r) \<longleftrightarrow> (\<exists>u. bt_get tab k = Some u \<and> round u = r)" for k r
    using assms(1) by (simp add: index_ok_def)
  have "k \<in> set (units_at (index_round (round u) h rs) r) \<longleftrightarrow>
    (if r = round u then k = h \<or> k \<in> set (units_at rs r) else k \<in> set (units_at rs r))"
    by (auto simp: units_at_def index_round_def set_bt_keys split: option.splits if_splits)
  then show "k \<in> set (units_at (index_round (round u) h rs) r) \<longleftrightarrow>
    (\<exists>v. bt_get (bt_insert h u tab) k = Some v \<and> round v = r)"
    using assms(2) by (auto simp: *)
qed

section \<open>Votes\<close>

lemma votes_ok_insert:
  "votes_ok C V vs \<Longrightarrow> V c = Some cu \<Longrightarrow> V u = Some uu \<Longrightarrow> round cu + 2 \<le> round uu \<Longrightarrow>
   b = spec_vote C V c cu (round uu - round cu) uu \<Longrightarrow> votes_ok C V (bt_insert (c, u) b vs)"
  unfolding votes_ok_def by (auto split: if_splits)

lemma vote_correct:
  assumes V: "dag_ok n (bt_get ext)" and c: "bt_get ext cand = Some cu"
  shows "votes_ok C (bt_get ext) vs \<Longrightarrow> bt_get ext u = Some uu \<Longrightarrow> round cu < round uu \<Longrightarrow>
    round uu - round cu \<le> fuel \<Longrightarrow>
    \<exists>vs'. vote C fuel ext cand u vs =
      Some (spec_vote C (bt_get ext) cand cu (round uu - round cu) uu, vs') \<and> votes_ok C (bt_get ext) vs'"
proof (induction fuel arbitrary: u uu vs)
  case (Suc fuel)
  show ?case
  proof (cases "round uu = round cu + 1")
    case True
    with Suc.prems c show ?thesis by simp
  next
    case False
    define k where "k = round uu - round cu"
    have k: "2 \<le> k" "round uu = round cu + k" using False Suc.prems(3) by (auto simp: k_def)
    let ?g = "\<lambda>p. spec_vote C (bt_get ext) cand cu (k - 1) (the (bt_get ext p))"
    have "\<exists>vs'. map_state (\<lambda>p. vote C fuel ext cand p) (bt_values (parents uu)) vs =
        Some (map ?g (bt_values (parents uu)), vs') \<and> votes_ok C (bt_get ext) vs'"
    proof (rule map_state_inv [where I = "votes_ok C (bt_get ext)", OF _ Suc.prems(1)])
      fix p s assume p: "p \<in> set (bt_values (parents uu))" "votes_ok C (bt_get ext) s"
      from parent_position [OF V Suc.prems(2) p(1)] obtain q where
        q: "bt_get ext p = Some q" "round q + 1 = round uu" by blast
      have "round q - round cu = k - 1" using q(2) k by simp
      then show "\<exists>s'. vote C fuel ext cand p s = Some (?g p, s') \<and> votes_ok C (bt_get ext) s'"
        using Suc.IH [OF p(2) q(1)] q k Suc.prems(4) by simp
    qed
    then obtain vs' where vs': "map_state (\<lambda>p. vote C fuel ext cand p) (bt_values (parents uu)) vs =
        Some (parent_votes C (bt_get ext) cand cu (k - 1) uu, vs')" "votes_ok C (bt_get ext) vs'"
      by (auto simp: parent_votes_def)
    have cv: "common_vote C cand (round cu) (round uu) = Some (level_vote C cand (round cu) k)"
      by (simp add: k level_vote_def common_vote_def)
    have sv: "spec_vote C (bt_get ext) cand cu k uu =
        tally (parent_votes C (bt_get ext) cand cu (k - 1) uu) (level_vote C cand (round cu) k)"
      by (rule spec_vote_step [OF k(1)])
    show ?thesis
    proof (cases "bt_get vs (cand, u)")
      case None
      have "votes_ok C (bt_get ext) (bt_insert (cand, u) (spec_vote C (bt_get ext) cand cu k uu) vs')"
        by (rule votes_ok_insert [OF vs'(2) c Suc.prems(2)]) (use k in auto)
      then show ?thesis
        using None False Suc.prems c vs'(1) cv
        by (simp add: k_def [symmetric] sv tally_def [symmetric] Let_def)
    next
      case (Some b)
      then have "b = spec_vote C (bt_get ext) cand cu k uu"
        using Suc.prems(1,2) c unfolding votes_ok_def k_def by fastforce
      then show ?thesis
        using Some False Suc.prems c by (simp add: k_def [symmetric])
    qed
  qed
qed simp

lemma parent_votes_correct:
  assumes V: "dag_ok n (bt_get ext)" and c: "bt_get ext cand = Some cu"
    and u: "bt_get ext u = Some uu" "round uu = round cu + k" "2 \<le> k" and vs: "votes_ok C (bt_get ext) vs"
  shows "\<exists>vs'. map_state (\<lambda>p. vote C (vote_fuel ext p) ext cand p) (bt_values (parents uu)) vs =
    Some (parent_votes C (bt_get ext) cand cu (k - 1) uu, vs') \<and> votes_ok C (bt_get ext) vs'"
  unfolding parent_votes_def
proof (rule map_state_inv [where I = "votes_ok C (bt_get ext)", OF _ vs])
  fix p s assume p: "p \<in> set (bt_values (parents uu))" "votes_ok C (bt_get ext) s"
  from parent_position [OF V u(1) p(1)] obtain q where
    q: "bt_get ext p = Some q" "round q + 1 = round uu" by blast
  have rk: "round q - round cu = k - 1" and less: "round cu < round q"
    and fuel: "round q - round cu \<le> vote_fuel ext p"
    using q u by (auto simp: vote_fuel_def)
  show "\<exists>s'. vote C (vote_fuel ext p) ext cand p s =
      Some (spec_vote C (bt_get ext) cand cu (k - 1) (the (bt_get ext p)), s') \<and> votes_ok C (bt_get ext) s'"
    using vote_correct [OF V c p(2) q(1) less fuel] unfolding rk q(1) option.sel .
qed

section \<open>Decisions\<close>

lemma length_filter_all:
  "length (filter P xs) \<ge> length xs \<longleftrightarrow> (\<forall>x \<in> set xs. P x)"
  by (metis filter_id_conv length_filter_le length_filter_less less_le_not_le)

lemma decide_scan_correct:
  assumes V: "dag_ok n (bt_get ext)" and c: "bt_get ext cand = Some cu"
    and k: "2 \<le> k" "v = level_vote C cand (round cu) k"
  shows "\<forall>u \<in> set us. \<exists>uu. bt_get ext u = Some uu \<and> round uu = round cu + k \<Longrightarrow>
    votes_ok C (bt_get ext) vs \<Longrightarrow>
    \<exists>vs'. decide_scan C (threshold n) ext cand v us vs =
      Some (\<exists>u \<in> set us. decides C (bt_get ext) cand cu v k u, vs') \<and> votes_ok C (bt_get ext) vs'"
proof (induction us arbitrary: vs)
  case (Cons u us)
  then obtain uu where uu: "bt_get ext u = Some uu" "round uu = round cu + k" by auto
  let ?bs = "parent_votes C (bt_get ext) cand cu (k - 1) uu"
  from parent_votes_correct [OF V c uu k(1) Cons.prems(2)] obtain vs' where
    vs': "map_state (\<lambda>p. vote C (vote_fuel ext p) ext cand p) (bt_values (parents uu)) vs =
      Some (?bs, vs')" "votes_ok C (bt_get ext) vs'" by blast
  have "length ?bs = threshold n"
    using V uu k by (auto simp: parent_votes_def dag_ok_def unit_shape_def)
  then have dec: "length (filter (\<lambda>b. b = v) ?bs) \<ge> threshold n \<longleftrightarrow> decides C (bt_get ext) cand cu v k u"
    using length_filter_all [of ?bs "\<lambda>b. b = v"] uu k by (auto simp: decides_def)
  show ?case
  proof (cases "decides C (bt_get ext) cand cu v k u")
    case True
    then show ?thesis using uu vs' dec by (simp add: Let_def)
  next
    case False
    with Cons.IH [OF _ vs'(2)] Cons.prems(1) uu vs'(1) dec show ?thesis by (simp add: Let_def)
  qed
qed simp

definition decision_in :: "crypto \<Rightarrow> view \<Rightarrow> hash256 \<Rightarrow> bft_unit \<Rightarrow> bool \<Rightarrow> nat \<Rightarrow> bool" where
  "decision_in C V cand cu v k \<longleftrightarrow> (\<exists>w. decides C V cand cu v k w)"

text \<open>Rounds of a graph have no gaps.\<close>

lemma rounds_gap_free:
  assumes "dag_ok n V"
  shows "V w = Some wu \<Longrightarrow> r \<le> round wu \<Longrightarrow> \<exists>x xu. V x = Some xu \<and> round xu = r"
proof (induction "round wu" arbitrary: w wu)
  case (Suc m)
  show ?case
  proof (cases "r = round wu")
    case False
    have "bt_values (parents wu) \<noteq> []"
      using assms Suc by (intro parents_nonempty [of n]) (auto simp: dag_ok_def)
    then obtain p where p: "p \<in> set (bt_values (parents wu))" by (cases "bt_values (parents wu)") auto
    from parent_position [OF assms Suc.prems(1) p] obtain q where
      q: "V p = Some q" "round q + 1 = round wu" by blast
    from Suc.hyps(1) [of q p] q Suc.hyps(2) Suc.prems(2) False show ?thesis by simp
  qed (use Suc.prems in blast)
qed auto

lemma decide_loop_correct:
  assumes V: "dag_ok n (bt_get ext)" and c: "bt_get ext cand = Some cu"
    and idx: "index_ok rs tab" "bt_sub ext tab"
  shows "votes_ok C (bt_get ext) vs \<Longrightarrow> round cu + 2 \<le> r \<Longrightarrow>
    \<exists>res vs'. decide_loop C (threshold n) rs ext cand (round cu) r vs = Some (res, vs') \<and>
      votes_ok C (bt_get ext) vs' \<and>
      (case res of
         None \<Rightarrow> \<forall>v j. r \<le> round cu + j \<longrightarrow> \<not> decision_in C (bt_get ext) cand cu v j
       | Some (v, q) \<Rightarrow> round cu + 2 \<le> q \<and> decision_in C (bt_get ext) cand cu v (q - round cu))"
proof (induction "card (rounds_from rs r)" arbitrary: r vs rule: less_induct)
  case less
  note mem = set_extended_at [OF idx]
  define k where "k = r - round cu"
  have k: "2 \<le> k" "r = round cu + k" using less.prems(2) by (auto simp: k_def)
  let ?v = "level_vote C cand (round cu) k"
  show ?case
  proof (cases "extended_at rs ext r = []")
    case True
    have none: "\<not> r \<le> round xu" if "bt_get ext x = Some xu" for x xu
      using rounds_gap_free [OF V that, of r] mem [of _ r] True by auto
    have "\<not> decision_in C (bt_get ext) cand cu v j" if j: "r \<le> round cu + j" for v j
    proof
      assume "decision_in C (bt_get ext) cand cu v j"
      then obtain w u where "bt_get ext w = Some u" "round u = round cu + j"
        by (auto simp: decision_in_def decides_def)
      with none [of w u] j show False by simp
    qed
    then show ?thesis using True less.prems(1) by (simp add: decide_loop.simps)
  next
    case False
    have us: "\<forall>u \<in> set (extended_at rs ext r). \<exists>uu. bt_get ext u = Some uu \<and> round uu = round cu + k"
      using mem k(2) by simp
    from decide_scan_correct [OF V c k(1) refl us less.prems(1)] obtain vs' where
      scan: "decide_scan C (threshold n) ext cand ?v (extended_at rs ext r) vs =
        Some (\<exists>u \<in> set (extended_at rs ext r). decides C (bt_get ext) cand cu ?v k u, vs')"
      and vs': "votes_ok C (bt_get ext) vs'" by blast
    have found: "(\<exists>u \<in> set (extended_at rs ext r). decides C (bt_get ext) cand cu ?v k u) \<longleftrightarrow>
        (\<exists>v. decision_in C (bt_get ext) cand cu v k)"
      using mem k(2) by (auto simp: decision_in_def decides_def)
    have cv: "common_vote C cand (round cu) r = Some ?v"
      by (simp add: level_vote_def common_vote_def k)
    show ?thesis
    proof (cases "\<exists>u \<in> set (extended_at rs ext r). decides C (bt_get ext) cand cu ?v k u")
      case True
      then have "decision_in C (bt_get ext) cand cu ?v k" by (auto simp: decision_in_def)
      then show ?thesis
        using False True scan cv vs' less.prems(2) by (subst decide_loop.simps) (simp add: k_def [symmetric])
    next
      case no: False
      have "card (rounds_from rs (r + 1)) < card (rounds_from rs r)"
        using rounds_from_less [OF False, of r "r + 1"] by simp
      from less.hyps [OF this vs'] less.prems(2) obtain res vs'' where
        res: "decide_loop C (threshold n) rs ext cand (round cu) (r + 1) vs' = Some (res, vs'')"
          "votes_ok C (bt_get ext) vs''"
          "case res of None \<Rightarrow> \<forall>v j. r + 1 \<le> round cu + j \<longrightarrow> \<not> decision_in C (bt_get ext) cand cu v j
             | Some (v, q) \<Rightarrow> round cu + 2 \<le> q \<and> decision_in C (bt_get ext) cand cu v (q - round cu)"
        by auto
      have "\<not> decision_in C (bt_get ext) cand cu v j"
        if "r \<le> round cu + j" "\<forall>v j. r + 1 \<le> round cu + j \<longrightarrow> \<not> decision_in C (bt_get ext) cand cu v j"
        for v j
        using that no found k by (cases "j = k") auto
      then show ?thesis
        using False no scan cv res by (subst decide_loop.simps) (auto split: option.splits)
    qed
  qed
qed

section \<open>The caches\<close>

text \<open>What an engine's caches promise, and the graph below them.\<close>

definition caches_ok :: "crypto \<Rightarrow> 'd engine \<Rightarrow> bool" where
  "caches_ok C e \<longleftrightarrow>
     dag_ok (num_n e) (view_of e) \<and> index_ok (rounds e) (unit_table e) \<and>
     bt_sub (extended e) (unit_table e) \<and>
     votes_ok C (view_of e) (votes e) \<and> decided_ok C (view_of e) (decided e)"

lemma decide_correct:
  assumes K: "caches_ok C e" and c: "view_of e cand = Some cu"
  shows "\<exists>res e'. decide C cand e = Some (res, e') \<and> caches_ok C e' \<and> same_dag e e' \<and>
    (case res of None \<Rightarrow> \<forall>v j. \<not> decision_in C (view_of e) cand cu v j
     | Some v \<Rightarrow> \<exists>j. decision_in C (view_of e) cand cu v j)"
proof (cases "bt_get (decided e) cand")
  case (Some d)
  obtain v r where d: "d = (v, r)" by (cases d)
  have "decision_in C (view_of e) cand cu v (r - round cu)"
    using K c Some d by (fastforce simp: caches_ok_def decided_ok_def decision_in_def)
  then show ?thesis using Some K d by (auto simp: decide_def)
next
  case None
  have V: "dag_ok (num_n e) (bt_get (extended e))" and cc: "bt_get (extended e) cand = Some cu"
    and ix: "index_ok (rounds e) (unit_table e)" "bt_sub (extended e) (unit_table e)"
    and vs: "votes_ok C (bt_get (extended e)) (votes e)"
    using K c by (auto simp: caches_ok_def view_of_def)
  from decide_loop_correct [OF V cc ix vs order.refl] obtain res vs' where
    dl: "decide_loop C (threshold (num_n e)) (rounds e) (extended e) cand (round cu)
      (round cu + 2) (votes e) = Some (res, vs')"
    and vs': "votes_ok C (bt_get (extended e)) vs'"
    and res: "case res of
         None \<Rightarrow> \<forall>v j. round cu + 2 \<le> round cu + j \<longrightarrow> \<not> decision_in C (bt_get (extended e)) cand cu v j
       | Some (v, q) \<Rightarrow> round cu + 2 \<le> q \<and> decision_in C (bt_get (extended e)) cand cu v (q - round cu)"
    by blast
  show ?thesis
  proof (cases res)
    case None
    have "\<not> decision_in C (bt_get (extended e)) cand cu v j" for v j
      using res None by (cases "2 \<le> j") (auto simp: decision_in_def decides_def)
    then show ?thesis
      using None \<open>bt_get (decided e) cand = None\<close> dl cc vs' K
      by (auto simp: decide_def caches_ok_def view_of_def same_dag_def)
  next
    case (Some vq)
    obtain v q where vq: "vq = (v, q)" by (cases vq)
    have dec: "decision_in C (bt_get (extended e)) cand cu v (q - round cu)"
      using res Some vq by simp
    have "decided_ok C (bt_get (extended e)) (bt_insert cand (v, q) (decided e))"
      using K dec cc by (auto simp: caches_ok_def view_of_def decided_ok_def decision_in_def)
    then show ?thesis
      using Some vq None dl cc vs' K dec
      by (auto simp: decide_def caches_ok_def view_of_def same_dag_def)
  qed
qed

section \<open>Heads\<close>

definition decided_as :: "crypto \<Rightarrow> view \<Rightarrow> bool \<Rightarrow> hash256 \<Rightarrow> bool" where
  "decided_as C V v c \<longleftrightarrow> (\<exists>cu j. V c = Some cu \<and> decision_in C V c cu v j)"

lemma same_dag_view [simp]: "same_dag e e' \<Longrightarrow> view_of e' = view_of e"
  by (simp add: same_dag_def view_of_def)

lemma choose_loop_correct:
  "caches_ok C e \<Longrightarrow> \<forall>c \<in> set cs. view_of e c \<noteq> None \<Longrightarrow> sorted_wrt (<) cs \<Longrightarrow>
   \<forall>c. \<not> (decided_as C (view_of e) True c \<and> decided_as C (view_of e) False c) \<Longrightarrow>
   \<exists>res e'. choose_loop C cs e = Some (res, e') \<and> caches_ok C e' \<and> same_dag e e' \<and>
    (case res of
       Some h \<Rightarrow> h \<in> set cs \<and> decided_as C (view_of e) True h \<and>
         (\<forall>c \<in> set cs. c < h \<longrightarrow> decided_as C (view_of e) False c)
     | None \<Rightarrow> \<forall>h \<in> set cs. \<not> (decided_as C (view_of e) True h \<and>
         (\<forall>c \<in> set cs. c < h \<longrightarrow> decided_as C (view_of e) False c)))"
proof (induction cs arbitrary: e)
  case (Cons c cs)
  from Cons.prems(2) obtain cu where cu: "view_of e c = Some cu" by auto
  from decide_correct [OF Cons.prems(1) cu] obtain res e1 where
    d: "decide C c e = Some (res, e1)" "caches_ok C e1" "same_dag e e1"
    and r: "case res of None \<Rightarrow> \<forall>v j. \<not> decision_in C (view_of e) c cu v j
       | Some v \<Rightarrow> \<exists>j. decision_in C (view_of e) c cu v j" by blast
  have later: "\<forall>x \<in> set cs. c < x" using Cons.prems(3) by simp
  consider "res = None" | "res = Some True" | "res = Some False" by (cases res) auto
  then show ?case
  proof cases
    case 1
    have "\<not> decided_as C (view_of e) v c" for v using 1 r cu by (auto simp: decided_as_def)
    with later show ?thesis using d 1 by auto
  next
    case 2
    have "decided_as C (view_of e) True c" using 2 r cu by (auto simp: decided_as_def)
    moreover have "\<forall>x \<in> set (c # cs). \<not> x < c" using later by auto
    ultimately show ?thesis using d 2 by auto
  next
    case 3
    have no: "decided_as C (view_of e) False c" using 3 r cu by (auto simp: decided_as_def)
    have pre: "\<forall>x \<in> set cs. view_of e1 x \<noteq> None" "sorted_wrt (<) cs"
      "\<forall>c. \<not> (decided_as C (view_of e1) True c \<and> decided_as C (view_of e1) False c)"
      using Cons.prems d(3) by auto
    from Cons.IH [OF d(2) pre] obtain res2 e2 where
      l: "choose_loop C cs e1 = Some (res2, e2)" "caches_ok C e2" "same_dag e1 e2"
      and r2: "case res2 of
       Some h \<Rightarrow> h \<in> set cs \<and> decided_as C (view_of e1) True h \<and>
         (\<forall>c \<in> set cs. c < h \<longrightarrow> decided_as C (view_of e1) False c)
     | None \<Rightarrow> \<forall>h \<in> set cs. \<not> (decided_as C (view_of e1) True h \<and>
         (\<forall>c \<in> set cs. c < h \<longrightarrow> decided_as C (view_of e1) False c))" by blast
    show ?thesis
    proof (cases res2)
      case (Some h)
      then show ?thesis
        using d 3 l r2 no same_dag_trans [OF d(3) l(3)] by auto
    next
      case None
      have "\<not> decided_as C (view_of e) True c" using no Cons.prems(4) by blast
      then show ?thesis
        using d 3 l r2 None same_dag_trans [OF d(3) l(3)] by auto
    qed
  qed
qed simp

text \<open>
  \<open>choose_head\<close> never panics, keeps the caches sound, and elects the head of the round exactly
  when the engine's view has one.
\<close>

lemma choose_head_correct:
  assumes K: "caches_ok C e"
    and ex: "\<forall>c. \<not> (decided_as C (view_of e) True c \<and> decided_as C (view_of e) False c)"
  shows "\<exists>res e'. choose_head C r e = Some (res, e') \<and> caches_ok C e' \<and> same_dag e e' \<and>
    (case res of Some h \<Rightarrow> is_head C (view_of e) r h | None \<Rightarrow> \<forall>h. \<not> is_head C (view_of e) r h)"
proof -
  have mem: "h \<in> set (extended_at (rounds e) (extended e) q) \<longleftrightarrow> (\<exists>u. view_of e h = Some u \<and> round u = q)"
    for h q
    using set_extended_at [of "rounds e" "unit_table e" "extended e"] K
    by (simp add: caches_ok_def view_of_def)
  let ?cs = "extended_at (rounds e) (extended e) r"
  have head: "is_head C (view_of e) r h \<longleftrightarrow>
      extended_at (rounds e) (extended e) (r + 3) \<noteq> [] \<and> h \<in> set ?cs \<and>
      decided_as C (view_of e) True h \<and> (\<forall>c \<in> set ?cs. c < h \<longrightarrow> decided_as C (view_of e) False c)" for h
  proof -
    have "extended_at (rounds e) (extended e) (r + 3) \<noteq> [] \<longleftrightarrow>
        (\<exists>w. \<exists>wu. view_of e w = Some wu \<and> round wu = r + 3)"
      unfolding mem [of _ "r + 3", symmetric]
      by (cases "extended_at (rounds e) (extended e) (r + 3)") auto
    moreover have "(\<forall>c \<in> set ?cs. c < h \<longrightarrow> decided_as C (view_of e) False c) \<longleftrightarrow>
        (\<forall>c cu. view_of e c = Some cu \<longrightarrow> round cu = r \<longrightarrow> c < h \<longrightarrow>
          (\<exists>k w. decides C (view_of e) c cu False k w))"
      unfolding Ball_def mem decided_as_def decision_in_def by fastforce
    moreover have "h \<in> set ?cs \<and> decided_as C (view_of e) True h \<longleftrightarrow>
        (\<exists>hu. view_of e h = Some hu \<and> round hu = r \<and> (\<exists>k w. decides C (view_of e) h hu True k w))"
      unfolding mem decided_as_def decision_in_def by fastforce
    ultimately show ?thesis unfolding is_head_def by blast
  qed
  show ?thesis
  proof (cases "extended_at (rounds e) (extended e) (r + 3) = []")
    case True
    then show ?thesis using K head by (simp add: choose_head_def)
  next
    case False
    have "\<forall>c \<in> set ?cs. view_of e c \<noteq> None" using mem by auto
    from choose_loop_correct [OF K this sorted_extended_at ex] obtain res e' where
      l: "choose_loop C ?cs e = Some (res, e')" "caches_ok C e'" "same_dag e e'"
      and r: "case res of
         Some h \<Rightarrow> h \<in> set ?cs \<and> decided_as C (view_of e) True h \<and>
           (\<forall>c \<in> set ?cs. c < h \<longrightarrow> decided_as C (view_of e) False c)
       | None \<Rightarrow> \<forall>h \<in> set ?cs. \<not> (decided_as C (view_of e) True h \<and>
           (\<forall>c \<in> set ?cs. c < h \<longrightarrow> decided_as C (view_of e) False c))" by blast
    have "case res of Some h \<Rightarrow> is_head C (view_of e) r h | None \<Rightarrow> \<forall>h. \<not> is_head C (view_of e) r h"
      unfolding head using r False by (cases res) simp_all
    with l False show ?thesis unfolding choose_head_def by simp
  qed
qed

end
