(* ===== verification/Bft_Order.thy ===== *)
theory Bft_Order
  imports Bft_Refine "HOL-Library.Sublist"
begin

text \<open>
  The order. What an engine has emitted is a function of the heads it committed: the breadth-first
  batches of the heads, in order. Two engines on one graph therefore emit one sequence, of which
  each has a prefix. \<open>run_extender\<close> never panics on an engine that keeps its invariant.
\<close>

section \<open>The batch of a head\<close>

definition parents_closed :: "view \<Rightarrow> bool" where
  "parents_closed V \<longleftrightarrow>
     (\<forall>h u p. V h = Some u \<longrightarrow> p \<in> set (bt_values (parents u)) \<longrightarrow>
        (\<exists>q. V p = Some q \<and> round q < round u))"

lemma dag_closed: "dag_ok n V \<Longrightarrow> parents_closed V"
  unfolding parents_closed_def using parent_position by fastforce

lemma enqueue_new_spec:
  "enqueue_new ps (q, em) = (q', em') \<Longrightarrow>
     set q' \<subseteq> set q \<union> set ps \<and> (\<forall>h. bt_has em' h \<longleftrightarrow> bt_has em h \<or> h \<in> set ps)"
proof (induction ps arbitrary: q em)
  case (Cons p ps)
  show ?case
  proof (cases "bt_has em p")
    case True
    with Cons.IH [of q em] Cons.prems show ?thesis by auto
  next
    case False
    with Cons.IH [of "q @ [p]" "bs_insert p em"] Cons.prems show ?thesis
      by (auto simp: bt_has_def split: if_splits)
  qed
qed auto

text \<open>
  On a closed view that holds the queue the loop returns, marks only ancestors of the queue, and
  every unit it lists is in the view.
\<close>

lemma bfs_loop_total:
  "parents_closed (bt_get ext) \<Longrightarrow> \<forall>h \<in> set q. \<exists>u. bt_get ext h = Some u \<and> round u \<le> R \<Longrightarrow>
   \<forall>h \<in> set b. bt_get ext h \<noteq> None \<Longrightarrow>
   \<exists>b' em'. bfs_loop ext q em b = Some (b', em') \<and>
     (\<forall>h. bt_has em h \<longrightarrow> bt_has em' h) \<and>
     (\<forall>h. bt_has em' h \<longrightarrow> bt_has em h \<or> (\<exists>u. bt_get ext h = Some u \<and> round u \<le> R)) \<and>
     (\<forall>h \<in> set b'. bt_get ext h \<noteq> None)"
proof (induction ext q em b rule: bfs_loop.induct)
  case (2 ext h queue em batch)
  from "2.prems"(2) obtain u where u: "bt_get ext h = Some u" "round u \<le> R" by auto
  obtain q' em' where e: "enqueue_new (bt_values (parents u)) (queue, em) = (q', em')" by fastforce
  note sp = enqueue_new_spec [OF e]
  have par: "\<exists>q. bt_get ext p = Some q \<and> round q \<le> R" if "p \<in> set (bt_values (parents u))" for p
    using "2.prems"(1) u that unfolding parents_closed_def by fastforce
  have "\<forall>h \<in> set q'. \<exists>u. bt_get ext h = Some u \<and> round u \<le> R"
    using sp par "2.prems"(2) by auto
  from "2.IH" [OF u(1) e [symmetric] "2.prems"(1) this] "2.prems"(3) u(1) obtain b2 em2 where
    r: "bfs_loop ext q' em' (batch @ [h]) = Some (b2, em2)" "\<forall>h. bt_has em' h \<longrightarrow> bt_has em2 h"
      "\<forall>h. bt_has em2 h \<longrightarrow> bt_has em' h \<or> (\<exists>u. bt_get ext h = Some u \<and> round u \<le> R)"
      "\<forall>h \<in> set b2. bt_get ext h \<noteq> None" by auto
  then show ?case using u(1) e sp par by auto
qed simp

text \<open>The batch depends only on the graph below the queue: two closed views of one graph agree.\<close>

lemma bfs_loop_agree:
  "bfs_loop ext q em b = Some r \<Longrightarrow> bt_get ext \<subseteq>\<^sub>m G \<Longrightarrow> bt_get ext' \<subseteq>\<^sub>m G \<Longrightarrow>
   parents_closed (bt_get ext') \<Longrightarrow> \<forall>h \<in> set q. bt_get ext' h \<noteq> None \<Longrightarrow>
   bfs_loop ext' q em b = Some r"
proof (induction ext q em b rule: bfs_loop.induct)
  case (2 ext h queue em batch)
  from "2.prems"(1) obtain u where u: "bt_get ext h = Some u" by (auto split: option.splits)
  from "2.prems"(5) obtain u' where u': "bt_get ext' h = Some u'" by auto
  have "u' = u"
    using u u' "2.prems"(2,3) by (metis domI map_le_def option.inject)
  obtain q' em' where e: "enqueue_new (bt_values (parents u)) (queue, em) = (q', em')" by fastforce
  have "bt_get ext' p \<noteq> None" if "p \<in> set (bt_values (parents u))" for p
    using "2.prems"(4) u' \<open>u' = u\<close> that unfolding parents_closed_def by blast
  then have "\<forall>h \<in> set q'. bt_get ext' h \<noteq> None"
    using enqueue_new_spec [OF e] "2.prems"(5) by auto
  with "2.IH" [OF u e [symmetric]] "2.prems" u e have "bfs_loop ext' q' em' (batch @ [h]) = Some r"
    by simp
  then show ?case using u' \<open>u' = u\<close> e by simp
qed simp

section \<open>The emission of a list of heads\<close>

fun emission ::
  "(hash256, bft_unit) btmap \<Rightarrow> hash256 list \<Rightarrow> hash256 btset \<Rightarrow> (hash256 list \<times> hash256 btset) option" where
  "emission ext [] em = Some ([], em)"
| "emission ext (h # hs) em =
     (if bt_has em h then None
      else
        (case bfs_loop ext [h] (bs_insert h em) [] of
           None \<Rightarrow> None
         | Some (batch, em') \<Rightarrow> map_option (\<lambda>(l, em''). (rev batch @ l, em'')) (emission ext hs em')))"

lemma emission_append:
  "emission ext (hs @ ks) em =
     (case emission ext hs em of
        None \<Rightarrow> None
      | Some (l, em') \<Rightarrow> map_option (\<lambda>(l', em''). (l @ l', em'')) (emission ext ks em'))"
proof (induction hs arbitrary: em)
  case Nil
  then show ?case by (cases "emission ext ks em") auto
next
  case (Cons h hs)
  then show ?case
    by (simp add: option.map_comp o_def case_prod_unfold del: bfs_loop.simps split: option.splits)
qed

lemma emission_agree:
  "emission ext hs em = Some r \<Longrightarrow> bt_get ext \<subseteq>\<^sub>m G \<Longrightarrow> bt_get ext' \<subseteq>\<^sub>m G \<Longrightarrow>
   parents_closed (bt_get ext') \<Longrightarrow> \<forall>h \<in> set hs. bt_get ext' h \<noteq> None \<Longrightarrow>
   emission ext' hs em = Some r"
proof (induction hs arbitrary: em r)
  case (Cons h hs)
  then obtain batch em' l em'' where b: "bfs_loop ext [h] (bs_insert h em) [] = Some (batch, em')"
    "emission ext hs em' = Some (l, em'')" "r = (rev batch @ l, em'')" "\<not> bt_has em h"
    by (auto split: if_splits option.splits)
  have "bfs_loop ext' [h] (bs_insert h em) [] = Some (batch, em')"
    using bfs_loop_agree [OF b(1) Cons.prems(2-4)] Cons.prems(5) by simp
  moreover have "emission ext' hs em' = Some (l, em'')"
    using Cons.IH [OF b(2)] Cons.prems by simp
  ultimately show ?case using b by simp
qed simp

text \<open>The items of a sequence of units: the payload of each, tagged with its round and creator.\<close>

definition unit_items :: "view \<Rightarrow> (hash256 \<Rightarrow> 'd list) \<Rightarrow> hash256 \<Rightarrow> (nat \<times> node_id \<times> 'd) list" where
  "unit_items V pay h = (case V h of None \<Rightarrow> [] | Some u \<Rightarrow> map (\<lambda>d. (round u, creator u, d)) (pay h))"

definition items :: "view \<Rightarrow> (hash256 \<Rightarrow> 'd list) \<Rightarrow> hash256 list \<Rightarrow> (nat \<times> node_id \<times> 'd) list" where
  "items V pay hs = concat (map (unit_items V pay) hs)"

lemma items_append [simp]: "items V pay (xs @ ys) = items V pay xs @ items V pay ys"
  by (simp add: items_def)

lemma items_agree:
  "V \<subseteq>\<^sub>m G \<Longrightarrow> \<forall>h \<in> set hs. V h \<noteq> None \<Longrightarrow> items V pay hs = items G pay hs"
  unfolding items_def unit_items_def map_le_def
  by (intro arg_cong [where f = concat] map_cong) (auto simp: dom_def split: option.splits)

section \<open>The invariant of an engine's log\<close>

definition head_in :: "crypto \<Rightarrow> num_nodes \<Rightarrow> view \<Rightarrow> nat \<Rightarrow> hash256 \<Rightarrow> bool" where
  "head_in C n V r h \<longleftrightarrow> (\<exists>W. dag_ok n W \<and> W \<subseteq>\<^sub>m V \<and> is_head C W r h)"

lemma head_in_mono: "head_in C n V r h \<Longrightarrow> V \<subseteq>\<^sub>m V' \<Longrightarrow> head_in C n V' r h"
  unfolding head_in_def using map_le_trans by blast

lemma head_in_held: "head_in C n V r h \<Longrightarrow> \<exists>u. V h = Some u \<and> round u = r"
  unfolding head_in_def is_head_def by (metis domI map_le_def)

definition log_ok :: "crypto \<Rightarrow> (hash256 \<Rightarrow> 'd list) \<Rightarrow> 'd engine \<Rightarrow> bool" where
  "log_ok C pay e \<longleftrightarrow>
     (\<exists>hs seq. length hs = next_decide_round e \<and>
        (\<forall>r < length hs. head_in C (num_n e) (view_of e) r (hs ! r)) \<and>
        emission (extended e) hs bt_empty = Some (seq, emitted e) \<and>
        (\<forall>h \<in> set seq. view_of e h \<noteq> None) \<and>
        (\<forall>h. bt_has (emitted e) h \<longrightarrow> (\<exists>u. view_of e h = Some u \<and> round u < next_decide_round e)) \<and>
        ordered e = items (view_of e) pay seq)"

definition rows_ok :: "(hash256 \<Rightarrow> 'd list) \<Rightarrow> 'd engine \<Rightarrow> bool" where
  "rows_ok pay e \<longleftrightarrow>
     (\<forall>h u. bt_get (unit_table e) h = Some u \<longrightarrow> bt_get (unit_data_table e) h = Some (pay h))"

section \<open>Committing a head\<close>

lemma rows_ok_same: "rows_ok pay e \<Longrightarrow> same_dag e e' \<Longrightarrow> rows_ok pay e'"
  by (simp add: rows_ok_def same_dag_def)

lemma emit_batch_items:
  "rows_ok pay e \<Longrightarrow> bt_sub (extended e) (unit_table e) \<Longrightarrow> \<forall>h \<in> set hs. view_of e h \<noteq> None \<Longrightarrow>
   \<exists>e'. emit_batch hs e = Some e' \<and> ordered e' = ordered e @ items (view_of e) pay hs"
proof (induction hs arbitrary: e)
  case (Cons h hs)
  from Cons.prems(3) obtain u where u: "bt_get (extended e) h = Some u" by (auto simp: view_of_def)
  then have "bt_get (unit_data_table e) h = Some (pay h)"
    using Cons.prems(1,2) by (auto simp: rows_ok_def dest: bt_subD)
  with u have "\<exists>e1. emit_unit h e = Some e1 \<and> ordered e1 = ordered e @ unit_items (view_of e) pay h"
    by (simp add: emit_unit_def Let_def unit_items_def view_of_def)
  then obtain e1 where e1: "emit_unit h e = Some e1"
    "ordered e1 = ordered e @ unit_items (view_of e) pay h" by blast
  have s: "same_dag e e1" using emit_unit_same [OF e1(1)] by simp
  have "rows_ok pay e1" using Cons.prems(1) s by (rule rows_ok_same)
  moreover have "bt_sub (extended e1) (unit_table e1)" using Cons.prems(2) s by (simp add: same_dag_def)
  moreover have "\<forall>h \<in> set hs. view_of e1 h \<noteq> None" "view_of e1 = view_of e"
    using Cons.prems(3) s by auto
  ultimately obtain e2 where
    "emit_batch hs e1 = Some e2" "ordered e2 = ordered e1 @ items (view_of e) pay hs"
    using Cons.IH [of e1] by auto
  with e1 show ?case by (simp add: items_def)
qed (simp add: items_def)

lemma commit_head_correct:
  assumes L: "log_ok C pay e" and R: "rows_ok pay e" and S: "bt_sub (extended e) (unit_table e)"
    and V: "dag_ok (num_n e) (view_of e)" and h: "is_head C (view_of e) (next_decide_round e) h"
  shows "\<exists>e'. commit_head h e = Some e' \<and> log_ok C pay e'"
proof -
  from L obtain hs seq where
    hs: "length hs = next_decide_round e" "\<forall>r < length hs. head_in C (num_n e) (view_of e) r (hs ! r)"
    and em: "emission (extended e) hs bt_empty = Some (seq, emitted e)"
    and seq: "\<forall>h \<in> set seq. view_of e h \<noteq> None" "ordered e = items (view_of e) pay seq"
    and low: "\<forall>h. bt_has (emitted e) h \<longrightarrow> (\<exists>u. view_of e h = Some u \<and> round u < next_decide_round e)"
    unfolding log_ok_def by blast
  have hd: "head_in C (num_n e) (view_of e) (next_decide_round e) h"
    unfolding head_in_def by (rule exI [of _ "view_of e"]) (simp add: V h)
  from head_in_held [OF hd] obtain hu where
    hu: "bt_get (extended e) h = Some hu" "round hu = next_decide_round e"
    by (auto simp: view_of_def)
  have fresh: "\<not> bt_has (emitted e) h" using low hu by (auto simp: view_of_def)
  have C: "parents_closed (bt_get (extended e))" using dag_closed [OF V] by (simp add: view_of_def)
  from bfs_loop_total [OF C, of "[h]" "next_decide_round e" "[]" "bs_insert h (emitted e)"] hu
  obtain batch em' where
    b: "bfs_loop (extended e) [h] (bs_insert h (emitted e)) [] = Some (batch, em')"
    and em': "\<forall>k. bt_has em' k \<longrightarrow> bt_has (bs_insert h (emitted e)) k \<or>
        (\<exists>u. view_of e k = Some u \<and> round u \<le> next_decide_round e)"
    and batch: "\<forall>k \<in> set batch. view_of e k \<noteq> None"
    by (auto simp: view_of_def simp del: bfs_loop.simps)
  let ?e1 = "e\<lparr>emitted := em'\<rparr>"
  have bb: "bfs_batch h e = Some (rev batch, ?e1)"
    using fresh b by (simp add: bfs_batch_def del: bfs_loop.simps)
  from emit_batch_items [of pay ?e1 "rev batch"] R S batch obtain e2 where
    e2: "emit_batch (rev batch) ?e1 = Some e2"
      "ordered e2 = ordered e @ items (view_of e) pay (rev batch)"
    by (auto simp: rows_ok_def view_of_def)
  note same = emit_batch_same [OF e2(1)]
  let ?e3 = "e2\<lparr>next_decide_round := next_decide_round e2 + 1\<rparr>"
  have c: "commit_head h e = Some ?e3" using bb e2(1) by (simp add: commit_head_def)
  have f: "num_n ?e3 = num_n e" "view_of ?e3 = view_of e" "extended ?e3 = extended e"
    "emitted ?e3 = em'" "next_decide_round ?e3 = next_decide_round e + 1"
    using same by (simp_all add: same_dag_def view_of_def)
  have heads: "\<forall>r < length (hs @ [h]). head_in C (num_n e) (view_of e) r ((hs @ [h]) ! r)"
    using hs hd by (auto simp: nth_append less_Suc_eq)
  have emit: "emission (extended e) (hs @ [h]) bt_empty = Some (seq @ rev batch, em')"
    using em fresh b by (simp add: emission_append del: bfs_loop.simps)
  have below: "\<forall>k. bt_has em' k \<longrightarrow> (\<exists>u. view_of e k = Some u \<and> round u < next_decide_round e + 1)"
  proof (intro allI impI)
    fix k assume "bt_has em' k"
    with em' consider "k = h" | "bt_has (emitted e) k" | "\<exists>u. view_of e k = Some u \<and> round u \<le> next_decide_round e"
      by (auto simp: bt_has_def split: if_splits)
    then show "\<exists>u. view_of e k = Some u \<and> round u < next_decide_round e + 1"
      using low hu by cases (auto simp: view_of_def less_Suc_eq)
  qed
  have "log_ok C pay ?e3"
    unfolding log_ok_def f
    by (rule exI [of _ "hs @ [h]"], rule exI [of _ "seq @ rev batch"])
      (use hs(1) heads emit below seq batch e2(2) in auto)
  with c show ?thesis by blast
qed

section \<open>The extender\<close>

definition engine_ok :: "crypto \<Rightarrow> (hash256 \<Rightarrow> 'd list) \<Rightarrow> 'd engine \<Rightarrow> bool" where
  "engine_ok C pay e \<longleftrightarrow> caches_ok C e \<and> log_ok C pay e \<and> rows_ok pay e"

definition consistent :: "crypto \<Rightarrow> view \<Rightarrow> bool" where
  "consistent C V \<longleftrightarrow> (\<forall>c. \<not> (decided_as C V True c \<and> decided_as C V False c))"

lemma good_dag_consistent:
  assumes "good_dag n H G" "dag_ok n V" "V \<subseteq>\<^sub>m G"
  shows "consistent C V"
  unfolding consistent_def
proof (intro allI notI)
  fix c assume "decided_as C V True c \<and> decided_as C V False c"
  then obtain cu k w k' w' where d: "decides C V c cu True k w" "decides C V c cu False k' w'"
    by (auto simp: decided_as_def decision_in_def)
  show False
    using decides_unique [OF assms(1) decides_mono [OF assms(2,3) d(1)] decides_mono [OF assms(2,3) d(2)]]
    by simp
qed

lemma log_ok_same:
  "log_ok C pay e \<Longrightarrow> same_dag e e' \<Longrightarrow> emitted e' = emitted e \<Longrightarrow> ordered e' = ordered e \<Longrightarrow>
   next_decide_round e' = next_decide_round e \<Longrightarrow> log_ok C pay e'"
  by (simp add: log_ok_def same_dag_def view_of_def)

lemma caches_ok_same:
  "caches_ok C e \<Longrightarrow> same_dag e e' \<Longrightarrow> decided e' = decided e \<Longrightarrow> votes e' = votes e \<Longrightarrow> caches_ok C e'"
  by (simp add: caches_ok_def same_dag_def view_of_def)

text \<open>
  \<open>run_extender\<close> returns on every engine that keeps the invariant, keeps it, and stops only when
  its next round has no head yet.
\<close>

lemma run_extender_correct:
  "engine_ok C pay e \<Longrightarrow> consistent C (view_of e) \<Longrightarrow>
   \<exists>e'. run_extender C e = Some e' \<and> engine_ok C pay e' \<and> same_dag e e' \<and>
     (\<forall>h. \<not> is_head C (view_of e') (next_decide_round e') h)"
proof (induction C e rule: run_extender.induct)
  case (1 C e)
  then have K: "caches_ok C e" and L: "log_ok C pay e" and R: "rows_ok pay e"
    by (simp_all add: engine_ok_def)
  from choose_head_correct [OF K "1.prems"(2) [unfolded consistent_def], of "next_decide_round e"]
  obtain res e1 where
    ch: "choose_head C (next_decide_round e) e = Some (res, e1)" "caches_ok C e1" "same_dag e e1"
    and r: "case res of Some h \<Rightarrow> is_head C (view_of e) (next_decide_round e) h
      | None \<Rightarrow> \<forall>h. \<not> is_head C (view_of e) (next_decide_round e) h" by blast
  note same = choose_head_same [OF ch(1)]
  have L1: "log_ok C pay e1" using log_ok_same [OF L ch(3)] same by simp
  have R1: "rows_ok pay e1" using rows_ok_same [OF R ch(3)] .
  show ?case
  proof (cases res)
    case None
    then have "run_extender C e = Some e1" using ch(1) by (simp add: run_extender.simps)
    then show ?thesis
      using None r same ch(2,3) L1 R1 by (auto simp: engine_ok_def)
  next
    case (Some h)
    have V: "view_of e1 = view_of e" using ch(3) by simp
    from commit_head_correct [OF L1 R1, of h] ch(2) r Some same obtain e2 where
      e2: "commit_head h e1 = Some e2" "log_ok C pay e2" by (auto simp: caches_ok_def V)
    note c = commit_head_same [OF e2(1)]
    have E2: "engine_ok C pay e2"
      using c e2(2) R1 ch(2) by (auto simp: engine_ok_def intro: rows_ok_same caches_ok_same)
    have V2: "view_of e2 = view_of e" using c V by (simp add: same_dag_def view_of_def)
    from "1.IH" [OF ch(1) refl Some e2(1) E2] "1.prems"(2) obtain e3 where
      "run_extender C e2 = Some e3" "engine_ok C pay e3" "same_dag e2 e3"
      "\<forall>h. \<not> is_head C (view_of e3) (next_decide_round e3) h" by (auto simp: V2)
    moreover have "run_extender C e = run_extender C e2"
      using ch(1) Some e2(1) by (subst run_extender.simps) simp
    moreover have "same_dag e e2" using same_dag_trans [OF ch(3)] c by blast
    ultimately show ?thesis using same_dag_trans [of e e2 e3] by auto
  qed
qed

section \<open>Agreement\<close>

lemma heads_prefix:
  assumes G: "good_dag n H G" and V: "V \<subseteq>\<^sub>m G" "W \<subseteq>\<^sub>m G"
    and hs: "\<forall>r < length hs. head_in C n V r (hs ! r)" and ks: "\<forall>r < length ks. head_in C n W r (ks ! r)"
    and le: "length hs \<le> length ks"
  shows "\<exists>js. ks = hs @ js"
proof -
  have "hs ! r = ks ! r" if "r < length hs" for r
  proof -
    from hs that obtain A where A: "dag_ok n A" "A \<subseteq>\<^sub>m V" "is_head C A r (hs ! r)"
      unfolding head_in_def by blast
    from ks that le obtain B where B: "dag_ok n B" "B \<subseteq>\<^sub>m W" "is_head C B r (ks ! r)"
      unfolding head_in_def by (meson less_le_trans)
    show ?thesis
      by (rule heads_agree [OF G A(1) map_le_trans [OF A(2) V(1)] B(1) map_le_trans [OF B(2) V(2)] A(3) B(3)])
  qed
  then have "hs = take (length hs) ks" using le by (simp add: list_eq_iff_nth_eq)
  then show ?thesis by (metis append_take_drop_id)
qed

lemma log_prefix:
  assumes G: "good_dag n H G"
    and e: "caches_ok C e" "log_ok C pay e" "num_n e = n" "view_of e \<subseteq>\<^sub>m G"
    and f: "caches_ok C f" "log_ok C pay f" "num_n f = n" "view_of f \<subseteq>\<^sub>m G"
    and le: "next_decide_round e \<le> next_decide_round f"
  shows "prefix (ordered e) (ordered f)"
proof -
  from e(2,3) obtain hs seq where
    hs: "length hs = next_decide_round e" "\<forall>r < length hs. head_in C n (view_of e) r (hs ! r)"
    and em: "emission (extended e) hs bt_empty = Some (seq, emitted e)"
    and seq: "\<forall>h \<in> set seq. view_of e h \<noteq> None" "ordered e = items (view_of e) pay seq"
    unfolding log_ok_def by blast
  from f(2,3) obtain ks seq' where
    ks: "length ks = next_decide_round f" "\<forall>r < length ks. head_in C n (view_of f) r (ks ! r)"
    and em': "emission (extended f) ks bt_empty = Some (seq', emitted f)"
    and seq': "\<forall>h \<in> set seq'. view_of f h \<noteq> None" "ordered f = items (view_of f) pay seq'"
    unfolding log_ok_def by blast
  from heads_prefix [OF G e(4) f(4) hs(2) ks(2)] le hs(1) ks(1) obtain js where js: "ks = hs @ js"
    by auto
  have held: "\<forall>h \<in> set hs. bt_get (extended f) h \<noteq> None"
    using ks(2) head_in_held unfolding js view_of_def
    by (metis in_set_conv_nth length_append nth_append option.distinct(1) trans_less_add1)
  have "parents_closed (bt_get (extended f))"
    using f(1) dag_closed by (auto simp: caches_ok_def view_of_def)
  with emission_agree [OF em _ _ _ held, of G] e(4) f(4)
  have "emission (extended f) hs bt_empty = Some (seq, emitted e)" by (simp add: view_of_def)
  then obtain l where l: "seq' = seq @ l"
    using em' unfolding js emission_append by (auto split: option.splits)
  have "ordered e = items G pay seq" using items_agree [OF e(4)] seq by simp
  moreover have "ordered f = items G pay seq'" using items_agree [OF f(4)] seq' by simp
  ultimately show ?thesis by (simp add: l)
qed

text \<open>Two engines on one graph have logs one of which continues the other.\<close>

lemma logs_comparable:
  assumes "good_dag n H G"
    "caches_ok C e" "log_ok C pay e" "num_n e = n" "view_of e \<subseteq>\<^sub>m G"
    "caches_ok C f" "log_ok C pay f" "num_n f = n" "view_of f \<subseteq>\<^sub>m G"
  shows "prefix (ordered e) (ordered f) \<or> prefix (ordered f) (ordered e)"
  using log_prefix [OF assms(1-9)] log_prefix [OF assms(1,6-9,2-5)] by linarith

end
