(* ===== verification/Bft_Engine.thy ===== *)
theory Bft_Engine
  imports Bft_Order
begin

text \<open>
  The rest of the engine (\<open>picomint-bft/src/engine.rs\<close>): admission of units, the message
  handlers, the parent walk, unit creation and the replay on startup. A result of \<open>None\<close> is a
  panic; a rejected message is the \<open>Inl\<close> of its reason beside the state it leaves. The data
  provider and the clock are arguments: \<open>draws i\<close> is the payload the \<open>i\<close>-th call of
  \<open>get_data\<close> returns, \<open>now h\<close> the instant read when unit \<open>h\<close> is asked for.
\<close>

datatype bft_error =
    CreatorNotInMint | RoundZeroHasParents | WrongParentCount | ParentCreatorNotInMint
  | InvalidCreatorSignature | PayloadMismatch | UnitAlreadyStored

section \<open>Admission\<close>

definition validate_unit ::
  "crypto \<Rightarrow> ('d \<Rightarrow> bytes) \<Rightarrow> 'd engine \<Rightarrow> 'd unit_envelope \<Rightarrow> bft_error + unit" where
  "validate_unit C enc e ev =
     (let u = unit ev; ids = node_ids (num_n e)
      in if creator u \<notin> set ids then Inl CreatorNotInMint
         else if round u = 0 \<and> parents u \<noteq> bt_empty then Inl RoundZeroHasParents
         else if round u \<noteq> 0 \<and> bt_len (parents u) \<noteq> threshold (num_n e) then Inl WrongParentCount
         else if round u \<noteq> 0 \<and> \<not> list_all (\<lambda>p. p \<in> set ids) (bt_keys (parents u))
           then Inl ParentCreatorNotInMint
         else if \<not> keychain_verify C (keychain_of e) (eng_session e) (enc_unit u) (signature ev) (creator u)
           then Inl InvalidCreatorSignature
         else if data u \<noteq> payload_commitment C enc (payload ev) then Inl PayloadMismatch
         else Inr ())"

definition store_unit :: "'d unit_envelope \<Rightarrow> hash256 \<Rightarrow> 'd engine \<Rightarrow> bft_error + 'd engine" where
  "store_unit ev h e =
     (let u = unit ev
      in if bt_has (unit_table e) h then Inl UnitAlreadyStored
         else Inr (e\<lparr>
           unit_table := bt_insert h u (unit_table e),
           unit_data_table := bt_insert h (payload ev) (unit_data_table e),
           unit_signature_table := bt_insert h (signature ev) (unit_signature_table e),
           rounds := index_round (round u) h (rounds e),
           own_top := (if creator u = my_id e \<and>
                (case own_top e of None \<Rightarrow> True | Some (t, _) \<Rightarrow> t < round u)
              then Some (round u, h) else own_top e)\<rparr>))"

definition insert_unit ::
  "crypto \<Rightarrow> ('d \<Rightarrow> bytes) \<Rightarrow> 'd unit_envelope \<Rightarrow> hash256 \<Rightarrow> 'd engine \<Rightarrow> bft_error + 'd engine" where
  "insert_unit C enc ev h e =
     (case validate_unit C enc e ev of Inl err \<Rightarrow> Inl err | Inr _ \<Rightarrow> store_unit ev h e)"

section \<open>Requests\<close>

definition send_to :: "recipient \<Rightarrow> 'd message \<Rightarrow> 'd engine \<Rightarrow> 'd engine" where
  "send_to r m e = e\<lparr>sent := sent e @ [(r, m)]\<rparr>"

text \<open>\<open>REQUEST_DEDUP_INTERVAL\<close>, one second, in nanoseconds.\<close>

definition request_dedup_interval :: nat where
  "request_dedup_interval = 1000000000"

definition try_send_request :: "nat \<Rightarrow> node_id \<Rightarrow> hash256 \<Rightarrow> 'd engine \<Rightarrow> 'd engine" where
  "try_send_request now node h e =
     (case bt_get (request_sent_at e) h of
        Some prev \<Rightarrow>
          if now - prev < request_dedup_interval then e
          else send_to (Node node) (MRequest h) (e\<lparr>request_sent_at := bt_insert h now (request_sent_at e)\<rparr>)
      | None \<Rightarrow>
          send_to (Node node) (MRequest h) (e\<lparr>request_sent_at := bt_insert h now (request_sent_at e)\<rparr>))"

text \<open>
  The walk over missing ancestors. The stack's top is the head of the list; \<open>extend\<close> pushes the
  parents in ascending order of their creators, so the last is popped first.
\<close>

function cascade_loop ::
  "(hash256 \<Rightarrow> nat) \<Rightarrow> node_id \<Rightarrow> hash256 list \<Rightarrow> hash256 btset \<Rightarrow> 'd engine \<Rightarrow> 'd engine" where
  "cascade_loop now sender [] visited e = e"
| "cascade_loop now sender (h # stack) visited e =
     (if bt_has visited h then cascade_loop now sender stack visited e
      else if is_extended e h then cascade_loop now sender stack (bs_insert h visited) e
      else
        (case bt_get (unit_table e) h of
           None \<Rightarrow> cascade_loop now sender stack (bs_insert h visited) (try_send_request (now h) sender h e)
         | Some u \<Rightarrow>
             cascade_loop now sender (rev (bt_values (parents u)) @ stack) (bs_insert h visited) e))"
  by pat_completeness auto

definition unvisited :: "hash256 btset \<Rightarrow> hash256 set" where
  "unvisited s = - {h. bt_has s h}"

lemma unvisited_less: "\<not> bt_has s h \<Longrightarrow> card (unvisited (bs_insert h s)) < card (unvisited s)"
  by (rule psubset_card_mono) (auto simp: unvisited_def bt_has_def split: if_splits)

termination cascade_loop
  by (relation "(\<lambda>(now, sender, stack, visited, e). card (unvisited visited)) <*mlex*>
      measure (\<lambda>(now, sender, stack, visited, e). length stack)")
    (auto intro: wf_mlex mlex_less mlex_leq simp: unvisited_less)

definition cascade_parents ::
  "(hash256 \<Rightarrow> nat) \<Rightarrow> node_id \<Rightarrow> bft_unit \<Rightarrow> 'd engine \<Rightarrow> 'd engine" where
  "cascade_parents now sender u e =
     cascade_loop now sender (rev (bt_values (parents u))) bt_empty e"

text \<open>The stored envelope; the outer \<open>None\<close> is the panic on a missing payload or signature row.\<close>

definition envelope :: "hash256 \<Rightarrow> 'd engine \<Rightarrow> 'd unit_envelope option option" where
  "envelope h e =
     (case bt_get (unit_table e) h of
        None \<Rightarrow> Some None
      | Some u \<Rightarrow>
          (case bt_get (unit_data_table e) h of
             None \<Rightarrow> None
           | Some ds \<Rightarrow>
               (case bt_get (unit_signature_table e) h of
                  None \<Rightarrow> None
                | Some sig \<Rightarrow> Some (Some \<lparr>unit = u, payload = ds, signature = sig\<rparr>))))"

definition handle_request :: "node_id \<Rightarrow> hash256 \<Rightarrow> 'd engine \<Rightarrow> 'd engine option" where
  "handle_request requester h e =
     (case envelope h e of
        None \<Rightarrow> None
      | Some None \<Rightarrow> Some e
      | Some (Some ev) \<Rightarrow> Some (send_to (Node requester) (MUnit ev) e))"

definition broadcast_anti_entropy :: "'d engine \<Rightarrow> 'd engine option" where
  "broadcast_anti_entropy e =
     (case own_top e of
        None \<Rightarrow> Some e
      | Some (_, h) \<Rightarrow>
          (case envelope h e of
             Some (Some ev) \<Rightarrow> Some (send_to Everyone (MUnit ev) e)
           | _ \<Rightarrow> None))"

section \<open>Messages\<close>

definition handle_message ::
  "crypto \<Rightarrow> ('d \<Rightarrow> bytes) \<Rightarrow> (hash256 \<Rightarrow> nat) \<Rightarrow> node_id \<Rightarrow> 'd message \<Rightarrow> 'd engine \<Rightarrow>
   ((bft_error + unit) \<times> 'd engine) option" where
  "handle_message C enc now sender msg e =
     (case msg of
        MUnit ev \<Rightarrow>
          (case validate_unit C enc e ev of
             Inl err \<Rightarrow> Some (Inl err, e)
           | Inr _ \<Rightarrow>
               let e1 = cascade_parents now sender (unit ev) e;
                   h = unit_hash C (unit ev)
               in if h \<in> set (round_units e1 (round (unit ev))) then Some (Inr (), e1)
                  else
                    (case store_unit ev h e1 of
                       Inl err \<Rightarrow> Some (Inl err, e1)
                     | Inr e2 \<Rightarrow> map_option (\<lambda>e3. (Inr (), e3)) (run_extender C (try_extend h e2))))
      | MRequest h \<Rightarrow> map_option (\<lambda>e1. (Inr (), e1)) (handle_request sender h e))"

section \<open>Creation\<close>

text \<open>\<open>extended_row.entry(creator).or_insert(hash)\<close> over the extended units of a round.\<close>

fun extended_row ::
  "(hash256, bft_unit) btmap \<Rightarrow> hash256 list \<Rightarrow> (node_id, hash256) btmap \<Rightarrow>
   (node_id, hash256) btmap option" where
  "extended_row ext [] row = Some row"
| "extended_row ext (h # hs) row =
     (case bt_get ext h of
        None \<Rightarrow> None
      | Some u \<Rightarrow>
          extended_row ext hs
            (if bt_has row (creator u) then row else bt_insert (creator u) h row))"

definition parents_for :: "nat \<Rightarrow> 'd engine \<Rightarrow> (node_id, hash256) btmap option option" where
  "parents_for r e =
     (if r = 0 then Some (Some bt_empty)
      else
        (case extended_row (extended e) (extended_at (rounds e) (extended e) (r - 1)) bt_empty of
           None \<Rightarrow> None
         | Some row \<Rightarrow>
             (case bt_get row (my_id e) of
                None \<Rightarrow> Some None
              | Some own \<Rightarrow>
                  let t = threshold (num_n e);
                      ps = bt_of_list (take t ((my_id e, own) # filter (\<lambda>(c, _). c \<noteq> my_id e) (entries row)))
                  in Some (if bt_len ps = t then Some ps else None))))"

definition has_unordered_own_data :: "'d engine \<Rightarrow> bool" where
  "has_unordered_own_data e \<longleftrightarrow> unordered_own_data e \<noteq> bt_empty"

definition own_envelope ::
  "crypto \<Rightarrow> ('d \<Rightarrow> bytes) \<Rightarrow> nat \<Rightarrow> (node_id, hash256) btmap \<Rightarrow> 'd list \<Rightarrow> 'd engine \<Rightarrow> 'd unit_envelope" where
  "own_envelope C enc r ps ds e =
     (let u = \<lparr>round = r, creator = my_id e, parents = ps, data = payload_commitment C enc ds\<rparr>
      in \<lparr>unit = u, payload = ds,
          signature = keychain_sign C (keychain_of e) (eng_session e) (enc_unit u)\<rparr>)"

definition next_own_round :: "'d engine \<Rightarrow> nat" where
  "next_own_round e = (case own_top e of None \<Rightarrow> 0 | Some (t, _) \<Rightarrow> t + 1)"

text \<open>
  \<open>try_create_unit\<close>: whether a unit was created, whether \<open>get_data\<close> was called, the state.
\<close>

definition try_create_unit ::
  "crypto \<Rightarrow> ('d \<Rightarrow> bytes) \<Rightarrow> 'd list \<Rightarrow> 'd engine \<Rightarrow> (bool \<times> 'd engine) option" where
  "try_create_unit C enc ds e =
     (let r = next_own_round e
      in case parents_for r e of
           None \<Rightarrow> None
         | Some None \<Rightarrow> Some (False, e)
         | Some (Some ps) \<Rightarrow>
             if ds = [] \<and> \<not> has_unordered_own_data e then Some (False, e)
             else
               (let ev = own_envelope C enc r ps ds e; h = unit_hash C (unit ev)
                in case insert_unit C enc ev h e of
                     Inl _ \<Rightarrow> None
                   | Inr e1 \<Rightarrow>
                       let e2 = (if data (unit ev) \<noteq> None
                                 then e1\<lparr>unordered_own_data := bs_insert r (unordered_own_data e1)\<rparr>
                                 else e1)
                       in map_option (\<lambda>e3. (True, send_to Everyone (MUnit ev) e3))
                            (run_extender C (try_extend h e2))))"

text \<open>\<open>while self.try_create_unit() {}\<close>; the draw is used up only when a unit comes of it.\<close>

partial_function (option) create_units ::
  "crypto \<Rightarrow> ('d \<Rightarrow> bytes) \<Rightarrow> (nat \<Rightarrow> 'd list) \<Rightarrow> nat \<Rightarrow> 'd engine \<Rightarrow> 'd engine option" where
  "create_units C enc draws i e =
     (case try_create_unit C enc (draws i) e of
        None \<Rightarrow> None
      | Some (created, e1) \<Rightarrow> if created then create_units C enc draws (i + 1) e1 else Some e1)"

section \<open>Startup\<close>

fun replay_index :: "(hash256 \<times> bft_unit) list \<Rightarrow> 'd engine \<Rightarrow> 'd engine" where
  "replay_index [] e = e"
| "replay_index ((h, u) # rest) e =
     (let e1 = e\<lparr>rounds := index_round (round u) h (rounds e)\<rparr>;
          e2 = (if creator u = my_id e
                then e1\<lparr>
                  unordered_own_data :=
                    (if data u \<noteq> None then bs_insert (round u) (unordered_own_data e1)
                     else unordered_own_data e1),
                  own_top :=
                    (if (case own_top e1 of None \<Rightarrow> True | Some (t, _) \<Rightarrow> t < round u)
                     then Some (round u, h) else own_top e1)\<rparr>
                else e1)
      in replay_index rest e2)"

definition replay :: "crypto \<Rightarrow> 'd engine \<Rightarrow> 'd engine option" where
  "replay C e =
     (let e1 = replay_index (entries (unit_table e)) e
      in run_extender C (fold try_extend (round_units e1 0) e1))"

section \<open>The run loop\<close>

datatype 'd event =
    Receive node_id "'d message" "hash256 \<Rightarrow> nat"
  | DataReady
  | AntiEntropyTick

text \<open>
  One iteration of \<open>run\<close>: a message is handled, and units are created when it was accepted; fresh
  data creates units; the timer pushes the own top unit.
\<close>

definition engine_step ::
  "crypto \<Rightarrow> ('d \<Rightarrow> bytes) \<Rightarrow> (nat \<Rightarrow> 'd list) \<Rightarrow> 'd event \<Rightarrow> 'd engine \<Rightarrow> 'd engine option" where
  "engine_step C enc draws ev e =
     (case ev of
        Receive sender msg now \<Rightarrow>
          (case handle_message C enc now sender msg e of
             None \<Rightarrow> None
           | Some (Inl _, e1) \<Rightarrow> Some e1
           | Some (Inr _, e1) \<Rightarrow> create_units C enc draws 0 e1)
      | DataReady \<Rightarrow> create_units C enc draws 0 e
      | AntiEntropyTick \<Rightarrow> broadcast_anti_entropy e)"

end
