(* ===== verification/Bft_Tables.thy ===== *)
theory Bft_Tables
  imports Bft_Engine
begin

text \<open>
  What the engine's tables hold, whatever the network sends: every stored unit is filed under its
  own hash, admitted, with its payload and signature beside it; tables only grow; a node's own
  column has one unit per round, the top of which is \<open>own_top\<close>.
\<close>

section \<open>The invariant of the tables\<close>

definition stored_row ::
  "crypto \<Rightarrow> ('d \<Rightarrow> bytes) \<Rightarrow> 'd engine \<Rightarrow> hash256 \<Rightarrow> bft_unit \<Rightarrow> bool" where
  "stored_row C enc e h u \<longleftrightarrow>
     unit_hash C u = h \<and> unit_shape (num_n e) u \<and>
     (\<exists>ds sig. bt_get (unit_data_table e) h = Some ds \<and> data u = payload_commitment C enc ds \<and>
        bt_get (unit_signature_table e) h = Some sig \<and>
        keychain_verify C (keychain_of e) (eng_session e) (enc_unit u) sig (creator u))"

definition tables_ok :: "crypto \<Rightarrow> ('d \<Rightarrow> bytes) \<Rightarrow> 'd engine \<Rightarrow> bool" where
  "tables_ok C enc e \<longleftrightarrow>
     (\<forall>h u. bt_get (unit_table e) h = Some u \<longrightarrow> stored_row C enc e h u) \<and>
     index_ok (rounds e) (unit_table e)"

definition own_ok :: "'d engine \<Rightarrow> bool" where
  "own_ok e \<longleftrightarrow>
     (case own_top e of
        None \<Rightarrow> \<forall>h u. bt_get (unit_table e) h = Some u \<longrightarrow> creator u \<noteq> my_id e
      | Some (t, h) \<Rightarrow>
          (\<exists>u. bt_get (unit_table e) h = Some u \<and> creator u = my_id e \<and> round u = t) \<and>
          (\<forall>h u. bt_get (unit_table e) h = Some u \<longrightarrow> creator u = my_id e \<longrightarrow> round u \<le> t))"

definition own_single :: "'d engine \<Rightarrow> bool" where
  "own_single e \<longleftrightarrow>
     (\<forall>h h' u u'. bt_get (unit_table e) h = Some u \<longrightarrow> bt_get (unit_table e) h' = Some u' \<longrightarrow>
        creator u = my_id e \<longrightarrow> creator u' = my_id e \<longrightarrow> round u = round u' \<longrightarrow> h = h')"

text \<open>
  The fields of an engine that nothing but admission changes, and the relation of two engines
  that agree on them.
\<close>

definition same_tables :: "'d engine \<Rightarrow> 'd engine \<Rightarrow> bool" where
  "same_tables e e' \<longleftrightarrow>
     my_id e' = my_id e \<and> eng_session e' = eng_session e \<and> num_n e' = num_n e \<and>
     keychain_of e' = keychain_of e \<and> unit_table e' = unit_table e \<and>
     unit_data_table e' = unit_data_table e \<and> unit_signature_table e' = unit_signature_table e \<and>
     rounds e' = rounds e \<and> own_top e' = own_top e"

lemma same_tables_trans: "same_tables e e' \<Longrightarrow> same_tables e' e'' \<Longrightarrow> same_tables e e''"
  by (simp add: same_tables_def)

lemma same_tables_refl [simp]: "same_tables e e"
  by (simp add: same_tables_def)

lemma same_dag_tables: "same_dag e e' \<Longrightarrow> same_tables e e'"
  by (simp add: same_dag_def same_tables_def)

lemma grown_tables: "grown e e' \<Longrightarrow> same_tables e e'"
  by (auto simp: grown_def same_tables_def)

lemma stored_row_same: "same_tables e e' \<Longrightarrow> stored_row C enc e' = stored_row C enc e"
  by (simp add: same_tables_def stored_row_def fun_eq_iff)

lemma tables_ok_same: "same_tables e e' \<Longrightarrow> tables_ok C enc e' = tables_ok C enc e"
  by (simp add: tables_ok_def stored_row_same) (simp add: same_tables_def)

lemma own_ok_same: "same_tables e e' \<Longrightarrow> own_ok e' = own_ok e"
  by (simp add: own_ok_def same_tables_def split: option.split prod.split)

lemma own_single_same: "same_tables e e' \<Longrightarrow> own_single e' = own_single e"
  by (simp add: own_single_def same_tables_def)

lemma run_extender_same: "run_extender C e = Some e' \<Longrightarrow> same_dag e e'"
proof (induction C e arbitrary: e' rule: run_extender.induct)
  case (1 C e)
  from "1.prems" obtain res e1 where ch: "choose_head C (next_decide_round e) e = Some (res, e1)"
    by (subst (asm) run_extender.simps) (auto split: option.splits)
  note same = choose_head_same [OF ch]
  show ?case
  proof (cases res)
    case None
    with "1.prems" ch same show ?thesis by (subst (asm) run_extender.simps) simp
  next
    case (Some h)
    with "1.prems" ch obtain e2 where e2: "commit_head h e1 = Some e2" "run_extender C e2 = Some e'"
      by (subst (asm) run_extender.simps) (auto split: option.splits)
    have "same_dag e2 e'" by (rule "1.IH" [OF ch refl Some e2])
    moreover have "same_dag e1 e2" using commit_head_same [OF e2(1)] by simp
    ultimately show ?thesis using same same_dag_trans [of e e1 e2] same_dag_trans [of e e2 e'] by simp
  qed
qed

section \<open>Admitting a unit\<close>

lemma validate_unit_same:
  "same_tables e e' \<Longrightarrow> validate_unit C enc e' ev = validate_unit C enc e ev"
  by (simp add: validate_unit_def Let_def same_tables_def)

lemma validate_unit_ok:
  assumes "validate_unit C enc e ev = Inr x"
  shows "unit_shape (num_n e) (unit ev) \<and>
    keychain_verify C (keychain_of e) (eng_session e) (enc_unit (unit ev)) (signature ev) (creator (unit ev)) \<and>
    data (unit ev) = payload_commitment C enc (payload ev)"
  using assms
  by (auto simp: validate_unit_def Let_def unit_shape_def list_all_iff split: if_splits)

lemma store_unit_cases:
  "store_unit ev h e = Inr e' \<Longrightarrow> bt_get (unit_table e) h = None"
  by (auto simp: store_unit_def Let_def bt_has_def split: if_splits)

lemma store_unit_fields:
  assumes "store_unit ev h e = Inr e'"
  shows "unit_table e' = bt_insert h (unit ev) (unit_table e)"
    "unit_data_table e' = bt_insert h (payload ev) (unit_data_table e)"
    "unit_signature_table e' = bt_insert h (signature ev) (unit_signature_table e)"
    "rounds e' = index_round (round (unit ev)) h (rounds e)"
    "my_id e' = my_id e" "eng_session e' = eng_session e" "num_n e' = num_n e"
    "keychain_of e' = keychain_of e" "extended e' = extended e" "emitted e' = emitted e"
    "next_decide_round e' = next_decide_round e" "decided e' = decided e" "votes e' = votes e"
    "ordered e' = ordered e" "unordered_own_data e' = unordered_own_data e"
    "own_top e' = (if creator (unit ev) = my_id e \<and>
        (case own_top e of None \<Rightarrow> True | Some (t, _) \<Rightarrow> t < round (unit ev))
      then Some (round (unit ev), h) else own_top e)"
  using assms by (auto simp: store_unit_def Let_def split: if_splits)

lemma store_unit_tables_ok:
  assumes T: "tables_ok C enc e" and v: "validate_unit C enc e ev = Inr x"
    and s: "store_unit ev (unit_hash C (unit ev)) e = Inr e'"
  shows "tables_ok C enc e'"
proof -
  let ?h = "unit_hash C (unit ev)"
  note f = store_unit_fields [OF s]
  have fresh: "bt_get (unit_table e) ?h = None" using store_unit_cases [OF s] .
  have "stored_row C enc e' k w" if k: "bt_get (unit_table e') k = Some w" for k w
  proof (cases "k = ?h")
    case True
    then show ?thesis
      using k validate_unit_ok [OF v] by (simp add: stored_row_def f)
  next
    case False
    then have "stored_row C enc e k w" using k T by (simp add: f tables_ok_def)
    then show ?thesis using False by (simp add: stored_row_def f)
  qed
  then show ?thesis
    using T index_ok_index_round [OF _ fresh] by (auto simp: tables_ok_def f)
qed

lemma store_unit_own_ok:
  assumes O: "own_ok e" and s: "store_unit ev h e = Inr e'"
  shows "own_ok e'"
  using O store_unit_cases [OF s] unfolding own_ok_def store_unit_fields [OF s]
  by (cases "own_top e") (fastforce split: if_splits)+

text \<open>A unit of one's own is stored only above the top of one's column.\<close>

lemma store_unit_own_single:
  assumes O: "own_ok e" "own_single e" and s: "store_unit ev h e = Inr e'"
    and new: "creator (unit ev) = my_id e \<Longrightarrow> round (unit ev) = next_own_round e"
  shows "own_single e'"
proof -
  have above: "round u < next_own_round e" if "bt_get (unit_table e) k = Some u" "creator u = my_id e" for k u
    using O(1) that unfolding own_ok_def next_own_round_def by (cases "own_top e") fastforce+
  show ?thesis
    unfolding own_single_def store_unit_fields [OF s]
  proof (intro allI impI)
    fix a b u w
    assume g: "bt_get (bt_insert h (unit ev) (unit_table e)) a = Some u"
      "bt_get (bt_insert h (unit ev) (unit_table e)) b = Some w"
      and c: "creator u = my_id e" "creator w = my_id e" "round u = round w"
    show "a = b"
    proof (cases "a = h \<or> b = h")
      case False
      then show ?thesis using g c O(2) unfolding own_single_def by auto
    next
      case True
      then show ?thesis using g c above new by (fastforce split: if_splits)
    qed
  qed
qed

section \<open>What a step does to the tables\<close>

definition node_ok :: "crypto \<Rightarrow> ('d \<Rightarrow> bytes) \<Rightarrow> 'd engine \<Rightarrow> bool" where
  "node_ok C enc e \<longleftrightarrow> tables_ok C enc e \<and> own_ok e \<and> own_single e"

text \<open>
  \<open>tables_step N e e'\<close>: the tables of \<open>e'\<close> continue those of \<open>e\<close>, every unit in them
  that is new is in \<open>N\<close> or the node's own, and the invariant of the tables is kept.
\<close>

definition tables_step ::
  "crypto \<Rightarrow> ('d \<Rightarrow> bytes) \<Rightarrow> bft_unit set \<Rightarrow> 'd engine \<Rightarrow> 'd engine \<Rightarrow> bool" where
  "tables_step C enc N e e' \<longleftrightarrow>
     my_id e' = my_id e \<and> eng_session e' = eng_session e \<and> num_n e' = num_n e \<and>
     keychain_of e' = keychain_of e \<and> bt_sub (unit_table e) (unit_table e') \<and>
     (\<forall>h u. bt_get (unit_table e') h = Some u \<longrightarrow> bt_get (unit_table e) h = None \<longrightarrow>
        u \<in> N \<or> creator u = my_id e) \<and>
     (\<forall>h. bt_get (unit_table e) h \<noteq> None \<longrightarrow>
        bt_get (unit_data_table e') h = bt_get (unit_data_table e) h) \<and>
     node_ok C enc e'"

lemma node_ok_same: "same_tables e e' \<Longrightarrow> node_ok C enc e' = node_ok C enc e"
  by (simp add: node_ok_def tables_ok_same own_ok_same own_single_same)

lemma tables_step_same: "same_tables e e' \<Longrightarrow> node_ok C enc e \<Longrightarrow> tables_step C enc N e e'"
  using node_ok_same [of e e' C enc] by (simp add: tables_step_def same_tables_def)

lemma tables_step_new:
  "tables_step C enc N e e' \<Longrightarrow> bt_get (unit_table e') h = Some u \<Longrightarrow> bt_get (unit_table e) h = None \<Longrightarrow>
   u \<in> N \<or> creator u = my_id e"
  unfolding tables_step_def by blast

lemma tables_step_sub: "tables_step C enc N e e' \<Longrightarrow> bt_sub (unit_table e) (unit_table e')"
  unfolding tables_step_def by blast

lemma tables_step_data:
  "tables_step C enc N e e' \<Longrightarrow> bt_get (unit_table e) h \<noteq> None \<Longrightarrow>
   bt_get (unit_data_table e') h = bt_get (unit_data_table e) h"
  unfolding tables_step_def by blast

lemma tables_step_ids:
  "tables_step C enc N e e' \<Longrightarrow> my_id e' = my_id e \<and> eng_session e' = eng_session e \<and>
     num_n e' = num_n e \<and> keychain_of e' = keychain_of e \<and> node_ok C enc e'"
  unfolding tables_step_def by (elim conjE) (intro conjI; assumption)

lemma tables_step_trans:
  assumes s: "tables_step C enc N e e'" "tables_step C enc N e' e''"
  shows "tables_step C enc N e e''"
proof -
  have sub: "bt_sub (unit_table e) (unit_table e'')"
    using tables_step_sub [OF s(1)] tables_step_sub [OF s(2)] by (rule bt_sub_trans)
  have new: "u \<in> N \<or> creator u = my_id e"
    if h: "bt_get (unit_table e'') h = Some u" "bt_get (unit_table e) h = None" for h u
  proof (cases "bt_get (unit_table e') h")
    case None
    show ?thesis using tables_step_new [OF s(2) h(1) None] tables_step_ids [OF s(1)] by simp
  next
    case (Some u')
    have "u' = u" using bt_subD [OF tables_step_sub [OF s(2)] Some] h(1) by simp
    then show ?thesis using tables_step_new [OF s(1) Some h(2)] by simp
  qed
  have "\<forall>h u. bt_get (unit_table e'') h = Some u \<longrightarrow> bt_get (unit_table e) h = None \<longrightarrow>
      u \<in> N \<or> creator u = my_id e"
    by (intro allI impI) (rule new)
  moreover have "bt_get (unit_data_table e'') h = bt_get (unit_data_table e) h"
    if h: "bt_get (unit_table e) h \<noteq> None" for h
  proof -
    have "bt_get (unit_table e') h \<noteq> None" using h tables_step_sub [OF s(1)] bt_subD by fastforce
    then show ?thesis using tables_step_data [OF s(1) h] tables_step_data [OF s(2)] by simp
  qed
  ultimately show ?thesis
    unfolding tables_step_def [of _ _ _ e e'']
    using sub tables_step_ids [OF s(1)] tables_step_ids [OF s(2)] by simp
qed

lemma try_send_request_same: "same_tables e (try_send_request now node h e)"
  by (auto simp: try_send_request_def send_to_def same_tables_def split: option.splits)

lemma cascade_loop_same: "same_tables e (cascade_loop now sender st vis e)"
proof (induction now sender st vis e rule: cascade_loop.induct)
  case (2 now sender h st vis e)
  show ?case
  proof (cases "bt_get (unit_table e) h")
    case None
    with "2.IH"(1,2) same_tables_trans [OF try_send_request_same "2.IH"(3) [OF _ _ None]]
    show ?thesis by simp
  next
    case (Some u)
    with "2.IH"(1,2) "2.IH"(4) [OF _ _ Some] show ?thesis by simp
  qed
qed simp

lemma cascade_parents_same: "same_tables e (cascade_parents now sender u e)"
  by (simp add: cascade_parents_def cascade_loop_same)

text \<open>Storing an admitted unit and running the cascade and the extender over it.\<close>

lemma store_tables:
  assumes N: "node_ok C enc e" and v: "validate_unit C enc e ev = Inr x"
    and s: "store_unit ev (unit_hash C (unit ev)) e = Inr e1" and same: "same_tables e1 e3"
    and new: "unit ev \<in> N \<or> creator (unit ev) = my_id e"
    and top: "creator (unit ev) = my_id e \<Longrightarrow> round (unit ev) = next_own_round e"
  shows "tables_step C enc N e e3"
proof -
  have "node_ok C enc e1"
    using store_unit_tables_ok [OF _ v s] store_unit_own_ok [OF _ s]
      store_unit_own_single [OF _ _ s top] N unfolding node_ok_def by blast
  then have "node_ok C enc e3" using node_ok_same [OF same] by simp
  then show ?thesis
    using same store_unit_cases [OF s] new
    unfolding tables_step_def same_tables_def store_unit_fields [OF s]
    by (auto intro: bt_sub_insert split: if_splits)
qed

lemma install_tables:
  assumes N: "node_ok C enc e" and v: "validate_unit C enc e ev = Inr x"
    and s: "store_unit ev (unit_hash C (unit ev)) e = Inr e1"
    and e2: "same_tables e1 e2" and r: "run_extender C (try_extend k e2) = Some e3"
    and new: "unit ev \<in> N \<or> creator (unit ev) = my_id e"
    and top: "creator (unit ev) = my_id e \<Longrightarrow> round (unit ev) = next_own_round e"
  shows "tables_step C enc N e e3"
proof (rule store_tables [OF N v s _ new top])
  show "same_tables e1 e3"
    using same_tables_trans [OF e2 same_tables_trans [OF grown_tables [OF try_extend_grown]
        same_dag_tables [OF run_extender_same [OF r]]]] .
qed

lemma handle_message_tables:
  assumes N: "node_ok C enc e" and h: "handle_message C enc now sender msg e = Some (r, e')"
    and own: "\<And>ev. msg = MUnit ev \<Longrightarrow> validate_unit C enc e ev = Inr () \<Longrightarrow> creator (unit ev) = my_id e \<Longrightarrow>
        bt_get (unit_table e) (unit_hash C (unit ev)) = Some (unit ev)"
  shows "tables_step C enc {u. \<exists>ev. msg = MUnit ev \<and> validate_unit C enc e ev = Inr () \<and> u = unit ev} e e'"
proof (cases msg)
  case (MRequest k)
  then have "same_tables e e'"
    using h by (auto simp: handle_message_def handle_request_def same_tables_def send_to_def
        split: option.splits)
  then show ?thesis by (rule tables_step_same [OF _ N])
next
  case (MUnit ev)
  let ?e1 = "cascade_parents now sender (unit ev) e" and ?h = "unit_hash C (unit ev)"
  have c: "same_tables e ?e1" by (rule cascade_parents_same)
  have N1: "node_ok C enc ?e1" using node_ok_same [OF c] N by simp
  show ?thesis
  proof (cases "validate_unit C enc e ev")
    case (Inl err)
    then show ?thesis using h MUnit N by (auto simp: handle_message_def tables_step_same)
  next
    case (Inr x)
    have v1: "validate_unit C enc ?e1 ev = Inr x" using Inr validate_unit_same [OF c] by metis
    show ?thesis
    proof (cases "?h \<in> set (round_units ?e1 (round (unit ev))) \<or> bt_has (unit_table ?e1) ?h")
      case True
      then have "e' = ?e1"
        using h MUnit Inr by (auto simp: handle_message_def Let_def store_unit_def split: if_splits)
      then show ?thesis using tables_step_same [OF c N] by simp
    next
      case False
      then obtain e1 where s: "store_unit ev ?h ?e1 = Inr e1"
        by (simp add: store_unit_def Let_def)
      have r: "run_extender C (try_extend ?h e1) = Some e'"
        using h MUnit Inr s False by (simp add: handle_message_def Let_def)
      have "creator (unit ev) \<noteq> my_id ?e1"
        using own [OF MUnit] Inr c False by (auto simp: same_tables_def bt_has_def)
      then have "tables_step C enc {u. \<exists>ev. msg = MUnit ev \<and> validate_unit C enc e ev = Inr () \<and> u = unit ev} ?e1 e'"
        using MUnit Inr by (intro install_tables [OF N1 v1 s same_tables_refl r]) auto
      then show ?thesis by (rule tables_step_trans [OF tables_step_same [OF c N]])
    qed
  qed
qed

lemma try_create_unit_tables:
  assumes N: "node_ok C enc e" and t: "try_create_unit C enc ds e = Some (b, e')"
  shows "tables_step C enc M e e'"
proof -
  consider "e' = e" | ps where
    "parents_for (next_own_round e) e = Some (Some ps)" "\<not> (ds = [] \<and> \<not> has_unordered_own_data e)"
    using t by (auto simp: try_create_unit_def Let_def split: option.splits if_splits)
  then show ?thesis
  proof cases
    case 1
    then show ?thesis using tables_step_same [OF same_tables_refl N] by simp
  next
    case 2
    let ?ev = "own_envelope C enc (next_own_round e) ps ds e"
    let ?h = "unit_hash C (unit ?ev)"
    from 2 t obtain e1 e2 e3 where
      i: "insert_unit C enc ?ev ?h e = Inr e1" and
      e2: "e2 = (if data (unit ?ev) \<noteq> None
           then e1\<lparr>unordered_own_data := bs_insert (next_own_round e) (unordered_own_data e1)\<rparr> else e1)" and
      r: "run_extender C (try_extend ?h e2) = Some e3" and e': "e' = send_to Everyone (MUnit ?ev) e3"
      by (auto simp: try_create_unit_def Let_def split: option.splits sum.splits)
    from i obtain x where v: "validate_unit C enc e ?ev = Inr x" and s: "store_unit ?ev ?h e = Inr e1"
      by (auto simp: insert_unit_def split: sum.splits)
    have "same_tables e1 e2" by (simp add: e2 same_tables_def)
    from install_tables [OF N v s this r, of M] have "tables_step C enc M e e3"
      by (simp add: own_envelope_def Let_def)
    moreover have "same_tables e3 e'" by (simp add: e' send_to_def same_tables_def)
    moreover have "node_ok C enc e3" using calculation(1) by (simp add: tables_step_def)
    ultimately show ?thesis
      by (meson tables_step_trans tables_step_same)
  qed
qed

lemma create_units_induct [consumes 1, case_names stop more]:
  assumes r: "create_units C enc draws i e = Some e'"
    and stop: "\<And>i e e'. try_create_unit C enc (draws i) e = Some (False, e') \<Longrightarrow> P i e e'"
    and more: "\<And>i e e1 e'. try_create_unit C enc (draws i) e = Some (True, e1) \<Longrightarrow>
        create_units C enc draws (i + 1) e1 = Some e' \<Longrightarrow> P (i + 1) e1 e' \<Longrightarrow> P i e e'"
  shows "P i e e'"
proof -
  have "create_units C enc draws i e = Some e' \<and> P i e e'"
  proof (rule create_units.raw_induct [of "\<lambda>C' enc' draws' i e e'. C' = C \<longrightarrow> enc' = enc \<longrightarrow> draws' = draws \<longrightarrow>
      create_units C enc draws i e = Some e' \<and> P i e e'", OF _ r, rule_format])
    fix f :: "crypto \<Rightarrow> ('a \<Rightarrow> bytes) \<Rightarrow> (nat \<Rightarrow> 'a list) \<Rightarrow> nat \<Rightarrow> 'a engine \<Rightarrow> 'a engine option"
    fix C' enc' draws' i e e'
    assume IH: "\<And>C' enc' draws' i e e'. f C' enc' draws' i e = Some e' \<Longrightarrow> C' = C \<Longrightarrow> enc' = enc \<Longrightarrow>
        draws' = draws \<Longrightarrow> create_units C enc draws i e = Some e' \<and> P i e e'"
      and body: "(case try_create_unit C' enc' (draws' i) e of None \<Rightarrow> None
        | Some (created, e1) \<Rightarrow> if created then f C' enc' draws' (i + 1) e1 else Some e1) = Some e'"
      and eq: "C' = C" "enc' = enc" "draws' = draws"
    from body eq obtain b e1 where t: "try_create_unit C enc (draws i) e = Some (b, e1)"
      by (auto split: option.splits)
    show "create_units C enc draws i e = Some e' \<and> P i e e'"
    proof (cases b)
      case True
      then have "f C enc draws (i + 1) e1 = Some e'" using body t eq by simp
      with IH have "create_units C enc draws (i + 1) e1 = Some e' \<and> P (i + 1) e1 e'" by blast
      then show ?thesis using t True more by (auto simp: create_units.simps [of C enc draws i e])
    next
      case False
      then show ?thesis using body t eq stop by (auto simp: create_units.simps [of C enc draws i e])
    qed
  qed auto
  then show ?thesis by simp
qed

lemma create_units_tables:
  "create_units C enc draws i e = Some e' \<Longrightarrow> node_ok C enc e \<Longrightarrow> tables_step C enc M e e'"
proof (induction rule: create_units_induct)
  case (stop i e e')
  then show ?case using try_create_unit_tables by blast
next
  case (more i e e1 e')
  have s: "tables_step C enc M e e1" by (rule try_create_unit_tables [OF more.prems more.hyps(1)])
  then show ?case using more.IH tables_step_ids [OF s] tables_step_trans [OF s] by blast
qed

text \<open>The unit an event delivers, once it passes admission.\<close>

definition delivered :: "crypto \<Rightarrow> ('d \<Rightarrow> bytes) \<Rightarrow> 'd engine \<Rightarrow> 'd event \<Rightarrow> 'd unit_envelope \<Rightarrow> bool" where
  "delivered C enc e ev env \<longleftrightarrow>
     (\<exists>sender now. ev = Receive sender (MUnit env) now) \<and> validate_unit C enc e env = Inr ()"

lemma engine_step_tables:
  assumes N: "node_ok C enc e" and s: "engine_step C enc draws ev e = Some e'"
    and own: "\<And>env. delivered C enc e ev env \<Longrightarrow> creator (unit env) = my_id e \<Longrightarrow>
        bt_get (unit_table e) (unit_hash C (unit env)) = Some (unit env)"
  shows "tables_step C enc {u. \<exists>env. delivered C enc e ev env \<and> u = unit env} e e'"
proof (cases ev)
  case (Receive sender msg now)
  from s Receive obtain r e1 where h: "handle_message C enc now sender msg e = Some (r, e1)"
    and c: "(\<exists>err. r = Inl err \<and> e' = e1) \<or> create_units C enc draws 0 e1 = Some e'"
    by (auto simp: engine_step_def split: option.splits sum.splits)
  have "{u. \<exists>ev. msg = MUnit ev \<and> validate_unit C enc e ev = Inr () \<and> u = unit ev} =
      {u. \<exists>env. delivered C enc e ev env \<and> u = unit env}"
    using Receive by (auto simp: delivered_def)
  moreover have "tables_step C enc {u. \<exists>ev. msg = MUnit ev \<and> validate_unit C enc e ev = Inr () \<and> u = unit ev} e e1"
    by (rule handle_message_tables [OF N h]) (rule own, auto simp: delivered_def Receive)
  ultimately have t: "tables_step C enc {u. \<exists>env. delivered C enc e ev env \<and> u = unit env} e e1"
    by simp
  then show ?thesis
    using c create_units_tables [of C enc draws 0 e1 e'] tables_step_ids [OF t] tables_step_trans [OF t] by blast
next
  case DataReady
  then show ?thesis using s N create_units_tables by (auto simp: engine_step_def)
next
  case AntiEntropyTick
  then have "same_tables e e'"
    using s by (auto simp: engine_step_def broadcast_anti_entropy_def send_to_def same_tables_def
        split: option.splits)
  then show ?thesis by (rule tables_step_same [OF _ N])
qed

end
