(* ===== verification/Bft_Run.thy ===== *)
theory Bft_Run
  imports Bft_Tables
begin

text \<open>
  The engine in operation: every step of the run loop keeps the order's invariant, and every
  operation returns. The steps are those of \<open>engine_step\<close> and the replay on startup.
\<close>

section \<open>Payloads\<close>

lemma commitment_inj:
  assumes "inj_on (payload_hash C enc) D" "ds \<in> D" "ds' \<in> D"
    "payload_commitment C enc ds = payload_commitment C enc ds'"
  shows "ds = ds'"
  using assms by (auto simp: payload_commitment_def dest: inj_onD split: if_splits)

text \<open>
  No collisions: SHA-256 tells apart the units of \<open>U\<close> and the payloads of \<open>D\<close>, which are the
  ones that occur in a run.
\<close>

definition collision_free :: "crypto \<Rightarrow> ('d \<Rightarrow> bytes) \<Rightarrow> bft_unit set \<Rightarrow> 'd list set \<Rightarrow> bool" where
  "collision_free C enc U D \<longleftrightarrow> inj_on (unit_hash C) U \<and> inj_on (payload_hash C enc) D"

definition holds_only :: "bft_unit set \<Rightarrow> 'd list set \<Rightarrow> 'd engine \<Rightarrow> bool" where
  "holds_only U D e \<longleftrightarrow>
     (\<forall>h u. bt_get (unit_table e) h = Some u \<longrightarrow>
        u \<in> U \<and> (\<forall>ds. bt_get (unit_data_table e) h = Some ds \<longrightarrow> ds \<in> D))"

text \<open>The payload behind a unit hash.\<close>

definition pay_of ::
  "crypto \<Rightarrow> ('d \<Rightarrow> bytes) \<Rightarrow> bft_unit set \<Rightarrow> 'd list set \<Rightarrow> hash256 \<Rightarrow> 'd list" where
  "pay_of C enc U D h =
     (SOME ds. ds \<in> D \<and> (\<exists>u \<in> U. unit_hash C u = h \<and> data u = payload_commitment C enc ds))"

lemma rows_ok_pay:
  assumes W: "collision_free C enc U D" and T: "tables_ok C enc e" and O: "holds_only U D e"
  shows "rows_ok (pay_of C enc U D) e"
  unfolding rows_ok_def
proof (intro allI impI)
  fix h u assume h: "bt_get (unit_table e) h = Some u"
  with T have r: "stored_row C enc e h u" by (simp add: tables_ok_def)
  then obtain ds where ds: "bt_get (unit_data_table e) h = Some ds" "data u = payload_commitment C enc ds"
    and hu: "unit_hash C u = h" by (auto simp: stored_row_def)
  have u: "u \<in> U" "ds \<in> D" using O h ds(1) by (auto simp: holds_only_def)
  have "pay_of C enc U D h = ds"
    unfolding pay_of_def
  proof (rule some_equality)
    show "ds \<in> D \<and> (\<exists>u \<in> U. unit_hash C u = h \<and> data u = payload_commitment C enc ds)"
      using u ds hu by blast
    fix ds' assume *: "ds' \<in> D \<and> (\<exists>u \<in> U. unit_hash C u = h \<and> data u = payload_commitment C enc ds')"
    then obtain w where "w \<in> U" "unit_hash C w = h" "data w = payload_commitment C enc ds'" by blast
    moreover from this have "w = u"
      using W u(1) hu by (auto simp: collision_free_def dest: inj_onD)
    ultimately have "payload_commitment C enc ds' = payload_commitment C enc ds" using ds(2) by simp
    then show "ds' = ds"
      using W * u(2) by (intro commitment_inj [of C enc D ds' ds]) (auto simp: collision_free_def)
  qed
  with ds(1) show "bt_get (unit_data_table e) h = Some (pay_of C enc U D h)" by simp
qed

section \<open>The order's invariant over the cascade\<close>

definition order_inv :: "crypto \<Rightarrow> (hash256 \<Rightarrow> 'd list) \<Rightarrow> 'd engine \<Rightarrow> bool" where
  "order_inv C pay e \<longleftrightarrow> caches_ok C e \<and> log_ok C pay e"

text \<open>The fields the order depends on.\<close>

definition same_order :: "'d engine \<Rightarrow> 'd engine \<Rightarrow> bool" where
  "same_order e e' \<longleftrightarrow>
     num_n e' = num_n e \<and> unit_table e' = unit_table e \<and> rounds e' = rounds e \<and>
     extended e' = extended e \<and> emitted e' = emitted e \<and>
     next_decide_round e' = next_decide_round e \<and> decided e' = decided e \<and> votes e' = votes e \<and>
     ordered e' = ordered e"

lemma order_inv_same: "same_order e e' \<Longrightarrow> order_inv C pay e' = order_inv C pay e"
  by (simp add: order_inv_def caches_ok_def log_ok_def same_order_def view_of_def)

lemma bt_sub_map_le: "bt_sub m m' \<longleftrightarrow> bt_get m \<subseteq>\<^sub>m bt_get m'"
  by (auto simp: bt_sub_def map_le_def dom_def)

lemma votes_ok_mono:
  assumes "dag_ok n V" "V \<subseteq>\<^sub>m W" "votes_ok C V vs"
  shows "votes_ok C W vs"
  unfolding votes_ok_def
proof (intro allI impI)
  fix c u b assume "bt_get vs (c, u) = Some b"
  with assms(3) obtain cu uu where
    V: "V c = Some cu" "V u = Some uu" "round cu + 2 \<le> round uu" "b = spec_vote C V c cu (round uu - round cu) uu"
    unfolding votes_ok_def by blast
  have "W c = Some cu" "W u = Some uu" using V(1,2) assms(2) by (metis domI map_le_def)+
  moreover have "spec_vote C W c cu (round uu - round cu) uu = spec_vote C V c cu (round uu - round cu) uu"
    by (rule spec_vote_mono [OF assms(1,2) V(2)]) (use V(3) in simp)
  ultimately show "\<exists>cu uu. W c = Some cu \<and> W u = Some uu \<and> round cu + 2 \<le> round uu \<and>
      b = spec_vote C W c cu (round uu - round cu) uu" using V by auto
qed

lemma decided_ok_mono:
  assumes "dag_ok n V" "V \<subseteq>\<^sub>m W" "decided_ok C V ds"
  shows "decided_ok C W ds"
  unfolding decided_ok_def
proof (intro allI impI)
  fix c v r assume "bt_get ds c = Some (v, r)"
  with assms(3) obtain cu w where V: "V c = Some cu" "decides C V c cu v (r - round cu) w"
    unfolding decided_ok_def by blast
  have "W c = Some cu" using V(1) assms(2) by (metis domI map_le_def)
  with decides_mono [OF assms(1,2) V(2)] show "\<exists>cu w. W c = Some cu \<and> decides C W c cu v (r - round cu) w"
    by blast
qed

lemma order_inv_grow:
  assumes I: "order_inv C pay e" and s: "bt_sub (extended e) ext"
    and V: "dag_ok (num_n e) (bt_get ext)" and t: "bt_sub ext (unit_table e)"
  shows "order_inv C pay (e\<lparr>extended := ext\<rparr>)"
proof -
  let ?e = "e\<lparr>extended := ext\<rparr>"
  have le: "view_of e \<subseteq>\<^sub>m view_of ?e" using s by (simp add: view_of_def bt_sub_map_le)
  have K: "caches_ok C e" and L: "log_ok C pay e" using I by (simp_all add: order_inv_def)
  have d: "dag_ok (num_n e) (view_of e)" using K by (simp add: caches_ok_def)
  have "votes_ok C (view_of ?e) (votes e)" "decided_ok C (view_of ?e) (decided e)"
    using votes_ok_mono [OF d le] decided_ok_mono [OF d le] K by (auto simp: caches_ok_def)
  then have K': "caches_ok C ?e" using K V t by (simp add: caches_ok_def view_of_def)
  from L obtain hs seq where
    hs: "length hs = next_decide_round e" "\<forall>r < length hs. head_in C (num_n e) (view_of e) r (hs ! r)"
    and em: "emission (extended e) hs bt_empty = Some (seq, emitted e)"
    and seq: "\<forall>h \<in> set seq. view_of e h \<noteq> None" "ordered e = items (view_of e) pay seq"
    and low: "\<forall>h. bt_has (emitted e) h \<longrightarrow> (\<exists>u. view_of e h = Some u \<and> round u < next_decide_round e)"
    unfolding log_ok_def by blast
  have up: "view_of ?e h = Some u" if "view_of e h = Some u" for h u
    using le that by (metis domI map_le_def)
  have heads: "\<forall>r < length hs. head_in C (num_n e) (view_of ?e) r (hs ! r)"
    using hs(2) head_in_mono [OF _ le] by blast
  have "\<forall>h \<in> set hs. bt_get ext h \<noteq> None"
    using heads head_in_held by (fastforce simp: in_set_conv_nth view_of_def)
  then have "emission ext hs bt_empty = Some (seq, emitted e)"
    using emission_agree [OF em _ _ dag_closed [OF V], of "bt_get ext"] s by (simp add: bt_sub_map_le)
  moreover have "items (view_of ?e) pay seq = items (view_of e) pay seq"
    by (rule items_agree [OF le seq(1), symmetric])
  moreover have "\<forall>h \<in> set seq. view_of ?e h \<noteq> None" using seq(1) up by blast
  moreover have "\<forall>h. bt_has (emitted e) h \<longrightarrow> (\<exists>u. view_of ?e h = Some u \<and> round u < next_decide_round e)"
    using low up by blast
  ultimately have "length hs = next_decide_round ?e \<and>
      (\<forall>r < length hs. head_in C (num_n ?e) (view_of ?e) r (hs ! r)) \<and>
      emission (extended ?e) hs bt_empty = Some (seq, emitted ?e) \<and>
      (\<forall>h \<in> set seq. view_of ?e h \<noteq> None) \<and>
      (\<forall>h. bt_has (emitted ?e) h \<longrightarrow> (\<exists>u. view_of ?e h = Some u \<and> round u < next_decide_round ?e)) \<and>
      ordered ?e = items (view_of ?e) pay seq"
    using hs(1) heads seq(2) by simp
  then have "log_ok C pay ?e" unfolding log_ok_def by blast
  with K' show ?thesis by (simp add: order_inv_def)
qed

lemma parents_fed_in: "parents_fed ext u \<Longrightarrow> parents_in (bt_get ext) u"
  by (fastforce simp: parents_fed_def parents_in_def list_all_iff bt_get_Some_iff split: option.splits)

lemma dag_fed_step:
  assumes "\<And>h u. bt_get tab h = Some u \<Longrightarrow> unit_shape n u"
  shows "fed_step tab (\<lambda>ext. dag_ok n (bt_get ext) \<and> bt_sub ext tab)"
  unfolding fed_step_def
proof (intro allI impI)
  fix ext h u
  assume I: "dag_ok n (bt_get ext) \<and> bt_sub ext tab" and h: "bt_get ext h = None" "bt_get tab h = Some u"
    "parents_fed ext u"
  have up: "parents_in (bt_get (bt_insert h u ext)) w" if "parents_in (bt_get ext) w" for w
    using that h(1) unfolding parents_in_def by (metis bt_get_insert option.distinct(1))
  have "dag_ok n (bt_get (bt_insert h u ext))"
    unfolding dag_ok_def
  proof (intro allI impI)
    fix k w assume k: "bt_get (bt_insert h u ext) k = Some w"
    show "unit_shape n w \<and> parents_in (bt_get (bt_insert h u ext)) w"
    proof (cases "k = h")
      case True
      then show ?thesis using k assms [OF h(2)] up [OF parents_fed_in [OF h(3)]] by simp
    next
      case False
      then show ?thesis using k I up unfolding dag_ok_def by simp
    qed
  qed
  moreover have "bt_sub (bt_insert h u ext) tab"
    using I h(2) by (auto simp: bt_sub_def)
  ultimately show "dag_ok n (bt_get (bt_insert h u ext)) \<and> bt_sub (bt_insert h u ext) tab" by simp
qed

lemma order_inv_try_extend:
  assumes I: "order_inv C pay e" and T: "tables_ok C enc e"
  shows "order_inv C pay (try_extend h e)"
proof -
  have "fed_step (unit_table e) (\<lambda>ext. dag_ok (num_n e) (bt_get ext) \<and> bt_sub ext (unit_table e))"
    by (rule dag_fed_step) (use T in \<open>auto simp: tables_ok_def stored_row_def\<close>)
  from try_extend_inv [OF this, of h] I
  have "dag_ok (num_n e) (bt_get (extended (try_extend h e)))"
    "bt_sub (extended (try_extend h e)) (unit_table e)"
    by (auto simp: order_inv_def caches_ok_def view_of_def)
  moreover from try_extend_grown [of e h] obtain ext where
    "try_extend h e = e\<lparr>extended := ext\<rparr>" "bt_sub (extended e) ext"
    by (auto simp: grown_def)
  ultimately show ?thesis using order_inv_grow [OF I] by simp
qed

section \<open>Admitting a unit\<close>

text \<open>
  What a run gives a node: an honest set of the mint, units and payloads of the collision-free
  world, and one unit per round of every honest creator.
\<close>

definition in_world ::
  "node_id set \<Rightarrow> bft_unit set \<Rightarrow> 'd list set \<Rightarrow> 'd engine \<Rightarrow> bool" where
  "in_world H U D e \<longleftrightarrow>
     honest_set (num_n e) H \<and> holds_only U D e \<and> single_voiced H (bt_get (unit_table e))"

lemma in_world_same: "same_tables e e' \<Longrightarrow> in_world H U D e' = in_world H U D e"
  by (simp add: in_world_def holds_only_def same_tables_def)

lemma in_world_back:
  assumes s: "tables_step C enc N e e'" and W: "in_world H U D e'"
  shows "in_world H U D e"
proof -
  note sub = bt_subD [OF tables_step_sub [OF s]]
  have "single_voiced H (bt_get (unit_table e))"
    using W sub unfolding in_world_def single_voiced_def by blast
  moreover have "holds_only U D e"
    unfolding holds_only_def
  proof (intro allI impI conjI)
    fix h u assume h: "bt_get (unit_table e) h = Some u"
    show "u \<in> U" using W sub [OF h] unfolding in_world_def holds_only_def by blast
    fix ds assume "bt_get (unit_data_table e) h = Some ds"
    then have "bt_get (unit_data_table e') h = Some ds" using tables_step_data [OF s, of h] h by simp
    then show "ds \<in> D" using W sub [OF h] unfolding in_world_def holds_only_def by blast
  qed
  ultimately show ?thesis using W tables_step_ids [OF s] by (simp add: in_world_def)
qed

lemma single_voiced_mono: "single_voiced H W \<Longrightarrow> V \<subseteq>\<^sub>m W \<Longrightarrow> single_voiced H V"
  unfolding single_voiced_def map_le_def by (metis domI)

lemma world_consistent:
  assumes K: "caches_ok C e" and W: "in_world H U D e"
  shows "consistent C (view_of e)"
proof -
  have "view_of e \<subseteq>\<^sub>m bt_get (unit_table e)"
    using K by (simp add: caches_ok_def view_of_def bt_sub_map_le)
  then have "single_voiced H (view_of e)"
    using W single_voiced_mono by (auto simp: in_world_def)
  then have G: "good_dag (num_n e) H (view_of e)"
    using K W by (simp add: good_dag_def in_world_def caches_ok_def)
  show ?thesis
    by (rule good_dag_consistent [OF G]) (use K in \<open>auto simp: caches_ok_def\<close>)
qed

lemma extender_step:
  assumes W: "collision_free C enc U D" "in_world H U D e" and T: "tables_ok C enc e"
    and I: "order_inv C (pay_of C enc U D) e"
  shows "\<exists>e'. run_extender C e = Some e' \<and> order_inv C (pay_of C enc U D) e'"
proof -
  have K: "caches_ok C e" using I by (simp add: order_inv_def)
  have "consistent C (view_of e)" by (rule world_consistent [OF K W(2)])
  moreover have "engine_ok C (pay_of C enc U D) e"
    using I rows_ok_pay [OF W(1) T] W(2) by (simp add: engine_ok_def order_inv_def in_world_def)
  ultimately show ?thesis
    using run_extender_correct unfolding engine_ok_def order_inv_def by blast
qed

lemma store_unit_order:
  assumes I: "order_inv C pay e" and s: "store_unit ev h e = Inr e1"
  shows "order_inv C pay e1"
proof -
  note f = store_unit_fields [OF s]
  have "index_ok (rounds e1) (unit_table e1)"
    using I index_ok_index_round [OF _ store_unit_cases [OF s]]
    by (simp add: f order_inv_def caches_ok_def)
  moreover have "bt_sub (extended e1) (unit_table e1)"
    using I bt_sub_trans [OF _ bt_sub_insert [OF store_unit_cases [OF s]]]
    by (simp add: f order_inv_def caches_ok_def)
  ultimately show ?thesis
    using I by (simp add: order_inv_def caches_ok_def log_ok_def view_of_def f(5-15))
qed

lemma install_order:
  assumes W: "collision_free C enc U D" "in_world H U D e1" and N: "tables_ok C enc e1"
    and I: "order_inv C (pay_of C enc U D) e" and s: "store_unit ev h e = Inr e1"
    and e2: "same_tables e1 e2" "same_order e1 e2"
  shows "\<exists>e3. run_extender C (try_extend k e2) = Some e3 \<and> order_inv C (pay_of C enc U D) e3"
proof -
  have T2: "tables_ok C enc e2" using N tables_ok_same [OF e2(1)] by simp
  have "order_inv C (pay_of C enc U D) e2"
    using store_unit_order [OF I s] order_inv_same [OF e2(2)] by simp
  then have I2: "order_inv C (pay_of C enc U D) (try_extend k e2)"
    by (rule order_inv_try_extend [OF _ T2])
  have s2: "same_tables e1 (try_extend k e2)"
    using same_tables_trans [OF e2(1) grown_tables [OF try_extend_grown]] .
  show ?thesis
    using extender_step [OF W(1) _ _ I2] W(2) N in_world_same [OF s2] tables_ok_same [OF s2] by simp
qed

section \<open>The handlers\<close>

lemma try_send_request_order: "same_order e (try_send_request now node h e)"
  by (auto simp: try_send_request_def send_to_def same_order_def split: option.splits)

lemma same_order_trans: "same_order e e' \<Longrightarrow> same_order e' e'' \<Longrightarrow> same_order e e''"
  by (simp add: same_order_def)

lemma cascade_loop_order: "same_order e (cascade_loop now sender st vis e)"
proof (induction now sender st vis e rule: cascade_loop.induct)
  case (1 now sender vis e)
  then show ?case by (simp add: same_order_def)
next
  case (2 now sender h st vis e)
  show ?case
  proof (cases "bt_get (unit_table e) h")
    case None
    with "2.IH"(1,2) same_order_trans [OF try_send_request_order "2.IH"(3) [OF _ _ None]]
    show ?thesis by simp
  next
    case (Some u)
    with "2.IH"(1,2) "2.IH"(4) [OF _ _ Some] show ?thesis by simp
  qed
qed

lemma cascade_parents_order: "same_order e (cascade_parents now sender u e)"
  by (simp add: cascade_parents_def cascade_loop_order)

lemma envelope_total: "tables_ok C enc e \<Longrightarrow> \<exists>x. envelope h e = Some x"
  by (fastforce simp: tables_ok_def stored_row_def envelope_def split: option.splits)

text \<open>
  A message is always answered, whatever it holds; if the tables after it are in the world, the
  order's invariant is kept. Admission needs no world: only the extender, run on the units of the
  world, does.
\<close>

lemma handle_message_order:
  assumes W: "collision_free C enc U D" and N: "node_ok C enc e" and I: "order_inv C (pay_of C enc U D) e"
    and world: "\<And>ev e1 e2. msg = MUnit ev \<Longrightarrow> validate_unit C enc e ev = Inr () \<Longrightarrow> same_tables e e1 \<Longrightarrow>
        store_unit ev (unit_hash C (unit ev)) e1 = Inr e2 \<Longrightarrow> in_world H U D e2"
  shows "\<exists>r e'. handle_message C enc now sender msg e = Some (r, e') \<and> order_inv C (pay_of C enc U D) e'"
proof (cases msg)
  case (MRequest k)
  have "tables_ok C enc e" using N by (simp add: node_ok_def)
  from envelope_total [OF this, of k] obtain x where "envelope k e = Some x" by blast
  then show ?thesis
    using MRequest I order_inv_same [of e "send_to _ _ e" C]
    by (cases x) (auto simp: handle_message_def handle_request_def same_order_def send_to_def)
next
  case (MUnit ev)
  let ?e1 = "cascade_parents now sender (unit ev) e" and ?h = "unit_hash C (unit ev)"
  have c: "same_tables e ?e1" by (rule cascade_parents_same)
  have I1: "order_inv C (pay_of C enc U D) ?e1" 
    using order_inv_same [OF cascade_parents_order [of e now sender "unit ev"], of C "pay_of C enc U D"] I
    by simp
  show ?thesis
  proof (cases "validate_unit C enc e ev")
    case (Inl err)
    then show ?thesis using MUnit I by (simp add: handle_message_def)
  next
    case (Inr x)
    then have v: "validate_unit C enc e ev = Inr ()" by simp
    then have v1: "validate_unit C enc ?e1 ev = Inr ()" using validate_unit_same [OF c] by metis
    show ?thesis
    proof (cases "?h \<in> set (round_units ?e1 (round (unit ev))) \<or> bt_has (unit_table ?e1) ?h")
      case True
      then show ?thesis
        using MUnit v I1 by (auto simp: handle_message_def Let_def store_unit_def)
    next
      case False
      then obtain e2 where s: "store_unit ev ?h ?e1 = Inr e2"
        by (simp add: store_unit_def Let_def)
      have T2: "tables_ok C enc e2"
        using store_unit_tables_ok [OF _ v1 s] N tables_ok_same [OF c] by (simp add: node_ok_def)
      have w: "in_world H U D e2" by (rule world [OF MUnit v c s])
      from install_order [OF W w T2 I1 s same_tables_refl, of ?h] obtain e3 where
        "run_extender C (try_extend ?h e2) = Some e3" "order_inv C (pay_of C enc U D) e3"
        by (auto simp: same_order_def)
      then show ?thesis using MUnit v s False by (auto simp: handle_message_def Let_def)
    qed
  qed
qed

lemma handle_message_order_world:
  assumes W: "collision_free C enc U D" and N: "node_ok C enc e" and I: "order_inv C (pay_of C enc U D) e"
    and h: "handle_message C enc now sender msg e = Some (r, e')" and w: "in_world H U D e'"
  shows "order_inv C (pay_of C enc U D) e'"
proof -
  have "in_world H U D e2"
    if m: "msg = MUnit ev" "validate_unit C enc e ev = Inr ()" "same_tables e e1"
      and s: "store_unit ev (unit_hash C (unit ev)) e1 = Inr e2" for ev e1 e2
  proof -
    let ?e1 = "cascade_parents now sender (unit ev) e" and ?h = "unit_hash C (unit ev)"
    have c: "same_tables e ?e1" by (rule cascade_parents_same)
    have fresh: "bt_get (unit_table ?e1) ?h = None"
      using store_unit_cases [OF s] m(3) c by (simp add: same_tables_def)
    then obtain e3 where s3: "store_unit ev ?h ?e1 = Inr e3"
      by (simp add: store_unit_def Let_def bt_has_def)
    have "?h \<notin> set (round_units ?e1 (round (unit ev)))"
      using N fresh c by (auto simp: node_ok_def tables_ok_def index_ok_def round_units_def same_tables_def)
    then have "run_extender C (try_extend ?h e3) = Some e'"
      using h m s3 by (simp add: handle_message_def Let_def)
    then have "same_tables e3 e'"
      using same_tables_trans [OF grown_tables [OF try_extend_grown] same_dag_tables [OF run_extender_same]] by blast
    moreover have "unit_table e2 = unit_table e3" "unit_data_table e2 = unit_data_table e3" "num_n e2 = num_n e3"
      using m(3) c unfolding same_tables_def store_unit_fields [OF s] store_unit_fields [OF s3] by simp_all
    ultimately show ?thesis using w by (simp add: in_world_def holds_only_def same_tables_def)
  qed
  from handle_message_order [where msg = msg and now = now and sender = sender, OF W N I this] h show ?thesis by auto
qed

lemma try_create_unit_order:
  assumes W: "collision_free C enc U D" and N: "node_ok C enc e" and I: "order_inv C (pay_of C enc U D) e"
    and t: "try_create_unit C enc ds e = Some (b, e')" and w: "in_world H U D e'"
  shows "order_inv C (pay_of C enc U D) e'"
proof -
  consider "e' = e" | ps where
    "parents_for (next_own_round e) e = Some (Some ps)" "\<not> (ds = [] \<and> \<not> has_unordered_own_data e)"
    using t by (auto simp: try_create_unit_def Let_def split: option.splits if_splits)
  then show ?thesis
  proof cases
    case 2
    let ?ev = "own_envelope C enc (next_own_round e) ps ds e"
    let ?h = "unit_hash C (unit ?ev)"
    from 2 t obtain e1 e2 e3 where
      i: "insert_unit C enc ?ev ?h e = Inr e1" and
      e2: "e2 = (if data (unit ?ev) \<noteq> None
           then e1\<lparr>unordered_own_data := bs_insert (next_own_round e) (unordered_own_data e1)\<rparr> else e1)" and
      r: "run_extender C (try_extend ?h e2) = Some e3" and e': "e' = send_to Everyone (MUnit ?ev) e3"
      by (auto simp: try_create_unit_def Let_def split: option.splits sum.splits)
    from i obtain x where v: "validate_unit C enc e ?ev = Inr x" and s: "store_unit ?ev ?h e = Inr e1"
      by (auto simp: insert_unit_def split: sum.splits)
    have same: "same_tables e1 e2" "same_order e1 e2"
      by (simp_all add: e2 same_tables_def same_order_def)
    have T: "tables_ok C enc e1" using store_unit_tables_ok [OF _ v s] N by (simp add: node_ok_def)
    have "same_tables e1 e3"
      using same_tables_trans [OF same(1) same_tables_trans [OF grown_tables [OF try_extend_grown]
          same_dag_tables [OF run_extender_same [OF r]]]] .
    moreover have "same_tables e3 e'" by (simp add: e' send_to_def same_tables_def)
    ultimately have "in_world H U D e1"
      using w in_world_same same_tables_trans by blast
    from install_order [OF W this T I s same, of ?h] r have "order_inv C (pay_of C enc U D) e3" by simp
    then show ?thesis
      using order_inv_same [of e3 e' C] by (simp add: e' send_to_def same_order_def)
  qed (use I in simp)
qed

lemma create_units_order:
  "create_units C enc draws i e = Some e' \<Longrightarrow> collision_free C enc U D \<Longrightarrow> node_ok C enc e \<Longrightarrow>
   order_inv C (pay_of C enc U D) e \<Longrightarrow> in_world H U D e' \<Longrightarrow> order_inv C (pay_of C enc U D) e'"
proof (induction rule: create_units_induct)
  case (stop i e e')
  show ?case by (rule try_create_unit_order [OF stop.prems(1-3) stop.hyps stop.prems(4)])
next
  case (more i e e1 e')
  have s: "tables_step C enc {} e e1" by (rule try_create_unit_tables [OF more.prems(2) more.hyps(1)])
  then have N1: "node_ok C enc e1" using tables_step_ids by blast
  have "in_world H U D e1"
    by (rule in_world_back [OF create_units_tables [OF more.hyps(2) N1, of "{}"] more.prems(4)])
  from try_create_unit_order [OF more.prems(1-3) more.hyps(1) this] N1 show ?case
    using more.IH more.prems by blast
qed

lemma engine_step_order:
  assumes W: "collision_free C enc U D" and N: "node_ok C enc e" and I: "order_inv C (pay_of C enc U D) e"
    and s: "engine_step C enc draws ev e = Some e'" and w: "in_world H U D e'"
    and own: "\<And>env. delivered C enc e ev env \<Longrightarrow> creator (unit env) = my_id e \<Longrightarrow>
        bt_get (unit_table e) (unit_hash C (unit env)) = Some (unit env)"
  shows "order_inv C (pay_of C enc U D) e'"
proof (cases ev)
  case (Receive sender msg now)
  from s Receive obtain r e1 where h: "handle_message C enc now sender msg e = Some (r, e1)"
    and c: "(\<exists>err. r = Inl err \<and> e' = e1) \<or> create_units C enc draws 0 e1 = Some e'"
    by (auto simp: engine_step_def split: option.splits sum.splits)
  let ?N = "{u. \<exists>ev. msg = MUnit ev \<and> validate_unit C enc e ev = Inr () \<and> u = unit ev}"
  have t: "tables_step C enc ?N e e1"
    by (rule handle_message_tables [OF N h]) (rule own, auto simp: delivered_def Receive)
  then have N1: "node_ok C enc e1" using tables_step_ids by blast
  show ?thesis
  proof (cases "e' = e1")
    case True
    then show ?thesis using handle_message_order_world [OF W N I h] w by simp
  next
    case False
    then have cu: "create_units C enc draws 0 e1 = Some e'" using c by blast
    have "in_world H U D e1" by (rule in_world_back [OF create_units_tables [OF cu N1, of "{}"] w])
    from handle_message_order_world [OF W N I h this] show ?thesis
      by (rule create_units_order [OF cu W N1 _ w])
  qed
next
  case DataReady
  then have "create_units C enc draws 0 e = Some e'" using s by (simp add: engine_step_def)
  then show ?thesis by (rule create_units_order [OF _ W N I w])
next
  case AntiEntropyTick
  then have "same_order e e'"
    using s by (auto simp: engine_step_def broadcast_anti_entropy_def send_to_def same_order_def
        split: option.splits)
  then show ?thesis using order_inv_same I by blast
qed

end
