(* ===== verification/Bft_System.thy ===== *)
theory Bft_System
  imports Bft_Run
begin

text \<open>
  Startup. An engine is rebuilt from its tables alone: \<open>replay\<close> indexes the stored units, finds
  the top of the node's own column, extends every unit that can be and runs the extender. What a
  crash leaves of the tables is an arbitrary part that holds every unit the node created itself:
  the commit of an own unit is durable, those of received units are not.

  The mint's nodes ordering together. The honest nodes \<open>H\<close> run the engine; the network, the
  other nodes and the clocks are arbitrary: any envelope can be delivered to any node at any time,
  any number of times, in any order, and nodes crash and restart. The one thing the rest of the
  world cannot do is sign for an honest node: an envelope that passes admission and names an
  honest creator holds a unit that creator has in its own table. The step relation has that as a
  premise, together with the absence of SHA-256 collisions among the units \<open>U\<close> and payloads
  \<open>D\<close> of the run.
\<close>

section \<open>The index\<close>

definition own_top_of :: "node_id \<Rightarrow> (nat \<times> hash256) option \<Rightarrow> (hash256 \<times> bft_unit) set \<Rightarrow> bool" where
  "own_top_of i t S \<longleftrightarrow>
     (case t of
        None \<Rightarrow> \<forall>h u. (h, u) \<in> S \<longrightarrow> creator u \<noteq> i
      | Some (r, h) \<Rightarrow>
          (\<exists>u. (h, u) \<in> S \<and> creator u = i \<and> round u = r) \<and>
          (\<forall>h u. (h, u) \<in> S \<longrightarrow> creator u = i \<longrightarrow> round u \<le> r))"

lemma own_ok_own_top_of: "own_ok e = own_top_of (my_id e) (own_top e) (set (entries (unit_table e)))"
  by (simp add: own_ok_def own_top_of_def bt_get_Some_iff split: option.split prod.split)

lemma own_top_of_insert:
  assumes "own_top_of i t S"
  shows "own_top_of i
     (if creator u = i \<and> (case t of None \<Rightarrow> True | Some (r, _) \<Rightarrow> r < round u) then Some (round u, h) else t)
     (insert (h, u) S)"
  using assms unfolding own_top_of_def by (cases t) (fastforce split: if_splits)+

lemma units_at_index_round:
  "k \<in> set (units_at (index_round q h rs) r) \<longleftrightarrow> (k = h \<and> r = q) \<or> k \<in> set (units_at rs r)"
  by (auto simp: units_at_def index_round_def set_bt_keys split: option.splits if_splits)

text \<open>What indexing keeps: everything but the index, the own column's top and its open rounds.\<close>

definition same_stored :: "'d engine \<Rightarrow> 'd engine \<Rightarrow> bool" where
  "same_stored e e' \<longleftrightarrow>
     my_id e' = my_id e \<and> eng_session e' = eng_session e \<and> num_n e' = num_n e \<and>
     keychain_of e' = keychain_of e \<and> unit_table e' = unit_table e \<and>
     unit_data_table e' = unit_data_table e \<and> unit_signature_table e' = unit_signature_table e \<and>
     extended e' = extended e \<and> emitted e' = emitted e \<and>
     next_decide_round e' = next_decide_round e \<and> decided e' = decided e \<and> votes e' = votes e \<and>
     request_sent_at e' = request_sent_at e \<and> ordered e' = ordered e \<and> sent e' = sent e"

lemma replay_index_spec:
  "own_top_of (my_id e) (own_top e) S \<Longrightarrow>
   same_stored e (replay_index xs e) \<and>
   own_top_of (my_id e) (own_top (replay_index xs e)) (S \<union> set xs) \<and>
   (\<forall>h r. h \<in> set (units_at (rounds (replay_index xs e)) r) \<longleftrightarrow>
      h \<in> set (units_at (rounds e) r) \<or> (\<exists>u. (h, u) \<in> set xs \<and> round u = r))"
proof (induction xs arbitrary: e S)
  case (Cons x xs)
  obtain h u where x: "x = (h, u)" by (cases x)
  let ?e1 = "e\<lparr>rounds := index_round (round u) h (rounds e)\<rparr>"
  let ?top = "if creator u = my_id e \<and> (case own_top e of None \<Rightarrow> True | Some (t, _) \<Rightarrow> t < round u)
    then Some (round u, h) else own_top e"
  obtain e2 where step: "replay_index (x # xs) e = replay_index xs e2"
    and e2: "same_stored e e2" "rounds e2 = index_round (round u) h (rounds e)" "own_top e2 = ?top"
    by (simp add: x Let_def same_stored_def)
  have "own_top_of (my_id e2) (own_top e2) (insert (h, u) S)"
    using own_top_of_insert [OF Cons.prems] e2 by (simp add: same_stored_def)
  from Cons.IH [OF this] e2 step show ?case
    unfolding step by (auto simp: x same_stored_def units_at_index_round)
qed (simp add: same_stored_def)

section \<open>The replayed engine\<close>

text \<open>An engine with its in-memory state as \<open>Engine::new\<close> leaves it.\<close>

definition fresh_engine :: "'d engine \<Rightarrow> bool" where
  "fresh_engine e \<longleftrightarrow>
     (\<exists>i s n kc us ds sigs. e = engine_new i s n kc us ds sigs)"

lemma fresh_order_inv:
  assumes "fresh_engine e"
  shows "order_inv C pay (e\<lparr>rounds := rs, own_top := t, unordered_own_data := d\<rparr>) \<longleftrightarrow> index_ok rs (unit_table e)"
proof -
  obtain i s n kc us ds sigs where e: "e = engine_new i s n kc us ds sigs"
    using assms by (auto simp: fresh_engine_def)
  have "log_ok C pay (e\<lparr>rounds := rs, own_top := t, unordered_own_data := d\<rparr>)"
    unfolding log_ok_def
    by (rule exI [of _ "[]"], rule exI [of _ "[]"]) (simp add: e engine_new_def items_def bt_has_def)
  then show ?thesis
    by (auto simp: order_inv_def caches_ok_def e engine_new_def view_of_def dag_ok_def bt_sub_def
        votes_ok_def decided_ok_def)
qed

definition rows_stored :: "crypto \<Rightarrow> ('d \<Rightarrow> bytes) \<Rightarrow> 'd engine \<Rightarrow> bool" where
  "rows_stored C enc e \<longleftrightarrow> (\<forall>h u. bt_get (unit_table e) h = Some u \<longrightarrow> stored_row C enc e h u)"

lemma fold_try_extend_tables: "same_tables e (fold try_extend hs e)"
proof (induction hs arbitrary: e)
  case (Cons h hs)
  show ?case using same_tables_trans [OF grown_tables [OF try_extend_grown] Cons.IH] by simp
qed simp

lemma fold_try_extend_order:
  "order_inv C pay e \<Longrightarrow> tables_ok C enc e \<Longrightarrow> order_inv C pay (fold try_extend hs e)"
proof (induction hs arbitrary: e)
  case (Cons h hs)
  have "tables_ok C enc (try_extend h e)"
    using Cons.prems(2) tables_ok_same [OF grown_tables [OF try_extend_grown]] by blast
  with Cons.IH [OF order_inv_try_extend [OF Cons.prems]] show ?case by simp
qed simp

lemma replay_index_fresh:
  assumes F: "fresh_engine e" and R: "rows_stored C enc e"
  defines "e1 \<equiv> replay_index (entries (unit_table e)) e"
  shows "tables_ok C enc e1 \<and> own_ok e1 \<and> order_inv C pay e1 \<and> same_stored e e1"
proof -
  obtain i s n kc us ds sigs where e: "e = engine_new i s n kc us ds sigs"
    using F by (auto simp: fresh_engine_def)
  have "own_top_of (my_id e) (own_top e) {}" by (simp add: e engine_new_def own_top_of_def)
  from replay_index_spec [OF this, of "entries (unit_table e)"]
  have same: "same_stored e e1" and top: "own_top_of (my_id e) (own_top e1) (set (entries (unit_table e)))"
    and idx: "\<And>h r. h \<in> set (units_at (rounds e1) r) \<longleftrightarrow>
      h \<in> set (units_at (rounds e) r) \<or> (\<exists>u. (h, u) \<in> set (entries (unit_table e)) \<and> round u = r)"
    unfolding e1_def by auto
  have ix: "index_ok (rounds e1) (unit_table e)"
    unfolding index_ok_def idx by (simp add: e engine_new_def units_at_def bt_get_Some_iff)
  have eq: "e1 = e\<lparr>rounds := rounds e1, own_top := own_top e1, unordered_own_data := unordered_own_data e1\<rparr>"
    using same by (simp add: same_stored_def)
  have "order_inv C pay e1"
    using fresh_order_inv [where C = C and pay = pay and rs = "rounds e1" and t = "own_top e1"
        and d = "unordered_own_data e1", OF F] ix
    by (subst eq) simp
  moreover have "tables_ok C enc e1"
    using R ix same by (simp add: tables_ok_def rows_stored_def stored_row_def same_stored_def)
  moreover have "own_ok e1"
    using top same by (simp add: own_ok_own_top_of same_stored_def)
  ultimately show ?thesis using same by simp
qed

text \<open>Replay returns, and the engine it leaves keeps every invariant of a running one.\<close>

lemma replay_ok:
  assumes W: "collision_free C enc U D" "in_world H U D e" and F: "fresh_engine e" and R: "rows_stored C enc e"
    and S: "own_single e"
  shows "\<exists>e'. replay C e = Some e' \<and> node_ok C enc e' \<and> order_inv C (pay_of C enc U D) e' \<and>
    my_id e' = my_id e \<and> num_n e' = num_n e \<and> eng_session e' = eng_session e \<and>
    keychain_of e' = keychain_of e \<and> unit_table e' = unit_table e \<and>
    unit_data_table e' = unit_data_table e \<and> unit_signature_table e' = unit_signature_table e"
proof -
  let ?e1 = "replay_index (entries (unit_table e)) e"
  let ?e2 = "fold try_extend (round_units ?e1 0) ?e1"
  note r = replay_index_fresh [OF F R, of "pay_of C enc U D"]
  have N1: "node_ok C enc ?e1"
    using r S by (auto simp: node_ok_def own_single_def same_stored_def)
  have s2: "same_tables ?e1 ?e2" by (rule fold_try_extend_tables)
  have I2: "order_inv C (pay_of C enc U D) ?e2" using fold_try_extend_order r by blast
  have T2: "tables_ok C enc ?e2" using r tables_ok_same [OF s2] by blast
  have "in_world H U D ?e1" using W(2) r by (simp add: in_world_def holds_only_def same_stored_def)
  then have "in_world H U D ?e2" using in_world_same [OF s2] by blast
  from extender_step [OF W(1) this T2 I2] obtain e' where
    e': "run_extender C ?e2 = Some e'" "order_inv C (pay_of C enc U D) e'" by blast
  have s3: "same_tables ?e1 e'" by (rule same_tables_trans [OF s2 same_dag_tables [OF run_extender_same [OF e'(1)]]])
  then have "node_ok C enc e'" using N1 node_ok_same by blast
  with e' s3 r show ?thesis
    by (intro exI [of _ e']) (auto simp: replay_def Let_def same_tables_def same_stored_def)
qed

section \<open>Crashes\<close>

definition own_unit :: "'d engine \<Rightarrow> hash256 \<Rightarrow> bool" where
  "own_unit e h \<longleftrightarrow> (case bt_get (unit_table e) h of None \<Rightarrow> False | Some u \<Rightarrow> creator u = my_id e)"

text \<open>The engine constructed over what a crash left: the rows of \<open>keep\<close> and the own units.\<close>

definition surviving :: "(hash256 \<Rightarrow> bool) \<Rightarrow> 'd engine \<Rightarrow> 'd engine" where
  "surviving keep e =
     engine_new (my_id e) (eng_session e) (num_n e) (keychain_of e)
       (bt_filter (\<lambda>h _. keep h \<or> own_unit e h) (unit_table e))
       (bt_filter (\<lambda>h _. keep h \<or> own_unit e h) (unit_data_table e))
       (bt_filter (\<lambda>h _. keep h \<or> own_unit e h) (unit_signature_table e))"

lemma surviving_simps [simp]:
  "my_id (surviving keep e) = my_id e" "eng_session (surviving keep e) = eng_session e"
  "num_n (surviving keep e) = num_n e" "keychain_of (surviving keep e) = keychain_of e"
  "fresh_engine (surviving keep e)"
  by (auto simp: surviving_def engine_new_def fresh_engine_def)

lemma surviving_get:
  "bt_get (unit_table (surviving keep e)) h = Some u \<longleftrightarrow>
     bt_get (unit_table e) h = Some u \<and> (keep h \<or> creator u = my_id e)"
  by (auto simp: surviving_def engine_new_def own_unit_def split: option.splits)

lemma surviving_rows:
  assumes "node_ok C enc e"
  shows "rows_stored C enc (surviving keep e) \<and> own_single (surviving keep e)"
proof
  show "rows_stored C enc (surviving keep e)"
    unfolding rows_stored_def
  proof (intro allI impI)
    fix h u assume h: "bt_get (unit_table (surviving keep e)) h = Some u"
    then have k: "bt_get (unit_table e) h = Some u" "keep h \<or> own_unit e h"
      by (auto simp: surviving_get own_unit_def)
    then have "stored_row C enc e h u" using assms by (simp add: node_ok_def tables_ok_def)
    then show "stored_row C enc (surviving keep e) h u"
      using k(2) by (auto simp: stored_row_def surviving_def engine_new_def)
  qed
  show "own_single (surviving keep e)"
    using assms unfolding node_ok_def own_single_def surviving_get by auto
qed

lemma surviving_world: "in_world H U D e \<Longrightarrow> in_world H U D (surviving keep e)"
  unfolding in_world_def holds_only_def single_voiced_def surviving_get
  by (auto simp: surviving_def engine_new_def split: if_splits option.splits)

type_synonym 'd system = "node_id \<Rightarrow> 'd engine"

definition unforged :: "crypto \<Rightarrow> ('d \<Rightarrow> bytes) \<Rightarrow> node_id set \<Rightarrow> 'd system \<Rightarrow> node_id \<Rightarrow> 'd event \<Rightarrow> bool" where
  "unforged C enc H s i ev \<longleftrightarrow>
     (\<forall>env. delivered C enc (s i) ev env \<longrightarrow> creator (unit env) \<in> H \<longrightarrow>
        bt_get (unit_table (s (creator (unit env)))) (unit_hash C (unit env)) = Some (unit env))"

text \<open>A step of the system: one iteration of one node's run loop, or its crash and restart.\<close>

inductive sys_step ::
  "crypto \<Rightarrow> ('d \<Rightarrow> bytes) \<Rightarrow> node_id set \<Rightarrow> 'd system \<Rightarrow> 'd system \<Rightarrow> bool"
  for C :: crypto and enc :: "'d \<Rightarrow> bytes" and H :: "node_id set" where
  run: "i \<in> H \<Longrightarrow> unforged C enc H s i ev \<Longrightarrow> engine_step C enc draws ev (s i) = Some e \<Longrightarrow>
    sys_step C enc H s (s(i := e))"
| restart: "i \<in> H \<Longrightarrow> replay C (surviving keep (s i)) = Some e \<Longrightarrow> sys_step C enc H s (s(i := e))"

text \<open>The start of a session: every honest node with empty tables.\<close>

definition sys_start :: "num_nodes \<Rightarrow> node_id set \<Rightarrow> u32 \<Rightarrow> (node_id \<Rightarrow> keychain) \<Rightarrow> 'd system \<Rightarrow> bool" where
  "sys_start n H sess kc s \<longleftrightarrow>
     (\<forall>i \<in> H. s i = engine_new i sess n (kc i) bt_empty bt_empty bt_empty)"

definition sys_holds_only :: "node_id set \<Rightarrow> bft_unit set \<Rightarrow> 'd list set \<Rightarrow> 'd system \<Rightarrow> bool" where
  "sys_holds_only H U D s \<longleftrightarrow> (\<forall>i \<in> H. holds_only U D (s i))"

text \<open>The states of a run whose units and payloads all lie in \<open>U\<close> and \<open>D\<close>.\<close>

inductive sys_run ::
  "crypto \<Rightarrow> ('d \<Rightarrow> bytes) \<Rightarrow> num_nodes \<Rightarrow> node_id set \<Rightarrow> u32 \<Rightarrow> (node_id \<Rightarrow> keychain) \<Rightarrow>
   bft_unit set \<Rightarrow> 'd list set \<Rightarrow> 'd system \<Rightarrow> bool"
  for C enc n H sess kc U D where
  start: "sys_start n H sess kc s \<Longrightarrow> sys_run C enc n H sess kc U D s"
| step: "sys_run C enc n H sess kc U D s \<Longrightarrow> sys_step C enc H s s' \<Longrightarrow> sys_holds_only H U D s' \<Longrightarrow>
    sys_run C enc n H sess kc U D s'"

section \<open>The invariant\<close>

definition authored :: "node_id set \<Rightarrow> 'd system \<Rightarrow> bool" where
  "authored H s \<longleftrightarrow>
     (\<forall>i \<in> H. \<forall>h u. bt_get (unit_table (s i)) h = Some u \<longrightarrow> creator u \<in> H \<longrightarrow>
        bt_get (unit_table (s (creator u))) h = Some u)"

definition nodes_ok :: "crypto \<Rightarrow> ('d \<Rightarrow> bytes) \<Rightarrow> num_nodes \<Rightarrow> node_id set \<Rightarrow> 'd system \<Rightarrow> bool" where
  "nodes_ok C enc n H s \<longleftrightarrow> (\<forall>i \<in> H. my_id (s i) = i \<and> num_n (s i) = n \<and> node_ok C enc (s i))"

definition sys_inv ::
  "crypto \<Rightarrow> ('d \<Rightarrow> bytes) \<Rightarrow> num_nodes \<Rightarrow> node_id set \<Rightarrow> bft_unit set \<Rightarrow> 'd list set \<Rightarrow> 'd system \<Rightarrow> bool" where
  "sys_inv C enc n H U D s \<longleftrightarrow>
     nodes_ok C enc n H s \<and> authored H s \<and> sys_holds_only H U D s \<and>
     (\<forall>i \<in> H. order_inv C (pay_of C enc U D) (s i))"

text \<open>What all honest nodes hold of an honest creator is one unit per round.\<close>

lemma one_voice:
  assumes N: "nodes_ok C enc n H s" and A: "authored H s"
    and i: "i \<in> H" "bt_get (unit_table (s i)) h = Some u" and j: "j \<in> H" "bt_get (unit_table (s j)) k = Some w"
    and c: "creator u = creator w" "creator u \<in> H" "round u = round w"
  shows "h = k"
proof -
  let ?e = "s (creator u)"
  have "bt_get (unit_table ?e) h = Some u" "bt_get (unit_table ?e) k = Some w"
    using A i j c unfolding authored_def by metis+
  moreover have "own_single ?e" "my_id ?e = creator u"
    using N c(2) by (simp_all add: nodes_ok_def node_ok_def)
  ultimately show ?thesis using c unfolding own_single_def by metis
qed

lemma sys_in_world:
  assumes "nodes_ok C enc n H s" "authored H s" "sys_holds_only H U D s" "honest_set n H" "i \<in> H"
  shows "in_world H U D (s i)"
proof -
  have "single_voiced H (bt_get (unit_table (s i)))"
    unfolding single_voiced_def using one_voice [OF assms(1,2,5) _ assms(5)] by blast
  then show ?thesis using assms by (simp add: in_world_def sys_holds_only_def nodes_ok_def)
qed

text \<open>A step of one node keeps the tables' part of the invariant.\<close>

lemma step_tables:
  assumes N: "nodes_ok C enc n H s" and A: "authored H s" and i: "i \<in> H"
    and u: "unforged C enc H s i ev" and e: "engine_step C enc draws ev (s i) = Some e"
  shows "tables_step C enc {u. creator u \<in> H \<longrightarrow> bt_get (unit_table (s (creator u))) (unit_hash C u) = Some u} (s i) e"
proof -
  have id: "my_id (s i) = i" "node_ok C enc (s i)" using N i by (simp_all add: nodes_ok_def)
  have own: "bt_get (unit_table (s i)) (unit_hash C (unit env)) = Some (unit env)"
    if "delivered C enc (s i) ev env" "creator (unit env) = my_id (s i)" for env
    using u that i id unfolding unforged_def by metis
  have t: "tables_step C enc {u. \<exists>env. delivered C enc (s i) ev env \<and> u = unit env} (s i) e"
    by (rule engine_step_tables [OF id(2) e own])
  have "creator w \<in> H \<longrightarrow> bt_get (unit_table (s (creator w))) (unit_hash C w) = Some w"
    if "\<exists>env. delivered C enc (s i) ev env \<and> w = unit env" for w
    using u that unfolding unforged_def by blast
  then show ?thesis using t unfolding tables_step_def by blast
qed

lemma authored_step:
  assumes N: "nodes_ok C enc n H s" and A: "authored H s" and i: "i \<in> H"
    and t: "tables_step C enc {u. creator u \<in> H \<longrightarrow> bt_get (unit_table (s (creator u))) (unit_hash C u) = Some u} (s i) e"
  shows "nodes_ok C enc n H (s(i := e)) \<and> authored H (s(i := e))"
proof
  have id: "my_id (s i) = i" using N i by (simp add: nodes_ok_def)
  show N': "nodes_ok C enc n H (s(i := e))"
    using N tables_step_ids [OF t] i by (auto simp: nodes_ok_def)
  have up: "bt_get (unit_table ((s(i := e)) j)) h = Some u" if "bt_get (unit_table (s j)) h = Some u" for j h u
    using that bt_subD [OF tables_step_sub [OF t]] by auto
  show "authored H (s(i := e))"
    unfolding authored_def
  proof (intro ballI allI impI)
    fix j h u assume j: "j \<in> H" "bt_get (unit_table ((s(i := e)) j)) h = Some u" "creator u \<in> H"
    show "bt_get (unit_table ((s(i := e)) (creator u))) h = Some u"
    proof (cases "bt_get (unit_table (s j)) h")
      case (Some u')
      then have "u' = u" using up [OF Some] j(2) by simp
      then have "bt_get (unit_table (s (creator u))) h = Some u"
        using A j Some unfolding authored_def by blast
      then show ?thesis by (rule up)
    next
      case None
      then have ji: "j = i" and new: "bt_get (unit_table e) h = Some u" "bt_get (unit_table (s i)) h = None"
        using j(2) by (auto split: if_splits)
      have "unit_hash C u = h"
        using tables_step_ids [OF t] new(1) by (auto simp: node_ok_def tables_ok_def stored_row_def)
      with tables_step_new [OF t new] j(3)
      have "creator u = i \<or> bt_get (unit_table (s (creator u))) h = Some u" by (auto simp: id)
      then show ?thesis using up new(1) by auto
    qed
  qed
qed

lemma surviving_step:
  assumes I: "sys_inv C enc n H U D s" and G: "honest_set n H" "collision_free C enc U D" and i: "i \<in> H"
    and r: "replay C (surviving keep (s i)) = Some e"
  shows "sys_inv C enc n H U D (s(i := e))"
proof -
  have N: "nodes_ok C enc n H s" and A: "authored H s" and O: "sys_holds_only H U D s"
    using I by (simp_all add: sys_inv_def)
  have w: "in_world H U D (s i)" by (rule sys_in_world [OF N A O G(1) i])
  have nk: "node_ok C enc (s i)" "my_id (s i) = i" "num_n (s i) = n" using N i by (simp_all add: nodes_ok_def)
  let ?s = "surviving keep (s i)"
  have "\<exists>e'. replay C ?s = Some e' \<and> node_ok C enc e' \<and> order_inv C (pay_of C enc U D) e' \<and>
    my_id e' = my_id ?s \<and> num_n e' = num_n ?s \<and> eng_session e' = eng_session ?s \<and>
    keychain_of e' = keychain_of ?s \<and> unit_table e' = unit_table ?s \<and>
    unit_data_table e' = unit_data_table ?s \<and> unit_signature_table e' = unit_signature_table ?s"
    using surviving_rows [OF nk(1), of keep] by (intro replay_ok [OF G(2) surviving_world [OF w]]) simp_all
  then have e: "node_ok C enc e" "order_inv C (pay_of C enc U D) e" "my_id e = i" "num_n e = n"
    "unit_table e = unit_table ?s" "unit_data_table e = unit_data_table ?s"
    using r nk by simp_all
  have "holds_only U D e"
    using surviving_world [OF w, of keep] e by (simp add: in_world_def holds_only_def)
  moreover have "authored H (s(i := e))"
    unfolding authored_def
  proof (intro ballI allI impI)
    fix j h u assume j: "j \<in> H" "bt_get (unit_table ((s(i := e)) j)) h = Some u" "creator u \<in> H"
    then have "bt_get (unit_table (s j)) h = Some u"
      using e(5) by (auto simp: surviving_get split: if_splits)
    then have "bt_get (unit_table (s (creator u))) h = Some u" using A j unfolding authored_def by blast
    then show "bt_get (unit_table ((s(i := e)) (creator u))) h = Some u"
      using e(5) nk(2) by (auto simp: surviving_get)
  qed
  ultimately show ?thesis
    using I e by (auto simp: sys_inv_def nodes_ok_def sys_holds_only_def)
qed

lemma sys_step_inv:
  assumes s: "sys_step C enc H s s'" and I: "sys_inv C enc n H U D s"
    and G: "honest_set n H" "collision_free C enc U D" and O: "sys_holds_only H U D s'"
  shows "sys_inv C enc n H U D s'"
  using s
proof cases
  case (run i ev draws e)
  have N: "nodes_ok C enc n H s" and A: "authored H s" using I by (simp_all add: sys_inv_def)
  note t = step_tables [OF N A run(2-4)]
  have N': "nodes_ok C enc n H s'" and A': "authored H s'"
    using authored_step [OF N A run(2) t] run(1) by simp_all
  have w: "in_world H U D e"
    using sys_in_world [OF N' A' O G(1) run(2)] run(1) by simp
  have id: "my_id (s i) = i" "node_ok C enc (s i)" using N run(2) by (simp_all add: nodes_ok_def)
  have own: "bt_get (unit_table (s i)) (unit_hash C (unit env)) = Some (unit env)"
    if "delivered C enc (s i) ev env" "creator (unit env) = my_id (s i)" for env
    using run(2,3) that id unfolding unforged_def by metis
  have "order_inv C (pay_of C enc U D) (s i)" using I run(2) by (simp add: sys_inv_def)
  from engine_step_order [OF G(2) id(2) this run(4) w own]
  have "order_inv C (pay_of C enc U D) e" .
  then show ?thesis using I N' A' O run(1) by (simp add: sys_inv_def)
next
  case (restart i keep e)
  then show ?thesis using surviving_step [OF I G] by simp
qed

lemma engine_new_ok:
  "node_ok C enc (engine_new i sess n kc bt_empty bt_empty bt_empty)"
  "order_inv C pay (engine_new i sess n kc bt_empty bt_empty bt_empty)"
  "holds_only U D (engine_new i sess n kc bt_empty bt_empty bt_empty)"
proof -
  let ?e = "engine_new i sess n kc bt_empty bt_empty bt_empty"
  have ix: "index_ok bt_empty (bt_empty :: (hash256, bft_unit) btmap)"
    by (simp add: index_ok_def units_at_def)
  show "node_ok C enc ?e"
    using ix by (simp add: node_ok_def tables_ok_def own_ok_def own_single_def engine_new_def)
  have "?e = ?e\<lparr>rounds := bt_empty, own_top := None, unordered_own_data := bt_empty\<rparr>"
    by (simp add: engine_new_def)
  moreover have "fresh_engine ?e" unfolding fresh_engine_def by blast
  ultimately show "order_inv C pay ?e"
    using fresh_order_inv [of ?e C pay bt_empty None bt_empty] ix by (simp add: engine_new_def)
  show "holds_only U D ?e" by (simp add: holds_only_def engine_new_def)
qed

lemma sys_run_inv:
  assumes "honest_set n H" "collision_free C enc U D" "sys_run C enc n H sess kc U D s"
  shows "sys_inv C enc n H U D s"
  using assms(3)
proof induction
  case (start s)
  then show ?case
    by (auto simp: sys_inv_def sys_start_def nodes_ok_def authored_def sys_holds_only_def engine_new_ok)
      (simp_all add: engine_new_def)
next
  case (step s s')
  then show ?case using sys_step_inv [OF _ _ assms(1,2)] by blast
qed

section \<open>Agreement\<close>

lemma dag_ok_union:
  assumes V: "dag_ok n V" "dag_ok n W" and agree: "\<And>h u w. V h = Some u \<Longrightarrow> W h = Some w \<Longrightarrow> u = w"
  shows "dag_ok n (V ++ W) \<and> V \<subseteq>\<^sub>m V ++ W \<and> W \<subseteq>\<^sub>m V ++ W"
proof -
  have le: "V \<subseteq>\<^sub>m V ++ W"
    using agree by (fastforce simp: map_le_def dom_def map_add_def split: option.splits)
  have "parents_in (V ++ W) u" if "parents_in V u" for u
    using that le unfolding parents_in_def map_le_def by (metis domI)
  moreover have "parents_in (V ++ W) u" if "parents_in W u" for u
    using that unfolding parents_in_def by (metis map_add_find_right)
  ultimately have "dag_ok n (V ++ W)"
    using V unfolding dag_ok_def by (auto simp: map_add_Some_iff)
  with le show ?thesis by simp
qed

lemma sys_logs_comparable:
  assumes H: "honest_set n H" and I: "sys_inv C enc n H U D s" and ij: "i \<in> H" "j \<in> H"
    and W: "collision_free C enc U D"
  shows "prefix (ordered (s i)) (ordered (s j)) \<or> prefix (ordered (s j)) (ordered (s i))"
proof -
  let ?V = "view_of (s i)" and ?W = "view_of (s j)"
  have N: "nodes_ok C enc n H s" and A: "authored H s" and O: "sys_holds_only H U D s"
    using I by (simp_all add: sys_inv_def)
  have K: "caches_ok C (s k)" "log_ok C (pay_of C enc U D) (s k)" "num_n (s k) = n" if "k \<in> H" for k
    using I N that by (simp_all add: sys_inv_def order_inv_def nodes_ok_def)
  have st: "bt_get (unit_table (s k)) h = Some u" if "k \<in> H" "view_of (s k) h = Some u" for k h u
    using K(1) [OF that(1)] that(2) by (auto simp: caches_ok_def view_of_def dest: bt_subD)
  have hash: "unit_hash C u = h \<and> u \<in> U" if "k \<in> H" "view_of (s k) h = Some u" for k h u
    using st [OF that] N O that(1)
    by (auto simp: nodes_ok_def node_ok_def tables_ok_def stored_row_def sys_holds_only_def holds_only_def)
  have agree: "u = w" if "?V h = Some u" "?W h = Some w" for h u w
    using hash [OF ij(1) that(1)] hash [OF ij(2) that(2)] W by (auto simp: collision_free_def dest: inj_onD)
  have D: "dag_ok n ?V" "dag_ok n ?W" using K ij by (auto simp: caches_ok_def)
  note un = dag_ok_union [OF D agree]
  have "single_voiced H (?V ++ ?W)"
    unfolding single_voiced_def
  proof (intro allI impI)
    fix h k u w assume u: "(?V ++ ?W) h = Some u" "(?V ++ ?W) k = Some w"
      and c: "creator u = creator w" "creator u \<in> H" "round u = round w"
    from u(1) obtain a where a: "a \<in> H" "bt_get (unit_table (s a)) h = Some u"
      using ij st by (auto simp: map_add_Some_iff)
    from u(2) obtain b where b: "b \<in> H" "bt_get (unit_table (s b)) k = Some w"
      using ij st by (auto simp: map_add_Some_iff)
    show "h = k" by (rule one_voice [OF N A a b c])
  qed
  then have G: "good_dag n H (?V ++ ?W)" using H un by (simp add: good_dag_def)
  show ?thesis
    by (rule logs_comparable [OF G K(1-3) [OF ij(1)] _ K(1-3) [OF ij(2)]]) (use un in auto)
qed

section \<open>No message makes a node panic\<close>

lemma sys_handles_message:
  assumes I: "sys_inv C enc n H U D s" and G: "honest_set n H" "collision_free C enc U D" and i: "i \<in> H"
    and u: "unforged C enc H s i (Receive sender msg now)"
    and known: "\<And>env. msg = MUnit env \<Longrightarrow> unit env \<in> U \<and> payload env \<in> D"
  shows "\<exists>r e. handle_message C enc now sender msg (s i) = Some (r, e)"
proof -
  have N: "nodes_ok C enc n H s" and A: "authored H s" and O: "sys_holds_only H U D s"
    and ord: "order_inv C (pay_of C enc U D) (s i)" using I i by (simp_all add: sys_inv_def)
  have id: "my_id (s i) = i" "node_ok C enc (s i)" using N i by (simp_all add: nodes_ok_def)
  let ?N = "{u. creator u \<in> H \<longrightarrow> bt_get (unit_table (s (creator u))) (unit_hash C u) = Some u}"
  have world: "in_world H U D e2"
    if m: "msg = MUnit ev" "validate_unit C enc (s i) ev = Inr ()" "same_tables (s i) e1"
      and st: "store_unit ev (unit_hash C (unit ev)) e1 = Inr e2" for ev e1 e2
  proof -
    have d: "creator (unit ev) \<in> H \<longrightarrow>
        bt_get (unit_table (s (creator (unit ev)))) (unit_hash C (unit ev)) = Some (unit ev)"
      using u m(1,2) by (auto simp: unforged_def delivered_def)
    have fresh: "bt_get (unit_table (s i)) (unit_hash C (unit ev)) = None"
      using store_unit_cases [OF st] m(3) by (simp add: same_tables_def)
    have other: "creator (unit ev) \<noteq> my_id e1"
      using d fresh i id m(3) by (auto simp: same_tables_def)
    have N1: "node_ok C enc e1" using node_ok_same [OF m(3)] id by simp
    have v1: "validate_unit C enc e1 ev = Inr ()" using validate_unit_same [OF m(3)] m(2) by metis
    have "tables_step C enc ?N e1 e2"
      using d other by (intro store_tables [OF N1 v1 st same_tables_refl]) auto
    with tables_step_trans [OF tables_step_same [OF m(3) id(2)]] have t: "tables_step C enc ?N (s i) e2" by blast
    note st' = authored_step [OF N A i t]
    have "holds_only U D e2"
      using O i known [OF m(1)] m(3) unfolding holds_only_def store_unit_fields [OF st] sys_holds_only_def same_tables_def
      by (auto split: if_splits)
    then have "sys_holds_only H U D (s(i := e2))" using O by (auto simp: sys_holds_only_def)
    from sys_in_world [OF conjunct1 [OF st'] conjunct2 [OF st'] this G(1) i] show ?thesis by simp
  qed
  have "\<exists>r e. handle_message C enc now sender msg (s i) = Some (r, e) \<and> order_inv C (pay_of C enc U D) e"
    by (rule handle_message_order [OF G(2) id(2) ord]) (rule world)
  then show ?thesis by blast
qed

end
