(* ===== verification/Bft_Claims.thy ===== *)
theory Bft_Claims
  imports Bft_System
begin

text \<open>
  The properties of the ordering engine, over the runs of \<open>Bft_System\<close>, with a sample mint of
  four nodes, three of them honest, on which each is applied.
\<close>

section \<open>A sample mint\<close>

definition sample_crypto :: crypto where
  "sample_crypto =
     \<lparr>sha256 = (\<lambda>bs. of_nat (length bs)), sign_schnorr = (\<lambda>k d. k), verify_schnorr = (\<lambda>s d p. s = p)\<rparr>"

definition sample_honest :: "node_id set" where
  "sample_honest = {0, 1, 2}"

definition sample_keychain :: "node_id \<Rightarrow> keychain" where
  "sample_keychain i =
     \<lparr>keypair = [i], pubkeys = bt_of_list [(0, [0]), (1, [1]), (2, [2]), (3, [3])]\<rparr>"

definition sample_start :: "u8 system" where
  "sample_start i = engine_new i 5 (NumNodes 1) (sample_keychain i) bt_empty bt_empty bt_empty"

lemma sample_nodes: "set (node_ids (NumNodes 1)) = {0, 1, 2, 3}"
  by code_simp

lemma sample_honest_set: "honest_set (NumNodes 1) sample_honest"
  using sample_nodes
  by (simp add: honest_set_def sample_honest_def small_mint_def total_def)

text \<open>Node 0 is given one item and creates its unit of round 0.\<close>

definition sample_unit :: bft_unit where
  "sample_unit = \<lparr>round = 0, creator = 0, parents = bt_empty, data = Some 5\<rparr>"

definition sample_envelope :: "u8 unit_envelope" where
  "sample_envelope = \<lparr>unit = sample_unit, payload = [7], signature = [0]\<rparr>"

definition sample_engine :: "u8 engine" where
  "sample_engine = (sample_start 0)\<lparr>
     unit_table := bt_insert 42 sample_unit bt_empty,
     unit_data_table := bt_insert 42 [7] bt_empty,
     unit_signature_table := bt_insert 42 [0] bt_empty,
     rounds := bt_insert 0 (bs_insert 42 bt_empty) bt_empty,
     extended := bt_insert 42 sample_unit bt_empty,
     unordered_own_data := bs_insert 0 bt_empty,
     own_top := Some (0, 42),
     sent := [(Everyone, MUnit sample_envelope)]\<rparr>"

lemma sample_hash: "unit_hash sample_crypto sample_unit = 42"
  by (simp add: unit_hash_def sample_crypto_def enc_unit_def sample_unit_def enc_btmap_def enc_hash_def
      enc_len_def enc_int_def)

lemma sample_commitment: "payload_commitment sample_crypto enc_u8 [7] = Some 5"
  by (simp add: payload_commitment_def payload_hash_def sample_crypto_def enc_vec_def enc_len_def enc_int_def)

lemma sample_create:
  "try_create_unit sample_crypto enc_u8 [7] (sample_start 0) = Some (True, sample_engine)"
proof -
  let ?e = "sample_start 0"
  have r: "next_own_round ?e = 0" by (simp add: next_own_round_def sample_start_def engine_new_def)
  have ev: "own_envelope sample_crypto enc_u8 0 bt_empty [7] ?e = sample_envelope"
    using sample_commitment
    by (simp add: own_envelope_def Let_def sample_envelope_def sample_unit_def sample_start_def
        engine_new_def keychain_sign_def sample_keychain_def sample_crypto_def)
  have v: "validate_unit sample_crypto enc_u8 ?e sample_envelope = Inr ()"
    using sample_commitment sample_nodes
    by (simp add: validate_unit_def Let_def sample_envelope_def sample_unit_def sample_start_def
        engine_new_def keychain_verify_def sample_keychain_def sample_crypto_def bt_of_list_def)
  define e1 where "e1 = ?e\<lparr>
     unit_table := bt_insert 42 sample_unit bt_empty,
     unit_data_table := bt_insert 42 [7] bt_empty,
     unit_signature_table := bt_insert 42 [0] bt_empty,
     rounds := bt_insert 0 (bs_insert 42 bt_empty) bt_empty,
     own_top := Some (0, 42)\<rparr>"
  have s: "store_unit sample_envelope 42 ?e = Inr e1"
    by (simp add: store_unit_def Let_def sample_envelope_def sample_unit_def sample_start_def
        engine_new_def e1_def bt_has_def index_round_def)
  define e2 where "e2 = e1\<lparr>unordered_own_data := bs_insert 0 bt_empty\<rparr>"
  define e3 where "e3 = e2\<lparr>extended := bt_insert 42 sample_unit bt_empty\<rparr>"
  have m: "maybe_extend 42 e2 = (Some 0, e3)"
    by (simp add: maybe_extend_def is_extended_def e3_def e2_def e1_def sample_start_def engine_new_def
        bt_has_def sample_unit_def parents_fed_def)
  have x: "try_extend 42 e2 = e3"
    unfolding try_extend_def m
    by (simp add: extend_sweep.simps round_units_def units_at_def round_saturating_add_def)
      (simp add: e3_def e2_def e1_def)
  have run: "run_extender sample_crypto e3 = Some e3"
    by (simp add: run_extender.simps choose_head_def extended_at_def units_at_def)
      (simp add: e3_def e2_def e1_def sample_start_def engine_new_def)
  have h: "unit_hash sample_crypto (unit sample_envelope) = 42"
    using sample_hash by (simp add: sample_envelope_def)
  have d: "data (unit sample_envelope) \<noteq> None" by (simp add: sample_envelope_def sample_unit_def)
  have e2: "e1\<lparr>unordered_own_data := bs_insert 0 (unordered_own_data e1)\<rparr> = e2"
    by (simp add: e2_def e1_def sample_start_def engine_new_def)
  have fin: "send_to Everyone (MUnit sample_envelope) e3 = sample_engine"
    by (simp add: send_to_def e3_def e2_def e1_def sample_engine_def sample_start_def engine_new_def)
  show ?thesis
    using d by (simp add: try_create_unit_def Let_def r parents_for_def ev insert_unit_def v h s e2 x run fin)
qed

lemma sample_create_stops:
  "try_create_unit sample_crypto enc_u8 ds sample_engine = Some (False, sample_engine)"
  by (simp add: try_create_unit_def next_own_round_def parents_for_def sample_engine_def extended_at_def
      units_at_def sample_unit_def sample_start_def engine_new_def Let_def threshold_def total_def
      bt_keys_def bt_has_def bt_len_def bt_of_list_def)

definition sample_state :: "u8 system" where
  "sample_state = sample_start(0 := sample_engine)"

lemma sample_collision_free: "collision_free sample_crypto enc_u8 {sample_unit} {[7]}"
  by (simp add: collision_free_def)

lemma sample_step: "sys_step sample_crypto enc_u8 sample_honest sample_start sample_state"
  unfolding sample_state_def
proof (rule sys_step.run)
  show "0 \<in> sample_honest" by (simp add: sample_honest_def)
  show "unforged sample_crypto enc_u8 sample_honest sample_start 0 DataReady"
    by (simp add: unforged_def delivered_def)
  let ?draws = "\<lambda>i. if i = 0 then [7] else []"
  have "create_units sample_crypto enc_u8 ?draws 0 (sample_start 0) = Some sample_engine"
    by (simp add: create_units.simps [of sample_crypto enc_u8 ?draws] sample_create sample_create_stops)
  then show "engine_step sample_crypto enc_u8 ?draws DataReady (sample_start 0) = Some sample_engine"
    by (simp add: engine_step_def)
qed

lemma sample_run:
  "sys_run sample_crypto enc_u8 (NumNodes 1) sample_honest 5 sample_keychain {sample_unit} {[7]} sample_state"
proof (rule sys_run.step [OF _ sample_step])
  show "sys_run sample_crypto enc_u8 (NumNodes 1) sample_honest 5 sample_keychain {sample_unit} {[7]} sample_start"
    by (rule sys_run.start) (simp add: sys_start_def sample_start_def)
  show "sys_holds_only sample_honest {sample_unit} {[7]} sample_state"
    by (auto simp: sys_holds_only_def holds_only_def sample_state_def sample_engine_def sample_start_def
        engine_new_def split: if_splits)
qed

lemma sample_stored: "bt_get (unit_table (sample_state 0)) 42 = Some sample_unit"
  by (simp add: sample_state_def sample_engine_def)

lemma sample_member: "0 \<in> sample_honest" "1 \<in> sample_honest"
  by (simp_all add: sample_honest_def)

section \<open>Properties\<close>

text \<open>
  C1. Total order. In every run of the ordering engines, whatever the network and the dishonest
  nodes send and wherever nodes crash and restart, the logs of emitted items of any two honest
  nodes are prefix-comparable: one continues the other, item by item, in one order.
\<close>

theorem total_order:
  assumes "honest_set n H" "collision_free C enc U D" "sys_run C enc n H sess kc U D s"
    "i \<in> H" "j \<in> H"
  shows "prefix (ordered (s i)) (ordered (s j)) \<or> prefix (ordered (s j)) (ordered (s i))"
  using sys_logs_comparable [OF assms(1) sys_run_inv [OF assms(1-3)] assms(4,5,2)] .

theorem total_order_witness:
  "prefix (ordered (sample_state 0)) (ordered (sample_state 1)) \<or>
   prefix (ordered (sample_state 1)) (ordered (sample_state 0))"
  by (rule total_order [OF sample_honest_set sample_collision_free sample_run sample_member])

text \<open>
  C28. No equivocation. In every run, all that the honest nodes hold of one honest creator is one
  unit per round: restarts from whatever a crash left of the tables, and units relayed by anyone,
  never give two.
\<close>

theorem no_equivocation:
  assumes "honest_set n H" "collision_free C enc U D" "sys_run C enc n H sess kc U D s"
    "i \<in> H" "bt_get (unit_table (s i)) h = Some u" "j \<in> H" "bt_get (unit_table (s j)) k = Some w"
    "creator u = creator w" "creator u \<in> H" "round u = round w"
  shows "h = k \<and> u = w"
proof -
  have I: "sys_inv C enc n H U D s" by (rule sys_run_inv [OF assms(1-3)])
  then have N: "nodes_ok C enc n H s" and A: "authored H s" by (simp_all add: sys_inv_def)
  have hk: "h = k" by (rule one_voice [OF N A assms(4-10)])
  have "unit_hash C u = h \<and> u \<in> U" "unit_hash C w = k \<and> w \<in> U"
    using I assms(4-7)
    by (auto simp: sys_inv_def nodes_ok_def node_ok_def tables_ok_def stored_row_def sys_holds_only_def holds_only_def)
  with hk show ?thesis using assms(2) by (auto simp: collision_free_def dest: inj_onD)
qed

theorem no_equivocation_witness: "(42 :: hash256) = 42 \<and> sample_unit = sample_unit"
  by (rule no_equivocation [OF sample_honest_set sample_collision_free sample_run sample_member(1) sample_stored
        sample_member(1) sample_stored]) (simp_all add: sample_unit_def sample_honest_def)

text \<open>
  C9. A node that crashed always comes back: replay from any part of its tables that holds its own
  units returns, without panic, and the system with the replayed engine is again one in which every
  invariant of a run holds.
\<close>

theorem restart_returns:
  assumes "honest_set n H" "collision_free C enc U D" "sys_run C enc n H sess kc U D s" "i \<in> H"
  shows "\<exists>e. replay C (surviving keep (s i)) = Some e \<and> sys_inv C enc n H U D (s(i := e))"
proof -
  have I: "sys_inv C enc n H U D s" by (rule sys_run_inv [OF assms(1-3)])
  then have N: "nodes_ok C enc n H s" and A: "authored H s" and O: "sys_holds_only H U D s"
    by (simp_all add: sys_inv_def)
  have w: "in_world H U D (s i)" by (rule sys_in_world [OF N A O assms(1,4)])
  have "node_ok C enc (s i)" using N assms(4) by (simp add: nodes_ok_def)
  from surviving_rows [OF this, of keep] obtain e where "replay C (surviving keep (s i)) = Some e"
    using replay_ok [OF assms(2) surviving_world [OF w], of keep] by auto
  with surviving_step [OF I assms(1,2,4)] show ?thesis by blast
qed

theorem restart_returns_witness:
  "\<exists>e. replay sample_crypto (surviving (\<lambda>_. False) (sample_state 0)) = Some e \<and>
     sys_inv sample_crypto enc_u8 (NumNodes 1) sample_honest {sample_unit} {[7]} (sample_state(0 := e))"
  by (rule restart_returns [OF sample_honest_set sample_collision_free sample_run sample_member(1)])

text \<open>
  C33. No message makes an honest node panic: in every state of a run, whatever anyone sends it, the
  node answers, by admitting a unit, by rejecting it or by serving the request, and every lookup
  that the handler, the cascade, the election and the emission take for granted succeeds.
\<close>

theorem handle_message_returns:
  assumes "honest_set n H" "collision_free C enc U D" "sys_run C enc n H sess kc U D s" "i \<in> H"
    "unforged C enc H s i (Receive sender msg now)"
    "\<And>env. msg = MUnit env \<Longrightarrow> unit env \<in> U \<and> payload env \<in> D"
  shows "\<exists>r e. handle_message C enc now sender msg (s i) = Some (r, e)"
  by (rule sys_handles_message [OF sys_run_inv [OF assms(1-3)] assms(1,2,4-6)])

theorem handle_message_returns_witness:
  "\<exists>r e. handle_message sample_crypto enc_u8 (\<lambda>_. 0) 0 (MUnit sample_envelope) (sample_state 1) = Some (r, e)"
proof (rule handle_message_returns [OF sample_honest_set sample_collision_free sample_run sample_member(2)])
  show "unforged sample_crypto enc_u8 sample_honest sample_state 1 (Receive 0 (MUnit sample_envelope) (\<lambda>_. 0))"
    using sample_stored by (auto simp: unforged_def delivered_def sample_envelope_def sample_hash)
      (simp_all add: sample_unit_def)
qed (simp add: sample_envelope_def)

text \<open>
  C34. The election refines its specification: in every state of a run \<open>choose_head\<close>, with its
  vote and decision caches, returns the head of the round exactly when the engine's view has one,
  and leaves sound caches.
\<close>

theorem election_refines_spec:
  assumes "honest_set n H" "collision_free C enc U D" "sys_run C enc n H sess kc U D s" "i \<in> H"
  shows "\<exists>res e. choose_head C r (s i) = Some (res, e) \<and> caches_ok C e \<and>
    (\<forall>h. res = Some h \<longrightarrow> is_head C (view_of (s i)) r h) \<and>
    (res = None \<longrightarrow> (\<forall>h. \<not> is_head C (view_of (s i)) r h))"
proof -
  have I: "sys_inv C enc n H U D s" by (rule sys_run_inv [OF assms(1-3)])
  then have K: "caches_ok C (s i)" using assms(4) by (simp add: sys_inv_def order_inv_def)
  have "nodes_ok C enc n H s" "authored H s" "sys_holds_only H U D s" using I by (simp_all add: sys_inv_def)
  then have "in_world H U D (s i)" by (rule sys_in_world [OF _ _ _ assms(1,4)])
  then have "consistent C (view_of (s i))" by (rule world_consistent [OF K])
  from choose_head_correct [OF K this [unfolded consistent_def], of r] obtain res e where
    "choose_head C r (s i) = Some (res, e)" "caches_ok C e"
    "case res of Some h \<Rightarrow> is_head C (view_of (s i)) r h | None \<Rightarrow> \<forall>h. \<not> is_head C (view_of (s i)) r h"
    by blast
  then show ?thesis by (cases res) auto
qed

theorem election_refines_spec_witness:
  "\<exists>res e. choose_head sample_crypto 0 (sample_state 0) = Some (res, e) \<and> caches_ok sample_crypto e \<and>
    (\<forall>h. res = Some h \<longrightarrow> is_head sample_crypto (view_of (sample_state 0)) 0 h) \<and>
    (res = None \<longrightarrow> (\<forall>h. \<not> is_head sample_crypto (view_of (sample_state 0)) 0 h))"
  by (rule election_refines_spec [OF sample_honest_set sample_collision_free sample_run sample_member(1)])

section \<open>The wire form\<close>

text \<open>
  The wire form of a unit of the broadcast DAG round-trips, and the decoder accepts no other
  bytes for it: every byte string that decodes to a unit is that unit's encoding.
\<close>

theorem unit_wire_roundtrip:
  assumes "ok_unit u"
  shows "consensus_decode dec_unit (enc_unit u) = Some u \<and>
    (\<forall>bs v. consensus_decode dec_unit bs = Some v \<longrightarrow> bs = enc_unit v)"
  using assms unitc.decode_encode unitc.decode_iff by blast

theorem unit_wire_roundtrip_witness:
  "consensus_decode dec_unit (enc_unit \<lparr>round = 3, creator = 1, parents = bt_empty, data = Some 7\<rparr>)
     = Some \<lparr>round = 3, creator = 1, parents = bt_empty, data = Some 7\<rparr>"
  by (rule unit_wire_roundtrip [THEN conjunct1]) (simp add: ok_unit_def bt_len_def)

end
