(* ===== verification/Outcome.thy ===== *)
theory Outcome
  imports Prelude
begin

text \<open>
  The result of a fallible operation of the daemon: a value, an error of the operation, or a
  panic (\<open>expect\<close>, \<open>assert!\<close>, an index out of range). \<open>obind\<close> is the sequencing of \<open>?\<close>.
\<close>

datatype ('e, 'a) outcome = Done 'a | Failed 'e | Panicked

fun obind :: "('e, 'a) outcome \<Rightarrow> ('a \<Rightarrow> ('e, 'b) outcome) \<Rightarrow> ('e, 'b) outcome" where
  "obind (Done x) f = f x"
| "obind (Failed e) f = Failed e"
| "obind Panicked f = Panicked"

definition ok_or :: "'e \<Rightarrow> 'a option \<Rightarrow> ('e, 'a) outcome" where
  "ok_or e x = (case x of None \<Rightarrow> Failed e | Some y \<Rightarrow> Done y)"

definition ensure :: "bool \<Rightarrow> 'e \<Rightarrow> ('e, unit) outcome" where
  "ensure b e = (if b then Done () else Failed e)"

definition expect :: "'a option \<Rightarrow> ('e, 'a) outcome" where
  "expect x = (case x of None \<Rightarrow> Panicked | Some y \<Rightarrow> Done y)"

definition assert_that :: "bool \<Rightarrow> ('e, unit) outcome" where
  "assert_that b = (if b then Done () else Panicked)"

fun map_err :: "('e \<Rightarrow> 'f) \<Rightarrow> ('e, 'a) outcome \<Rightarrow> ('f, 'a) outcome" where
  "map_err f (Done x) = Done x"
| "map_err f (Failed e) = Failed (f e)"
| "map_err f Panicked = Panicked"

lemma obind_Done_iff: "obind x f = Done y \<longleftrightarrow> (\<exists>z. x = Done z \<and> f z = Done y)"
  by (cases x) auto

lemma obind_Panicked_iff: "obind x f = Panicked \<longleftrightarrow> x = Panicked \<or> (\<exists>z. x = Done z \<and> f z = Panicked)"
  by (cases x) auto

lemma ok_or_iff [simp]:
  "ok_or e x = Done y \<longleftrightarrow> x = Some y" "ok_or e x = Failed e' \<longleftrightarrow> x = None \<and> e' = e" "ok_or e x \<noteq> Panicked"
  by (auto simp: ok_or_def split: option.splits)

lemma ensure_iff [simp]:
  "ensure b e = Done u \<longleftrightarrow> b" "ensure b e = Failed e' \<longleftrightarrow> \<not> b \<and> e' = e" "ensure b e \<noteq> Panicked"
  by (auto simp: ensure_def)

lemma expect_iff [simp]:
  "expect x = Done y \<longleftrightarrow> x = Some y" "expect x \<noteq> Failed e" "expect x = Panicked \<longleftrightarrow> x = None"
  by (auto simp: expect_def split: option.splits)

lemma assert_that_iff [simp]:
  "assert_that b = Done u \<longleftrightarrow> b" "assert_that b \<noteq> Failed e" "assert_that b = Panicked \<longleftrightarrow> \<not> b"
  by (auto simp: assert_that_def)

lemma map_err_iff [simp]:
  "map_err f x = Done y \<longleftrightarrow> x = Done y" "map_err f x = Panicked \<longleftrightarrow> x = Panicked"
  by (cases x; simp)+

text \<open>A loop of fallible steps over a state, stopping at the first that does not succeed.\<close>

fun ofold :: "('a \<Rightarrow> 's \<Rightarrow> ('e, 's) outcome) \<Rightarrow> 'a list \<Rightarrow> 's \<Rightarrow> ('e, 's) outcome" where
  "ofold f [] s = Done s"
| "ofold f (x # xs) s = obind (f x s) (ofold f xs)"

lemma ofold_append: "ofold f (xs @ ys) s = obind (ofold f xs s) (ofold f ys)"
proof (induction xs arbitrary: s)
  case (Cons x xs)
  then show ?case by (cases "f x s") auto
qed simp

text \<open>An invariant of the state that every step keeps is kept by the loop.\<close>

lemma ofold_inv:
  assumes "\<And>x s s'. x \<in> set xs \<Longrightarrow> I s \<Longrightarrow> f x s = Done s' \<Longrightarrow> I s'"
  shows "I s \<Longrightarrow> ofold f xs s = Done s' \<Longrightarrow> I s'"
  using assms
proof (induction xs arbitrary: s)
  case (Cons x xs)
  from Cons.prems(2) obtain s1 where "f x s = Done s1" "ofold f xs s1 = Done s'"
    by (auto simp: obind_Done_iff)
  with Cons.IH [of s1] Cons.prems(1,3) show ?case by (metis list.set_intros(1,2))
qed simp

lemma ofold_no_panic:
  assumes "\<And>x s. x \<in> set xs \<Longrightarrow> I s \<Longrightarrow> f x s \<noteq> Panicked"
    and "\<And>x s s'. x \<in> set xs \<Longrightarrow> I s \<Longrightarrow> f x s = Done s' \<Longrightarrow> I s'"
  shows "I s \<Longrightarrow> ofold f xs s \<noteq> Panicked"
  using assms
proof (induction xs arbitrary: s)
  case (Cons x xs)
  have "f x s \<noteq> Panicked" using Cons.prems(1,2) by simp
  moreover have "ofold f xs s1 \<noteq> Panicked" if "f x s = Done s1" for s1
    using Cons.IH [of s1] Cons.prems that by (metis list.set_intros(1,2))
  ultimately show ?case by (auto simp: obind_Panicked_iff)
qed simp

end
