(* ===== verification/Server_Types.thy ===== *)
theory Server_Types
  imports Outcome Bft_Unit
begin

text \<open>
  The wire types of the mint's three modules and of its transactions
  (\<open>picomint-core/src/{ecash,lightning,onchain}\<close>, \<open>wire.rs\<close>, \<open>tx.rs\<close>, \<open>lib.rs\<close>), their
  encodings as far as a transaction id depends on them, and the daemon's configuration. Group
  elements, keys and signatures are their fixed-width serialisations; the operations on them are
  foreign code and fields of \<open>mint_ops\<close>.
\<close>

type_synonym xonly = hash256          \<comment> \<open>an x-only public key, 32 bytes\<close>
type_synonym schnorr_sig = "512 word"  \<comment> \<open>64 bytes\<close>
type_synonym blinded_nonce = "384 word" \<comment> \<open>a compressed G1 point\<close>
type_synonym tbs_sig = "384 word"
type_synonym tbs_share = "384 word"
type_synonym tbs_agg_pk = "768 word"   \<comment> \<open>a compressed G2 point\<close>
type_synonym scalar = "256 word"
type_synonym secp_pk = "264 word"      \<comment> \<open>a compressed secp256k1 point\<close>
type_synonym tss_nonce = "528 word"    \<comment> \<open>two points\<close>
type_synonym tss_share = scalar
type_synonym sats = u64
type_synonym script = bytes

section \<open>Outpoints\<close>

datatype out_point = OutPoint (op_txid: hash256) (op_idx: u16)

instantiation out_point :: linorder
begin

definition less_eq_out_point :: "out_point \<Rightarrow> out_point \<Rightarrow> bool" where
  "p \<le> q \<longleftrightarrow> op_txid p < op_txid q \<or> op_txid p = op_txid q \<and> op_idx p \<le> op_idx q"

definition less_out_point :: "out_point \<Rightarrow> out_point \<Rightarrow> bool" where
  "p < q \<longleftrightarrow> op_txid p < op_txid q \<or> op_txid p = op_txid q \<and> op_idx p < op_idx q"

instance
  by standard
    (auto simp: less_eq_out_point_def less_out_point_def out_point.expand intro: out_point.expand)

end

definition enc_out_point :: "out_point \<Rightarrow> bytes" where
  "enc_out_point p = enc_hash (op_txid p) @ enc_u16 (op_idx p)"

section \<open>Ecash\<close>

record ecash_note =
  denomination :: u8
  nonce :: xonly
  note_sig :: tbs_sig

datatype ecash_input = EcashInput (ei_note: ecash_note)

datatype ecash_output = EcashOutput (eo_denomination: u8) (eo_nonce: blinded_nonce)

datatype ecash_input_error = SpentCoin | InvalidDenomination | InvalidNoteSignature

datatype ecash_output_error = ReusedNonce | InvalidOutputDenomination

definition ECASH_INPUT_FEE :: amount where "ECASH_INPUT_FEE = Amount 100"

definition ECASH_OUTPUT_FEE :: amount where "ECASH_OUTPUT_FEE = Amount 100"

text \<open>
  \<open>Amount(1 << self.0 as usize)\<close>: the shift distance of a release build is taken modulo 64.
\<close>

definition denomination_amount :: "u8 \<Rightarrow> amount" where
  "denomination_amount d = Amount (push_bit (unat d mod 64) 1)"

definition consensus_denominations :: "u8 list" where
  "consensus_denominations = map of_nat [0..<42]"

definition client_denominations :: "u8 list" where
  "client_denominations = map of_nat [9..<42]"

definition enc_note :: "ecash_note \<Rightarrow> bytes" where
  "enc_note x = enc_u8 (denomination x) @ enc_hash (nonce x) @ enc_int (note_sig x)"

fun enc_ecash_input :: "ecash_input \<Rightarrow> bytes" where
  "enc_ecash_input (EcashInput x) = enc_note x"

fun enc_ecash_output :: "ecash_output \<Rightarrow> bytes" where
  "enc_ecash_output (EcashOutput d b) = enc_u8 d @ enc_int b"

section \<open>Lightning\<close>

record incoming_contract =
  ic_amount :: amount
  ic_fee :: amount
  ic_claim_pk :: xonly
  ephemeral_pk :: secp_pk

record outgoing_contract =
  payment_hash :: hash256
  oc_amount :: amount
  oc_fee :: amount
  oc_claim_pk :: xonly
  refund_pk :: xonly
  invoice :: hash256

datatype outgoing_witness = Claim hash256 | Cancel schnorr_sig

datatype lightning_input = OutgoingInput out_point outgoing_witness | IncomingInput out_point

datatype lightning_output = OutgoingOutput outgoing_contract | IncomingOutput incoming_contract

datatype lightning_input_error =
  UnknownContract | InvalidPreimage | InvalidForfeitSignature | LightningInputOverflow

datatype lightning_output_error = LightningOutputOverflow

definition LIGHTNING_INPUT_FEE :: amount where "LIGHTNING_INPUT_FEE = Amount 100"

definition LIGHTNING_OUTPUT_FEE :: amount where "LIGHTNING_OUTPUT_FEE = amount_from_sat 1"

definition enc_amount :: "amount \<Rightarrow> bytes" where
  "enc_amount a = enc_u64 (msat a)"

definition enc_incoming_contract :: "incoming_contract \<Rightarrow> bytes" where
  "enc_incoming_contract c =
     enc_amount (ic_amount c) @ enc_amount (ic_fee c) @ enc_hash (ic_claim_pk c) @ enc_int (ephemeral_pk c)"

definition enc_outgoing_contract :: "outgoing_contract \<Rightarrow> bytes" where
  "enc_outgoing_contract c =
     enc_hash (payment_hash c) @ enc_amount (oc_amount c) @ enc_amount (oc_fee c) @
     enc_hash (oc_claim_pk c) @ enc_hash (refund_pk c) @ enc_hash (invoice c)"

fun enc_outgoing_witness :: "outgoing_witness \<Rightarrow> bytes" where
  "enc_outgoing_witness (Claim p) = enc_u8 0 @ enc_hash p"
| "enc_outgoing_witness (Cancel s) = enc_u8 1 @ enc_int s"

fun enc_lightning_input :: "lightning_input \<Rightarrow> bytes" where
  "enc_lightning_input (OutgoingInput p w) = enc_u8 0 @ enc_out_point p @ enc_outgoing_witness w"
| "enc_lightning_input (IncomingInput p) = enc_u8 1 @ enc_out_point p"

fun enc_lightning_output :: "lightning_output \<Rightarrow> bytes" where
  "enc_lightning_output (OutgoingOutput c) = enc_u8 0 @ enc_outgoing_contract c"
| "enc_lightning_output (IncomingOutput c) = enc_u8 1 @ enc_incoming_contract c"

section \<open>Onchain\<close>

datatype btc_outpoint = BtcOutPoint (bo_txid: hash256) (bo_vout: u32)

record tx_out =
  to_value :: sats
  script_pubkey :: script

record tx_in =
  previous_output :: btc_outpoint
  witness :: "bytes option"  \<comment> \<open>the key-spend signature once signed\<close>

record btc_tx =
  btc_inputs :: "tx_in list"
  btc_outputs :: "tx_out list"

datatype standard_script =
    P2PKH "160 word" | P2SH "160 word" | P2WPKH "160 word" | P2WSH hash256 | P2TR xonly

record onchain_input =
  output_index :: u64
  oi_tweak :: xonly
  oi_fee :: sats

record onchain_output =
  destination :: standard_script
  oo_value :: sats
  oo_fee :: sats

datatype onchain_input_error =
    OutputAlreadySpent | UnknownOutputIndex | WrongTweak | NoFeerateIn | InsufficientFeeIn
  | OverflowIn | PendingTransactionIn

datatype onchain_output_error =
    UnderDustLimit | NoMintUtxo | NoFeerateOut | InsufficientFeeOut | ChangeUnderDustLimit
  | OverflowOut | PendingTransactionOut

definition ONCHAIN_FEERATE_BASE :: u32 where "ONCHAIN_FEERATE_BASE = 250"

definition ONCHAIN_DUST_LIMIT :: sats where "ONCHAIN_DUST_LIMIT = 10000"

definition ONCHAIN_INPUT_FEE :: amount where "ONCHAIN_INPUT_FEE = amount_from_sat 10"

definition ONCHAIN_OUTPUT_FEE :: amount where "ONCHAIN_OUTPUT_FEE = amount_from_sat 10"

definition enc_onchain_input :: "onchain_input \<Rightarrow> bytes" where
  "enc_onchain_input i = enc_u64 (output_index i) @ enc_hash (oi_tweak i) @ enc_u64 (oi_fee i)"

fun enc_standard_script :: "standard_script \<Rightarrow> bytes" where
  "enc_standard_script (P2PKH h) = enc_u8 0 @ enc_int h"
| "enc_standard_script (P2SH h) = enc_u8 1 @ enc_int h"
| "enc_standard_script (P2WPKH h) = enc_u8 2 @ enc_int h"
| "enc_standard_script (P2WSH h) = enc_u8 3 @ enc_hash h"
| "enc_standard_script (P2TR k) = enc_u8 4 @ enc_hash k"

definition enc_onchain_output :: "onchain_output \<Rightarrow> bytes" where
  "enc_onchain_output x =
     enc_standard_script (destination x) @ enc_u64 (oo_value x) @ enc_u64 (oo_fee x)"

section \<open>Transactions\<close>

datatype wire_input = EcashIn ecash_input | OnchainIn onchain_input | LightningIn lightning_input

datatype wire_output = EcashOut ecash_output | OnchainOut onchain_output | LightningOut lightning_output

datatype input_error =
    EcashInputError ecash_input_error | OnchainInputError onchain_input_error
  | LightningInputError lightning_input_error

datatype output_error =
    EcashOutputError ecash_output_error | OnchainOutputError onchain_output_error
  | LightningOutputError lightning_output_error

record transaction =
  tx_inputs :: "wire_input list"
  tx_outputs :: "wire_output list"
  tx_signatures :: "schnorr_sig list"

datatype tx_error =
    EmptyInputs | EmptyOutputs | TooManyInputs | TooManyOutputs | Underfunded | TxOverflow
  | InvalidWitnessLength | InvalidSignature | TxInput input_error | TxOutput output_error

definition MAX_INPUTS :: nat where "MAX_INPUTS = 1024"

definition MAX_OUTPUTS :: nat where "MAX_OUTPUTS = 1024"

fun enc_wire_input :: "wire_input \<Rightarrow> bytes" where
  "enc_wire_input (EcashIn i) = enc_u8 0 @ enc_ecash_input i"
| "enc_wire_input (OnchainIn i) = enc_u8 1 @ enc_onchain_input i"
| "enc_wire_input (LightningIn i) = enc_u8 2 @ enc_lightning_input i"

fun enc_wire_output :: "wire_output \<Rightarrow> bytes" where
  "enc_wire_output (EcashOut x) = enc_u8 0 @ enc_ecash_output x"
| "enc_wire_output (OnchainOut x) = enc_u8 1 @ enc_onchain_output x"
| "enc_wire_output (LightningOut x) = enc_u8 2 @ enc_lightning_output x"

definition enc_transaction :: "transaction \<Rightarrow> bytes" where
  "enc_transaction tx =
     enc_vec enc_wire_input (tx_inputs tx) @ enc_vec enc_wire_output (tx_outputs tx) @
     enc_vec enc_int (tx_signatures tx)"

end
