(* ===== verification/Wallet_Types.thy ===== *)
theory Wallet_Types
  imports Server_Types
begin

text \<open>
  The data of the mint's Bitcoin wallet: its tables
  (\<open>picomint-node-daemon/src/consensus/onchain/db.rs\<close>), the types of
  \<open>picomint-core/src/onchain/mod.rs\<close>, the tweaked keys, and the secret derivation tree of
  \<open>picomint-core/src/secret.rs\<close>. The Bitcoin and secp256k1 libraries and the threshold
  signatures the module calls are the fields of \<open>wallet_ops\<close>.
\<close>

section \<open>Foreign operations\<close>

text \<open>
  \<open>add_exp_tweak\<close> fails when the sum is the point at infinity, \<open>taproot_sighash\<close> when the input
  index is out of range. The secret nonces of a signing session are of type \<open>bytes\<close>.
\<close>

record wallet_ops =
  add_exp_tweak :: "secp_pk \<Rightarrow> hash256 \<Rightarrow> secp_pk option"
  add_tweak :: "scalar \<Rightarrow> hash256 \<Rightarrow> scalar option"
  x_only :: "secp_pk \<Rightarrow> xonly"
  new_p2tr :: "xonly \<Rightarrow> script"
  new_p2pkh :: "160 word \<Rightarrow> script"
  new_p2sh :: "160 word \<Rightarrow> script"
  new_p2wpkh :: "160 word \<Rightarrow> script"
  new_p2wsh :: "hash256 \<Rightarrow> script"
  is_p2tr :: "script \<Rightarrow> bool"
  compute_txid :: "btc_tx \<Rightarrow> hash256"
  taproot_sighash :: "btc_tx \<Rightarrow> tx_out list \<Rightarrow> nat \<Rightarrow> hash256 option"
  tss_verify_share :: "hash256 \<Rightarrow> u64 \<Rightarrow> secp_pk \<Rightarrow> tss_share \<Rightarrow> (u64, tss_nonce) btmap \<Rightarrow> secp_pk \<Rightarrow> bool"
  tss_aggregate :: "hash256 \<Rightarrow> (u64, tss_nonce) btmap \<Rightarrow> (u64, tss_share) btmap \<Rightarrow> secp_pk \<Rightarrow> schnorr_sig"
  tss_verify :: "hash256 \<Rightarrow> schnorr_sig \<Rightarrow> secp_pk \<Rightarrow> bool"
  tss_sign_share :: "hash256 \<Rightarrow> scalar \<Rightarrow> bytes \<Rightarrow> (u64, tss_nonce) btmap \<Rightarrow> u64 \<Rightarrow> secp_pk \<Rightarrow> tss_share"
  derive_nonce :: "hash256 \<Rightarrow> bytes"
  derive_public_nonce :: "bytes \<Rightarrow> tss_nonce"

record onchain_config =
  onchain_pks :: "(node_id, secp_pk) btmap"
  onchain_agg_pk :: secp_pk
  onchain_sks :: scalar
  own_identity :: node_id

definition CURVE_ORDER :: nat where
  "CURVE_ORDER = 0xFFFFFFFFFFFFFFFFFFFFFFFFFFFFFFFEBAAEDCE6AF48A03BBFD25E8CD0364141"

text \<open>\<open>tweak_public_key\<close>; \<open>None\<close> is a panic, of \<open>Scalar::from_be_bytes\<close> or of the tweak.\<close>

definition tweak_public_key :: "wallet_ops \<Rightarrow> secp_pk \<Rightarrow> hash256 \<Rightarrow> secp_pk option" where
  "tweak_public_key W pk t = (if unat t < CURVE_ORDER then add_exp_tweak W pk t else None)"

definition tweaked_output_key :: "wallet_ops \<Rightarrow> secp_pk \<Rightarrow> hash256 \<Rightarrow> xonly option" where
  "tweaked_output_key W pk t = map_option (x_only W) (tweak_public_key W pk t)"

definition tweaked_script_pubkey :: "wallet_ops \<Rightarrow> secp_pk \<Rightarrow> hash256 \<Rightarrow> script option" where
  "tweaked_script_pubkey W pk t = map_option (new_p2tr W) (tweaked_output_key W pk t)"

definition script_pubkey_of :: "wallet_ops \<Rightarrow> onchain_config \<Rightarrow> hash256 \<Rightarrow> script option" where
  "script_pubkey_of W cfg t = tweaked_script_pubkey W (onchain_agg_pk cfg) t"

definition tweaked_sks :: "wallet_ops \<Rightarrow> onchain_config \<Rightarrow> hash256 \<Rightarrow> scalar option" where
  "tweaked_sks W cfg t = (if unat t < CURVE_ORDER then add_tweak W (onchain_sks cfg) t else None)"

definition tweaked_pks :: "wallet_ops \<Rightarrow> onchain_config \<Rightarrow> node_id \<Rightarrow> hash256 \<Rightarrow> secp_pk option" where
  "tweaked_pks W cfg p t = Option.bind (bt_get (onchain_pks cfg) p) (\<lambda>pk. tweak_public_key W pk t)"

definition tweaked_agg_pk :: "wallet_ops \<Rightarrow> onchain_config \<Rightarrow> hash256 \<Rightarrow> secp_pk option" where
  "tweaked_agg_pk W cfg t = tweak_public_key W (onchain_agg_pk cfg) t"

fun standard_script_pubkey :: "wallet_ops \<Rightarrow> standard_script \<Rightarrow> script" where
  "standard_script_pubkey W (P2PKH h) = new_p2pkh W h"
| "standard_script_pubkey W (P2SH h) = new_p2sh W h"
| "standard_script_pubkey W (P2WPKH h) = new_p2wpkh W h"
| "standard_script_pubkey W (P2WSH h) = new_p2wsh W h"
| "standard_script_pubkey W (P2TR k) = new_p2tr W k"

text \<open>The receive filter: the first two bytes of the hash of key hash and script are zero.\<close>

definition is_potential_receive :: "crypto \<Rightarrow> hash256 \<Rightarrow> script \<Rightarrow> bool" where
  "is_potential_receive C pks_hash s =
     list_all (\<lambda>b. b = 0) (take 2 (enc_hash (sha256 C (enc_hash pks_hash @ enc_byte_vec s))))"

section \<open>Wallet data\<close>

record spent_tx_out =
  st_value :: sats
  st_tweak :: hash256

record mint_tx =
  mtx :: btc_tx
  spent_tx_outs :: "spent_tx_out list"
  vbytes :: u64
  mtx_fee :: sats

record wallet_utxo =
  mu_value :: sats
  mu_outpoint :: btc_outpoint
  mu_tweak :: hash256

definition enc_btc_outpoint :: "btc_outpoint \<Rightarrow> bytes" where
  "enc_btc_outpoint p = enc_hash (bo_txid p) @ enc_u32 (bo_vout p)"

definition enc_wallet_utxo :: "wallet_utxo \<Rightarrow> bytes" where
  "enc_wallet_utxo u = enc_u64 (mu_value u) @ enc_btc_outpoint (mu_outpoint u) @ enc_hash (mu_tweak u)"

definition utxo_hash :: "crypto \<Rightarrow> wallet_utxo \<Rightarrow> hash256" where
  "utxo_hash C u = sha256 C (enc_wallet_utxo u)"

definition tweak_hash :: "crypto \<Rightarrow> xonly \<Rightarrow> hash256" where
  "tweak_hash C t = sha256 C (enc_hash t)"

record tx_info =
  ti_index :: u64
  ti_txid :: hash256
  ti_input :: sats
  ti_output :: sats
  ti_fee :: sats
  ti_vbytes :: u64
  created :: u32

definition tx_info_feerate :: "tx_info \<Rightarrow> u64" where
  "tx_info_feerate i = ti_fee i div ti_vbytes i"

record tracked_output =
  tr_outpoint :: btc_outpoint
  tr_out :: tx_out

record block_tx =
  bt_txid :: hash256
  bt_outputs :: "(u32 \<times> tx_out) list"

record block_vote =
  bv_height :: u32
  bv_txs :: "block_tx list"

datatype nonce_entry = NonceEntry (ne_node: node_id) (ne_nonces: "tss_nonce list")

datatype onchain_item =
    BlockItem block_vote
  | FeerateItem "u32 option"
  | NoncesItem hash256 "tss_nonce list"
  | SharesItem hash256 "tss_share list" "tss_nonce list"

record output_info =
  oi_index :: u64
  oi_script :: script
  oi_value :: sats
  oi_spent :: bool

record onchain_db =
  tracked_outputs :: "(u64, tracked_output) btmap"
  block_height :: "u32 option"
  block_votes :: "(node_id, block_vote) btmap"
  spent_outputs :: "u64 btset"
  mint_row :: "wallet_utxo option"
  tx_infos :: "(u64, tx_info) btmap"
  tx_info_index :: "(out_point, u64) btmap"
  unsigned_row :: "mint_tx option"
  nonce_log :: "(u64, nonce_entry) btmap"
  share_rows :: "(u64, tss_share list) btmap"
  unconfirmed :: "(hash256, mint_tx) btmap"
  feerate_votes :: "(node_id, u32 option) btmap"

text \<open>
  The index the next row of a dense table gets: \<open>iter_rev(.. r.next().map_or(0, |e| e.0 + 1))\<close>,
  wrapping as the addition of a release build does.
\<close>

definition next_index :: "(u64, 'v) btmap \<Rightarrow> u64" where
  "next_index m = (case bt_last m of None \<Rightarrow> 0 | Some (k, v) \<Rightarrow> k + 1)"

text \<open>A table whose keys are \<open>0, 1, 2, ...\<close> without a gap.\<close>

definition dense :: "(u64, 'v) btmap \<Rightarrow> bool" where
  "dense m \<longleftrightarrow> bt_len m < 2 ^ 64 \<and> bt_keys m = map of_nat [0..<bt_len m]"

lemma inj_of_nat_u64: "inj_on (of_nat :: nat \<Rightarrow> u64) {0..<n}" if "n \<le> 2 ^ 64"
  using that by (auto simp: inj_on_def word_of_nat_eq_iff take_bit_eq_mod)

lemma sorted_of_nat_u64: "n \<le> 2 ^ 64 \<Longrightarrow> sorted_wrt (<) (map (of_nat :: nat \<Rightarrow> u64) [0..<n])"
  by (auto simp: sorted_wrt_iff_nth_less word_less_nat_alt unat_of_nat)

lemma set_of_nat_u64:
  assumes "n \<le> 2 ^ 64"
  shows "of_nat ` {0..<n} = {k :: u64. unat k < n}"
proof -
  have "k \<in> of_nat ` {0..<n}" if "unat k < n" for k :: u64
    using that by (intro image_eqI [of _ _ "unat k"]) auto
  moreover have "unat (of_nat i :: u64) < n" if "i < n" for i
    using that assms by (simp add: unat_of_nat)
  ultimately show ?thesis by auto
qed

lemma dense_iff:
  "dense m \<longleftrightarrow> bt_len m < 2 ^ 64 \<and> (\<forall>k. bt_get m k \<noteq> None \<longleftrightarrow> unat k < bt_len m)"
proof -
  have "bt_keys m = map of_nat [0..<bt_len m] \<longleftrightarrow> (\<forall>k. bt_get m k \<noteq> None \<longleftrightarrow> unat k < bt_len m)"
    if n: "bt_len m < 2 ^ 64"
  proof
    assume "bt_keys m = map of_nat [0..<bt_len m]"
    then have "set (bt_keys m) = of_nat ` {0..<bt_len m}" by simp
    then show "\<forall>k. bt_get m k \<noteq> None \<longleftrightarrow> unat k < bt_len m"
      using set_of_nat_u64 [of "bt_len m"] n set_bt_keys [of m] by auto
  next
    assume "\<forall>k. bt_get m k \<noteq> None \<longleftrightarrow> unat k < bt_len m"
    then have "set (bt_keys m) = set (map of_nat [0..<bt_len m])"
      using set_of_nat_u64 [of "bt_len m"] n set_bt_keys [of m] by auto
    then show "bt_keys m = map of_nat [0..<bt_len m]"
      by (intro sorted_distinct_set_unique)
        (use sorted_of_nat_u64 [of "bt_len m"] n bt_keys_strict_sorted [of m] in
          \<open>auto simp: strict_sorted_iff\<close>)
  qed
  then show ?thesis by (auto simp: dense_def)
qed

lemma dense_get: "dense m \<Longrightarrow> bt_get m k \<noteq> None \<longleftrightarrow> unat k < bt_len m"
  by (simp add: dense_iff)

lemma dense_SomeD: "dense m \<Longrightarrow> bt_get m k = Some v \<Longrightarrow> unat k < bt_len m"
  using dense_get [of m k] by simp

lemma dense_empty [simp]: "dense bt_empty"
  by (simp add: dense_iff)

lemma next_index_dense: "dense m \<Longrightarrow> next_index m = of_nat (bt_len m)"
proof -
  assume d: "dense m"
  show ?thesis
  proof (cases "entries m = []")
    case True
    then show ?thesis by (simp add: next_index_def bt_last_def bt_len_def)
  next
    case False
    have "fst (last (entries m)) = last (bt_keys m)"
      using False by (simp add: bt_keys_def last_map)
    also have "\<dots> = of_nat (bt_len m - 1)"
      using d False by (simp add: dense_def last_map bt_len_def)
    finally have "fst (last (entries m)) + 1 = of_nat (bt_len m - 1 + 1)" by simp
    then show ?thesis
      using False by (cases "last (entries m)") (simp add: next_index_def bt_last_def bt_len_def)
  qed
qed

lemma dense_next_None: "dense m \<Longrightarrow> bt_get m (next_index m) = None"
  using dense_get [of m "next_index m"] by (auto simp: next_index_dense dense_def unat_of_nat)

text \<open>Appending a row keeps the table dense while its index does not wrap.\<close>

lemma dense_append:
  assumes d: "dense m" and room: "next_index m \<noteq> - 1"
  shows "dense (bt_insert (next_index m) v m)" "bt_len (bt_insert (next_index m) v m) = bt_len m + 1"
proof -
  have n: "bt_len m < 2 ^ 64" using d by (simp add: dense_def)
  have "bt_len m \<noteq> 2 ^ 64 - 1"
    using room by (auto simp: next_index_dense [OF d] simp flip: word_unat_eq_iff)
  with n have n1: "bt_len m + 1 < 2 ^ 64" by simp
  show l: "bt_len (bt_insert (next_index m) v m) = bt_len m + 1"
    by (rule bt_len_insert) (rule dense_next_None [OF d])
  have "k = next_index m \<or> unat k < bt_len m \<longleftrightarrow> unat k < bt_len m + 1" for k
    using n by (auto simp: next_index_dense [OF d] unat_of_nat less_Suc_eq word_unat_eq_iff)
  then show "dense (bt_insert (next_index m) v m)"
    using n1 dense_get [OF d] l by (auto simp: dense_iff)
qed

end
