(* ===== verification/Onchain_Server.thy ===== *)
theory Onchain_Server
  imports Wallet_Types
begin

text \<open>
  The onchain module of the daemon (\<open>picomint-node-daemon/src/consensus/onchain/mod.rs\<close>): block
  and feerate votes, deposits and withdrawals, the consensus fee, the nonce log and the signing
  sessions. A function that may panic returns an \<open>outcome\<close>; the panics are the \<open>expect\<close>s and
  \<open>assert!\<close>s of the code.
\<close>

section \<open>The size of the mint\<close>

definition onchain_nodes :: "onchain_config \<Rightarrow> ('e, num_nodes) outcome" where
  "onchain_nodes cfg = expect (to_num_nodes (onchain_pks cfg))"

definition onchain_threshold :: "onchain_config \<Rightarrow> ('e, nat) outcome" where
  "onchain_threshold cfg = obind (onchain_nodes cfg) (\<lambda>n. Done (threshold n))"

section \<open>Fees\<close>

definition SEND_TX_VBYTES :: u64 where "SEND_TX_VBYTES = 154"

definition RECEIVE_TX_VBYTES :: u64 where "RECEIVE_TX_VBYTES = 169"

definition MIN_FEERATE_SATS_PER_KVB :: u32 where "MIN_FEERATE_SATS_PER_KVB = 1000"

definition pending_txs_unordered :: "onchain_db \<Rightarrow> mint_tx list" where
  "pending_txs_unordered db =
     (case unsigned_row db of None \<Rightarrow> [] | Some t \<Rightarrow> [t]) @ bt_values (unconfirmed db)"

text \<open>\<open>assert!(rates.first() <= rates.last())\<close> compares options, \<open>None\<close> first.\<close>

definition consensus_feerate :: "onchain_config \<Rightarrow> onchain_db \<Rightarrow> ('e, u32 option) outcome" where
  "consensus_feerate cfg db =
     obind (onchain_nodes cfg) (\<lambda>n.
     let rates = sort (List.map_filter id (bt_values (feerate_votes db)))
     in obind (assert_that (length rates \<le> total n)) (\<lambda>_.
        obind (assert_that (rates = [] \<or> hd rates \<le> last rates)) (\<lambda>_.
        Done (if threshold n - 1 < length rates then Some (rates ! (threshold n - 1)) else None))))"

text \<open>\<open>iter.try_fold(tx_vbytes, u64::checked_add)\<close>\<close>

fun checked_sum :: "u64 \<Rightarrow> u64 list \<Rightarrow> u64 option" where
  "checked_sum a [] = Some a"
| "checked_sum a (x # xs) = Option.bind (checked_add a x) (\<lambda>b. checked_sum b xs)"

definition consensus_fee :: "onchain_config \<Rightarrow> onchain_db \<Rightarrow> u64 \<Rightarrow> ('e, sats option) outcome" where
  "consensus_fee cfg db tx_vbytes =
     (let pending = pending_txs_unordered db
      in obind (assert_that (length pending \<le> 32)) (\<lambda>_.
         obind (consensus_feerate cfg db) (\<lambda>rate.
         case rate of
           None \<Rightarrow> Done None
         | Some r \<Rightarrow>
             (let feerate = max (ucast r) (push_bit (length pending) (ucast ONCHAIN_FEERATE_BASE));
                  tx_fee = saturating_mul tx_vbytes feerate div 1000
              in obind (expect (checked_sum tx_vbytes (map vbytes pending))) (\<lambda>stack_vbytes.
                 let stack_fee = saturating_mul stack_vbytes feerate div 1000;
                     stack_fee' = fold (\<lambda>t acc. saturating_sub acc (mtx_fee t)) pending stack_fee
                 in Done (Some (max tx_fee stack_fee')))))))"

definition send_fee :: "onchain_config \<Rightarrow> onchain_db \<Rightarrow> ('e, sats option) outcome" where
  "send_fee cfg db = consensus_fee cfg db SEND_TX_VBYTES"

definition receive_fee :: "onchain_config \<Rightarrow> onchain_db \<Rightarrow> ('e, sats option) outcome" where
  "receive_fee cfg db = consensus_fee cfg db RECEIVE_TX_VBYTES"

section \<open>Deposits and withdrawals\<close>

definition total_txs :: "onchain_db \<Rightarrow> u64" where
  "total_txs db = next_index (tx_infos db)"

definition unsigned_input :: "btc_outpoint \<Rightarrow> tx_in" where
  "unsigned_input p = \<lparr>previous_output = p, witness = None\<rparr>"

text \<open>
  Spend the wallet's UTXO, and the given further outputs, into a fresh one of the given value: the
  new mint row, the transaction's log row and the transaction to sign. The code has this twice,
  for a deposit and for a withdrawal.
\<close>

definition wallet_tx ::
  "crypto \<Rightarrow> wallet_ops \<Rightarrow> onchain_config \<Rightarrow> wallet_utxo \<Rightarrow> btc_outpoint list \<Rightarrow>
   tx_out list \<Rightarrow> sats \<Rightarrow> ('e, btc_tx) outcome" where
  "wallet_tx C W cfg wallet ins outs change =
     obind (expect (script_pubkey_of W cfg (utxo_hash C wallet))) (\<lambda>scr.
     Done \<lparr>btc_inputs = map unsigned_input (mu_outpoint wallet # ins),
           btc_outputs = \<lparr>to_value = change, script_pubkey = scr\<rparr> # outs\<rparr>)"

definition wallet_rows ::
  "crypto \<Rightarrow> wallet_ops \<Rightarrow> wallet_utxo \<Rightarrow> btc_tx \<Rightarrow> spent_tx_out list \<Rightarrow> sats \<Rightarrow> u64 \<Rightarrow> sats \<Rightarrow> u32 \<Rightarrow>
   onchain_db \<Rightarrow> onchain_db" where
  "wallet_rows C W wallet tx spent change vb fee height db =
     db\<lparr>mint_row := Some \<lparr>mu_value = change, mu_outpoint = BtcOutPoint (compute_txid W tx) 0,
          mu_tweak = utxo_hash C wallet\<rparr>,
        tx_infos := bt_insert (total_txs db)
          \<lparr>ti_index = total_txs db, ti_txid = compute_txid W tx, ti_input = mu_value wallet,
           ti_output = change, ti_fee = fee, ti_vbytes = vb, created = height\<rparr> (tx_infos db),
        unsigned_row := Some
          \<lparr>mtx = tx, spent_tx_outs = \<lparr>st_value = mu_value wallet, st_tweak = mu_tweak wallet\<rparr> # spent,
           vbytes = vb, mtx_fee = fee\<rparr>\<rparr>"

text \<open>
  \<open>height\<close> is what \<open>consensus_block_height\<close> returns, \<open>None\<close> when it panics. Spending the wallet's
  UTXO of a deposit into the next one:
\<close>

definition receive_into ::
  "crypto \<Rightarrow> wallet_ops \<Rightarrow> onchain_config \<Rightarrow> u32 option \<Rightarrow> onchain_input \<Rightarrow> tracked_output \<Rightarrow> sats \<Rightarrow>
   onchain_db \<Rightarrow> (onchain_input_error, onchain_db) outcome" where
  "receive_into C W cfg height i tracked output_value db =
     (case mint_row db of
        None \<Rightarrow>
          Done (db\<lparr>mint_row := Some \<lparr>mu_value = to_value (tr_out tracked), mu_outpoint = tr_outpoint tracked,
                 mu_tweak = tweak_hash C (oi_tweak i)\<rparr>\<rparr>)
      | Some wallet \<Rightarrow>
          obind (ok_or OverflowIn (checked_add (mu_value wallet) output_value)) (\<lambda>change.
          obind (wallet_tx C W cfg wallet [tr_outpoint tracked] [] change) (\<lambda>tx.
          obind (expect height) (\<lambda>h.
          if unsigned_row db \<noteq> None then Failed PendingTransactionIn
          else Done (wallet_rows C W wallet tx
                 [\<lparr>st_value = to_value (tr_out tracked), st_tweak = tweak_hash C (oi_tweak i)\<rparr>]
                 change RECEIVE_TX_VBYTES (oi_fee i) h db)))))"

definition onchain_process_input ::
  "crypto \<Rightarrow> wallet_ops \<Rightarrow> onchain_config \<Rightarrow> u32 option \<Rightarrow> onchain_input \<Rightarrow> onchain_db \<Rightarrow>
   (onchain_input_error, (amount \<times> xonly) \<times> onchain_db) outcome" where
  "onchain_process_input C W cfg height i db =
     (let db1 = db\<lparr>spent_outputs := bs_insert (output_index i) (spent_outputs db)\<rparr>
      in if bt_has (spent_outputs db) (output_index i) then Failed OutputAlreadySpent else
      obind (ok_or UnknownOutputIndex (bt_get (tracked_outputs db1) (output_index i))) (\<lambda>tracked.
      obind (expect (script_pubkey_of W cfg (tweak_hash C (oi_tweak i)))) (\<lambda>scr.
      if script_pubkey (tr_out tracked) \<noteq> scr then Failed WrongTweak else
      obind (receive_fee cfg db1) (\<lambda>fee.
      obind (ok_or NoFeerateIn fee) (\<lambda>consensus_receive_fee.
      if oi_fee i < consensus_receive_fee then Failed InsufficientFeeIn else
      obind (ok_or OverflowIn (checked_sub (to_value (tr_out tracked)) (oi_fee i))) (\<lambda>output_value.
      obind (receive_into C W cfg height i tracked output_value db1) (\<lambda>db2.
      obind (ok_or OverflowIn (map_option Amount (checked_mul output_value 1000))) (\<lambda>a.
      Done ((a, oi_tweak i), db2)))))))))"

definition onchain_process_output ::
  "crypto \<Rightarrow> wallet_ops \<Rightarrow> onchain_config \<Rightarrow> u32 option \<Rightarrow> onchain_output \<Rightarrow> out_point \<Rightarrow> onchain_db \<Rightarrow>
   (onchain_output_error, amount \<times> onchain_db) outcome" where
  "onchain_process_output C W cfg height x p db =
     (if oo_value x < ONCHAIN_DUST_LIMIT then Failed UnderDustLimit else
      obind (ok_or NoMintUtxo (mint_row db)) (\<lambda>wallet.
      let db1 = db\<lparr>mint_row := None\<rparr> in
      obind (send_fee cfg db1) (\<lambda>fee.
      obind (ok_or NoFeerateOut fee) (\<lambda>consensus_send_fee.
      if oo_fee x < consensus_send_fee then Failed InsufficientFeeOut else
      obind (ok_or OverflowOut (checked_add (oo_value x) (oo_fee x))) (\<lambda>output_value.
      obind (ok_or OverflowOut (checked_sub (mu_value wallet) output_value)) (\<lambda>change.
      if change < ONCHAIN_DUST_LIMIT then Failed ChangeUnderDustLimit else
      obind (wallet_tx C W cfg wallet []
          [\<lparr>to_value = oo_value x, script_pubkey = standard_script_pubkey W (destination x)\<rparr>] change) (\<lambda>tx.
      obind (expect height) (\<lambda>h.
      let db2 = wallet_rows C W wallet tx [] change SEND_TX_VBYTES (oo_fee x) h db1;
          db3 = db2\<lparr>tx_info_index := bt_insert p (total_txs db1) (tx_info_index db2)\<rparr>
      in if unsigned_row db1 \<noteq> None then Failed PendingTransactionOut else
      obind (ok_or OverflowOut (map_option Amount (checked_mul output_value 1000))) (\<lambda>a.
      Done (a, db3))))))))))"

section \<open>Consensus items\<close>

datatype onchain_item_error =
    WrongHeight | AlreadyVoted | RedundantFeerate | NoUnsigned | TxidMismatch | NonceCount
  | RedundantNonces | ShareCount | ReplacementCount | NoNonceEntry | SessionForming | BadShare
  | DuplicateShares

text \<open>The outputs of a block's transactions, in block order, as tracked rows.\<close>

definition block_outputs :: "block_tx list \<Rightarrow> tracked_output list" where
  "block_outputs txs =
     concat (map (\<lambda>t. map (\<lambda>(vout, x). \<lparr>tr_outpoint = BtcOutPoint (bt_txid t) vout, tr_out = x\<rparr>)
       (bt_outputs t)) txs)"

text \<open>The rows of consecutive indices from \<open>index\<close> on.\<close>

fun append_outputs :: "tracked_output list \<Rightarrow> u64 \<Rightarrow> (u64, tracked_output) btmap \<Rightarrow> (u64, tracked_output) btmap" where
  "append_outputs [] index m = m"
| "append_outputs (x # xs) index m = append_outputs xs (index + 1) (bt_insert index x m)"

definition apply_block :: "block_vote \<Rightarrow> onchain_db \<Rightarrow> onchain_db" where
  "apply_block v db =
     db\<lparr>unconfirmed := fold (\<lambda>t. bt_remove (bt_txid t)) (bv_txs v) (unconfirmed db),
        tracked_outputs :=
          append_outputs (block_outputs (bv_txs v)) (next_index (tracked_outputs db)) (tracked_outputs db),
        block_height := Some (bv_height v + 1),
        block_votes := bt_empty\<rparr>"

definition process_block_vote ::
  "onchain_config \<Rightarrow> node_id \<Rightarrow> block_vote \<Rightarrow> onchain_db \<Rightarrow> (onchain_item_error, onchain_db) outcome" where
  "process_block_vote cfg p v db =
     (if block_height db \<noteq> Some (bv_height v) then Failed WrongHeight
      else if bt_has (block_votes db) p then Failed AlreadyVoted
      else
        (let db1 = db\<lparr>block_votes := bt_insert p v (block_votes db)\<rparr>;
             n = length (filter (\<lambda>w. w = v) (bt_values (block_votes db1)))
         in obind (onchain_threshold cfg) (\<lambda>t.
            if t \<le> n then Done (apply_block v db1) else Done db1)))"

definition process_feerate_vote ::
  "node_id \<Rightarrow> u32 option \<Rightarrow> onchain_db \<Rightarrow> (onchain_item_error, onchain_db) outcome" where
  "process_feerate_vote p r db =
     (if bt_get (feerate_votes db) p = Some r then Failed RedundantFeerate
      else Done (db\<lparr>feerate_votes := bt_insert p r (feerate_votes db)\<rparr>))"

definition process_nonces ::
  "wallet_ops \<Rightarrow> node_id \<Rightarrow> hash256 \<Rightarrow> tss_nonce list \<Rightarrow> onchain_db \<Rightarrow> (onchain_item_error, onchain_db) outcome" where
  "process_nonces W p txid nonces db =
     obind (ok_or NoUnsigned (unsigned_row db)) (\<lambda>u.
     if compute_txid W (mtx u) \<noteq> txid then Failed TxidMismatch
     else if length nonces \<noteq> length (spent_tx_outs u) then Failed NonceCount
     else if \<not> list_all (\<lambda>e. ne_node e \<noteq> p) (bt_values (nonce_log db)) then Failed RedundantNonces
     else Done (db\<lparr>nonce_log := bt_insert (next_index (nonce_log db)) (NonceEntry p nonces) (nonce_log db)\<rparr>))"

text \<open>The latest entry of a node in the log: \<open>iter_rev(.. find ..)\<close>.\<close>

definition latest_entry :: "node_id \<Rightarrow> (u64, nonce_entry) btmap \<Rightarrow> nat option" where
  "latest_entry p m =
     map_option (\<lambda>e. unat (fst e)) (List.find (\<lambda>e. ne_node (snd e) = p) (rev (entries m)))"

text \<open>The nonces of a session for one input, keyed by signer. \<open>None\<close>: an entry has too few.\<close>

definition node_u64 :: "node_id \<Rightarrow> u64" where
  "node_u64 p = ucast p"

definition nth_opt :: "'a list \<Rightarrow> nat \<Rightarrow> 'a option" where
  "nth_opt xs i = (if i < length xs then Some (xs ! i) else None)"

definition nonce_column :: "nonce_entry list \<Rightarrow> nat \<Rightarrow> (u64, tss_nonce) btmap option" where
  "nonce_column chunk i =
     map_option bt_of_list
       (option_seq (map (\<lambda>e. map_option (Pair (node_u64 (ne_node e))) (nth_opt (ne_nonces e) i)) chunk))"

definition sighashes :: "wallet_ops \<Rightarrow> onchain_config \<Rightarrow> mint_tx \<Rightarrow> hash256 list option" where
  "sighashes W cfg u =
     Option.bind
       (option_seq (map (\<lambda>x. map_option (\<lambda>scr. \<lparr>to_value = st_value x, script_pubkey = scr\<rparr>)
          (script_pubkey_of W cfg (st_tweak x))) (spent_tx_outs u)))
       (\<lambda>prevouts. option_seq (map (taproot_sighash W (mtx u) prevouts) [0..<length (spent_tx_outs u)]))"

text \<open>One share of one input against the session's nonces.\<close>

definition check_share ::
  "wallet_ops \<Rightarrow> onchain_config \<Rightarrow> node_id \<Rightarrow> nonce_entry list \<Rightarrow> nat \<Rightarrow> spent_tx_out \<Rightarrow> hash256 \<Rightarrow> tss_share \<Rightarrow>
   bool option" where
  "check_share W cfg p chunk i x msg share =
     Option.bind (tweaked_pks W cfg p (st_tweak x)) (\<lambda>pks.
     Option.bind (nonce_column chunk i) (\<lambda>col.
     Option.bind (tweaked_agg_pk W cfg (st_tweak x)) (\<lambda>agg.
     Some (tss_verify_share W msg (node_u64 p) pks share col agg))))"

fun check_shares ::
  "wallet_ops \<Rightarrow> onchain_config \<Rightarrow> node_id \<Rightarrow> nonce_entry list \<Rightarrow> nat \<Rightarrow> ((spent_tx_out \<times> hash256) \<times> tss_share) list \<Rightarrow>
   (onchain_item_error, unit) outcome" where
  "check_shares W cfg p chunk i [] = Done ()"
| "check_shares W cfg p chunk i (((x, msg), share) # rest) =
     obind (expect (check_share W cfg p chunk i x msg share)) (\<lambda>ok.
     obind (ensure ok BadShare) (\<lambda>_. check_shares W cfg p chunk (i + 1) rest))"

text \<open>Aggregate the session's shares of one input into its signature; the code asserts it verifies.\<close>

definition sign_input ::
  "wallet_ops \<Rightarrow> onchain_config \<Rightarrow> nonce_entry list \<Rightarrow> tss_share list list \<Rightarrow> nat \<Rightarrow> spent_tx_out \<Rightarrow> hash256 \<Rightarrow>
   schnorr_sig option" where
  "sign_input W cfg chunk responses i x msg =
     Option.bind (option_seq (map (\<lambda>(e, r). map_option (Pair (node_u64 (ne_node e))) (nth_opt r i))
       (zip chunk responses))) (\<lambda>shares.
     Option.bind (nonce_column chunk i) (\<lambda>col.
     Option.bind (tweaked_agg_pk W cfg (st_tweak x)) (\<lambda>agg.
     let sig = tss_aggregate W msg col (bt_of_list shares) agg
     in if tss_verify W msg sig agg then Some sig else None)))"

definition set_witness :: "nat \<Rightarrow> schnorr_sig \<Rightarrow> btc_tx \<Rightarrow> btc_tx" where
  "set_witness i sig tx =
     tx\<lparr>btc_inputs := (btc_inputs tx)[i := (btc_inputs tx ! i)\<lparr>witness := Some (enc_int sig)\<rparr>]\<rparr>"

fun sign_inputs ::
  "wallet_ops \<Rightarrow> onchain_config \<Rightarrow> nonce_entry list \<Rightarrow> tss_share list list \<Rightarrow> nat \<Rightarrow> (spent_tx_out \<times> hash256) list \<Rightarrow>
   btc_tx \<Rightarrow> btc_tx option" where
  "sign_inputs W cfg chunk responses i [] tx = Some tx"
| "sign_inputs W cfg chunk responses i ((x, msg) # rest) tx =
     Option.bind (sign_input W cfg chunk responses i x msg) (\<lambda>sig.
     if i < length (btc_inputs tx) then sign_inputs W cfg chunk responses (i + 1) rest (set_witness i sig tx)
     else None)"

definition finalize_tx ::
  "wallet_ops \<Rightarrow> onchain_config \<Rightarrow> mint_tx \<Rightarrow> hash256 list \<Rightarrow> nonce_entry list \<Rightarrow> tss_share list list \<Rightarrow>
   mint_tx option" where
  "finalize_tx W cfg u msgs chunk responses =
     (if length (spent_tx_outs u) \<noteq> length (btc_inputs (mtx u)) then None
      else map_option (\<lambda>tx. u\<lparr>mtx := tx\<rparr>)
        (sign_inputs W cfg chunk responses 0 (zip (spent_tx_outs u) msgs) (mtx u)))"

definition chunk_of :: "nat \<Rightarrow> nat \<Rightarrow> (u64, 'v) btmap \<Rightarrow> 'v list" where
  "chunk_of t s m = map snd (bt_range (of_nat (s * t)) (of_nat ((s + 1) * t)) m)"

definition process_signature_shares ::
  "wallet_ops \<Rightarrow> onchain_config \<Rightarrow> node_id \<Rightarrow> hash256 \<Rightarrow> tss_share list \<Rightarrow> tss_nonce list \<Rightarrow> onchain_db \<Rightarrow>
   (onchain_item_error, onchain_db) outcome" where
  "process_signature_shares W cfg p txid shares fresh db =
     obind (ok_or NoUnsigned (unsigned_row db)) (\<lambda>u.
     if compute_txid W (mtx u) \<noteq> txid then Failed TxidMismatch
     else if length shares \<noteq> length (spent_tx_outs u) then Failed ShareCount
     else if length fresh \<noteq> length (spent_tx_outs u) then Failed ReplacementCount else
     obind (ok_or NoNonceEntry (latest_entry p (nonce_log db))) (\<lambda>latest.
     obind (onchain_threshold cfg) (\<lambda>t.
     let session = latest div t;
         chunk = chunk_of t session (nonce_log db)
     in if length chunk \<noteq> t then Failed SessionForming else
     obind (expect (sighashes W cfg u)) (\<lambda>msgs.
     obind (check_shares W cfg p chunk 0 (zip (zip (spent_tx_outs u) msgs) shares)) (\<lambda>_.
     if bt_has (share_rows db) (of_nat latest) then Failed DuplicateShares else
     let db1 = db\<lparr>share_rows := bt_insert (of_nat latest) shares (share_rows db),
           nonce_log := bt_insert (next_index (nonce_log db)) (NonceEntry p fresh) (nonce_log db)\<rparr>;
         responses = chunk_of t session (share_rows db1)
     in if length responses = t then
          obind (expect (finalize_tx W cfg u msgs chunk responses)) (\<lambda>signed.
          Done (db1\<lparr>unsigned_row := None, nonce_log := bt_empty, share_rows := bt_empty,
            unconfirmed := bt_insert txid signed (unconfirmed db1)\<rparr>))
        else Done db1)))))"

fun onchain_process_item ::
  "wallet_ops \<Rightarrow> onchain_config \<Rightarrow> node_id \<Rightarrow> onchain_item \<Rightarrow> onchain_db \<Rightarrow>
   (onchain_item_error, onchain_db) outcome" where
  "onchain_process_item W cfg p (BlockItem v) db = process_block_vote cfg p v db"
| "onchain_process_item W cfg p (FeerateItem r) db = process_feerate_vote p r db"
| "onchain_process_item W cfg p (NoncesItem txid ns) db = process_nonces W p txid ns db"
| "onchain_process_item W cfg p (SharesItem txid ss ns) db = process_signature_shares W cfg p txid ss ns db"

text \<open>The first non-zero consensus block height is where the mint starts tracking the chain.\<close>

definition initialize_block_height :: "u32 \<Rightarrow> u32 \<Rightarrow> onchain_db \<Rightarrow> onchain_db" where
  "initialize_block_height old new db = (if old = 0 then db\<lparr>block_height := Some new\<rparr> else db)"

end
