(* ===== verification/Vote_Rank.thy ===== *)
theory Vote_Rank
  imports Ordered_Map
begin

text \<open>
  Values at a rank of a list of votes: the element at an index of the sorted votes, ascending or
  descending, is bounded by a value exactly when enough votes are. Three parts of the daemon agree
  on a number this way: the block height, the consensus version and the feerate.
\<close>

lemma length_filter_sort: "length (filter P (sort xs)) = length (filter P xs)"
  by (metis filter_sort length_sort)

lemma length_filter_take:
  "n \<le> length xs \<Longrightarrow> (\<And>i. i < n \<Longrightarrow> P (xs ! i)) \<Longrightarrow> n \<le> length (filter P xs)"
proof -
  assume n: "n \<le> length xs" and P: "\<And>i. i < n \<Longrightarrow> P (xs ! i)"
  have "filter P (take n xs) = take n xs"
    using n P by (auto simp: filter_id_conv in_set_conv_nth)
  then have "n \<le> length (filter P (take n xs)) + length (filter P (drop n xs))"
    using n by simp
  also have "\<dots> = length (filter P xs)"
    by (metis append_take_drop_id filter_append length_append)
  finally show ?thesis .
qed

lemma length_filter_drop:
  "n \<le> length xs \<Longrightarrow> (\<And>i. n \<le> i \<Longrightarrow> i < length xs \<Longrightarrow> \<not> P (xs ! i)) \<Longrightarrow> length (filter P xs) \<le> n"
proof -
  assume n: "n \<le> length xs" and P: "\<And>i. n \<le> i \<Longrightarrow> i < length xs \<Longrightarrow> \<not> P (xs ! i)"
  have "filter P (drop n xs) = []"
    using P by (auto simp: filter_empty_conv in_set_conv_nth)
  moreover have "length (filter P xs) = length (filter P (take n xs)) + length (filter P (drop n xs))"
    by (metis append_take_drop_id filter_append length_append)
  moreover have "length (filter P (take n xs)) \<le> n"
    by (rule order.trans [OF length_filter_le]) simp
  ultimately show ?thesis by simp
qed

text \<open>The \<open>k\<close>-th lowest vote is at most \<open>v\<close> exactly when more than \<open>k\<close> votes are.\<close>

lemma rank_ascending:
  assumes "k < length xs"
  shows "sort xs ! k \<le> v \<longleftrightarrow> k < length (filter (\<lambda>x. x \<le> v) xs)"
proof
  assume v: "sort xs ! k \<le> v"
  have "k + 1 \<le> length (filter (\<lambda>x. x \<le> v) (sort xs))"
  proof (rule length_filter_take)
    fix i assume "i < k + 1"
    then have "sort xs ! i \<le> sort xs ! k"
      using assms by (intro sorted_nth_mono) auto
    then show "sort xs ! i \<le> v" using v by simp
  qed (use assms in simp)
  then show "k < length (filter (\<lambda>x. x \<le> v) xs)"
    by (simp add: length_filter_sort)
next
  assume c: "k < length (filter (\<lambda>x. x \<le> v) xs)"
  show "sort xs ! k \<le> v"
  proof (rule ccontr)
    assume v: "\<not> sort xs ! k \<le> v"
    have "length (filter (\<lambda>x. x \<le> v) (sort xs)) \<le> k"
    proof (rule length_filter_drop)
      fix i assume "k \<le> i" "i < length (sort xs)"
      then have "sort xs ! k \<le> sort xs ! i" by (intro sorted_nth_mono) auto
      then show "\<not> sort xs ! i \<le> v" using v by simp
    qed (use assms in simp)
    with c show False by (simp add: length_filter_sort)
  qed
qed

text \<open>The \<open>k\<close>-th highest vote is at least \<open>v\<close> exactly when more than \<open>k\<close> votes are.\<close>

lemma rank_descending:
  assumes k: "k < length xs"
  shows "v \<le> rev (sort xs) ! k \<longleftrightarrow> k < length (filter (\<lambda>x. v \<le> x) xs)"
proof -
  let ?j = "length xs - Suc k"
  have "rev (sort xs) ! k = sort xs ! ?j"
    using k by (simp add: rev_nth)
  moreover have "sort xs ! ?j < v \<longleftrightarrow> ?j < length (filter (\<lambda>x. x < v) xs)"
  proof
    assume lt: "sort xs ! ?j < v"
    have "?j + 1 \<le> length (filter (\<lambda>x. x < v) (sort xs))"
    proof (rule length_filter_take)
      fix i assume "i < ?j + 1"
      then have "sort xs ! i \<le> sort xs ! ?j"
        using k by (intro sorted_nth_mono) auto
      then show "sort xs ! i < v" using lt by simp
    qed (use k in simp)
    then show "?j < length (filter (\<lambda>x. x < v) xs)" by (simp add: length_filter_sort)
  next
    assume c: "?j < length (filter (\<lambda>x. x < v) xs)"
    show "sort xs ! ?j < v"
    proof (rule ccontr)
      assume n: "\<not> sort xs ! ?j < v"
      have "length (filter (\<lambda>x. x < v) (sort xs)) \<le> ?j"
      proof (rule length_filter_drop)
        fix i assume "?j \<le> i" "i < length (sort xs)"
        then have "sort xs ! ?j \<le> sort xs ! i" by (intro sorted_nth_mono) auto
        then show "\<not> sort xs ! i < v" using n by simp
      qed (use k in simp)
      with c show False by (simp add: length_filter_sort)
    qed
  qed
  moreover have "length (filter (\<lambda>x. x < v) xs) + length (filter (\<lambda>x. v \<le> x) xs) = length xs"
    using sum_length_filter_compl [of "\<lambda>x. x < v" xs] by (simp add: not_less)
  ultimately show ?thesis using k by (auto simp: not_less [symmetric])
qed

text \<open>How many entries of a vote table satisfy a predicate grows with the votes.\<close>

definition votes_for :: "('v \<Rightarrow> bool) \<Rightarrow> ('k::linorder, 'v) btmap \<Rightarrow> nat" where
  "votes_for P m = length (filter P (bt_values m))"

lemma votes_for_card: "votes_for P m = card {k. \<exists>v. bt_get m k = Some v \<and> P v}"
proof -
  have "votes_for P m = length (filter (\<lambda>e. P (snd e)) (entries m))"
    by (simp add: votes_for_def bt_values_def filter_map comp_def)
  also have "\<dots> = card (fst ` set (filter (\<lambda>e. P (snd e)) (entries m)))"
    by (metis (no_types, lifting) distinct_card distinct_entries distinct_map_filter length_map set_map)
  also have "fst ` set (filter (\<lambda>e. P (snd e)) (entries m)) = {k. \<exists>v. bt_get m k = Some v \<and> P v}"
    by (force simp: bt_get_Some_iff)
  finally show ?thesis .
qed

lemma votes_for_mono:
  assumes "\<And>k v. bt_get m k = Some v \<Longrightarrow> P v \<Longrightarrow> \<exists>v'. bt_get m' k = Some v' \<and> P v'"
  shows "votes_for P m \<le> votes_for P m'"
  unfolding votes_for_card
proof (rule card_mono)
  show "finite {k. \<exists>v. bt_get m' k = Some v \<and> P v}"
    by (rule finite_subset [OF _ finite_bt_dom [of m']]) auto
qed (use assms in blast)

end
