(* ===== verification/Onchain_Wallet.thy ===== *)
theory Onchain_Wallet
  imports Onchain_Server Vote_Rank
begin

text \<open>
  What the onchain module promises of the mint's wallet: deposits and withdrawals move its value by
  exactly the amount they report, its transactions form one chain of spends, the fee it asks for
  covers the whole pending stack, and block votes track the chain under dense indices.
\<close>

section \<open>What a deposit and a withdrawal do\<close>

lemma onchain_input_Done:
  assumes "onchain_process_input C W cfg h i db = Done ((a, pk), db')"
  obtains tracked fee ov where
    "\<not> bt_has (spent_outputs db) (output_index i)"
    "bt_get (tracked_outputs db) (output_index i) = Some tracked"
    "script_pubkey_of W cfg (tweak_hash C (oi_tweak i)) = Some (script_pubkey (tr_out tracked))"
    "(receive_fee cfg (db\<lparr>spent_outputs := bs_insert (output_index i) (spent_outputs db)\<rparr>)
       :: (onchain_input_error, sats option) outcome) = Done (Some fee)"
    "fee \<le> oi_fee i" "checked_sub (to_value (tr_out tracked)) (oi_fee i) = Some ov"
    "receive_into C W cfg h i tracked ov (db\<lparr>spent_outputs := bs_insert (output_index i) (spent_outputs db)\<rparr>) =
       Done db'"
    "checked_mul ov 1000 = Some (msat a)" "pk = oi_tweak i"
  using assms
  by (auto simp: onchain_process_input_def Let_def obind_Done_iff not_less split: if_splits)

lemma receive_into_Done:
  assumes "receive_into C W cfg h i tracked ov db = Done db'"
  shows "(mint_row db = None \<and>
      db' = db\<lparr>mint_row := Some \<lparr>mu_value = to_value (tr_out tracked), mu_outpoint = tr_outpoint tracked,
        mu_tweak = tweak_hash C (oi_tweak i)\<rparr>\<rparr>) \<or>
    (\<exists>wallet change tx b. mint_row db = Some wallet \<and> checked_add (mu_value wallet) ov = Some change \<and>
      (wallet_tx C W cfg wallet [tr_outpoint tracked] [] change :: (onchain_input_error, btc_tx) outcome) =
        Done tx \<and> h = Some b \<and> unsigned_row db = None \<and>
      db' = wallet_rows C W wallet tx
        [\<lparr>st_value = to_value (tr_out tracked), st_tweak = tweak_hash C (oi_tweak i)\<rparr>]
        change RECEIVE_TX_VBYTES (oi_fee i) b db)"
  using assms by (auto simp: receive_into_def obind_Done_iff split: option.splits if_splits)

lemma onchain_output_Done:
  assumes "onchain_process_output C W cfg h x p db = Done (a, db')"
  obtains wallet fee ov change tx b where
    "mint_row db = Some wallet" "ONCHAIN_DUST_LIMIT \<le> oo_value x"
    "(send_fee cfg (db\<lparr>mint_row := None\<rparr>) :: (onchain_output_error, sats option) outcome) = Done (Some fee)"
    "fee \<le> oo_fee x" "checked_add (oo_value x) (oo_fee x) = Some ov"
    "checked_sub (mu_value wallet) ov = Some change" "ONCHAIN_DUST_LIMIT \<le> change"
    "(wallet_tx C W cfg wallet [] [\<lparr>to_value = oo_value x,
        script_pubkey = standard_script_pubkey W (destination x)\<rparr>] change
      :: (onchain_output_error, btc_tx) outcome) = Done tx"
    "h = Some b" "unsigned_row db = None" "checked_mul ov 1000 = Some (msat a)"
    "db' = (wallet_rows C W wallet tx [] change SEND_TX_VBYTES (oo_fee x) b (db\<lparr>mint_row := None\<rparr>))
       \<lparr>tx_info_index := bt_insert p (total_txs db) (tx_info_index db)\<rparr>"
  using assms
  by (auto simp: onchain_process_output_def Let_def obind_Done_iff not_less total_txs_def wallet_rows_def
      split: if_splits)

section \<open>Value\<close>

text \<open>What the mint holds on chain, in satoshi.\<close>

definition wallet_sats :: "onchain_db \<Rightarrow> nat" where
  "wallet_sats db = (case mint_row db of None \<Rightarrow> 0 | Some u \<Rightarrow> unat (mu_value u))"

lemma wallet_sats_rows [simp]:
  "wallet_sats (wallet_rows C W wallet tx spent change vb fee h db) = unat change"
  by (simp add: wallet_sats_def wallet_rows_def)

lemma onchain_input_value:
  assumes "onchain_process_input C W cfg h i db = Done ((a, pk), db')"
  shows "1000 * wallet_sats db + amount_nat a \<le> 1000 * wallet_sats db'"
  using assms
proof (rule onchain_input_Done)
  fix tracked fee ov
  let ?db = "db\<lparr>spent_outputs := bs_insert (output_index i) (spent_outputs db)\<rparr>"
  assume sub: "checked_sub (to_value (tr_out tracked)) (oi_fee i) = Some ov"
    and mul: "checked_mul ov 1000 = Some (msat a)"
    and into: "receive_into C W cfg h i tracked ov ?db = Done db'"
  from receive_into_Done [OF into] checked_sub_SomeD [OF sub] checked_mul_SomeD [OF mul] show ?thesis
    by (auto simp: wallet_sats_def wallet_rows_def dest!: checked_add_SomeD)
qed

lemma onchain_output_value:
  assumes "onchain_process_output C W cfg h x p db = Done (a, db')"
  shows "1000 * wallet_sats db = 1000 * wallet_sats db' + amount_nat a"
  using assms
proof (rule onchain_output_Done)
  fix wallet fee ov change tx b
  assume "mint_row db = Some wallet" "checked_sub (mu_value wallet) ov = Some change"
    and "checked_mul ov 1000 = Some (msat a)"
    and "db' = (wallet_rows C W wallet tx [] change SEND_TX_VBYTES (oo_fee x) b (db\<lparr>mint_row := None\<rparr>))
       \<lparr>tx_info_index := bt_insert p (total_txs db) (tx_info_index db)\<rparr>"
  then show ?thesis
    by (auto simp: wallet_sats_def wallet_rows_def dest!: checked_sub_SomeD checked_mul_SomeD)
qed

section \<open>The transaction chain\<close>

text \<open>
  The log of the wallet's transactions is dense, each transaction spends what the one before
  created, and the current UTXO is the first output of the last.
\<close>

definition chain_ok :: "onchain_db \<Rightarrow> bool" where
  "chain_ok db \<longleftrightarrow>
     dense (tx_infos db) \<and> (mint_row db = None \<longrightarrow> tx_infos db = bt_empty) \<and>
     (\<forall>k t. bt_get (tx_infos db) k = Some t \<longrightarrow> ti_index t = k) \<and>
     (\<forall>k t t'. bt_get (tx_infos db) k = Some t \<longrightarrow> bt_get (tx_infos db) (k + 1) = Some t' \<longrightarrow> k + 1 \<noteq> 0 \<longrightarrow>
        ti_input t' = ti_output t) \<and>
     (\<forall>k t. bt_get (tx_infos db) k = Some t \<longrightarrow> k + 1 = total_txs db \<longrightarrow>
        (\<exists>u. mint_row db = Some u \<and> mu_value u = ti_output t \<and> mu_outpoint u = BtcOutPoint (ti_txid t) 0))"

lemma chain_ok_empty: "tx_infos db = bt_empty \<Longrightarrow> chain_ok db"
  by (simp add: chain_ok_def)

lemma chain_ok_cong:
  "tx_infos db' = tx_infos db \<Longrightarrow> mint_row db' = mint_row db \<Longrightarrow> chain_ok db' = chain_ok db"
  by (simp add: chain_ok_def total_txs_def)

lemma chain_ok_step:
  assumes ok: "chain_ok db" and w: "mint_row db = Some wallet" and room: "total_txs db \<noteq> - 1"
    and infos: "tx_infos db' = bt_insert (total_txs db) \<lparr>ti_index = total_txs db, ti_txid = compute_txid W tx,
      ti_input = mu_value wallet, ti_output = change, ti_fee = fee, ti_vbytes = vb, created = h\<rparr> (tx_infos db)"
    and row: "mint_row db' = Some \<lparr>mu_value = change, mu_outpoint = BtcOutPoint (compute_txid W tx) 0,
      mu_tweak = tw\<rparr>"
  shows "chain_ok db'"
proof -
  let ?n = "total_txs db"
  have d: "dense (tx_infos db)" using ok by (simp add: chain_ok_def)
  have n: "?n = next_index (tx_infos db)" by (simp add: total_txs_def)
  have none: "bt_get (tx_infos db) ?n = None" using dense_next_None [OF d] by (simp add: n)
  have d': "dense (tx_infos db')" and l': "bt_len (tx_infos db') = bt_len (tx_infos db) + 1"
    using dense_append [OF d] room by (auto simp: infos n)
  have n': "total_txs db' = ?n + 1"
    using next_index_dense [OF d'] next_index_dense [OF d] l' by (simp add: total_txs_def)
  have no_wrap: "k \<noteq> ?n" if "k + 1 = ?n" for k using that by auto
  have old: "ti_output t = mu_value wallet" if "bt_get (tx_infos db) k = Some t" "k + 1 = ?n" for k t
    using ok that w by (force simp: chain_ok_def)
  have "k + 1 \<noteq> ?n + 1" if "bt_get (tx_infos db) k = Some t" for k t
    using that none by auto
  moreover have "bt_get (tx_infos db) (?n + 1) = None"
  proof -
    have "unat (?n + 1) = unat ?n + 1" using room by (rule unat_succ)
    moreover have "unat ?n = bt_len (tx_infos db)"
      using d by (simp add: n next_index_dense unat_of_nat dense_def)
    ultimately show ?thesis using dense_get [OF d, of "?n + 1"] by auto
  qed
  ultimately show ?thesis
    using ok d' old none unfolding chain_ok_def n'
    by (auto simp: infos row split: if_splits)
qed

lemma chain_ok_input:
  assumes d: "onchain_process_input C W cfg h i db = Done ((a, pk), db')"
    and ok: "chain_ok db" and room: "total_txs db \<noteq> - 1"
  shows "chain_ok db'"
  using d
proof (rule onchain_input_Done)
  fix tracked fee ov
  let ?db = "db\<lparr>spent_outputs := bs_insert (output_index i) (spent_outputs db)\<rparr>"
  assume into: "receive_into C W cfg h i tracked ov ?db = Done db'"
  have ok1: "chain_ok ?db" using ok by (simp add: chain_ok_def total_txs_def)
  from receive_into_Done [OF into] show ?thesis
  proof (elim disjE conjE exE)
    assume "mint_row ?db = None" "db' = ?db\<lparr>mint_row := Some \<lparr>mu_value = to_value (tr_out tracked),
        mu_outpoint = tr_outpoint tracked, mu_tweak = tweak_hash C (oi_tweak i)\<rparr>\<rparr>"
    then show ?thesis using ok by (intro chain_ok_empty) (simp add: chain_ok_def)
  next
    fix wallet change tx b
    assume w: "mint_row ?db = Some wallet" and db': "db' = wallet_rows C W wallet tx
        [\<lparr>st_value = to_value (tr_out tracked), st_tweak = tweak_hash C (oi_tweak i)\<rparr>]
        change RECEIVE_TX_VBYTES (oi_fee i) b ?db"
    show ?thesis
      by (rule chain_ok_step [OF ok1 w]) (use room in \<open>simp_all add: db' wallet_rows_def total_txs_def\<close>)
  qed
qed

lemma chain_ok_output:
  assumes d: "onchain_process_output C W cfg h x p db = Done (a, db')"
    and ok: "chain_ok db" and room: "total_txs db \<noteq> - 1"
  shows "chain_ok db'"
  using d
proof (rule onchain_output_Done)
  fix wallet fee ov change tx b
  assume w: "mint_row db = Some wallet" and db': "db' = (wallet_rows C W wallet tx [] change SEND_TX_VBYTES
      (oo_fee x) b (db\<lparr>mint_row := None\<rparr>))\<lparr>tx_info_index := bt_insert p (total_txs db) (tx_info_index db)\<rparr>"
  show ?thesis
    by (rule chain_ok_step [OF ok w room]) (simp_all add: db' wallet_rows_def total_txs_def)
qed

text \<open>
  A transaction that is not confirmed yet is one of the log: under its id, its first input the first
  output of the transaction before it, its first output the value it left the wallet. It spends as much
  as it pays out and in fees.
\<close>

definition logged_tx :: "onchain_db \<Rightarrow> hash256 \<Rightarrow> mint_tx \<Rightarrow> bool" where
  "logged_tx db txid u \<longleftrightarrow>
     (\<exists>k t p ins outs. bt_get (tx_infos db) k = Some t \<and> ti_txid t = txid \<and>
        map previous_output (btc_inputs (mtx u)) = p # ins \<and> map to_value (btc_outputs (mtx u)) = ti_output t # outs \<and>
        (k \<noteq> 0 \<longrightarrow> (\<exists>t'. bt_get (tx_infos db) (k - 1) = Some t' \<and> p = BtcOutPoint (ti_txid t') 0)) \<and>
        (\<exists>x xs. spent_tx_outs u = x # xs \<and> st_value x = ti_input t) \<and>
        (\<Sum>x\<leftarrow>spent_tx_outs u. unat (st_value x)) = (\<Sum>v\<leftarrow>ti_output t # outs. unat v) + unat (mtx_fee u))"

definition links_ok :: "wallet_ops \<Rightarrow> onchain_db \<Rightarrow> bool" where
  "links_ok W db \<longleftrightarrow>
     (\<forall>u. unsigned_row db = Some u \<longrightarrow> logged_tx db (compute_txid W (mtx u)) u) \<and>
     (\<forall>txid u. bt_get (unconfirmed db) txid = Some u \<longrightarrow> logged_tx db txid u)"

lemma links_ok_cong:
  "tx_infos db' = tx_infos db \<Longrightarrow> unsigned_row db' = unsigned_row db \<Longrightarrow> unconfirmed db' = unconfirmed db \<Longrightarrow>
   links_ok W db' = links_ok W db"
  by (simp add: links_ok_def logged_tx_def)

lemma links_ok_drop:
  assumes "links_ok W db" "tx_infos db' = tx_infos db" "unsigned_row db' = unsigned_row db"
    "\<And>txid u. bt_get (unconfirmed db') txid = Some u \<Longrightarrow> bt_get (unconfirmed db) txid = Some u"
  shows "links_ok W db'"
  using assms by (simp add: links_ok_def logged_tx_def)

text \<open>Signing moves a transaction with its outpoints and values as they are.\<close>

lemma links_ok_signed:
  assumes ok: "links_ok W db" and u: "unsigned_row db = Some u" and s: "spent_tx_outs u' = spent_tx_outs u" "mtx_fee u' = mtx_fee u"
      "map previous_output (btc_inputs (mtx u')) = map previous_output (btc_inputs (mtx u))" "btc_outputs (mtx u') = btc_outputs (mtx u)"
    and db': "tx_infos db' = tx_infos db" "unsigned_row db' = None" "unconfirmed db' = bt_insert (compute_txid W (mtx u)) u' (unconfirmed db)"
  shows "links_ok W db'"
proof -
  have "logged_tx db (compute_txid W (mtx u)) u" using ok u by (simp add: links_ok_def)
  then have "logged_tx db (compute_txid W (mtx u)) u'" unfolding logged_tx_def s .
  moreover have "logged_tx db' = logged_tx db" by (simp add: logged_tx_def db'(1) fun_eq_iff)
  ultimately show ?thesis using ok db' by (auto simp: links_ok_def split: if_splits)
qed

lemma logged_tx_grows:
  assumes "logged_tx db txid u" "\<And>k t. bt_get (tx_infos db) k = Some t \<Longrightarrow> bt_get (tx_infos db') k = Some t"
  shows "logged_tx db' txid u"
proof -
  from assms(1) obtain k t p ins outs where l: "bt_get (tx_infos db) k = Some t" "ti_txid t = txid"
      "map previous_output (btc_inputs (mtx u)) = p # ins" "map to_value (btc_outputs (mtx u)) = ti_output t # outs"
      "k \<noteq> 0 \<longrightarrow> (\<exists>t'. bt_get (tx_infos db) (k - 1) = Some t' \<and> p = BtcOutPoint (ti_txid t') 0)"
      "\<exists>x xs. spent_tx_outs u = x # xs \<and> st_value x = ti_input t"
      "(\<Sum>x\<leftarrow>spent_tx_outs u. unat (st_value x)) = (\<Sum>v\<leftarrow>ti_output t # outs. unat v) + unat (mtx_fee u)"
    unfolding logged_tx_def by (elim exE conjE) (rule that, (assumption | blast)+)
  have "k \<noteq> 0 \<longrightarrow> (\<exists>t'. bt_get (tx_infos db') (k - 1) = Some t' \<and> p = BtcOutPoint (ti_txid t') 0)" using l(5) assms(2) by blast
  with l(2-4,6,7) assms(2) [OF l(1)] show ?thesis unfolding logged_tx_def
    by (intro exI [of _ k] exI [of _ t] exI [of _ p] exI [of _ ins] exI [of _ outs] conjI) assumption+
qed

text \<open>A new transaction spends the wallet's output, the first of the last transaction of the log.\<close>

lemma links_ok_rows:
  assumes ok: "links_ok W db" and c: "chain_ok db" and w: "mint_row db = Some wallet" and n: "unsigned_row db = None"
    and tx: "(wallet_tx C W cfg wallet ins outs change :: ('e, btc_tx) outcome) = Done tx"
    and balance: "unat (mu_value wallet) + (\<Sum>x\<leftarrow>spent. unat (st_value x)) = unat change + (\<Sum>x\<leftarrow>outs. unat (to_value x)) + unat fee"
    and db': "tx_infos db' = tx_infos (wallet_rows C W wallet tx spent change vb fee h db)"
      "unsigned_row db' = unsigned_row (wallet_rows C W wallet tx spent change vb fee h db)" "unconfirmed db' = unconfirmed db"
  shows "links_ok W db'"
proof -
  let ?n = "total_txs db"
  let ?t = "\<lparr>ti_index = ?n, ti_txid = compute_txid W tx, ti_input = mu_value wallet, ti_output = change, ti_fee = fee, ti_vbytes = vb, created = h\<rparr>"
  have d: "dense (tx_infos db)" using c by (simp add: chain_ok_def)
  have i: "tx_infos db' = bt_insert ?n ?t (tx_infos db)" using db' by (simp add: wallet_rows_def)
  have none: "bt_get (tx_infos db) ?n = None" using dense_next_None [OF d] by (simp add: total_txs_def)
  have grow: "bt_get (tx_infos db') k = Some t" if "bt_get (tx_infos db) k = Some t" for k t
    using that none by (auto simp: i)
  let ?u = "\<lparr>mtx = tx, spent_tx_outs = \<lparr>st_value = mu_value wallet, st_tweak = mu_tweak wallet\<rparr> # spent, vbytes = vb, mtx_fee = fee\<rparr>"
  have u: "unsigned_row db' = Some ?u" using db' by (simp add: wallet_rows_def)
  obtain scr where t: "tx = \<lparr>btc_inputs = map unsigned_input (mu_outpoint wallet # ins), btc_outputs = \<lparr>to_value = change, script_pubkey = scr\<rparr> # outs\<rparr>"
    using tx by (auto simp: wallet_tx_def obind_Done_iff)
  have "\<exists>t'. bt_get (tx_infos db') (?n - 1) = Some t' \<and> mu_outpoint wallet = BtcOutPoint (ti_txid t') 0" if z: "?n \<noteq> 0"
  proof -
    have "unat ?n = bt_len (tx_infos db)" using d by (simp add: total_txs_def next_index_dense unat_of_nat dense_def)
    moreover have "unat (?n - 1) < unat ?n" using z by (simp add: unat_minus_one unat_gt_0)
    ultimately have "bt_get (tx_infos db) (?n - 1) \<noteq> None" using dense_get [OF d, of "?n - 1"] by simp
    then obtain t' where t': "bt_get (tx_infos db) (?n - 1) = Some t'" by blast
    have "\<And>k t. bt_get (tx_infos db) k = Some t \<Longrightarrow> k + 1 = ?n \<Longrightarrow> (\<exists>u. mint_row db = Some u \<and> mu_value u = ti_output t \<and> mu_outpoint u = BtcOutPoint (ti_txid t) 0)"
      using c unfolding chain_ok_def by blast
    from this [OF t'] w grow [OF t'] show ?thesis by simp
  qed
  then have "logged_tx db' (compute_txid W tx) ?u"
    unfolding logged_tx_def using balance
    by (intro exI [of _ ?n] exI [of _ ?t] exI [of _ "mu_outpoint wallet"] exI [of _ ins] exI [of _ "map to_value outs"])
      (simp add: i t unsigned_input_def comp_def)
  then show ?thesis using ok u db'(3) logged_tx_grows [of db _ _ db', OF _ grow] by (auto simp: links_ok_def)
qed

lemma links_ok_input:
  assumes d: "onchain_process_input C W cfg h i db = Done ((a, pk), db')"
    and c: "chain_ok db" and ok: "links_ok W db"
  shows "links_ok W db'"
  using d
proof (rule onchain_input_Done)
  fix tracked fee ov
  let ?db = "db\<lparr>spent_outputs := bs_insert (output_index i) (spent_outputs db)\<rparr>"
  assume sub: "checked_sub (to_value (tr_out tracked)) (oi_fee i) = Some ov" and into: "receive_into C W cfg h i tracked ov ?db = Done db'"
  have ok1: "links_ok W ?db" and c1: "chain_ok ?db" using ok c by (simp_all add: links_ok_def logged_tx_def chain_ok_def total_txs_def)
  from receive_into_Done [OF into] show ?thesis
  proof (elim disjE conjE exE)
    assume "mint_row ?db = None" "db' = ?db\<lparr>mint_row := Some \<lparr>mu_value = to_value (tr_out tracked),
        mu_outpoint = tr_outpoint tracked, mu_tweak = tweak_hash C (oi_tweak i)\<rparr>\<rparr>"
    then show ?thesis using ok by (simp add: links_ok_def logged_tx_def)
  next
    fix wallet change tx b
    assume w: "mint_row ?db = Some wallet" "unsigned_row ?db = None" and add: "checked_add (mu_value wallet) ov = Some change"
      and tx: "(wallet_tx C W cfg wallet [tr_outpoint tracked] [] change :: (onchain_input_error, btc_tx) outcome) = Done tx"
      and db': "db' = wallet_rows C W wallet tx
        [\<lparr>st_value = to_value (tr_out tracked), st_tweak = tweak_hash C (oi_tweak i)\<rparr>]
        change RECEIVE_TX_VBYTES (oi_fee i) b ?db"
    have "unat (mu_value wallet) + unat (to_value (tr_out tracked)) = unat change + unat (oi_fee i)"
      using checked_add_SomeD [OF add] checked_sub_SomeD [OF sub] by simp
    then show ?thesis by (intro links_ok_rows [OF ok1 c1 w tx]) (simp_all add: db' wallet_rows_def)
  qed
qed

lemma links_ok_output:
  assumes d: "onchain_process_output C W cfg h x p db = Done (a, db')"
    and c: "chain_ok db" and ok: "links_ok W db"
  shows "links_ok W db'"
  using d
proof (rule onchain_output_Done)
  fix wallet fee ov change tx b
  assume w: "mint_row db = Some wallet" "unsigned_row db = None" and ov: "checked_add (oo_value x) (oo_fee x) = Some ov"
      "checked_sub (mu_value wallet) ov = Some change"
    and tx: "(wallet_tx C W cfg wallet [] [\<lparr>to_value = oo_value x,
        script_pubkey = standard_script_pubkey W (destination x)\<rparr>] change :: (onchain_output_error, btc_tx) outcome) = Done tx"
    and db': "db' = (wallet_rows C W wallet tx [] change SEND_TX_VBYTES
      (oo_fee x) b (db\<lparr>mint_row := None\<rparr>))\<lparr>tx_info_index := bt_insert p (total_txs db) (tx_info_index db)\<rparr>"
  have "unat (mu_value wallet) = unat change + unat (oo_value x) + unat (oo_fee x)"
    using checked_add_SomeD [OF ov(1)] checked_sub_SomeD [OF ov(2)] by simp
  then show ?thesis by (intro links_ok_rows [OF ok c w tx]) (simp_all add: db' wallet_rows_def total_txs_def)
qed

section \<open>Fees\<close>

text \<open>The wire size and the fees of the transactions that are not confirmed yet.\<close>

definition stack_vbytes :: "onchain_db \<Rightarrow> nat" where
  "stack_vbytes db = sum_list (map (\<lambda>t. unat (vbytes t)) (pending_txs_unordered db))"

definition stack_fees :: "onchain_db \<Rightarrow> nat" where
  "stack_fees db = sum_list (map (\<lambda>t. unat (mtx_fee t)) (pending_txs_unordered db))"

text \<open>The feerate a transaction on top of \<open>n\<close> pending ones has to lift the stack to.\<close>

definition stack_feerate :: "u32 \<Rightarrow> nat \<Rightarrow> nat" where
  "stack_feerate r n = max (unat r) (250 * 2 ^ n)"

lemma unat_fold_saturating_sub:
  "unat (fold (\<lambda>t acc. saturating_sub acc (f t)) ts a) = unat a - sum_list (map (\<lambda>t. unat (f t)) ts)"
  by (induction ts arbitrary: a) (simp_all add: unat_saturating_sub)

lemma unat_checked_sum: "checked_sum a xs = Some b \<Longrightarrow> unat b = unat a + sum_list (map unat xs)"
proof (induction xs arbitrary: a)
  case (Cons x xs)
  then obtain c where c: "checked_add a x = Some c" "checked_sum c xs = Some b"
    by (cases "checked_add a x") auto
  with Cons.IH [OF c(2)] checked_add_SomeD [OF c(1)] show ?case by simp
qed simp

lemma unat_stack_feerate:
  assumes "n \<le> 32"
  shows "unat (max (ucast r) (push_bit n (ucast ONCHAIN_FEERATE_BASE)) :: u64) = stack_feerate r n"
proof -
  have "(2 :: nat) ^ n \<le> 2 ^ 32" using assms by (intro power_increasing) auto
  moreover have "push_bit n (250 :: u64) = of_nat (250 * 2 ^ n)"
    by (simp add: push_bit_eq_mult)
  ultimately have "unat (push_bit n (250 :: u64)) = 250 * 2 ^ n"
    by (simp only: unat_of_nat) simp
  moreover have "unat r < 4294967296"
    using unsigned_less [of r] by simp
  then have "unat (ucast r :: u64) = unat r"
    by (simp add: unsigned_ucast_eq take_bit_eq_mod)
  ultimately show ?thesis
    by (simp add: ONCHAIN_FEERATE_BASE_def stack_feerate_def max_def word_le_nat_alt)
qed

lemma consensus_fee_covers:
  assumes f: "consensus_fee cfg db vb = (Done (Some f) :: ('e, sats option) outcome)" and le: "f \<le> fee"
  obtains r where
    "consensus_feerate cfg db = (Done (Some r) :: ('e, u32 option) outcome)"
    "length (pending_txs_unordered db) \<le> 32"
    "min (unat vb * stack_feerate r (length (pending_txs_unordered db))) (2 ^ 64 - 1) div 1000 \<le> unat fee"
    "min ((unat vb + stack_vbytes db) * stack_feerate r (length (pending_txs_unordered db))) (2 ^ 64 - 1) div 1000
       \<le> unat fee + stack_fees db"
proof -
  let ?p = "pending_txs_unordered db"
  from f obtain r sv where len: "length ?p \<le> 32"
    and r: "consensus_feerate cfg db = (Done (Some r) :: ('e, u32 option) outcome)"
    and sv: "checked_sum vb (map vbytes ?p) = Some sv"
    and f': "f = (let feerate = max (ucast r) (push_bit (length ?p) (ucast ONCHAIN_FEERATE_BASE))
       in max (saturating_mul vb feerate div 1000)
            (fold (\<lambda>t acc. saturating_sub acc (mtx_fee t)) ?p (saturating_mul sv feerate div 1000)))"
    by (auto simp: consensus_fee_def obind_Done_iff Let_def split: option.splits)
  let ?r = "max (ucast r) (push_bit (length ?p) (ucast ONCHAIN_FEERATE_BASE)) :: u64"
  have rate: "unat ?r = stack_feerate r (length ?p)" by (rule unat_stack_feerate [OF len])
  have "saturating_mul vb ?r div 1000 \<le> fee"
    and "fold (\<lambda>t acc. saturating_sub acc (mtx_fee t)) ?p (saturating_mul sv ?r div 1000) \<le> fee"
    using f' le by (auto simp: Let_def)
  then have a: "unat (saturating_mul vb ?r) div 1000 \<le> unat fee"
    and b: "unat (saturating_mul sv ?r) div 1000 - stack_fees db \<le> unat fee"
    by (simp_all add: word_le_nat_alt unat_div unat_fold_saturating_sub stack_fees_def)
  have "unat sv = unat vb + stack_vbytes db"
    using unat_checked_sum [OF sv] by (simp add: stack_vbytes_def comp_def)
  with a b rate r len that [of r] show ?thesis
    by (simp add: unat_saturating_mul)
qed

text \<open>What a transaction on top of the pending stack leaves: the whole stack pays its feerate.\<close>

definition stack_paid :: "onchain_config \<Rightarrow> onchain_db \<Rightarrow> onchain_db \<Rightarrow> bool" where
  "stack_paid cfg db db' \<longleftrightarrow>
     (\<exists>r. (consensus_feerate cfg db :: (unit, u32 option) outcome) = Done (Some r) \<and>
        length (pending_txs_unordered db') = length (pending_txs_unordered db) + 1 \<and>
        min (stack_vbytes db' * stack_feerate r (length (pending_txs_unordered db))) (2 ^ 64 - 1) div 1000
          \<le> stack_fees db')"

lemma consensus_feerate_cong:
  "(consensus_feerate cfg db :: ('e, u32 option) outcome) = Done r \<Longrightarrow>
   feerate_votes db' = feerate_votes db \<Longrightarrow> (consensus_feerate cfg db' :: ('f, u32 option) outcome) = Done r"
  by (auto simp: consensus_feerate_def onchain_nodes_def obind_Done_iff Let_def)

lemma stack_paid_rows:
  assumes f: "(consensus_fee cfg db1 vb :: ('e, sats option) outcome) = Done (Some f)" and le: "f \<le> fee"
    and none: "unsigned_row db = None"
    and same: "unsigned_row db1 = unsigned_row db" "unconfirmed db1 = unconfirmed db" "feerate_votes db1 = feerate_votes db"
    and row: "map_option (\<lambda>t. (vbytes t, mtx_fee t)) (unsigned_row db') = Some (vb, fee)"
    and rest: "unconfirmed db' = unconfirmed db"
  shows "stack_paid cfg db db'"
proof -
  from row rest obtain t where
    new: "unsigned_row db' = Some t" "vbytes t = vb" "mtx_fee t = fee" "unconfirmed db' = unconfirmed db"
    by auto
  have p: "pending_txs_unordered db1 = pending_txs_unordered db"
    "pending_txs_unordered db' = t # pending_txs_unordered db"
    using none same new by (simp_all add: pending_txs_unordered_def)
  show ?thesis
    using f le
  proof (rule consensus_fee_covers)
    fix r assume r: "(consensus_feerate cfg db1 :: ('e, u32 option) outcome) = Done (Some r)"
      and "min ((unat vb + stack_vbytes db1) * stack_feerate r (length (pending_txs_unordered db1))) (2 ^ 64 - 1)
        div 1000 \<le> unat fee + stack_fees db1"
    moreover have "(consensus_feerate cfg db :: (unit, u32 option) outcome) = Done (Some r)"
      using same by (intro consensus_feerate_cong [OF r]) simp
    ultimately show ?thesis
      using new unfolding stack_paid_def stack_vbytes_def stack_fees_def p by auto
  qed
qed

lemma onchain_output_paid:
  assumes "onchain_process_output C W cfg h x p db = Done (a, db')"
  shows "stack_paid cfg db db'"
  using assms
proof (rule onchain_output_Done)
  fix wallet fee ov change tx b
  assume fee: "(send_fee cfg (db\<lparr>mint_row := None\<rparr>) :: (onchain_output_error, sats option) outcome) = Done (Some fee)"
    "fee \<le> oo_fee x" and none: "unsigned_row db = None"
    and db': "db' = (wallet_rows C W wallet tx [] change SEND_TX_VBYTES (oo_fee x) b (db\<lparr>mint_row := None\<rparr>))
       \<lparr>tx_info_index := bt_insert p (total_txs db) (tx_info_index db)\<rparr>"
  show ?thesis
    by (rule stack_paid_rows [OF fee [unfolded send_fee_def] none]) (simp_all add: db' wallet_rows_def)
qed

text \<open>A deposit either becomes the first wallet, without a transaction, or pays for the stack.\<close>

lemma onchain_input_paid:
  assumes "onchain_process_input C W cfg h i db = Done ((a, pk), db')" and "mint_row db \<noteq> None"
  shows "stack_paid cfg db db'"
  using assms(1)
proof (rule onchain_input_Done)
  fix tracked fee ov
  let ?db = "db\<lparr>spent_outputs := bs_insert (output_index i) (spent_outputs db)\<rparr>"
  assume fee: "(receive_fee cfg ?db :: (onchain_input_error, sats option) outcome) = Done (Some fee)" "fee \<le> oi_fee i"
    and into: "receive_into C W cfg h i tracked ov ?db = Done db'"
  from receive_into_Done [OF into] assms(2) obtain wallet change tx b where
    none: "unsigned_row db = None" and
    db': "db' = wallet_rows C W wallet tx [\<lparr>st_value = to_value (tr_out tracked), st_tweak = tweak_hash C (oi_tweak i)\<rparr>]
        change RECEIVE_TX_VBYTES (oi_fee i) b ?db"
    by auto
  show ?thesis
    by (rule stack_paid_rows [OF fee [unfolded receive_fee_def] none]) (simp_all add: db' wallet_rows_def)
qed

end
