(* ===== verification/Onchain_Blocks.thy ===== *)
theory Onchain_Blocks
  imports Onchain_Wallet
begin

text \<open>
  Tracking the chain: votes on the block at the tracked height, the outputs a threshold of
  identical votes appends under dense indices, and the reads of the module's API over the tables.
\<close>

section \<open>Appending outputs\<close>

lemma append_outputs_dense:
  assumes "dense m" "bt_len m + length xs < 2 ^ 64"
  shows "dense (append_outputs xs (next_index m) m)
    \<and> bt_len (append_outputs xs (next_index m) m) = bt_len m + length xs
    \<and> (\<forall>k. unat k < bt_len m \<longrightarrow> bt_get (append_outputs xs (next_index m) m) k = bt_get m k)
    \<and> (\<forall>j < length xs. bt_get (append_outputs xs (next_index m) m) (of_nat (bt_len m + j)) = Some (xs ! j))"
  using assms
proof (induction xs arbitrary: m)
  case (Cons x xs)
  let ?n = "next_index m" and ?m = "bt_insert (next_index m) x m"
  have n: "?n = of_nat (bt_len m)" by (rule next_index_dense [OF Cons.prems(1)])
  have room: "?n \<noteq> - 1"
    using Cons.prems(2) by (auto simp: n word_unat_eq_iff unat_of_nat unsigned_minus_1_eq_mask mask_eq_exp_minus_1)
  note d = dense_append [OF Cons.prems(1) room, of x]
  have n1: "next_index ?m = ?n + 1" using next_index_dense [OF d(1)] d(2) by (simp add: n)
  from Cons.IH [OF d(1)] d(2) Cons.prems(2) have IH:
    "dense (append_outputs xs (?n + 1) ?m)"
    "bt_len (append_outputs xs (?n + 1) ?m) = bt_len m + 1 + length xs"
    "\<And>k. unat k < bt_len m + 1 \<Longrightarrow> bt_get (append_outputs xs (?n + 1) ?m) k = bt_get ?m k"
    "\<And>j. j < length xs \<Longrightarrow> bt_get (append_outputs xs (?n + 1) ?m) (of_nat (bt_len m + 1 + j)) = Some (xs ! j)"
    by (simp_all add: n1)
  have ne: "k \<noteq> ?n" if "unat k < bt_len m" for k
    using that Cons.prems by (auto simp: n unat_of_nat dense_def)
  have first: "bt_get (append_outputs xs (?n + 1) ?m) ?n = Some x"
    using IH(3) [of ?n] Cons.prems by (simp add: n unat_of_nat dense_def)
  have "bt_get (append_outputs xs (?n + 1) ?m) (of_nat (bt_len m + j)) = Some ((x # xs) ! j)"
    if "j < length (x # xs)" for j
    using that first IH(4) [of "j - 1"] by (cases j) (simp_all add: n add.assoc)
  then show ?case
    using IH(1,2,3) ne by auto
qed simp

section \<open>Block votes\<close>

text \<open>
  Every vote in the table is for the block at the tracked height, no set of identical votes has
  reached the threshold without being applied, and the tracked outputs are dense.
\<close>

definition blocks_ok :: "onchain_config \<Rightarrow> onchain_db \<Rightarrow> bool" where
  "blocks_ok cfg db \<longleftrightarrow>
     dense (tracked_outputs db) \<and>
     (\<forall>p v. bt_get (block_votes db) p = Some v \<longrightarrow> block_height db = Some (bv_height v)) \<and>
     (\<forall>n v. to_num_nodes (onchain_pks cfg) = Some n \<longrightarrow> votes_for (\<lambda>w. w = v) (block_votes db) < threshold n)"

lemma threshold_pos [simp]: "0 < threshold n"
  by (simp add: threshold_def)

lemma votes_for_empty [simp]: "votes_for P bt_empty = 0"
  by (simp add: votes_for_def bt_values_def)

lemma blocks_ok_start: "tracked_outputs db = bt_empty \<Longrightarrow> block_votes db = bt_empty \<Longrightarrow> blocks_ok cfg db"
  by (simp add: blocks_ok_def)

lemma votes_for_insert_other:
  "bt_get m p = None \<Longrightarrow> \<not> P v \<Longrightarrow> votes_for P (bt_insert p v m) = votes_for P m"
  unfolding votes_for_card by (rule arg_cong [where f = card]) auto

text \<open>
  An accepted vote is recorded; when it completes a threshold of identical votes the block is
  applied: its outputs get the next indices, in order, the pending transactions it confirms are
  dropped, the height advances by one and the votes are cleared.
\<close>

lemma process_block_vote_Done:
  assumes d: "process_block_vote cfg p v db = Done db'" and ok: "blocks_ok cfg db"
    and n: "to_num_nodes (onchain_pks cfg) = Some n"
  shows "block_height db = Some (bv_height v)" "bt_get (block_votes db) p = None"
    "db' = (if votes_for (\<lambda>w. w = v) (bt_insert p v (block_votes db)) < threshold n
       then db\<lparr>block_votes := bt_insert p v (block_votes db)\<rparr>
       else apply_block v (db\<lparr>block_votes := bt_insert p v (block_votes db)\<rparr>))"
  using d n
  by (auto simp: process_block_vote_def onchain_threshold_def onchain_nodes_def expect_def bt_has_def Let_def
      votes_for_def split: if_splits)

lemma blocks_ok_vote:
  assumes d: "process_block_vote cfg p v db = Done db'" and ok: "blocks_ok cfg db"
    and n: "to_num_nodes (onchain_pks cfg) = Some n"
    and room: "bt_len (tracked_outputs db) + length (block_outputs (bv_txs v)) < 2 ^ 64"
  shows "blocks_ok cfg db'"
proof (cases "votes_for (\<lambda>w. w = v) (bt_insert p v (block_votes db)) < threshold n")
  case True
  note D = process_block_vote_Done [OF d ok n]
  have "votes_for (\<lambda>w. w = u) (bt_insert p v (block_votes db)) < threshold n" for u
  proof (cases "u = v")
    case False
    then show ?thesis
      using ok n D(2) by (simp add: votes_for_insert_other blocks_ok_def)
  qed (use True in simp)
  then show ?thesis using ok D True n by (auto simp: blocks_ok_def)
next
  case False
  then show ?thesis
    using ok process_block_vote_Done [OF d ok n] append_outputs_dense [OF _ room]
    by (simp add: blocks_ok_def apply_block_def)
qed

section \<open>Reads\<close>

definition onchain_txid :: "out_point \<Rightarrow> onchain_db \<Rightarrow> hash256 option" where
  "onchain_txid p db = Option.bind (bt_get (tx_info_index db) p) (\<lambda>i. map_option ti_txid (bt_get (tx_infos db) i))"

definition get_outputs :: "wallet_ops \<Rightarrow> u64 \<Rightarrow> u64 \<Rightarrow> onchain_db \<Rightarrow> output_info list" where
  "get_outputs W lo hi db =
     (let spent = map fst (bt_range lo hi (spent_outputs db))
      in map (\<lambda>(i, x). \<lparr>oi_index = i, oi_script = script_pubkey (tr_out x), oi_value = to_value (tr_out x),
             oi_spent = (i \<in> set spent)\<rparr>)
           (filter (\<lambda>(i, x). is_p2tr W (script_pubkey (tr_out x))) (bt_range lo hi (tracked_outputs db))))"

definition tx_chain :: "onchain_db \<Rightarrow> tx_info list" where
  "tx_chain db = bt_values (tx_infos db)"

definition pending_tx_chain :: "onchain_db \<Rightarrow> tx_info list" where
  "pending_tx_chain db = take (length (pending_txs_unordered db)) (rev (tx_chain db))"

definition next_block_height :: "onchain_db \<Rightarrow> u32" where
  "next_block_height db = (case block_height db of None \<Rightarrow> 0 | Some h \<Rightarrow> h)"

text \<open>A slice reports an output as spent exactly when its index has been claimed.\<close>

lemma get_outputs_spent:
  "o' \<in> set (get_outputs W lo hi db) \<longleftrightarrow>
     (\<exists>x. bt_get (tracked_outputs db) (oi_index o') = Some x \<and> lo \<le> oi_index o' \<and> oi_index o' < hi \<and>
        is_p2tr W (script_pubkey (tr_out x)) \<and> oi_script o' = script_pubkey (tr_out x) \<and>
        oi_value o' = to_value (tr_out x) \<and> oi_spent o' = bt_has (spent_outputs db) (oi_index o'))"
  (is "?l \<longleftrightarrow> ?r")
proof -
  have spent: "i \<in> fst ` set (bt_range lo hi (spent_outputs db)) \<longleftrightarrow>
      lo \<le> i \<and> i < hi \<and> bt_has (spent_outputs db) i" for i
    by (force simp: bt_range_def bt_has_def bt_get_def map_of_eq_None_iff)
  show ?thesis
  proof
    assume ?l then show ?r
      by (auto simp: get_outputs_def Let_def spent) (auto simp: bt_range_def bt_get_Some_iff)
  next
    assume ?r
    then obtain x where x: "(oi_index o', x) \<in> set (bt_range lo hi (tracked_outputs db))"
      "is_p2tr W (script_pubkey (tr_out x))" "oi_script o' = script_pubkey (tr_out x)"
      "oi_value o' = to_value (tr_out x)" "oi_spent o' = bt_has (spent_outputs db) (oi_index o')"
      "lo \<le> oi_index o'" "oi_index o' < hi"
      by (auto simp: bt_range_def bt_get_Some_iff)
    have "o' = \<lparr>oi_index = oi_index o', oi_script = script_pubkey (tr_out x), oi_value = to_value (tr_out x),
        oi_spent = (oi_index o' \<in> set (map fst (bt_range lo hi (spent_outputs db))))\<rparr>"
      using x by (cases o') (simp add: spent)
    then show ?l
      unfolding get_outputs_def Let_def set_map
      by (intro image_eqI [where x = "(oi_index o', x)"]) (use x(1,2) in simp_all)
  qed
qed

end
