(* ===== verification/Onchain_Signing.thy ===== *)
theory Onchain_Signing
  imports Onchain_Wallet
begin

text \<open>
  The signing sessions of a wallet transaction: the append-only nonce log, whose consecutive chunks
  of threshold entries are the sessions, and the signature shares that respond to it. The
  invariant of the two tables, and what it gives: a session's members are distinct nodes, a nonce
  entry is signed with once, and a completed session finalises the transaction without a panic.
\<close>

section \<open>Chunks of the log\<close>

lemma sorted_keys_set_eqI:
  assumes "sorted_keys xs" "sorted_keys ys" "set xs = set ys"
  shows "xs = ys"
proof (rule sorted_keys_eqI [OF assms(1,2)])
  have "distinct (map fst xs)" "distinct (map fst ys)"
    using assms sorted_keys_distinct by auto
  then show "map_of xs = map_of ys"
    using assms(3) by (intro ext) (metis map_of_eq_None_iff map_of_eq_Some_iff not_Some_eq)
qed

lemma set_map_filter_iff: "y \<in> set (List.map_filter f xs) \<longleftrightarrow> (\<exists>x \<in> set xs. f x = Some y)"
  by (force simp: List.map_filter_def)

lemma length_map_filter_le: "length (List.map_filter f xs) \<le> length xs"
  by (simp add: List.map_filter_def)

lemma bt_range_eq:
  assumes ab: "a \<le> b" and b: "b < 2 ^ 64"
  shows "bt_range (of_nat a) (of_nat b :: u64) m =
    List.map_filter (\<lambda>i. map_option (Pair (of_nat i)) (bt_get m (of_nat i))) [a..<b]"
proof (rule sorted_keys_set_eqI)
  let ?f = "\<lambda>i. map_option (Pair (of_nat i :: u64)) (bt_get m (of_nat i))"
  show "sorted_keys (bt_range (of_nat a) (of_nat b) m)"
    by (simp add: bt_range_def)
  have "sorted_wrt (<) (filter (\<lambda>i. ?f i \<noteq> None) [a..<b])"
    by (intro sorted_wrt_filter) simp
  then have "sorted_wrt (\<lambda>i j. (of_nat i :: u64) < of_nat j) (filter (\<lambda>i. ?f i \<noteq> None) [a..<b])"
    by (rule sorted_wrt_mono_rel [rotated]) (use b in \<open>auto simp: word_less_nat_alt unat_of_nat\<close>)
  moreover have "map fst (List.map_filter ?f [a..<b]) = map of_nat (filter (\<lambda>i. ?f i \<noteq> None) [a..<b])"
    by (auto simp: List.map_filter_def)
  ultimately show "sorted_keys (List.map_filter ?f [a..<b])"
    by (simp add: sorted_keys_def sorted_wrt_map)
  have bnd: "of_nat a \<le> k \<and> k < of_nat b \<longleftrightarrow> a \<le> unat k \<and> unat k < b" for k :: u64
    using ab b by (auto simp: word_le_nat_alt word_less_nat_alt unat_of_nat)
  show "set (bt_range (of_nat a) (of_nat b) m) = set (List.map_filter ?f [a..<b])"
  proof (intro set_eqI iffI)
    fix x assume "x \<in> set (bt_range (of_nat a) (of_nat b) m)"
    moreover obtain k v where x: "x = (k, v)" by fastforce
    ultimately have x: "x = (k, v)" "bt_get m k = Some v" "a \<le> unat k" "unat k < b"
      using bnd [of k] by (auto simp: bt_range_def bt_get_Some_iff)
    then show "x \<in> set (List.map_filter ?f [a..<b])"
      by (auto simp: set_map_filter_iff intro!: bexI [of _ "unat k"])
  next
    fix x assume "x \<in> set (List.map_filter ?f [a..<b])"
    then obtain i where i: "a \<le> i" "i < b" "?f i = Some x"
      by (auto simp: set_map_filter_iff)
    then show "x \<in> set (bt_range (of_nat a) (of_nat b) m)"
      using bnd [of "of_nat i"] b by (auto simp: bt_range_def unat_of_nat bt_get_Some_iff)
  qed
qed

lemma chunk_of_eq:
  assumes "(s + 1) * t < 2 ^ 64"
  shows "chunk_of t s m = List.map_filter (\<lambda>i. bt_get m (of_nat i)) [s * t..<(s + 1) * t]"
proof -
  have "map snd (List.map_filter (\<lambda>i. map_option (Pair (of_nat i :: u64)) (bt_get m (of_nat i))) xs) =
      List.map_filter (\<lambda>i. bt_get m (of_nat i)) xs" for xs
    by (induction xs) (auto simp: List.map_filter_def)
  then show ?thesis
    using bt_range_eq [of "s * t" "(s + 1) * t" m] assms by (simp add: chunk_of_def)
qed

lemma map_filter_full:
  "(\<And>x. x \<in> set xs \<Longrightarrow> f x \<noteq> None) \<Longrightarrow> List.map_filter f xs = map (\<lambda>x. the (f x)) xs"
  by (induction xs) (auto simp: List.map_filter_def)

lemma length_map_filter_full:
  "length (List.map_filter f xs) = length xs \<longleftrightarrow> (\<forall>x \<in> set xs. f x \<noteq> None)"
proof (induction xs)
  case (Cons x xs)
  then show ?case
    using length_map_filter_le [of f xs]
    by (cases "f x") (simp_all add: List.map_filter_simps)
qed (simp add: List.map_filter_simps)

text \<open>A session is complete in a table when every index of its chunk is present.\<close>

definition chunk_full :: "nat \<Rightarrow> nat \<Rightarrow> (u64, 'v) btmap \<Rightarrow> bool" where
  "chunk_full t s m \<longleftrightarrow> (\<forall>i. s * t \<le> i \<and> i < (s + 1) * t \<longrightarrow> bt_get m (of_nat i) \<noteq> None)"

lemma length_chunk_of:
  assumes "(s + 1) * t < 2 ^ 64"
  shows "length (chunk_of t s m) = t \<longleftrightarrow> chunk_full t s m"
  using length_map_filter_full [of "\<lambda>i. bt_get m (of_nat i)" "[s * t..<(s + 1) * t]"]
  by (auto simp: chunk_of_eq [OF assms] chunk_full_def)

lemma chunk_of_full:
  assumes "(s + 1) * t < 2 ^ 64" "chunk_full t s m"
  shows "chunk_of t s m = map (\<lambda>j. the (bt_get m (of_nat (s * t + j)))) [0..<t]"
proof -
  have "chunk_of t s m = map (\<lambda>i. the (bt_get m (of_nat i))) [s * t..<(s + 1) * t]"
    unfolding chunk_of_eq [OF assms(1)]
    by (rule map_filter_full) (use assms(2) in \<open>simp add: chunk_full_def\<close>)
  also have "[s * t..<(s + 1) * t] = map (\<lambda>j. s * t + j) [0..<t]"
    by (simp add: map_add_upt add.commute)
  finally show ?thesis by simp
qed

lemma chunk_full_dense:
  assumes "dense m" "0 < t"
  shows "(s + 1) * t < 2 ^ 64 \<Longrightarrow> chunk_full t s m \<longleftrightarrow> (s + 1) * t \<le> bt_len m"
proof -
  assume b: "(s + 1) * t < 2 ^ 64"
  have g: "bt_get m (of_nat i) \<noteq> None \<longleftrightarrow> i < bt_len m" if "i < (s + 1) * t" for i
    using dense_get [OF assms(1), of "of_nat i"] that b by (simp add: unat_of_nat)
  show ?thesis
  proof
    assume "chunk_full t s m"
    moreover have l: "s * t \<le> (s + 1) * t - 1" "(s + 1) * t - 1 < (s + 1) * t"
      using assms(2) by (simp_all add: add_mult_distrib)
    ultimately have "bt_get m (of_nat ((s + 1) * t - 1)) \<noteq> None"
      unfolding chunk_full_def by blast
    then show "(s + 1) * t \<le> bt_len m" using g [OF l(2)] by linarith
  next
    assume "(s + 1) * t \<le> bt_len m"
    then show "chunk_full t s m" unfolding chunk_full_def using g by (meson less_le_trans)
  qed
qed

lemma chunk_of_cong:
  assumes "(s + 1) * t < 2 ^ 64"
    and "\<And>i. s * t \<le> i \<Longrightarrow> i < (s + 1) * t \<Longrightarrow> bt_get m' (of_nat i) = bt_get m (of_nat i)"
  shows "chunk_of t s m' = chunk_of t s m"
proof -
  have eq: "List.map_filter f xs = List.map_filter g xs" if "\<And>x. x \<in> set xs \<Longrightarrow> f x = g x"
    for f g :: "nat \<Rightarrow> 'a option" and xs
    using that by (induction xs) (auto simp: List.map_filter_def)
  show ?thesis
    unfolding chunk_of_eq [OF assms(1)] by (rule eq) (use assms(2) in simp)
qed

section \<open>The latest entry of a node\<close>

lemma find_rev_latest:
  assumes "sorted_keys xs"
  shows "case List.find P (rev xs) of
      None \<Rightarrow> \<forall>y \<in> set xs. \<not> P y
    | Some x \<Rightarrow> x \<in> set xs \<and> P x \<and> (\<forall>y \<in> set xs. P y \<longrightarrow> fst y \<le> fst x)"
  using assms
proof (induction xs)
  case (Cons z zs)
  obtain k v where z: "z = (k, v)" by fastforce
  have app: "List.find P (ys @ [w]) = (case List.find P ys of None \<Rightarrow> if P w then Some w else None | Some x \<Rightarrow> Some x)"
    for ys w by (induction ys) auto
  from Cons.prems z have "sorted_keys zs" "\<forall>e \<in> set zs. k < fst e" by auto
  with Cons.IH show ?case
    by (auto simp: app z split: option.splits dest: less_imp_le)
qed simp

lemma latest_entry_None:
  "latest_entry p m = None \<longleftrightarrow> (\<forall>k e. bt_get m k = Some e \<longrightarrow> ne_node e \<noteq> p)"
  using find_rev_latest [OF sorted_keys_entries [of m], of "\<lambda>e. ne_node (snd e) = p"]
  by (auto simp: latest_entry_def bt_get_Some_iff find_None_iff split: option.splits)

lemma latest_entry_Some:
  assumes "latest_entry p m = Some l"
  obtains e where "bt_get m (of_nat l) = Some e" "ne_node e = p" "l < 2 ^ 64"
    "\<forall>k f. bt_get m k = Some f \<longrightarrow> ne_node f = p \<longrightarrow> unat k \<le> l"
proof -
  from assms obtain k e where f: "List.find (\<lambda>e. ne_node (snd e) = p) (rev (entries m)) = Some (k, e)"
    and l: "l = unat k"
    by (auto simp: latest_entry_def)
  from find_rev_latest [OF sorted_keys_entries [of m], of "\<lambda>e. ne_node (snd e) = p"] f
  have "(k, e) \<in> set (entries m)" "ne_node e = p"
    "\<forall>y \<in> set (entries m). ne_node (snd y) = p \<longrightarrow> fst y \<le> k" by auto
  then show ?thesis
    using that [of e] unsigned_less [of k, where 'a = nat] unfolding l
    by (force simp: bt_get_Some_iff word_le_nat_alt)
qed

section \<open>The invariant of the log\<close>

text \<open>
  A stored response verifies, share by share, against the nonces of its own session; \<open>msgs\<close> are the
  sighashes of the transaction.
\<close>

definition shares_valid ::
  "wallet_ops \<Rightarrow> onchain_config \<Rightarrow> nat \<Rightarrow> mint_tx \<Rightarrow> (u64, nonce_entry) btmap \<Rightarrow> u64 \<Rightarrow> node_id \<Rightarrow> tss_share list \<Rightarrow> bool" where
  "shares_valid W cfg t u log k p s \<longleftrightarrow>
     (\<forall>msgs. sighashes W cfg u = Some msgs \<longrightarrow>
        (\<forall>i < length (spent_tx_outs u).
           check_share W cfg p (chunk_of t (unat k div t) log) i (spent_tx_outs u ! i) (msgs ! i) (s ! i) = Some True))"

text \<open>
  Two entries of a node are in different sessions, and the earlier one has been responded to. A
  response stands for an entry of a complete session that its node has already replaced.
\<close>

definition entries_ok :: "nat \<Rightarrow> (u64, nonce_entry) btmap \<Rightarrow> (u64, tss_share list) btmap \<Rightarrow> bool" where
  "entries_ok t log resp \<longleftrightarrow>
     (\<forall>i j e f. bt_get log i = Some e \<longrightarrow> bt_get log j = Some f \<longrightarrow> ne_node e = ne_node f \<longrightarrow> i < j \<longrightarrow>
        unat i div t < unat j div t \<and> bt_get resp i \<noteq> None)"

definition responses_ok ::
  "wallet_ops \<Rightarrow> onchain_config \<Rightarrow> nat \<Rightarrow> mint_tx \<Rightarrow> (u64, nonce_entry) btmap \<Rightarrow> (u64, tss_share list) btmap \<Rightarrow> bool" where
  "responses_ok W cfg t u log resp \<longleftrightarrow>
     (\<forall>k s. bt_get resp k = Some s \<longrightarrow>
        length s = length (spent_tx_outs u) \<and> (unat k div t + 1) * t \<le> bt_len log \<and>
        (\<exists>e j f. bt_get log k = Some e \<and> shares_valid W cfg t u log k (ne_node e) s \<and>
           k < j \<and> bt_get log j = Some f \<and> ne_node f = ne_node e))"

definition log_ok :: "wallet_ops \<Rightarrow> onchain_config \<Rightarrow> nat \<Rightarrow> mint_tx \<Rightarrow> (u64, nonce_entry) btmap \<Rightarrow> (u64, tss_share list) btmap \<Rightarrow> bool" where
  "log_ok W cfg t u log resp \<longleftrightarrow>
     dense log \<and>
     (\<forall>k e. bt_get log k = Some e \<longrightarrow> length (ne_nonces e) = length (spent_tx_outs u)) \<and>
     entries_ok t log resp \<and> responses_ok W cfg t u log resp"

definition signing_ok :: "wallet_ops \<Rightarrow> onchain_config \<Rightarrow> nat \<Rightarrow> onchain_db \<Rightarrow> bool" where
  "signing_ok W cfg t db \<longleftrightarrow>
     (case unsigned_row db of
        None \<Rightarrow> nonce_log db = bt_empty \<and> share_rows db = bt_empty
      | Some u \<Rightarrow> length (spent_tx_outs u) = length (btc_inputs (mtx u)) \<and>
          log_ok W cfg t u (nonce_log db) (share_rows db))"

lemma entries_okD:
  "entries_ok t log resp \<Longrightarrow> bt_get log i = Some e \<Longrightarrow> bt_get log j = Some f \<Longrightarrow> ne_node e = ne_node f \<Longrightarrow> i < j \<Longrightarrow>
   unat i div t < unat j div t \<and> bt_get resp i \<noteq> None"
  unfolding entries_ok_def by blast

lemma responses_okD:
  assumes "responses_ok W cfg t u log resp" "bt_get resp k = Some s"
  obtains e j f where "length s = length (spent_tx_outs u)" "(unat k div t + 1) * t \<le> bt_len log"
    "bt_get log k = Some e" "shares_valid W cfg t u log k (ne_node e) s"
    "k < j" "bt_get log j = Some f" "ne_node f = ne_node e"
  using assms unfolding responses_ok_def by blast

lemma log_ok_empty: "log_ok W cfg t u bt_empty bt_empty"
  by (simp add: log_ok_def entries_ok_def responses_ok_def)

lemma signing_ok_cong:
  "unsigned_row db' = unsigned_row db \<Longrightarrow> nonce_log db' = nonce_log db \<Longrightarrow> share_rows db' = share_rows db \<Longrightarrow>
   signing_ok W cfg t db' = signing_ok W cfg t db"
  by (simp add: signing_ok_def cong: option.case_cong)

section \<open>Appending to the log\<close>

lemma dense_below_next: "dense m \<Longrightarrow> bt_get m k = Some v \<Longrightarrow> k < next_index m"
  using dense_SomeD [of m k v] by (simp add: word_less_nat_alt next_index_dense unat_of_nat dense_def)

text \<open>A complete session is not touched by what is appended after it.\<close>

lemma chunk_of_append:
  assumes d: "dense log" and full: "(s + 1) * t \<le> bt_len log"
  shows "chunk_of t s (bt_insert (next_index log) e log) = chunk_of t s log"
proof (rule chunk_of_cong)
  have n: "bt_len log < 2 ^ 64" using d by (simp add: dense_def)
  then show "(s + 1) * t < 2 ^ 64" using full by linarith
  fix i assume "i < (s + 1) * t"
  then have "i < bt_len log" using full by linarith
  then have "(of_nat i :: u64) \<noteq> next_index log"
    using n by (simp add: next_index_dense [OF d] word_unat_eq_iff unat_of_nat)
  then show "bt_get (bt_insert (next_index log) e log) (of_nat i) = bt_get log (of_nat i)" by simp
qed

lemma shares_valid_append:
  assumes "dense log" "(unat k div t + 1) * t \<le> bt_len log"
  shows "shares_valid W cfg t u (bt_insert (next_index log) e log) k p s = shares_valid W cfg t u log k p s"
  by (simp add: shares_valid_def chunk_of_append [OF assms])

lemma responses_ok_append:
  assumes d: "dense log" and room: "next_index log \<noteq> - 1" and ok: "responses_ok W cfg t u log resp"
  shows "responses_ok W cfg t u (bt_insert (next_index log) e log) resp"
  unfolding responses_ok_def
proof (intro allI impI)
  let ?log = "bt_insert (next_index log) e log"
  fix k s assume "bt_get resp k = Some s"
  with ok obtain g j f where r: "length s = length (spent_tx_outs u)" "(unat k div t + 1) * t \<le> bt_len log"
    "bt_get log k = Some g" "shares_valid W cfg t u log k (ne_node g) s"
    "k < j" "bt_get log j = Some f" "ne_node f = ne_node g"
    by (rule responses_okD)
  have "k \<noteq> next_index log" "j \<noteq> next_index log" using r(3,6) dense_next_None [OF d] by auto
  moreover have "bt_len log \<le> bt_len ?log" using dense_append [OF d room] by simp
  ultimately show "length s = length (spent_tx_outs u) \<and> (unat k div t + 1) * t \<le> bt_len ?log \<and>
      (\<exists>e j f. bt_get ?log k = Some e \<and> shares_valid W cfg t u ?log k (ne_node e) s \<and>
         k < j \<and> bt_get ?log j = Some f \<and> ne_node f = ne_node e)"
    using r shares_valid_append [OF d r(2)] by (intro conjI exI [of _ g] exI [of _ j] exI [of _ f]) auto
qed

lemma log_ok_first_entry:
  assumes ok: "log_ok W cfg t u log resp" and room: "next_index log \<noteq> - 1"
    and new: "\<And>k e. bt_get log k = Some e \<Longrightarrow> ne_node e \<noteq> p" and len: "length ns = length (spent_tx_outs u)"
  shows "log_ok W cfg t u (bt_insert (next_index log) (NonceEntry p ns) log) resp"
proof -
  let ?log = "bt_insert (next_index log) (NonceEntry p ns) log"
  from ok have d: "dense log" and e: "entries_ok t log resp" and r: "responses_ok W cfg t u log resp"
    and l: "\<And>k e. bt_get log k = Some e \<Longrightarrow> length (ne_nonces e) = length (spent_tx_outs u)"
    by (auto simp: log_ok_def)
  have "entries_ok t ?log resp"
    unfolding entries_ok_def
  proof (intro allI impI)
    fix i j e1 e2
    assume a: "bt_get ?log i = Some e1" "bt_get ?log j = Some e2" "ne_node e1 = ne_node e2" "i < j"
    then have i: "i \<noteq> next_index log"
      using dense_below_next [OF d, of j e2] by (auto split: if_splits)
    moreover from a i new have "j \<noteq> next_index log" by auto
    ultimately show "unat i div t < unat j div t \<and> bt_get resp i \<noteq> None"
      using a entries_okD [OF e, of i e1 j e2] by simp
  qed
  then show ?thesis
    using dense_append(1) [OF d room] responses_ok_append [OF d room r] l len
    by (auto simp: log_ok_def)
qed

lemma log_ok_response:
  assumes ok: "log_ok W cfg t u log resp" and room: "next_index log \<noteq> - 1" and t: "0 < t"
    and latest: "latest_entry p log = Some l" and full: "(l div t + 1) * t \<le> bt_len log"
    and len: "length ns = length (spent_tx_outs u)" "length s = length (spent_tx_outs u)"
    and valid: "shares_valid W cfg t u log (of_nat l) p s"
  shows "log_ok W cfg t u (bt_insert (next_index log) (NonceEntry p ns) log) (bt_insert (of_nat l) s resp)"
proof -
  let ?n = "next_index log"
  let ?log = "bt_insert ?n (NonceEntry p ns) log" and ?resp = "bt_insert (of_nat l) s resp"
  from ok have d: "dense log" and e: "entries_ok t log resp" and r: "responses_ok W cfg t u log resp"
    and ln: "\<And>k e. bt_get log k = Some e \<Longrightarrow> length (ne_nonces e) = length (spent_tx_outs u)"
    by (auto simp: log_ok_def)
  from latest obtain g where g: "bt_get log (of_nat l) = Some g" "ne_node g = p" "l < 2 ^ 64"
    and max: "\<forall>k f. bt_get log k = Some f \<longrightarrow> ne_node f = p \<longrightarrow> unat k \<le> l"
    by (rule latest_entry_Some)
  have ul: "unat (of_nat l :: u64) = l" using g(3) by (simp add: unat_of_nat)
  have un: "unat ?n = bt_len log"
    using d by (simp add: next_index_dense unat_of_nat dense_def)
  have ne: "of_nat l \<noteq> ?n" using g(1) dense_next_None [OF d] by auto
  have lt: "l < bt_len log" using dense_SomeD [OF d g(1)] by (simp add: ul)
  have sess: "l div t < unat ?n div t"
    using full t by (simp add: un less_eq_div_iff_mult_less_eq Suc_le_eq [symmetric])
  have "entries_ok t ?log ?resp"
    unfolding entries_ok_def
  proof (intro allI impI)
    fix i j e1 e2
    assume a: "bt_get ?log i = Some e1" "bt_get ?log j = Some e2" "ne_node e1 = ne_node e2" "i < j"
    show "unat i div t < unat j div t \<and> bt_get ?resp i \<noteq> None"
    proof (cases "j = ?n")
      case True
      with a have "i \<noteq> ?n" by auto
      with a True have i: "bt_get log i = Some e1" "ne_node e1 = p" by auto
      then have "unat i \<le> l" using max by blast
      moreover have "bt_get ?resp i \<noteq> None"
      proof (cases "unat i = l")
        case True
        then have "i = of_nat l" using ul by (metis word_unat_eq_iff)
        then show ?thesis by simp
      next
        case False
        then have "i < of_nat l" using \<open>unat i \<le> l\<close> by (simp add: word_less_nat_alt ul)
        then show ?thesis using entries_okD [OF e i(1) g(1)] i(2) g(2) by auto
      qed
      moreover have "unat i div t \<le> l div t" using \<open>unat i \<le> l\<close> by (rule div_le_mono)
      ultimately show ?thesis using sess True by auto
    next
      case False
      have "i \<noteq> ?n"
        using a False dense_below_next [OF d, of j e2] by auto
      with a False show ?thesis using entries_okD [OF e, of i e1 j e2] by auto
    qed
  qed
  moreover have "responses_ok W cfg t u ?log ?resp"
    unfolding responses_ok_def
  proof (intro allI impI)
    fix k s' assume a: "bt_get ?resp k = Some s'"
    show "length s' = length (spent_tx_outs u) \<and> (unat k div t + 1) * t \<le> bt_len ?log \<and>
      (\<exists>e j f. bt_get ?log k = Some e \<and> shares_valid W cfg t u ?log k (ne_node e) s' \<and>
         k < j \<and> bt_get ?log j = Some f \<and> ne_node f = ne_node e)"
    proof (cases "k = of_nat l")
      case False
      with a have "bt_get resp k = Some s'" by simp
      then show ?thesis
        using responses_ok_append [OF d room r, of "NonceEntry p ns"] unfolding responses_ok_def by blast
    next
      case True
      then have "shares_valid W cfg t u ?log k p s'"
        using a valid shares_valid_append [OF d, of k t W cfg u "NonceEntry p ns" p s'] full by (simp add: ul)
      moreover have "k < ?n" using lt by (simp add: True word_less_nat_alt ul un)
      ultimately show ?thesis
        using True a len(2) full dense_append(2) [OF d room, of "NonceEntry p ns"] ne g
        by (intro conjI exI [of _ g] exI [of _ ?n] exI [of _ "NonceEntry p ns"]) (auto simp: ul)
    qed
  qed
  ultimately show ?thesis
    using dense_append(1) [OF d room] ln len(1) by (auto simp: log_ok_def)
qed

end
