(* ===== verification/Onchain_Sessions.thy ===== *)
theory Onchain_Sessions
  imports Onchain_Blocks Onchain_Signing
begin

text \<open>
  Accepting nonces and signature shares, and finalising: every accepted item keeps the invariant of
  the log, and a session with a response from every member signs each input of the transaction.

  The handlers of the onchain module's consensus items against the invariants: every accepted item
  keeps them, and no item makes the module panic.
\<close>

section \<open>What signing relies on\<close>

text \<open>
  The threshold signatures are sound on the sessions that are \<open>good\<close>: a response from each of exactly a
  threshold of signers that verifies against the session's nonces aggregates to a signature that
  verifies. The scheme itself leaves out the sessions whose nonces cancel. The sighash of an input
  exists when every input has its previous output. No tweak in use is outside the curve's order or
  cancels a key, which no hash does but with negligible probability.
\<close>

type_synonym session_condition = "hash256 \<Rightarrow> (u64, tss_nonce) btmap \<Rightarrow> (u64, tss_share) btmap \<Rightarrow> secp_pk \<Rightarrow> bool"

definition tss_sound :: "session_condition \<Rightarrow> wallet_ops \<Rightarrow> onchain_config \<Rightarrow> nat \<Rightarrow> bool" where
  "tss_sound good W cfg t \<longleftrightarrow>
     (\<forall>msg tweak agg col shares.
        tweaked_agg_pk W cfg tweak = Some agg \<longrightarrow> bt_len col = t \<longrightarrow> bt_keys shares = bt_keys col \<longrightarrow>
        good msg col shares agg \<longrightarrow>
        (\<forall>n s. bt_get shares n = Some s \<longrightarrow>
           (\<exists>p pks. n = node_u64 p \<and> tweaked_pks W cfg p tweak = Some pks \<and> tss_verify_share W msg n pks s col agg)) \<longrightarrow>
        tss_verify W msg (tss_aggregate W msg col shares agg) agg)"

definition sighash_total :: "wallet_ops \<Rightarrow> bool" where
  "sighash_total W \<longleftrightarrow>
     (\<forall>tx prevouts i. length prevouts = length (btc_inputs tx) \<longrightarrow> i < length (btc_inputs tx) \<longrightarrow>
        taproot_sighash W tx prevouts i \<noteq> None)"

definition usable_tweaks :: "wallet_ops \<Rightarrow> onchain_config \<Rightarrow> mint_tx \<Rightarrow> bool" where
  "usable_tweaks W cfg u \<longleftrightarrow>
     (\<forall>x \<in> set (spent_tx_outs u). tweaked_agg_pk W cfg (st_tweak x) \<noteq> None \<and>
        (\<forall>p. bt_get (onchain_pks cfg) p \<noteq> None \<longrightarrow> tweaked_pks W cfg p (st_tweak x) \<noteq> None))"

lemma usable_tweaksD:
  assumes "usable_tweaks W cfg u" "i < length (spent_tx_outs u)"
  obtains agg where "tweaked_agg_pk W cfg (st_tweak (spent_tx_outs u ! i)) = Some agg"
    "\<forall>p. bt_get (onchain_pks cfg) p \<noteq> None \<longrightarrow> tweaked_pks W cfg p (st_tweak (spent_tx_outs u ! i)) \<noteq> None"
proof -
  have "spent_tx_outs u ! i \<in> set (spent_tx_outs u)" using assms(2) by simp
  then show ?thesis
    using assms(1) that unfolding usable_tweaks_def by blast
qed

lemma option_seq_all: "(\<And>x. x \<in> set xs \<Longrightarrow> f x \<noteq> None) \<Longrightarrow> option_seq (map f xs) = Some (map (\<lambda>x. the (f x)) xs)"
  by (auto simp: option_seq_Some_iff)

lemma sighashes_Some:
  assumes "usable_tweaks W cfg u" "sighash_total W" "length (spent_tx_outs u) = length (btc_inputs (mtx u))"
  obtains msgs where "sighashes W cfg u = Some msgs" "length msgs = length (spent_tx_outs u)"
proof -
  let ?f = "\<lambda>x. map_option (\<lambda>scr. \<lparr>to_value = st_value x, script_pubkey = scr\<rparr>) (script_pubkey_of W cfg (st_tweak x))"
  have p: "option_seq (map ?f (spent_tx_outs u)) = Some (map (\<lambda>x. the (?f x)) (spent_tx_outs u))"
    using assms(1) by (intro option_seq_all)
      (auto simp: usable_tweaks_def tweaked_agg_pk_def script_pubkey_of_def tweaked_script_pubkey_def tweaked_output_key_def)
  have "option_seq (map (taproot_sighash W (mtx u) (map (\<lambda>x. the (?f x)) (spent_tx_outs u))) [0..<length (spent_tx_outs u)])
      = Some (map (\<lambda>i. the (taproot_sighash W (mtx u) (map (\<lambda>x. the (?f x)) (spent_tx_outs u)) i))
          [0..<length (spent_tx_outs u)])"
    using assms(2,3) by (intro option_seq_all) (simp add: sighash_total_def)
  with p that show ?thesis by (simp add: sighashes_def)
qed

section \<open>Columns\<close>

lemma node_u64_inj [simp]: "node_u64 p = node_u64 q \<longleftrightarrow> p = q"
proof
  assume "node_u64 p = node_u64 q"
  then have "unat (node_u64 p) = unat (node_u64 q)" by simp
  moreover have "unat (node_u64 p) = unat p" for p
    using unsigned_less [of p, where 'a = nat] by (simp add: node_u64_def unsigned_ucast_eq take_bit_eq_mod)
  ultimately show "p = q" by (simp add: word_unat_eq_iff)
qed simp

lemma nonce_column_Some:
  "(\<And>e. e \<in> set chunk \<Longrightarrow> i < length (ne_nonces e)) \<Longrightarrow>
   nonce_column chunk i = Some (bt_of_list (map (\<lambda>e. (node_u64 (ne_node e), ne_nonces e ! i)) chunk))"
proof -
  assume "\<And>e. e \<in> set chunk \<Longrightarrow> i < length (ne_nonces e)"
  then have "option_seq (map (\<lambda>e. map_option (Pair (node_u64 (ne_node e))) (nth_opt (ne_nonces e) i)) chunk) =
      Some (map (\<lambda>e. (node_u64 (ne_node e), ne_nonces e ! i)) chunk)"
    by (simp add: option_seq_Some_iff nth_opt_def)
  then show ?thesis by (simp add: nonce_column_def)
qed

section \<open>Checking shares\<close>

lemma check_shares_Done:
  "check_shares W cfg p chunk i xs = Done () \<Longrightarrow> j < length xs \<Longrightarrow>
   check_share W cfg p chunk (i + j) (fst (fst (xs ! j))) (snd (fst (xs ! j))) (snd (xs ! j)) = Some True"
proof (induction xs arbitrary: i j)
  case (Cons a xs)
  obtain x msg share where a: "a = ((x, msg), share)" by (metis surj_pair)
  from Cons.prems(1) have "check_share W cfg p chunk i x msg share = Some True"
    and "check_shares W cfg p chunk (i + 1) xs = Done ()"
    by (auto simp: a obind_Done_iff)
  with Cons.IH [of "i + 1" "j - 1"] Cons.prems(2) show ?case by (cases j) (auto simp: a)
qed simp

lemma check_shares_no_panic:
  assumes "\<And>j. j < length xs \<Longrightarrow>
    check_share W cfg p chunk (i + j) (fst (fst (xs ! j))) (snd (fst (xs ! j))) (snd (xs ! j)) \<noteq> None"
  shows "check_shares W cfg p chunk i xs \<noteq> Panicked"
  using assms
proof (induction xs arbitrary: i)
  case (Cons a xs)
  obtain x msg share where a: "a = ((x, msg), share)" by (metis surj_pair)
  have "check_share W cfg p chunk i x msg share \<noteq> None"
    using Cons.prems [of 0] by (simp add: a)
  moreover have "check_shares W cfg p chunk (i + 1) xs \<noteq> Panicked"
    using Cons.prems [of "Suc _"] by (intro Cons.IH) (simp add: a)
  ultimately show ?case by (auto simp: a obind_Panicked_iff)
qed simp

section \<open>Finalising\<close>

text \<open>
  A complete session: the entries of a chunk, each by another node and with a nonce per input, and
  a response to each that verifies.
\<close>

definition session_complete ::
  "wallet_ops \<Rightarrow> onchain_config \<Rightarrow> nat \<Rightarrow> mint_tx \<Rightarrow> hash256 list \<Rightarrow> nonce_entry list \<Rightarrow> tss_share list list \<Rightarrow> bool" where
  "session_complete W cfg t u msgs chunk responses \<longleftrightarrow>
     length chunk = t \<and> length responses = t \<and> distinct (map ne_node chunk) \<and>
     (\<forall>e \<in> set chunk. length (ne_nonces e) = length (spent_tx_outs u)) \<and>
     (\<forall>j < t. length (responses ! j) = length (spent_tx_outs u) \<and>
        (\<forall>i < length (spent_tx_outs u).
           check_share W cfg (ne_node (chunk ! j)) chunk i (spent_tx_outs u ! i) (msgs ! i) (responses ! j ! i) =
             Some True))"

text \<open>The shares of one input, as the session's responses carry them.\<close>

definition share_column :: "nonce_entry list \<Rightarrow> tss_share list list \<Rightarrow> nat \<Rightarrow> (u64, tss_share) btmap" where
  "share_column chunk responses i = bt_of_list (map (\<lambda>(e, r). (node_u64 (ne_node e), r ! i)) (zip chunk responses))"

text \<open>Whatever responses complete the session, it is good for every input.\<close>

definition session_good :: "session_condition \<Rightarrow> wallet_ops \<Rightarrow> onchain_config \<Rightarrow> nat \<Rightarrow> mint_tx \<Rightarrow> nonce_entry list \<Rightarrow> bool" where
  "session_good good W cfg t u chunk \<longleftrightarrow>
     (\<forall>msgs responses i col agg. sighashes W cfg u = Some msgs \<longrightarrow> session_complete W cfg t u msgs chunk responses \<longrightarrow>
        i < length (spent_tx_outs u) \<longrightarrow> nonce_column chunk i = Some col \<longrightarrow>
        tweaked_agg_pk W cfg (st_tweak (spent_tx_outs u ! i)) = Some agg \<longrightarrow>
        good (msgs ! i) col (share_column chunk responses i) agg)"

definition sessions_good :: "session_condition \<Rightarrow> wallet_ops \<Rightarrow> onchain_config \<Rightarrow> nat \<Rightarrow> onchain_db \<Rightarrow> bool" where
  "sessions_good good W cfg t db \<longleftrightarrow>
     (\<forall>u s. unsigned_row db = Some u \<longrightarrow> (s + 1) * t \<le> bt_len (nonce_log db) \<longrightarrow>
        session_good good W cfg t u (chunk_of t s (nonce_log db)))"

lemma sign_input_Some:
  assumes c: "session_complete W cfg t u msgs chunk responses" and snd: "tss_sound good W cfg t"
    and use: "usable_tweaks W cfg u" and sg: "session_good good W cfg t u chunk" "sighashes W cfg u = Some msgs"
    and i: "i < length (spent_tx_outs u)"
  shows "\<exists>sig agg. sign_input W cfg chunk responses i (spent_tx_outs u ! i) (msgs ! i) = Some sig \<and>
    tweaked_agg_pk W cfg (st_tweak (spent_tx_outs u ! i)) = Some agg \<and> tss_verify W (msgs ! i) sig agg"
proof -
  let ?x = "spent_tx_outs u ! i"
  let ?ns = "map (\<lambda>e. (node_u64 (ne_node e), ne_nonces e ! i)) chunk"
  let ?ss = "map (\<lambda>(e, r). (node_u64 (ne_node e), r ! i)) (zip chunk responses)"
  from c have len: "length chunk = t" "length responses = t" and dist: "distinct (map ne_node chunk)"
    and ne: "\<And>e. e \<in> set chunk \<Longrightarrow> length (ne_nonces e) = length (spent_tx_outs u)"
    and rl: "\<And>j. j < t \<Longrightarrow> length (responses ! j) = length (spent_tx_outs u)"
    and ok: "\<And>j. j < t \<Longrightarrow> check_share W cfg (ne_node (chunk ! j)) chunk i ?x (msgs ! i) (responses ! j ! i) = Some True"
    using i by (auto simp: session_complete_def)
  from usable_tweaksD [OF use i] obtain agg where agg: "tweaked_agg_pk W cfg (st_tweak ?x) = Some agg" by blast
  have col: "nonce_column chunk i = Some (bt_of_list ?ns)"
    using ne i by (intro nonce_column_Some) simp
  have "distinct (map (node_u64 \<circ> ne_node) chunk)"
    using dist by (simp add: distinct_map inj_on_def)
  moreover have keys: "map fst ?ns = map (node_u64 \<circ> ne_node) chunk" "map fst ?ss = map (node_u64 \<circ> ne_node) chunk"
    using len by (simp_all add: comp_def case_prod_unfold map_fst_zip flip: map_map [of "\<lambda>e. node_u64 (ne_node e)" fst, unfolded comp_def])
  ultimately have d: "distinct (map fst ?ns)" "distinct (map fst ?ss)" by (simp_all only:)
  have shares: "option_seq (map (\<lambda>(e, r). map_option (Pair (node_u64 (ne_node e))) (nth_opt r i)) (zip chunk responses))
      = Some ?ss"
    using rl i len by (auto simp: option_seq_Some_iff nth_opt_def set_zip)
  have "tss_verify W (msgs ! i) (tss_aggregate W (msgs ! i) (bt_of_list ?ns) (bt_of_list ?ss) agg) agg"
  proof (rule snd [unfolded tss_sound_def, rule_format, OF agg])
    show "bt_len (bt_of_list ?ns) = t" using bt_len_of_list [OF d(1)] len by simp
    show "bt_keys (bt_of_list ?ss) = bt_keys (bt_of_list ?ns)"
      by (rule bt_keys_eqI) (simp only: set_keys_of_list set_map [symmetric] keys)
    show "good (msgs ! i) (bt_of_list ?ns) (bt_of_list ?ss) agg"
      using sg(1) [unfolded session_good_def, rule_format, OF sg(2) c i col agg] by (simp add: share_column_def)
    fix n s assume "bt_get (bt_of_list ?ss) n = Some s"
    then have "(n, s) \<in> set ?ss" by (simp only: bt_get_of_list_distinct [OF d(2)])
    then obtain j where j: "j < t" "n = node_u64 (ne_node (chunk ! j))" "s = responses ! j ! i"
      using len by (auto simp: set_zip)
    from ok [OF j(1)] show "\<exists>p pks. n = node_u64 p \<and> tweaked_pks W cfg p (st_tweak ?x) = Some pks \<and>
        tss_verify_share W (msgs ! i) n pks s (bt_of_list ?ns) agg"
      by (auto simp: check_share_def col agg j bind_eq_Some_conv)
  qed
  then show ?thesis
    by (simp add: sign_input_def shares col agg Let_def)
qed

text \<open>Signing changes nothing but the witnesses.\<close>

lemma sign_inputs_same:
  "sign_inputs W cfg chunk responses i xs tx = Some tx' \<Longrightarrow>
   map previous_output (btc_inputs tx') = map previous_output (btc_inputs tx) \<and> btc_outputs tx' = btc_outputs tx"
proof (induction W cfg chunk responses i xs tx rule: sign_inputs.induct)
  case (2 W cfg chunk responses i x msg rest tx)
  from 2(2) obtain sig where "sign_input W cfg chunk responses i x msg = Some sig" "i < length (btc_inputs tx)"
    "sign_inputs W cfg chunk responses (i + 1) rest (set_witness i sig tx) = Some tx'"
    by (auto simp: bind_eq_Some_conv split: if_splits)
  moreover from this(2) have "map previous_output (btc_inputs (set_witness i sig tx)) = map previous_output (btc_inputs tx)"
    by (intro nth_equalityI) (auto simp: set_witness_def nth_list_update)
  ultimately show ?case using 2(1) by (simp add: set_witness_def)
qed simp

lemma finalize_tx_same:
  assumes "finalize_tx W cfg u msgs chunk responses = Some u'"
  shows "spent_tx_outs u' = spent_tx_outs u" "mtx_fee u' = mtx_fee u" "vbytes u' = vbytes u"
    "map previous_output (btc_inputs (mtx u')) = map previous_output (btc_inputs (mtx u))" "btc_outputs (mtx u') = btc_outputs (mtx u)"
  using assms sign_inputs_same [of W cfg chunk responses 0 "zip (spent_tx_outs u) msgs" "mtx u"]
  by (auto simp: finalize_tx_def split: if_splits)

lemma sign_inputs_Some:
  assumes "\<And>j. j < length xs \<Longrightarrow> sign_input W cfg chunk responses (i + j) (fst (xs ! j)) (snd (xs ! j)) \<noteq> None"
    and "i + length xs \<le> length (btc_inputs tx)"
  shows "\<exists>tx'. sign_inputs W cfg chunk responses i xs tx = Some tx' \<and> length (btc_inputs tx') = length (btc_inputs tx) \<and>
    btc_outputs tx' = btc_outputs tx \<and>
    map previous_output (btc_inputs tx') = map previous_output (btc_inputs tx) \<and>
    (\<forall>k. k < i \<longrightarrow> btc_inputs tx' ! k = btc_inputs tx ! k) \<and>
    (\<forall>j < length xs. \<exists>sig. sign_input W cfg chunk responses (i + j) (fst (xs ! j)) (snd (xs ! j)) = Some sig \<and>
       witness (btc_inputs tx' ! (i + j)) = Some (enc_int sig))"
  using assms
proof (induction xs arbitrary: i tx)
  case (Cons a xs)
  obtain x msg where a: "a = (x, msg)" by fastforce
  from Cons.prems(1) [of 0] obtain sig where sig: "sign_input W cfg chunk responses i x msg = Some sig"
    by (auto simp: a)
  let ?tx = "set_witness i sig tx"
  have i: "i < length (btc_inputs tx)" using Cons.prems(2) by simp
  have same: "map previous_output (btc_inputs ?tx) = map previous_output (btc_inputs tx)"
    using i by (intro nth_equalityI) (auto simp: set_witness_def nth_list_update)
  from Cons.IH [of "i + 1" ?tx] Cons.prems(1) [of "Suc _"] Cons.prems(2)
  obtain tx' where tx': "sign_inputs W cfg chunk responses (i + 1) xs ?tx = Some tx'"
    "length (btc_inputs tx') = length (btc_inputs ?tx)" "btc_outputs tx' = btc_outputs ?tx"
    "map previous_output (btc_inputs tx') = map previous_output (btc_inputs ?tx)"
    "\<And>k. k < i + 1 \<Longrightarrow> btc_inputs tx' ! k = btc_inputs ?tx ! k"
    "\<And>j. j < length xs \<Longrightarrow> \<exists>sig. sign_input W cfg chunk responses (i + 1 + j) (fst (xs ! j)) (snd (xs ! j)) = Some sig \<and>
       witness (btc_inputs tx' ! (i + 1 + j)) = Some (enc_int sig)"
    by (auto simp: set_witness_def)
  have "\<exists>sig. sign_input W cfg chunk responses (i + j) (fst ((a # xs) ! j)) (snd ((a # xs) ! j)) = Some sig \<and>
      witness (btc_inputs tx' ! (i + j)) = Some (enc_int sig)" if "j < length (a # xs)" for j
    using that tx'(5) [of i] tx'(6) [of "j - 1"] sig i by (cases j) (auto simp: a set_witness_def)
  moreover have "btc_inputs tx' ! k = btc_inputs tx ! k" if "k < i" for k
    using tx'(5) [of k] that by (simp add: set_witness_def)
  ultimately show ?case
    using tx'(1-4) same i by (auto simp: a sig set_witness_def)
qed simp

text \<open>Finalising a complete session succeeds: every input carries a signature that verifies.\<close>

lemma finalize_tx_Some:
  assumes c: "session_complete W cfg t u msgs chunk responses" and "tss_sound good W cfg t" "usable_tweaks W cfg u"
      "session_good good W cfg t u chunk" "sighashes W cfg u = Some msgs"
    and len: "length (spent_tx_outs u) = length (btc_inputs (mtx u))" "length msgs = length (spent_tx_outs u)"
  shows "\<exists>u'. finalize_tx W cfg u msgs chunk responses = Some u' \<and> spent_tx_outs u' = spent_tx_outs u \<and>
    vbytes u' = vbytes u \<and> mtx_fee u' = mtx_fee u \<and> btc_outputs (mtx u') = btc_outputs (mtx u) \<and>
    map previous_output (btc_inputs (mtx u')) = map previous_output (btc_inputs (mtx u)) \<and>
    (\<forall>i < length (spent_tx_outs u). \<exists>sig agg. witness (btc_inputs (mtx u') ! i) = Some (enc_int sig) \<and>
       tweaked_agg_pk W cfg (st_tweak (spent_tx_outs u ! i)) = Some agg \<and> tss_verify W (msgs ! i) sig agg)"
proof -
  let ?xs = "zip (spent_tx_outs u) msgs"
  have s: "\<exists>sig agg. sign_input W cfg chunk responses i (fst (?xs ! i)) (snd (?xs ! i)) = Some sig \<and>
      tweaked_agg_pk W cfg (st_tweak (spent_tx_outs u ! i)) = Some agg \<and> tss_verify W (msgs ! i) sig agg"
    if "i < length (spent_tx_outs u)" for i
    using sign_input_Some [OF assms(1-5) that] that len by simp
  from sign_inputs_Some [of ?xs W cfg chunk responses 0 "mtx u"] s len
  obtain tx' where tx': "sign_inputs W cfg chunk responses 0 ?xs (mtx u) = Some tx'"
    "btc_outputs tx' = btc_outputs (mtx u)"
    "map previous_output (btc_inputs tx') = map previous_output (btc_inputs (mtx u))"
    "\<And>j. j < length ?xs \<Longrightarrow> \<exists>sig. sign_input W cfg chunk responses j (fst (?xs ! j)) (snd (?xs ! j)) = Some sig \<and>
       witness (btc_inputs tx' ! j) = Some (enc_int sig)"
    by (auto simp del: nth_zip) fastforce
  have "\<exists>sig agg. witness (btc_inputs tx' ! i) = Some (enc_int sig) \<and>
       tweaked_agg_pk W cfg (st_tweak (spent_tx_outs u ! i)) = Some agg \<and> tss_verify W (msgs ! i) sig agg"
    if "i < length (spent_tx_outs u)" for i
    using tx'(4) [of i] s [OF that] that len by auto
  then show ?thesis
    using tx'(1-3) len by (auto simp: finalize_tx_def)
qed

section \<open>Complete sessions\<close>

lemma sighashes_length: "sighashes W cfg u = Some msgs \<Longrightarrow> length msgs = length (spent_tx_outs u)"
  by (auto simp: sighashes_def bind_eq_Some_conv option_seq_Some_iff dest!: map_eq_imp_length_eq)

lemma unat_of_nat_u64: "n < 2 ^ 64 \<Longrightarrow> unat (of_nat n :: u64) = n"
  by (simp add: unat_of_nat)

lemma session_index:
  assumes "j < t" "(s + 1) * t \<le> n" "n < 2 ^ 64"
  shows "unat (of_nat (s * t + j) :: u64) = s * t + j" "unat (of_nat (s * t + j) :: u64) div t = s"
proof -
  have "s * t + j < 2 ^ 64" using assms by simp
  then show u: "unat (of_nat (s * t + j) :: u64) = s * t + j" by (rule unat_of_nat_u64)
  show "unat (of_nat (s * t + j) :: u64) div t = s" unfolding u using assms(1) by simp
qed

lemma session_complete_full:
  assumes ok: "log_ok W cfg t u log resp" and t: "0 < t" and full: "chunk_full t s resp"
    and len: "(s + 1) * t \<le> bt_len log" and msgs: "sighashes W cfg u = Some msgs"
  shows "session_complete W cfg t u msgs (chunk_of t s log) (chunk_of t s resp)"
proof -
  from ok have d: "dense log" and e: "entries_ok t log resp" and r: "responses_ok W cfg t u log resp"
    and ln: "\<And>k e. bt_get log k = Some e \<Longrightarrow> length (ne_nonces e) = length (spent_tx_outs u)"
    by (auto simp: log_ok_def)
  have n: "bt_len log < 2 ^ 64" using d by (simp add: dense_def)
  have b: "(s + 1) * t < 2 ^ 64" using len n by linarith
  have fl: "chunk_full t s log" using chunk_full_dense [OF d t b] len by simp
  let ?k = "\<lambda>j. of_nat (s * t + j) :: u64"
  note C = chunk_of_full [OF b fl] and R = chunk_of_full [OF b full]
  have g: "bt_get log (?k j) = Some (chunk_of t s log ! j)" if "j < t" for j
    using fl that by (simp add: C chunk_full_def del: of_nat_add of_nat_mult)
  have gr: "bt_get resp (?k j) = Some (chunk_of t s resp ! j)" if "j < t" for j
    using full that by (simp add: R chunk_full_def del: of_nat_add of_nat_mult)
  have "ne_node (chunk_of t s log ! i) \<noteq> ne_node (chunk_of t s log ! j)" if "i < j" "j < t" for i j
  proof
    assume eq: "ne_node (chunk_of t s log ! i) = ne_node (chunk_of t s log ! j)"
    have "?k i < ?k j"
      using that session_index(1) [OF _ len n] by (simp add: word_less_nat_alt)
    with entries_okD [OF e g g eq] that have "unat (?k i) div t < unat (?k j) div t" by simp
    then show False using session_index(2) [OF _ len n] that by simp
  qed
  then have "ne_node (chunk_of t s log ! i) \<noteq> ne_node (chunk_of t s log ! j)" if "i < t" "j < t" "i \<noteq> j" for i j
    using that by (metis linorder_neqE_nat)
  then have dist: "distinct (map ne_node (chunk_of t s log))"
    by (simp add: distinct_conv_nth C)
  have "length (chunk_of t s resp ! j) = length (spent_tx_outs u) \<and>
      (\<forall>i < length (spent_tx_outs u). check_share W cfg (ne_node (chunk_of t s log ! j)) (chunk_of t s log) i
         (spent_tx_outs u ! i) (msgs ! i) (chunk_of t s resp ! j ! i) = Some True)" if j: "j < t" for j
    using r gr [OF j]
  proof (rule responses_okD)
    fix e assume "length (chunk_of t s resp ! j) = length (spent_tx_outs u)" "bt_get log (?k j) = Some e"
      "shares_valid W cfg t u log (?k j) (ne_node e) (chunk_of t s resp ! j)"
    then show ?thesis
      using g [OF j] msgs session_index(2) [OF j len n] by (simp add: shares_valid_def)
  qed
  moreover have "length (ne_nonces x) = length (spent_tx_outs u)" if "x \<in> set (chunk_of t s log)" for x
    using that g ln by (metis C in_set_conv_nth length_map length_upt minus_nat.diff_0)
  ultimately show ?thesis
    using dist by (simp add: session_complete_def C R)
qed

section \<open>Nonces\<close>

lemma process_nonces_Done:
  assumes "process_nonces W p txid ns db = Done db'"
  obtains u where "unsigned_row db = Some u" "compute_txid W (mtx u) = txid"
    "length ns = length (spent_tx_outs u)" "\<forall>k e. bt_get (nonce_log db) k = Some e \<longrightarrow> ne_node e \<noteq> p"
    "db' = db\<lparr>nonce_log := bt_insert (next_index (nonce_log db)) (NonceEntry p ns) (nonce_log db)\<rparr>"
proof -
  from assms obtain u where u: "unsigned_row db = Some u" "compute_txid W (mtx u) = txid"
    "length ns = length (spent_tx_outs u)" "list_all (\<lambda>e. ne_node e \<noteq> p) (bt_values (nonce_log db))"
    "db' = db\<lparr>nonce_log := bt_insert (next_index (nonce_log db)) (NonceEntry p ns) (nonce_log db)\<rparr>"
    by (auto simp: process_nonces_def obind_Done_iff split: if_splits)
  have "ne_node e \<noteq> p" if "bt_get (nonce_log db) k = Some e" for k e
    using u(4) that bt_values_iff [of e "nonce_log db"] by (auto simp: list_all_iff)
  with u that show ?thesis by blast
qed

lemma signing_ok_nonces:
  assumes d: "process_nonces W p txid ns db = Done db'" and ok: "signing_ok W cfg t db"
    and room: "next_index (nonce_log db) \<noteq> - 1"
  shows "signing_ok W cfg t db'"
  using d
proof (rule process_nonces_Done)
  fix u assume u: "unsigned_row db = Some u" and len: "length ns = length (spent_tx_outs u)"
    and new: "\<forall>k e. bt_get (nonce_log db) k = Some e \<longrightarrow> ne_node e \<noteq> p"
    and db': "db' = db\<lparr>nonce_log := bt_insert (next_index (nonce_log db)) (NonceEntry p ns) (nonce_log db)\<rparr>"
  have "log_ok W cfg t u (nonce_log db) (share_rows db)" using ok u by (simp add: signing_ok_def)
  from log_ok_first_entry [OF this room _ len, of p] new show ?thesis
    using ok u by (auto simp: signing_ok_def db')
qed

section \<open>Signature shares\<close>

text \<open>What an accepted response does, up to the point where its session may be complete.\<close>

definition add_response :: "nat \<Rightarrow> node_id \<Rightarrow> tss_share list \<Rightarrow> tss_nonce list \<Rightarrow> onchain_db \<Rightarrow> onchain_db" where
  "add_response l p shares fresh db =
     db\<lparr>share_rows := bt_insert (of_nat l) shares (share_rows db),
        nonce_log := bt_insert (next_index (nonce_log db)) (NonceEntry p fresh) (nonce_log db)\<rparr>"

lemma onchain_threshold_iff:
  "to_num_nodes (onchain_pks cfg) = Some n \<Longrightarrow> (onchain_threshold cfg :: ('e, nat) outcome) = Done (threshold n)"
  by (simp add: onchain_threshold_def onchain_nodes_def expect_def)

lemma process_shares_Done:
  assumes d: "process_signature_shares W cfg p txid shares fresh db = Done db'"
    and n: "to_num_nodes (onchain_pks cfg) = Some n"
  defines "t \<equiv> threshold n"
  obtains u l msgs where "unsigned_row db = Some u" "compute_txid W (mtx u) = txid"
    "length shares = length (spent_tx_outs u)" "length fresh = length (spent_tx_outs u)"
    "latest_entry p (nonce_log db) = Some l" "length (chunk_of t (l div t) (nonce_log db)) = t"
    "sighashes W cfg u = Some msgs"
    "check_shares W cfg p (chunk_of t (l div t) (nonce_log db)) 0 (zip (zip (spent_tx_outs u) msgs) shares) = Done ()"
    "\<not> bt_has (share_rows db) (of_nat l)"
    "if length (chunk_of t (l div t) (share_rows (add_response l p shares fresh db))) = t
     then \<exists>signed. finalize_tx W cfg u msgs (chunk_of t (l div t) (nonce_log db))
              (chunk_of t (l div t) (share_rows (add_response l p shares fresh db))) = Some signed \<and>
            db' = (add_response l p shares fresh db)\<lparr>unsigned_row := None, nonce_log := bt_empty,
              share_rows := bt_empty, unconfirmed := bt_insert txid signed (unconfirmed db)\<rparr>
     else db' = add_response l p shares fresh db"
  using d unfolding process_signature_shares_def onchain_threshold_iff [OF n] t_def [symmetric]
  by (auto simp: obind_Done_iff Let_def add_response_def split: if_splits)

lemma chunk_bounds:
  assumes t: "0 < t" and l: "l < n" and room: "n + t < (2 :: nat) ^ 64"
  shows "(l div t + 1) * t < 2 ^ 64"
proof -
  have "l div t * t \<le> l" by simp
  then show ?thesis using l room unfolding add_mult_distrib by linarith
qed

lemma response_shares_valid:
  assumes c: "check_shares W cfg p (chunk_of t (l div t) log) 0 (zip (zip (spent_tx_outs u) msgs) shares) = Done ()"
    and m: "sighashes W cfg u = Some msgs" and len: "length shares = length (spent_tx_outs u)" and l: "l < 2 ^ 64"
  shows "shares_valid W cfg t u log (of_nat l) p shares"
  unfolding shares_valid_def
proof (intro allI impI)
  fix msgs' i assume "sighashes W cfg u = Some msgs'" "i < length (spent_tx_outs u)"
  then show "check_share W cfg p (chunk_of t (unat (of_nat l :: u64) div t) log) i (spent_tx_outs u ! i) (msgs' ! i)
      (shares ! i) = Some True"
    using check_shares_Done [OF c, of i] m len l sighashes_length [OF m] by (simp add: unat_of_nat)
qed

text \<open>After an accepted response the log is in order, before the session is looked at.\<close>

lemma log_ok_add_response:
  assumes ok: "log_ok W cfg t u (nonce_log db) (share_rows db)" and t: "0 < t"
    and room: "bt_len (nonce_log db) + t < 2 ^ 64"
    and l: "latest_entry p (nonce_log db) = Some l" and full: "length (chunk_of t (l div t) (nonce_log db)) = t"
    and len: "length shares = length (spent_tx_outs u)" "length fresh = length (spent_tx_outs u)"
    and m: "sighashes W cfg u = Some msgs"
    and c: "check_shares W cfg p (chunk_of t (l div t) (nonce_log db)) 0 (zip (zip (spent_tx_outs u) msgs) shares) = Done ()"
  shows "log_ok W cfg t u (nonce_log (add_response l p shares fresh db)) (share_rows (add_response l p shares fresh db))"
    and "(l div t + 1) * t \<le> bt_len (nonce_log db)"
proof -
  have d: "dense (nonce_log db)" using ok by (simp add: log_ok_def)
  from l obtain g where g: "bt_get (nonce_log db) (of_nat l) = Some g" "l < 2 ^ 64"
    by (rule latest_entry_Some) blast
  have lt: "l < bt_len (nonce_log db)" using dense_SomeD [OF d g(1)] g(2) by (simp add: unat_of_nat)
  have b: "(l div t + 1) * t < 2 ^ 64" by (rule chunk_bounds [OF t lt room])
  show le: "(l div t + 1) * t \<le> bt_len (nonce_log db)"
    using full length_chunk_of [OF b] chunk_full_dense [OF d t b] by blast
  have rm: "next_index (nonce_log db) \<noteq> - 1"
    using room t by (auto simp: next_index_dense [OF d] word_unat_eq_iff unat_of_nat unsigned_minus_1_eq_mask mask_eq_exp_minus_1)
  show "log_ok W cfg t u (nonce_log (add_response l p shares fresh db)) (share_rows (add_response l p shares fresh db))"
    using log_ok_response [OF ok rm t l le len(2,1) response_shares_valid [OF c m len(1) g(2)]]
    by (simp add: add_response_def)
qed

text \<open>When the responses of the session are all there, the session is complete.\<close>

lemma response_completes:
  assumes ok: "log_ok W cfg t u (nonce_log db) (share_rows db)" and t: "0 < t"
    and room: "bt_len (nonce_log db) + t < 2 ^ 64"
    and l: "latest_entry p (nonce_log db) = Some l" and full: "length (chunk_of t (l div t) (nonce_log db)) = t"
    and len: "length shares = length (spent_tx_outs u)" "length fresh = length (spent_tx_outs u)"
    and m: "sighashes W cfg u = Some msgs"
    and c: "check_shares W cfg p (chunk_of t (l div t) (nonce_log db)) 0 (zip (zip (spent_tx_outs u) msgs) shares) = Done ()"
    and r: "length (chunk_of t (l div t) (share_rows (add_response l p shares fresh db))) = t"
  shows "session_complete W cfg t u msgs (chunk_of t (l div t) (nonce_log db))
    (chunk_of t (l div t) (share_rows (add_response l p shares fresh db)))"
proof -
  let ?db = "add_response l p shares fresh db"
  have d: "dense (nonce_log db)" using ok by (simp add: log_ok_def)
  from l obtain g where g: "bt_get (nonce_log db) (of_nat l) = Some g" "l < 2 ^ 64"
    by (rule latest_entry_Some) blast
  have lt: "l < bt_len (nonce_log db)" using dense_SomeD [OF d g(1)] g(2) by (simp add: unat_of_nat)
  have b: "(l div t + 1) * t < 2 ^ 64" by (rule chunk_bounds [OF t lt room])
  note A = log_ok_add_response [OF ok t room l full len m c]
  have same: "chunk_of t (l div t) (nonce_log ?db) = chunk_of t (l div t) (nonce_log db)"
    using chunk_of_append [OF d A(2)] by (simp add: add_response_def)
  have "length (chunk_of t (l div t) (nonce_log ?db)) = t" using same full by simp
  then have "(l div t + 1) * t \<le> bt_len (nonce_log ?db)"
    using chunk_full_dense [OF _ t b, of "nonce_log ?db"] A(1) length_chunk_of [OF b]
    unfolding log_ok_def by blast
  moreover have "chunk_full t (l div t) (share_rows ?db)" using r length_chunk_of [OF b] by blast
  ultimately show ?thesis
    using session_complete_full [OF A(1) t _ _ m, of "l div t"] same by simp
qed

lemma signing_ok_shares:
  assumes d: "process_signature_shares W cfg p txid shares fresh db = Done db'"
    and n: "to_num_nodes (onchain_pks cfg) = Some n" and ok: "signing_ok W cfg (threshold n) db"
    and room: "bt_len (nonce_log db) + threshold n < 2 ^ 64"
  shows "signing_ok W cfg (threshold n) db'"
  using d n
proof (rule process_shares_Done)
  fix u l msgs let ?t = "threshold n"
  assume u: "unsigned_row db = Some u" and len: "length shares = length (spent_tx_outs u)" "length fresh = length (spent_tx_outs u)"
    and l: "latest_entry p (nonce_log db) = Some l" and full: "length (chunk_of ?t (l div ?t) (nonce_log db)) = ?t"
    and m: "sighashes W cfg u = Some msgs"
    and c: "check_shares W cfg p (chunk_of ?t (l div ?t) (nonce_log db)) 0 (zip (zip (spent_tx_outs u) msgs) shares) = Done ()"
    and res: "if length (chunk_of ?t (l div ?t) (share_rows (add_response l p shares fresh db))) = ?t
     then \<exists>signed. finalize_tx W cfg u msgs (chunk_of ?t (l div ?t) (nonce_log db))
              (chunk_of ?t (l div ?t) (share_rows (add_response l p shares fresh db))) = Some signed \<and>
            db' = (add_response l p shares fresh db)\<lparr>unsigned_row := None, nonce_log := bt_empty,
              share_rows := bt_empty, unconfirmed := bt_insert txid signed (unconfirmed db)\<rparr>
     else db' = add_response l p shares fresh db"
  have lo: "log_ok W cfg ?t u (nonce_log db) (share_rows db)" using ok u by (simp add: signing_ok_def)
  have un: "unsigned_row (add_response l p shares fresh db) = Some u" using u by (simp add: add_response_def)
  show ?thesis
    using res log_ok_add_response(1) [OF lo threshold_pos room l full len m c] ok u un
    by (auto simp: signing_ok_def split: if_splits)
qed

section \<open>No item makes the module panic\<close>

lemma process_shares_no_panic:
  assumes n: "to_num_nodes (onchain_pks cfg) = Some n" and ok: "signing_ok W cfg (threshold n) db"
    and room: "bt_len (nonce_log db) + threshold n < 2 ^ 64"
    and p: "bt_get (onchain_pks cfg) p \<noteq> None"
    and snd: "tss_sound good W cfg (threshold n)" "sessions_good good W cfg (threshold n) db" and tot: "sighash_total W"
    and use: "\<And>u. unsigned_row db = Some u \<Longrightarrow> usable_tweaks W cfg u"
  shows "process_signature_shares W cfg p txid shares fresh db \<noteq> Panicked"
proof
  let ?t = "threshold n"
  assume P: "process_signature_shares W cfg p txid shares fresh db = Panicked"
  show False
  proof (cases "unsigned_row db")
    case None
    with P show False by (simp add: process_signature_shares_def obind_Panicked_iff ok_or_def)
  next
    case (Some u)
    have lo: "log_ok W cfg ?t u (nonce_log db) (share_rows db)"
      and inp: "length (spent_tx_outs u) = length (btc_inputs (mtx u))"
      using ok Some by (auto simp: signing_ok_def)
    from lo have d: "dense (nonce_log db)"
      and ln: "\<And>k e. bt_get (nonce_log db) k = Some e \<Longrightarrow> length (ne_nonces e) = length (spent_tx_outs u)"
      by (auto simp: log_ok_def)
    from sighashes_Some [OF use [OF Some] tot inp] obtain msgs where
      m: "sighashes W cfg u = Some msgs" and ml: "length msgs = length (spent_tx_outs u)" .
    from P obtain l where l: "latest_entry p (nonce_log db) = Some l"
      and len: "length shares = length (spent_tx_outs u)" "length fresh = length (spent_tx_outs u)"
      and full: "length (chunk_of ?t (l div ?t) (nonce_log db)) = ?t"
      and rest: "check_shares W cfg p (chunk_of ?t (l div ?t) (nonce_log db)) 0 (zip (zip (spent_tx_outs u) msgs) shares)
          = Panicked \<or>
        (check_shares W cfg p (chunk_of ?t (l div ?t) (nonce_log db)) 0 (zip (zip (spent_tx_outs u) msgs) shares) = Done () \<and>
         length (chunk_of ?t (l div ?t) (share_rows (add_response l p shares fresh db))) = ?t \<and>
         finalize_tx W cfg u msgs (chunk_of ?t (l div ?t) (nonce_log db))
           (chunk_of ?t (l div ?t) (share_rows (add_response l p shares fresh db))) = None)"
      unfolding process_signature_shares_def onchain_threshold_iff [OF n]
      by (auto simp: Some m obind_Panicked_iff Let_def add_response_def split: if_splits)
    from l obtain g where g: "bt_get (nonce_log db) (of_nat l) = Some g" "l < 2 ^ 64"
      by (rule latest_entry_Some) blast
    have lt: "l < bt_len (nonce_log db)" using dense_SomeD [OF d g(1)] g(2) by (simp add: unat_of_nat)
    have b: "(l div ?t + 1) * ?t < 2 ^ 64" by (rule chunk_bounds [OF threshold_pos lt room])
    have fl: "chunk_full ?t (l div ?t) (nonce_log db)" using full length_chunk_of [OF b] by blast
    have nl: "length (ne_nonces e) = length (spent_tx_outs u)" if "e \<in> set (chunk_of ?t (l div ?t) (nonce_log db))" for e
      using that ln unfolding chunk_of_eq [OF b] by (auto simp: set_map_filter_iff)
    from rest show False
    proof
      assume "check_shares W cfg p (chunk_of ?t (l div ?t) (nonce_log db)) 0 (zip (zip (spent_tx_outs u) msgs) shares)
          = Panicked"
      moreover have "check_share W cfg p (chunk_of ?t (l div ?t) (nonce_log db)) j (spent_tx_outs u ! j) (msgs ! j)
          (shares ! j) \<noteq> None" if j: "j < length (spent_tx_outs u)" for j
      proof -
        from usable_tweaksD [OF use [OF Some] j] p obtain agg pks where
          "tweaked_agg_pk W cfg (st_tweak (spent_tx_outs u ! j)) = Some agg"
          "tweaked_pks W cfg p (st_tweak (spent_tx_outs u ! j)) = Some pks" by blast
        then show ?thesis
          using nonce_column_Some [of "chunk_of ?t (l div ?t) (nonce_log db)" j] nl j
          by (simp add: check_share_def)
      qed
      ultimately show False
        using check_shares_no_panic [of "zip (zip (spent_tx_outs u) msgs) shares" W cfg p _ 0] len ml by auto
    next
      let ?db = "add_response l p shares fresh db"
      assume r: "check_shares W cfg p (chunk_of ?t (l div ?t) (nonce_log db)) 0 (zip (zip (spent_tx_outs u) msgs) shares) = Done () \<and>
         length (chunk_of ?t (l div ?t) (share_rows ?db)) = ?t \<and>
         finalize_tx W cfg u msgs (chunk_of ?t (l div ?t) (nonce_log db)) (chunk_of ?t (l div ?t) (share_rows ?db)) = None"
      have "session_complete W cfg ?t u msgs (chunk_of ?t (l div ?t) (nonce_log db)) (chunk_of ?t (l div ?t) (share_rows ?db))"
        using response_completes [OF lo threshold_pos room l full len m] r by blast
      have sg: "session_good good W cfg ?t u (chunk_of ?t (l div ?t) (nonce_log db))"
        using snd(2) Some chunk_full_dense [OF d threshold_pos b] fl by (simp add: sessions_good_def)
      from finalize_tx_Some [OF \<open>session_complete W cfg ?t u msgs _ _\<close> snd(1) use [OF Some] sg m inp ml] r show False by auto
    qed
  qed
qed

text \<open>
  What ends a signing session: the transaction moves to the unconfirmed ones with the same inputs and
  outputs, and every input carries a signature that verifies under its tweaked key.
\<close>

lemma process_shares_signs:
  assumes d: "process_signature_shares W cfg p txid shares fresh db = Done db'"
    and n: "to_num_nodes (onchain_pks cfg) = Some n" and ok: "signing_ok W cfg (threshold n) db"
    and room: "bt_len (nonce_log db) + threshold n < 2 ^ 64"
    and snd: "tss_sound good W cfg (threshold n)" "sessions_good good W cfg (threshold n) db" and use: "usable_tweaks W cfg u"
    and u: "unsigned_row db = Some u" and fin: "unsigned_row db' = None"
  shows "\<exists>u' msgs. bt_get (unconfirmed db') txid = Some u' \<and> sighashes W cfg u = Some msgs \<and>
    btc_outputs (mtx u') = btc_outputs (mtx u) \<and>
    map previous_output (btc_inputs (mtx u')) = map previous_output (btc_inputs (mtx u)) \<and>
    (\<forall>i < length (spent_tx_outs u). \<exists>sig agg. witness (btc_inputs (mtx u') ! i) = Some (enc_int sig) \<and>
       tweaked_agg_pk W cfg (st_tweak (spent_tx_outs u ! i)) = Some agg \<and> tss_verify W (msgs ! i) sig agg)"
  using d n
proof (rule process_shares_Done)
  fix v l msgs let ?t = "threshold n" and ?db = "add_response l p shares fresh db"
  assume v: "unsigned_row db = Some v" and len: "length shares = length (spent_tx_outs v)" "length fresh = length (spent_tx_outs v)"
    and l: "latest_entry p (nonce_log db) = Some l" and full: "length (chunk_of ?t (l div ?t) (nonce_log db)) = ?t"
    and m: "sighashes W cfg v = Some msgs"
    and c: "check_shares W cfg p (chunk_of ?t (l div ?t) (nonce_log db)) 0 (zip (zip (spent_tx_outs v) msgs) shares) = Done ()"
    and res: "if length (chunk_of ?t (l div ?t) (share_rows ?db)) = ?t
     then \<exists>signed. finalize_tx W cfg v msgs (chunk_of ?t (l div ?t) (nonce_log db))
              (chunk_of ?t (l div ?t) (share_rows ?db)) = Some signed \<and>
            db' = ?db\<lparr>unsigned_row := None, nonce_log := bt_empty,
              share_rows := bt_empty, unconfirmed := bt_insert txid signed (unconfirmed db)\<rparr>
     else db' = ?db"
  have uv: "v = u" using u v by simp
  have lo: "log_ok W cfg ?t u (nonce_log db) (share_rows db)" and inp: "length (spent_tx_outs u) = length (btc_inputs (mtx u))"
    using ok u by (auto simp: signing_ok_def)
  have full_r: "length (chunk_of ?t (l div ?t) (share_rows ?db)) = ?t"
    using res fin v by (auto simp: add_response_def split: if_splits)
  with res obtain signed where f: "finalize_tx W cfg u msgs (chunk_of ?t (l div ?t) (nonce_log db))
        (chunk_of ?t (l div ?t) (share_rows ?db)) = Some signed"
    and db': "db' = ?db\<lparr>unsigned_row := None, nonce_log := bt_empty,
        share_rows := bt_empty, unconfirmed := bt_insert txid signed (unconfirmed db)\<rparr>"
    by (auto simp: uv)
  have "session_complete W cfg ?t u msgs (chunk_of ?t (l div ?t) (nonce_log db)) (chunk_of ?t (l div ?t) (share_rows ?db))"
    by (rule response_completes [OF lo threshold_pos room l full _ _ _ _ full_r]) (use len m c uv in simp_all)
  moreover have "(l div ?t + 1) * ?t \<le> bt_len (nonce_log db)"
    by (rule log_ok_add_response(2) [OF lo threshold_pos room l full]) (use len m c uv in simp_all)
  then have "session_good good W cfg ?t u (chunk_of ?t (l div ?t) (nonce_log db))"
    using snd(2) u by (simp add: sessions_good_def)
  ultimately show ?thesis
    using finalize_tx_Some [OF _ snd(1) use _ _ inp, of msgs] sighashes_length m uv f by (fastforce simp: db')
qed

lemma onchain_item_no_panic:
  assumes n: "to_num_nodes (onchain_pks cfg) = Some n" and ok: "signing_ok W cfg (threshold n) db"
    and room: "bt_len (nonce_log db) + threshold n < 2 ^ 64"
    and p: "bt_get (onchain_pks cfg) p \<noteq> None"
    and snd: "tss_sound good W cfg (threshold n)" "sessions_good good W cfg (threshold n) db" and tot: "sighash_total W"
    and use: "\<And>u. unsigned_row db = Some u \<Longrightarrow> usable_tweaks W cfg u"
  shows "onchain_process_item W cfg p item db \<noteq> Panicked"
proof (cases item)
  case (BlockItem v)
  then show ?thesis
    by (simp add: process_block_vote_def onchain_threshold_iff [OF n] Let_def)
next
  case (FeerateItem r)
  then show ?thesis by (simp add: process_feerate_vote_def)
next
  case (NoncesItem txid ns)
  then show ?thesis by (simp add: process_nonces_def obind_Panicked_iff)
next
  case (SharesItem txid ss ns)
  then show ?thesis using process_shares_no_panic [OF assms] by simp
qed

end
