(* ===== verification/Consensus_Votes.thy ===== *)
theory Consensus_Votes
  imports Outcome Vote_Rank Mint_Nodes
begin

text \<open>
  The two numbers the nodes vote on outside the modules, the block height and the consensus
  version (\<open>picomint-node-daemon/src/consensus/db.rs\<close>): which value a table of votes agrees on,
  what a vote can do to it, and that Byzantine votes alone move neither.
\<close>

section \<open>The block height\<close>

text \<open>
  The votes in descending order, indexed at \<open>threshold - 1\<close>; zero while fewer have voted. The
  mint's size is that of its node table, whose conversion panics for a size that is not allowed.
\<close>

definition consensus_block_height :: "num_nodes \<Rightarrow> (node_id, u32) btmap \<Rightarrow> u32 option" where
  "consensus_block_height n votes =
     (let heights = rev (sort (bt_values votes))
      in if \<not> length heights \<le> total n then None
         else Some (if threshold n - 1 < length heights then heights ! (threshold n - 1) else 0))"

lemma consensus_block_height_ge:
  assumes "consensus_block_height n votes = Some h"
  shows "v \<le> h \<longleftrightarrow> v = 0 \<or> threshold n \<le> votes_for (\<lambda>x. v \<le> x) votes"
proof (cases "threshold n - 1 < bt_len votes")
  case True
  have "h = rev (sort (bt_values votes)) ! (threshold n - 1)"
    using assms True by (auto simp: consensus_block_height_def Let_def split: if_splits)
  then have "v \<le> h \<longleftrightarrow> threshold n - 1 < votes_for (\<lambda>x. v \<le> x) votes"
    using rank_descending [of "threshold n - 1" "bt_values votes" v] True by (simp add: votes_for_def)
  moreover have "0 < threshold n" by (simp add: threshold_def)
  moreover have "threshold n \<le> votes_for (\<lambda>x. v \<le> x) votes" if "v = 0"
    using that True by (simp add: votes_for_def)
  ultimately show ?thesis by auto
next
  case False
  then have h: "h = 0" using assms by (auto simp: consensus_block_height_def Let_def split: if_splits)
  have "votes_for (\<lambda>x. v \<le> x) votes \<le> bt_len votes"
    by (simp add: votes_for_def) (metis length_bt_values length_filter_le)
  with False have "\<not> threshold n \<le> votes_for (\<lambda>x. v \<le> x) votes" by (auto simp: threshold_def)
  then show ?thesis by (simp add: h)
qed

text \<open>A vote is accepted when it raises the node's last vote; the agreed height never falls.\<close>

definition raise_vote :: "'v::linorder \<Rightarrow> node_id \<Rightarrow> 'v \<Rightarrow> (node_id, 'v) btmap \<Rightarrow> (node_id, 'v) btmap option" where
  "raise_vote d p v votes =
     (let current = (case bt_get votes p of None \<Rightarrow> d | Some c \<Rightarrow> c)
      in if current < v then Some (bt_insert p v votes) else None)"

lemma raise_vote_Some:
  "raise_vote d p v votes = Some votes' \<Longrightarrow>
   votes' = bt_insert p v votes \<and> (\<forall>c. bt_get votes p = Some c \<longrightarrow> c < v)"
  by (auto simp: raise_vote_def Let_def split: if_splits)

lemma raise_vote_count:
  assumes "raise_vote d p v votes = Some votes'"
  shows "votes_for (\<lambda>x. w \<le> x) votes \<le> votes_for (\<lambda>x. w \<le> x) votes'"
  using raise_vote_Some [OF assms] by (intro votes_for_mono) (auto intro: less_imp_le order.trans)

lemma consensus_block_height_mono:
  assumes "raise_vote d p v votes = Some votes'"
    and "consensus_block_height n votes = Some h" "consensus_block_height n votes' = Some h'"
  shows "h \<le> h'"
  using consensus_block_height_ge [OF assms(2), of h] consensus_block_height_ge [OF assms(3), of h]
    raise_vote_count [OF assms(1), of h]
  by (metis le_trans order_refl)

section \<open>The consensus version\<close>

definition consensus_version :: "num_nodes \<Rightarrow> consensus_version \<Rightarrow> (node_id, consensus_version) btmap \<Rightarrow>
    consensus_version option" where
  "consensus_version n d votes =
     (let versions = bt_values votes @ replicate (total n - bt_len votes) d
      in if max_evil n < length versions then Some (sort versions ! max_evil n) else None)"

lemma consensus_version_le:
  assumes "consensus_version n d votes = Some v"
  shows "v \<le> w \<longleftrightarrow>
    max_evil n < votes_for (\<lambda>x. x \<le> w) votes + (if d \<le> w then total n - bt_len votes else 0)"
proof -
  let ?vs = "bt_values votes @ replicate (total n - bt_len votes) d"
  have "max_evil n < length ?vs" "v = sort ?vs ! max_evil n"
    using assms by (auto simp: consensus_version_def Let_def split: if_splits)
  then show ?thesis
    using rank_ascending [of "max_evil n" ?vs w] by (simp add: votes_for_def)
qed

lemma consensus_version_total:
  "bt_len votes \<le> total n \<Longrightarrow> \<exists>v. consensus_version n d votes = Some v"
  by (simp add: consensus_version_def total_def)

section \<open>What honest votes guarantee\<close>

text \<open>The nodes of a mint vote; each table of votes is keyed by nodes.\<close>

definition votes_by :: "num_nodes \<Rightarrow> (node_id, 'v) btmap \<Rightarrow> bool" where
  "votes_by n votes \<longleftrightarrow> (\<forall>p. bt_get votes p \<noteq> None \<longrightarrow> p \<in> set (node_ids n))"

lemma votes_by_empty [simp]: "votes_by n bt_empty"
  by (simp add: votes_by_def)

lemma votes_by_insert: "votes_by n votes \<Longrightarrow> p \<in> set (node_ids n) \<Longrightarrow> votes_by n (bt_insert p v votes)"
  by (auto simp: votes_by_def)

lemma votes_by_len:
  assumes "small_mint n" "votes_by n votes"
  shows "bt_len votes \<le> total n"
proof -
  have "{p. bt_get votes p \<noteq> None} \<subseteq> set (node_ids n)" using assms(2) by (auto simp: votes_by_def)
  then show ?thesis
    unfolding bt_len_card card_node_ids [OF assms(1), symmetric] by (intro card_mono) simp
qed

text \<open>More votes than the nodes that may lie include an honest one.\<close>

lemma honest_vote:
  assumes n: "small_mint n" and h: "honest_set n H" and v: "votes_by n votes"
    and many: "max_evil n < votes_for P votes"
  shows "\<exists>p \<in> H. \<exists>x. bt_get votes p = Some x \<and> P x"
proof (rule ccontr)
  assume none: "\<not> ?thesis"
  let ?V = "{p. \<exists>x. bt_get votes p = Some x \<and> P x}"
  have "?V \<subseteq> set (node_ids n) - H" using v none by (auto simp: votes_by_def)
  then have "card ?V \<le> card (set (node_ids n) - H)" by (intro card_mono) simp_all
  also have "\<dots> \<le> max_evil n" using h by (simp add: honest_set_def)
  finally show False using many by (simp add: votes_for_card)
qed

lemma height_honest:
  assumes "small_mint n" "honest_set n H" "votes_by n votes"
    and "consensus_block_height n votes = Some h" "h \<noteq> 0"
  shows "\<exists>p \<in> H. \<exists>x. bt_get votes p = Some x \<and> h \<le> x"
  by (rule honest_vote [OF assms(1-3)])
    (use consensus_block_height_ge [OF assms(4), of h] assms(5) in \<open>simp add: threshold_def\<close>)

lemma version_honest:
  assumes n: "small_mint n" "honest_set n H" "votes_by n votes"
    and v: "consensus_version n d votes = Some v" and "d < v"
  shows "\<exists>p \<in> H. \<exists>x. bt_get votes p = Some x \<and> v \<le> x"
proof (rule honest_vote [OF n])
  have "\<not> v \<le> d" using assms(5) by simp
  then have "votes_for (\<lambda>x. x \<le> d) votes + (total n - bt_len votes) \<le> max_evil n"
    using consensus_version_le [OF v, of d] by simp
  have "bt_len votes \<le> total n" by (rule votes_by_len [OF n(1,3)])
  moreover have "\<not> (\<exists>w < v. v \<le> w)" by auto
  have "votes_for (\<lambda>x. x < v) votes + (total n - bt_len votes) \<le> max_evil n"
  proof (rule ccontr)
    assume c: "\<not> ?thesis"
    let ?vs = "bt_values votes @ replicate (total n - bt_len votes) d"
    have k: "max_evil n < length ?vs" "v = sort ?vs ! max_evil n"
      using v by (auto simp: consensus_version_def Let_def split: if_splits)
    have "max_evil n < length (filter (\<lambda>x. x < v) ?vs)"
      using c assms(5) by (simp add: votes_for_def)
    then have "max_evil n < length (filter (\<lambda>x. x < v) (sort ?vs))" by (simp add: length_filter_sort)
    moreover have "length (filter (\<lambda>x. x < v) (sort ?vs)) \<le> max_evil n"
    proof (rule length_filter_drop)
      fix i assume "max_evil n \<le> i" "i < length (sort ?vs)"
      then have "v \<le> sort ?vs ! i" unfolding k(2) by (intro sorted_nth_mono) auto
      then show "\<not> sort ?vs ! i < v" by simp
    qed (use k(1) in simp)
    ultimately show False by simp
  qed
  moreover have "votes_for (\<lambda>x. x < v) votes + votes_for (\<lambda>x. v \<le> x) votes = bt_len votes"
    using sum_length_filter_compl [of "\<lambda>x. x < v" "bt_values votes"] by (simp add: votes_for_def not_less)
  ultimately show "max_evil n < votes_for (\<lambda>x. v \<le> x) votes"
    by (simp add: total_def)
qed

end
