(* ===== verification/Onchain_Invariant.thy ===== *)
theory Onchain_Invariant
  imports Onchain_Sessions Consensus_Votes
begin

text \<open>
  The invariant of the onchain module's tables, kept by every deposit, withdrawal and consensus
  item, and the panics it rules out. The dense tables are indexed by 64-bit words that wrap, so a
  step takes room in them for granted: \<open>onchain_used\<close> counts their rows.
\<close>

definition hashed :: "crypto \<Rightarrow> hash256 \<Rightarrow> bool" where
  "hashed C t \<longleftrightarrow> (\<exists>bs. t = sha256 C bs)"

text \<open>Every tweak the wallet will have to sign for is a hash.\<close>

definition tweaks_ok :: "crypto \<Rightarrow> onchain_db \<Rightarrow> bool" where
  "tweaks_ok C db \<longleftrightarrow>
     (\<forall>u. mint_row db = Some u \<longrightarrow> hashed C (mu_tweak u)) \<and>
     (\<forall>u. unsigned_row db = Some u \<longrightarrow> (\<forall>x \<in> set (spent_tx_outs u). hashed C (st_tweak x)))"

text \<open>The feerate votes are the nodes', and a pending transaction has one of the two sizes.\<close>

definition fees_ok :: "num_nodes \<Rightarrow> onchain_db \<Rightarrow> bool" where
  "fees_ok n db \<longleftrightarrow>
     votes_by n (feerate_votes db) \<and> (\<forall>t \<in> set (pending_txs_unordered db). unat (vbytes t) \<le> 169)"

definition onchain_ok :: "crypto \<Rightarrow> wallet_ops \<Rightarrow> onchain_config \<Rightarrow> num_nodes \<Rightarrow> onchain_db \<Rightarrow> bool" where
  "onchain_ok C W cfg n db \<longleftrightarrow>
     chain_ok db \<and> links_ok W db \<and> blocks_ok cfg db \<and> signing_ok W cfg (threshold n) db \<and> tweaks_ok C db \<and> fees_ok n db"

definition onchain_used :: "onchain_db \<Rightarrow> nat" where
  "onchain_used db = bt_len (tx_infos db) + bt_len (tracked_outputs db) + bt_len (nonce_log db)"

text \<open>No hash, used as a tweak, is outside the curve's order or cancels a key of the mint.\<close>

definition hashes_usable :: "crypto \<Rightarrow> wallet_ops \<Rightarrow> onchain_config \<Rightarrow> bool" where
  "hashes_usable C W cfg \<longleftrightarrow>
     (\<forall>t. hashed C t \<longrightarrow> tweaked_agg_pk W cfg t \<noteq> None \<and>
        (\<forall>p. bt_get (onchain_pks cfg) p \<noteq> None \<longrightarrow> tweaked_pks W cfg p t \<noteq> None))"

lemma hashed_hash [simp]: "hashed C (utxo_hash C u)" "hashed C (tweak_hash C x)"
  by (auto simp: hashed_def utxo_hash_def tweak_hash_def)

lemma tweaks_ok_usable:
  "tweaks_ok C db \<Longrightarrow> hashes_usable C W cfg \<Longrightarrow> unsigned_row db = Some u \<Longrightarrow> usable_tweaks W cfg u"
  by (auto simp: tweaks_ok_def hashes_usable_def usable_tweaks_def)

lemma script_of_hash: "hashes_usable C W cfg \<Longrightarrow> hashed C t \<Longrightarrow> script_pubkey_of W cfg t \<noteq> None"
  by (auto simp: hashes_usable_def script_pubkey_of_def tweaked_script_pubkey_def tweaked_output_key_def tweaked_agg_pk_def)

lemma blocks_ok_cong:
  "tracked_outputs db' = tracked_outputs db \<Longrightarrow> block_votes db' = block_votes db \<Longrightarrow> block_height db' = block_height db \<Longrightarrow>
   blocks_ok cfg db' = blocks_ok cfg db"
  by (simp add: blocks_ok_def)

lemma next_index_room: "dense m \<Longrightarrow> bt_len m + 1 < 2 ^ 64 \<Longrightarrow> next_index m \<noteq> - 1"
  by (auto simp: next_index_dense word_unat_eq_iff unat_of_nat unsigned_minus_1_eq_mask mask_eq_exp_minus_1)

lemma dense_append_len:
  assumes "dense m" "bt_len m + 1 < 2 ^ 64"
  shows "bt_len (bt_insert (next_index m) v m) = bt_len m + 1"
  using dense_append(2) [OF assms(1) next_index_room [OF assms]] .

section \<open>Deposits and withdrawals\<close>

text \<open>A new wallet transaction starts with an empty log.\<close>

lemma signing_ok_rows:
  assumes ok: "signing_ok W cfg t db" and none: "unsigned_row db = None"
    and same: "nonce_log db' = nonce_log db" "share_rows db' = share_rows db"
    and u: "map_option (\<lambda>u. length (spent_tx_outs u) = length (btc_inputs (mtx u))) (unsigned_row db') = Some True"
  shows "signing_ok W cfg t db'"
  using ok none u same log_ok_empty by (auto simp: signing_ok_def)

lemma wallet_tx_inputs:
  "wallet_tx C W cfg wallet ins outs change = Done tx \<Longrightarrow> length (btc_inputs tx) = length ins + 1"
  by (auto simp: wallet_tx_def obind_Done_iff)

lemma onchain_ok_input:
  assumes d: "onchain_process_input C W cfg h i db = Done ((a, pk), db')" and ok: "onchain_ok C W cfg n db"
    and room: "onchain_used db + 1 < 2 ^ 64"
  shows "onchain_ok C W cfg n db' \<and> onchain_used db' \<le> onchain_used db + 1"
proof -
  have dn: "dense (tx_infos db)" using ok by (simp add: onchain_ok_def chain_ok_def)
  have tr: "bt_len (tx_infos db) + 1 < 2 ^ 64" using room by (simp add: onchain_used_def)
  have "chain_ok db'"
    using chain_ok_input [OF d] ok next_index_room [OF dn tr] by (simp add: onchain_ok_def total_txs_def)
  moreover have "links_ok W db'" by (rule links_ok_input [OF d]) (use ok in \<open>simp_all add: onchain_ok_def\<close>)
  ultimately have c: "chain_ok db' \<and> links_ok W db'" by simp
  show ?thesis
    using d
  proof (rule onchain_input_Done)
    fix tracked fee ov
    let ?db = "db\<lparr>spent_outputs := bs_insert (output_index i) (spent_outputs db)\<rparr>"
    assume "receive_into C W cfg h i tracked ov ?db = Done db'"
    from receive_into_Done [OF this] show ?thesis
    proof (elim disjE conjE exE)
      assume db': "db' = ?db\<lparr>mint_row := Some \<lparr>mu_value = to_value (tr_out tracked),
          mu_outpoint = tr_outpoint tracked, mu_tweak = tweak_hash C (oi_tweak i)\<rparr>\<rparr>"
      have "signing_ok W cfg (threshold n) db' = signing_ok W cfg (threshold n) db" "blocks_ok cfg db' = blocks_ok cfg db"
        by (rule signing_ok_cong blocks_ok_cong; simp add: db')+
      moreover have "tweaks_ok C db'" "fees_ok n db'" "onchain_used db' = onchain_used db"
        using ok by (simp_all add: onchain_ok_def tweaks_ok_def fees_ok_def pending_txs_unordered_def db' onchain_used_def)
      ultimately show ?thesis using ok c by (simp add: onchain_ok_def)
    next
      fix wallet change tx b
      assume w: "mint_row ?db = Some wallet" and none: "unsigned_row ?db = None"
        and tx: "(wallet_tx C W cfg wallet [tr_outpoint tracked] [] change :: (onchain_input_error, btc_tx) outcome) = Done tx"
        and db': "db' = wallet_rows C W wallet tx
          [\<lparr>st_value = to_value (tr_out tracked), st_tweak = tweak_hash C (oi_tweak i)\<rparr>]
          change RECEIVE_TX_VBYTES (oi_fee i) b ?db"
      have "blocks_ok cfg db' = blocks_ok cfg db"
        by (rule blocks_ok_cong) (simp_all add: db' wallet_rows_def)
      moreover have "signing_ok W cfg (threshold n) db'"
        by (rule signing_ok_rows [of W cfg "threshold n" db])
          (use ok none wallet_tx_inputs [OF tx] in \<open>simp_all add: onchain_ok_def db' wallet_rows_def\<close>)
      moreover have "tweaks_ok C db'"
        using ok w by (auto simp: onchain_ok_def tweaks_ok_def db' wallet_rows_def)
      moreover have "fees_ok n db'"
        using ok none by (auto simp: onchain_ok_def fees_ok_def pending_txs_unordered_def db' wallet_rows_def RECEIVE_TX_VBYTES_def)
      moreover have "onchain_used db' = onchain_used db + 1"
        using dense_append_len [OF dn tr] by (simp add: db' wallet_rows_def onchain_used_def total_txs_def)
      ultimately show ?thesis using ok c by (simp add: onchain_ok_def)
    qed
  qed
qed

lemma onchain_ok_output:
  assumes d: "onchain_process_output C W cfg h x p db = Done (a, db')" and ok: "onchain_ok C W cfg n db"
    and room: "onchain_used db + 1 < 2 ^ 64"
  shows "onchain_ok C W cfg n db' \<and> onchain_used db' \<le> onchain_used db + 1"
proof -
  have dn: "dense (tx_infos db)" using ok by (simp add: onchain_ok_def chain_ok_def)
  have tr: "bt_len (tx_infos db) + 1 < 2 ^ 64" using room by (simp add: onchain_used_def)
  have "chain_ok db'"
    using chain_ok_output [OF d] ok next_index_room [OF dn tr] by (simp add: onchain_ok_def total_txs_def)
  moreover have "links_ok W db'" by (rule links_ok_output [OF d]) (use ok in \<open>simp_all add: onchain_ok_def\<close>)
  ultimately have c: "chain_ok db' \<and> links_ok W db'" by simp
  show ?thesis
    using d
  proof (rule onchain_output_Done)
    fix wallet fee ov change tx b
    assume w: "mint_row db = Some wallet" and none: "unsigned_row db = None"
      and tx: "(wallet_tx C W cfg wallet [] [\<lparr>to_value = oo_value x,
        script_pubkey = standard_script_pubkey W (destination x)\<rparr>] change
        :: (onchain_output_error, btc_tx) outcome) = Done tx"
      and db': "db' = (wallet_rows C W wallet tx [] change SEND_TX_VBYTES (oo_fee x) b (db\<lparr>mint_row := None\<rparr>))
       \<lparr>tx_info_index := bt_insert p (total_txs db) (tx_info_index db)\<rparr>"
    have "blocks_ok cfg db' = blocks_ok cfg db"
      by (rule blocks_ok_cong) (simp_all add: db' wallet_rows_def)
    moreover have "signing_ok W cfg (threshold n) db'"
      by (rule signing_ok_rows [of W cfg "threshold n" db])
        (use ok none wallet_tx_inputs [OF tx] in \<open>simp_all add: onchain_ok_def db' wallet_rows_def\<close>)
    moreover have "tweaks_ok C db'"
      using ok w by (auto simp: onchain_ok_def tweaks_ok_def db' wallet_rows_def)
    moreover have "fees_ok n db'"
      using ok none by (auto simp: onchain_ok_def fees_ok_def pending_txs_unordered_def db' wallet_rows_def SEND_TX_VBYTES_def)
    moreover have "onchain_used db' = onchain_used db + 1"
      using dense_append_len [OF dn tr] by (simp add: db' wallet_rows_def onchain_used_def total_txs_def)
    ultimately show ?thesis using ok c by (simp add: onchain_ok_def)
  qed
qed

section \<open>Consensus items\<close>

text \<open>The rows an item may add.\<close>

fun item_rows :: "onchain_item \<Rightarrow> nat" where
  "item_rows (BlockItem v) = length (block_outputs (bv_txs v))"
| "item_rows (FeerateItem r) = 0"
| "item_rows (NoncesItem txid ns) = 1"
| "item_rows (SharesItem txid ss ns) = 1"

lemma in_fold_remove:
  "v \<in> set (bt_values (fold (\<lambda>x. bt_remove (f x)) xs m)) \<Longrightarrow> v \<in> set (bt_values m)"
proof (induction xs arbitrary: m)
  case (Cons x xs)
  then have "v \<in> set (bt_values (bt_remove (f x) m))" by simp
  then show ?case by (auto simp: bt_values_iff split: if_splits)
qed simp

lemma get_fold_remove: "bt_get (fold (\<lambda>x. bt_remove (f x)) xs m) k = (if k \<in> f ` set xs then None else bt_get m k)"
  by (induction xs arbitrary: m) auto

lemma fees_ok_cong:
  "feerate_votes db' = feerate_votes db \<Longrightarrow> unsigned_row db' = unsigned_row db \<Longrightarrow> unconfirmed db' = unconfirmed db \<Longrightarrow>
   fees_ok n db' = fees_ok n db"
  by (simp add: fees_ok_def pending_txs_unordered_def)

lemma onchain_ok_item:
  assumes d: "onchain_process_item W cfg p item db = Done db'" and ok: "onchain_ok C W cfg n db"
    and n: "to_num_nodes (onchain_pks cfg) = Some n" and p: "p \<in> set (node_ids n)"
    and room: "onchain_used db + item_rows item + threshold n < 2 ^ 64"
  shows "onchain_ok C W cfg n db' \<and> onchain_used db' \<le> onchain_used db + item_rows item"
proof (cases item)
  case (BlockItem v)
  with d have d': "process_block_vote cfg p v db = Done db'" by simp
  have b: "blocks_ok cfg db" using ok by (simp add: onchain_ok_def)
  then have dn: "dense (tracked_outputs db)" by (simp add: blocks_ok_def)
  have r: "bt_len (tracked_outputs db) + length (block_outputs (bv_txs v)) < 2 ^ 64"
    using room BlockItem by (simp add: onchain_used_def)
  have b': "blocks_ok cfg db'" by (rule blocks_ok_vote [OF d' b n r])
  note D = process_block_vote_Done(3) [OF d' b n]
  have "chain_ok db' = chain_ok db" "signing_ok W cfg (threshold n) db' = signing_ok W cfg (threshold n) db"
    by (rule chain_ok_cong signing_ok_cong; simp add: D apply_block_def)+
  moreover have "links_ok W db'"
    by (rule links_ok_drop [of W db]) (use ok in \<open>auto simp: onchain_ok_def D apply_block_def get_fold_remove split: if_splits\<close>)
  moreover have "tweaks_ok C db' = tweaks_ok C db" by (simp add: tweaks_ok_def D apply_block_def)
  moreover have "fees_ok n db'"
    using ok by (auto simp: onchain_ok_def fees_ok_def pending_txs_unordered_def D apply_block_def dest: in_fold_remove
        split: option.splits if_splits)
  moreover have "onchain_used db' \<le> onchain_used db + item_rows item"
    using append_outputs_dense [OF dn r] by (simp add: onchain_used_def D apply_block_def BlockItem)
  ultimately show ?thesis using ok b' by (simp add: onchain_ok_def)
next
  case (FeerateItem r)
  with d have "db' = db\<lparr>feerate_votes := bt_insert p r (feerate_votes db)\<rparr>"
    by (auto simp: process_feerate_vote_def split: if_splits)
  then show ?thesis
    using ok by (simp add: votes_by_insert [OF _ p] onchain_ok_def chain_ok_def links_ok_def logged_tx_def total_txs_def blocks_ok_def signing_ok_def
        tweaks_ok_def fees_ok_def pending_txs_unordered_def onchain_used_def cong: option.case_cong)
next
  case (NoncesItem txid ns)
  with d have d': "process_nonces W p txid ns db = Done db'" by simp
  from process_nonces_Done [OF d'] obtain u where u: "unsigned_row db = Some u"
    and db': "db' = db\<lparr>nonce_log := bt_insert (next_index (nonce_log db)) (NonceEntry p ns) (nonce_log db)\<rparr>" by blast
  have dn: "dense (nonce_log db)" using ok u by (simp add: onchain_ok_def signing_ok_def log_ok_def)
  have r: "bt_len (nonce_log db) + 1 < 2 ^ 64" using room NoncesItem by (simp add: onchain_used_def)
  have "signing_ok W cfg (threshold n) db'"
    by (rule signing_ok_nonces [OF d']) (use ok next_index_room [OF dn r] in \<open>simp_all add: onchain_ok_def\<close>)
  moreover have "chain_ok db' = chain_ok db" "links_ok W db' = links_ok W db" "blocks_ok cfg db' = blocks_ok cfg db" "fees_ok n db' = fees_ok n db"
    by (rule chain_ok_cong links_ok_cong blocks_ok_cong fees_ok_cong; simp add: db')+
  moreover have "tweaks_ok C db' = tweaks_ok C db" by (simp add: tweaks_ok_def db')
  ultimately show ?thesis
    using ok dense_append_len [OF dn r] by (simp add: onchain_ok_def onchain_used_def db' NoncesItem)
next
  case (SharesItem txid ss ns)
  with d have d': "process_signature_shares W cfg p txid ss ns db = Done db'" by simp
  have r: "bt_len (nonce_log db) + threshold n < 2 ^ 64" using room SharesItem by (simp add: onchain_used_def)
  have s: "signing_ok W cfg (threshold n) db'"
    by (rule signing_ok_shares [OF d' n _ r]) (use ok in \<open>simp add: onchain_ok_def\<close>)
  from d' n show ?thesis
  proof (rule process_shares_Done)
    fix u l msgs
    assume u: "unsigned_row db = Some u" "compute_txid W (mtx u) = txid" and res: "if length (chunk_of (threshold n) (l div threshold n)
          (share_rows (add_response l p ss ns db))) = threshold n
     then \<exists>signed. finalize_tx W cfg u msgs (chunk_of (threshold n) (l div threshold n) (nonce_log db))
              (chunk_of (threshold n) (l div threshold n) (share_rows (add_response l p ss ns db))) = Some signed \<and>
            db' = (add_response l p ss ns db)\<lparr>unsigned_row := None, nonce_log := bt_empty,
              share_rows := bt_empty, unconfirmed := bt_insert txid signed (unconfirmed db)\<rparr>
     else db' = add_response l p ss ns db"
    have dn: "dense (nonce_log db)" using ok u by (simp add: onchain_ok_def signing_ok_def log_ok_def)
    have r1: "bt_len (nonce_log db) + 1 < 2 ^ 64" using room SharesItem by (simp add: onchain_used_def)
    have "chain_ok db' = chain_ok db" "blocks_ok cfg db' = blocks_ok cfg db"
      by (rule chain_ok_cong blocks_ok_cong; use res in \<open>auto simp: add_response_def split: if_splits\<close>)+
    moreover have "links_ok W db'"
    proof (cases "unsigned_row db' = None")
      case True
      then obtain signed where f: "finalize_tx W cfg u msgs (chunk_of (threshold n) (l div threshold n) (nonce_log db))
            (chunk_of (threshold n) (l div threshold n) (share_rows (add_response l p ss ns db))) = Some signed"
        and db': "tx_infos db' = tx_infos db" "unconfirmed db' = bt_insert txid signed (unconfirmed db)"
        using res u by (auto simp: add_response_def split: if_splits)
      have lk: "links_ok W db" using ok by (simp add: onchain_ok_def)
      show ?thesis
        by (rule links_ok_signed [OF lk u(1) finalize_tx_same(1,2,4,5) [OF f] db'(1) True]) (simp add: db'(2) u(2))
    next
      case False
      then have "links_ok W db' = links_ok W db"
        by (intro links_ok_cong) (use res in \<open>auto simp: add_response_def split: if_splits\<close>)
      then show ?thesis using ok by (simp add: onchain_ok_def)
    qed
    moreover have "tweaks_ok C db'"
      using ok res by (auto simp: onchain_ok_def tweaks_ok_def add_response_def split: if_splits)
    moreover have "fees_ok n db'"
    proof (cases "unconfirmed db' = unconfirmed db \<and> unsigned_row db' = unsigned_row db")
      case True
      then have "fees_ok n db' = fees_ok n db"
        by (intro fees_ok_cong) (use res in \<open>auto simp: add_response_def split: if_splits\<close>)
      then show ?thesis using ok by (simp add: onchain_ok_def)
    next
      case False
      then obtain signed where s: "vbytes signed = vbytes u" "unsigned_row db' = None"
        "unconfirmed db' = bt_insert txid signed (unconfirmed db)" "feerate_votes db' = feerate_votes db"
        using res by (auto simp: add_response_def dest: finalize_tx_same(3) split: if_splits)
      show ?thesis
        using ok u s by (auto simp: onchain_ok_def fees_ok_def pending_txs_unordered_def bt_values_iff split: if_splits)
    qed
    moreover have "onchain_used db' \<le> onchain_used db + 1"
      using res dense_append_len [OF dn r1, of "NonceEntry p ns"]
      by (auto simp: onchain_used_def add_response_def split: if_splits)
    ultimately show ?thesis using ok s by (simp add: onchain_ok_def SharesItem)
  qed
qed

lemma onchain_ok_initialize:
  assumes "onchain_ok C W cfg n db" "block_votes db = bt_empty \<or> old \<noteq> 0"
  shows "onchain_ok C W cfg n (initialize_block_height old new db)"
proof -
  let ?db = "initialize_block_height old new db"
  have "chain_ok ?db = chain_ok db" "signing_ok W cfg (threshold n) ?db = signing_ok W cfg (threshold n) db"
    "fees_ok n ?db = fees_ok n db" "links_ok W ?db = links_ok W db"
    by (rule chain_ok_cong signing_ok_cong fees_ok_cong links_ok_cong; simp add: initialize_block_height_def)+
  then show ?thesis
    using assms by (auto simp: onchain_ok_def blocks_ok_def tweaks_ok_def initialize_block_height_def)
qed

section \<open>No deposit or withdrawal makes the module panic\<close>

lemma sum_list_le_bound: "(\<And>x. x \<in> set xs \<Longrightarrow> f x \<le> (b :: nat)) \<Longrightarrow> sum_list (map f xs) \<le> length xs * b"
  by (induction xs) (auto simp: add_mono)

lemma checked_sum_Some:
  "unat a + sum_list (map unat xs) < 2 ^ 64 \<Longrightarrow> checked_sum a xs \<noteq> None"
proof (induction xs arbitrary: a)
  case (Cons x xs)
  then have "checked_add a x = Some (a + x)" by (simp add: checked_add_def)
  with checked_add_SomeD [OF this] Cons show ?case by simp
qed simp

lemma length_map_filter_votes: "length (List.map_filter f (bt_values m)) \<le> bt_len m"
  using length_map_filter_le [of f "bt_values m"] by simp

lemma consensus_feerate_no_panic:
  assumes n: "to_num_nodes (onchain_pks cfg) = Some n" and v: "votes_by n (feerate_votes db)"
  shows "(consensus_feerate cfg db :: ('e, u32 option) outcome) \<noteq> Panicked"
proof -
  let ?r = "sort (List.map_filter id (bt_values (feerate_votes db)))"
  have "small_mint n" using n num_nodes_from_total by (auto simp: to_num_nodes_def)
  then have "length ?r \<le> total n"
    using votes_by_len [OF _ v] length_map_filter_votes [of id "feerate_votes db"] by simp
  moreover have "?r = [] \<or> hd ?r \<le> last ?r"
    by (metis hd_Nil_eq_last hd_conv_nth last_conv_nth length_greater_0_conv diff_less less_one sorted_nth_mono
        sorted_sort zero_le)
  ultimately show ?thesis
    by (simp add: consensus_feerate_def onchain_nodes_def n expect_def Let_def assert_that_def)
qed

lemma consensus_fee_no_panic:
  assumes n: "to_num_nodes (onchain_pks cfg) = Some n" and ok: "fees_ok n db"
    and p: "length (pending_txs_unordered db) \<le> 32" and vb: "unat vb \<le> 169"
  shows "(consensus_fee cfg db vb :: ('e, sats option) outcome) \<noteq> Panicked"
proof -
  have "sum_list (map (\<lambda>t. unat (vbytes t)) (pending_txs_unordered db)) \<le> length (pending_txs_unordered db) * 169"
    using ok by (intro sum_list_le_bound) (simp add: fees_ok_def)
  then have "checked_sum vb (map vbytes (pending_txs_unordered db)) \<noteq> None"
    using p vb by (intro checked_sum_Some) (simp add: comp_def)
  then show ?thesis
    using consensus_feerate_no_panic [OF n, of db, where 'e = 'e] ok p
    by (auto simp: consensus_fee_def obind_Panicked_iff fees_ok_def Let_def split: option.splits)
qed

lemma wallet_tx_no_panic:
  assumes "hashes_usable C W cfg"
  shows "(wallet_tx C W cfg wallet ins outs change :: ('e, btc_tx) outcome) \<noteq> Panicked"
  using script_of_hash [OF assms, of "utxo_hash C wallet"] by (auto simp: wallet_tx_def obind_Panicked_iff)

lemma fees_ok_mint [simp]: "fees_ok n (db\<lparr>mint_row := r\<rparr>) = fees_ok n db"
  and fees_ok_spent [simp]: "fees_ok n (db\<lparr>spent_outputs := s\<rparr>) = fees_ok n db"
  by (simp_all add: fees_ok_def pending_txs_unordered_def)

lemma onchain_input_no_panic:
  assumes n: "to_num_nodes (onchain_pks cfg) = Some n" and ok: "fees_ok n db"
    and p: "length (pending_txs_unordered db) \<le> 32" and use: "hashes_usable C W cfg" and h: "h \<noteq> None"
  shows "onchain_process_input C W cfg h i db \<noteq> Panicked"
proof -
  let ?db = "db\<lparr>spent_outputs := bs_insert (output_index i) (spent_outputs db)\<rparr>"
  have f: "(receive_fee cfg ?db :: (onchain_input_error, sats option) outcome) \<noteq> Panicked"
    using consensus_fee_no_panic [OF n, of ?db RECEIVE_TX_VBYTES] ok p
    by (simp add: receive_fee_def RECEIVE_TX_VBYTES_def pending_txs_unordered_def)
  have r: "receive_into C W cfg h i tracked ov ?db \<noteq> Panicked" for tracked ov
    using wallet_tx_no_panic [OF use, where 'e = onchain_input_error] h
    by (auto simp: receive_into_def obind_Panicked_iff split: option.splits if_splits)
  show ?thesis
    using f r script_of_hash [OF use, of "tweak_hash C (oi_tweak i)"]
    by (auto simp: onchain_process_input_def obind_Panicked_iff Let_def split: if_splits)
qed

lemma onchain_output_no_panic:
  assumes n: "to_num_nodes (onchain_pks cfg) = Some n" and ok: "fees_ok n db"
    and p: "length (pending_txs_unordered db) \<le> 32" and use: "hashes_usable C W cfg" and h: "h \<noteq> None"
  shows "onchain_process_output C W cfg h x q db \<noteq> Panicked"
proof -
  let ?db = "db\<lparr>mint_row := None\<rparr>"
  have f: "(send_fee cfg ?db :: (onchain_output_error, sats option) outcome) \<noteq> Panicked"
    using consensus_fee_no_panic [OF n, of ?db SEND_TX_VBYTES] ok p
    by (simp add: send_fee_def SEND_TX_VBYTES_def pending_txs_unordered_def)
  show ?thesis
    using f wallet_tx_no_panic [OF use, where 'e = onchain_output_error] h
    by (auto simp: onchain_process_output_def obind_Panicked_iff Let_def split: if_splits)
qed

text \<open>
  The limit of 32 pending transactions is one of cost: the fees of a stack that reaches it are
  above fifty thousand bitcoin.
\<close>

lemma pending_limit_cost:
  assumes paid: "stack_paid cfg db db'" and many: "32 \<le> length (pending_txs_unordered db)"
    and big: "\<And>t. t \<in> set (pending_txs_unordered db') \<Longrightarrow> 154 \<le> unat (vbytes t)"
  shows "5 * 10 ^ 12 \<le> stack_fees db'"
proof -
  let ?k = "length (pending_txs_unordered db)"
  from paid obtain r where len: "length (pending_txs_unordered db') = ?k + 1"
    and f: "min (stack_vbytes db' * stack_feerate r ?k) (2 ^ 64 - 1) div 1000 \<le> stack_fees db'"
    by (auto simp: stack_paid_def)
  have "sum_list (map (\<lambda>t. 154) (pending_txs_unordered db')) \<le> stack_vbytes db'"
    unfolding stack_vbytes_def by (intro sum_list_mono) (use big in simp)
  then have v: "33 * 154 \<le> stack_vbytes db'"
    using len many by (simp add: sum_list_triv)
  have "(2 :: nat) ^ 32 \<le> 2 ^ ?k" using many by (intro power_increasing) auto
  then have "250 * 2 ^ 32 \<le> stack_feerate r ?k" by (simp add: stack_feerate_def)
  with v have "33 * 154 * (250 * 2 ^ 32) \<le> stack_vbytes db' * stack_feerate r ?k" by (rule mult_le_mono)
  then have "5 * 10 ^ 15 \<le> min (stack_vbytes db' * stack_feerate r ?k) (2 ^ 64 - 1)" by simp
  then have "5 * 10 ^ 15 div 1000 \<le> min (stack_vbytes db' * stack_feerate r ?k) (2 ^ 64 - 1) div 1000"
    by (rule div_le_mono)
  with f show ?thesis by simp
qed

end
