(* ===== verification/Funding.thy ===== *)
theory Funding
  imports Server_Types
begin

text \<open>
  The funding of a transaction (\<open>picomint-node-daemon/src/consensus/tx.rs\<close>): inputs pay for
  outputs and fees, in arithmetic that fails rather than wraps.
\<close>

record funding_verifier =
  fv_inputs :: amount
  fv_outputs :: amount
  fv_fees :: amount

definition funding_default :: funding_verifier where
  "funding_default = \<lparr>fv_inputs = amount_zero, fv_outputs = amount_zero, fv_fees = amount_zero\<rparr>"

definition add_input :: "amount \<Rightarrow> amount \<Rightarrow> funding_verifier \<Rightarrow> (tx_error, funding_verifier) outcome" where
  "add_input a fee v =
     obind (ok_or TxOverflow (amount_checked_add (fv_inputs v) a)) (\<lambda>i.
     obind (ok_or TxOverflow (amount_checked_add (fv_fees v) fee)) (\<lambda>f.
     Done (v\<lparr>fv_inputs := i, fv_fees := f\<rparr>)))"

definition add_output :: "amount \<Rightarrow> amount \<Rightarrow> funding_verifier \<Rightarrow> (tx_error, funding_verifier) outcome" where
  "add_output a fee v =
     obind (ok_or TxOverflow (amount_checked_add (fv_outputs v) a)) (\<lambda>i.
     obind (ok_or TxOverflow (amount_checked_add (fv_fees v) fee)) (\<lambda>f.
     Done (v\<lparr>fv_outputs := i, fv_fees := f\<rparr>)))"

definition verify_funding :: "funding_verifier \<Rightarrow> (tx_error, unit) outcome" where
  "verify_funding v =
     obind (ok_or TxOverflow (amount_checked_add (fv_outputs v) (fv_fees v))) (\<lambda>s.
     ensure (msat s \<le> msat (fv_inputs v)) Underfunded)"

lemma add_input_Done:
  assumes "add_input a fee v = Done v'"
  shows "amount_nat (fv_inputs v') = amount_nat (fv_inputs v) + amount_nat a \<and>
    amount_nat (fv_fees v') = amount_nat (fv_fees v) + amount_nat fee \<and> fv_outputs v' = fv_outputs v"
  using assms by (auto simp: add_input_def obind_Done_iff dest!: amount_checked_add_SomeD)

lemma add_output_Done:
  assumes "add_output a fee v = Done v'"
  shows "amount_nat (fv_outputs v') = amount_nat (fv_outputs v) + amount_nat a \<and>
    amount_nat (fv_fees v') = amount_nat (fv_fees v) + amount_nat fee \<and> fv_inputs v' = fv_inputs v"
  using assms by (auto simp: add_output_def obind_Done_iff dest!: amount_checked_add_SomeD)

lemma verify_funding_Done:
  assumes "verify_funding v = Done u"
  shows "amount_nat (fv_outputs v) + amount_nat (fv_fees v) \<le> amount_nat (fv_inputs v)"
  using assms by (auto simp: verify_funding_def obind_Done_iff word_le_nat_alt dest!: amount_checked_add_SomeD)

lemma funding_no_panic [simp]:
  "add_input a fee v \<noteq> Panicked" "add_output a fee v \<noteq> Panicked" "verify_funding v \<noteq> Panicked"
  by (auto simp: add_input_def add_output_def verify_funding_def obind_Panicked_iff)

lemma funding_default_nat [simp]:
  "amount_nat (fv_inputs funding_default) = 0" "amount_nat (fv_outputs funding_default) = 0"
  "amount_nat (fv_fees funding_default) = 0"
  by (simp_all add: funding_default_def amount_zero_def)

section \<open>The check over lists\<close>

text \<open>The check over lists of amounts with their fees, as a transaction runs it.\<close>

definition funding_check :: "(amount \<times> amount) list \<Rightarrow> (amount \<times> amount) list \<Rightarrow> (tx_error, unit) outcome" where
  "funding_check ins outs =
     obind (ofold (\<lambda>(a, f). add_input a f) ins funding_default) (\<lambda>v.
     obind (ofold (\<lambda>(a, f). add_output a f) outs v) verify_funding)"

definition amounts_nat :: "(amount \<times> amount) list \<Rightarrow> nat" where
  "amounts_nat xs = sum_list (map (amount_nat \<circ> fst) xs)"

definition fees_nat :: "(amount \<times> amount) list \<Rightarrow> nat" where
  "fees_nat xs = sum_list (map (amount_nat \<circ> snd) xs)"

definition nat_amount :: "nat \<Rightarrow> amount" where
  "nat_amount k = Amount (of_nat k)"

lemma nat_amount_simps [simp]: "k < 2 ^ 64 \<Longrightarrow> amount_nat (nat_amount k) = k" "nat_amount (amount_nat a) = a"
  by (simp_all add: nat_amount_def unat_of_nat)

lemma amount_checked_add_eq:
  "amount_checked_add a b = (if amount_nat a + amount_nat b < 2 ^ 64 then Some (nat_amount (amount_nat a + amount_nat b)) else None)"
  by (simp add: amount_checked_add_def checked_add_def nat_amount_def)

lemma amount_nat_less: "amount_nat a < 2 ^ 64"
  using unsigned_less [of "msat a"] by simp

lemma inputs_funded:
  "ofold (\<lambda>(a, f). add_input a f) ins v =
     (if amount_nat (fv_inputs v) + amounts_nat ins < 2 ^ 64 \<and> amount_nat (fv_fees v) + fees_nat ins < 2 ^ 64
      then Done (v\<lparr>fv_inputs := nat_amount (amount_nat (fv_inputs v) + amounts_nat ins),
             fv_fees := nat_amount (amount_nat (fv_fees v) + fees_nat ins)\<rparr>)
      else Failed TxOverflow)"
proof (induction ins arbitrary: v)
  case Nil
  then show ?case using amount_nat_less [of "fv_inputs v"] amount_nat_less [of "fv_fees v"]
    by (simp add: amounts_nat_def fees_nat_def)
next
  case (Cons x ins)
  then show ?case
    by (cases x) (auto simp: add_input_def amount_checked_add_eq ok_or_def amounts_nat_def fees_nat_def add.assoc)
qed

lemma outputs_funded:
  "ofold (\<lambda>(a, f). add_output a f) outs v =
     (if amount_nat (fv_outputs v) + amounts_nat outs < 2 ^ 64 \<and> amount_nat (fv_fees v) + fees_nat outs < 2 ^ 64
      then Done (v\<lparr>fv_outputs := nat_amount (amount_nat (fv_outputs v) + amounts_nat outs),
             fv_fees := nat_amount (amount_nat (fv_fees v) + fees_nat outs)\<rparr>)
      else Failed TxOverflow)"
proof (induction outs arbitrary: v)
  case Nil
  then show ?case using amount_nat_less [of "fv_outputs v"] amount_nat_less [of "fv_fees v"]
    by (simp add: amounts_nat_def fees_nat_def)
next
  case (Cons x outs)
  then show ?case
    by (cases x) (auto simp: add_output_def amount_checked_add_eq ok_or_def amounts_nat_def fees_nat_def add.assoc)
qed

end
