(* ===== verification/Ecash_Server.thy ===== *)
theory Ecash_Server
  imports Server_Types
begin

text \<open>
  The ecash module of the daemon (\<open>picomint-node-daemon/src/consensus/ecash\<close>): redeeming and
  issuing notes, and its API handlers. A note nonce is spent once, a blinded nonce is signed once.
\<close>

section \<open>State and configuration\<close>

text \<open>The operations of the blind-signature scheme the module calls.\<close>

record tbs_ops =
  nonce_from_public_key :: "xonly \<Rightarrow> 384 word"
  tbs_verify :: "384 word \<Rightarrow> tbs_sig \<Rightarrow> tbs_agg_pk \<Rightarrow> bool"
  sign_nonce :: "blinded_nonce \<Rightarrow> scalar \<Rightarrow> tbs_share"

record ecash_config =
  tbs_agg_pks :: "(u8, tbs_agg_pk) btmap"
  tbs_sks :: "(u8, scalar) btmap"

record ecash_db =
  note_nonces :: "xonly btset"
  blinded_nonces :: "(blinded_nonce, u8) btmap"
  signature_shares_table :: "(out_point, tbs_share) btmap"
  restore_shares :: "(blinded_nonce, tbs_share) btmap"

definition verify_note :: "tbs_ops \<Rightarrow> ecash_note \<Rightarrow> tbs_agg_pk \<Rightarrow> bool" where
  "verify_note B x pk = tbs_verify B (nonce_from_public_key B (nonce x)) (note_sig x) pk"

section \<open>Inputs and outputs\<close>

fun ecash_process_input ::
  "tbs_ops \<Rightarrow> ecash_config \<Rightarrow> ecash_input \<Rightarrow> ecash_db \<Rightarrow>
   (ecash_input_error, (amount \<times> xonly) \<times> ecash_db) outcome" where
  "ecash_process_input B cfg (EcashInput x) db =
     (let db1 = db\<lparr>note_nonces := bs_insert (nonce x) (note_nonces db)\<rparr>
      in if bt_has (note_nonces db) (nonce x) then Failed SpentCoin
         else
           (case bt_get (tbs_agg_pks cfg) (denomination x) of
              None \<Rightarrow> Failed InvalidDenomination
            | Some pk \<Rightarrow>
                if \<not> verify_note B x pk then Failed InvalidNoteSignature
                else Done ((denomination_amount (denomination x), nonce x), db1)))"

fun ecash_process_output ::
  "tbs_ops \<Rightarrow> ecash_config \<Rightarrow> ecash_output \<Rightarrow> out_point \<Rightarrow> ecash_db \<Rightarrow>
   (ecash_output_error, amount \<times> ecash_db) outcome" where
  "ecash_process_output B cfg (EcashOutput d b) p db =
     (let db1 = db\<lparr>blinded_nonces := bt_insert b d (blinded_nonces db)\<rparr>
      in if bt_has (blinded_nonces db) b then Failed ReusedNonce
         else
           (case bt_get (tbs_sks cfg) d of
              None \<Rightarrow> Failed InvalidOutputDenomination
            | Some sk \<Rightarrow>
                let share = sign_nonce B b sk
                in Done (denomination_amount d,
                     db1\<lparr>
                       signature_shares_table := bt_insert p share (signature_shares_table db1),
                       restore_shares := bt_insert b share (restore_shares db1)\<rparr>)))"

section \<open>API\<close>

text \<open>The range scan of the shares of a transaction, in output order.\<close>

definition collect_signature_shares :: "hash256 \<Rightarrow> ecash_db \<Rightarrow> tbs_share list" where
  "collect_signature_shares txid db =
     map snd (filter (\<lambda>(p, _). OutPoint txid 0 \<le> p \<and> p \<le> OutPoint txid (- 1))
       (entries (signature_shares_table db)))"

text \<open>\<open>None\<close> while the handler waits for the transaction to be accepted.\<close>

definition signature_shares :: "hash256 \<Rightarrow> ecash_db \<Rightarrow> tbs_share list option" where
  "signature_shares txid db =
     (let s = collect_signature_shares txid db in if s = [] then None else Some s)"

definition signature_shares_restore :: "blinded_nonce list \<Rightarrow> ecash_db \<Rightarrow> tbs_share list option" where
  "signature_shares_restore ns db = option_seq (map (bt_get (restore_shares db)) ns)"

definition issuance_state :: "blinded_nonce list \<Rightarrow> ecash_db \<Rightarrow> u8 option list" where
  "issuance_state ns db = map (bt_get (blinded_nonces db)) ns"

definition spend_state :: "xonly list \<Rightarrow> ecash_db \<Rightarrow> bool list" where
  "spend_state ns db = map (bt_has (note_nonces db)) ns"

section \<open>What the operations do\<close>

lemma ecash_input_Done:
  assumes "ecash_process_input B cfg i db = Done ((a, pk), db')"
  shows "\<exists>k. \<not> bt_has (note_nonces db) (nonce (ei_note i)) \<and>
    bt_get (tbs_agg_pks cfg) (denomination (ei_note i)) = Some k \<and> verify_note B (ei_note i) k \<and>
    a = denomination_amount (denomination (ei_note i)) \<and> pk = nonce (ei_note i) \<and>
    db' = db\<lparr>note_nonces := bs_insert (nonce (ei_note i)) (note_nonces db)\<rparr>"
  using assms by (cases i) (auto simp: Let_def split: if_splits option.splits)

lemma ecash_output_Done:
  assumes "ecash_process_output B cfg x p db = Done (a, db')"
  shows "\<exists>k. \<not> bt_has (blinded_nonces db) (eo_nonce x) \<and> bt_get (tbs_sks cfg) (eo_denomination x) = Some k \<and>
    a = denomination_amount (eo_denomination x) \<and>
    db' = db\<lparr>blinded_nonces := bt_insert (eo_nonce x) (eo_denomination x) (blinded_nonces db),
      signature_shares_table := bt_insert p (sign_nonce B (eo_nonce x) k) (signature_shares_table db),
      restore_shares := bt_insert (eo_nonce x) (sign_nonce B (eo_nonce x) k) (restore_shares db)\<rparr>"
  using assms by (cases x) (auto simp: Let_def split: if_splits option.splits)

lemma ecash_no_panic [simp]:
  "ecash_process_input B cfg i db \<noteq> Panicked" "ecash_process_output B cfg x p db \<noteq> Panicked"
  by (cases i; simp add: Let_def split: option.splits) (cases x; simp add: Let_def split: option.splits)

section \<open>The invariant of the tables\<close>

text \<open>
  Every signed nonce was signed under a configured denomination, and its share under that
  denomination's key is the one kept for a restoring client.
\<close>

definition ecash_ok :: "tbs_ops \<Rightarrow> ecash_config \<Rightarrow> ecash_db \<Rightarrow> bool" where
  "ecash_ok B cfg db \<longleftrightarrow>
     (\<forall>b. (bt_get (blinded_nonces db) b = None \<longleftrightarrow> bt_get (restore_shares db) b = None) \<and>
        (\<forall>d. bt_get (blinded_nonces db) b = Some d \<longrightarrow>
           (\<exists>k. bt_get (tbs_sks cfg) d = Some k \<and> bt_get (restore_shares db) b = Some (sign_nonce B b k))))"

lemma ecash_input_ok:
  "ecash_process_input B cfg i db = Done ((a, pk), db') \<Longrightarrow> ecash_ok B cfg db \<Longrightarrow> ecash_ok B cfg db'"
  by (drule ecash_input_Done) (auto simp: ecash_ok_def)

lemma ecash_output_ok:
  "ecash_process_output B cfg x p db = Done (a, db') \<Longrightarrow> ecash_ok B cfg db \<Longrightarrow> ecash_ok B cfg db'"
  by (drule ecash_output_Done) (auto simp: ecash_ok_def)

text \<open>The value the mint has signed.\<close>

definition issued :: "ecash_db \<Rightarrow> nat" where
  "issued db = bt_sum (\<lambda>d. amount_nat (denomination_amount d)) (blinded_nonces db)"

lemma issued_input:
  "ecash_process_input B cfg i db = Done ((a, pk), db') \<Longrightarrow> issued db' = issued db"
  by (drule ecash_input_Done) (auto simp: issued_def)

lemma issued_output:
  "ecash_process_output B cfg x p db = Done (a, db') \<Longrightarrow> issued db' = issued db + amount_nat a"
  by (drule ecash_output_Done) (auto simp: issued_def bt_sum_insert bt_has_def)

end
