(* ===== verification/Lightning_Server.thy ===== *)
theory Lightning_Server
  imports Server_Types
begin

text \<open>
  The Lightning module of the daemon (\<open>picomint-node-daemon/src/consensus/lightning\<close>) and the
  contracts (\<open>picomint-core/src/lightning/contracts.rs\<close>): funding and spending contracts, the
  stream of incoming contracts and its reverse index, the API handlers.
\<close>

section \<open>Contracts\<close>

definition contract_preimage :: "'a crypto_scheme \<Rightarrow> incoming_contract \<Rightarrow> hash256" where
  "contract_preimage C c = sha256 C (enc_incoming_contract c)"

definition contract_payment_hash :: "'a crypto_scheme \<Rightarrow> incoming_contract \<Rightarrow> hash256" where
  "contract_payment_hash C c = sha256 C (enc_hash (contract_preimage C c))"

definition claim_amount :: "incoming_contract \<Rightarrow> amount option" where
  "claim_amount c = amount_checked_sub (ic_amount c) (ic_fee c)"

definition contract_id :: "'a crypto_scheme \<Rightarrow> outgoing_contract \<Rightarrow> hash256" where
  "contract_id C c = sha256 C (enc_outgoing_contract c)"

definition verify_preimage :: "'a crypto_scheme \<Rightarrow> outgoing_contract \<Rightarrow> hash256 \<Rightarrow> bool" where
  "verify_preimage C c p \<longleftrightarrow> sha256 C (enc_hash p) = payment_hash c"

definition verify_forfeit_signature :: "'a crypto_scheme \<Rightarrow> outgoing_contract \<Rightarrow> schnorr_sig \<Rightarrow> bool" where
  "verify_forfeit_signature C c s \<longleftrightarrow> verify_schnorr C (enc_int s) (contract_id C c) (enc_hash (oc_claim_pk c))"

fun verify_gateway_response :: "'a crypto_scheme \<Rightarrow> outgoing_contract \<Rightarrow> schnorr_sig + hash256 \<Rightarrow> bool" where
  "verify_gateway_response C c (Inr p) = verify_preimage C c p"
| "verify_gateway_response C c (Inl s) = verify_forfeit_signature C c s"

section \<open>State\<close>

record lightning_db =
  incoming_contracts :: "(out_point, incoming_contract) btmap"
  outgoing_contracts :: "(out_point, outgoing_contract) btmap"
  preimages :: "(out_point, hash256) btmap"
  incoming_payments :: "(hash256, hash256) btmap"
  gateways_table :: "(hash256, bytes) btmap"
  stream_next_index :: "u64 option"
  contract_stream :: "(u64, out_point \<times> incoming_contract) btmap"
  contract_index :: "(out_point, u64) btmap"

section \<open>Inputs and outputs\<close>

fun lightning_process_input ::
  "'a crypto_scheme \<Rightarrow> lightning_input \<Rightarrow> lightning_db \<Rightarrow>
   (lightning_input_error, (amount \<times> xonly) \<times> lightning_db) outcome" where
  "lightning_process_input C (OutgoingInput p w) db =
     (case bt_get (outgoing_contracts db) p of
        None \<Rightarrow> Failed UnknownContract
      | Some c \<Rightarrow>
          let db1 = db\<lparr>outgoing_contracts := bt_remove p (outgoing_contracts db)\<rparr>
          in obind
               (case w of
                  Claim pre \<Rightarrow>
                    if \<not> verify_preimage C c pre then Failed InvalidPreimage
                    else Done (oc_claim_pk c, db1\<lparr>preimages := bt_insert p pre (preimages db1)\<rparr>)
                | Cancel s \<Rightarrow>
                    if \<not> verify_forfeit_signature C c s then Failed InvalidForfeitSignature
                    else Done (refund_pk c, db1))
               (\<lambda>(pk, db2).
                  obind (ok_or LightningInputOverflow (amount_checked_add (oc_amount c) (oc_fee c)))
                    (\<lambda>a. Done ((a, pk), db2))))"
| "lightning_process_input C (IncomingInput p) db =
     (case bt_get (incoming_contracts db) p of
        None \<Rightarrow> Failed UnknownContract
      | Some c \<Rightarrow>
          let db1 = db\<lparr>incoming_contracts := bt_remove p (incoming_contracts db)\<rparr>
          in obind (expect (bt_get (contract_index db1) p))
               (\<lambda>i. obind (ok_or LightningInputOverflow (claim_amount c))
                  (\<lambda>a. Done ((a, ic_claim_pk c),
                     db1\<lparr>contract_index := bt_remove p (contract_index db1),
                         contract_stream := bt_remove i (contract_stream db1)\<rparr>))))"

fun lightning_process_output ::
  "'a crypto_scheme \<Rightarrow> lightning_output \<Rightarrow> out_point \<Rightarrow> lightning_db \<Rightarrow>
   (lightning_output_error, amount \<times> lightning_db) outcome" where
  "lightning_process_output C (OutgoingOutput c) p db =
     obind (ok_or LightningOutputOverflow (amount_checked_add (oc_amount c) (oc_fee c)))
       (\<lambda>a. Done (a, db\<lparr>outgoing_contracts := bt_insert p c (outgoing_contracts db)\<rparr>))"
| "lightning_process_output C (IncomingOutput c) p db =
     obind (ok_or LightningOutputOverflow (claim_amount c))
       (\<lambda>a. let i = (case stream_next_index db of None \<Rightarrow> 0 | Some i \<Rightarrow> i)
            in Done (a, db\<lparr>
                 incoming_contracts := bt_insert p c (incoming_contracts db),
                 incoming_payments :=
                   bt_insert (contract_payment_hash C c) (contract_preimage C c) (incoming_payments db),
                 contract_stream := bt_insert i (p, c) (contract_stream db),
                 contract_index := bt_insert p i (contract_index db),
                 stream_next_index := Some (i + 1)\<rparr>))"

section \<open>API\<close>

definition add_gateway :: "hash256 \<Rightarrow> bytes \<Rightarrow> lightning_db \<Rightarrow> bool \<times> lightning_db" where
  "add_gateway pk name db =
     (\<not> bt_has (gateways_table db) pk, db\<lparr>gateways_table := bt_insert pk name (gateways_table db)\<rparr>)"

definition remove_gateway :: "hash256 \<Rightarrow> lightning_db \<Rightarrow> bool \<times> lightning_db" where
  "remove_gateway pk db =
     (bt_has (gateways_table db) pk, db\<lparr>gateways_table := bt_remove pk (gateways_table db)\<rparr>)"

definition gateways :: "lightning_db \<Rightarrow> hash256 list" where
  "gateways db = bt_keys (gateways_table db)"

text \<open>The waiting handlers are \<open>None\<close> while they wait.\<close>

definition await_preimage :: "out_point \<Rightarrow> lightning_db \<Rightarrow> hash256 option" where
  "await_preimage p db = bt_get (preimages db) p"

definition await_outgoing_contract :: "'a crypto_scheme \<Rightarrow> out_point \<Rightarrow> lightning_db \<Rightarrow> hash256 option" where
  "await_outgoing_contract C p db = map_option (contract_id C) (bt_get (outgoing_contracts db) p)"

definition incoming_payment :: "hash256 \<Rightarrow> lightning_db \<Rightarrow> hash256 option" where
  "incoming_payment h db = bt_get (incoming_payments db) h"

text \<open>
  A page of the stream: the entries from \<open>start\<close> on, at most \<open>batch\<close> of them, and where the next
  page starts. The outer sum is the error of a zero batch.
\<close>

definition await_incoming_contracts ::
  "u64 \<Rightarrow> u32 \<Rightarrow> lightning_db \<Rightarrow> (bytes + ((out_point \<times> incoming_contract) list \<times> u64)) option" where
  "await_incoming_contracts start batch db =
     (if batch = 0 then Some (Inl [])
      else
        (case stream_next_index db of
           None \<Rightarrow> None
         | Some n \<Rightarrow>
             if \<not> start < n then None
             else
               (let es = take (unat batch) (bt_range start (- 1) (contract_stream db))
                in Some (Inr (map snd es, if es = [] then n else fst (last es) + 1)))))"

section \<open>The stream and its index\<close>

text \<open>
  The stream lists exactly the unspent incoming contracts, each at the position the index has for
  it, all below the next position.
\<close>

definition stream_ok :: "lightning_db \<Rightarrow> bool" where
  "stream_ok db \<longleftrightarrow>
     (\<forall>p. case bt_get (incoming_contracts db) p of
        None \<Rightarrow> bt_get (contract_index db) p = None
      | Some c \<Rightarrow> \<exists>i n. bt_get (contract_index db) p = Some i \<and> bt_get (contract_stream db) i = Some (p, c) \<and>
          stream_next_index db = Some n \<and> i < n) \<and>
     (\<forall>i p c. bt_get (contract_stream db) i = Some (p, c) \<longrightarrow> bt_get (contract_index db) p = Some i)"

lemma stream_ok_entry:
  assumes "stream_ok db" "bt_get (incoming_contracts db) p = Some c"
  obtains i n where "bt_get (contract_index db) p = Some i" "bt_get (contract_stream db) i = Some (p, c)"
    "stream_next_index db = Some n" "i < n"
  using assms by (auto simp: stream_ok_def dest!: spec [of _ p])

lemma stream_ok_none: "stream_ok db \<Longrightarrow> bt_get (incoming_contracts db) p = None \<Longrightarrow> bt_get (contract_index db) p = None"
  by (auto simp: stream_ok_def dest!: spec [of _ p])

lemma stream_ok_index:
  "stream_ok db \<Longrightarrow> bt_get (contract_stream db) i = Some (p, c) \<Longrightarrow> bt_get (contract_index db) p = Some i"
  by (simp add: stream_ok_def)

lemma stream_ok_listed:
  assumes ok: "stream_ok db" and g: "bt_get (contract_stream db) i = Some (p, c)"
  shows "bt_get (incoming_contracts db) p = Some c \<and> (\<exists>n. stream_next_index db = Some n \<and> i < n)"
proof (cases "bt_get (incoming_contracts db) p")
  case None
  with ok g show ?thesis using stream_ok_none stream_ok_index by fastforce
next
  case (Some d)
  then show ?thesis
    using stream_ok_entry [OF ok Some] stream_ok_index [OF ok g] g by (metis Pair_inject option.inject)
qed

lemma lightning_input_no_panic:
  assumes ok: "stream_ok db"
  shows "lightning_process_input C i db \<noteq> Panicked"
proof (cases i)
  case (OutgoingInput p w)
  then show ?thesis
    by (auto simp: Let_def obind_Panicked_iff split: option.splits outgoing_witness.splits if_splits)
next
  case (IncomingInput p)
  then show ?thesis
    by (auto simp: Let_def obind_Panicked_iff split: option.splits elim: stream_ok_entry [OF ok])
qed

lemma lightning_output_no_panic [simp]: "lightning_process_output C x p db \<noteq> Panicked"
  by (cases x) (auto simp: Let_def obind_Panicked_iff)

text \<open>What spending a contract does, by the kind of input.\<close>

lemma outgoing_input_Done:
  assumes "lightning_process_input C (OutgoingInput p w) db = Done ((a, pk), db')"
  shows "\<exists>c pre. bt_get (outgoing_contracts db) p = Some c \<and> amount_checked_add (oc_amount c) (oc_fee c) = Some a \<and>
    (case w of
       Claim r \<Rightarrow> verify_preimage C c r \<and> pk = oc_claim_pk c \<and> pre = bt_insert p r (preimages db)
     | Cancel s \<Rightarrow> verify_forfeit_signature C c s \<and> pk = refund_pk c \<and> pre = preimages db) \<and>
    db' = db\<lparr>outgoing_contracts := bt_remove p (outgoing_contracts db), preimages := pre\<rparr>"
  using assms
  by (auto simp: Let_def obind_Done_iff split: option.splits outgoing_witness.splits if_splits)

lemma incoming_input_Done:
  assumes "lightning_process_input C (IncomingInput p) db = Done ((a, pk), db')"
  shows "\<exists>c i. bt_get (incoming_contracts db) p = Some c \<and> bt_get (contract_index db) p = Some i \<and>
    claim_amount c = Some a \<and> pk = ic_claim_pk c \<and>
    db' = db\<lparr>incoming_contracts := bt_remove p (incoming_contracts db),
      contract_index := bt_remove p (contract_index db), contract_stream := bt_remove i (contract_stream db)\<rparr>"
  using assms by (auto simp: Let_def obind_Done_iff split: option.splits)

lemma stream_ok_input:
  assumes d: "lightning_process_input C i db = Done ((a, pk), db')" and ok: "stream_ok db"
  shows "stream_ok db'"
proof (cases i)
  case (OutgoingInput p w)
  with outgoing_input_Done [of C p w db a pk db'] d obtain pre where
    "db' = db\<lparr>outgoing_contracts := bt_remove p (outgoing_contracts db), preimages := pre\<rparr>" by auto
  then show ?thesis using ok by (simp add: stream_ok_def cong: option.case_cong)
next
  case (IncomingInput p)
  with incoming_input_Done [of C p db a pk db'] d obtain c k where
    c: "bt_get (incoming_contracts db) p = Some c" "bt_get (contract_index db) p = Some k"
    and db': "db' = db\<lparr>incoming_contracts := bt_remove p (incoming_contracts db),
      contract_index := bt_remove p (contract_index db), contract_stream := bt_remove k (contract_stream db)\<rparr>"
    by auto
  show ?thesis
    unfolding stream_ok_def
  proof (intro conjI allI impI)
    fix q
    show "case bt_get (incoming_contracts db') q of
        None \<Rightarrow> bt_get (contract_index db') q = None
      | Some c \<Rightarrow> \<exists>i n. bt_get (contract_index db') q = Some i \<and> bt_get (contract_stream db') i = Some (q, c) \<and>
          stream_next_index db' = Some n \<and> i < n"
    proof (cases "q = p \<or> bt_get (incoming_contracts db) q = None")
      case True
      then show ?thesis using stream_ok_none [OF ok] by (auto simp: db')
    next
      case False
      then obtain e where q: "q \<noteq> p" "bt_get (incoming_contracts db) q = Some e" by auto
      from stream_ok_entry [OF ok q(2)] obtain j n where
        j: "bt_get (contract_index db) q = Some j" "bt_get (contract_stream db) j = Some (q, e)"
        "stream_next_index db = Some n" "j < n" .
      moreover have "j \<noteq> k"
        using stream_ok_entry [OF ok c(1)] c(2) j(2) q(1) by (metis Pair_inject option.inject)
      ultimately show ?thesis using q by (simp add: db')
    qed
  next
    fix j q e assume g: "bt_get (contract_stream db') j = Some (q, e)"
    then have "j \<noteq> k" "bt_get (contract_stream db) j = Some (q, e)" by (auto simp: db' split: if_splits)
    then have "bt_get (contract_index db) q = Some j" "q \<noteq> p"
      using stream_ok_index [OF ok] c(2) by force+
    then show "bt_get (contract_index db') q = Some j" by (simp add: db')
  qed
qed

text \<open>What funding a contract does.\<close>

lemma outgoing_output_Done:
  "lightning_process_output C (OutgoingOutput c) p db = Done (a, db') \<Longrightarrow>
   amount_checked_add (oc_amount c) (oc_fee c) = Some a \<and>
   db' = db\<lparr>outgoing_contracts := bt_insert p c (outgoing_contracts db)\<rparr>"
  by (auto simp: obind_Done_iff)

definition stream_next :: "lightning_db \<Rightarrow> u64" where
  "stream_next db = (case stream_next_index db of None \<Rightarrow> 0 | Some i \<Rightarrow> i)"

lemma incoming_output_Done:
  "lightning_process_output C (IncomingOutput c) p db = Done (a, db') \<Longrightarrow>
   claim_amount c = Some a \<and>
   db' = db\<lparr>incoming_contracts := bt_insert p c (incoming_contracts db),
     incoming_payments := bt_insert (contract_payment_hash C c) (contract_preimage C c) (incoming_payments db),
     contract_stream := bt_insert (stream_next db) (p, c) (contract_stream db),
     contract_index := bt_insert p (stream_next db) (contract_index db),
     stream_next_index := Some (stream_next db + 1)\<rparr>"
  by (auto simp: obind_Done_iff Let_def stream_next_def)

text \<open>The stream is kept as long as its 64-bit position does not wrap.\<close>

lemma stream_ok_output:
  assumes d: "lightning_process_output C x p db = Done (a, db')" and ok: "stream_ok db"
    and fresh: "bt_get (incoming_contracts db) p = None" and room: "stream_next db \<noteq> - 1"
  shows "stream_ok db'"
proof (cases x)
  case (OutgoingOutput c)
  then show ?thesis
    using ok outgoing_output_Done [of C c p db a db'] d
    by (simp add: stream_ok_def cong: option.case_cong)
next
  case (IncomingOutput c)
  let ?n = "stream_next db"
  from IncomingOutput incoming_output_Done [of C c p db a db'] d have
    db': "db' = db\<lparr>incoming_contracts := bt_insert p c (incoming_contracts db),
     incoming_payments := bt_insert (contract_payment_hash C c) (contract_preimage C c) (incoming_payments db),
     contract_stream := bt_insert ?n (p, c) (contract_stream db),
     contract_index := bt_insert p ?n (contract_index db),
     stream_next_index := Some (?n + 1)\<rparr>"
    by simp
  have up: "?n < ?n + 1" using room
    by (rule word_less_succ)
  have below: "i < ?n" if "bt_get (contract_stream db) i = Some (q, e)" for i q e
    using stream_ok_listed [OF ok that] by (auto simp: stream_next_def)
  show ?thesis
    unfolding stream_ok_def
  proof (intro conjI allI impI)
    fix q
    show "case bt_get (incoming_contracts db') q of
        None \<Rightarrow> bt_get (contract_index db') q = None
      | Some c \<Rightarrow> \<exists>i n. bt_get (contract_index db') q = Some i \<and> bt_get (contract_stream db') i = Some (q, c) \<and>
          stream_next_index db' = Some n \<and> i < n"
    proof (cases "bt_get (incoming_contracts db) q")
      case None
      then show ?thesis using stream_ok_none [OF ok None] up by (simp add: db')
    next
      case (Some e)
      then have q: "q \<noteq> p" using fresh by auto
      from stream_ok_entry [OF ok Some] obtain j n where
        j: "bt_get (contract_index db) q = Some j" "bt_get (contract_stream db) j = Some (q, e)" .
      from below [OF j(2)] up have "j \<noteq> ?n" "j < ?n + 1" by auto
      with j q Some show ?thesis by (simp add: db')
    qed
  next
    fix j q e assume g: "bt_get (contract_stream db') j = Some (q, e)"
    show "bt_get (contract_index db') q = Some j"
    proof (cases "j = ?n")
      case True
      then show ?thesis using g by (simp add: db')
    next
      case False
      with g have g': "bt_get (contract_stream db) j = Some (q, e)" by (simp add: db')
      with stream_ok_listed [OF ok g'] fresh have "q \<noteq> p" by auto
      then show ?thesis using stream_ok_index [OF ok g'] by (simp add: db')
    qed
  qed
qed

section \<open>The value the contracts lock\<close>

text \<open>
  What the mint owes the holders of unspent contracts: an outgoing contract its amount and fee, an
  incoming one its amount less the gateway's fee.
\<close>

definition outgoing_value :: "outgoing_contract \<Rightarrow> nat" where
  "outgoing_value c = amount_nat (oc_amount c) + amount_nat (oc_fee c)"

definition incoming_value :: "incoming_contract \<Rightarrow> nat" where
  "incoming_value c = amount_nat (ic_amount c) - amount_nat (ic_fee c)"

definition locked :: "lightning_db \<Rightarrow> nat" where
  "locked db = bt_sum outgoing_value (outgoing_contracts db) + bt_sum incoming_value (incoming_contracts db)"

lemma locked_input:
  assumes "lightning_process_input C i db = Done ((a, pk), db')"
  shows "locked db = locked db' + amount_nat a"
proof (cases i)
  case (OutgoingInput p w)
  with assms outgoing_input_Done [of C p w db a pk db'] obtain c pre where
    "bt_get (outgoing_contracts db) p = Some c" "amount_checked_add (oc_amount c) (oc_fee c) = Some a"
    "db' = db\<lparr>outgoing_contracts := bt_remove p (outgoing_contracts db), preimages := pre\<rparr>"
    by blast
  then show ?thesis
    using bt_sum_remove [of "outgoing_contracts db" p c outgoing_value]
    by (auto simp: locked_def outgoing_value_def dest!: amount_checked_add_SomeD)
next
  case (IncomingInput p)
  with assms incoming_input_Done [of C p db a pk db'] obtain c k where
    "bt_get (incoming_contracts db) p = Some c" "claim_amount c = Some a"
    "db' = db\<lparr>incoming_contracts := bt_remove p (incoming_contracts db),
      contract_index := bt_remove p (contract_index db), contract_stream := bt_remove k (contract_stream db)\<rparr>"
    by blast
  then show ?thesis
    using bt_sum_remove [of "incoming_contracts db" p c incoming_value]
    by (auto simp: locked_def incoming_value_def claim_amount_def dest!: amount_checked_sub_SomeD)
qed

lemma locked_output:
  assumes "lightning_process_output C x p db = Done (a, db')"
    and "bt_get (outgoing_contracts db) p = None" "bt_get (incoming_contracts db) p = None"
  shows "locked db' = locked db + amount_nat a"
proof (cases x)
  case (OutgoingOutput c)
  note D = outgoing_output_Done [OF assms(1) [unfolded OutgoingOutput]]
  note a = D [THEN conjunct1] and db' = D [THEN conjunct2]
  show ?thesis
    using amount_checked_add_SomeD [OF a]
    by (simp add: db' locked_def bt_sum_insert [OF assms(2)] outgoing_value_def)
next
  case (IncomingOutput c)
  note D = incoming_output_Done [OF assms(1) [unfolded IncomingOutput]]
  note a = D [THEN conjunct1] and db' = D [THEN conjunct2]
  show ?thesis
    using amount_checked_sub_SomeD [OF a [unfolded claim_amount_def]]
    by (simp add: db' locked_def bt_sum_insert [OF assms(3)] incoming_value_def)
qed

end
