(* ===== verification/Mint_Server.thy ===== *)
theory Mint_Server
  imports Funding Ecash_Server Lightning_Server Onchain_Server Consensus_Votes
begin

text \<open>
  The daemon's transaction and consensus-item processing
  (\<open>picomint-node-daemon/src/consensus/server.rs\<close> and \<open>process_consensus_item\<close> of \<open>engine.rs\<close>): the
  three modules behind the wire types, the funding check, the set of accepted transactions and the
  votes. A failed item leaves the database as it was, since its write transaction is dropped: an
  error carries no state.
\<close>

section \<open>The daemon\<close>

record daemon_ops =
  dcrypto :: crypto
  dtbs :: tbs_ops
  dwallet :: wallet_ops

record daemon_config =
  broadcast_pks :: "(node_id, bytes) btmap"
  default_version :: consensus_version
  ecash_cfg :: ecash_config
  onchain_cfg :: onchain_config

record daemon_db =
  ecash_tables :: ecash_db
  lightning_tables :: lightning_db
  onchain_tables :: onchain_db
  accepted_txids :: "hash256 btset"
  height_votes :: "(node_id, u32) btmap"
  version_votes :: "(node_id, consensus_version) btmap"

definition daemon_nodes :: "daemon_config \<Rightarrow> num_nodes option" where
  "daemon_nodes cfg = to_num_nodes (broadcast_pks cfg)"

definition server_block_height :: "daemon_config \<Rightarrow> daemon_db \<Rightarrow> u32 option" where
  "server_block_height cfg db =
     Option.bind (daemon_nodes cfg) (\<lambda>n. consensus_block_height n (height_votes db))"

definition server_version :: "daemon_config \<Rightarrow> daemon_db \<Rightarrow> consensus_version option" where
  "server_version cfg db =
     Option.bind (daemon_nodes cfg) (\<lambda>n. consensus_version n (default_version cfg) (version_votes db))"

section \<open>Transactions\<close>

text \<open>The id covers inputs and outputs, not the signatures.\<close>

definition compute_tx_id :: "crypto \<Rightarrow> transaction \<Rightarrow> hash256" where
  "compute_tx_id C tx = sha256 C (enc_vec enc_wire_input (tx_inputs tx) @ enc_vec enc_wire_output (tx_outputs tx))"

definition validate_signatures :: "crypto \<Rightarrow> transaction \<Rightarrow> xonly list \<Rightarrow> (tx_error, unit) outcome" where
  "validate_signatures C tx pks =
     (if length pks \<noteq> length (tx_signatures tx) then Failed InvalidWitnessLength
      else ensure (list_all (\<lambda>(pk, s). verify_schnorr C (enc_int s) (compute_tx_id C tx) (enc_hash pk))
             (zip pks (tx_signatures tx))) InvalidSignature)"

fun input_fee :: "wire_input \<Rightarrow> amount" where
  "input_fee (EcashIn i) = ECASH_INPUT_FEE"
| "input_fee (OnchainIn i) = ONCHAIN_INPUT_FEE"
| "input_fee (LightningIn i) = LIGHTNING_INPUT_FEE"

fun output_fee :: "wire_output \<Rightarrow> amount" where
  "output_fee (EcashOut x) = ECASH_OUTPUT_FEE"
| "output_fee (OnchainOut x) = ONCHAIN_OUTPUT_FEE"
| "output_fee (LightningOut x) = LIGHTNING_OUTPUT_FEE"

fun process_input ::
  "daemon_ops \<Rightarrow> daemon_config \<Rightarrow> wire_input \<Rightarrow> daemon_db \<Rightarrow> (input_error, (amount \<times> xonly) \<times> daemon_db) outcome" where
  "process_input S cfg (EcashIn i) db =
     map_err EcashInputError
       (obind (ecash_process_input (dtbs S) (ecash_cfg cfg) i (ecash_tables db))
         (\<lambda>(r, t). Done (r, db\<lparr>ecash_tables := t\<rparr>)))"
| "process_input S cfg (OnchainIn i) db =
     map_err OnchainInputError
       (obind (onchain_process_input (dcrypto S) (dwallet S) (onchain_cfg cfg) (server_block_height cfg db) i
           (onchain_tables db))
         (\<lambda>(r, t). Done (r, db\<lparr>onchain_tables := t\<rparr>)))"
| "process_input S cfg (LightningIn i) db =
     map_err LightningInputError
       (obind (lightning_process_input (dcrypto S) i (lightning_tables db))
         (\<lambda>(r, t). Done (r, db\<lparr>lightning_tables := t\<rparr>)))"

fun process_output ::
  "daemon_ops \<Rightarrow> daemon_config \<Rightarrow> wire_output \<Rightarrow> out_point \<Rightarrow> daemon_db \<Rightarrow> (output_error, amount \<times> daemon_db) outcome" where
  "process_output S cfg (EcashOut x) p db =
     map_err EcashOutputError
       (obind (ecash_process_output (dtbs S) (ecash_cfg cfg) x p (ecash_tables db))
         (\<lambda>(r, t). Done (r, db\<lparr>ecash_tables := t\<rparr>)))"
| "process_output S cfg (OnchainOut x) p db =
     map_err OnchainOutputError
       (obind (onchain_process_output (dcrypto S) (dwallet S) (onchain_cfg cfg) (server_block_height cfg db) x p
           (onchain_tables db))
         (\<lambda>(r, t). Done (r, db\<lparr>onchain_tables := t\<rparr>)))"
| "process_output S cfg (LightningOut x) p db =
     map_err LightningOutputError
       (obind (lightning_process_output (dcrypto S) x p (lightning_tables db))
         (\<lambda>(r, t). Done (r, db\<lparr>lightning_tables := t\<rparr>)))"

text \<open>One turn of the loop over the inputs: funding, public keys and database.\<close>

definition input_step ::
  "daemon_ops \<Rightarrow> daemon_config \<Rightarrow> wire_input \<Rightarrow> funding_verifier \<times> xonly list \<times> daemon_db \<Rightarrow>
   (tx_error, funding_verifier \<times> xonly list \<times> daemon_db) outcome" where
  "input_step S cfg i = (\<lambda>(v, pks, db).
     obind (map_err TxInput (process_input S cfg i db)) (\<lambda>((a, pk), db').
     obind (add_input a (input_fee i) v) (\<lambda>v'. Done (v', pks @ [pk], db'))))"

definition output_step ::
  "daemon_ops \<Rightarrow> daemon_config \<Rightarrow> hash256 \<Rightarrow> wire_output \<times> u16 \<Rightarrow> funding_verifier \<times> daemon_db \<Rightarrow>
   (tx_error, funding_verifier \<times> daemon_db) outcome" where
  "output_step S cfg txid = (\<lambda>(x, idx) (v, db).
     obind (map_err TxOutput (process_output S cfg x (OutPoint txid idx) db)) (\<lambda>(a, db').
     obind (add_output a (output_fee x) v) (\<lambda>v'. Done (v', db'))))"

definition indexed_outputs :: "transaction \<Rightarrow> (wire_output \<times> u16) list" where
  "indexed_outputs tx = zip (tx_outputs tx) (map of_nat [0..<length (tx_outputs tx)])"

definition process_tx :: "daemon_ops \<Rightarrow> daemon_config \<Rightarrow> transaction \<Rightarrow> daemon_db \<Rightarrow> (tx_error, daemon_db) outcome" where
  "process_tx S cfg tx db =
     (if tx_inputs tx = [] then Failed EmptyInputs
      else if tx_outputs tx = [] then Failed EmptyOutputs
      else if MAX_INPUTS < length (tx_inputs tx) then Failed TooManyInputs
      else if MAX_OUTPUTS < length (tx_outputs tx) then Failed TooManyOutputs
      else if length (tx_signatures tx) \<noteq> length (tx_inputs tx) then Failed InvalidWitnessLength
      else
        (let txid = compute_tx_id (dcrypto S) tx
         in obind (ofold (input_step S cfg) (tx_inputs tx) (funding_default, [], db)) (\<lambda>(v, pks, db1).
            obind (validate_signatures (dcrypto S) tx pks) (\<lambda>_.
            obind (ofold (output_step S cfg txid) (indexed_outputs tx) (v, db1)) (\<lambda>(v', db2).
            obind (verify_funding v') (\<lambda>_. Done db2))))))"

section \<open>Consensus items\<close>

datatype consensus_item =
    TxItem transaction
  | ModuleItem onchain_item
  | BlockHeightItem u32
  | VersionItem consensus_version

datatype item_error =
    TxAlreadyAccepted | TxRejected tx_error | ModuleRejected onchain_item_error
  | RedundantHeight | RedundantVersion

definition process_height_vote ::
  "daemon_config \<Rightarrow> node_id \<Rightarrow> u32 \<Rightarrow> daemon_db \<Rightarrow> (item_error, daemon_db) outcome" where
  "process_height_vote cfg p v db =
     obind (expect (server_block_height cfg db)) (\<lambda>old.
     obind (ok_or RedundantHeight (raise_vote 0 p v (height_votes db))) (\<lambda>votes.
     let db1 = db\<lparr>height_votes := votes\<rparr> in
     obind (expect (server_block_height cfg db1)) (\<lambda>new.
     obind (assert_that (old \<le> new)) (\<lambda>_.
     Done (if new \<noteq> old
           then db1\<lparr>onchain_tables := initialize_block_height old new (onchain_tables db1)\<rparr>
           else db1)))))"

definition process_version_vote ::
  "daemon_config \<Rightarrow> node_id \<Rightarrow> consensus_version \<Rightarrow> daemon_db \<Rightarrow> (item_error, daemon_db) outcome" where
  "process_version_vote cfg p v db =
     obind (ok_or RedundantVersion (raise_vote (default_version cfg) p v (version_votes db))) (\<lambda>votes.
     let db1 = db\<lparr>version_votes := votes\<rparr> in
     obind (expect (server_version cfg db1)) (\<lambda>active.
     obind (assert_that (active \<le> CONSENSUS_VERSION)) (\<lambda>_. Done db1)))"

fun process_consensus_item ::
  "daemon_ops \<Rightarrow> daemon_config \<Rightarrow> node_id \<Rightarrow> consensus_item \<Rightarrow> daemon_db \<Rightarrow> (item_error, daemon_db) outcome" where
  "process_consensus_item S cfg p (TxItem tx) db =
     (let txid = compute_tx_id (dcrypto S) tx
      in if bt_has (accepted_txids db) txid then Failed TxAlreadyAccepted
         else obind (map_err TxRejected (process_tx S cfg tx db)) (\<lambda>db'.
              Done (db'\<lparr>accepted_txids := bs_insert txid (accepted_txids db')\<rparr>)))"
| "process_consensus_item S cfg p (ModuleItem i) db =
     obind (map_err ModuleRejected (onchain_process_item (dwallet S) (onchain_cfg cfg) p i (onchain_tables db)))
       (\<lambda>t. Done (db\<lparr>onchain_tables := t\<rparr>))"
| "process_consensus_item S cfg p (BlockHeightItem v) db = process_height_vote cfg p v db"
| "process_consensus_item S cfg p (VersionItem v) db = process_version_vote cfg p v db"

text \<open>
  The rejections a submission waits on: a final rejection of this node's own transaction is kept,
  by its id, until the session closes. It lives outside the database.
\<close>

fun note_rejection ::
  "crypto \<Rightarrow> node_id \<Rightarrow> node_id \<Rightarrow> consensus_item \<Rightarrow> (item_error, 'a) outcome \<Rightarrow> (hash256, tx_error) btmap \<Rightarrow>
   (hash256, tx_error) btmap" where
  "note_rejection C me p (TxItem tx) (Failed (TxRejected e)) m =
     (if p = me then bt_insert (compute_tx_id C tx) e m else m)"
| "note_rejection C me p item r m = m"

section \<open>Loops over inputs and outputs\<close>

lemma input_step_Done:
  "input_step S cfg i (v, pks, db) = Done s \<longleftrightarrow>
     (\<exists>a pk db' v'. process_input S cfg i db = Done ((a, pk), db') \<and> add_input a (input_fee i) v = Done v' \<and>
        s = (v', pks @ [pk], db'))"
  by (auto simp: input_step_def obind_Done_iff)

lemma output_step_Done:
  "output_step S cfg txid (x, idx) (v, db) = Done s \<longleftrightarrow>
     (\<exists>a db' v'. process_output S cfg x (OutPoint txid idx) db = Done (a, db') \<and>
        add_output a (output_fee x) v = Done v' \<and> s = (v', db'))"
  by (auto simp: output_step_def obind_Done_iff)

lemma input_step_Panicked:
  "input_step S cfg i (v, pks, db) = Panicked \<longleftrightarrow> process_input S cfg i db = Panicked"
  by (auto simp: input_step_def obind_Panicked_iff)

lemma output_step_Panicked:
  "output_step S cfg txid (x, idx) (v, db) = Panicked \<longleftrightarrow> process_output S cfg x (OutPoint txid idx) db = Panicked"
  by (auto simp: output_step_def obind_Panicked_iff)

text \<open>What the loops keep, from what one input or output keeps: of the database alone.\<close>

lemma inputs_inv:
  assumes step: "\<And>i a pk db db'. i \<in> set is \<Longrightarrow> I db \<Longrightarrow> process_input S cfg i db = Done ((a, pk), db') \<Longrightarrow> I db'"
    and I: "I db" and f: "ofold (input_step S cfg) is (v, pks, db) = Done (v', pks', db')"
  shows "I db'"
proof -
  have "case (v', pks', db') of (v, pks, db) \<Rightarrow> I db"
    by (rule ofold_inv [of "is" "\<lambda>(v, pks, db). I db", OF _ _ f])
      (use I step in \<open>auto simp: input_step_Done\<close>)
  then show ?thesis by simp
qed

end
