(* ===== verification/Mint_Invariant.thy ===== *)
theory Mint_Invariant
  imports Onchain_Invariant Mint_Server Onchain_Wallet
begin

text \<open>
  The mint's books: what it owes and holds before and after a transaction. Ecash it has issued and
  contracts it has locked are liabilities, the wallet's satoshis are what backs them, and a
  transaction moves them only within what its inputs bring.

  The invariant of the daemon's database, kept by every accepted consensus item, and the panics it
  rules out: the sum of the modules' invariants with the votes, and the origin of every contract in
  an accepted transaction.
\<close>

section \<open>Liabilities and holdings\<close>

definition liabilities :: "daemon_db \<Rightarrow> nat" where
  "liabilities db = issued (ecash_tables db) + locked (lightning_tables db)"

definition holdings :: "daemon_db \<Rightarrow> nat" where
  "holdings db = 1000 * wallet_sats (onchain_tables db)"

text \<open>What a transaction redeems in notes, and what it pays in fees.\<close>

fun note_value :: "wire_input \<Rightarrow> nat" where
  "note_value (EcashIn i) = amount_nat (denomination_amount (denomination (ei_note i)))"
| "note_value i = 0"

definition redeemed_by :: "transaction \<Rightarrow> nat" where
  "redeemed_by tx = sum_list (map note_value (tx_inputs tx))"

definition tx_fees :: "transaction \<Rightarrow> nat" where
  "tx_fees tx = sum_list (map (\<lambda>i. amount_nat (input_fee i)) (tx_inputs tx)) +
     sum_list (map (\<lambda>x. amount_nat (output_fee x)) (tx_outputs tx))"

lemma process_input_value:
  assumes "process_input S cfg i db = Done ((a, pk), db')"
  shows "amount_nat a + liabilities db' + holdings db \<le> liabilities db + holdings db' + note_value i"
proof (cases i)
  case (EcashIn e)
  with assms obtain t where t: "ecash_process_input (dtbs S) (ecash_cfg cfg) e (ecash_tables db) = Done ((a, pk), t)"
    "db' = db\<lparr>ecash_tables := t\<rparr>" by (auto simp: obind_Done_iff)
  from issued_input [OF t(1)] ecash_input_Done [OF t(1)] t(2) EcashIn show ?thesis
    by (auto simp: liabilities_def holdings_def)
next
  case (OnchainIn e)
  with assms obtain t where "onchain_process_input (dcrypto S) (dwallet S) (onchain_cfg cfg)
      (server_block_height cfg db) e (onchain_tables db) = Done ((a, pk), t)" "db' = db\<lparr>onchain_tables := t\<rparr>"
    by (auto simp: obind_Done_iff)
  with onchain_input_value show ?thesis by (fastforce simp: liabilities_def holdings_def)
next
  case (LightningIn e)
  with assms obtain t where "lightning_process_input (dcrypto S) e (lightning_tables db) = Done ((a, pk), t)"
    "db' = db\<lparr>lightning_tables := t\<rparr>" by (auto simp: obind_Done_iff)
  with locked_input show ?thesis by (fastforce simp: liabilities_def holdings_def)
qed

text \<open>No contract sits at an outpoint of the given transaction from index \<open>k\<close> on.\<close>

definition fresh_from :: "hash256 \<Rightarrow> nat \<Rightarrow> daemon_db \<Rightarrow> bool" where
  "fresh_from txid k db \<longleftrightarrow>
     (\<forall>idx. k \<le> unat idx \<longrightarrow>
        bt_get (incoming_contracts (lightning_tables db)) (OutPoint txid idx) = None \<and>
        bt_get (outgoing_contracts (lightning_tables db)) (OutPoint txid idx) = None)"

lemma process_output_value:
  assumes "process_output S cfg x (OutPoint txid idx) db = Done (a, db')" and "fresh_from txid (unat idx) db"
  shows "liabilities db' + holdings db = liabilities db + holdings db' + amount_nat a"
proof (cases x)
  case (EcashOut e)
  with assms(1) obtain t where "ecash_process_output (dtbs S) (ecash_cfg cfg) e (OutPoint txid idx) (ecash_tables db) =
      Done (a, t)" "db' = db\<lparr>ecash_tables := t\<rparr>" by (auto simp: obind_Done_iff)
  with issued_output show ?thesis by (fastforce simp: liabilities_def holdings_def)
next
  case (OnchainOut e)
  with assms(1) obtain t where "onchain_process_output (dcrypto S) (dwallet S) (onchain_cfg cfg)
      (server_block_height cfg db) e (OutPoint txid idx) (onchain_tables db) = Done (a, t)"
    "db' = db\<lparr>onchain_tables := t\<rparr>" by (auto simp: obind_Done_iff)
  with onchain_output_value show ?thesis by (fastforce simp: liabilities_def holdings_def)
next
  case (LightningOut e)
  with assms(1) obtain t where t: "lightning_process_output (dcrypto S) e (OutPoint txid idx) (lightning_tables db) =
      Done (a, t)" "db' = db\<lparr>lightning_tables := t\<rparr>" by (auto simp: obind_Done_iff)
  from locked_output [OF t(1)] assms(2) t(2) show ?thesis
    by (simp add: liabilities_def holdings_def fresh_from_def)
qed

lemma lightning_output_fresh:
  assumes "lightning_process_output C x p db = Done (a, db')" "q \<noteq> p"
  shows "bt_get (incoming_contracts db') q = bt_get (incoming_contracts db) q \<and>
    bt_get (outgoing_contracts db') q = bt_get (outgoing_contracts db) q"
proof (cases x)
  case (OutgoingOutput c)
  with outgoing_output_Done [of C c p db a db'] assms show ?thesis by auto
next
  case (IncomingOutput c)
  with incoming_output_Done [of C c p db a db'] assms show ?thesis by auto
qed

lemma process_output_lightning:
  assumes "process_output S cfg x p db = Done (a, db')" "q \<noteq> p"
  shows "bt_get (incoming_contracts (lightning_tables db')) q = bt_get (incoming_contracts (lightning_tables db)) q \<and>
    bt_get (outgoing_contracts (lightning_tables db')) q = bt_get (outgoing_contracts (lightning_tables db)) q"
  using assms(1)
  by (cases x) (auto simp: obind_Done_iff dest: lightning_output_fresh [OF _ assms(2)])

lemma process_output_fresh_from:
  assumes d: "process_output S cfg x (OutPoint txid idx) db = Done (a, db')" and f: "fresh_from txid (unat idx) db"
  shows "fresh_from txid (unat idx + 1) db'"
  unfolding fresh_from_def
proof (intro allI impI)
  fix j :: u16 assume j: "unat idx + 1 \<le> unat j"
  then have "OutPoint txid j \<noteq> OutPoint txid idx" by auto
  from process_output_lightning [OF d this] f j
  show "bt_get (incoming_contracts (lightning_tables db')) (OutPoint txid j) = None \<and>
      bt_get (outgoing_contracts (lightning_tables db')) (OutPoint txid j) = None"
    by (simp add: fresh_from_def)
qed

section \<open>The loops\<close>

lemma inputs_value:
  assumes "ofold (input_step S cfg) is (v, pks, db) = Done (v', pks', db')"
  shows "amount_nat (fv_inputs v') + liabilities db' + holdings db \<le>
      amount_nat (fv_inputs v) + liabilities db + holdings db' + sum_list (map note_value is) \<and>
    amount_nat (fv_fees v') = amount_nat (fv_fees v) + sum_list (map (\<lambda>i. amount_nat (input_fee i)) is) \<and>
    fv_outputs v' = fv_outputs v"
  using assms
proof (induction "is" arbitrary: v pks db)
  case (Cons i "is")
  from Cons.prems obtain a pk db1 v1 where
    p: "process_input S cfg i db = Done ((a, pk), db1)" and v1: "add_input a (input_fee i) v = Done v1"
    and rest: "ofold (input_step S cfg) is (v1, pks @ [pk], db1) = Done (v', pks', db')"
    by (auto simp: input_step_Done obind_Done_iff)
  from Cons.IH [OF rest] process_input_value [OF p] add_input_Done [OF v1] show ?case by simp
qed simp

lemma outputs_value:
  assumes "ofold (output_step S cfg txid) (zip xs (map of_nat [k..<k + length xs])) (v, db) = Done (v', db')"
    and "k + length xs \<le> 2 ^ 16" and "fresh_from txid k db"
  shows "liabilities db' + holdings db + amount_nat (fv_outputs v) =
      liabilities db + holdings db' + amount_nat (fv_outputs v') \<and>
    amount_nat (fv_fees v') = amount_nat (fv_fees v) + sum_list (map (\<lambda>x. amount_nat (output_fee x)) xs) \<and>
    fv_inputs v' = fv_inputs v"
  using assms
proof (induction xs arbitrary: k v db)
  case (Cons x xs)
  have up: "[k..<k + length (x # xs)] = k # [k + 1..<k + 1 + length xs]"
    using upt_conv_Cons [of k "k + length (x # xs)"] by simp
  from Cons.prems(1) obtain a db1 v1 where
    p: "process_output S cfg x (OutPoint txid (of_nat k)) db = Done (a, db1)"
    and v1: "add_output a (output_fee x) v = Done v1"
    and rest: "ofold (output_step S cfg txid) (zip xs (map of_nat [k + 1..<k + 1 + length xs])) (v1, db1) = Done (v', db')"
    unfolding up by (auto simp: output_step_Done obind_Done_iff)
  have uk: "unat (of_nat k :: u16) = k" using Cons.prems(2) by (simp add: unat_of_nat)
  have f1: "fresh_from txid (k + 1) db1"
    using process_output_fresh_from [OF p] Cons.prems(3) by (simp add: uk)
  from Cons.IH [OF rest _ f1] Cons.prems(2) process_output_value [OF p] Cons.prems(3) add_output_Done [OF v1]
  show ?case by (simp add: uk)
qed simp

lemma process_input_fresh_from:
  assumes "process_input S cfg i db = Done ((a, pk), db')" "fresh_from txid k db"
  shows "fresh_from txid k db'"
proof (cases i)
  case (LightningIn e)
  with assms(1) obtain t where t: "lightning_process_input (dcrypto S) e (lightning_tables db) = Done ((a, pk), t)"
    "db' = db\<lparr>lightning_tables := t\<rparr>" by (auto simp: obind_Done_iff)
  show ?thesis
  proof (cases e)
    case (OutgoingInput p w)
    with outgoing_input_Done [of "dcrypto S" p w "lightning_tables db" a pk t] t assms(2) show ?thesis
      by (auto simp: fresh_from_def)
  next
    case (IncomingInput p)
    with incoming_input_Done [of "dcrypto S" p "lightning_tables db" a pk t] t assms(2) show ?thesis
      by (auto simp: fresh_from_def)
  qed
qed (use assms in \<open>auto simp: obind_Done_iff fresh_from_def\<close>)

section \<open>A transaction\<close>

lemma process_tx_Done:
  assumes "process_tx S cfg tx db = Done db'"
  obtains v pks db1 v' where
    "tx_inputs tx \<noteq> []" "tx_outputs tx \<noteq> []" "length (tx_inputs tx) \<le> MAX_INPUTS" "length (tx_outputs tx) \<le> MAX_OUTPUTS"
    "ofold (input_step S cfg) (tx_inputs tx) (funding_default, [], db) = Done (v, pks, db1)"
    "validate_signatures (dcrypto S) tx pks = Done ()"
    "ofold (output_step S cfg (compute_tx_id (dcrypto S) tx)) (indexed_outputs tx) (v, db1) = Done (v', db')"
    "amount_nat (fv_outputs v') + amount_nat (fv_fees v') \<le> amount_nat (fv_inputs v')"
  using assms
  by (auto simp: process_tx_def Let_def obind_Done_iff not_less split: if_splits dest!: verify_funding_Done)

lemma process_tx_value:
  assumes d: "process_tx S cfg tx db = Done db'" and fresh: "fresh_from (compute_tx_id (dcrypto S) tx) 0 db"
  shows "liabilities db' + tx_fees tx + holdings db \<le> liabilities db + holdings db' + redeemed_by tx"
  using d
proof (rule process_tx_Done)
  fix v pks db1 v'
  let ?id = "compute_tx_id (dcrypto S) tx"
  assume i: "ofold (input_step S cfg) (tx_inputs tx) (funding_default, [], db) = Done (v, pks, db1)"
    and out: "ofold (output_step S cfg ?id) (indexed_outputs tx) (v, db1) = Done (v', db')"
    and len: "length (tx_outputs tx) \<le> MAX_OUTPUTS"
    and fund: "amount_nat (fv_outputs v') + amount_nat (fv_fees v') \<le> amount_nat (fv_inputs v')"
  have "fresh_from ?id 0 db1"
    by (rule inputs_inv [where I = "fresh_from ?id 0", OF _ fresh i]) (rule process_input_fresh_from)
  from outputs_value [of S cfg ?id "tx_outputs tx" 0 v db1 v' db'] this out len
  have "liabilities db' + holdings db1 + amount_nat (fv_outputs v) = liabilities db1 + holdings db' + amount_nat (fv_outputs v') \<and>
    amount_nat (fv_fees v') = amount_nat (fv_fees v) + sum_list (map (\<lambda>x. amount_nat (output_fee x)) (tx_outputs tx)) \<and>
    fv_inputs v' = fv_inputs v"
    by (simp add: indexed_outputs_def MAX_OUTPUTS_def)
  with inputs_value [OF i] fund show ?thesis
    by (simp add: tx_fees_def redeemed_by_def)
qed

section \<open>The invariant\<close>

text \<open>A configuration of \<open>n\<close> nodes, each with its keys.\<close>

definition config_ok :: "daemon_config \<Rightarrow> num_nodes \<Rightarrow> bool" where
  "config_ok cfg n \<longleftrightarrow>
     daemon_nodes cfg = Some n \<and> to_num_nodes (onchain_pks (onchain_cfg cfg)) = Some n \<and>
     (\<forall>p \<in> set (node_ids n). bt_get (onchain_pks (onchain_cfg cfg)) p \<noteq> None)"

definition modules_ok :: "daemon_ops \<Rightarrow> daemon_config \<Rightarrow> num_nodes \<Rightarrow> daemon_db \<Rightarrow> bool" where
  "modules_ok S cfg n db \<longleftrightarrow>
     ecash_ok (dtbs S) (ecash_cfg cfg) (ecash_tables db) \<and>
     stream_ok (lightning_tables db) \<and>
     onchain_ok (dcrypto S) (dwallet S) (onchain_cfg cfg) n (onchain_tables db)"

definition votes_ok :: "daemon_config \<Rightarrow> num_nodes \<Rightarrow> daemon_db \<Rightarrow> bool" where
  "votes_ok cfg n db \<longleftrightarrow>
     votes_by n (height_votes db) \<and> votes_by n (version_votes db) \<and>
     (server_block_height cfg db = Some 0 \<longrightarrow> block_height (onchain_tables db) = None)"

text \<open>Every contract stems from an accepted transaction.\<close>

definition contracts_ok :: "daemon_db \<Rightarrow> bool" where
  "contracts_ok db \<longleftrightarrow> (\<forall>txid. \<not> bt_has (accepted_txids db) txid \<longrightarrow> fresh_from txid 0 db)"

definition daemon_ok :: "daemon_ops \<Rightarrow> daemon_config \<Rightarrow> num_nodes \<Rightarrow> daemon_db \<Rightarrow> bool" where
  "daemon_ok S cfg n db \<longleftrightarrow> modules_ok S cfg n db \<and> votes_ok cfg n db \<and> contracts_ok db"

text \<open>The rows of the tables indexed by 64-bit words.\<close>

definition used :: "daemon_db \<Rightarrow> nat" where
  "used db = unat (stream_next (lightning_tables db)) + onchain_used (onchain_tables db)"

section \<open>Inputs and outputs\<close>

lemma lightning_input_next:
  "lightning_process_input C i db = Done ((a, pk), db') \<Longrightarrow> stream_next db' = stream_next db"
proof (cases i)
  case (OutgoingInput p w)
  assume "lightning_process_input C i db = Done ((a, pk), db')"
  with outgoing_input_Done [of C p w db a pk db'] show ?thesis by (auto simp: OutgoingInput stream_next_def)
next
  case (IncomingInput p)
  assume "lightning_process_input C i db = Done ((a, pk), db')"
  with incoming_input_Done [of C p db a pk db'] show ?thesis by (auto simp: IncomingInput stream_next_def)
qed

lemma lightning_output_next:
  "lightning_process_output C x p db = Done (a, db') \<Longrightarrow>
   stream_next db' = stream_next db \<or> stream_next db' = stream_next db + 1"
proof (cases x)
  case (OutgoingOutput c)
  assume "lightning_process_output C x p db = Done (a, db')"
  with outgoing_output_Done [of C c p db a db'] show ?thesis by (auto simp: OutgoingOutput stream_next_def)
next
  case (IncomingOutput c)
  assume "lightning_process_output C x p db = Done (a, db')"
  note D = incoming_output_Done [OF this [unfolded IncomingOutput], THEN conjunct2]
  have "stream_next_index db' = Some (stream_next db + 1)" by (subst D) simp
  then show ?thesis by (simp add: stream_next_def [of db'])
qed

lemma process_input_ok:
  assumes d: "process_input S cfg i db = Done ((a, pk), db')" and ok: "modules_ok S cfg n db"
    and room: "used db + 1 < 2 ^ 64"
  shows "modules_ok S cfg n db' \<and> used db' \<le> used db + 1"
proof (cases i)
  case (EcashIn e)
  with d obtain t where "ecash_process_input (dtbs S) (ecash_cfg cfg) e (ecash_tables db) = Done ((a, pk), t)"
    "db' = db\<lparr>ecash_tables := t\<rparr>" by (auto simp: obind_Done_iff)
  with ok ecash_input_ok show ?thesis by (auto simp: modules_ok_def used_def)
next
  case (OnchainIn e)
  with d obtain t where t: "onchain_process_input (dcrypto S) (dwallet S) (onchain_cfg cfg)
      (server_block_height cfg db) e (onchain_tables db) = Done ((a, pk), t)" "db' = db\<lparr>onchain_tables := t\<rparr>"
    by (auto simp: obind_Done_iff)
  show ?thesis
    using onchain_ok_input [OF t(1)] ok room by (auto simp: modules_ok_def used_def t(2))
next
  case (LightningIn e)
  with d obtain t where t: "lightning_process_input (dcrypto S) e (lightning_tables db) = Done ((a, pk), t)"
    "db' = db\<lparr>lightning_tables := t\<rparr>" by (auto simp: obind_Done_iff)
  show ?thesis
    using stream_ok_input [OF t(1)] lightning_input_next [OF t(1)] ok by (auto simp: modules_ok_def used_def t(2))
qed

lemma process_output_ok:
  assumes d: "process_output S cfg x (OutPoint txid idx) db = Done (a, db')" and ok: "modules_ok S cfg n db"
    and fresh: "fresh_from txid (unat idx) db" and room: "used db + 1 < 2 ^ 64"
  shows "modules_ok S cfg n db' \<and> used db' \<le> used db + 1"
proof (cases x)
  case (EcashOut e)
  with d obtain t where "ecash_process_output (dtbs S) (ecash_cfg cfg) e (OutPoint txid idx) (ecash_tables db) = Done (a, t)"
    "db' = db\<lparr>ecash_tables := t\<rparr>" by (auto simp: obind_Done_iff)
  with ok ecash_output_ok show ?thesis by (auto simp: modules_ok_def used_def)
next
  case (OnchainOut e)
  with d obtain t where t: "onchain_process_output (dcrypto S) (dwallet S) (onchain_cfg cfg)
      (server_block_height cfg db) e (OutPoint txid idx) (onchain_tables db) = Done (a, t)"
    "db' = db\<lparr>onchain_tables := t\<rparr>"
    by (auto simp: obind_Done_iff)
  show ?thesis
    using onchain_ok_output [OF t(1)] ok room by (auto simp: modules_ok_def used_def t(2))
next
  case (LightningOut e)
  with d obtain t where t: "lightning_process_output (dcrypto S) e (OutPoint txid idx) (lightning_tables db) = Done (a, t)"
    "db' = db\<lparr>lightning_tables := t\<rparr>" by (auto simp: obind_Done_iff)
  have r: "stream_next (lightning_tables db) \<noteq> - 1"
    using room by (auto simp: used_def unsigned_minus_1_eq_mask mask_eq_exp_minus_1)
  have "stream_ok t"
    using stream_ok_output [OF t(1) _ _ r] ok fresh by (simp add: modules_ok_def fresh_from_def)
  moreover have "unat (stream_next t) \<le> unat (stream_next (lightning_tables db)) + 1"
    using lightning_output_next [OF t(1)] unat_succ [OF r] by auto
  ultimately show ?thesis using ok by (auto simp: modules_ok_def used_def t(2))
qed

text \<open>What an input or an output leaves alone.\<close>

definition same_votes :: "daemon_db \<Rightarrow> daemon_db \<Rightarrow> bool" where
  "same_votes db db' \<longleftrightarrow>
     height_votes db' = height_votes db \<and> version_votes db' = version_votes db \<and>
     accepted_txids db' = accepted_txids db \<and>
     block_height (onchain_tables db') = block_height (onchain_tables db)"

lemma same_votes_refl [simp]: "same_votes db db"
  and same_votes_trans: "same_votes db db1 \<Longrightarrow> same_votes db1 db2 \<Longrightarrow> same_votes db db2"
  by (auto simp: same_votes_def)

lemma onchain_input_height: "onchain_process_input C W cfg h i db = Done ((a, pk), db') \<Longrightarrow> block_height db' = block_height db"
  by (erule onchain_input_Done) (auto dest!: receive_into_Done simp: wallet_rows_def)

lemma onchain_output_height: "onchain_process_output C W cfg h x p db = Done (a, db') \<Longrightarrow> block_height db' = block_height db"
  by (erule onchain_output_Done) (auto simp: wallet_rows_def)

lemma process_input_same: "process_input S cfg i db = Done ((a, pk), db') \<Longrightarrow> same_votes db db'"
  by (cases i) (auto simp: obind_Done_iff same_votes_def dest: onchain_input_height)

lemma process_output_same: "process_output S cfg x p db = Done (a, db') \<Longrightarrow> same_votes db db'"
  by (cases x) (auto simp: obind_Done_iff same_votes_def dest: onchain_output_height)

section \<open>The loops of a transaction\<close>

lemma inputs_ok:
  assumes "ofold (input_step S cfg) is (v, pks, db) = Done (v', pks', db')"
    and "modules_ok S cfg n db" "used db + length is < 2 ^ 64"
  shows "modules_ok S cfg n db' \<and> used db' \<le> used db + length is \<and> same_votes db db'"
  using assms
proof (induction "is" arbitrary: v pks db)
  case (Cons i "is")
  from Cons.prems(1) obtain a pk db1 v1 where p: "process_input S cfg i db = Done ((a, pk), db1)"
    and rest: "ofold (input_step S cfg) is (v1, pks @ [pk], db1) = Done (v', pks', db')"
    by (auto simp: input_step_Done obind_Done_iff)
  from Cons.prems(3) have "used db + 1 < 2 ^ 64" by simp
  from process_input_ok [OF p Cons.prems(2) this] Cons.IH [OF rest] Cons.prems(3) process_input_same [OF p]
  show ?case by (auto intro: same_votes_trans)
qed simp

lemma outputs_ok:
  assumes "ofold (output_step S cfg txid) (zip xs (map of_nat [k..<k + length xs])) (v, db) = Done (v', db')"
    and "k + length xs \<le> 2 ^ 16" and "fresh_from txid k db"
    and "modules_ok S cfg n db" "used db + length xs < 2 ^ 64"
  shows "modules_ok S cfg n db' \<and> used db' \<le> used db + length xs \<and> same_votes db db' \<and>
    (\<forall>t. t \<noteq> txid \<longrightarrow> fresh_from t 0 db \<longrightarrow> fresh_from t 0 db')"
  using assms
proof (induction xs arbitrary: k v db)
  case (Cons x xs)
  have up: "[k..<k + length (x # xs)] = k # [k + 1..<k + 1 + length xs]"
    using upt_conv_Cons [of k "k + length (x # xs)"] by simp
  from Cons.prems(1) obtain a db1 v1 where
    p: "process_output S cfg x (OutPoint txid (of_nat k)) db = Done (a, db1)"
    and rest: "ofold (output_step S cfg txid) (zip xs (map of_nat [k + 1..<k + 1 + length xs])) (v1, db1) = Done (v', db')"
    unfolding up by (auto simp: output_step_Done obind_Done_iff)
  have uk: "unat (of_nat k :: u16) = k" using Cons.prems(2) by (simp add: unat_of_nat)
  have f: "fresh_from txid (unat (of_nat k :: u16)) db" using Cons.prems(3) by (simp add: uk)
  have f1: "fresh_from txid (k + 1) db1" using process_output_fresh_from [OF p f] by (simp add: uk)
  from Cons.prems(5) have "used db + 1 < 2 ^ 64" by simp
  note ok1 = process_output_ok [OF p Cons.prems(4) f this]
  have other: "fresh_from t 0 db1" if "t \<noteq> txid" "fresh_from t 0 db" for t
    using process_output_lightning [OF p] that by (simp add: fresh_from_def)
  from Cons.IH [OF rest _ f1] ok1 other Cons.prems(2,5) process_output_same [OF p]
  show ?case by (auto intro: same_votes_trans)
qed simp

lemma process_tx_ok:
  assumes d: "process_tx S cfg tx db = Done db'" and ok: "daemon_ok S cfg n db"
    and new: "\<not> bt_has (accepted_txids db) (compute_tx_id (dcrypto S) tx)"
    and room: "used db + length (tx_inputs tx) + length (tx_outputs tx) < 2 ^ 64"
  shows "modules_ok S cfg n db' \<and> used db' \<le> used db + length (tx_inputs tx) + length (tx_outputs tx) \<and>
    same_votes db db' \<and>
    (\<forall>t. t \<noteq> compute_tx_id (dcrypto S) tx \<longrightarrow> \<not> bt_has (accepted_txids db) t \<longrightarrow> fresh_from t 0 db')"
  using d
proof (rule process_tx_Done)
  fix v pks db1 v'
  let ?id = "compute_tx_id (dcrypto S) tx"
  assume i: "ofold (input_step S cfg) (tx_inputs tx) (funding_default, [], db) = Done (v, pks, db1)"
    and out: "ofold (output_step S cfg ?id) (indexed_outputs tx) (v, db1) = Done (v', db')"
    and len: "length (tx_outputs tx) \<le> MAX_OUTPUTS"
  have m: "modules_ok S cfg n db" and c: "contracts_ok db" using ok by (auto simp: daemon_ok_def)
  have i': "modules_ok S cfg n db1 \<and> used db1 \<le> used db + length (tx_inputs tx) \<and> same_votes db db1"
    by (rule inputs_ok [OF i m]) (use room in simp)
  have fresh: "fresh_from t 0 db1" if "\<not> bt_has (accepted_txids db) t" for t
    by (rule inputs_inv [where I = "fresh_from t 0", OF _ _ i])
      (use that c in \<open>auto simp: contracts_ok_def intro: process_input_fresh_from\<close>)
  have "modules_ok S cfg n db' \<and> used db' \<le> used db1 + length (tx_outputs tx) \<and> same_votes db1 db' \<and>
    (\<forall>t. t \<noteq> ?id \<longrightarrow> fresh_from t 0 db1 \<longrightarrow> fresh_from t 0 db')"
    by (rule outputs_ok [of S cfg ?id "tx_outputs tx" 0 v db1 v' db'])
      (use out len fresh [OF new] i' room in \<open>simp_all add: indexed_outputs_def MAX_OUTPUTS_def\<close>)
  with i' fresh show ?thesis by (auto intro: same_votes_trans)
qed

end
