(* ===== verification/Mint_Items.thy ===== *)
theory Mint_Items
  imports Mint_Invariant
begin

text \<open>
  \<open>process_consensus_item\<close> against the invariant: every accepted item keeps it, and no item makes
  the daemon panic but a vote by which a threshold of nodes has left its version behind.
\<close>

section \<open>Preservation\<close>

fun item_weight :: "consensus_item \<Rightarrow> nat" where
  "item_weight (TxItem tx) = length (tx_inputs tx) + length (tx_outputs tx)"
| "item_weight (ModuleItem i) = item_rows i"
| "item_weight (BlockHeightItem v) = 0"
| "item_weight (VersionItem v) = 0"

lemma daemon_height:
  assumes "config_ok cfg n" "votes_ok cfg n db"
  obtains h where "server_block_height cfg db = Some h" "consensus_block_height n (height_votes db) = Some h"
proof -
  have n: "daemon_nodes cfg = Some n" using assms(1) by (simp add: config_ok_def)
  then have "small_mint n" using num_nodes_from_total by (auto simp: daemon_nodes_def to_num_nodes_def)
  then have "bt_len (height_votes db) \<le> total n"
    using assms(2) by (intro votes_by_len) (simp_all add: votes_ok_def)
  then have "consensus_block_height n (height_votes db) \<noteq> None"
    by (simp add: consensus_block_height_def Let_def)
  then show ?thesis using n that by (auto simp: server_block_height_def)
qed

lemma votes_ok_same:
  "same_votes db db' \<Longrightarrow> votes_ok cfg n db \<Longrightarrow> votes_ok cfg n db'"
  by (auto simp: same_votes_def votes_ok_def server_block_height_def)

lemma onchain_item_unset:
  assumes "onchain_process_item W cfg p i db = Done db'" "block_height db = None"
  shows "block_height db' = None"
proof (cases i)
  case (SharesItem txid ss ns)
  with assms show ?thesis
    by (auto simp: process_signature_shares_def obind_Done_iff Let_def split: if_splits)
qed (use assms in \<open>auto simp: process_block_vote_def process_feerate_vote_def process_nonces_def obind_Done_iff
    split: if_splits\<close>)

lemma daemon_ok_tx:
  assumes d: "process_consensus_item S cfg p (TxItem tx) db = Done db'" and ok: "daemon_ok S cfg n db"
    and room: "used db + item_weight (TxItem tx) < 2 ^ 64"
  shows "daemon_ok S cfg n db' \<and> used db' \<le> used db + item_weight (TxItem tx)"
proof -
  let ?id = "compute_tx_id (dcrypto S) tx"
  from d obtain db1 where new: "\<not> bt_has (accepted_txids db) ?id" and t: "process_tx S cfg tx db = Done db1"
    and db': "db' = db1\<lparr>accepted_txids := bs_insert ?id (accepted_txids db1)\<rparr>"
    by (auto simp: Let_def obind_Done_iff split: if_splits)
  have r: "used db + length (tx_inputs tx) + length (tx_outputs tx) < 2 ^ 64" using room by simp
  from process_tx_ok [OF t ok new r] have m: "modules_ok S cfg n db1" and s: "same_votes db db1"
    and u: "used db1 \<le> used db + length (tx_inputs tx) + length (tx_outputs tx)"
    and f: "\<And>t. t \<noteq> ?id \<Longrightarrow> \<not> bt_has (accepted_txids db) t \<Longrightarrow> fresh_from t 0 db1" by auto
  have "votes_ok cfg n db1" using ok s by (auto simp: daemon_ok_def intro: votes_ok_same)
  then have v: "votes_ok cfg n db'" by (simp add: votes_ok_def server_block_height_def db')
  have "contracts_ok db'"
    unfolding contracts_ok_def
  proof (intro allI impI)
    fix t assume "\<not> bt_has (accepted_txids db') t"
    then have "t \<noteq> ?id" "\<not> bt_has (accepted_txids db) t"
      using s by (auto simp: db' bt_has_def same_votes_def split: if_splits)
    with f show "fresh_from t 0 db'" by (simp add: fresh_from_def db')
  qed
  with m v u show ?thesis by (simp add: daemon_ok_def modules_ok_def used_def db')
qed

lemma daemon_ok_module:
  assumes d: "process_consensus_item S cfg p (ModuleItem i) db = Done db'" and ok: "daemon_ok S cfg n db"
    and cfg: "config_ok cfg n" and p: "p \<in> set (node_ids n)"
    and room: "used db + item_weight (ModuleItem i) + threshold n < 2 ^ 64"
  shows "daemon_ok S cfg n db' \<and> used db' \<le> used db + item_weight (ModuleItem i)"
proof -
  from d obtain t where t: "onchain_process_item (dwallet S) (onchain_cfg cfg) p i (onchain_tables db) = Done t"
    and db': "db' = db\<lparr>onchain_tables := t\<rparr>" by (auto simp: obind_Done_iff)
  have n: "to_num_nodes (onchain_pks (onchain_cfg cfg)) = Some n" using cfg by (simp add: config_ok_def)
  have o1: "onchain_ok (dcrypto S) (dwallet S) (onchain_cfg cfg) n (onchain_tables db)"
    using ok by (simp add: daemon_ok_def modules_ok_def)
  have r: "onchain_used (onchain_tables db) + item_rows i + threshold n < 2 ^ 64" using room by (simp add: used_def)
  from onchain_ok_item [OF t o1 n p r] onchain_item_unset [OF t] ok show ?thesis
    by (auto simp: daemon_ok_def modules_ok_def votes_ok_def contracts_ok_def fresh_from_def used_def
        server_block_height_def db')
qed

lemma process_height_vote_Done:
  assumes "process_height_vote cfg p v db = Done db'"
  obtains old new votes where "server_block_height cfg db = Some old" "raise_vote 0 p v (height_votes db) = Some votes"
    "server_block_height cfg (db\<lparr>height_votes := votes\<rparr>) = Some new" "old \<le> new"
    "db' = (if new \<noteq> old then db\<lparr>height_votes := votes,
         onchain_tables := initialize_block_height old new (onchain_tables db)\<rparr> else db\<lparr>height_votes := votes\<rparr>)"
  using assms by (auto simp: process_height_vote_def obind_Done_iff Let_def)

lemma daemon_ok_height:
  assumes d: "process_consensus_item S cfg p (BlockHeightItem v) db = Done db'" and ok: "daemon_ok S cfg n db"
    and p: "p \<in> set (node_ids n)"
  shows "daemon_ok S cfg n db' \<and> used db' = used db"
proof -
  from d have "process_height_vote cfg p v db = Done db'" by simp
  then show ?thesis
  proof (rule process_height_vote_Done)
    fix old new votes
    assume old: "server_block_height cfg db = Some old" and raise: "raise_vote 0 p v (height_votes db) = Some votes"
      and new: "server_block_height cfg (db\<lparr>height_votes := votes\<rparr>) = Some new" and le: "old \<le> new"
      and db': "db' = (if new \<noteq> old then db\<lparr>height_votes := votes,
         onchain_tables := initialize_block_height old new (onchain_tables db)\<rparr> else db\<lparr>height_votes := votes\<rparr>)"
    have vb: "votes_by n votes"
      using raise_vote_Some [OF raise] ok p by (auto simp: daemon_ok_def votes_ok_def intro: votes_by_insert)
    let ?C = "dcrypto S" and ?W = "dwallet S" and ?o = "onchain_tables db"
    have o1: "onchain_ok ?C ?W (onchain_cfg cfg) n ?o" using ok by (simp add: daemon_ok_def modules_ok_def)
    have "block_votes ?o = bt_empty" if "old = 0"
    proof (rule bt_eqI)
      fix q
      have "block_height ?o = None" using ok old that by (simp add: daemon_ok_def votes_ok_def)
      with o1 show "bt_get (block_votes ?o) q = bt_get bt_empty q"
        by (cases "bt_get (block_votes ?o) q") (auto simp: onchain_ok_def blocks_ok_def)
    qed
    then have o2: "onchain_ok ?C ?W (onchain_cfg cfg) n (initialize_block_height old new ?o)"
      by (intro onchain_ok_initialize [OF o1]) auto
    have h: "server_block_height cfg db' = Some new"
      using new by (simp add: db' server_block_height_def)
    have "votes_ok cfg n db'"
      using ok vb h le old by (auto simp: daemon_ok_def votes_ok_def db')
    then show ?thesis
      using ok o2 by (auto simp: daemon_ok_def modules_ok_def contracts_ok_def fresh_from_def used_def onchain_used_def
          initialize_block_height_def db')
  qed
qed

lemma daemon_ok_version:
  assumes "process_consensus_item S cfg p (VersionItem v) db = Done db'" "daemon_ok S cfg n db" "p \<in> set (node_ids n)"
  shows "daemon_ok S cfg n db' \<and> used db' = used db"
proof -
  from assms(1) obtain votes where r: "raise_vote (default_version cfg) p v (version_votes db) = Some votes"
    and db': "db' = db\<lparr>version_votes := votes\<rparr>"
    by (auto simp: process_version_vote_def obind_Done_iff Let_def)
  have "votes_by n votes"
    using raise_vote_Some [OF r] assms(2,3) by (auto simp: daemon_ok_def votes_ok_def intro: votes_by_insert)
  with assms(2) show ?thesis
    by (simp add: daemon_ok_def modules_ok_def votes_ok_def contracts_ok_def fresh_from_def used_def
        server_block_height_def db')
qed

lemma daemon_ok_item:
  assumes "process_consensus_item S cfg p i db = Done db'" "daemon_ok S cfg n db" "config_ok cfg n" "p \<in> set (node_ids n)"
    and "used db + item_weight i + threshold n < 2 ^ 64"
  shows "daemon_ok S cfg n db' \<and> used db' \<le> used db + item_weight i"
proof (cases i)
  case (TxItem tx)
  have "used db + item_weight (TxItem tx) < 2 ^ 64" using assms(5) TxItem by simp
  with daemon_ok_tx assms TxItem show ?thesis by blast
next
  case (ModuleItem m)
  with daemon_ok_module assms show ?thesis by blast
next
  case (BlockHeightItem v)
  with daemon_ok_height assms(1,2,4) show ?thesis by fastforce
next
  case (VersionItem v)
  with daemon_ok_version assms(1,2,4) show ?thesis by fastforce
qed

section \<open>No panic\<close>

lemma process_input_no_panic:
  assumes ok: "modules_ok S cfg n db" and cfg: "config_ok cfg n" and h: "server_block_height cfg db \<noteq> None"
    and use: "hashes_usable (dcrypto S) (dwallet S) (onchain_cfg cfg)"
    and p: "length (pending_txs_unordered (onchain_tables db)) \<le> 32"
  shows "process_input S cfg i db \<noteq> Panicked"
proof (cases i)
  case (OnchainIn e)
  then show ?thesis
    using onchain_input_no_panic [OF _ _ p use h] ok cfg
    by (auto simp: obind_Panicked_iff modules_ok_def onchain_ok_def config_ok_def)
next
  case (LightningIn e)
  then show ?thesis
    using lightning_input_no_panic ok by (auto simp: obind_Panicked_iff modules_ok_def)
qed (auto simp: obind_Panicked_iff)

lemma process_output_no_panic:
  assumes ok: "modules_ok S cfg n db" and cfg: "config_ok cfg n" and h: "server_block_height cfg db \<noteq> None"
    and use: "hashes_usable (dcrypto S) (dwallet S) (onchain_cfg cfg)"
    and p: "length (pending_txs_unordered (onchain_tables db)) \<le> 32"
  shows "process_output S cfg x q db \<noteq> Panicked"
proof (cases x)
  case (OnchainOut e)
  then show ?thesis
    using onchain_output_no_panic [OF _ _ p use h] ok cfg
    by (auto simp: obind_Panicked_iff modules_ok_def onchain_ok_def config_ok_def)
qed (auto simp: obind_Panicked_iff)

text \<open>A transaction leaves the unconfirmed transactions alone, so at most one more is pending.\<close>

lemma onchain_input_unconfirmed:
  "onchain_process_input C W cfg h i db = Done ((a, pk), db') \<Longrightarrow> unconfirmed db' = unconfirmed db"
  by (erule onchain_input_Done) (auto dest!: receive_into_Done simp: wallet_rows_def)

lemma onchain_output_unconfirmed:
  "onchain_process_output C W cfg h x p db = Done (a, db') \<Longrightarrow> unconfirmed db' = unconfirmed db"
  by (erule onchain_output_Done) (auto simp: wallet_rows_def)

lemma process_input_unconfirmed:
  "process_input S cfg i db = Done ((a, pk), db') \<Longrightarrow> unconfirmed (onchain_tables db') = unconfirmed (onchain_tables db)"
  by (cases i) (auto simp: obind_Done_iff dest: onchain_input_unconfirmed)

lemma process_output_unconfirmed:
  "process_output S cfg x p db = Done (a, db') \<Longrightarrow> unconfirmed (onchain_tables db') = unconfirmed (onchain_tables db)"
  by (cases x) (auto simp: obind_Done_iff dest: onchain_output_unconfirmed)

lemma pending_bound: "bt_len (unconfirmed db) \<le> 31 \<Longrightarrow> length (pending_txs_unordered db) \<le> 32"
  by (auto simp: pending_txs_unordered_def split: option.splits)

lemma inputs_no_panic:
  assumes "modules_ok S cfg n db" "used db + length is < 2 ^ 64" and cfg: "config_ok cfg n"
    and "server_block_height cfg db \<noteq> None" and use: "hashes_usable (dcrypto S) (dwallet S) (onchain_cfg cfg)"
    and "bt_len (unconfirmed (onchain_tables db)) \<le> 31"
  shows "ofold (input_step S cfg) is (v, pks, db) \<noteq> Panicked"
  using assms(1,2,4,6)
proof (induction "is" arbitrary: v pks db)
  case (Cons i "is")
  have "process_input S cfg i db \<noteq> Panicked"
    using process_input_no_panic [OF _ cfg _ use] Cons.prems pending_bound by blast
  moreover have "ofold (input_step S cfg) is (v1, pks1, db1) \<noteq> Panicked"
    if s: "input_step S cfg i (v, pks, db) = Done (v1, pks1, db1)" for v1 pks1 db1
  proof -
    from s obtain a pk where p: "process_input S cfg i db = Done ((a, pk), db1)" by (auto simp: input_step_Done)
    have "used db + 1 < 2 ^ 64" using Cons.prems(2) by simp
    from process_input_ok [OF p Cons.prems(1) this] process_input_same [OF p] process_input_unconfirmed [OF p] Cons.prems
    show ?thesis by (intro Cons.IH) (auto simp: same_votes_def server_block_height_def)
  qed
  ultimately show ?case by (force simp: obind_Panicked_iff input_step_Panicked)
qed simp

lemma outputs_no_panic:
  assumes "k + length xs \<le> 2 ^ 16" "fresh_from txid k db" "modules_ok S cfg n db" "used db + length xs < 2 ^ 64"
    and cfg: "config_ok cfg n" and "server_block_height cfg db \<noteq> None"
    and use: "hashes_usable (dcrypto S) (dwallet S) (onchain_cfg cfg)"
    and "bt_len (unconfirmed (onchain_tables db)) \<le> 31"
  shows "ofold (output_step S cfg txid) (zip xs (map of_nat [k..<k + length xs])) (v, db) \<noteq> Panicked"
  using assms(1-4,6,8)
proof (induction xs arbitrary: k v db)
  case (Cons x xs)
  have up: "[k..<k + length (x # xs)] = k # [k + 1..<k + 1 + length xs]"
    using upt_conv_Cons [of k "k + length (x # xs)"] by simp
  have uk: "unat (of_nat k :: u16) = k" using Cons.prems(1) by (simp add: unat_of_nat)
  have f: "fresh_from txid (unat (of_nat k :: u16)) db" using Cons.prems(2) by (simp add: uk)
  have "process_output S cfg x (OutPoint txid (of_nat k)) db \<noteq> Panicked"
    using process_output_no_panic [OF _ cfg _ use] Cons.prems pending_bound by blast
  moreover have "ofold (output_step S cfg txid) (zip xs (map of_nat [k + 1..<k + 1 + length xs])) (v1, db1) \<noteq> Panicked"
    if s: "output_step S cfg txid (x, of_nat k) (v, db) = Done (v1, db1)" for v1 db1
  proof -
    from s obtain a where p: "process_output S cfg x (OutPoint txid (of_nat k)) db = Done (a, db1)"
      by (auto simp: output_step_Done)
    have "used db + 1 < 2 ^ 64" using Cons.prems(4) by simp
    note ok1 = process_output_ok [OF p Cons.prems(3) f this]
    have "fresh_from txid (k + 1) db1" using process_output_fresh_from [OF p f] by (simp add: uk)
    with ok1 process_output_same [OF p] process_output_unconfirmed [OF p] Cons.prems
    show ?thesis by (intro Cons.IH) (auto simp: same_votes_def server_block_height_def)
  qed
  ultimately show ?case
    unfolding up by (force simp: obind_Panicked_iff output_step_Panicked)
qed simp

lemma process_tx_no_panic:
  assumes ok: "daemon_ok S cfg n db" and cfg: "config_ok cfg n"
    and new: "\<not> bt_has (accepted_txids db) (compute_tx_id (dcrypto S) tx)"
    and room: "used db + length (tx_inputs tx) + length (tx_outputs tx) < 2 ^ 64"
    and use: "hashes_usable (dcrypto S) (dwallet S) (onchain_cfg cfg)"
    and few: "bt_len (unconfirmed (onchain_tables db)) \<le> 31"
  shows "process_tx S cfg tx db \<noteq> Panicked"
proof
  assume P: "process_tx S cfg tx db = Panicked"
  let ?id = "compute_tx_id (dcrypto S) tx"
  have m: "modules_ok S cfg n db" and c: "contracts_ok db" and vo: "votes_ok cfg n db"
    using ok by (auto simp: daemon_ok_def)
  from daemon_height [OF cfg vo] obtain h where h: "server_block_height cfg db = Some h" by blast
  have "ofold (input_step S cfg) (tx_inputs tx) (funding_default, [], db) \<noteq> Panicked"
    by (rule inputs_no_panic [OF m _ cfg _ use few]) (use room h in simp_all)
  with P obtain v pks db1 where i: "ofold (input_step S cfg) (tx_inputs tx) (funding_default, [], db) = Done (v, pks, db1)"
    and len: "length (tx_outputs tx) \<le> MAX_OUTPUTS"
    and out: "ofold (output_step S cfg ?id) (indexed_outputs tx) (v, db1) = Panicked"
    by (auto simp: process_tx_def obind_Panicked_iff Let_def validate_signatures_def split: if_splits)
  have i': "modules_ok S cfg n db1 \<and> used db1 \<le> used db + length (tx_inputs tx) \<and> same_votes db db1"
    by (rule inputs_ok [OF i m]) (use room in simp)
  have fresh: "fresh_from ?id 0 db1"
    by (rule inputs_inv [where I = "fresh_from ?id 0", OF _ _ i])
      (use new c in \<open>auto simp: contracts_ok_def intro: process_input_fresh_from\<close>)
  have un: "bt_len (unconfirmed (onchain_tables db1)) \<le> 31"
    by (rule inputs_inv [where I = "\<lambda>d. bt_len (unconfirmed (onchain_tables d)) \<le> 31", OF _ few i])
      (simp add: process_input_unconfirmed)
  have "ofold (output_step S cfg ?id) (zip (tx_outputs tx) (map of_nat [0..<0 + length (tx_outputs tx)])) (v, db1) \<noteq> Panicked"
    by (rule outputs_no_panic [OF _ fresh _ _ cfg _ use un])
      (use i' len room h in \<open>auto simp: MAX_OUTPUTS_def same_votes_def server_block_height_def\<close>)
  with out show False by (simp add: indexed_outputs_def)
qed

text \<open>The vote that halts a node: a threshold of nodes has announced more than it can run.\<close>

lemma process_version_vote_no_panic:
  assumes ok: "votes_ok cfg n db" and cfg: "config_ok cfg n" and p: "p \<in> set (node_ids n)"
    and d: "default_version cfg \<le> CONSENSUS_VERSION"
    and few: "votes_for (\<lambda>x. \<not> x \<le> CONSENSUS_VERSION) (bt_insert p v (version_votes db)) < threshold n"
  shows "process_version_vote cfg p v db \<noteq> Panicked"
proof
  assume "process_version_vote cfg p v db = Panicked"
  then obtain votes where r: "raise_vote (default_version cfg) p v (version_votes db) = Some votes"
    and bad: "case server_version cfg (db\<lparr>version_votes := votes\<rparr>) of None \<Rightarrow> True | Some a \<Rightarrow> \<not> a \<le> CONSENSUS_VERSION"
    by (auto simp: process_version_vote_def obind_Panicked_iff Let_def split: option.splits)
  have votes: "votes = bt_insert p v (version_votes db)" using raise_vote_Some [OF r] by simp
  have vb: "votes_by n votes" using ok p by (auto simp: votes votes_ok_def intro: votes_by_insert)
  have n: "daemon_nodes cfg = Some n" using cfg by (simp add: config_ok_def)
  then have "small_mint n" using num_nodes_from_total by (auto simp: daemon_nodes_def to_num_nodes_def)
  then have len: "bt_len votes \<le> total n" by (rule votes_by_len [OF _ vb])
  then obtain a where a: "consensus_version n (default_version cfg) votes = Some a"
    using consensus_version_total by blast
  have "votes_for (\<lambda>x. x \<le> CONSENSUS_VERSION) votes + votes_for (\<lambda>x. \<not> x \<le> CONSENSUS_VERSION) votes = bt_len votes"
    using sum_length_filter_compl [of "\<lambda>x. x \<le> CONSENSUS_VERSION" "bt_values votes"] by (simp add: votes_for_def)
  then have "max_evil n < votes_for (\<lambda>x. x \<le> CONSENSUS_VERSION) votes + (total n - bt_len votes)"
    using few len by (simp add: votes total_def threshold_def)
  then have "a \<le> CONSENSUS_VERSION"
    using consensus_version_le [OF a, of CONSENSUS_VERSION] d by simp
  with bad a n show False by (simp add: server_version_def)
qed

lemma process_height_vote_no_panic:
  assumes ok: "votes_ok cfg n db" and cfg: "config_ok cfg n" and p: "p \<in> set (node_ids n)"
  shows "process_height_vote cfg p v db \<noteq> Panicked"
proof
  assume P: "process_height_vote cfg p v db = Panicked"
  from daemon_height [OF cfg ok] obtain h where h: "server_block_height cfg db = Some h"
    "consensus_block_height n (height_votes db) = Some h" .
  from P h(1) obtain votes where r: "raise_vote 0 p v (height_votes db) = Some votes"
    and bad: "case server_block_height cfg (db\<lparr>height_votes := votes\<rparr>) of None \<Rightarrow> True | Some a \<Rightarrow> \<not> h \<le> a"
    by (auto simp: process_height_vote_def obind_Panicked_iff Let_def split: option.splits)
  have n: "daemon_nodes cfg = Some n" using cfg by (simp add: config_ok_def)
  then have "small_mint n" using num_nodes_from_total by (auto simp: daemon_nodes_def to_num_nodes_def)
  moreover have "votes_by n votes"
    using raise_vote_Some [OF r] ok p by (auto simp: votes_ok_def intro: votes_by_insert)
  ultimately have "bt_len votes \<le> total n" by (rule votes_by_len)
  then obtain h' where h': "consensus_block_height n votes = Some h'"
    by (auto simp: consensus_block_height_def Let_def)
  from consensus_block_height_mono [OF r h(2) h'] bad n h' show False
    by (simp add: server_block_height_def)
qed

end
