(* ===== verification/Mint_Runs.thy ===== *)
theory Mint_Runs
  imports Mint_Items
begin

text \<open>
  A run of the daemon over ordered items: each is processed in turn, a rejected one leaves no
  trace. Over any run the mint stays solvent, spends nothing twice and does not panic.
\<close>

section \<open>Runs\<close>

type_synonym ordered_item = "node_id \<times> consensus_item"

text \<open>The accepted items and the database after them; \<open>None\<close> when an item panics.\<close>

fun run_items ::
  "daemon_ops \<Rightarrow> daemon_config \<Rightarrow> ordered_item list \<Rightarrow> daemon_db \<Rightarrow> (ordered_item list \<times> daemon_db) option" where
  "run_items S cfg [] db = Some ([], db)"
| "run_items S cfg ((p, i) # xs) db =
     (case process_consensus_item S cfg p i db of
        Panicked \<Rightarrow> None
      | Failed e \<Rightarrow> run_items S cfg xs db
      | Done db' \<Rightarrow> map_option (\<lambda>(acc, db2). ((p, i) # acc, db2)) (run_items S cfg xs db'))"

text \<open>Properties of runs by induction: what an accepted item keeps, the run keeps.\<close>

lemma run_items_inv:
  assumes step: "\<And>p i db db'. process_consensus_item S cfg p i db = Done db' \<Longrightarrow> I (p, i) db db'"
    and refl: "\<And>db. R [] db db"
    and cons: "\<And>x acc db db1 db2. I x db db1 \<Longrightarrow> R acc db1 db2 \<Longrightarrow> R (x # acc) db db2"
  shows "run_items S cfg xs db = Some (acc, db') \<Longrightarrow> R acc db db'"
proof (induction xs arbitrary: db acc)
  case (Cons x xs)
  obtain p i where x: "x = (p, i)" by fastforce
  show ?case
  proof (cases "process_consensus_item S cfg p i db")
    case (Done db1)
    with Cons.prems obtain acc1 where a: "run_items S cfg xs db1 = Some (acc1, db')" "acc = (p, i) # acc1"
      by (auto simp: x)
    from cons [OF step [OF Done] Cons.IH [OF a(1)]] show ?thesis by (simp add: a(2))
  next
    case (Failed e)
    with Cons show ?thesis by (simp add: x)
  next
    case Panicked
    with Cons.prems show ?thesis by (simp add: x)
  qed
qed (simp add: refl)

section \<open>Nothing is spent twice\<close>

lemma onchain_item_kept:
  "onchain_process_item W cfg p i db = Done db' \<Longrightarrow> spent_outputs db' = spent_outputs db \<and> mint_row db' = mint_row db"
proof (cases i)
  case (SharesItem txid ss ns)
  assume "onchain_process_item W cfg p i db = Done db'"
  with SharesItem show ?thesis
    by (auto simp: process_signature_shares_def obind_Done_iff Let_def split: if_splits)
qed (auto simp: process_block_vote_def process_feerate_vote_def process_nonces_def obind_Done_iff apply_block_def Let_def
    split: if_splits)

text \<open>The keys an operation adds to a set of spent ones: each new, none repeated.\<close>

definition adds_fresh :: "(daemon_db \<Rightarrow> 'k \<Rightarrow> bool) \<Rightarrow> 'k list \<Rightarrow> daemon_db \<Rightarrow> daemon_db \<Rightarrow> bool" where
  "adds_fresh K ks db db' \<longleftrightarrow>
     distinct ks \<and> (\<forall>k \<in> set ks. \<not> K db k) \<and> (\<forall>k. K db' k \<longleftrightarrow> K db k \<or> k \<in> set ks)"

lemma adds_fresh_Nil: "adds_fresh K [] db db' \<longleftrightarrow> (\<forall>k. K db' k = K db k)"
  by (auto simp: adds_fresh_def)

lemma adds_fresh_append: "adds_fresh K ks db db1 \<Longrightarrow> adds_fresh K ks' db1 db2 \<Longrightarrow> adds_fresh K (ks @ ks') db db2"
  by (auto simp: adds_fresh_def)

text \<open>What an item spends or signs, given what an input and an output do.\<close>

fun item_keys :: "(wire_input \<Rightarrow> 'k list) \<Rightarrow> (wire_output \<Rightarrow> 'k list) \<Rightarrow> consensus_item \<Rightarrow> 'k list" where
  "item_keys ins outs (TxItem tx) = concat (map ins (tx_inputs tx)) @ concat (map outs (tx_outputs tx))"
| "item_keys ins outs i = []"

text \<open>
  A table of spent keys, as the daemon uses it: each input and output adds its own keys, fresh, and
  nothing but the ecash tables and the claimed deposits bears on it.
\<close>

locale spent_table =
  fixes S :: daemon_ops and cfg :: daemon_config
    and K :: "daemon_db \<Rightarrow> 'k \<Rightarrow> bool"
    and ins :: "wire_input \<Rightarrow> 'k list" and outs :: "wire_output \<Rightarrow> 'k list"
  assumes input_adds: "process_input S cfg i db = Done ((a, pk), db') \<Longrightarrow> adds_fresh K (ins i) db db'"
    and output_adds: "process_output S cfg x q db = Done (a, db') \<Longrightarrow> adds_fresh K (outs x) db db'"
    and depends: "ecash_tables db' = ecash_tables db \<Longrightarrow>
      spent_outputs (onchain_tables db') = spent_outputs (onchain_tables db) \<Longrightarrow> K db' k = K db k"
begin

lemma inputs_add:
  "ofold (input_step S cfg) is (v, pks, db) = Done (v', pks', db') \<Longrightarrow> adds_fresh K (concat (map ins is)) db db'"
proof (induction "is" arbitrary: v pks db)
  case (Cons i "is")
  from Cons.prems obtain a pk db1 v1 where p: "process_input S cfg i db = Done ((a, pk), db1)"
    and rest: "ofold (input_step S cfg) is (v1, pks @ [pk], db1) = Done (v', pks', db')"
    by (auto simp: input_step_Done obind_Done_iff)
  from adds_fresh_append [OF input_adds [OF p] Cons.IH [OF rest]] show ?case by simp
qed (simp add: adds_fresh_Nil)

lemma outputs_add:
  "ofold (output_step S cfg txid) xs (v, db) = Done (v', db') \<Longrightarrow> adds_fresh K (concat (map (outs \<circ> fst) xs)) db db'"
proof (induction xs arbitrary: v db)
  case (Cons x xs)
  obtain y idx where x: "x = (y, idx)" by fastforce
  from Cons.prems obtain a db1 v1 where p: "process_output S cfg y (OutPoint txid idx) db = Done (a, db1)"
    and rest: "ofold (output_step S cfg txid) xs (v1, db1) = Done (v', db')"
    by (auto simp: x output_step_Done obind_Done_iff)
  from adds_fresh_append [OF output_adds [OF p] Cons.IH [OF rest]] show ?case by (simp add: x)
qed (simp add: adds_fresh_Nil)

lemma tx_adds:
  assumes d: "process_tx S cfg tx db = Done db'"
  shows "adds_fresh K (item_keys ins outs (TxItem tx)) db db'"
  using d
proof (rule process_tx_Done)
  fix v pks db1 v'
  assume i: "ofold (input_step S cfg) (tx_inputs tx) (funding_default, [], db) = Done (v, pks, db1)"
    and out: "ofold (output_step S cfg (compute_tx_id (dcrypto S) tx)) (indexed_outputs tx) (v, db1) = Done (v', db')"
  have "map (outs \<circ> fst) (indexed_outputs tx) = map outs (tx_outputs tx)"
    by (simp add: indexed_outputs_def flip: map_map)
  then show ?thesis
    using adds_fresh_append [OF inputs_add [OF i] outputs_add [OF out]] by simp
qed

lemma untouched: "ecash_tables db' = ecash_tables db \<Longrightarrow>
    spent_outputs (onchain_tables db') = spent_outputs (onchain_tables db) \<Longrightarrow> adds_fresh K [] db db'"
  unfolding adds_fresh_Nil using depends by blast

lemma item_adds:
  assumes d: "process_consensus_item S cfg p i db = Done db'"
  shows "adds_fresh K (item_keys ins outs i) db db'"
proof (cases i)
  case (TxItem tx)
  with d obtain db1 where t: "process_tx S cfg tx db = Done db1"
    and db': "db' = db1\<lparr>accepted_txids := bs_insert (compute_tx_id (dcrypto S) tx) (accepted_txids db1)\<rparr>"
    by (auto simp: Let_def obind_Done_iff split: if_splits)
  have "adds_fresh K [] db1 db'" by (rule untouched) (simp_all add: db')
  from adds_fresh_append [OF tx_adds [OF t] this] TxItem show ?thesis by simp
next
  case (ModuleItem m)
  with d show ?thesis by (auto simp: obind_Done_iff intro!: untouched dest: onchain_item_kept)
next
  case (BlockHeightItem v)
  with d show ?thesis
    by (auto simp: initialize_block_height_def intro!: untouched elim!: process_height_vote_Done)
next
  case (VersionItem v)
  with d show ?thesis
    by (auto simp: process_version_vote_def obind_Done_iff Let_def intro!: untouched)
qed

text \<open>Over a run no key is added twice, and the table holds the accepted items' keys and its old ones.\<close>

lemma run_adds:
  "run_items S cfg xs db = Some (acc, db') \<Longrightarrow> adds_fresh K (concat (map (item_keys ins outs \<circ> snd) acc)) db db'"
  by (rule run_items_inv [where I = "\<lambda>x. adds_fresh K (item_keys ins outs (snd x))"])
    (auto simp: adds_fresh_Nil item_adds intro: adds_fresh_append)

end

section \<open>Notes, deposits and blinded nonces\<close>

fun input_notes :: "wire_input \<Rightarrow> xonly list" where
  "input_notes (EcashIn i) = [nonce (ei_note i)]"
| "input_notes i = []"

fun input_deposits :: "wire_input \<Rightarrow> u64 list" where
  "input_deposits (OnchainIn i) = [output_index i]"
| "input_deposits i = []"

fun output_nonces :: "wire_output \<Rightarrow> blinded_nonce list" where
  "output_nonces (EcashOut x) = [eo_nonce x]"
| "output_nonces x = []"

definition spent_note :: "daemon_db \<Rightarrow> xonly \<Rightarrow> bool" where
  "spent_note db = bt_has (note_nonces (ecash_tables db))"

definition signed_nonce :: "daemon_db \<Rightarrow> blinded_nonce \<Rightarrow> bool" where
  "signed_nonce db = bt_has (blinded_nonces (ecash_tables db))"

definition claimed_deposit :: "daemon_db \<Rightarrow> u64 \<Rightarrow> bool" where
  "claimed_deposit db = bt_has (spent_outputs (onchain_tables db))"

lemma bt_has_insert: "bt_has (bt_insert k v m) k' \<longleftrightarrow> bt_has m k' \<or> k' = k"
  by (simp add: bt_has_def)

lemma onchain_input_spent:
  "onchain_process_input C W cfg h i db = Done ((a, pk), db') \<Longrightarrow>
   \<not> bt_has (spent_outputs db) (output_index i) \<and>
   spent_outputs db' = bs_insert (output_index i) (spent_outputs db)"
  by (erule onchain_input_Done) (auto dest!: receive_into_Done simp: wallet_rows_def)

lemma onchain_output_spent: "onchain_process_output C W cfg h x p db = Done (a, db') \<Longrightarrow> spent_outputs db' = spent_outputs db"
  by (erule onchain_output_Done) (auto simp: wallet_rows_def)

interpretation spent_notes: spent_table S cfg spent_note input_notes "\<lambda>_. []" for S cfg
proof
  show "adds_fresh spent_note (input_notes i) db db'" if "process_input S cfg i db = Done ((a, pk), db')" for i a pk db db'
    using that by (cases i; auto simp: obind_Done_iff adds_fresh_def spent_note_def bt_has_insert dest!: ecash_input_Done)
  show "adds_fresh spent_note [] db db'" if "process_output S cfg x q db = Done (a, db')" for x q a db db'
    using that by (cases x; auto simp: obind_Done_iff adds_fresh_Nil spent_note_def dest!: ecash_output_Done)
qed (simp add: spent_note_def)

interpretation signed_nonces: spent_table S cfg signed_nonce "\<lambda>_. []" output_nonces for S cfg
proof
  show "adds_fresh signed_nonce [] db db'" if "process_input S cfg i db = Done ((a, pk), db')" for i a pk db db'
    using that by (cases i; auto simp: obind_Done_iff adds_fresh_Nil signed_nonce_def dest!: ecash_input_Done)
  show "adds_fresh signed_nonce (output_nonces x) db db'" if "process_output S cfg x q db = Done (a, db')" for x q a db db'
    using that
    by (cases x; auto simp: obind_Done_iff adds_fresh_def signed_nonce_def bt_has_insert dest!: ecash_output_Done)
qed (simp add: signed_nonce_def)

interpretation claimed_deposits: spent_table S cfg claimed_deposit input_deposits "\<lambda>_. []" for S cfg
proof
  show "adds_fresh claimed_deposit (input_deposits i) db db'" if "process_input S cfg i db = Done ((a, pk), db')"
    for i a pk db db'
    using that
    by (cases i; auto simp: obind_Done_iff adds_fresh_def claimed_deposit_def bt_has_insert dest!: onchain_input_spent)
  show "adds_fresh claimed_deposit [] db db'" if "process_output S cfg x q db = Done (a, db')" for x q a db db'
    using that by (cases x; auto simp: obind_Done_iff adds_fresh_Nil claimed_deposit_def dest!: onchain_output_spent)
qed (simp add: claimed_deposit_def)

section \<open>Solvency\<close>

fun item_redeemed :: "consensus_item \<Rightarrow> nat" where
  "item_redeemed (TxItem tx) = redeemed_by tx"
| "item_redeemed i = 0"

fun item_fees :: "consensus_item \<Rightarrow> nat" where
  "item_fees (TxItem tx) = tx_fees tx"
| "item_fees i = 0"

lemma process_item_value:
  assumes d: "process_consensus_item S cfg p i db = Done db'" and c: "contracts_ok db"
  shows "liabilities db' + item_fees i + holdings db \<le> liabilities db + holdings db' + item_redeemed i"
proof (cases i)
  case (TxItem tx)
  with d obtain db1 where new: "\<not> bt_has (accepted_txids db) (compute_tx_id (dcrypto S) tx)"
    and t: "process_tx S cfg tx db = Done db1"
    and db': "db' = db1\<lparr>accepted_txids := bs_insert (compute_tx_id (dcrypto S) tx) (accepted_txids db1)\<rparr>"
    by (auto simp: Let_def obind_Done_iff split: if_splits)
  from process_tx_value [OF t] c new show ?thesis
    by (simp add: contracts_ok_def TxItem db' liabilities_def holdings_def)
next
  case (ModuleItem m)
  with d show ?thesis
    by (auto simp: obind_Done_iff liabilities_def holdings_def wallet_sats_def dest: onchain_item_kept)
next
  case (BlockHeightItem v)
  with d show ?thesis
    by (auto simp: liabilities_def holdings_def wallet_sats_def initialize_block_height_def
        elim!: process_height_vote_Done split: if_splits)
next
  case (VersionItem v)
  with d show ?thesis
    by (auto simp: liabilities_def holdings_def process_version_vote_def obind_Done_iff Let_def)
qed

text \<open>The rows a run may add, and room for them.\<close>

definition run_weight :: "ordered_item list \<Rightarrow> nat" where
  "run_weight xs = sum_list (map (item_weight \<circ> snd) xs)"

definition run_redeemed :: "ordered_item list \<Rightarrow> nat" where
  "run_redeemed acc = sum_list (map (item_redeemed \<circ> snd) acc)"

definition run_fees :: "ordered_item list \<Rightarrow> nat" where
  "run_fees acc = sum_list (map (item_fees \<circ> snd) acc)"

definition from_nodes :: "num_nodes \<Rightarrow> ordered_item list \<Rightarrow> bool" where
  "from_nodes n xs \<longleftrightarrow> list_all (\<lambda>x. fst x \<in> set (node_ids n)) xs"

lemma run_ok:
  assumes "run_items S cfg xs db = Some (acc, db')" "daemon_ok S cfg n db" "config_ok cfg n" "from_nodes n xs"
    and "used db + run_weight xs + threshold n < 2 ^ 64"
  shows "daemon_ok S cfg n db' \<and>
    liabilities db' + run_fees acc + holdings db \<le> liabilities db + holdings db' + run_redeemed acc"
  using assms
proof (induction xs arbitrary: db acc)
  case (Cons x xs)
  obtain p i where x: "x = (p, i)" by fastforce
  have w: "run_weight (x # xs) = item_weight i + run_weight xs" by (simp add: run_weight_def x)
  have fn: "p \<in> set (node_ids n)" "from_nodes n xs" using Cons.prems(4) by (auto simp: from_nodes_def x)
  show ?case
  proof (cases "process_consensus_item S cfg p i db")
    case (Done db1)
    with Cons.prems(1) obtain acc1 where a: "run_items S cfg xs db1 = Some (acc1, db')" "acc = (p, i) # acc1"
      by (auto simp: x)
    have "used db + item_weight i + threshold n < 2 ^ 64" using Cons.prems(5) w by simp
    note s = daemon_ok_item [OF Done Cons.prems(2,3) fn(1) this]
    have "contracts_ok db" using Cons.prems(2) by (simp add: daemon_ok_def)
    note v = process_item_value [OF Done this]
    have "daemon_ok S cfg n db' \<and>
      liabilities db' + run_fees acc1 + holdings db1 \<le> liabilities db1 + holdings db' + run_redeemed acc1"
      by (rule Cons.IH [OF a(1) _ Cons.prems(3) fn(2)]) (use s Cons.prems(5) w in auto)
    with v show ?thesis by (simp add: a(2) run_fees_def run_redeemed_def)
  next
    case (Failed e)
    with Cons.prems(1) have a: "run_items S cfg xs db = Some (acc, db')" by (simp add: x)
    show ?thesis
      by (rule Cons.IH [OF a Cons.prems(2,3) fn(2)]) (use Cons.prems(5) w in simp)
  next
    case Panicked
    with Cons.prems(1) show ?thesis by (simp add: x)
  qed
qed (simp add: run_fees_def run_redeemed_def)

section \<open>No panic\<close>

text \<open>What the keys and the foreign code of a working mint satisfy.\<close>

definition world_ok :: "daemon_ops \<Rightarrow> daemon_config \<Rightarrow> num_nodes \<Rightarrow> bool" where
  "world_ok S cfg n \<longleftrightarrow>
     config_ok cfg n \<and> hashes_usable (dcrypto S) (dwallet S) (onchain_cfg cfg) \<and>
     sighash_total (dwallet S) \<and>
     default_version cfg \<le> CONSENSUS_VERSION"

text \<open>The two limits an item may run into by design: the depth of the pending stack and the version.\<close>

definition within_limits :: "num_nodes \<Rightarrow> node_id \<Rightarrow> consensus_item \<Rightarrow> daemon_db \<Rightarrow> bool" where
  "within_limits n p i db \<longleftrightarrow>
     bt_len (unconfirmed (onchain_tables db)) \<le> 31 \<and>
     (case i of
        VersionItem v \<Rightarrow> votes_for (\<lambda>x. \<not> x \<le> CONSENSUS_VERSION) (bt_insert p v (version_votes db)) < threshold n
      | _ \<Rightarrow> True)"

lemma item_no_panic:
  assumes ok: "daemon_ok S cfg n db" and w: "world_ok S cfg n"
    and snd: "tss_sound good (dwallet S) (onchain_cfg cfg) (threshold n)"
      "sessions_good good (dwallet S) (onchain_cfg cfg) (threshold n) (onchain_tables db)" and p: "p \<in> set (node_ids n)"
    and room: "used db + item_weight i + threshold n < 2 ^ 64" and lim: "within_limits n p i db"
  shows "process_consensus_item S cfg p i db \<noteq> Panicked"
proof (cases i)
  case (TxItem tx)
  have "process_tx S cfg tx db \<noteq> Panicked" if "\<not> bt_has (accepted_txids db) (compute_tx_id (dcrypto S) tx)"
    by (rule process_tx_no_panic [OF ok _ that])
      (use w room lim TxItem in \<open>simp_all add: world_ok_def within_limits_def\<close>)
  then show ?thesis by (auto simp: TxItem obind_Panicked_iff Let_def)
next
  case (ModuleItem m)
  have o1: "onchain_ok (dcrypto S) (dwallet S) (onchain_cfg cfg) n (onchain_tables db)"
    using ok by (simp add: daemon_ok_def modules_ok_def)
  have "onchain_process_item (dwallet S) (onchain_cfg cfg) p m (onchain_tables db) \<noteq> Panicked"
  proof (rule onchain_item_no_panic)
    show "to_num_nodes (onchain_pks (onchain_cfg cfg)) = Some n" using w by (simp add: world_ok_def config_ok_def)
    show "signing_ok (dwallet S) (onchain_cfg cfg) (threshold n) (onchain_tables db)" using o1 by (simp add: onchain_ok_def)
    show "bt_len (nonce_log (onchain_tables db)) + threshold n < 2 ^ 64"
      using room by (simp add: used_def onchain_used_def)
    show "bt_get (onchain_pks (onchain_cfg cfg)) p \<noteq> None" using w p by (simp add: world_ok_def config_ok_def)
    show "tss_sound good (dwallet S) (onchain_cfg cfg) (threshold n)"
      "sessions_good good (dwallet S) (onchain_cfg cfg) (threshold n) (onchain_tables db)" by (rule snd)+
    show "sighash_total (dwallet S)" using w by (simp add: world_ok_def)
    show "usable_tweaks (dwallet S) (onchain_cfg cfg) u" if "unsigned_row (onchain_tables db) = Some u" for u
      by (rule tweaks_ok_usable [OF _ _ that]) (use o1 w in \<open>auto simp: onchain_ok_def world_ok_def\<close>)
  qed
  then show ?thesis by (auto simp: ModuleItem obind_Panicked_iff)
next
  case (BlockHeightItem v)
  then show ?thesis
    using process_height_vote_no_panic [of cfg n db p v] ok w p by (simp add: daemon_ok_def world_ok_def)
next
  case (VersionItem v)
  then show ?thesis
    using process_version_vote_no_panic [of cfg n db p v] ok w p lim
    by (simp add: daemon_ok_def world_ok_def within_limits_def)
qed

end
