(* ===== verification/Item_Codes.thy ===== *)
theory Item_Codes
  imports Mint_Runs
begin

text \<open>
  The encoding of everything the mint orders: the inputs and outputs of transactions, the votes and
  the accepted items of a session. The encodings are prefix codes, so that a hash over them commits
  to the item: this is what transaction ids, unit payloads and session headers rest on.
\<close>

section \<open>Prefix codes\<close>

text \<open>What follows an encoded value can be told apart from it.\<close>

definition prefix_code :: "('a \<Rightarrow> bool) \<Rightarrow> ('a \<Rightarrow> bytes) \<Rightarrow> bool" where
  "prefix_code ok e \<longleftrightarrow> (\<forall>x y r r'. ok x \<longrightarrow> ok y \<longrightarrow> e x @ r = e y @ r' \<longrightarrow> x = y \<and> r = r')"

named_theorems codes

lemma prefix_codeD: "prefix_code ok e \<Longrightarrow> ok x \<Longrightarrow> ok y \<Longrightarrow> e x @ r = e y @ r' \<Longrightarrow> x = y \<and> r = r'"
  unfolding prefix_code_def by (elim allE impE) assumption+

lemma prefix_code_inj: "prefix_code ok e \<Longrightarrow> ok x \<Longrightarrow> ok y \<Longrightarrow> e x = e y \<Longrightarrow> x = y"
  using prefix_codeD [of ok e x y "[]" "[]"] by simp

lemma codec_prefix_code: "codec ok e d \<Longrightarrow> prefix_code ok e"
  unfolding prefix_code_def by (intro allI impI) (rule codec.prefix_free)

lemma prefix_code_int [codes]: "8 dvd LENGTH('a::len) \<Longrightarrow> prefix_code (\<lambda>_. True) (enc_int :: 'a word \<Rightarrow> bytes)"
  by (rule codec_prefix_code, rule codec_int)

lemma prefix_code_hash [codes]: "prefix_code (\<lambda>_. True) enc_hash"
  by (simp add: enc_hash_def prefix_code_int)

lemma prefix_code_vec: "codec ok e d \<Longrightarrow> prefix_code (\<lambda>xs. list_all ok xs \<and> len_fits xs) (enc_vec e)"
  by (rule codec_prefix_code, rule codec_vec)

lemma prefix_code_byte_vec [codes]: "prefix_code len_fits enc_byte_vec"
  by (rule codec_prefix_code, rule codec_byte_vec)

text \<open>A list of encoded values behind its length; the element need only have a prefix code.\<close>

lemma prefix_code_items:
  assumes "prefix_code ok e" "list_all ok xs" "list_all ok ys" "length xs = length ys"
    and "concat (map e xs) @ r = concat (map e ys) @ r'"
  shows "xs = ys \<and> r = r'"
  using assms(4,2,3,5)
proof (induction xs ys rule: list_induct2)
  case (Cons x xs y ys)
  then have "x = y \<and> concat (map e xs) @ r = concat (map e ys) @ r'"
    using prefix_codeD [OF assms(1), of x y] by simp
  with Cons show ?case by simp
qed simp

lemma prefix_code_list [codes]:
  assumes "prefix_code ok e"
  shows "prefix_code (\<lambda>xs. list_all ok xs \<and> len_fits xs) (enc_vec e)"
  unfolding prefix_code_def
proof (intro allI impI)
  fix xs ys r r'
  assume xs: "list_all ok xs \<and> len_fits xs" and ys: "list_all ok ys \<and> len_fits ys"
    and eq: "enc_vec e xs @ r = enc_vec e ys @ r'"
  have "length xs = length ys \<and> concat (map e xs) @ r = concat (map e ys) @ r'"
    using codec.prefix_free [OF codec_len, of "length xs" "length ys"] xs ys eq
    by (simp add: enc_vec_def len_fits_def)
  with prefix_code_items [OF assms] xs ys show "xs = ys \<and> r = r'" by blast
qed

text \<open>Sequencing: the value is determined by the parts that are encoded one after the other.\<close>

lemma enc_append_inj:
  "prefix_code ok e \<Longrightarrow> ok x \<Longrightarrow> ok y \<Longrightarrow> e x @ r = e y @ r' \<longleftrightarrow> x = y \<and> r = r'"
  using prefix_codeD [of ok e x y r r'] by blast

lemma int_append_inj: "8 dvd LENGTH('a::len) \<Longrightarrow> enc_int (x :: 'a word) @ r = enc_int y @ r' \<longleftrightarrow> x = y \<and> r = r'"
  by (rule enc_append_inj [OF prefix_code_int]) simp_all

lemma fixed_append_inj [simp]:
  "enc_u8 a @ r = enc_u8 b @ r' \<longleftrightarrow> a = b \<and> r = r'"
  "enc_u16 c @ r = enc_u16 d @ r' \<longleftrightarrow> c = d \<and> r = r'"
  "enc_u32 i @ r = enc_u32 j @ r' \<longleftrightarrow> i = j \<and> r = r'"
  "enc_u64 k @ r = enc_u64 l @ r' \<longleftrightarrow> k = l \<and> r = r'"
  "enc_hash h @ r = enc_hash h' @ r' \<longleftrightarrow> h = h' \<and> r = r'"
  by (rule int_append_inj; simp; fail | rule enc_append_inj [OF prefix_code_hash]; simp; fail)+

lemma wide_append_inj [simp]:
  "enc_int (p :: 512 word) @ r = enc_int p' @ r' \<longleftrightarrow> p = p' \<and> r = r'"
  "enc_int (q :: 384 word) @ r = enc_int q' @ r' \<longleftrightarrow> q = q' \<and> r = r'"
  "enc_int (s :: 264 word) @ r = enc_int s' @ r' \<longleftrightarrow> s = s' \<and> r = r'"
  "enc_int (t :: 160 word) @ r = enc_int t' @ r' \<longleftrightarrow> t = t' \<and> r = r'"
  by (rule int_append_inj; simp)+

lemma amount_append_inj [simp]: "enc_amount a @ r = enc_amount b @ r' \<longleftrightarrow> a = b \<and> r = r'"
  by (cases a; cases b) (simp add: enc_amount_def)

section \<open>Inputs and outputs\<close>

lemma out_point_append_inj [simp]: "enc_out_point p @ r = enc_out_point q @ r' \<longleftrightarrow> p = q \<and> r = r'"
  by (cases p; cases q) (auto simp: enc_out_point_def)

lemma ecash_input_append_inj [simp]: "enc_ecash_input i @ r = enc_ecash_input j @ r' \<longleftrightarrow> i = j \<and> r = r'"
  by (cases i; cases j) (auto simp: enc_note_def)

lemma ecash_output_append_inj [simp]: "enc_ecash_output x @ r = enc_ecash_output y @ r' \<longleftrightarrow> x = y \<and> r = r'"
  by (cases x; cases y) auto

lemma onchain_input_append_inj [simp]: "enc_onchain_input i @ r = enc_onchain_input j @ r' \<longleftrightarrow> i = j \<and> r = r'"
  by (auto simp: enc_onchain_input_def)

lemma standard_script_append_inj [simp]:
  "enc_standard_script x @ r = enc_standard_script y @ r' \<longleftrightarrow> x = y \<and> r = r'"
  by (cases x; cases y) auto

lemma onchain_output_append_inj [simp]: "enc_onchain_output x @ r = enc_onchain_output y @ r' \<longleftrightarrow> x = y \<and> r = r'"
  by (auto simp: enc_onchain_output_def)

lemma outgoing_witness_append_inj [simp]:
  "enc_outgoing_witness x @ r = enc_outgoing_witness y @ r' \<longleftrightarrow> x = y \<and> r = r'"
  by (cases x; cases y) auto

lemma lightning_input_append_inj [simp]:
  "enc_lightning_input i @ r = enc_lightning_input j @ r' \<longleftrightarrow> i = j \<and> r = r'"
  by (cases i; cases j) auto

lemma lightning_output_append_inj [simp]:
  "enc_lightning_output x @ r = enc_lightning_output y @ r' \<longleftrightarrow> x = y \<and> r = r'"
  by (cases x; cases y) (auto simp: enc_outgoing_contract_def enc_incoming_contract_def)

lemma wire_input_append_inj [simp]: "enc_wire_input i @ r = enc_wire_input j @ r' \<longleftrightarrow> i = j \<and> r = r'"
  by (cases i; cases j) auto

lemma wire_output_append_inj [simp]: "enc_wire_output x @ r = enc_wire_output y @ r' \<longleftrightarrow> x = y \<and> r = r'"
  by (cases x; cases y) auto

section \<open>Items\<close>

definition enc_tx_out :: "tx_out \<Rightarrow> bytes" where
  "enc_tx_out x = enc_u64 (to_value x) @ enc_byte_vec (script_pubkey x)"

definition enc_block_output :: "u32 \<times> tx_out \<Rightarrow> bytes" where
  "enc_block_output = enc_pair enc_u32 enc_tx_out"

definition enc_block_tx :: "block_tx \<Rightarrow> bytes" where
  "enc_block_tx t = enc_hash (bt_txid t) @ enc_vec enc_block_output (bt_outputs t)"

definition enc_block_vote :: "block_vote \<Rightarrow> bytes" where
  "enc_block_vote v = enc_u32 (bv_height v) @ enc_vec enc_block_tx (bv_txs v)"

fun enc_onchain_item :: "onchain_item \<Rightarrow> bytes" where
  "enc_onchain_item (BlockItem v) = enc_u8 0 @ enc_block_vote v"
| "enc_onchain_item (FeerateItem f) = enc_u8 1 @ enc_option enc_u32 f"
| "enc_onchain_item (NoncesItem txid ns) = enc_u8 2 @ enc_hash txid @ enc_vec enc_int ns"
| "enc_onchain_item (SharesItem txid ss ns) = enc_u8 3 @ enc_hash txid @ enc_vec enc_int ss @ enc_vec enc_int ns"

definition enc_version :: "consensus_version \<Rightarrow> bytes" where
  "enc_version v = enc_u8 (major v) @ enc_u8 (minor v)"

text \<open>The module variant has one case, the onchain module's.\<close>

fun enc_consensus_item :: "consensus_item \<Rightarrow> bytes" where
  "enc_consensus_item (TxItem tx) = enc_u8 0 @ enc_transaction tx"
| "enc_consensus_item (ModuleItem i) = enc_u8 1 @ enc_u8 0 @ enc_onchain_item i"
| "enc_consensus_item (BlockHeightItem h) = enc_u8 2 @ enc_u32 h"
| "enc_consensus_item (VersionItem v) = enc_u8 3 @ enc_version v"

definition enc_accepted_item :: "ordered_item \<Rightarrow> bytes" where
  "enc_accepted_item = enc_pair enc_u8 enc_consensus_item"

text \<open>Lists short enough for their four-byte length.\<close>

definition ok_tx :: "transaction \<Rightarrow> bool" where
  "ok_tx tx \<longleftrightarrow> len_fits (tx_inputs tx) \<and> len_fits (tx_outputs tx) \<and> len_fits (tx_signatures tx)"

definition ok_tx_out :: "tx_out \<Rightarrow> bool" where
  "ok_tx_out x \<longleftrightarrow> len_fits (script_pubkey x)"

definition ok_block_tx :: "block_tx \<Rightarrow> bool" where
  "ok_block_tx t \<longleftrightarrow> list_all (ok_tx_out \<circ> snd) (bt_outputs t) \<and> len_fits (bt_outputs t)"

definition ok_block_vote :: "block_vote \<Rightarrow> bool" where
  "ok_block_vote v \<longleftrightarrow> list_all ok_block_tx (bv_txs v) \<and> len_fits (bv_txs v)"

fun ok_onchain_item :: "onchain_item \<Rightarrow> bool" where
  "ok_onchain_item (BlockItem v) = ok_block_vote v"
| "ok_onchain_item (FeerateItem f) = True"
| "ok_onchain_item (NoncesItem txid ns) = len_fits ns"
| "ok_onchain_item (SharesItem txid ss ns) = (len_fits ss \<and> len_fits ns)"

fun ok_item :: "consensus_item \<Rightarrow> bool" where
  "ok_item (TxItem tx) = ok_tx tx"
| "ok_item (ModuleItem i) = ok_onchain_item i"
| "ok_item i = True"

lemma prefix_codeI:
  "(\<And>x y r r'. ok x \<Longrightarrow> ok y \<Longrightarrow> e x @ r = e y @ r' \<longleftrightarrow> x = y \<and> r = r') \<Longrightarrow> prefix_code ok e"
  by (simp add: prefix_code_def)

text \<open>Lists of fixed-form values, with their side condition on the length.\<close>

lemma wire_inputs_append_inj:
  "len_fits is \<Longrightarrow> len_fits js \<Longrightarrow> enc_vec enc_wire_input is @ r = enc_vec enc_wire_input js @ r' \<longleftrightarrow> is = js \<and> r = r'"
  using enc_append_inj [OF prefix_code_list [OF prefix_codeI [where ok = "\<lambda>_. True", OF wire_input_append_inj]]]
  by (simp add: list_all_iff)

lemma wire_outputs_append_inj:
  "len_fits is \<Longrightarrow> len_fits js \<Longrightarrow> enc_vec enc_wire_output is @ r = enc_vec enc_wire_output js @ r' \<longleftrightarrow> is = js \<and> r = r'"
  using enc_append_inj [OF prefix_code_list [OF prefix_codeI [where ok = "\<lambda>_. True", OF wire_output_append_inj]]]
  by (simp add: list_all_iff)

lemma ints_append_inj:
  "8 dvd LENGTH('a::len) \<Longrightarrow> len_fits is \<Longrightarrow> len_fits js \<Longrightarrow>
   enc_vec enc_int (is :: 'a word list) @ r = enc_vec enc_int js @ r' \<longleftrightarrow> is = js \<and> r = r'"
  using enc_append_inj [OF prefix_code_list [OF prefix_code_int]] by (simp add: list_all_iff)

lemma transaction_append_inj:
  "ok_tx t \<Longrightarrow> ok_tx u \<Longrightarrow> enc_transaction t @ r = enc_transaction u @ r' \<longleftrightarrow> t = u \<and> r = r'"
  by (auto simp: ok_tx_def enc_transaction_def wire_inputs_append_inj wire_outputs_append_inj ints_append_inj)

lemma tx_out_append_inj:
  "ok_tx_out x \<Longrightarrow> ok_tx_out y \<Longrightarrow> enc_tx_out x @ r = enc_tx_out y @ r' \<longleftrightarrow> x = y \<and> r = r'"
  using enc_append_inj [OF prefix_code_byte_vec]
  by (auto simp: ok_tx_out_def enc_tx_out_def)

lemma block_output_append_inj:
  "(ok_tx_out \<circ> snd) x \<Longrightarrow> (ok_tx_out \<circ> snd) y \<Longrightarrow> enc_block_output x @ r = enc_block_output y @ r' \<longleftrightarrow> x = y \<and> r = r'"
  by (cases x; cases y) (auto simp: enc_block_output_def enc_pair_def tx_out_append_inj)

lemma block_tx_append_inj:
  "ok_block_tx x \<Longrightarrow> ok_block_tx y \<Longrightarrow> enc_block_tx x @ r = enc_block_tx y @ r' \<longleftrightarrow> x = y \<and> r = r'"
  using enc_append_inj [OF prefix_code_list [OF prefix_codeI [where ok = "ok_tx_out \<circ> snd", OF block_output_append_inj]]]
  by (auto simp: ok_block_tx_def enc_block_tx_def)

lemma block_vote_append_inj:
  "ok_block_vote x \<Longrightarrow> ok_block_vote y \<Longrightarrow> enc_block_vote x @ r = enc_block_vote y @ r' \<longleftrightarrow> x = y \<and> r = r'"
  using enc_append_inj [OF prefix_code_list [OF prefix_codeI [where ok = ok_block_tx, OF block_tx_append_inj]]]
  by (auto simp: ok_block_vote_def enc_block_vote_def)

lemma feerate_append_inj [simp]: "enc_option enc_u32 f @ r = enc_option enc_u32 g @ r' \<longleftrightarrow> f = g \<and> r = r'"
  by (cases f; cases g) auto

lemma onchain_item_append_inj:
  "ok_onchain_item x \<Longrightarrow> ok_onchain_item y \<Longrightarrow> enc_onchain_item x @ r = enc_onchain_item y @ r' \<longleftrightarrow> x = y \<and> r = r'"
  by (cases x; cases y) (auto simp: block_vote_append_inj ints_append_inj)

lemma version_append_inj [simp]: "enc_version v @ r = enc_version w @ r' \<longleftrightarrow> v = w \<and> r = r'"
  by (cases v; cases w) (auto simp: enc_version_def)

lemma consensus_item_append_inj:
  "ok_item x \<Longrightarrow> ok_item y \<Longrightarrow> enc_consensus_item x @ r = enc_consensus_item y @ r' \<longleftrightarrow> x = y \<and> r = r'"
  by (cases x; cases y) (auto simp: transaction_append_inj onchain_item_append_inj)

lemma accepted_item_code: "prefix_code (ok_item \<circ> snd) enc_accepted_item"
  by (rule prefix_codeI) (auto simp: enc_accepted_item_def enc_pair_def consensus_item_append_inj)

end
