(* ===== verification/Session.thy ===== *)
theory Session
  imports Item_Codes
begin

text \<open>
  Consensus sessions (\<open>picomint-core/src/session.rs\<close>, \<open>picomint-node-daemon/src/consensus/engine.rs\<close>
  and \<open>bft.rs\<close>): ordered items are processed one write transaction at a time until the session is
  cut, the header folded over the accepted ones is signed, and the session is closed with a
  threshold of signatures of the node's own or with an outcome adopted from a node that has them.
\<close>

section \<open>Headers\<close>

text \<open>The byte count is a \<open>usize\<close> over what is in memory, a natural number here.\<close>

record session_state =
  ss_index :: u64
  ss_header :: hash256
  ss_bytes :: nat

definition session_new :: "crypto \<Rightarrow> u32 \<Rightarrow> session_state" where
  "session_new C session = \<lparr>ss_index = 0, ss_header = sha256 C (enc_u32 session), ss_bytes = 0\<rparr>"

definition fold_header :: "crypto \<Rightarrow> hash256 \<Rightarrow> ordered_item \<Rightarrow> hash256" where
  "fold_header C h x = sha256 C (enc_hash h @ enc_accepted_item x)"

definition session_fold :: "crypto \<Rightarrow> session_state \<Rightarrow> ordered_item \<Rightarrow> session_state" where
  "session_fold C st x =
     \<lparr>ss_index = ss_index st + 1, ss_header = fold_header C (ss_header st) x,
      ss_bytes = ss_bytes st + length (enc_accepted_item x)\<rparr>"

definition session_header :: "crypto \<Rightarrow> u32 \<Rightarrow> ordered_item list \<Rightarrow> hash256" where
  "session_header C session items = foldl (fold_header C) (sha256 C (enc_u32 session)) items"

record session_outcome =
  so_items :: "ordered_item list"
  so_signatures :: "(node_id, bytes) btmap"

text \<open>The state after a list of accepted items: how many, the header over them and their wire size.\<close>

definition session_over :: "crypto \<Rightarrow> u32 \<Rightarrow> ordered_item list \<Rightarrow> session_state" where
  "session_over C session items = foldl (session_fold C) (session_new C session) items"

lemma session_over_fields:
  "session_over C session items =
     \<lparr>ss_index = of_nat (length items), ss_header = session_header C session items,
      ss_bytes = sum_list (map (length \<circ> enc_accepted_item) items)\<rparr>"
  by (induction items rule: rev_induct)
    (simp_all add: session_over_def session_new_def session_header_def session_fold_def add.commute)

lemma session_over_snoc: "session_over C session (items @ [x]) = session_fold C (session_over C session items) x"
  by (simp add: session_over_def)

section \<open>The node's tables\<close>

text \<open>
  The database of the daemon with the tables of the running session and of the ordering engine, and
  the rejections a submission waits for, which no crash survives.
\<close>

record node_state =
  mint_db :: daemon_db
  accepted_items :: "(u32 \<times> u64, ordered_item) btmap"
  resume_index :: "u64 option"
  session_signatures :: "(u32, (node_id, bytes) btmap) btmap"
  bft_unit_rows :: "(hash256, bft_unit) btmap"
  bft_data_rows :: "(hash256, consensus_item list) btmap"
  bft_signature_rows :: "(hash256, bytes) btmap"
  rejected :: "(hash256, tx_error) btmap"

text \<open>\<open>prefix(&AcceptedItemTable, &session, ..)\<close>: the items of a session by their position.\<close>

definition items_of :: "u32 \<Rightarrow> node_state \<Rightarrow> ordered_item list" where
  "items_of session nd = map snd (filter (\<lambda>e. fst (fst e) = session) (entries (accepted_items nd)))"

definition finished_sessions :: "node_state \<Rightarrow> u32" where
  "finished_sessions nd = (case bt_last (session_signatures nd) of None \<Rightarrow> 0 | Some (k, v) \<Rightarrow> k + 1)"

section \<open>Ordering until the cut\<close>

definition ROUNDS_PER_SESSION :: nat where "ROUNDS_PER_SESSION = 1000"

definition SESSION_OUTCOME_BYTE_TARGET :: nat where "SESSION_OUTCOME_BYTE_TARGET = 1000000"

text \<open>
  The loop returns the header at the cut, waits for the next delivery, or panics. A delivery is a
  round, the node whose unit carried the item, and the item.
\<close>

type_synonym delivery = "nat \<times> node_id \<times> consensus_item"

datatype ordering = Cut hash256 node_state | Waiting session_state node_state | OrderPanicked

definition accept_item :: "u32 \<Rightarrow> u64 \<Rightarrow> ordered_item \<Rightarrow> node_state \<Rightarrow> node_state" where
  "accept_item session index x nd = nd\<lparr>accepted_items := bt_insert (session, index) x (accepted_items nd)\<rparr>"

fun order_items ::
  "daemon_ops \<Rightarrow> daemon_config \<Rightarrow> u32 \<Rightarrow> u64 \<Rightarrow> u64 \<Rightarrow> delivery list \<Rightarrow> session_state \<Rightarrow> node_state \<Rightarrow> ordering" where
  "order_items S cfg session resume_from index [] st nd =
     (if SESSION_OUTCOME_BYTE_TARGET \<le> ss_bytes st then Cut (ss_header st) nd else Waiting st nd)"
| "order_items S cfg session resume_from index ((r, p, i) # ds) st nd =
     (if SESSION_OUTCOME_BYTE_TARGET \<le> ss_bytes st then Cut (ss_header st) nd
      else if index < resume_from then order_items S cfg session resume_from (index + 1) ds st nd
      else if ROUNDS_PER_SESSION \<le> r then Cut (ss_header st) nd
      else
        (let result = process_consensus_item S cfg p i (mint_db nd);
             nd1 = nd\<lparr>rejected := note_rejection (dcrypto S) (own_identity (onchain_cfg cfg)) p i result (rejected nd)\<rparr>
         in case result of
              Panicked \<Rightarrow> OrderPanicked
            | Failed e \<Rightarrow> order_items S cfg session resume_from (index + 1) ds st nd1
            | Done db \<Rightarrow>
                order_items S cfg session resume_from (index + 1) ds (session_fold (dcrypto S) st (p, i))
                  (accept_item session (ss_index st) (p, i)
                    (nd1\<lparr>mint_db := db, resume_index := Some (index + 1)\<rparr>))))"

text \<open>The start of the loop: where to resume, and the state refolded over the stored items.\<close>

definition order_items_until_cut ::
  "daemon_ops \<Rightarrow> daemon_config \<Rightarrow> u32 \<Rightarrow> delivery list \<Rightarrow> node_state \<Rightarrow> ordering" where
  "order_items_until_cut S cfg session ds nd =
     order_items S cfg session (case resume_index nd of None \<Rightarrow> 0 | Some r \<Rightarrow> r) 0 ds
       (session_over (dcrypto S) session (items_of session nd)) nd"

section \<open>Signing and closing\<close>

definition build_keychain :: "bytes \<Rightarrow> daemon_config \<Rightarrow> keychain" where
  "build_keychain sk cfg = \<lparr>keypair = sk, pubkeys = broadcast_pks cfg\<rparr>"

text \<open>
  The signatures collected from the messages that arrive, starting from the node's own; \<open>None\<close>
  while a threshold is not there.
\<close>

fun collect_signatures ::
  "crypto \<Rightarrow> keychain \<Rightarrow> u32 \<Rightarrow> hash256 \<Rightarrow> nat \<Rightarrow> (node_id \<times> bytes) list \<Rightarrow> (node_id, bytes) btmap \<Rightarrow>
   (node_id, bytes) btmap option" where
  "collect_signatures C kc session header need [] sigs = (if bt_len sigs < need then None else Some sigs)"
| "collect_signatures C kc session header need ((p, s) # ms) sigs =
     (if bt_len sigs < need
      then collect_signatures C kc session header need ms
        (if keychain_verify C kc session (enc_hash header) s p then bt_insert p s sigs else sigs)
      else Some sigs)"

definition collect_threshold_signatures ::
  "crypto \<Rightarrow> bytes \<Rightarrow> daemon_config \<Rightarrow> u32 \<Rightarrow> hash256 \<Rightarrow> (node_id \<times> bytes) list \<Rightarrow> (node_id, bytes) btmap option" where
  "collect_threshold_signatures C sk cfg session header ms =
     (let kc = build_keychain sk cfg;
          ours = keychain_sign C kc session (enc_hash header)
      in Option.bind (daemon_nodes cfg) (\<lambda>n.
         collect_signatures C kc session header (threshold n) ms
           (bt_insert (own_identity (onchain_cfg cfg)) ours bt_empty)))"

text \<open>\<open>None\<close> is the panic of the node count.\<close>

definition validate_session_outcome :: "crypto \<Rightarrow> bytes \<Rightarrow> daemon_config \<Rightarrow> u32 \<Rightarrow> session_outcome \<Rightarrow> bool option" where
  "validate_session_outcome C sk cfg session out =
     map_option (\<lambda>n.
       if bt_len (so_signatures out) \<noteq> threshold n then False
       else
         (let header = session_header C session (so_items out);
              kc = build_keychain sk cfg
          in list_all (\<lambda>(p, s). keychain_verify C kc session (enc_hash header) s p) (entries (so_signatures out))))
       (daemon_nodes cfg)"

datatype session_close = Signed "(node_id, bytes) btmap" | Adopted session_outcome

text \<open>The suffix of an adopted outcome: every item must be accepted.\<close>

fun adopt_items ::
  "daemon_ops \<Rightarrow> daemon_config \<Rightarrow> u32 \<Rightarrow> u64 \<Rightarrow> ordered_item list \<Rightarrow> node_state \<Rightarrow> node_state option" where
  "adopt_items S cfg session index [] nd = Some nd"
| "adopt_items S cfg session index ((p, i) # xs) nd =
     (case process_consensus_item S cfg p i (mint_db nd) of
        Done db \<Rightarrow> adopt_items S cfg session (index + 1) xs (accept_item session index (p, i) (nd\<lparr>mint_db := db\<rparr>))
      | _ \<Rightarrow> None)"

text \<open>The write that closes a session; \<open>None\<close> is one of its panics.\<close>

definition close_rows :: "u32 \<Rightarrow> (node_id, bytes) btmap \<Rightarrow> node_state \<Rightarrow> node_state option" where
  "close_rows session sigs nd =
     (if bt_has (session_signatures nd) session then None
      else Some (nd\<lparr>session_signatures := bt_insert session sigs (session_signatures nd), resume_index := None,
             bft_unit_rows := bt_empty, bft_data_rows := bt_empty, bft_signature_rows := bt_empty,
             rejected := bt_empty\<rparr>))"

definition finalize_session ::
  "daemon_ops \<Rightarrow> daemon_config \<Rightarrow> u32 \<Rightarrow> session_close \<Rightarrow> node_state \<Rightarrow> node_state option" where
  "finalize_session S cfg session close nd =
     (case close of
        Signed sigs \<Rightarrow> close_rows session sigs nd
      | Adopted out \<Rightarrow>
          (let accepted = items_of session nd
           in if length (so_items out) < length accepted then None
              else if take (length accepted) (so_items out) \<noteq> accepted then None
              else Option.bind
                (adopt_items S cfg session (of_nat (length accepted)) (drop (length accepted) (so_items out)) nd)
                (close_rows session (so_signatures out))))"

text \<open>The answer to a node that asks for a session: its signed outcome, once it is closed.\<close>

definition session_outcome_of :: "u32 \<Rightarrow> node_state \<Rightarrow> session_outcome option" where
  "session_outcome_of session nd =
     map_option (\<lambda>sigs. \<lparr>so_items = items_of session nd, so_signatures = sigs\<rparr>)
       (bt_get (session_signatures nd) session)"

section \<open>Proposing items\<close>

definition BFT_UNIT_BYTE_TARGET :: nat where "BFT_UNIT_BYTE_TARGET = 50000"

text \<open>
  The payload of the next unit: items from the front of the queue, the pending ones and then the
  submission channel's, until their encoding reaches the target.
\<close>

fun take_data :: "consensus_item list \<Rightarrow> consensus_item list \<Rightarrow> consensus_item list \<times> consensus_item list" where
  "take_data items [] = (items, [])"
| "take_data items (x # queue) =
     (let items' = items @ [x]
      in if BFT_UNIT_BYTE_TARGET \<le> length (enc_vec enc_consensus_item items') then (items', queue)
         else take_data items' queue)"

definition get_data :: "consensus_item list \<Rightarrow> consensus_item list \<times> consensus_item list" where
  "get_data queue = take_data [] queue"

end
