(* ===== verification/Session_Order.thy ===== *)
theory Session_Order
  imports Session
begin

text \<open>
  The ordering loop refines a function of the ordered deliveries alone: which items are accepted
  and where the session is cut does not depend on how often the node crashed on the way, and a node
  that adopts the outcome ends where the nodes that ordered it are.
\<close>

section \<open>The items of a session in their table\<close>

lemma filter_ins_last:
  assumes "sorted_keys es" "\<And>e. e \<in> set es \<Longrightarrow> P (fst e) \<Longrightarrow> fst e < k" "P k"
  shows "filter (\<lambda>e. P (fst e)) (ins_entry k v es) = filter (\<lambda>e. P (fst e)) es @ [(k, v)]"
  using assms
proof (induction es)
  case (Cons e es)
  obtain k' v' where e: "e = (k', v')" by fastforce
  have above: "filter (\<lambda>e. P (fst e)) es = []" if k: "k \<le> k'"
  proof -
    have "\<not> P (fst x)" if x: "x \<in> set es" for x
    proof
      assume "P (fst x)"
      then have "fst x < k" using Cons.prems(2) [of x] x by simp
      moreover have "k < fst x" using Cons.prems(1) x k by (auto simp: e)
      ultimately show False by simp
    qed
    then show ?thesis by (simp add: filter_empty_conv)
  qed
  have "\<not> P k'" if "k \<le> k'" using Cons.prems(2) [of e] that by (auto simp: e)
  with above Cons show ?case by (auto simp: e)
qed simp

text \<open>The positions of a session's items are \<open>0, 1, 2, ...\<close>, as many as there are items.\<close>

definition items_dense :: "u32 \<Rightarrow> node_state \<Rightarrow> bool" where
  "items_dense session nd \<longleftrightarrow>
     length (items_of session nd) < 2 ^ 64 \<and>
     (\<forall>k. bt_get (accepted_items nd) (session, k) \<noteq> None \<longleftrightarrow> unat k < length (items_of session nd))"

lemma items_of_cong: "accepted_items nd = accepted_items nd' \<Longrightarrow> items_of session nd = items_of session nd'"
  by (simp add: items_of_def)

lemma items_dense_cong: "accepted_items nd = accepted_items nd' \<Longrightarrow> items_dense session nd = items_dense session nd'"
  using items_of_cong [of nd nd' session] by (simp add: items_dense_def)

lemma items_of_accept:
  assumes d: "items_dense session nd"
  shows "items_of session (accept_item session (of_nat (length (items_of session nd))) x nd) = items_of session nd @ [x]"
proof -
  let ?n = "length (items_of session nd)"
  have "fst e < (session, of_nat ?n)" if e_in: "e \<in> set (entries (accepted_items nd))" and e_s: "fst (fst e) = session" for e
  proof -
    obtain k v where e: "e = ((session, k), v)" using e_s by (metis prod.collapse)
    then have "bt_get (accepted_items nd) (session, k) = Some v" using e_in by (simp add: bt_get_Some_iff)
    then have "unat k < ?n" using d by (auto simp: items_dense_def)
    moreover have "unat (of_nat ?n :: u64) = ?n" using d by (simp add: items_dense_def unat_of_nat)
    ultimately show ?thesis by (simp add: e word_less_nat_alt)
  qed
  then show ?thesis
    using filter_ins_last [of "entries (accepted_items nd)" "\<lambda>k. fst k = session"]
    by (simp add: items_of_def accept_item_def)
qed

lemma items_dense_accept:
  assumes d: "items_dense session nd" and room: "length (items_of session nd) + 1 < 2 ^ 64"
  shows "items_dense session (accept_item session (of_nat (length (items_of session nd))) x nd)"
proof -
  let ?n = "length (items_of session nd)"
  let ?nd = "accept_item session (of_nat ?n) x nd"
  have u: "unat (of_nat ?n :: u64) = ?n" using d by (simp add: items_dense_def unat_of_nat)
  have "bt_get (accepted_items ?nd) (session, k) \<noteq> None \<longleftrightarrow> unat k < ?n + 1" for k
  proof (cases "k = of_nat ?n")
    case False
    then have "unat k \<noteq> ?n" using u by (metis word_unat_eq_iff)
    then show ?thesis using d False by (auto simp: items_dense_def accept_item_def)
  qed (simp add: accept_item_def u)
  then show ?thesis using room by (simp add: items_dense_def items_of_accept [OF d])
qed

section \<open>The session as a function of its deliveries\<close>

text \<open>Cut or not, the accepted items and the mint's database; \<open>None\<close> when an item panics.\<close>

definition items_bytes :: "ordered_item list \<Rightarrow> nat" where
  "items_bytes items = sum_list (map (length \<circ> enc_accepted_item) items)"

fun cut_run ::
  "daemon_ops \<Rightarrow> daemon_config \<Rightarrow> delivery list \<Rightarrow> ordered_item list \<Rightarrow> daemon_db \<Rightarrow>
   (bool \<times> ordered_item list \<times> daemon_db) option" where
  "cut_run S cfg [] items db = Some (SESSION_OUTCOME_BYTE_TARGET \<le> items_bytes items, items, db)"
| "cut_run S cfg ((r, p, i) # ds) items db =
     (if SESSION_OUTCOME_BYTE_TARGET \<le> items_bytes items \<or> ROUNDS_PER_SESSION \<le> r then Some (True, items, db)
      else
        (case process_consensus_item S cfg p i db of
           Panicked \<Rightarrow> None
         | Failed e \<Rightarrow> cut_run S cfg ds items db
         | Done db' \<Rightarrow> cut_run S cfg ds (items @ [(p, i)]) db'))"

fun apply_items :: "daemon_ops \<Rightarrow> daemon_config \<Rightarrow> ordered_item list \<Rightarrow> daemon_db \<Rightarrow> daemon_db option" where
  "apply_items S cfg [] db = Some db"
| "apply_items S cfg ((p, i) # xs) db =
     (case process_consensus_item S cfg p i db of Done db' \<Rightarrow> apply_items S cfg xs db' | _ \<Rightarrow> None)"

lemma cut_run_full: "SESSION_OUTCOME_BYTE_TARGET \<le> items_bytes items \<Longrightarrow> cut_run S cfg ds items db = Some (True, items, db)"
  by (cases ds) auto

text \<open>What the items of a run are: the ones accepted before, then ones that apply in turn.\<close>

lemma cut_run_apply:
  "cut_run S cfg ds items db = Some (c, items', db') \<Longrightarrow>
   \<exists>new. items' = items @ new \<and> length new \<le> length ds \<and> apply_items S cfg new db = Some db'"
proof (induction ds arbitrary: items db)
  case (Cons d ds)
  obtain r p i where d: "d = (r, p, i)" using prod_cases3 by blast
  show ?case
  proof (cases "SESSION_OUTCOME_BYTE_TARGET \<le> items_bytes items \<or> ROUNDS_PER_SESSION \<le> r")
    case False
    show ?thesis
    proof (cases "process_consensus_item S cfg p i db")
      case (Done db1)
      with Cons.prems False have "cut_run S cfg ds (items @ [(p, i)]) db1 = Some (c, items', db')" by (simp add: d)
      from Cons.IH [OF this] obtain new where "items' = items @ [(p, i)] @ new" "length new \<le> length ds"
        "apply_items S cfg new db1 = Some db'" by auto
      then show ?thesis using Done by (intro exI [of _ "(p, i) # new"]) simp
    next
      case (Failed e)
      with Cons.prems False have "cut_run S cfg ds items db = Some (c, items', db')" by (simp add: d)
      from Cons.IH [OF this] show ?thesis by auto
    next
      case Panicked
      with Cons.prems False show ?thesis by (simp add: d)
    qed
  qed (use Cons.prems in \<open>auto simp: d\<close>)
qed simp

definition view :: "u32 \<Rightarrow> ordering \<Rightarrow> (bool \<times> ordered_item list \<times> daemon_db) option" where
  "view session out =
     (case out of
        Cut h nd \<Rightarrow> Some (True, items_of session nd, mint_db nd)
      | Waiting st nd \<Rightarrow> Some (False, items_of session nd, mint_db nd)
      | OrderPanicked \<Rightarrow> None)"

lemma cut_run_None_append: "cut_run S cfg ds items db = None \<Longrightarrow> cut_run S cfg (ds @ us) items db = None"
proof (induction ds arbitrary: items db)
  case (Cons d ds)
  obtain r p i where "d = (r, p, i)" using prod_cases3 by blast
  with Cons show ?case by (auto split: outcome.splits)
qed simp

section \<open>The loop refines the function\<close>

definition over :: "crypto \<Rightarrow> u32 \<Rightarrow> node_state \<Rightarrow> session_state" where
  "over C session nd = session_over C session (items_of session nd)"

lemma over_bytes: "ss_bytes (over C session nd) = items_bytes (items_of session nd)"
  by (simp add: over_def session_over_fields items_bytes_def)

lemma over_index: "ss_index (over C session nd) = of_nat (length (items_of session nd))"
  by (simp add: over_def session_over_fields)

lemma over_header: "ss_header (over C session nd) = session_header C session (items_of session nd)"
  by (simp add: over_def session_over_fields)

text \<open>Accepting an item keeps the folded state that of the stored items.\<close>

lemma over_accept:
  assumes d: "items_dense session nd" and n: "accepted_items nd1 = accepted_items nd"
  shows "session_fold C (over C session nd) x = over C session (accept_item session (ss_index (over C session nd)) x nd1)"
  using items_of_accept [of session nd1 x] d items_dense_cong [OF n] items_of_cong [OF n]
  by (simp add: over_index) (simp add: over_def session_over_snoc)

text \<open>
  Where a step of the loop leaves the node: \<open>ys\<close> are the deliveries its resume index is past.
\<close>

definition left_at ::
  "daemon_ops \<Rightarrow> daemon_config \<Rightarrow> u32 \<Rightarrow> u64 \<Rightarrow> delivery list \<Rightarrow> node_state \<Rightarrow> node_state \<Rightarrow> bool" where
  "left_at S cfg session index ds nd nd' \<longleftrightarrow>
     items_dense session nd' \<and>
     (\<exists>ys ws. ds = ys @ ws \<and>
        resume_index nd' = (if ys = [] then resume_index nd else Some (index + of_nat (length ys))) \<and>
        length (items_of session nd') \<le> length (items_of session nd) + length ys \<and>
        (\<forall>us. cut_run S cfg (ys @ us) (items_of session nd) (mint_db nd) =
              cut_run S cfg us (items_of session nd') (mint_db nd')))"

fun ordering_node :: "ordering \<Rightarrow> node_state option" where
  "ordering_node (Cut h nd) = Some nd"
| "ordering_node (Waiting st nd) = Some nd"
| "ordering_node OrderPanicked = None"

text \<open>The header and the count at the end are those of the stored items.\<close>

definition headed :: "crypto \<Rightarrow> u32 \<Rightarrow> ordering \<Rightarrow> bool" where
  "headed C session out \<longleftrightarrow>
     (case out of
        Cut h nd \<Rightarrow> h = session_header C session (items_of session nd)
      | Waiting st nd \<Rightarrow> st = over C session nd
      | OrderPanicked \<Rightarrow> True)"

lemma left_at_refl: "items_dense session nd \<Longrightarrow> left_at S cfg session index ds nd nd"
  unfolding left_at_def by (intro conjI exI [of _ "[]"] exI [of _ ds]) auto

lemma left_at_Cons:
  assumes l: "left_at S cfg session (index + 1) ds nd1 nd'"
    and step: "\<And>us. cut_run S cfg (d # us) (items_of session nd) (mint_db nd) = cut_run S cfg us (items_of session nd1) (mint_db nd1)"
    and moved: "resume_index nd1 = resume_index nd \<and> items_of session nd1 = items_of session nd \<and> mint_db nd1 = mint_db nd \<or>
      resume_index nd1 = Some (index + 1) \<and> length (items_of session nd1) = length (items_of session nd) + 1"
  shows "left_at S cfg session index (d # ds) nd nd'"
proof -
  from l obtain ys ws where ds: "ds = ys @ ws" and dn: "items_dense session nd'"
    and r: "resume_index nd' = (if ys = [] then resume_index nd1 else Some (index + 1 + of_nat (length ys)))"
    and n: "length (items_of session nd') \<le> length (items_of session nd1) + length ys"
    and us: "\<forall>us. cut_run S cfg (ys @ us) (items_of session nd1) (mint_db nd1) =
              cut_run S cfg us (items_of session nd') (mint_db nd')"
    unfolding left_at_def by blast
  show ?thesis
  proof (cases "ys = [] \<and> resume_index nd1 = resume_index nd \<and> items_of session nd1 = items_of session nd \<and> mint_db nd1 = mint_db nd")
    case True
    then show ?thesis
      unfolding left_at_def using dn r n us by (intro conjI exI [of _ "[]"] exI [of _ "d # ds"]) simp_all
  next
    case False
    have "resume_index nd' = Some (index + of_nat (length (d # ys)))"
      using False moved r by (auto simp: add.assoc split: if_splits)
    moreover have "length (items_of session nd') \<le> length (items_of session nd) + length (d # ys)"
      using n moved by auto
    moreover have "cut_run S cfg ((d # ys) @ vs) (items_of session nd) (mint_db nd) =
        cut_run S cfg vs (items_of session nd') (mint_db nd')" for vs
      using us step [of "ys @ vs"] by simp
    ultimately show ?thesis
      unfolding left_at_def using dn ds by (intro conjI exI [of _ "d # ys"] exI [of _ ws]) simp_all
  qed
qed

lemma order_items_refines:
  assumes "items_dense session nd" "length (items_of session nd) + length ds < 2 ^ 64"
    and "unat index + length ds < 2 ^ 64" "resume_from \<le> index"
  shows "view session (order_items S cfg session resume_from index ds (over (dcrypto S) session nd) nd) =
      cut_run S cfg ds (items_of session nd) (mint_db nd) \<and>
    headed (dcrypto S) session (order_items S cfg session resume_from index ds (over (dcrypto S) session nd) nd) \<and>
    (\<forall>nd'. ordering_node (order_items S cfg session resume_from index ds (over (dcrypto S) session nd) nd) = Some nd' \<longrightarrow>
      left_at S cfg session index ds nd nd')"
  using assms
proof (induction ds arbitrary: nd index)
  case Nil
  then show ?case by (auto simp: over_bytes view_def headed_def over_header intro: left_at_refl)
next
  case (Cons d ds)
  obtain r p i where d: "d = (r, p, i)" using prod_cases3 by blast
  let ?C = "dcrypto S"
  show ?case
  proof (cases "SESSION_OUTCOME_BYTE_TARGET \<le> items_bytes (items_of session nd) \<or> ROUNDS_PER_SESSION \<le> r")
    case True
    with Cons.prems show ?thesis by (auto simp: d over_bytes view_def headed_def over_header intro: left_at_refl)
  next
    case False
    let ?r = "process_consensus_item S cfg p i (mint_db nd)"
    let ?nd1 = "nd\<lparr>rejected := note_rejection ?C (own_identity (onchain_cfg cfg)) p i ?r (rejected nd)\<rparr>"
    have up: "unat (index + 1) = unat index + 1" using Cons.prems(3) by (intro unat_succ) (auto simp: unsigned_minus_1_eq_mask mask_eq_exp_minus_1)
    have nl: "\<not> index < resume_from" using Cons.prems(4) by simp
    have le: "resume_from \<le> index + 1" using Cons.prems(4) up by (simp add: word_le_nat_alt)
    show ?thesis
    proof (cases ?r)
      case (Failed e)
      have same: "items_of session ?nd1 = items_of session nd" "over ?C session ?nd1 = over ?C session nd"
        "items_dense session ?nd1"
        using Cons.prems(1) items_dense_cong [of ?nd1 nd] items_of_cong [of ?nd1 nd] by (simp_all add: over_def)
      have step: "cut_run S cfg (d # us) (items_of session nd) (mint_db nd) = cut_run S cfg us (items_of session nd) (mint_db nd)" for us
        using False Failed by (simp add: d)
      have out: "order_items S cfg session resume_from index (d # ds) (over ?C session nd) nd =
          order_items S cfg session resume_from (index + 1) ds (over ?C session nd) ?nd1"
        using False Failed nl by (simp add: d over_bytes Let_def)
      have l: "left_at S cfg session index (d # ds) nd nd'" if "left_at S cfg session (index + 1) ds ?nd1 nd'" for nd'
        by (rule left_at_Cons [OF that]) (simp_all add: same step)
      from Cons.IH [of ?nd1 "index + 1"] Cons.prems up le same show ?thesis
        unfolding out step using l by simp
    next
      case (Done db)
      define b where "b = ?nd1\<lparr>mint_db := db, resume_index := Some (index + 1)\<rparr>"
      define nd2 where "nd2 = accept_item session (ss_index (over ?C session nd)) (p, i) b"
      have b: "accepted_items b = accepted_items nd" by (simp add: b_def)
      have bd: "items_dense session b" "items_of session b = items_of session nd"
        using Cons.prems(1) items_dense_cong [OF b] items_of_cong [OF b] by simp_all
      have idx: "nd2 = accept_item session (of_nat (length (items_of session b))) (p, i) b"
        by (simp only: nd2_def over_index bd(2))
      have items: "items_of session nd2 = items_of session nd @ [(p, i)]"
        unfolding idx using items_of_accept [OF bd(1)] bd(2) by simp
      have dense: "items_dense session nd2"
        unfolding idx using items_dense_accept [OF bd(1)] bd(2) Cons.prems(2) by simp
      have rows: "mint_db nd2 = db" "resume_index nd2 = Some (index + 1)" by (simp_all add: nd2_def b_def accept_item_def)
      have step: "cut_run S cfg (d # us) (items_of session nd) (mint_db nd) = cut_run S cfg us (items_of session nd2) (mint_db nd2)" for us
        using False Done by (simp add: d items rows)
      have out: "order_items S cfg session resume_from index (d # ds) (over ?C session nd) nd =
          order_items S cfg session resume_from (index + 1) ds (over ?C session nd2) nd2"
        using False Done nl over_accept [OF Cons.prems(1) b, of ?C "(p, i)"] by (simp add: d over_bytes Let_def b_def nd2_def)
      have l: "left_at S cfg session index (d # ds) nd nd'" if "left_at S cfg session (index + 1) ds nd2 nd'" for nd'
        by (rule left_at_Cons [OF that step]) (simp add: items rows)
      from Cons.IH [OF dense, of "index + 1"] Cons.prems up le show ?thesis
        unfolding out step using l by (simp add: items)
    next
      case Panicked
      with False nl show ?thesis by (simp add: d over_bytes view_def headed_def Let_def)
    qed
  qed
qed

section \<open>Crashes\<close>

text \<open>A crash loses what is outside the database.\<close>

definition crash :: "node_state \<Rightarrow> node_state" where
  "crash nd = nd\<lparr>rejected := bt_empty\<rparr>"

definition fresh_session :: "u32 \<Rightarrow> node_state \<Rightarrow> bool" where
  "fresh_session session nd \<longleftrightarrow> resume_index nd = None \<and> (\<forall>k. bt_get (accepted_items nd) (session, k) = None)"

lemma fresh_items:
  assumes "fresh_session session nd"
  shows "items_of session nd = []" "items_dense session nd"
proof -
  have "fst (fst e) \<noteq> session" if e: "e \<in> set (entries (accepted_items nd))" for e
  proof
    assume "fst (fst e) = session"
    then obtain k v where "e = ((session, k), v)" by (metis prod.collapse)
    then have "bt_get (accepted_items nd) (session, k) = Some v" using e by (simp add: bt_get_Some_iff)
    then show False using assms by (simp add: fresh_session_def)
  qed
  then show i: "items_of session nd = []" by (simp add: items_of_def filter_empty_conv)
  show "items_dense session nd" using assms by (simp add: items_dense_def fresh_session_def i)
qed

lemma crash_fields [simp]:
  "mint_db (crash nd) = mint_db nd" "accepted_items (crash nd) = accepted_items nd"
  "resume_index (crash nd) = resume_index nd" "items_of session (crash nd) = items_of session nd"
  "items_dense session (crash nd) = items_dense session nd"
  by (simp_all add: crash_def items_of_def items_dense_def)

lemma order_full:
  "SESSION_OUTCOME_BYTE_TARGET \<le> ss_bytes st \<Longrightarrow> order_items S cfg session rf index ds st nd = Cut (ss_header st) nd"
  by (cases ds) auto

lemma order_skip:
  assumes "\<not> SESSION_OUTCOME_BYTE_TARGET \<le> ss_bytes st"
  shows "unat index + length xs \<le> unat rf \<Longrightarrow>
    order_items S cfg session rf index (xs @ ds) st nd = order_items S cfg session rf (index + of_nat (length xs)) ds st nd"
proof (induction xs arbitrary: index)
  case (Cons x xs)
  obtain r p i where x: "x = (r, p, i)" using prod_cases3 by blast
  have lt: "index < rf" using Cons.prems by (simp add: word_less_nat_alt)
  then have "unat (index + 1) = unat index + 1"
    by (intro unat_succ) auto
  with Cons.prems have "unat (index + 1) + length xs \<le> unat rf" by simp
  from Cons.IH [OF this] lt assms show ?case by (simp add: x add.assoc)
qed simp

text \<open>
  A node that comes back where an earlier run left it, and is delivered a prefix of the session's
  deliveries again: what it has processed already is skipped or rejected again, and the rest is
  processed as it would have been without the crash.
\<close>

lemma left_at_crash [simp]: "left_at S cfg session index ds nd (crash nd') = left_at S cfg session index ds nd nd'"
  by (simp add: left_at_def)

lemma left_at_trans:
  assumes f: "fresh_session session nd0" and nd: "items_dense session nd"
    and r: "resume_index nd = (if ys = [] then None else Some (of_nat (length ys)))"
    and n: "length (items_of session nd) \<le> length ys"
    and us: "\<And>us. cut_run S cfg (ys @ us) [] (mint_db nd0) = cut_run S cfg us (items_of session nd) (mint_db nd)"
    and l: "left_at S cfg session (of_nat (length ys)) vs nd nd2"
  shows "left_at S cfg session 0 (ys @ vs @ ws) nd0 nd2"
proof -
  from l obtain ys2 ws2 where vs: "vs = ys2 @ ws2" and d2: "items_dense session nd2"
    and r2: "resume_index nd2 = (if ys2 = [] then resume_index nd else Some (of_nat (length ys) + of_nat (length ys2)))"
    and n2: "length (items_of session nd2) \<le> length (items_of session nd) + length ys2"
    and us2: "\<forall>us. cut_run S cfg (ys2 @ us) (items_of session nd) (mint_db nd) =
              cut_run S cfg us (items_of session nd2) (mint_db nd2)"
    unfolding left_at_def by blast
  have "resume_index nd2 = (if ys @ ys2 = [] then resume_index nd0 else Some (0 + of_nat (length (ys @ ys2))))"
    using r r2 f by (auto simp: fresh_session_def)
  moreover have "length (items_of session nd2) \<le> length (items_of session nd0) + length (ys @ ys2)"
    using n n2 by simp
  moreover have "cut_run S cfg ((ys @ ys2) @ xs) (items_of session nd0) (mint_db nd0) =
      cut_run S cfg xs (items_of session nd2) (mint_db nd2)" for xs
    using us [of "ys2 @ xs"] us2 fresh_items(1) [OF f] by simp
  ultimately show ?thesis
    unfolding left_at_def using d2 vs by (intro conjI exI [of _ "ys @ ys2"] exI [of _ "ws2 @ ws"]) simp_all
qed

lemma resume_refines:
  assumes f: "fresh_session session nd0" and l: "left_at S cfg session 0 ds nd0 nd"
    and len: "2 * length ds < 2 ^ 64"
  defines "out k \<equiv> order_items_until_cut S cfg session (take k ds) nd"
  shows "view session (out (length ds)) = cut_run S cfg ds [] (mint_db nd0)"
    and "headed (dcrypto S) session (out k)"
    and "ordering_node (out k) = Some nd2 \<Longrightarrow> left_at S cfg session 0 ds nd0 nd2"
    and "ordering_node (out k) = None \<Longrightarrow> cut_run S cfg ds [] (mint_db nd0) = None"
proof -
  from l fresh_items(1) [OF f] f obtain ys ws where ds: "ds = ys @ ws" and d: "items_dense session nd"
    and r: "resume_index nd = (if ys = [] then None else Some (of_nat (length ys)))"
    and n: "length (items_of session nd) \<le> length ys"
    and us: "\<And>us. cut_run S cfg (ys @ us) [] (mint_db nd0) = cut_run S cfg us (items_of session nd) (mint_db nd)"
    unfolding left_at_def by (auto simp: fresh_session_def)
  let ?st = "over (dcrypto S) session nd" and ?i = "of_nat (length ys) :: u64"
  have u: "unat ?i = length ys" using len ds by (simp add: unat_of_nat)
  have out: "out k = order_items S cfg session ?i 0 (take k ds) ?st nd" for k
    by (simp add: out_def order_items_until_cut_def r over_def)
  let ?full = "SESSION_OUTCOME_BYTE_TARGET \<le> ss_bytes ?st"
  have full: "out k = Cut (ss_header ?st) nd" if ?full for k
    unfolding out by (rule order_full [OF that])
  have early: "out k = Waiting ?st nd" if "\<not> ?full" "k \<le> length ys" for k
    using order_skip [OF that(1), of 0 "take k ys" ?i S cfg session "[]" nd] that u
    by (simp add: out ds)
  have late: "out k = order_items S cfg session ?i ?i (take (k - length ys) ws) ?st nd"
    if "\<not> ?full" "length ys \<le> k" for k
    using order_skip [OF that(1), of 0 ys ?i S cfg session "take (k - length ys) ws" nd] that u
    by (simp add: out ds)
  have ref: "view session (order_items S cfg session ?i ?i vs ?st nd) = cut_run S cfg vs (items_of session nd) (mint_db nd)"
    "headed (dcrypto S) session (order_items S cfg session ?i ?i vs ?st nd)"
    "ordering_node (order_items S cfg session ?i ?i vs ?st nd) = Some nd' \<Longrightarrow> left_at S cfg session ?i vs nd nd'"
    if "length vs \<le> length ws" for vs nd'
    using order_items_refines [OF d, of vs ?i ?i S cfg] that n u len ds by auto
  have run: "cut_run S cfg ds [] (mint_db nd0) = cut_run S cfg ws (items_of session nd) (mint_db nd)"
    using us [of ws] by (simp add: ds)
  show "view session (out (length ds)) = cut_run S cfg ds [] (mint_db nd0)"
  proof (cases ?full)
    case True
    then show ?thesis by (simp add: full view_def run cut_run_full over_bytes)
  next
    case False
    then have "out (length ds) = order_items S cfg session ?i ?i ws ?st nd" using late [of "length ds"] by (simp add: ds)
    with ref(1) [of ws] run show ?thesis by simp
  qed
  show "headed (dcrypto S) session (out k)"
  proof (cases "?full \<or> k \<le> length ys")
    case True
    then show ?thesis using full early by (cases ?full) (auto simp: headed_def over_header)
  next
    case False
    then show ?thesis using late [of k] ref(2) [of "take (k - length ys) ws"] by simp
  qed
  show "left_at S cfg session 0 ds nd0 nd2" if o: "ordering_node (out k) = Some nd2"
  proof (cases "?full \<or> k \<le> length ys")
    case True
    then have "nd2 = nd" using o full early by (cases ?full) auto
    then show ?thesis using l by simp
  next
    case False
    let ?vs = "take (k - length ys) ws"
    have "left_at S cfg session ?i ?vs nd nd2"
      using ref(3) [of ?vs nd2] late [of k] False o by simp
    from left_at_trans [OF f d r n us this, of "drop (k - length ys) ws"] show ?thesis by (simp add: ds)
  qed
  show "cut_run S cfg ds [] (mint_db nd0) = None" if o: "ordering_node (out k) = None"
  proof -
    have nf: "\<not> ?full" "\<not> k \<le> length ys" using o full early by (force, force)
    let ?vs = "take (k - length ys) ws"
    have "out k = OrderPanicked" using o by (cases "out k") auto
    then have "cut_run S cfg ?vs (items_of session nd) (mint_db nd) = None"
      using ref(1) [of ?vs] late [of k] nf by (simp add: view_def)
    then show ?thesis
      using cut_run_None_append [of S cfg ?vs _ _ "drop (k - length ys) ws"] by (simp add: run)
  qed
qed

text \<open>
  The lives of a node within a session: in each it is delivered some number of the session's
  deliveries before it crashes.
\<close>

fun lives ::
  "daemon_ops \<Rightarrow> daemon_config \<Rightarrow> u32 \<Rightarrow> delivery list \<Rightarrow> nat list \<Rightarrow> node_state \<Rightarrow> node_state option" where
  "lives S cfg session ds [] nd = Some nd"
| "lives S cfg session ds (k # ks) nd =
     Option.bind (ordering_node (order_items_until_cut S cfg session (take k ds) nd))
       (\<lambda>nd'. lives S cfg session ds ks (crash nd'))"

lemma lives_left_at:
  assumes f: "fresh_session session nd0" and len: "2 * length ds < 2 ^ 64"
    and run: "cut_run S cfg ds [] (mint_db nd0) \<noteq> None"
  shows "left_at S cfg session 0 ds nd0 nd \<Longrightarrow>
    \<exists>nd'. lives S cfg session ds ks nd = Some nd' \<and> left_at S cfg session 0 ds nd0 nd'"
proof (induction ks arbitrary: nd)
  case (Cons k ks)
  obtain nd2 where o: "ordering_node (order_items_until_cut S cfg session (take k ds) nd) = Some nd2"
    using resume_refines(4) [OF f Cons.prems len, of k] run
    by (cases "ordering_node (order_items_until_cut S cfg session (take k ds) nd)") auto
  have "left_at S cfg session 0 ds nd0 (crash nd2)"
    using resume_refines(3) [OF f Cons.prems len o] by simp
  from Cons.IH [OF this] o show ?case by simp
qed simp

end
