(* ===== verification/Session_Close.thy ===== *)
theory Session_Close
  imports Session_Order
begin

text \<open>
  Closing a session: adopting a signed outcome leaves a node where the nodes that ordered the items
  themselves are, collected signatures make a valid outcome, and two valid outcomes of a session
  hold the same items.
\<close>

section \<open>Adoption\<close>

lemma adopt_items_apply:
  "items_dense session nd \<Longrightarrow> length (items_of session nd) + length new < 2 ^ 64 \<Longrightarrow>
   apply_items S cfg new (mint_db nd) = Some db \<Longrightarrow>
   \<exists>nd'. adopt_items S cfg session (of_nat (length (items_of session nd))) new nd = Some nd' \<and>
     items_of session nd' = items_of session nd @ new \<and> mint_db nd' = db \<and>
     session_signatures nd' = session_signatures nd"
proof (induction new arbitrary: nd)
  case (Cons x new)
  obtain p i where x: "x = (p, i)" by fastforce
  from Cons.prems(3) obtain db1 where d: "process_consensus_item S cfg p i (mint_db nd) = Done db1"
    and rest: "apply_items S cfg new db1 = Some db"
    by (auto simp: x split: outcome.splits)
  define b where "b = nd\<lparr>mint_db := db1\<rparr>"
  define nd1 where "nd1 = accept_item session (of_nat (length (items_of session nd))) x b"
  have b: "accepted_items b = accepted_items nd" by (simp add: b_def)
  have bd: "items_dense session b" "items_of session b = items_of session nd"
    using Cons.prems(1) items_dense_cong [OF b] items_of_cong [OF b] by simp_all
  have items: "items_of session nd1 = items_of session nd @ [x]"
    using items_of_accept [OF bd(1), of x] by (simp add: nd1_def bd(2))
  have "items_dense session nd1"
    using items_dense_accept [OF bd(1), of x] Cons.prems(2) by (simp add: nd1_def bd(2))
  moreover have "length (items_of session nd1) + length new < 2 ^ 64" using Cons.prems(2) items by simp
  moreover have "mint_db nd1 = db1" "session_signatures nd1 = session_signatures nd"
    by (simp_all add: nd1_def b_def accept_item_def)
  ultimately obtain nd' where n: "adopt_items S cfg session (of_nat (length (items_of session nd1))) new nd1 = Some nd'"
    "items_of session nd' = items_of session nd1 @ new" "mint_db nd' = db" "session_signatures nd' = session_signatures nd"
    using Cons.IH [of nd1] rest by auto
  have "adopt_items S cfg session (of_nat (length (items_of session nd))) (x # new) nd =
      adopt_items S cfg session (of_nat (length (items_of session nd)) + 1) new nd1"
    using d by (simp add: x nd1_def b_def)
  then have "adopt_items S cfg session (of_nat (length (items_of session nd))) (x # new) nd = Some nd'"
    using n(1) by (simp add: items add.commute)
  with n items show ?case by simp
qed simp

lemma close_rows_Some:
  assumes "\<not> bt_has (session_signatures nd) session"
  shows "\<exists>nd'. close_rows session sigs nd = Some nd' \<and> mint_db nd' = mint_db nd \<and>
    items_of session nd' = items_of session nd \<and> session_signatures nd' = bt_insert session sigs (session_signatures nd) \<and>
    resume_index nd' = None"
  using assms by (simp add: close_rows_def items_of_def)

text \<open>
  Whatever part of the session's deliveries a node has processed, and however often it crashed on
  the way, the adopted outcome takes it to the end of the session.
\<close>

lemma adoption_reaches_end:
  assumes f: "fresh_session session nd0" and l: "left_at S cfg session 0 ds nd0 nd"
    and run: "cut_run S cfg ds [] (mint_db nd0) = Some (c, items, db)" and len: "length ds < 2 ^ 63"
    and open_row: "\<not> bt_has (session_signatures nd) session"
  shows "\<exists>nd'. finalize_session S cfg session (Adopted \<lparr>so_items = items, so_signatures = sigs\<rparr>) nd = Some nd' \<and>
    mint_db nd' = db \<and> items_of session nd' = items \<and>
    session_signatures nd' = bt_insert session sigs (session_signatures nd) \<and> resume_index nd' = None"
proof -
  from l fresh_items(1) [OF f] obtain ys ws where ds: "ds = ys @ ws" and d: "items_dense session nd"
    and n: "length (items_of session nd) \<le> length ys"
    and us: "\<And>us. cut_run S cfg (ys @ us) [] (mint_db nd0) = cut_run S cfg us (items_of session nd) (mint_db nd)"
    unfolding left_at_def by auto
  have "cut_run S cfg ws (items_of session nd) (mint_db nd) = Some (c, items, db)" using run us [of ws] ds by simp
  from cut_run_apply [OF this] obtain new where items: "items = items_of session nd @ new"
    and nl: "length new \<le> length ws" and ap: "apply_items S cfg new (mint_db nd) = Some db" by blast
  have "length (items_of session nd) + length new < 2 ^ 64" using n nl len ds by simp
  from adopt_items_apply [OF d this ap] obtain nd1 where
    ad: "adopt_items S cfg session (of_nat (length (items_of session nd))) new nd = Some nd1"
    and nd1: "items_of session nd1 = items" "mint_db nd1 = db" "session_signatures nd1 = session_signatures nd"
    using items by auto
  have fin: "finalize_session S cfg session (Adopted \<lparr>so_items = items, so_signatures = sigs\<rparr>) nd = close_rows session sigs nd1"
    using items ad by (simp add: finalize_session_def Let_def)
  show ?thesis
    unfolding fin using close_rows_Some [of nd1 session sigs] open_row nd1 by simp
qed

section \<open>Signatures\<close>

text \<open>Every signature of the map is one of its node's over the header.\<close>

definition signed_by_all :: "crypto \<Rightarrow> keychain \<Rightarrow> u32 \<Rightarrow> hash256 \<Rightarrow> (node_id, bytes) btmap \<Rightarrow> bool" where
  "signed_by_all C kc session header sigs \<longleftrightarrow>
     (\<forall>p s. bt_get sigs p = Some s \<longrightarrow> keychain_verify C kc session (enc_hash header) s p)"

lemma collect_signatures_Some:
  assumes "collect_signatures C kc session header need ms sigs = Some sigs'" "bt_len sigs \<le> need"
    and "signed_by_all C kc session header sigs"
  shows "bt_len sigs' = need \<and> signed_by_all C kc session header sigs'"
  using assms
proof (induction ms arbitrary: sigs)
  case Nil
  then show ?case by (auto split: if_splits)
next
  case (Cons m ms)
  obtain p s where m: "m = (p, s)" by fastforce
  show ?case
  proof (cases "bt_len sigs < need")
    case False
    with Cons.prems show ?thesis by (auto simp: m)
  next
    case True
    let ?sigs = "if keychain_verify C kc session (enc_hash header) s p then bt_insert p s sigs else sigs"
    have "bt_len ?sigs \<le> need" using True bt_len_insert_le [of p s sigs] by simp
    moreover have "signed_by_all C kc session header ?sigs"
      using Cons.prems(3) by (simp add: signed_by_all_def)
    ultimately show ?thesis using Cons True by (simp add: m split: if_splits)
  qed
qed

lemma validate_iff:
  "validate_session_outcome C sk cfg session out = Some b \<longleftrightarrow>
     (\<exists>n. daemon_nodes cfg = Some n \<and>
        (b \<longleftrightarrow> bt_len (so_signatures out) = threshold n \<and>
           signed_by_all C (build_keychain sk cfg) session (session_header C session (so_items out)) (so_signatures out)))"
  by (auto simp: validate_session_outcome_def signed_by_all_def bt_get_Some_iff list_all_iff Let_def)

text \<open>
  The public keys are the configuration's, so that what one node collects the others accept: a
  node's secret key plays no part in checking.
\<close>

lemma keychain_verify_pubkeys:
  "keychain_verify C (build_keychain sk cfg) s v sig p = keychain_verify C (build_keychain sk' cfg) s v sig p"
  by (simp add: keychain_verify_def build_keychain_def)

lemma collected_validates:
  assumes c: "collect_threshold_signatures C sk cfg session (session_header C session items) ms = Some sigs"
    and own: "keychain_verify C (build_keychain sk cfg) session (enc_hash (session_header C session items))
      (keychain_sign C (build_keychain sk cfg) session (enc_hash (session_header C session items))) (own_identity (onchain_cfg cfg))"
  shows "validate_session_outcome C sk' cfg session \<lparr>so_items = items, so_signatures = sigs\<rparr> = Some True"
proof -
  let ?h = "session_header C session items"
  let ?first = "bt_insert (own_identity (onchain_cfg cfg)) (keychain_sign C (build_keychain sk cfg) session (enc_hash ?h)) bt_empty"
  from c obtain n where n: "daemon_nodes cfg = Some n"
    and col: "collect_signatures C (build_keychain sk cfg) session ?h (threshold n) ms ?first = Some sigs"
    by (auto simp: collect_threshold_signatures_def Let_def bind_eq_Some_conv)
  have "bt_len ?first \<le> threshold n" by (simp add: bt_len_insert threshold_def)
  moreover have "signed_by_all C (build_keychain sk cfg) session ?h ?first"
    using own by (simp add: signed_by_all_def)
  ultimately have "bt_len sigs = threshold n \<and> signed_by_all C (build_keychain sk cfg) session ?h sigs"
    using collect_signatures_Some [OF col] by simp
  then show ?thesis
    using n keychain_verify_pubkeys [of C sk cfg _ _ _ _ sk'] by (simp add: validate_iff signed_by_all_def)
qed

section \<open>Headers bind the items\<close>

definition header_preimages :: "crypto \<Rightarrow> u32 \<Rightarrow> ordered_item list \<Rightarrow> bytes set" where
  "header_preimages C session xs =
     insert (enc_u32 session)
       ((\<lambda>k. enc_hash (session_header C session (take k xs)) @ enc_accepted_item (xs ! k)) ` {0..<length xs})"

lemma session_header_snoc:
  "session_header C session (xs @ [x]) = sha256 C (enc_hash (session_header C session xs) @ enc_accepted_item x)"
  by (simp add: session_header_def fold_header_def)

lemma header_preimages_snoc:
  "header_preimages C session (xs @ [x]) =
     insert (enc_hash (session_header C session xs) @ enc_accepted_item x) (header_preimages C session xs)"
proof -
  have "(\<lambda>k. enc_hash (session_header C session (take k (xs @ [x]))) @ enc_accepted_item ((xs @ [x]) ! k)) ` {0..<length xs} =
      (\<lambda>k. enc_hash (session_header C session (take k xs)) @ enc_accepted_item (xs ! k)) ` {0..<length xs}"
    by (rule image_cong) (auto simp: nth_append)
  then show ?thesis by (auto simp: header_preimages_def atLeast0_lessThan_Suc)
qed

lemma header_preimage_base: "enc_u32 s \<noteq> enc_hash h @ r"
proof
  assume "enc_u32 s = enc_hash h @ r"
  then have "length (enc_u32 s) = length (enc_hash h @ r)" by (rule arg_cong)
  then show False by (simp add: enc_hash_def)
qed

text \<open>What the header is the hash of.\<close>

definition last_preimage :: "crypto \<Rightarrow> u32 \<Rightarrow> ordered_item list \<Rightarrow> bytes" where
  "last_preimage C session xs =
     (if xs = [] then enc_u32 session
      else enc_hash (session_header C session (butlast xs)) @ enc_accepted_item (last xs))"

lemma session_header_last: "session_header C session xs = sha256 C (last_preimage C session xs)"
  by (cases xs rule: rev_cases) (simp_all add: last_preimage_def session_header_snoc, simp add: session_header_def)

lemma last_preimage_in: "last_preimage C session xs \<in> header_preimages C session xs"
  by (cases xs rule: rev_cases) (simp_all add: last_preimage_def header_preimages_snoc, simp add: header_preimages_def)

lemma session_header_binds:
  assumes "inj_on (sha256 C) (header_preimages C s xs \<union> header_preimages C s' ys)"
    and "list_all (ok_item \<circ> snd) xs" "list_all (ok_item \<circ> snd) ys"
    and "session_header C s xs = session_header C s' ys"
  shows "s = s' \<and> xs = ys"
  using assms
proof (induction xs arbitrary: ys rule: rev_induct)
  case Nil
  have "last_preimage C s [] = last_preimage C s' ys"
    by (rule inj_onD [OF Nil.prems(1)]) (use Nil.prems(4) last_preimage_in in \<open>auto simp: session_header_last\<close>)
  then show ?case
    using header_preimage_base u32c.enc_inj [of s s'] by (auto simp: last_preimage_def split: if_splits)
next
  case (snoc x xs)
  have eq: "last_preimage C s (xs @ [x]) = last_preimage C s' ys"
    by (rule inj_onD [OF snoc.prems(1)]) (use snoc.prems(4) last_preimage_in in \<open>auto simp: session_header_last\<close>)
  show ?case
  proof (cases ys rule: rev_cases)
    case Nil
    with eq show ?thesis using header_preimage_base by (auto simp: last_preimage_def dest: sym)
  next
    case (snoc ys' y)
    note ys = snoc
    from eq have h: "session_header C s xs = session_header C s' ys'" and e: "enc_accepted_item x = enc_accepted_item y"
      by (simp_all add: last_preimage_def ys)
    have xy: "x = y" using prefix_code_inj [OF accepted_item_code _ _ e] snoc.prems(2,3) ys by simp
    have "inj_on (sha256 C) (header_preimages C s xs \<union> header_preimages C s' ys')"
      by (rule inj_on_subset [OF snoc.prems(1)]) (auto simp: ys header_preimages_snoc)
    with snoc.IH [of ys'] snoc.prems(2,3) ys h xy show ?thesis by simp
  qed
qed

section \<open>Agreement on the outcome\<close>

text \<open>
  An honest node signs one header in a session, and no one else can sign for it: every session
  signature that verifies under its key is over that header.
\<close>

definition signs_once :: "crypto \<Rightarrow> daemon_config \<Rightarrow> u32 \<Rightarrow> node_id \<Rightarrow> bool" where
  "signs_once C cfg session c \<longleftrightarrow>
     (\<exists>h. \<forall>h' sig. keychain_verify C (build_keychain [] cfg) session (enc_hash h') sig c \<longrightarrow> h' = h)"

lemma signers_quorum:
  assumes n: "daemon_nodes cfg = Some n" and H: "honest_set n H"
    and keys: "\<And>p. bt_get (broadcast_pks cfg) p \<noteq> None \<Longrightarrow> p \<in> set (node_ids n)"
    and v: "validate_session_outcome C sk cfg session out = Some True"
  shows "mint_quorum n H {p. bt_get (so_signatures out) p \<noteq> None}"
proof -
  from v n have len: "bt_len (so_signatures out) = threshold n"
    and sig: "signed_by_all C (build_keychain sk cfg) session (session_header C session (so_items out)) (so_signatures out)"
    by (auto simp: validate_iff)
  have "p \<in> set (node_ids n)" if "bt_get (so_signatures out) p = Some s" for p s
    using sig that
    by (intro keys) (auto simp: signed_by_all_def keychain_verify_def build_keychain_def split: option.splits)
  then show ?thesis using H len by (auto simp: mint_quorum_def is_quorum_def bt_len_card simp del: not_None_eq)
qed

lemma validated_headers_agree:
  assumes n: "daemon_nodes cfg = Some n" and H: "honest_set n H" "\<forall>c \<in> H. signs_once C cfg session c"
    and keys: "\<And>p. bt_get (broadcast_pks cfg) p \<noteq> None \<Longrightarrow> p \<in> set (node_ids n)"
    and v: "validate_session_outcome C sk cfg session out = Some True"
    and v': "validate_session_outcome C sk' cfg session out' = Some True"
  shows "session_header C session (so_items out) = session_header C session (so_items out')"
proof -
  obtain c where c: "bt_get (so_signatures out) c \<noteq> None" "bt_get (so_signatures out') c \<noteq> None" "c \<in> H"
    using mq.honest_intersection [OF signers_quorum [OF n H(1) keys v] signers_quorum [OF n H(1) keys v']] by auto
  from H(2) c(3) obtain h where
    "\<forall>h' sig. keychain_verify C (build_keychain [] cfg) session (enc_hash h') sig c \<longrightarrow> h' = h"
    unfolding signs_once_def by blast
  then have h: "keychain_verify C (build_keychain [] cfg) session (enc_hash h') sig c \<Longrightarrow> h' = h" for h' sig by blast
  have "session_header C session (so_items x) = h"
    if "validate_session_outcome C key cfg session x = Some True" "bt_get (so_signatures x) c \<noteq> None" for x key
  proof -
    from that obtain sig where "keychain_verify C (build_keychain key cfg) session
        (enc_hash (session_header C session (so_items x))) sig c"
      by (auto simp: validate_iff signed_by_all_def)
    then show ?thesis using h keychain_verify_pubkeys [of C key cfg _ _ _ _ "[]"] by blast
  qed
  with v v' c show ?thesis by metis
qed

section \<open>Units and headers are signed apart\<close>

text \<open>
  Units and session headers are signed with the same key, both behind the session. A unit never
  encodes to the 32 bytes of a header.
\<close>

lemma length_enc_btmap:
  "(\<And>k. length (ek k) = a) \<Longrightarrow> (\<And>v. length (ev v) = b) \<Longrightarrow> length (enc_btmap ek ev m) = 4 + (a + b) * bt_len m"
  by (simp add: enc_btmap_def enc_len_def bt_len_def length_concat comp_def split_def sum_list_triv)

lemma length_enc_unit: "length (enc_unit u) \<noteq> 32"
proof -
  have "length (enc_unit u) = 10 + 33 * bt_len (parents u) + (case data u of None \<Rightarrow> 0 | Some d \<Rightarrow> 32)"
    by (cases "data u") (simp_all add: enc_unit_def length_enc_btmap [where a = 1 and b = 32] enc_hash_def enc_len_def)
  moreover have "10 + 33 * n + (case x of None \<Rightarrow> 0 | Some d \<Rightarrow> 32) \<noteq> (32 :: nat)" for n and x :: "hash256 option"
    by (cases x) (simp, presburger, simp)
  ultimately show ?thesis by simp
qed

section \<open>Proposed payloads\<close>

lemma take_data_spec:
  assumes "take_data items queue = (items', rest)"
    and "items = [] \<or> length (enc_vec enc_consensus_item items) < BFT_UNIT_BYTE_TARGET"
  shows "items @ queue = items' @ rest \<and>
    (rest \<noteq> [] \<longrightarrow> BFT_UNIT_BYTE_TARGET \<le> length (enc_vec enc_consensus_item items')) \<and>
    (items' = [] \<or> length (enc_vec enc_consensus_item (butlast items')) < BFT_UNIT_BYTE_TARGET)"
  using assms
proof (induction items queue rule: take_data.induct)
  case (1 items)
  have "length (enc_vec enc_consensus_item (butlast items)) \<le> length (enc_vec enc_consensus_item items)"
    by (cases items rule: rev_cases) (simp_all add: enc_vec_def enc_len_def)
  with 1 show ?case by auto
next
  case (2 items x queue)
  have e: "length (enc_vec enc_consensus_item []) < BFT_UNIT_BYTE_TARGET"
    by (simp add: enc_vec_def enc_len_def BFT_UNIT_BYTE_TARGET_def)
  show ?case
  proof (cases "BFT_UNIT_BYTE_TARGET \<le> length (enc_vec enc_consensus_item (items @ [x]))")
    case True
    with 2 e show ?thesis by (auto simp: Let_def)
  next
    case False
    with 2 show ?thesis by (simp add: Let_def)
  qed
qed

end
