(* ===== verification/Mint_Sample.thy ===== *)
theory Mint_Sample
  imports Session_Close
begin

text \<open>
  A sample mint of four nodes with foreign operations that compute, and a short history of it: a
  note is swapped for a smaller one, nodes vote on the chain's height, a block is tracked. The
  properties of the server are applied to it.
\<close>

section \<open>Operations and configuration\<close>

text \<open>
  Hashes count bytes, a node's signature is its key, a client's any 64 bytes, and tweaks leave keys
  as they are.
\<close>

definition mint_crypto :: crypto where
  "mint_crypto =
     \<lparr>sha256 = (\<lambda>bs. of_nat (length bs mod 2 ^ 32)), sign_schnorr = (\<lambda>k d. k), verify_schnorr = (\<lambda>s d p. s = p \<or> length s = 64)\<rparr>"

definition mint_tbs :: tbs_ops where
  "mint_tbs = \<lparr>nonce_from_public_key = ucast, tbs_verify = (\<lambda>n s k. s = 0), sign_nonce = (\<lambda>b k. b)\<rparr>"

definition mint_wallet_ops :: wallet_ops where
  "mint_wallet_ops =
     \<lparr>add_exp_tweak = (\<lambda>k t. Some k), add_tweak = (\<lambda>k t. Some k), x_only = ucast,
      new_p2tr = (\<lambda>k. [1]), new_p2pkh = (\<lambda>h. [2]), new_p2sh = (\<lambda>h. [3]), new_p2wpkh = (\<lambda>h. [4]), new_p2wsh = (\<lambda>h. [5]),
      is_p2tr = (\<lambda>s. s = [1]), compute_txid = (\<lambda>t. of_nat (length (btc_inputs t))),
      taproot_sighash = (\<lambda>t ps i. Some (of_nat i)),
      tss_verify_share = (\<lambda>m p k s col agg. s = 1), tss_aggregate = (\<lambda>m col ss agg. 1),
      tss_verify = (\<lambda>m s k. s = 1), tss_sign_share = (\<lambda>m sk n col p k. 1),
      derive_nonce = (\<lambda>h. []), derive_public_nonce = (\<lambda>bs. 0)\<rparr>"

definition mint_ops :: daemon_ops where
  "mint_ops = \<lparr>dcrypto = mint_crypto, dtbs = mint_tbs, dwallet = mint_wallet_ops\<rparr>"

lemma mint_ops_fields [simp]: "dcrypto mint_ops = mint_crypto" "dtbs mint_ops = mint_tbs" "dwallet mint_ops = mint_wallet_ops"
  by (simp_all add: mint_ops_def)

definition mint_cfg :: daemon_config where
  "mint_cfg =
     \<lparr>broadcast_pks = bt_of_list [(0, [0]), (1, [1]), (2, [2]), (3, [3])],
      default_version = ConsensusVersion 1 0,
      ecash_cfg = \<lparr>tbs_agg_pks = bt_of_list [(9, 0), (10, 0)], tbs_sks = bt_of_list [(9, 0), (10, 0)]\<rparr>,
      onchain_cfg = \<lparr>onchain_pks = bt_of_list [(0, 1), (1, 1), (2, 1), (3, 1)], onchain_agg_pk = 1,
        onchain_sks = 1, own_identity = 0\<rparr>\<rparr>"

definition empty_onchain :: onchain_db where
  "empty_onchain =
     \<lparr>tracked_outputs = bt_empty, block_height = None, block_votes = bt_empty, spent_outputs = bt_empty,
      mint_row = None, tx_infos = bt_empty, tx_info_index = bt_empty, unsigned_row = None, nonce_log = bt_empty,
      share_rows = bt_empty, unconfirmed = bt_empty, feerate_votes = bt_empty\<rparr>"

definition empty_lightning :: lightning_db where
  "empty_lightning =
     \<lparr>incoming_contracts = bt_empty, outgoing_contracts = bt_empty, preimages = bt_empty,
      incoming_payments = bt_empty, gateways_table = bt_empty, stream_next_index = None,
      contract_stream = bt_empty, contract_index = bt_empty\<rparr>"

definition genesis :: daemon_db where
  "genesis =
     \<lparr>ecash_tables = \<lparr>note_nonces = bt_empty, blinded_nonces = bt_empty, signature_shares_table = bt_empty,
        restore_shares = bt_empty\<rparr>,
      lightning_tables = empty_lightning, onchain_tables = empty_onchain, accepted_txids = bt_empty,
      height_votes = bt_empty, version_votes = bt_empty\<rparr>"

lemma nat_mint: "to_num_nodes (broadcast_pks mint_cfg) = Some (NumNodes 1)"
  "to_num_nodes (onchain_pks (onchain_cfg mint_cfg)) = Some (NumNodes 1)"
  by (simp_all add: mint_cfg_def to_num_nodes_def bt_of_list_def bt_len_def num_nodes_from_def allowed_mint_sizes_def)

lemma mint_node_ids: "set (node_ids (NumNodes 1)) = {0, 1, 2, 3}"
  by code_simp

lemma mint_threshold: "threshold (NumNodes 1) = 3" "total (NumNodes 1) = 4"
  by (simp_all add: threshold_def total_def)

lemma mint_config_ok: "config_ok mint_cfg (NumNodes 1)"
  using nat_mint mint_node_ids by (simp add: config_ok_def daemon_nodes_def) (simp add: mint_cfg_def bt_of_list_def)

lemma mint_hash_small: "unat (sha256 mint_crypto bs) < CURVE_ORDER"
proof -
  have "(length bs mod 2 ^ 32) mod 2 ^ 256 \<le> length bs mod 2 ^ 32" by (rule mod_less_eq_dividend)
  also have "\<dots> < 2 ^ 32" by simp
  finally show ?thesis by (simp add: mint_crypto_def CURVE_ORDER_def unat_of_nat)
qed

lemma mint_hashes_usable: "hashes_usable mint_crypto mint_wallet_ops (onchain_cfg mint_cfg)"
  using mint_hash_small
  by (auto simp: hashes_usable_def hashed_def tweaked_agg_pk_def tweaked_pks_def tweak_public_key_def mint_wallet_ops_def)

lemma mint_sighash_total: "sighash_total mint_wallet_ops"
  by (simp add: sighash_total_def mint_wallet_ops_def)

lemma mint_world_ok: "world_ok mint_ops mint_cfg (NumNodes 1)"
  using mint_config_ok mint_hashes_usable mint_sighash_total
  by (simp add: world_ok_def mint_ops_def) (simp add: mint_cfg_def CONSENSUS_VERSION_def)

lemma genesis_ok: "daemon_ok mint_ops mint_cfg (NumNodes 1) genesis"
proof -
  have "server_block_height mint_cfg genesis = Some 0"
    using nat_mint by (simp add: server_block_height_def daemon_nodes_def consensus_block_height_def genesis_def
        bt_values_def Let_def)
  moreover have "onchain_ok mint_crypto mint_wallet_ops (onchain_cfg mint_cfg) (NumNodes 1) empty_onchain"
    by (simp add: onchain_ok_def chain_ok_def links_ok_def blocks_ok_def signing_ok_def tweaks_ok_def fees_ok_def empty_onchain_def
        pending_txs_unordered_def bt_values_def)
  ultimately show ?thesis
    by (simp add: daemon_ok_def modules_ok_def votes_ok_def contracts_ok_def fresh_from_def ecash_ok_def stream_ok_def
        mint_ops_def) (simp add: genesis_def empty_lightning_def empty_onchain_def)
qed

section \<open>A short history\<close>

text \<open>A note of denomination 10 for one of denomination 9, the rest in fees.\<close>

definition swap_tx :: transaction where
  "swap_tx =
     \<lparr>tx_inputs = [EcashIn (EcashInput \<lparr>denomination = 10, nonce = 7, note_sig = 0\<rparr>)],
      tx_outputs = [EcashOut (EcashOutput 9 5)], tx_signatures = [0]\<rparr>"

lemma swap_id: "compute_tx_id mint_crypto swap_tx = 140"
  by (simp add: compute_tx_id_def swap_tx_def mint_crypto_def enc_vec_def enc_len_def enc_note_def enc_hash_def)

definition swapped :: daemon_db where
  "swapped = genesis
     \<lparr>ecash_tables := \<lparr>note_nonces = bs_insert 7 bt_empty, blinded_nonces = bt_insert 5 9 bt_empty,
        signature_shares_table = bt_insert (OutPoint 140 0) 5 bt_empty, restore_shares = bt_insert 5 5 bt_empty\<rparr>,
      accepted_txids := bs_insert 140 bt_empty\<rparr>"

lemma swap_accepted: "process_consensus_item mint_ops mint_cfg 2 (TxItem swap_tx) genesis = Done swapped"
proof -
  let ?db1 = "genesis\<lparr>ecash_tables := (ecash_tables genesis)\<lparr>note_nonces := bs_insert 7 bt_empty\<rparr>\<rparr>"
  have i: "ecash_process_input mint_tbs (ecash_cfg mint_cfg) (EcashInput \<lparr>denomination = 10, nonce = 7, note_sig = 0\<rparr>)
      (ecash_tables genesis) = Done ((Amount 1024, 7), (ecash_tables genesis)\<lparr>note_nonces := bs_insert 7 bt_empty\<rparr>)"
    by (simp add: mint_cfg_def genesis_def bt_has_def bt_of_list_def Let_def verify_note_def mint_tbs_def
        denomination_amount_def)
  let ?e1 = "(ecash_tables genesis)\<lparr>note_nonces := bs_insert 7 bt_empty\<rparr>"
  have o: "ecash_process_output mint_tbs (ecash_cfg mint_cfg) (EcashOutput 9 5) (OutPoint 140 0) ?e1 =
      Done (Amount 512, ecash_tables swapped)"
    by (simp add: mint_cfg_def genesis_def swapped_def bt_has_def bt_of_list_def Let_def mint_tbs_def denomination_amount_def)
  have sig: "validate_signatures mint_crypto swap_tx [7] = Done ()"
    by (simp add: validate_signatures_def swap_tx_def mint_crypto_def)
  let ?v = "\<lparr>fv_inputs = Amount 1024, fv_outputs = Amount 0, fv_fees = Amount 100\<rparr>"
  have "add_input (Amount 1024) (Amount 100) funding_default = Done ?v"
    by (simp add: add_input_def funding_default_def amount_checked_add_def checked_add_def amount_zero_def ok_or_def)
  then have ins: "ofold (input_step mint_ops mint_cfg) (tx_inputs swap_tx) (funding_default, [], genesis) =
      Done (?v, [7], genesis\<lparr>ecash_tables := ?e1\<rparr>)"
    using i by (simp add: swap_tx_def input_step_def ECASH_INPUT_FEE_def)
  let ?w = "\<lparr>fv_inputs = Amount 1024, fv_outputs = Amount 512, fv_fees = Amount 200\<rparr>"
  have "add_output (Amount 512) (Amount 100) ?v = Done ?w"
    by (simp add: add_output_def amount_checked_add_def checked_add_def ok_or_def)
  then have outs: "ofold (output_step mint_ops mint_cfg 140) (indexed_outputs swap_tx) (?v, genesis\<lparr>ecash_tables := ?e1\<rparr>) =
      Done (?w, genesis\<lparr>ecash_tables := ecash_tables swapped\<rparr>)"
    using o by (simp add: swap_tx_def indexed_outputs_def output_step_def ECASH_OUTPUT_FEE_def)
  have fund: "verify_funding ?w = Done ()"
    by (simp add: verify_funding_def amount_checked_add_def checked_add_def ok_or_def ensure_def)
  have sizes: "tx_inputs swap_tx \<noteq> []" "tx_outputs swap_tx \<noteq> []" "length (tx_inputs swap_tx) \<le> MAX_INPUTS"
    "length (tx_outputs swap_tx) \<le> MAX_OUTPUTS" "length (tx_signatures swap_tx) = length (tx_inputs swap_tx)"
    by (simp_all add: swap_tx_def MAX_INPUTS_def MAX_OUTPUTS_def)
  have tx: "process_tx mint_ops mint_cfg swap_tx genesis = Done (genesis\<lparr>ecash_tables := ecash_tables swapped\<rparr>)"
    using sizes by (simp add: process_tx_def Let_def swap_id ins sig outs fund)
  show ?thesis
    using tx swap_id by (simp add: Let_def) (simp add: genesis_def swapped_def bt_has_def)
qed

text \<open>Votes on the height of the chain, a third of which starts the tracking.\<close>

definition history :: "ordered_item list" where
  "history =
     [(2, TxItem swap_tx), (0, TxItem swap_tx), (0, BlockHeightItem 9), (1, BlockHeightItem 8),
      (2, BlockHeightItem 7), (2, BlockHeightItem 6)]"

definition tracking :: daemon_db where
  "tracking = swapped
     \<lparr>height_votes := bt_insert 2 7 (bt_insert 1 8 (bt_insert 0 9 bt_empty)),
      onchain_tables := empty_onchain\<lparr>block_height := Some 7\<rparr>\<rparr>"

lemma mint_nodes [simp]: "daemon_nodes mint_cfg = Some (NumNodes 1)"
  using nat_mint by (simp add: daemon_nodes_def)

lemma mint_height:
  "server_block_height mint_cfg db =
     (let heights = rev (sort (bt_values (height_votes db)))
      in if length heights \<le> 4 then Some (if 2 < length heights then heights ! 2 else 0) else None)"
  by (simp add: server_block_height_def consensus_block_height_def threshold_def total_def Let_def)

lemma swap_replayed: "process_consensus_item mint_ops mint_cfg 0 (TxItem swap_tx) swapped = Failed TxAlreadyAccepted"
  using swap_id by (simp add: Let_def) (simp add: swapped_def bt_has_def)

definition voted1 :: daemon_db where "voted1 = swapped\<lparr>height_votes := bt_insert 0 9 bt_empty\<rparr>"

definition voted2 :: daemon_db where "voted2 = swapped\<lparr>height_votes := bt_insert 1 8 (bt_insert 0 9 bt_empty)\<rparr>"

definition voted3 :: daemon_db where
  "voted3 = swapped\<lparr>height_votes := bt_insert 2 7 (bt_insert 1 8 (bt_insert 0 9 bt_empty))\<rparr>"

lemma mint_heights:
  "server_block_height mint_cfg swapped = Some 0" "server_block_height mint_cfg voted1 = Some 0"
  "server_block_height mint_cfg voted2 = Some 0" "server_block_height mint_cfg voted3 = Some 7"
  "server_block_height mint_cfg tracking = Some 7"
  by (simp_all add: mint_height bt_len_def bt_values_def swapped_def genesis_def voted1_def voted2_def voted3_def tracking_def)

lemma mint_votes:
  "raise_vote 0 0 9 (height_votes swapped) = Some (height_votes voted1)"
  "raise_vote 0 1 8 (height_votes voted1) = Some (height_votes voted2)"
  "raise_vote 0 2 7 (height_votes voted2) = Some (height_votes voted3)"
  "raise_vote 0 2 6 (height_votes tracking) = None"
  by (simp_all add: raise_vote_def swapped_def genesis_def voted1_def voted2_def voted3_def tracking_def)

lemma mint_voted:
  "swapped\<lparr>height_votes := height_votes voted1\<rparr> = voted1" "voted1\<lparr>height_votes := height_votes voted2\<rparr> = voted2"
  "voted2\<lparr>height_votes := height_votes voted3\<rparr> = voted3"
  "voted3\<lparr>onchain_tables := initialize_block_height 0 7 (onchain_tables voted3)\<rparr> = tracking"
  by (simp_all add: voted1_def voted2_def voted3_def tracking_def initialize_block_height_def swapped_def genesis_def)

lemma mint_height_votes:
  "process_height_vote mint_cfg 0 9 swapped = Done voted1" "process_height_vote mint_cfg 1 8 voted1 = Done voted2"
  "process_height_vote mint_cfg 2 7 voted2 = Done tracking"
  "process_height_vote mint_cfg 2 6 tracking = Failed RedundantHeight"
  by (simp_all add: process_height_vote_def Let_def expect_def ok_or_def assert_that_def mint_heights mint_votes mint_voted)

lemma history_run:
  "run_items mint_ops mint_cfg history genesis =
     Some ([(2, TxItem swap_tx), (0, BlockHeightItem 9), (1, BlockHeightItem 8), (2, BlockHeightItem 7)], tracking)"
  by (simp add: history_def swap_accepted swap_replayed mint_height_votes del: process_consensus_item.simps(1))

lemma history_nodes: "from_nodes (NumNodes 1) history"
  by (simp add: from_nodes_def history_def mint_node_ids [simplified])

lemma history_weight: "used genesis + run_weight history + threshold (NumNodes 1) < 2 ^ 64"
  by (simp add: run_weight_def history_def swap_tx_def threshold_def used_def onchain_used_def genesis_def empty_onchain_def
      empty_lightning_def stream_next_def)

end
