(* ===== verification/Mint_Claims.thy ===== *)
theory Mint_Claims
  imports Mint_Sample
begin

text \<open>
  The properties of the mint's server over whole runs of ordered items: what is kept, what is never
  spent or signed twice, and that the mint stays solvent.
\<close>

section \<open>Accepted transactions\<close>

definition accepted_tx :: "daemon_db \<Rightarrow> hash256 \<Rightarrow> bool" where
  "accepted_tx db = bt_has (accepted_txids db)"

fun item_txids :: "daemon_ops \<Rightarrow> consensus_item \<Rightarrow> hash256 list" where
  "item_txids S (TxItem tx) = [compute_tx_id (dcrypto S) tx]"
| "item_txids S i = []"

lemma process_tx_accepted:
  assumes d: "process_tx S cfg tx db = Done db'"
  shows "accepted_txids db' = accepted_txids db"
  using d
proof (rule process_tx_Done)
  fix v pks db1 v'
  assume i: "ofold (input_step S cfg) (tx_inputs tx) (funding_default, [], db) = Done (v, pks, db1)"
    and out: "ofold (output_step S cfg (compute_tx_id (dcrypto S) tx)) (indexed_outputs tx) (v, db1) = Done (v', db')"
  have "accepted_txids db1 = accepted_txids db"
    by (rule inputs_inv [OF _ _ i]) (auto simp: same_votes_def dest: process_input_same)
  moreover have "case (v', db') of (v, db) \<Rightarrow> accepted_txids db = accepted_txids db1"
    by (rule ofold_inv [OF _ _ out]) (auto simp: output_step_Done same_votes_def dest!: process_output_same)
  ultimately show ?thesis by simp
qed

lemma item_accepts:
  assumes d: "process_consensus_item S cfg p i db = Done db'"
  shows "adds_fresh accepted_tx (item_txids S i) db db'"
proof (cases i)
  case (TxItem tx)
  with d obtain db1 where "\<not> bt_has (accepted_txids db) (compute_tx_id (dcrypto S) tx)"
    "process_tx S cfg tx db = Done db1"
    "db' = db1\<lparr>accepted_txids := bs_insert (compute_tx_id (dcrypto S) tx) (accepted_txids db1)\<rparr>"
    by (auto simp: Let_def obind_Done_iff split: if_splits)
  with process_tx_accepted [of S cfg tx db db1] TxItem show ?thesis
    by (auto simp: adds_fresh_def accepted_tx_def bt_has_insert)
next
  case (ModuleItem m)
  with d show ?thesis by (auto simp: adds_fresh_Nil accepted_tx_def obind_Done_iff)
next
  case (BlockHeightItem v)
  with d show ?thesis by (auto simp: adds_fresh_Nil accepted_tx_def elim!: process_height_vote_Done split: if_splits)
next
  case (VersionItem v)
  with d show ?thesis by (auto simp: adds_fresh_Nil accepted_tx_def process_version_vote_def obind_Done_iff Let_def)
qed

lemma run_accepts:
  "run_items S cfg xs db = Some (acc, db') \<Longrightarrow> adds_fresh accepted_tx (concat (map (item_txids S \<circ> snd) acc)) db db'"
  by (rule run_items_inv [where I = "\<lambda>x. adds_fresh accepted_tx (item_txids S (snd x))"])
    (auto simp: adds_fresh_Nil item_accepts intro: adds_fresh_append)

text \<open>What the accepted items of a run spend, claim and have signed.\<close>

definition run_notes :: "ordered_item list \<Rightarrow> xonly list" where
  "run_notes acc = concat (map (item_keys input_notes (\<lambda>_. []) \<circ> snd) acc)"

definition run_deposits :: "ordered_item list \<Rightarrow> u64 list" where
  "run_deposits acc = concat (map (item_keys input_deposits (\<lambda>_. []) \<circ> snd) acc)"

definition run_nonces :: "ordered_item list \<Rightarrow> blinded_nonce list" where
  "run_nonces acc = concat (map (item_keys (\<lambda>_. []) output_nonces \<circ> snd) acc)"

definition run_txids :: "daemon_ops \<Rightarrow> ordered_item list \<Rightarrow> hash256 list" where
  "run_txids S acc = concat (map (item_txids S \<circ> snd) acc)"

section \<open>Properties of runs\<close>

text \<open>
  C3. Solvency. Over any run of ordered items, what the mint owes for issued ecash and locked
  contracts grows by at most what the wallet gained and the run redeemed, less the fees the accepted
  transactions paid: no sequence of items creates value.
\<close>

theorem mint_solvent:
  assumes "run_items S cfg xs db = Some (acc, db')" "daemon_ok S cfg n db" "config_ok cfg n" "from_nodes n xs"
    and "used db + run_weight xs + threshold n < 2 ^ 64"
  shows "liabilities db' + run_fees acc + holdings db \<le> liabilities db + holdings db' + run_redeemed acc"
  using run_ok [OF assms] by (rule conjunct2)

theorem mint_solvent_witness:
  "liabilities tracking + 200 + holdings genesis \<le> liabilities genesis + holdings tracking + 1024"
proof -
  let ?acc = "[(2, TxItem swap_tx), (0, BlockHeightItem 9), (1, BlockHeightItem 8), (2, BlockHeightItem 7)] :: ordered_item list"
  have "run_fees ?acc = 200" "run_redeemed ?acc = 1024"
    by (simp_all add: run_fees_def run_redeemed_def tx_fees_def redeemed_by_def swap_tx_def ECASH_INPUT_FEE_def
        ECASH_OUTPUT_FEE_def denomination_amount_def)
  with mint_solvent [OF history_run genesis_ok mint_config_ok history_nodes history_weight] show ?thesis by simp
qed

text \<open>
  C10. The invariant of the database. A run keeps the whole state well formed: the signed nonces and
  their shares, the stream of incoming contracts and its index, the wallet's transaction chain, the
  block votes, the signing log, the votes of the nodes, and that contracts stem from accepted
  transactions.
\<close>

theorem run_keeps_invariant:
  assumes "run_items S cfg xs db = Some (acc, db')" "daemon_ok S cfg n db" "config_ok cfg n" "from_nodes n xs"
    and "used db + run_weight xs + threshold n < 2 ^ 64"
  shows "daemon_ok S cfg n db'"
  using run_ok [OF assms] by (rule conjunct1)

theorem run_keeps_invariant_witness: "daemon_ok mint_ops mint_cfg (NumNodes 1) tracking"
  by (rule run_keeps_invariant [OF history_run genesis_ok mint_config_ok history_nodes history_weight])

text \<open>
  C7. No double spend. The notes the accepted transactions of a run redeem are pairwise different and
  none was spent before, and afterwards exactly they and the old ones are spent.
\<close>

theorem no_double_spend:
  assumes "run_items S cfg xs db = Some (acc, db')"
  shows "distinct (run_notes acc) \<and> (\<forall>k \<in> set (run_notes acc). \<not> spent_note db k) \<and>
    (\<forall>k. spent_note db' k \<longleftrightarrow> spent_note db k \<or> k \<in> set (run_notes acc))"
  using spent_notes.run_adds [OF assms] by (simp add: adds_fresh_def run_notes_def)

theorem no_double_spend_witness: "spent_note tracking 7 \<and> \<not> spent_note tracking 8"
  using no_double_spend [OF history_run]
  by (simp add: run_notes_def swap_tx_def) (simp add: spent_note_def genesis_def bt_has_def)

text \<open>
  C30. No blinded nonce is signed twice, and no deposit is claimed twice: over a run each is fresh,
  and afterwards exactly they and the old ones are taken.
\<close>

theorem no_double_claim:
  assumes "run_items S cfg xs db = Some (acc, db')"
  shows "distinct (run_deposits acc) \<and> (\<forall>k \<in> set (run_deposits acc). \<not> claimed_deposit db k) \<and>
    (\<forall>k. claimed_deposit db' k \<longleftrightarrow> claimed_deposit db k \<or> k \<in> set (run_deposits acc)) \<and>
    distinct (run_nonces acc) \<and> (\<forall>k \<in> set (run_nonces acc). \<not> signed_nonce db k) \<and>
    (\<forall>k. signed_nonce db' k \<longleftrightarrow> signed_nonce db k \<or> k \<in> set (run_nonces acc))"
  using claimed_deposits.run_adds [OF assms] signed_nonces.run_adds [OF assms]
  by (simp add: adds_fresh_def run_deposits_def run_nonces_def)

theorem no_double_claim_witness: "signed_nonce tracking 5 \<and> \<not> signed_nonce tracking 6 \<and> \<not> claimed_deposit tracking 0"
  using no_double_claim [OF history_run]
  by (simp add: run_nonces_def run_deposits_def swap_tx_def)
    (simp add: signed_nonce_def claimed_deposit_def genesis_def empty_onchain_def bt_has_def)

text \<open>
  A transaction is accepted once: the ids of the transactions a run accepts are pairwise different
  and were not accepted before, and afterwards exactly they and the old ones are accepted.
\<close>

theorem accepted_once:
  assumes "run_items S cfg xs db = Some (acc, db')"
  shows "distinct (run_txids S acc) \<and> (\<forall>t \<in> set (run_txids S acc). \<not> accepted_tx db t) \<and>
    (\<forall>t. accepted_tx db' t \<longleftrightarrow> accepted_tx db t \<or> t \<in> set (run_txids S acc))"
  using run_accepts [OF assms] by (simp add: adds_fresh_def run_txids_def)

theorem accepted_once_witness: "accepted_tx tracking 140 \<and> \<not> accepted_tx tracking 139"
  using accepted_once [OF history_run]
  by (simp add: run_txids_def swap_id) (simp add: accepted_tx_def genesis_def bt_has_def)

end
