(* ===== verification/Vote_Claims.thy ===== *)
theory Vote_Claims
  imports Mint_Sample
begin

text \<open>
  The properties of the votes outside the modules: what height and version a table of votes agrees
  on, that Byzantine nodes alone move neither, and when a node halts on a version it cannot run.
\<close>

text \<open>
  The agreed block height. The consensus height is the highest that a threshold of nodes has
  reached: it is at least \<open>v\<close> exactly when \<open>v\<close> is zero or a threshold of nodes voted for \<open>v\<close> or more.
\<close>

theorem agreed_height:
  assumes "consensus_block_height n votes = Some h"
  shows "v \<le> h \<longleftrightarrow> v = 0 \<or> threshold n \<le> votes_for (\<lambda>x. v \<le> x) votes"
  by (rule consensus_block_height_ge [OF assms])

theorem agreed_height_witness:
  "threshold (NumNodes 1) \<le> votes_for (\<lambda>x. 7 \<le> x) (height_votes tracking) \<and>
   \<not> threshold (NumNodes 1) \<le> votes_for (\<lambda>x. 8 \<le> x) (height_votes tracking)"
proof -
  have h: "consensus_block_height (NumNodes 1) (height_votes tracking) = Some 7"
    using mint_heights(5) by (simp add: server_block_height_def)
  show ?thesis using agreed_height [OF h, of 7] agreed_height [OF h, of 8] by simp
qed

text \<open>
  Byzantine nodes cannot run ahead. A height the mint agrees on was reached by an honest node,
  and a version above the configured one was announced by an honest node, whatever at most \<open>f\<close>
  nodes vote.
\<close>

theorem agreed_by_honest:
  assumes "small_mint n" "honest_set n H" "votes_by n heights" "votes_by n versions"
    and "consensus_block_height n heights = Some h" "h \<noteq> 0"
    and "consensus_version n d versions = Some v" "d < v"
  shows "(\<exists>p \<in> H. \<exists>x. bt_get heights p = Some x \<and> h \<le> x) \<and>
    (\<exists>p \<in> H. \<exists>x. bt_get versions p = Some x \<and> v \<le> x)"
  using height_honest [OF assms(1-3,5,6)] version_honest [OF assms(1,2,4,7,8)] by (rule conjI)

definition upgrade_votes :: "(node_id, consensus_version) btmap" where
  "upgrade_votes = bt_insert 2 (ConsensusVersion 1 2) (bt_insert 1 (ConsensusVersion 1 1) (bt_insert 0 (ConsensusVersion 1 1) bt_empty))"

lemma upgrade_version: "consensus_version (NumNodes 1) (ConsensusVersion 1 0) upgrade_votes = Some (ConsensusVersion 1 1)"
  by (simp add: consensus_version_def upgrade_votes_def bt_values_def bt_len_def total_def less_eq_consensus_version_def
      less_consensus_version_def numeral_eq_Suc)

lemma mint_honest: "honest_set (NumNodes 1) {0, 1, 2}"
  using mint_node_ids by (simp add: honest_set_def small_mint_def total_def)

theorem agreed_by_honest_witness:
  "\<exists>p \<in> {0, 1, 2}. \<exists>x. bt_get upgrade_votes p = Some x \<and> ConsensusVersion 1 1 \<le> x"
proof -
  have h: "consensus_block_height (NumNodes 1) (height_votes tracking) = Some 7"
    using mint_heights(5) by (simp add: server_block_height_def)
  have "votes_by (NumNodes 1) (height_votes tracking)" "votes_by (NumNodes 1) upgrade_votes"
    by (simp_all add: votes_by_def tracking_def upgrade_votes_def mint_node_ids [simplified])
  from agreed_by_honest [OF _ mint_honest this h _ upgrade_version] show ?thesis
    by (simp add: small_mint_def total_def less_consensus_version_def)
qed

text \<open>
  A node halts exactly when it must. Processing a version vote panics exactly when the vote
  raises the node's last one and, with it, a threshold of nodes has announced a version this binary
  cannot run.
\<close>

theorem version_halts_iff:
  assumes ok: "votes_ok cfg n db" and cfg: "config_ok cfg n" and p: "p \<in> set (node_ids n)"
    and d: "default_version cfg \<le> CONSENSUS_VERSION"
  shows "process_version_vote cfg p v db = Panicked \<longleftrightarrow>
    raise_vote (default_version cfg) p v (version_votes db) \<noteq> None \<and>
    threshold n \<le> votes_for (\<lambda>x. \<not> x \<le> CONSENSUS_VERSION) (bt_insert p v (version_votes db))"
    (is "?l \<longleftrightarrow> ?r")
proof
  assume ?l
  then have "raise_vote (default_version cfg) p v (version_votes db) \<noteq> None"
    by (auto simp: process_version_vote_def obind_Panicked_iff)
  moreover have "\<not> votes_for (\<lambda>x. \<not> x \<le> CONSENSUS_VERSION) (bt_insert p v (version_votes db)) < threshold n"
    using process_version_vote_no_panic [OF ok cfg p d] \<open>?l\<close> by blast
  ultimately show ?r by simp
next
  let ?votes = "bt_insert p v (version_votes db)"
  assume r: ?r
  then have raise: "raise_vote (default_version cfg) p v (version_votes db) = Some ?votes"
    using raise_vote_Some by blast
  have n: "daemon_nodes cfg = Some n" using cfg by (simp add: config_ok_def)
  then have "small_mint n" using num_nodes_from_total by (auto simp: daemon_nodes_def to_num_nodes_def)
  moreover have "votes_by n ?votes" using ok p by (auto simp: votes_ok_def intro: votes_by_insert)
  ultimately have len: "bt_len ?votes \<le> total n" by (rule votes_by_len)
  then obtain a where a: "consensus_version n (default_version cfg) ?votes = Some a"
    using consensus_version_total by blast
  have "votes_for (\<lambda>x. x \<le> CONSENSUS_VERSION) ?votes + votes_for (\<lambda>x. \<not> x \<le> CONSENSUS_VERSION) ?votes = bt_len ?votes"
    using sum_length_filter_compl [of "\<lambda>x. x \<le> CONSENSUS_VERSION" "bt_values ?votes"] by (simp add: votes_for_def)
  moreover have "2 * max_evil n + 1 \<le> votes_for (\<lambda>x. \<not> x \<le> CONSENSUS_VERSION) ?votes" "bt_len ?votes \<le> 3 * max_evil n + 1"
    using r len by (simp_all add: total_def threshold_def)
  ultimately have "votes_for (\<lambda>x. x \<le> CONSENSUS_VERSION) ?votes + (total n - bt_len ?votes) \<le> max_evil n"
    unfolding total_def by linarith
  then have "\<not> a \<le> CONSENSUS_VERSION"
    using d consensus_version_le [OF a, of CONSENSUS_VERSION] by simp
  then show ?l
    using raise a n by (simp add: process_version_vote_def ok_or_def server_version_def expect_def assert_that_def Let_def)
qed

definition half_upgraded :: daemon_db where
  "half_upgraded = genesis\<lparr>version_votes := bt_insert 1 (ConsensusVersion 1 1) (bt_insert 0 (ConsensusVersion 1 1) bt_empty)\<rparr>"

theorem version_halts_iff_witness:
  "process_version_vote mint_cfg 2 (ConsensusVersion 1 2) half_upgraded = Panicked \<and>
   process_version_vote mint_cfg 2 (ConsensusVersion 1 2) genesis \<noteq> Panicked"
proof -
  have h: "server_block_height mint_cfg genesis = Some 0" "server_block_height mint_cfg half_upgraded = Some 0"
    by (simp_all add: mint_height genesis_def half_upgraded_def bt_values_def bt_len_def)
  have ok: "votes_ok mint_cfg (NumNodes 1) half_upgraded" "votes_ok mint_cfg (NumNodes 1) genesis"
    unfolding votes_ok_def using h
    by (simp_all add: half_upgraded_def genesis_def votes_by_def mint_node_ids [simplified] empty_onchain_def)
  have d: "default_version mint_cfg = ConsensusVersion 1 0" by (simp add: mint_cfg_def)
  have p: "2 \<in> set (node_ids (NumNodes 1))" by (simp add: mint_node_ids [simplified])
  have le: "default_version mint_cfg \<le> CONSENSUS_VERSION" by (simp add: d CONSENSUS_VERSION_def)
  note I = version_halts_iff [OF _ mint_config_ok p le]
  show ?thesis
    unfolding I [OF ok(1)] I [OF ok(2)]
    by (simp add: d raise_vote_def half_upgraded_def genesis_def votes_for_def bt_values_def threshold_def
        CONSENSUS_VERSION_def less_eq_consensus_version_def less_consensus_version_def)
qed

end
