(* ===== verification/Wallet_Claims.thy ===== *)
theory Wallet_Claims
  imports Mint_Sample
begin

text \<open>
  The properties of the mint's Bitcoin wallet: what deposits and withdrawals move and pay, the chain
  of its transactions, the tracking of blocks, and the signing sessions.
\<close>

section \<open>A funded wallet\<close>

definition funded :: onchain_db where
  "funded = empty_onchain
     \<lparr>tracked_outputs := bt_insert 0 \<lparr>tr_outpoint = BtcOutPoint 4 1, tr_out = \<lparr>to_value = 50000, script_pubkey = [1]\<rparr>\<rparr> bt_empty,
      block_height := Some 5,
      mint_row := Some \<lparr>mu_value = 1000000, mu_outpoint = BtcOutPoint 3 0, mu_tweak = 1\<rparr>,
      feerate_votes := bt_insert 2 (Some 1000) (bt_insert 1 (Some 1000) (bt_insert 0 (Some 1000) bt_empty))\<rparr>"

abbreviation wcfg :: onchain_config where "wcfg \<equiv> onchain_cfg mint_cfg"

lemma funded_feerate:
  "feerate_votes db = feerate_votes funded \<Longrightarrow> (consensus_feerate wcfg db :: ('e, u32 option) outcome) = Done (Some 1000)"
  using nat_mint(2)
  by (simp add: consensus_feerate_def onchain_nodes_def expect_def funded_def bt_values_def assert_that_def total_def
      threshold_def List.map_filter_def Let_def)

lemma funded_fee:
  assumes "feerate_votes db = feerate_votes funded" "pending_txs_unordered db = []"
  shows "(consensus_fee wcfg db vb :: ('e, sats option) outcome) = Done (Some (saturating_mul vb 1000 div 1000))"
  by (simp add: consensus_fee_def assms funded_feerate [OF assms(1)] assert_that_def ONCHAIN_FEERATE_BASE_def Let_def
      expect_def max_def)

lemma mint_scripts: "script_pubkey_of mint_wallet_ops wcfg (sha256 mint_crypto bs) = Some [1]"
  using mint_hash_small [of bs]
  by (simp add: script_pubkey_of_def tweaked_script_pubkey_def tweaked_output_key_def tweak_public_key_def mint_wallet_ops_def)

lemma mint_txid [simp]: "compute_txid mint_wallet_ops t = of_nat (length (btc_inputs t))"
  and mint_p2wpkh [simp]: "new_p2wpkh mint_wallet_ops h = [4]"
  by (simp_all add: mint_wallet_ops_def)

lemma mint_wallet_tx:
  "(wallet_tx mint_crypto mint_wallet_ops wcfg w ins outs change :: ('e, btc_tx) outcome) =
     Done \<lparr>btc_inputs = map unsigned_input (mu_outpoint w # ins),
           btc_outputs = \<lparr>to_value = change, script_pubkey = [1]\<rparr> # outs\<rparr>"
  by (simp add: wallet_tx_def expect_def utxo_hash_def mint_scripts)

definition withdrawal :: onchain_output where
  "withdrawal = \<lparr>destination = P2WPKH 9, oo_value = 20000, oo_fee = 5000\<rparr>"

definition deposit :: onchain_input where
  "deposit = \<lparr>output_index = 0, oi_tweak = 6, oi_fee = 4000\<rparr>"

definition withdrawn :: onchain_db where
  "withdrawn =
     (let wallet = \<lparr>mu_value = 1000000, mu_outpoint = BtcOutPoint 3 0, mu_tweak = 1\<rparr>;
          tx = \<lparr>btc_inputs = [unsigned_input (BtcOutPoint 3 0)],
            btc_outputs = [\<lparr>to_value = 975000, script_pubkey = [1]\<rparr>, \<lparr>to_value = 20000, script_pubkey = [4]\<rparr>]\<rparr>
      in (wallet_rows mint_crypto mint_wallet_ops wallet tx [] 975000 SEND_TX_VBYTES 5000 7 (funded\<lparr>mint_row := None\<rparr>))
           \<lparr>tx_info_index := bt_insert (OutPoint 140 0) 0 bt_empty\<rparr>)"

lemma withdrawal_accepted:
  "onchain_process_output mint_crypto mint_wallet_ops wcfg (Some 7) withdrawal (OutPoint 140 0) funded =
     Done (Amount 25000000, withdrawn)"
proof -
  let ?db = "funded\<lparr>mint_row := None\<rparr>"
  have f: "(send_fee wcfg ?db :: (onchain_output_error, sats option) outcome) = Done (Some 154)"
    using funded_fee [of ?db SEND_TX_VBYTES, where 'e = onchain_output_error]
    by (simp add: send_fee_def SEND_TX_VBYTES_def saturating_mul_def pending_txs_unordered_def)
      (simp add: funded_def empty_onchain_def bt_values_def)
  have row: "mint_row funded = Some \<lparr>mu_value = 1000000, mu_outpoint = BtcOutPoint 3 0, mu_tweak = 1\<rparr>"
    "unsigned_row funded = None" "tx_infos funded = bt_empty" "tx_info_index funded = bt_empty"
    by (simp_all add: funded_def empty_onchain_def)
  show ?thesis
    unfolding onchain_process_output_def row withdrawal_def
    by (simp add: f row ONCHAIN_DUST_LIMIT_def ok_or_def Let_def checked_add_def checked_sub_def checked_mul_def
        mint_wallet_tx expect_def withdrawn_def unsigned_input_def wallet_rows_def total_txs_def next_index_def bt_last_def)
qed

definition deposited :: onchain_db where
  "deposited =
     (let db = funded\<lparr>spent_outputs := bs_insert 0 bt_empty\<rparr>;
          wallet = \<lparr>mu_value = 1000000, mu_outpoint = BtcOutPoint 3 0, mu_tweak = 1\<rparr>;
          tx = \<lparr>btc_inputs = [unsigned_input (BtcOutPoint 3 0), unsigned_input (BtcOutPoint 4 1)],
            btc_outputs = [\<lparr>to_value = 1046000, script_pubkey = [1]\<rparr>]\<rparr>
      in wallet_rows mint_crypto mint_wallet_ops wallet tx [\<lparr>st_value = 50000, st_tweak = tweak_hash mint_crypto 6\<rparr>]
           1046000 RECEIVE_TX_VBYTES 4000 7 db)"

lemma deposit_accepted:
  "onchain_process_input mint_crypto mint_wallet_ops wcfg (Some 7) deposit funded = Done ((Amount 46000000, 6), deposited)"
proof -
  let ?db = "funded\<lparr>spent_outputs := bs_insert 0 (spent_outputs funded)\<rparr>"
  have f: "(receive_fee wcfg ?db :: (onchain_input_error, sats option) outcome) = Done (Some 169)"
    using funded_fee [of ?db RECEIVE_TX_VBYTES, where 'e = onchain_input_error]
    by (simp add: receive_fee_def RECEIVE_TX_VBYTES_def saturating_mul_def pending_txs_unordered_def)
      (simp add: funded_def empty_onchain_def bt_values_def)
  have row: "mint_row funded = Some \<lparr>mu_value = 1000000, mu_outpoint = BtcOutPoint 3 0, mu_tweak = 1\<rparr>"
    "unsigned_row funded = None" "tx_infos funded = bt_empty" "spent_outputs funded = bt_empty"
    "bt_get (tracked_outputs funded) 0 =
       Some \<lparr>tr_outpoint = BtcOutPoint 4 1, tr_out = \<lparr>to_value = 50000, script_pubkey = [1]\<rparr>\<rparr>"
    by (simp_all add: funded_def empty_onchain_def)
  have scr: "script_pubkey_of mint_wallet_ops wcfg (tweak_hash mint_crypto 6) = Some [1]"
    by (simp add: tweak_hash_def mint_scripts)
  show ?thesis
    unfolding onchain_process_input_def deposit_def
    using f by (simp add: row scr bt_has_def ok_or_def Let_def checked_add_def checked_sub_def checked_mul_def receive_into_def
        mint_wallet_tx expect_def deposited_def unsigned_input_def wallet_rows_def total_txs_def next_index_def bt_last_def)
qed

section \<open>Deposits and withdrawals\<close>

text \<open>
  C26. Withdrawals are exact. A withdrawal takes from the wallet exactly what it charges the
  transaction, the value sent and the fee, and with its fee the whole stack of pending wallet
  transactions pays the feerate the mint requires at its depth.
\<close>

theorem withdrawal_exact:
  assumes "onchain_process_output C W cfg h x p db = Done (a, db')"
  shows "1000 * wallet_sats db = 1000 * wallet_sats db' + amount_nat a \<and>
    amount_nat a = 1000 * (unat (oo_value x) + unat (oo_fee x)) \<and>
    unat ONCHAIN_DUST_LIMIT \<le> wallet_sats db' \<and> stack_paid cfg db db'"
proof -
  have "amount_nat a = 1000 * (unat (oo_value x) + unat (oo_fee x)) \<and> unat ONCHAIN_DUST_LIMIT \<le> wallet_sats db'"
    using assms
    by (rule onchain_output_Done)
      (auto simp: wallet_sats_def wallet_rows_def word_le_nat_alt dest!: checked_mul_SomeD checked_add_SomeD)
  then show ?thesis using onchain_output_value [OF assms] onchain_output_paid [OF assms] by simp
qed

theorem withdrawal_exact_witness: "wallet_sats withdrawn = 975000 \<and> stack_paid wcfg funded withdrawn"
  using withdrawal_exact [OF withdrawal_accepted] by (simp add: wallet_sats_def funded_def withdrawal_def)

text \<open>
  Deposits are covered. A deposit claims an unclaimed tracked output under the key it was sent to,
  credits the transaction with no more than the wallet gains, and a deposit that is spent into the
  wallet pays for the stack of pending transactions.
\<close>

theorem deposit_covered:
  assumes "onchain_process_input C W cfg h i db = Done ((a, pk), db')"
  shows "\<not> bt_has (spent_outputs db) (output_index i) \<and> bt_has (spent_outputs db') (output_index i) \<and>
    (\<exists>t. bt_get (tracked_outputs db) (output_index i) = Some t \<and>
       script_pubkey_of W cfg (tweak_hash C pk) = Some (script_pubkey (tr_out t)) \<and>
       amount_nat a + 1000 * unat (oi_fee i) = 1000 * unat (to_value (tr_out t))) \<and>
    1000 * wallet_sats db + amount_nat a \<le> 1000 * wallet_sats db' \<and>
    (mint_row db \<noteq> None \<longrightarrow> stack_paid cfg db db')"
proof -
  have "\<exists>t. bt_get (tracked_outputs db) (output_index i) = Some t \<and>
       script_pubkey_of W cfg (tweak_hash C pk) = Some (script_pubkey (tr_out t)) \<and>
       amount_nat a + 1000 * unat (oi_fee i) = 1000 * unat (to_value (tr_out t))"
    using assms
    by (rule onchain_input_Done) (auto dest!: checked_mul_SomeD checked_sub_SomeD)
  then show ?thesis
    using onchain_input_spent [OF assms] onchain_input_value [OF assms] onchain_input_paid [OF assms]
    by (simp add: bt_has_def)
qed

theorem deposit_covered_witness:
  "bt_has (spent_outputs deposited) 0 \<and> 1046000 \<le> wallet_sats deposited \<and> stack_paid wcfg funded deposited"
proof -
  have "mint_row funded \<noteq> None" "wallet_sats funded = 1000000" by (simp_all add: funded_def wallet_sats_def)
  then show ?thesis using deposit_covered [OF deposit_accepted] by (simp add: deposit_def)
qed

section \<open>A wallet in use\<close>

text \<open>
  A mint whose wallet has made one transaction, which is confirmed, and that holds an unclaimed
  deposit; the next accepted transaction claims the deposit for a note.
\<close>

definition first_info :: tx_info where
  "first_info = \<lparr>ti_index = 0, ti_txid = 3, ti_input = 1025000, ti_output = 1000000, ti_fee = 5000, ti_vbytes = SEND_TX_VBYTES,
     created = 2\<rparr>"

definition deposit_tx :: transaction where
  "deposit_tx = \<lparr>tx_inputs = [OnchainIn deposit], tx_outputs = [EcashOut (EcashOutput 9 5)], tx_signatures = [6]\<rparr>"

definition in_use_onchain :: onchain_db where
  "in_use_onchain = funded\<lparr>tx_infos := bt_insert 0 first_info bt_empty\<rparr>"

definition claimed_onchain :: onchain_db where
  "claimed_onchain =
     (let db = in_use_onchain\<lparr>spent_outputs := bs_insert 0 bt_empty\<rparr>;
          wallet = \<lparr>mu_value = 1000000, mu_outpoint = BtcOutPoint 3 0, mu_tweak = 1\<rparr>;
          tx = \<lparr>btc_inputs = [unsigned_input (BtcOutPoint 3 0), unsigned_input (BtcOutPoint 4 1)],
            btc_outputs = [\<lparr>to_value = 1046000, script_pubkey = [1]\<rparr>]\<rparr>
      in wallet_rows mint_crypto mint_wallet_ops wallet tx [\<lparr>st_value = 50000, st_tweak = tweak_hash mint_crypto 6\<rparr>]
           1046000 RECEIVE_TX_VBYTES 4000 7 db)"

lemma deposit_claimed:
  "onchain_process_input mint_crypto mint_wallet_ops wcfg (Some 7) deposit in_use_onchain =
     Done ((Amount 46000000, 6), claimed_onchain)"
proof -
  let ?db = "in_use_onchain\<lparr>spent_outputs := bs_insert 0 (spent_outputs in_use_onchain)\<rparr>"
  have f: "(receive_fee wcfg ?db :: (onchain_input_error, sats option) outcome) = Done (Some 169)"
    using funded_fee [of ?db RECEIVE_TX_VBYTES, where 'e = onchain_input_error]
    by (simp add: receive_fee_def RECEIVE_TX_VBYTES_def saturating_mul_def pending_txs_unordered_def in_use_onchain_def)
      (simp add: funded_def empty_onchain_def bt_values_def)
  have row: "mint_row in_use_onchain = Some \<lparr>mu_value = 1000000, mu_outpoint = BtcOutPoint 3 0, mu_tweak = 1\<rparr>"
    "unsigned_row in_use_onchain = None" "spent_outputs in_use_onchain = bt_empty"
    "bt_get (tracked_outputs in_use_onchain) 0 =
       Some \<lparr>tr_outpoint = BtcOutPoint 4 1, tr_out = \<lparr>to_value = 50000, script_pubkey = [1]\<rparr>\<rparr>"
    by (simp_all add: in_use_onchain_def funded_def empty_onchain_def)
  have scr: "script_pubkey_of mint_wallet_ops wcfg (tweak_hash mint_crypto 6) = Some [1]"
    by (simp add: tweak_hash_def mint_scripts)
  show ?thesis
    unfolding onchain_process_input_def deposit_def
    using f by (simp add: row scr bt_has_def ok_or_def Let_def checked_add_def checked_sub_def checked_mul_def receive_into_def
        mint_wallet_tx expect_def claimed_onchain_def unsigned_input_def wallet_rows_def)
qed

definition in_use :: daemon_db where
  "in_use = genesis\<lparr>onchain_tables := in_use_onchain,
     height_votes := bt_insert 2 7 (bt_insert 1 7 (bt_insert 0 7 bt_empty))\<rparr>"

lemma in_use_ok: "daemon_ok mint_ops mint_cfg (NumNodes 1) in_use"
proof -
  have h: "server_block_height mint_cfg in_use = Some 7"
    by (simp add: mint_height in_use_def genesis_def bt_values_def)
  have t: "hashed mint_crypto 1" unfolding hashed_def by (rule exI [of _ "[0]"]) (simp add: mint_crypto_def)
  have v: "votes_by (NumNodes 1) (height_votes in_use)"
  proof -
    have "height_votes in_use = bt_insert 2 7 (bt_insert 1 7 (bt_insert 0 7 bt_empty))" by (simp add: in_use_def)
    then show ?thesis using mint_node_ids by (simp only: votes_by_insert votes_by_empty insert_iff simp_thms)
  qed
  have c: "chain_ok in_use_onchain"
    by (simp add: chain_ok_def in_use_onchain_def dense_def bt_len_def bt_keys_def total_txs_def next_index_def bt_last_def first_info_def
        funded_def bt_get_insert split: if_splits)
  have "onchain_ok mint_crypto mint_wallet_ops (onchain_cfg mint_cfg) (NumNodes 1) in_use_onchain"
    using c t mint_node_ids
    by (simp add: onchain_ok_def in_use_onchain_def links_ok_def blocks_ok_def signing_ok_def tweaks_ok_def fees_ok_def funded_def
        empty_onchain_def pending_txs_unordered_def bt_values_def dense_def bt_len_def bt_keys_def votes_by_def)
  then show ?thesis using h v
    by (simp add: daemon_ok_def modules_ok_def votes_ok_def contracts_ok_def fresh_from_def ecash_ok_def stream_ok_def
        mint_ops_def) (simp add: in_use_def in_use_onchain_def funded_def genesis_def empty_lightning_def empty_onchain_def)
qed

definition claimed :: daemon_db where
  "claimed = in_use
     \<lparr>onchain_tables := claimed_onchain,
      ecash_tables := \<lparr>note_nonces = bt_empty, blinded_nonces = bt_insert 5 9 bt_empty,
        signature_shares_table = bt_insert (OutPoint (compute_tx_id mint_crypto deposit_tx) 0) 5 bt_empty,
        restore_shares = bt_insert 5 5 bt_empty\<rparr>,
      accepted_txids := bs_insert (compute_tx_id mint_crypto deposit_tx) bt_empty\<rparr>"

lemma deposit_tx_accepted: "process_consensus_item mint_ops mint_cfg 2 (TxItem deposit_tx) in_use = Done claimed"
proof -
  let ?id = "compute_tx_id mint_crypto deposit_tx"
  let ?db1 = "in_use\<lparr>onchain_tables := claimed_onchain\<rparr>"
  have fee: "ONCHAIN_INPUT_FEE = Amount 10000"
    by (simp add: ONCHAIN_INPUT_FEE_def amount_from_sat_def)
  have h: "server_block_height mint_cfg in_use = Some 7"
    by (simp add: mint_height in_use_def genesis_def bt_values_def)
  have t: "onchain_tables in_use = in_use_onchain" "ecash_tables in_use = ecash_tables genesis"
    by (simp_all add: in_use_def)
  have o: "ecash_process_output mint_tbs (ecash_cfg mint_cfg) (EcashOutput 9 5) (OutPoint ?id 0) (ecash_tables genesis) =
      Done (Amount 512, ecash_tables claimed)"
    by (simp add: mint_cfg_def genesis_def claimed_def bt_has_def bt_of_list_def Let_def mint_tbs_def denomination_amount_def)
  have sig: "validate_signatures mint_crypto deposit_tx [6] = Done ()"
    by (simp add: validate_signatures_def deposit_tx_def mint_crypto_def enc_int_def ensure_def)
  let ?v = "\<lparr>fv_inputs = Amount 46000000, fv_outputs = Amount 0, fv_fees = Amount 10000\<rparr>"
  have "add_input (Amount 46000000) ONCHAIN_INPUT_FEE funding_default = Done ?v"
    by (simp add: add_input_def funding_default_def amount_checked_add_def checked_add_def amount_zero_def ok_or_def fee)
  then have ins: "ofold (input_step mint_ops mint_cfg) (tx_inputs deposit_tx) (funding_default, [], in_use) = Done (?v, [6], ?db1)"
    using deposit_claimed by (simp add: deposit_tx_def input_step_def h t fee)
  let ?w = "\<lparr>fv_inputs = Amount 46000000, fv_outputs = Amount 512, fv_fees = Amount 10100\<rparr>"
  have "add_output (Amount 512) ECASH_OUTPUT_FEE ?v = Done ?w"
    by (simp add: add_output_def amount_checked_add_def checked_add_def ok_or_def ECASH_OUTPUT_FEE_def)
  then have outs: "ofold (output_step mint_ops mint_cfg ?id) (indexed_outputs deposit_tx) (?v, ?db1) =
      Done (?w, ?db1\<lparr>ecash_tables := ecash_tables claimed\<rparr>)"
    using o by (simp add: deposit_tx_def indexed_outputs_def output_step_def t)
  have fund: "verify_funding ?w = Done ()"
    by (simp add: verify_funding_def amount_checked_add_def checked_add_def ok_or_def ensure_def)
  have sizes: "tx_inputs deposit_tx \<noteq> []" "tx_outputs deposit_tx \<noteq> []" "length (tx_inputs deposit_tx) \<le> MAX_INPUTS"
    "length (tx_outputs deposit_tx) \<le> MAX_OUTPUTS" "length (tx_signatures deposit_tx) = length (tx_inputs deposit_tx)"
    by (simp_all add: deposit_tx_def MAX_INPUTS_def MAX_OUTPUTS_def)
  have tx: "process_tx mint_ops mint_cfg deposit_tx in_use = Done (?db1\<lparr>ecash_tables := ecash_tables claimed\<rparr>)"
    using sizes by (simp add: process_tx_def Let_def ins sig outs fund)
  have "accepted_txids in_use = bt_empty" by (simp add: in_use_def genesis_def)
  then show ?thesis using tx by (simp add: Let_def bt_has_def) (simp add: claimed_def in_use_def)
qed

lemma claim_run: "run_items mint_ops mint_cfg [(2, TxItem deposit_tx)] in_use = Some ([(2, TxItem deposit_tx)], claimed)"
  by (simp add: deposit_tx_accepted del: process_consensus_item.simps)

lemma claim_nodes: "from_nodes (NumNodes 1) [(2, TxItem deposit_tx)]"
  by (simp add: from_nodes_def mint_node_ids [simplified])

lemma claim_weight: "used in_use + run_weight [(2, TxItem deposit_tx)] + threshold (NumNodes 1) < 2 ^ 64"
  by (simp add: run_weight_def deposit_tx_def threshold_def used_def onchain_used_def in_use_def in_use_onchain_def funded_def
      genesis_def empty_onchain_def empty_lightning_def stream_next_def bt_len_def)

text \<open>
  C27. One chain of spends. After any run from a well-formed state the log of the wallet's
  transactions has no gaps, each entry takes over the amount the one before left, and the wallet's
  output is the first output of the last one. Every wallet transaction that awaits its signatures or
  its confirmation is in the log under its id: its first input is the first output of the logged
  transaction before it, its first output is the amount the log says it leaves, and the amounts it
  spends are its outputs and its fee.
\<close>

theorem wallet_chain:
  assumes "run_items S cfg xs db = Some (acc, db')" "daemon_ok S cfg n db" "config_ok cfg n" "from_nodes n xs"
    and "used db + run_weight xs + threshold n < 2 ^ 64"
  defines "infos \<equiv> tx_infos (onchain_tables db')"
  shows "bt_keys infos = map of_nat [0..<bt_len infos] \<and>
    (\<forall>k t t'. bt_get infos k = Some t \<longrightarrow> bt_get infos (k + 1) = Some t' \<longrightarrow> k + 1 \<noteq> 0 \<longrightarrow> ti_input t' = ti_output t) \<and>
    (\<forall>k t. bt_get infos k = Some t \<longrightarrow> k + 1 = total_txs (onchain_tables db') \<longrightarrow>
       (\<exists>u. mint_row (onchain_tables db') = Some u \<and> mu_value u = ti_output t \<and> mu_outpoint u = BtcOutPoint (ti_txid t) 0)) \<and>
    (\<forall>txid u. unsigned_row (onchain_tables db') = Some u \<and> txid = compute_txid (dwallet S) (mtx u) \<or>
         bt_get (unconfirmed (onchain_tables db')) txid = Some u \<longrightarrow>
       (\<exists>k t p ins outs. bt_get infos k = Some t \<and> ti_txid t = txid \<and>
          map previous_output (btc_inputs (mtx u)) = p # ins \<and> map to_value (btc_outputs (mtx u)) = ti_output t # outs \<and>
          (k \<noteq> 0 \<longrightarrow> (\<exists>t'. bt_get infos (k - 1) = Some t' \<and> p = BtcOutPoint (ti_txid t') 0)) \<and>
          (\<exists>x xs. spent_tx_outs u = x # xs \<and> st_value x = ti_input t) \<and>
          (\<Sum>x\<leftarrow>spent_tx_outs u. unat (st_value x)) = (\<Sum>v\<leftarrow>ti_output t # outs. unat v) + unat (mtx_fee u)))"
proof -
  have ok: "chain_ok (onchain_tables db')" "links_ok (dwallet S) (onchain_tables db')"
    using run_ok [OF assms(1-5)] by (simp_all add: daemon_ok_def modules_ok_def onchain_ok_def)
  have "logged_tx (onchain_tables db') txid u"
    if "unsigned_row (onchain_tables db') = Some u \<and> txid = compute_txid (dwallet S) (mtx u) \<or>
         bt_get (unconfirmed (onchain_tables db')) txid = Some u" for txid u
    using ok(2) that by (auto simp: links_ok_def)
  then show ?thesis using ok(1) by (simp add: chain_ok_def dense_def infos_def logged_tx_def)
qed

theorem wallet_chain_witness:
  "case unsigned_row (onchain_tables claimed) of
     Some u \<Rightarrow> map previous_output (btc_inputs (mtx u)) = [BtcOutPoint 3 0, BtcOutPoint 4 1] \<and>
       (\<exists>k t t'. bt_get (tx_infos (onchain_tables claimed)) k = Some t \<and> bt_get (tx_infos (onchain_tables claimed)) (k - 1) = Some t' \<and>
          ti_txid t = 2 \<and> ti_txid t' = 3 \<and> ti_output t = 1046000)
   | None \<Rightarrow> False"
proof -
  let ?infos = "tx_infos (onchain_tables claimed)"
  let ?tx = "\<lparr>btc_inputs = [unsigned_input (BtcOutPoint 3 0), unsigned_input (BtcOutPoint 4 1)],
            btc_outputs = [\<lparr>to_value = 1046000, script_pubkey = [1]\<rparr>]\<rparr>"
  have "map_option mtx (unsigned_row (onchain_tables claimed)) = Some ?tx"
    by (simp add: claimed_def claimed_onchain_def wallet_rows_def Let_def)
  then obtain u where u: "unsigned_row (onchain_tables claimed) = Some u" "mtx u = ?tx" by blast
  have first: "bt_get ?infos 0 = Some first_info" "bt_get ?infos k = Some t \<Longrightarrow> k = 0 \<Longrightarrow> t = first_info" for k t
    by (simp_all add: claimed_def claimed_onchain_def wallet_rows_def in_use_onchain_def total_txs_def next_index_def bt_last_def Let_def)
  note all = wallet_chain [OF claim_run in_use_ok mint_config_ok claim_nodes claim_weight]
  from all u obtain k t p ins outs where t: "bt_get ?infos k = Some t" "ti_txid t = compute_txid mint_wallet_ops ?tx"
    "map previous_output (btc_inputs ?tx) = p # ins" "map to_value (btc_outputs ?tx) = ti_output t # outs"
    "k \<noteq> 0 \<longrightarrow> (\<exists>t'. bt_get ?infos (k - 1) = Some t' \<and> p = BtcOutPoint (ti_txid t') 0)"
    by (metis mint_ops_fields(3))
  then have "k \<noteq> 0" using first(2) [OF t(1)] by (auto simp: first_info_def)
  with t obtain t' where "bt_get ?infos (k - 1) = Some t'" "p = BtcOutPoint (ti_txid t') 0" by blast
  with t u show ?thesis by (auto simp: unsigned_input_def)
qed

end
