(* ===== verification/Threshold.thy ===== *)
theory Threshold
  imports Mint_Nodes
begin

text \<open>
  Polynomials over the scalar field and their interpolation at zero, the algebra every threshold
  scheme of the program rests on. Groups are abelian groups with a scalar multiplication: the curve
  crates are not part of the sources.
\<close>

section \<open>Folds\<close>

text \<open>\<open>Iterator::reduce\<close>: \<open>None\<close> on an empty iterator.\<close>

fun reduce :: "('a \<Rightarrow> 'a \<Rightarrow> 'a) \<Rightarrow> 'a list \<Rightarrow> 'a option" where
  "reduce f [] = None"
| "reduce f (x # xs) = Some (foldl f x xs)"

lemma reduce_plus: "xs \<noteq> [] \<Longrightarrow> reduce (+) xs = Some (sum_list (xs :: 'a::comm_monoid_add list))"
proof (cases xs)
  case (Cons x ys)
  have "foldl (+) a zs = a + sum_list zs" for a :: 'a and zs by (induction zs arbitrary: a) (simp_all add: add.assoc)
  with Cons show ?thesis by simp
qed simp

lemma reduce_times: "xs \<noteq> [] \<Longrightarrow> reduce (*) xs = Some (prod_list (xs :: 'a::comm_monoid_mult list))"
proof (cases xs)
  case (Cons x ys)
  have "foldl (*) a zs = a * prod_list zs" for a :: 'a and zs by (induction zs arbitrary: a) (simp_all add: mult.assoc)
  with Cons show ?thesis by simp
qed simp

text \<open>
  Partial arithmetic: an operation that has no zero to return fails, and so does the reduction that
  meets it.
\<close>

definition nonzero :: "'a::zero \<Rightarrow> 'a option" where
  "nonzero x = (if x = 0 then None else Some x)"

fun reduce_opt :: "('a \<Rightarrow> 'a \<Rightarrow> 'a option) \<Rightarrow> 'a list \<Rightarrow> 'a option" where
  "reduce_opt f [] = None"
| "reduce_opt f [x] = Some x"
| "reduce_opt f (x # y # ys) = Option.bind (f x y) (\<lambda>z. reduce_opt f (z # ys))"

lemma nonzero_Some [simp]: "nonzero x = Some y \<longleftrightarrow> y = x \<and> x \<noteq> 0"
  by (auto simp: nonzero_def)

lemma reduce_opt_refines:
  "(\<And>a b c. f a b = Some c \<Longrightarrow> c = g a b) \<Longrightarrow> reduce_opt f xs = Some y \<Longrightarrow> reduce g xs = Some y"
proof (induction f xs arbitrary: y rule: reduce_opt.induct)
  case (3 f x z zs)
  then obtain v where v: "f x z = Some v" "reduce_opt f (v # zs) = Some y" by (auto simp: bind_eq_Some_conv)
  then have "reduce g (v # zs) = Some y" using "3.IH" "3.prems" by blast
  moreover have "v = g x z" using v(1) "3.prems" by blast
  ultimately show ?case by simp
qed simp_all

lemma reduce_opt_sum: "reduce_opt (\<lambda>a b. nonzero (a + b)) xs = Some y \<Longrightarrow> y = sum_list (xs :: 'a::comm_monoid_add list)"
proof -
  assume "reduce_opt (\<lambda>a b. nonzero (a + b)) xs = Some y"
  then have r: "reduce (+) xs = Some y" by (rule reduce_opt_refines [rotated]) simp
  then have "xs \<noteq> []" by auto
  with r show ?thesis by (simp add: reduce_plus)
qed

section \<open>Polynomials\<close>

text \<open>A polynomial is the list of its coefficients, the constant one first.\<close>

fun peval :: "'f::comm_ring_1 list \<Rightarrow> 'f \<Rightarrow> 'f" where
  "peval [] x = 0"
| "peval (c # cs) x = c + x * peval cs x"

lemma peval_sum: "peval cs x = (\<Sum>k<length cs. cs ! k * x ^ k)"
proof (induction cs)
  case (Cons c cs)
  have "(\<Sum>k<length (c # cs). (c # cs) ! k * x ^ k) = c + (\<Sum>k<length cs. cs ! k * x ^ Suc k)"
    by (simp add: sum.lessThan_Suc_shift del: sum.lessThan_Suc)
  also have "(\<Sum>k<length cs. cs ! k * x ^ Suc k) = x * (\<Sum>k<length cs. cs ! k * x ^ k)"
    by (simp add: sum_distrib_left mult.left_commute)
  finally show ?case using Cons by simp
qed simp

lemma peval_zero: "cs \<noteq> [] \<Longrightarrow> peval cs 0 = hd cs"
  by (cases cs) simp_all

text \<open>The Horner schema of the sources.\<close>

definition horner :: "'f::comm_ring_1 list \<Rightarrow> 'f \<Rightarrow> 'f option" where
  "horner cs x = reduce (\<lambda>acc c. acc * x + c) (rev cs)"

lemma foldl_horner: "foldl (\<lambda>acc c. acc * x + c) a (rev cs) = peval cs x + x ^ length cs * a"
  by (induction cs arbitrary: a) (simp_all add: algebra_simps)

lemma horner_peval: "cs \<noteq> [] \<Longrightarrow> horner cs x = Some (peval cs x)"
proof -
  assume "cs \<noteq> []"
  then obtain ds d where cs: "cs = ds @ [d]" by (metis append_butlast_last_id)
  have "peval (ds @ [d]) x = peval ds x + x ^ length ds * d" by (induction ds) (simp_all add: algebra_simps)
  then show ?thesis by (simp add: horner_def cs foldl_horner)
qed

section \<open>Polynomials with many roots vanish\<close>

text \<open>A function that is a polynomial with at most \<open>n\<close> coefficients.\<close>

definition poly_fun :: "nat \<Rightarrow> ('f::field \<Rightarrow> 'f) \<Rightarrow> bool" where
  "poly_fun n f \<longleftrightarrow> (\<exists>cs. length cs \<le> n \<and> f = peval cs)"

lemma peval_add: "\<exists>es. length es = max (length cs) (length ds) \<and> peval es = (\<lambda>x. peval cs x + peval ds x)"
proof (induction cs arbitrary: ds)
  case Nil
  have "peval ds = (\<lambda>x. peval [] x + peval ds x)" by (rule ext) simp
  then show ?case by (intro exI [of _ ds]) simp
next
  case (Cons c cs)
  show ?case
  proof (cases ds)
    case Nil
    have "peval (c # cs) = (\<lambda>x. peval (c # cs) x + peval [] x)" by (rule ext) simp
    with Nil show ?thesis by (intro exI [of _ "c # cs"]) simp
  next
    case D: (Cons d ds')
    obtain es where "length es = max (length cs) (length ds')" "peval es = (\<lambda>x. peval cs x + peval ds' x)"
      using Cons.IH by blast
    then show ?thesis using D by (intro exI [of _ "(c + d) # es"]) (auto simp: algebra_simps)
  qed
qed

lemma poly_fun_add: "poly_fun n f \<Longrightarrow> poly_fun n g \<Longrightarrow> poly_fun n (\<lambda>x. f x + g x)"
proof -
  assume "poly_fun n f" "poly_fun n g"
  then obtain cs ds where "length cs \<le> n" "f = peval cs" "length ds \<le> n" "g = peval ds"
    by (auto simp: poly_fun_def)
  then show ?thesis using peval_add [of cs ds] unfolding poly_fun_def by (metis max.bounded_iff)
qed

lemma peval_scale: "peval (map ((*) a) cs) x = a * peval cs x"
  by (induction cs) (simp_all add: algebra_simps)

lemma poly_fun_scale: "poly_fun n f \<Longrightarrow> poly_fun n (\<lambda>x. a * f x)"
proof -
  assume "poly_fun n f"
  then obtain cs where "length cs \<le> n" "f = peval cs" by (auto simp: poly_fun_def)
  then show ?thesis unfolding poly_fun_def
    by (intro exI [of _ "map ((*) a) cs"]) (auto simp: fun_eq_iff peval_scale)
qed

lemma poly_fun_mono: "poly_fun m f \<Longrightarrow> m \<le> n \<Longrightarrow> poly_fun n f"
  unfolding poly_fun_def using le_trans by blast

lemma poly_fun_shift: "poly_fun n f \<Longrightarrow> poly_fun (Suc n) (\<lambda>x. x * f x)"
proof -
  assume "poly_fun n f"
  then obtain cs where "length cs \<le> n" "f = peval cs" by (auto simp: poly_fun_def)
  then show ?thesis unfolding poly_fun_def by (intro exI [of _ "0 # cs"]) (auto simp: fun_eq_iff)
qed

lemma poly_fun_linear: "poly_fun n f \<Longrightarrow> poly_fun (Suc n) (\<lambda>x. (a + b * x) * f x)"
proof -
  assume f: "poly_fun n f"
  have "poly_fun (Suc n) (\<lambda>x. a * f x + b * (x * f x))"
    by (intro poly_fun_add poly_fun_scale poly_fun_shift f poly_fun_mono [OF f]) simp
  then show ?thesis by (simp add: algebra_simps)
qed

lemma poly_fun_one: "poly_fun (Suc n) (\<lambda>x. c)"
  unfolding poly_fun_def by (intro exI [of _ "[c]"]) (auto simp: fun_eq_iff)

lemma poly_fun_peval: "poly_fun (length cs) (peval cs)"
  unfolding poly_fun_def by blast

lemma poly_fun_sum: "(\<And>i. i \<in> set is \<Longrightarrow> poly_fun n (f i)) \<Longrightarrow> poly_fun n (\<lambda>x. \<Sum>i\<leftarrow>is. f i x)"
proof (induction "is")
  case Nil
  show ?case unfolding poly_fun_def by (intro exI [of _ "[]"]) (auto simp: fun_eq_iff)
next
  case (Cons i "is")
  then show ?case using poly_fun_add [of n "f i"] by simp
qed

lemma poly_fun_prod: "poly_fun (Suc (length js)) (\<lambda>x. \<Prod>j\<leftarrow>js. a j + b j * x)"
proof (induction js)
  case Nil
  show ?case using poly_fun_one [of 0 1] by simp
next
  case (Cons j js)
  then show ?case using poly_fun_linear [of "Suc (length js)" _ "a j" "b j"] by simp
qed

text \<open>The quotient by \<open>x - a\<close>, from the tail of the coefficients.\<close>

fun divide_root :: "'f::comm_ring_1 \<Rightarrow> 'f list \<Rightarrow> 'f list" where
  "divide_root a [] = []"
| "divide_root a (c # cs) = peval (c # cs) a # divide_root a cs"

lemma divide_root_eq: "peval cs x = peval cs a + (x - a) * peval (divide_root a (tl cs)) x"
proof -
  have "peval cs x - peval cs a = (x - a) * peval (divide_root a (tl cs)) x"
  proof (induction cs)
    case C: (Cons c cs)
    show ?case
    proof (cases cs)
      case Nil
      then show ?thesis by simp
    next
      case (Cons d ds)
      have "peval (c # cs) x - peval (c # cs) a = (x - a) * peval cs a + x * (peval cs x - peval cs a)" by (simp add: algebra_simps)
      also have "\<dots> = (x - a) * peval cs a + x * ((x - a) * peval (divide_root a ds) x)" using C.IH by (simp add: Cons)
      also have "\<dots> = (x - a) * peval (divide_root a cs) x" by (simp add: Cons algebra_simps)
      finally show ?thesis by simp
    qed
  qed simp
  then show ?thesis by (simp add: algebra_simps)
qed

lemma roots_vanish:
  "length cs \<le> card S \<Longrightarrow> finite S \<Longrightarrow> \<forall>a \<in> S. peval cs a = 0 \<Longrightarrow> peval cs x = (0 :: 'f::field)"
proof (induction "length cs" arbitrary: cs S rule: less_induct)
  case less
  show ?case
  proof (cases cs)
    case (Cons c ds)
    then obtain a where a: "a \<in> S" using less.prems by fastforce
    let ?q = "divide_root a ds"
    have l: "length (divide_root a es) = length es" for es by (induction es) auto
    have e: "peval cs y = (y - a) * peval ?q y" for y
      using divide_root_eq [of cs y a] less.prems(3) a by (simp add: Cons)
    have "peval ?q x = 0"
    proof (rule less.hyps [of ?q "S - {a}"])
      show "length ?q < length cs" "length ?q \<le> card (S - {a})" using l less.prems(1,2) a by (simp_all add: Cons)
      show "\<forall>b \<in> S - {a}. peval ?q b = 0" using e less.prems(3) by auto
    qed (use less.prems(2) in simp)
    then show ?thesis using e by simp
  qed simp
qed

lemma poly_fun_vanish:
  assumes "poly_fun n f" "finite S" "n \<le> card S" "\<forall>a \<in> S. f a = 0"
  shows "f x = 0"
  using assms roots_vanish unfolding poly_fun_def by (metis le_trans)

section \<open>Interpolation at zero\<close>

text \<open>
  The multipliers of the sources. \<open>None\<close> is the panic of a reduction over no factors: a single point
  has no other.
\<close>

definition lagrange_multipliers :: "'f::field list \<Rightarrow> 'f list option" where
  "lagrange_multipliers xs = option_seq (map (\<lambda>i. reduce (*) (map (\<lambda>j. j * inverse (j - i)) (filter (\<lambda>j. j \<noteq> i) xs))) xs)"

definition lagrange :: "'f::field list \<Rightarrow> 'f \<Rightarrow> 'f" where
  "lagrange xs i = (\<Prod>j\<leftarrow>filter (\<lambda>j. j \<noteq> i) xs. j * inverse (j - i))"

lemma lagrange_multipliers_Some:
  assumes "distinct xs" "2 \<le> length xs"
  shows "lagrange_multipliers xs = Some (map (lagrange xs) xs)"
proof -
  have "reduce (*) (map (\<lambda>j. j * inverse (j - i)) (filter (\<lambda>j. j \<noteq> i) xs)) = Some (lagrange xs i)" if "i \<in> set xs" for i
  proof -
    have "filter (\<lambda>j. j \<noteq> i) xs \<noteq> []"
    proof
      assume "filter (\<lambda>j. j \<noteq> i) xs = []"
      then have "set xs \<subseteq> {i}" by (auto simp: filter_empty_conv)
      then have "card (set xs) \<le> 1" using card_mono [of "{i}" "set xs"] by simp
      then show False using assms distinct_card [of xs] by simp
    qed
    then show ?thesis by (simp add: reduce_times lagrange_def)
  qed
  then show ?thesis by (auto simp: lagrange_multipliers_def option_seq_Some_iff)
qed

lemma lagrange_single: "lagrange_multipliers [x] = None"
  by (simp add: lagrange_multipliers_def)

text \<open>The basis polynomial of a point is one there and zero at the others.\<close>

definition basis :: "'f::field list \<Rightarrow> 'f \<Rightarrow> 'f \<Rightarrow> 'f" where
  "basis xs i x = (\<Prod>j\<leftarrow>filter (\<lambda>j. j \<noteq> i) xs. j * inverse (j - i) + - inverse (j - i) * x)"

lemma basis_zero: "basis xs i 0 = lagrange xs i"
  by (simp add: basis_def lagrange_def)

lemma basis_factor: "j * inverse (j - i) + - inverse (j - i) * x = (j - x) * inverse (j - i :: 'f::field)"
  by (simp add: algebra_simps)

lemma basis_at:
  assumes "distinct xs" "i \<in> set xs" "k \<in> set xs"
  shows "basis xs i k = (if k = i then 1 else 0)"
proof (cases "k = i")
  case True
  have "(\<Prod>j\<leftarrow>js. j * inverse (j - i) + - inverse (j - i) * i) = 1" if "\<forall>j \<in> set js. j \<noteq> i" for js
    using that unfolding basis_factor by (induction js) simp_all
  then show ?thesis using True by (simp add: basis_def)
next
  case False
  then have "k \<in> set (filter (\<lambda>j. j \<noteq> i) xs)" using assms by simp
  then have "0 \<in> set (map (\<lambda>j. j * inverse (j - i) + - inverse (j - i) * k) (filter (\<lambda>j. j \<noteq> i) xs))"
    unfolding basis_factor by (auto intro!: image_eqI [of _ _ k])
  then show ?thesis using False by (simp add: basis_def prod_list_zero_iff)
qed

lemma basis_poly:
  assumes "distinct xs" "i \<in> set xs"
  shows "poly_fun (length xs) (basis xs i)"
proof -
  let ?js = "filter (\<lambda>j. j \<noteq> i) xs"
  have "length ?js + length (filter (\<lambda>j. j = i) xs) = length xs"
    using sum_length_filter_compl [of "\<lambda>j. j \<noteq> i" xs] by simp
  moreover have "filter (\<lambda>j. j = i) xs \<noteq> []" using assms(2) by (auto simp: filter_empty_conv)
  ultimately have "Suc (length ?js) \<le> length xs" by (cases "filter (\<lambda>j. j = i) xs") auto
  with poly_fun_prod [of ?js "\<lambda>j. j * inverse (j - i)" "\<lambda>j. - inverse (j - i)"] show ?thesis
    unfolding basis_def by (rule poly_fun_mono)
qed

theorem interpolation:
  assumes d: "distinct xs" and l: "length cs \<le> length xs"
  shows "(\<Sum>i\<leftarrow>xs. lagrange xs i * peval cs i) = peval cs 0"
proof -
  let ?f = "\<lambda>x. (\<Sum>i\<leftarrow>xs. peval cs i * basis xs i x) + - 1 * peval cs x"
  have "poly_fun (length xs) ?f"
    by (intro poly_fun_add poly_fun_sum poly_fun_scale basis_poly d poly_fun_mono [OF poly_fun_peval l]) simp
  moreover have "?f k = 0" if "k \<in> set xs" for k
  proof -
    have "(\<Sum>i\<leftarrow>xs. peval cs i * basis xs i k) = (\<Sum>i\<leftarrow>xs. if k = i then peval cs i else 0)"
      using basis_at [OF d _ that] by (intro arg_cong [where f = sum_list] map_cong) auto
    also have "\<dots> = (\<Sum>i\<in>set xs. if k = i then peval cs i else 0)" using d by (simp add: sum_list_distinct_conv_sum_set)
    also have "\<dots> = peval cs k" using that by simp
    finally show ?thesis by simp
  qed
  ultimately have "?f 0 = 0"
    using poly_fun_vanish [of "length xs" ?f "set xs" 0] distinct_card [OF d] by simp
  then show ?thesis by (simp add: basis_zero mult.commute)
qed

section \<open>Scalar multiplication\<close>

text \<open>
  The laws of scalar multiplication in a group whose order is the characteristic of the scalar
  field, as the curve crates document them.
\<close>

definition scalar_laws :: "('f::field \<Rightarrow> 'g::ab_group_add \<Rightarrow> 'g) \<Rightarrow> bool" where
  "scalar_laws sm \<longleftrightarrow>
     (\<forall>a b x. sm (a + b) x = sm a x + sm b x) \<and> (\<forall>a x y. sm a (x + y) = sm a x + sm a y) \<and>
     (\<forall>a b x. sm (a * b) x = sm a (sm b x)) \<and> (\<forall>x. sm 1 x = x)"

lemma scalar_lawsD:
  assumes "scalar_laws sm"
  shows "sm (a + b) x = sm a x + sm b x" "sm a (x + y) = sm a x + sm a y" "sm (a * b) x = sm a (sm b x)" "sm 1 x = x"
  using assms by (simp_all add: scalar_laws_def)

lemma scalar_zero:
  assumes "scalar_laws sm"
  shows "sm 0 x = 0" "sm a 0 = 0"
  using scalar_lawsD(1) [OF assms, of 0 0 x] scalar_lawsD(2) [OF assms, of a 0 0] by simp_all

lemma scalar_minus:
  assumes "scalar_laws sm"
  shows "sm (- a) x = - sm a x" "sm a (- x) = - sm a x"
  using scalar_lawsD(1) [OF assms, of "- a" a x] scalar_lawsD(2) [OF assms, of a "- x" x]
  by (simp_all add: scalar_zero [OF assms] eq_neg_iff_add_eq_0)

lemma scalar_inverse:
  assumes "scalar_laws sm" "a \<noteq> 0"
  shows "sm (inverse a) (sm a x) = x"
  using scalar_lawsD(3) [OF assms(1), of "inverse a" a x] scalar_lawsD(4) [OF assms(1)] assms(2) by simp

lemma scalar_sum_list:
  assumes "scalar_laws sm"
  shows "sm (\<Sum>i\<leftarrow>is. f i) x = (\<Sum>i\<leftarrow>is. sm (f i) x)" "sm a (\<Sum>i\<leftarrow>is. g i) = (\<Sum>i\<leftarrow>is. sm a (g i))"
  by (induction "is") (simp_all add: scalar_zero [OF assms] scalar_lawsD [OF assms])

text \<open>A polynomial with coefficients in the group: the public side of a secret polynomial.\<close>

fun gpeval :: "('f \<Rightarrow> 'g::ab_group_add \<Rightarrow> 'g) \<Rightarrow> 'g list \<Rightarrow> 'f \<Rightarrow> 'g" where
  "gpeval sm [] x = 0"
| "gpeval sm (c # cs) x = c + sm x (gpeval sm cs x)"

lemma gpeval_commit:
  assumes "scalar_laws sm"
  shows "gpeval sm (map (\<lambda>c. sm c g) cs) x = sm (peval cs x) g"
  by (induction cs) (simp_all add: scalar_zero [OF assms] scalar_lawsD [OF assms])

lemma gpeval_zero: "scalar_laws sm \<Longrightarrow> cs \<noteq> [] \<Longrightarrow> gpeval sm cs 0 = hd cs"
  by (cases cs) (simp_all add: scalar_zero)

lemma gpeval_add:
  assumes "scalar_laws sm"
  shows "length cs = length ds \<Longrightarrow> gpeval sm (map2 (+) cs ds) x = gpeval sm cs x + gpeval sm ds x"
  by (induction cs ds rule: list_induct2) (simp_all add: scalar_lawsD [OF assms])

lemma foldl_horner_group:
  assumes "scalar_laws sm"
  shows "foldl (\<lambda>acc c. sm x acc + c) a (rev cs) = gpeval sm cs x + sm (x ^ length cs) a"
  by (induction cs arbitrary: a) (simp_all add: scalar_lawsD [OF assms] add.commute add.left_commute)

lemma horner_group:
  assumes "scalar_laws sm" "cs \<noteq> []"
  shows "reduce (\<lambda>acc c. sm x acc + c) (rev cs) = Some (gpeval sm cs x)"
proof -
  obtain ds d where cs: "cs = ds @ [d]" using assms(2) by (metis append_butlast_last_id)
  have "gpeval sm (ds @ [d]) x = gpeval sm ds x + sm (x ^ length ds) d"
    by (induction ds) (simp_all add: scalar_zero [OF assms(1)] scalar_lawsD [OF assms(1)] add.assoc)
  then show ?thesis by (simp add: cs foldl_horner_group [OF assms(1)])
qed

text \<open>The powers of the evaluation point, the other way the sources evaluate a commitment.\<close>

lemma gpeval_powers:
  assumes "scalar_laws sm"
  shows "sum_list (map2 (\<lambda>c k. sm (x ^ k) c) cs [n..<n + length cs]) = sm (x ^ n) (gpeval sm cs x)"
proof (induction cs arbitrary: n)
  case (Cons c cs)
  have "[n..<n + length (c # cs)] = n # [Suc n..<Suc n + length cs]"
    using upt_conv_Cons [of n "n + length (c # cs)"] by simp
  moreover have "sm (x ^ Suc n) y = sm (x ^ n) (sm x y)" for y
    by (metis power_Suc2 scalar_lawsD(3) [OF assms])
  ultimately show ?case using Cons [of "Suc n"] by (simp add: scalar_lawsD(2) [OF assms] del: power_Suc upt_Suc)
next
  case Nil
  then show ?case by (simp add: scalar_zero [OF assms])
qed

text \<open>Weights whose moments vanish annihilate a polynomial, weights that sum to one keep its constant.\<close>

lemma moments_vanish:
  assumes "scalar_laws sm"
  shows "\<forall>k < length cs. (\<Sum>i\<leftarrow>xs. w i * i ^ k) = 0 \<Longrightarrow> (\<Sum>i\<leftarrow>xs. sm (w i) (gpeval sm cs i)) = 0"
proof (induction cs arbitrary: w)
  case (Cons c cs)
  have w: "(\<Sum>i\<leftarrow>xs. w i) = 0" using Cons.prems by (metis (no_types, lifting) length_greater_0_conv list.distinct(1) map_eq_conv mult.right_neutral power_0)
  have "\<forall>k < length cs. (\<Sum>i\<leftarrow>xs. (w i * i) * i ^ k) = 0"
    using Cons.prems by (fastforce simp: mult.assoc dest: spec [of _ "Suc _"])
  then have "(\<Sum>i\<leftarrow>xs. sm (w i * i) (gpeval sm cs i)) = 0" by (rule Cons.IH)
  moreover have "(\<Sum>i\<leftarrow>xs. sm (w i) c) = 0" using w scalar_sum_list(1) [OF assms, of w xs c] scalar_zero(1) [OF assms] by simp
  ultimately show ?case by (simp add: scalar_lawsD [OF assms] sum_list_addf)
qed (simp add: scalar_zero [OF assms])

theorem interpolation_group:
  assumes s: "scalar_laws sm" and d: "distinct xs" and l: "length cs \<le> length xs"
  shows "(\<Sum>i\<leftarrow>xs. sm (lagrange xs i) (gpeval sm cs i)) = gpeval sm cs 0"
proof (cases cs)
  case (Cons c ds)
  have m: "(\<Sum>i\<leftarrow>xs. lagrange xs i * i ^ k) = 0 ^ k" if "k < length cs" for k
  proof -
    have "peval (replicate k 0 @ [1]) x = x ^ k" for x :: 'a by (induction k) simp_all
    then show ?thesis using interpolation [OF d, of "replicate k 0 @ [1]"] that l by simp
  qed
  have "(\<Sum>i\<leftarrow>xs. sm (lagrange xs i * i) (gpeval sm ds i)) = 0"
  proof (rule moments_vanish [OF s], intro allI impI)
    fix k assume "k < length ds"
    then show "(\<Sum>i\<leftarrow>xs. lagrange xs i * i * i ^ k) = 0" using m [of "Suc k"] by (simp add: Cons mult.assoc)
  qed
  moreover have "(\<Sum>i\<leftarrow>xs. sm (lagrange xs i) c) = c"
    using m [of 0] scalar_sum_list(1) [OF s, of "lagrange xs" xs c] scalar_lawsD(4) [OF s] by (simp add: Cons)
  ultimately show ?thesis by (simp add: Cons scalar_lawsD [OF s] scalar_zero [OF s] sum_list_addf)
qed (simp add: scalar_zero [OF s])

section \<open>Combining shares\<close>

text \<open>The evaluation point of a node: \<open>Scalar::from(node + 1)\<close> on a \<open>u64\<close> that wraps.\<close>

definition eval_point :: "u64 \<Rightarrow> 'f::field" where
  "eval_point i = of_nat (unat (i + 1))"

text \<open>\<open>None\<close> is the panic of a reduction over nothing.\<close>

definition combine_shares :: "('f::field \<Rightarrow> 'g::ab_group_add \<Rightarrow> 'g) \<Rightarrow> (u64, 'g) btmap \<Rightarrow> 'g option" where
  "combine_shares sm shares =
     Option.bind (lagrange_multipliers (map eval_point (bt_keys shares)))
       (\<lambda>ls. reduce (+) (map2 sm ls (bt_values shares)))"

definition separated :: "'f::field itself \<Rightarrow> (u64, 'g) btmap \<Rightarrow> bool" where
  "separated F shares \<longleftrightarrow> distinct (map (eval_point :: u64 \<Rightarrow> 'f) (bt_keys shares))"

lemma combine_shares_Some:
  fixes sm :: "'f::field \<Rightarrow> 'g::ab_group_add \<Rightarrow> 'g"
  assumes "separated TYPE('f) shares" "2 \<le> bt_len shares"
  shows "combine_shares sm shares =
    Some (\<Sum>(i, s)\<leftarrow>entries shares. sm (lagrange (map eval_point (bt_keys shares)) (eval_point i)) s)"
proof -
  let ?xs = "map eval_point (bt_keys shares) :: 'f list"
  have m: "lagrange_multipliers ?xs = Some (map (lagrange ?xs) ?xs)"
    using assms by (intro lagrange_multipliers_Some) (simp_all add: separated_def bt_len_def bt_keys_def)
  have z: "map2 sm (map (lagrange ?xs) ?xs) (bt_values shares) =
      map (\<lambda>(i, s). sm (lagrange ?xs (eval_point i)) s) (entries shares)"
    unfolding bt_values_def by (intro nth_equalityI) (auto simp: bt_keys_def case_prod_beta)
  moreover have "map (\<lambda>(i, s). sm (lagrange ?xs (eval_point i)) s) (entries shares) \<noteq> []"
    using assms(2) by (auto simp: bt_len_def)
  ultimately show ?thesis unfolding combine_shares_def m by (simp add: reduce_plus del: map_map)
qed

text \<open>
  The reason threshold schemes work: whatever an additive map sees of the shares, if it sees the
  values of a polynomial no longer than the number of shares, it sees the constant coefficient of
  the combination.
\<close>

lemma combine_shares_at_zero:
  fixes sm :: "'f::field \<Rightarrow> 'g::ab_group_add \<Rightarrow> 'g" and tm :: "'f \<Rightarrow> 'h::ab_group_add \<Rightarrow> 'h"
  assumes t: "scalar_laws tm" and add: "\<And>x y. h (x + y) = h x + h y" and scale: "\<And>a x. h (sm a x) = tm a (h x)"
    and d: "separated TYPE('f) shares" and l: "2 \<le> bt_len shares" "length cs \<le> bt_len shares"
    and vals: "\<And>i s. bt_get shares i = Some s \<Longrightarrow> h s = gpeval tm cs (eval_point i)"
  shows "\<exists>y. combine_shares sm shares = Some y \<and> h y = gpeval tm cs 0"
proof -
  let ?xs = "map eval_point (bt_keys shares) :: 'f list"
  have h0: "h 0 = 0" using add [of 0 0] by simp
  have hs: "h (sum_list zs) = sum_list (map h zs)" for zs by (induction zs) (simp_all add: h0 add)
  have "h (\<Sum>(i, s)\<leftarrow>entries shares. sm (lagrange ?xs (eval_point i)) s) =
      (\<Sum>(i, s)\<leftarrow>entries shares. tm (lagrange ?xs (eval_point i)) (gpeval tm cs (eval_point i)))"
    unfolding hs map_map by (intro arg_cong [where f = sum_list] map_cong)
      (auto simp: scale bt_get_Some_iff [symmetric] vals)
  also have "\<dots> = (\<Sum>x\<leftarrow>?xs. tm (lagrange ?xs x) (gpeval tm cs x))"
    by (simp add: bt_keys_def comp_def case_prod_unfold)
  also have "\<dots> = gpeval tm cs 0"
    using d l(2) by (intro interpolation_group [OF t]) (simp_all add: separated_def bt_len_def bt_keys_def)
  finally show ?thesis using combine_shares_Some [OF d l(1), of sm] by simp
qed

lemma combine_shares_empty: "combine_shares sm bt_empty = None"
  by (simp add: combine_shares_def lagrange_multipliers_def bt_keys_def bt_values_def)

end
