(* ===== verification/Tss.thy ===== *)
theory Tss
  imports Threshold Wallet_Types
begin

text \<open>
  Threshold Schnorr signatures over secp256k1 (\<open>picomint-tss/src/lib.rs\<close>): FROST signing in two rounds,
  producing the BIP340 signatures of the onchain wallet. A \<open>SecretKey\<close> is a nonzero scalar and a
  \<open>PublicKey\<close> a point other than infinity: the operations of the curve crate fail where they would
  leave these types, which is \<open>None\<close> here, and where the code expects them not to fail \<open>None\<close> is its
  panic. SHA-256, the serialisation of points and their x-only form are foreign code.
\<close>

section \<open>The curve\<close>

record ('f, 'g) secp =
  secp_base :: 'g
  secp_mul :: "'f \<Rightarrow> 'g \<Rightarrow> 'g"
  secp_sha256 :: "bytes \<Rightarrow> bytes"
  serialize_pk :: "'g \<Rightarrow> bytes"
  x_only_pk :: "'g \<Rightarrow> bytes"
  even_y :: "'g \<Rightarrow> bool"

definition key_mul_tweak :: "'f::field \<Rightarrow> 'f \<Rightarrow> 'f option" where
  "key_mul_tweak k s = nonzero (k * s)"

definition key_add_tweak :: "'f::field \<Rightarrow> 'f \<Rightarrow> 'f option" where
  "key_add_tweak k s = nonzero (k + s)"

definition public_key :: "('f, 'g) secp \<Rightarrow> 'f \<Rightarrow> 'g" where
  "public_key S k = secp_mul S k (secp_base S)"

definition pk_mul_tweak :: "('f, 'g::ab_group_add) secp \<Rightarrow> 'g \<Rightarrow> 'f \<Rightarrow> 'g option" where
  "pk_mul_tweak S p s = nonzero (secp_mul S s p)"

definition pk_combine :: "'g::ab_group_add \<Rightarrow> 'g \<Rightarrow> 'g option" where
  "pk_combine p q = nonzero (p + q)"

section \<open>Scalars\<close>

text \<open>\<open>Scalar::from_be_bytes\<close> and \<open>SecretKey::from_slice\<close> of a \<open>u64\<close>.\<close>

definition scalar_from_be_bytes :: "bytes \<Rightarrow> 'f::field option" where
  "scalar_from_be_bytes bs = (if be_value bs < CURVE_ORDER then Some (of_nat (be_value bs)) else None)"

definition scalar_from_u64 :: "u64 \<Rightarrow> 'f::field" where
  "scalar_from_u64 v = of_nat (unat v)"

definition key_from_u64 :: "u64 \<Rightarrow> 'f::field option" where
  "key_from_u64 v = (if v = 0 then None else Some (of_nat (unat v)))"

definition order_bytes :: bytes where
  "order_bytes = be_bytes 32 CURVE_ORDER"

text \<open>The subtraction of the order, byte by byte from the last with a borrow.\<close>

fun sub_borrow :: "bytes \<Rightarrow> bytes \<Rightarrow> bytes \<times> int" where
  "sub_borrow (x # xs) (y # ys) =
     (let (zs, borrow) = sub_borrow xs ys;
          d = uint x - uint y - borrow
      in (word_of_int (d mod 256) # zs, if d < 0 then 1 else 0))"
| "sub_borrow _ _ = ([], 0)"

definition scalar_mod_order :: "bytes \<Rightarrow> 'f::field option" where
  "scalar_mod_order bs =
     (case scalar_from_be_bytes bs of
        Some s \<Rightarrow> Some s
      | None \<Rightarrow> scalar_from_be_bytes (fst (sub_borrow bs order_bytes)))"

text \<open>\<open>(a + 1) - (b + 1)\<close> of two distinct evaluation points.\<close>

definition difference :: "u64 \<Rightarrow> u64 \<Rightarrow> 'f::field option" where
  "difference a b = (if a > b then key_from_u64 (a - b) else map_option uminus (key_from_u64 (b - a)))"

text \<open>Square and multiply over the bits of the exponent, the highest first.\<close>

fun square_multiply :: "'f::field \<Rightarrow> bool list \<Rightarrow> 'f \<Rightarrow> 'f option" where
  "square_multiply k [] acc = Some acc"
| "square_multiply k (b # bs) acc =
     Option.bind (key_mul_tweak acc acc) (\<lambda>sq.
     Option.bind (if b then key_mul_tweak sq k else Some sq) (square_multiply k bs))"

definition byte_bits :: "u8 \<Rightarrow> bool list" where
  "byte_bits w = map (\<lambda>i. and (drop_bit i w) 1 = 1) (rev [0..<8])"

definition invert_exponent :: bytes where
  "invert_exponent = order_bytes[31 := order_bytes ! 31 - 2]"

definition invert :: "'f::field \<Rightarrow> 'f option" where
  "invert k = Option.bind (key_from_u64 1) (square_multiply k (concat (map byte_bits invert_exponent)))"

fun multiplier_loop :: "u64 \<Rightarrow> u64 list \<Rightarrow> 'f::field \<times> 'f \<Rightarrow> ('f \<times> 'f) option" where
  "multiplier_loop i [] nd = Some nd"
| "multiplier_loop i (j # js) (num, den) =
     (if j = i then multiplier_loop i js (num, den)
      else Option.bind (key_mul_tweak num (scalar_from_u64 (j + 1))) (\<lambda>num'.
           Option.bind (difference j i) (\<lambda>d.
           Option.bind (key_mul_tweak den d) (\<lambda>den'. multiplier_loop i js (num', den')))))"

definition lagrange_multiplier :: "u64 list \<Rightarrow> u64 \<Rightarrow> 'f::field option" where
  "lagrange_multiplier nodes i =
     Option.bind (key_from_u64 1) (\<lambda>one.
     Option.bind (multiplier_loop i nodes (one, one)) (\<lambda>(num, den).
     Option.bind (invert den) (key_mul_tweak num)))"

section \<open>The signing session\<close>

text \<open>The sum of the nonces' coordinates, \<open>None\<close> for the point at infinity.\<close>

definition add_point :: "'g::ab_group_add option \<Rightarrow> 'g \<Rightarrow> 'g option" where
  "add_point acc p = (case acc of Some a \<Rightarrow> pk_combine a p | None \<Rightarrow> Some p)"

definition aggregate_nonce_halves :: "(u64, 'g::ab_group_add \<times> 'g) btmap \<Rightarrow> 'g option \<times> 'g option" where
  "aggregate_nonce_halves nonces =
     foldl (\<lambda>(a, b) (p, q). (add_point a p, add_point b q)) (None, None) (bt_values nonces)"

definition serialize_point :: "('f, 'g) secp \<Rightarrow> 'g option \<Rightarrow> bytes" where
  "serialize_point S p = (case p of Some q \<Rightarrow> serialize_pk S q | None \<Rightarrow> replicate 33 0)"

text \<open>The keys of a map are sorted already; an id past 32 bits panics.\<close>

definition serialize_ids :: "u64 list \<Rightarrow> bytes option" where
  "serialize_ids ids =
     map_option (\<lambda>xs. concat (map (be_bytes 4) (sort xs)))
       (option_seq (map (\<lambda>i. if unat i < 2 ^ 32 then Some (unat i) else None) ids))"

definition tagged_hash :: "('f, 'g) secp \<Rightarrow> bytes \<Rightarrow> bytes list \<Rightarrow> bytes" where
  "tagged_hash S tag chunks =
     secp_sha256 S (secp_sha256 S tag @ secp_sha256 S tag @ concat chunks)"

definition group_nonce :: "('f::field, 'g::ab_group_add) secp \<Rightarrow> 'g option \<times> 'g option \<Rightarrow> 'f \<Rightarrow> 'g option" where
  "group_nonce S halves binding =
     Option.bind (case snd halves of None \<Rightarrow> Some None | Some q \<Rightarrow> map_option Some (pk_mul_tweak S q binding)) (\<lambda>second.
     Option.bind (key_from_u64 1) (\<lambda>one.
     Some (case (case (fst halves, second) of
                   (Some p, Some q) \<Rightarrow> pk_combine p q
                 | (Some p, None) \<Rightarrow> Some p
                 | (None, s) \<Rightarrow> s) of
             Some r \<Rightarrow> r
           | None \<Rightarrow> public_key S one)))"

definition nonce_coefficient_bytes :: "('f, 'g) secp \<Rightarrow> bytes \<Rightarrow> bytes \<Rightarrow> 'g option \<times> 'g option \<Rightarrow> 'g \<Rightarrow> bytes list" where
  "nonce_coefficient_bytes S msg ids halves pk =
     [be_bytes 4 (length ids div 4), ids, serialize_point S (fst halves), serialize_point S (snd halves), x_only_pk S pk, msg]"

definition challenge_hash :: "('f, 'g) secp \<Rightarrow> bytes \<Rightarrow> bytes \<Rightarrow> bytes \<Rightarrow> bytes" where
  "challenge_hash S r pk msg = tagged_hash S (ascii ''BIP0340/challenge'') [r, pk, msg]"

definition session_values ::
  "('f::field, 'g::ab_group_add) secp \<Rightarrow> bytes \<Rightarrow> (u64, 'g \<times> 'g) btmap \<Rightarrow> 'g \<Rightarrow> ('f \<times> 'g \<times> 'f) option" where
  "session_values S msg nonces pk =
     (let halves = aggregate_nonce_halves nonces
      in Option.bind (serialize_ids (bt_keys nonces)) (\<lambda>ids.
         Option.bind (if length ids div 4 < 2 ^ 32 then Some () else None) (\<lambda>_.
         Option.bind (scalar_mod_order (tagged_hash S (ascii ''BIP0445/noncecoef'') (nonce_coefficient_bytes S msg ids halves pk))) (\<lambda>binding.
         Option.bind (group_nonce S halves binding) (\<lambda>r.
         Option.bind (scalar_mod_order (challenge_hash S (x_only_pk S r) (x_only_pk S pk) msg)) (\<lambda>challenge.
         Some (binding, r, challenge)))))))"

section \<open>Signing\<close>

definition derive_public_nonce :: "('f, 'g) secp \<Rightarrow> 'f \<times> 'f \<Rightarrow> 'g \<times> 'g" where
  "derive_public_nonce S sn = (public_key S (fst sn), public_key S (snd sn))"

definition frost_sign_share ::
  "('f::field, 'g::ab_group_add) secp \<Rightarrow> bytes \<Rightarrow> 'f \<Rightarrow> 'f \<times> 'f \<Rightarrow> (u64, 'g \<times> 'g) btmap \<Rightarrow> u64 \<Rightarrow> 'g \<Rightarrow> 'f option" where
  "frost_sign_share S msg sks sn nonces identity pk =
     Option.bind (session_values S msg nonces pk) (\<lambda>(binding, r, challenge).
     Option.bind (lagrange_multiplier (bt_keys nonces) identity) (\<lambda>lambda.
     let (first, second) = (if even_y S r then sn else (- fst sn, - snd sn));
         k = (if even_y S pk then sks else - sks)
     in Option.bind (key_mul_tweak k lambda) (\<lambda>x.
        Option.bind (key_mul_tweak x challenge) (\<lambda>share.
        Option.bind (key_mul_tweak second binding) (\<lambda>second'.
        Option.bind (key_add_tweak first second') (\<lambda>y. key_add_tweak y share))))))"

text \<open>\<open>Some False\<close> is a rejection, \<open>None\<close> a panic.\<close>

definition frost_verify_share ::
  "('f::field, 'g::ab_group_add) secp \<Rightarrow> bytes \<Rightarrow> u64 \<Rightarrow> 'g \<Rightarrow> 'f \<Rightarrow> (u64, 'g \<times> 'g) btmap \<Rightarrow> 'g \<Rightarrow> bool option" where
  "frost_verify_share S msg node pks share nonces pk =
     (case bt_get nonces node of
        None \<Rightarrow> Some False
      | Some pn \<Rightarrow>
          Option.bind (session_values S msg nonces pk) (\<lambda>(binding, r, challenge).
          Option.bind (lagrange_multiplier (bt_keys nonces) node) (\<lambda>lambda.
          Some (case pk_mul_tweak S (snd pn) binding of
                  None \<Rightarrow> False
                | Some second \<Rightarrow>
                    (case pk_combine (fst pn) second of
                       None \<Rightarrow> False
                     | Some e \<Rightarrow>
                         (let e' = (if even_y S r then e else - e);
                              p = (if even_y S pk then pks else - pks)
                          in case key_mul_tweak lambda challenge of
                               None \<Rightarrow> False
                             | Some c \<Rightarrow>
                                 (case pk_mul_tweak S p c of
                                    None \<Rightarrow> False
                                  | Some q \<Rightarrow>
                                      (case pk_combine e' q of
                                         None \<Rightarrow> False
                                       | Some expected \<Rightarrow> public_key S share = expected))))))))"

text \<open>The signature: the x coordinate of the group nonce and the response.\<close>

definition frost_aggregate ::
  "('f::field, 'g::ab_group_add) secp \<Rightarrow> bytes \<Rightarrow> (u64, 'g \<times> 'g) btmap \<Rightarrow> (u64, 'f) btmap \<Rightarrow> 'g \<Rightarrow> (bytes \<times> 'f) option" where
  "frost_aggregate S msg nonces shares pk =
     Option.bind (session_values S msg nonces pk) (\<lambda>(_, r, _).
     map_option (\<lambda>response. (x_only_pk S r, response)) (reduce_opt key_add_tweak (bt_values shares)))"

definition interpolate_secret_key :: "(u64, 'f::field) btmap \<Rightarrow> 'f option" where
  "interpolate_secret_key shares =
     Option.bind (option_seq (map (\<lambda>(node, share).
         Option.bind (lagrange_multiplier (bt_keys shares) node) (key_mul_tweak share)) (entries shares)))
       (reduce_opt key_add_tweak)"

end
