(* ===== verification/Tss_Sign.thy ===== *)
theory Tss_Sign
  imports Tss
begin

text \<open>
  The scalar arithmetic of the threshold Schnorr scheme: reduction modulo the curve order, inversion by
  exponentiation and the Lagrange multipliers, against the field operations they stand for.

  The signing rounds: the share a node makes passes its check, and the shares of a signing set that pass
  add up to a response that satisfies the BIP340 equation for the mint's key.
\<close>

section \<open>Reduction\<close>

lemma be_value_Cons: "be_value (b # bs) = unat b * 256 ^ length bs + be_value bs"
  by (induction bs rule: rev_induct) (simp_all add: algebra_simps flip: append_Cons, simp add: be_value_def)

lemma be_value_zeros: "be_value (replicate n 0 @ bs) = be_value bs"
  by (induction n) (simp_all add: be_value_Cons)

text \<open>The borrow loop subtracts, modulo the width.\<close>

lemma sub_borrow_spec:
  "length xs = length ys \<Longrightarrow>
   length (fst (sub_borrow xs ys)) = length xs \<and>
   int (be_value (fst (sub_borrow xs ys))) = int (be_value xs) - int (be_value ys) + snd (sub_borrow xs ys) * 256 ^ length xs \<and>
   snd (sub_borrow xs ys) = (if be_value xs < be_value ys then 1 else 0)"
proof (induction xs ys rule: list_induct2)
  case (Cons x xs y ys)
  let ?r = "sub_borrow xs ys" and ?n = "length xs"
  let ?d = "uint x - uint y - snd ?r"
  have b: "snd ?r = 0 \<or> snd ?r = 1" using Cons by simp
  have r: "uint x < 256" "uint y < 256" "0 \<le> uint x" "0 \<le> uint y"
    using unsigned_less [of x, where 'a = int] unsigned_less [of y, where 'a = int] by simp_all
  have m: "?d mod 256 = ?d + (if ?d < 0 then 256 else 0)"
  proof (cases "?d < 0")
    case True
    have "?d mod 256 = (?d + 256) mod 256" by simp
    also have "\<dots> = ?d + 256" by (rule mod_pos_pos_trivial) (use True b r in linarith)+
    finally show ?thesis using True by simp
  next
    case False
    then have "?d mod 256 = ?d" using b r by (intro mod_pos_pos_trivial) linarith+
    then show ?thesis using False by simp
  qed
  have u: "int (unat (word_of_int (?d mod 256) :: u8)) = ?d mod 256"
    by (simp add: uint_word_of_int)
  let ?v = "int (be_value (fst (sub_borrow (x # xs) (y # ys))))" and ?c = "snd (sub_borrow (x # xs) (y # ys))"
  have c: "?c = (if ?d < 0 then 1 else 0)" by (simp add: case_prod_unfold Let_def)
  have v: "?v = (?d mod 256) * 256 ^ ?n + int (be_value (fst ?r))"
    using u Cons by (simp add: be_value_Cons case_prod_unfold Let_def)
  have X: "int (be_value (x # xs)) = uint x * 256 ^ ?n + int (be_value xs)"
    "int (be_value (y # ys)) = uint y * 256 ^ ?n + int (be_value ys)"
    using Cons.hyps by (simp_all add: be_value_Cons)
  have e: "?v = int (be_value (x # xs)) - int (be_value (y # ys)) + ?c * 256 ^ Suc ?n"
  proof -
    have D: "?d mod 256 = uint x - uint y - snd ?r + 256 * ?c" using m c by simp
    have V: "int (be_value (fst ?r)) = int (be_value xs) - int (be_value ys) + snd ?r * 256 ^ ?n" using Cons by simp
    show ?thesis unfolding v X D V by (simp add: algebra_simps)
  qed
  have bound: "0 \<le> ?v" "?v < 256 ^ Suc ?n"
  proof -
    have "int (be_value (fst (sub_borrow (x # xs) (y # ys)))) < 256 ^ length (fst (sub_borrow (x # xs) (y # ys)))"
      using be_value_less [of "fst (sub_borrow (x # xs) (y # ys))"] by (metis of_nat_less_iff of_nat_numeral of_nat_power)
    then show "?v < 256 ^ Suc ?n" using Cons by (simp add: case_prod_unfold Let_def)
  qed simp
  have lim: "int (be_value (x # xs)) < 256 ^ Suc ?n" "int (be_value (y # ys)) < 256 ^ Suc ?n"
    using be_value_less [of "x # xs"] be_value_less [of "y # ys"] Cons.hyps
    by (metis length_Cons of_nat_less_iff of_nat_numeral of_nat_power)+
  have "?c = (if be_value (x # xs) < be_value (y # ys) then 1 else 0)"
    using e bound lim c by (auto split: if_splits)
  then show ?case using e Cons by (simp add: case_prod_unfold Let_def)
qed simp

lemma order_bytes_value: "be_value order_bytes = CURVE_ORDER" "length order_bytes = 32"
  by (simp_all add: order_bytes_def be_value_be_bytes CURVE_ORDER_def)

text \<open>One conditional subtraction suffices, since the order exceeds half the range.\<close>

lemma scalar_mod_order_eq:
  assumes "length bs = 32"
  shows "scalar_mod_order bs = Some (of_nat (be_value bs mod CURVE_ORDER) :: 'f::field)"
proof (cases "be_value bs < CURVE_ORDER")
  case True
  then show ?thesis by (simp add: scalar_mod_order_def scalar_from_be_bytes_def)
next
  case False
  let ?ds = "fst (sub_borrow bs order_bytes)"
  have "int (be_value ?ds) = int (be_value bs) - int CURVE_ORDER"
    using sub_borrow_spec [of bs order_bytes] False assms by (simp add: order_bytes_value)
  then have v: "be_value ?ds = be_value bs - CURVE_ORDER" using False by linarith
  have "be_value bs < 256 ^ 32" using be_value_less [of bs] assms by simp
  then have "be_value bs - CURVE_ORDER < CURVE_ORDER" using False by (simp add: CURVE_ORDER_def)
  moreover from this False have "be_value bs mod CURVE_ORDER = be_value bs - CURVE_ORDER"
    by (simp add: le_mod_geq)
  ultimately show ?thesis using False v
    by (simp add: scalar_mod_order_def scalar_from_be_bytes_def)
qed

section \<open>Inversion\<close>

definition bits_value :: "bool list \<Rightarrow> nat" where
  "bits_value bs = foldl (\<lambda>a b. 2 * a + of_bool b) 0 bs"

lemma foldl_bits: "foldl (\<lambda>a b. 2 * a + of_bool b) n bs = n * 2 ^ length bs + bits_value bs"
proof (induction bs arbitrary: n)
  case (Cons b bs)
  show ?case using Cons [of "2 * n + of_bool b"] Cons [of "of_bool b"]
    by (simp add: bits_value_def algebra_simps)
qed (simp add: bits_value_def)

text \<open>The loop raises to the value of the bits.\<close>

lemma square_multiply_pow:
  assumes "k \<noteq> (0 :: 'f::field)"
  shows "square_multiply k bs (k ^ n) = Some (k ^ (n * 2 ^ length bs + bits_value bs))"
proof (induction bs arbitrary: n)
  case (Cons b bs)
  have "k ^ n * k ^ n = k ^ (2 * n)" by (simp add: mult_2 power_add)
  then have "square_multiply k (b # bs) (k ^ n) = square_multiply k bs (k ^ (2 * n + of_bool b))"
    using assms by (simp add: key_mul_tweak_def nonzero_def mult.commute)
  also have "\<dots> = Some (k ^ ((2 * n + of_bool b) * 2 ^ length bs + bits_value bs))" by (rule Cons)
  also have "(2 * n + of_bool b) * 2 ^ length bs + bits_value bs = n * 2 ^ length (b # bs) + bits_value (b # bs)"
    using foldl_bits [of "of_bool b" bs] by (simp add: bits_value_def algebra_simps)
  finally show ?case .
qed (simp add: bits_value_def)

lemma bits_value_append: "bits_value (xs @ ys) = bits_value xs * 2 ^ length ys + bits_value ys"
  using foldl_bits [of "bits_value xs" ys] by (simp add: bits_value_def)

lemma bits_value_horner: "bits_value bs = horner_sum of_bool 2 (rev bs)"
proof (induction bs rule: rev_induct)
  case (snoc b bs)
  then show ?case by (simp add: bits_value_append) (simp add: bits_value_def)
qed (simp add: bits_value_def)

lemma bits_value_byte: "bits_value (byte_bits w) = unat w"
proof -
  have "(and (drop_bit i w) 1 = 1) = bit (unat w) i" for i
  proof -
    have "(and (drop_bit i w) 1 = 1) = odd (drop_bit i w)" by (simp add: and_one_eq odd_iff_mod_2_eq_one)
    also have "\<dots> = bit w i" by (simp add: bit_iff_odd_drop_bit)
    also have "\<dots> = bit (unat w) i" by (simp add: bit_unsigned_iff)
    finally show ?thesis .
  qed
  then have "rev (byte_bits w) = map (bit (unat w)) [0..<8]" by (simp add: byte_bits_def rev_map)
  then have "bits_value (byte_bits w) = take_bit 8 (unat w)"
    by (simp only: bits_value_horner horner_sum_bit_eq_take_bit)
  also have "\<dots> = unat w" using unsigned_less [of w, where 'a = nat] by (simp add: take_bit_eq_mod)
  finally show ?thesis .
qed

lemma bits_value_bytes: "bits_value (concat (map byte_bits bs)) = be_value bs"
proof (induction bs rule: rev_induct)
  case (snoc b bs)
  have "length (byte_bits b) = 8" by (simp add: byte_bits_def)
  with snoc show ?case by (simp add: bits_value_append bits_value_byte)
qed (simp add: bits_value_def)

text \<open>No borrow: the last byte of the order is \<open>0x41\<close>.\<close>

lemma exponent_value: "bits_value (concat (map byte_bits invert_exponent)) = CURVE_ORDER - 2"
proof -
  let ?hi = "be_bytes 31 (CURVE_ORDER div 256)"
  have l: "CURVE_ORDER mod 256 = 0x41" by (simp add: CURVE_ORDER_def)
  have o: "order_bytes = ?hi @ [0x41]"
    using be_bytes.simps(2) [of 31 CURVE_ORDER] by (simp add: order_bytes_def l)
  have e: "invert_exponent = ?hi @ [0x3F]"
    by (simp add: invert_exponent_def o nth_append list_update_append)
  have "be_value invert_exponent = 256 * be_value ?hi + 0x3F" unfolding e be_value_snoc by simp
  moreover have "256 * be_value ?hi + 0x41 = CURVE_ORDER" using order_bytes_value(1) by (simp add: o)
  ultimately show ?thesis unfolding bits_value_bytes by linarith
qed

text \<open>The order of the group of nonzero scalars divides the curve order less one.\<close>

definition fermat :: "'f::field itself \<Rightarrow> bool" where
  "fermat F \<longleftrightarrow> (\<forall>k :: 'f. k \<noteq> 0 \<longrightarrow> k ^ (CURVE_ORDER - 1) = 1)"

lemma invert_eq:
  assumes "fermat TYPE('f)" "k \<noteq> (0 :: 'f::field)"
  shows "invert k = Some (inverse k)"
proof -
  have "k ^ (CURVE_ORDER - 2) * k = k ^ Suc (CURVE_ORDER - 2)" by (rule power_Suc2 [symmetric])
  also have "Suc (CURVE_ORDER - 2) = CURVE_ORDER - 1" by (simp add: CURVE_ORDER_def)
  finally have "k ^ (CURVE_ORDER - 2) = inverse k"
    using assms by (metis fermat_def inverse_unique mult.commute inverse_inverse_eq)
  then show ?thesis
    using square_multiply_pow [OF assms(2), of "concat (map byte_bits invert_exponent)" 0]
    by (simp add: invert_def key_from_u64_def exponent_value)
qed

section \<open>Lagrange multipliers\<close>

text \<open>Ids that fit four bytes, with distinct nonzero evaluation points.\<close>

definition good_points :: "'f::field itself \<Rightarrow> u64 list \<Rightarrow> bool" where
  "good_points F js \<longleftrightarrow> (\<forall>j \<in> set js. unat j < 2 ^ 32 \<and> eval_point j \<noteq> (0 :: 'f)) \<and>
     inj_on (eval_point :: u64 \<Rightarrow> 'f) (set js)"

lemma scalar_point: "scalar_from_u64 (j + 1) = eval_point j"
  by (simp add: scalar_from_u64_def eval_point_def)

lemma difference_eq:
  assumes "unat a < 2 ^ 32" "unat b < 2 ^ 32" "a \<noteq> b"
  shows "difference a b = Some (eval_point a - eval_point b :: 'f::field)"
proof -
  have p: "(eval_point c :: 'f) = of_nat (unat c) + 1" if "unat c < 2 ^ 32" for c :: u64
  proof -
    have "c \<noteq> - 1" using that by (auto simp: unsigned_minus_1_eq_mask mask_eq_exp_minus_1)
    then show ?thesis by (simp add: eval_point_def unat_succ)
  qed
  show ?thesis
  proof (cases "a > b")
    case True
    then have le: "b \<le> a" by simp
    from unat_sub [OF le] le have "unat (a - b) = unat a - unat b" "unat b \<le> unat a" by (auto simp: word_le_nat_alt)
    then have "(of_nat (unat (a - b)) :: 'f) = of_nat (unat a) - of_nat (unat b)" by (simp add: of_nat_diff)
    then show ?thesis using True assms p by (simp add: difference_def key_from_u64_def)
  next
    case False
    then have le: "a \<le> b" by simp
    from unat_sub [OF le] le have "unat (b - a) = unat b - unat a" "unat a \<le> unat b" by (auto simp: word_le_nat_alt)
    then have "(of_nat (unat (b - a)) :: 'f) = of_nat (unat b) - of_nat (unat a)" by (simp add: of_nat_diff)
    then show ?thesis using False assms p by (simp add: difference_def key_from_u64_def)
  qed
qed

lemma multiplier_loop_eq:
  assumes "good_points TYPE('f) ks" "i \<in> set ks"
  shows "set js \<subseteq> set ks \<Longrightarrow> num \<noteq> 0 \<Longrightarrow> den \<noteq> 0 \<Longrightarrow>
    multiplier_loop i js (num, den) =
      Some (num * (\<Prod>j\<leftarrow>filter (\<lambda>j. j \<noteq> i) js. eval_point j), den * (\<Prod>j\<leftarrow>filter (\<lambda>j. j \<noteq> i) js. eval_point j - eval_point i :: 'f::field))"
proof (induction js arbitrary: num den)
  case (Cons j js)
  have g: "unat j < 2 ^ 32" "unat i < 2 ^ 32" "eval_point j \<noteq> (0 :: 'f)"
    using assms Cons.prems(1) by (auto simp: good_points_def)
  show ?case
  proof (cases "j = i")
    case False
    then have "eval_point j - eval_point i \<noteq> (0 :: 'f)"
      using assms Cons.prems(1) by (auto simp: good_points_def dest: inj_onD)
    then show ?thesis
      using Cons g False difference_eq [OF g(1,2) False, where 'f = 'f]
      by (simp add: key_mul_tweak_def nonzero_def scalar_point mult.assoc)
  qed (use Cons in simp)
qed simp

lemma prod_list_nonzero: "(\<And>x. x \<in> set xs \<Longrightarrow> f x \<noteq> (0 :: 'f::field)) \<Longrightarrow> (\<Prod>x\<leftarrow>xs. f x) \<noteq> 0"
  by (induction xs) auto

lemma prod_list_divide: "(\<Prod>x\<leftarrow>xs. f x * inverse (g x)) = (\<Prod>x\<leftarrow>xs. f x) * inverse (\<Prod>x\<leftarrow>xs. g x :: 'f::field)"
  by (induction xs) (simp_all add: inverse_mult_distrib algebra_simps)

text \<open>The multiplier is the interpolation coefficient at zero.\<close>

lemma lagrange_multiplier_eq:
  assumes f: "fermat TYPE('f)" and g: "good_points TYPE('f) ks" and i: "i \<in> set ks"
  shows "lagrange_multiplier ks i = Some (lagrange (map eval_point ks) (eval_point i) :: 'f::field)"
proof -
  let ?js = "filter (\<lambda>j. j \<noteq> i) ks"
  let ?num = "\<Prod>j\<leftarrow>?js. eval_point j :: 'f" and ?den = "\<Prod>j\<leftarrow>?js. eval_point j - eval_point i :: 'f"
  have n: "?num \<noteq> 0" by (rule prod_list_nonzero) (use g in \<open>auto simp: good_points_def\<close>)
  have d: "?den \<noteq> 0" by (rule prod_list_nonzero) (use g i in \<open>auto simp: good_points_def dest: inj_onD\<close>)
  have "multiplier_loop i ks (1, 1) = Some (?num, ?den)"
    using multiplier_loop_eq [OF g i subset_refl, of 1 1] by simp
  moreover have "lagrange (map eval_point ks) (eval_point i) = ?num * inverse ?den"
  proof -
    have "eval_point j \<noteq> (eval_point i :: 'f) \<longleftrightarrow> j \<noteq> i" if "j \<in> set ks" for j
      using g i that by (auto simp: good_points_def dest: inj_onD)
    then have "filter (\<lambda>x. x \<noteq> eval_point i) (map eval_point ks :: 'f list) = map eval_point ?js"
      by (simp add: filter_map comp_def cong: filter_cong)
    then show ?thesis by (simp add: lagrange_def comp_def prod_list_divide)
  qed
  moreover have "?num * inverse ?den \<noteq> 0" using n d by simp
  ultimately show ?thesis using invert_eq [OF f d]
    by (simp add: lagrange_multiplier_def key_from_u64_def key_mul_tweak_def)
qed

lemma map_Some_eqD:
  "map f xs = map Some ts \<Longrightarrow> (\<And>x u. x \<in> set xs \<Longrightarrow> f x = Some u \<Longrightarrow> u = g x) \<Longrightarrow> ts = map g xs"
proof (induction xs arbitrary: ts)
  case (Cons x xs)
  then obtain t us where "ts = t # us" "f x = Some t" "map f xs = map Some us" by (cases ts) auto
  with Cons show ?case by simp
qed simp

text \<open>The inverse of the dealing: shares of a polynomial give its constant back.\<close>

theorem interpolate_secret_key_eq:
  fixes shares :: "(u64, 'f::field) btmap"
  assumes f: "fermat TYPE('f)" and g: "good_points TYPE('f) (bt_keys shares)"
    and l: "length cs \<le> bt_len shares" and s: "\<And>i k. bt_get shares i = Some k \<Longrightarrow> k = peval cs (eval_point i)"
    and r: "interpolate_secret_key shares = Some key"
  shows "key = peval cs 0"
proof -
  let ?ks = "bt_keys shares" let ?xs = "map eval_point ?ks :: 'f list"
  obtain ts where t: "option_seq (map (\<lambda>(i, k). Option.bind (lagrange_multiplier ?ks i) (key_mul_tweak k)) (entries shares)) = Some ts"
    "reduce_opt key_add_tweak ts = Some key"
    using r by (auto simp: interpolate_secret_key_def bind_eq_Some_conv)
  have "u = (\<lambda>(i, k). lagrange ?xs (eval_point i) * peval cs (eval_point i)) x"
    if x: "x \<in> set (entries shares)"
      and u: "(\<lambda>(i, k). Option.bind (lagrange_multiplier ?ks i) (key_mul_tweak k)) x = Some u" for x u
  proof -
    obtain i k where ik: "x = (i, k)" by fastforce
    then have b: "bt_get shares i = Some k" using x by (simp add: bt_get_Some_iff)
    then have "i \<in> set ?ks" by (simp add: set_bt_keys)
    then show ?thesis using u lagrange_multiplier_eq [OF f g] s [OF b] by (simp add: ik key_mul_tweak_def mult.commute)
  qed
  from map_Some_eqD [OF t(1) [unfolded option_seq_Some_iff] this]
  have "ts = map (\<lambda>(i, k). lagrange ?xs (eval_point i) * peval cs (eval_point i)) (entries shares)" .
  then have "sum_list ts = (\<Sum>x\<leftarrow>?xs. lagrange ?xs x * peval cs x)"
    by (simp add: bt_keys_def comp_def case_prod_unfold)
  also have "\<dots> = peval cs 0"
  proof (rule interpolation)
    show "distinct ?xs" using g by (auto simp: good_points_def distinct_map)
    show "length cs \<le> length ?xs" using l by (simp add: length_bt_keys bt_len_def)
  qed
  finally show ?thesis using reduce_opt_sum [of ts key] t(2) by (simp add: key_add_tweak_def [abs_def])
qed

section \<open>The curve\<close>

text \<open>
  A group of the field's scalars with a generator; the two points of an x coordinate are opposite and
  one of them is even.
\<close>

definition secp_laws :: "('f::field, 'g::ab_group_add) secp \<Rightarrow> bool" where
  "secp_laws S \<longleftrightarrow> scalar_laws (secp_mul S) \<and> secp_base S \<noteq> 0 \<and>
     (\<forall>p. p \<noteq> 0 \<longrightarrow> even_y S (- p) = (\<not> even_y S p) \<and> x_only_pk S (- p) = x_only_pk S p) \<and>
     (\<forall>bs. length (secp_sha256 S bs) = 32)"

lemma secp_lawsD:
  assumes "secp_laws S"
  shows "scalar_laws (secp_mul S)" "secp_base S \<noteq> 0" "p \<noteq> 0 \<Longrightarrow> even_y S (- p) = (\<not> even_y S p)"
    "p \<noteq> 0 \<Longrightarrow> x_only_pk S (- p) = x_only_pk S p" "length (secp_sha256 S bs) = 32"
  using assms unfolding secp_laws_def by blast+

lemma secp_mul_zero_iff:
  assumes "scalar_laws sm"
  shows "sm a p = 0 \<longleftrightarrow> a = 0 \<or> p = 0"
  using scalar_inverse [OF assms, of a p] scalar_zero [OF assms] by metis

lemma public_key_zero_iff: "secp_laws S \<Longrightarrow> public_key S k = 0 \<longleftrightarrow> k = 0"
  by (simp add: public_key_def secp_mul_zero_iff secp_lawsD)

section \<open>The group nonce\<close>

definition nonces_ok :: "(u64, 'g::zero \<times> 'g) btmap \<Rightarrow> bool" where
  "nonces_ok nonces \<longleftrightarrow> (\<forall>pn \<in> set (bt_values nonces). fst pn \<noteq> 0 \<and> snd pn \<noteq> 0)"

text \<open>The nonce of a node under the binding coefficient, and their sum.\<close>

definition effective_nonce :: "('f, 'g::ab_group_add) secp \<Rightarrow> 'f \<Rightarrow> 'g \<times> 'g \<Rightarrow> 'g" where
  "effective_nonce S b pn = fst pn + secp_mul S b (snd pn)"

definition nonce_sum :: "('f, 'g::ab_group_add) secp \<Rightarrow> 'f \<Rightarrow> (u64, 'g \<times> 'g) btmap \<Rightarrow> 'g" where
  "nonce_sum S b nonces = (\<Sum>pn\<leftarrow>bt_values nonces. effective_nonce S b pn)"

lemma add_point_nonzero: "p \<noteq> 0 \<Longrightarrow> add_point (nonzero a) p = nonzero (a + p)"
  by (simp add: add_point_def pk_combine_def nonzero_def)

lemma halves_eq:
  assumes "nonces_ok nonces"
  shows "aggregate_nonce_halves nonces =
    (nonzero (\<Sum>pn\<leftarrow>bt_values nonces. fst pn), nonzero (\<Sum>pn\<leftarrow>bt_values nonces. snd pn))"
proof -
  have "foldl (\<lambda>(a, b) (p, q). (add_point a p, add_point b q)) (nonzero a, nonzero b) pns =
      (nonzero (a + (\<Sum>pn\<leftarrow>pns. fst pn)), nonzero (b + (\<Sum>pn\<leftarrow>pns. snd pn)))"
    if "\<forall>pn \<in> set pns. fst pn \<noteq> 0 \<and> snd pn \<noteq> 0" for a b :: 'a and pns
    using that by (induction pns arbitrary: a b) (auto simp: add_point_nonzero add.assoc)
  from this [of "bt_values nonces" 0 0] show ?thesis
    using assms by (simp add: aggregate_nonce_halves_def nonces_ok_def nonzero_def)
qed

lemma group_nonce_eq:
  assumes L: "secp_laws S" and r: "group_nonce S (nonzero d, nonzero e) b = Some r"
  shows "r = (if d + secp_mul S b e = 0 then secp_base S else d + secp_mul S b e)"
proof -
  have one: "public_key S 1 = secp_base S" by (simp add: public_key_def scalar_lawsD(4) [OF secp_lawsD(1) [OF L]])
  show ?thesis
    using r one scalar_zero [OF secp_lawsD(1) [OF L]]
    by (auto simp: group_nonce_def nonzero_def pk_mul_tweak_def pk_combine_def key_from_u64_def bind_eq_Some_conv
        split: if_splits option.splits)
qed

lemma session_group_nonce:
  assumes L: "secp_laws S" and ok: "nonces_ok nonces" and s: "session_values S msg nonces pk = Some (b, r, c)"
  shows "r = (if nonce_sum S b nonces = 0 then secp_base S else nonce_sum S b nonces)"
    "scalar_mod_order (challenge_hash S (x_only_pk S r) (x_only_pk S pk) msg) = Some c"
proof -
  have g: "group_nonce S (aggregate_nonce_halves nonces) b = Some r"
    and c: "scalar_mod_order (challenge_hash S (x_only_pk S r) (x_only_pk S pk) msg) = Some c"
    using s by (auto simp: session_values_def Let_def bind_eq_Some_conv split: if_splits)
  have "nonce_sum S b nonces = (\<Sum>pn\<leftarrow>bt_values nonces. fst pn) + secp_mul S b (\<Sum>pn\<leftarrow>bt_values nonces. snd pn)"
    by (simp add: nonce_sum_def effective_nonce_def sum_list_addf scalar_sum_list [OF secp_lawsD(1) [OF L]])
  then show "r = (if nonce_sum S b nonces = 0 then secp_base S else nonce_sum S b nonces)"
    using group_nonce_eq [OF L g [unfolded halves_eq [OF ok]]] by simp
  show "scalar_mod_order (challenge_hash S (x_only_pk S r) (x_only_pk S pk) msg) = Some c" by (rule c)
qed

section \<open>Shares\<close>

definition with_sign :: "bool \<Rightarrow> 'g::group_add \<Rightarrow> 'g" where
  "with_sign positive x = (if positive then x else - x)"

lemma with_sign_simps:
  "with_sign p (x + y) = with_sign p x + with_sign p (y :: 'a::ab_group_add)" "with_sign p (x :: 'a) = 0 \<longleftrightarrow> x = 0"
  by (simp_all add: with_sign_def)

lemma with_sign_sum: "with_sign p (\<Sum>i\<leftarrow>is. f i :: 'a::ab_group_add) = (\<Sum>i\<leftarrow>is. with_sign p (f i))"
proof (induction "is")
  case Nil
  show ?case by (simp add: with_sign_def)
qed (simp add: with_sign_simps(1))

lemma with_sign_scalar: "scalar_laws sm \<Longrightarrow> sm (with_sign p a) x = with_sign p (sm a x)" "scalar_laws sm \<Longrightarrow> sm a (with_sign p x) = with_sign p (sm a x)"
  by (simp_all add: with_sign_def scalar_minus)

lemma with_sign_times: "with_sign p (a :: 'f::field) * b = with_sign p (a * b)"
  by (simp add: with_sign_def)

lemma if_with_sign: "(if p then x else - x) = with_sign p x"
  by (simp add: with_sign_def)

text \<open>The response a node makes.\<close>

lemma sign_share_eq:
  assumes "frost_sign_share S msg sks sn nonces i pk = Some z"
  shows "\<exists>b r c l. session_values S msg nonces pk = Some (b, r, c) \<and> lagrange_multiplier (bt_keys nonces) i = Some l \<and>
    z = with_sign (even_y S r) (fst sn + snd sn * b) + with_sign (even_y S pk) (sks * l * c) \<and>
    z \<noteq> 0 \<and> sks * l * c \<noteq> 0 \<and> snd sn * b \<noteq> 0 \<and> fst sn + snd sn * b \<noteq> 0"
proof -
  obtain b r c where s1: "session_values S msg nonces pk = Some (b, r, c)"
    using assms by (cases "session_values S msg nonces pk") (auto simp: frost_sign_share_def)
  moreover have "lagrange_multiplier (bt_keys nonces) i \<noteq> (None :: 'a option)"
    using assms s1 by (cases "lagrange_multiplier (bt_keys nonces) i :: 'a option") (simp_all add: frost_sign_share_def)
  then obtain l where "lagrange_multiplier (bt_keys nonces) i = Some (l :: 'a)" by blast
  ultimately have s: "session_values S msg nonces pk = Some (b, r, c)" "lagrange_multiplier (bt_keys nonces) i = Some l" .
  have "(if even_y S r then sn else (- fst sn, - snd sn)) = (with_sign (even_y S r) (fst sn), with_sign (even_y S r) (snd sn))"
    by (simp add: with_sign_def)
  then show ?thesis using assms
    by (auto simp: frost_sign_share_def s if_with_sign with_sign_times key_mul_tweak_def key_add_tweak_def bind_eq_Some_conv
        with_sign_simps(2) simp flip: with_sign_simps(1))
qed

text \<open>What the check of a share accepts.\<close>

lemma verify_share_iff:
  assumes L: "secp_laws S" and n: "bt_get nonces i = Some pn" and s: "session_values S msg nonces pk = Some (b, r, c)"
    and l: "lagrange_multiplier (bt_keys nonces) i = Some l"
  shows "frost_verify_share S msg i pks z nonces pk = Some True \<longleftrightarrow>
    public_key S z = with_sign (even_y S r) (effective_nonce S b pn) + with_sign (even_y S pk) (secp_mul S (l * c) pks) \<and>
    secp_mul S b (snd pn) \<noteq> 0 \<and> effective_nonce S b pn \<noteq> 0 \<and> l * c \<noteq> 0 \<and> secp_mul S (l * c) pks \<noteq> 0 \<and> public_key S z \<noteq> 0"
  by (auto simp: frost_verify_share_def n s l if_with_sign pk_mul_tweak_def pk_combine_def key_mul_tweak_def nonzero_def Let_def
      effective_nonce_def with_sign_scalar(2) [OF secp_lawsD(1) [OF L]] with_sign_simps(2))

theorem sign_share_verifies:
  assumes L: "secp_laws S" and n: "bt_get nonces i = Some (derive_public_nonce S sn)"
    and z: "frost_sign_share S msg sks sn nonces i pk = Some z"
  shows "frost_verify_share S msg i (public_key S sks) z nonces pk = Some True"
proof -
  note M = secp_lawsD(1) [OF L]
  obtain b r c l where s: "session_values S msg nonces pk = Some (b, r, c)" "lagrange_multiplier (bt_keys nonces) i = Some l"
    and zz: "z = with_sign (even_y S r) (fst sn + snd sn * b) + with_sign (even_y S pk) (sks * l * c)"
    and nz: "z \<noteq> 0" "sks * l * c \<noteq> 0" "snd sn * b \<noteq> 0" "fst sn + snd sn * b \<noteq> 0"
    using sign_share_eq [OF z] by blast
  have e: "effective_nonce S b (derive_public_nonce S sn) = public_key S (fst sn + snd sn * b)"
    by (simp add: effective_nonce_def derive_public_nonce_def public_key_def scalar_lawsD [OF M] mult.commute [of _ b])
  have k: "secp_mul S (l * c) (public_key S sks) = public_key S (sks * l * c)"
    using scalar_lawsD(3) [OF M, of "l * c" sks "secp_base S"] by (simp add: public_key_def mult.commute mult.left_commute)
  have "secp_mul S b (snd (derive_public_nonce S sn)) = public_key S (snd sn * b)"
    using scalar_lawsD(3) [OF M, of b "snd sn" "secp_base S"] by (simp add: derive_public_nonce_def public_key_def mult.commute)
  moreover have "public_key S z = with_sign (even_y S r) (public_key S (fst sn + snd sn * b)) + with_sign (even_y S pk) (public_key S (sks * l * c))"
    by (simp add: zz public_key_def scalar_lawsD(1) [OF M] with_sign_scalar(1) [OF M] with_sign_simps)
  moreover have "public_key S z \<noteq> 0" "public_key S (sks * l * c) \<noteq> 0" "l * c \<noteq> 0" "public_key S (snd sn * b) \<noteq> 0"
    "public_key S (fst sn + snd sn * b) \<noteq> 0"
    using nz by (simp_all add: public_key_zero_iff [OF L])
  ultimately show ?thesis unfolding verify_share_iff [OF L n s] e k by auto
qed

section \<open>The signature\<close>

text \<open>BIP340: the response opens the even points of the nonce and of the key, under their challenge.\<close>

definition bip340_accepts :: "('f::field, 'g::ab_group_add) secp \<Rightarrow> bytes \<Rightarrow> bytes \<times> 'f \<Rightarrow> bytes \<Rightarrow> bool" where
  "bip340_accepts S msg sig px \<longleftrightarrow> (\<exists>r p c. r \<noteq> 0 \<and> p \<noteq> 0 \<and> even_y S r \<and> even_y S p \<and> x_only_pk S r = fst sig \<and> x_only_pk S p = px \<and>
     scalar_mod_order (challenge_hash S (fst sig) px msg) = Some c \<and> public_key S (snd sig) = r + secp_mul S c p)"

lemma even_point:
  assumes "secp_laws S" "p \<noteq> 0"
  shows "even_y S (with_sign (even_y S p) p)" "x_only_pk S (with_sign (even_y S p) p) = x_only_pk S p" "with_sign (even_y S p) p \<noteq> 0"
  using secp_lawsD(3,4) [OF assms] assms(2) by (simp_all add: with_sign_def)

text \<open>The response is the sum of the shares.\<close>

lemma frost_aggregate_eq:
  assumes "frost_aggregate S msg nonces shares pk = Some (rx, z)"
  shows "\<exists>b r c. session_values S msg nonces pk = Some (b, r, c) \<and> rx = x_only_pk S r \<and> z = sum_list (bt_values shares)"
  using assms reduce_opt_sum [of "bt_values shares" z]
  by (auto simp: frost_aggregate_def bind_eq_Some_conv key_add_tweak_def [abs_def])

theorem shares_open_equation:
  fixes S :: "('f::field, 'g::ab_group_add) secp"
  assumes L: "secp_laws S" and f: "fermat TYPE('f)" and g: "good_points TYPE('f) (bt_keys nonces)"
    and keys: "bt_keys shares = bt_keys nonces" and l: "cs \<noteq> []" "length cs \<le> bt_len nonces"
    and s: "session_values S msg nonces (hd cs) = Some (b, r, c)"
    and ok: "\<And>i z. bt_get shares i = Some z \<Longrightarrow>
      frost_verify_share S msg i (gpeval (secp_mul S) cs (eval_point i)) z nonces (hd cs) = Some True"
  shows "public_key S (sum_list (bt_values shares)) =
    with_sign (even_y S r) (nonce_sum S b nonces) + with_sign (even_y S (hd cs)) (secp_mul S c (hd cs))"
proof -
  note M = secp_lawsD(1) [OF L]
  let ?ks = "bt_keys nonces" let ?xs = "map eval_point ?ks :: 'f list"
  let ?pn = "\<lambda>i. the (bt_get nonces i)" and ?z = "\<lambda>i. the (bt_get shares i)"
  let ?R = "with_sign (even_y S r)" and ?P = "with_sign (even_y S (hd cs))"
  let ?l = "\<lambda>i. lagrange ?xs (eval_point i)" and ?pk = "\<lambda>i. gpeval (secp_mul S) cs (eval_point i)"
  have each: "public_key S (?z i) = ?R (effective_nonce S b (?pn i)) + ?P (secp_mul S c (secp_mul S (?l i) (?pk i)))"
    if i: "i \<in> set ?ks" for i
  proof -
    obtain pn where pn: "bt_get nonces i = Some pn" using i by (auto simp: set_bt_keys)
    obtain z where z: "bt_get shares i = Some z" using i by (auto simp: set_bt_keys simp flip: keys)
    show ?thesis
      using ok [OF z] verify_share_iff [OF L pn s lagrange_multiplier_eq [OF f g i]] z pn
        scalar_lawsD(3) [OF M, of c "?l i" "?pk i"]
      by (simp add: mult.commute)
  qed
  have "public_key S (sum_list (bt_values shares)) = (\<Sum>i\<leftarrow>?ks. public_key S (?z i))"
    by (simp add: bt_values_keys keys public_key_def scalar_sum_list(1) [OF M])
  also have "\<dots> = (\<Sum>i\<leftarrow>?ks. ?R (effective_nonce S b (?pn i)) + ?P (secp_mul S c (secp_mul S (?l i) (?pk i))))"
    by (intro arg_cong [where f = sum_list] map_cong refl each)
  also have "\<dots> = ?R (nonce_sum S b nonces) + ?P (secp_mul S c (\<Sum>i\<leftarrow>?ks. secp_mul S (?l i) (?pk i)))"
    by (simp add: sum_list_addf nonce_sum_def bt_values_keys comp_def with_sign_sum scalar_sum_list(2) [OF M])
  also have "(\<Sum>i\<leftarrow>?ks. secp_mul S (?l i) (?pk i)) = (\<Sum>x\<leftarrow>?xs. secp_mul S (lagrange ?xs x) (gpeval (secp_mul S) cs x))"
    by (simp add: comp_def)
  also have "\<dots> = gpeval (secp_mul S) cs 0"
  proof (rule interpolation_group [OF M])
    show "distinct ?xs" using g by (auto simp: good_points_def distinct_map)
    show "length cs \<le> length ?xs" using l by (simp add: length_bt_keys bt_len_def)
  qed
  finally show ?thesis using gpeval_zero [OF M l(1)] by simp
qed

theorem aggregate_accepted:
  fixes S :: "('f::field, 'g::ab_group_add) secp"
  assumes L: "secp_laws S" and f: "fermat TYPE('f)" and g: "good_points TYPE('f) (bt_keys nonces)"
    and n: "nonces_ok nonces" and keys: "bt_keys shares = bt_keys nonces"
    and l: "cs \<noteq> []" "length cs \<le> bt_len nonces" "hd cs \<noteq> 0"
    and open_nonce: "\<And>b r c. session_values S msg nonces (hd cs) = Some (b, r, c) \<Longrightarrow> nonce_sum S b nonces \<noteq> 0"
    and ok: "\<And>i z. bt_get shares i = Some z \<Longrightarrow>
      frost_verify_share S msg i (gpeval (secp_mul S) cs (eval_point i)) z nonces (hd cs) = Some True"
    and a: "frost_aggregate S msg nonces shares (hd cs) = Some sig"
  shows "bip340_accepts S msg sig (x_only_pk S (hd cs))"
proof -
  note M = secp_lawsD(1) [OF L]
  obtain b r c where s: "session_values S msg nonces (hd cs) = Some (b, r, c)"
    and sig: "fst sig = x_only_pk S r" "snd sig = sum_list (bt_values shares)"
    using frost_aggregate_eq [of S msg nonces shares "hd cs" "fst sig" "snd sig"] a by auto
  have r: "r = nonce_sum S b nonces" "r \<noteq> 0"
    using session_group_nonce(1) [OF L n s] open_nonce [OF s] by simp_all
  let ?r = "with_sign (even_y S r) r" and ?p = "with_sign (even_y S (hd cs)) (hd cs)"
  have "public_key S (snd sig) = ?r + secp_mul S c ?p"
    using shares_open_equation [OF L f g keys l(1,2) s ok] by (simp add: sig r(1) [symmetric] with_sign_scalar(2) [OF M])
  moreover have "scalar_mod_order (challenge_hash S (x_only_pk S r) (x_only_pk S (hd cs)) msg) = Some c"
    by (rule session_group_nonce(2) [OF L n s])
  ultimately show ?thesis
    unfolding bip340_accepts_def sig(1) using even_point [OF L r(2)] even_point [OF L l(3)] by metis
qed

end
