(* ===== verification/Tss_Wallet.thy ===== *)
theory Tss_Wallet
  imports Onchain_Sessions Tss_Sign
begin

text \<open>
  The wallet on the threshold signatures of \<open>picomint-tss\<close>: the operations the onchain module calls
  are those of \<open>Tss\<close>, on the points and scalars its words stand for, and a session whose signers
  differ and whose nonces do not cancel aggregates to a signature that BIP340 accepts.
\<close>

section \<open>Words and points\<close>

text \<open>
  What the words of the onchain module stand for: \<open>PublicKey\<close>, \<open>PublicNonce\<close>, \<open>SecretKeyShare\<close>,
  \<open>SecretNonce\<close>, \<open>SignatureShare\<close>, the parts of a \<open>schnorr::Signature\<close>, and the way back for the values
  the scheme makes.
\<close>

record ('f, 'g) tss_repr =
  pk_point :: "secp_pk \<Rightarrow> 'g"
  nonce_points :: "tss_nonce \<Rightarrow> 'g \<times> 'g"
  nonce_word :: "'g \<times> 'g \<Rightarrow> tss_nonce"
  key_scalar :: "scalar \<Rightarrow> 'f"
  nonce_scalars :: "bytes \<Rightarrow> 'f \<times> 'f"
  share_scalar :: "tss_share \<Rightarrow> 'f"
  share_word :: "'f \<Rightarrow> tss_share"
  sig_parts :: "schnorr_sig \<Rightarrow> bytes \<times> 'f"
  sig_word :: "bytes \<times> 'f \<Rightarrow> schnorr_sig"

definition map_rows :: "('v \<Rightarrow> 'w) \<Rightarrow> ('k::linorder, 'v) btmap \<Rightarrow> ('k, 'w) btmap" where
  "map_rows f m = bt_of_list (map (\<lambda>(k, v). (k, f v)) (entries m))"

lemma map_rows_get: "bt_get (map_rows f m) k = map_option f (bt_get m k)"
proof -
  have d: "distinct (map fst (map (\<lambda>(k, v). (k, f v)) (entries m)))"
    by (simp add: comp_def case_prod_unfold distinct_entries)
  show ?thesis
  proof (cases "bt_get m k")
    case None
    then have "\<nexists>v. (k, v) \<in> set (map (\<lambda>(k, v). (k, f v)) (entries m))" by (auto simp: bt_get_Some_iff [symmetric])
    then have "bt_get (map_rows f m) k \<noteq> Some v" for v unfolding map_rows_def bt_get_of_list_distinct [OF d] by blast
    then show ?thesis using None by (cases "bt_get (map_rows f m) k") auto
  next
    case (Some v)
    then have "(k, f v) \<in> set (map (\<lambda>(k, v). (k, f v)) (entries m))" by (force simp: bt_get_Some_iff)
    then show ?thesis using Some unfolding map_rows_def by (simp add: bt_get_of_list_distinct [OF d])
  qed
qed

lemma map_rows_keys: "bt_keys (map_rows f m) = bt_keys m"
  by (rule bt_keys_eqI) (auto simp: set_bt_keys map_rows_get)

lemma map_rows_len: "bt_len (map_rows f m) = bt_len m"
  using map_rows_keys [of f m] by (metis length_bt_keys bt_len_def)

section \<open>The operations\<close>

text \<open>
  A check that panics accepts nothing; the properties of the wallet show apart that it does not
  panic. The same for an aggregation. \<open>verify\<close> is the BIP340 check of the curve crate.
\<close>

abbreviation tss_points :: "('f, 'g) tss_repr \<Rightarrow> (u64, tss_nonce) btmap \<Rightarrow> (u64, 'g \<times> 'g) btmap" where
  "tss_points R col \<equiv> map_rows (nonce_points R) col"

definition with_tss :: "('f::field, 'g::ab_group_add) secp \<Rightarrow> ('f, 'g) tss_repr \<Rightarrow> wallet_ops \<Rightarrow> wallet_ops" where
  "with_tss Sx R B = B
     \<lparr>tss_verify_share := \<lambda>msg n pks s col agg.
        frost_verify_share Sx (enc_hash msg) n (pk_point R pks) (share_scalar R s) (tss_points R col) (pk_point R agg) = Some True,
      tss_aggregate := \<lambda>msg col shares agg.
        sig_word R (the (frost_aggregate Sx (enc_hash msg) (tss_points R col) (map_rows (share_scalar R) shares) (pk_point R agg))),
      tss_verify := \<lambda>msg sig agg. bip340_accepts Sx (enc_hash msg) (sig_parts R sig) (x_only_pk Sx (pk_point R agg)),
      tss_sign_share := \<lambda>msg sk sn col n agg.
        share_word R (the (frost_sign_share Sx (enc_hash msg) (key_scalar R sk) (nonce_scalars R sn) (tss_points R col) n (pk_point R agg))),
      derive_public_nonce := \<lambda>sn. nonce_word R (Tss.derive_public_nonce Sx (nonce_scalars R sn))\<rparr>"

lemma with_tss_fields [simp]:
  "add_exp_tweak (with_tss Sx R B) = add_exp_tweak B" "x_only (with_tss Sx R B) = x_only B"
  "new_p2tr (with_tss Sx R B) = new_p2tr B" "compute_txid (with_tss Sx R B) = compute_txid B"
  "taproot_sighash (with_tss Sx R B) = taproot_sighash B"
  by (simp_all add: with_tss_def)

lemma with_tss_scheme:
  "tss_verify_share (with_tss Sx R B) msg n pks s col agg \<longleftrightarrow>
     frost_verify_share Sx (enc_hash msg) n (pk_point R pks) (share_scalar R s) (tss_points R col) (pk_point R agg) = Some True"
  "tss_aggregate (with_tss Sx R B) msg col shares agg =
     sig_word R (the (frost_aggregate Sx (enc_hash msg) (tss_points R col) (map_rows (share_scalar R) shares) (pk_point R agg)))"
  "tss_verify (with_tss Sx R B) msg sig agg \<longleftrightarrow>
     bip340_accepts Sx (enc_hash msg) (sig_parts R sig) (x_only_pk Sx (pk_point R agg))"
  "tss_sign_share (with_tss Sx R B) msg sk sn col n agg =
     share_word R (the (frost_sign_share Sx (enc_hash msg) (key_scalar R sk) (nonce_scalars R sn) (tss_points R col) n (pk_point R agg)))"
  "Wallet_Types.derive_public_nonce (with_tss Sx R B) sn = nonce_word R (Tss.derive_public_nonce Sx (nonce_scalars R sn))"
  by (simp_all add: with_tss_def)

lemma with_tss_tweak [simp]: "tweak_public_key (with_tss Sx R B) pk t = tweak_public_key B pk t"
  by (simp add: tweak_public_key_def)

lemma with_tss_keys [simp]:
  "tweaked_agg_pk (with_tss Sx R B) cfg t = tweaked_agg_pk B cfg t" "tweaked_pks (with_tss Sx R B) cfg p t = tweaked_pks B cfg p t"
  by (simp_all add: tweaked_agg_pk_def tweaked_pks_def)

text \<open>
  What the scheme relies on of the curve crate: the group laws, scalars of the curve's order, 32-byte
  x coordinates, keys and nonces that are points other than infinity, the encoding of signatures, and
  that \<open>add_exp_tweak\<close> adds the multiple of the generator.
\<close>

definition tss_world :: "('f::field, 'g::ab_group_add) secp \<Rightarrow> ('f, 'g) tss_repr \<Rightarrow> wallet_ops \<Rightarrow> bool" where
  "tss_world Sx R B \<longleftrightarrow>
     secp_laws Sx \<and> fermat TYPE('f) \<and> (\<forall>p. length (x_only_pk Sx p) = 32) \<and>
     (\<forall>w. fst (nonce_points R w) \<noteq> 0 \<and> snd (nonce_points R w) \<noteq> 0) \<and>
     (\<forall>x z. length x = 32 \<longrightarrow> sig_parts R (sig_word R (x, z)) = (x, z)) \<and>
     (\<forall>p q. p \<noteq> 0 \<longrightarrow> q \<noteq> 0 \<longrightarrow> nonce_points R (nonce_word R (p, q)) = (p, q)) \<and> (\<forall>z. share_scalar R (share_word R z) = z) \<and>
     (\<forall>pk t q. add_exp_tweak B pk t = Some q \<longrightarrow>
        pk_point R q = pk_point R pk + secp_mul Sx (of_nat (unat t)) (secp_base Sx) \<and> pk_point R q \<noteq> 0)"

text \<open>The keys a key generation leaves: the nodes' are the values of the polynomial behind the mint's.\<close>

definition tss_keys :: "('f::field, 'g::ab_group_add) secp \<Rightarrow> ('f, 'g) tss_repr \<Rightarrow> onchain_config \<Rightarrow> nat \<Rightarrow> bool" where
  "tss_keys Sx R cfg t \<longleftrightarrow>
     (\<exists>cs. cs \<noteq> [] \<and> length cs \<le> t \<and> pk_point R (onchain_agg_pk cfg) = hd cs \<and>
        (\<forall>p pk. bt_get (onchain_pks cfg) p = Some pk \<longrightarrow> pk_point R pk = gpeval (secp_mul Sx) cs (eval_point (node_u64 p))))"

text \<open>
  The sessions signing works for: the signers have different evaluation points, the binding factor is
  not zero and the nonces do not sum up to infinity, for which \<open>group_nonce\<close> falls back to the
  generator. With hashed nonces and a field larger than the mint all but a negligible part are.
\<close>

definition nonces_usable ::
  "('f::field, 'g::ab_group_add) secp \<Rightarrow> ('f, 'g) tss_repr \<Rightarrow> hash256 \<Rightarrow> (u64, tss_nonce) btmap \<Rightarrow> secp_pk \<Rightarrow> bool" where
  "nonces_usable Sx R msg col agg \<longleftrightarrow>
     good_points TYPE('f) (bt_keys col) \<and>
     (\<exists>b r c. session_values Sx (enc_hash msg) (tss_points R col) (pk_point R agg) = Some (b, r, c) \<and>
        nonce_sum Sx b (tss_points R col) \<noteq> 0)"

text \<open>The responses can be added up: no partial sum is zero, which \<open>add_tweak\<close> refuses.\<close>

definition shares_usable :: "('f::field, 'g) tss_repr \<Rightarrow> (u64, tss_share) btmap \<Rightarrow> bool" where
  "shares_usable R shares \<longleftrightarrow> reduce_opt key_add_tweak (map (share_scalar R) (bt_values shares)) \<noteq> None"

definition sessions_usable ::
  "('f::field, 'g::ab_group_add) secp \<Rightarrow> ('f, 'g) tss_repr \<Rightarrow> wallet_ops \<Rightarrow> onchain_config \<Rightarrow> nat \<Rightarrow> onchain_db \<Rightarrow> bool" where
  "sessions_usable Sx R B cfg t db \<longleftrightarrow>
     (\<forall>u msgs s i col agg. unsigned_row db = Some u \<longrightarrow> sighashes (with_tss Sx R B) cfg u = Some msgs \<longrightarrow>
        (s + 1) * t \<le> bt_len (nonce_log db) \<longrightarrow> i < length (spent_tx_outs u) \<longrightarrow>
        nonce_column (chunk_of t s (nonce_log db)) i = Some col \<longrightarrow>
        tweaked_agg_pk B cfg (st_tweak (spent_tx_outs u ! i)) = Some agg \<longrightarrow>
        nonces_usable Sx R (msgs ! i) col agg \<and>
        (\<forall>responses. session_complete (with_tss Sx R B) cfg t u msgs (chunk_of t s (nonce_log db)) responses \<longrightarrow>
           shares_usable R (share_column (chunk_of t s (nonce_log db)) responses i)))"

definition tss_good :: "('f::field, 'g::ab_group_add) secp \<Rightarrow> ('f, 'g) tss_repr \<Rightarrow> session_condition" where
  "tss_good Sx R msg col shares agg \<longleftrightarrow> nonces_usable Sx R msg col agg \<and> shares_usable R shares"

lemma sessions_usable_good:
  assumes "sessions_usable Sx R B cfg t db"
  shows "sessions_good (tss_good Sx R) (with_tss Sx R B) cfg t db"
  unfolding sessions_good_def session_good_def
proof (intro allI impI)
  fix u s msgs responses i col agg
  assume a: "unsigned_row db = Some u" "(s + 1) * t \<le> bt_len (nonce_log db)" "sighashes (with_tss Sx R B) cfg u = Some msgs"
    "session_complete (with_tss Sx R B) cfg t u msgs (chunk_of t s (nonce_log db)) responses" "i < length (spent_tx_outs u)"
    "nonce_column (chunk_of t s (nonce_log db)) i = Some col"
    "tweaked_agg_pk (with_tss Sx R B) cfg (st_tweak (spent_tx_outs u ! i)) = Some agg"
  from assms [unfolded sessions_usable_def, rule_format, OF a(1,3,2,5,6) a(7) [unfolded with_tss_keys]] a(4)
  show "tss_good Sx R (msgs ! i) col (share_column (chunk_of t s (nonce_log db)) responses i) agg"
    by (simp add: tss_good_def)
qed

section \<open>Soundness\<close>

lemma gpeval_shift:
  assumes "cs \<noteq> []"
  shows "gpeval sm ((hd cs + d) # tl cs) x = gpeval sm cs x + d"
  using assms by (cases cs) (simp_all add: algebra_simps)

lemma map_rows_values: "bt_values (map_rows f m) = map f (bt_values m)"
proof -
  have "bt_values (map_rows f m) = map (\<lambda>k. the (bt_get (map_rows f m) k)) (bt_keys m)"
    by (simp add: bt_values_keys map_rows_keys)
  also have "\<dots> = map (\<lambda>k. f (the (bt_get m k))) (bt_keys m)"
    by (rule map_cong) (auto simp: map_rows_get set_bt_keys)
  finally show ?thesis by (simp add: bt_values_keys)
qed

theorem tss_wallet_sound:
  fixes Sx :: "('f::field, 'g::ab_group_add) secp"
  assumes w: "tss_world Sx R B" and k: "tss_keys Sx R cfg t"
  shows "tss_sound (tss_good Sx R) (with_tss Sx R B) cfg t"
  unfolding tss_sound_def
proof (intro allI impI)
  fix msg tweak agg and col :: "(u64, tss_nonce) btmap" and shares :: "(u64, tss_share) btmap"
  let ?m = "enc_hash msg" and ?pts = "tss_points R col" and ?zs = "map_rows (share_scalar R) shares"
  assume agg: "tweaked_agg_pk (with_tss Sx R B) cfg tweak = Some agg" and len: "bt_len col = t" and keys: "bt_keys shares = bt_keys col"
    and good: "tss_good Sx R msg col shares agg"
    and ok: "\<forall>n s. bt_get shares n = Some s \<longrightarrow> (\<exists>p pks. n = node_u64 p \<and> tweaked_pks (with_tss Sx R B) cfg p tweak = Some pks \<and>
        tss_verify_share (with_tss Sx R B) msg n pks s col agg)"
  from w have L: "secp_laws Sx" "fermat TYPE('f)" and xl: "\<And>p. length (x_only_pk Sx p) = 32"
    and np: "\<And>v. fst (nonce_points R v) \<noteq> 0 \<and> snd (nonce_points R v) \<noteq> 0"
    and sg: "\<And>x z. length x = 32 \<Longrightarrow> sig_parts R (sig_word R (x, z)) = (x, z)"
    and tw: "\<And>pk t q. add_exp_tweak B pk t = Some q \<Longrightarrow>
      pk_point R q = pk_point R pk + secp_mul Sx (of_nat (unat t)) (secp_base Sx) \<and> pk_point R q \<noteq> 0"
    unfolding tss_world_def by blast+
  from k obtain cs where cs: "cs \<noteq> []" "length cs \<le> t" "pk_point R (onchain_agg_pk cfg) = hd cs"
    and pk: "\<And>p q. bt_get (onchain_pks cfg) p = Some q \<Longrightarrow> pk_point R q = gpeval (secp_mul Sx) cs (eval_point (node_u64 p))"
    unfolding tss_keys_def by blast
  let ?d = "secp_mul Sx (of_nat (unat tweak)) (secp_base Sx)"
  let ?cs = "(hd cs + ?d) # tl cs"
  have hd: "hd ?cs = pk_point R agg" "hd ?cs \<noteq> 0"
    using agg tw [of "onchain_agg_pk cfg" tweak agg] cs(3) by (auto simp: tweaked_agg_pk_def tweak_public_key_def split: if_splits)
  obtain b r c where s: "session_values Sx ?m ?pts (hd ?cs) = Some (b, r, c)" "nonce_sum Sx b ?pts \<noteq> 0"
    and g: "good_points TYPE('f) (bt_keys ?pts)" and red: "reduce_opt key_add_tweak (bt_values ?zs) \<noteq> None"
    using good unfolding hd(1) tss_good_def nonces_usable_def shares_usable_def map_rows_keys map_rows_values by blast
  have n: "nonces_ok ?pts" using np by (auto simp: nonces_ok_def map_rows_values)
  have each: "frost_verify_share Sx ?m i (gpeval (secp_mul Sx) ?cs (eval_point i)) z ?pts (hd ?cs) = Some True"
    if z: "bt_get ?zs i = Some z" for i z
  proof -
    obtain v where v: "bt_get shares i = Some v" "z = share_scalar R v" using z by (auto simp: map_rows_get)
    then obtain p pks where p: "i = node_u64 p" "tweaked_pks B cfg p tweak = Some pks"
      "frost_verify_share Sx ?m i (pk_point R pks) z ?pts (pk_point R agg) = Some True"
      using ok unfolding with_tss_scheme(1) with_tss_keys by blast
    obtain q where "bt_get (onchain_pks cfg) p = Some q" "add_exp_tweak B q tweak = Some pks"
      using p(2) by (auto simp: tweaked_pks_def tweak_public_key_def bind_eq_Some_conv split: if_splits)
    then have "pk_point R pks = gpeval (secp_mul Sx) ?cs (eval_point i)"
      using tw pk gpeval_shift [OF cs(1)] p(1) by metis
    then show ?thesis using p(3) hd(1) by simp
  qed
  obtain sig where a: "frost_aggregate Sx ?m ?pts ?zs (hd ?cs) = Some sig"
    using red s(1) by (auto simp: frost_aggregate_def)
  have "bip340_accepts Sx ?m sig (x_only_pk Sx (hd ?cs))"
  proof (rule aggregate_accepted [OF L g n _ _ _ hd(2) _ each a])
    show "bt_keys ?zs = bt_keys ?pts" by (simp add: map_rows_keys keys)
    show "length ?cs \<le> bt_len ?pts" using cs(1,2) len by (cases cs) (simp_all add: map_rows_len)
    show "nonce_sum Sx b' ?pts \<noteq> 0" if "session_values Sx ?m ?pts (hd ?cs) = Some (b', r', c')" for b' r' c'
      using that s by simp
  qed simp_all
  moreover have "sig_parts R (sig_word R sig) = sig"
    using frost_aggregate_eq [of Sx ?m ?pts ?zs "hd ?cs" "fst sig" "snd sig"] a xl sg [of "fst sig" "snd sig"] by auto
  ultimately show "tss_verify (with_tss Sx R B) msg (tss_aggregate (with_tss Sx R B) msg col shares agg) agg"
    using a hd(1) by (simp add: with_tss_scheme)
qed

text \<open>The response a node makes with its key and its nonce passes the other nodes' check.\<close>

lemma own_share_verifies:
  fixes Sx :: "('f::field, 'g::ab_group_add) secp"
  assumes w: "tss_world Sx R B" and n: "bt_get col n = Some (Wallet_Types.derive_public_nonce (with_tss Sx R B) sn)"
    and sn: "fst (nonce_scalars R sn) \<noteq> 0" "snd (nonce_scalars R sn) \<noteq> 0" and pks: "pk_point R pks = public_key Sx (key_scalar R sk)"
    and z: "frost_sign_share Sx (enc_hash msg) (key_scalar R sk) (nonce_scalars R sn) (tss_points R col) n (pk_point R agg) \<noteq> None"
  shows "tss_verify_share (with_tss Sx R B) msg n pks (tss_sign_share (with_tss Sx R B) msg sk sn col n agg) col agg"
proof -
  have L: "secp_laws Sx" and np: "\<And>p q. p \<noteq> 0 \<Longrightarrow> q \<noteq> 0 \<Longrightarrow> nonce_points R (nonce_word R (p, q)) = (p, q)"
    and sh: "\<And>z. share_scalar R (share_word R z) = z"
    using w unfolding tss_world_def by blast+
  have "nonce_points R (nonce_word R (Tss.derive_public_nonce Sx (nonce_scalars R sn))) = Tss.derive_public_nonce Sx (nonce_scalars R sn)"
    using sn by (simp add: Tss.derive_public_nonce_def np public_key_zero_iff [OF L])
  then have "bt_get (tss_points R col) n = Some (Tss.derive_public_nonce Sx (nonce_scalars R sn))"
    by (simp add: map_rows_get n with_tss_scheme)
  from sign_share_verifies [OF L this] z show ?thesis by (auto simp: with_tss_scheme sh pks)
qed

text \<open>The check of a share returns.\<close>

lemma verify_share_returns:
  fixes Sx :: "('f::field, 'g::ab_group_add) secp"
  assumes w: "tss_world Sx R B" and u: "nonces_usable Sx R msg col agg"
  shows "frost_verify_share Sx (enc_hash msg) i pks z (tss_points R col) (pk_point R agg) \<noteq> None"
proof (cases "bt_get (tss_points R col) i")
  case None
  then show ?thesis by (simp add: frost_verify_share_def)
next
  case (Some pn)
  then have "i \<in> set (bt_keys (tss_points R col))" by (simp add: set_bt_keys)
  moreover have "good_points TYPE('f) (bt_keys (tss_points R col))" "fermat TYPE('f)"
    using u w by (simp_all add: nonces_usable_def tss_world_def map_rows_keys)
  ultimately have "lagrange_multiplier (bt_keys (tss_points R col)) i \<noteq> (None :: 'f option)"
    using lagrange_multiplier_eq by fastforce
  then show ?thesis using u Some by (auto simp: frost_verify_share_def nonces_usable_def)
qed

end
