(* ===== verification/Signing_Claims.thy ===== *)
theory Signing_Claims
  imports Wallet_Claims Tss_Wallet
begin

text \<open>
  The properties of the block votes and of the signing sessions of the wallet, with a sample session
  of three of the four nodes, and that no item makes a node panic. The sessions run on the threshold
  scheme of \<open>Tss\<close>; the sample is over the field of five elements.
\<close>

section \<open>Blocks\<close>

text \<open>
  C35. Applying a block. A block vote that completes a threshold of identical votes tracks the block's
  outputs under the next indices in block order, leaves the earlier ones as they are, drops the
  pending transactions the block confirms, advances the height by one and clears the votes. Any other
  accepted vote is only recorded.
\<close>

theorem block_applied:
  assumes d: "process_block_vote cfg p v db = Done db'" and ok: "blocks_ok cfg db"
    and n: "to_num_nodes (onchain_pks cfg) = Some n"
    and room: "bt_len (tracked_outputs db) + length (block_outputs (bv_txs v)) < 2 ^ 64"
  defines "votes \<equiv> bt_insert p v (block_votes db)" and "len \<equiv> bt_len (tracked_outputs db)"
  shows "if threshold n \<le> votes_for (\<lambda>w. w = v) votes
    then block_height db' = Some (bv_height v + 1) \<and> block_votes db' = bt_empty \<and>
      bt_len (tracked_outputs db') = len + length (block_outputs (bv_txs v)) \<and>
      (\<forall>k. unat k < len \<longrightarrow> bt_get (tracked_outputs db') k = bt_get (tracked_outputs db) k) \<and>
      (\<forall>j < length (block_outputs (bv_txs v)).
         bt_get (tracked_outputs db') (of_nat (len + j)) = Some (block_outputs (bv_txs v) ! j)) \<and>
      (\<forall>txid. bt_get (unconfirmed db') txid =
         (if txid \<in> bt_txid ` set (bv_txs v) then None else bt_get (unconfirmed db) txid))
    else db' = db\<lparr>block_votes := votes\<rparr>"
proof -
  have f: "bt_get (fold (\<lambda>t. bt_remove (bt_txid t)) ts m) k = (if k \<in> bt_txid ` set ts then None else bt_get m k)"
    for ts m k
    by (induction ts arbitrary: m) auto
  have dense: "dense (tracked_outputs db)" using ok by (simp add: blocks_ok_def)
  show ?thesis
    using process_block_vote_Done [OF d ok n] append_outputs_dense [OF dense room]
    by (auto simp: apply_block_def f votes_def len_def not_le)
qed

definition block6 :: block_vote where
  "block6 = \<lparr>bv_height = 5, bv_txs =
     [\<lparr>bt_txid = 8, bt_outputs = [(0, \<lparr>to_value = 7000, script_pubkey = [1]\<rparr>)]\<rparr>, \<lparr>bt_txid = 1, bt_outputs = []\<rparr>]\<rparr>"

definition two_voted :: onchain_db where
  "two_voted = funded\<lparr>block_votes := bt_insert 1 block6 (bt_insert 0 block6 bt_empty)\<rparr>"

lemma two_voted_ok: "blocks_ok wcfg two_voted"
  by (simp add: blocks_ok_def two_voted_def funded_def dense_def bt_len_def bt_keys_def nat_mint votes_for_def
      bt_values_def threshold_def block6_def)

lemma third_vote: "process_block_vote wcfg 2 block6 two_voted = Done (apply_block block6 (two_voted\<lparr>block_votes := bt_insert 2 block6 (block_votes two_voted)\<rparr>))"
  using nat_mint(2)
  by (simp add: process_block_vote_def two_voted_def funded_def block6_def bt_has_def onchain_threshold_def onchain_nodes_def
      expect_def bt_values_def threshold_def Let_def)

theorem block_applied_witness:
  "case process_block_vote wcfg 2 block6 two_voted of
     Done db' \<Rightarrow> block_height db' = Some 6 \<and> bt_len (tracked_outputs db') = 2 \<and>
       bt_get (tracked_outputs db') 1 =
         Some \<lparr>tr_outpoint = BtcOutPoint 8 0, tr_out = \<lparr>to_value = 7000, script_pubkey = [1]\<rparr>\<rparr>
   | _ \<Rightarrow> False"
proof -
  have len: "bt_len (tracked_outputs two_voted) = 1" by (simp add: two_voted_def funded_def bt_len_def)
  have outs: "block_outputs (bv_txs block6) = [\<lparr>tr_outpoint = BtcOutPoint 8 0, tr_out = \<lparr>to_value = 7000, script_pubkey = [1]\<rparr>\<rparr>]"
    by (simp add: block_outputs_def block6_def)
  have v: "threshold (NumNodes 1) \<le> votes_for (\<lambda>w. w = block6) (bt_insert 2 block6 (block_votes two_voted))"
    by (simp add: votes_for_def bt_values_def two_voted_def threshold_def)
  have h: "bv_height block6 = 5" by (simp add: block6_def)
  from block_applied [OF third_vote two_voted_ok nat_mint(2)] len outs v h third_vote
  show ?thesis by simp
qed

section \<open>The field of five elements\<close>

datatype gf5 = F0 | F1 | F2 | F3 | F4

fun num5 :: "gf5 \<Rightarrow> nat" where
  "num5 F0 = 0"
| "num5 F1 = 1"
| "num5 F2 = 2"
| "num5 F3 = 3"
| "num5 F4 = 4"

definition of5 :: "nat \<Rightarrow> gf5" where
  "of5 n = [F0, F1, F2, F3, F4] ! (n mod 5)"

lemma num5_of5: "num5 (of5 n) = n mod 5"
proof -
  have "n mod 5 < 5" by simp
  then have "n mod 5 \<in> {0, 1, 2, 3, 4}" by auto
  then show ?thesis by (auto simp: of5_def)
qed

lemma of5_num5: "of5 (num5 x) = x"
  by (cases x) (simp_all add: of5_def)

lemma gf5_eqI: "num5 x = num5 y \<Longrightarrow> x = y"
  by (metis of5_num5)

instantiation gf5 :: field
begin

definition zero_gf5 :: gf5 where "zero_gf5 = F0"

definition one_gf5 :: gf5 where "one_gf5 = F1"

definition plus_gf5 :: "gf5 \<Rightarrow> gf5 \<Rightarrow> gf5" where "x + y = of5 (num5 x + num5 y)"

definition uminus_gf5 :: "gf5 \<Rightarrow> gf5" where "- x = of5 (5 - num5 x)"

definition times_gf5 :: "gf5 \<Rightarrow> gf5 \<Rightarrow> gf5" where "x * y = of5 (num5 x * num5 y)"

definition minus_gf5 :: "gf5 \<Rightarrow> gf5 \<Rightarrow> gf5" where "x - y = x + - (y :: gf5)"

definition inverse_gf5 :: "gf5 \<Rightarrow> gf5" where "inverse x = of5 (num5 x ^ 3)"

definition divide_gf5 :: "gf5 \<Rightarrow> gf5 \<Rightarrow> gf5" where "x div y = x * inverse (y :: gf5)"

instance
proof
  fix a b c :: gf5
  show "a + b + c = a + (b + c)"
    by (rule gf5_eqI) (simp add: plus_gf5_def num5_of5 mod_simps add.assoc)
  show "a + b = b + a" by (simp add: plus_gf5_def add.commute)
  show "0 + a = a" by (simp add: plus_gf5_def zero_gf5_def of5_num5)
  show "- a + a = 0" by (cases a) (simp_all add: plus_gf5_def uminus_gf5_def zero_gf5_def of5_def)
  show "a - b = a + - b" by (simp add: minus_gf5_def)
  show "a * b * c = a * (b * c)"
    by (rule gf5_eqI) (simp add: times_gf5_def num5_of5 mod_simps mult.assoc)
  show "a * b = b * a" by (simp add: times_gf5_def mult.commute)
  show "1 * a = a" by (simp add: times_gf5_def one_gf5_def of5_num5)
  show "(a + b) * c = a * c + b * c"
    by (rule gf5_eqI) (simp add: times_gf5_def plus_gf5_def num5_of5 mod_simps add_mult_distrib)
  show "(0 :: gf5) \<noteq> 1" by (simp add: zero_gf5_def one_gf5_def)
  show "a \<noteq> 0 \<Longrightarrow> inverse a * a = 1"
    by (cases a) (simp_all add: times_gf5_def inverse_gf5_def zero_gf5_def one_gf5_def of5_def)
  show "a div b = a * inverse b" by (simp add: divide_gf5_def)
  show "inverse (0 :: gf5) = 0" by (simp add: inverse_gf5_def zero_gf5_def of5_def)
qed

end

lemmas gf5_eval = zero_gf5_def one_gf5_def plus_gf5_def uminus_gf5_def times_gf5_def minus_gf5_def inverse_gf5_def
  divide_gf5_def of5_def

lemma of_nat_gf5: "of_nat n = of5 n"
proof (rule gf5_eqI)
  show "num5 (of_nat n) = num5 (of5 n)"
    by (induction n) (simp_all add: num5_of5 plus_gf5_def zero_gf5_def one_gf5_def mod_Suc_eq)
qed

lemma gf5_fourth: "a \<noteq> 0 \<Longrightarrow> a ^ 4 = (1 :: gf5)"
  by (cases a) (simp_all add: power4_eq_xxxx gf5_eval)

lemma gf5_fermat: "fermat TYPE(gf5)"
proof -
  have "k ^ (CURVE_ORDER - 1) = 1" if "k \<noteq> (0 :: gf5)" for k
  proof -
    have "CURVE_ORDER - 1 = 4 * ((CURVE_ORDER - 1) div 4)" by (simp add: CURVE_ORDER_def)
    then have "k ^ (CURVE_ORDER - 1) = (k ^ 4) ^ ((CURVE_ORDER - 1) div 4)" by (metis power_mult)
    then show ?thesis by (simp only: gf5_fourth [OF that] power_one)
  qed
  then show ?thesis by (simp add: fermat_def)
qed

text \<open>Every hash has the value one, and the points one and two are even.\<close>

definition gf5_curve :: "(gf5, gf5) secp" where
  "gf5_curve = \<lparr>secp_base = 1, secp_mul = (*), secp_sha256 = (\<lambda>bs. replicate 31 0 @ [1]),
     serialize_pk = (\<lambda>p. replicate 33 2), x_only_pk = (\<lambda>p. replicate 32 7), even_y = (\<lambda>p. p = F1 \<or> p = F2)\<rparr>"

lemma gf5_curve_simps:
  "secp_base gf5_curve = F1" "secp_mul gf5_curve = (*)" "x_only_pk gf5_curve p = replicate 32 7"
  "even_y gf5_curve p = (p = F1 \<or> p = F2)"
  by (simp_all add: gf5_curve_def one_gf5_def)

lemma gf5_laws: "secp_laws gf5_curve"
proof -
  have "(- p = F1 \<or> - p = F2) = (p \<noteq> F1 \<and> p \<noteq> F2)" if "p \<noteq> 0" for p :: gf5
    using that by (cases p) (simp_all add: gf5_eval)
  moreover have "(1 :: gf5) \<noteq> 0" by simp
  ultimately show ?thesis by (simp add: secp_laws_def gf5_curve_def scalar_laws_def algebra_simps)
qed

lemma gf5_hash: "scalar_mod_order (tagged_hash gf5_curve t cs) = Some F1"
proof -
  let ?bs = "replicate 31 0 @ [1] :: bytes"
  have "be_value ?bs = 1" unfolding be_value_zeros by (simp add: be_value_def)
  moreover have "length ?bs = 32" by simp
  ultimately have "scalar_mod_order ?bs = Some (of_nat (1 mod CURVE_ORDER) :: gf5)"
    using scalar_mod_order_eq [of ?bs, where 'f = gf5] by (simp only:)
  then show ?thesis by (simp add: tagged_hash_def gf5_curve_def CURVE_ORDER_def one_gf5_def)
qed

text \<open>The words of the wallet: keys, shares and nonces are read modulo five.\<close>

definition nonzero5 :: "nat \<Rightarrow> gf5" where
  "nonzero5 v = (if of5 v = 0 then 1 else of5 v)"

definition gf5_repr :: "(gf5, gf5) tss_repr" where
  "gf5_repr = \<lparr>pk_point = (\<lambda>w. of5 (unat w)),
     nonce_points = (\<lambda>w. (nonzero5 (unat w), nonzero5 (unat w div 5))),
     nonce_word = (\<lambda>(p, q). of_nat (num5 p + 5 * num5 q)),
     key_scalar = (\<lambda>w. of5 (unat w)), nonce_scalars = (\<lambda>bs. (1, 1)),
     share_scalar = (\<lambda>w. of5 (unat w)), share_word = (\<lambda>z. of_nat (num5 z)),
     sig_parts = (\<lambda>w. (be_bytes 32 (unat w mod 2 ^ 256), of5 (unat w div 2 ^ 256))),
     sig_word = (\<lambda>(x, z). of_nat (be_value x + 2 ^ 256 * num5 z))\<rparr>"

definition gf5_base :: wallet_ops where
  "gf5_base = mint_wallet_ops
     \<lparr>add_exp_tweak := \<lambda>k t. if (unat k + unat t) mod 5 = 0 then None else Some (of_nat ((unat k + unat t) mod 5))\<rparr>"

abbreviation gf5_wallet :: wallet_ops where "gf5_wallet \<equiv> with_tss gf5_curve gf5_repr gf5_base"

lemma num5_bound: "num5 x < 5"
  by (cases x) simp_all

lemma gf5_sig: "length x = 32 \<Longrightarrow> sig_parts gf5_repr (sig_word gf5_repr (x, z)) = (x, z)"
proof -
  assume l: "length x = 32"
  have b: "be_value x < 2 ^ 256" using be_value_less [of x] l by simp
  have "be_value x + 2 ^ 256 * num5 z < 2 ^ 512" using b num5_bound [of z] by simp
  then have u: "unat (of_nat (be_value x + 2 ^ 256 * num5 z) :: schnorr_sig) = be_value x + 2 ^ 256 * num5 z"
    by (simp only: unat_of_nat) simp
  have "be_bytes 32 (be_value x) = x" using be_bytes_be_value [of x] l by simp
  with b u show ?thesis by (simp add: gf5_repr_def of5_num5)
qed

lemma gf5_nonce: "p \<noteq> 0 \<Longrightarrow> q \<noteq> 0 \<Longrightarrow> nonce_points gf5_repr (nonce_word gf5_repr (p, q)) = (p, q)"
proof -
  assume z: "p \<noteq> 0" "q \<noteq> 0"
  have "num5 p + 5 * num5 q < 2 ^ 528" using num5_bound [of p] num5_bound [of q] by simp
  then have u: "unat (of_nat (num5 p + 5 * num5 q) :: tss_nonce) = num5 p + 5 * num5 q"
    by (simp only: unat_of_nat) simp
  have "of5 (num5 p + 5 * num5 q) = p" by (rule gf5_eqI) (use num5_bound [of p] in \<open>simp add: num5_of5\<close>)
  moreover have "(num5 p + 5 * num5 q) div 5 = num5 q" using num5_bound [of p] by simp
  ultimately show ?thesis using z u by (simp add: gf5_repr_def nonzero5_def of5_num5)
qed

lemma gf5_world: "tss_world gf5_curve gf5_repr gf5_base"
proof -
  have share: "share_scalar gf5_repr (share_word gf5_repr z) = z" for z
    by (cases z) (simp_all add: gf5_repr_def of5_def)
  have np: "fst (nonce_points gf5_repr w) \<noteq> 0" "snd (nonce_points gf5_repr w) \<noteq> 0" for w
    by (simp_all add: gf5_repr_def nonzero5_def)
  have tw: "pk_point gf5_repr q = pk_point gf5_repr pk + secp_mul gf5_curve (of_nat (unat t)) (secp_base gf5_curve) \<and>
      pk_point gf5_repr q \<noteq> 0" if a: "add_exp_tweak gf5_base pk t = Some q" for pk t q
  proof -
    let ?v = "(unat pk + unat t) mod 5"
    have q: "q = of_nat ?v" "?v \<noteq> 0" using a by (auto simp: gf5_base_def split: if_splits)
    have "?v < 5" by simp
    then have "?v < 2 ^ 264" by (rule less_trans) simp
    then have "unat q = ?v" unfolding q(1) by (simp only: unat_of_nat) simp
    then have "pk_point gf5_repr q = of5 ?v" by (simp add: gf5_repr_def)
    moreover have "of5 ?v = of5 (unat pk) + of5 (unat t)"
      by (rule gf5_eqI) (simp add: plus_gf5_def num5_of5 mod_simps)
    moreover have "of5 ?v \<noteq> 0"
    proof
      assume "of5 ?v = 0"
      then have "num5 (of5 ?v) = 0" by (simp add: zero_gf5_def)
      then show False using q(2) by (simp add: num5_of5)
    qed
    ultimately show ?thesis by (simp add: gf5_repr_def gf5_curve_def of_nat_gf5)
  qed
  have "length (x_only_pk gf5_curve p) = 32" for p by (simp add: gf5_curve_def)
  with share np tw gf5_sig gf5_nonce gf5_laws gf5_fermat show ?thesis unfolding tss_world_def by blast
qed

lemma gf5_keys: "tss_keys gf5_curve gf5_repr wcfg 3"
proof -
  have "gpeval (secp_mul gf5_curve) [F1] x = F1" for x
    by (simp add: gf5_curve_def)
  then show ?thesis unfolding tss_keys_def
    by (intro exI [of _ "[F1]"]) (auto simp: mint_cfg_def bt_of_list_def gf5_repr_def of5_def split: if_splits)
qed

section \<open>Signing sessions\<close>

text \<open>
  The check of any node's share in any full session of the log returns: it does not panic, whatever
  the share.
\<close>

definition checks_return ::
  "('f::field, 'g::ab_group_add) secp \<Rightarrow> ('f, 'g) tss_repr \<Rightarrow> wallet_ops \<Rightarrow> onchain_config \<Rightarrow> nat \<Rightarrow> onchain_db \<Rightarrow> bool" where
  "checks_return Sx R B cfg t db \<longleftrightarrow>
     (\<forall>u msgs s i col agg p pks z. unsigned_row db = Some u \<longrightarrow> sighashes (with_tss Sx R B) cfg u = Some msgs \<longrightarrow>
        (s + 1) * t \<le> bt_len (nonce_log db) \<longrightarrow> i < length (spent_tx_outs u) \<longrightarrow>
        nonce_column (chunk_of t s (nonce_log db)) i = Some col \<longrightarrow>
        tweaked_agg_pk B cfg (st_tweak (spent_tx_outs u ! i)) = Some agg \<longrightarrow>
        frost_verify_share Sx (enc_hash (msgs ! i)) (node_u64 p) (pk_point R pks) (share_scalar R z) (tss_points R col)
          (pk_point R agg) \<noteq> None)"

lemma sessions_usable_checks:
  "tss_world Sx R B \<Longrightarrow> sessions_usable Sx R B cfg t db \<Longrightarrow> checks_return Sx R B cfg t db"
  unfolding checks_return_def
proof (intro allI impI)
  fix u msgs s i col agg p pks z
  assume w: "tss_world Sx R B" and use: "sessions_usable Sx R B cfg t db"
    and a: "unsigned_row db = Some u" "sighashes (with_tss Sx R B) cfg u = Some msgs"
      "(s + 1) * t \<le> bt_len (nonce_log db)" "i < length (spent_tx_outs u)"
      "nonce_column (chunk_of t s (nonce_log db)) i = Some col" "tweaked_agg_pk B cfg (st_tweak (spent_tx_outs u ! i)) = Some agg"
  have "nonces_usable Sx R (msgs ! i) col agg"
    using use [unfolded sessions_usable_def, rule_format, OF a] by (rule conjunct1)
  from verify_share_returns [OF w this]
  show "frost_verify_share Sx (enc_hash (msgs ! i)) (node_u64 p) (pk_point R pks) (share_scalar R z) (tss_points R col)
      (pk_point R agg) \<noteq> None" .
qed

lemma with_tss_usable [simp]: "usable_tweaks (with_tss Sx R B) cfg u = usable_tweaks B cfg u" "sighash_total (with_tss Sx R B) = sighash_total B"
  by (simp_all add: usable_tweaks_def sighash_total_def)

text \<open>
  C6. Signing sessions sign. On the threshold scheme of \<open>picomint-tss\<close>, with the keys of a key
  generation, a response to a session does not make the node panic, the checks of its shares included,
  and the response that ends the signing of a wallet transaction moves it to the unconfirmed ones with
  its inputs and outputs unchanged, every input with a signature that BIP340 accepts over its sighash
  under the mint's key tweaked the way the output was received. This is for the sessions that can be
  signed at all: the signers' evaluation points differ, the binding factor is not zero, the nonces do
  not sum up to infinity and no partial sum of the responses is zero.
\<close>

theorem session_signs:
  fixes Sx :: "('f::field, 'g::ab_group_add) secp" and R :: "('f, 'g) tss_repr"
  assumes "tss_world Sx R B" "tss_keys Sx R cfg (threshold n)" "sighash_total B"
    and "to_num_nodes (onchain_pks cfg) = Some n" "bt_get (onchain_pks cfg) p \<noteq> None"
    and "\<forall>u. unsigned_row db = Some u \<longrightarrow> usable_tweaks B cfg u"
    and "signing_ok (with_tss Sx R B) cfg (threshold n) db" "bt_len (nonce_log db) + threshold n < 2 ^ 64"
    and "sessions_usable Sx R B cfg (threshold n) db"
  shows "process_signature_shares (with_tss Sx R B) cfg p txid shares fresh db \<noteq> Panicked \<and>
    checks_return Sx R B cfg (threshold n) db \<and>
    (\<forall>u db'. process_signature_shares (with_tss Sx R B) cfg p txid shares fresh db = Done db' \<longrightarrow>
       unsigned_row db = Some u \<longrightarrow> unsigned_row db' = None \<longrightarrow>
       (\<exists>u' msgs. bt_get (unconfirmed db') txid = Some u' \<and> sighashes (with_tss Sx R B) cfg u = Some msgs \<and>
          btc_outputs (mtx u') = btc_outputs (mtx u) \<and>
          map previous_output (btc_inputs (mtx u')) = map previous_output (btc_inputs (mtx u)) \<and>
          (\<forall>i < length (spent_tx_outs u). \<exists>sig agg. witness (btc_inputs (mtx u') ! i) = Some (enc_int sig) \<and>
             tweaked_agg_pk B cfg (st_tweak (spent_tx_outs u ! i)) = Some agg \<and>
             bip340_accepts Sx (enc_hash (msgs ! i)) (sig_parts R sig) (x_only_pk Sx (pk_point R agg)))))"
proof -
  note sound = tss_wallet_sound [OF assms(1,2)] sessions_usable_good [OF assms(9)]
  have use: "usable_tweaks (with_tss Sx R B) cfg u" if "unsigned_row db = Some u" for u using assms(6) that by simp
  have tot: "sighash_total (with_tss Sx R B)" using assms(3) by simp
  have "process_signature_shares (with_tss Sx R B) cfg p txid shares fresh db \<noteq> Panicked"
    by (rule process_shares_no_panic [OF assms(4,7,8,5) sound tot use])
  moreover note sessions_usable_checks [OF assms(1,9)]
  moreover note process_shares_signs [OF _ assms(4,7,8) sound use, unfolded with_tss_keys with_tss_scheme(3)]
  ultimately show ?thesis by blast
qed

text \<open>Three signers with equal nonces; their shares differ with the Lagrange multipliers.\<close>

definition unsigned_tx :: mint_tx where
  "unsigned_tx =
     \<lparr>mtx = \<lparr>btc_inputs = [unsigned_input (BtcOutPoint 3 0)], btc_outputs = [\<lparr>to_value = 5, script_pubkey = [1]\<rparr>]\<rparr>,
      spent_tx_outs = [\<lparr>st_value = 9, st_tweak = 1\<rparr>], vbytes = 154, mtx_fee = 4\<rparr>"

definition log0 :: onchain_db where
  "log0 = empty_onchain\<lparr>unsigned_row := Some unsigned_tx\<rparr>"

definition nonce_rows :: "node_id list \<Rightarrow> (u64, nonce_entry) btmap" where
  "nonce_rows ps = bt_of_list (map (\<lambda>(i, p). (of_nat i, NonceEntry p [0])) (zip [0..<length ps] ps))"

definition response :: "node_id \<Rightarrow> tss_share" where
  "response p = (if p = 0 then 3 else if p = 1 then 1 else 4)"

definition response_rows :: "nat \<Rightarrow> (u64, tss_share list) btmap" where
  "response_rows k = bt_of_list (take k [(0, [response 0]), (1, [response 1]), (2, [response 2])])"

definition signing :: "node_id list \<Rightarrow> nat \<Rightarrow> onchain_db" where
  "signing ps k = log0\<lparr>nonce_log := nonce_rows ps, share_rows := response_rows k\<rparr>"

lemma gf5_txid [simp]: "compute_txid gf5_base t = of_nat (length (btc_inputs t))" "new_p2tr gf5_base k = [1]"
  "taproot_sighash gf5_base t ps i = Some (of_nat i)"
  by (simp_all add: gf5_base_def mint_wallet_ops_def)

lemma gf5_tweak: "tweak_public_key gf5_base 1 1 = Some 2"
  by (simp add: tweak_public_key_def gf5_base_def CURVE_ORDER_def)

lemma nonces_accepted:
  "process_nonces gf5_wallet 0 1 [0] log0 = Done (signing [0] 0)"
  "process_nonces gf5_wallet 1 1 [0] (signing [0] 0) = Done (signing [0, 1] 0)"
  "process_nonces gf5_wallet 2 1 [0] (signing [0, 1] 0) = Done (signing [0, 1, 2] 0)"
  by (simp_all add: process_nonces_def ok_or_def log0_def signing_def unsigned_tx_def nonce_rows_def response_rows_def
      bt_of_list_def empty_onchain_def next_index_def bt_last_def bt_values_def)

lemma mint_onchain_threshold: "(onchain_threshold wcfg :: ('e, nat) outcome) = Done 3"
  using onchain_threshold_iff [OF nat_mint(2)] by (simp add: threshold_def)

lemma gf5_agg: "tweaked_agg_pk gf5_base wcfg 1 = Some 2" "p \<in> {0, 1, 2} \<Longrightarrow> tweaked_pks gf5_base wcfg p 1 = Some 2"
  using gf5_tweak by (auto simp: tweaked_agg_pk_def tweaked_pks_def mint_cfg_def bt_of_list_def)

lemma gf5_sighashes: "sighashes gf5_wallet wcfg unsigned_tx = Some [0]"
proof -
  have "script_pubkey_of gf5_wallet wcfg 1 = Some [1]"
    using gf5_tweak by (simp add: script_pubkey_of_def tweaked_script_pubkey_def tweaked_output_key_def) (simp add: mint_cfg_def)
  then show ?thesis by (simp add: sighashes_def unsigned_tx_def)
qed

definition session0 :: "nonce_entry list" where
  "session0 = [NonceEntry 0 [0], NonceEntry 1 [0], NonceEntry 2 [0]]"

definition column0 :: "(u64, tss_nonce) btmap" where
  "column0 = bt_of_list [(0, 0), (1, 0), (2, 0)]"

lemma session0_column: "nonce_column session0 0 = Some column0"
  by (simp add: nonce_column_def session0_def nth_opt_def node_u64_def column0_def)

lemma column0_points:
  "bt_keys (tss_points gf5_repr column0) = [0, 1, 2]" "bt_values (tss_points gf5_repr column0) = [(F1, F1), (F1, F1), (F1, F1)]"
  "bt_keys column0 = [0, 1, 2]" "i \<in> {0, 1, 2} \<Longrightarrow> bt_get (tss_points gf5_repr column0) i = Some (F1, F1)"
proof -
  have n: "nonce_points gf5_repr 0 = (F1, F1)" by (simp add: gf5_repr_def nonzero5_def gf5_eval)
  have e: "entries column0 = [(0, 0), (1, 0), (2, 0)]" by (simp add: column0_def bt_of_list_def)
  show "bt_keys column0 = [0, 1, 2]" by (simp add: bt_keys_def e)
  then show "bt_keys (tss_points gf5_repr column0) = [0, 1, 2]" by (simp add: map_rows_keys)
  show "bt_values (tss_points gf5_repr column0) = [(F1, F1), (F1, F1), (F1, F1)]"
  proof -
    have "bt_values column0 = [0, 0, 0]" by (simp add: bt_values_def e)
    then show ?thesis by (simp add: map_rows_values n)
  qed
  show "bt_get (tss_points gf5_repr column0) i = Some (F1, F1)" if "i \<in> {0, 1, 2}"
  proof -
    have "bt_get column0 i = Some 0" using that by (auto simp: bt_get_Some_iff e)
    then show ?thesis by (simp only: map_rows_get option.map n)
  qed
qed

lemma gf5_points: "(eval_point 0 :: gf5) = F1" "(eval_point 1 :: gf5) = F2" "(eval_point 2 :: gf5) = F3"
  by (simp_all add: eval_point_def of_nat_gf5 of5_def one_gf5_def)

lemma gf5_good: "good_points TYPE(gf5) [0, 1, 2]"
  by (simp add: good_points_def gf5_points zero_gf5_def)

lemma gf5_multipliers:
  "lagrange_multiplier [0, 1, 2] 0 = Some F3" "lagrange_multiplier [0, 1, 2] 1 = Some F2" "lagrange_multiplier [0, 1, 2] 2 = Some F1"
proof -
  note m = lagrange_multiplier_eq [OF gf5_fermat gf5_good]
  have l: "lagrange [F1, F2, F3] F1 = F3" "lagrange [F1, F2, F3] F2 = F2" "lagrange [F1, F2, F3] F3 = F1"
    by (simp_all add: lagrange_def gf5_eval)
  show "lagrange_multiplier [0, 1, 2] 0 = Some F3" "lagrange_multiplier [0, 1, 2] 1 = Some F2" "lagrange_multiplier [0, 1, 2] 2 = Some F1"
    using m [of 0] m [of 1] m [of 2] by (simp_all only: list.map gf5_points l list.set insert_iff refl simp_thms)
qed

lemma gf5_session: "session_values gf5_curve msg (tss_points gf5_repr column0) pk = Some (F1, F1, F1)"
proof -
  have ids: "\<exists>ids. serialize_ids [0, 1, 2] = Some ids \<and> length ids = 12" by (simp add: serialize_ids_def)
  then obtain ids where i: "serialize_ids [0, 1, 2] = Some ids" "length ids = 12" by blast
  have h: "aggregate_nonce_halves (tss_points gf5_repr column0) = (Some F3, Some F3)"
    by (simp add: aggregate_nonce_halves_def column0_points add_point_def pk_combine_def nonzero_def gf5_eval)
  have g: "group_nonce gf5_curve (Some F3, Some F3) F1 = Some F1"
    by (simp add: group_nonce_def pk_mul_tweak_def pk_combine_def nonzero_def key_from_u64_def gf5_curve_def gf5_eval)
  show ?thesis by (simp add: session_values_def h column0_points i gf5_hash g challenge_hash_def)
qed

lemma gf5_nonce_sum: "nonce_sum gf5_curve F1 (tss_points gf5_repr column0) = F1"
  by (simp add: nonce_sum_def column0_points effective_nonce_def gf5_curve_def gf5_eval)

text \<open>In this session the check of a share accepts one value.\<close>

lemma gf5_verify:
  assumes "p \<in> {0, 1, 2}"
  shows "frost_verify_share gf5_curve msg (node_u64 p) F2 z (tss_points gf5_repr column0) F2 =
    Some (z = share_scalar gf5_repr (response p))"
proof -
  have n: "node_u64 0 = 0" "node_u64 1 = 1" "node_u64 2 = 2" by (simp_all add: node_u64_def)
  have z: "share_scalar gf5_repr (response 0) = F3" "share_scalar gf5_repr (response 1) = F1" "share_scalar gf5_repr (response 2) = F4"
    by (simp_all add: gf5_repr_def response_def of5_def)
  have one: "z * F1 = z" by (cases z) (simp_all add: gf5_eval)
  show ?thesis
    using assms n z by (auto simp: frost_verify_share_def gf5_session column0_points gf5_multipliers pk_mul_tweak_def pk_combine_def
        key_mul_tweak_def nonzero_def Let_def public_key_def gf5_curve_simps one) (simp_all add: gf5_eval)
qed

lemma gf5_check_shares:
  "p \<in> {0, 1, 2} \<Longrightarrow> check_shares gf5_wallet wcfg p session0 0 [((\<lparr>st_value = 9, st_tweak = 1\<rparr>, 0), response p)] = Done ()"
proof -
  assume p: "p \<in> {0, 1, 2}"
  have pt: "pk_point gf5_repr 2 = F2" by (simp add: gf5_repr_def of5_def)
  have "check_share gf5_wallet wcfg p session0 0 \<lparr>st_value = 9, st_tweak = 1\<rparr> 0 (response p) = Some True"
    using gf5_agg(2) [OF p] gf5_agg(1) gf5_verify [OF p] session0_column pt
    by (simp add: check_share_def with_tss_scheme)
  then show ?thesis by (simp add: expect_def ensure_def)
qed

lemma share_rows_signing: "share_rows (signing ps k) = response_rows k" "nonce_log (signing ps k) = nonce_rows ps"
  "unsigned_row (signing ps k) = Some unsigned_tx"
  by (simp_all add: signing_def log0_def)

lemma sample_log:
  "latest_entry 0 (nonce_rows [0, 1, 2]) = Some 0" "latest_entry 1 (nonce_rows [0, 1, 2, 0]) = Some 1"
  "latest_entry 2 (nonce_rows [0, 1, 2, 0, 1]) = Some 2"
  "chunk_of 3 0 (nonce_rows [0, 1, 2]) = session0" "chunk_of 3 0 (nonce_rows [0, 1, 2, 0]) = session0"
  "chunk_of 3 0 (nonce_rows [0, 1, 2, 0, 1]) = session0"
  "next_index (nonce_rows [0, 1, 2]) = 3" "next_index (nonce_rows [0, 1, 2, 0]) = 4"
  "next_index (nonce_rows [0, 1, 2, 0, 1]) = 5"
  by (simp_all add: nonce_rows_def bt_of_list_def latest_entry_def chunk_of_def bt_range_def next_index_def bt_last_def
      session0_def)

lemma sample_rows:
  "bt_insert 3 (NonceEntry 0 [0]) (nonce_rows [0, 1, 2]) = nonce_rows [0, 1, 2, 0]"
  "bt_insert 4 (NonceEntry 1 [0]) (nonce_rows [0, 1, 2, 0]) = nonce_rows [0, 1, 2, 0, 1]"
  "bt_insert 0 [response 0] (response_rows 0) = response_rows 1" "bt_insert 1 [response 1] (response_rows 1) = response_rows 2"
  "chunk_of 3 0 (response_rows 1) = [[response 0]]" "chunk_of 3 0 (response_rows 2) = [[response 0], [response 1]]"
  "chunk_of 3 0 (bt_insert 2 [response 2] (response_rows 2)) = [[response 0], [response 1], [response 2]]"
  "\<not> bt_has (response_rows 0) 0" "\<not> bt_has (response_rows 1) 1" "\<not> bt_has (response_rows 2) 2"
  by (simp_all add: nonce_rows_def bt_of_list_def chunk_of_def bt_range_def response_rows_def bt_has_def)

lemma session0_length: "length session0 = 3" by (simp add: session0_def)

lemma unsigned_tx_fields:
  "length (btc_inputs (mtx unsigned_tx)) = 1" "length (spent_tx_outs unsigned_tx) = 1"
  "spent_tx_outs unsigned_tx = [\<lparr>st_value = 9, st_tweak = 1\<rparr>]"
  by (simp_all add: unsigned_tx_def)

lemma signing_step:
  assumes "latest_entry p (nonce_rows ps) = Some l" "l < 3" "chunk_of 3 0 (nonce_rows ps) = session0" "p \<in> {0, 1, 2}"
    and "\<not> bt_has (response_rows k) (of_nat l)"
  shows "process_signature_shares gf5_wallet wcfg p 1 [response p] [0] (signing ps k) =
    (let db1 = (signing ps k)\<lparr>share_rows := bt_insert (of_nat l) [response p] (response_rows k),
           nonce_log := bt_insert (next_index (nonce_rows ps)) (NonceEntry p [0]) (nonce_rows ps)\<rparr>;
         responses = chunk_of 3 0 (share_rows db1)
     in if length responses = 3 then
          obind (expect (finalize_tx gf5_wallet wcfg unsigned_tx [0] session0 responses)) (\<lambda>signed.
          Done (db1\<lparr>unsigned_row := None, nonce_log := bt_empty, share_rows := bt_empty,
            unconfirmed := bt_insert 1 signed (unconfirmed db1)\<rparr>))
        else Done db1)"
proof -
  have "l div 3 = 0" using assms(2) by simp
  then show ?thesis
    using assms(1,3,5) gf5_check_shares [OF assms(4)]
    by (simp add: process_signature_shares_def share_rows_signing ok_or_def unsigned_tx_fields mint_onchain_threshold
        gf5_sighashes expect_def session0_length Let_def)
qed

lemma shares_accepted:
  "process_signature_shares gf5_wallet wcfg 0 1 [response 0] [0] (signing [0, 1, 2] 0) = Done (signing [0, 1, 2, 0] 1)"
  "process_signature_shares gf5_wallet wcfg 1 1 [response 1] [0] (signing [0, 1, 2, 0] 1) = Done (signing [0, 1, 2, 0, 1] 2)"
  by (simp_all add: signing_step sample_log sample_rows [simplified] Let_def) (simp_all add: signing_def)

lemma signing_len: "bt_len (nonce_log (signing ps k)) \<le> length ps"
proof -
  have "bt_len (bt_of_list xs) \<le> length xs" for xs :: "(u64 \<times> nonce_entry) list"
  proof -
    have "bt_len (bt_of_list xs) = card (fst ` set xs)"
      unfolding bt_len_card set_keys_of_list [unfolded set_bt_keys, symmetric] ..
    also have "\<dots> \<le> length (map fst xs)" unfolding set_map [symmetric] by (rule card_length)
    finally show ?thesis by simp
  qed
  from this [of "map (\<lambda>(i, p). (of_nat i, NonceEntry p [0])) (zip [0..<length ps] ps)"] show ?thesis
    by (simp add: share_rows_signing nonce_rows_def)
qed

lemma sample_signing_ok: "signing_ok gf5_wallet wcfg 3 (signing [0, 1, 2, 0, 1] 2)"
proof -
  have 0: "signing_ok gf5_wallet wcfg 3 log0"
    by (simp add: signing_ok_def log0_def unsigned_tx_fields log_ok_def entries_ok_def responses_ok_def empty_onchain_def)
  have len: "next_index (nonce_log log0) \<noteq> - 1" "next_index (nonce_log (signing [0] 0)) \<noteq> - 1"
    "next_index (nonce_log (signing [0, 1] 0)) \<noteq> - 1"
    by (simp_all add: log0_def empty_onchain_def next_index_def bt_last_def signing_def nonce_rows_def bt_of_list_def)
  note N = signing_ok_nonces
  have 3: "signing_ok gf5_wallet wcfg 3 (signing [0, 1, 2] 0)"
    by (rule N [OF nonces_accepted(3) N [OF nonces_accepted(2) N [OF nonces_accepted(1) 0 len(1)] len(2)] len(3)])
  have t: "threshold (NumNodes 1) = 3" by (simp add: threshold_def)
  have room: "bt_len (nonce_log (signing ps k)) + threshold (NumNodes 1) < 2 ^ 64" if "length ps \<le> 5" for ps k
    using signing_len [of ps k] that t by simp
  note S = signing_ok_shares [OF _ nat_mint(2)]
  have "signing_ok gf5_wallet wcfg (threshold (NumNodes 1)) (signing [0, 1, 2, 0] 1)"
    by (rule S [OF shares_accepted(1) _ room]) (use 3 t in simp_all)
  then have "signing_ok gf5_wallet wcfg (threshold (NumNodes 1)) (signing [0, 1, 2, 0, 1] 2)"
    by (rule S [OF shares_accepted(2) _ room]) simp
  then show ?thesis using t by simp
qed

lemma sample_sessions: "sessions_usable gf5_curve gf5_repr gf5_base wcfg 3 (signing [0, 1, 2, 0, 1] 2)"
  unfolding sessions_usable_def
proof (intro allI impI)
  fix u msgs s i col agg
  assume a: "unsigned_row (signing [0, 1, 2, 0, 1] 2) = Some u" "sighashes gf5_wallet wcfg u = Some msgs"
    "(s + 1) * 3 \<le> bt_len (nonce_log (signing [0, 1, 2, 0, 1] 2))" "i < length (spent_tx_outs u)"
    "nonce_column (chunk_of 3 s (nonce_log (signing [0, 1, 2, 0, 1] 2))) i = Some col"
    "tweaked_agg_pk gf5_base wcfg (st_tweak (spent_tx_outs u ! i)) = Some agg"
  have u: "u = unsigned_tx" "msgs = [0]" "i = 0" using a(1,2,4) gf5_sighashes by (auto simp: share_rows_signing unsigned_tx_fields)
  have s: "s = 0" using a(3) signing_len [of "[0, 1, 2, 0, 1]" 2] by simp
  have c: "chunk_of 3 s (nonce_log (signing [0, 1, 2, 0, 1] 2)) = session0" by (simp add: s share_rows_signing sample_log)
  have col: "col = column0" "agg = 2" using a(5,6) session0_column gf5_agg(1) by (simp_all add: c u unsigned_tx_fields)
  have pt: "pk_point gf5_repr 2 = F2" by (simp add: gf5_repr_def of5_def)
  have "nonces_usable gf5_curve gf5_repr (msgs ! i) col agg"
    by (simp add: nonces_usable_def col column0_points gf5_good gf5_session gf5_nonce_sum zero_gf5_def)
  moreover have "shares_usable gf5_repr (share_column session0 responses i)"
    if r: "session_complete gf5_wallet wcfg 3 u msgs session0 responses" for responses
  proof -
    obtain x y z where rs: "responses = [x, y, z]"
      using r by (auto simp: session_complete_def length_Suc_conv numeral_3_eq_3)
    have "share_scalar gf5_repr (responses ! j ! 0) = share_scalar gf5_repr (response (ne_node (session0 ! j)))"
      if j: "j < 3" for j
    proof -
      have n: "ne_node (session0 ! j) \<in> {0, 1, 2}" using j by (auto simp: session0_def less_Suc_eq numeral_3_eq_3)
      have "check_share gf5_wallet wcfg (ne_node (session0 ! j)) session0 0 \<lparr>st_value = 9, st_tweak = 1\<rparr> 0 (responses ! j ! 0) = Some True"
        using r j by (simp add: session_complete_def u unsigned_tx_fields)
      then show ?thesis
        using gf5_agg(2) [OF n] gf5_agg(1) gf5_verify [OF n] session0_column pt by (simp add: check_share_def with_tss_scheme)
    qed
    from this [of 0] this [of 1] this [of 2]
    have v: "share_scalar gf5_repr (x ! 0) = F3" "share_scalar gf5_repr (y ! 0) = F1" "share_scalar gf5_repr (z ! 0) = F4"
      by (simp_all add: rs session0_def gf5_repr_def response_def of5_def)
    have "share_column session0 responses i = bt_of_list [(0, x ! 0), (1, y ! 0), (2, z ! 0)]"
      by (simp add: share_column_def rs u session0_def node_u64_def)
    then have "bt_values (share_column session0 responses i) = [x ! 0, y ! 0, z ! 0]"
      by (simp add: bt_values_def bt_of_list_def)
    then show ?thesis using v by (simp add: shares_usable_def key_add_tweak_def nonzero_def gf5_eval)
  qed
  ultimately show "nonces_usable gf5_curve gf5_repr (msgs ! i) col agg \<and>
      (\<forall>responses. session_complete gf5_wallet wcfg 3 u msgs (chunk_of 3 s (nonce_log (signing [0, 1, 2, 0, 1] 2))) responses \<longrightarrow>
         shares_usable gf5_repr (share_column (chunk_of 3 s (nonce_log (signing [0, 1, 2, 0, 1] 2))) responses i))"
    unfolding c by blast
qed

text \<open>The third response ends the session.\<close>

theorem session_signs_witness:
  "\<exists>db' u' sig. process_signature_shares gf5_wallet wcfg 2 1 [response 2] [0] (signing [0, 1, 2, 0, 1] 2) = Done db' \<and>
    bt_get (unconfirmed db') 1 = Some u' \<and> witness (btc_inputs (mtx u') ! 0) = Some (enc_int sig) \<and>
    bip340_accepts gf5_curve (enc_hash 0) (sig_parts gf5_repr sig) (x_only_pk gf5_curve F2)"
proof -
  let ?db = "signing [0, 1, 2, 0, 1] 2"
  let ?step = "process_signature_shares gf5_wallet wcfg 2 1 [response 2] [0] ?db"
  have t: "threshold (NumNodes 1) = 3" by (simp add: threshold_def)
  have use: "\<forall>u. unsigned_row ?db = Some u \<longrightarrow> usable_tweaks gf5_base wcfg u"
    using gf5_tweak
    by (auto simp: share_rows_signing unsigned_tx_fields usable_tweaks_def tweaked_agg_pk_def tweaked_pks_def mint_cfg_def bt_of_list_def
        split: if_splits)
  have room: "bt_len (nonce_log ?db) + threshold (NumNodes 1) < 2 ^ 64"
    using signing_len [of "[0, 1, 2, 0, 1]" 2] t by simp
  have tot: "sighash_total gf5_base" by (simp add: sighash_total_def)
  have p: "bt_get (onchain_pks wcfg) 2 \<noteq> None" by (simp add: mint_cfg_def bt_of_list_def)
  have pt: "pk_point gf5_repr 2 = F2" by (simp add: gf5_repr_def of5_def)
  note all = session_signs [OF gf5_world gf5_keys [folded t] tot nat_mint(2) p use sample_signing_ok [folded t] room
      sample_sessions [folded t], of 1 "[response 2]" "[0]"]
  have np: "?step \<noteq> Panicked" by (rule all [THEN conjunct1])
  let ?res = "[[response 0], [response 1], [response 2]]"
  have step: "?step = obind (expect (finalize_tx gf5_wallet wcfg unsigned_tx [0] session0 ?res)) (\<lambda>signed.
      Done (?db\<lparr>unsigned_row := None, nonce_log := bt_empty, share_rows := bt_empty, unconfirmed := bt_insert 1 signed (unconfirmed ?db)\<rparr>))"
    by (simp add: signing_step sample_log sample_rows Let_def)
  from np step obtain signed where "finalize_tx gf5_wallet wcfg unsigned_tx [0] session0 ?res = Some signed"
    by (cases "finalize_tx gf5_wallet wcfg unsigned_tx [0] session0 ?res") (simp_all add: expect_def)
  with step obtain db' where d: "?step = Done db'" "unsigned_row db' = None" by (simp add: expect_def)
  from all [THEN conjunct2, THEN conjunct2, rule_format, OF d(1) share_rows_signing(3) d(2)]
  show ?thesis using d(1) gf5_agg(1) gf5_sighashes pt by (auto simp: unsigned_tx_fields)
qed

section \<open>No panic\<close>

text \<open>
  C31. No panic. On a well-formed state, with the keys of a key generation, no ordered item makes the
  node panic, in the modules, the server or the checks of the threshold scheme, as long as at most 31
  wallet transactions are unconfirmed, the signing sessions under way can be signed (the signers'
  evaluation points differ, the binding factor is not zero, the nonces do not sum up to infinity, no
  partial sum of the responses is zero) and, for a version vote, no threshold of nodes has announced a
  version the node does not know.
\<close>

theorem item_never_panics:
  fixes Sx :: "('f::field, 'g::ab_group_add) secp" and R :: "('f, 'g) tss_repr"
  assumes "daemon_ok S cfg n db" "world_ok S cfg n" "p \<in> set (node_ids n)"
    and "used db + item_weight i + threshold n < 2 ^ 64" "within_limits n p i db"
    and "dwallet S = with_tss Sx R B" "tss_world Sx R B" "tss_keys Sx R (onchain_cfg cfg) (threshold n)"
    and "sessions_usable Sx R B (onchain_cfg cfg) (threshold n) (onchain_tables db)"
  shows "process_consensus_item S cfg p i db \<noteq> Panicked \<and>
    checks_return Sx R B (onchain_cfg cfg) (threshold n) (onchain_tables db)"
proof
  have "tss_sound (tss_good Sx R) (dwallet S) (onchain_cfg cfg) (threshold n)"
    "sessions_good (tss_good Sx R) (dwallet S) (onchain_cfg cfg) (threshold n) (onchain_tables db)"
    unfolding assms(6) by (rule tss_wallet_sound [OF assms(7,8)] sessions_usable_good [OF assms(9)])+
  from item_no_panic [OF assms(1,2) this assms(3-5)] show "process_consensus_item S cfg p i db \<noteq> Panicked" .
qed (rule sessions_usable_checks [OF assms(7,9)])

text \<open>A daemon in the middle of the session: the next response ends it.\<close>

definition gf5_crypto :: crypto where
  "gf5_crypto = mint_crypto\<lparr>sha256 := \<lambda>bs. 1\<rparr>"

definition gf5_ops :: daemon_ops where
  "gf5_ops = \<lparr>dcrypto = gf5_crypto, dtbs = mint_tbs, dwallet = gf5_wallet\<rparr>"

definition session_info :: tx_info where
  "session_info = \<lparr>ti_index = 0, ti_txid = 1, ti_input = 9, ti_output = 5, ti_fee = 4, ti_vbytes = 154, created = 2\<rparr>"

definition in_session_onchain :: onchain_db where
  "in_session_onchain = (signing [0, 1, 2, 0, 1] 2)
     \<lparr>mint_row := Some \<lparr>mu_value = 5, mu_outpoint = BtcOutPoint 1 0, mu_tweak = 1\<rparr>,
      tx_infos := bt_insert 0 session_info bt_empty\<rparr>"

definition in_session :: daemon_db where
  "in_session = genesis\<lparr>onchain_tables := in_session_onchain\<rparr>"

lemma gf5_world_ok: "world_ok gf5_ops mint_cfg (NumNodes 1)"
proof -
  have "hashes_usable gf5_crypto gf5_wallet wcfg"
    using gf5_tweak by (auto simp: hashes_usable_def hashed_def gf5_crypto_def tweaked_agg_pk_def tweaked_pks_def mint_cfg_def bt_of_list_def
        split: if_splits)
  moreover have "sighash_total gf5_wallet" by (simp add: sighash_total_def)
  ultimately show ?thesis using mint_config_ok
    by (simp add: world_ok_def gf5_ops_def) (simp add: mint_cfg_def CONSENSUS_VERSION_def)
qed

lemma in_session_ok: "daemon_ok gf5_ops mint_cfg (NumNodes 1) in_session"
proof -
  have h: "server_block_height mint_cfg in_session = Some 0"
    by (simp add: mint_height in_session_def genesis_def bt_values_def)
  have t: "threshold (NumNodes 1) = 3" by (simp add: threshold_def)
  have hs: "hashed gf5_crypto 1" by (simp add: hashed_def gf5_crypto_def)
  have row: "unsigned_row in_session_onchain = Some unsigned_tx" "tx_infos in_session_onchain = bt_insert 0 session_info bt_empty"
    "unconfirmed in_session_onchain = bt_empty" "tracked_outputs in_session_onchain = bt_empty"
    "block_votes in_session_onchain = bt_empty" "feerate_votes in_session_onchain = bt_empty" "block_height in_session_onchain = None"
    by (simp_all add: in_session_onchain_def signing_def log0_def empty_onchain_def)
  have "chain_ok in_session_onchain"
    by (simp add: chain_ok_def row dense_def bt_len_def bt_keys_def total_txs_def next_index_def bt_last_def session_info_def)
      (simp add: in_session_onchain_def)
  moreover have "links_ok gf5_wallet in_session_onchain"
    by (simp add: links_ok_def logged_tx_def row unsigned_tx_def session_info_def unsigned_input_def)
  moreover have "signing_ok gf5_wallet wcfg 3 in_session_onchain"
    using sample_signing_ok by (simp add: signing_ok_def in_session_onchain_def share_rows_signing)
  moreover have "blocks_ok wcfg in_session_onchain" "fees_ok (NumNodes 1) in_session_onchain"
    by (simp_all add: blocks_ok_def fees_ok_def row pending_txs_unordered_def bt_values_def unsigned_tx_def)
  moreover have "tweaks_ok gf5_crypto in_session_onchain"
    using hs by (simp add: tweaks_ok_def row unsigned_tx_fields) (simp add: in_session_onchain_def)
  ultimately have "onchain_ok gf5_crypto gf5_wallet wcfg (NumNodes 1) in_session_onchain" by (simp add: onchain_ok_def threshold_def)
  then show ?thesis using h row
    by (simp add: daemon_ok_def modules_ok_def votes_ok_def contracts_ok_def fresh_from_def ecash_ok_def stream_ok_def
        gf5_ops_def) (simp add: in_session_def in_session_onchain_def signing_def log0_def genesis_def empty_lightning_def empty_onchain_def)
qed

theorem item_never_panics_witness:
  "process_consensus_item gf5_ops mint_cfg 2 (ModuleItem (SharesItem 1 [response 2] [0])) in_session \<noteq> Panicked"
proof -
  have t: "threshold (NumNodes 1) = 3" by (simp add: threshold_def)
  have tables: "onchain_tables in_session = in_session_onchain" by (simp add: in_session_def)
  have "bt_len (nonce_log in_session_onchain) \<le> 5" "bt_len (tx_infos in_session_onchain) = 1" "bt_len (tracked_outputs in_session_onchain) = 0"
    using signing_len [of "[0, 1, 2, 0, 1]" 2] by (simp_all add: in_session_onchain_def bt_len_def signing_def log0_def empty_onchain_def)
  then have room: "used in_session + item_weight (ModuleItem (SharesItem 1 [response 2] [0])) + threshold (NumNodes 1) < 2 ^ 64"
    by (simp add: used_def onchain_used_def tables threshold_def in_session_def genesis_def empty_lightning_def stream_next_def)
  have lim: "within_limits (NumNodes 1) 2 (ModuleItem (SharesItem 1 [response 2] [0])) in_session"
    by (simp add: within_limits_def tables in_session_onchain_def signing_def log0_def empty_onchain_def bt_len_def)
  have ss: "sessions_usable gf5_curve gf5_repr gf5_base wcfg (threshold (NumNodes 1)) (onchain_tables in_session)"
    using sample_sessions by (simp add: sessions_usable_def tables in_session_onchain_def threshold_def)
  have w: "dwallet gf5_ops = gf5_wallet" by (simp add: gf5_ops_def)
  show ?thesis
    by (rule item_never_panics [OF in_session_ok gf5_world_ok _ room lim w gf5_world gf5_keys [folded t] ss, THEN conjunct1])
      (simp add: mint_node_ids [simplified])
qed

end
