(* ===== verification/Service_Claims.thy ===== *)
theory Service_Claims
  imports Mint_Sample
begin

text \<open>
  The properties of the funding check and of what the server reads out: the pages of incoming
  contracts and the slices of tracked outputs.
\<close>

section \<open>Funding\<close>

text \<open>
  The funding check is exact. In 64-bit arithmetic that fails on overflow, the check of a
  transaction's inputs, outputs and fees decides the inequality of the unbounded sums: it overflows
  when the inputs, or the outputs with all fees, exceed 64 bits, and otherwise succeeds exactly when
  the inputs pay for outputs and fees.
\<close>

theorem funding_exact:
  "funding_check ins outs =
     (if 2 ^ 64 \<le> amounts_nat ins \<or> 2 ^ 64 \<le> amounts_nat outs + fees_nat ins + fees_nat outs then Failed TxOverflow
      else if amounts_nat outs + fees_nat ins + fees_nat outs \<le> amounts_nat ins then Done () else Failed Underfunded)"
  by (auto simp: funding_check_def inputs_funded outputs_funded verify_funding_def amount_checked_add_eq ok_or_def ensure_def
      word_le_nat_alt funding_default_def amount_zero_def not_less)

section \<open>Incoming contracts\<close>

text \<open>
  Pages of the contract stream. A page of incoming contracts from position \<open>start\<close> lists only
  contracts that are unspent, and skips none: every unspent contract from \<open>start\<close> on is in the page
  or at or past the position where the next page starts.
\<close>

theorem stream_page:
  fixes start "next" :: u64
  assumes ok: "stream_ok db" and page: "await_incoming_contracts start batch db = Some (Inr (es, next))"
  shows "(\<forall>(p, c) \<in> set es. bt_get (incoming_contracts db) p = Some c) \<and> length es \<le> unat batch \<and> start < next \<and>
    (\<forall>p c i. bt_get (incoming_contracts db) p = Some c \<longrightarrow> bt_get (contract_index db) p = Some i \<longrightarrow> start \<le> i \<longrightarrow>
       (p, c) \<in> set es \<or> next \<le> i)"
proof -
  let ?rs = "bt_range start (- 1) (contract_stream db)"
  define xs where "xs = take (unat batch) ?rs"
  from page obtain n where n: "stream_next_index db = Some n" "start < n" and b: "batch \<noteq> 0"
    and es: "es = map snd xs" and nx: "next = (if xs = [] then n else fst (last xs) + 1)"
    by (auto simp: await_incoming_contracts_def xs_def Let_def split: if_splits option.splits)
  have rs: "(i, p, c) \<in> set ?rs \<longleftrightarrow> bt_get (contract_stream db) i = Some (p, c) \<and> start \<le> i \<and> i < - 1" for i p c
    by (auto simp: bt_range_def bt_get_Some_iff)
  have listed: "bt_get (incoming_contracts db) p = Some c \<and> i < n" if "bt_get (contract_stream db) i = Some (p, c)" for i p c
    using stream_ok_listed [OF ok that] n(1) by auto
  have sub: "(i, p, c) \<in> set ?rs" if "(i, p, c) \<in> set xs" for i p c
    using that by (auto simp: xs_def dest: in_set_takeD)
  have up: "i < i + 1" if "i < n" for i :: u64
    using that by (intro word_less_succ) auto
  have srt: "sorted_wrt (<) (map fst ?rs)"
    using sorted_keys_entries [of "contract_stream db"] by (simp add: bt_range_def sorted_keys_def sorted_wrt_map sorted_wrt_filter)
  have "start < next"
  proof (cases "xs = []")
    case False
    obtain i p c where l: "last xs = (i, p, c)" using prod_cases3 by blast
    then have "(i, p, c) \<in> set xs" using False by (metis last_in_set)
    then have "start \<le> i" "i < n" using sub rs listed by blast+
    then show ?thesis using up [of i] False l by (simp add: nx)
  qed (simp add: nx n)
  moreover have "(p, c) \<in> set es \<or> next \<le> i"
    if g: "bt_get (incoming_contracts db) p = Some c" "bt_get (contract_index db) p = Some i" "start \<le> i" for p c i
  proof (cases "(i, p, c) \<in> set xs")
    case True
    then show ?thesis by (force simp: es)
  next
    case False
    from stream_ok_entry [OF ok g(1)] g(2) n(1) have e: "bt_get (contract_stream db) i = Some (p, c)" "i < n" by auto
    have "n \<le> - 1" by simp
    with e(2) have "i < - 1" by (rule less_le_trans)
    then have "(i, p, c) \<in> set ?rs" using rs e g(3) by blast
    then have "(i, p, c) \<in> set (xs @ drop (unat batch) ?rs)" by (simp add: xs_def)
    then have d: "(i, p, c) \<in> set (drop (unat batch) ?rs)" using False by simp
    then have ne: "xs \<noteq> []" using b by (cases ?rs) (auto simp: xs_def take_Cons' unat_eq_0)
    have "map fst ?rs = map fst xs @ map fst (drop (unat batch) ?rs)"
      by (simp add: xs_def flip: map_append)
    with srt have "\<forall>a \<in> set (map fst xs). \<forall>b \<in> set (map fst (drop (unat batch) ?rs)). a < b"
      by (simp add: sorted_wrt_append)
    moreover have "fst (last xs) \<in> set (map fst xs)" using ne by simp
    moreover have "i \<in> set (map fst (drop (unat batch) ?rs))" using d by force
    ultimately have "fst (last xs) < i" by blast
    then have "fst (last xs) + 1 \<le> i" by (rule inc_le)
    then show ?thesis using ne by (simp add: nx)
  qed
  moreover have "\<forall>(p, c) \<in> set es. bt_get (incoming_contracts db) p = Some c"
    using sub rs listed by (fastforce simp: es)
  moreover have "length es \<le> unat batch" by (simp add: es xs_def)
  ultimately show ?thesis by blast
qed

definition sample_contract :: incoming_contract where
  "sample_contract = \<lparr>ic_amount = Amount 5000, ic_fee = Amount 10, ic_claim_pk = 3, ephemeral_pk = 4\<rparr>"

definition one_contract :: lightning_db where
  "one_contract = empty_lightning
     \<lparr>incoming_contracts := bt_insert (OutPoint 140 0) sample_contract bt_empty, stream_next_index := Some 1,
      contract_stream := bt_insert 0 (OutPoint 140 0, sample_contract) bt_empty,
      contract_index := bt_insert (OutPoint 140 0) 0 bt_empty\<rparr>"

theorem stream_page_witness:
  "await_incoming_contracts 0 10 one_contract = Some (Inr ([(OutPoint 140 0, sample_contract)], 1)) \<and>
   bt_get (incoming_contracts one_contract) (OutPoint 140 0) = Some sample_contract"
proof -
  have top_index: "(0::u64) < - 1" by (simp add: word_less_nat_alt unsigned_minus_1_eq_mask mask_eq_exp_minus_1)
  have ok: "stream_ok one_contract"
    by (auto simp: stream_ok_def one_contract_def empty_lightning_def split: option.splits if_splits)
  have p: "await_incoming_contracts 0 10 one_contract = Some (Inr ([(OutPoint 140 0, sample_contract)], 1))"
    by (simp add: await_incoming_contracts_def one_contract_def bt_range_def Let_def top_index)
  from stream_page [OF ok p] p show ?thesis by simp
qed

section \<open>Tracked outputs\<close>

text \<open>
  Slices of tracked outputs. A slice lists, in the order of their indices, exactly the tracked
  pay-to-taproot outputs of the range, each with its script and value, and reports one as spent
  exactly when its deposit has been claimed.
\<close>

theorem output_slice:
  "sorted_wrt (<) (map oi_index (get_outputs W lo hi db)) \<and>
   (\<forall>x. x \<in> set (get_outputs W lo hi db) \<longleftrightarrow>
     (\<exists>t. bt_get (tracked_outputs db) (oi_index x) = Some t \<and> lo \<le> oi_index x \<and> oi_index x < hi \<and>
        is_p2tr W (script_pubkey (tr_out t)) \<and> oi_script x = script_pubkey (tr_out t) \<and>
        oi_value x = to_value (tr_out t) \<and> oi_spent x = bt_has (spent_outputs db) (oi_index x)))"
proof -
  let ?ys = "filter (\<lambda>(i, x). is_p2tr W (script_pubkey (tr_out x))) (bt_range lo hi (tracked_outputs db))"
  have "map oi_index (get_outputs W lo hi db) = map fst ?ys"
    by (simp add: get_outputs_def Let_def comp_def case_prod_unfold)
  moreover have "sorted_wrt (<) (map fst ?ys)"
    using sorted_keys_entries [of "tracked_outputs db"]
    by (simp add: bt_range_def sorted_keys_def sorted_wrt_map sorted_wrt_filter)
  ultimately show ?thesis using get_outputs_spent by (metis (no_types, lifting))
qed

end
