(* ===== verification/Mint_Replicas.thy ===== *)
theory Mint_Replicas
  imports Session_Close
begin

text \<open>
  The nodes of a mint differ in their secret keys and in the signature shares they keep. What they
  agree on is the rest of their databases: every item gets the same verdict from each of them, and
  leaves the agreed part of their databases the same.
\<close>

section \<open>Related outcomes\<close>

lemma obind_rel:
  "rel_outcome (=) R x y \<Longrightarrow> (\<And>a b. R a b \<Longrightarrow> rel_outcome (=) Q (f a) (g b)) \<Longrightarrow>
   rel_outcome (=) Q (obind x f) (obind y g)"
  by (cases x; cases y) auto

lemma map_err_rel: "rel_outcome (=) R x y \<Longrightarrow> rel_outcome (=) R (map_err h x) (map_err h y)"
  by (cases x; cases y) auto

lemma outcome_refl: "(\<And>a. R a a) \<Longrightarrow> rel_outcome (=) R x x"
  by (cases x) auto

lemma ofold_rel:
  assumes "\<And>x s t. x \<in> set xs \<Longrightarrow> R s t \<Longrightarrow> rel_outcome (=) R (f x s) (g x t)"
  shows "R s t \<Longrightarrow> rel_outcome (=) R (ofold f xs s) (ofold g xs t)"
  using assms
proof (induction xs arbitrary: s t)
  case (Cons x xs)
  have "rel_outcome (=) R (f x s) (g x t)" using Cons.prems by simp
  moreover have "rel_outcome (=) R (ofold f xs a) (ofold g xs b)" if "R a b" for a b
    using Cons.IH [OF that] Cons.prems(2) by simp
  ultimately show ?case by (auto intro: obind_rel)
qed simp

section \<open>The agreed part\<close>

definition public_onchain :: "onchain_config \<Rightarrow> onchain_config" where
  "public_onchain cfg = cfg\<lparr>onchain_sks := 0, own_identity := 0\<rparr>"

text \<open>Two nodes' configurations of one mint, with the same denominations.\<close>

definition same_mint :: "daemon_config \<Rightarrow> daemon_config \<Rightarrow> bool" where
  "same_mint cfg cfg' \<longleftrightarrow>
     broadcast_pks cfg = broadcast_pks cfg' \<and> default_version cfg = default_version cfg' \<and>
     tbs_agg_pks (ecash_cfg cfg) = tbs_agg_pks (ecash_cfg cfg') \<and>
     (\<forall>d. bt_has (tbs_sks (ecash_cfg cfg)) d = bt_has (tbs_sks (ecash_cfg cfg')) d) \<and>
     public_onchain (onchain_cfg cfg) = public_onchain (onchain_cfg cfg')"

definition public_ecash :: "ecash_db \<Rightarrow> ecash_db" where
  "public_ecash t = t\<lparr>signature_shares_table := bt_empty, restore_shares := bt_empty\<rparr>"

definition public_db :: "daemon_db \<Rightarrow> daemon_db" where
  "public_db db = db\<lparr>ecash_tables := public_ecash (ecash_tables db)\<rparr>"

definition agree :: "daemon_db \<Rightarrow> daemon_db \<Rightarrow> bool" where
  "agree db db' \<longleftrightarrow> public_db db = public_db db'"

lemma agree_fields:
  "agree db db' \<longleftrightarrow>
     public_ecash (ecash_tables db) = public_ecash (ecash_tables db') \<and> lightning_tables db = lightning_tables db' \<and>
     onchain_tables db = onchain_tables db' \<and> accepted_txids db = accepted_txids db' \<and>
     height_votes db = height_votes db' \<and> version_votes db = version_votes db'"
  by (cases db; cases db') (auto simp: agree_def public_db_def)

lemma public_ecash_fields:
  "public_ecash t = public_ecash t' \<longleftrightarrow> note_nonces t = note_nonces t' \<and> blinded_nonces t = blinded_nonces t'"
  by (cases t; cases t') (auto simp: public_ecash_def)

section \<open>The wallet does not look at the node's secrets\<close>

lemma public_onchain_fields [simp]:
  "onchain_pks (public_onchain cfg) = onchain_pks cfg" "onchain_agg_pk (public_onchain cfg) = onchain_agg_pk cfg"
  by (simp_all add: public_onchain_def)

lemma public_keys [simp]:
  "script_pubkey_of W (public_onchain cfg) = script_pubkey_of W cfg" "tweaked_pks W (public_onchain cfg) = tweaked_pks W cfg"
  "tweaked_agg_pk W (public_onchain cfg) = tweaked_agg_pk W cfg" "onchain_nodes (public_onchain cfg) = onchain_nodes cfg"
  "onchain_threshold (public_onchain cfg) = onchain_threshold cfg"
  by (simp_all add: fun_eq_iff script_pubkey_of_def tweaked_pks_def tweaked_agg_pk_def onchain_nodes_def onchain_threshold_def)

lemma public_fees [simp]:
  "consensus_fee (public_onchain cfg) = consensus_fee cfg" "send_fee (public_onchain cfg) = send_fee cfg"
  "receive_fee (public_onchain cfg) = receive_fee cfg"
  by (simp_all add: fun_eq_iff consensus_fee_def consensus_feerate_def send_fee_def receive_fee_def)

lemma public_wallet_tx [simp]: "wallet_tx C W (public_onchain cfg) = wallet_tx C W cfg"
  by (simp add: fun_eq_iff wallet_tx_def)

lemma public_receive [simp]: "receive_into C W (public_onchain cfg) = receive_into C W cfg"
  by (simp add: fun_eq_iff receive_into_def split: option.split)

lemma public_process [simp]:
  "onchain_process_input C W (public_onchain cfg) = onchain_process_input C W cfg"
  "onchain_process_output C W (public_onchain cfg) = onchain_process_output C W cfg"
  by (simp_all add: fun_eq_iff onchain_process_input_def onchain_process_output_def cong: if_cong)

lemma public_share [simp]:
  "check_share W (public_onchain cfg) = check_share W cfg" "sign_input W (public_onchain cfg) = sign_input W cfg"
  by (simp_all add: fun_eq_iff check_share_def sign_input_def)

lemma public_shares [simp]: "check_shares W (public_onchain cfg) p chunk i xs = check_shares W cfg p chunk i xs"
  by (induction xs arbitrary: i) (auto simp: fun_eq_iff)

lemma public_signing [simp]:
  "sign_inputs W (public_onchain cfg) chunk responses i xs tx = sign_inputs W cfg chunk responses i xs tx"
  by (induction xs arbitrary: i tx) (auto cong: if_cong)

lemma public_finalize [simp]:
  "sighashes W (public_onchain cfg) = sighashes W cfg" "finalize_tx W (public_onchain cfg) = finalize_tx W cfg"
  by (simp_all add: fun_eq_iff sighashes_def finalize_tx_def)

lemma public_items: "onchain_process_item W (public_onchain cfg) p i db = onchain_process_item W cfg p i db"
  by (cases i) (simp_all add: process_block_vote_def process_signature_shares_def Let_def cong: if_cong)

lemma same_mint_onchain:
  assumes "same_mint cfg cfg'"
  shows "onchain_process_input C W (onchain_cfg cfg) = onchain_process_input C W (onchain_cfg cfg')"
    "onchain_process_output C W (onchain_cfg cfg) = onchain_process_output C W (onchain_cfg cfg')"
    "onchain_process_item W (onchain_cfg cfg) p i db = onchain_process_item W (onchain_cfg cfg') p i db"
proof -
  have e: "public_onchain (onchain_cfg cfg) = public_onchain (onchain_cfg cfg')" using assms by (simp add: same_mint_def)
  show "onchain_process_input C W (onchain_cfg cfg) = onchain_process_input C W (onchain_cfg cfg')"
    "onchain_process_output C W (onchain_cfg cfg) = onchain_process_output C W (onchain_cfg cfg')"
    "onchain_process_item W (onchain_cfg cfg) p i db = onchain_process_item W (onchain_cfg cfg') p i db"
    using e public_process public_items by (metis, metis, metis)
qed

section \<open>Items\<close>

lemma votes_agree:
  assumes "same_mint cfg cfg'" "agree db db'"
  shows "server_block_height cfg db = server_block_height cfg' db'" "server_version cfg db = server_version cfg' db'"
  using assms by (simp_all add: same_mint_def agree_fields server_block_height_def server_version_def daemon_nodes_def)

lemma ecash_input_agree:
  assumes "same_mint cfg cfg'" "public_ecash t = public_ecash t'"
  shows "rel_outcome (=) (\<lambda>(r, u) (r', u'). r = r' \<and> public_ecash u = public_ecash u')
    (ecash_process_input B (ecash_cfg cfg) x t) (ecash_process_input B (ecash_cfg cfg') x t')"
  using assms by (cases x) (auto simp: same_mint_def public_ecash_fields Let_def split: option.splits)

lemma ecash_output_agree:
  assumes "same_mint cfg cfg'" "public_ecash t = public_ecash t'"
  shows "rel_outcome (=) (\<lambda>(r, u) (r', u'). r = r' \<and> public_ecash u = public_ecash u')
    (ecash_process_output B (ecash_cfg cfg) x p t) (ecash_process_output B (ecash_cfg cfg') x p t')"
proof (cases x)
  case (EcashOutput d b)
  have "bt_has (tbs_sks (ecash_cfg cfg)) d = bt_has (tbs_sks (ecash_cfg cfg')) d" using assms(1) by (simp add: same_mint_def)
  then show ?thesis
    using assms(2) by (auto simp: EcashOutput public_ecash_fields Let_def bt_has_def split: option.splits)
qed

lemma input_agree:
  assumes s: "same_mint cfg cfg'" and a: "agree db db'"
  shows "rel_outcome (=) (\<lambda>(r, d) (r', d'). r = r' \<and> agree d d') (process_input S cfg i db) (process_input S cfg' i db')"
proof (cases i)
  case (EcashIn x)
  show ?thesis
    unfolding EcashIn process_input.simps
    by (intro map_err_rel obind_rel [OF ecash_input_agree [OF s]]) (use a in \<open>auto simp: agree_fields\<close>)
next
  case (OnchainIn x)
  show ?thesis
    unfolding OnchainIn process_input.simps same_mint_onchain(1) [OF s] votes_agree(1) [OF s a]
    by (intro map_err_rel obind_rel [where R = "(=)"]) (use a in \<open>auto simp: agree_fields outcome_refl\<close>)
next
  case (LightningIn x)
  show ?thesis
    unfolding LightningIn process_input.simps
    by (intro map_err_rel obind_rel [where R = "(=)"]) (use a in \<open>auto simp: agree_fields outcome_refl\<close>)
qed

lemma output_agree:
  assumes s: "same_mint cfg cfg'" and a: "agree db db'"
  shows "rel_outcome (=) (\<lambda>(r, d) (r', d'). r = r' \<and> agree d d') (process_output S cfg x p db) (process_output S cfg' x p db')"
proof (cases x)
  case (EcashOut y)
  show ?thesis
    unfolding EcashOut process_output.simps
    by (intro map_err_rel obind_rel [OF ecash_output_agree [OF s]]) (use a in \<open>auto simp: agree_fields\<close>)
next
  case (OnchainOut y)
  show ?thesis
    unfolding OnchainOut process_output.simps same_mint_onchain(2) [OF s] votes_agree(1) [OF s a]
    by (intro map_err_rel obind_rel [where R = "(=)"]) (use a in \<open>auto simp: agree_fields outcome_refl\<close>)
next
  case (LightningOut y)
  show ?thesis
    unfolding LightningOut process_output.simps
    by (intro map_err_rel obind_rel [where R = "(=)"]) (use a in \<open>auto simp: agree_fields outcome_refl\<close>)
qed

text \<open>The states of the two loops.\<close>

definition agree_in :: "funding_verifier \<times> xonly list \<times> daemon_db \<Rightarrow> funding_verifier \<times> xonly list \<times> daemon_db \<Rightarrow> bool" where
  "agree_in s t \<longleftrightarrow> fst s = fst t \<and> fst (snd s) = fst (snd t) \<and> agree (snd (snd s)) (snd (snd t))"

definition agree_out :: "funding_verifier \<times> daemon_db \<Rightarrow> funding_verifier \<times> daemon_db \<Rightarrow> bool" where
  "agree_out s t \<longleftrightarrow> fst s = fst t \<and> agree (snd s) (snd t)"

lemma input_step_agree:
  assumes s: "same_mint cfg cfg'" and a: "agree_in x y"
  shows "rel_outcome (=) agree_in (input_step S cfg i x) (input_step S cfg' i y)"
proof -
  obtain v ps db db' where xy: "x = (v, ps, db)" "y = (v, ps, db')" "agree db db'"
    using a by (cases x; cases y) (auto simp: agree_in_def)
  show ?thesis
    unfolding xy(1,2) input_step_def prod.case
    by (intro obind_rel [OF map_err_rel [OF input_agree [OF s xy(3)]]])
      (auto intro!: obind_rel [where R = "(=)"] simp: outcome_refl agree_in_def)
qed

lemma output_step_agree:
  assumes s: "same_mint cfg cfg'" and a: "agree_out x y"
  shows "rel_outcome (=) agree_out (output_step S cfg txid p x) (output_step S cfg' txid p y)"
proof -
  obtain v db db' where xy: "x = (v, db)" "y = (v, db')" "agree db db'"
    using a by (cases x; cases y) (auto simp: agree_out_def)
  obtain w k where p: "p = (w, k)" by fastforce
  show ?thesis
    unfolding xy(1,2) p output_step_def prod.case
    by (intro obind_rel [OF map_err_rel [OF output_agree [OF s xy(3)]]])
      (auto intro!: obind_rel [where R = "(=)"] simp: outcome_refl agree_out_def)
qed

lemma tx_agree:
  assumes s: "same_mint cfg cfg'" and a: "agree db db'"
  shows "rel_outcome (=) agree (process_tx S cfg tx db) (process_tx S cfg' tx db')"
proof -
  have i: "rel_outcome (=) agree_in (ofold (input_step S cfg) xs (v, ps, db)) (ofold (input_step S cfg') xs (v, ps, db'))"
    for xs v ps
    by (rule ofold_rel [OF input_step_agree [OF s]]) (simp_all add: agree_in_def a)
  have o: "rel_outcome (=) agree_out (ofold (output_step S cfg t) xs (v, d)) (ofold (output_step S cfg' t) xs (v, d'))"
    if "agree d d'" for xs v t d d'
    by (rule ofold_rel [OF output_step_agree [OF s]]) (simp_all add: agree_out_def that)
  have f: "rel_outcome (=) agree (obind x (\<lambda>_. Done d)) (obind x (\<lambda>_. Done d'))" if "agree d d'" for x :: "(tx_error, unit) outcome" and d d'
    by (rule obind_rel [where R = "(=)"]) (simp_all add: outcome_refl that)
  have tail: "rel_outcome (=) agree
      (obind x (\<lambda>_. obind (ofold (output_step S cfg t) xs (v, d)) (\<lambda>(v', e). obind (verify_funding v') (\<lambda>_. Done e))))
      (obind x (\<lambda>_. obind (ofold (output_step S cfg' t) xs (v, d')) (\<lambda>(v', e). obind (verify_funding v') (\<lambda>_. Done e))))"
    if "agree d d'" for x :: "(tx_error, unit) outcome" and xs v t d d'
    by (rule obind_rel [where R = "(=)"], simp add: outcome_refl, rule obind_rel [OF o [OF that]])
      (auto simp: agree_out_def intro: f)
  show ?thesis
    unfolding process_tx_def Let_def
    by (auto intro!: obind_rel [OF i] simp: agree_in_def intro: tail)
qed

lemma item_agree:
  assumes s: "same_mint cfg cfg'" and a: "agree db db'"
  shows "rel_outcome (=) agree (process_consensus_item S cfg p i db) (process_consensus_item S cfg' p i db')"
proof (cases i)
  case (TxItem tx)
  have "accepted_txids db = accepted_txids db'" using a by (simp add: agree_fields)
  then show ?thesis
    unfolding TxItem process_consensus_item.simps Let_def
    by (auto intro!: obind_rel [OF map_err_rel [OF tx_agree [OF s a]]]) (auto simp: agree_fields)
next
  case (ModuleItem x)
  have "onchain_tables db = onchain_tables db'" using a by (simp add: agree_fields)
  then show ?thesis
    unfolding ModuleItem process_consensus_item.simps same_mint_onchain(3) [OF s]
    by (auto intro!: obind_rel [where R = "(=)"] simp: outcome_refl) (use a in \<open>auto simp: agree_fields\<close>)
next
  case (BlockHeightItem v)
  have v: "agree (db\<lparr>height_votes := vs\<rparr>) (db'\<lparr>height_votes := vs\<rparr>)" for vs using a by (simp add: agree_fields)
  have h: "height_votes db = height_votes db'" using a by (simp add: agree_fields)
  show ?thesis
    unfolding BlockHeightItem process_consensus_item.simps process_height_vote_def Let_def h votes_agree(1) [OF s a]
      votes_agree(1) [OF s v]
    by (auto intro!: obind_rel [where R = "(=)"] simp: outcome_refl) (use a in \<open>auto simp: agree_fields\<close>)
next
  case (VersionItem v)
  have v: "agree (db\<lparr>version_votes := vs\<rparr>) (db'\<lparr>version_votes := vs\<rparr>)" for vs using a by (simp add: agree_fields)
  have h: "version_votes db = version_votes db'" "default_version cfg = default_version cfg'"
    using a s by (simp_all add: agree_fields same_mint_def)
  show ?thesis
    unfolding VersionItem process_consensus_item.simps process_version_vote_def Let_def h votes_agree(2) [OF s v]
    by (auto intro!: obind_rel [where R = "(=)"] simp: outcome_refl) (use a in \<open>auto simp: agree_fields\<close>)
qed

section \<open>Sessions\<close>

definition agree_run :: "bool \<times> ordered_item list \<times> daemon_db \<Rightarrow> bool \<times> ordered_item list \<times> daemon_db \<Rightarrow> bool" where
  "agree_run x y \<longleftrightarrow> fst x = fst y \<and> fst (snd x) = fst (snd y) \<and> agree (snd (snd x)) (snd (snd y))"

lemma cut_run_agree:
  assumes s: "same_mint cfg cfg'"
  shows "agree db db' \<Longrightarrow> rel_option agree_run (cut_run S cfg ds items db) (cut_run S cfg' ds items db')"
proof (induction ds arbitrary: items db db')
  case (Cons d ds)
  obtain r p i where d: "d = (r, p, i)" using prod_cases3 by blast
  from item_agree [OF s Cons.prems, of S p i] Cons.IH Cons.prems show ?case
    by (cases "process_consensus_item S cfg p i db"; cases "process_consensus_item S cfg' p i db'")
      (auto simp: d agree_run_def)
qed (simp add: agree_run_def)

lemma cut_run_append:
  "cut_run S cfg ds items db = Some (True, items', db') \<Longrightarrow> cut_run S cfg (ds @ us) items db = Some (True, items', db')"
proof (induction ds arbitrary: items db)
  case Nil
  then show ?case by (auto intro: cut_run_full)
next
  case (Cons d ds)
  obtain r p i where "d = (r, p, i)" using prod_cases3 by blast
  with Cons show ?case by (auto split: outcome.splits if_splits)
qed

text \<open>A delivery of the last round cuts the session.\<close>

lemma cut_run_last_round:
  "cut_run S cfg ds items db = Some (c, items', db') \<Longrightarrow> d \<in> set ds \<Longrightarrow> ROUNDS_PER_SESSION \<le> fst d \<Longrightarrow> c"
proof (induction ds arbitrary: items db)
  case (Cons e ds)
  obtain r p i where "e = (r, p, i)" using prod_cases3 by blast
  with Cons show ?case by (auto split: outcome.splits if_splits)
qed simp

lemma lives_Some_left_at:
  assumes f: "fresh_session session nd0" and len: "2 * length ds < 2 ^ 64"
  shows "left_at S cfg session 0 ds nd0 nd \<Longrightarrow> lives S cfg session ds ks nd = Some nd' \<Longrightarrow> left_at S cfg session 0 ds nd0 nd'"
proof (induction ks arbitrary: nd)
  case (Cons k ks)
  from Cons.prems(2) obtain nd2 where o: "ordering_node (order_items_until_cut S cfg session (take k ds) nd) = Some nd2"
    and l: "lives S cfg session ds ks (crash nd2) = Some nd'" by (auto simp: bind_eq_Some_conv)
  from resume_refines(3) [OF f Cons.prems(1) len o] have "left_at S cfg session 0 ds nd0 (crash nd2)" by simp
  from Cons.IH [OF this l] show ?case .
qed simp

text \<open>What a node that is delivered \<open>ds\<close>, however often it crashes, sees of the session.\<close>

lemma lives_view:
  assumes f: "fresh_session session nd0" and len: "2 * length ds < 2 ^ 64"
    and l: "lives S cfg session ds ks nd0 = Some nd"
  shows "view session (order_items_until_cut S cfg session ds nd) = cut_run S cfg ds [] (mint_db nd0)"
    and "headed (dcrypto S) session (order_items_until_cut S cfg session ds nd)"
    and "left_at S cfg session 0 ds nd0 nd"
proof -
  show a: "left_at S cfg session 0 ds nd0 nd"
    by (rule lives_Some_left_at [OF f len left_at_refl [OF fresh_items(2) [OF f]] l])
  show "view session (order_items_until_cut S cfg session ds nd) = cut_run S cfg ds [] (mint_db nd0)"
    "headed (dcrypto S) session (order_items_until_cut S cfg session ds nd)"
    using resume_refines(1) [OF f a len] resume_refines(2) [OF f a len, of "length ds"] by simp_all
qed

lemma lives_cut:
  assumes "fresh_session session nd0" "2 * length ds < 2 ^ 64" "lives S cfg session ds ks nd0 = Some nd"
    and "order_items_until_cut S cfg session ds nd = Cut h e"
  shows "cut_run S cfg ds [] (mint_db nd0) = Some (True, items_of session e, mint_db e)"
    "h = session_header (dcrypto S) session (items_of session e)"
  using lives_view(1,2) [OF assms(1-3)] assms(4) by (simp_all add: view_def headed_def)

end
