(* ===== verification/Session_Claims.thy ===== *)
theory Session_Claims
  imports Mint_Replicas Mint_Sample "HOL-Library.Sublist"
begin

text \<open>
  The properties of a session: the nodes of a mint that are delivered the same items close it with
  the same header, the same items and the same tables, whatever the crashes on the way, and a node
  that adopts the outcome ends there too.
\<close>

section \<open>A sample session\<close>

text \<open>A second node of the sample mint, a node before its first session, and the session's deliveries.\<close>

definition peer_cfg :: daemon_config where
  "peer_cfg = mint_cfg
     \<lparr>ecash_cfg := (ecash_cfg mint_cfg)\<lparr>tbs_sks := bt_of_list [(9, 1), (10, 1)]\<rparr>,
      onchain_cfg := (onchain_cfg mint_cfg)\<lparr>onchain_sks := 2, own_identity := 1\<rparr>\<rparr>"

definition new_node :: node_state where
  "new_node =
     \<lparr>mint_db = genesis, accepted_items = bt_empty, resume_index = None, session_signatures = bt_empty,
      bft_unit_rows = bt_empty, bft_data_rows = bt_empty, bft_signature_rows = bt_empty, rejected = bt_empty\<rparr>"

definition deliveries :: "delivery list" where
  "deliveries = map (Pair 5) history @ [(1000, 1, BlockHeightItem 10)]"

definition accepted_history :: "ordered_item list" where
  "accepted_history = [(2, TxItem swap_tx), (0, BlockHeightItem 9), (1, BlockHeightItem 8), (2, BlockHeightItem 7)]"

lemma peer_same: "same_mint mint_cfg peer_cfg"
  by (simp add: same_mint_def peer_cfg_def public_onchain_def) (simp add: mint_cfg_def bt_has_def bt_of_list_def)

lemma new_node_fresh: "fresh_session session new_node"
  by (simp add: fresh_session_def new_node_def)

lemma history_bytes: "k \<le> 4 \<Longrightarrow> items_bytes (take k accepted_history) < SESSION_OUTCOME_BYTE_TARGET"
proof -
  have "length (enc_accepted_item x) \<le> 400" if "x \<in> set accepted_history" for x
    using that
    by (auto simp: accepted_history_def enc_accepted_item_def enc_pair_def swap_tx_def enc_transaction_def enc_vec_def
        enc_len_def enc_note_def enc_hash_def)
  then have "sum_list (map (length \<circ> enc_accepted_item) (take k accepted_history)) \<le>
      sum_list (map (\<lambda>_. 400) (take k accepted_history))"
    by (intro sum_list_mono) (auto dest: in_set_takeD)
  then have "items_bytes (take k accepted_history) \<le> length (take k accepted_history) * 400"
    by (simp add: items_bytes_def sum_list_triv)
  then show "k \<le> 4 \<Longrightarrow> ?thesis" by (simp add: SESSION_OUTCOME_BYTE_TARGET_def accepted_history_def)
qed

lemma deliveries_run:
  "cut_run mint_ops mint_cfg deliveries [] genesis = Some (True, accepted_history, tracking)"
proof -
  have b: "\<not> SESSION_OUTCOME_BYTE_TARGET \<le> items_bytes []"
    "\<not> SESSION_OUTCOME_BYTE_TARGET \<le> items_bytes [(2, TxItem swap_tx)]"
    "\<not> SESSION_OUTCOME_BYTE_TARGET \<le> items_bytes [(2, TxItem swap_tx), (0, BlockHeightItem 9)]"
    "\<not> SESSION_OUTCOME_BYTE_TARGET \<le> items_bytes [(2, TxItem swap_tx), (0, BlockHeightItem 9), (1, BlockHeightItem 8)]"
    "\<not> SESSION_OUTCOME_BYTE_TARGET \<le> items_bytes accepted_history"
    using history_bytes [of 0] history_bytes [of 1] history_bytes [of 2] history_bytes [of 3] history_bytes [of 4]
    by (simp_all add: accepted_history_def numeral_eq_Suc)
  have r: "\<not> ROUNDS_PER_SESSION \<le> 5" "ROUNDS_PER_SESSION \<le> 1000" by (simp_all add: ROUNDS_PER_SESSION_def)
  show ?thesis
    using b r by (simp add: deliveries_def history_def swap_accepted swap_replayed mint_height_votes accepted_history_def
        del: process_consensus_item.simps(1))
qed

lemma agree_refl [simp]: "agree db db"
  by (simp add: agree_def)

text \<open>Any number of crashes leaves a node of the sample mint where it can go on.\<close>

lemma deliveries_len: "length deliveries = 7"
  by (simp add: deliveries_def history_def)

lemma sample_lives: "\<exists>nd. lives mint_ops mint_cfg 0 deliveries ks new_node = Some nd"
  using lives_left_at [OF new_node_fresh [of 0] _ _ left_at_refl [OF fresh_items(2) [OF new_node_fresh [of 0]]],
      where S = mint_ops and cfg = mint_cfg and ds = deliveries and ks = ks] deliveries_run deliveries_len
  by (auto simp: new_node_def)

lemma peer_run:
  "\<exists>db. cut_run mint_ops peer_cfg deliveries [] genesis = Some (True, accepted_history, db) \<and> agree tracking db"
  using cut_run_agree [OF peer_same agree_refl, of mint_ops deliveries "[]" genesis]
  by (cases "cut_run mint_ops peer_cfg deliveries [] genesis") (auto simp: deliveries_run agree_run_def)

lemma peer_lives: "\<exists>nd. lives mint_ops peer_cfg 0 deliveries ks new_node = Some nd"
  using lives_left_at [OF new_node_fresh [of 0] _ _ left_at_refl [OF fresh_items(2) [OF new_node_fresh [of 0]]],
      where S = mint_ops and cfg = peer_cfg and ds = deliveries and ks = ks] peer_run deliveries_len
  by (auto simp: new_node_def)

text \<open>A node that has lived through the crashes and is delivered everything reaches the cut.\<close>

lemma view_Cut: "view session out = Some (True, items, db) \<Longrightarrow> \<exists>h e. out = Cut h e"
  by (cases out) (auto simp: view_def)

lemma reaches_cut:
  assumes l: "lives S cfg 0 deliveries ks new_node = Some nd"
    and run: "cut_run S cfg deliveries [] genesis = Some (True, items, db)"
  shows "\<exists>h e. order_items_until_cut S cfg 0 deliveries nd = Cut h e"
  using lives_view(1) [OF new_node_fresh _ l] run deliveries_len
  by (intro view_Cut [where session = 0 and items = items and db = db]) (simp add: new_node_def)

section \<open>Agreement of nodes that order the session\<close>

text \<open>
  C2. Replicas agree on a session. Two nodes of a mint, with their own secret keys, start a session
  with databases that agree on everything but the signature shares each keeps. They are delivered
  the same ordered items, one possibly further than the other, and crash any number of times,
  anywhere, on the way. If both reach the end of the session, they have cut it at the same item:
  the same header to sign, the same accepted items, and databases that agree again.
\<close>

theorem sessions_agree:
  assumes "same_mint cfg cfg'" "agree (mint_db nd) (mint_db nd')"
    and "fresh_session session nd" "fresh_session session nd'"
    and "prefix ds ds'" "2 * length ds' < 2 ^ 64"
    and "lives S cfg session ds ks nd = Some n" "lives S cfg' session ds' ks' nd' = Some n'"
    and "order_items_until_cut S cfg session ds n = Cut h e" "order_items_until_cut S cfg' session ds' n' = Cut h' e'"
  shows "h = h' \<and> items_of session e = items_of session e' \<and> agree (mint_db e) (mint_db e')"
proof -
  from assms(5) obtain us where ds': "ds' = ds @ us" by (auto elim: prefixE)
  then have len: "2 * length ds < 2 ^ 64" using assms(6) by simp
  note c = lives_cut [OF assms(3) len assms(7,9)]
  note c' = lives_cut [OF assms(4,6,8,10)]
  have "cut_run S cfg ds' [] (mint_db nd) = Some (True, items_of session e, mint_db e)"
    using cut_run_append [OF c(1)] ds' by simp
  with c'(1) cut_run_agree [OF assms(1,2), of S ds' "[]"] c(2) c'(2) show ?thesis by (simp add: agree_run_def)
qed

theorem sessions_agree_witness:
  "\<exists>n n' h h' e e'.
     lives mint_ops mint_cfg 0 deliveries [3, 2] new_node = Some n \<and>
     lives mint_ops peer_cfg 0 deliveries [6] new_node = Some n' \<and>
     order_items_until_cut mint_ops mint_cfg 0 deliveries n = Cut h e \<and>
     order_items_until_cut mint_ops peer_cfg 0 deliveries n' = Cut h' e' \<and>
     h = h' \<and> items_of 0 e = items_of 0 e' \<and> agree (mint_db e) (mint_db e')"
proof -
  from sample_lives obtain n where n: "lives mint_ops mint_cfg 0 deliveries [3, 2] new_node = Some n" by blast
  from peer_lives obtain n' where n': "lives mint_ops peer_cfg 0 deliveries [6] new_node = Some n'" by blast
  from reaches_cut [OF n deliveries_run] obtain h e where c: "order_items_until_cut mint_ops mint_cfg 0 deliveries n = Cut h e" by blast
  from peer_run reaches_cut [OF n'] obtain h' e' where
    c': "order_items_until_cut mint_ops peer_cfg 0 deliveries n' = Cut h' e'" by blast
  have "h = h' \<and> items_of 0 e = items_of 0 e' \<and> agree (mint_db e) (mint_db e')"
    by (rule sessions_agree [OF peer_same agree_refl new_node_fresh new_node_fresh _ _ n n' c c'])
      (simp_all add: deliveries_len)
  with n n' c c' show ?thesis by blast
qed

text \<open>
  C17. A crash loses nothing and repeats nothing. A node that has come back from any number of
  crashes and is delivered the session's items from the start accepts the same items, reaches the
  same verdict on the cut and ends with the same database as one that never crashed, and the header
  it holds is the one over the items it stored.
\<close>

theorem crash_safe:
  assumes "fresh_session session nd" "2 * length ds < 2 ^ 64" "lives S cfg session ds ks nd = Some n"
  shows "view session (order_items_until_cut S cfg session ds n) = view session (order_items_until_cut S cfg session ds nd) \<and>
    headed (dcrypto S) session (order_items_until_cut S cfg session ds n)"
  using lives_view [OF assms] lives_view(1) [OF assms(1,2), where ks = "[]" and nd = nd] by simp

theorem crash_safe_witness:
  "\<exists>n. lives mint_ops mint_cfg 0 deliveries [1, 4, 2] new_node = Some n \<and>
     view 0 (order_items_until_cut mint_ops mint_cfg 0 deliveries n) =
     view 0 (order_items_until_cut mint_ops mint_cfg 0 deliveries new_node)"
proof -
  from sample_lives obtain n where n: "lives mint_ops mint_cfg 0 deliveries [1, 4, 2] new_node = Some n" by blast
  with crash_safe [OF new_node_fresh _ n] deliveries_len show ?thesis by simp
qed

text \<open>
  C36. A session ends. When no item of the session makes the node panic and one of the deliveries is
  of round 1000 or later, the ordering loop returns a header, after any crashes, instead of waiting.
\<close>

theorem session_ends:
  assumes "fresh_session session nd" "2 * length ds < 2 ^ 64" "lives S cfg session ds ks nd = Some n"
    and "order_items_until_cut S cfg session ds n \<noteq> OrderPanicked" "d \<in> set ds" "ROUNDS_PER_SESSION \<le> fst d"
  shows "\<exists>h e. order_items_until_cut S cfg session ds n = Cut h e"
proof (cases "order_items_until_cut S cfg session ds n")
  case (Waiting st e)
  with lives_view(1) [OF assms(1-3)] have "cut_run S cfg ds [] (mint_db nd) = Some (False, items_of session e, mint_db e)"
    by (simp add: view_def)
  with cut_run_last_round assms(5,6) show ?thesis by blast
qed (use assms(4) in simp_all)

theorem session_ends_witness:
  "\<exists>h e. order_items_until_cut mint_ops mint_cfg 0 deliveries new_node = Cut h e"
proof (rule session_ends [OF new_node_fresh, where ks = "[]" and d = "(1000, 1, BlockHeightItem 10)"])
  have "lives mint_ops mint_cfg 0 deliveries [] new_node = Some new_node" by simp
  from reaches_cut [OF this deliveries_run] show "order_items_until_cut mint_ops mint_cfg 0 deliveries new_node \<noteq> OrderPanicked"
    by auto
qed (simp_all add: deliveries_len ROUNDS_PER_SESSION_def, simp add: deliveries_def)

end
