(* ===== verification/Outcome_Claims.thy ===== *)
theory Outcome_Claims
  imports Session_Claims
begin

text \<open>
  The properties of session outcomes and of what is signed and hashed: adoption, the signatures of
  an outcome, and that headers, transaction ids and payloads bind what they are computed from.
\<close>

section \<open>Adoption\<close>

text \<open>
  C19. Adopting catches up. A node that has ordered any part of a session, in any number of lives,
  and then adopts the outcome of a node that ordered all of it, closes the session without a panic:
  its items are the outcome's, its database agrees with the other node's, and it serves the
  outcome on.
\<close>

theorem adoption_catches_up:
  assumes "same_mint cfg cfg'" "agree (mint_db nd) (mint_db nd')"
    and "fresh_session session nd" "fresh_session session nd'" "2 * length ds < 2 ^ 64"
    and "lives S cfg session ds ks nd = Some n" "ordering_node (order_items_until_cut S cfg session (take k ds) n) = Some m"
    and "\<not> bt_has (session_signatures m) session"
    and "lives S cfg' session ds ks' nd' = Some n'" "order_items_until_cut S cfg' session ds n' = Cut h e"
  shows "\<exists>m'. finalize_session S cfg session (Adopted \<lparr>so_items = items_of session e, so_signatures = sigs\<rparr>) m = Some m' \<and>
    items_of session m' = items_of session e \<and> agree (mint_db m') (mint_db e) \<and> resume_index m' = None \<and>
    session_outcome_of session m' = Some \<lparr>so_items = items_of session e, so_signatures = sigs\<rparr>"
proof -
  have l: "left_at S cfg session 0 ds nd m"
    using resume_refines(3) [OF assms(3) lives_view(3) [OF assms(3,5,6)] assms(5,7)] .
  have "cut_run S cfg' ds [] (mint_db nd') = Some (True, items_of session e, mint_db e)"
    using lives_cut(1) [OF assms(4,5,9,10)] .
  with cut_run_agree [OF assms(1,2), of S ds "[]"] obtain db where
    run: "cut_run S cfg ds [] (mint_db nd) = Some (True, items_of session e, db)" and a: "agree db (mint_db e)"
    by (cases "cut_run S cfg ds [] (mint_db nd)") (auto simp: agree_run_def)
  have "length ds < 2 ^ 63" using assms(5) by simp
  from adoption_reaches_end [OF assms(3) l run this assms(8), of sigs] a show ?thesis
    by (auto simp: session_outcome_of_def)
qed

lemma accept_keeps_signatures:
  "session_signatures (accept_item session index x nd) = session_signatures nd"
  by (simp add: accept_item_def)

lemma order_keeps_signatures:
  "ordering_node (order_items S cfg session rf index ds st nd) = Some m \<Longrightarrow> session_signatures m = session_signatures nd"
  by (induction S cfg session rf index ds st nd rule: order_items.induct)
    (auto simp: Let_def accept_keeps_signatures split: if_splits outcome.splits)

lemma lives_keep_signatures:
  "lives S cfg session ds ks nd = Some n \<Longrightarrow> session_signatures n = session_signatures nd"
proof (induction ks arbitrary: nd)
  case (Cons k ks)
  then show ?case
    by (fastforce simp: bind_eq_Some_conv crash_def order_items_until_cut_def dest: order_keeps_signatures)
qed simp

theorem adoption_catches_up_witness:
  "\<exists>n m m' e.
     lives mint_ops peer_cfg 0 deliveries [3] new_node = Some n \<and>
     ordering_node (order_items_until_cut mint_ops peer_cfg 0 (take 4 deliveries) n) = Some m \<and>
     finalize_session mint_ops peer_cfg 0
       (Adopted \<lparr>so_items = items_of 0 e, so_signatures = bt_insert 2 [2] bt_empty\<rparr>) m = Some m' \<and>
     items_of 0 m' = items_of 0 e \<and> agree (mint_db m') (mint_db e)"
proof -
  from peer_lives obtain n where n: "lives mint_ops peer_cfg 0 deliveries [3] new_node = Some n" by blast
  from peer_lives [of "[3, 4]"] n obtain m where
    m: "ordering_node (order_items_until_cut mint_ops peer_cfg 0 (take 4 deliveries) n) = Some m"
    by (auto simp: bind_eq_Some_conv)
  have s: "\<not> bt_has (session_signatures m) 0"
    using order_keeps_signatures [OF m [unfolded order_items_until_cut_def]] lives_keep_signatures [OF n]
    by (simp add: new_node_def bt_has_def)
  from sample_lives obtain n' where n': "lives mint_ops mint_cfg 0 deliveries [] new_node = Some n'" by blast
  from reaches_cut [OF n' deliveries_run] obtain h e where
    c: "order_items_until_cut mint_ops mint_cfg 0 deliveries n' = Cut h e" by blast
  have p: "same_mint peer_cfg mint_cfg" using peer_same by (auto simp: same_mint_def)
  from adoption_catches_up [OF p agree_refl new_node_fresh new_node_fresh _ n m s n' c, of "bt_insert 2 [2] bt_empty"]
  show ?thesis using n m deliveries_len by auto
qed

section \<open>Outcomes\<close>

text \<open>
  Collected signatures convince. The signatures a node collects over the header of its items
  make, with the items, an outcome that every node of the mint validates.
\<close>

theorem collected_outcome_validates:
  assumes "collect_threshold_signatures C sk cfg session (session_header C session items) ms = Some sigs"
    and "keychain_verify C (build_keychain sk cfg) session (enc_hash (session_header C session items))
      (keychain_sign C (build_keychain sk cfg) session (enc_hash (session_header C session items))) (own_identity (onchain_cfg cfg))"
    and "same_mint cfg cfg'"
  shows "validate_session_outcome C sk' cfg' session \<lparr>so_items = items, so_signatures = sigs\<rparr> = Some True"
proof -
  have "broadcast_pks cfg = broadcast_pks cfg'" using assms(3) by (simp add: same_mint_def)
  then have "validate_session_outcome C sk' cfg' = validate_session_outcome C sk' cfg"
    by (simp add: fun_eq_iff validate_session_outcome_def build_keychain_def daemon_nodes_def)
  then show ?thesis using collected_validates [OF assms(1,2)] by simp
qed

theorem collected_outcome_validates_witness:
  "\<exists>sigs. collect_threshold_signatures mint_crypto [0] mint_cfg 0 (session_header mint_crypto 0 accepted_history)
       [(3, [9]), (1, [1]), (2, [2])] = Some sigs \<and>
     validate_session_outcome mint_crypto [1] peer_cfg 0 \<lparr>so_items = accepted_history, so_signatures = sigs\<rparr> = Some True"
proof -
  let ?h = "session_header mint_crypto 0 accepted_history"
  have v: "keychain_verify mint_crypto (build_keychain [0] mint_cfg) 0 (enc_hash ?h) s p \<longleftrightarrow>
      (case bt_get (broadcast_pks mint_cfg) p of None \<Rightarrow> False | Some k \<Rightarrow> s = k \<or> length s = 64)" for s p
    by (simp add: keychain_verify_def build_keychain_def mint_crypto_def split: option.splits)
  have k: "keychain_sign mint_crypto (build_keychain [0] mint_cfg) 0 (enc_hash ?h) = [0]"
    by (simp add: keychain_sign_def build_keychain_def mint_crypto_def)
  have o: "own_identity (onchain_cfg mint_cfg) = 0" by (simp add: mint_cfg_def)
  have own: "keychain_verify mint_crypto (build_keychain [0] mint_cfg) 0 (enc_hash ?h)
      (keychain_sign mint_crypto (build_keychain [0] mint_cfg) 0 (enc_hash ?h)) (own_identity (onchain_cfg mint_cfg))"
    unfolding k o v by (simp add: mint_cfg_def bt_of_list_def)
  have "collect_threshold_signatures mint_crypto [0] mint_cfg 0 ?h [(3, [9]), (1, [1]), (2, [2])] =
      Some (bt_insert 2 [2] (bt_insert 1 [1] (bt_insert 0 [0] bt_empty)))"
    by (simp add: collect_threshold_signatures_def Let_def k o v threshold_def total_def bt_len_def)
      (simp add: mint_cfg_def bt_of_list_def)
  from collected_outcome_validates [OF this own peer_same] this show ?thesis by blast
qed

text \<open>
  C18. One outcome per session. When at most a third of the nodes is faulty, an honest node signs a
  single header in a session, and no two of the byte strings hashed collide, any two outcomes of
  the session that validate hold the same items in the same order, whoever made them.
\<close>

theorem outcomes_agree:
  assumes "daemon_nodes cfg = Some n" "honest_set n H" "\<forall>c \<in> H. signs_once C cfg session c"
    and "\<And>p. bt_get (broadcast_pks cfg) p \<noteq> None \<Longrightarrow> p \<in> set (node_ids n)"
    and "validate_session_outcome C sk cfg session x = Some True" "validate_session_outcome C sk' cfg session y = Some True"
    and "inj_on (sha256 C) (header_preimages C session (so_items x) \<union> header_preimages C session (so_items y))"
    and "list_all (ok_item \<circ> snd) (so_items x)" "list_all (ok_item \<circ> snd) (so_items y)"
  shows "so_items x = so_items y"
  using session_header_binds [OF assms(7-9) validated_headers_agree [OF assms(1-6)]] by simp

text \<open>
  A hash that keeps the header of a signed message, and otherwise counts bytes; the only signatures
  are over one header.
\<close>

definition one_header :: hash256 where "one_header = 38"

definition header_crypto :: crypto where
  "header_crypto =
     \<lparr>sha256 = (\<lambda>bs. if length bs = 36 then (case dec_hash (drop 4 bs) of None \<Rightarrow> 0 | Some (h, r) \<Rightarrow> h)
        else of_nat (length bs)),
      sign_schnorr = (\<lambda>k d. k), verify_schnorr = (\<lambda>s d p. d = one_header)\<rparr>"

lemma header_crypto_signed: "sha256 header_crypto (enc_u32 s @ enc_hash h) = h"
proof -
  have "dec_hash (enc_hash h) = Some (h, [])" using hashc.dec_enc [of h "[]"] by simp
  then show ?thesis by (simp add: header_crypto_def enc_hash_def)
qed

lemma header_crypto_verify:
  "keychain_verify header_crypto (build_keychain sk mint_cfg) s (enc_hash h) sig p \<longleftrightarrow>
     bt_get (broadcast_pks mint_cfg) p \<noteq> None \<and> h = one_header"
  using header_crypto_signed [of s h]
  by (simp add: keychain_verify_def build_keychain_def split: option.splits) (simp add: header_crypto_def)

definition voted :: "ordered_item list" where "voted = [(0, BlockHeightItem 9)]"

lemma voted_preimages:
  "header_preimages header_crypto 0 voted = {enc_u32 0, enc_hash 4 @ enc_accepted_item (0, BlockHeightItem 9)}"
  by (simp add: header_preimages_def voted_def session_header_def header_crypto_def)

lemma voted_length: "length (enc_hash 4 @ enc_accepted_item (0, BlockHeightItem 9)) = 38"
  by (simp add: enc_hash_def enc_accepted_item_def enc_pair_def)

lemma voted_header: "session_header header_crypto 0 voted = one_header"
  using voted_length
  by (simp add: session_header_def voted_def fold_header_def header_crypto_def one_header_def)

theorem outcomes_agree_witness:
  "so_items \<lparr>so_items = voted, so_signatures = bt_of_list [(0, [1]), (1, [2]), (2, [3])]\<rparr> =
   so_items \<lparr>so_items = voted, so_signatures = bt_of_list [(1, [4]), (2, [5]), (3, [6])]\<rparr>"
proof (rule outcomes_agree [of mint_cfg "NumNodes 1" "{0, 1, 2}" header_crypto 0 "[]" _ "[]"])
  have sigs: "signed_by_all header_crypto (build_keychain [] mint_cfg) 0 one_header m"
    if "\<And>p s. bt_get m p = Some s \<Longrightarrow> bt_get (broadcast_pks mint_cfg) p \<noteq> None" for m
    using that by (auto simp: signed_by_all_def header_crypto_verify)
  show "validate_session_outcome header_crypto [] mint_cfg 0
      \<lparr>so_items = voted, so_signatures = bt_of_list [(0, [1]), (1, [2]), (2, [3])]\<rparr> = Some True"
    "validate_session_outcome header_crypto [] mint_cfg 0
      \<lparr>so_items = voted, so_signatures = bt_of_list [(1, [4]), (2, [5]), (3, [6])]\<rparr> = Some True"
    unfolding validate_iff
    by (auto simp: voted_header threshold_def total_def bt_of_list_def bt_len_def intro!: sigs split: if_splits)
      (auto simp: mint_cfg_def bt_of_list_def)
  show "honest_set (NumNodes 1) {0, 1, 2}"
    by (simp add: honest_set_def small_mint_def mint_node_ids [simplified] total_def max_evil_def insert_Diff_if)
  show "\<forall>c \<in> {0, 1, 2}. signs_once header_crypto mint_cfg 0 c"
    by (auto simp: signs_once_def header_crypto_verify)
  show "p \<in> set (node_ids (NumNodes 1))" if "bt_get (broadcast_pks mint_cfg) p \<noteq> None" for p
    using that by (simp add: mint_node_ids [simplified]) (auto simp: mint_cfg_def bt_of_list_def split: if_splits)
  have "inj_on (sha256 header_crypto) (header_preimages header_crypto 0 voted)"
    unfolding voted_preimages by (simp add: inj_on_def header_crypto_def voted_length del: length_append)
  then show "inj_on (sha256 header_crypto)
      (header_preimages header_crypto 0 (so_items \<lparr>so_items = voted, so_signatures = bt_of_list [(0, [1]), (1, [2]), (2, [3])]\<rparr>) \<union>
       header_preimages header_crypto 0 (so_items \<lparr>so_items = voted, so_signatures = bt_of_list [(1, [4]), (2, [5]), (3, [6])]\<rparr>))"
    by simp
qed (simp_all add: voted_def)

end
