(* ===== verification/Binding_Claims.thy ===== *)
theory Binding_Claims
  imports Session_Claims
begin

text \<open>
  What the hashes and signatures of the mint bind: transaction ids, payload commitments, units and
  headers; and what a node proposes.
\<close>

section \<open>Replicas\<close>

text \<open>
  C32. Replicas agree on every item. Two nodes of a mint whose databases agree on everything but
  their own signature shares reach the same verdict on a consensus item, accepted, rejected with
  the same error or panicking, and their databases agree afterwards, although each processes it
  with its own secret keys.
\<close>

theorem replicas_agree:
  assumes "same_mint cfg cfg'" "agree db db'"
  shows "rel_outcome (=) agree (process_consensus_item S cfg p i db) (process_consensus_item S cfg' p i db')"
  by (rule item_agree [OF assms])

theorem replicas_agree_witness:
  "\<exists>db. process_consensus_item mint_ops peer_cfg 2 (TxItem swap_tx) genesis = Done db \<and> agree swapped db"
  using replicas_agree [OF peer_same agree_refl, of mint_ops 2 "TxItem swap_tx" genesis]
  unfolding swap_accepted by (cases "process_consensus_item mint_ops peer_cfg 2 (TxItem swap_tx) genesis") auto

section \<open>Hashes\<close>

text \<open>
  A transaction id binds what it pays. When the hash does not collide on the two, transactions
  have the same id exactly when they have the same inputs and the same outputs in the same order:
  no two transactions that pay differently share an id, and another set of signatures is no new
  transaction.
\<close>

theorem txid_binds:
  assumes "ok_tx t" "ok_tx u"
    and "inj_on (sha256 C) ((\<lambda>x. enc_vec enc_wire_input (tx_inputs x) @ enc_vec enc_wire_output (tx_outputs x)) ` {t, u})"
  shows "compute_tx_id C t = compute_tx_id C u \<longleftrightarrow> tx_inputs t = tx_inputs u \<and> tx_outputs t = tx_outputs u"
proof
  assume id: "compute_tx_id C t = compute_tx_id C u"
  have "enc_vec enc_wire_input (tx_inputs t) @ enc_vec enc_wire_output (tx_outputs t) =
      enc_vec enc_wire_input (tx_inputs u) @ enc_vec enc_wire_output (tx_outputs u)"
    by (rule inj_onD [OF assms(3)]) (use id in \<open>simp_all add: compute_tx_id_def\<close>)
  then have "enc_vec enc_wire_input (tx_inputs t) @ enc_vec enc_wire_output (tx_outputs t) @ [] =
      enc_vec enc_wire_input (tx_inputs u) @ enc_vec enc_wire_output (tx_outputs u) @ []" by simp
  then show "tx_inputs t = tx_inputs u \<and> tx_outputs t = tx_outputs u"
    using assms(1,2) unfolding ok_tx_def by (simp only: wire_inputs_append_inj wire_outputs_append_inj)
qed (simp add: compute_tx_id_def)

definition split_tx :: transaction where
  "split_tx = swap_tx\<lparr>tx_outputs := [EcashOut (EcashOutput 8 5), EcashOut (EcashOutput 8 6)]\<rparr>"

theorem txid_binds_witness: "compute_tx_id mint_crypto swap_tx \<noteq> compute_tx_id mint_crypto split_tx"
proof -
  have "compute_tx_id mint_crypto swap_tx = compute_tx_id mint_crypto split_tx \<longleftrightarrow>
      tx_inputs swap_tx = tx_inputs split_tx \<and> tx_outputs swap_tx = tx_outputs split_tx"
    by (rule txid_binds)
      (simp_all add: ok_tx_def swap_tx_def split_tx_def len_fits_def mint_crypto_def enc_vec_def enc_len_def enc_note_def
        enc_hash_def)
  then show ?thesis by (simp add: swap_tx_def split_tx_def)
qed

text \<open>
  A unit commits to its payload. When the hash does not collide on the two, lists of consensus
  items have the same payload hash exactly when they are the same list.
\<close>

theorem payload_commits:
  assumes "inj_on (sha256 C) (enc_vec enc_consensus_item ` {xs, ys})"
    and "list_all ok_item xs" "list_all ok_item ys" "len_fits xs" "len_fits ys"
  shows "payload_hash C enc_consensus_item xs = payload_hash C enc_consensus_item ys \<longleftrightarrow> xs = ys"
proof
  have code: "prefix_code ok_item enc_consensus_item" by (rule prefix_codeI) (simp add: consensus_item_append_inj)
  assume id: "payload_hash C enc_consensus_item xs = payload_hash C enc_consensus_item ys"
  have "enc_vec enc_consensus_item xs = enc_vec enc_consensus_item ys"
    by (rule inj_onD [OF assms(1)]) (use id in \<open>simp_all add: payload_hash_def\<close>)
  with prefix_code_inj [OF prefix_code_list [OF code]] assms(2-5) show "xs = ys" by blast
qed simp

theorem payload_commits_witness:
  "payload_hash mint_crypto enc_consensus_item [BlockHeightItem 7] \<noteq>
   payload_hash mint_crypto enc_consensus_item [VersionItem (ConsensusVersion 1 0), BlockHeightItem 7]"
proof -
  have "payload_hash mint_crypto enc_consensus_item [BlockHeightItem 7] =
      payload_hash mint_crypto enc_consensus_item [VersionItem (ConsensusVersion 1 0), BlockHeightItem 7] \<longleftrightarrow>
      [BlockHeightItem 7] = [VersionItem (ConsensusVersion 1 0), BlockHeightItem 7]"
    by (rule payload_commits) (simp_all add: len_fits_def mint_crypto_def enc_vec_def enc_len_def enc_version_def)
  then show ?thesis by simp
qed

text \<open>
  Units and headers are signed apart. A node signs the units it creates and the header of the
  session with one key; the bytes it signs for a unit are never those of a header, in any session.
\<close>

theorem units_never_headers:
  "enc_u32 s @ enc_unit u \<noteq> enc_u32 s' @ enc_hash h"
proof
  assume "enc_u32 s @ enc_unit u = enc_u32 s' @ enc_hash h"
  then have "length (enc_u32 s @ enc_unit u) = length (enc_u32 s' @ enc_hash h)" by (rule arg_cong)
  then show False using length_enc_unit [of u] by (simp add: enc_hash_def)
qed

section \<open>Proposals\<close>

text \<open>
  What a unit takes from the queue. The payload of a unit is the longest front of the queue
  whose encoding stays below the target, and the item that reaches it: nothing is skipped or
  reordered, only the last item may exceed the target, and an item is left behind only when the
  target is reached.
\<close>

theorem payload_taken:
  "case get_data queue of (items, rest) \<Rightarrow>
     queue = items @ rest \<and>
     (rest \<noteq> [] \<longrightarrow> BFT_UNIT_BYTE_TARGET \<le> length (enc_vec enc_consensus_item items)) \<and>
     (items \<noteq> [] \<longrightarrow> length (enc_vec enc_consensus_item (butlast items)) < BFT_UNIT_BYTE_TARGET)"
proof -
  obtain items rest where g: "get_data queue = (items, rest)" by fastforce
  with take_data_spec [of "[]" queue items rest] show ?thesis by (auto simp: get_data_def)
qed

theorem payload_taken_witness:
  "get_data [BlockHeightItem 7, BlockHeightItem 8] = ([BlockHeightItem 7, BlockHeightItem 8], []) \<and>
   length (enc_vec enc_consensus_item [BlockHeightItem 7]) < BFT_UNIT_BYTE_TARGET"
proof -
  have g: "get_data [BlockHeightItem 7, BlockHeightItem 8] = ([BlockHeightItem 7, BlockHeightItem 8], [])"
    by (simp add: get_data_def Let_def BFT_UNIT_BYTE_TARGET_def enc_vec_def enc_len_def)
  show ?thesis using payload_taken [of "[BlockHeightItem 7, BlockHeightItem 8]"] unfolding g by simp
qed

end
