(* ===== verification/Client_Select.thy ===== *)
theory Client_Select
  imports Server_Types "HOL-Library.Multiset"
begin

text \<open>
  Choosing notes and denominations in the client's wallet (\<open>picomint-client/src/ecash/mod.rs\<close>): which
  notes fund a transaction, which denominations its change is minted in, how an amount is split
  into denominations and the largest amount an account can spend.
\<close>

section \<open>Amounts\<close>

text \<open>\<open>Amount\<close>'s operators are those of \<open>u64\<close>; a release build wraps.\<close>

definition amount_add :: "amount \<Rightarrow> amount \<Rightarrow> amount" where
  "amount_add a b = Amount (msat a + msat b)"

definition amount_sum :: "amount list \<Rightarrow> amount" where
  "amount_sum xs = Amount (sum_list (map msat xs))"

instantiation amount :: linorder
begin

definition less_eq_amount :: "amount \<Rightarrow> amount \<Rightarrow> bool" where
  "a \<le> b \<longleftrightarrow> msat a \<le> msat b"

definition less_amount :: "amount \<Rightarrow> amount \<Rightarrow> bool" where
  "a < b \<longleftrightarrow> msat a < msat b"

instance
  by standard (auto simp: less_eq_amount_def less_amount_def amount.expand intro: amount.expand)

end

lemma amount_le_nat: "a \<le> b \<longleftrightarrow> amount_nat a \<le> amount_nat b"
  by (simp add: less_eq_amount_def word_le_nat_alt)

lemma amount_add_nat:
  "amount_nat a + amount_nat b < 2 ^ 64 \<Longrightarrow> amount_nat (amount_add a b) = amount_nat a + amount_nat b"
  by (simp add: amount_add_def unat_word_ariths)

lemma sum_list_words:
  "sum_list (map unat xs) < 2 ^ 64 \<Longrightarrow> unat (sum_list (xs :: u64 list)) = sum_list (map unat xs)"
proof (induction xs)
  case (Cons x xs)
  then have "unat (sum_list xs) = sum_list (map unat xs)" by simp
  with Cons.prems show ?case by (simp add: unat_word_ariths)
qed simp

lemma amount_sum_nat:
  "sum_list (map amount_nat xs) < 2 ^ 64 \<Longrightarrow> amount_nat (amount_sum xs) = sum_list (map amount_nat xs)"
  using sum_list_words [of "map msat xs"] by (simp add: amount_sum_def comp_def)

section \<open>Denominations\<close>

text \<open>The value of a denomination as a number; a client's denominations are those from 9 to 41.\<close>

definition dval :: "u8 \<Rightarrow> nat" where
  "dval d = 2 ^ unat d"

lemma denomination_nat: "unat d < 64 \<Longrightarrow> amount_nat (denomination_amount d) = dval d"
proof -
  assume d: "unat d < 64"
  have "unat (2 ^ unat d :: u64) = unat (of_nat (2 ^ unat d) :: u64)" by simp
  also have "\<dots> = 2 ^ unat d mod 2 ^ 64" by (simp only: unat_of_nat) simp
  also have "\<dots> = 2 ^ unat d" using d by (intro mod_less power_strict_increasing) simp_all
  finally have "unat (2 ^ unat d :: u64) = 2 ^ unat d" .
  then show ?thesis using d by (simp add: denomination_amount_def dval_def push_bit_eq_mult)
qed

lemma client_denominations_iff: "d \<in> set client_denominations \<longleftrightarrow> 9 \<le> unat d \<and> unat d < 42"
proof
  assume "d \<in> set client_denominations"
  then have "d \<in> of_nat ` {9..<42}" by (simp only: client_denominations_def set_map set_upt)
  then obtain k where "k \<in> {9..<42}" "d = of_nat k" by blast
  then show "9 \<le> unat d \<and> unat d < 42" by (simp add: unat_of_nat)
next
  assume a: "9 \<le> unat d \<and> unat d < 42"
  have "d = of_nat (unat d)" by simp
  moreover have "unat d \<in> {9..<42}" using a by simp
  ultimately show "d \<in> set client_denominations"
    unfolding client_denominations_def by (metis (no_types, lifting) atLeastLessThan_upt image_eqI list.set_map)
qed

lemma dval_bounds: "d \<in> set client_denominations \<Longrightarrow> 512 \<le> dval d \<and> dval d \<le> 2 ^ 41"
proof -
  assume "d \<in> set client_denominations"
  then have d: "9 \<le> unat d" "unat d \<le> 41" by (simp_all add: client_denominations_iff)
  have "(2 :: nat) ^ 9 \<le> 2 ^ unat d" "(2 :: nat) ^ unat d \<le> 2 ^ 41"
    by (rule power_increasing; use d in simp)+
  then show ?thesis by (simp add: dval_def)
qed

lemma client_amount: "d \<in> set client_denominations \<Longrightarrow> amount_nat (denomination_amount d) = dval d"
  by (simp add: client_denominations_iff denomination_nat)

text \<open>\<open>note_value\<close>: what spending a note delivers; \<open>None\<close> is the panic on an uneconomical one.\<close>

definition note_value :: "u8 \<Rightarrow> amount option" where
  "note_value d = amount_checked_sub (denomination_amount d) ECASH_INPUT_FEE"

lemma note_value_client:
  assumes "d \<in> set client_denominations"
  shows "\<exists>a. note_value d = Some a \<and> amount_nat a = dval d - 100"
proof -
  have v: "amount_nat (denomination_amount d) = dval d" "512 \<le> dval d"
    using client_amount [OF assms] dval_bounds [OF assms] by simp_all
  then have "(100 :: u64) \<le> msat (denomination_amount d)" by (simp add: word_le_nat_alt)
  then obtain a where "note_value d = Some a"
    by (simp add: note_value_def amount_checked_sub_def checked_sub_def ECASH_INPUT_FEE_def)
  moreover from this have "amount_nat (denomination_amount d) = amount_nat a + 100"
    by (auto simp: note_value_def ECASH_INPUT_FEE_def dest: amount_checked_sub_SomeD)
  ultimately show ?thesis using v by simp
qed

section \<open>Notes\<close>

text \<open>A stored note: denomination, secret key and signature, in the byte order of its key.\<close>

datatype spendable_note =
  SpendableNote (sn_denomination: u8) (sn_keypair: hash256) (sn_signature: tbs_sig)

instantiation spendable_note :: linorder
begin

definition less_eq_spendable_note :: "spendable_note \<Rightarrow> spendable_note \<Rightarrow> bool" where
  "x \<le> y \<longleftrightarrow> sn_denomination x < sn_denomination y \<or> sn_denomination x = sn_denomination y \<and>
     (sn_keypair x < sn_keypair y \<or> sn_keypair x = sn_keypair y \<and> sn_signature x \<le> sn_signature y)"

definition less_spendable_note :: "spendable_note \<Rightarrow> spendable_note \<Rightarrow> bool" where
  "x < y \<longleftrightarrow> sn_denomination x < sn_denomination y \<or> sn_denomination x = sn_denomination y \<and>
     (sn_keypair x < sn_keypair y \<or> sn_keypair x = sn_keypair y \<and> sn_signature x < sn_signature y)"

instance
  by standard
    (auto simp: less_eq_spendable_note_def less_spendable_note_def spendable_note.expand intro: spendable_note.expand)

end

definition note_amount :: "spendable_note \<Rightarrow> amount" where
  "note_amount x = denomination_amount (sn_denomination x)"

section \<open>Funding notes\<close>

definition TARGET_PER_DENOMINATION :: nat where "TARGET_PER_DENOMINATION = 3"

definition notes_value :: "spendable_note list \<Rightarrow> amount option" where
  "notes_value ns = map_option amount_sum (option_seq (map (\<lambda>n. note_value (sn_denomination n)) ns))"

text \<open>The notes of each denomination, largest first, up to the reserve and beyond it.\<close>

definition reserve_notes :: "spendable_note list \<Rightarrow> spendable_note list" where
  "reserve_notes ns = concat (map (\<lambda>d. take (2 * TARGET_PER_DENOMINATION) (filter (\<lambda>n. sn_denomination n = d) ns))
     (rev client_denominations))"

definition surplus_notes :: "spendable_note list \<Rightarrow> spendable_note list" where
  "surplus_notes ns = concat (map (\<lambda>d. drop (2 * TARGET_PER_DENOMINATION) (filter (\<lambda>n. sn_denomination n = d) ns))
     (rev client_denominations))"

text \<open>The second loop: a note that fits is taken, of the others the last one is remembered.\<close>

fun fill_notes ::
  "amount \<Rightarrow> spendable_note list \<Rightarrow> spendable_note list \<Rightarrow> spendable_note option \<Rightarrow>
   (unit, spendable_note list \<times> spendable_note option) outcome" where
  "fill_notes E [] selected last_note = Done (selected, last_note)"
| "fill_notes E (n # ns) selected last_note =
     obind (expect (notes_value selected)) (\<lambda>s.
     obind (expect (note_value (sn_denomination n))) (\<lambda>v.
     if amount_add v s \<le> E then fill_notes E ns (selected @ [n]) last_note
     else fill_notes E ns selected (Some n)))"

text \<open>\<open>Failed ()\<close> is the code's \<open>None\<close>.\<close>

definition select_funding_input :: "spendable_note list \<Rightarrow> amount \<Rightarrow> (unit, spendable_note list) outcome" where
  "select_funding_input ns E =
     obind (expect (notes_value (surplus_notes ns))) (\<lambda>s.
     if E \<le> s then Done (surplus_notes ns)
     else obind (fill_notes E (reserve_notes ns) (surplus_notes ns) None) (\<lambda>(selected, last_note).
       obind (ok_or () last_note) (\<lambda>n. Done (selected @ [n]))))"

text \<open>The notes of a wallet, and what they deliver.\<close>

definition client_notes :: "spendable_note list \<Rightarrow> bool" where
  "client_notes ns \<longleftrightarrow> list_all (\<lambda>n. sn_denomination n \<in> set client_denominations) ns"

definition spend_value :: "spendable_note list \<Rightarrow> nat" where
  "spend_value ns = sum_list (map (\<lambda>n. dval (sn_denomination n) - 100) ns)"

definition face_value :: "spendable_note list \<Rightarrow> nat" where
  "face_value ns = sum_list (map (dval \<circ> sn_denomination) ns)"

lemma spend_value_simps [simp]:
  "spend_value [] = 0" "spend_value (n # ns) = dval (sn_denomination n) - 100 + spend_value ns"
  "spend_value (xs @ ys) = spend_value xs + spend_value ys"
  by (simp_all add: spend_value_def)

lemma spend_value_mset: "mset xs = mset ys \<Longrightarrow> spend_value xs = spend_value ys"
proof -
  let ?f = "\<lambda>n. dval (sn_denomination n) - 100"
  have v: "spend_value zs = sum_mset (image_mset ?f (mset zs))" for zs
    by (simp only: spend_value_def mset_map [symmetric] sum_mset_sum_list)
  assume "mset xs = mset ys"
  then show ?thesis by (simp only: v)
qed

lemma spend_value_face: "spend_value ns \<le> face_value ns"
  unfolding spend_value_def face_value_def by (intro sum_list_mono) simp

lemma client_notes_simps [simp]:
  "client_notes []" "client_notes (n # ns) \<longleftrightarrow> sn_denomination n \<in> set client_denominations \<and> client_notes ns"
  "client_notes (xs @ ys) \<longleftrightarrow> client_notes xs \<and> client_notes ys"
  by (simp_all add: client_notes_def)

lemma client_notes_mset: "mset xs \<subseteq># mset ys \<Longrightarrow> client_notes ys \<Longrightarrow> client_notes xs"
  using set_mset_mono [of "mset xs" "mset ys"] by (auto simp: client_notes_def list_all_iff)

lemma option_seq_notes:
  "client_notes ns \<Longrightarrow> \<exists>vs. option_seq (map (\<lambda>n. note_value (sn_denomination n)) ns) = Some vs \<and>
     map amount_nat vs = map (\<lambda>n. dval (sn_denomination n) - 100) ns"
proof (induction ns)
  case (Cons n ns)
  then obtain vs where "option_seq (map (\<lambda>n. note_value (sn_denomination n)) ns) = Some vs"
    "map amount_nat vs = map (\<lambda>n. dval (sn_denomination n) - 100) ns" by auto
  moreover from Cons.prems obtain a where "note_value (sn_denomination n) = Some a" "amount_nat a = dval (sn_denomination n) - 100"
    using note_value_client by auto
  ultimately show ?case by simp
qed simp

lemma notes_value_client:
  assumes "client_notes ns" "spend_value ns < 2 ^ 64"
  shows "\<exists>a. notes_value ns = Some a \<and> amount_nat a = spend_value ns"
proof -
  from option_seq_notes [OF assms(1)] obtain vs where v: "option_seq (map (\<lambda>n. note_value (sn_denomination n)) ns) = Some vs"
    "map amount_nat vs = map (\<lambda>n. dval (sn_denomination n) - 100) ns" by blast
  then have "sum_list (map amount_nat vs) = spend_value ns" by (simp add: spend_value_def)
  with v amount_sum_nat [of vs] assms(2) show ?thesis by (simp add: notes_value_def)
qed

text \<open>
  The loop: the notes it takes fit into the amount, and a remembered note is one that, on top of
  them, exceeds it.
\<close>

lemma fill_notes_spec:
  "client_notes (selected @ ts) \<Longrightarrow> spend_value (selected @ ts) < 2 ^ 64 \<Longrightarrow> spend_value selected \<le> amount_nat E \<Longrightarrow>
   \<exists>xs last'. fill_notes E ts selected last_note = Done (selected @ xs, last') \<and>
     spend_value (selected @ xs) \<le> amount_nat E \<and>
     (last' = last_note \<and> xs = ts \<or>
      (\<exists>n. last' = Some n \<and> amount_nat E < spend_value (selected @ xs) + (dval (sn_denomination n) - 100) \<and>
         mset (xs @ [n]) \<subseteq># mset ts))"
proof (induction ts arbitrary: selected last_note)
  case (Cons n ts)
  let ?v = "dval (sn_denomination n) - 100"
  from Cons.prems notes_value_client [of selected] obtain s where s: "notes_value selected = Some s"
    "amount_nat s = spend_value selected" by auto
  from Cons.prems note_value_client [of "sn_denomination n"] obtain v where v: "note_value (sn_denomination n) = Some v"
    "amount_nat v = ?v" by auto
  have a: "amount_nat (amount_add v s) = ?v + spend_value selected"
    using amount_add_nat [of v s] s v Cons.prems(2) by simp
  show ?case
  proof (cases "?v + spend_value selected \<le> amount_nat E")
    case True
    have "\<exists>xs last'. fill_notes E ts (selected @ [n]) last_note = Done ((selected @ [n]) @ xs, last') \<and>
        spend_value ((selected @ [n]) @ xs) \<le> amount_nat E \<and>
        (last' = last_note \<and> xs = ts \<or>
         (\<exists>m. last' = Some m \<and> amount_nat E < spend_value ((selected @ [n]) @ xs) + (dval (sn_denomination m) - 100) \<and>
            mset (xs @ [m]) \<subseteq># mset ts))"
      by (rule Cons.IH) (use Cons.prems True in auto)
    then obtain xs last' where "fill_notes E ts (selected @ [n]) last_note = Done (selected @ (n # xs), last')"
      "spend_value (selected @ (n # xs)) \<le> amount_nat E"
      "last' = last_note \<and> n # xs = n # ts \<or>
       (\<exists>m. last' = Some m \<and> amount_nat E < spend_value (selected @ (n # xs)) + (dval (sn_denomination m) - 100) \<and>
          mset ((n # xs) @ [m]) \<subseteq># mset (n # ts))" by auto
    then show ?thesis using s v a True by (auto simp: amount_le_nat expect_def)
  next
    case False
    have "\<exists>xs last'. fill_notes E ts selected (Some n) = Done (selected @ xs, last') \<and>
        spend_value (selected @ xs) \<le> amount_nat E \<and>
        (last' = Some n \<and> xs = ts \<or>
         (\<exists>m. last' = Some m \<and> amount_nat E < spend_value (selected @ xs) + (dval (sn_denomination m) - 100) \<and>
            mset (xs @ [m]) \<subseteq># mset ts))"
      by (rule Cons.IH) (use Cons.prems in auto)
    then obtain xs last' where f: "fill_notes E ts selected (Some n) = Done (selected @ xs, last')"
      "spend_value (selected @ xs) \<le> amount_nat E"
      and o: "last' = Some n \<and> xs = ts \<or>
        (\<exists>m. last' = Some m \<and> amount_nat E < spend_value (selected @ xs) + (dval (sn_denomination m) - 100) \<and>
          mset (xs @ [m]) \<subseteq># mset ts)" by blast
    have "\<exists>m. last' = Some m \<and> amount_nat E < spend_value (selected @ xs) + (dval (sn_denomination m) - 100) \<and>
        mset (xs @ [m]) \<subseteq># mset (n # ts)"
      using o
    proof
      assume "last' = Some n \<and> xs = ts"
      then show ?thesis using False by auto
    next
      assume "\<exists>m. last' = Some m \<and> amount_nat E < spend_value (selected @ xs) + (dval (sn_denomination m) - 100) \<and>
          mset (xs @ [m]) \<subseteq># mset ts"
      moreover have "mset ts \<subseteq># mset (n # ts)" by (simp add: subset_mset.less_imp_le)
      ultimately show ?thesis using subset_mset.order_trans by blast
    qed
    then show ?thesis using s v a False f by (auto simp: amount_le_nat expect_def)
  qed
qed simp

text \<open>Surplus and reserve are the wallet.\<close>

lemma mset_filter_classes:
  assumes "distinct ds"
  shows "(\<Sum>d \<leftarrow> ds. filter_mset (\<lambda>n. f n = d) M) = filter_mset (\<lambda>n. f n \<in> set ds) M"
  using assms
proof (induction ds)
  case (Cons d ds)
  have "filter_mset (\<lambda>n. f n \<in> set (d # ds)) M = filter_mset (\<lambda>n. f n = d) M + filter_mset (\<lambda>n. f n \<in> set ds) M"
    using Cons.prems by (induction M) auto
  with Cons show ?case by simp
qed simp

lemma mset_concat_map: "mset (concat (map f xs)) = (\<Sum>x \<leftarrow> xs. mset (f x))"
  by (induction xs) auto

lemma distinct_client_denominations: "distinct client_denominations"
proof -
  have "inj_on (of_nat :: nat \<Rightarrow> u8) {9..<42}"
  proof (rule inj_onI)
    fix x y :: nat
    assume xy: "x \<in> {9..<42}" "y \<in> {9..<42}" "(of_nat x :: u8) = of_nat y"
    have "unat (of_nat x :: u8) = x" "unat (of_nat y :: u8) = y" using xy(1,2) by (simp_all add: unat_of_nat)
    with xy(3) show "x = y" by metis
  qed
  then show ?thesis unfolding client_denominations_def by (simp only: distinct_map distinct_upt set_upt)
qed

lemma surplus_reserve:
  assumes "client_notes ns"
  shows "mset (surplus_notes ns @ reserve_notes ns) = mset ns"
proof -
  let ?c = "\<lambda>d. filter (\<lambda>n. sn_denomination n = d) ns" and ?k = "2 * TARGET_PER_DENOMINATION"
  have "mset (surplus_notes ns @ reserve_notes ns) =
      (\<Sum>d \<leftarrow> rev client_denominations. mset (drop ?k (?c d)) + mset (take ?k (?c d)))"
    unfolding surplus_notes_def reserve_notes_def mset_append mset_concat_map by (rule sum_list_addf [symmetric])
  also have "\<dots> = (\<Sum>d \<leftarrow> rev client_denominations. filter_mset (\<lambda>n. sn_denomination n = d) (mset ns))"
    by (intro arg_cong [where f = sum_list] map_cong refl)
      (metis (no_types, lifting) append_take_drop_id mset_append mset_filter union_commute)
  also have "\<dots> = filter_mset (\<lambda>n. sn_denomination n \<in> set client_denominations) (mset ns)"
    by (subst mset_filter_classes) (simp_all only: distinct_rev distinct_client_denominations set_rev)
  also have "\<dots> = mset ns"
    using assms by (simp add: client_notes_def list_all_iff filter_mset_eq_conv)
  finally show ?thesis .
qed

text \<open>
  The selection: notes of the wallet that deliver the amount, and at most a note more than it
  unless they are the surplus. It fails exactly when everything together is not more than the
  amount, and the surplus less.
\<close>

lemma select_funding_spec:
  assumes c: "client_notes ns" and b: "spend_value ns < 2 ^ 64"
  shows "case select_funding_input ns E of
      Done sel \<Rightarrow> mset sel \<subseteq># mset ns \<and> amount_nat E \<le> spend_value sel \<and>
        (sel = surplus_notes ns \<or> spend_value (butlast sel) \<le> amount_nat E)
    | Failed u \<Rightarrow> spend_value ns \<le> amount_nat E \<and> spend_value (surplus_notes ns) < amount_nat E
    | Panicked \<Rightarrow> False"
proof -
  let ?s = "surplus_notes ns" and ?r = "reserve_notes ns"
  have m: "mset (?s @ ?r) = mset ns" using surplus_reserve [OF c] .
  have c': "client_notes (?s @ ?r)" using client_notes_mset [OF _ c, of "?s @ ?r"] m by simp
  have v: "spend_value (?s @ ?r) = spend_value ns" using spend_value_mset [OF m] .
  from notes_value_client [of ?s] c' v b obtain s where s: "notes_value ?s = Some s" "amount_nat s = spend_value ?s"
    by auto
  show ?thesis
  proof (cases "amount_nat E \<le> spend_value ?s")
    case True
    then have "select_funding_input ns E = Done ?s" using s by (simp add: select_funding_input_def amount_le_nat expect_def)
    moreover have "mset ?s \<subseteq># mset ns" unfolding m [symmetric] by simp
    ultimately show ?thesis using True by simp
  next
    case False
    have "\<exists>xs last'. fill_notes E ?r ?s None = Done (?s @ xs, last') \<and> spend_value (?s @ xs) \<le> amount_nat E \<and>
        (last' = None \<and> xs = ?r \<or>
         (\<exists>n. last' = Some n \<and> amount_nat E < spend_value (?s @ xs) + (dval (sn_denomination n) - 100) \<and>
            mset (xs @ [n]) \<subseteq># mset ?r))"
      by (rule fill_notes_spec) (use c' v b False in auto)
    then obtain xs last' where f: "fill_notes E ?r ?s None = Done (?s @ xs, last')" "spend_value (?s @ xs) \<le> amount_nat E"
      and o: "last' = None \<and> xs = ?r \<or>
        (\<exists>n. last' = Some n \<and> amount_nat E < spend_value (?s @ xs) + (dval (sn_denomination n) - 100) \<and>
          mset (xs @ [n]) \<subseteq># mset ?r)" by blast
    from o show ?thesis
    proof
      assume "last' = None \<and> xs = ?r"
      then show ?thesis using f s False v by (simp add: select_funding_input_def amount_le_nat expect_def ok_or_def)
    next
      assume "\<exists>n. last' = Some n \<and> amount_nat E < spend_value (?s @ xs) + (dval (sn_denomination n) - 100) \<and>
          mset (xs @ [n]) \<subseteq># mset ?r"
      then obtain n where n: "last' = Some n" "amount_nat E < spend_value (?s @ xs) + (dval (sn_denomination n) - 100)"
        "mset (xs @ [n]) \<subseteq># mset ?r" by blast
      have "mset ((?s @ xs) @ [n]) \<subseteq># mset (?s @ ?r)" using n(3) by simp
      then have "mset ((?s @ xs) @ [n]) \<subseteq># mset ns" unfolding m .
      moreover have "select_funding_input ns E = Done ((?s @ xs) @ [n])"
        using f s False n(1) by (simp add: select_funding_input_def amount_le_nat expect_def ok_or_def)
      moreover have "spend_value ((?s @ xs) @ [n]) = spend_value (?s @ xs) + (dval (sn_denomination n) - 100)"
        unfolding spend_value_simps(3) [of "?s @ xs" "[n]"] by simp
      ultimately show ?thesis using n(2) f(2) by (simp del: spend_value_simps append_assoc)
    qed
  qed
qed

end
