(* ===== verification/Client_Change.thy ===== *)
theory Client_Change
  imports Client_Select "HOL-Library.Sublist"
begin

text \<open>
  Denominations of change and of amounts, exact sends, and the largest amount an account can spend
  (\<open>picomint-client/src/ecash/mod.rs\<close>).
\<close>

section \<open>Change\<close>

definition change_denominations :: "bool \<Rightarrow> u8 list" where
  "change_denominations mx = drop (if mx then 2 else 0) client_denominations"

text \<open>The inner loop: outputs of one denomination while the excess pays for them.\<close>

partial_function (option) mint_tier :: "amount \<Rightarrow> u8 \<Rightarrow> amount \<Rightarrow> (u8 list \<times> amount) option" where
  "mint_tier fee d e =
     (case amount_checked_sub e (amount_add (denomination_amount d) fee) of
        None \<Rightarrow> Some ([], e)
      | Some e' \<Rightarrow> Option.bind (mint_tier fee d e') (\<lambda>(ds, r). Some (d # ds, r)))"

fun mint_tiers :: "amount \<Rightarrow> u8 list \<Rightarrow> amount \<Rightarrow> (u8 list \<times> amount) option" where
  "mint_tiers fee [] e = Some ([], e)"
| "mint_tiers fee (d # ds) e =
     Option.bind (mint_tier fee d e) (\<lambda>(xs, e').
     map_option (\<lambda>(ys, r). (xs @ ys, r)) (mint_tiers fee ds e'))"

definition select_output_denominations :: "amount \<Rightarrow> amount \<Rightarrow> u8 list \<Rightarrow> u8 list option" where
  "select_output_denominations fee e ds = map_option fst (mint_tiers fee (rev ds) e)"

text \<open>What outputs cost: their values and their fees.\<close>

definition outputs_cost :: "u8 list \<Rightarrow> nat" where
  "outputs_cost ds = sum_list (map (\<lambda>d. dval d + 100) ds)"

lemma outputs_cost_simps [simp]:
  "outputs_cost [] = 0" "outputs_cost (d # ds) = dval d + 100 + outputs_cost ds"
  "outputs_cost (xs @ ys) = outputs_cost xs + outputs_cost ys"
  by (simp_all add: outputs_cost_def)

lemma tier_cost:
  assumes "d \<in> set client_denominations"
  shows "amount_nat (amount_add (denomination_amount d) ECASH_OUTPUT_FEE) = dval d + 100"
proof -
  have "amount_nat (denomination_amount d) + amount_nat ECASH_OUTPUT_FEE < 2 ^ 64"
    using client_amount [OF assms] dval_bounds [OF assms] by (simp add: ECASH_OUTPUT_FEE_def)
  from amount_add_nat [OF this] client_amount [OF assms] show ?thesis by (simp add: ECASH_OUTPUT_FEE_def)
qed

lemma amount_checked_sub_cases:
  "amount_nat b \<le> amount_nat a \<Longrightarrow> \<exists>c. amount_checked_sub a b = Some c \<and> amount_nat c = amount_nat a - amount_nat b"
  "amount_nat a < amount_nat b \<Longrightarrow> amount_checked_sub a b = None"
  by (auto simp: amount_checked_sub_def checked_sub_def word_le_nat_alt unat_sub)

lemma mint_tier_spec:
  assumes d: "d \<in> set client_denominations"
  shows "\<exists>k r. mint_tier ECASH_OUTPUT_FEE d e = Some (replicate k d, r) \<and>
    amount_nat e = k * (dval d + 100) + amount_nat r \<and> amount_nat r < dval d + 100"
proof (induction "amount_nat e" arbitrary: e rule: less_induct)
  case less
  let ?c = "amount_add (denomination_amount d) ECASH_OUTPUT_FEE"
  have c: "amount_nat ?c = dval d + 100" by (rule tier_cost [OF d])
  show ?case
  proof (cases "amount_nat e < dval d + 100")
    case True
    then have "amount_checked_sub e ?c = None" using c amount_checked_sub_cases(2) by simp
    then have "mint_tier ECASH_OUTPUT_FEE d e = Some (replicate 0 d, e)" by (simp add: mint_tier.simps [of _ d e])
    with True show ?thesis by fastforce
  next
    case False
    then obtain e' where e': "amount_checked_sub e ?c = Some e'" "amount_nat e' = amount_nat e - (dval d + 100)"
      using c amount_checked_sub_cases(1) [of ?c e] by auto
    then have "amount_nat e' < amount_nat e" using False by simp
    from less.hyps [OF this] obtain k r where "mint_tier ECASH_OUTPUT_FEE d e' = Some (replicate k d, r)"
      "amount_nat e' = k * (dval d + 100) + amount_nat r" "amount_nat r < dval d + 100" by blast
    with e' False have "mint_tier ECASH_OUTPUT_FEE d e = Some (replicate (Suc k) d, r)"
      "amount_nat e = Suc k * (dval d + 100) + amount_nat r" "amount_nat r < dval d + 100"
      by (simp_all add: mint_tier.simps [of _ d e])
    then show ?thesis by blast
  qed
qed

text \<open>
  The descent over the tiers: every output is paid for, and what is left does not pay for another
  one of the smallest. A tier below one of double its value is used once at most.
\<close>

lemma outputs_cost_replicate [simp]: "outputs_cost (replicate k d) = k * (dval d + 100)"
  by (induction k) simp_all

lemma mint_tiers_spec:
  "set ds \<subseteq> set client_denominations \<Longrightarrow>
   \<exists>xs r. mint_tiers ECASH_OUTPUT_FEE ds e = Some (xs, r) \<and> set xs \<subseteq> set ds \<and>
     amount_nat e = outputs_cost xs + amount_nat r \<and> (ds \<noteq> [] \<longrightarrow> amount_nat r < dval (last ds) + 100) \<and>
     (successively (\<lambda>a b. dval a = 2 * dval b) ds \<longrightarrow> ds \<noteq> [] \<longrightarrow> amount_nat e < 2 * dval (hd ds) + 100 \<longrightarrow> distinct xs)"
proof (induction ds arbitrary: e)
  case (Cons d ds)
  from Cons.prems have d: "d \<in> set client_denominations" and ds: "set ds \<subseteq> set client_denominations" by auto
  from mint_tier_spec [OF d] obtain k r where t: "mint_tier ECASH_OUTPUT_FEE d e = Some (replicate k d, r)"
    "amount_nat e = k * (dval d + 100) + amount_nat r" "amount_nat r < dval d + 100" by blast
  from Cons.IH [OF ds] obtain xs r' where x: "mint_tiers ECASH_OUTPUT_FEE ds r = Some (xs, r')" "set xs \<subseteq> set ds"
    "amount_nat r = outputs_cost xs + amount_nat r'" "ds \<noteq> [] \<longrightarrow> amount_nat r' < dval (last ds) + 100"
    and dist: "successively (\<lambda>a b. dval a = 2 * dval b) ds \<longrightarrow> ds \<noteq> [] \<longrightarrow> amount_nat r < 2 * dval (hd ds) + 100 \<longrightarrow> distinct xs"
    by blast
  have "mint_tiers ECASH_OUTPUT_FEE (d # ds) e = Some (replicate k d @ xs, r')" using t x by simp
  moreover have "set (replicate k d @ xs) \<subseteq> set (d # ds)" using x(2) by auto
  moreover have "amount_nat e = outputs_cost (replicate k d @ xs) + amount_nat r'" using t x by simp
  moreover have "amount_nat r' < dval (last (d # ds)) + 100"
  proof (cases "ds = []")
    case True
    with x(1) t(3) show ?thesis by simp
  next
    case False
    with x(4) show ?thesis by simp
  qed
  moreover have "distinct (replicate k d @ xs)"
    if s: "successively (\<lambda>a b. dval a = 2 * dval b) (d # ds)" and e: "amount_nat e < 2 * dval d + 100"
  proof -
    have "k \<le> 1"
    proof (rule ccontr)
      assume "\<not> k \<le> 1"
      then have "2 * (dval d + 100) \<le> k * (dval d + 100)" by (intro mult_le_mono1) simp
      with t(2) e show False by simp
    qed
    moreover have "distinct xs"
    proof (cases ds)
      case Nil
      with x(2) show ?thesis by simp
    next
      case (Cons d' ds')
      with s t(3) dist show ?thesis by simp
    qed
    moreover have "d \<notin> set ds"
    proof
      assume m: "d \<in> set ds"
      have tr: "successively (\<lambda>a b. dval b < dval a) (d # ds)"
        by (rule successively_mono [OF s]) (auto simp: dval_def)
      have "sorted_wrt (\<lambda>a b. dval b < dval a) (d # ds)"
        using tr by (subst successively_conv_sorted_wrt [symmetric]) (auto simp: transp_def)
      with m show False by auto
    qed
    ultimately show ?thesis using x(2) by (cases k) (auto simp: le_Suc_eq)
  qed
  ultimately show ?case by auto
qed simp

section \<open>Splitting an amount\<close>

text \<open>\<open>u64::next_multiple_of\<close>, which wraps in a release build.\<close>

definition round_to_multiple :: "amount \<Rightarrow> amount \<Rightarrow> amount" where
  "round_to_multiple a m =
     (let r = msat a mod msat m in if r = 0 then a else Amount (msat a + (msat m - r)))"

fun represent_tiers :: "u8 list \<Rightarrow> amount \<Rightarrow> u8 list" where
  "represent_tiers [] a = []"
| "represent_tiers (d # ds) a =
     (let v = msat (denomination_amount d); n = msat a div v
      in replicate (unat n) d @ represent_tiers ds (Amount (msat a - n * v)))"

definition represent_amount :: "amount \<Rightarrow> u8 list" where
  "represent_amount a = represent_tiers (rev client_denominations) a"

definition denoms_value :: "u8 list \<Rightarrow> nat" where
  "denoms_value ds = sum_list (map dval ds)"

lemma denoms_value_simps [simp]:
  "denoms_value [] = 0" "denoms_value (d # ds) = dval d + denoms_value ds"
  "denoms_value (xs @ ys) = denoms_value xs + denoms_value ys" "denoms_value (replicate k d) = k * dval d"
  by (simp_all add: denoms_value_def sum_list_replicate)

lemma round_to_multiple_spec:
  assumes m: "0 < amount_nat m" and room: "amount_nat a + amount_nat m \<le> 2 ^ 64"
  shows "amount_nat m dvd amount_nat (round_to_multiple a m)" "amount_nat a \<le> amount_nat (round_to_multiple a m)"
    "amount_nat (round_to_multiple a m) < amount_nat a + amount_nat m"
proof -
  let ?r = "amount_nat a mod amount_nat m"
  have r: "unat (msat a mod msat m) = ?r" by (simp add: unat_mod)
  have lt: "?r < amount_nat m" using m by simp
  have n: "amount_nat (round_to_multiple a m) = (if ?r = 0 then amount_nat a else amount_nat a + (amount_nat m - ?r))"
  proof (cases "?r = 0")
    case True
    then have "msat a mod msat m = 0" using r by (simp add: unat_eq_zero)
    with True show ?thesis by (simp add: round_to_multiple_def)
  next
    case False
    then have nz: "msat a mod msat m \<noteq> 0" using r by (metis unsigned_0)
    have "msat a mod msat m \<le> msat m" using r lt by (simp add: word_le_nat_alt)
    then have "unat (msat m - msat a mod msat m) = amount_nat m - ?r" using r by (simp add: unat_sub)
    with False nz room lt show ?thesis by (simp add: round_to_multiple_def Let_def unat_word_ariths)
  qed
  show "amount_nat a \<le> amount_nat (round_to_multiple a m)" "amount_nat (round_to_multiple a m) < amount_nat a + amount_nat m"
    unfolding n using lt m by (simp_all only: split: if_split) linarith+
  show "amount_nat m dvd amount_nat (round_to_multiple a m)"
  proof (cases "?r = 0")
    case False
    have "amount_nat a + (amount_nat m - ?r) = (amount_nat a div amount_nat m + 1) * amount_nat m"
      using div_mult_mod_eq [of "amount_nat a" "amount_nat m"] lt unfolding add_mult_distrib by linarith
    then show ?thesis using n False by (metis dvd_triv_right)
  qed (use n in \<open>simp add: mod_eq_0_iff_dvd\<close>)
qed

lemma represent_tiers_spec:
  "set ds \<subseteq> set client_denominations \<Longrightarrow>
   set (represent_tiers ds a) \<subseteq> set ds \<and>
   (\<exists>r. amount_nat a = denoms_value (represent_tiers ds a) + r \<and> (ds \<noteq> [] \<longrightarrow> r < dval (last ds)))"
proof (induction ds arbitrary: a)
  case (Cons d ds)
  then have d: "d \<in> set client_denominations" and ds: "set ds \<subseteq> set client_denominations" by auto
  let ?v = "msat (denomination_amount d)"
  let ?n = "msat a div ?v"
  let ?a = "Amount (msat a - ?n * ?v)"
  have v: "unat ?v = dval d" by (rule client_amount [OF d])
  have n: "unat ?n = amount_nat a div dval d" by (simp add: unat_div v)
  have le: "unat ?n * unat ?v \<le> amount_nat a" by (simp add: n v)
  then have nv: "unat (?n * ?v) = unat ?n * unat ?v"
    using unsigned_less [of "msat a", where 'a = nat] by (simp add: unat_word_ariths)
  have "?n * ?v \<le> msat a" using le nv by (simp add: word_le_nat_alt)
  then have a: "amount_nat ?a = amount_nat a mod dval d"
    using nv n v by (simp add: unat_sub minus_div_mult_eq_mod unat_mod)
  from Cons.IH [OF ds, of ?a] obtain r where s: "set (represent_tiers ds ?a) \<subseteq> set ds"
    and r: "amount_nat ?a = denoms_value (represent_tiers ds ?a) + r"
    "ds \<noteq> [] \<longrightarrow> r < dval (last ds)" by blast
  have e: "represent_tiers (d # ds) a = replicate (unat ?n) d @ represent_tiers ds ?a" by (simp add: Let_def)
  have "amount_nat a = denoms_value (represent_tiers (d # ds) a) + r"
    unfolding e using a r(1) n div_mult_mod_eq [of "amount_nat a" "dval d"]
    by (simp only: denoms_value_simps)
  moreover have "r < dval (last (d # ds))"
  proof (cases "ds = []")
    case True
    have "0 < dval d" by (simp add: dval_def)
    with True r(1) a show ?thesis by simp
  next
    case False
    with r(2) show ?thesis by simp
  qed
  ultimately show ?case using s unfolding e by auto
qed simp

section \<open>Exact sends\<close>

text \<open>\<open>send_ecash_dbtx\<close> takes every note that still fits, the largest first.\<close>

fun take_exact :: "amount \<Rightarrow> spendable_note list \<Rightarrow> spendable_note list \<times> amount" where
  "take_exact r [] = ([], r)"
| "take_exact r (n # ns) =
     (case amount_checked_sub r (note_amount n) of
        None \<Rightarrow> take_exact r ns
      | Some r' \<Rightarrow> (let (xs, e) = take_exact r' ns in (n # xs, e)))"

definition largest_first :: "spendable_note list \<Rightarrow> spendable_note list" where
  "largest_first ns = sort_key (\<lambda>n. - int (unat (sn_denomination n))) ns"

definition exact_notes :: "spendable_note list \<Rightarrow> amount \<Rightarrow> spendable_note list option" where
  "exact_notes ns a =
     (let (xs, r) = take_exact a (largest_first ns)
      in if r \<noteq> amount_zero then None else Some xs)"

text \<open>
  Values that divide one another in order: a total that reaches a value they all divide passes
  through it.
\<close>

lemma prefix_hits:
  "sorted_wrt (\<lambda>a b. b dvd a) (vs :: nat list) \<Longrightarrow> \<forall>w \<in> set vs. w dvd v \<Longrightarrow> v \<le> sum_list vs \<Longrightarrow>
   \<exists>k. sum_list (take k vs) = v"
proof (induction vs arbitrary: v)
  case (Cons w ws)
  show ?case
  proof (cases "v = 0")
    case False
    then have w: "w \<le> v" using Cons.prems(2) by (simp add: dvd_imp_le)
    have "\<exists>k. sum_list (take k ws) = v - w"
      by (rule Cons.IH) (use Cons.prems w in \<open>auto intro: dvd_diff_nat\<close>)
    then obtain k where "sum_list (take k ws) = v - w" ..
    then have "sum_list (take (Suc k) (w # ws)) = v" using w by simp
    then show ?thesis by blast
  next
    case True
    then have "sum_list (take 0 (w # ws)) = v" by simp
    then show ?thesis by blast
  qed
qed simp

definition makes :: "('a \<Rightarrow> nat) \<Rightarrow> 'a list \<Rightarrow> nat \<Rightarrow> bool" where
  "makes f vs t \<longleftrightarrow> (\<exists>ys. subseq ys vs \<and> sum_list (map f ys) = t)"

lemma subseq_sorted: "subseq ys vs \<Longrightarrow> sorted_wrt P vs \<Longrightarrow> sorted_wrt P ys \<and> set ys \<subseteq> set vs"
  by (induction rule: list_emb.induct) auto

lemma subseq_Cons_cases: "subseq ys (v # vs) \<Longrightarrow> subseq ys vs \<or> (\<exists>zs. ys = v # zs \<and> subseq zs vs)"
  by (cases ys) (auto simp: subseq_Cons2_iff split: if_splits)

lemma makes_Nil [simp]: "makes f [] t \<longleftrightarrow> t = 0"
  by (auto simp: makes_def dest: list_emb_Nil2)

lemma makes_skip:
  assumes "makes f (v # vs) t" "t < f v"
  shows "makes f vs t"
proof -
  from assms(1) obtain ys where ys: "subseq ys (v # vs)" "sum_list (map f ys) = t" by (auto simp: makes_def)
  from subseq_Cons_cases [OF ys(1)] have "subseq ys vs" using ys(2) assms(2) by auto
  with ys(2) show ?thesis unfolding makes_def by blast
qed

lemma makes_take:
  assumes s: "sorted_wrt (\<lambda>a b. f b dvd f a) (v # vs)" and m: "makes f (v # vs) t" and le: "f v \<le> t"
  shows "makes f vs (t - f v)"
proof -
  from m obtain ys where ys: "subseq ys (v # vs)" "sum_list (map f ys) = t" by (auto simp: makes_def)
  show ?thesis
  proof (cases "subseq ys vs")
    case True
    have "sorted_wrt (\<lambda>a b. f b dvd f a) vs" using s by simp
    from subseq_sorted [OF True this] have "sorted_wrt (\<lambda>a b. b dvd a) (map f ys)" "\<forall>w \<in> set (map f ys). w dvd f v"
      using s by (auto simp: sorted_wrt_map)
    then obtain k where k: "sum_list (take k (map f ys)) = f v" using prefix_hits [of "map f ys" "f v"] le ys(2) by blast
    have "sum_list (take k (map f ys)) + sum_list (drop k (map f ys)) = t"
      using ys(2) by (metis append_take_drop_id sum_list_append)
    moreover have "subseq (drop k ys) vs"
      by (rule subseq_order.order_trans [OF suffix_imp_subseq [OF suffix_drop] True])
    ultimately show ?thesis using k unfolding makes_def by (intro exI [of _ "drop k ys"]) (simp add: drop_map)
  next
    case False
    with subseq_Cons_cases [OF ys(1)] obtain zs where "ys = v # zs" "subseq zs vs" by blast
    with ys(2) show ?thesis unfolding makes_def by (intro exI [of _ zs]) simp
  qed
qed

lemma makes_Cons: "makes f vs t \<Longrightarrow> makes f (v # vs) (f v + t)"
proof -
  assume "makes f vs t"
  then obtain ys where "subseq ys vs" "sum_list (map f ys) = t" by (auto simp: makes_def)
  then show ?thesis unfolding makes_def by (intro exI [of _ "v # ys"]) simp
qed

lemma makes_Cons_skip: "makes f vs t \<Longrightarrow> makes f (v # vs) t"
  unfolding makes_def by (blast intro: list_emb_Cons)

text \<open>Which notes are picked does not depend on their order.\<close>

lemma subseq_mset: "subseq ys vs \<Longrightarrow> mset ys \<subseteq># mset vs"
  by (induction rule: list_emb.induct) (auto intro: subset_mset.order_trans)

lemma submset_subseq: "M \<subseteq># mset vs \<Longrightarrow> \<exists>ys. subseq ys vs \<and> mset ys = M"
proof (induction vs arbitrary: M)
  case (Cons v vs)
  show ?case
  proof (cases "v \<in># M")
    case True
    then obtain N where N: "M = add_mset v N" by (meson multi_member_split)
    with Cons.prems have "N \<subseteq># mset vs" by simp
    from Cons.IH [OF this] obtain ys where "subseq ys vs" "mset ys = N" by blast
    then have "subseq (v # ys) (v # vs)" "mset (v # ys) = M" using N by simp_all
    then show ?thesis by blast
  next
    case False
    have "M \<subseteq># mset vs"
    proof (rule mset_subset_eqI)
      fix w
      have "count M w \<le> count (add_mset v (mset vs)) w" using mset_subset_eq_count [OF Cons.prems] by simp
      then show "count M w \<le> count (mset vs) w" using False by (cases "w = v") (auto simp: not_in_iff)
    qed
    from Cons.IH [OF this] show ?thesis by (blast intro: list_emb_Cons)
  qed
qed simp

lemma makes_mset: "makes f vs t \<longleftrightarrow> (\<exists>M. M \<subseteq># mset vs \<and> sum_mset (image_mset f M) = t)"
proof
  assume "makes f vs t"
  then obtain ys where "subseq ys vs" "sum_list (map f ys) = t" by (auto simp: makes_def)
  then have "mset ys \<subseteq># mset vs \<and> sum_mset (image_mset f (mset ys)) = t"
    using subseq_mset sum_mset_sum_list [of "map f ys"] by simp
  then show "\<exists>M. M \<subseteq># mset vs \<and> sum_mset (image_mset f M) = t" by blast
next
  assume "\<exists>M. M \<subseteq># mset vs \<and> sum_mset (image_mset f M) = t"
  then obtain M where M: "M \<subseteq># mset vs" "sum_mset (image_mset f M) = t" by blast
  from submset_subseq [OF M(1)] obtain ys where "subseq ys vs" "mset ys = M" by blast
  with M(2) sum_mset_sum_list [of "map f ys"] show "makes f vs t" unfolding makes_def by (intro exI [of _ ys]) simp
qed

text \<open>Taking the largest first finds an exact selection when there is one.\<close>

abbreviation note_nat :: "spendable_note \<Rightarrow> nat" where
  "note_nat n \<equiv> dval (sn_denomination n)"

lemma take_exact_spec:
  "client_notes ns \<Longrightarrow> sorted_wrt (\<lambda>a b. note_nat b dvd note_nat a) ns \<Longrightarrow>
   (case take_exact r ns of (xs, e) \<Rightarrow>
      subseq xs ns \<and> face_value xs + amount_nat e = amount_nat r \<and> (e = amount_zero \<longleftrightarrow> makes note_nat ns (amount_nat r)))"
proof (induction ns arbitrary: r)
  case Nil
  then show ?case by (cases r) (simp add: face_value_def amount_zero_def unat_eq_zero)
next
  case (Cons n ns)
  have v: "amount_nat (note_amount n) = note_nat n" using Cons.prems(1) client_amount by (simp add: note_amount_def)
  from Cons.prems have p: "client_notes ns" "sorted_wrt (\<lambda>a b. note_nat b dvd note_nat a) ns" by simp_all
  show ?case
  proof (cases "note_nat n \<le> amount_nat r")
    case True
    then obtain r' where r': "amount_checked_sub r (note_amount n) = Some r'" "amount_nat r' = amount_nat r - note_nat n"
      using amount_checked_sub_cases(1) v by metis
    obtain xs e where t: "take_exact r' ns = (xs, e)" by fastforce
    with Cons.IH [OF p, of r'] have "subseq xs ns" "face_value xs + amount_nat e = amount_nat r'"
      "e = amount_zero \<longleftrightarrow> makes note_nat ns (amount_nat r')" by auto
    moreover have "makes note_nat (n # ns) (amount_nat r) \<longleftrightarrow> makes note_nat ns (amount_nat r')"
      using makes_take [OF Cons.prems(2) _ True] makes_Cons [of note_nat ns "amount_nat r - note_nat n" n] True
      unfolding r'(2) by auto
    ultimately show ?thesis using r' t True by (simp add: face_value_def)
  next
    case False
    then have "amount_checked_sub r (note_amount n) = None" using amount_checked_sub_cases(2) v by simp
    moreover obtain xs e where t: "take_exact r ns = (xs, e)" by fastforce
    moreover from t Cons.IH [OF p, of r] have "subseq xs ns" "face_value xs + amount_nat e = amount_nat r"
      "e = amount_zero \<longleftrightarrow> makes note_nat ns (amount_nat r)" by auto
    moreover have "makes note_nat (n # ns) (amount_nat r) \<longleftrightarrow> makes note_nat ns (amount_nat r)"
      using makes_skip [of note_nat n ns] makes_Cons_skip False by (auto simp: not_le)
    ultimately show ?thesis by (simp add: list_emb_Cons)
  qed
qed

lemma largest_first_spec: "mset (largest_first ns) = mset ns" "sorted_wrt (\<lambda>a b. note_nat b dvd note_nat a) (largest_first ns)"
proof -
  show "mset (largest_first ns) = mset ns" by (simp add: largest_first_def)
  have "sorted (map (\<lambda>n. - int (unat (sn_denomination n))) (largest_first ns))" by (simp add: largest_first_def)
  then show "sorted_wrt (\<lambda>a b. note_nat b dvd note_nat a) (largest_first ns)"
    unfolding sorted_wrt_map by (rule sorted_wrt_mono_rel [rotated]) (auto simp: dval_def le_imp_power_dvd word_le_nat_alt [symmetric] word_le_def)
qed

lemma exact_notes_spec:
  assumes c: "client_notes ns"
  shows "case exact_notes ns a of
      Some xs \<Rightarrow> mset xs \<subseteq># mset ns \<and> face_value xs = amount_nat a
    | None \<Rightarrow> \<nexists>M. M \<subseteq># mset ns \<and> sum_mset (image_mset note_nat M) = amount_nat a"
proof -
  have c': "client_notes (largest_first ns)" by (rule client_notes_mset [OF _ c]) (simp add: largest_first_spec(1))
  obtain xs e where t: "take_exact a (largest_first ns) = (xs, e)" by fastforce
  with take_exact_spec [OF c' largest_first_spec(2), of a] have "subseq xs (largest_first ns)"
    "face_value xs + amount_nat e = amount_nat a" "e = amount_zero \<longleftrightarrow> makes note_nat (largest_first ns) (amount_nat a)" by auto
  with t show ?thesis
    using subseq_mset [of xs "largest_first ns"]
    by (auto simp: exact_notes_def makes_mset largest_first_spec(1) amount_zero_def)
qed

section \<open>The largest affordable amount\<close>

definition max_spendable :: "spendable_note list \<Rightarrow> amount option" where
  "max_spendable ns = notes_value ns"

definition div_ceil :: "u64 \<Rightarrow> u64 \<Rightarrow> u64" where
  "div_ceil a b = (if a mod b = 0 then a div b else a div b + 1)"

text \<open>The bisection; the fees of a rail are a parameter.\<close>

partial_function (option) bisect :: "(amount \<Rightarrow> amount) \<Rightarrow> amount \<Rightarrow> u64 \<Rightarrow> u64 \<Rightarrow> u64 option" where
  "bisect priced spendable lo hi =
     (if lo < hi then
        (let mid = div_ceil (lo + hi) 2
         in if priced (amount_from_sat mid) \<le> spendable then bisect priced spendable mid hi
            else bisect priced spendable lo (mid - 1))
      else Some lo)"

definition largest_affordable :: "amount \<Rightarrow> (amount \<Rightarrow> amount) \<Rightarrow> amount option" where
  "largest_affordable spendable rail_fees =
     (let priced = (\<lambda>a. amount_add a (rail_fees a))
      in if spendable < priced amount_zero then Some amount_zero
         else map_option amount_from_sat (bisect priced spendable 0 (msat spendable div 1000)))"

lemma div_ceil_2:
  assumes "unat lo < unat hi" "unat hi < 2 ^ 63"
  shows "unat lo < unat (div_ceil (lo + hi) 2)" "unat (div_ceil (lo + hi) 2) \<le> unat hi"
proof -
  have s: "unat (lo + hi) = unat lo + unat hi" using assms by (simp add: unat_word_ariths)
  have e: "(lo + hi) mod 2 = 0 \<longleftrightarrow> (unat lo + unat hi) mod 2 = 0"
    using unat_mod [of "lo + hi" 2] s by (auto simp: unat_eq_zero [symmetric] simp del: unat_eq_zero)
  have d: "unat ((lo + hi) div 2) = (unat lo + unat hi) div 2" using s by (simp add: unat_div)
  have "unat (div_ceil (lo + hi) 2) = (unat lo + unat hi + 1) div 2"
  proof (cases "(unat lo + unat hi) mod 2 = 0")
    case True
    then show ?thesis using d e by (simp add: div_ceil_def) presburger
  next
    case False
    have "unat ((lo + hi) div 2 + 1) = (unat lo + unat hi) div 2 + 1" using d assms by (simp add: unat_word_ariths)
    with False show ?thesis using e by (simp add: div_ceil_def) presburger
  qed
  then show "unat lo < unat (div_ceil (lo + hi) 2)" "unat (div_ceil (lo + hi) 2) \<le> unat hi" using assms by simp_all
qed

text \<open>
  On a predicate that holds up to a point and not beyond, the bisection returns the last value in
  range at which it holds.
\<close>

lemma bisect_spec:
  assumes down: "\<And>s t. unat s \<le> unat t \<Longrightarrow> unat t \<le> top_hi \<Longrightarrow> priced (amount_from_sat t) \<le> spendable \<Longrightarrow>
      priced (amount_from_sat s) \<le> spendable"
    and top: "top_hi < 2 ^ 63"
  shows "unat lo \<le> unat hi \<Longrightarrow> unat hi \<le> top_hi \<Longrightarrow> priced (amount_from_sat lo) \<le> spendable \<Longrightarrow>
    \<exists>r. bisect priced spendable lo hi = Some r \<and> unat lo \<le> unat r \<and> unat r \<le> unat hi \<and>
      priced (amount_from_sat r) \<le> spendable \<and>
      (\<forall>s. unat r < unat s \<longrightarrow> unat s \<le> unat hi \<longrightarrow> \<not> priced (amount_from_sat s) \<le> spendable)"
proof (induction "unat hi - unat lo" arbitrary: lo hi rule: less_induct)
  case less
  show ?case
  proof (cases "lo < hi")
    case False
    then have "unat hi = unat lo" using less.prems(1) by (simp add: word_less_nat_alt)
    with False less.prems show ?thesis by (simp add: bisect.simps [of _ _ lo hi])
  next
    case True
    then have lt: "unat lo < unat hi" by (simp add: word_less_nat_alt)
    let ?m = "div_ceil (lo + hi) 2"
    have m: "unat lo < unat ?m" "unat ?m \<le> unat hi" using div_ceil_2 [OF lt] less.prems(2) top by simp_all
    show ?thesis
    proof (cases "priced (amount_from_sat ?m) \<le> spendable")
      case True
      have "\<exists>r. bisect priced spendable ?m hi = Some r \<and> unat ?m \<le> unat r \<and> unat r \<le> unat hi \<and>
          priced (amount_from_sat r) \<le> spendable \<and>
          (\<forall>s. unat r < unat s \<longrightarrow> unat s \<le> unat hi \<longrightarrow> \<not> priced (amount_from_sat s) \<le> spendable)"
        by (rule less.hyps) (use m lt less.prems True in simp_all)
      then obtain r where "bisect priced spendable ?m hi = Some r" "unat ?m \<le> unat r" "unat r \<le> unat hi"
        "priced (amount_from_sat r) \<le> spendable"
        "\<forall>s. unat r < unat s \<longrightarrow> unat s \<le> unat hi \<longrightarrow> \<not> priced (amount_from_sat s) \<le> spendable" by blast
      with m(1) \<open>lo < hi\<close> True show ?thesis by (intro exI [of _ r]) (simp add: bisect.simps [of _ _ lo hi] Let_def)
    next
      case False
      have m1: "unat (?m - 1) = unat ?m - 1" using m(1) by (simp add: unat_minus_one word_gt_0 unat_gt_0 [symmetric])
      have "\<exists>r. bisect priced spendable lo (?m - 1) = Some r \<and> unat lo \<le> unat r \<and> unat r \<le> unat (?m - 1) \<and>
          priced (amount_from_sat r) \<le> spendable \<and>
          (\<forall>s. unat r < unat s \<longrightarrow> unat s \<le> unat (?m - 1) \<longrightarrow> \<not> priced (amount_from_sat s) \<le> spendable)"
        by (rule less.hyps) (use m m1 lt less.prems in simp_all)
      then obtain r where r: "bisect priced spendable lo (?m - 1) = Some r" "unat lo \<le> unat r" "unat r \<le> unat (?m - 1)"
        "priced (amount_from_sat r) \<le> spendable"
        and no: "\<forall>s. unat r < unat s \<longrightarrow> unat s \<le> unat (?m - 1) \<longrightarrow> \<not> priced (amount_from_sat s) \<le> spendable" by blast
      have "\<not> priced (amount_from_sat s) \<le> spendable" if "unat r < unat s" "unat s \<le> unat hi" for s
      proof (cases "unat s \<le> unat (?m - 1)")
        case False
        then have "unat ?m \<le> unat s" using m1 by simp
        with down [of ?m s] that less.prems(2) \<open>\<not> priced (amount_from_sat ?m) \<le> spendable\<close> show ?thesis by auto
      qed (use no that in blast)
      with r m m1 True False show ?thesis
        using \<open>lo < hi\<close> by (intro exI [of _ r]) (simp add: bisect.simps [of _ _ lo hi] Let_def)
    qed
  qed
qed

text \<open>Whole sats within what can be spent do not overflow.\<close>

lemma from_sat_nat: "unat s * 1000 < 2 ^ 64 \<Longrightarrow> amount_nat (amount_from_sat s) = unat s * 1000"
  by (simp add: amount_from_sat_def unat_word_ariths)

lemma amount_zero_nat [simp]: "amount_nat amount_zero = 0" "amount_add amount_zero a = a"
  by (cases a; simp add: amount_zero_def amount_add_def)+

lemma largest_affordable_spec:
  assumes mono: "\<And>a b. a \<le> b \<Longrightarrow> b \<le> spendable \<Longrightarrow> rail_fees a \<le> rail_fees b"
    and room: "\<And>a. a \<le> spendable \<Longrightarrow> amount_nat a + amount_nat (rail_fees a) < 2 ^ 64"
    and small: "amount_nat spendable < 2 ^ 63" and affordable: "rail_fees amount_zero \<le> spendable"
  shows "\<exists>r. largest_affordable spendable rail_fees = Some (amount_from_sat r) \<and>
    unat r * 1000 + amount_nat (rail_fees (amount_from_sat r)) \<le> amount_nat spendable \<and>
    (\<forall>s. unat r < unat s \<longrightarrow> unat s * 1000 \<le> amount_nat spendable \<longrightarrow>
       amount_nat spendable < unat s * 1000 + amount_nat (rail_fees (amount_from_sat s)))"
proof -
  let ?cost = "\<lambda>a. amount_add a (rail_fees a)" and ?hi = "msat spendable div 1000"
  have hi: "unat ?hi = amount_nat spendable div 1000" by (simp add: unat_div)
  have fs: "amount_nat (amount_from_sat s) = unat s * 1000 \<and> amount_from_sat s \<le> spendable"
    if "unat s * 1000 \<le> amount_nat spendable" for s
    using that from_sat_nat [of s] unsigned_less [of "msat spendable", where 'a = nat] by (simp add: amount_le_nat)
  have cost: "amount_nat (?cost (amount_from_sat s)) = unat s * 1000 + amount_nat (rail_fees (amount_from_sat s))"
    if "unat s * 1000 \<le> amount_nat spendable" for s
    using fs [OF that] room [of "amount_from_sat s"] amount_add_nat by simp
  have in_range: "unat s \<le> unat ?hi \<longleftrightarrow> unat s * 1000 \<le> amount_nat spendable" for s :: u64
    unfolding hi by (simp add: less_eq_div_iff_mult_less_eq)
  have down: "?cost (amount_from_sat s) \<le> spendable"
    if st: "unat s \<le> unat t" "unat t \<le> unat ?hi" "?cost (amount_from_sat t) \<le> spendable" for s t
  proof -
    have t: "unat t * 1000 \<le> amount_nat spendable" and s: "unat s * 1000 \<le> amount_nat spendable"
      using st(1,2) in_range by simp_all
    have "rail_fees (amount_from_sat s) \<le> rail_fees (amount_from_sat t)"
      by (rule mono) (use fs [OF s] fs [OF t] st(1) in \<open>simp_all add: amount_le_nat\<close>)
    then show ?thesis using st(1,3) cost [OF s] cost [OF t] by (simp add: amount_le_nat)
  qed
  have zero: "?cost (amount_from_sat 0) \<le> spendable"
    using affordable by (simp add: amount_from_sat_def amount_zero_def [symmetric])
  have "\<exists>r. bisect ?cost spendable 0 ?hi = Some r \<and> unat (0 :: u64) \<le> unat r \<and> unat r \<le> unat ?hi \<and>
      ?cost (amount_from_sat r) \<le> spendable \<and>
      (\<forall>s. unat r < unat s \<longrightarrow> unat s \<le> unat ?hi \<longrightarrow> \<not> ?cost (amount_from_sat s) \<le> spendable)"
    using bisect_spec [where priced = ?cost and spendable = spendable and top_hi = "unat ?hi" and lo = 0 and hi = ?hi]
      down zero small hi by simp
  then obtain r where r: "bisect ?cost spendable 0 ?hi = Some r" "unat r \<le> unat ?hi"
    "?cost (amount_from_sat r) \<le> spendable"
    and no: "\<forall>s. unat r < unat s \<longrightarrow> unat s \<le> unat ?hi \<longrightarrow> \<not> ?cost (amount_from_sat s) \<le> spendable" by blast
  have "largest_affordable spendable rail_fees = Some (amount_from_sat r)"
    using r(1) affordable by (simp add: largest_affordable_def Let_def not_less [symmetric])
  moreover have "unat r * 1000 + amount_nat (rail_fees (amount_from_sat r)) \<le> amount_nat spendable"
    using r(3) cost [of r] in_range [of r] r(2) by (simp add: amount_le_nat)
  moreover have "amount_nat spendable < unat s * 1000 + amount_nat (rail_fees (amount_from_sat s))"
    if "unat r < unat s" "unat s * 1000 \<le> amount_nat spendable" for s
    using no that in_range [of s] cost [OF that(2)] by (auto simp: amount_le_nat not_le)
  ultimately show ?thesis by blast
qed

end
