(* ===== verification/Client_Secret.thy ===== *)
theory Client_Secret
  imports Server_Types Item_Codes
begin

text \<open>
  Deterministic key derivation (\<open>picomint-core/src/secret.rs\<close> and the \<open>secret.rs\<close> of the client and
  its modules): a tree of hashes from the seed of the wallet. Distinct paths are hashed from
  distinct bytes, so keys of different accounts, purposes and counters differ as long as the hash
  does not collide on what the wallet derives.
\<close>

section \<open>The tree\<close>

definition ROOT_TAG :: bytes where "ROOT_TAG = ascii ''PICOMINT_CLIENT_SECRET_ROOT''"

definition CHILD_TAG :: bytes where "CHILD_TAG = ascii ''PICOMINT_CLIENT_SECRET_CHILD''"

definition LEAF_TAG :: bytes where "LEAF_TAG = ascii ''PICOMINT_CLIENT_SECRET_LEAF''"

datatype leaf_path = LeafBytes | LeafIroh | LeafSecpKeypair | LeafSecpScalar | LeafBlsScalar

fun enc_leaf_path :: "leaf_path \<Rightarrow> bytes" where
  "enc_leaf_path LeafBytes = enc_u8 0"
| "enc_leaf_path LeafIroh = enc_u8 1"
| "enc_leaf_path LeafSecpKeypair = enc_u8 2"
| "enc_leaf_path LeafSecpScalar = enc_u8 3"
| "enc_leaf_path LeafBlsScalar = enc_u8 4"

definition root_bytes :: "bytes \<Rightarrow> bytes" where
  "root_bytes seed = enc_vec enc_u8 ROOT_TAG @ enc_vec enc_u8 seed"

definition child_bytes :: "bytes \<Rightarrow> hash256 \<Rightarrow> bytes" where
  "child_bytes path s = enc_vec enc_u8 CHILD_TAG @ path @ enc_hash s"

definition leaf_bytes :: "leaf_path \<Rightarrow> hash256 \<Rightarrow> bytes" where
  "leaf_bytes path s = enc_vec enc_u8 LEAF_TAG @ enc_leaf_path path @ enc_hash s"

definition secret_root :: "crypto \<Rightarrow> bytes \<Rightarrow> hash256" where
  "secret_root C seed = sha256 C (root_bytes seed)"

definition secret_child :: "crypto \<Rightarrow> bytes \<Rightarrow> hash256 \<Rightarrow> hash256" where
  "secret_child C path s = sha256 C (child_bytes path s)"

definition secret_leaf :: "crypto \<Rightarrow> leaf_path \<Rightarrow> hash256 \<Rightarrow> hash256" where
  "secret_leaf C path s = sha256 C (leaf_bytes path s)"

section \<open>Paths\<close>

datatype account = Primary | Secondary | Tertiary | Quaternary | Quinary

fun account_index :: "account \<Rightarrow> u8" where
  "account_index Primary = 0"
| "account_index Secondary = 1"
| "account_index Tertiary = 2"
| "account_index Quaternary = 3"
| "account_index Quinary = 4"

lemma account_index_inj [simp]: "account_index a = account_index b \<longleftrightarrow> a = b"
  by (cases a; cases b) simp_all

instantiation account :: linorder
begin

definition less_eq_account :: "account \<Rightarrow> account \<Rightarrow> bool" where
  "a \<le> b \<longleftrightarrow> account_index a \<le> account_index b"

definition less_account :: "account \<Rightarrow> account \<Rightarrow> bool" where
  "a < b \<longleftrightarrow> account_index a < account_index b"

instance
proof
  show "a < b \<longleftrightarrow> a \<le> b \<and> \<not> b \<le> a" for a b :: account
    unfolding less_eq_account_def less_account_def by (rule less_le_not_le)
qed (auto simp: less_eq_account_def)

end

definition enc_account :: "account \<Rightarrow> bytes" where
  "enc_account a = enc_u8 (account_index a)"

datatype client_path = CorePath | MintPath | OnchainPath | LightningPath | GatewayPath

fun enc_client_path :: "client_path \<Rightarrow> bytes" where
  "enc_client_path CorePath = enc_u8 0"
| "enc_client_path MintPath = enc_u8 1"
| "enc_client_path OnchainPath = enc_u8 2"
| "enc_client_path LightningPath = enc_u8 3"
| "enc_client_path GatewayPath = enc_u8 4"

datatype ecash_path = NoteNonce | NoteBlinding

fun enc_ecash_path :: "ecash_path \<Rightarrow> bytes" where
  "enc_ecash_path NoteNonce = enc_u8 0"
| "enc_ecash_path NoteBlinding = enc_u8 1"

text \<open>The secrets of a mint's modules, from the wallet's seed and the mint's id.\<close>

definition client_secret :: "crypto \<Rightarrow> bytes \<Rightarrow> hash256 \<Rightarrow> hash256" where
  "client_secret C entropy mint = secret_child C (enc_hash mint) (secret_root C entropy)"

definition module_secret :: "crypto \<Rightarrow> client_path \<Rightarrow> hash256 \<Rightarrow> hash256" where
  "module_secret C path s = secret_child C (enc_client_path path) s"

text \<open>
  The keypair of a note's nonce is the leaf's 32 bytes, and its blinding key the scalar foreign code
  draws from a seed of 32 bytes.
\<close>

definition note_secret :: "crypto \<Rightarrow> ecash_path \<Rightarrow> account \<Rightarrow> u64 \<Rightarrow> hash256 \<Rightarrow> hash256" where
  "note_secret C path a counter s =
     secret_child C (enc_u64 counter) (secret_child C (enc_ecash_path path) (secret_child C (enc_account a) s))"

definition note_nonce_keypair :: "crypto \<Rightarrow> account \<Rightarrow> u64 \<Rightarrow> hash256 \<Rightarrow> hash256" where
  "note_nonce_keypair C a counter s = secret_leaf C LeafSecpKeypair (note_secret C NoteNonce a counter s)"

definition note_blinding_seed :: "crypto \<Rightarrow> account \<Rightarrow> u64 \<Rightarrow> hash256 \<Rightarrow> hash256" where
  "note_blinding_seed C a counter s = secret_leaf C LeafBlsScalar (note_secret C NoteBlinding a counter s)"

definition onchain_address_keypair :: "crypto \<Rightarrow> account \<Rightarrow> u64 \<Rightarrow> hash256 \<Rightarrow> hash256" where
  "onchain_address_keypair C a index s =
     secret_leaf C LeafSecpKeypair
       (secret_child C (enc_u64 index) (secret_child C (enc_u8 0) (secret_child C (enc_account a) s)))"

definition lightning_receive_keypair :: "crypto \<Rightarrow> account \<Rightarrow> hash256 \<Rightarrow> hash256" where
  "lightning_receive_keypair C a s =
     secret_leaf C LeafSecpKeypair (secret_child C (enc_u8 0) (secret_child C (enc_account a) s))"

definition gateway_contract_keypair :: "crypto \<Rightarrow> hash256 \<Rightarrow> hash256" where
  "gateway_contract_keypair C s = secret_leaf C LeafSecpKeypair (secret_child C (enc_u8 0) s)"

section \<open>Distinct paths\<close>

lemma tag_lengths: "length CHILD_TAG = 28" "length LEAF_TAG = 27" "length ROOT_TAG = 27"
  by (simp_all add: CHILD_TAG_def LEAF_TAG_def ROOT_TAG_def ascii_def)

lemma leaf_path_inj [simp]: "enc_leaf_path p @ r = enc_leaf_path q @ r' \<longleftrightarrow> p = q \<and> r = r'"
  by (cases p; cases q) (auto simp: enc_append_inj [OF prefix_code_int])

lemma tag_append: "enc_vec enc_u8 xs @ r = enc_vec enc_u8 ys @ r' \<Longrightarrow> length xs < 2 ^ 32 \<Longrightarrow> length ys < 2 ^ 32 \<Longrightarrow> xs = ys \<and> r = r'"
  using ints_append_inj [of xs ys r r'] by (simp add: len_fits_def)

lemma child_leaf_bytes [simp]: "child_bytes p s \<noteq> leaf_bytes q s'"
  using tag_append [of CHILD_TAG _ LEAF_TAG] tag_lengths
  by (fastforce simp: child_bytes_def leaf_bytes_def)

lemma leaf_bytes_inj: "leaf_bytes p s = leaf_bytes q s' \<longleftrightarrow> p = q \<and> s = s'"
  using hashc.enc_inj [of s s'] by (auto simp: leaf_bytes_def)

lemma child_bytes_inj: "child_bytes p s = child_bytes q s' \<longleftrightarrow> p = q \<and> s = s'"
proof
  assume "child_bytes p s = child_bytes q s'"
  then have e: "p @ enc_hash s = q @ enc_hash s'" by (simp add: child_bytes_def)
  then have "length p + length (enc_hash s) = length q + length (enc_hash s')" by (metis length_append)
  then have "length p = length q" by (simp add: enc_hash_def)
  with e show "p = q \<and> s = s'" using hashc.enc_inj [of s s'] by simp
qed simp

text \<open>What is hashed on the way to the key of a note.\<close>

inductive_set note_preimages :: "crypto \<Rightarrow> hash256 \<Rightarrow> bytes set" for C s where
  "child_bytes (enc_account a) s \<in> note_preimages C s"
| "child_bytes (enc_ecash_path p) (secret_child C (enc_account a) s) \<in> note_preimages C s"
| "child_bytes (enc_u64 c) (secret_child C (enc_ecash_path p) (secret_child C (enc_account a) s)) \<in> note_preimages C s"
| "leaf_bytes LeafSecpKeypair (note_secret C p a c s) \<in> note_preimages C s"
| "leaf_bytes LeafBlsScalar (note_secret C p a c s) \<in> note_preimages C s"

lemmas note_preimages_mem = note_preimages.intros

lemma account_bytes_inj: "enc_account a = enc_account b \<longleftrightarrow> a = b"
  using u8c.enc_inj [of "account_index a" "account_index b"] by (auto simp: enc_account_def)

lemma ecash_path_inj: "enc_ecash_path p = enc_ecash_path q \<longleftrightarrow> p = q"
  using u8c.enc_inj [of 0 1] u8c.enc_inj [of 1 0] by (cases p; cases q) auto

lemma counter_bytes_inj: "enc_u64 c = enc_u64 d \<longleftrightarrow> c = d"
  using u64c.enc_inj [of c d] by auto

lemma note_secret_inj:
  assumes inj: "inj_on (sha256 C) (note_preimages C s)" and e: "note_secret C p a c s = note_secret C q b d s"
  shows "p = q \<and> a = b \<and> c = d"
proof -
  note D = inj_onD [OF inj]
  have 1: "child_bytes (enc_u64 c) (secret_child C (enc_ecash_path p) (secret_child C (enc_account a) s)) =
      child_bytes (enc_u64 d) (secret_child C (enc_ecash_path q) (secret_child C (enc_account b) s))"
    by (rule D) (use e in \<open>simp add: note_secret_def secret_child_def\<close>, (rule note_preimages_mem)+)
  then have c: "c = d" and e1: "secret_child C (enc_ecash_path p) (secret_child C (enc_account a) s) =
      secret_child C (enc_ecash_path q) (secret_child C (enc_account b) s)"
    by (simp_all add: child_bytes_inj counter_bytes_inj)
  have 2: "child_bytes (enc_ecash_path p) (secret_child C (enc_account a) s) =
      child_bytes (enc_ecash_path q) (secret_child C (enc_account b) s)"
    by (rule D) (use e1 in \<open>simp add: secret_child_def\<close>, (rule note_preimages_mem)+)
  then have p: "p = q" and e2: "secret_child C (enc_account a) s = secret_child C (enc_account b) s"
    by (simp_all add: child_bytes_inj ecash_path_inj)
  have "child_bytes (enc_account a) s = child_bytes (enc_account b) s"
    by (rule D) (use e2 in \<open>simp add: secret_child_def\<close>, (rule note_preimages_mem)+)
  then show ?thesis using c p by (simp add: child_bytes_inj account_bytes_inj)
qed

text \<open>Distinct accounts or counters have distinct nonces, and no blinding seed is a nonce key.\<close>

lemma note_keys_distinct:
  assumes inj: "inj_on (sha256 C) (note_preimages C s)"
  shows "note_nonce_keypair C a c s = note_nonce_keypair C b d s \<longleftrightarrow> a = b \<and> c = d"
    "note_blinding_seed C a c s = note_blinding_seed C b d s \<longleftrightarrow> a = b \<and> c = d"
    "note_nonce_keypair C a c s \<noteq> note_blinding_seed C b d s"
proof -
  have l: "sha256 C (leaf_bytes p (note_secret C x a c s)) = sha256 C (leaf_bytes q (note_secret C y b d s)) \<Longrightarrow>
      p = q \<and> note_secret C x a c s = note_secret C y b d s"
    if "p \<in> {LeafSecpKeypair, LeafBlsScalar}" "q \<in> {LeafSecpKeypair, LeafBlsScalar}" for p q x y a b c d
    using inj_onD [OF inj, of "leaf_bytes p (note_secret C x a c s)" "leaf_bytes q (note_secret C y b d s)"]
      note_preimages_mem(4,5) that by (auto simp: leaf_bytes_inj)
  show "note_nonce_keypair C a c s = note_nonce_keypair C b d s \<longleftrightarrow> a = b \<and> c = d"
    using l [of LeafSecpKeypair LeafSecpKeypair NoteNonce a c NoteNonce b d] note_secret_inj [OF inj, of NoteNonce a c NoteNonce b d]
    by (auto simp: note_nonce_keypair_def secret_leaf_def)
  show "note_blinding_seed C a c s = note_blinding_seed C b d s \<longleftrightarrow> a = b \<and> c = d"
    using l [of LeafBlsScalar LeafBlsScalar NoteBlinding a c NoteBlinding b d]
      note_secret_inj [OF inj, of NoteBlinding a c NoteBlinding b d]
    by (auto simp: note_blinding_seed_def secret_leaf_def)
  show "note_nonce_keypair C a c s \<noteq> note_blinding_seed C b d s"
    using l [of LeafSecpKeypair LeafBlsScalar NoteNonce a c NoteBlinding b d]
    by (auto simp: note_nonce_keypair_def note_blinding_seed_def secret_leaf_def)
qed

end
