(* ===== verification/Client_Wallet.thy ===== *)
theory Client_Wallet
  imports Client_Change Client_Secret Mint_Server "HOL-Library.Product_Lexorder"
begin

text \<open>
  The client's wallet (\<open>picomint-client/src/tx\<close>, \<open>ecash\<close>, \<open>eventlog.rs\<close>): building and funding
  transactions, the notes, counters and state machines in its database, and its event log. The
  tables are those of one mint: the code keys every one of them by the mint first.
\<close>

section \<open>The transaction builder\<close>

record client_input =
  ci_input :: wire_input
  ci_keypair :: hash256
  ci_amount :: amount
  ci_fee :: amount

record client_output =
  co_output :: wire_output
  co_amount :: amount
  co_fee :: amount

record tx_builder =
  tb_inputs :: "client_input list"
  tb_outputs :: "client_output list"

definition builder_new :: tx_builder where
  "builder_new = \<lparr>tb_inputs = [], tb_outputs = []\<rparr>"

definition from_input :: "client_input \<Rightarrow> tx_builder" where
  "from_input i = \<lparr>tb_inputs = [i], tb_outputs = []\<rparr>"

definition from_output :: "client_output \<Rightarrow> tx_builder" where
  "from_output x = \<lparr>tb_inputs = [], tb_outputs = [x]\<rparr>"

definition builder_add_input :: "client_input \<Rightarrow> tx_builder \<Rightarrow> tx_builder" where
  "builder_add_input i b = b\<lparr>tb_inputs := tb_inputs b @ [i]\<rparr>"

definition builder_add_output :: "client_output \<Rightarrow> tx_builder \<Rightarrow> tx_builder" where
  "builder_add_output x b = b\<lparr>tb_outputs := tb_outputs b @ [x]\<rparr>"

definition input_amount :: "tx_builder \<Rightarrow> amount" where
  "input_amount b = amount_sum (map ci_amount (tb_inputs b))"

definition output_amount :: "tx_builder \<Rightarrow> amount" where
  "output_amount b = amount_sum (map co_amount (tb_outputs b))"

definition total_fee :: "tx_builder \<Rightarrow> amount" where
  "total_fee b = amount_add (amount_sum (map ci_fee (tb_inputs b))) (amount_sum (map co_fee (tb_outputs b)))"

definition deficit :: "tx_builder \<Rightarrow> amount" where
  "deficit b = amount_saturating_sub (amount_add (output_amount b) (total_fee b)) (input_amount b)"

definition excess_input :: "tx_builder \<Rightarrow> amount" where
  "excess_input b = amount_saturating_sub (input_amount b) (amount_add (output_amount b) (total_fee b))"

definition schnorr_of_bytes :: "bytes \<Rightarrow> schnorr_sig" where
  "schnorr_of_bytes bs = of_nat (be_value bs)"

text \<open>\<open>None\<close> is a failed assertion.\<close>

definition builder_build :: "crypto \<Rightarrow> tx_builder \<Rightarrow> transaction option" where
  "builder_build C b =
     (if tb_inputs b = [] \<or> tb_outputs b = [] then None
      else
        (let tx = \<lparr>tx_inputs = map ci_input (tb_inputs b), tx_outputs = map co_output (tb_outputs b), tx_signatures = []\<rparr>;
             txid = compute_tx_id C tx
         in Some (tx\<lparr>tx_signatures :=
              map (\<lambda>i. schnorr_of_bytes (sign_schnorr C (enc_hash (ci_keypair i)) txid)) (tb_inputs b)\<rparr>)))"

section \<open>The event log\<close>

text \<open>
  The events of the modules, of which the onchain ones name an address by its script. An entry has its kind and payload in one
  constructor; its wall-clock time stamp is left out.
\<close>

datatype client_event =
    TxCreateEvent hash256 amount amount
  | TxAcceptEvent hash256
  | TxRejectEvent hash256 string
  | SendEvent amount
  | SendSuccessEvent "spendable_note list"
  | SendFailureEvent
  | ReissuanceEvent hash256
  | ReceiveEvent hash256 amount
  | IssuanceSuccessEvent hash256 amount
  | IssuanceFailureEvent
  | LightningSendEvent hash256 amount amount
  | LightningSendSuccessEvent hash256
  | LightningSendRefundEvent hash256
  | LightningReceiveEvent hash256 hash256 amount amount
  | OnchainSendEvent hash256 script sats sats
  | OnchainSendSuccessEvent hash256
  | OnchainSendFailureEvent
  | OnchainReceiveEvent hash256 script sats sats
  | GatewaySendEvent out_point amount amount
  | GatewaySendSuccessEvent hash256 hash256 amount
  | GatewaySendCancelEvent schnorr_sig
  | GatewayReceiveEvent hash256 amount amount

record event_entry =
  ee_event :: client_event
  ee_account :: account
  ee_operation :: hash256

section \<open>The database\<close>

record note_issuance =
  ni_account :: account
  ni_counter :: u64
  ni_keypair :: hash256
  ni_blinding :: scalar

record issuance_request =
  ir_denomination :: u8
  ir_issuance :: note_issuance

record ecash_sm =
  es_account :: account
  es_operation :: hash256
  es_txid :: hash256
  es_notes :: "spendable_note list"
  es_requests :: "issuance_request list"
  es_targets :: u64

record tx_sm =
  ts_account :: account
  ts_operation :: hash256
  ts_tx :: transaction

type_synonym sm_id = "128 word"

record client_db =
  note_table :: "(account \<times> spendable_note) btset"
  derivation_counters :: "(account, u64) btmap"
  receive_operations :: "hash256 btset"
  ecash_sms :: "(sm_id, ecash_sm) btmap"
  tx_sms :: "(sm_id, tx_sm) btmap"
  event_log :: "(u64, event_entry) btmap"
  operation_log :: "(hash256 \<times> u64, event_entry) btmap"

text \<open>\<open>insert_new\<close> panics on an existing row.\<close>

definition insert_new :: "'k::linorder \<Rightarrow> 'v \<Rightarrow> ('k, 'v) btmap \<Rightarrow> ('k, 'v) btmap option" where
  "insert_new k v m = (if bt_has m k then None else Some (bt_insert k v m))"

definition next_event_id :: "client_db \<Rightarrow> u64" where
  "next_event_id db = (case bt_last (event_log db) of None \<Rightarrow> 0 | Some (k, v) \<Rightarrow> k + 1)"

definition log_event :: "account \<Rightarrow> hash256 \<Rightarrow> client_event \<Rightarrow> client_db \<Rightarrow> client_db option" where
  "log_event a op ev db =
     (let e = \<lparr>ee_event = ev, ee_account = a, ee_operation = op\<rparr>; k = next_event_id db
      in Option.bind (insert_new k e (event_log db)) (\<lambda>l.
         Option.bind (insert_new (op, k) e (operation_log db)) (\<lambda>o'.
         Some (db\<lparr>event_log := l, operation_log := o'\<rparr>))))"

definition get_event_log :: "u64 \<Rightarrow> u64 \<Rightarrow> client_db \<Rightarrow> (u64 \<times> event_entry) list" where
  "get_event_log pos limit db = bt_range pos (saturating_add pos limit) (event_log db)"

definition read_operation_events :: "hash256 \<Rightarrow> client_db \<Rightarrow> event_entry list" where
  "read_operation_events op db = map snd (filter (\<lambda>e. fst (fst e) = op) (entries (operation_log db)))"

text \<open>One batch of a subscription that has yielded every event below \<open>next\<close>, and where it goes on.\<close>

definition operation_batch :: "hash256 \<Rightarrow> u64 \<Rightarrow> client_db \<Rightarrow> event_entry list \<times> u64" where
  "operation_batch op next_id db =
     (let batch = map (\<lambda>(k, e). (snd k, e)) (bt_range (op, next_id) (op, - 1) (operation_log db))
      in (map snd batch, if batch = [] then next_id else fst (last batch) + 1))"

text \<open>What \<open>await_tx_accepted\<close> reads off the events of an operation; \<open>None\<close> while it waits.\<close>

fun tx_verdict :: "hash256 \<Rightarrow> event_entry list \<Rightarrow> (string + unit) option" where
  "tx_verdict txid [] = None"
| "tx_verdict txid (e # es) =
     (case ee_event e of
        TxAcceptEvent t \<Rightarrow> if t = txid then Some (Inr ()) else tx_verdict txid es
      | TxRejectEvent t err \<Rightarrow> if t = txid then Some (Inl err) else tx_verdict txid es
      | _ \<Rightarrow> tx_verdict txid es)"

section \<open>Notes and counters\<close>

definition account_notes :: "account \<Rightarrow> client_db \<Rightarrow> spendable_note list" where
  "account_notes a db = map (snd \<circ> fst) (filter (\<lambda>e. fst (fst e) = a) (entries (note_table db)))"

definition balance :: "account \<Rightarrow> client_db \<Rightarrow> amount" where
  "balance a db = amount_sum (map note_amount (account_notes a db))"

fun count_denominations :: "spendable_note list \<Rightarrow> (u8, u64) btmap \<Rightarrow> (u8, u64) btmap" where
  "count_denominations [] acc = acc"
| "count_denominations (n # ns) acc =
     count_denominations ns
       (bt_insert (sn_denomination n)
          (case bt_get acc (sn_denomination n) of None \<Rightarrow> 1 | Some c \<Rightarrow> c + 1) acc)"

definition ecash_count :: "account \<Rightarrow> client_db \<Rightarrow> (u8, u64) btmap" where
  "ecash_count a db = count_denominations (account_notes a db) bt_empty"

text \<open>\<open>None\<close>: the note to remove is not there.\<close>

definition remove_note :: "account \<Rightarrow> spendable_note \<Rightarrow> client_db \<Rightarrow> client_db option" where
  "remove_note a n db =
     (if bt_has (note_table db) (a, n) then Some (db\<lparr>note_table := bt_remove (a, n) (note_table db)\<rparr>) else None)"

fun remove_notes :: "account \<Rightarrow> spendable_note list \<Rightarrow> client_db \<Rightarrow> client_db option" where
  "remove_notes a [] db = Some db"
| "remove_notes a (n # ns) db = Option.bind (remove_note a n db) (remove_notes a ns)"

definition insert_note :: "account \<Rightarrow> spendable_note \<Rightarrow> client_db \<Rightarrow> client_db option" where
  "insert_note a n db = map_option (\<lambda>t. db\<lparr>note_table := t\<rparr>) (insert_new (a, n) () (note_table db))"

fun insert_notes :: "(account \<times> spendable_note) list \<Rightarrow> client_db \<Rightarrow> client_db option" where
  "insert_notes [] db = Some db"
| "insert_notes ((a, n) # ns) db = Option.bind (insert_note a n db) (insert_notes ns)"

definition next_counter :: "account \<Rightarrow> client_db \<Rightarrow> u64 \<times> client_db" where
  "next_counter a db =
     (let c = (case bt_get (derivation_counters db) a of None \<Rightarrow> 0 | Some c \<Rightarrow> c)
      in (c, db\<lparr>derivation_counters := bt_insert a (c + 1) (derivation_counters db)\<rparr>))"

end
