(* ===== verification/Client_Ecash.thy ===== *)
theory Client_Ecash
  imports Client_Wallet
begin

text \<open>
  The ecash module of the client (\<open>picomint-client/src/ecash\<close>): funding and submitting a transaction,
  the state machine that settles it, sending, receiving and restoring notes.
\<close>

section \<open>Context\<close>

text \<open>
  The operations of foreign code the module calls, and a mint's context: its id, the mint's public
  keys and the secret of the module.
\<close>

record client_ops =
  ccrypto :: crypto
  ctbs :: tbs_ops
  x_only_public_key :: "hash256 \<Rightarrow> xonly"
  blind_nonce :: "384 word \<Rightarrow> scalar \<Rightarrow> blinded_nonce"
  unblind_signature :: "scalar \<Rightarrow> tbs_share \<Rightarrow> tbs_sig"
  aggregate_shares :: "(u64, tbs_share) btmap \<Rightarrow> tbs_share"
  verify_share :: "blinded_nonce \<Rightarrow> tbs_share \<Rightarrow> tbs_agg_pk \<Rightarrow> bool"
  bls_scalar :: "hash256 \<Rightarrow> scalar"

record client_ctx =
  ctx_ops :: client_ops
  ctx_mint :: hash256
  ctx_ecash_secret :: hash256
  ctx_agg_pks :: "(u8, tbs_agg_pk) btmap"
  ctx_pks :: "(u8, (node_id, tbs_agg_pk) btmap) btmap"

definition note_of :: "client_ops \<Rightarrow> spendable_note \<Rightarrow> ecash_note" where
  "note_of K n = \<lparr>denomination = sn_denomination n, nonce = x_only_public_key K (sn_keypair n), note_sig = sn_signature n\<rparr>"

section \<open>Issuance\<close>

definition issuance_new :: "client_ctx \<Rightarrow> account \<Rightarrow> u64 \<Rightarrow> note_issuance" where
  "issuance_new X a counter =
     (let C = ccrypto (ctx_ops X); s = ctx_ecash_secret X
      in \<lparr>ni_account = a, ni_counter = counter, ni_keypair = note_nonce_keypair C a counter s,
          ni_blinding = bls_scalar (ctx_ops X) (note_blinding_seed C a counter s)\<rparr>)"

definition issuance_nonce :: "client_ops \<Rightarrow> note_issuance \<Rightarrow> xonly" where
  "issuance_nonce K i = x_only_public_key K (ni_keypair i)"

definition blinded_nonce_of :: "client_ops \<Rightarrow> note_issuance \<Rightarrow> blinded_nonce" where
  "blinded_nonce_of K i = blind_nonce K (nonce_from_public_key (ctbs K) (issuance_nonce K i)) (ni_blinding i)"

definition request_new :: "client_ctx \<Rightarrow> account \<Rightarrow> u8 \<Rightarrow> u64 \<Rightarrow> issuance_request" where
  "request_new X a d counter = \<lparr>ir_denomination = d, ir_issuance = issuance_new X a counter\<rparr>"

definition request_output :: "client_ops \<Rightarrow> issuance_request \<Rightarrow> ecash_output" where
  "request_output K r = EcashOutput (ir_denomination r) (blinded_nonce_of K (ir_issuance r))"

definition finalize_note :: "client_ops \<Rightarrow> issuance_request \<Rightarrow> tbs_share \<Rightarrow> spendable_note" where
  "finalize_note K r s =
     SpendableNote (ir_denomination r) (ni_keypair (ir_issuance r)) (unblind_signature K (ni_blinding (ir_issuance r)) s)"

fun issue_requests :: "client_ctx \<Rightarrow> account \<Rightarrow> u8 list \<Rightarrow> client_db \<Rightarrow> issuance_request list \<times> client_db" where
  "issue_requests X a [] db = ([], db)"
| "issue_requests X a (d # ds) db =
     (let (c, db1) = next_counter a db; (rs, db2) = issue_requests X a ds db1
      in (request_new X a d c # rs, db2))"

section \<open>Funding\<close>

definition note_input :: "client_ops \<Rightarrow> spendable_note \<Rightarrow> client_input" where
  "note_input K n =
     \<lparr>ci_input = EcashIn (EcashInput (note_of K n)), ci_keypair = sn_keypair n, ci_amount = note_amount n,
      ci_fee = ECASH_INPUT_FEE\<rparr>"

definition request_client_output :: "client_ops \<Rightarrow> issuance_request \<Rightarrow> client_output" where
  "request_client_output K r =
     \<lparr>co_output = EcashOut (request_output K r), co_amount = denomination_amount (ir_denomination r),
      co_fee = ECASH_OUTPUT_FEE\<rparr>"

text \<open>\<open>Failed ()\<close> is the code's \<open>None\<close>: nothing has been written.\<close>

definition fund ::
  "client_ctx \<Rightarrow> account \<Rightarrow> bool \<Rightarrow> tx_builder \<Rightarrow> client_db \<Rightarrow>
   (unit, spendable_note list \<times> issuance_request list \<times> tx_builder \<times> client_db) outcome" where
  "fund X a mx b db =
     (let K = ctx_ops X in
      obind (select_funding_input (account_notes a db) (deficit b)) (\<lambda>selected.
      let notes = sort_key sn_denomination selected;
          b1 = fold builder_add_input (map (note_input K) notes) b
      in obind (assert_that (deficit b1 = amount_zero)) (\<lambda>_.
         obind (expect (select_output_denominations ECASH_OUTPUT_FEE (excess_input b1) (change_denominations mx))) (\<lambda>ds.
         if ds = [] \<and> tb_outputs b1 = [] then Failed ()
         else obind (expect (remove_notes a notes db)) (\<lambda>db1.
           let (rs, db2) = issue_requests X a (sort ds) db1;
               b2 = fold builder_add_output (map (request_client_output K) rs) b1
           in obind (assert_that (deficit b2 = amount_zero)) (\<lambda>_. Done (notes, rs, b2, db2)))))))"

text \<open>\<open>add_state_machine_dbtx\<close>, with the random id it draws.\<close>

definition add_tx_sm :: "sm_id \<Rightarrow> tx_sm \<Rightarrow> client_db \<Rightarrow> client_db option" where
  "add_tx_sm k sm db = map_option (\<lambda>t. db\<lparr>tx_sms := t\<rparr>) (insert_new k sm (tx_sms db))"

definition add_ecash_sm :: "sm_id \<Rightarrow> ecash_sm \<Rightarrow> client_db \<Rightarrow> client_db option" where
  "add_ecash_sm k sm db = map_option (\<lambda>t. db\<lparr>ecash_sms := t\<rparr>) (insert_new k sm (ecash_sms db))"

definition submit ::
  "client_ctx \<Rightarrow> sm_id \<Rightarrow> account \<Rightarrow> hash256 \<Rightarrow> tx_builder \<Rightarrow> amount \<Rightarrow> (hash256 \<Rightarrow> client_event) \<Rightarrow> client_db \<Rightarrow>
   (hash256 \<times> client_db) option" where
  "submit X k a op b reissue event db =
     (let C = ccrypto (ctx_ops X) in
      Option.bind (builder_build C b) (\<lambda>tx.
      let txid = compute_tx_id C tx in
      Option.bind (add_tx_sm k \<lparr>ts_account = a, ts_operation = op, ts_tx = tx\<rparr> db) (\<lambda>db1.
      Option.bind (log_event a op (event txid) db1) (\<lambda>db2.
      Option.bind (log_event a op (TxCreateEvent txid reissue (total_fee b)) db2) (\<lambda>db3.
      Some (txid, db3))))))"

definition finalize_and_submit_tx ::
  "client_ctx \<Rightarrow> sm_id \<Rightarrow> sm_id \<Rightarrow> account \<Rightarrow> hash256 \<Rightarrow> tx_builder \<Rightarrow> issuance_request list \<Rightarrow> bool \<Rightarrow>
   (hash256 \<Rightarrow> client_event) \<Rightarrow> client_db \<Rightarrow> (unit, hash256 \<times> client_db) outcome" where
  "finalize_and_submit_tx X k k' a op b targets mx event db =
     obind (fund X a mx b db) (\<lambda>(notes, change, b2, db1).
     let requests = targets @ change;
         reissue = amount_saturating_sub (amount_sum (map note_amount notes)) (deficit b)
     in obind (expect (submit X k a op b2 reissue event db1)) (\<lambda>(txid, db2).
        if notes = [] \<and> requests = [] then Done (txid, db2)
        else obind (expect (add_ecash_sm k'
            \<lparr>es_account = a, es_operation = op, es_txid = txid, es_notes = notes, es_requests = requests,
             es_targets = of_nat (length targets)\<rparr> db2)) (\<lambda>db3. Done (txid, db3))))"

section \<open>Settling\<close>

datatype issuance_outcome = IssuanceRejected | Issued "(account \<times> spendable_note) list" | IssuanceInvalid

text \<open>
  The shares of every node, in the order of the requests, checked before they are used; \<open>None\<close> is a
  missing key or an index out of range.
\<close>

fun verify_shares :: "client_ctx \<Rightarrow> node_id \<Rightarrow> (issuance_request \<times> tbs_share) list \<Rightarrow> bool option" where
  "verify_shares X p [] = Some True"
| "verify_shares X p ((r, s) # xs) =
     Option.bind (bt_get (ctx_pks X) (ir_denomination r)) (\<lambda>keys.
     Option.bind (bt_get keys p) (\<lambda>key.
     if verify_share (ctx_ops X) (blinded_nonce_of (ctx_ops X) (ir_issuance r)) s key then verify_shares X p xs
     else Some False))"

definition verify_blind_shares :: "client_ctx \<Rightarrow> node_id \<Rightarrow> tbs_share list \<Rightarrow> issuance_request list \<Rightarrow> bool option" where
  "verify_blind_shares X p shares requests =
     (if length shares \<noteq> length requests then Some False else verify_shares X p (zip requests shares))"

definition share_column :: "(node_id \<times> tbs_share list) list \<Rightarrow> nat \<Rightarrow> (u64, tbs_share) btmap option" where
  "share_column shares i =
     map_option bt_of_list (option_seq (map (\<lambda>(p, ss). map_option (Pair (node_u64 p)) (nth_opt ss i)) shares))"

text \<open>One note per request, verified against the mint's key; \<open>Inl ()\<close> when one does not verify.\<close>

fun issue_notes ::
  "client_ctx \<Rightarrow> (node_id \<times> tbs_share list) list \<Rightarrow> nat \<Rightarrow> issuance_request list \<Rightarrow>
   (unit + (account \<times> spendable_note) list) option" where
  "issue_notes X shares i [] = Some (Inr [])"
| "issue_notes X shares i (r # rs) =
     Option.bind (share_column shares i) (\<lambda>col.
     let n = finalize_note (ctx_ops X) r (aggregate_shares (ctx_ops X) col) in
     Option.bind (bt_get (ctx_agg_pks X) (ir_denomination r)) (\<lambda>pk.
     if \<not> verify_note (ctbs (ctx_ops X)) (note_of (ctx_ops X) n) pk then Some (Inl ())
     else map_option (map_sum id ((#) (ni_account (ir_issuance r), n))) (issue_notes X shares (i + 1) rs)))"

text \<open>The outcome of the trigger, from the mint's verdict and the nodes' shares.\<close>

definition issuance_outcome_of ::
  "client_ctx \<Rightarrow> ecash_sm \<Rightarrow> bool \<Rightarrow> (node_id \<times> tbs_share list) list \<Rightarrow> issuance_outcome option" where
  "issuance_outcome_of X sm accepted shares =
     (if \<not> accepted then Some IssuanceRejected
      else if es_requests sm = [] then Some (Issued [])
      else map_option (case_sum (\<lambda>_. IssuanceInvalid) Issued) (issue_notes X shares 0 (es_requests sm)))"

definition ecash_transition :: "ecash_sm \<Rightarrow> issuance_outcome \<Rightarrow> client_db \<Rightarrow> client_db option" where
  "ecash_transition sm out db =
     (let a = es_account sm; op = es_operation sm;
          failure = (\<lambda>db. if 0 < es_targets sm then log_event a op SendFailureEvent db else Some db)
      in case out of
           IssuanceRejected \<Rightarrow> Option.bind (insert_notes (map (Pair a) (es_notes sm)) db) failure
         | IssuanceInvalid \<Rightarrow> Option.bind (log_event a op IssuanceFailureEvent db) failure
         | Issued notes \<Rightarrow>
             if notes = [] then Some db
             else if length notes < unat (es_targets sm) then None
             else
               (let ours = amount_sum (map (note_amount \<circ> snd) (filter (\<lambda>e. fst e = a) notes));
                    bundle = take (unat (es_targets sm)) notes
                in Option.bind (insert_notes (drop (unat (es_targets sm)) notes) db) (\<lambda>db1.
                   Option.bind (log_event a op (IssuanceSuccessEvent (es_txid sm) ours) db1) (\<lambda>db2.
                   if bundle = [] then Some db2
                   else log_event a op (SendSuccessEvent (map snd bundle)) db2))))"

text \<open>A turn of the driver: the transition and the removal of the row, in one transaction.\<close>

definition drive_ecash :: "sm_id \<Rightarrow> ecash_sm \<Rightarrow> issuance_outcome \<Rightarrow> client_db \<Rightarrow> client_db option" where
  "drive_ecash k sm out db =
     map_option (\<lambda>db1. db1\<lparr>ecash_sms := bt_remove k (ecash_sms db1)\<rparr>) (ecash_transition sm out db)"

definition tx_transition :: "crypto \<Rightarrow> tx_sm \<Rightarrow> (string + unit) \<Rightarrow> client_db \<Rightarrow> client_db option" where
  "tx_transition C sm out db =
     (let txid = compute_tx_id C (ts_tx sm)
      in log_event (ts_account sm) (ts_operation sm)
           (case out of Inr u \<Rightarrow> TxAcceptEvent txid | Inl e \<Rightarrow> TxRejectEvent txid e) db)"

definition drive_tx :: "crypto \<Rightarrow> sm_id \<Rightarrow> tx_sm \<Rightarrow> (string + unit) \<Rightarrow> client_db \<Rightarrow> client_db option" where
  "drive_tx C k sm out db =
     map_option (\<lambda>db1. db1\<lparr>tx_sms := bt_remove k (tx_sms db1)\<rparr>) (tx_transition C sm out db)"

section \<open>Sending and receiving\<close>

definition send_ecash_notes :: "account \<Rightarrow> amount \<Rightarrow> client_db \<Rightarrow> (unit, spendable_note list \<times> client_db) outcome" where
  "send_ecash_notes a amt db =
     obind (ok_or () (exact_notes (account_notes a db) amt)) (\<lambda>notes.
     obind (expect (remove_notes a notes db)) (\<lambda>db1. Done (notes, db1)))"

datatype send_error = Offline | InsufficientBalance | ReissuanceFailed | SendNotAdded

datatype receive_error =
  EmptyBundle | TooManyNotes | WrongMint | UneconomicalDenomination | InsufficientFunds | AlreadyAttempted | ReceiveNotAdded

text \<open>
  A send that the notes on hand make up returns the bundle at once; otherwise the wallet is
  handed to the mint for a reissuance, whose state machine logs the bundle. \<open>live\<close> is whether the
  mint answers.
\<close>

definition send_amount :: "amount \<Rightarrow> amount" where
  "send_amount amt = round_to_multiple amt (denomination_amount 9)"

definition ecash_send_fast ::
  "account \<Rightarrow> hash256 \<Rightarrow> amount \<Rightarrow> client_db \<Rightarrow> (unit, spendable_note list \<times> client_db) outcome" where
  "ecash_send_fast a op amt db =
     obind (send_ecash_notes a (send_amount amt) db) (\<lambda>(notes, db1).
     obind (expect (log_event a op (SendEvent (send_amount amt)) db1)) (\<lambda>db2.
     obind (expect (log_event a op (SendSuccessEvent notes) db2)) (\<lambda>db3. Done (notes, db3))))"

definition ecash_send_reissue ::
  "client_ctx \<Rightarrow> sm_id \<Rightarrow> sm_id \<Rightarrow> account \<Rightarrow> hash256 \<Rightarrow> bool \<Rightarrow> amount \<Rightarrow> client_db \<Rightarrow> (send_error, client_db) outcome" where
  "ecash_send_reissue X k k' a op live amt db =
     (if \<not> live then Failed Offline
      else
        (let (targets, db1) = issue_requests X a (represent_amount (send_amount amt)) db;
             b = fold builder_add_output (map (request_client_output (ctx_ops X)) targets) builder_new
         in obind (expect (log_event a op (SendEvent (send_amount amt)) db1)) (\<lambda>db2.
            obind (case finalize_and_submit_tx X k k' a op b targets False ReissuanceEvent db2 of
                     Done r \<Rightarrow> Done r | Failed u \<Rightarrow> Failed InsufficientBalance | Panicked \<Rightarrow> Panicked) (\<lambda>(txid, db3).
            Done db3))))"

definition ecash_send_max :: "account \<Rightarrow> hash256 \<Rightarrow> client_db \<Rightarrow> (unit, spendable_note list option \<times> client_db) outcome" where
  "ecash_send_max a op db =
     (let notes = account_notes a db
      in if notes = [] then Done (None, db)
         else obind (expect (remove_notes a notes db)) (\<lambda>db1.
           obind (expect (log_event a op (SendEvent (amount_sum (map note_amount notes))) db1)) (\<lambda>db2.
           obind (expect (log_event a op (SendSuccessEvent notes) db2)) (\<lambda>db3. Done (Some notes, db3)))))"

definition enc_spendable_note :: "spendable_note \<Rightarrow> bytes" where
  "enc_spendable_note n = enc_u8 (sn_denomination n) @ enc_hash (sn_keypair n) @ enc_int (sn_signature n)"

text \<open>The operation of a receive is the hash of the bundle.\<close>

definition bundle_operation :: "crypto \<Rightarrow> hash256 \<Rightarrow> spendable_note list \<Rightarrow> hash256" where
  "bundle_operation C mint notes = sha256 C (enc_hash mint @ enc_vec enc_spendable_note notes)"

definition ecash_receive ::
  "client_ctx \<Rightarrow> sm_id \<Rightarrow> sm_id \<Rightarrow> account \<Rightarrow> hash256 \<Rightarrow> spendable_note list \<Rightarrow> client_db \<Rightarrow>
   (receive_error, hash256 \<times> client_db) outcome" where
  "ecash_receive X k k' a mint notes db =
     (let op = bundle_operation (ccrypto (ctx_ops X)) mint notes
      in if notes = [] then Failed EmptyBundle
         else if MAX_INPUTS < length notes then Failed TooManyNotes
         else if mint \<noteq> ctx_mint X then Failed WrongMint
         else if \<not> list_all (\<lambda>n. ECASH_INPUT_FEE < note_amount n) notes then Failed UneconomicalDenomination
         else if bt_has (receive_operations db) op then Failed AlreadyAttempted
         else
           (let b = fold builder_add_input (map (note_input (ctx_ops X)) notes) builder_new;
                db1 = db\<lparr>receive_operations := bs_insert op (receive_operations db)\<rparr>;
                amt = amount_sum (map note_amount notes)
            in obind (case finalize_and_submit_tx X k k' a op b [] False (\<lambda>txid. ReceiveEvent txid amt) db1 of
                        Done r \<Rightarrow> Done r | Failed u \<Rightarrow> Failed InsufficientFunds | Panicked \<Rightarrow> Panicked) (\<lambda>(txid, db2).
               Done (op, db2))))"

section \<open>Restoring\<close>

definition RESTORE_BATCH :: nat where "RESTORE_BATCH = 500"

text \<open>
  The scan over an account's counters, batch by batch, until a batch turns up nothing; \<open>spent\<close> and
  \<open>signed_as\<close> are the mint's answers under threshold consensus.
\<close>

definition scan_batch ::
  "client_ctx \<Rightarrow> (xonly \<Rightarrow> bool) \<Rightarrow> (blinded_nonce \<Rightarrow> u8 option) \<Rightarrow> account \<Rightarrow> u64 \<Rightarrow> bool \<times> issuance_request list" where
  "scan_batch X spent signed_as a counter =
     (let K = ctx_ops X;
          candidates = map (\<lambda>i. issuance_new X a (counter + of_nat i)) [0..<RESTORE_BATCH];
          unspent = filter (\<lambda>c. \<not> spent (issuance_nonce K c)) candidates;
          denoms = map (\<lambda>c. signed_as (blinded_nonce_of K c)) unspent
      in (list_all (\<lambda>d. d = None) denoms \<and> list_all (\<lambda>c. \<not> spent (issuance_nonce K c)) candidates,
          List.map_filter (\<lambda>(c, d). map_option (\<lambda>d. \<lparr>ir_denomination = d, ir_issuance = c\<rparr>) d) (zip unspent denoms)))"

partial_function (option) scan_counters ::
  "client_ctx \<Rightarrow> (xonly \<Rightarrow> bool) \<Rightarrow> (blinded_nonce \<Rightarrow> u8 option) \<Rightarrow> account \<Rightarrow> u64 \<Rightarrow> issuance_request list \<Rightarrow>
   (u64 \<times> issuance_request list) option" where
  "scan_counters X spent signed_as a counter found =
     (let (empty, requests) = scan_batch X spent signed_as a counter
      in if empty then Some (counter, found)
         else scan_counters X spent signed_as a (counter + of_nat RESTORE_BATCH) (found @ requests))"

text \<open>The notes of the candidates; \<open>Inl ()\<close> is the error when one does not verify.\<close>

definition scan_notes ::
  "client_ctx \<Rightarrow> (node_id \<times> tbs_share list) list \<Rightarrow> issuance_request list \<Rightarrow> (unit + spendable_note list) option" where
  "scan_notes X shares requests =
     (if requests = [] then Some (Inr []) else map_option (map_sum id (map snd)) (issue_notes X shares 0 requests))"

definition commit_scan :: "account \<Rightarrow> u64 \<Rightarrow> spendable_note list \<Rightarrow> client_db \<Rightarrow> client_db" where
  "commit_scan a counter notes db =
     db\<lparr>derivation_counters := bt_insert a counter (derivation_counters db),
        note_table := fold (\<lambda>n. bs_insert (a, n)) notes (note_table db)\<rparr>"

definition ecash_wipe_tables :: "client_db \<Rightarrow> client_db" where
  "ecash_wipe_tables db =
     db\<lparr>note_table := bt_empty, receive_operations := bt_empty, derivation_counters := bt_empty, ecash_sms := bt_empty\<rparr>"

definition tx_wipe_tables :: "client_db \<Rightarrow> client_db" where
  "tx_wipe_tables db = db\<lparr>tx_sms := bt_empty\<rparr>"

definition ecash_operation_is_active :: "hash256 \<Rightarrow> client_db \<Rightarrow> bool" where
  "ecash_operation_is_active op db \<longleftrightarrow> list_ex (\<lambda>sm. es_operation sm = op) (bt_values (ecash_sms db))"

definition tx_operation_is_active :: "hash256 \<Rightarrow> client_db \<Rightarrow> bool" where
  "tx_operation_is_active op db \<longleftrightarrow> list_ex (\<lambda>sm. ts_operation sm = op) (bt_values (tx_sms db))"

end
