(* ===== verification/Client_Funding.thy ===== *)
theory Client_Funding
  imports Client_Ecash
begin

text \<open>
  What funding a transaction does to the wallet: the notes it takes, the change it mints, the
  counters it burns, and that the transaction is balanced.
\<close>

section \<open>The note table\<close>

lemma account_notes_iff: "n \<in> set (account_notes a db) \<longleftrightarrow> bt_has (note_table db) (a, n)"
  by (force simp: account_notes_def bt_has_def bt_get_Some_iff)

lemma distinct_account_notes: "distinct (account_notes a db)"
proof -
  have "distinct (map fst (filter (\<lambda>e. fst (fst e) = a) (entries (note_table db))))"
    using distinct_entries [of "note_table db"] by (rule distinct_map_filter)
  then have "distinct (map snd (map fst (filter (\<lambda>e. fst (fst e) = a) (entries (note_table db)))))"
    by (rule distinct_map [THEN iffD2, OF conjI]) (auto simp: inj_on_def)
  then show ?thesis by (simp add: account_notes_def)
qed

text \<open>Every stored note has a denomination the client spends.\<close>

definition wallet_ok :: "client_db \<Rightarrow> bool" where
  "wallet_ok db \<longleftrightarrow> (\<forall>a n. bt_has (note_table db) (a, n) \<longrightarrow> sn_denomination n \<in> set client_denominations)"

lemma wallet_notes: "wallet_ok db \<Longrightarrow> client_notes (account_notes a db)"
  by (auto simp: wallet_ok_def client_notes_def list_all_iff account_notes_iff)

definition holds :: "client_db \<Rightarrow> account \<Rightarrow> spendable_note \<Rightarrow> bool" where
  "holds db a n \<longleftrightarrow> bt_has (note_table db) (a, n)"

lemma remove_notes_spec:
  "distinct ns \<Longrightarrow> \<forall>n \<in> set ns. holds db a n \<Longrightarrow>
   \<exists>t. remove_notes a ns db = Some (db\<lparr>note_table := t\<rparr>) \<and>
     (\<forall>c n. bt_has t (c, n) \<longleftrightarrow> holds db c n \<and> \<not> (c = a \<and> n \<in> set ns))"
proof (induction ns arbitrary: db)
  case Nil
  have "db = db\<lparr>note_table := note_table db\<rparr>" by simp
  then show ?case by (intro exI [of _ "note_table db"]) (simp add: holds_def)
next
  case (Cons n ns)
  let ?db = "db\<lparr>note_table := bt_remove (a, n) (note_table db)\<rparr>"
  have r: "remove_note a n db = Some ?db" using Cons.prems by (simp add: remove_note_def holds_def)
  have h: "holds ?db c m \<longleftrightarrow> holds db c m \<and> \<not> (c = a \<and> m = n)" for c m
    by (auto simp: holds_def bt_has_def)
  have "\<exists>t. remove_notes a ns ?db = Some (?db\<lparr>note_table := t\<rparr>) \<and>
      (\<forall>c m. bt_has t (c, m) \<longleftrightarrow> holds ?db c m \<and> \<not> (c = a \<and> m \<in> set ns))"
    by (rule Cons.IH) (use Cons.prems h in auto)
  then obtain t where "remove_notes a ns ?db = Some (?db\<lparr>note_table := t\<rparr>)"
    "\<forall>c m. bt_has t (c, m) \<longleftrightarrow> holds ?db c m \<and> \<not> (c = a \<and> m \<in> set ns)" by blast
  then show ?case using r h by (intro exI [of _ t]) auto
qed

lemma insert_notes_spec:
  "distinct xs \<Longrightarrow> \<forall>(a, n) \<in> set xs. \<not> holds db a n \<Longrightarrow>
   \<exists>t. insert_notes xs db = Some (db\<lparr>note_table := t\<rparr>) \<and>
     (\<forall>c n. bt_has t (c, n) \<longleftrightarrow> holds db c n \<or> (c, n) \<in> set xs)"
proof (induction xs arbitrary: db)
  case Nil
  have "db = db\<lparr>note_table := note_table db\<rparr>" by simp
  then show ?case by (intro exI [of _ "note_table db"]) (simp add: holds_def)
next
  case (Cons x xs)
  obtain a n where x: "x = (a, n)" by fastforce
  let ?db = "db\<lparr>note_table := bt_insert (a, n) () (note_table db)\<rparr>"
  have r: "insert_note a n db = Some ?db" using Cons.prems x by (simp add: insert_note_def insert_new_def holds_def)
  have h: "holds ?db c m \<longleftrightarrow> holds db c m \<or> (c = a \<and> m = n)" for c m
    by (auto simp: holds_def bt_has_def)
  have "\<exists>t. insert_notes xs ?db = Some (?db\<lparr>note_table := t\<rparr>) \<and>
      (\<forall>c m. bt_has t (c, m) \<longleftrightarrow> holds ?db c m \<or> (c, m) \<in> set xs)"
    by (rule Cons.IH) (use Cons.prems h x in auto)
  then obtain t where "insert_notes xs ?db = Some (?db\<lparr>note_table := t\<rparr>)"
    "\<forall>c m. bt_has t (c, m) \<longleftrightarrow> holds ?db c m \<or> (c, m) \<in> set xs" by blast
  then show ?case using r h x by (intro exI [of _ t]) auto
qed

section \<open>Counters\<close>

definition counter_of :: "account \<Rightarrow> client_db \<Rightarrow> u64" where
  "counter_of a db = (case bt_get (derivation_counters db) a of None \<Rightarrow> 0 | Some c \<Rightarrow> c)"

lemma issue_requests_spec:
  "issue_requests X a ds db = (rs, db') \<Longrightarrow>
   \<exists>cs. rs = map (\<lambda>(d, i). request_new X a d (counter_of a db + of_nat i)) (zip ds [0..<length ds]) \<and>
     db' = db\<lparr>derivation_counters := cs\<rparr> \<and>
     (\<forall>c. c \<noteq> a \<longrightarrow> bt_get cs c = bt_get (derivation_counters db) c) \<and>
     counter_of a db' = counter_of a db + of_nat (length ds)"
proof (induction ds arbitrary: db rs)
  case Nil
  then have "db' = db\<lparr>derivation_counters := derivation_counters db\<rparr>" by simp
  with Nil show ?case by (intro exI [of _ "derivation_counters db"]) auto
next
  case (Cons d ds)
  let ?db1 = "db\<lparr>derivation_counters := bt_insert a (counter_of a db + 1) (derivation_counters db)\<rparr>"
  have n: "next_counter a db = (counter_of a db, ?db1)" by (simp add: next_counter_def counter_of_def Let_def)
  have c1: "counter_of a ?db1 = counter_of a db + 1" by (simp add: counter_of_def)
  from Cons.prems n obtain rs' where i: "issue_requests X a ds ?db1 = (rs', db')"
    and rs: "rs = request_new X a d (counter_of a db) # rs'" by (auto split: prod.splits)
  from Cons.IH [OF i] obtain cs where
    rs': "rs' = map (\<lambda>(d, i). request_new X a d (counter_of a ?db1 + of_nat i)) (zip ds [0..<length ds])"
    and db': "db' = ?db1\<lparr>derivation_counters := cs\<rparr>"
    and cs: "\<forall>c. c \<noteq> a \<longrightarrow> bt_get cs c = bt_get (derivation_counters ?db1) c"
    "counter_of a db' = counter_of a ?db1 + of_nat (length ds)" by blast
  have z: "zip (d # ds) [0..<length (d # ds)] = (d, 0) # map (\<lambda>(d, i). (d, Suc i)) (zip ds [0..<length ds])"
    by (simp add: upt_conv_Cons zip_map2 [symmetric] map_Suc_upt del: upt_Suc)
  have "rs = map (\<lambda>(d, i). request_new X a d (counter_of a db + of_nat i)) (zip (d # ds) [0..<length (d # ds)])"
    unfolding z rs rs' c1 by (simp add: case_prod_unfold comp_def add.assoc)
  moreover have "db' = db\<lparr>derivation_counters := cs\<rparr>" using db' by simp
  moreover have "\<forall>c. c \<noteq> a \<longrightarrow> bt_get cs c = bt_get (derivation_counters db) c" using cs(1) by simp
  moreover have "counter_of a db' = counter_of a db + of_nat (length (d # ds))" using cs(2) c1 by (simp add: add.assoc)
  ultimately show ?case by blast
qed

section \<open>Balance\<close>

definition in_nat :: "tx_builder \<Rightarrow> nat" where
  "in_nat b = sum_list (map (amount_nat \<circ> ci_amount) (tb_inputs b))"

definition out_nat :: "tx_builder \<Rightarrow> nat" where
  "out_nat b = sum_list (map (amount_nat \<circ> co_amount) (tb_outputs b))"

definition fee_nat :: "tx_builder \<Rightarrow> nat" where
  "fee_nat b = sum_list (map (amount_nat \<circ> ci_fee) (tb_inputs b)) + sum_list (map (amount_nat \<circ> co_fee) (tb_outputs b))"

definition in_range :: "tx_builder \<Rightarrow> bool" where
  "in_range b \<longleftrightarrow> in_nat b < 2 ^ 64 \<and> out_nat b + fee_nat b < 2 ^ 64"

lemma builder_amounts:
  assumes "in_range b"
  shows "amount_nat (input_amount b) = in_nat b" "amount_nat (amount_add (output_amount b) (total_fee b)) = out_nat b + fee_nat b"
proof -
  show "amount_nat (input_amount b) = in_nat b"
    using assms amount_sum_nat [of "map ci_amount (tb_inputs b)"] by (simp add: in_range_def in_nat_def input_amount_def comp_def)
  have f: "sum_list (map (amount_nat \<circ> ci_fee) (tb_inputs b)) + sum_list (map (amount_nat \<circ> co_fee) (tb_outputs b)) < 2 ^ 64"
    using assms by (simp add: in_range_def fee_nat_def)
  have fi: "amount_nat (amount_sum (map ci_fee (tb_inputs b))) = sum_list (map (amount_nat \<circ> ci_fee) (tb_inputs b))"
    using amount_sum_nat [of "map ci_fee (tb_inputs b)"] f by (simp add: comp_def)
  have fo: "amount_nat (amount_sum (map co_fee (tb_outputs b))) = sum_list (map (amount_nat \<circ> co_fee) (tb_outputs b))"
    using amount_sum_nat [of "map co_fee (tb_outputs b)"] f by (simp add: comp_def)
  have t: "amount_nat (total_fee b) = fee_nat b"
    unfolding total_fee_def using amount_add_nat fi fo f by (simp add: fee_nat_def)
  have o: "amount_nat (output_amount b) = out_nat b"
    using assms amount_sum_nat [of "map co_amount (tb_outputs b)"] by (simp add: in_range_def out_nat_def output_amount_def comp_def)
  show "amount_nat (amount_add (output_amount b) (total_fee b)) = out_nat b + fee_nat b"
    using amount_add_nat [of "output_amount b" "total_fee b"] o t assms by (simp add: in_range_def)
qed

lemma deficit_nat: "in_range b \<Longrightarrow> amount_nat (deficit b) = out_nat b + fee_nat b - in_nat b"
  by (simp add: deficit_def amount_saturating_sub_def unat_saturating_sub builder_amounts)

lemma excess_nat: "in_range b \<Longrightarrow> amount_nat (excess_input b) = in_nat b - (out_nat b + fee_nat b)"
  by (simp add: excess_input_def amount_saturating_sub_def unat_saturating_sub builder_amounts)

lemma amount_zero_iff: "a = amount_zero \<longleftrightarrow> amount_nat a = 0"
  by (cases a) (simp add: amount_zero_def unat_eq_zero)

lemma fold_add_input: "fold builder_add_input is b = b\<lparr>tb_inputs := tb_inputs b @ is\<rparr>"
  by (induction "is" arbitrary: b) (simp_all add: builder_add_input_def)

lemma fold_add_output: "fold builder_add_output xs b = b\<lparr>tb_outputs := tb_outputs b @ xs\<rparr>"
  by (induction xs arbitrary: b) (simp_all add: builder_add_output_def)

text \<open>What notes and requests add to a builder.\<close>

lemma note_inputs_nat:
  assumes "client_notes ns"
  shows "in_nat (fold builder_add_input (map (note_input K) ns) b) = in_nat b + face_value ns"
    "fee_nat (fold builder_add_input (map (note_input K) ns) b) = fee_nat b + 100 * length ns"
    "out_nat (fold builder_add_input (map (note_input K) ns) b) = out_nat b"
proof -
  have f: "sum_list (map (amount_nat \<circ> ci_amount) (map (note_input K) ns)) = face_value ns"
    using assms by (induction ns) (simp_all add: note_input_def note_amount_def face_value_def client_amount)
  have g: "sum_list (map (amount_nat \<circ> ci_fee) (map (note_input K) ns)) = 100 * length ns"
    by (induction ns) (simp_all add: note_input_def ECASH_INPUT_FEE_def)
  show "in_nat (fold builder_add_input (map (note_input K) ns) b) = in_nat b + face_value ns"
    using f by (simp add: fold_add_input in_nat_def)
  show "fee_nat (fold builder_add_input (map (note_input K) ns) b) = fee_nat b + 100 * length ns"
    using g by (simp add: fold_add_input fee_nat_def)
  show "out_nat (fold builder_add_input (map (note_input K) ns) b) = out_nat b" by (simp add: fold_add_input out_nat_def)
qed

lemma request_outputs_nat:
  assumes "set (map ir_denomination rs) \<subseteq> set client_denominations"
  shows "out_nat (fold builder_add_output (map (request_client_output K) rs) b) = out_nat b + denoms_value (map ir_denomination rs)"
    "fee_nat (fold builder_add_output (map (request_client_output K) rs) b) = fee_nat b + 100 * length rs"
    "in_nat (fold builder_add_output (map (request_client_output K) rs) b) = in_nat b"
proof -
  have f: "sum_list (map (amount_nat \<circ> co_amount) (map (request_client_output K) rs)) = denoms_value (map ir_denomination rs)"
    using assms by (induction rs) (simp_all add: request_client_output_def client_amount)
  have g: "sum_list (map (amount_nat \<circ> co_fee) (map (request_client_output K) rs)) = 100 * length rs"
    by (induction rs) (simp_all add: request_client_output_def ECASH_OUTPUT_FEE_def)
  show "out_nat (fold builder_add_output (map (request_client_output K) rs) b) = out_nat b + denoms_value (map ir_denomination rs)"
    using f by (simp add: fold_add_output out_nat_def)
  show "fee_nat (fold builder_add_output (map (request_client_output K) rs) b) = fee_nat b + 100 * length rs"
    using g by (simp add: fold_add_output fee_nat_def)
  show "in_nat (fold builder_add_output (map (request_client_output K) rs) b) = in_nat b" by (simp add: fold_add_output in_nat_def)
qed

lemma spend_face: "client_notes ns \<Longrightarrow> face_value ns = spend_value ns + 100 * length ns"
proof (induction ns)
  case (Cons n ns)
  with dval_bounds [of "sn_denomination n"] show ?case by (simp add: face_value_def)
qed (simp add: face_value_def)

lemma outputs_cost_value: "outputs_cost ds = denoms_value ds + 100 * length ds"
  by (induction ds) simp_all

lemma face_value_mset: "mset xs = mset ys \<Longrightarrow> face_value xs = face_value ys"
proof -
  have v: "face_value zs = sum_mset (image_mset note_nat (mset zs))" for zs
    by (simp only: face_value_def comp_def mset_map [symmetric] sum_mset_sum_list)
  assume "mset xs = mset ys"
  then show ?thesis by (simp only: v)
qed

section \<open>Funding\<close>

text \<open>The remainder change leaves to the mint: less than another output of the smallest tier costs.\<close>

definition dust_bound :: "bool \<Rightarrow> nat" where
  "dust_bound mx = dval (hd (change_denominations mx)) + 100"

lemma successively_upt_map: "(\<And>i. a \<le> i \<Longrightarrow> Suc i < b \<Longrightarrow> P (f i) (f (Suc i))) \<Longrightarrow> successively P (map f [a..<b])"
  by (auto simp: successively_conv_nth)

lemma client_tiers:
  "set (change_denominations mx) \<subseteq> set client_denominations" "change_denominations mx \<noteq> []"
  "dval (last (change_denominations mx)) = 2 ^ 41"
  "successively (\<lambda>a b. dval a = 2 * dval b) (rev (change_denominations mx))"
proof -
  let ?k = "if mx then 11 else 9"
  have c: "change_denominations mx = map of_nat [?k..<42]"
    unfolding change_denominations_def client_denominations_def by (simp only: drop_map drop_upt) simp
  show "set (change_denominations mx) \<subseteq> set client_denominations" by (auto simp: change_denominations_def dest: in_set_dropD)
  have l: "[?k..<42] \<noteq> []" "last [?k..<42] = 41" by (simp_all add: upt_rec)
  then show "change_denominations mx \<noteq> []" by (simp add: c)
  show "dval (last (change_denominations mx)) = 2 ^ 41" unfolding c using l by (simp add: last_map dval_def)
  have "dval (of_nat (Suc i)) = 2 * dval (of_nat i)" if "Suc i < 42" for i
    using that by (simp add: dval_def unat_of_nat del: of_nat_Suc)
  then show "successively (\<lambda>a b. dval a = 2 * dval b) (rev (change_denominations mx))"
    unfolding successively_rev c by (intro successively_upt_map) blast
qed

lemma change_spec:
  "\<exists>ds r. select_output_denominations ECASH_OUTPUT_FEE e (change_denominations mx) = Some ds \<and>
     set ds \<subseteq> set (change_denominations mx) \<and> amount_nat e = outputs_cost ds + r \<and> r < dust_bound mx \<and>
     (amount_nat e < 2 ^ 42 \<longrightarrow> distinct ds)"
proof -
  let ?ds = "rev (change_denominations mx)"
  note t = client_tiers [of mx]
  have s: "set ?ds \<subseteq> set client_denominations" using t(1) by simp
  have hd: "dval (hd ?ds) = 2 ^ 41" using t(2,3) by (simp add: hd_rev)
  from mint_tiers_spec [OF s, of e] obtain xs r where "mint_tiers ECASH_OUTPUT_FEE ?ds e = Some (xs, r)"
    "set xs \<subseteq> set ?ds" "amount_nat e = outputs_cost xs + amount_nat r" "amount_nat r < dval (last ?ds) + 100"
    "amount_nat e < 2 * dval (hd ?ds) + 100 \<longrightarrow> distinct xs"
    using t(2,4) by auto
  with t(2) hd show ?thesis by (auto simp: select_output_denominations_def dust_bound_def last_rev intro!: exI [of _ xs])
qed

definition funded ::
  "client_ctx \<Rightarrow> account \<Rightarrow> bool \<Rightarrow> tx_builder \<Rightarrow> client_db \<Rightarrow>
   spendable_note list \<Rightarrow> issuance_request list \<Rightarrow> tx_builder \<Rightarrow> client_db \<Rightarrow> bool" where
  "funded X a mx b db notes rs b' db' \<longleftrightarrow>
     distinct notes \<and> (\<forall>n \<in> set notes. holds db a n) \<and>
     (\<exists>t cs. db' = db\<lparr>note_table := t, derivation_counters := cs\<rparr>) \<and>
     (\<forall>c n. holds db' c n \<longleftrightarrow> holds db c n \<and> \<not> (c = a \<and> n \<in> set notes)) \<and>
     counter_of a db' = counter_of a db + of_nat (length rs) \<and>
     rs = map (\<lambda>(d, i). request_new X a d (counter_of a db + of_nat i)) (zip (map ir_denomination rs) [0..<length rs]) \<and>
     tb_inputs b' = tb_inputs b @ map (note_input (ctx_ops X)) notes \<and>
     tb_outputs b' = tb_outputs b @ map (request_client_output (ctx_ops X)) rs \<and> tb_outputs b' \<noteq> [] \<and>
     set (map ir_denomination rs) \<subseteq> set (change_denominations mx) \<and>
     (in_nat b' < 2 ^ 42 \<longrightarrow> distinct (map ir_denomination rs)) \<and>
     out_nat b' + fee_nat b' \<le> in_nat b' \<and> in_nat b' < out_nat b' + fee_nat b' + dust_bound mx"

text \<open>The room the 64-bit sums of a funding need.\<close>

definition funding_room :: "account \<Rightarrow> tx_builder \<Rightarrow> client_db \<Rightarrow> bool" where
  "funding_room a b db \<longleftrightarrow> in_nat b + out_nat b + fee_nat b + face_value (account_notes a db) < 2 ^ 64"

lemma face_value_mono:
  assumes "mset xs \<subseteq># mset ys"
  shows "face_value xs \<le> face_value ys"
proof -
  obtain zs where "mset zs = mset ys - mset xs" using ex_mset by blast
  then have "mset ys = mset (xs @ zs)" using assms by simp
  then have "face_value ys = face_value (xs @ zs)" by (rule face_value_mset)
  then show ?thesis by (simp add: face_value_def)
qed

text \<open>What the selected notes do to the builder.\<close>

lemma selected_builder:
  assumes c: "client_notes ns" and room: "in_nat b + out_nat b + fee_nat b + face_value ns < 2 ^ 64"
    and cover: "amount_nat (deficit b) \<le> spend_value ns"
  shows "let b1 = fold builder_add_input (map (note_input K) ns) b in in_range b1 \<and> out_nat b1 + fee_nat b1 \<le> in_nat b1 \<and> in_nat b1 = in_nat b + face_value ns \<and>
    out_nat b1 = out_nat b \<and> fee_nat b1 = fee_nat b + 100 * length ns"
proof -
  note s = note_inputs_nat [OF c, of K b]
  have f: "face_value ns = spend_value ns + 100 * length ns" using spend_face [OF c] .
  have "in_range b" using room by (simp add: in_range_def)
  then have "out_nat b + fee_nat b \<le> in_nat b + spend_value ns" using cover deficit_nat [of b] by simp
  then show ?thesis using s f room by (simp add: in_range_def Let_def)
qed

end
