(* ===== verification/Client_Log.thy ===== *)
theory Client_Log
  imports Client_Funding
begin

text \<open>
  Funding a transaction end to end: on a wallet of the client's own denominations it never panics,
  balances the transaction up to the dust, and takes only what it reports.

  The event log of the client: an event is appended under a fresh id, and never rewritten.
\<close>

lemma fund_change:
  assumes r: "in_range b1" and bal: "out_nat b1 + fee_nat b1 \<le> in_nat b1"
    and ds: "set ds \<subseteq> set client_denominations" "amount_nat (excess_input b1) = outputs_cost ds + r" "r < dust_bound mx"
    and rs: "map ir_denomination rs = sort ds"
  shows "let b2 = fold builder_add_output (map (request_client_output K) rs) b1
    in deficit b2 = amount_zero \<and> out_nat b2 + fee_nat b2 \<le> in_nat b2 \<and> in_nat b2 < out_nat b2 + fee_nat b2 + dust_bound mx"
proof -
  let ?b2 = "fold builder_add_output (map (request_client_output K) rs) b1"
  have d: "set (map ir_denomination rs) \<subseteq> set client_denominations" using ds(1) by (simp add: rs)
  have cost: "outputs_cost ds = denoms_value (map ir_denomination rs) + 100 * length rs"
  proof -
    have m: "mset (map ir_denomination rs) = mset ds" by (simp add: rs)
    have "outputs_cost xs = sum_mset (image_mset (\<lambda>d. dval d + 100) (mset xs))" for xs
      by (simp only: outputs_cost_def mset_map [symmetric] sum_mset_sum_list)
    then have "outputs_cost ds = outputs_cost (map ir_denomination rs)" by (simp only: m)
    then show ?thesis using outputs_cost_value [of "map ir_denomination rs"] by simp
  qed
  note s = request_outputs_nat [OF d, of K b1]
  have e: "in_nat b1 = out_nat b1 + fee_nat b1 + outputs_cost ds + r" using excess_nat [OF r] ds(2) bal by simp
  have "in_range ?b2" using s e cost r by (simp add: in_range_def)
  then have "deficit ?b2 = amount_zero" using s e cost by (simp add: amount_zero_iff deficit_nat)
  then show ?thesis using s e cost ds(3) by (simp add: Let_def)
qed

lemma spend_value_mono:
  assumes "mset xs \<subseteq># mset ys"
  shows "spend_value xs \<le> spend_value ys"
proof -
  obtain zs where "mset zs = mset ys - mset xs" using ex_mset by blast
  then have "mset ys = mset (xs @ zs)" using assms by simp
  then have "spend_value ys = spend_value (xs @ zs)" by (rule spend_value_mset)
  then show ?thesis by simp
qed

lemma submset_distinct:
  assumes "mset xs \<subseteq># mset ys" "distinct ys"
  shows "distinct xs"
proof -
  obtain zs where zs: "subseq zs ys" "mset zs = mset xs" using submset_subseq [OF assms(1)] by blast
  have "distinct zs" using zs(1) assms(2) by (auto simp: subseq_conv_nths intro: distinct_nthsI)
  then show ?thesis using mset_eq_imp_distinct_iff [OF zs(2)] by simp
qed

lemma sort_notes:
  assumes "mset sel \<subseteq># mset (account_notes a db)" and w: "wallet_ok db"
  shows "client_notes (sort_key sn_denomination sel)" "distinct (sort_key sn_denomination sel)"
    "\<forall>n \<in> set (sort_key sn_denomination sel). holds db a n" "mset (sort_key sn_denomination sel) = mset sel"
    "face_value (sort_key sn_denomination sel) \<le> face_value (account_notes a db)"
    "spend_value (sort_key sn_denomination sel) = spend_value sel"
proof -
  let ?s = "sort_key sn_denomination sel"
  show m: "mset ?s = mset sel" by simp
  then have s: "mset ?s \<subseteq># mset (account_notes a db)" using assms(1) by simp
  show "client_notes ?s" using client_notes_mset [OF s] wallet_notes [OF w] by simp
  show "face_value ?s \<le> face_value (account_notes a db)" using face_value_mono [OF s] .
  show "spend_value ?s = spend_value sel" using spend_value_mset [OF m] .
  show "\<forall>n \<in> set ?s. holds db a n"
    using set_mset_mono [OF s] account_notes_iff by (auto simp: holds_def)
  show "distinct ?s" using submset_distinct [OF s distinct_account_notes] .
qed

lemma fund_spec:
  assumes w: "wallet_ok db" and room: "funding_room a b db"
  shows "case fund X a mx b db of
      Done (notes, rs, b', db') \<Rightarrow> funded X a mx b db notes rs b' db'
    | Failed u \<Rightarrow> spend_value (account_notes a db) \<le> amount_nat (deficit b) \<and> 0 < amount_nat (deficit b) \<or>
        tb_outputs b = [] \<and> (\<exists>ns. mset ns \<subseteq># mset (account_notes a db) \<and> in_nat b + spend_value ns < fee_nat b + dust_bound mx)
    | Panicked \<Rightarrow> False"
proof -
  let ?A = "account_notes a db" and ?K = "ctx_ops X"
  have c: "client_notes ?A" using wallet_notes [OF w] .
  have sv: "spend_value ?A < 2 ^ 64" using spend_value_face [of ?A] room by (simp add: funding_room_def)
  note sel = select_funding_spec [OF c sv, of "deficit b"]
  show ?thesis
  proof (cases "select_funding_input ?A (deficit b)")
    case Panicked
    with sel show ?thesis by simp
  next
    case (Failed u)
    with sel show ?thesis by (simp add: fund_def Let_def)
  next
    case (Done sl)
    let ?n = "sort_key sn_denomination sl"
    let ?b1 = "fold builder_add_input (map (note_input ?K) ?n) b"
    from sel Done have m: "mset sl \<subseteq># mset ?A" and cov: "amount_nat (deficit b) \<le> spend_value sl" by simp_all
    note n = sort_notes [OF m w]
    have "in_nat b + out_nat b + fee_nat b + face_value ?n < 2 ^ 64" using n(5) room by (simp add: funding_room_def)
    from selected_builder [OF n(1) this, of ?K] cov n(6)
    have b1: "in_range ?b1" "out_nat ?b1 + fee_nat ?b1 \<le> in_nat ?b1" "in_nat ?b1 = in_nat b + face_value ?n"
      "out_nat ?b1 = out_nat b" "fee_nat ?b1 = fee_nat b + 100 * length ?n" by (simp_all add: Let_def)
    have z: "deficit ?b1 = amount_zero" using b1 by (simp add: amount_zero_iff deficit_nat)
    from change_spec [of "excess_input ?b1" mx] obtain ds r where
      ds: "select_output_denominations ECASH_OUTPUT_FEE (excess_input ?b1) (change_denominations mx) = Some ds"
      "set ds \<subseteq> set (change_denominations mx)" "amount_nat (excess_input ?b1) = outputs_cost ds + r" "r < dust_bound mx"
      "amount_nat (excess_input ?b1) < 2 ^ 42 \<longrightarrow> distinct ds" by blast
    have cd: "set ds \<subseteq> set client_denominations" using ds(2) client_tiers(1) by blast
    show ?thesis
    proof (cases "ds = [] \<and> tb_outputs ?b1 = []")
      case True
      then have o: "tb_outputs b = []" by (simp add: fold_add_input)
      then have "out_nat b = 0" by (simp add: out_nat_def)
      then have "in_nat b + spend_value sl < fee_nat b + dust_bound mx"
        using ds(3,4) True excess_nat [OF b1(1)] b1 spend_face [OF n(1)] n(6) by simp
      with True o m Done ds(1) z show ?thesis by (auto simp: fund_def Let_def expect_def assert_that_def)
    next
      case False
      from remove_notes_spec [OF n(2,3)] obtain t where
        t: "remove_notes a ?n db = Some (db\<lparr>note_table := t\<rparr>)"
        "\<forall>c n. bt_has t (c, n) \<longleftrightarrow> holds db c n \<and> \<not> (c = a \<and> n \<in> set ?n)" by blast
      let ?db1 = "db\<lparr>note_table := t\<rparr>"
      obtain rs db2 where i: "issue_requests X a (sort ds) ?db1 = (rs, db2)" by fastforce
      from issue_requests_spec [OF i] obtain cs where
        rs: "rs = map (\<lambda>(d, i). request_new X a d (counter_of a ?db1 + of_nat i)) (zip (sort ds) [0..<length (sort ds)])"
        and db2: "db2 = ?db1\<lparr>derivation_counters := cs\<rparr>"
        and cnt: "counter_of a db2 = counter_of a ?db1 + of_nat (length (sort ds))" by blast
      have len: "length rs = length (sort ds)" by (simp add: rs)
      have den: "map ir_denomination rs = sort ds"
        by (simp only: rs map_map comp_def case_prod_unfold request_new_def issuance_request.simps) simp
      let ?b2 = "fold builder_add_output (map (request_client_output ?K) rs) ?b1"
      have bal: "deficit ?b2 = amount_zero" "out_nat ?b2 + fee_nat ?b2 \<le> in_nat ?b2"
        "in_nat ?b2 < out_nat ?b2 + fee_nat ?b2 + dust_bound mx"
        using fund_change [OF b1(1,2) cd ds(3,4) den, of ?K] by (simp_all add: Let_def)
      have "fund X a mx b db = Done (?n, rs, ?b2, db2)"
        unfolding fund_def Let_def Done obind.simps z ds(1) expect_def option.case if_not_P [OF False] t(1) i prod.case bal(1)
        by (simp add: assert_that_def)
      moreover have "funded X a mx b db ?n rs ?b2 db2"
        unfolding funded_def
      proof (intro conjI)
        show "distinct ?n" "\<forall>n \<in> set ?n. holds db a n" using n by blast+
        show "\<exists>t cs. db2 = db\<lparr>note_table := t, derivation_counters := cs\<rparr>" using db2 by auto
        show "\<forall>c n. holds db2 c n \<longleftrightarrow> holds db c n \<and> \<not> (c = a \<and> n \<in> set ?n)" using t(2) db2 by (simp add: holds_def)
        show "counter_of a db2 = counter_of a db + of_nat (length rs)" using cnt len by (simp add: counter_of_def)
        show "rs = map (\<lambda>(d, i). request_new X a d (counter_of a db + of_nat i)) (zip (map ir_denomination rs) [0..<length rs])"
          using rs den len by (simp add: counter_of_def)
        show "tb_inputs ?b2 = tb_inputs b @ map (note_input ?K) ?n" by (simp add: fold_add_input fold_add_output)
        show "tb_outputs ?b2 = tb_outputs b @ map (request_client_output ?K) rs" by (simp add: fold_add_input fold_add_output)
        have "rs \<noteq> []" if "ds \<noteq> []"
        proof -
          have "length rs = length ds" using len by simp
          with that show ?thesis by auto
        qed
        then show "tb_outputs ?b2 \<noteq> []" using False by (auto simp: fold_add_input fold_add_output)
        show "set (map ir_denomination rs) \<subseteq> set (change_denominations mx)" using ds(2) by (simp add: den)
        have "in_nat ?b2 = in_nat ?b1" by (simp add: fold_add_output in_nat_def)
        then show "in_nat ?b2 < 2 ^ 42 \<longrightarrow> distinct (map ir_denomination rs)"
          using ds(5) excess_nat [OF b1(1)] by (simp add: den)
        show "out_nat ?b2 + fee_nat ?b2 \<le> in_nat ?b2" "in_nat ?b2 < out_nat ?b2 + fee_nat ?b2 + dust_bound mx"
          using bal by blast+
      qed
      ultimately show ?thesis by simp
    qed
  qed
qed

section \<open>Appending\<close>

text \<open>Every row of the operation index is a row of the log, and \<open>n\<close> more events have ids.\<close>

definition log_room :: "nat \<Rightarrow> client_db \<Rightarrow> bool" where
  "log_room n db \<longleftrightarrow> n \<le> 2 ^ 64 \<and>
     (\<forall>op k. bt_has (operation_log db) (op, k) \<longrightarrow> bt_has (event_log db) k) \<and>
     (\<forall>k. bt_has (event_log db) k \<longrightarrow> unat k + n < 2 ^ 64)"

definition event_of :: "account \<Rightarrow> hash256 \<Rightarrow> client_event \<Rightarrow> event_entry" where
  "event_of a op ev = \<lparr>ee_event = ev, ee_account = a, ee_operation = op\<rparr>"

text \<open>The database after the event.\<close>

definition logged :: "account \<Rightarrow> hash256 \<Rightarrow> client_event \<Rightarrow> client_db \<Rightarrow> client_db" where
  "logged a op ev db =
     db\<lparr>event_log := bt_insert (next_event_id db) (event_of a op ev) (event_log db),
        operation_log := bt_insert (op, next_event_id db) (event_of a op ev) (operation_log db)\<rparr>"

lemma bt_last_has:
  assumes "bt_last m = Some (k, v)"
  shows "bt_get m k = Some v" "bt_get m k' \<noteq> None \<Longrightarrow> k' \<le> k"
proof -
  from assms have ne: "entries m \<noteq> []" and l: "last (entries m) = (k, v)" by (auto simp: bt_last_def split: if_splits)
  then have "(k, v) \<in> set (entries m)" by (metis last_in_set)
  then show "bt_get m k = Some v" by (simp add: bt_get_Some_iff)
  assume "bt_get m k' \<noteq> None"
  then obtain v' where v': "(k', v') \<in> set (entries m)" by (auto simp: bt_get_Some_iff)
  have e: "entries m = butlast (entries m) @ [(k, v)]" using ne l by (metis append_butlast_last_id)
  have "sorted_wrt (\<lambda>a b. fst a < fst b) (entries m)" using sorted_keys_entries [of m] by (simp add: sorted_keys_def sorted_wrt_map)
  then have "sorted_wrt (\<lambda>a b. fst a < fst b) (butlast (entries m) @ [(k, v)])" using e by simp
  then have "\<forall>x \<in> set (butlast (entries m)). fst x < k" by (simp add: sorted_wrt_append)
  moreover have "(k', v') \<in> insert (k, v) (set (butlast (entries m)))" using v' e by (metis Un_insert_right list.set(1) list.set(2) set_append sup_bot.right_neutral)
  ultimately show "k' \<le> k" by force
qed

lemma bt_last_None: "bt_last m = None \<Longrightarrow> bt_get m k = None"
  by (auto simp: bt_last_def bt_get_def split: if_splits)

lemma next_event_fresh:
  assumes "log_room n db" "0 < n"
  shows "\<not> bt_has (event_log db) (next_event_id db)" "unat (next_event_id db) + n \<le> 2 ^ 64"
    "bt_has (event_log db) k \<Longrightarrow> k < next_event_id db"
proof -
  have n64: "n \<le> 2 ^ 64" using assms(1) by (simp add: log_room_def)
  have "\<not> bt_has (event_log db) (next_event_id db) \<and> unat (next_event_id db) + n \<le> 2 ^ 64 \<and>
      (bt_has (event_log db) k \<longrightarrow> k < next_event_id db)"
  proof (cases "bt_last (event_log db)")
    case None
    then show ?thesis using bt_last_None [OF None] n64 by (simp add: next_event_id_def bt_has_def)
  next
    case (Some e)
    obtain k0 v where e: "e = (k0, v)" by fastforce
    note l = bt_last_has [OF Some [unfolded e]]
    have r: "unat k0 + n < 2 ^ 64" using assms(1) l(1) by (simp add: log_room_def bt_has_def)
    then have k0: "k0 \<noteq> - 1" using assms(2) by (auto simp: unsigned_minus_1_eq_mask mask_eq_exp_minus_1)
    have nx: "next_event_id db = k0 + 1" using Some e by (simp add: next_event_id_def)
    have lt: "k0 < next_event_id db" using word_less_succ [OF k0] nx by simp
    have old: "k' < next_event_id db" if "bt_has (event_log db) k'" for k'
      using l(2) [of k'] that lt by (auto simp: bt_has_def)
    moreover have "\<not> bt_has (event_log db) (next_event_id db)" using old by blast
    moreover have "unat (next_event_id db) + n \<le> 2 ^ 64" using unat_succ [OF k0] nx r by simp
    ultimately show ?thesis by blast
  qed
  then show "\<not> bt_has (event_log db) (next_event_id db)" "unat (next_event_id db) + n \<le> 2 ^ 64"
    "bt_has (event_log db) k \<Longrightarrow> k < next_event_id db" by blast+
qed

lemma log_event_room:
  assumes "log_room (Suc n) db"
  shows "log_event a op ev db = Some (logged a op ev db)" "log_room n (logged a op ev db)"
proof -
  note f = next_event_fresh [OF assms zero_less_Suc]
  have "\<not> bt_has (operation_log db) (op, next_event_id db)" using assms f(1) by (auto simp: log_room_def)
  with f(1) show "log_event a op ev db = Some (logged a op ev db)"
    by (simp add: log_event_def insert_new_def logged_def event_of_def Let_def)
  have "n \<le> 2 ^ 64" "unat (next_event_id db) + n < 2 ^ 64" using assms f(2) by (simp_all add: log_room_def)
  with assms show "log_room n (logged a op ev db)"
    by (auto simp: log_room_def logged_def bt_has_def split: if_splits)
qed

lemma log_room_tables [simp]:
  "log_room n (db\<lparr>note_table := t\<rparr>) \<longleftrightarrow> log_room n db"
  "log_room n (db\<lparr>derivation_counters := cs\<rparr>) \<longleftrightarrow> log_room n db"
  "log_room n (db\<lparr>ecash_sms := x\<rparr>) \<longleftrightarrow> log_room n db"
  "log_room n (db\<lparr>tx_sms := y\<rparr>) \<longleftrightarrow> log_room n db"
  "log_room n (db\<lparr>receive_operations := z\<rparr>) \<longleftrightarrow> log_room n db"
  by (simp_all add: log_room_def)

lemma logged_tables [simp]:
  "note_table (logged a op ev db) = note_table db" "derivation_counters (logged a op ev db) = derivation_counters db"
  "ecash_sms (logged a op ev db) = ecash_sms db" "tx_sms (logged a op ev db) = tx_sms db"
  "receive_operations (logged a op ev db) = receive_operations db"
  by (simp_all add: logged_def)

text \<open>An appended event is the last of its operation, and leaves those of the others.\<close>

lemma sorted_ins_last:
  assumes "sorted_keys xs" "\<forall>e \<in> set xs. P e \<longrightarrow> fst e < k" "P (k, v)" "map_of xs k = None"
  shows "filter P (ins_entry k v xs) = filter P xs @ [(k, v)]"
  using assms
proof (induction xs)
  case (Cons x xs)
  obtain kx vx where x: "x = (kx, vx)" by fastforce
  have s: "sorted_keys xs" using Cons.prems(1) x by simp
  have n: "map_of xs k = None" "k \<noteq> kx" using Cons.prems(4) x by (auto split: if_splits)
  show ?case
  proof (cases "k < kx")
    case True
    have "\<forall>e \<in> set xs. kx < fst e" using Cons.prems(1) x by auto
    then have "\<forall>e \<in> set (x # xs). \<not> P e" using Cons.prems(2) True x by (auto dest: less_trans)
    then have "filter P (x # xs) = []" by (simp add: filter_empty_conv)
    then show ?thesis using True x Cons.prems(3) by simp
  next
    case False
    then have "ins_entry k v (x # xs) = x # ins_entry k v xs" using n x by simp
    moreover have "filter P (ins_entry k v xs) = filter P xs @ [(k, v)]" by (rule Cons.IH) (use Cons.prems s n in auto)
    ultimately show ?thesis by simp
  qed
qed simp

lemma filter_ins_other:
  assumes "\<not> P (k, v)" "map_of xs k = None"
  shows "filter P (ins_entry k v xs) = filter P xs"
  using assms
proof (induction xs)
  case (Cons x xs)
  then show ?case by (cases x) (auto split: if_splits)
qed simp

lemma operation_events_logged:
  assumes "log_room (Suc n) db"
  shows "read_operation_events op' (logged a op ev db) =
    read_operation_events op' db @ (if op' = op then [event_of a op ev] else [])"
proof -
  let ?k = "next_event_id db" and ?P = "\<lambda>e :: (hash256 \<times> u64) \<times> event_entry. fst (fst e) = op'"
  note f = next_event_fresh [OF assms zero_less_Suc]
  have old: "bt_has (event_log db) k" if "((x, k), e) \<in> set (entries (operation_log db))" for x k e
  proof -
    have "bt_has (operation_log db) (x, k)" using that by (force simp: bt_has_def bt_get_Some_iff)
    then show ?thesis using assms by (simp add: log_room_def)
  qed
  have none: "map_of (entries (operation_log db)) (op, ?k) = None"
    using old f(1) by (auto simp: map_of_eq_None_iff)
  show ?thesis
  proof (cases "op' = op")
    case True
    have "\<forall>e \<in> set (entries (operation_log db)). ?P e \<longrightarrow> fst e < (op, ?k)"
      using old f(3) True by (auto simp: less_prod_def')
    from sorted_ins_last [OF sorted_keys_entries this _ none, of "event_of a op ev"] show ?thesis
      using True by (simp add: read_operation_events_def logged_def)
  next
    case False
    then show ?thesis using filter_ins_other [OF _ none, of ?P "event_of a op ev"]
      by (simp add: read_operation_events_def logged_def)
  qed
qed

end
