(* ===== verification/Client_Submit.thy ===== *)
theory Client_Submit
  imports Client_Log
begin

text \<open>
  Submitting a funded transaction and settling it: the rows and events a submission adds, and the
  turns of the two state machines that take them away again.

  Where funding stops short: a deficit that takes every note to the last millisatoshi, and a bundle
  that with the wallet's surplus exceeds what a transaction may carry.
\<close>

section \<open>What funding takes\<close>

lemma funded_amounts:
  assumes f: "funded X a mx b db notes rs b' db'" and w: "wallet_ok db" and room: "funding_room a b db"
  shows "in_range b'" "mset notes \<subseteq># mset (account_notes a db)" "in_nat b' = in_nat b + face_value notes"
proof -
  have d: "distinct notes" "\<forall>n \<in> set notes. holds db a n" using f by (simp_all add: funded_def)
  have "set notes \<subseteq> set (account_notes a db)" using d(2) by (auto simp: account_notes_iff holds_def)
  then show m: "mset notes \<subseteq># mset (account_notes a db)"
    using d(1) by (simp add: subseteq_mset_def distinct_count_atmost_1 count_mset_0_iff)
      (metis distinct_account_notes distinct_count_atmost_1 in_mono le_numeral_extra(4) zero_le_one)
  have c: "client_notes notes" using client_notes_mset [OF m] wallet_notes [OF w] by simp
  have "in_nat b' = in_nat (fold builder_add_input (map (note_input (ctx_ops X)) notes) b)"
    using f by (simp add: funded_def fold_add_input in_nat_def)
  then show i: "in_nat b' = in_nat b + face_value notes" using note_inputs_nat(1) [OF c] by simp
  have "out_nat b' + fee_nat b' \<le> in_nat b'" using f by (simp add: funded_def)
  then show "in_range b'" using i face_value_mono [OF m] room by (simp add: in_range_def funding_room_def)
qed

lemma funding_check_Done:
  assumes "amounts_nat ins < 2 ^ 64" "amounts_nat outs + fees_nat ins + fees_nat outs \<le> amounts_nat ins"
  shows "funding_check ins outs = Done ()"
  using assms
  by (simp add: funding_check_def inputs_funded outputs_funded verify_funding_def amount_checked_add_eq ok_or_def ensure_def
      word_le_nat_alt funding_default_def amount_zero_def not_less)

definition builder_amounts_in :: "tx_builder \<Rightarrow> (amount \<times> amount) list" where
  "builder_amounts_in b = map (\<lambda>i. (ci_amount i, ci_fee i)) (tb_inputs b)"

definition builder_amounts_out :: "tx_builder \<Rightarrow> (amount \<times> amount) list" where
  "builder_amounts_out b = map (\<lambda>x. (co_amount x, co_fee x)) (tb_outputs b)"

lemma builder_funded:
  assumes "in_range b" "out_nat b + fee_nat b \<le> in_nat b"
  shows "funding_check (builder_amounts_in b) (builder_amounts_out b) = Done ()"
  by (rule funding_check_Done)
    (use assms in \<open>simp_all add: builder_amounts_in_def builder_amounts_out_def amounts_nat_def fees_nat_def comp_def
      in_range_def in_nat_def out_nat_def fee_nat_def\<close>)

section \<open>Submitting\<close>

text \<open>The database a submission leaves.\<close>

definition submitted ::
  "sm_id \<Rightarrow> sm_id \<Rightarrow> tx_sm \<Rightarrow> ecash_sm \<Rightarrow> client_event \<Rightarrow> client_event \<Rightarrow> client_db \<Rightarrow> client_db" where
  "submitted k k' tsm sm ev1 ev2 db =
     logged (ts_account tsm) (ts_operation tsm) ev2
       (logged (ts_account tsm) (ts_operation tsm) ev1 (db\<lparr>tx_sms := bt_insert k tsm (tx_sms db)\<rparr>))
     \<lparr>ecash_sms := bt_insert k' sm (ecash_sms db)\<rparr>"

lemma submit_Some:
  assumes log: "log_room (Suc (Suc n)) db" and fresh: "\<not> bt_has (tx_sms db) k" and tx: "builder_build (ccrypto (ctx_ops X)) b = Some tx"
  defines "txid \<equiv> compute_tx_id (ccrypto (ctx_ops X)) tx"
  shows "submit X k a op b re event db = Some (txid,
      logged a op (TxCreateEvent txid re (total_fee b)) (logged a op (event txid)
        (db\<lparr>tx_sms := bt_insert k \<lparr>ts_account = a, ts_operation = op, ts_tx = tx\<rparr> (tx_sms db)\<rparr>)))"
proof -
  let ?db1 = "db\<lparr>tx_sms := bt_insert k \<lparr>ts_account = a, ts_operation = op, ts_tx = tx\<rparr> (tx_sms db)\<rparr>"
  have l: "log_room (Suc (Suc n)) ?db1" using log by simp
  note l1 = log_event_room [OF l, of a op "event txid"]
  note l2 = log_event_room [OF l1(2), of a op "TxCreateEvent txid re (total_fee b)"]
  show ?thesis
    using fresh l1(1) l2(1) by (simp add: submit_def tx add_tx_sm_def insert_new_def Let_def txid_def [symmetric])
qed

lemma build_Some:
  "tb_inputs b \<noteq> [] \<Longrightarrow> tb_outputs b \<noteq> [] \<Longrightarrow> \<exists>tx. builder_build C b = Some tx \<and>
     tx_inputs tx = map ci_input (tb_inputs b) \<and> tx_outputs tx = map co_output (tb_outputs b) \<and>
     length (tx_signatures tx) = length (tx_inputs tx)"
  by (simp add: builder_build_def Let_def)

text \<open>Whatever is funded is submitted.\<close>

lemma finalize_funded:
  assumes f: "fund X a mx b db = Done (ns, rs, b', db0)" "funded X a mx b db ns rs b' db0"
    and ne: "tb_inputs b' \<noteq> []" "ns \<noteq> [] \<or> targets @ rs \<noteq> []"
    and log: "log_room (Suc (Suc n)) db" and fresh: "\<not> bt_has (tx_sms db) k" "\<not> bt_has (ecash_sms db) k'"
  shows "\<exists>tx re. builder_build (ccrypto (ctx_ops X)) b' = Some tx \<and>
    (let txid = compute_tx_id (ccrypto (ctx_ops X)) tx in
     finalize_and_submit_tx X k k' a op b targets mx event db = Done (txid,
       submitted k k' \<lparr>ts_account = a, ts_operation = op, ts_tx = tx\<rparr>
         \<lparr>es_account = a, es_operation = op, es_txid = txid, es_notes = ns, es_requests = targets @ rs,
            es_targets = of_nat (length targets)\<rparr>
         (event txid) (TxCreateEvent txid re (total_fee b')) db0))"
proof -
  have "tb_outputs b' \<noteq> []" using f(2) unfolding funded_def by blast
  from build_Some [OF ne(1) this] obtain tx where tx: "builder_build (ccrypto (ctx_ops X)) b' = Some tx" by blast
  from f(2) obtain t cs where db0: "db0 = db\<lparr>note_table := t, derivation_counters := cs\<rparr>" by (auto simp: funded_def)
  have l: "log_room (Suc (Suc n)) db0" "\<not> bt_has (tx_sms db0) k" "\<not> bt_has (ecash_sms db0) k'"
    using log fresh by (simp_all add: db0)
  note s = submit_Some [OF l(1,2) tx, of a op "amount_saturating_sub (amount_sum (map note_amount ns)) (deficit b)" event]
  show ?thesis
    by (intro exI [of _ tx] exI [of _ "amount_saturating_sub (amount_sum (map note_amount ns)) (deficit b)"])
      (use f(1) tx ne(2) s l(3) in \<open>auto simp: finalize_and_submit_tx_def Let_def expect_def add_ecash_sm_def insert_new_def submitted_def\<close>)
qed

text \<open>Submission of a builder the account can fund with room to spare.\<close>

lemma submission_Done:
  assumes w: "wallet_ok db" and room: "funding_room a b db"
    and short: "0 < amount_nat (deficit b)" "amount_nat (deficit b) < spend_value (account_notes a db)" "tb_outputs b \<noteq> []"
    and log: "log_room (Suc (Suc n)) db" and fresh: "\<not> bt_has (tx_sms db) k" "\<not> bt_has (ecash_sms db) k'"
  shows "\<exists>notes rs b' db0 tx re.
    fund X a mx b db = Done (notes, rs, b', db0) \<and> funded X a mx b db notes rs b' db0 \<and> notes \<noteq> [] \<and>
    builder_build (ccrypto (ctx_ops X)) b' = Some tx \<and>
    (let txid = compute_tx_id (ccrypto (ctx_ops X)) tx in
     finalize_and_submit_tx X k k' a op b targets mx event db = Done (txid,
       submitted k k' \<lparr>ts_account = a, ts_operation = op, ts_tx = tx\<rparr>
         \<lparr>es_account = a, es_operation = op, es_txid = txid, es_notes = notes, es_requests = targets @ rs,
            es_targets = of_nat (length targets)\<rparr>
         (event txid) (TxCreateEvent txid re (total_fee b')) db0))"
proof -
  from fund_spec [OF w room, of X mx] short obtain ns rs b' db0 where
    f: "fund X a mx b db = Done (ns, rs, b', db0)" "funded X a mx b db ns rs b' db0"
    by (cases "fund X a mx b db") auto
  have "in_range b" using room by (simp add: in_range_def funding_room_def)
  then have d: "in_nat b < out_nat b + fee_nat b" using short(1) deficit_nat [of b] by simp
  have ne: "ns \<noteq> []"
  proof
    assume "ns = []"
    then have "tb_inputs b' = tb_inputs b" using f(2) by (simp add: funded_def)
    moreover obtain ys where "tb_outputs b' = tb_outputs b @ ys" using f(2) by (auto simp: funded_def)
    ultimately have "in_nat b' = in_nat b" "out_nat b + fee_nat b \<le> out_nat b' + fee_nat b'"
      by (simp_all add: in_nat_def out_nat_def fee_nat_def)
    then show False using d f(2) by (simp add: funded_def)
  qed
  have "tb_inputs b' \<noteq> []" "ns \<noteq> [] \<or> targets @ rs \<noteq> []" using f(2) ne by (auto simp: funded_def)
  from finalize_funded [OF f this log fresh, of op event] show ?thesis using f ne by blast
qed

section \<open>Settling\<close>

lemma events_tables [simp]:
  "read_operation_events op (db\<lparr>note_table := t\<rparr>) = read_operation_events op db"
  "read_operation_events op (db\<lparr>derivation_counters := cs\<rparr>) = read_operation_events op db"
  "read_operation_events op (db\<lparr>ecash_sms := x\<rparr>) = read_operation_events op db"
  "read_operation_events op (db\<lparr>tx_sms := y\<rparr>) = read_operation_events op db"
  by (simp_all add: read_operation_events_def)

lemma holds_cong: "note_table db' = note_table db \<Longrightarrow> holds db' c n = holds db c n"
  by (simp add: holds_def)

text \<open>An event that is no verdict on a transaction.\<close>

definition no_verdict :: "client_event \<Rightarrow> bool" where
  "no_verdict ev = (case ev of TxAcceptEvent t \<Rightarrow> False | TxRejectEvent t e \<Rightarrow> False | _ \<Rightarrow> True)"

lemma tx_verdict_append:
  "list_all (\<lambda>e. no_verdict (ee_event e)) es \<Longrightarrow> tx_verdict txid (es @ fs) = tx_verdict txid fs"
  by (induction es) (auto simp: no_verdict_def split: client_event.splits)

lemma submitted_log:
  assumes "log_room (Suc (Suc n)) db"
  shows "log_room n (submitted k k' tsm sm ev1 ev2 db)"
    "read_operation_events op (submitted k k' tsm sm ev1 ev2 db) = read_operation_events op db @
      (if op = ts_operation tsm then [event_of (ts_account tsm) op ev1, event_of (ts_account tsm) op ev2] else [])"
    "note_table (submitted k k' tsm sm ev1 ev2 db) = note_table db"
    "tx_sms (submitted k k' tsm sm ev1 ev2 db) = bt_insert k tsm (tx_sms db)"
    "ecash_sms (submitted k k' tsm sm ev1 ev2 db) = bt_insert k' sm (ecash_sms db)"
proof -
  let ?db1 = "db\<lparr>tx_sms := bt_insert k tsm (tx_sms db)\<rparr>"
  have l: "log_room (Suc (Suc n)) ?db1" using assms by simp
  note l1 = log_event_room(2) [OF l, of "ts_account tsm" "ts_operation tsm" ev1]
  note l2 = log_event_room(2) [OF l1, of "ts_account tsm" "ts_operation tsm" ev2]
  show "log_room n (submitted k k' tsm sm ev1 ev2 db)" using l2 by (simp add: submitted_def)
  show "read_operation_events op (submitted k k' tsm sm ev1 ev2 db) = read_operation_events op db @
      (if op = ts_operation tsm then [event_of (ts_account tsm) op ev1, event_of (ts_account tsm) op ev2] else [])"
    using operation_events_logged [OF l1] operation_events_logged [OF l] by (simp add: submitted_def)
qed (simp_all add: submitted_def)

lemma drive_tx_Some:
  assumes "log_room (Suc n) db"
  shows "drive_tx C k tsm out db = Some (logged (ts_account tsm) (ts_operation tsm)
      (case out of Inr u \<Rightarrow> TxAcceptEvent (compute_tx_id C (ts_tx tsm)) | Inl e \<Rightarrow> TxRejectEvent (compute_tx_id C (ts_tx tsm)) e) db
      \<lparr>tx_sms := bt_remove k (tx_sms db)\<rparr>)"
  using log_event_room(1) [OF assms] by (simp add: drive_tx_def tx_transition_def Let_def)

lemma drive_rejected:
  assumes log: "log_room (Suc n) db" and d: "distinct (es_notes sm)"
    and free: "\<forall>n \<in> set (es_notes sm). \<not> holds db (es_account sm) n"
  shows "\<exists>db'. drive_ecash k sm IssuanceRejected db = Some db' \<and>
    (\<forall>c n. holds db' c n \<longleftrightarrow> holds db c n \<or> c = es_account sm \<and> n \<in> set (es_notes sm)) \<and>
    ecash_sms db' = bt_remove k (ecash_sms db) \<and> tx_sms db' = tx_sms db \<and> derivation_counters db' = derivation_counters db \<and>
    read_operation_events (es_operation sm) db' = read_operation_events (es_operation sm) db @
      (if 0 < es_targets sm then [event_of (es_account sm) (es_operation sm) SendFailureEvent] else [])"
proof -
  let ?a = "es_account sm"
  have "distinct (map (Pair ?a) (es_notes sm))" using d by (simp add: distinct_map inj_on_def)
  moreover have "\<forall>(a, n) \<in> set (map (Pair ?a) (es_notes sm)). \<not> holds db a n" using free by auto
  ultimately obtain t where t: "insert_notes (map (Pair ?a) (es_notes sm)) db = Some (db\<lparr>note_table := t\<rparr>)"
    "\<forall>c n. bt_has t (c, n) \<longleftrightarrow> holds db c n \<or> (c, n) \<in> set (map (Pair ?a) (es_notes sm))"
    using insert_notes_spec by blast
  have l: "log_room (Suc n) (db\<lparr>note_table := t\<rparr>)" using log by simp
  note e = log_event_room(1) [OF l, of ?a "es_operation sm" SendFailureEvent]
    operation_events_logged [OF l, of "es_operation sm" ?a "es_operation sm" SendFailureEvent]
  have t': "bt_has t (c, n) \<longleftrightarrow> holds db c n \<or> c = ?a \<and> n \<in> set (es_notes sm)" for c n using t(2) by auto
  show ?thesis
  proof (cases "0 < es_targets sm")
    case True
    then show ?thesis using t(1) e t'
      by (intro exI [of _ "logged ?a (es_operation sm) SendFailureEvent (db\<lparr>note_table := t\<rparr>)\<lparr>ecash_sms := bt_remove k (ecash_sms db)\<rparr>"])
        (simp add: drive_ecash_def ecash_transition_def Let_def holds_def)
  next
    case False
    then show ?thesis using t(1) t'
      by (intro exI [of _ "db\<lparr>note_table := t, ecash_sms := bt_remove k (ecash_sms db)\<rparr>"])
        (simp add: drive_ecash_def ecash_transition_def Let_def holds_def)
  qed
qed

lemma remove_inserted: "\<not> bt_has m k \<Longrightarrow> bt_remove k (bt_insert k v m) = m"
  by (rule bt_eqI) (auto simp: bt_has_def)

text \<open>An issuance: the bundle of a send goes to the log, every other note to its account.\<close>

lemma drive_issued:
  assumes log: "log_room (Suc (Suc n)) db" and len: "unat (es_targets sm) \<le> length ns" and ne: "ns \<noteq> []"
    and d: "distinct (drop (unat (es_targets sm)) ns)"
    and free: "\<forall>(a, n) \<in> set (drop (unat (es_targets sm)) ns). \<not> holds db a n"
  shows "\<exists>db'. drive_ecash k sm (Issued ns) db = Some db' \<and>
    (\<forall>c n. holds db' c n \<longleftrightarrow> holds db c n \<or> (c, n) \<in> set (drop (unat (es_targets sm)) ns)) \<and>
    ecash_sms db' = bt_remove k (ecash_sms db) \<and> derivation_counters db' = derivation_counters db \<and>
    (\<exists>ours. read_operation_events (es_operation sm) db' = read_operation_events (es_operation sm) db @
      event_of (es_account sm) (es_operation sm) (IssuanceSuccessEvent (es_txid sm) ours) #
      (if es_targets sm = 0 then []
       else [event_of (es_account sm) (es_operation sm) (SendSuccessEvent (map snd (take (unat (es_targets sm)) ns)))]))"
proof -
  let ?a = "es_account sm" and ?op = "es_operation sm" and ?t = "unat (es_targets sm)"
  let ?ours = "amount_sum (map (note_amount \<circ> snd) (filter (\<lambda>e. fst e = ?a) ns))"
  from insert_notes_spec [OF d free] obtain t where
    t: "insert_notes (drop ?t ns) db = Some (db\<lparr>note_table := t\<rparr>)" "\<forall>c n. bt_has t (c, n) \<longleftrightarrow> holds db c n \<or> (c, n) \<in> set (drop ?t ns)"
    by blast
  let ?db1 = "db\<lparr>note_table := t\<rparr>"
  let ?db2 = "logged ?a ?op (IssuanceSuccessEvent (es_txid sm) ?ours) ?db1"
  let ?db3 = "logged ?a ?op (SendSuccessEvent (map snd (take ?t ns))) ?db2"
  have l1: "log_room (Suc (Suc n)) ?db1" using log by simp
  note e1 = log_event_room [OF l1, of ?a ?op "IssuanceSuccessEvent (es_txid sm) ?ours"]
  note e2 = log_event_room [OF e1(2), of ?a ?op "SendSuccessEvent (map snd (take ?t ns))"]
  note o1 = operation_events_logged [OF l1, of ?op ?a ?op "IssuanceSuccessEvent (es_txid sm) ?ours"]
  note o2 = operation_events_logged [OF e1(2), of ?op ?a ?op "SendSuccessEvent (map snd (take ?t ns))"]
  have tz: "take ?t ns = [] \<longleftrightarrow> es_targets sm = 0" using ne len by (auto simp: unat_eq_zero)
  show ?thesis
  proof (cases "es_targets sm = 0")
    case True
    then show ?thesis using t ne len e1(1) o1 tz
      by (intro exI [of _ "?db2\<lparr>ecash_sms := bt_remove k (ecash_sms db)\<rparr>"])
        (auto simp: drive_ecash_def ecash_transition_def Let_def holds_def)
  next
    case False
    then show ?thesis using t ne len e1(1) e2(1) o1 o2 tz
      by (intro exI [of _ "?db3\<lparr>ecash_sms := bt_remove k (ecash_sms db)\<rparr>"])
        (auto simp: drive_ecash_def ecash_transition_def Let_def holds_def)
  qed
qed

section \<open>Exact cover\<close>

lemma select_exact_cover:
  assumes c: "client_notes ns" and b: "spend_value ns < 2 ^ 64"
    and all: "amount_nat E = spend_value ns" and res: "spend_value (surplus_notes ns) < spend_value ns"
  shows "select_funding_input ns E = Failed ()"
proof -
  let ?s = "surplus_notes ns" and ?r = "reserve_notes ns"
  have m: "mset (?s @ ?r) = mset ns" using surplus_reserve [OF c] .
  have c': "client_notes (?s @ ?r)" using client_notes_mset [OF _ c, of "?s @ ?r"] m by simp
  have v: "spend_value (?s @ ?r) = spend_value ns" using spend_value_mset [OF m] .
  from notes_value_client [of ?s] c' v b obtain s where s: "notes_value ?s = Some s" "amount_nat s = spend_value ?s"
    by auto
  have "\<exists>xs last'. fill_notes E ?r ?s None = Done (?s @ xs, last') \<and> spend_value (?s @ xs) \<le> amount_nat E \<and>
      (last' = None \<and> xs = ?r \<or>
       (\<exists>n. last' = Some n \<and> amount_nat E < spend_value (?s @ xs) + (dval (sn_denomination n) - 100) \<and>
          mset (xs @ [n]) \<subseteq># mset ?r))"
    by (rule fill_notes_spec) (use c' v b res all in auto)
  then obtain xs last' where f: "fill_notes E ?r ?s None = Done (?s @ xs, last')"
    and o: "last' = None \<and> xs = ?r \<or> (\<exists>n. last' = Some n \<and>
      amount_nat E < spend_value (?s @ xs) + (dval (sn_denomination n) - 100) \<and> mset (xs @ [n]) \<subseteq># mset ?r)" by blast
  have "\<not> (\<exists>n. amount_nat E < spend_value (?s @ xs) + (dval (sn_denomination n) - 100) \<and> mset (xs @ [n]) \<subseteq># mset ?r)"
  proof
    assume "\<exists>n. amount_nat E < spend_value (?s @ xs) + (dval (sn_denomination n) - 100) \<and> mset (xs @ [n]) \<subseteq># mset ?r"
    then obtain n where n: "amount_nat E < spend_value (?s @ xs) + (dval (sn_denomination n) - 100)"
      "mset (xs @ [n]) \<subseteq># mset ?r" by blast
    have "spend_value (xs @ [n]) \<le> spend_value ?r" using spend_value_mono [OF n(2)] .
    then show False using n(1) all v by simp
  qed
  with o have "last' = None" by blast
  with f s res all show ?thesis by (simp add: select_funding_input_def amount_le_nat expect_def ok_or_def)
qed

lemma fund_exact_cover:
  assumes w: "wallet_ok db" and room: "funding_room a b db"
    and all: "amount_nat (deficit b) = spend_value (account_notes a db)"
    and res: "spend_value (surplus_notes (account_notes a db)) < spend_value (account_notes a db)"
  shows "fund X a mx b db = Failed ()"
proof -
  have "spend_value (account_notes a db) < 2 ^ 64"
    using spend_value_face [of "account_notes a db"] room by (simp add: funding_room_def)
  from select_exact_cover [OF wallet_notes [OF w] this all res] show ?thesis by (simp add: fund_def Let_def)
qed

section \<open>A bundle and the surplus\<close>

lemma select_nothing_missing:
  assumes c: "client_notes ns" and b: "spend_value ns < 2 ^ 64" and z: "amount_nat E = 0"
  shows "select_funding_input ns E = Done (surplus_notes ns)"
proof -
  let ?s = "surplus_notes ns" and ?r = "reserve_notes ns"
  have m: "mset (?s @ ?r) = mset ns" using surplus_reserve [OF c] .
  have c': "client_notes (?s @ ?r)" using client_notes_mset [OF _ c, of "?s @ ?r"] m by simp
  have v: "spend_value (?s @ ?r) = spend_value ns" using spend_value_mset [OF m] .
  from notes_value_client [of ?s] c' v b obtain s where "notes_value ?s = Some s" by auto
  then show ?thesis using z by (simp add: select_funding_input_def amount_le_nat expect_def)
qed

text \<open>A builder that lacks nothing takes the whole surplus.\<close>

lemma fund_takes_surplus:
  assumes w: "wallet_ok db" and room: "funding_room a b db" and z: "amount_nat (deficit b) = 0"
    and f: "fund X a mx b db = Done (ns, rs, b', db')"
  shows "length ns = length (surplus_notes (account_notes a db))"
proof -
  have "spend_value (account_notes a db) < 2 ^ 64"
    using spend_value_face [of "account_notes a db"] room by (simp add: funding_room_def)
  from select_nothing_missing [OF wallet_notes [OF w] this z] f show ?thesis
    by (auto simp: fund_def Let_def obind_Done_iff case_prod_unfold split: if_splits)
qed

definition bundle_builder :: "client_ctx \<Rightarrow> spendable_note list \<Rightarrow> tx_builder" where
  "bundle_builder X ns = fold builder_add_input (map (note_input (ctx_ops X)) ns) builder_new"

lemma bundle_nat:
  assumes "client_notes ns"
  shows "in_nat (bundle_builder X ns) = face_value ns" "out_nat (bundle_builder X ns) = 0"
    "fee_nat (bundle_builder X ns) = 100 * length ns" "tb_outputs (bundle_builder X ns) = []"
    "length (tb_inputs (bundle_builder X ns)) = length ns"
  using note_inputs_nat [OF assms, of "ctx_ops X" builder_new]
  by (simp_all add: bundle_builder_def builder_new_def in_nat_def out_nat_def fee_nat_def fold_add_input)

lemma bundle_surplus:
  assumes "client_notes ns"
  shows "412 * length ns \<le> spend_value ns" "face_value ns = spend_value ns + 100 * length ns"
proof -
  show "412 * length ns \<le> spend_value ns" using assms
  proof (induction ns)
    case (Cons n ns)
    then have "412 \<le> dval (sn_denomination n) - 100" "412 * length ns \<le> spend_value ns"
      using dval_bounds [of "sn_denomination n"] by auto
    then show ?case by simp
  qed simp
qed (rule spend_face [OF assms])

lemma bundle_room:
  assumes c: "client_notes ns" and room: "face_value ns + 100 * length ns + face_value (account_notes a db) < 2 ^ 64"
  shows "funding_room a (bundle_builder X ns) db" "in_range (bundle_builder X ns)" "amount_nat (deficit (bundle_builder X ns)) = 0"
proof -
  note b = bundle_nat [OF c, of X]
  show "funding_room a (bundle_builder X ns) db" using b room by (simp add: funding_room_def)
  show r: "in_range (bundle_builder X ns)" using b room by (simp add: in_range_def)
  show "amount_nat (deficit (bundle_builder X ns)) = 0" using deficit_nat [OF r] b bundle_surplus [OF c] by simp
qed

lemma fund_bundle:
  assumes w: "wallet_ok db" and c: "client_notes ns" and two: "2 \<le> length ns"
    and room: "face_value ns + 100 * length ns + face_value (account_notes a db) < 2 ^ 64"
  shows "\<exists>fs rs b' db'. fund X a False (bundle_builder X ns) db = Done (fs, rs, b', db') \<and>
    funded X a False (bundle_builder X ns) db fs rs b' db' \<and> length fs = length (surplus_notes (account_notes a db)) \<and> rs \<noteq> []"
proof -
  note r = bundle_room [OF c room, of X]
  note b = bundle_nat [OF c, of X]
  have d: "dust_bound False = 612"
    by (simp add: dust_bound_def change_denominations_def client_denominations_def upt_rec dval_def)
  have "\<not> (\<exists>xs. in_nat (bundle_builder X ns) + spend_value xs < fee_nat (bundle_builder X ns) + dust_bound False)"
    using b bundle_surplus [OF c] two d by simp
  with fund_spec [OF w r(1), of X False] r(3) obtain fs rs b' db' where
    f: "fund X a False (bundle_builder X ns) db = Done (fs, rs, b', db')"
      "funded X a False (bundle_builder X ns) db fs rs b' db'"
    by (cases "fund X a False (bundle_builder X ns) db") auto
  moreover have "rs \<noteq> []" using f(2) b(4) by (auto simp: funded_def)
  ultimately show ?thesis using fund_takes_surplus [OF w r(1,3) f(1)] by blast
qed

end
