(* ===== verification/Client_Accepted.thy ===== *)
theory Client_Accepted
  imports Client_Submit
begin

text \<open>
  The client against the mint: a transaction of notes the mint honours and of fresh requests, funded
  by the wallet, passes the checks of the mint's own transaction processing.
\<close>

section \<open>What the mint must hold\<close>

definition spendable :: "client_ops \<Rightarrow> ecash_config \<Rightarrow> ecash_db \<Rightarrow> spendable_note \<Rightarrow> bool" where
  "spendable K cfg db n \<longleftrightarrow> \<not> bt_has (note_nonces db) (nonce (note_of K n)) \<and>
     (\<exists>pk. bt_get (tbs_agg_pks cfg) (sn_denomination n) = Some pk \<and> verify_note (ctbs K) (note_of K n) pk)"

definition requestable :: "client_ops \<Rightarrow> ecash_config \<Rightarrow> ecash_db \<Rightarrow> issuance_request \<Rightarrow> bool" where
  "requestable K cfg db r \<longleftrightarrow> \<not> bt_has (blinded_nonces db) (blinded_nonce_of K (ir_issuance r)) \<and>
     bt_get (tbs_sks cfg) (ir_denomination r) \<noteq> None"

definition note_pub :: "client_ops \<Rightarrow> spendable_note \<Rightarrow> xonly" where
  "note_pub K n = x_only_public_key K (sn_keypair n)"

definition request_blinded :: "client_ops \<Rightarrow> issuance_request \<Rightarrow> blinded_nonce" where
  "request_blinded K r = blinded_nonce_of K (ir_issuance r)"

lemma note_of_fields [simp]:
  "nonce (note_of K n) = note_pub K n" "denomination (note_of K n) = sn_denomination n"
  by (simp_all add: note_of_def note_pub_def)

lemma note_input_fields [simp]:
  "ci_input (note_input K n) = EcashIn (EcashInput (note_of K n))" "ci_keypair (note_input K n) = sn_keypair n"
  "ci_amount (note_input K n) = note_amount n" "ci_fee (note_input K n) = ECASH_INPUT_FEE"
  by (simp_all add: note_input_def)

lemma request_output_fields [simp]:
  "co_output (request_client_output K r) = EcashOut (EcashOutput (ir_denomination r) (request_blinded K r))"
  "co_amount (request_client_output K r) = denomination_amount (ir_denomination r)"
  "co_fee (request_client_output K r) = ECASH_OUTPUT_FEE"
  by (simp_all add: request_client_output_def request_output_def request_blinded_def)

section \<open>Inputs\<close>

lemma mint_takes_note:
  assumes K: "ctbs K = dtbs S" and s: "spendable K (ecash_cfg cfg) (ecash_tables db) n"
  shows "process_input S cfg (EcashIn (EcashInput (note_of K n))) db = Done ((note_amount n, note_pub K n),
    db\<lparr>ecash_tables := (ecash_tables db)\<lparr>note_nonces := bs_insert (note_pub K n) (note_nonces (ecash_tables db))\<rparr>\<rparr>)"
  using s by (auto simp: spendable_def K [symmetric] note_amount_def Let_def)

lemma mint_takes_notes:
  assumes K: "ctbs K = dtbs S"
  shows "\<forall>n \<in> set ns. spendable K (ecash_cfg cfg) (ecash_tables db) n \<Longrightarrow> distinct (map (note_pub K) ns) \<Longrightarrow>
    ofold (\<lambda>(a, f). add_input a f) (map (\<lambda>n. (note_amount n, ECASH_INPUT_FEE)) ns) v = Done v' \<Longrightarrow>
    \<exists>t. ofold (input_step S cfg) (map (\<lambda>n. EcashIn (EcashInput (note_of K n))) ns) (v, pks, db) =
      Done (v', pks @ map (note_pub K) ns, db\<lparr>ecash_tables := (ecash_tables db)\<lparr>note_nonces := t\<rparr>\<rparr>)"
proof (induction ns arbitrary: v pks db)
  case Nil
  have "db = db\<lparr>ecash_tables := (ecash_tables db)\<lparr>note_nonces := note_nonces (ecash_tables db)\<rparr>\<rparr>" by simp
  then show ?case using Nil by (intro exI [of _ "note_nonces (ecash_tables db)"]) simp
next
  case (Cons n ns)
  let ?db = "db\<lparr>ecash_tables := (ecash_tables db)\<lparr>note_nonces := bs_insert (note_pub K n) (note_nonces (ecash_tables db))\<rparr>\<rparr>"
  from Cons.prems(3) obtain v1 where v1: "add_input (note_amount n) ECASH_INPUT_FEE v = Done v1"
    "ofold (\<lambda>(a, f). add_input a f) (map (\<lambda>n. (note_amount n, ECASH_INPUT_FEE)) ns) v1 = Done v'"
    by (auto simp: obind_Done_iff)
  have s: "\<forall>m \<in> set ns. spendable K (ecash_cfg cfg) (ecash_tables ?db) m"
  proof
    fix m assume m: "m \<in> set ns"
    have "note_pub K m \<noteq> note_pub K n" using imageI [OF m, of "note_pub K"] Cons.prems(2) by auto
    with m Cons.prems(1) show "spendable K (ecash_cfg cfg) (ecash_tables ?db) m" by (simp add: spendable_def bt_has_def)
  qed
  from Cons.IH [OF s _ v1(2), of "pks @ [note_pub K n]"] Cons.prems(2) obtain t where
    "ofold (input_step S cfg) (map (\<lambda>n. EcashIn (EcashInput (note_of K n))) ns) (v1, pks @ [note_pub K n], ?db) =
      Done (v', (pks @ [note_pub K n]) @ map (note_pub K) ns, ?db\<lparr>ecash_tables := (ecash_tables ?db)\<lparr>note_nonces := t\<rparr>\<rparr>)"
    by auto
  moreover have "input_step S cfg (EcashIn (EcashInput (note_of K n))) (v, pks, db) = Done (v1, pks @ [note_pub K n], ?db)"
    unfolding input_step_Done using mint_takes_note [OF K, of cfg db n] Cons.prems(1) v1(1)
    by (intro exI conjI) (auto simp del: process_input.simps)
  ultimately show ?case by (intro exI [of _ t]) simp
qed

section \<open>Outputs\<close>

lemma mint_signs:
  assumes "requestable K (ecash_cfg cfg) (ecash_tables db) r"
  shows "\<exists>t u w. process_output S cfg (EcashOut (EcashOutput (ir_denomination r) (request_blinded K r))) p db =
    Done (denomination_amount (ir_denomination r), db\<lparr>ecash_tables := (ecash_tables db)\<lparr>
      blinded_nonces := bt_insert (request_blinded K r) (ir_denomination r) (blinded_nonces (ecash_tables db)),
      signature_shares_table := u, restore_shares := w\<rparr>\<rparr>)"
proof -
  from assms obtain k where "bt_get (tbs_sks (ecash_cfg cfg)) (ir_denomination r) = Some k" by (auto simp: requestable_def)
  then have "process_output S cfg (EcashOut (EcashOutput (ir_denomination r) (request_blinded K r))) p db =
    Done (denomination_amount (ir_denomination r), db\<lparr>ecash_tables := (ecash_tables db)\<lparr>
      blinded_nonces := bt_insert (request_blinded K r) (ir_denomination r) (blinded_nonces (ecash_tables db)),
      signature_shares_table := bt_insert p (sign_nonce (dtbs S) (request_blinded K r) k) (signature_shares_table (ecash_tables db)),
      restore_shares := bt_insert (request_blinded K r) (sign_nonce (dtbs S) (request_blinded K r) k) (restore_shares (ecash_tables db))\<rparr>\<rparr>)"
    using assms by (simp add: requestable_def Let_def request_blinded_def)
  then show ?thesis by blast
qed

lemma mint_signs_all:
  "\<forall>r \<in> set rs. requestable K (ecash_cfg cfg) (ecash_tables db) r \<Longrightarrow> distinct (map (request_blinded K) rs) \<Longrightarrow>
   length js = length rs \<Longrightarrow>
   ofold (\<lambda>(a, f). add_output a f) (map (\<lambda>r. (denomination_amount (ir_denomination r), ECASH_OUTPUT_FEE)) rs) v = Done v' \<Longrightarrow>
   \<exists>db'. ofold (output_step S cfg txid) (zip (map (\<lambda>r. EcashOut (EcashOutput (ir_denomination r) (request_blinded K r))) rs) js) (v, db) = Done (v', db') \<and> lightning_tables db' = lightning_tables db"
proof (induction rs arbitrary: v db js)
  case (Cons r rs)
  then obtain i js' where js: "js = i # js'" "length js' = length rs" by (cases js) auto
  from Cons.prems(4) obtain v1 where v1: "add_output (denomination_amount (ir_denomination r)) ECASH_OUTPUT_FEE v = Done v1"
    "ofold (\<lambda>(a, f). add_output a f) (map (\<lambda>r. (denomination_amount (ir_denomination r), ECASH_OUTPUT_FEE)) rs) v1 = Done v'"
    by (auto simp: obind_Done_iff)
  from mint_signs [of K cfg db r S "OutPoint txid i"] Cons.prems(1) obtain u w where
    o: "process_output S cfg (EcashOut (EcashOutput (ir_denomination r) (request_blinded K r))) (OutPoint txid i) db =
      Done (denomination_amount (ir_denomination r), db\<lparr>ecash_tables := (ecash_tables db)\<lparr>
        blinded_nonces := bt_insert (request_blinded K r) (ir_denomination r) (blinded_nonces (ecash_tables db)),
        signature_shares_table := u, restore_shares := w\<rparr>\<rparr>)" by auto
  let ?db = "db\<lparr>ecash_tables := (ecash_tables db)\<lparr>
        blinded_nonces := bt_insert (request_blinded K r) (ir_denomination r) (blinded_nonces (ecash_tables db)),
        signature_shares_table := u, restore_shares := w\<rparr>\<rparr>"
  have s: "\<forall>q \<in> set rs. requestable K (ecash_cfg cfg) (ecash_tables ?db) q"
  proof
    fix q assume q: "q \<in> set rs"
    have "request_blinded K q \<noteq> request_blinded K r" using imageI [OF q, of "request_blinded K"] Cons.prems(2) by auto
    with q Cons.prems(1) show "requestable K (ecash_cfg cfg) (ecash_tables ?db) q"
      by (simp add: requestable_def bt_has_def request_blinded_def)
  qed
  from Cons.IH [OF s _ js(2) v1(2)] Cons.prems(2) obtain db' where
    "ofold (output_step S cfg txid) (zip (map (\<lambda>r. EcashOut (EcashOutput (ir_denomination r) (request_blinded K r))) rs) js') (v1, ?db) = Done (v', db')" "lightning_tables db' = lightning_tables ?db" by auto
  moreover have "output_step S cfg txid (EcashOut (EcashOutput (ir_denomination r) (request_blinded K r)), i) (v, db) = Done (v1, ?db)"
    unfolding output_step_Done using o v1(1) by (intro exI conjI) (auto simp del: process_output.simps)
  ultimately show ?case using js(1) by (intro exI [of _ db']) simp
qed simp

section \<open>The transaction\<close>

text \<open>The client's signatures verify under its public keys.\<close>

definition signs_for :: "client_ops \<Rightarrow> bool" where
  "signs_for K \<longleftrightarrow> (\<forall>k m. verify_schnorr (ccrypto K) (enc_int (schnorr_of_bytes (sign_schnorr (ccrypto K) (enc_hash k) m))) m
     (enc_hash (x_only_public_key K k)))"

lemma compute_tx_id_signatures [simp]: "compute_tx_id C (tx\<lparr>tx_signatures := ss\<rparr>) = compute_tx_id C tx"
  by (simp add: compute_tx_id_def)

lemma built_signatures:
  assumes sg: "signs_for K" and tx: "builder_build (ccrypto K) b = Some tx"
  shows "validate_signatures (ccrypto K) tx (map (\<lambda>i. x_only_public_key K (ci_keypair i)) (tb_inputs b)) = Done ()"
proof -
  let ?id = "compute_tx_id (ccrypto K) tx"
  have ok: "list_all (\<lambda>(pk, s). verify_schnorr (ccrypto K) (enc_int s) ?id (enc_hash pk))
      (zip (map (\<lambda>i. x_only_public_key K (ci_keypair i)) xs)
        (map (\<lambda>i. schnorr_of_bytes (sign_schnorr (ccrypto K) (enc_hash (ci_keypair i)) ?id)) xs))"
    for xs using sg by (induction xs) (simp_all add: signs_for_def)
  have "tx_signatures tx = map (\<lambda>i. schnorr_of_bytes (sign_schnorr (ccrypto K) (enc_hash (ci_keypair i)) ?id)) (tb_inputs b)"
    using tx by (auto simp: builder_build_def Let_def compute_tx_id_def split: if_splits)
  then show ?thesis using ok [of "tb_inputs b"] by (simp add: validate_signatures_def ensure_def)
qed

text \<open>
  The transaction of another module: its own inputs and outputs first, the wallet's notes and change
  behind them. What the mint makes of the module's part is a hypothesis on its steps.
\<close>

definition inputs_pass :: "daemon_ops \<Rightarrow> daemon_config \<Rightarrow> client_ops \<Rightarrow> client_input list \<Rightarrow> daemon_db \<Rightarrow> daemon_db \<Rightarrow> bool" where
  "inputs_pass S cfg K xs db db' \<longleftrightarrow> ecash_tables db' = ecash_tables db \<and>
     (\<forall>v v'. ofold (\<lambda>(a, f). add_input a f) (map (\<lambda>i. (ci_amount i, ci_fee i)) xs) v = Done v' \<longrightarrow>
       ofold (input_step S cfg) (map ci_input xs) (v, [], db) = Done (v', map (\<lambda>i. x_only_public_key K (ci_keypair i)) xs, db'))"

definition outputs_pass ::
  "daemon_ops \<Rightarrow> daemon_config \<Rightarrow> hash256 \<Rightarrow> client_output list \<Rightarrow> (lightning_db \<Rightarrow> lightning_db) \<Rightarrow> bool" where
  "outputs_pass S cfg txid xs g \<longleftrightarrow>
     (\<forall>v v' db. ofold (\<lambda>(a, f). add_output a f) (map (\<lambda>x. (co_amount x, co_fee x)) xs) v = Done v' \<longrightarrow>
       (\<exists>db'. ofold (output_step S cfg txid) (zip (map co_output xs) (map of_nat [0..<length xs])) (v, db) = Done (v', db') \<and>
         ecash_tables db' = ecash_tables db \<and> lightning_tables db' = g (lightning_tables db)))"

lemma no_inputs_pass [simp]: "inputs_pass S cfg K [] db db"
  by (simp add: inputs_pass_def)

lemma no_outputs_pass [simp]: "outputs_pass S cfg txid [] id"
  by (simp add: outputs_pass_def)

lemma mint_accepts_around:
  assumes K: "ctbs K = dtbs S" "ccrypto K = dcrypto S" and sg: "signs_for K"
    and b: "tb_inputs b = xs @ map (note_input K) ns" "tb_outputs b = ys @ map (request_client_output K) rs"
      "tb_inputs b \<noteq> []" "tb_outputs b \<noteq> []"
    and len: "length (tb_inputs b) \<le> MAX_INPUTS" "length (tb_outputs b) \<le> MAX_OUTPUTS"
    and xs: "inputs_pass S cfg K xs db db1" and ys: "outputs_pass S cfg (compute_tx_id (dcrypto S) tx) ys g"
    and ns: "\<forall>n \<in> set ns. spendable K (ecash_cfg cfg) (ecash_tables db) n" "distinct (map (note_pub K) ns)"
    and rs: "\<forall>r \<in> set rs. requestable K (ecash_cfg cfg) (ecash_tables db) r" "distinct (map (request_blinded K) rs)"
    and f: "funding_check (builder_amounts_in b) (builder_amounts_out b) = Done ()"
    and tx: "builder_build (ccrypto K) b = Some tx"
  shows "\<exists>db'. process_tx S cfg tx db = Done db' \<and> lightning_tables db' = g (lightning_tables db1)"
proof -
  let ?ni = "\<lambda>n. EcashIn (EcashInput (note_of K n))" and ?ro = "\<lambda>r. EcashOut (EcashOutput (ir_denomination r) (request_blinded K r))"
  let ?id = "compute_tx_id (dcrypto S) tx"
  have t: "tx_inputs tx = map ci_input xs @ map ?ni ns" "tx_outputs tx = map co_output ys @ map ?ro rs"
    "length (tx_signatures tx) = length (tx_inputs tx)"
    using tx by (auto simp: builder_build_def Let_def b split: if_splits)
  have a: "builder_amounts_in b = map (\<lambda>i. (ci_amount i, ci_fee i)) xs @ map (\<lambda>n. (note_amount n, ECASH_INPUT_FEE)) ns"
    "builder_amounts_out b = map (\<lambda>x. (co_amount x, co_fee x)) ys @ map (\<lambda>r. (denomination_amount (ir_denomination r), ECASH_OUTPUT_FEE)) rs"
    by (simp_all add: builder_amounts_in_def builder_amounts_out_def b comp_def)
  from f [unfolded funding_check_def a ofold_append obind_Done_iff] obtain v0 v w0 w where
    v: "ofold (\<lambda>(a, f). add_input a f) (map (\<lambda>i. (ci_amount i, ci_fee i)) xs) funding_default = Done v0"
    "ofold (\<lambda>(a, f). add_input a f) (map (\<lambda>n. (note_amount n, ECASH_INPUT_FEE)) ns) v0 = Done v"
    "ofold (\<lambda>(a, f). add_output a f) (map (\<lambda>x. (co_amount x, co_fee x)) ys) v = Done w0"
    "ofold (\<lambda>(a, f). add_output a f) (map (\<lambda>r. (denomination_amount (ir_denomination r), ECASH_OUTPUT_FEE)) rs) w0 = Done w"
    "verify_funding w = Done ()"
    by blast
  let ?pks = "map (\<lambda>i. x_only_public_key K (ci_keypair i)) xs"
  have e1: "ecash_tables db1 = ecash_tables db" and i0: "ofold (input_step S cfg) (map ci_input xs) (funding_default, [], db) = Done (v0, ?pks, db1)"
    using xs v(1) by (simp_all add: inputs_pass_def)
  have "\<forall>n \<in> set ns. spendable K (ecash_cfg cfg) (ecash_tables db1) n" using ns(1) e1 by simp
  from mint_takes_notes [OF K(1) this ns(2) v(2), of ?pks] obtain s where
    i: "ofold (input_step S cfg) (map ?ni ns) (v0, ?pks, db1) =
      Done (v, ?pks @ map (note_pub K) ns, db1\<lparr>ecash_tables := (ecash_tables db1)\<lparr>note_nonces := s\<rparr>\<rparr>)"
    by blast
  let ?db2 = "db1\<lparr>ecash_tables := (ecash_tables db1)\<lparr>note_nonces := s\<rparr>\<rparr>"
  from ys v(3) obtain db3 where
    o0: "ofold (output_step S cfg ?id) (zip (map co_output ys) (map of_nat [0..<length ys])) (v, ?db2) = Done (w0, db3)"
    "ecash_tables db3 = ecash_tables ?db2" "lightning_tables db3 = g (lightning_tables ?db2)"
    unfolding outputs_pass_def by blast
  have "\<forall>r \<in> set rs. requestable K (ecash_cfg cfg) (ecash_tables db3) r" using rs(1) e1 o0(2) by (simp add: requestable_def)
  from mint_signs_all [OF this rs(2) _ v(4), of "map of_nat [length ys..<length ys + length rs]" S ?id]
  obtain db' where o': "ofold (output_step S cfg ?id) (zip (map ?ro rs) (map of_nat [length ys..<length ys + length rs])) (w0, db3) = Done (w, db')"
    "lightning_tables db' = lightning_tables db3"
    by auto
  have idx: "indexed_outputs tx = zip (map co_output ys) (map of_nat [0..<length ys]) @
      zip (map ?ro rs) (map of_nat [length ys..<length ys + length rs])"
    unfolding indexed_outputs_def t(2) length_append length_map using upt_add_eq_append [of 0 "length ys" "length rs"]
    by (simp add: zip_append)
  have out: "ofold (output_step S cfg ?id) (indexed_outputs tx) (v, ?db2) = Done (w, db')"
    unfolding idx ofold_append o0(1) obind.simps by (rule o'(1))
  have inp: "ofold (input_step S cfg) (tx_inputs tx) (funding_default, [], db) = Done (v, ?pks @ map (note_pub K) ns, ?db2)"
    unfolding t(1) ofold_append i0 obind.simps by (rule i)
  have pk: "map (\<lambda>i. x_only_public_key K (ci_keypair i)) (tb_inputs b) = ?pks @ map (note_pub K) ns"
    by (simp add: b(1) note_pub_def)
  have sig: "validate_signatures (dcrypto S) tx (?pks @ map (note_pub K) ns) = Done ()"
    using built_signatures [OF sg tx] unfolding pk K(2) .
  have ne: "tx_inputs tx \<noteq> []" "tx_outputs tx \<noteq> []" "length (tx_inputs tx) \<le> MAX_INPUTS" "length (tx_outputs tx) \<le> MAX_OUTPUTS"
    using b len t by auto
  have "process_tx S cfg tx db = Done db'"
    unfolding process_tx_def Let_def inp obind.simps prod.case sig out v(5) using ne t(3) by (simp only: not_le [symmetric] if_False simp_thms)
  then show ?thesis using o0(3) o'(2) by simp
qed

lemma mint_accepts:
  assumes K: "ctbs K = dtbs S" "ccrypto K = dcrypto S" and sg: "signs_for K"
    and b: "tb_inputs b = map (note_input K) ns" "tb_outputs b = map (request_client_output K) rs" "ns \<noteq> []" "rs \<noteq> []"
    and len: "length ns \<le> MAX_INPUTS" "length rs \<le> MAX_OUTPUTS"
    and ns: "\<forall>n \<in> set ns. spendable K (ecash_cfg cfg) (ecash_tables db) n" "distinct (map (note_pub K) ns)"
    and rs: "\<forall>r \<in> set rs. requestable K (ecash_cfg cfg) (ecash_tables db) r" "distinct (map (request_blinded K) rs)"
    and f: "funding_check (builder_amounts_in b) (builder_amounts_out b) = Done ()"
    and tx: "builder_build (ccrypto K) b = Some tx"
  shows "\<exists>db'. process_tx S cfg tx db = Done db'"
  using mint_accepts_around [OF K sg, where xs = "[]" and ys = "[]" and g = id, OF _ _ _ _ _ _ no_inputs_pass no_outputs_pass ns rs f tx] b len
  by auto

end
