(* ===== verification/Client_Reissue.thy ===== *)
theory Client_Reissue
  imports Client_Accepted Client_Submit
begin

text \<open>
  A send the notes on hand do not make up: the client mints them first, in a transaction the mint
  accepts.
\<close>

section \<open>How many outputs\<close>

lemma represent_few:
  "set ds \<subseteq> set client_denominations \<Longrightarrow> successively (\<lambda>a b. dval a = 2 * dval b) ds \<Longrightarrow>
   (ds \<noteq> [] \<Longrightarrow> amount_nat a < 2 * dval (hd ds)) \<Longrightarrow> length (represent_tiers ds a) \<le> length ds"
proof (induction ds arbitrary: a)
  case (Cons d ds)
  then have d: "d \<in> set client_denominations" and ds: "set ds \<subseteq> set client_denominations" by auto
  let ?v = "msat (denomination_amount d)"
  let ?n = "msat a div ?v"
  let ?a = "Amount (msat a - ?n * ?v)"
  have v: "unat ?v = dval d" by (rule client_amount [OF d])
  have n: "unat ?n = amount_nat a div dval d" by (simp add: unat_div v)
  have le: "unat ?n * unat ?v \<le> amount_nat a" by (simp add: n v)
  then have nv: "unat (?n * ?v) = unat ?n * unat ?v"
    using unsigned_less [of "msat a", where 'a = nat] by (simp add: unat_word_ariths)
  have "?n * ?v \<le> msat a" using le nv by (simp add: word_le_nat_alt)
  then have a: "amount_nat ?a = amount_nat a mod dval d"
    using nv n v by (simp add: unat_sub minus_div_mult_eq_mod unat_mod)
  have p: "0 < dval d" by (simp add: dval_def)
  have one: "unat ?n \<le> 1"
    using Cons.prems(3) n p by (simp add: less_mult_imp_div_less flip: less_Suc_eq_le)
  have "length (represent_tiers ds ?a) \<le> length ds"
  proof (rule Cons.IH [OF ds])
    show "successively (\<lambda>a b. dval a = 2 * dval b) ds" using Cons.prems(2) by (cases ds) simp_all
    assume "ds \<noteq> []"
    then have "dval d = 2 * dval (hd ds)" using Cons.prems(2) by (cases ds) simp_all
    then show "amount_nat ?a < 2 * dval (hd ds)" using a mod_less_divisor [OF p, of "amount_nat a"] by simp
  qed
  with one show ?case by (simp add: Let_def)
qed simp

lemma client_denominations_length [simp]: "length client_denominations = 33"
  by (simp add: client_denominations_def)

lemma all_tiers: "change_denominations False = client_denominations"
  by (simp add: change_denominations_def)

lemma represent_amount_spec:
  assumes "512 dvd amount_nat x"
  shows "set (represent_amount x) \<subseteq> set client_denominations" "denoms_value (represent_amount x) = amount_nat x"
    "amount_nat x < 2 ^ 42 \<Longrightarrow> length (represent_amount x) \<le> 33"
proof -
  note t = client_tiers [of False, unfolded all_tiers]
  have s: "set (rev client_denominations) \<subseteq> set client_denominations" by simp
  from represent_tiers_spec [OF s, of x] obtain r where
    r: "set (represent_amount x) \<subseteq> set client_denominations" "amount_nat x = denoms_value (represent_amount x) + r"
      "r < dval (last (rev client_denominations))" using t(2) by (auto simp: represent_amount_def)
  show sub: "set (represent_amount x) \<subseteq> set client_denominations" using r(1) .
  have h: "hd client_denominations = 9" by (simp add: client_denominations_def upt_rec)
  have "r < 512" using r(3) t(2) by (simp add: last_rev h dval_def)
  moreover have "512 dvd denoms_value (represent_amount x)"
  proof -
    have dd: "512 dvd dval d" if "d \<in> set client_denominations" for d
    proof -
      have "9 \<le> unat d" using that by (simp add: client_denominations_iff)
      then have "(2 :: nat) ^ 9 dvd 2 ^ unat d" by (rule le_imp_power_dvd)
      then show ?thesis by (simp add: dval_def)
    qed
    have "set ds \<subseteq> set client_denominations \<Longrightarrow> 512 dvd denoms_value ds" for ds
      by (induction ds) (auto simp: dd)
    then show ?thesis using sub by blast
  qed
  ultimately have "512 dvd r" using assms r(2) by (simp add: dvd_add_right_iff)
  with \<open>r < 512\<close> have "r = 0" by (auto dest: nat_dvd_not_less)
  with r(2) show "denoms_value (represent_amount x) = amount_nat x" by simp
  assume "amount_nat x < 2 ^ 42"
  then have "length (represent_tiers (rev client_denominations) x) \<le> length (rev client_denominations)"
    by (intro represent_few) (use t in \<open>simp_all add: hd_rev\<close>)
  then show "length (represent_amount x) \<le> 33" by (simp add: represent_amount_def)
qed

section \<open>The reissue\<close>

lemma note_table_cong:
  assumes "note_table db' = note_table db"
  shows "account_notes a db' = account_notes a db" "wallet_ok db' = wallet_ok db" "holds db' c n = holds db c n"
  using assms by (simp_all add: account_notes_def wallet_ok_def holds_def)

text \<open>A request of the counter \<open>i\<close> places on.\<close>

definition request_at :: "client_ctx \<Rightarrow> account \<Rightarrow> client_db \<Rightarrow> u8 \<Rightarrow> nat \<Rightarrow> issuance_request" where
  "request_at X a db d i = request_new X a d (counter_of a db + of_nat i)"

lemma request_at_fields [simp]:
  "ir_denomination (request_at X a db d i) = d" "ir_issuance (request_at X a db d i) = issuance_new X a (counter_of a db + of_nat i)"
  by (simp_all add: request_at_def request_new_def)

definition requests_at :: "client_ctx \<Rightarrow> account \<Rightarrow> client_db \<Rightarrow> u8 list \<Rightarrow> issuance_request list" where
  "requests_at X a db ds = map2 (request_at X a db) ds [0..<length ds]"

lemma requests_at_fields [simp]:
  "length (requests_at X a db ds) = length ds" "map ir_denomination (requests_at X a db ds) = ds"
  by (auto simp: requests_at_def intro: nth_equalityI)

lemma requests_at_nth: "i < length ds \<Longrightarrow> requests_at X a db ds ! i = request_at X a db (ds ! i) i"
  by (simp add: requests_at_def)

lemma requests_at_append:
  assumes "counter_of a db' = counter_of a db + of_nat (length ds)"
  shows "requests_at X a db ds @ requests_at X a db' es = requests_at X a db (ds @ es)"
proof (rule nth_equalityI)
  fix i assume "i < length (requests_at X a db ds @ requests_at X a db' es)"
  then have i: "i < length ds + length es" by simp
  show "(requests_at X a db ds @ requests_at X a db' es) ! i = requests_at X a db (ds @ es) ! i"
  proof (cases "i < length ds")
    case True
    then show ?thesis using i by (simp add: nth_append requests_at_nth)
  next
    case False
    then have "(of_nat (length ds) + of_nat (i - length ds) :: u64) = of_nat i" by (metis le_add_diff_inverse not_less of_nat_add)
    then show ?thesis using i False by (simp add: nth_append requests_at_nth request_at_def assms add.assoc)
  qed
qed simp

lemma issue_requests_at:
  "\<exists>cs. issue_requests X a ds db = (requests_at X a db ds, db\<lparr>derivation_counters := cs\<rparr>) \<and>
     counter_of a (db\<lparr>derivation_counters := cs\<rparr>) = counter_of a db + of_nat (length ds)"
proof -
  obtain rs db' where i: "issue_requests X a ds db = (rs, db')" by fastforce
  from issue_requests_spec [OF i] obtain cs where
    rs: "rs = map (\<lambda>(d, i). request_new X a d (counter_of a db + of_nat i)) (zip ds [0..<length ds])"
    and db': "db' = db\<lparr>derivation_counters := cs\<rparr>" "counter_of a db' = counter_of a db + of_nat (length ds)" by blast
  have "rs = requests_at X a db ds" by (simp add: rs requests_at_def request_at_def)
  with i db' show ?thesis by auto
qed

text \<open>The outputs of a send.\<close>

definition target_builder :: "client_ctx \<Rightarrow> issuance_request list \<Rightarrow> tx_builder" where
  "target_builder X rs = fold builder_add_output (map (request_client_output (ctx_ops X)) rs) builder_new"

lemma target_builder_nat:
  fixes X :: client_ctx and a :: account and db :: client_db
  assumes "set ds \<subseteq> set client_denominations"
  defines "b \<equiv> target_builder X (requests_at X a db ds)"
  shows "in_nat b = 0" "out_nat b = denoms_value ds" "fee_nat b = 100 * length ds"
    "tb_inputs b = []" "tb_outputs b = map (request_client_output (ctx_ops X)) (requests_at X a db ds)"
  using request_outputs_nat [of "requests_at X a db ds" "ctx_ops X" builder_new] assms(1)
  by (simp_all add: b_def target_builder_def builder_new_def in_nat_def out_nat_def fee_nat_def fold_add_output)

text \<open>What a reissuing send leaves.\<close>

lemma reissue_Done:
  assumes w: "wallet_ok db" and log: "log_room 3 db" and fresh: "\<not> bt_has (tx_sms db) k" "\<not> bt_has (ecash_sms db) k'"
    and d: "512 dvd amount_nat (send_amount amt)" and pos: "0 < amount_nat (send_amount amt)"
    and afford: "amount_nat (send_amount amt) + 100 * length (represent_amount (send_amount amt)) < spend_value (account_notes a db)"
    and small: "face_value (account_notes a db) < 2 ^ 42"
  shows "\<exists>db' tx b' ns es.
    ecash_send_reissue X k k' a op True amt db = Done db' \<and>
    bt_get (tx_sms db') k = Some \<lparr>ts_account = a, ts_operation = op, ts_tx = tx\<rparr> \<and>
    builder_build (ccrypto (ctx_ops X)) b' = Some tx \<and>
    funding_check (builder_amounts_in b') (builder_amounts_out b') = Done () \<and>
    tb_inputs b' = map (note_input (ctx_ops X)) ns \<and> ns \<noteq> [] \<and> distinct ns \<and> (\<forall>n \<in> set ns. holds db a n) \<and>
    tb_outputs b' = map (request_client_output (ctx_ops X)) (requests_at X a db es) \<and> es \<noteq> [] \<and>
    set es \<subseteq> set client_denominations \<and> length es \<le> 66"
proof -
  let ?x = "send_amount amt"
  let ?ds = "represent_amount ?x"
  have sv: "spend_value (account_notes a db) \<le> face_value (account_notes a db)" by (rule spend_value_face)
  have xs: "amount_nat ?x < 2 ^ 42" using afford sv small by simp
  note ds = represent_amount_spec [OF d]
  have ne: "?ds \<noteq> []" using ds(2) pos by auto
  obtain cs where iss: "issue_requests X a ?ds db = (requests_at X a db ?ds, db\<lparr>derivation_counters := cs\<rparr>)"
    "counter_of a (db\<lparr>derivation_counters := cs\<rparr>) = counter_of a db + of_nat (length ?ds)" using issue_requests_at by blast
  let ?db1 = "db\<lparr>derivation_counters := cs\<rparr>"
  let ?db2 = "logged a op (SendEvent ?x) ?db1"
  let ?b = "target_builder X (requests_at X a db ?ds)"
  have l: "log_room (Suc (Suc (Suc 0))) ?db1" using log by (simp add: eval_nat_numeral)
  note ev = log_event_room [OF l, of a op "SendEvent ?x"]
  note nt = note_table_cong [of ?db2 db]
  note b = target_builder_nat [OF ds(1), of X a db]
  have A: "account_notes a ?db2 = account_notes a db" using nt(1) by simp
  have dn: "amount_nat (deficit ?b) = amount_nat ?x + 100 * length ?ds"
    using b ds(2) xs small afford sv by (subst deficit_nat) (simp_all add: in_range_def)
  have room: "funding_room a ?b ?db2" using b ds(2) small afford sv by (simp add: funding_room_def A)
  have w2: "wallet_ok ?db2" using w nt(2) by simp
  have short: "0 < amount_nat (deficit ?b)" "amount_nat (deficit ?b) < spend_value (account_notes a ?db2)" "tb_outputs ?b \<noteq> []"
    using dn pos afford A b(5) ne by (simp_all add: length_greater_0_conv [symmetric] del: length_greater_0_conv)
  have fr: "\<not> bt_has (tx_sms ?db2) k" "\<not> bt_has (ecash_sms ?db2) k'" using fresh by simp_all
  from submission_Done [OF w2 room short ev(2) fr, of X False op "requests_at X a db ?ds" ReissuanceEvent]
  obtain ns rs b' db0 tx re where f: "funded X a False ?b ?db2 ns rs b' db0" "ns \<noteq> []"
    and tx: "builder_build (ccrypto (ctx_ops X)) b' = Some tx"
    and s: "let txid = compute_tx_id (ccrypto (ctx_ops X)) tx in
     finalize_and_submit_tx X k k' a op ?b (requests_at X a db ?ds) False ReissuanceEvent ?db2 = Done (txid,
       submitted k k' \<lparr>ts_account = a, ts_operation = op, ts_tx = tx\<rparr>
         \<lparr>es_account = a, es_operation = op, es_txid = txid, es_notes = ns, es_requests = requests_at X a db ?ds @ rs,
            es_targets = of_nat (length (requests_at X a db ?ds))\<rparr>
         (ReissuanceEvent txid) (TxCreateEvent txid re (total_fee b')) db0)" by blast
  let ?cs = "map ir_denomination rs"
  have c2: "counter_of a ?db2 = counter_of a db + of_nat (length ?ds)" using iss(2) by (simp add: counter_of_def)
  have rs: "rs = requests_at X a ?db2 ?cs"
    using f(1) by (simp add: funded_def requests_at_def request_at_def)
  have all: "requests_at X a db ?ds @ rs = requests_at X a db (?ds @ ?cs)"
    using requests_at_append [OF c2, of X ?cs] rs by simp
  have out: "tb_outputs b' = map (request_client_output (ctx_ops X)) (requests_at X a db (?ds @ ?cs))"
    using f(1) b(5) unfolding funded_def all [symmetric] by simp
  have inp: "tb_inputs b' = map (note_input (ctx_ops X)) ns" using f(1) b(4) by (simp add: funded_def)
  have hd: "distinct ns" "\<forall>n \<in> set ns. holds db a n" using f(1) nt(3) by (simp_all add: funded_def)
  note fa = funded_amounts [OF f(1) w2 room]
  have "in_nat b' < 2 ^ 42" using fa(3) face_value_mono [OF fa(2)] small b(1) by (simp add: A)
  then have dc: "distinct ?cs" "set ?cs \<subseteq> set client_denominations"
    using f(1) by (simp_all add: funded_def all_tiers)
  have "length ?cs \<le> 33" using card_mono [OF _ dc(2)] distinct_card [OF dc(1)] card_length [of client_denominations] by simp
  then have len: "length (?ds @ ?cs) \<le> 66" using ds(3) [OF xs] by simp
  have chk: "funding_check (builder_amounts_in b') (builder_amounts_out b') = Done ()"
    using f(1) builder_funded [OF fa(1)] by (simp add: funded_def)
  let ?id = "compute_tx_id (ccrypto (ctx_ops X)) tx"
  let ?sm = "\<lparr>es_account = a, es_operation = op, es_txid = ?id, es_notes = ns, es_requests = requests_at X a db ?ds @ rs,
            es_targets = of_nat (length (requests_at X a db ?ds))\<rparr>"
  let ?db3 = "submitted k k' \<lparr>ts_account = a, ts_operation = op, ts_tx = tx\<rparr> ?sm (ReissuanceEvent ?id) (TxCreateEvent ?id re (total_fee b')) db0"
  have "ecash_send_reissue X k k' a op True amt db = Done ?db3"
    using s unfolding ecash_send_reissue_def iss(1) Let_def prod.case ev(1) target_builder_def
    by (simp add: expect_def)
  moreover have "bt_get (tx_sms ?db3) k = Some \<lparr>ts_account = a, ts_operation = op, ts_tx = tx\<rparr>"
    by (simp add: submitted_def)
  moreover have "?ds @ ?cs \<noteq> []" "set (?ds @ ?cs) \<subseteq> set client_denominations" using ne ds(1) dc(2) by auto
  ultimately show ?thesis using tx chk inp f(2) hd out len by blast
qed

section \<open>Receiving a bundle\<close>

lemma client_note_economical: "client_notes ns \<Longrightarrow> list_all (\<lambda>n. ECASH_INPUT_FEE < note_amount n) ns"
proof (induction ns)
  case (Cons n ns)
  then have "amount_nat (note_amount n) = note_nat n" "512 \<le> note_nat n"
    using client_amount [of "sn_denomination n"] dval_bounds [of "sn_denomination n"] by (simp_all add: note_amount_def)
  then have "ECASH_INPUT_FEE < note_amount n" by (simp add: less_amount_def ECASH_INPUT_FEE_def word_less_nat_alt)
  with Cons show ?case by simp
qed simp

text \<open>The transaction of a receive spends the bundle and the whole surplus of the account.\<close>

lemma receive_Done:
  assumes w: "wallet_ok db" and c: "client_notes ns" and two: "2 \<le> length ns" "length ns \<le> MAX_INPUTS"
    and room: "face_value ns + 100 * length ns + face_value (account_notes a db) < 2 ^ 64"
    and log: "log_room 2 db" and fresh: "\<not> bt_has (tx_sms db) k" "\<not> bt_has (ecash_sms db) k'"
    and new: "\<not> bt_has (receive_operations db) (bundle_operation (ccrypto (ctx_ops X)) (ctx_mint X) ns)"
  shows "\<exists>db' tsm. ecash_receive X k k' a (ctx_mint X) ns db = Done (bundle_operation (ccrypto (ctx_ops X)) (ctx_mint X) ns, db') \<and>
    bt_get (tx_sms db') k = Some tsm \<and> tx_outputs (ts_tx tsm) \<noteq> [] \<and>
    length (tx_inputs (ts_tx tsm)) = length ns + length (surplus_notes (account_notes a db)) \<and>
    receive_operations db' = bs_insert (bundle_operation (ccrypto (ctx_ops X)) (ctx_mint X) ns) (receive_operations db)"
proof -
  let ?op = "bundle_operation (ccrypto (ctx_ops X)) (ctx_mint X) ns" and ?b = "bundle_builder X ns"
  let ?db1 = "db\<lparr>receive_operations := bs_insert ?op (receive_operations db)\<rparr>"
  let ?ev = "\<lambda>txid. ReceiveEvent txid (amount_sum (map note_amount ns))"
  have nt: "note_table ?db1 = note_table db" by simp
  note nt = note_table_cong [OF nt]
  from fund_bundle [of ?db1, OF _ c two(1), of a X] w room obtain fs rs b' db0 where
    f: "fund X a False ?b ?db1 = Done (fs, rs, b', db0)" "funded X a False ?b ?db1 fs rs b' db0"
    and s: "length fs = length (surplus_notes (account_notes a db))" "rs \<noteq> []" using nt by auto
  have inp: "tb_inputs b' = tb_inputs ?b @ map (note_input (ctx_ops X)) fs" "tb_outputs b' \<noteq> []"
    using f(2) unfolding funded_def by blast+
  have "tb_inputs b' \<noteq> []" using inp(1) bundle_nat(5) [OF c, of X] two(1) by auto
  moreover have "log_room (Suc (Suc 0)) ?db1" "\<not> bt_has (tx_sms ?db1) k" "\<not> bt_has (ecash_sms ?db1) k'"
    using log fresh by (simp_all add: eval_nat_numeral)
  ultimately obtain tx re where tx: "builder_build (ccrypto (ctx_ops X)) b' = Some tx"
    and fin: "let txid = compute_tx_id (ccrypto (ctx_ops X)) tx in
     finalize_and_submit_tx X k k' a ?op ?b [] False ?ev ?db1 = Done (txid,
       submitted k k' \<lparr>ts_account = a, ts_operation = ?op, ts_tx = tx\<rparr>
         \<lparr>es_account = a, es_operation = ?op, es_txid = txid, es_notes = fs, es_requests = [] @ rs,
            es_targets = of_nat (length ([] :: issuance_request list))\<rparr>
         (?ev txid) (TxCreateEvent txid re (total_fee b')) db0)"
    using finalize_funded [OF f, of "[]" 0 k k' ?op ?ev] s(2) by auto
  let ?tsm = "\<lparr>ts_account = a, ts_operation = ?op, ts_tx = tx\<rparr>" and ?id = "compute_tx_id (ccrypto (ctx_ops X)) tx"
  let ?db' = "submitted k k' ?tsm \<lparr>es_account = a, es_operation = ?op, es_txid = ?id, es_notes = fs, es_requests = rs, es_targets = 0\<rparr>
         (?ev ?id) (TxCreateEvent ?id re (total_fee b')) db0"
  have "ns \<noteq> []" using two(1) by auto
  then have "ecash_receive X k k' a (ctx_mint X) ns db = Done (?op, ?db')"
    using two(2) new fin client_note_economical [OF c]
    by (simp add: ecash_receive_def Let_def bundle_builder_def)
  moreover have "bt_get (tx_sms ?db') k = Some ?tsm" by (simp add: submitted_def)
  moreover have "tx_inputs tx = map ci_input (tb_inputs b')" "tx_outputs tx = map co_output (tb_outputs b')"
    using build_Some [of b' "ccrypto (ctx_ops X)"] tx \<open>tb_inputs b' \<noteq> []\<close> inp(2) by auto
  then have "length (tx_inputs tx) = length ns + length (surplus_notes (account_notes a db))" "tx_outputs tx \<noteq> []"
    using inp s(1) bundle_nat(5) [OF c, of X] by simp_all
  moreover have "receive_operations ?db' = receive_operations ?db1"
  proof -
    obtain t cs where "db0 = ?db1\<lparr>note_table := t, derivation_counters := cs\<rparr>" using f(2) unfolding funded_def by blast
    then show ?thesis by (simp add: submitted_def)
  qed
  ultimately show ?thesis by (intro exI [of _ ?db'] exI [of _ ?tsm]) simp
qed

end
