(* ===== verification/Client_Scan.thy ===== *)
theory Client_Scan
  imports Client_Ecash
begin

text \<open>
  The restore scan: it ends at the first batch of counters the mint has never seen, with the notes
  still live below it.
\<close>

text \<open>The mint has seen a counter when its nonce was spent or its blinded nonce signed.\<close>

definition counter_used :: "client_ctx \<Rightarrow> (xonly \<Rightarrow> bool) \<Rightarrow> (blinded_nonce \<Rightarrow> u8 option) \<Rightarrow> account \<Rightarrow> u64 \<Rightarrow> bool" where
  "counter_used X spent signed_as a c \<longleftrightarrow>
     spent (issuance_nonce (ctx_ops X) (issuance_new X a c)) \<or> signed_as (blinded_nonce_of (ctx_ops X) (issuance_new X a c)) \<noteq> None"

text \<open>The request of a counter whose note is signed and not spent.\<close>

definition live_request ::
  "client_ctx \<Rightarrow> (xonly \<Rightarrow> bool) \<Rightarrow> (blinded_nonce \<Rightarrow> u8 option) \<Rightarrow> account \<Rightarrow> u64 \<Rightarrow> issuance_request option" where
  "live_request X spent signed_as a c =
     (if spent (issuance_nonce (ctx_ops X) (issuance_new X a c)) then None
      else map_option (\<lambda>d. request_new X a d c) (signed_as (blinded_nonce_of (ctx_ops X) (issuance_new X a c))))"

lemma live_used: "live_request X spent signed_as a c \<noteq> None \<Longrightarrow> counter_used X spent signed_as a c"
  by (auto simp: live_request_def counter_used_def split: if_splits)

lemma map_filter_zip_filter:
  "List.map_filter (\<lambda>(c, d). map_option (g c) d) (zip (filter (\<lambda>c. \<not> P c) cs) (map f (filter (\<lambda>c. \<not> P c) cs))) =
   List.map_filter (\<lambda>c. if P c then None else map_option (g c) (f c)) cs"
  by (induction cs) (auto simp: List.map_filter_simps split: option.splits)

lemma scan_batch_eq:
  "scan_batch X spent signed_as a (of_nat s) =
     (\<forall>i \<in> {s..<s + RESTORE_BATCH}. \<not> counter_used X spent signed_as a (of_nat i),
      List.map_filter (live_request X spent signed_as a \<circ> of_nat) [s..<s + RESTORE_BATCH])"
proof -
  let ?c = "\<lambda>i. issuance_new X a (of_nat i)" and ?K = "ctx_ops X"
  have c: "map (\<lambda>i. issuance_new X a (of_nat s + of_nat i)) [0..<RESTORE_BATCH] = map ?c [s..<s + RESTORE_BATCH]"
  proof -
    have "[s..<s + RESTORE_BATCH] = map (\<lambda>i. i + s) [0..<RESTORE_BATCH]" using map_add_upt [of s RESTORE_BATCH] by (simp add: add.commute)
    then show ?thesis by (simp add: add.commute)
  qed
  have l: "List.map_filter (\<lambda>c. if spent (issuance_nonce ?K c) then None
        else map_option (\<lambda>d. \<lparr>ir_denomination = d, ir_issuance = c\<rparr>) (signed_as (blinded_nonce_of ?K c))) (map ?c xs) =
      List.map_filter (live_request X spent signed_as a \<circ> of_nat) xs" for xs
    by (simp add: List.map_filter_def live_request_def request_new_def comp_def filter_map)
  show ?thesis
    unfolding scan_batch_def Let_def c map_filter_zip_filter l
    by (auto simp: list_all_iff counter_used_def)
qed

text \<open>
  The mint has seen only counters below \<open>bound\<close>, and below it there is no gap of a whole batch.
\<close>

definition gap_free :: "client_ctx \<Rightarrow> (xonly \<Rightarrow> bool) \<Rightarrow> (blinded_nonce \<Rightarrow> u8 option) \<Rightarrow> account \<Rightarrow> nat \<Rightarrow> bool" where
  "gap_free X spent signed_as a bound \<longleftrightarrow>
     (\<forall>c. counter_used X spent signed_as a c \<longrightarrow> unat c < bound) \<and>
     (\<forall>i < bound. \<exists>j \<in> {i..<i + RESTORE_BATCH}. counter_used X spent signed_as a (of_nat j))"

lemma scan_counters_from:
  assumes gap: "gap_free X spent signed_as a bound" and room: "bound + 2 * RESTORE_BATCH \<le> 2 ^ 64"
  shows "s < bound + RESTORE_BATCH \<Longrightarrow> \<exists>c. scan_counters X spent signed_as a (of_nat s) found =
      Some (of_nat c, found @ List.map_filter (live_request X spent signed_as a \<circ> of_nat) [s..<c]) \<and>
    s \<le> c \<and> bound \<le> c \<and> c < bound + RESTORE_BATCH"
proof (induction "bound + RESTORE_BATCH - s" arbitrary: s found rule: less_induct)
  case less
  show ?case
  proof (cases "s < bound")
    case True
    then have "\<not> (\<forall>i \<in> {s..<s + RESTORE_BATCH}. \<not> counter_used X spent signed_as a (of_nat i))"
      using gap by (auto simp: gap_free_def)
    then have step: "scan_counters X spent signed_as a (of_nat s) found =
        scan_counters X spent signed_as a (of_nat (s + RESTORE_BATCH))
          (found @ List.map_filter (live_request X spent signed_as a \<circ> of_nat) [s..<s + RESTORE_BATCH])"
      by (subst scan_counters.simps) (simp only: scan_batch_eq Let_def prod.case if_False of_nat_add)
    have "bound + RESTORE_BATCH - (s + RESTORE_BATCH) < bound + RESTORE_BATCH - s" "s + RESTORE_BATCH < bound + RESTORE_BATCH"
      using True by (simp_all add: RESTORE_BATCH_def)
    from less.hyps [OF this, of "found @ List.map_filter (live_request X spent signed_as a \<circ> of_nat) [s..<s + RESTORE_BATCH]"]
    obtain c where c: "scan_counters X spent signed_as a (of_nat s) found = Some (of_nat c,
        (found @ List.map_filter (live_request X spent signed_as a \<circ> of_nat) [s..<s + RESTORE_BATCH]) @
        List.map_filter (live_request X spent signed_as a \<circ> of_nat) [s + RESTORE_BATCH..<c])"
      "s + RESTORE_BATCH \<le> c" "bound \<le> c" "c < bound + RESTORE_BATCH" unfolding step by blast
    have "[s..<c] = [s..<s + RESTORE_BATCH] @ [s + RESTORE_BATCH..<c]"
      using c(2) upt_add_eq_append [of s "s + RESTORE_BATCH" "c - (s + RESTORE_BATCH)"] by simp
    with c show ?thesis by (auto simp: List.map_filter_def intro!: exI [of _ c])
  next
    case False
    have "\<not> counter_used X spent signed_as a (of_nat i)" if "i \<in> {s..<s + RESTORE_BATCH}" for i
    proof
      assume "counter_used X spent signed_as a (of_nat i)"
      then have "unat (of_nat i :: u64) < bound" using gap by (simp add: gap_free_def)
      moreover have "i < 2 ^ 64" using that less.prems room by simp
      ultimately show False using False that by (simp add: unat_of_nat)
    qed
    then have "scan_counters X spent signed_as a (of_nat s) found = Some (of_nat s, found)"
      by (subst scan_counters.simps) (simp add: scan_batch_eq)
    with False less.prems show ?thesis by (auto simp: List.map_filter_def intro!: exI [of _ s])
  qed
qed

lemma scan_counters_spec:
  assumes gap: "gap_free X spent signed_as a bound" and room: "bound + 2 * RESTORE_BATCH \<le> 2 ^ 64"
  shows "\<exists>c. scan_counters X spent signed_as a 0 [] =
      Some (of_nat c, List.map_filter (live_request X spent signed_as a \<circ> of_nat) [0..<bound]) \<and>
    bound \<le> c \<and> c < bound + RESTORE_BATCH"
proof -
  have "0 < bound + RESTORE_BATCH" by (simp add: RESTORE_BATCH_def)
  from scan_counters_from [OF gap room this, of "[]"] obtain c where
    c: "scan_counters X spent signed_as a 0 [] =
      Some (of_nat c, List.map_filter (live_request X spent signed_as a \<circ> of_nat) [0..<c])"
      "bound \<le> c" "c < bound + RESTORE_BATCH" by auto
  have "live_request X spent signed_as a (of_nat i) = None" if "bound \<le> i" "i < c" for i
  proof (rule ccontr)
    assume "live_request X spent signed_as a (of_nat i) \<noteq> None"
    then have "unat (of_nat i :: u64) < bound" using live_used gap by (auto simp: gap_free_def)
    moreover have "i < 2 ^ 64" using that c(3) room by simp
    ultimately show False using that by (simp add: unat_of_nat)
  qed
  then have "List.map_filter (live_request X spent signed_as a \<circ> of_nat) [bound..<c] = []"
    by (simp add: List.map_filter_def filter_empty_conv)
  moreover have "[0..<c] = [0..<bound] @ [bound..<c]" using c(2) upt_add_eq_append [of 0 bound "c - bound"] by simp
  ultimately have "List.map_filter (live_request X spent signed_as a \<circ> of_nat) [0..<c] =
      List.map_filter (live_request X spent signed_as a \<circ> of_nat) [0..<bound]"
    by (simp add: List.map_filter_def)
  with c show ?thesis by auto
qed

end
