(* ===== verification/Client_Sample.thy ===== *)
theory Client_Sample
  imports Client_Reissue Client_Submit Client_Scan Mint_Sample
begin

text \<open>
  A sample client and a sample wallet, for the concrete instances of the wallet's properties.
\<close>

section \<open>A wallet\<close>

definition wallet_note :: "u8 \<Rightarrow> nat \<Rightarrow> spendable_note" where
  "wallet_note d i = SpendableNote d (of_nat i) 0"

definition wallet_of :: "spendable_note list \<Rightarrow> client_db" where
  "wallet_of ns =
     \<lparr>note_table = bt_of_list (map (\<lambda>n. ((Primary, n), ())) ns), derivation_counters = bt_empty,
      receive_operations = bt_empty, ecash_sms = bt_empty, tx_sms = bt_empty, event_log = bt_empty, operation_log = bt_empty\<rparr>"

lemma wallet_of_holds: "holds (wallet_of ns) c n \<longleftrightarrow> c = Primary \<and> n \<in> set ns"
proof -
  have "holds (wallet_of ns) c n \<longleftrightarrow> (c, n) \<in> set (bt_keys (bt_of_list (map (\<lambda>n. ((Primary, n), ())) ns)))"
    by (simp add: holds_def wallet_of_def bt_has_def set_bt_keys)
  then show ?thesis by (auto simp: set_keys_of_list image_image)
qed

lemma wallet_of_notes: "distinct ns \<Longrightarrow> mset (account_notes Primary (wallet_of ns)) = mset ns"
  using distinct_account_notes [of Primary "wallet_of ns"] wallet_of_holds [of ns Primary]
  by (simp add: set_eq_iff_mset_eq_distinct [symmetric] set_eq_iff account_notes_iff holds_def)

lemma wallet_of_ok: "client_notes ns \<Longrightarrow> wallet_ok (wallet_of ns)"
  using wallet_of_holds [of ns] by (auto simp: wallet_ok_def holds_def client_notes_def list_all_iff)

lemma wallet_of_fresh [simp]:
  "n \<le> 2 ^ 64 \<Longrightarrow> log_room n (wallet_of ns)" "\<not> bt_has (tx_sms (wallet_of ns)) k" "\<not> bt_has (ecash_sms (wallet_of ns)) k"
  "\<not> bt_has (receive_operations (wallet_of ns)) op" "read_operation_events op (wallet_of ns) = []"
  "derivation_counters (wallet_of ns) = bt_empty"
  by (simp_all add: log_room_def wallet_of_def bt_has_def read_operation_events_def)

text \<open>Seven notes of one denomination, one above the reserve, and a larger one.\<close>

definition sample_notes :: "spendable_note list" where
  "sample_notes = map (wallet_note 20) [1, 2, 3, 4, 5, 6, 7] @ [wallet_note 30 8]"

lemma sample_notes_facts:
  "distinct sample_notes" "client_notes sample_notes" "spend_value sample_notes = 1081081056" "face_value sample_notes = 1081081856"
  by (simp_all add: sample_notes_def wallet_note_def client_denominations_iff spend_value_def face_value_def dval_def)

definition sample_wallet :: client_db where
  "sample_wallet = wallet_of sample_notes"

lemma sample_wallet_facts:
  "wallet_ok sample_wallet" "mset (account_notes Primary sample_wallet) = mset sample_notes"
  "spend_value (account_notes Primary sample_wallet) = 1081081056" "face_value (account_notes Primary sample_wallet) = 1081081856"
proof -
  show m: "mset (account_notes Primary sample_wallet) = mset sample_notes"
    unfolding sample_wallet_def by (rule wallet_of_notes) (rule sample_notes_facts)
  show "wallet_ok sample_wallet" unfolding sample_wallet_def by (rule wallet_of_ok) (rule sample_notes_facts)
  show "spend_value (account_notes Primary sample_wallet) = 1081081056" using spend_value_mset [OF m] sample_notes_facts by simp
  show "face_value (account_notes Primary sample_wallet) = 1081081856" using face_value_mset [OF m] sample_notes_facts by simp
qed

text \<open>A builder that pays 2 to the 25th msat to an output.\<close>

definition sample_output :: client_output where
  "sample_output = \<lparr>co_output = EcashOut (EcashOutput 25 9), co_amount = Amount 33554432, co_fee = Amount 100\<rparr>"

lemma sample_room:
  "funding_room Primary (from_output sample_output) sample_wallet"
  "amount_nat (deficit (from_output sample_output)) = 33554532"
proof -
  have r: "in_nat (from_output sample_output) = 0" "out_nat (from_output sample_output) = 33554432" "fee_nat (from_output sample_output) = 100"
    by (simp_all add: in_nat_def out_nat_def fee_nat_def from_output_def sample_output_def)
  then show "funding_room Primary (from_output sample_output) sample_wallet"
    using sample_wallet_facts by (simp add: funding_room_def)
  show "amount_nat (deficit (from_output sample_output)) = 33554532"
    using r by (subst deficit_nat) (simp_all add: in_range_def)
qed

section \<open>A client\<close>

text \<open>
  A hash that keeps the counter of a note apart: of the bytes of a counter's child it keeps the
  counter, and of others the last 32 bytes.
\<close>

definition sample_hash :: "bytes \<Rightarrow> hash256" where
  "sample_hash bs =
     (if length bs = 72 then of_nat (be_value (take 8 (drop 32 bs))) else of_nat (be_value (drop (length bs - 32) bs)))"

definition sample_crypto :: crypto where
  "sample_crypto = \<lparr>sha256 = sample_hash, sign_schnorr = (\<lambda>k d. k), verify_schnorr = (\<lambda>s d p. s = p \<or> length s = 64)\<rparr>"

definition sample_ops :: client_ops where
  "sample_ops =
     \<lparr>ccrypto = sample_crypto, ctbs = mint_tbs, x_only_public_key = (\<lambda>k. k), blind_nonce = (\<lambda>n r. n),
      unblind_signature = (\<lambda>r s. s), aggregate_shares = (\<lambda>m. 0), verify_share = (\<lambda>n s k. True), bls_scalar = (\<lambda>h. h)\<rparr>"

definition sample_ctx :: client_ctx where
  "sample_ctx =
     \<lparr>ctx_ops = sample_ops, ctx_mint = 5, ctx_ecash_secret = 6,
      ctx_agg_pks = bt_of_list (map (\<lambda>d. (d, 0)) client_denominations), ctx_pks = bt_empty\<rparr>"

definition sample_cfg :: daemon_config where
  "sample_cfg = mint_cfg\<lparr>ecash_cfg :=
     \<lparr>tbs_agg_pks = bt_of_list (map (\<lambda>d. (d, 0)) client_denominations),
      tbs_sks = bt_of_list (map (\<lambda>d. (d, 0)) client_denominations)\<rparr>\<rparr>"

definition sample_mint :: daemon_ops where
  "sample_mint = mint_ops\<lparr>dcrypto := sample_crypto\<rparr>"

lemma last_bytes: "drop (length (xs @ enc_hash s) - 32) (xs @ enc_hash s) = enc_hash s"
proof -
  have "length (enc_hash s) = 32" by (simp add: enc_hash_def enc_int_def)
  then show ?thesis by simp
qed

lemma be_value_hash: "(of_nat (be_value (enc_hash s)) :: hash256) = s"
  by (simp add: enc_hash_def enc_int_def be_value_be_bytes unsigned_less [of s, where 'a = nat, simplified])

lemma sample_leaf: "secret_leaf sample_crypto p s = s"
proof -
  have l: "length (leaf_bytes p s) = 64"
    using tag_lengths by (cases p) (simp_all add: leaf_bytes_def enc_vec_def enc_len_def enc_hash_def concat_enc_u8 enc_int_def)
  have "leaf_bytes p s = (enc_vec enc_u8 LEAF_TAG @ enc_leaf_path p) @ enc_hash s" by (simp add: leaf_bytes_def)
  then have "drop (length (leaf_bytes p s) - 32) (leaf_bytes p s) = enc_hash s" using last_bytes by metis
  with l show ?thesis by (simp add: secret_leaf_def sample_crypto_def sample_hash_def be_value_hash)
qed

lemma sample_counter: "note_nonce_keypair sample_crypto a c s = of_nat (unat c)"
proof -
  have t: "length (enc_vec enc_u8 CHILD_TAG) = 32"
    using tag_lengths by (simp add: enc_vec_def enc_len_def concat_enc_u8 enc_int_def)
  have c: "length (enc_u64 c) = 8" "be_value (enc_u64 c) = unat c"
    using unsigned_less [of c, where 'a = nat] by (simp_all add: enc_int_def be_value_be_bytes)
  have "length (child_bytes (enc_u64 c) s') = 72" for s'
    using t c by (simp add: child_bytes_def enc_hash_def enc_int_def)
  moreover have "take 8 (drop 32 (child_bytes (enc_u64 c) s')) = enc_u64 c" for s'
    using t c by (simp add: child_bytes_def)
  ultimately have "secret_child sample_crypto (enc_u64 c) s' = of_nat (unat c)" for s'
    using c by (simp add: secret_child_def sample_crypto_def sample_hash_def)
  then show ?thesis by (simp add: note_nonce_keypair_def note_secret_def sample_leaf)
qed

lemma sample_nonces:
  "issuance_nonce (ctx_ops sample_ctx) (issuance_new sample_ctx a c) = of_nat (unat c)"
  "blinded_nonce_of (ctx_ops sample_ctx) (issuance_new sample_ctx a c) = of_nat (unat c)"
proof -
  show n: "issuance_nonce (ctx_ops sample_ctx) (issuance_new sample_ctx a c) = of_nat (unat c)"
    by (simp add: issuance_nonce_def issuance_new_def sample_ctx_def sample_ops_def Let_def sample_counter)
  have "unat (of_nat (unat c) :: hash256) = unat c"
    using unsigned_less [of c, where 'a = nat] by (simp only: unat_of_nat) simp
  then have u: "(ucast (of_nat (unat c) :: hash256) :: 384 word) = of_nat (unat c)" by (metis of_nat_unat)
  have "blinded_nonce_of (ctx_ops sample_ctx) (issuance_new sample_ctx a c) =
      ucast (issuance_nonce (ctx_ops sample_ctx) (issuance_new sample_ctx a c))"
    by (simp add: blinded_nonce_of_def sample_ctx_def sample_ops_def mint_tbs_def)
  then show "blinded_nonce_of (ctx_ops sample_ctx) (issuance_new sample_ctx a c) = of_nat (unat c)"
    using n u by simp
qed

lemma sample_signs: "signs_for sample_ops"
  by (simp add: signs_for_def sample_ops_def sample_crypto_def enc_int_def)

lemma sample_keys:
  assumes "d \<in> set client_denominations"
  shows "bt_get (tbs_agg_pks (ecash_cfg sample_cfg)) d = Some 0" "bt_get (tbs_sks (ecash_cfg sample_cfg)) d = Some 0"
proof -
  have "map_of (rev (map (\<lambda>d. (d, k)) client_denominations)) d = Some k" for k :: "'k::len word"
  proof -
    have "d \<in> set xs \<Longrightarrow> map_of (map (\<lambda>d. (d, k)) xs) d = Some k" for xs by (induction xs) auto
    then show ?thesis using assms by (simp add: rev_map)
  qed
  then show "bt_get (tbs_agg_pks (ecash_cfg sample_cfg)) d = Some 0" "bt_get (tbs_sks (ecash_cfg sample_cfg)) d = Some 0"
    by (simp_all add: sample_cfg_def bt_get_of_list)
qed

end
