(* ===== verification/Client_Claims.thy ===== *)
theory Client_Claims
  imports Client_Sample
begin

text \<open>
  The properties of the client's ecash wallet: funding, refunds, issuance, sends, receives, restores,
  and the mint's acceptance of what the client submits.
\<close>

section \<open>Funding\<close>

text \<open>
  C12. Funding balances a transaction. For any builder and any wallet of client denominations whose
  sums fit 64 bits, funding never panics. When it succeeds it spends distinct notes the account holds and
  removes exactly those from the wallet, burns one counter per change output, and leaves a transaction
  with an output whose inputs pay for outputs and fees - as the mint's own checked arithmetic decides -
  and overpay by less than what one more change output of the smallest denomination would cost. It
  fails only when the notes do not deliver more than the deficit or when the transaction would have no
  output at all.
\<close>

theorem funding_balances:
  assumes "wallet_ok db" "funding_room a b db"
  shows "case fund X a mx b db of
      Done (notes, rs, b', db') \<Rightarrow> funded X a mx b db notes rs b' db' \<and>
        funding_check (builder_amounts_in b') (builder_amounts_out b') = Done ()
    | Failed u \<Rightarrow> spend_value (account_notes a db) \<le> amount_nat (deficit b) \<and> 0 < amount_nat (deficit b) \<or>
        tb_outputs b = [] \<and> (\<exists>ns. mset ns \<subseteq># mset (account_notes a db) \<and> in_nat b + spend_value ns < fee_nat b + dust_bound mx)
    | Panicked \<Rightarrow> False"
proof (cases "fund X a mx b db")
  case (Done r)
  obtain ns rs b' db' where r: "r = (ns, rs, b', db')" by (cases r)
  have f: "funded X a mx b db ns rs b' db'" using fund_spec [OF assms, of X mx] Done r by simp
  then have "out_nat b' + fee_nat b' \<le> in_nat b'" by (simp add: funded_def)
  with f Done r show ?thesis using builder_funded funded_amounts(1) [OF f assms] by simp
qed (use fund_spec [OF assms, of X mx] in auto)

theorem funding_balances_witness:
  "case fund sample_ctx Primary False (from_output sample_output) sample_wallet of
      Done (notes, rs, b', db') \<Rightarrow> out_nat b' + fee_nat b' \<le> in_nat b' \<and> in_nat b' < out_nat b' + fee_nat b' + 612
    | _ \<Rightarrow> False"
proof -
  have d: "dust_bound False = 612"
    by (simp add: dust_bound_def change_denominations_def client_denominations_def upt_rec dval_def)
  show ?thesis
    using funding_balances [OF sample_wallet_facts(1) sample_room(1), of sample_ctx False] sample_room(2) sample_wallet_facts(3)
    by (auto simp: funded_def d from_output_def split: outcome.splits)
qed

section \<open>Refunds\<close>

text \<open>
  C16. A rejected transaction refunds the wallet. When the account's notes deliver more than a
  builder with an output lacks, submitting it succeeds and takes the funding notes out of the wallet;
  when the mint rejects the transaction, its state machine logs the rejection, the wait of the ecash
  state machine on the operation's events ends with that verdict, and its turn puts exactly those
  notes back: every account holds what it held before the submission, and both state machines are gone.
\<close>

theorem rejection_refunds:
  assumes w: "wallet_ok db" and room: "funding_room a b db"
    and short: "0 < amount_nat (deficit b)" "amount_nat (deficit b) < spend_value (account_notes a db)" "tb_outputs b \<noteq> []"
    and log: "log_room 4 db" and fresh: "\<not> bt_has (tx_sms db) k" "\<not> bt_has (ecash_sms db) k'"
    and op: "read_operation_events op db = []" and ev: "\<And>t. no_verdict (event t)"
  shows "\<exists>txid tsm sm db1 db2 db3.
    finalize_and_submit_tx X k k' a op b targets mx event db = Done (txid, db1) \<and>
    bt_get (tx_sms db1) k = Some tsm \<and> bt_get (ecash_sms db1) k' = Some sm \<and> es_notes sm \<noteq> [] \<and>
    (\<forall>c n. holds db1 c n \<longleftrightarrow> holds db c n \<and> \<not> (c = a \<and> n \<in> set (es_notes sm))) \<and>
    drive_tx (ccrypto (ctx_ops X)) k tsm (Inl err) db1 = Some db2 \<and>
    tx_verdict (es_txid sm) (read_operation_events op db2) = Some (Inl err) \<and>
    drive_ecash k' sm IssuanceRejected db2 = Some db3 \<and>
    (\<forall>c n. holds db3 c n \<longleftrightarrow> holds db c n) \<and> tx_sms db3 = tx_sms db \<and> ecash_sms db3 = ecash_sms db"
proof -
  have log': "log_room (Suc (Suc 2)) db" using log by (simp add: eval_nat_numeral)
  from submission_Done [OF w room short log' fresh, of X mx op targets event] obtain ns rs b' db0 tx re where
    f: "funded X a mx b db ns rs b' db0" "ns \<noteq> []"
    and s: "let txid = compute_tx_id (ccrypto (ctx_ops X)) tx in
     finalize_and_submit_tx X k k' a op b targets mx event db = Done (txid,
       submitted k k' \<lparr>ts_account = a, ts_operation = op, ts_tx = tx\<rparr>
         \<lparr>es_account = a, es_operation = op, es_txid = txid, es_notes = ns, es_requests = targets @ rs,
            es_targets = of_nat (length targets)\<rparr>
         (event txid) (TxCreateEvent txid re (total_fee b')) db0)" by blast
  let ?C = "ccrypto (ctx_ops X)"
  let ?id = "compute_tx_id ?C tx"
  let ?tsm = "\<lparr>ts_account = a, ts_operation = op, ts_tx = tx\<rparr>"
  let ?sm = "\<lparr>es_account = a, es_operation = op, es_txid = ?id, es_notes = ns, es_requests = targets @ rs,
            es_targets = of_nat (length targets)\<rparr>"
  let ?db1 = "submitted k k' ?tsm ?sm (event ?id) (TxCreateEvent ?id re (total_fee b')) db0"
  let ?db2 = "logged a op (TxRejectEvent ?id err) ?db1\<lparr>tx_sms := bt_remove k (tx_sms ?db1)\<rparr>"
  from f(1) obtain t cs where db0: "db0 = db\<lparr>note_table := t, derivation_counters := cs\<rparr>"
    and h: "\<forall>c n. holds db0 c n \<longleftrightarrow> holds db c n \<and> \<not> (c = a \<and> n \<in> set ns)"
    and d: "distinct ns" "\<forall>n \<in> set ns. holds db a n" by (auto simp: funded_def)
  have l0: "log_room (Suc (Suc (Suc 1))) db0" using log by (simp add: db0 eval_nat_numeral)
  note sub = submitted_log [OF l0, where k = k and k' = k' and tsm = ?tsm and sm = ?sm
      and ?ev1.0 = "event ?id" and ?ev2.0 = "TxCreateEvent ?id re (total_fee b')"]
  have l1: "log_room (Suc 1) ?db1" using sub(1) by simp
  have t: "drive_tx ?C k ?tsm (Inl err) ?db1 = Some ?db2" using drive_tx_Some [OF l1, of ?C k ?tsm "Inl err"] by simp
  have l2: "log_room (Suc 0) ?db2" using log_event_room(2) [OF l1] by simp
  have "read_operation_events op db0 = []" using op by (simp add: db0)
  then have e: "read_operation_events op ?db2 =
      [event_of a op (event ?id), event_of a op (TxCreateEvent ?id re (total_fee b'))] @ [event_of a op (TxRejectEvent ?id err)]"
    using operation_events_logged [OF l1, of op a op "TxRejectEvent ?id err"] sub(2) [of op] by simp
  have v: "tx_verdict ?id (read_operation_events op ?db2) = Some (Inl err)"
    unfolding e using ev [of ?id]
    by (subst tx_verdict_append) (simp_all add: event_of_def no_verdict_def [of "TxCreateEvent ?id re (total_fee b')"])
  have h2: "holds ?db2 c n \<longleftrightarrow> holds db0 c n" for c n by (rule holds_cong) (simp add: sub(3))
  have free: "\<forall>n \<in> set (es_notes ?sm). \<not> holds ?db2 (es_account ?sm) n" using h h2 by simp
  obtain db3 where r: "drive_ecash k' ?sm IssuanceRejected ?db2 = Some db3"
    "\<forall>c n. holds db3 c n \<longleftrightarrow> holds ?db2 c n \<or> c = es_account ?sm \<and> n \<in> set (es_notes ?sm)"
    "ecash_sms db3 = bt_remove k' (ecash_sms ?db2)" "tx_sms db3 = tx_sms ?db2"
    using drive_rejected [OF l2 _ free, of k'] d(1) by auto
  have "\<forall>c n. holds db3 c n \<longleftrightarrow> holds db c n" using r(2) h h2 d(2) by auto
  moreover have "tx_sms db3 = tx_sms db" "ecash_sms db3 = ecash_sms db"
    using r(3,4) sub(4,5) remove_inserted [OF fresh(1)] remove_inserted [OF fresh(2)] by (simp_all add: db0)
  moreover have "bt_get (tx_sms ?db1) k = Some ?tsm" "bt_get (ecash_sms ?db1) k' = Some ?sm"
    unfolding sub(4,5) by simp_all
  moreover have "\<forall>c n. holds ?db1 c n \<longleftrightarrow> holds db c n \<and> \<not> (c = a \<and> n \<in> set (es_notes ?sm))"
    using h holds_cong [OF sub(3)] by simp
  ultimately show ?thesis using s t v r(1) f(2)
    by (intro exI [of _ ?id] exI [of _ ?tsm] exI [of _ ?sm] exI [of _ ?db1] exI [of _ ?db2] exI [of _ db3])
      (simp add: Let_def)
qed

theorem rejection_refunds_witness:
  "\<exists>txid sm db1 db2 db3.
    finalize_and_submit_tx sample_ctx 1 2 Primary 3 (from_output sample_output) [] False ReissuanceEvent sample_wallet = Done (txid, db1) \<and>
    bt_get (ecash_sms db1) 2 = Some sm \<and> es_notes sm \<noteq> [] \<and> drive_ecash 2 sm IssuanceRejected db2 = Some db3 \<and>
    (\<forall>c n. holds db3 c n \<longleftrightarrow> holds sample_wallet c n)"
proof -
  note r = rejection_refunds [OF sample_wallet_facts(1) sample_room(1), where k = 1 and k' = 2 and op = 3 and event = ReissuanceEvent and X = sample_ctx and targets = "[]" and mx = False and err = "[]"]
  show ?thesis using r sample_room(2) sample_wallet_facts(3) by (force simp: from_output_def no_verdict_def sample_wallet_def)
qed

section \<open>Issuance\<close>

text \<open>
  An issuance credits each note once. When the mint has signed the requests of a transaction,
  the turn of the ecash state machine puts every note but the leading targets of a send into its
  account, bundles the targets into the send's event on the operation's log and nowhere else, logs
  the issuance first, and removes the machine.
\<close>

theorem issued_settles:
  assumes "log_room 2 db" "unat (es_targets sm) \<le> length ns" "ns \<noteq> []" "distinct (drop (unat (es_targets sm)) ns)"
    "\<forall>(a, n) \<in> set (drop (unat (es_targets sm)) ns). \<not> holds db a n"
  shows "\<exists>db'. drive_ecash k sm (Issued ns) db = Some db' \<and>
    (\<forall>c n. holds db' c n \<longleftrightarrow> holds db c n \<or> (c, n) \<in> set (drop (unat (es_targets sm)) ns)) \<and>
    ecash_sms db' = bt_remove k (ecash_sms db) \<and> derivation_counters db' = derivation_counters db \<and>
    (\<exists>ours. read_operation_events (es_operation sm) db' = read_operation_events (es_operation sm) db @
      event_of (es_account sm) (es_operation sm) (IssuanceSuccessEvent (es_txid sm) ours) #
      (if es_targets sm = 0 then []
       else [event_of (es_account sm) (es_operation sm) (SendSuccessEvent (map snd (take (unat (es_targets sm)) ns)))]))"
  by (rule drive_issued [of 0]) (use assms in \<open>simp_all add: eval_nat_numeral\<close>)

definition sample_send :: ecash_sm where
  "sample_send = \<lparr>es_account = Primary, es_operation = 3, es_txid = 4, es_notes = [], es_requests = [], es_targets = 1\<rparr>"

theorem issued_settles_witness:
  "\<exists>db'. drive_ecash 2 sample_send (Issued [(Primary, wallet_note 9 41), (Primary, wallet_note 10 42)]) sample_wallet = Some db' \<and>
    holds db' Primary (wallet_note 10 42) \<and> \<not> holds db' Primary (wallet_note 9 41)"
proof -
  have h: "\<not> holds sample_wallet Primary (wallet_note 10 42)" "\<not> holds sample_wallet Primary (wallet_note 9 41)"
    by (simp_all add: sample_wallet_def wallet_of_holds sample_notes_def wallet_note_def)
  have "\<exists>db'. drive_ecash 2 sample_send (Issued [(Primary, wallet_note 9 41), (Primary, wallet_note 10 42)]) sample_wallet = Some db' \<and>
    (\<forall>c n. holds db' c n \<longleftrightarrow> holds sample_wallet c n \<or> (c, n) \<in> {(Primary, wallet_note 10 42)})"
    using issued_settles [of sample_wallet sample_send "[(Primary, wallet_note 9 41), (Primary, wallet_note 10 42)]" 2] h
    by (auto simp: sample_send_def sample_wallet_def)
  then show ?thesis using h by (auto simp: wallet_note_def)
qed

section \<open>Exact sends\<close>

text \<open>
  C37. The fast path of a send is complete. It succeeds exactly when some of the account's notes sum to the
  rounded amount: then it returns such notes, removes exactly them from the wallet and logs the send
  and its bundle; and when it fails no selection of notes whatever makes up the amount. It never
  panics.
\<close>

theorem exact_send:
  assumes w: "wallet_ok db" and log: "log_room 2 db"
  shows "case ecash_send_fast a op amt db of
      Done (ns, db') \<Rightarrow> distinct ns \<and> (\<forall>n \<in> set ns. holds db a n) \<and> face_value ns = amount_nat (send_amount amt) \<and>
        (\<forall>c n. holds db' c n \<longleftrightarrow> holds db c n \<and> \<not> (c = a \<and> n \<in> set ns)) \<and>
        read_operation_events op db' = read_operation_events op db @
          [event_of a op (SendEvent (send_amount amt)), event_of a op (SendSuccessEvent ns)]
    | Failed u \<Rightarrow> \<nexists>M. M \<subseteq># mset (account_notes a db) \<and> sum_mset (image_mset note_nat M) = amount_nat (send_amount amt)
    | Panicked \<Rightarrow> False"
proof (cases "exact_notes (account_notes a db) (send_amount amt)")
  case None
  then show ?thesis using exact_notes_spec [OF wallet_notes [OF w], of a "send_amount amt"]
    by (simp add: ecash_send_fast_def send_ecash_notes_def ok_or_def)
next
  case (Some ns)
  with exact_notes_spec [OF wallet_notes [OF w], of a "send_amount amt"] have
    m: "mset ns \<subseteq># mset (account_notes a db)" and v: "face_value ns = amount_nat (send_amount amt)" by simp_all
  have d: "distinct ns" using submset_distinct [OF m distinct_account_notes] .
  have h: "\<forall>n \<in> set ns. holds db a n" using set_mset_mono [OF m] by (auto simp: account_notes_iff holds_def)
  from remove_notes_spec [OF d h] obtain t where t: "remove_notes a ns db = Some (db\<lparr>note_table := t\<rparr>)"
    "\<forall>c n. bt_has t (c, n) \<longleftrightarrow> holds db c n \<and> \<not> (c = a \<and> n \<in> set ns)" by blast
  have l: "log_room (Suc (Suc 0)) (db\<lparr>note_table := t\<rparr>)" using log by (simp add: eval_nat_numeral)
  note e1 = log_event_room [OF l, of a op "SendEvent (send_amount amt)"]
  note e2 = log_event_room [OF e1(2), of a op "SendSuccessEvent ns"]
  show ?thesis
    using Some d h v t e1(1) e2(1) operation_events_logged [OF l] operation_events_logged [OF e1(2)]
    by (simp add: ecash_send_fast_def send_ecash_notes_def ok_or_def expect_def holds_def)
qed

theorem exact_send_witness:
  "\<exists>ns db'. ecash_send_fast Primary 3 (Amount 2097152) sample_wallet = Done (ns, db') \<and> face_value ns = 2097152"
proof -
  have s: "send_amount (Amount 2097152) = Amount 2097152"
    by (simp add: send_amount_def round_to_multiple_def denomination_amount_def)
  have "{#wallet_note 20 1, wallet_note 20 2#} \<subseteq># mset sample_notes" by (simp add: sample_notes_def wallet_note_def)
  then have "{#wallet_note 20 1, wallet_note 20 2#} \<subseteq># mset (account_notes Primary sample_wallet)"
    by (simp only: sample_wallet_facts)
  moreover have "sum_mset (image_mset note_nat {#wallet_note 20 1, wallet_note 20 2#}) = 2097152"
    by (simp add: wallet_note_def dval_def)
  moreover have "log_room 2 sample_wallet" by (simp add: sample_wallet_def)
  ultimately show ?thesis
    using exact_send [OF sample_wallet_facts(1), where a = Primary and op = 3 and amt = "Amount 2097152"] s
    by (cases "ecash_send_fast Primary 3 (Amount 2097152) sample_wallet") auto
qed

section \<open>The mint accepts what the client submits\<close>

text \<open>
  C4. A send the wallet can afford goes through. Let every note of the account be one the mint
  honours, under keys of their own, at most \<open>MAX_INPUTS\<close> of them and together below \<open>2 ^ 42\<close> msat, and let the
  next counters be ones the mint has not signed. If the
  notes deliver more than the rounded amount and its issuance fees, the reissuing send submits a
  transaction, and the mint - running its own transaction processing on it, with its limits,
  signature checks, double-spend checks and funding check - accepts it.
\<close>

theorem reissue_accepted:
  assumes w: "wallet_ok db" and log: "log_room 3 db" and fresh: "\<not> bt_has (tx_sms db) k" "\<not> bt_has (ecash_sms db) k'"
    and d: "512 dvd amount_nat (send_amount amt)" "0 < amount_nat (send_amount amt)"
    and afford: "amount_nat (send_amount amt) + 100 * length (represent_amount (send_amount amt)) < spend_value (account_notes a db)"
    and small: "face_value (account_notes a db) < 2 ^ 42" "length (account_notes a db) \<le> MAX_INPUTS"
    and K: "ctbs (ctx_ops X) = dtbs S" "ccrypto (ctx_ops X) = dcrypto S" "signs_for (ctx_ops X)"
    and backed: "\<And>n. holds db a n \<Longrightarrow> spendable (ctx_ops X) (ecash_cfg cfg) (ecash_tables mint) n"
      "inj_on (note_pub (ctx_ops X)) {n. holds db a n}"
    and keys: "\<And>d. d \<in> set client_denominations \<Longrightarrow> bt_get (tbs_sks (ecash_cfg cfg)) d \<noteq> None"
    and counters: "\<And>i. i < 66 \<Longrightarrow> \<not> bt_has (blinded_nonces (ecash_tables mint))
        (blinded_nonce_of (ctx_ops X) (issuance_new X a (counter_of a db + of_nat i)))"
      "inj_on (\<lambda>i. blinded_nonce_of (ctx_ops X) (issuance_new X a (counter_of a db + of_nat i))) {..<66}"
  shows "\<exists>db' tsm mint'. ecash_send_reissue X k k' a op True amt db = Done db' \<and>
    bt_get (tx_sms db') k = Some tsm \<and> process_tx S cfg (ts_tx tsm) mint = Done mint'"
proof -
  let ?K = "ctx_ops X"
  from reissue_Done [OF w log fresh d afford small(1), of X op] obtain db' tx b' ns es where
    r: "ecash_send_reissue X k k' a op True amt db = Done db'"
      "bt_get (tx_sms db') k = Some \<lparr>ts_account = a, ts_operation = op, ts_tx = tx\<rparr>"
    and tx: "builder_build (ccrypto ?K) b' = Some tx"
    and chk: "funding_check (builder_amounts_in b') (builder_amounts_out b') = Done ()"
    and inp: "tb_inputs b' = map (note_input ?K) ns" "ns \<noteq> []" "distinct ns" "\<forall>n \<in> set ns. holds db a n"
    and out: "tb_outputs b' = map (request_client_output ?K) (requests_at X a db es)" "es \<noteq> []"
      "set es \<subseteq> set client_denominations" "length es \<le> 66" by blast
  have nl: "length ns \<le> MAX_INPUTS"
  proof -
    have "set ns \<subseteq> set (account_notes a db)" using inp(4) by (auto simp: account_notes_iff holds_def)
    then have "length ns \<le> length (account_notes a db)"
      using card_mono [of "set (account_notes a db)" "set ns"] distinct_card [OF inp(3)] card_length [of "account_notes a db"] by simp
    then show ?thesis using small(2) by simp
  qed
  have nd: "distinct (map (note_pub ?K) ns)"
    using inp(3,4) backed(2) by (simp add: distinct_map inj_on_def)
  have rs: "\<forall>r \<in> set (requests_at X a db es). requestable ?K (ecash_cfg cfg) (ecash_tables mint) r"
  proof
    fix r assume "r \<in> set (requests_at X a db es)"
    then obtain i where i: "i < length es" "r = request_at X a db (es ! i) i"
      by (auto simp: in_set_conv_nth requests_at_nth)
    then have "es ! i \<in> set client_denominations" "i < 66" using out(3,4) by auto
    with i(2) show "requestable ?K (ecash_cfg cfg) (ecash_tables mint) r" using keys counters(1) by (simp add: requestable_def)
  qed
  let ?f = "\<lambda>i. blinded_nonce_of ?K (issuance_new X a (counter_of a db + of_nat i))"
  have "map (request_blinded ?K) (requests_at X a db es) = map ?f [0..<length es]"
    by (rule nth_equalityI) (simp_all add: requests_at_nth request_blinded_def)
  moreover have "inj_on ?f (set [0..<length es])" by (rule inj_on_subset [OF counters(2)]) (use out(4) in auto)
  ultimately have rd: "distinct (map (request_blinded ?K) (requests_at X a db es))" by (simp add: distinct_map)
  have "requests_at X a db es \<noteq> []" using out(2) by (metis requests_at_fields(1) length_0_conv)
  from mint_accepts [OF K inp(1) out(1) inp(2) this nl _ _ nd rs rd chk tx] out(4) inp(4) backed(1) obtain mint' where
    "process_tx S cfg tx mint = Done mint'" by (auto simp: MAX_OUTPUTS_def)
  with r show ?thesis by (intro exI [of _ db'] exI conjI) auto
qed

theorem reissue_accepted_witness:
  "\<exists>db' tsm mint'. ecash_send_reissue sample_ctx 1 2 Primary 3 True (Amount 3000) sample_wallet = Done db' \<and>
    bt_get (tx_sms db') 1 = Some tsm \<and> process_tx sample_mint sample_cfg (ts_tx tsm) genesis = Done mint'"
proof -
  have s: "send_amount (Amount 3000) = Amount 3072"
    by (simp add: send_amount_def round_to_multiple_def denomination_amount_def)
  have l: "length (represent_amount (Amount 3072)) \<le> 33"
    by (rule represent_amount_spec(3)) simp_all
  have h: "holds sample_wallet Primary n \<longleftrightarrow> n \<in> set sample_notes" for n by (simp add: sample_wallet_def wallet_of_holds)
  have n: "length (account_notes Primary sample_wallet) = 8"
    using mset_eq_length [OF sample_wallet_facts(2)] by (simp add: sample_notes_def)
  have c: "counter_of Primary sample_wallet = 0" by (simp add: counter_of_def sample_wallet_def)
  have b: "blinded_nonce_of (ctx_ops sample_ctx) (issuance_new sample_ctx Primary (of_nat i)) = of_nat i" if "i < 66" for i
    using that sample_nonces(2) [of Primary "of_nat i"] by (simp add: unat_of_nat)
  have f: "log_room 3 sample_wallet" "\<not> bt_has (tx_sms sample_wallet) 1" "\<not> bt_has (ecash_sms sample_wallet) 2"
    by (simp_all add: sample_wallet_def)
  have g: "ctbs (ctx_ops sample_ctx) = dtbs sample_mint" "ccrypto (ctx_ops sample_ctx) = dcrypto sample_mint"
    by (simp_all add: sample_ctx_def sample_mint_def mint_ops_def sample_ops_def)
  have e: "signs_for (ctx_ops sample_ctx)" "\<not> bt_has (blinded_nonces (ecash_tables genesis)) x" for x
    using sample_signs by (simp_all add: sample_ctx_def genesis_def bt_has_def)
  show ?thesis
  proof (rule reissue_accepted [OF sample_wallet_facts(1)])
    show "inj_on (\<lambda>i. blinded_nonce_of (ctx_ops sample_ctx) (issuance_new sample_ctx Primary (counter_of Primary sample_wallet + of_nat i))) {..<66}"
    proof (rule inj_onI)
      fix i j :: nat assume i: "i \<in> {..<66}" "j \<in> {..<66}"
        "blinded_nonce_of (ctx_ops sample_ctx) (issuance_new sample_ctx Primary (counter_of Primary sample_wallet + of_nat i)) =
         blinded_nonce_of (ctx_ops sample_ctx) (issuance_new sample_ctx Primary (counter_of Primary sample_wallet + of_nat j))"
      then have "(of_nat i :: 384 word) = of_nat j" using b by (simp add: c)
      then have "unat (of_nat i :: 384 word) = unat (of_nat j :: 384 word)" by simp
      then show "i = j" using i(1,2) by (simp add: unat_of_nat)
    qed
    show "inj_on (note_pub (ctx_ops sample_ctx)) {n. holds sample_wallet Primary n}"
      by (simp add: h sample_notes_def inj_on_def note_pub_def sample_ctx_def sample_ops_def wallet_note_def)
    show "\<And>n. holds sample_wallet Primary n \<Longrightarrow> spendable (ctx_ops sample_ctx) (ecash_cfg sample_cfg) (ecash_tables genesis) n"
      using sample_keys(1) sample_notes_facts(2)
      by (auto simp: h spendable_def genesis_def bt_has_def client_notes_def list_all_iff verify_note_def sample_ctx_def sample_ops_def
          mint_tbs_def note_of_def sample_notes_def wallet_note_def)
  qed (use s l n sample_wallet_facts(3,4) sample_keys(2) b c f g e in \<open>simp_all add: MAX_INPUTS_def\<close>)
qed

section \<open>Restores\<close>

text \<open>
  C21. A restore finds every live note. Let the mint have seen no counter from some bound on, and
  no gap of a whole batch below it. Scanning against the mint's own tables of spent nonces and
  issued blinded nonces ends, less than a batch past the bound, with exactly the requests of the
  counters whose note the mint signed and has not seen spent, in order; and once committed, the
  account's next counter is one from which the mint has seen nothing.
\<close>

theorem restore_finds:
  assumes gap: "gap_free X (bt_has (note_nonces sdb)) (bt_get (blinded_nonces sdb)) a bound"
    and room: "bound + 2 * RESTORE_BATCH \<le> 2 ^ 64"
  shows "\<exists>c. scan_counters X (bt_has (note_nonces sdb)) (bt_get (blinded_nonces sdb)) a 0 [] =
      Some (c, List.map_filter (live_request X (bt_has (note_nonces sdb)) (bt_get (blinded_nonces sdb)) a \<circ> of_nat) [0..<bound]) \<and>
    unat c < bound + RESTORE_BATCH \<and> counter_of a (commit_scan a c notes db) = c \<and>
    (\<forall>c'. c \<le> c' \<longrightarrow> \<not> counter_used X (bt_has (note_nonces sdb)) (bt_get (blinded_nonces sdb)) a c')"
proof -
  from scan_counters_spec [OF gap room] obtain c where
    c: "scan_counters X (bt_has (note_nonces sdb)) (bt_get (blinded_nonces sdb)) a 0 [] =
      Some (of_nat c, List.map_filter (live_request X (bt_has (note_nonces sdb)) (bt_get (blinded_nonces sdb)) a \<circ> of_nat) [0..<bound])"
    "bound \<le> c" "c < bound + RESTORE_BATCH" by blast
  have u: "unat (of_nat c :: u64) = c" using c(3) room by (simp add: unat_of_nat)
  have "\<not> counter_used X (bt_has (note_nonces sdb)) (bt_get (blinded_nonces sdb)) a c'" if "of_nat c \<le> c'" for c'
    using gap that c(2) u by (fastforce simp: gap_free_def word_le_nat_alt)
  with c u show ?thesis by (intro exI [of _ "of_nat c"]) (simp add: commit_scan_def counter_of_def)
qed

text \<open>A mint that signed the counters 0 and 1 and has seen the note of counter 1 spent.\<close>

definition sample_issued :: ecash_db where
  "sample_issued =
     \<lparr>note_nonces = bs_insert 1 bt_empty, blinded_nonces = bt_insert 1 10 (bt_insert 0 9 bt_empty),
      signature_shares_table = bt_empty, restore_shares = bt_empty\<rparr>"

lemma sample_seen:
  "counter_used sample_ctx (bt_has (note_nonces sample_issued)) (bt_get (blinded_nonces sample_issued)) a c \<longleftrightarrow> unat c < 2"
proof -
  have u: "unat (of_nat (unat c) :: 256 word) = unat c" "unat (of_nat (unat c) :: 384 word) = unat c"
    using unsigned_less [of c, where 'a = nat] by (simp only: unat_of_nat; simp)+
  have e: "(of_nat (unat c) :: 256 word) = 1 \<longleftrightarrow> unat c = 1" "(of_nat (unat c) :: 384 word) = 1 \<longleftrightarrow> unat c = 1"
    "(of_nat (unat c) :: 384 word) = 0 \<longleftrightarrow> unat c = 0"
    using u by (auto simp: word_unat_eq_iff)
  show ?thesis
    unfolding counter_used_def sample_nonces by (simp add: sample_issued_def bt_has_def e del: of_nat_unat)
qed

lemma sample_gap_free: "gap_free sample_ctx (bt_has (note_nonces sample_issued)) (bt_get (blinded_nonces sample_issued)) a 2"
  unfolding gap_free_def sample_seen
proof (intro conjI allI impI)
  fix i :: nat assume "i < 2"
  then have "i \<in> {i..<i + RESTORE_BATCH}" "unat (of_nat i :: u64) < 2" by (simp_all add: RESTORE_BATCH_def unat_of_nat)
  then show "\<exists>j \<in> {i..<i + RESTORE_BATCH}. unat (of_nat j :: u64) < 2" by blast
qed

theorem restore_finds_witness:
  "\<exists>c. scan_counters sample_ctx (bt_has (note_nonces sample_issued)) (bt_get (blinded_nonces sample_issued)) Primary 0 [] =
     Some (c, [request_new sample_ctx Primary 9 0])"
proof -
  have "live_request sample_ctx (bt_has (note_nonces sample_issued)) (bt_get (blinded_nonces sample_issued)) Primary 0 =
      Some (request_new sample_ctx Primary 9 0)"
    "live_request sample_ctx (bt_has (note_nonces sample_issued)) (bt_get (blinded_nonces sample_issued)) Primary 1 = None"
    unfolding live_request_def sample_nonces by (simp_all add: sample_issued_def bt_has_def)
  moreover have "[0..<2] = [0, 1 :: nat]" by (simp add: upt_rec)
  ultimately show ?thesis using restore_finds [OF sample_gap_free, of Primary] by (fastforce simp: List.map_filter_simps RESTORE_BATCH_def)
qed

section \<open>Where funding stops short\<close>

text \<open>
  A deficit that takes every note exactly is refused. When the account's notes, with less than
  all of their value in the surplus, deliver exactly what a builder lacks, funding fails as if the
  funds were insufficient: the selection loop takes every note and then asks for one more.
\<close>

theorem exact_cover_refused:
  assumes "wallet_ok db" "funding_room a b db" "amount_nat (deficit b) = spend_value (account_notes a db)"
    "spend_value (surplus_notes (account_notes a db)) < spend_value (account_notes a db)"
  shows "fund X a mx b db = Failed ()"
  using assms by (rule fund_exact_cover)

definition exact_output :: client_output where
  "exact_output = \<lparr>co_output = EcashOut (EcashOutput 9 9), co_amount = Amount 824, co_fee = Amount 100\<rparr>"

theorem exact_cover_refused_witness:
  "fund sample_ctx Primary True (from_output exact_output) (wallet_of [wallet_note 10 2]) = Failed ()"
proof -
  have m: "mset (account_notes Primary (wallet_of [wallet_note 10 2])) = mset [wallet_note 10 2]" by (rule wallet_of_notes) simp
  then have a: "account_notes Primary (wallet_of [wallet_note 10 2]) = [wallet_note 10 2]" by simp
  have n: "surplus_notes [wallet_note 10 2] = []"
    by (simp add: surplus_notes_def wallet_note_def TARGET_PER_DENOMINATION_def)
  have r: "in_nat (from_output exact_output) = 0" "out_nat (from_output exact_output) = 824" "fee_nat (from_output exact_output) = 100"
    by (simp_all add: in_nat_def out_nat_def fee_nat_def from_output_def exact_output_def)
  show ?thesis
  proof (rule exact_cover_refused)
    show "wallet_ok (wallet_of [wallet_note 10 2])" by (rule wallet_of_ok) (simp add: wallet_note_def client_denominations_iff)
    show "funding_room Primary (from_output exact_output) (wallet_of [wallet_note 10 2])"
      using r by (simp add: funding_room_def a) (simp add: face_value_def wallet_note_def dval_def)
    show "amount_nat (deficit (from_output exact_output)) = spend_value (account_notes Primary (wallet_of [wallet_note 10 2]))"
      using r by (subst deficit_nat) (simp_all add: in_range_def a, simp add: wallet_note_def dval_def)
    show "spend_value (surplus_notes (account_notes Primary (wallet_of [wallet_note 10 2]))) <
        spend_value (account_notes Primary (wallet_of [wallet_note 10 2]))"
      by (simp add: a n) (simp add: wallet_note_def dval_def)
  qed
qed

text \<open>
  C39. A bundle within the limit can still overflow it, once and for all. A receive accepts a bundle of up to
  as many notes as a transaction may have inputs, but its transaction also spends the account's whole
  surplus. When the two together exceed the limit, the receive succeeds, every mint in every state
  rejects its transaction for having too many inputs, and the bundle, recorded as received, is
  refused from then on, into any account.
\<close>

theorem oversized_receive:
  assumes "wallet_ok db" "client_notes ns" "2 \<le> length ns" "length ns \<le> MAX_INPUTS"
    "MAX_INPUTS < length ns + length (surplus_notes (account_notes a db))"
    "face_value ns + 100 * length ns + face_value (account_notes a db) < 2 ^ 64"
    "log_room 2 db" "\<not> bt_has (tx_sms db) k" "\<not> bt_has (ecash_sms db) k'"
    "\<not> bt_has (receive_operations db) (bundle_operation (ccrypto (ctx_ops X)) (ctx_mint X) ns)"
  shows "\<exists>op db' tsm. ecash_receive X k k' a (ctx_mint X) ns db = Done (op, db') \<and> bt_get (tx_sms db') k = Some tsm \<and>
    (\<forall>S cfg mint. process_tx S cfg (ts_tx tsm) mint = Failed TooManyInputs) \<and>
    (\<forall>j j' a' db2. receive_operations db2 = receive_operations db' \<longrightarrow>
       ecash_receive X j j' a' (ctx_mint X) ns db2 = Failed AlreadyAttempted)"
proof -
  let ?op = "bundle_operation (ccrypto (ctx_ops X)) (ctx_mint X) ns"
  from receive_Done [OF assms(1-4,6-10)] obtain db' tsm where
    r: "ecash_receive X k k' a (ctx_mint X) ns db = Done (?op, db')" "bt_get (tx_sms db') k = Some tsm"
    and t: "tx_outputs (ts_tx tsm) \<noteq> []" "length (tx_inputs (ts_tx tsm)) = length ns + length (surplus_notes (account_notes a db))"
    and o: "receive_operations db' = bs_insert ?op (receive_operations db)" by blast
  have "tx_inputs (ts_tx tsm) \<noteq> []" using t(2) assms(3) by auto
  then have "\<forall>S cfg mint. process_tx S cfg (ts_tx tsm) mint = Failed TooManyInputs"
    using t assms(5) by (simp add: process_tx_def)
  moreover have "ns \<noteq> []" using assms(3) by auto
  then have "ecash_receive X j j' a' (ctx_mint X) ns db2 = Failed AlreadyAttempted"
    if "receive_operations db2 = receive_operations db'" for j j' a' db2
    using that o assms(4) client_note_economical [OF assms(2)] by (simp add: ecash_receive_def Let_def bt_has_def)
  ultimately show ?thesis using r by blast
qed

lemma sample_bundle: "client_notes (map (wallet_note 9) is)" "face_value (map (wallet_note 9) is) = 512 * length is"
  by (induction "is") (simp_all add: wallet_note_def client_denominations_iff face_value_def dval_def)

theorem oversized_receive_witness:
  "\<exists>op db' tsm. ecash_receive sample_ctx 1 2 Primary 5 (map (wallet_note 9) [0..<1024]) sample_wallet = Done (op, db') \<and>
    bt_get (tx_sms db') 1 = Some tsm \<and> process_tx mint_ops mint_cfg (ts_tx tsm) genesis = Failed TooManyInputs"
proof -
  have m: "ctx_mint sample_ctx = 5" by (simp add: sample_ctx_def)
  have "mset (filter (\<lambda>n. sn_denomination n = 20) (account_notes Primary sample_wallet)) =
      mset (filter (\<lambda>n. sn_denomination n = 20) sample_notes)"
    by (simp only: mset_filter sample_wallet_facts)
  then have "length (filter (\<lambda>n. sn_denomination n = 20) (account_notes Primary sample_wallet)) =
      length (filter (\<lambda>n. sn_denomination n = 20) sample_notes)" by (rule mset_eq_length)
  then have "length (drop (2 * TARGET_PER_DENOMINATION) (filter (\<lambda>n. sn_denomination n = 20) (account_notes Primary sample_wallet))) = 1"
    by (simp add: sample_notes_def wallet_note_def TARGET_PER_DENOMINATION_def)
  moreover have "(20 :: u8) \<in> set client_denominations" by (simp add: client_denominations_iff)
  ultimately have "0 < length (surplus_notes (account_notes Primary sample_wallet))"
    by (fastforce simp: surplus_notes_def length_concat)
  then show ?thesis
    using oversized_receive [OF sample_wallet_facts(1) sample_bundle(1), of "[0..<1024]" Primary 1 2 sample_ctx]
      sample_wallet_facts(4) sample_bundle(2) [of "[0..<1024]"]
    by (auto simp: m MAX_INPUTS_def sample_wallet_def)
qed

end
