(* ===== verification/Base32.thy ===== *)
theory Base32
  imports Codec
begin

unbundle bit_operations_syntax

text \<open>
  The base32 strings the user sees (\<open>picomint-base32/src/lib.rs\<close>): base32hex, least significant bits
  first, behind a prefix. A string is the list of its ASCII bytes; \<open>to_lowercase\<close> is modelled on
  ASCII letters, so strings with other characters are outside the model. The bit buffer is a \<open>usize\<close>
  of 64 bits.
\<close>

section \<open>The code\<close>

definition RFC4648 :: bytes where
  "RFC4648 = ascii ''0123456789abcdefghijklmnopqrstuv''"

definition PREFIX :: bytes where
  "PREFIX = ascii ''picomint''"

text \<open>\<open>while bits >= 5\<close>: the digits the buffer holds.\<close>

fun drain_digits :: "bytes \<Rightarrow> u64 \<Rightarrow> nat \<Rightarrow> bytes \<times> u64 \<times> nat" where
  "drain_digits out buffer bits =
     (if 5 \<le> bits then drain_digits (out @ [RFC4648 ! unat (buffer AND 0b11111)]) (drop_bit 5 buffer) (bits - 5)
      else (out, buffer, bits))"

declare drain_digits.simps [simp del]

fun encode_loop :: "bytes \<Rightarrow> bytes \<times> u64 \<times> nat \<Rightarrow> bytes \<times> u64 \<times> nat" where
  "encode_loop [] st = st"
| "encode_loop (b # bs) (out, buffer, bits) =
     encode_loop bs (drain_digits out (buffer OR push_bit bits (ucast b)) (bits + 8))"

definition encode_bytes :: "bytes \<Rightarrow> bytes" where
  "encode_bytes input =
     (let (out, buffer, bits) = encode_loop input ([], 0, 0)
      in if 0 < bits then out @ [RFC4648 ! unat (buffer AND 0b11111)] else out)"

text \<open>The table from a byte to its digit.\<close>

definition digit_of :: "u8 \<Rightarrow> nat option" where
  "digit_of c = map_of (zip RFC4648 [0..<32]) c"

fun drain_bytes :: "bytes \<Rightarrow> u64 \<Rightarrow> nat \<Rightarrow> bytes \<times> u64 \<times> nat" where
  "drain_bytes out buffer bits =
     (if 8 \<le> bits then drain_bytes (out @ [ucast (buffer AND 0xFF)]) (drop_bit 8 buffer) (bits - 8)
      else (out, buffer, bits))"

declare drain_bytes.simps [simp del]

fun decode_loop :: "bytes \<Rightarrow> bytes \<times> u64 \<times> nat \<Rightarrow> bytes option" where
  "decode_loop [] (out, buffer, bits) = Some out"
| "decode_loop (c # cs) (out, buffer, bits) =
     (case digit_of c of
        None \<Rightarrow> None
      | Some v \<Rightarrow> decode_loop cs (drain_bytes out (buffer OR push_bit bits (of_nat v)) (bits + 5)))"

definition decode_bytes :: "bytes \<Rightarrow> bytes option" where
  "decode_bytes input = decode_loop input ([], 0, 0)"

definition base32_encode :: "('a \<Rightarrow> bytes) \<Rightarrow> 'a \<Rightarrow> bytes" where
  "base32_encode enc x = PREFIX @ encode_bytes (enc x)"

definition to_lowercase :: "u8 \<Rightarrow> u8" where
  "to_lowercase c = (if 0x41 \<le> c \<and> c \<le> 0x5A then c + 0x20 else c)"

definition to_uppercase :: "u8 \<Rightarrow> u8" where
  "to_uppercase c = (if 0x61 \<le> c \<and> c \<le> 0x7A then c - 0x20 else c)"

definition base32_decode :: "'a decoder \<Rightarrow> bytes \<Rightarrow> 'a option" where
  "base32_decode dec s0 =
     (let s = map to_lowercase s0
      in if take (length PREFIX) s = PREFIX
         then Option.bind (decode_bytes (drop (length PREFIX) s)) (consensus_decode dec) else None)"

section \<open>The numbers behind the digits\<close>

text \<open>The number a list of digits stands for, the least significant first.\<close>

definition le_value :: "nat \<Rightarrow> nat list \<Rightarrow> nat" where
  "le_value base ds = foldr (\<lambda>d a. d + base * a) ds 0"

lemma le_value_simps [simp]: "le_value b [] = 0" "le_value b (d # ds) = d + b * le_value b ds"
  by (simp_all add: le_value_def)

lemma le_value_snoc: "le_value b (ds @ [d]) = le_value b ds + d * b ^ length ds"
  by (induction ds) (simp_all add: algebra_simps)

lemma le_value_less: "\<forall>d \<in> set ds. d < b \<Longrightarrow> le_value b ds < b ^ length ds"
proof (induction ds)
  case (Cons d ds)
  then have "d + b * le_value b ds < b + b * le_value b ds" by simp
  also have "\<dots> = b * (le_value b ds + 1)" by simp
  also have "\<dots> \<le> b * b ^ length ds" using Cons by (intro mult_le_mono2) simp
  finally show ?case by simp
qed simp

lemma le_value_inj:
  "length ds = length es \<Longrightarrow> \<forall>d \<in> set ds. d < b \<Longrightarrow> \<forall>e \<in> set es. e < b \<Longrightarrow> le_value b ds = le_value b es \<Longrightarrow> ds = es"
proof (induction ds es rule: list_induct2)
  case (Cons d ds e es)
  then have eq: "d + b * le_value b ds = e + b * le_value b es" and lt: "d < b" "e < b" by simp_all
  then have "(d + b * le_value b ds) mod b = (e + b * le_value b es) mod b" by simp
  then have "d = e" using lt by simp
  with eq lt Cons show ?case by simp
qed simp

abbreviation bytes_value :: "bytes \<Rightarrow> nat" where
  "bytes_value bs \<equiv> le_value 256 (map unat bs)"

lemma bytes_value_less: "bytes_value bs < 256 ^ length bs"
  using le_value_less [of "map unat bs" 256] unsigned_less [where 'a = nat and 'b = 8] by auto

lemma bytes_value_inj: "length bs = length cs \<Longrightarrow> bytes_value bs = bytes_value cs \<Longrightarrow> bs = cs"
  using le_value_inj [of "map unat bs" "map unat cs" 256] unsigned_less [where 'a = nat and 'b = 8]
  by (auto simp: list_eq_iff_nth_eq word_unat_eq_iff)

text \<open>Filling and draining the buffer.\<close>

lemma unat_fill:
  fixes buffer x :: u64
  assumes "unat buffer < 2 ^ bits" "unat x < 2 ^ w" "bits + w \<le> 64"
  shows "unat (buffer OR push_bit bits x) = unat buffer + unat x * 2 ^ bits"
proof -
  have "unat x * 2 ^ bits < 2 ^ w * 2 ^ bits" using assms(2) by simp
  also have "\<dots> \<le> (2 :: nat) ^ 64" unfolding power_add [symmetric] using assms(3) by (intro power_increasing) simp_all
  finally have p: "unat (push_bit bits x) = unat x * 2 ^ bits"
    unfolding unsigned_push_bit_eq push_bit_eq_mult [where 'a = nat] by (simp add: take_bit_nat_eq_self)
  have "unat (buffer OR push_bit bits x) = unat buffer OR unat x * 2 ^ bits" by (simp add: unsigned_or_eq p)
  also have "\<dots> = unat buffer + unat x * 2 ^ bits"
  proof -
    have t: "take_bit bits (unat buffer) = unat buffer" using assms(1) by (simp add: take_bit_nat_eq_self)
    have "unat buffer AND push_bit bits (unat x) = 0"
    proof (rule bit_eqI)
      fix n
      have "bit (unat buffer) n \<Longrightarrow> n < bits" using bit_take_bit_iff [of bits "unat buffer" n] t by simp
      then show "bit (unat buffer AND push_bit bits (unat x)) n = bit 0 n" by (auto simp: bit_and_iff bit_push_bit_iff)
    qed
    then show ?thesis by (simp add: disjunctive_add_eq_or push_bit_eq_mult)
  qed
  finally show ?thesis .
qed

lemma unat_low: "unat (buffer AND mask n :: u64) = unat buffer mod 2 ^ n"
  unfolding take_bit_eq_mask [symmetric] unsigned_take_bit_eq take_bit_eq_mod [where 'a = nat] ..

lemma unat_drop: "unat (drop_bit n buffer :: u64) = unat buffer div 2 ^ n"
proof -
  have "unat (drop_bit n buffer) = drop_bit n (unat buffer)"
    using unsigned_less [of buffer, where 'a = nat] by (simp add: unsigned_drop_bit_eq take_bit_nat_eq_self)
  then show ?thesis by (simp add: drop_bit_eq_div [where 'a = nat])
qed

section \<open>The loops\<close>

lemma digit_of_code: "d < 32 \<Longrightarrow> digit_of (RFC4648 ! d) = Some d"
proof -
  have "distinct RFC4648" "length RFC4648 = 32" by (simp_all add: RFC4648_def ascii_def)
  moreover assume "d < 32"
  ultimately show ?thesis
    unfolding digit_of_def by (subst map_of_zip_nth) simp_all
qed

text \<open>
  What the encoder has written and what it holds stand for what it has read. The digits are given by
  their numbers, and the output is their images in the alphabet.
\<close>

definition digits_of :: "nat list \<Rightarrow> bytes" where
  "digits_of ds = map (\<lambda>d. RFC4648 ! d) ds"

lemma drain_digits_spec:
  assumes "unat buffer < 2 ^ bits" "bits \<le> 64"
  shows "\<exists>es buffer' bits'. drain_digits (digits_of ds) buffer bits = (digits_of (ds @ es), buffer', bits') \<and>
    (\<forall>d \<in> set es. d < 32) \<and> bits = 5 * length es + bits' \<and> bits' < 5 \<and> unat buffer' < 2 ^ bits' \<and>
    unat buffer = le_value 32 es + unat buffer' * 32 ^ length es"
  using assms
proof (induction bits arbitrary: ds buffer rule: less_induct)
  case (less bits)
  show ?case
  proof (cases "5 \<le> bits")
    case False
    then show ?thesis using less.prems by (intro exI [of _ "[]"]) (simp add: drain_digits.simps)
  next
    case True
    let ?d = "unat (buffer AND 0b11111)" and ?b = "drop_bit 5 buffer"
    have d: "?d = unat buffer mod 32" using unat_low [of buffer 5] by (simp add: mask_eq_exp_minus_1)
    have b: "unat ?b = unat buffer div 32" using unat_drop [of 5 buffer] by simp
    have "unat buffer < 2 ^ (bits - 5) * 32"
    proof -
      have "(2 :: nat) ^ bits = 2 ^ (bits - 5) * 2 ^ 5" using True power_add [of "2 :: nat" "bits - 5" 5] by simp
      then show ?thesis using less.prems by simp
    qed
    then have ub: "unat ?b < 2 ^ (bits - 5)" unfolding b by (simp add: less_mult_imp_div_less)
    have lt: "bits - 5 < bits" "bits - 5 \<le> 64" using True less.prems by simp_all
    from less.IH [OF lt(1) ub lt(2), of "ds @ [?d]"]
    obtain es buffer' bits' where e: "drain_digits (digits_of (ds @ [?d])) ?b (bits - 5) = (digits_of ((ds @ [?d]) @ es), buffer', bits')"
      "\<forall>d \<in> set es. d < 32" "bits - 5 = 5 * length es + bits'" "bits' < 5" "unat buffer' < 2 ^ bits'"
      "unat ?b = le_value 32 es + unat buffer' * 32 ^ length es"
      by blast
    have step: "drain_digits (digits_of ds) buffer bits = drain_digits (digits_of (ds @ [?d])) ?b (bits - 5)"
      using True by (subst drain_digits.simps) (simp add: digits_of_def)
    have split: "unat buffer = ?d + 32 * unat ?b" unfolding d b by simp
    have "unat buffer = ?d + 32 * (le_value 32 es + unat buffer' * 32 ^ length es)" using split e(6) by simp
    then have val: "unat buffer = le_value 32 (?d # es) + unat buffer' * 32 ^ length (?d # es)" by (simp add: algebra_simps)
    have "?d < 32" unfolding d by simp
    then show ?thesis using e(1-5) True unfolding step
      by (intro exI [of _ "?d # es"] exI [of _ buffer'] exI [of _ bits'] conjI val) simp_all
  qed
qed

lemma encode_loop_spec:
  assumes "unat buffer < 2 ^ bits" "bits < 5"
  shows "\<exists>es buffer' bits'. encode_loop bs (digits_of ds, buffer, bits) = (digits_of (ds @ es), buffer', bits') \<and>
    (\<forall>d \<in> set es. d < 32) \<and> bits + 8 * length bs = 5 * length es + bits' \<and> bits' < 5 \<and> unat buffer' < 2 ^ bits' \<and>
    unat buffer + bytes_value bs * 2 ^ bits = le_value 32 es + unat buffer' * 32 ^ length es"
  using assms
proof (induction bs arbitrary: ds buffer bits)
  case Nil
  then show ?case by (intro exI [of _ "[]"]) simp
next
  case (Cons b bs)
  let ?B = "buffer OR push_bit bits (ucast b) :: u64"
  have ub: "unat (ucast b :: u64) = unat b" "unat b < 2 ^ 8"
    using unsigned_less [of b, where 'a = nat] by (simp_all add: unsigned_ucast_eq take_bit_eq_mod)
  have B: "unat ?B = unat buffer + unat b * 2 ^ bits"
    using unat_fill [of buffer bits "ucast b" 8] Cons.prems ub by simp
  have "unat buffer + unat b * 2 ^ bits < (unat b + 1) * 2 ^ bits" using Cons.prems by simp
  also have "\<dots> \<le> 2 ^ 8 * 2 ^ bits" using ub by (intro mult_le_mono1) simp
  finally have "unat ?B < 2 ^ (bits + 8)" unfolding B by (simp add: power_add)
  moreover have "bits + 8 \<le> 64" using Cons.prems by simp
  ultimately obtain es b1 k1 where 1: "drain_digits (digits_of ds) ?B (bits + 8) = (digits_of (ds @ es), b1, k1)"
    "\<forall>d \<in> set es. d < 32" "bits + 8 = 5 * length es + k1" "k1 < 5" "unat b1 < 2 ^ k1"
    "unat ?B = le_value 32 es + unat b1 * 32 ^ length es"
    using drain_digits_spec by blast
  from Cons.IH [OF 1(5,4)] obtain fs b2 k2 where 2: "encode_loop bs (digits_of (ds @ es), b1, k1) = (digits_of ((ds @ es) @ fs), b2, k2)"
    "\<forall>d \<in> set fs. d < 32" "k1 + 8 * length bs = 5 * length fs + k2" "k2 < 5" "unat b2 < 2 ^ k2"
    "unat b1 + bytes_value bs * 2 ^ k1 = le_value 32 fs + unat b2 * 32 ^ length fs"
    by blast
  have app: "le_value 32 (es @ fs) = le_value 32 es + 32 ^ length es * le_value 32 fs"
    by (induction es) (simp_all add: algebra_simps)
  have "(2 :: nat) ^ (bits + 8) = 2 ^ (5 * length es + k1)" using 1(3) by simp
  then have p: "256 * (2 :: nat) ^ bits = 32 ^ length es * 2 ^ k1" by (simp add: power_add power_mult)
  have "unat buffer + bytes_value (b # bs) * 2 ^ bits = unat ?B + bytes_value bs * (256 * 2 ^ bits)"
    unfolding B by (simp add: algebra_simps)
  also have "\<dots> = le_value 32 es + 32 ^ length es * (unat b1 + bytes_value bs * 2 ^ k1)"
    unfolding p 1(6) by (simp add: algebra_simps)
  also have "\<dots> = le_value 32 (es @ fs) + unat b2 * 32 ^ length (es @ fs)"
    unfolding 2(6) app by (simp add: algebra_simps power_add)
  finally show ?case using 1 2
    by (intro exI [of _ "es @ fs"] exI [of _ b2] exI [of _ k2]) auto
qed

lemma encode_bytes_spec:
  "\<exists>ds. encode_bytes bs = digits_of ds \<and> (\<forall>d \<in> set ds. d < 32) \<and> le_value 32 ds = bytes_value bs \<and>
     8 * length bs \<le> 5 * length ds \<and> 5 * length ds < 8 * length bs + 5"
proof -
  obtain es b k where e: "encode_loop bs (digits_of [], 0, 0) = (digits_of es, b, k)" "\<forall>d \<in> set es. d < 32"
    "8 * length bs = 5 * length es + k" "k < 5" "unat b < 2 ^ k" "bytes_value bs = le_value 32 es + unat b * 32 ^ length es"
    using encode_loop_spec [of 0 0 bs "[]"] by auto
  show ?thesis
  proof (cases "k = 0")
    case True
    then show ?thesis using e by (intro exI [of _ es]) (simp add: encode_bytes_def digits_of_def)
  next
    case False
    have "unat b < 2 ^ 5" using e(4,5) by (meson le_less_trans less_imp_le_nat less_le_trans one_le_numeral power_increasing)
    then have "unat (b AND 0b11111) = unat b" using unat_low [of b 5] by (simp add: mask_eq_exp_minus_1)
    then have "encode_bytes bs = digits_of (es @ [unat b])"
      using e(1) False by (simp add: encode_bytes_def digits_of_def)
    then show ?thesis using e False \<open>unat b < 2 ^ 5\<close>
      by (intro exI [of _ "es @ [unat b]"]) (auto simp: le_value_snoc)
  qed
qed

lemma drain_bytes_spec:
  assumes "unat buffer < 2 ^ bits" "bits \<le> 64"
  shows "\<exists>es buffer' bits'. drain_bytes out buffer bits = (out @ es, buffer', bits') \<and>
    bits = 8 * length es + bits' \<and> bits' < 8 \<and> unat buffer' < 2 ^ bits' \<and>
    unat buffer = bytes_value es + unat buffer' * 256 ^ length es"
  using assms
proof (induction bits arbitrary: out buffer rule: less_induct)
  case (less bits)
  show ?case
  proof (cases "8 \<le> bits")
    case False
    then show ?thesis using less.prems by (intro exI [of _ "[]"]) (simp add: drain_bytes.simps)
  next
    case True
    let ?c = "ucast (buffer AND 0xFF) :: u8" and ?b = "drop_bit 8 buffer"
    have c: "unat ?c = unat buffer mod 256"
      using unat_low [of buffer 8] by (simp add: mask_eq_exp_minus_1 unsigned_ucast_eq take_bit_eq_mod)
    have b: "unat ?b = unat buffer div 256" using unat_drop [of 8 buffer] by simp
    have "unat buffer < 2 ^ (bits - 8) * 256"
      using less.prems True power_add [of "2 :: nat" "bits - 8" 8] by simp
    then have ub: "unat ?b < 2 ^ (bits - 8)" unfolding b by (simp add: less_mult_imp_div_less)
    have lt: "bits - 8 < bits" "bits - 8 \<le> 64" using True less.prems by simp_all
    from less.IH [OF lt(1) ub lt(2), of "out @ [?c]"]
    obtain es buffer' bits' where e: "drain_bytes (out @ [?c]) ?b (bits - 8) = ((out @ [?c]) @ es, buffer', bits')"
      "bits - 8 = 8 * length es + bits'" "bits' < 8" "unat buffer' < 2 ^ bits'"
      "unat ?b = bytes_value es + unat buffer' * 256 ^ length es"
      by blast
    have step: "drain_bytes out buffer bits = drain_bytes (out @ [?c]) ?b (bits - 8)"
      using True by (subst drain_bytes.simps) simp
    have "unat buffer = unat ?c + 256 * unat ?b" unfolding c b by simp
    then have "unat buffer = unat ?c + 256 * (bytes_value es + unat buffer' * 256 ^ length es)" using e(5) by simp
    then have val: "unat buffer = bytes_value (?c # es) + unat buffer' * 256 ^ length (?c # es)" by (simp add: algebra_simps)
    show ?thesis using e(1-4) True unfolding step
      by (intro exI [of _ "?c # es"] exI [of _ buffer'] exI [of _ bits'] conjI val) simp_all
  qed
qed

lemma decode_loop_spec:
  assumes "unat buffer < 2 ^ bits" "bits < 8" "\<forall>d \<in> set ds. d < 32"
  shows "\<exists>es (buffer' :: u64) bits'. decode_loop (digits_of ds) (out, buffer, bits) = Some (out @ es) \<and>
    bits + 5 * length ds = 8 * length es + bits' \<and> bits' < 8 \<and>
    unat buffer + le_value 32 ds * 2 ^ bits = bytes_value es + unat buffer' * 256 ^ length es"
  using assms
proof (induction ds arbitrary: out buffer bits)
  case Nil
  show ?case
    using Nil by (intro exI [of _ "[]"] exI [of _ buffer] exI [of _ bits]) (simp add: digits_of_def)
next
  case (Cons d ds)
  let ?B = "buffer OR push_bit bits (of_nat d) :: u64"
  have d: "d < 32" "unat (of_nat d :: u64) = d" "digit_of (RFC4648 ! d) = Some d"
    using Cons.prems(3) digit_of_code [of d] by (simp_all add: unat_of_nat)
  have B: "unat ?B = unat buffer + d * 2 ^ bits"
    using unat_fill [of buffer bits "of_nat d" 5] Cons.prems d by simp
  have "unat buffer + d * 2 ^ bits < (d + 1) * 2 ^ bits" using Cons.prems by simp
  also have "\<dots> \<le> 2 ^ 5 * 2 ^ bits" using d by (intro mult_le_mono1) simp
  finally have "unat ?B < 2 ^ (bits + 5)" unfolding B by (simp add: power_add)
  moreover have "bits + 5 \<le> 64" using Cons.prems by simp
  ultimately obtain es b1 k1 where 1: "drain_bytes out ?B (bits + 5) = (out @ es, b1, k1)"
    "bits + 5 = 8 * length es + k1" "k1 < 8" "unat b1 < 2 ^ k1"
    "unat ?B = bytes_value es + unat b1 * 256 ^ length es"
    using drain_bytes_spec by blast
  have ds: "\<forall>d \<in> set ds. d < 32" using Cons.prems by simp
  from Cons.IH [OF 1(4,3) ds] obtain fs and b2 :: u64 and k2 where 2: "decode_loop (digits_of ds) (out @ es, b1, k1) = Some ((out @ es) @ fs)"
    "k1 + 5 * length ds = 8 * length fs + k2" "k2 < 8"
    "unat b1 + le_value 32 ds * 2 ^ k1 = bytes_value fs + unat b2 * 256 ^ length fs"
    by blast
  have app: "bytes_value (es @ fs) = bytes_value es + 256 ^ length es * bytes_value fs"
    by (induction es) (simp_all add: algebra_simps)
  have "(2 :: nat) ^ (bits + 5) = 2 ^ (8 * length es + k1)" using 1(2) by simp
  then have p: "32 * (2 :: nat) ^ bits = 256 ^ length es * 2 ^ k1" by (simp add: power_add power_mult)
  have "unat buffer + le_value 32 (d # ds) * 2 ^ bits = unat ?B + le_value 32 ds * (32 * 2 ^ bits)"
    unfolding B by (simp add: algebra_simps)
  also have "\<dots> = bytes_value es + 256 ^ length es * (unat b1 + le_value 32 ds * 2 ^ k1)"
    unfolding p 1(5) by (simp add: algebra_simps)
  also have "\<dots> = bytes_value (es @ fs) + unat b2 * 256 ^ length (es @ fs)"
    unfolding 2(4) app by (simp add: algebra_simps power_add)
  finally show ?case using 1 2 d
    by (intro exI [of _ "es @ fs"] exI [of _ b2] exI [of _ k2]) (simp add: digits_of_def)
qed

section \<open>Round trips\<close>

lemma decode_encode_bytes: "decode_bytes (encode_bytes bs) = Some bs"
proof -
  obtain ds where ds: "encode_bytes bs = digits_of ds" "\<forall>d \<in> set ds. d < 32" "le_value 32 ds = bytes_value bs"
    "8 * length bs \<le> 5 * length ds" "5 * length ds < 8 * length bs + 5"
    using encode_bytes_spec [of bs] by blast
  obtain es and b :: u64 and k where e: "decode_loop (digits_of ds) ([], 0, 0) = Some es" "5 * length ds = 8 * length es + k" "k < 8"
    "le_value 32 ds = bytes_value es + unat b * 256 ^ length es"
    using decode_loop_spec [of 0 0 ds "[]"] ds(2) by auto
  have l: "length es = length bs" using ds(4,5) e(2,3) by linarith
  have "unat b * 256 ^ length bs < 1 * 256 ^ length bs"
    using ds(3) e(4) bytes_value_less [of bs] unfolding l by linarith
  then have "unat b < 1" by (simp only: mult_less_cancel2)
  then have "unat b = 0" by simp
  then have "bytes_value es = bytes_value bs" using ds(3) e(4) by simp
  then have "es = bs" by (rule bytes_value_inj [OF l])
  then show ?thesis using e(1) by (simp add: decode_bytes_def ds(1))
qed

text \<open>The strings are lower case, and reading ignores the case of what it reads.\<close>

lemma code_case: "d < 32 \<Longrightarrow> to_lowercase (RFC4648 ! d) = RFC4648 ! d \<and> to_lowercase (to_uppercase (RFC4648 ! d)) = RFC4648 ! d"
proof -
  assume "d < 32"
  moreover have "length RFC4648 = 32" by (simp add: RFC4648_def ascii_def)
  ultimately have "RFC4648 ! d \<in> set RFC4648" using nth_mem [of d RFC4648] by metis
  moreover have "\<forall>c \<in> set RFC4648. to_lowercase c = c \<and> to_lowercase (to_uppercase c) = c"
    by (simp add: RFC4648_def ascii_def to_lowercase_def to_uppercase_def)
  ultimately show ?thesis by blast
qed

lemma prefix_case: "map to_lowercase PREFIX = PREFIX" "map (to_lowercase \<circ> to_uppercase) PREFIX = PREFIX"
  by (simp_all add: PREFIX_def ascii_def to_lowercase_def to_uppercase_def)

lemma encode_bytes_case:
  "map to_lowercase (encode_bytes bs) = encode_bytes bs" "map (to_lowercase \<circ> to_uppercase) (encode_bytes bs) = encode_bytes bs"
proof -
  obtain ds where "encode_bytes bs = digits_of ds" "\<forall>d \<in> set ds. d < 32" using encode_bytes_spec [of bs] by blast
  then show "map to_lowercase (encode_bytes bs) = encode_bytes bs" "map (to_lowercase \<circ> to_uppercase) (encode_bytes bs) = encode_bytes bs"
    by (auto simp: digits_of_def code_case)
qed

lemma base32_decode_encode:
  assumes "consensus_decode dec (enc x) = Some x"
  shows "base32_decode dec (base32_encode enc x) = Some x" "base32_decode dec (map to_uppercase (base32_encode enc x)) = Some x"
proof -
  have l: "map to_lowercase (base32_encode enc x) = base32_encode enc x"
    "map to_lowercase (map to_uppercase (base32_encode enc x)) = base32_encode enc x"
    unfolding base32_encode_def map_append map_map by (simp_all add: prefix_case encode_bytes_case)
  show "base32_decode dec (base32_encode enc x) = Some x" "base32_decode dec (map to_uppercase (base32_encode enc x)) = Some x"
    unfolding base32_decode_def l by (simp_all add: base32_encode_def decode_encode_bytes assms)
qed

text \<open>What a character outside the alphabet does, wherever it stands.\<close>

lemma decode_loop_invalid: "digit_of c = None \<Longrightarrow> c \<in> set cs \<Longrightarrow> decode_loop cs st = None"
proof (induction cs arbitrary: st)
  case (Cons e cs)
  show ?case
  proof (cases "e = c")
    case True
    then show ?thesis using Cons.prems by (cases st) simp
  next
    case False
    then have "\<And>st. decode_loop cs st = None" using Cons by simp
    then show ?thesis by (cases st) (simp split: option.split)
  qed
qed simp

text \<open>
  Strings the user sees read back. What \<open>encode\<close> writes for a value, \<open>decode\<close> reads as that
  value, in the case it was written or in upper case, as QR codes carry it; and a string with a
  character outside the alphabet behind the prefix is refused.
\<close>

theorem base32_roundtrip:
  assumes "consensus_decode dec (enc x) = Some x"
  shows "base32_decode dec (base32_encode enc x) = Some x \<and>
    base32_decode dec (map to_uppercase (base32_encode enc x)) = Some x \<and>
    (\<forall>s c. c \<in> set s \<and> digit_of (to_lowercase c) = None \<longrightarrow> base32_decode dec (PREFIX @ s) = None)"
proof (intro conjI allI impI)
  fix s c assume "c \<in> set s \<and> digit_of (to_lowercase c) = None"
  then have "decode_bytes (map to_lowercase s) = None"
    unfolding decode_bytes_def by (intro decode_loop_invalid [of "to_lowercase c"]) simp_all
  then show "base32_decode dec (PREFIX @ s) = None" by (simp add: base32_decode_def prefix_case)
qed (rule base32_decode_encode [where enc = enc, OF assms])+

theorem base32_roundtrip_witness:
  "base32_decode dec_u64 (map to_uppercase (base32_encode enc_u64 77)) = Some 77 \<and>
   base32_decode dec_u64 (PREFIX @ [0x7A]) = None"
proof -
  have "consensus_decode dec_u64 (enc_u64 77) = Some 77" by (rule u64c.decode_encode) simp
  moreover have "digit_of (to_lowercase 0x7A) = None"
    by (simp add: digit_of_def to_lowercase_def RFC4648_def ascii_def upt_rec)
  ultimately show ?thesis using base32_roundtrip [of dec_u64 enc_u64 77] by auto
qed

end
