(* ===== verification/Client_Lightning.thy ===== *)
theory Client_Lightning
  imports Client_Ecash Base32
begin

text \<open>
  The Lightning module of the client (\<open>picomint-client/src/lightning\<close>) with the contracts and fees it
  shares with the gateway (\<open>picomint-core/src/lightning\<close>): paying an invoice through a gateway and the
  state machine that settles it, the scan that claims incoming contracts, the pool of gateways and the
  lnurls of a mint. An invoice is what the code reads of a BOLT11 invoice; the gateway, the mint's
  answers and the lnurl endpoint are arguments, and the elliptic curve is a record of operations.
\<close>

section \<open>Contracts\<close>

text \<open>Secret keys are 32 bytes. A tweak the curve refuses is \<open>None\<close>, which the code expects never to happen.\<close>

record ecdh_ops =
  public_key :: "hash256 \<Rightarrow> secp_pk"
  pk_x_only :: "secp_pk \<Rightarrow> xonly"
  shared_secret :: "secp_pk \<Rightarrow> hash256 \<Rightarrow> bytes"
  pk_mul_tweak :: "secp_pk \<Rightarrow> hash256 \<Rightarrow> secp_pk option"
  sk_mul_tweak :: "hash256 \<Rightarrow> hash256 \<Rightarrow> hash256 option"

definition claim_tweak :: "crypto \<Rightarrow> bytes \<Rightarrow> hash256" where
  "claim_tweak C shared = secret_leaf C LeafSecpScalar (secret_child C (enc_u8 0) (secret_root C (enc_byte_array shared)))"

text \<open>\<open>IncomingContract::author\<close>, with the ephemeral key drawn.\<close>

definition author_contract :: "crypto \<Rightarrow> ecdh_ops \<Rightarrow> hash256 \<Rightarrow> secp_pk \<Rightarrow> amount \<Rightarrow> amount \<Rightarrow> incoming_contract option" where
  "author_contract C E ephemeral recipient amt fee =
     map_option (\<lambda>pk. \<lparr>ic_amount = amt, ic_fee = fee, ic_claim_pk = pk_x_only E pk, ephemeral_pk = public_key E ephemeral\<rparr>)
       (pk_mul_tweak E recipient (claim_tweak C (shared_secret E recipient ephemeral)))"

text \<open>\<open>recover\<close>: the outer option is the panic.\<close>

definition recover_contract :: "client_ops \<Rightarrow> ecdh_ops \<Rightarrow> hash256 \<Rightarrow> incoming_contract \<Rightarrow> hash256 option option" where
  "recover_contract K E sk c =
     map_option (\<lambda>kp. if x_only_public_key K kp \<noteq> ic_claim_pk c then None else Some kp)
       (sk_mul_tweak E sk (claim_tweak (ccrypto K) (shared_secret E (ephemeral_pk c) sk)))"

section \<open>Fees\<close>

record payment_fee =
  pf_base :: amount
  pf_ppm :: u16

definition SEND_FEE_LIMIT :: payment_fee where
  "SEND_FEE_LIMIT = \<lparr>pf_base = amount_from_sat 50, pf_ppm = 10000\<rparr>"

definition RECEIVE_FEE_LIMIT :: payment_fee where
  "RECEIVE_FEE_LIMIT = \<lparr>pf_base = amount_from_sat 50, pf_ppm = 10000\<rparr>"

definition fee_is_within :: "payment_fee \<Rightarrow> payment_fee \<Rightarrow> bool" where
  "fee_is_within f limit \<longleftrightarrow> pf_base f \<le> pf_base limit \<and> pf_ppm f \<le> pf_ppm limit"

text \<open>\<open>absolute_fee\<close>: \<open>None\<close> where the sum with the base does not fit.\<close>

definition absolute_fee :: "payment_fee \<Rightarrow> u64 \<Rightarrow> u64 option" where
  "absolute_fee f m = checked_add (saturating_mul m (ucast (pf_ppm f)) div 1000000) (msat (pf_base f))"

definition payment_fee_of :: "payment_fee \<Rightarrow> u64 \<Rightarrow> amount option" where
  "payment_fee_of f m = map_option Amount (absolute_fee f m)"

definition fee_add_to :: "payment_fee \<Rightarrow> u64 \<Rightarrow> amount option" where
  "fee_add_to f m = map_option (\<lambda>x. Amount (saturating_add m x)) (absolute_fee f m)"

definition fee_subtract_from :: "payment_fee \<Rightarrow> u64 \<Rightarrow> amount option" where
  "fee_subtract_from f m = map_option (\<lambda>x. Amount (saturating_sub m x)) (absolute_fee f m)"

record gateway_info =
  module_public_key :: xonly
  send_fee :: payment_fee
  receive_fee :: payment_fee

section \<open>The pool of gateways\<close>

text \<open>A gateway of the pool with the latest info it answered, if any; its connection is left out.\<close>

type_synonym gateway_pool = "(hash256, gateway_info option) btmap"

definition reconcile_gateways :: "hash256 list \<Rightarrow> bool \<Rightarrow> gateway_pool \<Rightarrow> gateway_pool" where
  "reconcile_gateways pks prune pool =
     fold (\<lambda>pk m. if bt_has m pk then m else bt_insert pk None m) pks
       (if prune then bt_filter (\<lambda>pk _. pk \<in> set pks) pool else pool)"

definition probed_gateway :: "hash256 \<Rightarrow> gateway_info option \<Rightarrow> gateway_pool \<Rightarrow> gateway_pool" where
  "probed_gateway pk info pool = (if bt_has pool pk then bt_insert pk info pool else pool)"

definition list_gateways :: "gateway_pool \<Rightarrow> (hash256, gateway_info) btmap" where
  "list_gateways pool = bt_of_list (List.map_filter (\<lambda>(pk, i). map_option (Pair pk) i) (entries pool))"

definition gateway_info_of :: "hash256 \<Rightarrow> gateway_pool \<Rightarrow> gateway_info option" where
  "gateway_info_of pk pool = Option.bind (bt_get pool pk) id"

section \<open>The module's tables\<close>

record bolt11 =
  iv_amount :: "u64 option"
  iv_expired :: bool
  iv_network :: string
  iv_payment_hash :: hash256
  iv_payee :: secp_pk
  iv_hash :: hash256

datatype send_state = Funding | Refunding hash256

record send_sm =
  ls_account :: account
  ls_operation :: hash256
  ls_outpoint :: out_point
  ls_contract :: outgoing_contract
  ls_gateway :: hash256
  ls_invoice :: bolt11
  ls_refund_keypair :: hash256
  ls_state :: send_state

record lightning_client =
  lc_wallet :: client_db
  lc_cursor :: "u64 option"
  lc_gateway_pks :: "hash256 btset"
  lc_send_operations :: "hash256 btset"
  lc_send_sms :: "(sm_id, send_sm) btmap"

text \<open>\<open>update_gateway_pks\<close>, once the mint has answered with its list.\<close>

definition update_gateway_pks :: "hash256 list \<Rightarrow> lightning_client \<Rightarrow> gateway_pool \<Rightarrow> lightning_client \<times> gateway_pool" where
  "update_gateway_pks pks db pool =
     (db\<lparr>lc_gateway_pks := fold bs_insert pks bt_empty\<rparr>, reconcile_gateways pks True pool)"

text \<open>\<open>update_gateway_info\<close>: \<open>answers\<close> are the probes in the order they return.\<close>

definition update_gateway_info :: "(hash256 \<times> gateway_info option) list \<Rightarrow> lightning_client \<Rightarrow> gateway_pool \<Rightarrow> gateway_pool" where
  "update_gateway_info answers db pool =
     (let pks = bt_keys (lc_gateway_pks db)
      in fold (\<lambda>(pk, i). probed_gateway pk i) (filter (\<lambda>a. fst a \<in> set pks) answers) (reconcile_gateways pks False pool))"

definition lightning_wipe_tables :: "lightning_client \<Rightarrow> lightning_client" where
  "lightning_wipe_tables db =
     db\<lparr>lc_cursor := None, lc_send_operations := bt_empty, lc_gateway_pks := bt_empty, lc_send_sms := bt_empty\<rparr>"

definition lightning_operation_is_active :: "hash256 \<Rightarrow> lightning_client \<Rightarrow> bool" where
  "lightning_operation_is_active op db \<longleftrightarrow> list_ex (\<lambda>sm. ls_operation sm = op) (bt_values (lc_send_sms db))"

section \<open>Sending\<close>

datatype invoice_send_error =
    InvoiceMissingAmount | InvoiceExpired | InvoiceAlreadyAttempted | GatewayFeeExceedsLimit
  | GatewayNotAvailable | SendInsufficientBalance | WrongCurrency | InvoiceSendNotAdded

record lightning_ctx =
  lx_client :: client_ctx
  lx_ecdh :: ecdh_ops
  lx_secret :: hash256
  lx_network :: string

abbreviation lx_ops :: "lightning_ctx \<Rightarrow> client_ops" where
  "lx_ops X \<equiv> ctx_ops (lx_client X)"

definition outgoing_output :: "outgoing_contract \<Rightarrow> client_output" where
  "outgoing_output c =
     \<lparr>co_output = LightningOut (OutgoingOutput c), co_amount = amount_add (oc_amount c) (oc_fee c), co_fee = LIGHTNING_OUTPUT_FEE\<rparr>"

definition incoming_output :: "amount \<Rightarrow> incoming_contract \<Rightarrow> client_output" where
  "incoming_output amt c = \<lparr>co_output = LightningOut (IncomingOutput c), co_amount = amt, co_fee = LIGHTNING_OUTPUT_FEE\<rparr>"

text \<open>
  \<open>send_inner\<close>: \<open>refund\<close> is the fresh refund key, \<open>ids\<close> those of the three state machines. Nothing is
  written when it fails, since the write transaction is dropped.
\<close>

definition lightning_send ::
  "lightning_ctx \<Rightarrow> sm_id \<times> sm_id \<times> sm_id \<Rightarrow> hash256 \<Rightarrow> account \<Rightarrow> hash256 \<Rightarrow> gateway_info \<Rightarrow> bolt11 \<Rightarrow> bool \<Rightarrow>
   lightning_client \<Rightarrow> (invoice_send_error, hash256 \<times> lightning_client) outcome" where
  "lightning_send X ids refund a gateway info iv mx db =
     (let (k, k', k'') = ids; K = lx_ops X in
      obind (ok_or InvoiceMissingAmount (iv_amount iv)) (\<lambda>amt.
      obind (ensure (\<not> iv_expired iv) InvoiceExpired) (\<lambda>_.
      obind (ensure (lx_network X = iv_network iv) WrongCurrency) (\<lambda>_.
      obind (ensure (fee_is_within (send_fee info) SEND_FEE_LIMIT) GatewayFeeExceedsLimit) (\<lambda>_.
      obind (expect (payment_fee_of (send_fee info) amt)) (\<lambda>fee.
      let op = iv_payment_hash iv;
          c = \<lparr>payment_hash = iv_payment_hash iv, oc_amount = Amount amt, oc_fee = fee,
               oc_claim_pk = module_public_key info, refund_pk = x_only_public_key K refund, invoice = iv_hash iv\<rparr>
      in obind (ensure (\<not> bt_has (lc_send_operations db) op) InvoiceAlreadyAttempted) (\<lambda>_.
         obind (map_err (\<lambda>_. SendInsufficientBalance)
             (finalize_and_submit_tx (lx_client X) k k' a op (from_output (outgoing_output c)) [] mx
               (\<lambda>txid. LightningSendEvent txid (Amount amt) fee) (lc_wallet db))) (\<lambda>(txid, w).
         obind (expect (insert_new k''
             \<lparr>ls_account = a, ls_operation = op, ls_outpoint = OutPoint txid 0, ls_contract = c, ls_gateway = gateway,
              ls_invoice = iv, ls_refund_keypair = refund, ls_state = Funding\<rparr> (lc_send_sms db))) (\<lambda>sms.
         Done (op, db\<lparr>lc_wallet := w, lc_send_operations := bs_insert op (lc_send_operations db), lc_send_sms := sms\<rparr>))))))))))"

text \<open>\<open>lightning_invoice_send\<close> on an added mint.\<close>

definition lightning_invoice_send ::
  "lightning_ctx \<Rightarrow> gateway_pool \<Rightarrow> sm_id \<times> sm_id \<times> sm_id \<Rightarrow> hash256 \<Rightarrow> account \<Rightarrow> hash256 \<Rightarrow> bolt11 \<Rightarrow>
   lightning_client \<Rightarrow> (invoice_send_error, hash256 \<times> lightning_client) outcome" where
  "lightning_invoice_send X pool ids refund a gateway iv db =
     obind (ok_or GatewayNotAvailable (gateway_info_of gateway pool)) (\<lambda>info.
       lightning_send X ids refund a gateway info iv False db)"

text \<open>
  \<open>lnurl_send\<close>: what the endpoint answers is an argument, an error or an invoice.
\<close>

datatype lnurl_send_error = LnurlFailed string | InvoiceAmountMismatch | LnurlInvoice invoice_send_error

definition lnurl_send ::
  "lightning_ctx \<Rightarrow> (u64 \<Rightarrow> string + bolt11) \<Rightarrow> sm_id \<times> sm_id \<times> sm_id \<Rightarrow> hash256 \<Rightarrow> account \<Rightarrow> hash256 \<Rightarrow> gateway_info \<Rightarrow>
   amount \<Rightarrow> bool \<Rightarrow> lightning_client \<Rightarrow> (lnurl_send_error, hash256 \<times> lightning_client) outcome" where
  "lnurl_send X endpoint ids refund a gateway info amt mx db =
     (case endpoint (msat amt) of
        Inl e \<Rightarrow> Failed (LnurlFailed e)
      | Inr iv \<Rightarrow>
          if iv_amount iv \<noteq> Some (msat amt) then Failed InvoiceAmountMismatch
          else map_err LnurlInvoice (lightning_send X ids refund a gateway info iv mx db))"

text \<open>
  \<open>send_max_amount\<close>, with the search for the largest affordable amount over fees that can panic.
\<close>

partial_function (option) bisect_priced :: "(amount \<Rightarrow> amount option) \<Rightarrow> amount \<Rightarrow> u64 \<Rightarrow> u64 \<Rightarrow> u64 option" where
  "bisect_priced priced spendable lo hi =
     (if lo < hi then
        (let mid = div_ceil (lo + hi) 2
         in case priced (amount_from_sat mid) of
              None \<Rightarrow> None
            | Some x \<Rightarrow> if x \<le> spendable then bisect_priced priced spendable mid hi
                else bisect_priced priced spendable lo (mid - 1))
      else Some lo)"

definition largest_affordable_priced :: "amount \<Rightarrow> (amount \<Rightarrow> amount option) \<Rightarrow> amount option" where
  "largest_affordable_priced spendable rail_fees =
     (let priced = (\<lambda>a. map_option (amount_add a) (rail_fees a))
      in case priced amount_zero of
           None \<Rightarrow> None
         | Some x \<Rightarrow>
             if spendable < x then Some amount_zero
             else map_option amount_from_sat (bisect_priced priced spendable 0 (msat spendable div 1000)))"

definition rail_fee :: "gateway_info option \<Rightarrow> amount \<Rightarrow> amount option" where
  "rail_fee info amt =
     map_option (\<lambda>f. amount_add f LIGHTNING_OUTPUT_FEE)
       (case info of None \<Rightarrow> Some amount_zero | Some i \<Rightarrow> payment_fee_of (send_fee i) (msat amt))"

definition send_max_amount :: "account \<Rightarrow> gateway_info option \<Rightarrow> client_db \<Rightarrow> amount option" where
  "send_max_amount a info w =
     Option.bind (max_spendable (account_notes a w)) (\<lambda>spendable. largest_affordable_priced spendable (rail_fee info))"

section \<open>Settling a send\<close>

datatype send_outcome = SendRejected | GatewayResponse "schnorr_sig + hash256" | PreimageTable hash256 | Refunded

text \<open>
  What can end the wait of \<open>trigger\<close>: the mint's verdict on a transaction, the gateway's response and
  the preimage the mint holds for the contract, each if it has come.
\<close>

fun send_trigger ::
  "crypto \<Rightarrow> send_sm \<Rightarrow> (hash256 \<Rightarrow> (string + unit) option) \<Rightarrow> (schnorr_sig + hash256) option \<Rightarrow> hash256 option \<Rightarrow>
   send_outcome \<Rightarrow> bool" where
  "send_trigger C sm verdict response preimage SendRejected \<longleftrightarrow>
     ls_state sm = Funding \<and> (\<exists>e. verdict (op_txid (ls_outpoint sm)) = Some (Inl e))"
| "send_trigger C sm verdict response preimage (GatewayResponse r) \<longleftrightarrow>
     ls_state sm = Funding \<and> response = Some r \<and> verify_gateway_response C (ls_contract sm) r"
| "send_trigger C sm verdict response preimage (PreimageTable p) \<longleftrightarrow>
     preimage = Some p \<and> verify_preimage C (ls_contract sm) p \<and>
     (case ls_state sm of Funding \<Rightarrow> True | Refunding t \<Rightarrow> \<exists>e. verdict t = Some (Inl e))"
| "send_trigger C sm verdict response preimage Refunded \<longleftrightarrow>
     (\<exists>t. ls_state sm = Refunding t \<and> verdict t = Some (Inr ()))"

definition refund_input :: "send_sm \<Rightarrow> schnorr_sig \<Rightarrow> client_input" where
  "refund_input sm s =
     \<lparr>ci_input = LightningIn (OutgoingInput (ls_outpoint sm) (Cancel s)), ci_keypair = ls_refund_keypair sm,
      ci_amount = amount_add (oc_amount (ls_contract sm)) (oc_fee (ls_contract sm)), ci_fee = LIGHTNING_INPUT_FEE\<rparr>"

text \<open>The next state, \<open>None\<close> when the machine ends; the outer option is a panic.\<close>

definition send_transition ::
  "client_ctx \<Rightarrow> sm_id \<times> sm_id \<Rightarrow> send_sm \<Rightarrow> send_outcome \<Rightarrow> client_db \<Rightarrow> (send_sm option \<times> client_db) option" where
  "send_transition X ids sm out w =
     (let (k, k') = ids; a = ls_account sm; op = ls_operation sm;
          success = (\<lambda>p. map_option (Pair None) (log_event a op (LightningSendSuccessEvent p) w))
      in case out of
           SendRejected \<Rightarrow> Some (None, w)
         | PreimageTable p \<Rightarrow> success p
         | GatewayResponse (Inr p) \<Rightarrow> success p
         | GatewayResponse (Inl s) \<Rightarrow>
             (case finalize_and_submit_tx X k k' a op (from_input (refund_input sm s)) [] False LightningSendRefundEvent w of
                Done (txid, w') \<Rightarrow> Some (Some (sm\<lparr>ls_state := Refunding txid\<rparr>), w')
              | Failed u \<Rightarrow> Some (None, w)
              | Panicked \<Rightarrow> None)
         | Refunded \<Rightarrow> Some (None, w))"

definition drive_send :: "client_ctx \<Rightarrow> sm_id \<times> sm_id \<Rightarrow> sm_id \<Rightarrow> send_sm \<Rightarrow> send_outcome \<Rightarrow> lightning_client \<Rightarrow> lightning_client option" where
  "drive_send X ids k sm out db =
     map_option (\<lambda>(next, w). db\<lparr>lc_wallet := w,
         lc_send_sms := (case next of None \<Rightarrow> bt_remove k (lc_send_sms db) | Some sm' \<Rightarrow> bt_insert k sm' (lc_send_sms db))\<rparr>)
       (send_transition X ids sm out (lc_wallet db))"

section \<open>Receiving\<close>

datatype invoice_receive_error =
    ReceiveGatewayNotAvailable | FailedToConnectToGateway | ReceiveFeeExceedsLimit | AmountTooSmall
  | InvalidInvoice | IncorrectInvoiceAmount | InvoiceReceiveNotAdded

text \<open>\<open>create_contract_and_fetch_invoice\<close>: \<open>gateway\<close> is the gateway's answer to the contract.\<close>

definition fetch_invoice ::
  "lightning_ctx \<Rightarrow> hash256 \<Rightarrow> (incoming_contract \<Rightarrow> bolt11 option) \<Rightarrow> gateway_info \<Rightarrow> secp_pk \<Rightarrow> amount \<Rightarrow>
   (invoice_receive_error, bolt11) outcome" where
  "fetch_invoice X ephemeral gateway info recipient amt =
     obind (ensure (fee_is_within (receive_fee info) RECEIVE_FEE_LIMIT) ReceiveFeeExceedsLimit) (\<lambda>_.
     obind (expect (payment_fee_of (receive_fee info) (msat amt))) (\<lambda>fee.
     obind (ensure (amount_checked_sub amt fee \<noteq> None) AmountTooSmall) (\<lambda>_.
     obind (expect (author_contract (ccrypto (lx_ops X)) (lx_ecdh X) ephemeral recipient amt fee)) (\<lambda>c.
     obind (ok_or FailedToConnectToGateway (gateway c)) (\<lambda>iv.
     obind (ensure (iv_payment_hash iv = contract_payment_hash (ccrypto (lx_ops X)) c) InvalidInvoice) (\<lambda>_.
     obind (ensure (iv_amount iv = Some (msat amt)) IncorrectInvoiceAmount) (\<lambda>_. Done iv)))))))"

definition receive_secret :: "lightning_ctx \<Rightarrow> account \<Rightarrow> hash256" where
  "receive_secret X a = lightning_receive_keypair (ccrypto (lx_ops X)) a (lx_secret X)"

definition lightning_invoice_receive ::
  "lightning_ctx \<Rightarrow> gateway_pool \<Rightarrow> hash256 \<Rightarrow> (incoming_contract \<Rightarrow> bolt11 option) \<Rightarrow> account \<Rightarrow> hash256 \<Rightarrow> amount \<Rightarrow>
   (invoice_receive_error, bolt11) outcome" where
  "lightning_invoice_receive X pool ephemeral gateway a pk amt =
     obind (ok_or ReceiveGatewayNotAvailable (gateway_info_of pk pool)) (\<lambda>info.
       fetch_invoice X ephemeral gateway info (public_key (lx_ecdh X) (receive_secret X a)) amt)"

definition claim_input :: "hash256 \<Rightarrow> out_point \<Rightarrow> amount \<Rightarrow> client_input" where
  "claim_input kp p amt =
     \<lparr>ci_input = LightningIn (IncomingInput p), ci_keypair = kp, ci_amount = amt, ci_fee = LIGHTNING_INPUT_FEE\<rparr>"

definition claim_operation :: "crypto \<Rightarrow> out_point \<Rightarrow> hash256" where
  "claim_operation C p = sha256 C (enc_out_point p)"

definition receive_incoming_contract ::
  "lightning_ctx \<Rightarrow> sm_id \<times> sm_id \<Rightarrow> account \<Rightarrow> hash256 \<Rightarrow> out_point \<Rightarrow> incoming_contract \<Rightarrow> client_db \<Rightarrow> client_db option" where
  "receive_incoming_contract X ids a sk p c w =
     (let (k, k') = ids; C = ccrypto (lx_ops X) in
      Option.bind (recover_contract (lx_ops X) (lx_ecdh X) sk c) (\<lambda>claim.
      case claim of
        None \<Rightarrow> Some w
      | Some kp \<Rightarrow>
          Option.bind (claim_amount c) (\<lambda>amt.
          case finalize_and_submit_tx (lx_client X) k k' a (claim_operation C p) (from_input (claim_input kp p amt)) [] False
              (\<lambda>txid. LightningReceiveEvent txid (contract_payment_hash C c) (ic_amount c) (ic_fee c)) w of
            Done (txid, w') \<Rightarrow> Some w'
          | Failed u \<Rightarrow> Some w
          | Panicked \<Rightarrow> None)))"

definition ALL_ACCOUNTS :: "account list" where
  "ALL_ACCOUNTS = [Primary, Secondary, Tertiary, Quaternary, Quinary]"

text \<open>One round of \<open>receive_scan\<close>: a page of the mint's stream, every account's key tried on each entry.\<close>

definition scan_page ::
  "lightning_ctx \<Rightarrow> (out_point \<Rightarrow> account \<Rightarrow> sm_id \<times> sm_id) \<Rightarrow> (out_point \<times> incoming_contract) list \<Rightarrow> u64 \<Rightarrow> lightning_client \<Rightarrow>
   lightning_client option" where
  "scan_page X ids page next_pos db =
     map_option (\<lambda>w. db\<lparr>lc_wallet := w, lc_cursor := Some next_pos\<rparr>)
       (fold (\<lambda>((p, c), a) w. Option.bind w (receive_incoming_contract X (ids p a) a (receive_secret X a) p c))
         (List.product page ALL_ACCOUNTS) (Some (lc_wallet db)))"

section \<open>Lnurls of a mint\<close>

record lnurl_request =
  lr_recipient :: secp_pk
  lr_nodes :: "hash256 list"
  lr_info :: hash256

definition enc_lnurl_request :: "lnurl_request \<Rightarrow> bytes" where
  "enc_lnurl_request r = enc_int (lr_recipient r) @ enc_vec enc_hash (lr_nodes r) @ enc_hash (lr_info r)"

text \<open>\<open>rsplit_once\<close>: what stands behind the last occurrence of a separator.\<close>

fun rsplit_once :: "bytes \<Rightarrow> bytes \<Rightarrow> bytes option" where
  "rsplit_once sep [] = (if sep = [] then Some [] else None)"
| "rsplit_once sep (x # xs) =
     (case rsplit_once sep xs of
        Some r \<Rightarrow> Some r
      | None \<Rightarrow> if take (length sep) (x # xs) = sep then Some (drop (length sep) (x # xs)) else None)"

definition decode_lnurl_request :: "lnurl_request decoder \<Rightarrow> bytes \<Rightarrow> lnurl_request option" where
  "decode_lnurl_request dec url = Option.bind (rsplit_once (ascii ''/pay/'') url) (base32_decode dec)"

definition lnurl_recipient :: "lnurl_request decoder \<Rightarrow> hash256 \<Rightarrow> bytes \<Rightarrow> secp_pk option" where
  "lnurl_recipient dec mint_info url =
     Option.bind (decode_lnurl_request dec url) (\<lambda>r. if lr_info r = mint_info then Some (lr_recipient r) else None)"

text \<open>The url behind the lnurl of an account; \<open>nodes\<close> are those drawn, \<open>daemon\<close> the url of the lnurl daemon.\<close>

definition lnurl_receive_url :: "lightning_ctx \<Rightarrow> hash256 list \<Rightarrow> hash256 \<Rightarrow> bytes \<Rightarrow> account \<Rightarrow> bytes" where
  "lnurl_receive_url X nodes mint_info daemon a =
     daemon @ ascii ''pay/'' @ base32_encode enc_lnurl_request
       \<lparr>lr_recipient = public_key (lx_ecdh X) (receive_secret X a), lr_nodes = nodes, lr_info = mint_info\<rparr>"

definition lnurl_mint :: "lnurl_request decoder \<Rightarrow> (hash256 \<times> hash256) list \<Rightarrow> bytes \<Rightarrow> hash256 option" where
  "lnurl_mint dec mints url =
     Option.bind (decode_lnurl_request dec url) (\<lambda>r. map_option fst (List.find (\<lambda>e. snd e = lr_info r) mints))"

datatype lnurl_direct_error = NotThisMint | DirectInsufficientBalance | DirectNotAdded

definition lnurl_send_direct ::
  "lightning_ctx \<Rightarrow> lnurl_request decoder \<Rightarrow> hash256 \<Rightarrow> sm_id \<times> sm_id \<Rightarrow> hash256 \<Rightarrow> account \<Rightarrow> bytes \<Rightarrow> amount \<Rightarrow> bool \<Rightarrow>
   lightning_client \<Rightarrow> (lnurl_direct_error, hash256 \<times> lightning_client) outcome" where
  "lnurl_send_direct X dec mint_info ids ephemeral a url amt mx db =
     (let (k, k') = ids; C = ccrypto (lx_ops X) in
      obind (ok_or NotThisMint (lnurl_recipient dec mint_info url)) (\<lambda>recipient.
      obind (expect (author_contract C (lx_ecdh X) ephemeral recipient amt amount_zero)) (\<lambda>c.
      let op = contract_payment_hash C c
      in obind (map_err (\<lambda>_. DirectInsufficientBalance)
           (finalize_and_submit_tx (lx_client X) k k' a op (from_output (incoming_output amt c)) [] mx
             (\<lambda>txid. LightningSendEvent txid amt amount_zero) (lc_wallet db))) (\<lambda>(txid, w).
         Done (op, db\<lparr>lc_wallet := w\<rparr>)))))"

section \<open>The calls of an added mint\<close>

definition lightning_lnurl_send ::
  "lightning_ctx \<Rightarrow> gateway_pool \<Rightarrow> (u64 \<Rightarrow> string + bolt11) \<Rightarrow> sm_id \<times> sm_id \<times> sm_id \<Rightarrow> hash256 \<Rightarrow> account \<Rightarrow> hash256 \<Rightarrow>
   amount \<Rightarrow> lightning_client \<Rightarrow> (lnurl_send_error, hash256 \<times> lightning_client) outcome" where
  "lightning_lnurl_send X pool endpoint ids refund a gateway amt db =
     obind (ok_or (LnurlInvoice GatewayNotAvailable) (gateway_info_of gateway pool)) (\<lambda>info.
       lnurl_send X endpoint ids refund a gateway info amt False db)"

text \<open>\<open>lightning_lnurl_send_max_amount\<close>: the error is that of a gateway that is not available.\<close>

definition lightning_lnurl_send_max_amount :: "gateway_pool \<Rightarrow> account \<Rightarrow> hash256 \<Rightarrow> lightning_client \<Rightarrow> (unit, amount) outcome" where
  "lightning_lnurl_send_max_amount pool a gateway db =
     obind (ok_or () (gateway_info_of gateway pool)) (\<lambda>info. expect (send_max_amount a (Some info) (lc_wallet db)))"

definition lightning_lnurl_send_max ::
  "lightning_ctx \<Rightarrow> gateway_pool \<Rightarrow> (u64 \<Rightarrow> string + bolt11) \<Rightarrow> sm_id \<times> sm_id \<times> sm_id \<Rightarrow> hash256 \<Rightarrow> account \<Rightarrow> hash256 \<Rightarrow>
   lightning_client \<Rightarrow> (lnurl_send_error, hash256 \<times> lightning_client) outcome" where
  "lightning_lnurl_send_max X pool endpoint ids refund a gateway db =
     obind (ok_or (LnurlInvoice GatewayNotAvailable) (gateway_info_of gateway pool)) (\<lambda>info.
     obind (expect (send_max_amount a (Some info) (lc_wallet db))) (\<lambda>most.
       lnurl_send X endpoint ids refund a gateway info most True db))"

definition lightning_lnurl_send_direct_max_amount :: "account \<Rightarrow> lightning_client \<Rightarrow> amount option" where
  "lightning_lnurl_send_direct_max_amount a db = send_max_amount a None (lc_wallet db)"

definition lightning_lnurl_send_direct_max ::
  "lightning_ctx \<Rightarrow> lnurl_request decoder \<Rightarrow> hash256 \<Rightarrow> sm_id \<times> sm_id \<Rightarrow> hash256 \<Rightarrow> account \<Rightarrow> bytes \<Rightarrow>
   lightning_client \<Rightarrow> (lnurl_direct_error, hash256 \<times> lightning_client) outcome" where
  "lightning_lnurl_send_direct_max X dec mint_info ids ephemeral a url db =
     obind (expect (send_max_amount a None (lc_wallet db))) (\<lambda>most.
       lnurl_send_direct X dec mint_info ids ephemeral a url most True db)"

text \<open>\<open>lightning_refresh_gateways\<close>: the error is that the mint did not answer.\<close>

definition lightning_refresh_gateways ::
  "hash256 list option \<Rightarrow> (hash256 \<times> gateway_info option) list \<Rightarrow> lightning_client \<Rightarrow> gateway_pool \<Rightarrow>
   (unit, lightning_client \<times> gateway_pool) outcome" where
  "lightning_refresh_gateways pks answers db pool =
     obind (ok_or () pks) (\<lambda>l.
       let (db', pool') = update_gateway_pks l db pool
       in Done (db', update_gateway_info answers db' pool'))"

end
