(* ===== verification/Client_Lightning_Claims.thy ===== *)
theory Client_Lightning_Claims
  imports Client_Lightning Client_Sample
begin

text \<open>
  The Lightning module against the mint: what a payer submits is funded and accepted with its contract
  in the mint's tables, a contract authored for an account is recovered and claimed, and what settles
  or fails to settle a send.
\<close>

section \<open>What a mint honours\<close>

text \<open>The mint of a wallet: its notes are spendable there and its next counters unused.\<close>

definition honours :: "daemon_ops \<Rightarrow> daemon_config \<Rightarrow> daemon_db \<Rightarrow> client_ctx \<Rightarrow> account \<Rightarrow> client_db \<Rightarrow> bool" where
  "honours S cfg mint X a db \<longleftrightarrow>
     ctbs (ctx_ops X) = dtbs S \<and> ccrypto (ctx_ops X) = dcrypto S \<and> signs_for (ctx_ops X) \<and>
     (\<forall>n. holds db a n \<longrightarrow> spendable (ctx_ops X) (ecash_cfg cfg) (ecash_tables mint) n) \<and>
     inj_on (note_pub (ctx_ops X)) {n. holds db a n} \<and>
     (\<forall>d \<in> set client_denominations. bt_get (tbs_sks (ecash_cfg cfg)) d \<noteq> None) \<and>
     (\<forall>i < 33. \<not> bt_has (blinded_nonces (ecash_tables mint))
        (blinded_nonce_of (ctx_ops X) (issuance_new X a (counter_of a db + of_nat i)))) \<and>
     inj_on (\<lambda>i. blinded_nonce_of (ctx_ops X) (issuance_new X a (counter_of a db + of_nat i))) {..<33}"

text \<open>A wallet small enough for its sums and for the mint's limits.\<close>

definition small_wallet :: "account \<Rightarrow> tx_builder \<Rightarrow> client_db \<Rightarrow> bool" where
  "small_wallet a b db \<longleftrightarrow> in_nat b + face_value (account_notes a db) < 2 ^ 42 \<and>
     out_nat b + fee_nat b < 2 ^ 63 \<and> length (tb_inputs b) + length (account_notes a db) \<le> MAX_INPUTS \<and>
     length (tb_outputs b) \<le> 1"

lemma small_room: "small_wallet a b db \<Longrightarrow> funding_room a b db"
  by (simp add: small_wallet_def funding_room_def)

lemma funded_sizes:
  assumes f: "funded X a False b db ns rs b' db0" and w: "wallet_ok db" and small: "small_wallet a b db"
  shows "length (tb_inputs b') \<le> MAX_INPUTS" "length (tb_outputs b') \<le> MAX_OUTPUTS" "length rs \<le> 33"
    "set (map ir_denomination rs) \<subseteq> set client_denominations" "rs = requests_at X a db (map ir_denomination rs)"
proof -
  let ?K = "ctx_ops X" and ?ds = "map ir_denomination rs"
  note fa = funded_amounts [OF f w small_room [OF small]]
  have io: "tb_inputs b' = tb_inputs b @ map (note_input ?K) ns" "tb_outputs b' = tb_outputs b @ map (request_client_output ?K) rs"
    "distinct ns" "\<forall>n \<in> set ns. holds db a n"
    using f unfolding funded_def by blast+
  show "rs = requests_at X a db ?ds" using f by (simp add: funded_def requests_at_def request_at_def)
  have "in_nat b' < 2 ^ 42" using fa(3) face_value_mono [OF fa(2)] small by (simp add: small_wallet_def)
  then have ds: "distinct ?ds" "set ?ds \<subseteq> set client_denominations" using f by (simp_all add: funded_def all_tiers)
  show "set ?ds \<subseteq> set client_denominations" by (rule ds(2))
  show n33: "length rs \<le> 33" using card_mono [OF _ ds(2)] distinct_card [OF ds(1)] card_length [of client_denominations] by simp
  have "set ns \<subseteq> set (account_notes a db)" using io(4) by (auto simp: account_notes_iff holds_def)
  then have "length ns \<le> length (account_notes a db)"
    using card_mono [of "set (account_notes a db)" "set ns"] distinct_card [OF io(3)] card_length [of "account_notes a db"] by simp
  then show "length (tb_inputs b') \<le> MAX_INPUTS" "length (tb_outputs b') \<le> MAX_OUTPUTS"
    using io(1,2) small n33 by (simp_all add: small_wallet_def MAX_OUTPUTS_def)
qed

lemma funded_accepted:
  assumes f: "funded X a False b db ns rs b' db0" and w: "wallet_ok db" and small: "small_wallet a b db"
    and h: "honours S cfg mint X a db" and tx: "builder_build (ccrypto (ctx_ops X)) b' = Some tx"
    and ne: "tb_inputs b' \<noteq> []"
    and xs: "inputs_pass S cfg (ctx_ops X) (tb_inputs b) mint mint1"
    and ys: "outputs_pass S cfg (compute_tx_id (dcrypto S) tx) (tb_outputs b) g"
  shows "\<exists>mint'. process_tx S cfg tx mint = Done mint' \<and> lightning_tables mint' = g (lightning_tables mint1)"
proof -
  let ?K = "ctx_ops X" and ?ds = "map ir_denomination rs"
  note fa = funded_amounts [OF f w small_room [OF small]]
  note len = funded_sizes [OF f w small]
  have io: "tb_inputs b' = tb_inputs b @ map (note_input ?K) ns" "tb_outputs b' = tb_outputs b @ map (request_client_output ?K) rs"
    "tb_outputs b' \<noteq> []" "distinct ns" "\<forall>n \<in> set ns. holds db a n" and bal: "out_nat b' + fee_nat b' \<le> in_nat b'"
    using f unfolding funded_def by blast+
  note rs = len(5) and ds = len(4) and n33 = len(3)
  have nd: "distinct (map (note_pub ?K) ns)" using io(4,5) h by (auto simp: distinct_map inj_on_def honours_def)
  let ?f = "\<lambda>i. blinded_nonce_of ?K (issuance_new X a (counter_of a db + of_nat i))"
  have rq: "\<forall>r \<in> set rs. requestable ?K (ecash_cfg cfg) (ecash_tables mint) r"
  proof
    fix r assume "r \<in> set rs"
    then obtain i where i: "i < length ?ds" "r = request_at X a db (?ds ! i) i"
      using rs by (metis in_set_conv_nth requests_at_fields(1) requests_at_nth)
    moreover have "?ds ! i \<in> set client_denominations" "i < 33" using i(1) ds n33 nth_mem [OF i(1)] by auto
    ultimately show "requestable ?K (ecash_cfg cfg) (ecash_tables mint) r" using h by (auto simp: requestable_def honours_def)
  qed
  have "map (request_blinded ?K) (requests_at X a db ?ds) = map ?f [0..<length ?ds]"
    by (rule nth_equalityI) (simp_all add: requests_at_nth request_blinded_def)
  then have "map (request_blinded ?K) rs = map ?f [0..<length rs]" using rs by simp
  moreover have "inj_on ?f {..<33}" using h by (simp add: honours_def)
  then have "inj_on ?f (set [0..<length rs])" by (rule inj_on_subset) (use n33 in auto)
  ultimately have rd: "distinct (map (request_blinded ?K) rs)" by (simp add: distinct_map)
  have K: "ctbs ?K = dtbs S" "ccrypto ?K = dcrypto S" "signs_for ?K"
    "\<forall>n \<in> set ns. spendable ?K (ecash_cfg cfg) (ecash_tables mint) n" using h io(5) by (simp_all add: honours_def)
  show ?thesis
    by (rule mint_accepts_around [OF K(1-3) io(1,2) ne io(3) len(1,2) xs ys K(4) nd rq rd builder_funded [OF fa(1) bal] tx])
qed

section \<open>Fees\<close>

lemma saturating_mul_le:
  fixes a b :: u64
  shows "unat (saturating_mul a b) \<le> unat a * unat b"
  by (simp add: saturating_mul_def unat_word_ariths unsigned_minus_1_eq_mask mask_eq_exp_minus_1)

lemma fee_defined:
  assumes "fee_is_within f SEND_FEE_LIMIT"
  shows "\<exists>x. payment_fee_of f m = Some x \<and> amount_nat x \<le> unat m div 100 + 50000"
proof -
  have b: "unat (msat (pf_base f)) \<le> 50000" "unat (pf_ppm f) \<le> 10000"
    using assms by (simp_all add: fee_is_within_def SEND_FEE_LIMIT_def less_eq_amount_def amount_from_sat_def word_le_nat_alt)
  have "unat (saturating_mul m (ucast (pf_ppm f))) \<le> unat m * 10000"
  proof -
    have "unat (ucast (pf_ppm f) :: u64) \<le> 10000" using b(2) by (simp add: unsigned_ucast_eq take_bit_nat_eq_self)
    then show ?thesis using saturating_mul_le [of m "ucast (pf_ppm f)"] mult_le_mono2 [of _ 10000 "unat m"] by (meson order_trans)
  qed
  then have s: "unat (saturating_mul m (ucast (pf_ppm f)) div 1000000) \<le> unat m div 100"
    by (simp add: unat_div)
  moreover have "unat m div 100 \<le> 2 ^ 64 div 100"
    using unsigned_less [of m, where 'a = nat] by (intro div_le_mono) simp
  ultimately show ?thesis using b(1)
    by (auto simp: payment_fee_of_def absolute_fee_def checked_add_def unat_word_ariths)
qed

section \<open>The module's inputs and outputs\<close>

lemma amount_checked_add_Some:
  "amount_nat a + amount_nat b < 2 ^ 64 \<Longrightarrow> amount_checked_add a b = Some (amount_add a b)"
  by (simp add: amount_checked_add_def checked_add_def amount_add_def)

lemma outgoing_pass:
  assumes "amount_nat (oc_amount c) + amount_nat (oc_fee c) < 2 ^ 64"
  shows "outputs_pass S cfg txid [outgoing_output c] (\<lambda>l. l\<lparr>outgoing_contracts := bt_insert (OutPoint txid 0) c (outgoing_contracts l)\<rparr>)"
  using assms
  by (auto simp: outputs_pass_def outgoing_output_def output_step_Done obind_Done_iff amount_checked_add_Some ok_or_def)

lemma claim_pass:
  assumes ok: "stream_ok (lightning_tables db)" and c: "bt_get (incoming_contracts (lightning_tables db)) p = Some c"
    and a: "claim_amount c = Some amt" and k: "x_only_public_key K kp = ic_claim_pk c"
  shows "\<exists>db'. inputs_pass S cfg K [claim_input kp p amt] db db' \<and>
    (\<forall>j q d. bt_get (contract_stream (lightning_tables db')) j = Some (q, d) \<longrightarrow> q \<noteq> p)"
proof -
  obtain i where i: "bt_get (contract_index (lightning_tables db)) p = Some i" using stream_ok_entry [OF ok c] by blast
  have "j = i" if "bt_get (contract_stream (lightning_tables db)) j = Some (p, d)" for j d
    using stream_ok_index [OF ok that] i by simp
  then show ?thesis using i c a k
    by (intro exI [of _ "db\<lparr>lightning_tables := (lightning_tables db)\<lparr>
        incoming_contracts := bt_remove p (incoming_contracts (lightning_tables db)),
        contract_index := bt_remove p (contract_index (lightning_tables db)),
        contract_stream := bt_remove i (contract_stream (lightning_tables db))\<rparr>\<rparr>"])
      (auto simp: inputs_pass_def claim_input_def input_step_Done obind_Done_iff expect_def ok_or_def Let_def)
qed

lemma refund_pass:
  assumes c: "bt_get (outgoing_contracts (lightning_tables db)) (ls_outpoint sm) = Some (ls_contract sm)"
    and v: "verify_forfeit_signature (dcrypto S) (ls_contract sm) s"
    and a: "amount_nat (oc_amount (ls_contract sm)) + amount_nat (oc_fee (ls_contract sm)) < 2 ^ 64"
    and k: "x_only_public_key K (ls_refund_keypair sm) = refund_pk (ls_contract sm)"
  shows "\<exists>db'. inputs_pass S cfg K [refund_input sm s] db db' \<and>
    bt_get (outgoing_contracts (lightning_tables db')) (ls_outpoint sm) = None"
  using assms
  by (intro exI [of _ "db\<lparr>lightning_tables := (lightning_tables db)\<lparr>
      outgoing_contracts := bt_remove (ls_outpoint sm) (outgoing_contracts (lightning_tables db))\<rparr>\<rparr>"])
    (auto simp: inputs_pass_def refund_input_def input_step_Done obind_Done_iff ok_or_def Let_def amount_checked_add_Some)

section \<open>Paying an invoice\<close>

definition send_contract :: "client_ops \<Rightarrow> hash256 \<Rightarrow> gateway_info \<Rightarrow> bolt11 \<Rightarrow> u64 \<Rightarrow> amount \<Rightarrow> outgoing_contract" where
  "send_contract K refund info iv amt fee =
     \<lparr>payment_hash = iv_payment_hash iv, oc_amount = Amount amt, oc_fee = fee, oc_claim_pk = module_public_key info,
      refund_pk = x_only_public_key K refund, invoice = iv_hash iv\<rparr>"

lemma outgoing_builder:
  assumes "amount_nat (oc_amount c) + amount_nat (oc_fee c) < 2 ^ 64"
  shows "in_nat (from_output (outgoing_output c)) = 0" "fee_nat (from_output (outgoing_output c)) = 1000"
    "out_nat (from_output (outgoing_output c)) = amount_nat (oc_amount c) + amount_nat (oc_fee c)"
  using assms
  by (simp_all add: from_output_def outgoing_output_def in_nat_def out_nat_def fee_nat_def LIGHTNING_OUTPUT_FEE_def amount_from_sat_def
      amount_add_def unat_word_ariths)

lemma payment_submitted:
  fixes X :: lightning_ctx
  assumes w: "wallet_ok w" and log: "log_room 2 w" and fresh: "\<not> bt_has (tx_sms w) k" "\<not> bt_has (ecash_sms w) k'"
    and afford: "amount_nat (oc_amount c) + amount_nat (oc_fee c) + 1000 < spend_value (account_notes a w)"
    and small: "face_value (account_notes a w) < 2 ^ 42" "length (account_notes a w) \<le> MAX_INPUTS"
    and h: "honours S cfg mint (lx_client X) a w"
  shows "\<exists>txid w' tx mint'.
    finalize_and_submit_tx (lx_client X) k k' a op (from_output (outgoing_output c)) [] False event w = Done (txid, w') \<and>
    txid = compute_tx_id (dcrypto S) tx \<and> bt_get (tx_sms w') k = Some \<lparr>ts_account = a, ts_operation = op, ts_tx = tx\<rparr> \<and>
    process_tx S cfg tx mint = Done mint' \<and>
    bt_get (outgoing_contracts (lightning_tables mint')) (OutPoint txid 0) = Some c"
proof -
  let ?b = "from_output (outgoing_output c)" and ?X = "lx_client X"
  have sv: "spend_value (account_notes a w) < 2 ^ 42" using spend_value_face [of "account_notes a w"] small(1) by simp
  then have r: "amount_nat (oc_amount c) + amount_nat (oc_fee c) < 2 ^ 64" using afford by simp
  note b = outgoing_builder [OF r]
  have sw: "small_wallet a ?b w" using b small sv afford by (simp add: small_wallet_def) (simp add: from_output_def)
  note room = small_room [OF sw]
  have "in_range ?b" using b sv afford by (simp add: in_range_def)
  then have short: "0 < amount_nat (deficit ?b)" "amount_nat (deficit ?b) < spend_value (account_notes a w)" "tb_outputs ?b \<noteq> []"
    using deficit_nat [of ?b] b afford by (simp_all add: from_output_def)
  have l: "log_room (Suc (Suc 0)) w" using log by (simp add: eval_nat_numeral)
  from submission_Done [OF w room short l fresh, of ?X False op "[]" event] obtain ns rs b' db0 tx re where
    f: "funded ?X a False ?b w ns rs b' db0" "ns \<noteq> []" and tx: "builder_build (ccrypto (ctx_ops ?X)) b' = Some tx"
    and s: "let txid = compute_tx_id (ccrypto (ctx_ops ?X)) tx in
     finalize_and_submit_tx ?X k k' a op ?b [] False event w = Done (txid,
       submitted k k' \<lparr>ts_account = a, ts_operation = op, ts_tx = tx\<rparr>
         \<lparr>es_account = a, es_operation = op, es_txid = txid, es_notes = ns, es_requests = [] @ rs,
            es_targets = of_nat (length ([] :: issuance_request list))\<rparr>
         (event txid) (TxCreateEvent txid re (total_fee b')) db0)" by blast
  have K: "ccrypto (ctx_ops ?X) = dcrypto S" using h by (simp add: honours_def)
  let ?id = "compute_tx_id (dcrypto S) tx"
  have ne: "tb_inputs b' \<noteq> []" using f by (simp add: funded_def)
  have io: "tb_inputs ?b = []" "tb_outputs ?b = [outgoing_output c]" by (simp_all add: from_output_def)
  from funded_accepted [OF f(1) w sw h tx ne, unfolded io, OF no_inputs_pass outgoing_pass [OF r]] obtain mint' where
    m: "process_tx S cfg tx mint = Done mint'"
      "lightning_tables mint' = (lightning_tables mint)\<lparr>outgoing_contracts :=
         bt_insert (OutPoint ?id 0) c (outgoing_contracts (lightning_tables mint))\<rparr>" by blast
  let ?w = "submitted k k' \<lparr>ts_account = a, ts_operation = op, ts_tx = tx\<rparr>
         \<lparr>es_account = a, es_operation = op, es_txid = ?id, es_notes = ns, es_requests = [] @ rs,
            es_targets = of_nat (length ([] :: issuance_request list))\<rparr>
         (event ?id) (TxCreateEvent ?id re (total_fee b')) db0"
  show ?thesis using s m K
    by (intro exI [of _ ?id] exI [of _ ?w] exI [of _ tx] exI [of _ mint']) (simp add: Let_def submitted_def)
qed

lemma attempted_fails:
  assumes "bt_has (lc_send_operations db) (iv_payment_hash iv)"
  shows "\<exists>e. lightning_send X ids refund a gw info iv mx db = Failed e"
proof (cases "iv_amount iv")
  case (Some m)
  obtain x where "fee_is_within (send_fee info) SEND_FEE_LIMIT \<Longrightarrow> payment_fee_of (send_fee info) m = Some x"
    using fee_defined [of "send_fee info" m] by blast
  with Some assms show ?thesis
    by (auto simp: lightning_send_def Let_def ok_or_def ensure_def expect_def split: prod.splits)
qed (auto simp: lightning_send_def Let_def ok_or_def split: prod.splits)

text \<open>
  What the module does to its tables while the mint stays added: the calls that pay, the turns of the
  state machines, the scans and refreshes, and whatever else changes the wallet. Only the removal of the
  mint (\<open>lightning_wipe_tables\<close>) is not among them.
\<close>

inductive client_step :: "lightning_ctx \<Rightarrow> lightning_client \<Rightarrow> lightning_client \<Rightarrow> bool" for X :: lightning_ctx where
  step_invoice: "lightning_invoice_send X pool ids r a gw iv db = Done (op, db') \<Longrightarrow> client_step X db db'"
| step_lnurl: "lightning_lnurl_send X pool endpoint ids r a gw amt db = Done (op, db') \<Longrightarrow> client_step X db db'"
| step_lnurl_max: "lightning_lnurl_send_max X pool endpoint ids r a gw db = Done (op, db') \<Longrightarrow> client_step X db db'"
| step_direct: "lnurl_send_direct X dec mint_info ids2 r a url amt mx db = Done (op, db') \<Longrightarrow> client_step X db db'"
| step_direct_max: "lightning_lnurl_send_direct_max X dec mint_info ids2 r a url db = Done (op, db') \<Longrightarrow> client_step X db db'"
| step_driven: "bt_get (lc_send_sms db) k = Some sm \<Longrightarrow> drive_send (lx_client X) ids2 k sm out db = Some db' \<Longrightarrow> client_step X db db'"
| step_scanned: "scan_page X scan_ids page next_pos db = Some db' \<Longrightarrow> client_step X db db'"
| step_refreshed: "lightning_refresh_gateways pks answers db pool = Done (db', pool') \<Longrightarrow> client_step X db db'"
| step_wallet: "client_step X db (db\<lparr>lc_wallet := w\<rparr>)"

lemma lightning_send_operations:
  assumes "lightning_send X ids r a gw info iv mx db = Done (op, db')"
  shows "lc_send_operations db' = bs_insert (iv_payment_hash iv) (lc_send_operations db)"
  using assms
  by (cases ids) (auto simp: lightning_send_def Let_def obind_Done_iff)

lemma lnurl_send_operations:
  assumes "lnurl_send X endpoint ids r a gw info amt mx db = Done (op, db')"
  shows "\<exists>h. lc_send_operations db' = bs_insert h (lc_send_operations db)"
  using assms lightning_send_operations [of X ids r a gw info _ mx db op db']
  by (auto simp: lnurl_send_def split: sum.splits if_splits)

lemma send_direct_operations:
  "lnurl_send_direct X dec mint_info ids r a url amt mx db = Done (op, db') \<Longrightarrow> lc_send_operations db' = lc_send_operations db"
  by (cases ids) (auto simp: lnurl_send_direct_def Let_def obind_Done_iff)

text \<open>A payment hash that was attempted stays attempted.\<close>

lemma client_step_attempted:
  assumes "client_step X db db'" "bt_has (lc_send_operations db) h"
  shows "bt_has (lc_send_operations db') h"
  using assms
proof (induction rule: client_step.induct)
  case (step_invoice pool ids r a gw iv db op db')
  then show ?case
    by (auto simp: lightning_invoice_send_def obind_Done_iff bt_has_def dest!: lightning_send_operations)
next
  case (step_lnurl pool endpoint ids r a gw amt db op db')
  then show ?case by (auto simp: lightning_lnurl_send_def obind_Done_iff bt_has_def dest!: lnurl_send_operations)
next
  case (step_lnurl_max pool endpoint ids r a gw db op db')
  then show ?case by (auto simp: lightning_lnurl_send_max_def obind_Done_iff bt_has_def dest!: lnurl_send_operations)
next
  case (step_direct dec mint_info ids2 r a url amt mx db op db')
  then show ?case by (auto dest: send_direct_operations)
next
  case (step_direct_max dec mint_info ids2 r a url db op db')
  then show ?case by (auto simp: lightning_lnurl_send_direct_max_def obind_Done_iff dest: send_direct_operations)
next
  case (step_refreshed pks answers db pool db' pool')
  then show ?case by (auto simp: lightning_refresh_gateways_def update_gateway_pks_def obind_Done_iff Let_def)
qed (auto simp: drive_send_def scan_page_def)

lemma client_run_attempted:
  "(client_step X)\<^sup>*\<^sup>* db db' \<Longrightarrow> bt_has (lc_send_operations db) h \<Longrightarrow> bt_has (lc_send_operations db') h"
  by (induction rule: rtranclp_induct) (auto intro: client_step_attempted)

text \<open>
  C13. An invoice the account can afford is paid for. When the account's notes are worth its amount, one
  percent of it and 51 sat, are at most \<open>MAX_INPUTS\<close> and count less than \<open>2 ^ 42\<close> msat, and the mint honours the
  wallet, sending submits a transaction that the mint accepts and that leaves the contract in its tables,
  under the outpoint the state machine of the send watches. The gateway's fee never exceeds one percent
  and 50 sat. And whatever the module does from then on - further sends, the turns that end this one,
  scans and refreshes - every later attempt on the same payment hash fails, through whatever gateway and
  from whatever account, as long as the mint is not removed from the client, which forgets the attempts.
\<close>

theorem payment_accepted:
  assumes w: "wallet_ok (lc_wallet db)" "log_room 2 (lc_wallet db)" "\<not> bt_has (tx_sms (lc_wallet db)) k"
      "\<not> bt_has (ecash_sms (lc_wallet db)) k'" "\<not> bt_has (lc_send_sms db) k''"
    and iv: "iv_amount iv = Some amt" "\<not> iv_expired iv" "lx_network X = iv_network iv"
      "fee_is_within (send_fee info) SEND_FEE_LIMIT" "\<not> bt_has (lc_send_operations db) (iv_payment_hash iv)"
    and afford: "unat amt + unat amt div 100 + 51000 < spend_value (account_notes a (lc_wallet db))"
    and small: "face_value (account_notes a (lc_wallet db)) < 2 ^ 42" "length (account_notes a (lc_wallet db)) \<le> MAX_INPUTS"
    and h: "honours S cfg mint (lx_client X) a (lc_wallet db)"
  shows "\<exists>db' sm tsm mint'.
    lightning_send X (k, k', k'') refund a gw info iv False db = Done (iv_payment_hash iv, db') \<and>
    bt_get (lc_send_sms db') k'' = Some sm \<and> ls_state sm = Funding \<and>
    bt_get (tx_sms (lc_wallet db')) k = Some tsm \<and> process_tx S cfg (ts_tx tsm) mint = Done mint' \<and>
    bt_get (outgoing_contracts (lightning_tables mint')) (ls_outpoint sm) = Some (ls_contract sm) \<and>
    payment_hash (ls_contract sm) = iv_payment_hash iv \<and> oc_amount (ls_contract sm) = Amount amt \<and>
    oc_claim_pk (ls_contract sm) = module_public_key info \<and>
    refund_pk (ls_contract sm) = x_only_public_key (lx_ops X) (ls_refund_keypair sm) \<and>
    amount_nat (oc_fee (ls_contract sm)) \<le> unat amt div 100 + 50000 \<and>
    (\<forall>db2 ids r a' gw' info' iv' mx. (client_step X)\<^sup>*\<^sup>* db' db2 \<longrightarrow> iv_payment_hash iv' = iv_payment_hash iv \<longrightarrow>
       (\<exists>e. lightning_send X ids r a' gw' info' iv' mx db2 = Failed e))"
proof -
  from fee_defined [OF iv(4), of amt] obtain fee where fee: "payment_fee_of (send_fee info) amt = Some fee"
    "amount_nat fee \<le> unat amt div 100 + 50000" by blast
  let ?c = "send_contract (lx_ops X) refund info iv amt fee" and ?op = "iv_payment_hash iv"
  have "amount_nat (oc_amount ?c) + amount_nat (oc_fee ?c) + 1000 < spend_value (account_notes a (lc_wallet db))"
    using afford fee(2) by (simp add: send_contract_def)
  from payment_submitted [OF w(1-4) this small h, of ?op "\<lambda>txid. LightningSendEvent txid (Amount amt) fee"] obtain txid w' tx mint' where
    s: "finalize_and_submit_tx (lx_client X) k k' a ?op (from_output (outgoing_output ?c)) [] False
        (\<lambda>txid. LightningSendEvent txid (Amount amt) fee) (lc_wallet db) = Done (txid, w')"
      "bt_get (tx_sms w') k = Some \<lparr>ts_account = a, ts_operation = ?op, ts_tx = tx\<rparr>"
    and m: "process_tx S cfg tx mint = Done mint'" "bt_get (outgoing_contracts (lightning_tables mint')) (OutPoint txid 0) = Some ?c"
    by blast
  let ?sm = "\<lparr>ls_account = a, ls_operation = ?op, ls_outpoint = OutPoint txid 0, ls_contract = ?c, ls_gateway = gw,
      ls_invoice = iv, ls_refund_keypair = refund, ls_state = Funding\<rparr>"
  let ?db' = "db\<lparr>lc_wallet := w', lc_send_operations := bs_insert ?op (lc_send_operations db),
      lc_send_sms := bt_insert k'' ?sm (lc_send_sms db)\<rparr>"
  have "lightning_send X (k, k', k'') refund a gw info iv False db = Done (?op, ?db')"
    using iv w(5) fee(1) s(1)
    by (simp add: lightning_send_def Let_def ok_or_def ensure_def expect_def insert_new_def send_contract_def)
  moreover have "\<exists>e. lightning_send X ids r a' gw' info' iv' mx db2 = Failed e"
    if "(client_step X)\<^sup>*\<^sup>* ?db' db2" "iv_payment_hash iv' = ?op" for db2 ids r a' gw' info' iv' mx
    by (rule attempted_fails) (use client_run_attempted [OF that(1), of ?op] that(2) in \<open>simp add: bt_has_def\<close>)
  ultimately show ?thesis using s(2) m fee(2)
    by (intro exI [of _ ?db'] exI [of _ ?sm] exI [of _ "\<lparr>ts_account = a, ts_operation = ?op, ts_tx = tx\<rparr>"] exI [of _ mint'])
      (simp add: send_contract_def)
qed

section \<open>Spending a contract into the wallet\<close>

lemma input_builder:
  assumes "ci_fee i = LIGHTNING_INPUT_FEE"
  shows "in_nat (from_input i) = amount_nat (ci_amount i)" "fee_nat (from_input i) = 100" "out_nat (from_input i) = 0"
    "tb_inputs (from_input i) = [i]" "tb_outputs (from_input i) = []"
  using assms by (simp_all add: from_input_def in_nat_def out_nat_def fee_nat_def LIGHTNING_INPUT_FEE_def)

lemma input_finalized:
  assumes w: "wallet_ok w" and log: "log_room 2 w" and fresh: "\<not> bt_has (tx_sms w) k" "\<not> bt_has (ecash_sms w) k'"
    and i: "ci_fee i = LIGHTNING_INPUT_FEE" "712 \<le> amount_nat (ci_amount i)" and sw: "small_wallet a (from_input i) w"
  shows "\<exists>ns rs b' db0 tx w'. funded X a False (from_input i) w ns rs b' db0 \<and> tb_inputs b' \<noteq> [] \<and>
    builder_build (ccrypto (ctx_ops X)) b' = Some tx \<and>
    finalize_and_submit_tx X k k' a op (from_input i) [] False event w = Done (compute_tx_id (ccrypto (ctx_ops X)) tx, w') \<and>
    bt_get (tx_sms w') k = Some \<lparr>ts_account = a, ts_operation = op, ts_tx = tx\<rparr>"
proof -
  let ?b = "from_input i"
  note b = input_builder [OF i(1)]
  note room = small_room [OF sw]
  have d: "dust_bound False = 612"
    by (simp add: dust_bound_def change_denominations_def client_denominations_def upt_rec dval_def)
  have "in_range ?b" using b sw by (simp add: in_range_def small_wallet_def)
  then have "amount_nat (deficit ?b) = 0" using deficit_nat [of ?b] b i(2) by simp
  with fund_spec [OF w room, of X False] b d i(2) obtain ns rs b' db0 where
    f: "fund X a False ?b w = Done (ns, rs, b', db0)" "funded X a False ?b w ns rs b' db0"
    by (cases "fund X a False ?b w") auto
  have ne: "tb_inputs b' \<noteq> []" "ns \<noteq> [] \<or> [] @ rs \<noteq> []" using f(2) b by (auto simp: funded_def)
  have l: "log_room (Suc (Suc 0)) w" using log by (simp add: eval_nat_numeral)
  from finalize_funded [OF f ne l fresh, of op event] obtain tx re where
    tx: "builder_build (ccrypto (ctx_ops X)) b' = Some tx"
    and s: "let txid = compute_tx_id (ccrypto (ctx_ops X)) tx in
     finalize_and_submit_tx X k k' a op ?b [] False event w = Done (txid,
       submitted k k' \<lparr>ts_account = a, ts_operation = op, ts_tx = tx\<rparr>
         \<lparr>es_account = a, es_operation = op, es_txid = txid, es_notes = ns, es_requests = [] @ rs,
            es_targets = of_nat (length ([] :: issuance_request list))\<rparr>
         (event txid) (TxCreateEvent txid re (total_fee b')) db0)" by blast
  with f(2) ne(1) show ?thesis unfolding Let_def
    by (intro exI [of _ ns] exI [of _ rs] exI [of _ b'] exI [of _ db0] exI [of _ tx] exI conjI) (assumption | simp add: submitted_def)+
qed

lemma input_submitted:
  assumes w: "wallet_ok w" and log: "log_room 2 w" and fresh: "\<not> bt_has (tx_sms w) k" "\<not> bt_has (ecash_sms w) k'"
    and i: "ci_fee i = LIGHTNING_INPUT_FEE" "712 \<le> amount_nat (ci_amount i)"
    and small: "amount_nat (ci_amount i) + face_value (account_notes a w) < 2 ^ 42" "Suc (length (account_notes a w)) \<le> MAX_INPUTS"
    and h: "honours S cfg mint X a w" and pass: "inputs_pass S cfg (ctx_ops X) [i] mint mint1"
  shows "\<exists>w' tx mint'.
    finalize_and_submit_tx X k k' a op (from_input i) [] False event w = Done (compute_tx_id (dcrypto S) tx, w') \<and>
    bt_get (tx_sms w') k = Some \<lparr>ts_account = a, ts_operation = op, ts_tx = tx\<rparr> \<and>
    process_tx S cfg tx mint = Done mint' \<and> lightning_tables mint' = lightning_tables mint1"
proof -
  note b = input_builder [OF i(1)]
  have sw: "small_wallet a (from_input i) w" using b small by (simp add: small_wallet_def)
  from input_finalized [OF w log fresh i sw, of X op event] obtain ns rs b' db0 tx w' where
    f: "funded X a False (from_input i) w ns rs b' db0" "tb_inputs b' \<noteq> []" "builder_build (ccrypto (ctx_ops X)) b' = Some tx"
    and s: "finalize_and_submit_tx X k k' a op (from_input i) [] False event w = Done (compute_tx_id (ccrypto (ctx_ops X)) tx, w')"
      "bt_get (tx_sms w') k = Some \<lparr>ts_account = a, ts_operation = op, ts_tx = tx\<rparr>" by blast
  have "ccrypto (ctx_ops X) = dcrypto S" using h by (simp add: honours_def)
  moreover from funded_accepted [OF f(1) w sw h f(3,2), unfolded b(4,5), OF pass no_outputs_pass] obtain mint' where
    "process_tx S cfg tx mint = Done mint'" "lightning_tables mint' = lightning_tables mint1" by auto
  ultimately show ?thesis using s by auto
qed

section \<open>Incoming contracts\<close>

text \<open>
  What the client relies on of the curve: a shared secret is the same from both sides, tweaking a
  secret key tweaks its public key, and the x-only key is that of the public key.
\<close>

definition ecdh_ok :: "client_ops \<Rightarrow> ecdh_ops \<Rightarrow> bool" where
  "ecdh_ok K E \<longleftrightarrow>
     (\<forall>s t. shared_secret E (public_key E s) t = shared_secret E (public_key E t) s) \<and>
     (\<forall>s t. pk_mul_tweak E (public_key E s) t = map_option (public_key E) (sk_mul_tweak E s t)) \<and>
     (\<forall>s. x_only_public_key K s = pk_x_only E (public_key E s))"

lemma recover_author:
  assumes e: "ecdh_ok K E" and c: "author_contract (ccrypto K) E eph (public_key E sk) amt fee = Some c"
  obtains kp where "recover_contract K E sk c = Some (Some kp)" "x_only_public_key K kp = ic_claim_pk c"
    "ic_amount c = amt" "ic_fee c = fee"
proof -
  let ?t = "claim_tweak (ccrypto K) (shared_secret E (public_key E sk) eph)"
  from c obtain pk where pk: "pk_mul_tweak E (public_key E sk) ?t = Some pk"
    and cc: "c = \<lparr>ic_amount = amt, ic_fee = fee, ic_claim_pk = pk_x_only E pk, ephemeral_pk = public_key E eph\<rparr>"
    by (auto simp: author_contract_def)
  from e pk obtain kp where kp: "sk_mul_tweak E sk ?t = Some kp" "pk = public_key E kp" unfolding ecdh_ok_def by auto
  have t: "shared_secret E (public_key E eph) sk = shared_secret E (public_key E sk) eph" using e unfolding ecdh_ok_def by blast
  have x: "x_only_public_key K kp = ic_claim_pk c" using e kp(2) cc by (simp add: ecdh_ok_def)
  have "recover_contract K E sk c = Some (Some kp)" using kp(1) x t cc by (simp add: recover_contract_def)
  with x cc show ?thesis by (intro that) simp_all
qed

text \<open>
  C14. A contract in the mint's stream reaches its account. Let a payer author a contract for the receive
  key of an account, worth at least 712 msat after its fee, and let the mint's stream list it; let the
  account's notes leave room for one more input and for the amount below \<open>2 ^ 42\<close> msat. Trying that account's key on the entry
  recovers the claim key and submits a transaction of the account that the mint accepts; from then on
  the stream does not list the contract.
\<close>

theorem incoming_claimed:
  assumes w: "wallet_ok w" "log_room 2 w" "\<not> bt_has (tx_sms w) k" "\<not> bt_has (ecash_sms w) k'"
    and e: "ecdh_ok (lx_ops X) (lx_ecdh X)"
    and c: "author_contract (ccrypto (lx_ops X)) (lx_ecdh X) eph (public_key (lx_ecdh X) (receive_secret X a)) amt fee = Some c"
    and listed: "stream_ok (lightning_tables mint)" "bt_get (contract_stream (lightning_tables mint)) i = Some (p, c)"
    and worth: "712 + amount_nat fee \<le> amount_nat amt"
    and small: "amount_nat amt + face_value (account_notes a w) < 2 ^ 42" "Suc (length (account_notes a w)) \<le> MAX_INPUTS"
    and h: "honours S cfg mint (lx_client X) a w"
  shows "\<exists>w' tsm mint'. receive_incoming_contract X (k, k') a (receive_secret X a) p c w = Some w' \<and>
    bt_get (tx_sms w') k = Some tsm \<and> ts_account tsm = a \<and> process_tx S cfg (ts_tx tsm) mint = Done mint' \<and>
    (\<forall>j q d. bt_get (contract_stream (lightning_tables mint')) j = Some (q, d) \<longrightarrow> q \<noteq> p)"
proof -
  obtain kp where kp: "recover_contract (lx_ops X) (lx_ecdh X) (receive_secret X a) c = Some (Some kp)"
    "x_only_public_key (lx_ops X) kp = ic_claim_pk c" "ic_amount c = amt" "ic_fee c = fee" using recover_author [OF e c] .
  have "msat fee \<le> msat amt" using worth by (simp add: word_le_nat_alt)
  then obtain v where v: "claim_amount c = Some v" "amount_nat v = amount_nat amt - amount_nat fee"
    using kp(3,4) by (simp add: claim_amount_def amount_checked_sub_def checked_sub_def unat_sub)
  have "bt_get (incoming_contracts (lightning_tables mint)) p = Some c" using stream_ok_listed [OF listed] by blast
  from claim_pass [OF listed(1) this v(1) kp(2)] obtain mint1 where
    m1: "inputs_pass S cfg (lx_ops X) [claim_input kp p v] mint mint1"
      "\<forall>j q d. bt_get (contract_stream (lightning_tables mint1)) j = Some (q, d) \<longrightarrow> q \<noteq> p" by blast
  let ?C = "ccrypto (lx_ops X)" and ?i = "claim_input kp p v"
  have i: "ci_fee ?i = LIGHTNING_INPUT_FEE" "712 \<le> amount_nat (ci_amount ?i)"
    "amount_nat (ci_amount ?i) + face_value (account_notes a w) < 2 ^ 42"
    using v(2) worth small(1) by (simp_all add: claim_input_def)
  from input_submitted [OF w i small(2) h m1(1), of "claim_operation ?C p"
      "\<lambda>txid. LightningReceiveEvent txid (contract_payment_hash ?C c) (ic_amount c) (ic_fee c)"]
  obtain w' tx mint' where
    s: "finalize_and_submit_tx (lx_client X) k k' a (claim_operation ?C p) (from_input ?i) [] False
        (\<lambda>txid. LightningReceiveEvent txid (contract_payment_hash ?C c) (ic_amount c) (ic_fee c)) w =
          Done (compute_tx_id (dcrypto S) tx, w')"
      "bt_get (tx_sms w') k = Some \<lparr>ts_account = a, ts_operation = claim_operation ?C p, ts_tx = tx\<rparr>"
      "process_tx S cfg tx mint = Done mint'" "lightning_tables mint' = lightning_tables mint1" by blast
  have "receive_incoming_contract X (k, k') a (receive_secret X a) p c w = Some w'"
    using kp(1) v(1) s(1) by (simp add: receive_incoming_contract_def Let_def)
  with s(2-4) m1(2) show ?thesis
    by (intro exI [of _ w'] exI [of _ "\<lparr>ts_account = a, ts_operation = claim_operation ?C p, ts_tx = tx\<rparr>"] exI [of _ mint']) simp
qed

section \<open>Refunds\<close>

text \<open>
  C23. A forfeited contract is refunded. When the mint holds the contract of a send, worth at least
  712 msat, the account's notes leave room for one more input and for its amount below \<open>2 ^ 42\<close> msat, and the gateway
  answers with a valid forfeit signature, the turn of the state machine submits a refund that the mint
  accepts and that takes the contract out of its tables, and moves the machine to waiting for it; on
  the verdict the machine ends.
\<close>

theorem refund_accepted:
  assumes w: "wallet_ok (lc_wallet db)" "log_room 2 (lc_wallet db)" "\<not> bt_has (tx_sms (lc_wallet db)) k"
      "\<not> bt_has (ecash_sms (lc_wallet db)) k'"
    and held: "bt_get (outgoing_contracts (lightning_tables mint)) (ls_outpoint sm) = Some (ls_contract sm)"
    and v: "verify_forfeit_signature (dcrypto S) (ls_contract sm) s"
    and key: "x_only_public_key (ctx_ops X) (ls_refund_keypair sm) = refund_pk (ls_contract sm)"
    and worth: "712 \<le> amount_nat (oc_amount (ls_contract sm)) + amount_nat (oc_fee (ls_contract sm))"
    and small: "amount_nat (oc_amount (ls_contract sm)) + amount_nat (oc_fee (ls_contract sm)) +
        face_value (account_notes (ls_account sm) (lc_wallet db)) < 2 ^ 42"
      "Suc (length (account_notes (ls_account sm) (lc_wallet db))) \<le> MAX_INPUTS"
    and h: "honours S cfg mint X (ls_account sm) (lc_wallet db)"
  shows "\<exists>db' tsm mint' txid. drive_send X (k, k') k'' sm (GatewayResponse (Inl s)) db = Some db' \<and>
    bt_get (lc_send_sms db') k'' = Some (sm\<lparr>ls_state := Refunding txid\<rparr>) \<and>
    bt_get (tx_sms (lc_wallet db')) k = Some tsm \<and> txid = compute_tx_id (dcrypto S) (ts_tx tsm) \<and>
    process_tx S cfg (ts_tx tsm) mint = Done mint' \<and>
    bt_get (outgoing_contracts (lightning_tables mint')) (ls_outpoint sm) = None \<and>
    send_trigger (dcrypto S) (sm\<lparr>ls_state := Refunding txid\<rparr>) (\<lambda>t. if t = txid then Some (Inr ()) else None) r None Refunded \<and>
    drive_send X ids k'' (sm\<lparr>ls_state := Refunding txid\<rparr>) Refunded db' = Some (db'\<lparr>lc_send_sms := bt_remove k'' (lc_send_sms db')\<rparr>)"
proof -
  let ?c = "ls_contract sm" and ?i = "refund_input sm s" and ?a = "ls_account sm" and ?op = "ls_operation sm"
  have r: "amount_nat (oc_amount ?c) + amount_nat (oc_fee ?c) < 2 ^ 64" using small(1) by simp
  from refund_pass [OF held v r key] obtain mint1 where m1: "inputs_pass S cfg (ctx_ops X) [?i] mint mint1"
    "bt_get (outgoing_contracts (lightning_tables mint1)) (ls_outpoint sm) = None" by blast
  have "amount_nat (ci_amount ?i) = amount_nat (oc_amount ?c) + amount_nat (oc_fee ?c)"
    using r by (simp add: refund_input_def amount_add_def unat_word_ariths)
  then have i: "ci_fee ?i = LIGHTNING_INPUT_FEE" "712 \<le> amount_nat (ci_amount ?i)"
    "amount_nat (ci_amount ?i) + face_value (account_notes ?a (lc_wallet db)) < 2 ^ 42"
    using worth small(1) by (simp_all add: refund_input_def)
  from input_submitted [OF w i small(2) h m1(1), of ?op LightningSendRefundEvent] obtain w' tx mint' where
    s: "finalize_and_submit_tx X k k' ?a ?op (from_input ?i) [] False LightningSendRefundEvent (lc_wallet db) =
        Done (compute_tx_id (dcrypto S) tx, w')"
      "bt_get (tx_sms w') k = Some \<lparr>ts_account = ?a, ts_operation = ?op, ts_tx = tx\<rparr>"
      "process_tx S cfg tx mint = Done mint'" "lightning_tables mint' = lightning_tables mint1" by blast
  let ?sm = "sm\<lparr>ls_state := Refunding (compute_tx_id (dcrypto S) tx)\<rparr>"
  let ?db' = "db\<lparr>lc_wallet := w', lc_send_sms := bt_insert k'' ?sm (lc_send_sms db)\<rparr>"
  have "drive_send X (k, k') k'' sm (GatewayResponse (Inl s)) db = Some ?db'"
    using s(1) by (simp add: drive_send_def send_transition_def Let_def)
  then show ?thesis using s(2-4) m1(2)
    by (intro exI [of _ ?db'] exI [of _ "\<lparr>ts_account = ?a, ts_operation = ?op, ts_tx = tx\<rparr>"] exI [of _ mint'] exI conjI)
      (assumption | rule refl | auto simp: drive_send_def send_transition_def Let_def)+
qed

text \<open>
  A forfeit before the funding is a dead end. When the gateway's forfeit signature is acted on while
  the mint does not hold the contract yet, the refund is submitted, and every mint without the contract
  rejects it for an unknown contract. On that verdict the machine waits for the preimage and for
  nothing else, although the funding transaction may still be accepted afterwards and the contract
  stand: no second refund is ever submitted.
\<close>

theorem early_refund_stuck:
  assumes w: "wallet_ok (lc_wallet db)" "log_room 2 (lc_wallet db)" "\<not> bt_has (tx_sms (lc_wallet db)) k"
      "\<not> bt_has (ecash_sms (lc_wallet db)) k'"
    and worth: "712 \<le> amount_nat (oc_amount (ls_contract sm)) + amount_nat (oc_fee (ls_contract sm))"
    and small: "amount_nat (oc_amount (ls_contract sm)) + amount_nat (oc_fee (ls_contract sm)) +
        face_value (account_notes (ls_account sm) (lc_wallet db)) < 2 ^ 42"
      "Suc (length (account_notes (ls_account sm) (lc_wallet db))) \<le> MAX_INPUTS"
  shows "\<exists>db' tsm txid. drive_send X (k, k') k'' sm (GatewayResponse (Inl s)) db = Some db' \<and>
    bt_get (lc_send_sms db') k'' = Some (sm\<lparr>ls_state := Refunding txid\<rparr>) \<and> bt_get (tx_sms (lc_wallet db')) k = Some tsm \<and>
    (\<forall>S cfg mint. bt_get (outgoing_contracts (lightning_tables mint)) (ls_outpoint sm) = None \<longrightarrow>
       process_tx S cfg (ts_tx tsm) mint = Failed (TxInput (LightningInputError UnknownContract))) \<and>
    (\<forall>C verdict e response preimage out. verdict txid = Some (Inl e) \<longrightarrow>
       send_trigger C (sm\<lparr>ls_state := Refunding txid\<rparr>) verdict response preimage out \<longrightarrow> (\<exists>p. out = PreimageTable p \<and> preimage = Some p))"
proof -
  let ?c = "ls_contract sm" and ?i = "refund_input sm s" and ?a = "ls_account sm" and ?op = "ls_operation sm"
  have "amount_nat (ci_amount ?i) = amount_nat (oc_amount ?c) + amount_nat (oc_fee ?c)"
    using small(1) by (simp add: refund_input_def amount_add_def unat_word_ariths)
  then have i: "ci_fee ?i = LIGHTNING_INPUT_FEE" "712 \<le> amount_nat (ci_amount ?i)"
    "amount_nat (ci_amount ?i) + face_value (account_notes ?a (lc_wallet db)) < 2 ^ 42"
    using worth small(1) by (simp_all add: refund_input_def)
  note b = input_builder [OF i(1)]
  have sw: "small_wallet ?a (from_input ?i) (lc_wallet db)" using b i(3) small(2) by (simp add: small_wallet_def)
  from input_finalized [OF w i(1,2) sw, of X ?op LightningSendRefundEvent] obtain ns rs b' db0 tx w' where
    f: "funded X ?a False (from_input ?i) (lc_wallet db) ns rs b' db0" "tb_inputs b' \<noteq> []"
      "builder_build (ccrypto (ctx_ops X)) b' = Some tx"
    and s: "finalize_and_submit_tx X k k' ?a ?op (from_input ?i) [] False LightningSendRefundEvent (lc_wallet db) =
        Done (compute_tx_id (ccrypto (ctx_ops X)) tx, w')"
      "bt_get (tx_sms w') k = Some \<lparr>ts_account = ?a, ts_operation = ?op, ts_tx = tx\<rparr>" by blast
  have "tb_outputs b' \<noteq> []" "tb_inputs b' = tb_inputs (from_input ?i) @ map (note_input (ctx_ops X)) ns"
    using f(1) unfolding funded_def by blast+
  then have out: "tb_outputs b' \<noteq> []" "tb_inputs b' = ?i # map (note_input (ctx_ops X)) ns" by (simp_all add: b(4))
  have t: "tx_inputs tx = ci_input ?i # map (\<lambda>n. EcashIn (EcashInput (note_of (ctx_ops X) n))) ns" "tx_outputs tx \<noteq> []"
    "length (tx_inputs tx) \<le> MAX_INPUTS" "length (tx_outputs tx) \<le> MAX_OUTPUTS" "length (tx_signatures tx) = length (tx_inputs tx)"
    using build_Some [OF f(2) out(1), of "ccrypto (ctx_ops X)"] f(3) out funded_sizes(1,2) [OF f(1) w(1) sw] by auto
  have rej: "process_tx S cfg tx mint = Failed (TxInput (LightningInputError UnknownContract))"
    if "bt_get (outgoing_contracts (lightning_tables mint)) (ls_outpoint sm) = None" for S cfg mint
  proof -
    have "ofold (input_step S cfg) (tx_inputs tx) (funding_default, [], mint) = Failed (TxInput (LightningInputError UnknownContract))"
      using that by (simp add: t(1) input_step_def refund_input_def)
    then show ?thesis unfolding process_tx_def Let_def using t by (simp add: not_less [symmetric])
  qed
  let ?sm = "sm\<lparr>ls_state := Refunding (compute_tx_id (ccrypto (ctx_ops X)) tx)\<rparr>"
  let ?db' = "db\<lparr>lc_wallet := w', lc_send_sms := bt_insert k'' ?sm (lc_send_sms db)\<rparr>"
  have "drive_send X (k, k') k'' sm (GatewayResponse (Inl s)) db = Some ?db'"
    using s(1) by (simp add: drive_send_def send_transition_def Let_def)
  moreover have "\<exists>p. out = PreimageTable p \<and> preimage = Some p"
    if "verdict (compute_tx_id (ccrypto (ctx_ops X)) tx) = Some (Inl e)" "send_trigger C ?sm verdict response preimage out"
    for C verdict e response preimage out using that by (cases out) auto
  ultimately show ?thesis using s(2) rej
    by (intro exI [of _ ?db'] exI [of _ "\<lparr>ts_account = ?a, ts_operation = ?op, ts_tx = tx\<rparr>"]
        exI [of _ "compute_tx_id (ccrypto (ctx_ops X)) tx"]) auto
qed

section \<open>Pricing an unbounded fee\<close>

text \<open>
  Pricing a maximal send does not check the announced fee against its limit. Through a gateway that
  announces the largest base fee and one percent, an account with two sat to spend panics the search:
  the sum with the base fee overflows, which the code expects never to happen.
\<close>

theorem pricing_panics:
  assumes f: "send_fee info = \<lparr>pf_base = Amount (- 1), pf_ppm = 10000\<rparr>" and s: "2000 \<le> amount_nat most"
  shows "largest_affordable_priced most (rail_fee (Some info)) = None"
proof -
  let ?priced = "\<lambda>a. map_option (amount_add a) (rail_fee (Some info) a)"
  let ?hi = "msat most div 1000" and ?mid = "div_ceil (msat most div 1000) 2"
  have z: "?priced amount_zero = Some (Amount 999)"
    by (simp add: rail_fee_def payment_fee_of_def absolute_fee_def f amount_zero_def saturating_mul_def checked_add_def
        LIGHTNING_OUTPUT_FEE_def amount_from_sat_def amount_add_def unsigned_minus_1_eq_mask mask_eq_exp_minus_1)
  have h: "unat ?hi = amount_nat most div 1000" "amount_nat most < 2 ^ 64"
    using unsigned_less [of "msat most", where 'a = nat] by (simp_all add: unat_div)
  have "unat (0 :: u64) < unat ?hi" "unat ?hi < 2 ^ 63" using h s by simp_all
  from div_ceil_2 [OF this] have m: "1 \<le> unat ?mid" "unat ?mid \<le> unat ?hi" by simp_all
  have "unat (?mid * 1000) = unat ?mid * 1000" using m h by (simp add: unat_word_ariths)
  then have "1000000 \<le> unat (saturating_mul (?mid * 1000) (ucast (10000 :: u16)))"
    using m h s by (simp add: saturating_mul_def unat_word_ariths unsigned_minus_1_eq_mask mask_eq_exp_minus_1)
  then have "1 \<le> unat (saturating_mul (?mid * 1000) (ucast (10000 :: u16)) div 1000000)" by (simp add: unat_div)
  then have n: "?priced (amount_from_sat ?mid) = None"
    by (simp add: rail_fee_def payment_fee_of_def absolute_fee_def f checked_add_def amount_from_sat_def
        unsigned_minus_1_eq_mask mask_eq_exp_minus_1)
  have "0 < ?hi" using h(1) s by (simp add: word_less_nat_alt)
  then have "bisect_priced ?priced most 0 ?hi = None" using n by (subst bisect_priced.simps) (simp add: Let_def)
  moreover have "\<not> most < Amount 999" using s by (simp add: less_amount_def word_less_nat_alt)
  ultimately show ?thesis using z unfolding largest_affordable_priced_def Let_def by simp
qed

section \<open>Lnurls\<close>

lemma rsplit_once_None: "c \<in> set sep \<Longrightarrow> c \<notin> set xs \<Longrightarrow> rsplit_once sep xs = None"
proof (induction xs)
  case (Cons x xs)
  have "take (length sep) (x # xs) \<noteq> sep" using Cons.prems in_set_takeD by metis
  with Cons show ?case by simp
qed auto

lemma rsplit_once_append: "rsplit_once sep ys = Some r \<Longrightarrow> rsplit_once sep (xs @ ys) = Some r"
  by (induction xs) simp_all

lemma rsplit_once_pay:
  assumes "0x2F \<notin> set ys"
  shows "rsplit_once (ascii ''/pay/'') (xs @ ascii ''/pay/'' @ ys) = Some ys"
proof -
  have n: "rsplit_once (ascii ''/pay/'') ys = None" by (rule rsplit_once_None [OF _ assms]) (simp add: ascii_def)
  have "take (Suc (Suc (Suc (Suc 0)))) ys \<noteq> [0x70, 0x61, 0x79, 0x2F]"
    using assms in_set_takeD [of "0x2F" "Suc (Suc (Suc (Suc 0)))" ys] by force
  with n have "rsplit_once (ascii ''/pay/'') (ascii ''/pay/'' @ ys) = Some ys" by (simp add: ascii_def)
  then show ?thesis by (rule rsplit_once_append)
qed

text \<open>The lnurl of an account names the account's key to every client of the mint.\<close>

theorem lnurl_names_recipient:
  fixes X :: lightning_ctx and a :: account
  assumes "\<And>r. consensus_decode dec (enc_lnurl_request r) = Some r"
  shows "lnurl_recipient dec info (lnurl_receive_url X nodes info (host @ ascii ''/'') a) = Some (public_key (lx_ecdh X) (receive_secret X a))"
proof -
  let ?r = "\<lparr>lr_recipient = public_key (lx_ecdh X) (receive_secret X a), lr_nodes = nodes, lr_info = info\<rparr>"
  let ?e = "base32_encode enc_lnurl_request ?r"
  have d: "base32_decode dec ?e = Some ?r" by (rule base32_decode_encode(1)) (rule assms)
  have "digit_of (0x2F :: 8 word) = None" by (simp add: digit_of_def RFC4648_def ascii_def upt_rec)
  then have "0x2F \<notin> set (encode_bytes bs)" for bs
    using decode_loop_invalid [of "0x2F" "encode_bytes bs"] decode_encode_bytes [of bs] by (auto simp: decode_bytes_def)
  then have "0x2F \<notin> set ?e" by (simp add: base32_encode_def PREFIX_def ascii_def)
  from rsplit_once_pay [OF this, of host] have
    "rsplit_once (ascii ''/pay/'') (lnurl_receive_url X nodes info (host @ ascii ''/'') a) = Some ?e"
    by (simp add: lnurl_receive_url_def ascii_def)
  with d show ?thesis by (simp add: lnurl_recipient_def decode_lnurl_request_def)
qed

section \<open>Instances\<close>

text \<open>A curve of integers: keys are their own public keys, tweaks add and shared secrets multiply.\<close>

definition sample_ecdh :: ecdh_ops where
  "sample_ecdh =
     \<lparr>public_key = (\<lambda>s. ucast s), pk_x_only = (\<lambda>p. ucast p), shared_secret = (\<lambda>p s. enc_hash (ucast p * s)),
      pk_mul_tweak = (\<lambda>p t. Some (ucast (ucast p + t :: hash256))), sk_mul_tweak = (\<lambda>s t. Some (s + t))\<rparr>"

lemma embedded_key [simp]: "(ucast (ucast (s :: hash256) :: secp_pk) :: hash256) = s"
  by (rule bit_word_eqI) (simp add: bit_ucast_iff)

lemma sample_ecdh_ok: "ecdh_ok sample_ops sample_ecdh"
  by (simp add: ecdh_ok_def sample_ecdh_def sample_ops_def mult.commute)

definition sample_lightning :: lightning_ctx where
  "sample_lightning = \<lparr>lx_client = sample_ctx, lx_ecdh = sample_ecdh, lx_secret = 7, lx_network = ''bitcoin''\<rparr>"

lemma sample_honours:
  assumes m: "ecash_tables mint = ecash_tables genesis"
  shows "honours sample_mint sample_cfg mint sample_ctx Primary sample_wallet"
proof -
  have h: "holds sample_wallet Primary n \<longleftrightarrow> n \<in> set sample_notes" for n by (simp add: sample_wallet_def wallet_of_holds)
  have c: "counter_of Primary sample_wallet = 0" by (simp add: counter_of_def sample_wallet_def)
  have b: "blinded_nonce_of (ctx_ops sample_ctx) (issuance_new sample_ctx Primary (of_nat i)) = of_nat i" if "i < 33" for i
    using that sample_nonces(2) [of Primary "of_nat i"] by (simp add: unat_of_nat)
  have "inj_on (\<lambda>i. blinded_nonce_of (ctx_ops sample_ctx) (issuance_new sample_ctx Primary (counter_of Primary sample_wallet + of_nat i))) {..<33}"
  proof (rule inj_onI)
    fix i j :: nat assume i: "i \<in> {..<33}" "j \<in> {..<33}"
      "blinded_nonce_of (ctx_ops sample_ctx) (issuance_new sample_ctx Primary (counter_of Primary sample_wallet + of_nat i)) =
       blinded_nonce_of (ctx_ops sample_ctx) (issuance_new sample_ctx Primary (counter_of Primary sample_wallet + of_nat j))"
    then have "(of_nat i :: 384 word) = of_nat j" using b by (simp add: c)
    then have "unat (of_nat i :: 384 word) = unat (of_nat j :: 384 word)" by simp
    then show "i = j" using i(1,2) by (simp add: unat_of_nat)
  qed
  moreover have "inj_on (note_pub (ctx_ops sample_ctx)) {n. holds sample_wallet Primary n}"
    by (simp add: h sample_notes_def inj_on_def note_pub_def sample_ctx_def sample_ops_def wallet_note_def)
  moreover have "spendable (ctx_ops sample_ctx) (ecash_cfg sample_cfg) (ecash_tables mint) n" if "holds sample_wallet Primary n" for n
    using that sample_keys(1) sample_notes_facts(2)
    by (auto simp: m h spendable_def genesis_def bt_has_def client_notes_def list_all_iff verify_note_def sample_ctx_def sample_ops_def
        mint_tbs_def note_of_def sample_notes_def wallet_note_def)
  moreover have "ctbs (ctx_ops sample_ctx) = dtbs sample_mint" "ccrypto (ctx_ops sample_ctx) = dcrypto sample_mint"
    by (simp_all add: sample_ctx_def sample_mint_def mint_ops_def sample_ops_def)
  moreover have "signs_for (ctx_ops sample_ctx)" "\<not> bt_has (blinded_nonces (ecash_tables mint)) x" for x
    using sample_signs by (simp_all add: m sample_ctx_def genesis_def bt_has_def)
  ultimately show ?thesis using sample_keys(2) unfolding honours_def by blast
qed

lemma sample_small: "length (account_notes Primary sample_wallet) = 8"
  using mset_eq_length [OF sample_wallet_facts(2)] by (simp add: sample_notes_def)

definition sample_invoice :: bolt11 where
  "sample_invoice = \<lparr>iv_amount = Some 5000000, iv_expired = False, iv_network = ''bitcoin'', iv_payment_hash = 77, iv_payee = 5, iv_hash = 78\<rparr>"

definition sample_info :: gateway_info where
  "sample_info = \<lparr>module_public_key = 31, send_fee = SEND_FEE_LIMIT, receive_fee = RECEIVE_FEE_LIMIT\<rparr>"

definition sample_lightning_client :: lightning_client where
  "sample_lightning_client =
     \<lparr>lc_wallet = sample_wallet, lc_cursor = None, lc_gateway_pks = bt_empty, lc_send_operations = bt_empty, lc_send_sms = bt_empty\<rparr>"

lemma sample_lightning_client [simp]:
  "lc_wallet sample_lightning_client = sample_wallet" "\<not> bt_has (lc_send_sms sample_lightning_client) k''"
  "\<not> bt_has (lc_send_operations sample_lightning_client) op" "log_room 2 sample_wallet"
  "\<not> bt_has (tx_sms sample_wallet) k" "\<not> bt_has (ecash_sms sample_wallet) k'"
  by (simp_all add: sample_lightning_client_def sample_wallet_def) (simp_all add: bt_has_def)

theorem payment_accepted_witness:
  "\<exists>db' sm tsm mint'. lightning_send sample_lightning (1, 2, 3) 9 Primary 4 sample_info sample_invoice False sample_lightning_client = Done (77, db') \<and>
    bt_get (lc_send_sms db') 3 = Some sm \<and> bt_get (tx_sms (lc_wallet db')) 1 = Some tsm \<and> process_tx sample_mint sample_cfg (ts_tx tsm) genesis = Done mint' \<and>
    bt_get (outgoing_contracts (lightning_tables mint')) (ls_outpoint sm) = Some (ls_contract sm) \<and> payment_hash (ls_contract sm) = 77 \<and>
    (\<forall>db2. (client_step sample_lightning)\<^sup>*\<^sup>* db' db2 \<longrightarrow>
       (\<exists>e. lightning_send sample_lightning (4, 5, 6) 9 Secondary 4 sample_info sample_invoice False db2 = Failed e))"
proof -
  have f: "iv_amount sample_invoice = Some 5000000" "\<not> iv_expired sample_invoice" "lx_network sample_lightning = iv_network sample_invoice"
    "fee_is_within (send_fee sample_info) SEND_FEE_LIMIT" "lx_client sample_lightning = sample_ctx"
    by (simp_all add: sample_invoice_def sample_lightning_def sample_info_def fee_is_within_def)
  have g: "wallet_ok (lc_wallet sample_lightning_client)" "log_room 2 (lc_wallet sample_lightning_client)"
    "\<not> bt_has (tx_sms (lc_wallet sample_lightning_client)) 1" "\<not> bt_has (ecash_sms (lc_wallet sample_lightning_client)) 2"
    "\<not> bt_has (lc_send_sms sample_lightning_client) 3" "\<not> bt_has (lc_send_operations sample_lightning_client) (iv_payment_hash sample_invoice)"
    "unat (5000000 :: u64) + unat (5000000 :: u64) div 100 + 51000 < spend_value (account_notes Primary (lc_wallet sample_lightning_client))"
    "face_value (account_notes Primary (lc_wallet sample_lightning_client)) < 2 ^ 42"
    "length (account_notes Primary (lc_wallet sample_lightning_client)) \<le> MAX_INPUTS"
    "honours sample_mint sample_cfg genesis (lx_client sample_lightning) Primary (lc_wallet sample_lightning_client)"
    using sample_wallet_facts sample_small sample_honours [of genesis] f(5) by (simp_all add: MAX_INPUTS_def)
  have "\<exists>db' sm tsm mint'. lightning_send sample_lightning (1, 2, 3) 9 Primary 4 sample_info sample_invoice False sample_lightning_client =
      Done (iv_payment_hash sample_invoice, db') \<and> bt_get (lc_send_sms db') 3 = Some sm \<and> bt_get (tx_sms (lc_wallet db')) 1 = Some tsm \<and>
      process_tx sample_mint sample_cfg (ts_tx tsm) genesis = Done mint' \<and>
      bt_get (outgoing_contracts (lightning_tables mint')) (ls_outpoint sm) = Some (ls_contract sm) \<and>
      payment_hash (ls_contract sm) = iv_payment_hash sample_invoice \<and>
      (\<forall>db2. (client_step sample_lightning)\<^sup>*\<^sup>* db' db2 \<longrightarrow>
       (\<exists>e. lightning_send sample_lightning (4, 5, 6) 9 Secondary 4 sample_info sample_invoice False db2 = Failed e))"
    using payment_accepted [OF g(1-5) f(1-4) g(6-10), of 9 4] by (elim exE conjE) (intro exI conjI, assumption+, blast)
  moreover have "iv_payment_hash sample_invoice = 77" by (simp add: sample_invoice_def)
  ultimately show ?thesis by simp
qed

definition sample_incoming :: incoming_contract where
  "sample_incoming = the (author_contract sample_crypto sample_ecdh 11 (public_key sample_ecdh (receive_secret sample_lightning Primary))
     (Amount 90000) (Amount 50))"

text \<open>A mint with one incoming and one outgoing contract, without notes.\<close>

definition sample_outgoing :: outgoing_contract where
  "sample_outgoing = \<lparr>payment_hash = 77, oc_amount = Amount 5000000, oc_fee = Amount 100000, oc_claim_pk = 31, refund_pk = 9, invoice = 78\<rparr>"

definition contract_mint :: daemon_db where
  "contract_mint = genesis\<lparr>lightning_tables := (lightning_tables genesis)\<lparr>
     incoming_contracts := bt_insert (OutPoint 3 0) sample_incoming bt_empty,
     contract_stream := bt_insert 0 (OutPoint 3 0, sample_incoming) bt_empty,
     contract_index := bt_insert (OutPoint 3 0) 0 bt_empty, stream_next_index := Some 1,
     outgoing_contracts := bt_insert (OutPoint 8 0) sample_outgoing bt_empty\<rparr>\<rparr>"

lemma contract_mint_facts:
  "ecash_tables contract_mint = ecash_tables genesis" "stream_ok (lightning_tables contract_mint)"
  "bt_get (contract_stream (lightning_tables contract_mint)) 0 = Some (OutPoint 3 0, sample_incoming)"
  "bt_get (outgoing_contracts (lightning_tables contract_mint)) (OutPoint 8 0) = Some sample_outgoing"
  by (auto simp: contract_mint_def stream_ok_def split: option.splits if_splits)

theorem incoming_claimed_witness:
  "\<exists>w' tsm mint'. receive_incoming_contract sample_lightning (1, 2) Primary (receive_secret sample_lightning Primary) (OutPoint 3 0)
      sample_incoming sample_wallet = Some w' \<and> bt_get (tx_sms w') 1 = Some tsm \<and>
    process_tx sample_mint sample_cfg (ts_tx tsm) contract_mint = Done mint' \<and>
    (\<forall>j q d. bt_get (contract_stream (lightning_tables mint')) j = Some (q, d) \<longrightarrow> q \<noteq> OutPoint 3 0)"
proof -
  have x: "lx_ops sample_lightning = sample_ops" "lx_ecdh sample_lightning = sample_ecdh" "lx_client sample_lightning = sample_ctx"
    "ccrypto sample_ops = sample_crypto" "ctx_ops sample_ctx = sample_ops"
    by (simp_all add: sample_lightning_def sample_ctx_def sample_ops_def)
  have c: "author_contract (ccrypto (lx_ops sample_lightning)) (lx_ecdh sample_lightning) 11
      (public_key (lx_ecdh sample_lightning) (receive_secret sample_lightning Primary)) (Amount 90000) (Amount 50) = Some sample_incoming"
    by (simp add: x sample_incoming_def author_contract_def) (simp add: sample_ecdh_def)
  have g: "ecdh_ok (lx_ops sample_lightning) (lx_ecdh sample_lightning)" "712 + amount_nat (Amount 50) \<le> amount_nat (Amount 90000)"
    "amount_nat (Amount 90000) + face_value (account_notes Primary sample_wallet) < 2 ^ 42"
    "Suc (length (account_notes Primary sample_wallet)) \<le> MAX_INPUTS"
    "honours sample_mint sample_cfg contract_mint (lx_client sample_lightning) Primary sample_wallet"
    using sample_wallet_facts sample_small sample_honours [OF contract_mint_facts(1)] sample_ecdh_ok by (simp_all add: x MAX_INPUTS_def)
  show ?thesis
    using incoming_claimed [OF sample_wallet_facts(1) sample_lightning_client(4-6) g(1) c contract_mint_facts(2,3) g(2-5), of 1 2]
    by (elim exE conjE) (intro exI conjI, assumption+)
qed

definition sample_send_sm :: send_sm where
  "sample_send_sm = \<lparr>ls_account = Primary, ls_operation = 77, ls_outpoint = OutPoint 8 0, ls_contract = sample_outgoing, ls_gateway = 4,
     ls_invoice = sample_invoice, ls_refund_keypair = 9, ls_state = Funding\<rparr>"

lemma sample_send_sm [simp]:
  "ls_account sample_send_sm = Primary" "ls_outpoint sample_send_sm = OutPoint 8 0" "ls_contract sample_send_sm = sample_outgoing"
  "ls_refund_keypair sample_send_sm = 9" "oc_amount sample_outgoing = Amount 5000000" "oc_fee sample_outgoing = Amount 100000"
  "refund_pk sample_outgoing = 9"
  by (simp_all add: sample_send_sm_def sample_outgoing_def)

theorem refund_accepted_witness:
  "\<exists>db' tsm mint' txid. drive_send sample_ctx (1, 2) 3 sample_send_sm (GatewayResponse (Inl 5)) sample_lightning_client = Some db' \<and>
    bt_get (lc_send_sms db') 3 = Some (sample_send_sm\<lparr>ls_state := Refunding txid\<rparr>) \<and> bt_get (tx_sms (lc_wallet db')) 1 = Some tsm \<and>
    process_tx sample_mint sample_cfg (ts_tx tsm) contract_mint = Done mint' \<and>
    bt_get (outgoing_contracts (lightning_tables mint')) (OutPoint 8 0) = None"
proof -
  have g: "bt_get (outgoing_contracts (lightning_tables contract_mint)) (ls_outpoint sample_send_sm) = Some (ls_contract sample_send_sm)"
    "verify_forfeit_signature (dcrypto sample_mint) (ls_contract sample_send_sm) 5"
    "x_only_public_key (ctx_ops sample_ctx) (ls_refund_keypair sample_send_sm) = refund_pk (ls_contract sample_send_sm)"
    "712 \<le> amount_nat (oc_amount (ls_contract sample_send_sm)) + amount_nat (oc_fee (ls_contract sample_send_sm))"
    "amount_nat (oc_amount (ls_contract sample_send_sm)) + amount_nat (oc_fee (ls_contract sample_send_sm)) +
       face_value (account_notes (ls_account sample_send_sm) (lc_wallet sample_lightning_client)) < 2 ^ 42"
    "Suc (length (account_notes (ls_account sample_send_sm) (lc_wallet sample_lightning_client))) \<le> MAX_INPUTS"
    "honours sample_mint sample_cfg contract_mint sample_ctx (ls_account sample_send_sm) (lc_wallet sample_lightning_client)"
    using sample_wallet_facts sample_small sample_honours [OF contract_mint_facts(1)] contract_mint_facts(4)
    by (simp_all add: MAX_INPUTS_def verify_forfeit_signature_def sample_mint_def sample_crypto_def sample_ctx_def sample_ops_def enc_int_def)
  have w: "wallet_ok (lc_wallet sample_lightning_client)" "log_room 2 (lc_wallet sample_lightning_client)"
    "\<not> bt_has (tx_sms (lc_wallet sample_lightning_client)) 1" "\<not> bt_has (ecash_sms (lc_wallet sample_lightning_client)) 2"
    using sample_wallet_facts(1) by simp_all
  show ?thesis
    using refund_accepted [OF w g, where k'' = 3 and r = None and ids = "(1, 2)"] unfolding sample_send_sm by (elim exE conjE) (intro exI conjI, assumption+)
qed

theorem early_refund_stuck_witness:
  "\<exists>db' tsm. drive_send sample_ctx (1, 2) 3 sample_send_sm (GatewayResponse (Inl 5)) sample_lightning_client = Some db' \<and>
    bt_get (tx_sms (lc_wallet db')) 1 = Some tsm \<and>
    process_tx sample_mint sample_cfg (ts_tx tsm) genesis = Failed (TxInput (LightningInputError UnknownContract))"
proof -
  have g: "712 \<le> amount_nat (oc_amount (ls_contract sample_send_sm)) + amount_nat (oc_fee (ls_contract sample_send_sm))"
    "amount_nat (oc_amount (ls_contract sample_send_sm)) + amount_nat (oc_fee (ls_contract sample_send_sm)) +
       face_value (account_notes (ls_account sample_send_sm) (lc_wallet sample_lightning_client)) < 2 ^ 42"
    "Suc (length (account_notes (ls_account sample_send_sm) (lc_wallet sample_lightning_client))) \<le> MAX_INPUTS"
    using sample_wallet_facts sample_small by (simp_all add: MAX_INPUTS_def)
  have w: "wallet_ok (lc_wallet sample_lightning_client)" "log_room 2 (lc_wallet sample_lightning_client)"
    "\<not> bt_has (tx_sms (lc_wallet sample_lightning_client)) 1" "\<not> bt_has (ecash_sms (lc_wallet sample_lightning_client)) 2"
    using sample_wallet_facts(1) by simp_all
  have "bt_get (outgoing_contracts (lightning_tables genesis)) (ls_outpoint sample_send_sm) = None"
    by (simp add: genesis_def empty_lightning_def)
  then show ?thesis using early_refund_stuck [OF w g, of sample_ctx 3 5] by blast
qed

end
