(* ===== verification/Tbs.thy ===== *)
theory Tbs
  imports Threshold
begin

text \<open>
  Threshold blind signatures (\<open>picomint-tbs/src/lib.rs\<close>): a nonce is blinded by the client, signed
  by each node with its share of the mint's key, and the shares of a threshold of nodes combine to
  the mint's signature of the blinded nonce, which the client unblinds. Scalars are the elements of
  a field, points those of two abelian groups; the curve itself is foreign code, a record of its
  generators, scalar multiplications and pairing.
\<close>

section \<open>The curve\<close>

record ('f, 'a, 'b, 't) curve =
  g1_generator :: 'a
  g2_generator :: 'b
  mul1 :: "'f \<Rightarrow> 'a \<Rightarrow> 'a"
  mul2 :: "'f \<Rightarrow> 'b \<Rightarrow> 'b"
  mult :: "'f \<Rightarrow> 't \<Rightarrow> 't"
  pairing :: "'a \<Rightarrow> 'b \<Rightarrow> 't"

text \<open>The pairing is bilinear; the target group is written additively.\<close>

definition curve_laws :: "('f::field, 'a::ab_group_add, 'b::ab_group_add, 't::ab_group_add) curve \<Rightarrow> bool" where
  "curve_laws E \<longleftrightarrow> scalar_laws (mul1 E) \<and> scalar_laws (mul2 E) \<and> scalar_laws (mult E) \<and>
     (\<forall>x y z. pairing E (x + y) z = pairing E x z + pairing E y z) \<and>
     (\<forall>x y z. pairing E x (y + z) = pairing E x y + pairing E x z) \<and>
     (\<forall>a x y. pairing E (mul1 E a x) y = mult E a (pairing E x y)) \<and>
     (\<forall>a x y. pairing E x (mul2 E a y) = mult E a (pairing E x y))"

text \<open>Pairing with a fixed second argument tells points apart: the groups have prime order.\<close>

definition pairing_injective :: "('f, 'a, 'b, 't) curve \<Rightarrow> 'b \<Rightarrow> bool" where
  "pairing_injective E y \<longleftrightarrow> inj (\<lambda>x. pairing E x y)"

lemma curve_lawsD:
  assumes "curve_laws E"
  shows "scalar_laws (mul1 E)" "scalar_laws (mul2 E)" "scalar_laws (mult E)"
    "pairing E (x + y) z = pairing E x z + pairing E y z"
    "pairing E x (v + w) = pairing E x v + pairing E x w"
    "pairing E (mul1 E a x) v = mult E a (pairing E x v)"
    "pairing E x (mul2 E a v) = mult E a (pairing E x v)"
  using assms unfolding curve_laws_def by blast+

lemma pairing_swap: "curve_laws E \<Longrightarrow> pairing E (mul1 E a x) y = pairing E x (mul2 E a y)"
  by (simp add: curve_lawsD)

lemma pairing_gpeval:
  assumes "curve_laws E"
  shows "pairing E x (gpeval (mul2 E) cs z) = gpeval (mult E) (map (pairing E x) cs) z"
proof (induction cs)
  case Nil
  show ?case using curve_lawsD(5) [OF assms, of x 0 0] by simp
qed (simp add: curve_lawsD [OF assms])

section \<open>The scheme\<close>

definition TBS_TAG :: bytes where
  "TBS_TAG = ascii ''PICOMINT_TBS_BLS12_381_NONCE''"

definition tbs_derive_pk_share :: "('f, 'a, 'b, 't) curve \<Rightarrow> 'f \<Rightarrow> 'b" where
  "tbs_derive_pk_share E sk = mul2 E sk (g2_generator E)"

text \<open>\<open>Nonce::from_public_key\<close>; the sampling of a point from a seed is foreign code.\<close>

definition tbs_nonce :: "(bytes \<Rightarrow> 'h) \<Rightarrow> ('h \<Rightarrow> 'a) \<Rightarrow> bytes \<Rightarrow> 'a" where
  "tbs_nonce sha random_g1 pk = random_g1 (sha (enc_byte_array TBS_TAG @ enc_byte_array pk))"

definition tbs_blind_nonce :: "('f, 'a, 'b, 't) curve \<Rightarrow> 'a \<Rightarrow> 'f \<Rightarrow> 'a" where
  "tbs_blind_nonce E n b = mul1 E b n"

definition tbs_sign_nonce :: "('f, 'a, 'b, 't) curve \<Rightarrow> 'a \<Rightarrow> 'f \<Rightarrow> 'a" where
  "tbs_sign_nonce E n sks = mul1 E sks n"

definition tbs_verify_share :: "('f, 'a, 'b, 't) curve \<Rightarrow> 'a \<Rightarrow> 'a \<Rightarrow> 'b \<Rightarrow> bool" where
  "tbs_verify_share E n sig pk \<longleftrightarrow> pairing E n pk = pairing E sig (g2_generator E)"

text \<open>With one share the key is not shared; \<open>None\<close> is the panic on no share at all.\<close>

definition tbs_aggregate :: "('f::field, 'a::ab_group_add, 'b, 't) curve \<Rightarrow> (u64, 'a) btmap \<Rightarrow> 'a option" where
  "tbs_aggregate E shares =
     (if bt_len shares = 1 then (case bt_values shares of [] \<Rightarrow> None | s # _ \<Rightarrow> Some s)
      else combine_shares (mul1 E) shares)"

definition tbs_verify_blinded :: "('f, 'a, 'b, 't) curve \<Rightarrow> 'a \<Rightarrow> 'a \<Rightarrow> 'b \<Rightarrow> bool" where
  "tbs_verify_blinded E n sig pk \<longleftrightarrow> pairing E n pk = pairing E sig (g2_generator E)"

text \<open>\<open>None\<close> is the unwrap of the inverse of zero.\<close>

definition tbs_unblind :: "('f::field, 'a, 'b, 't) curve \<Rightarrow> 'f \<Rightarrow> 'a \<Rightarrow> 'a option" where
  "tbs_unblind E b sig = (if b = 0 then None else Some (mul1 E (inverse b) sig))"

definition tbs_verify_signature :: "('f, 'a, 'b, 't) curve \<Rightarrow> 'a \<Rightarrow> 'a \<Rightarrow> 'b \<Rightarrow> bool" where
  "tbs_verify_signature E n sig pk \<longleftrightarrow> pairing E n pk = pairing E sig (g2_generator E)"

section \<open>Shares\<close>

lemma sign_verifies:
  "curve_laws E \<Longrightarrow> tbs_verify_share E n (tbs_sign_nonce E n sk) (tbs_derive_pk_share E sk)"
  by (simp add: tbs_verify_share_def tbs_sign_nonce_def tbs_derive_pk_share_def pairing_swap)

text \<open>The check on a share is exact: the one share it accepts is the one the node's key makes.\<close>

lemma verify_share_exact:
  assumes "curve_laws E" "pairing_injective E (g2_generator E)"
  shows "tbs_verify_share E n sig (tbs_derive_pk_share E sk) \<longleftrightarrow> sig = tbs_sign_nonce E n sk"
proof -
  have "pairing E n (tbs_derive_pk_share E sk) = pairing E (tbs_sign_nonce E n sk) (g2_generator E)"
    by (simp add: tbs_derive_pk_share_def tbs_sign_nonce_def pairing_swap [OF assms(1)])
  then show ?thesis using assms(2) by (auto simp: tbs_verify_share_def pairing_injective_def inj_def)
qed

text \<open>
  Shares that pass their check against the public shares, the values of the commitment \<open>cs\<close>, combine
  to a signature under its constant coefficient. Nothing is asked of the secrets behind them.
\<close>

lemma aggregate_verifies:
  fixes E :: "('f::field, 'a::ab_group_add, 'b::ab_group_add, 't::ab_group_add) curve"
  assumes E: "curve_laws E" and d: "separated TYPE('f) shares"
    and l: "cs \<noteq> []" "length cs \<le> bt_len shares"
    and ok: "\<And>i s. bt_get shares i = Some s \<Longrightarrow> tbs_verify_share E n s (gpeval (mul2 E) cs (eval_point i))"
  shows "\<exists>sig. tbs_aggregate E shares = Some sig \<and> tbs_verify_blinded E n sig (hd cs)"
proof (cases "bt_len shares = 1")
  case True
  then obtain i s where e: "entries shares = [(i, s)]"
    by (auto simp: bt_len_def length_Suc_conv)
  then have "bt_get shares i = Some s" by (simp add: bt_get_def)
  moreover obtain c where "cs = [c]" using l True by (cases cs) auto
  ultimately show ?thesis using ok [of i s] True e scalar_zero(2) [OF curve_lawsD(2) [OF E]]
    by (auto simp: tbs_aggregate_def bt_values_def tbs_verify_share_def tbs_verify_blinded_def)
next
  case False
  then have "2 \<le> bt_len shares" using l by (cases cs) auto
  then obtain y where y: "combine_shares (mul1 E) shares = Some y"
    "pairing E y (g2_generator E) = gpeval (mult E) (map (pairing E n) cs) 0"
    using combine_shares_at_zero [where h = "\<lambda>s. pairing E s (g2_generator E)" and sm = "mul1 E" and tm = "mult E"
        and shares = shares and cs = "map (pairing E n) cs", OF curve_lawsD(3) [OF E]] d l ok
    by (auto simp: curve_lawsD [OF E] tbs_verify_share_def pairing_gpeval [OF E])
  with False l show ?thesis
    by (simp add: tbs_aggregate_def tbs_verify_blinded_def gpeval_zero [OF curve_lawsD(3) [OF E]] hd_map)
qed

lemma unblind_verifies:
  assumes E: "curve_laws E" and b: "b \<noteq> 0"
    and v: "tbs_verify_blinded E (tbs_blind_nonce E n b) sig pk"
  shows "\<exists>s. tbs_unblind E b sig = Some s \<and> tbs_verify_signature E n s pk"
proof -
  have "mult E (inverse b) (pairing E (mul1 E b n) pk) = mult E (inverse b) (pairing E sig (g2_generator E))"
    using v by (simp add: tbs_verify_blinded_def tbs_blind_nonce_def)
  then have "pairing E n pk = pairing E (mul1 E (inverse b) sig) (g2_generator E)"
    by (simp add: curve_lawsD [OF E] scalar_inverse [OF curve_lawsD(3) [OF E] b])
  then show ?thesis using b by (simp add: tbs_unblind_def tbs_verify_signature_def)
qed

end
