(* ===== verification/Tpe.thy ===== *)
theory Tpe
  imports Tbs
begin

text \<open>
  Threshold encryption of preimages (\<open>picomint-tpe/src/lib.rs\<close>): a preimage is encrypted to the mint's
  key, and the decryption key shares of a threshold of nodes combine to the key that opens it. SHA-256,
  the sampling of scalars and points and the compression of a point are foreign code.
\<close>

record ('f, 'a, 'b) tpe_hashes =
  tpe_sha256 :: "bytes \<Rightarrow> bytes"
  random_scalar :: "bytes \<Rightarrow> 'f"
  random_g2 :: "bytes \<Rightarrow> 'b"
  compress_g1 :: "'a \<Rightarrow> bytes"

record ('a, 'b) cipher_text =
  encrypted_preimage :: bytes
  ct_pk :: 'a
  ct_signature :: 'b

definition TPE_TAG :: bytes where
  "TPE_TAG = ascii ''PICOMINT_TPE_BLS12_381_MESSAGE''"

definition tpe_derive_pk_share :: "('f, 'a, 'b, 't) curve \<Rightarrow> 'f \<Rightarrow> 'a" where
  "tpe_derive_pk_share E sk = mul1 E sk (g1_generator E)"

definition derive_ephemeral_sk :: "('f, 'a, 'b) tpe_hashes \<Rightarrow> bytes \<Rightarrow> 'f" where
  "derive_ephemeral_sk H seed = random_scalar H seed"

definition derive_agg_dk :: "('f, 'a, 'b, 't) curve \<Rightarrow> ('f, 'a, 'b) tpe_hashes \<Rightarrow> 'a \<Rightarrow> bytes \<Rightarrow> 'a" where
  "derive_agg_dk E H agg_pk seed = mul1 E (derive_ephemeral_sk H seed) agg_pk"

definition xor_with_hash :: "('f, 'a, 'b) tpe_hashes \<Rightarrow> bytes \<Rightarrow> 'a \<Rightarrow> bytes" where
  "xor_with_hash H bs agg_dk = (let h = tpe_sha256 H (compress_g1 H agg_dk) in map (\<lambda>i. xor (bs ! i) (h ! i)) [0..<32])"

definition hash_to_message :: "('f, 'a, 'b) tpe_hashes \<Rightarrow> bytes \<Rightarrow> 'a \<Rightarrow> bytes \<Rightarrow> 'b" where
  "hash_to_message H enc epk commitment =
     random_g2 H (tpe_sha256 H (enc_byte_array TPE_TAG @ enc_byte_array enc @ enc_byte_array (compress_g1 H epk) @ commitment))"

definition encrypt_preimage ::
  "('f, 'a, 'b, 't) curve \<Rightarrow> ('f, 'a, 'b) tpe_hashes \<Rightarrow> 'a \<Rightarrow> bytes \<Rightarrow> bytes \<Rightarrow> bytes \<Rightarrow> ('a, 'b) cipher_text" where
  "encrypt_preimage E H agg_pk seed preimage commitment =
     (let agg_dk = derive_agg_dk E H agg_pk seed;
          enc = xor_with_hash H preimage agg_dk;
          esk = derive_ephemeral_sk H seed;
          epk = mul1 E esk (g1_generator E)
      in \<lparr>encrypted_preimage = enc, ct_pk = epk, ct_signature = mul2 E esk (hash_to_message H enc epk commitment)\<rparr>)"

definition ct_message :: "('f, 'a, 'b) tpe_hashes \<Rightarrow> ('a, 'b) cipher_text \<Rightarrow> bytes \<Rightarrow> 'b" where
  "ct_message H ct commitment = hash_to_message H (encrypted_preimage ct) (ct_pk ct) commitment"

definition verify_ciphertext ::
  "('f, 'a, 'b, 't) curve \<Rightarrow> ('f, 'a, 'b) tpe_hashes \<Rightarrow> ('a, 'b) cipher_text \<Rightarrow> bytes \<Rightarrow> bool" where
  "verify_ciphertext E H ct commitment \<longleftrightarrow>
     pairing E (g1_generator E) (ct_signature ct) = pairing E (ct_pk ct) (ct_message H ct commitment)"

definition decrypt_preimage :: "('f, 'a, 'b) tpe_hashes \<Rightarrow> ('a, 'b) cipher_text \<Rightarrow> 'a \<Rightarrow> bytes" where
  "decrypt_preimage H ct agg_dk = xor_with_hash H (encrypted_preimage ct) agg_dk"

text \<open>\<open>None\<close> is the assertion that the ciphertext is valid.\<close>

definition verify_agg_dk ::
  "('f, 'a, 'b, 't) curve \<Rightarrow> ('f, 'a, 'b) tpe_hashes \<Rightarrow> 'a \<Rightarrow> 'a \<Rightarrow> ('a, 'b) cipher_text \<Rightarrow> bytes \<Rightarrow> bool option" where
  "verify_agg_dk E H agg_pk agg_dk ct commitment =
     (let m = ct_message H ct commitment
      in if pairing E (g1_generator E) (ct_signature ct) = pairing E (ct_pk ct) m
         then Some (pairing E agg_dk m = pairing E agg_pk (ct_signature ct)) else None)"

definition create_dk_share :: "('f, 'a, 'b, 't) curve \<Rightarrow> 'f \<Rightarrow> ('a, 'b) cipher_text \<Rightarrow> 'a" where
  "create_dk_share E sks ct = mul1 E sks (ct_pk ct)"

definition verify_dk_share ::
  "('f, 'a, 'b, 't) curve \<Rightarrow> ('f, 'a, 'b) tpe_hashes \<Rightarrow> 'a \<Rightarrow> 'a \<Rightarrow> ('a, 'b) cipher_text \<Rightarrow> bytes \<Rightarrow> bool option" where
  "verify_dk_share E H pks dks ct commitment =
     (let m = ct_message H ct commitment
      in if pairing E (g1_generator E) (ct_signature ct) = pairing E (ct_pk ct) m
         then Some (pairing E dks m = pairing E pks (ct_signature ct)) else None)"

definition aggregate_dk_shares :: "('f::field, 'a::ab_group_add, 'b, 't) curve \<Rightarrow> (u64, 'a) btmap \<Rightarrow> 'a option" where
  "aggregate_dk_shares E shares = combine_shares (mul1 E) shares"

section \<open>Encryption and decryption\<close>

lemma xor_with_hash_twice:
  "length bs = 32 \<Longrightarrow> xor_with_hash H (xor_with_hash H bs dk) dk = bs"
  by (intro nth_equalityI) (simp_all add: xor_with_hash_def Let_def xor.assoc)

lemma encrypt_verifies:
  "curve_laws E \<Longrightarrow> verify_ciphertext E H (encrypt_preimage E H pk seed preimage com) com"
  by (simp add: verify_ciphertext_def encrypt_preimage_def ct_message_def Let_def pairing_swap)

lemma decrypt_encrypt:
  "length preimage = 32 \<Longrightarrow>
   decrypt_preimage H (encrypt_preimage E H pk seed preimage com) (derive_agg_dk E H pk seed) = preimage"
  by (simp add: decrypt_preimage_def encrypt_preimage_def Let_def xor_with_hash_twice)

text \<open>The checks on a valid ciphertext decide, and a node's own share passes.\<close>

lemma verify_dk_share_valid:
  "verify_ciphertext E H ct com \<Longrightarrow>
   verify_dk_share E H pks dks ct com = Some (pairing E dks (ct_message H ct com) = pairing E pks (ct_signature ct))"
  by (simp add: verify_ciphertext_def verify_dk_share_def Let_def)

lemma verify_agg_dk_valid:
  "verify_ciphertext E H ct com \<Longrightarrow>
   verify_agg_dk E H agg dk ct com = Some (pairing E dk (ct_message H ct com) = pairing E agg (ct_signature ct))"
  by (simp add: verify_ciphertext_def verify_agg_dk_def Let_def)

lemma create_dk_share_verifies:
  assumes E: "curve_laws E" and v: "verify_ciphertext E H ct com"
  shows "verify_dk_share E H (tpe_derive_pk_share E sk) (create_dk_share E sk ct) ct com = Some True"
  using v by (simp add: verify_dk_share_valid [OF v] tpe_derive_pk_share_def create_dk_share_def
      verify_ciphertext_def curve_lawsD [OF E])

lemma gpeval_pairing_left:
  assumes "curve_laws E"
  shows "pairing E (gpeval (mul1 E) cs z) y = gpeval (mult E) (map (\<lambda>c. pairing E c y) cs) z"
proof (induction cs)
  case Nil
  show ?case using curve_lawsD(4) [OF assms, of 0 0 y] by simp
qed (simp add: curve_lawsD [OF assms])

text \<open>Shares that pass their check combine to a key that passes the check on the whole key.\<close>

lemma aggregate_dk_verifies:
  fixes E :: "('f::field, 'a::ab_group_add, 'b::ab_group_add, 't::ab_group_add) curve"
  assumes E: "curve_laws E" and v: "verify_ciphertext E H ct com" and d: "separated TYPE('f) shares"
    and l: "2 \<le> bt_len shares" "cs \<noteq> []" "length cs \<le> bt_len shares"
    and ok: "\<And>i s. bt_get shares i = Some s \<Longrightarrow>
      verify_dk_share E H (gpeval (mul1 E) cs (eval_point i)) s ct com = Some True"
  shows "\<exists>dk. aggregate_dk_shares E shares = Some dk \<and> verify_agg_dk E H (hd cs) dk ct com = Some True"
proof -
  obtain y where y: "combine_shares (mul1 E) shares = Some y"
    "pairing E y (ct_message H ct com) = gpeval (mult E) (map (\<lambda>c. pairing E c (ct_signature ct)) cs) 0"
    using combine_shares_at_zero [where h = "\<lambda>s. pairing E s (ct_message H ct com)" and sm = "mul1 E" and tm = "mult E"
        and shares = shares and cs = "map (\<lambda>c. pairing E c (ct_signature ct)) cs", OF curve_lawsD(3) [OF E]] d l ok
    by (auto simp: curve_lawsD [OF E] verify_dk_share_valid [OF v] gpeval_pairing_left [OF E])
  then show ?thesis
    using l by (simp add: aggregate_dk_shares_def verify_agg_dk_valid [OF v] gpeval_zero [OF curve_lawsD(3) [OF E]] hd_map)
qed

text \<open>The check on the whole key is exact on an encryption.\<close>

lemma verify_agg_dk_exact:
  assumes E: "curve_laws E" and ct: "ct = encrypt_preimage E H pk seed preimage com"
    and inj: "pairing_injective E (ct_message H ct com)"
  shows "verify_agg_dk E H pk dk ct com = Some (dk = derive_agg_dk E H pk seed)"
proof -
  have "ct_signature ct = mul2 E (derive_ephemeral_sk H seed) (ct_message H ct com)"
    by (simp add: ct encrypt_preimage_def ct_message_def Let_def)
  then have "pairing E pk (ct_signature ct) = pairing E (derive_agg_dk E H pk seed) (ct_message H ct com)"
    by (simp add: derive_agg_dk_def pairing_swap [OF E])
  moreover have "verify_ciphertext E H ct com" by (simp add: ct encrypt_verifies [OF E])
  ultimately show ?thesis using inj
    by (auto simp: verify_agg_dk_valid pairing_injective_def inj_def)
qed

end
