(* ===== verification/Dkg.thy ===== *)
theory Dkg
  imports Threshold Outcome
begin

text \<open>
  Distributed key generation (\<open>picomint-node-daemon/src/config/{dkg_g2,dkg_secp,poly}.rs\<close>): every node
  deals a random polynomial, hash-commits to it, opens the commitment and sends each other node a
  share; a node's key share is the sum of the shares dealt to it. The two implementations take the
  same steps over different arithmetic: that of the pairing curve is total, that of secp256k1 has no
  zero scalar and no point at infinity, and panics or fails where one would arise.
\<close>

section \<open>State and messages\<close>

record ('f, 'g) dkg =
  dkg_nodes :: num_nodes
  dkg_identity :: node_id
  polynomial :: "'f list"
  hash_commitments :: "(node_id, hash256) btmap"
  commitments :: "(node_id, 'g list) btmap"
  sk_shares :: "(node_id, 'f) btmap"

datatype ('f, 'g) dkg_message = DkgHash hash256 | DkgCommitment "'g list" | DkgShare 'f

datatype ('f, 'g) dkg_step =
    DkgBroadcast "('f, 'g) dkg_message"
  | DkgMessages "(node_id \<times> ('f, 'g) dkg_message) list"
  | DkgResult "'g list" 'f

datatype dkg_error =
    TwoHashCommitments | NoHashCommitment | HashMismatch | WrongDegree | TwoCommitments
  | NoCommitment | EmptyCommitment | HitInfinity | InvalidShare | TwoShares | UnexpectedMessage | Shutdown

text \<open>The arithmetic of one implementation, and the hash of a commitment.\<close>

record ('f, 'g) dkg_ops =
  public_of :: "'f \<Rightarrow> 'g"
  commitment_hash :: "'g list \<Rightarrow> hash256"
  eval_poly_scalar :: "'f list \<Rightarrow> node_id \<Rightarrow> 'f option"
  share_checksum :: "'g list \<Rightarrow> node_id \<Rightarrow> (dkg_error, 'g) outcome"
  sum_shares :: "'f list \<Rightarrow> 'f option"
  sum_points :: "'g list \<Rightarrow> 'g option"

text \<open>Offset by one, since evaluating a polynomial at zero reveals the secret.\<close>

definition node_scalar :: "node_id \<Rightarrow> 'f::field" where
  "node_scalar i = of_nat (unat i + 1)"

section \<open>The two arithmetics\<close>

definition g2 :: "('f \<Rightarrow> 'g \<Rightarrow> 'g) \<Rightarrow> 'g \<Rightarrow> 'f \<Rightarrow> 'g" where
  "g2 sm base s = sm s base"

definition eval_poly_scalar_g2 :: "'f::field list \<Rightarrow> node_id \<Rightarrow> 'f option" where
  "eval_poly_scalar_g2 cs i = reduce (\<lambda>acc c. acc * node_scalar i + c) (rev cs)"

definition eval_poly_g2 :: "('f::field \<Rightarrow> 'g::ab_group_add \<Rightarrow> 'g) \<Rightarrow> 'g list \<Rightarrow> node_id \<Rightarrow> 'g option" where
  "eval_poly_g2 sm cs i = reduce (\<lambda>acc c. sm (node_scalar i) acc + c) (rev cs)"

definition checksum_g2 :: "('f::field \<Rightarrow> 'g::ab_group_add \<Rightarrow> 'g) \<Rightarrow> 'g list \<Rightarrow> node_id \<Rightarrow> (dkg_error, 'g) outcome" where
  "checksum_g2 sm cs i = expect (reduce (+) (map2 (\<lambda>c k. sm (node_scalar i ^ k) c) cs [0..<length cs]))"

definition g2_ops :: "('f::field \<Rightarrow> 'g::ab_group_add \<Rightarrow> 'g) \<Rightarrow> 'g \<Rightarrow> ('g list \<Rightarrow> hash256) \<Rightarrow> ('f, 'g) dkg_ops" where
  "g2_ops sm base h =
     \<lparr>public_of = g2 sm base, commitment_hash = h, eval_poly_scalar = eval_poly_scalar_g2,
      share_checksum = checksum_g2 sm, sum_shares = (\<lambda>ss. Some (sum_list ss)), sum_points = reduce (+)\<rparr>"

text \<open>
  \<open>SecretKey\<close> and \<open>PublicKey\<close> have no zero: their operations fail where the result would be one.
\<close>

definition eval_poly_scalar_secp :: "'f::field list \<Rightarrow> node_id \<Rightarrow> 'f option" where
  "eval_poly_scalar_secp cs i =
     reduce_opt (\<lambda>acc c. Option.bind (nonzero (acc * node_scalar i)) (\<lambda>y. nonzero (y + c))) (rev cs)"

fun eval_poly_loop :: "('f::field \<Rightarrow> 'g::ab_group_add \<Rightarrow> 'g) \<Rightarrow> 'f \<Rightarrow> 'g \<Rightarrow> 'g list \<Rightarrow> (dkg_error, 'g) outcome" where
  "eval_poly_loop sm x acc [] = Done acc"
| "eval_poly_loop sm x acc (c # cs) =
     obind (expect (if x = 0 then None else Some (sm x acc))) (\<lambda>y.
     obind (ok_or HitInfinity (nonzero (y + c))) (\<lambda>z. eval_poly_loop sm x z cs))"

definition eval_poly :: "('f::field \<Rightarrow> 'g::ab_group_add \<Rightarrow> 'g) \<Rightarrow> 'g list \<Rightarrow> node_id \<Rightarrow> (dkg_error, 'g) outcome" where
  "eval_poly sm cs i =
     (case rev cs of [] \<Rightarrow> Failed EmptyCommitment | c # ds \<Rightarrow> eval_poly_loop sm (node_scalar i) c ds)"

definition secp_ops :: "('f::field \<Rightarrow> 'g::ab_group_add \<Rightarrow> 'g) \<Rightarrow> 'g \<Rightarrow> ('g list \<Rightarrow> hash256) \<Rightarrow> ('f, 'g) dkg_ops" where
  "secp_ops sm base h =
     \<lparr>public_of = (\<lambda>s. sm s base), commitment_hash = h, eval_poly_scalar = eval_poly_scalar_secp,
      share_checksum = eval_poly sm, sum_shares = reduce_opt (\<lambda>a b. nonzero (a + b)),
      sum_points = reduce_opt (\<lambda>a b. nonzero (a + b))\<rparr>"

section \<open>The steps\<close>

text \<open>\<open>DkgG2::new\<close>; the random polynomial is an argument.\<close>

definition dkg_commitment :: "('f, 'g) dkg_ops \<Rightarrow> 'f list \<Rightarrow> 'g list" where
  "dkg_commitment G p = map (public_of G) p"

definition dkg_new :: "('f, 'g) dkg_ops \<Rightarrow> num_nodes \<Rightarrow> node_id \<Rightarrow> 'f list \<Rightarrow> ('f, 'g) dkg" where
  "dkg_new G n i p =
     \<lparr>dkg_nodes = n, dkg_identity = i, polynomial = p,
      hash_commitments = bt_insert i (commitment_hash G (dkg_commitment G p)) bt_empty,
      commitments = bt_insert i (dkg_commitment G p) bt_empty, sk_shares = bt_empty\<rparr>"

definition initial_message :: "('f, 'g) dkg_ops \<Rightarrow> ('f, 'g) dkg \<Rightarrow> ('f, 'g) dkg_message" where
  "initial_message G st = DkgHash (commitment_hash G (dkg_commitment G (polynomial st)))"

text \<open>Dealing the shares: our own is kept, the others are sent. \<open>None\<close> is a panic.\<close>

fun deal_shares ::
  "('f, 'g) dkg_ops \<Rightarrow> ('f, 'g) dkg \<Rightarrow> node_id list \<Rightarrow> (node_id, 'f) btmap \<Rightarrow>
   ((node_id \<times> ('f, 'g) dkg_message) list \<times> (node_id, 'f) btmap) option" where
  "deal_shares G st [] shares = Some ([], shares)"
| "deal_shares G st (i # is) shares =
     Option.bind (eval_poly_scalar G (polynomial st) i) (\<lambda>s.
       if i = dkg_identity st then deal_shares G st is (bt_insert i s shares)
       else map_option (\<lambda>(ms, sh). ((i, DkgShare s) # ms, sh)) (deal_shares G st is shares))"

text \<open>The coefficients of the joint commitment; indexing past a commitment panics.\<close>

definition joint_coefficient :: "('f, 'g) dkg_ops \<Rightarrow> 'g list list \<Rightarrow> nat \<Rightarrow> 'g option" where
  "joint_coefficient G css k =
     (if \<forall>cs \<in> set css. k < length cs then sum_points G (map (\<lambda>cs. cs ! k) css) else None)"

definition dkg_result :: "('f, 'g) dkg_ops \<Rightarrow> ('f, 'g) dkg \<Rightarrow> ('g list \<times> 'f) option" where
  "dkg_result G st =
     Option.bind (sum_shares G (bt_values (sk_shares st))) (\<lambda>sks.
     map_option (\<lambda>pks. (pks, sks))
       (option_seq (map (joint_coefficient G (bt_values (commitments st))) [0..<threshold (dkg_nodes st)])))"

fun dkg_handle ::
  "('f, 'g) dkg_ops \<Rightarrow> node_id \<Rightarrow> ('f, 'g) dkg_message \<Rightarrow> ('f, 'g) dkg \<Rightarrow>
   (dkg_error, ('f, 'g) dkg_step \<times> ('f, 'g) dkg) outcome" where
  "dkg_handle G node (DkgHash h) st =
     (let st1 = st\<lparr>hash_commitments := bt_insert node h (hash_commitments st)\<rparr>
      in obind (ensure (\<not> bt_has (hash_commitments st) node) TwoHashCommitments) (\<lambda>_.
         if bt_len (hash_commitments st1) = total (dkg_nodes st)
         then Done (DkgBroadcast (DkgCommitment (dkg_commitment G (polynomial st))), st1)
         else Done (DkgMessages [], st1)))"
| "dkg_handle G node (DkgCommitment cs) st =
     (let st1 = st\<lparr>commitments := bt_insert node cs (commitments st)\<rparr>
      in obind (ok_or NoHashCommitment (bt_get (hash_commitments st) node)) (\<lambda>h.
         obind (ensure (h = commitment_hash G cs) HashMismatch) (\<lambda>_.
         obind (ensure (threshold (dkg_nodes st) = length cs) WrongDegree) (\<lambda>_.
         obind (ensure (\<not> bt_has (commitments st) node) TwoCommitments) (\<lambda>_.
         if bt_len (commitments st1) = total (dkg_nodes st)
         then obind (expect (deal_shares G st1 (node_ids (dkg_nodes st)) (sk_shares st))) (\<lambda>(ms, sh).
              Done (DkgMessages ms, st1\<lparr>sk_shares := sh\<rparr>))
         else Done (DkgMessages [], st1))))))"
| "dkg_handle G node (DkgShare s) st =
     (let st1 = st\<lparr>sk_shares := bt_insert node s (sk_shares st)\<rparr>
      in obind (ok_or NoCommitment (bt_get (commitments st) node)) (\<lambda>cs.
         obind (share_checksum G cs (dkg_identity st)) (\<lambda>checksum.
         obind (ensure (public_of G s = checksum) InvalidShare) (\<lambda>_.
         obind (ensure (\<not> bt_has (sk_shares st) node) TwoShares) (\<lambda>_.
         if bt_len (sk_shares st1) = total (dkg_nodes st)
         then obind (expect (dkg_result G st1)) (\<lambda>(pks, sks). Done (DkgResult pks sks, st1))
         else Done (DkgMessages [], st1))))))"

text \<open>The step functions of the two implementations.\<close>

definition dkg_g2_step where
  "dkg_g2_step sm base h = dkg_handle (g2_ops sm base h)"

definition dkg_secp_step where
  "dkg_secp_step sm base h = dkg_handle (secp_ops sm base h)"

section \<open>The run of a node\<close>

text \<open>
  What a node sends and, at the end, what it returns. The node takes a message of every other node in
  turn, round by round; a message that is not of this protocol, and a closed connection, end the run.
\<close>

datatype ('f, 'g) dkg_sent = ToEveryone "('f, 'g) dkg_message" | ToNode node_id "('f, 'g) dkg_message"

datatype ('f, 'g) dkg_received = DkgMsg "('f, 'g) dkg_message" | OtherMsg | Closed

fun send_step :: "('f, 'g) dkg_step \<Rightarrow> ('f, 'g) dkg_sent list" where
  "send_step (DkgBroadcast m) = [ToEveryone m]"
| "send_step (DkgMessages ms) = map (\<lambda>(i, m). ToNode i m) ms"
| "send_step (DkgResult pks sks) = []"

fun drive_dkg ::
  "('f, 'g) dkg_ops \<Rightarrow> (node_id \<times> ('f, 'g) dkg_received) list \<Rightarrow> ('f, 'g) dkg_sent list \<Rightarrow> ('f, 'g) dkg \<Rightarrow>
   (dkg_error, ('f, 'g) dkg_sent list \<times> ('f, 'g) dkg \<times> ('g list \<times> 'f) option) outcome" where
  "drive_dkg G [] sent st = Done (sent, st, None)"
| "drive_dkg G ((i, Closed) # ms) sent st = Failed Shutdown"
| "drive_dkg G ((i, OtherMsg) # ms) sent st = Failed UnexpectedMessage"
| "drive_dkg G ((i, DkgMsg m) # ms) sent st =
     obind (dkg_handle G i m st) (\<lambda>(r, st').
       case r of
         DkgResult pks sks \<Rightarrow> Done (sent, st', Some (pks, sks))
       | _ \<Rightarrow> drive_dkg G ms (sent @ send_step r) st')"

definition other_nodes :: "num_nodes \<Rightarrow> node_id \<Rightarrow> node_id list" where
  "other_nodes n i = filter (\<lambda>j. j \<noteq> i) (node_ids n)"

text \<open>The messages arrive as rounds: in each, one of every other node in the order of their ids.\<close>

definition arrivals :: "num_nodes \<Rightarrow> node_id \<Rightarrow> (node_id \<Rightarrow> ('f, 'g) dkg_received) list \<Rightarrow> (node_id \<times> ('f, 'g) dkg_received) list" where
  "arrivals n i rounds = concat (map (\<lambda>r. map (\<lambda>j. (j, r j)) (other_nodes n i)) rounds)"

definition run_dkg ::
  "('f, 'g) dkg_ops \<Rightarrow> num_nodes \<Rightarrow> node_id \<Rightarrow> 'f list \<Rightarrow> (node_id \<Rightarrow> ('f, 'g) dkg_received) list \<Rightarrow>
   (dkg_error, ('f, 'g) dkg_sent list \<times> ('f, 'g) dkg \<times> ('g list \<times> 'f) option) outcome" where
  "run_dkg G n i p rounds =
     drive_dkg G (arrivals n i rounds) [ToEveryone (initial_message G (dkg_new G n i p))] (dkg_new G n i p)"

end
