(* ===== verification/Dkg_Complete.thy ===== *)
theory Dkg_Complete
  imports Dkg
begin

text \<open>
  What the key generation guarantees a node that finishes, whatever the other nodes sent: its key
  share is the joint commitment's value at its own point. Both implementations have it.

  The key generation among nodes that follow it: every node gets through the three rounds, sends what
  the others wait for, and all return the same joint commitment.
\<close>

section \<open>The arithmetic of an implementation\<close>

definition dkg_sound :: "('f::field, 'g::ab_group_add) dkg_ops \<Rightarrow> ('f \<Rightarrow> 'g \<Rightarrow> 'g) \<Rightarrow> 'g \<Rightarrow> bool" where
  "dkg_sound G sm base \<longleftrightarrow> scalar_laws sm \<and> (\<forall>s. public_of G s = sm s base) \<and>
     (\<forall>cs i y. eval_poly_scalar G cs i = Some y \<longrightarrow> y = peval cs (node_scalar i)) \<and>
     (\<forall>cs i y. share_checksum G cs i = Done y \<longrightarrow> y = gpeval sm cs (node_scalar i)) \<and>
     (\<forall>xs y. sum_shares G xs = Some y \<longrightarrow> y = sum_list xs) \<and>
     (\<forall>xs y. sum_points G xs = Some y \<longrightarrow> y = sum_list xs)"

lemma dkg_soundD:
  assumes "dkg_sound G sm base"
  shows "scalar_laws sm" "public_of G s = sm s base"
    "eval_poly_scalar G cs i = Some y \<Longrightarrow> y = peval cs (node_scalar i)"
    "share_checksum G ds i = Done z \<Longrightarrow> z = gpeval sm ds (node_scalar i)"
    "sum_shares G xs = Some v \<Longrightarrow> v = sum_list xs" "sum_points G ys = Some w \<Longrightarrow> w = sum_list ys"
  using assms unfolding dkg_sound_def by blast+

lemma eval_poly_scalar_g2_eq: "cs \<noteq> [] \<Longrightarrow> eval_poly_scalar_g2 cs i = Some (peval cs (node_scalar i))"
  using horner_peval [of cs "node_scalar i"] by (simp add: eval_poly_scalar_g2_def horner_def)

lemma checksum_g2_eq:
  assumes s: "scalar_laws sm" and c: "cs \<noteq> []"
  shows "checksum_g2 sm cs i = Done (gpeval sm cs (node_scalar i))"
proof -
  have "map2 (\<lambda>c k. sm (node_scalar i ^ k) c) cs [0..<length cs] \<noteq> []" using c by (cases cs) (simp_all add: upt_rec)
  then show ?thesis
    using gpeval_powers [OF s, of "node_scalar i" cs 0] scalar_lawsD(4) [OF s]
    by (simp add: checksum_g2_def reduce_plus)
qed

lemma g2_sound: "scalar_laws sm \<Longrightarrow> dkg_sound (g2_ops sm base h) sm base"
proof -
  assume s: "scalar_laws sm"
  have "y = peval cs (node_scalar i)" if "eval_poly_scalar_g2 cs i = Some y" for cs i and y :: 'a
    using that eval_poly_scalar_g2_eq [of cs i] by (cases "cs = []") (simp_all add: eval_poly_scalar_g2_def)
  moreover have "y = gpeval sm cs (node_scalar i)" if "checksum_g2 sm cs i = Done y" for cs i y
    using that checksum_g2_eq [OF s, of cs i] by (cases "cs = []") (simp_all add: checksum_g2_def)
  moreover have "y = sum_list xs" if "reduce (+) xs = Some y" for xs and y :: 'b
    using that reduce_plus [of xs] by (cases "xs = []") simp_all
  ultimately show ?thesis using s by (simp add: dkg_sound_def g2_ops_def g2_def)
qed

text \<open>Where the partial arithmetic has a value, it is that of the total one.\<close>

lemma eval_poly_scalar_secp_eq:
  assumes "eval_poly_scalar_secp cs i = Some y"
  shows "y = peval cs (node_scalar i)"
proof -
  have "reduce (\<lambda>acc c. acc * node_scalar i + c) (rev cs) = Some y"
    using assms unfolding eval_poly_scalar_secp_def
    by (rule reduce_opt_refines [rotated]) (auto simp: bind_eq_Some_conv)
  then show ?thesis using eval_poly_scalar_g2_eq [of cs i] by (cases "cs = []") (simp_all add: eval_poly_scalar_g2_def)
qed

lemma eval_poly_loop_eq: "eval_poly_loop sm x acc cs = Done y \<Longrightarrow> y = foldl (\<lambda>acc c. sm x acc + c) acc cs"
  by (induction cs arbitrary: acc) (auto simp: obind_Done_iff split: if_splits)

lemma eval_poly_eq:
  assumes s: "scalar_laws sm" and e: "eval_poly sm cs i = Done y"
  shows "y = gpeval sm cs (node_scalar i)"
proof -
  obtain c ds where r: "rev cs = c # ds" using e by (auto simp: eval_poly_def split: list.splits)
  then have "reduce (\<lambda>acc c. sm (node_scalar i) acc + c) (rev cs) = Some y"
    using eval_poly_loop_eq [of sm "node_scalar i" c ds y] e by (simp add: eval_poly_def)
  moreover have "cs \<noteq> []" using r by auto
  ultimately show ?thesis using horner_group [OF s, of cs] by simp
qed

lemma secp_sound: "scalar_laws sm \<Longrightarrow> dkg_sound (secp_ops sm base h) sm base"
  unfolding dkg_sound_def secp_ops_def dkg_ops.simps
  by (intro conjI allI impI; (assumption | rule refl | erule eval_poly_scalar_secp_eq | erule eval_poly_eq | erule reduce_opt_sum))

section \<open>The joint polynomial\<close>

definition joint :: "nat \<Rightarrow> 'g::comm_monoid_add list list \<Rightarrow> 'g list" where
  "joint t css = map (\<lambda>k. \<Sum>cs\<leftarrow>css. cs ! k) [0..<t]"

lemma length_joint [simp]: "length (joint t css) = t"
  by (simp add: joint_def)

lemma gpeval_joint:
  assumes s: "scalar_laws sm" and l: "\<forall>cs \<in> set css. length cs = t"
  shows "gpeval sm (joint t css) x = (\<Sum>cs\<leftarrow>css. gpeval sm cs x)"
  using l
proof (induction css)
  case Nil
  have "gpeval sm (replicate t 0) x = 0" by (induction t) (simp_all add: scalar_zero [OF s])
  moreover have "joint t [] = replicate t (0 :: 'b)" by (simp add: joint_def map_replicate_trivial)
  ultimately show ?case by simp
next
  case (Cons cs css)
  have "joint t (cs # css) = map2 (+) cs (joint t css)"
    using Cons.prems by (intro nth_equalityI) (simp_all add: joint_def)
  then show ?case using Cons by (simp add: gpeval_add [OF s])
qed

section \<open>The invariant of a run\<close>

definition dkg_inv :: "('f::field, 'g::ab_group_add) dkg_ops \<Rightarrow> ('f \<Rightarrow> 'g \<Rightarrow> 'g) \<Rightarrow> ('f, 'g) dkg \<Rightarrow> bool" where
  "dkg_inv G sm st \<longleftrightarrow> small_mint (dkg_nodes st) \<and> dkg_identity st \<in> set (node_ids (dkg_nodes st)) \<and>
     bt_get (commitments st) (dkg_identity st) = Some (dkg_commitment G (polynomial st)) \<and>
     (\<forall>j cs. bt_get (commitments st) j = Some cs \<longrightarrow>
        j \<in> set (node_ids (dkg_nodes st)) \<and> length cs = threshold (dkg_nodes st)) \<and>
     (\<forall>j s. bt_get (sk_shares st) j = Some s \<longrightarrow>
        (\<exists>cs. bt_get (commitments st) j = Some cs \<and> public_of G s = gpeval sm cs (node_scalar (dkg_identity st))))"

lemma commitment_eq: "dkg_sound G sm base \<Longrightarrow> dkg_commitment G p = map (\<lambda>c. sm c base) p"
  by (simp add: dkg_commitment_def dkg_soundD(2))

lemma dkg_inv_new:
  "small_mint n \<Longrightarrow> i \<in> set (node_ids n) \<Longrightarrow> length p = threshold n \<Longrightarrow> dkg_inv G sm (dkg_new G n i p)"
  by (simp add: dkg_inv_def dkg_new_def dkg_commitment_def)

lemma deal_shares_get:
  "deal_shares G st is sh = Some (ms, sh') \<Longrightarrow>
   bt_get sh' j = (if j = dkg_identity st \<and> j \<in> set is then eval_poly_scalar G (polynomial st) j else bt_get sh j)"
proof (induction "is" arbitrary: sh ms)
  case (Cons i "is")
  then show ?case by (fastforce simp: bind_eq_Some_conv split: if_splits)
qed simp

lemma dkg_result_joint:
  assumes G: "dkg_sound G sm base" and r: "dkg_result G st = Some (pks, sks)"
  shows "sks = sum_list (bt_values (sk_shares st)) \<and> pks = joint (threshold (dkg_nodes st)) (bt_values (commitments st))"
proof -
  from r have s: "sum_shares G (bt_values (sk_shares st)) = Some sks"
    and p: "map (joint_coefficient G (bt_values (commitments st))) [0..<threshold (dkg_nodes st)] = map Some pks"
    by (auto simp: dkg_result_def bind_eq_Some_conv option_seq_Some_iff)
  have "pks ! k = (\<Sum>cs\<leftarrow>bt_values (commitments st). cs ! k)" if "k < threshold (dkg_nodes st)" for k
  proof -
    have "joint_coefficient G (bt_values (commitments st)) k = Some (pks ! k)"
      using p that by (metis (no_types, lifting) add_0 length_map length_upt minus_nat.diff_0 nth_map nth_upt)
    then show ?thesis using dkg_soundD(6) [OF G] by (auto simp: joint_coefficient_def split: if_splits)
  qed
  moreover have "length pks = threshold (dkg_nodes st)" using p by (metis diff_zero length_map length_upt)
  ultimately show ?thesis using dkg_soundD(5) [OF G s] by (auto simp: joint_def intro!: nth_equalityI)
qed

text \<open>A node that holds a share of every node holds a share of the joint key.\<close>

lemma full_shares:
  assumes G: "dkg_sound G sm base" and I: "dkg_inv G sm st"
    and full: "bt_len (sk_shares st) = total (dkg_nodes st)" and r: "dkg_result G st = Some (pks, sks)"
  shows "length pks = threshold (dkg_nodes st) \<and> sm sks base = gpeval sm pks (node_scalar (dkg_identity st))"
proof -
  note s = dkg_soundD(1) [OF G]
  let ?N = "set (node_ids (dkg_nodes st))" and ?x = "node_scalar (dkg_identity st)"
  let ?C = "\<lambda>k. the (bt_get (commitments st) k)"
  have sub: "set (bt_keys (sk_shares st)) \<subseteq> set (bt_keys (commitments st))" "set (bt_keys (commitments st)) \<subseteq> ?N"
  proof -
    have "bt_get (commitments st) j \<noteq> None" if "bt_get (sk_shares st) j \<noteq> None" for j
    proof -
      from that obtain s where "bt_get (sk_shares st) j = Some s" by blast
      then show ?thesis using I unfolding dkg_inv_def by (metis option.distinct(1))
    qed
    then show "set (bt_keys (sk_shares st)) \<subseteq> set (bt_keys (commitments st))" by (auto simp: set_bt_keys)
  qed (use I in \<open>auto simp: set_bt_keys dkg_inv_def\<close>)
  have "card (set (bt_keys (sk_shares st))) = card ?N"
    using full I distinct_card [OF distinct_bt_keys, of "sk_shares st"]
    by (simp add: dkg_inv_def card_node_ids bt_len_def length_bt_keys)
  then have "set (bt_keys (sk_shares st)) = ?N"
    using sub by (intro card_subset_eq) auto
  then have keys: "bt_keys (sk_shares st) = bt_keys (commitments st)" using sub by (intro bt_keys_eqI) auto
  have "sm sks base = (\<Sum>k\<leftarrow>bt_keys (sk_shares st). sm (the (bt_get (sk_shares st) k)) base)"
    using dkg_result_joint [OF G r] scalar_sum_list(1) [OF s] by (simp add: bt_values_keys)
  also have "\<dots> = (\<Sum>k\<leftarrow>bt_keys (sk_shares st). gpeval sm (?C k) ?x)"
  proof (intro arg_cong [where f = sum_list] map_cong refl)
    fix k assume "k \<in> set (bt_keys (sk_shares st))"
    then obtain s where "bt_get (sk_shares st) k = Some s" by (auto simp: set_bt_keys)
    moreover from this obtain cs where "bt_get (commitments st) k = Some cs" "public_of G s = gpeval sm cs ?x"
      using I unfolding dkg_inv_def by blast
    ultimately show "sm (the (bt_get (sk_shares st) k)) base = gpeval sm (?C k) ?x" by (simp add: dkg_soundD(2) [OF G])
  qed
  also have "\<dots> = (\<Sum>cs\<leftarrow>bt_values (commitments st). gpeval sm cs ?x)"
    by (simp add: keys bt_values_keys comp_def)
  also have "\<dots> = gpeval sm pks ?x"
  proof -
    have "\<forall>cs \<in> set (bt_values (commitments st)). length cs = threshold (dkg_nodes st)"
      using I by (auto simp: dkg_inv_def bt_values_iff)
    from gpeval_joint [OF s this] show ?thesis using dkg_result_joint [OF G r] by simp
  qed
  finally show ?thesis using dkg_result_joint [OF G r] by simp
qed

lemma dkg_handle_inv:
  assumes G: "dkg_sound G sm base" and I: "dkg_inv G sm st" and i: "i \<in> set (node_ids (dkg_nodes st))"
    and h: "dkg_handle G i m st = Done (r, st')"
  shows "dkg_inv G sm st' \<and> dkg_nodes st' = dkg_nodes st \<and> dkg_identity st' = dkg_identity st \<and>
    (\<forall>pks sks. r = DkgResult pks sks \<longrightarrow>
       length pks = threshold (dkg_nodes st) \<and> sm sks base = gpeval sm pks (node_scalar (dkg_identity st)))"
proof (cases m)
  case (DkgHash x)
  then show ?thesis using h I by (auto simp: Let_def obind_Done_iff dkg_inv_def split: if_splits)
next
  case (DkgCommitment cs)
  let ?st = "st\<lparr>commitments := bt_insert i cs (commitments st)\<rparr>"
  have g: "threshold (dkg_nodes st) = length cs" "bt_get (commitments st) i = None"
    using h DkgCommitment by (auto simp: Let_def obind_Done_iff bt_has_def)
  have I1: "dkg_inv G sm ?st" using I g i by (fastforce simp: dkg_inv_def)
  have "(\<exists>ms. st' = ?st \<and> r = DkgMessages ms) \<or>
      (\<exists>ms sh. deal_shares G ?st (node_ids (dkg_nodes st)) (sk_shares st) = Some (ms, sh) \<and>
        st' = ?st\<lparr>sk_shares := sh\<rparr> \<and> r = DkgMessages ms)"
    using h DkgCommitment by (auto simp: Let_def obind_Done_iff split: if_splits)
  then show ?thesis
  proof (elim disjE exE conjE)
    fix ms assume "st' = ?st" "r = DkgMessages ms"
    then show ?thesis using I1 by simp
  next
    fix ms sh assume d: "deal_shares G ?st (node_ids (dkg_nodes st)) (sk_shares st) = Some (ms, sh)"
      and e: "st' = ?st\<lparr>sk_shares := sh\<rparr>" "r = DkgMessages ms"
    have own: "public_of G s = gpeval sm (dkg_commitment G (polynomial st)) (node_scalar (dkg_identity st))"
      if "eval_poly_scalar G (polynomial st) (dkg_identity st) = Some s" for s
      using dkg_soundD(3) [OF G that] by (simp add: commitment_eq [OF G] dkg_soundD(2) [OF G] gpeval_commit [OF dkg_soundD(1) [OF G]])
    have "\<exists>ds. bt_get (commitments ?st) j = Some ds \<and> public_of G s = gpeval sm ds (node_scalar (dkg_identity st))"
      if "bt_get sh j = Some s" for j s
    proof (cases "j = dkg_identity st")
      case True
      then have "eval_poly_scalar G (polynomial st) j = Some s"
        using that deal_shares_get [OF d, of j] I by (simp add: dkg_inv_def)
      then show ?thesis using own True I1 by (simp add: dkg_inv_def)
    next
      case False
      then have "bt_get (sk_shares st) j = Some s" using that deal_shares_get [OF d, of j] by simp
      then show ?thesis using I1 by (simp add: dkg_inv_def)
    qed
    then show ?thesis using I1 e by (simp add: dkg_inv_def)
  qed
next
  case (DkgShare s)
  let ?st = "st\<lparr>sk_shares := bt_insert i s (sk_shares st)\<rparr>"
  obtain cs where c: "bt_get (commitments st) i = Some cs"
    "share_checksum G cs (dkg_identity st) = Done (public_of G s)" and st': "st' = ?st"
    and r: "r = DkgMessages [] \<or> bt_len (sk_shares ?st) = total (dkg_nodes st) \<and>
      (\<exists>pks sks. dkg_result G ?st = Some (pks, sks) \<and> r = DkgResult pks sks)"
    using h DkgShare by (auto simp: Let_def obind_Done_iff split: if_splits)
  have I1: "dkg_inv G sm ?st"
    using I c dkg_soundD(4) [OF G c(2)] by (auto simp: dkg_inv_def)
  show ?thesis
    using r I1 st' full_shares [OF G I1] by auto
qed

text \<open>The invariant is kept by a whole run, and its result is the share of the joint key.\<close>

lemma drive_dkg_inv:
  assumes G: "dkg_sound G sm base"
  shows "drive_dkg G ms sent st = Done (out, st', Some (pks, sks)) \<Longrightarrow> dkg_inv G sm st \<Longrightarrow>
    fst ` set ms \<subseteq> set (node_ids (dkg_nodes st)) \<Longrightarrow>
    length pks = threshold (dkg_nodes st) \<and> sm sks base = gpeval sm pks (node_scalar (dkg_identity st))"
proof (induction ms arbitrary: sent st)
  case (Cons a ms)
  obtain i m where a: "a = (i, DkgMsg m)" using Cons.prems(1) by (cases a; cases "snd a") auto
  then obtain r st1 where h: "dkg_handle G i m st = Done (r, st1)" using Cons.prems(1) by (auto simp: obind_Done_iff)
  have i: "i \<in> set (node_ids (dkg_nodes st))" using Cons.prems(3) a by simp
  note inv = dkg_handle_inv [OF G Cons.prems(2) i h]
  show ?case
  proof (cases r)
    case (DkgResult qks qs)
    then have "qks = pks" "qs = sks" using Cons.prems(1) by (simp_all add: a h)
    then show ?thesis using inv DkgResult by simp
  next
    case (DkgBroadcast x)
    then have "drive_dkg G ms (sent @ send_step r) st1 = Done (out, st', Some (pks, sks))"
      using Cons.prems(1) by (simp add: a h)
    from Cons.IH [OF this] show ?thesis using inv Cons.prems(3) by simp
  next
    case (DkgMessages x)
    then have "drive_dkg G ms (sent @ send_step r) st1 = Done (out, st', Some (pks, sks))"
      using Cons.prems(1) by (simp add: a h)
    from Cons.IH [OF this] show ?thesis using inv Cons.prems(3) by simp
  qed
qed simp

lemma set_other_nodes: "set (other_nodes n i) = set (node_ids n) - {i}"
  by (auto simp: other_nodes_def)

theorem run_dkg_share:
  assumes G: "dkg_sound G sm base" and n: "small_mint n" "i \<in> set (node_ids n)" "length p = threshold n"
    and r: "run_dkg G n i p rounds = Done (out, st, Some (pks, sks))"
  shows "length pks = threshold n \<and> sm sks base = gpeval sm pks (node_scalar i)"
proof -
  have "fst ` set (arrivals n i rounds) \<subseteq> set (node_ids n)" by (auto simp: arrivals_def set_other_nodes)
  then show ?thesis
    using drive_dkg_inv [OF G r [unfolded run_dkg_def] dkg_inv_new [OF n]] by (simp add: dkg_new_def)
qed

section \<open>The rounds of an honest mint\<close>

definition honest_rounds ::
  "('f::field, 'g::ab_group_add) dkg_ops \<Rightarrow> (node_id \<Rightarrow> 'f list) \<Rightarrow> node_id \<Rightarrow> (node_id \<Rightarrow> ('f, 'g) dkg_received) list" where
  "honest_rounds G p i =
     [\<lambda>j. DkgMsg (DkgHash (commitment_hash G (dkg_commitment G (p j)))),
      \<lambda>j. DkgMsg (DkgCommitment (dkg_commitment G (p j))),
      \<lambda>j. DkgMsg (DkgShare (peval (p j) (node_scalar i)))]"

definition joint_commitment :: "('f, 'g::comm_monoid_add) dkg_ops \<Rightarrow> num_nodes \<Rightarrow> (node_id \<Rightarrow> 'f list) \<Rightarrow> 'g list" where
  "joint_commitment G n p = joint (threshold n) (map (\<lambda>j. dkg_commitment G (p j)) (node_ids n))"

text \<open>A map from the nodes of a list.\<close>

abbreviation tabulate :: "(node_id \<Rightarrow> 'v) \<Rightarrow> node_id list \<Rightarrow> (node_id, 'v) btmap \<Rightarrow> (node_id, 'v) btmap" where
  "tabulate f js m \<equiv> fold (\<lambda>j. bt_insert j (f j)) js m"

lemma bt_get_tabulate: "bt_get (tabulate f js m) j = (if j \<in> set js then Some (f j) else bt_get m j)"
  by (induction js arbitrary: m) auto

text \<open>One message of each node of a list, each filed under its sender, none completing the map but the last.\<close>

lemma hash_round:
  assumes "js \<noteq> []" "distinct js" "\<forall>j \<in> set js. bt_get (hash_commitments st) j = None"
    "bt_len (hash_commitments st) + length js = total (dkg_nodes st)"
  shows "drive_dkg G (map (\<lambda>j. (j, DkgMsg (DkgHash (h j)))) js @ ms) sent st =
    drive_dkg G ms (sent @ [ToEveryone (DkgCommitment (dkg_commitment G (polynomial st)))])
      (st\<lparr>hash_commitments := tabulate h js (hash_commitments st)\<rparr>)"
  using assms
proof (induction js arbitrary: st sent)
  case (Cons j js)
  let ?st = "st\<lparr>hash_commitments := bt_insert j (h j) (hash_commitments st)\<rparr>"
  have l: "bt_len (hash_commitments ?st) + length js = total (dkg_nodes ?st)"
    using Cons.prems by (simp add: bt_len_insert)
  show ?case
  proof (cases "js = []")
    case True
    then show ?thesis using Cons.prems l by (simp add: bt_has_def ensure_def)
  next
    case False
    then have "bt_len (hash_commitments ?st) \<noteq> total (dkg_nodes ?st)" using l by (metis add_cancel_left_right length_0_conv)
    then have "dkg_handle G j (DkgHash (h j)) st = Done (DkgMessages [], ?st)"
      using Cons.prems l by (simp add: Let_def bt_has_def ensure_def)
    moreover have "\<forall>i \<in> set js. bt_get (hash_commitments ?st) i = None" using Cons.prems by auto
    ultimately show ?thesis using Cons.IH [of ?st sent, OF False _ _ l] Cons.prems by simp
  qed
qed simp

text \<open>The commitments are accepted when they match their hashes and have the degree.\<close>

lemma commitment_round:
  assumes "js \<noteq> []" "distinct js" "\<forall>j \<in> set js. bt_get (commitments st) j = None"
    "bt_len (commitments st) + length js = total (dkg_nodes st)"
    "\<forall>j \<in> set js. bt_get (hash_commitments st) j = Some (commitment_hash G (c j)) \<and> length (c j) = threshold (dkg_nodes st)"
    "deal_shares G (st\<lparr>commitments := tabulate c js (commitments st)\<rparr>) (node_ids (dkg_nodes st)) (sk_shares st) = Some (out, sh)"
  shows "drive_dkg G (map (\<lambda>j. (j, DkgMsg (DkgCommitment (c j)))) js @ ms) sent st =
    drive_dkg G ms (sent @ map (\<lambda>(i, m). ToNode i m) out)
      (st\<lparr>commitments := tabulate c js (commitments st), sk_shares := sh\<rparr>)"
  using assms
proof (induction js arbitrary: st sent)
  case (Cons j js)
  let ?st = "st\<lparr>commitments := bt_insert j (c j) (commitments st)\<rparr>"
  have l: "bt_len (commitments ?st) + length js = total (dkg_nodes ?st)"
    using Cons.prems by (simp add: bt_len_insert)
  show ?case
  proof (cases "js = []")
    case True
    then show ?thesis using Cons.prems l by (simp add: bt_has_def ensure_def ok_or_def expect_def)
  next
    case False
    then have "bt_len (commitments ?st) \<noteq> total (dkg_nodes ?st)" using l by (metis add_cancel_left_right length_0_conv)
    then have "dkg_handle G j (DkgCommitment (c j)) st = Done (DkgMessages [], ?st)"
      using Cons.prems l by (simp add: Let_def bt_has_def ensure_def ok_or_def)
    moreover have "\<forall>i \<in> set js. bt_get (commitments ?st) i = None" using Cons.prems by auto
    ultimately show ?thesis using Cons.IH [of ?st sent, OF False _ _ l] Cons.prems by simp
  qed
qed simp

lemma share_round:
  assumes "js \<noteq> []" "distinct js" "\<forall>j \<in> set js. bt_get (sk_shares st) j = None"
    "bt_len (sk_shares st) + length js = total (dkg_nodes st)"
    "\<forall>j \<in> set js. \<exists>cs. bt_get (commitments st) j = Some cs \<and> share_checksum G cs (dkg_identity st) = Done (public_of G (s j))"
    "dkg_result G (st\<lparr>sk_shares := tabulate s js (sk_shares st)\<rparr>) = Some (pks, sks)"
  shows "\<exists>st'. drive_dkg G (map (\<lambda>j. (j, DkgMsg (DkgShare (s j)))) js @ ms) sent st = Done (sent, st', Some (pks, sks))"
  using assms
proof (induction js arbitrary: st sent)
  case (Cons j js)
  let ?st = "st\<lparr>sk_shares := bt_insert j (s j) (sk_shares st)\<rparr>"
  have l: "bt_len (sk_shares ?st) + length js = total (dkg_nodes ?st)"
    using Cons.prems by (simp add: bt_len_insert)
  obtain cs where c: "bt_get (commitments st) j = Some cs" "share_checksum G cs (dkg_identity st) = Done (public_of G (s j))"
    using Cons.prems(5) by auto
  show ?case
  proof (cases "js = []")
    case True
    then show ?thesis using Cons.prems l c by (simp add: bt_has_def ensure_def ok_or_def expect_def)
  next
    case False
    then have "bt_len (sk_shares ?st) \<noteq> total (dkg_nodes ?st)" using l by (metis add_cancel_left_right length_0_conv)
    then have "dkg_handle G j (DkgShare (s j)) st = Done (DkgMessages [], ?st)"
      using Cons.prems l c by (simp add: Let_def bt_has_def ensure_def ok_or_def)
    moreover have "\<forall>i \<in> set js. bt_get (sk_shares ?st) i = None" using Cons.prems by auto
    ultimately show ?thesis using Cons.IH [of ?st sent, OF False _ _ l] Cons.prems by simp
  qed
qed simp

section \<open>Dealing\<close>

text \<open>
  The arithmetic of an implementation goes through on the polynomials of the nodes: every share and its
  check, the sum of a node's shares and the coefficients of the joint commitment.
\<close>

definition dkg_works ::
  "('f::field, 'g::ab_group_add) dkg_ops \<Rightarrow> ('f \<Rightarrow> 'g \<Rightarrow> 'g) \<Rightarrow> 'g \<Rightarrow> num_nodes \<Rightarrow> (node_id \<Rightarrow> 'f list) \<Rightarrow> bool" where
  "dkg_works G sm base n p \<longleftrightarrow> (\<forall>s. public_of G s = sm s base) \<and>
     (\<forall>j \<in> set (node_ids n). \<forall>i \<in> set (node_ids n). eval_poly_scalar G (p j) i = Some (peval (p j) (node_scalar i)) \<and>
        share_checksum G (map (\<lambda>c. sm c base) (p j)) i = Done (sm (peval (p j) (node_scalar i)) base)) \<and>
     (\<forall>i \<in> set (node_ids n). sum_shares G (map (\<lambda>j. peval (p j) (node_scalar i)) (node_ids n)) =
        Some (\<Sum>j\<leftarrow>node_ids n. peval (p j) (node_scalar i))) \<and>
     (\<forall>k < threshold n. sum_points G (map (\<lambda>j. sm (p j ! k) base) (node_ids n)) = Some (\<Sum>j\<leftarrow>node_ids n. sm (p j ! k) base))"

lemma dkg_worksD:
  assumes "dkg_works G sm base n p"
  shows "public_of G s = sm s base"
    "j \<in> set (node_ids n) \<Longrightarrow> i \<in> set (node_ids n) \<Longrightarrow> eval_poly_scalar G (p j) i = Some (peval (p j) (node_scalar i))"
    "j \<in> set (node_ids n) \<Longrightarrow> i \<in> set (node_ids n) \<Longrightarrow>
       share_checksum G (map (\<lambda>c. sm c base) (p j)) i = Done (sm (peval (p j) (node_scalar i)) base)"
    "i \<in> set (node_ids n) \<Longrightarrow> sum_shares G (map (\<lambda>j. peval (p j) (node_scalar i)) (node_ids n)) =
        Some (\<Sum>j\<leftarrow>node_ids n. peval (p j) (node_scalar i))"
    "k < threshold n \<Longrightarrow> sum_points G (map (\<lambda>j. sm (p j ! k) base) (node_ids n)) = Some (\<Sum>j\<leftarrow>node_ids n. sm (p j ! k) base)"
  using assms unfolding dkg_works_def by blast+

text \<open>Over the pairing curve it always does.\<close>

lemma g2_works:
  assumes s: "scalar_laws sm" and p: "\<forall>j \<in> set (node_ids n). length (p j) = threshold n" and n: "node_ids n \<noteq> []"
  shows "dkg_works (g2_ops sm base h) sm base n p"
proof -
  have ne: "p j \<noteq> []" if "j \<in> set (node_ids n)" for j using p that by (auto simp: threshold_def)
  have "checksum_g2 sm (map (\<lambda>c. sm c base) (p j)) i = Done (sm (peval (p j) (node_scalar i)) base)" if "j \<in> set (node_ids n)" for i j
    using checksum_g2_eq [OF s, of "map (\<lambda>c. sm c base) (p j)" i] ne [OF that] by (simp add: gpeval_commit [OF s])
  then show ?thesis
    using ne n by (auto simp: dkg_works_def g2_ops_def g2_def eval_poly_scalar_g2_eq reduce_plus)
qed

text \<open>
  Over secp256k1 it does when no intermediate value is zero: no tail of a polynomial vanishes at the
  point of a node, and no sum of the first shares of a node or of the first coefficients of a degree.
\<close>

definition never_zero :: "num_nodes \<Rightarrow> (node_id \<Rightarrow> 'f::field list) \<Rightarrow> bool" where
  "never_zero n p \<longleftrightarrow>
     (\<forall>i \<in> set (node_ids n). (node_scalar i :: 'f) \<noteq> 0 \<and>
        (\<forall>j \<in> set (node_ids n). \<forall>k < length (p j). peval (drop k (p j)) (node_scalar i) \<noteq> 0) \<and>
        (\<forall>m \<in> {1..length (node_ids n)}. (\<Sum>j\<leftarrow>take m (node_ids n). peval (p j) (node_scalar i)) \<noteq> 0)) \<and>
     (\<forall>k < threshold n. \<forall>m \<in> {1..length (node_ids n)}. (\<Sum>j\<leftarrow>take m (node_ids n). p j ! k) \<noteq> 0)"

lemma reduce_opt_app: "xs \<noteq> [] \<Longrightarrow> reduce_opt f (xs @ [x]) = Option.bind (reduce_opt f xs) (\<lambda>y. f y x)"
proof (induction f xs rule: reduce_opt.induct)
  case (3 f u v vs)
  then show ?case by (cases "f u v") simp_all
qed simp_all

lemma reduce_opt_sum_Some:
  fixes xs :: "'a::comm_monoid_add list"
  assumes "xs \<noteq> []" "\<And>m. 1 \<le> m \<Longrightarrow> m \<le> length xs \<Longrightarrow> sum_list (take m xs) \<noteq> 0"
  shows "reduce_opt (\<lambda>a b. nonzero (a + b)) xs = Some (sum_list xs)"
  using assms
proof (induction xs rule: rev_induct)
  case (snoc x xs)
  show ?case
  proof (cases "xs = []")
    case False
    have "sum_list (take m xs) \<noteq> 0" if "1 \<le> m" "m \<le> length xs" for m using snoc.prems(2) [of m] that by simp
    moreover have "sum_list (xs @ [x]) \<noteq> 0" using snoc.prems(2) [of "length (xs @ [x])"] by simp
    ultimately show ?thesis using snoc.IH [OF False] by (simp add: reduce_opt_app [OF False])
  qed simp
qed simp

lemma eval_poly_scalar_secp_Some:
  assumes x: "(node_scalar i :: 'f::field) \<noteq> 0" and p: "cs \<noteq> []" "\<And>k. k < length cs \<Longrightarrow> peval (drop k cs) (node_scalar i :: 'f) \<noteq> 0"
  shows "eval_poly_scalar_secp cs i = Some (peval cs (node_scalar i))"
  using p
proof (induction cs)
  case (Cons c cs)
  show ?case
  proof (cases "cs = []")
    case True
    then show ?thesis by (simp add: eval_poly_scalar_secp_def)
  next
    case False
    have p': "peval (drop k cs) (node_scalar i :: 'f) \<noteq> 0" if "k < length cs" for k using Cons.prems(2) [of "Suc k"] that by simp
    have "peval (c # cs) (node_scalar i) \<noteq> 0" using Cons.prems(2) [of 0] by simp
    moreover have "peval cs (node_scalar i) \<noteq> 0" using p' [of 0] False by simp
    ultimately show ?thesis using Cons.IH [OF False p'] False x
      by (simp add: eval_poly_scalar_secp_def reduce_opt_app nonzero_def algebra_simps)
  qed
qed simp

text \<open>The loop over the commitment of a polynomial.\<close>

lemma eval_poly_loop_app:
  "eval_poly_loop sm x acc (cs @ [c]) = obind (eval_poly_loop sm x acc cs) (\<lambda>a. eval_poly_loop sm x a [c])"
proof (induction cs arbitrary: acc)
  case (Cons d cs)
  have a: "obind (obind u f) g = obind u (\<lambda>z. obind (f z) g)" for u :: "('e, 'u) outcome" and f :: "'u \<Rightarrow> ('e, 'v) outcome" and g :: "'v \<Rightarrow> ('e, 'w) outcome"
    by (cases u) simp_all
  from Cons show ?case by (simp add: a)
qed simp

lemma eval_poly_commit:
  assumes s: "scalar_laws sm" and b: "\<And>r. sm r base = 0 \<Longrightarrow> r = 0"
    and x: "(node_scalar i :: 'f::field) \<noteq> 0" and p: "cs \<noteq> []" "\<And>k. k < length cs \<Longrightarrow> peval (drop k cs) (node_scalar i :: 'f) \<noteq> 0"
  shows "eval_poly sm (map (\<lambda>c. sm c base) cs) i = Done (sm (peval cs (node_scalar i)) base)"
  using p
proof (induction cs)
  case (Cons c cs)
  let ?x = "node_scalar i :: 'f"
  show ?case
  proof (cases "cs = []")
    case True
    then show ?thesis by (simp add: eval_poly_def)
  next
    case False
    then obtain d ds where r: "rev cs = d # ds" by (cases "rev cs") auto
    have p': "peval (drop k cs) ?x \<noteq> 0" if "k < length cs" for k using Cons.prems(2) [of "Suc k"] that by simp
    have "eval_poly_loop sm ?x (sm d base) (map (\<lambda>c. sm c base) ds) = Done (sm (peval cs ?x) base)"
      using Cons.IH [OF False p'] r by (simp add: eval_poly_def rev_map)
    moreover have "sm ?x (sm (peval cs ?x) base) + sm c base = sm (peval (c # cs) ?x) base"
      using scalar_lawsD(1) [OF s, of c "?x * peval cs ?x" base] scalar_lawsD(3) [OF s, of ?x "peval cs ?x" base]
      by (simp add: add.commute)
    moreover have "sm (peval (c # cs) ?x) base \<noteq> 0" using b Cons.prems(2) [of 0] by auto
    ultimately show ?thesis using r x
      by (simp add: eval_poly_def rev_map eval_poly_loop_app expect_def ok_or_def nonzero_def)
  qed
qed simp

lemma secp_works:
  assumes s: "scalar_laws sm" and b: "\<And>r. sm r base = 0 \<Longrightarrow> r = 0" and p: "\<forall>j \<in> set (node_ids n). length (p j) = threshold n"
    and n: "node_ids n \<noteq> []" and z: "never_zero n p"
  shows "dkg_works (secp_ops sm base h) sm base n p"
proof -
  have ne: "p j \<noteq> []" if "j \<in> set (node_ids n)" for j using p that by (auto simp: threshold_def)
  have sums: "reduce_opt (\<lambda>a b. nonzero (a + b)) (map (\<lambda>j. peval (p j) (node_scalar i)) (node_ids n)) =
      Some (\<Sum>j\<leftarrow>node_ids n. peval (p j) (node_scalar i))" if "i \<in> set (node_ids n)" for i
    by (rule reduce_opt_sum_Some) (use n z that in \<open>auto simp: never_zero_def take_map\<close>)
  have points: "reduce_opt (\<lambda>a b. nonzero (a + b)) (map (\<lambda>j. sm (p j ! k) base) (node_ids n)) = Some (\<Sum>j\<leftarrow>node_ids n. sm (p j ! k) base)"
    if k: "k < threshold n" for k
  proof (rule reduce_opt_sum_Some)
    fix m assume m: "1 \<le> m" "m \<le> length (map (\<lambda>j. sm (p j ! k) base) (node_ids n))"
    have "(\<Sum>j\<leftarrow>take m (node_ids n). p j ! k) \<noteq> 0" using z k m by (simp add: never_zero_def)
    then have "sm (\<Sum>j\<leftarrow>take m (node_ids n). p j ! k) base \<noteq> 0" using b by blast
    then show "sum_list (take m (map (\<lambda>j. sm (p j ! k) base) (node_ids n))) \<noteq> 0"
      by (simp add: scalar_sum_list(1) [OF s] take_map comp_def)
  qed (use n in simp)
  have "eval_poly sm (map (\<lambda>c. sm c base) (p j)) i = Done (sm (peval (p j) (node_scalar i)) base)"
    "eval_poly_scalar_secp (p j) i = Some (peval (p j) (node_scalar i))"
    if "j \<in> set (node_ids n)" "i \<in> set (node_ids n)" for i j
    using z that ne by (auto simp: never_zero_def intro!: eval_poly_commit [OF s b] eval_poly_scalar_secp_Some)
  then show ?thesis using sums points by (simp add: dkg_works_def secp_ops_def)
qed

lemma deal_shares_works:
  assumes "\<And>j. j \<in> set js \<Longrightarrow> eval_poly_scalar G (polynomial st) j = Some (f j)" "distinct js"
  shows "deal_shares G st js sh = Some (map (\<lambda>j. (j, DkgShare (f j))) (filter (\<lambda>j. j \<noteq> dkg_identity st) js),
      if dkg_identity st \<in> set js then bt_insert (dkg_identity st) (f (dkg_identity st)) sh else sh)"
  using assms by (induction js arbitrary: sh) auto

lemma dkg_result_works:
  assumes w: "dkg_works G sm base n p" and i: "i \<in> set (node_ids n)" and p: "\<forall>j \<in> set (node_ids n). length (p j) = threshold n"
    and st: "dkg_nodes st = n" "bt_values (commitments st) = map (\<lambda>j. map (\<lambda>c. sm c base) (p j)) (node_ids n)"
      "bt_values (sk_shares st) = map (\<lambda>j. peval (p j) (node_scalar i)) (node_ids n)"
  shows "dkg_result G st =
    Some (joint (threshold n) (map (\<lambda>j. map (\<lambda>c. sm c base) (p j)) (node_ids n)), \<Sum>j\<leftarrow>node_ids n. peval (p j) (node_scalar i))"
proof -
  let ?css = "map (\<lambda>j. map (\<lambda>c. sm c base) (p j)) (node_ids n)"
  have "joint_coefficient G ?css k = Some (\<Sum>cs\<leftarrow>?css. cs ! k)" if k: "k < threshold n" for k
  proof -
    have m: "map (\<lambda>cs. cs ! k) ?css = map (\<lambda>j. sm (p j ! k) base) (node_ids n)" using p k by auto
    then show ?thesis using p k dkg_worksD(5) [OF w k] by (simp add: joint_coefficient_def m del: map_map)
  qed
  then show ?thesis using dkg_worksD(4) [OF w i] st
    by (auto simp: dkg_result_def option_seq_Some_iff joint_def bind_eq_Some_conv)
qed

section \<open>The whole run\<close>

lemma sorted_node_ids: "small_mint n \<Longrightarrow> sorted_wrt (<) (node_ids n)"
  unfolding sorted_wrt_iff_nth_less
  by (auto simp: node_ids_def word_less_nat_alt unat_of_nat small_mint_def)

lemma bt_keys_nodes: "small_mint n \<Longrightarrow> set (bt_keys m) = set (node_ids n) \<Longrightarrow> bt_keys m = node_ids n"
  by (intro strict_sorted_equal sorted_node_ids) simp_all

lemma distinct_other_nodes: "small_mint n \<Longrightarrow> distinct (other_nodes n i)"
  by (simp add: other_nodes_def distinct_node_ids)

lemma dkg_new_simps [simp]:
  "dkg_nodes (dkg_new G n i p) = n" "dkg_identity (dkg_new G n i p) = i" "polynomial (dkg_new G n i p) = p"
  "hash_commitments (dkg_new G n i p) = bt_insert i (commitment_hash G (dkg_commitment G p)) bt_empty"
  "commitments (dkg_new G n i p) = bt_insert i (dkg_commitment G p) bt_empty" "sk_shares (dkg_new G n i p) = bt_empty"
  by (simp_all add: dkg_new_def)

lemma length_other_nodes:
  assumes "small_mint n" "i \<in> set (node_ids n)"
  shows "Suc (length (other_nodes n i)) = total n"
proof -
  have "length (other_nodes n i) = card (set (node_ids n) - {i})"
    using distinct_card [OF distinct_other_nodes [OF assms(1), of i]] by (simp add: set_other_nodes)
  then show ?thesis using assms card_node_ids [OF assms(1)] card_Suc_Diff1 [of "set (node_ids n)" i] by simp
qed

text \<open>Once its own entry and one of every other node are there, a map lists the nodes in order.\<close>

lemma bt_values_tabulate:
  assumes "small_mint n" "i \<in> set (node_ids n)"
  shows "bt_values (tabulate f (other_nodes n i) (bt_insert i (f i) bt_empty)) = map f (node_ids n)"
proof -
  let ?m = "tabulate f (other_nodes n i) (bt_insert i (f i) bt_empty)"
  have g: "bt_get ?m j = (if j \<in> set (node_ids n) then Some (f j) else None)" for j
    using assms(2) by (auto simp: bt_get_tabulate set_other_nodes)
  have "bt_keys ?m = node_ids n"
    by (rule bt_keys_nodes [OF assms(1)]) (auto simp: set_bt_keys g)
  then show ?thesis by (simp add: bt_values_keys g)
qed

theorem honest_run:
  assumes w: "dkg_works G sm base n p" and n: "small_mint n" "1 \<le> max_evil n" and i: "i \<in> set (node_ids n)"
    and p: "\<forall>j \<in> set (node_ids n). length (p j) = threshold n"
  shows "\<exists>st. run_dkg G n i (p i) (honest_rounds G p i) =
    Done ([ToEveryone (DkgHash (commitment_hash G (dkg_commitment G (p i)))), ToEveryone (DkgCommitment (dkg_commitment G (p i)))] @
          map (\<lambda>j. ToNode j (DkgShare (peval (p i) (node_scalar j)))) (other_nodes n i),
      st, Some (joint_commitment G n p, \<Sum>j\<leftarrow>node_ids n. peval (p j) (node_scalar i)))"
proof -
  let ?G = G and ?h = "commitment_hash G" and ?O = "other_nodes n i"
  let ?C = "\<lambda>j. dkg_commitment ?G (p j)" and ?s = "\<lambda>j. peval (p j) (node_scalar i)"
  let ?st0 = "dkg_new ?G n i (p i)"
  let ?st1 = "?st0\<lparr>hash_commitments := tabulate (\<lambda>j. ?h (?C j)) ?O (hash_commitments ?st0)\<rparr>"
  let ?st2 = "?st1\<lparr>commitments := tabulate ?C ?O (commitments ?st1), sk_shares := bt_insert i (?s i) bt_empty\<rparr>"
  let ?sent = "[ToEveryone (DkgHash (?h (?C i)))] @ [ToEveryone (DkgCommitment (?C i))] @
      map (\<lambda>(i, m). ToNode i m) (map (\<lambda>j. (j, DkgShare (peval (p i) (node_scalar j)))) ?O)"
  let ?out = "map (\<lambda>j. (j, DkgShare (peval (p i) (node_scalar j)))) ?O"
  have l: "Suc (length ?O) = total n" using length_other_nodes [OF n(1) i] .
  then have O: "?O \<noteq> []" "distinct ?O" "i \<notin> set ?O"
    using n distinct_other_nodes by (auto simp: total_def set_other_nodes)
  have 1: "drive_dkg ?G (map (\<lambda>j. (j, DkgMsg (DkgHash (?h (?C j))))) ?O @ ms) sent ?st0 =
      drive_dkg ?G ms (sent @ [ToEveryone (DkgCommitment (?C i))]) ?st1" for ms sent
    using O l by (subst hash_round) (auto simp: bt_len_single)
  have C: "?C j = map (\<lambda>c. sm c base) (p j)" for j using dkg_worksD(1) [OF w] by (simp add: dkg_commitment_def)
  have deal: "deal_shares ?G (?st1\<lparr>commitments := tabulate ?C ?O (commitments ?st1)\<rparr>) (node_ids n) bt_empty =
      Some (?out, bt_insert i (?s i) bt_empty)"
    using deal_shares_works [where st = "?st1\<lparr>commitments := tabulate ?C ?O (commitments ?st1)\<rparr>" and js = "node_ids n"]
      dkg_worksD(2) [OF w i] i distinct_node_ids [OF n(1)] by (simp add: other_nodes_def)
  have 2: "drive_dkg ?G (map (\<lambda>j. (j, DkgMsg (DkgCommitment (?C j)))) ?O @ ms) sent ?st1 =
      drive_dkg ?G ms (sent @ map (\<lambda>(i, m). ToNode i m) ?out) ?st2" for ms sent
    using O l deal p by (subst commitment_round) (auto simp: bt_len_single bt_get_tabulate set_other_nodes dkg_commitment_def)
  have vals: "bt_values (commitments ?st2) = map ?C (node_ids n)"
    using bt_values_tabulate [OF n(1) i, of ?C] by simp
  have svals: "bt_values (tabulate ?s ?O (sk_shares ?st2)) = map ?s (node_ids n)"
    using bt_values_tabulate [OF n(1) i, of ?s] by simp
  have res: "dkg_result ?G (?st2\<lparr>sk_shares := tabulate ?s ?O (sk_shares ?st2)\<rparr>) =
      Some (joint_commitment ?G n p, \<Sum>j\<leftarrow>node_ids n. ?s j)"
    using dkg_result_works [OF w i p, of "?st2\<lparr>sk_shares := tabulate ?s ?O (sk_shares ?st2)\<rparr>"] vals svals
    by (simp add: joint_commitment_def C)
  have chk: "share_checksum ?G (?C j) i = Done (public_of ?G (?s j))" if "j \<in> set (node_ids n)" for j
    using dkg_worksD(1,3) [OF w] that i by (simp add: C)
  obtain st' where 3: "drive_dkg ?G (map (\<lambda>j. (j, DkgMsg (DkgShare (?s j)))) ?O @ []) ?sent ?st2 =
      Done (?sent, st', Some (joint_commitment ?G n p, \<Sum>j\<leftarrow>node_ids n. ?s j))"
  proof -
    have "\<exists>cs. bt_get (commitments ?st2) j = Some cs \<and> share_checksum ?G cs i = Done (public_of ?G (?s j))" if "j \<in> set ?O" for j
      using that chk by (auto simp: bt_get_tabulate set_other_nodes)
    then have "\<exists>st'. drive_dkg ?G (map (\<lambda>j. (j, DkgMsg (DkgShare (?s j)))) ?O @ []) ?sent ?st2 =
        Done (?sent, st', Some (joint_commitment ?G n p, \<Sum>j\<leftarrow>node_ids n. ?s j))"
      using O(3) l by (intro share_round [OF O(1,2) _ _ _ res]) (auto simp: bt_len_single)
    then show thesis using that by blast
  qed
  let ?A = "map (\<lambda>j. (j, DkgMsg (DkgHash (?h (?C j))))) ?O" and ?B = "map (\<lambda>j. (j, DkgMsg (DkgCommitment (?C j)))) ?O"
    and ?D = "map (\<lambda>j. (j, DkgMsg (DkgShare (?s j)))) ?O @ []"
  have "arrivals n i (honest_rounds ?G p i) = ?A @ ?B @ ?D"
    by (simp add: arrivals_def honest_rounds_def)
  then have "run_dkg ?G n i (p i) (honest_rounds ?G p i) = drive_dkg ?G (?A @ ?B @ ?D) [ToEveryone (DkgHash (?h (?C i)))] ?st0"
    by (simp add: run_dkg_def initial_message_def)
  also have "\<dots> = drive_dkg ?G (?B @ ?D) ([ToEveryone (DkgHash (?h (?C i)))] @ [ToEveryone (DkgCommitment (?C i))]) ?st1"
    by (rule 1)
  also have "\<dots> = drive_dkg ?G ?D (([ToEveryone (DkgHash (?h (?C i)))] @ [ToEveryone (DkgCommitment (?C i))]) @ map (\<lambda>(i, m). ToNode i m) ?out) ?st2"
    by (rule 2)
  also have "\<dots> = Done (?sent, st', Some (joint_commitment ?G n p, \<Sum>j\<leftarrow>node_ids n. ?s j))"
    using 3 by (simp only: append_assoc)
  finally have "run_dkg ?G n i (p i) (honest_rounds ?G p i) =
      Done (?sent, st', Some (joint_commitment ?G n p, \<Sum>j\<leftarrow>node_ids n. ?s j))" .
  then show ?thesis by (simp add: comp_def)
qed

end
