(* ===== verification/Dkg_Config.thy ===== *)
theory Dkg_Config
  imports Dkg_Complete Tbs Server_Types
begin

text \<open>
  The key material the modules make of the key generation, and the check of it when the daemon starts
  (\<open>dkg\<close> and \<open>validate_config\<close> of \<open>picomint-node-daemon/src/consensus/{ecash,onchain}/mod.rs\<close>).
\<close>

section \<open>The ecash module\<close>

record ('f, 'b) ecash_keys =
  key_sks :: "(u8, 'f) btmap"
  key_agg_pks :: "(u8, 'b) btmap"
  key_pks :: "(u8, (node_id, 'b) btmap) btmap"

datatype config_error = DkgFailed dkg_error | ShareMismatch | NoShareForIdentity

text \<open>One key per denomination; \<open>run d\<close> is the result of the run for the denomination.\<close>

definition ecash_dkg_key ::
  "('f::field \<Rightarrow> 'b::ab_group_add \<Rightarrow> 'b) \<Rightarrow> num_nodes \<Rightarrow> (u8 \<Rightarrow> (dkg_error, 'b list \<times> 'f) outcome) \<Rightarrow> u8 \<Rightarrow>
   ('f, 'b) ecash_keys \<Rightarrow> (config_error, ('f, 'b) ecash_keys) outcome" where
  "ecash_dkg_key sm n run d K =
     obind (map_err DkgFailed (run d)) (\<lambda>(poly, sk).
     obind (expect (if poly = [] then None else Some (hd poly))) (\<lambda>agg.
     obind (expect (option_seq (map (eval_poly_g2 sm poly) (node_ids n)))) (\<lambda>pks.
     Done (K\<lparr>key_sks := bt_insert d sk (key_sks K), key_agg_pks := bt_insert d agg (key_agg_pks K),
             key_pks := bt_insert d (bt_of_list (zip (node_ids n) pks)) (key_pks K)\<rparr>))))"

definition ecash_dkg ::
  "('f::field \<Rightarrow> 'b::ab_group_add \<Rightarrow> 'b) \<Rightarrow> num_nodes \<Rightarrow> (u8 \<Rightarrow> (dkg_error, 'b list \<times> 'f) outcome) \<Rightarrow>
   (config_error, ('f, 'b) ecash_keys) outcome" where
  "ecash_dkg sm n run =
     ofold (ecash_dkg_key sm n run) consensus_denominations \<lparr>key_sks = bt_empty, key_agg_pks = bt_empty, key_pks = bt_empty\<rparr>"

definition validate_ecash_key ::
  "('f, 'a, 'b, 't) curve \<Rightarrow> node_id \<Rightarrow> ('f, 'b) ecash_keys \<Rightarrow> u8 \<Rightarrow> unit \<Rightarrow> (config_error, unit) outcome" where
  "validate_ecash_key E i K d _ =
     obind (expect (bt_get (key_sks K) d)) (\<lambda>sk.
     obind (expect (bt_get (key_pks K) d)) (\<lambda>pks.
     obind (expect (bt_get pks i)) (\<lambda>pk.
     ensure (tbs_derive_pk_share E sk = pk) ShareMismatch)))"

definition validate_ecash_config ::
  "('f, 'a, 'b, 't) curve \<Rightarrow> node_id \<Rightarrow> ('f, 'b) ecash_keys \<Rightarrow> (config_error, unit) outcome" where
  "validate_ecash_config E i K = ofold (validate_ecash_key E i K) consensus_denominations ()"

section \<open>The onchain module\<close>

record ('f, 'g) onchain_keys =
  onchain_sks :: 'f
  onchain_agg_pk :: 'g
  onchain_pks :: "(node_id, 'g) btmap"

fun onchain_pk_shares ::
  "('f::field \<Rightarrow> 'g::ab_group_add \<Rightarrow> 'g) \<Rightarrow> 'g list \<Rightarrow> node_id list \<Rightarrow> (dkg_error, (node_id \<times> 'g) list) outcome" where
  "onchain_pk_shares sm poly [] = Done []"
| "onchain_pk_shares sm poly (i # is) =
     obind (eval_poly sm poly i) (\<lambda>pk. obind (onchain_pk_shares sm poly is) (\<lambda>pks. Done ((i, pk) # pks)))"

definition onchain_dkg ::
  "('f::field \<Rightarrow> 'g::ab_group_add \<Rightarrow> 'g) \<Rightarrow> num_nodes \<Rightarrow> (dkg_error, 'g list \<times> 'f) outcome \<Rightarrow>
   (dkg_error, ('f, 'g) onchain_keys) outcome" where
  "onchain_dkg sm n run =
     obind run (\<lambda>(poly, sks).
     obind (onchain_pk_shares sm poly (node_ids n)) (\<lambda>pks.
     obind (expect (if poly = [] then None else Some (hd poly))) (\<lambda>agg.
     Done \<lparr>onchain_sks = sks, onchain_agg_pk = agg, onchain_pks = bt_of_list pks\<rparr>)))"

definition validate_onchain_config ::
  "('f \<Rightarrow> 'g \<Rightarrow> 'g) \<Rightarrow> 'g \<Rightarrow> node_id \<Rightarrow> ('f, 'g) onchain_keys \<Rightarrow> (config_error, unit) outcome" where
  "validate_onchain_config sm base i K =
     obind (ok_or NoShareForIdentity (bt_get (onchain_pks K) i)) (\<lambda>pk.
     ensure (pk = sm (onchain_sks K) base) ShareMismatch)"

lemma distinct_consensus_denominations: "distinct consensus_denominations"
  by code_simp

section \<open>The configuration a node makes passes its check\<close>

lemma map_of_zip_map: "map_of (zip xs (map f xs)) k = (if k \<in> set xs then Some (f k) else None)"
  by (induction xs) auto

text \<open>What one denomination's run has to have returned for its key to fit.\<close>

definition share_of_key :: "('f::field \<Rightarrow> 'b::ab_group_add \<Rightarrow> 'b) \<Rightarrow> 'b \<Rightarrow> node_id \<Rightarrow> 'b list \<Rightarrow> 'f \<Rightarrow> bool" where
  "share_of_key sm base i poly sk \<longleftrightarrow> poly \<noteq> [] \<and> sm sk base = gpeval sm poly (node_scalar i)"

definition ecash_key_ok where
  "ecash_key_ok sm base n i run K d \<longleftrightarrow> (\<exists>poly sk pks. run d = Done (poly, sk) \<and> bt_get (key_sks K) d = Some sk \<and>
     bt_get (key_agg_pks K) d = Some (hd poly) \<and> bt_get (key_pks K) d = Some pks \<and>
     (\<forall>j \<in> set (node_ids n). bt_get pks j = Some (gpeval sm poly (node_scalar j))))"

lemma eval_poly_g2_eq: "scalar_laws sm \<Longrightarrow> poly \<noteq> [] \<Longrightarrow> eval_poly_g2 sm poly j = Some (gpeval sm poly (node_scalar j))"
  by (simp add: eval_poly_g2_def horner_group)

lemma ecash_dkg_key_ok:
  assumes s: "scalar_laws sm" and n: "small_mint n" and r: "run d = Done (poly, sk)" "share_of_key sm base i poly sk"
  shows "\<exists>K'. ecash_dkg_key sm n run d K = Done K' \<and> ecash_key_ok sm base n i run K' d \<and>
    (\<forall>e. e \<noteq> d \<longrightarrow> ecash_key_ok sm base n i run K e \<longrightarrow> ecash_key_ok sm base n i run K' e)"
proof -
  have p: "poly \<noteq> []" using r by (simp add: share_of_key_def)
  have "option_seq (map (eval_poly_g2 sm poly) (node_ids n)) = Some (map (\<lambda>j. gpeval sm poly (node_scalar j)) (node_ids n))"
    by (simp add: option_seq_Some_iff eval_poly_g2_eq [OF s p])
  moreover have "bt_get (bt_of_list (zip (node_ids n) (map f (node_ids n)))) j = Some (f j)" if "j \<in> set (node_ids n)" for j and f :: "node_id \<Rightarrow> 'b"
    using that distinct_node_ids [OF n] by (simp add: bt_get_of_list_map map_of_zip_map)
  ultimately show ?thesis using r p
    by (simp add: ecash_dkg_key_def ecash_key_ok_def expect_def)
qed

theorem ecash_config_validates:
  assumes s: "scalar_laws (mul2 E)" and n: "small_mint n" "i \<in> set (node_ids n)"
    and runs: "\<And>d. d \<in> set consensus_denominations \<Longrightarrow>
      \<exists>poly sk. run d = Done (poly, sk) \<and> share_of_key (mul2 E) (g2_generator E) i poly sk"
  shows "\<exists>K. ecash_dkg (mul2 E) n run = Done K \<and> validate_ecash_config E i K = Done ()"
proof -
  let ?ok = "ecash_key_ok (mul2 E) (g2_generator E) n i run"
  have loop: "set ds \<subseteq> set consensus_denominations \<Longrightarrow> distinct ds \<Longrightarrow>
      \<exists>K'. ofold (ecash_dkg_key (mul2 E) n run) ds K = Done K' \<and> (\<forall>d \<in> set ds. ?ok K' d) \<and>
        (\<forall>e. e \<notin> set ds \<longrightarrow> ?ok K e \<longrightarrow> ?ok K' e)" for ds K
  proof (induction ds arbitrary: K)
    case (Cons d ds)
    obtain poly sk where "run d = Done (poly, sk)" "share_of_key (mul2 E) (g2_generator E) i poly sk"
      using runs [of d] Cons.prems by auto
    from ecash_dkg_key_ok [where run = run and K = K, OF s n(1) this] obtain K1 where 1: "ecash_dkg_key (mul2 E) n run d K = Done K1" "?ok K1 d"
      "\<forall>e. e \<noteq> d \<longrightarrow> ?ok K e \<longrightarrow> ?ok K1 e" by blast
    moreover obtain K2 where "ofold (ecash_dkg_key (mul2 E) n run) ds K1 = Done K2" "\<forall>d \<in> set ds. ?ok K2 d"
      "\<forall>e. e \<notin> set ds \<longrightarrow> ?ok K1 e \<longrightarrow> ?ok K2 e" using Cons by fastforce
    ultimately show ?case using Cons.prems by auto
  qed simp
  obtain K where K: "ecash_dkg (mul2 E) n run = Done K" "\<forall>d \<in> set consensus_denominations. ?ok K d"
    using loop [OF subset_refl distinct_consensus_denominations] that unfolding ecash_dkg_def by blast
  have "validate_ecash_key E i K d () = Done ()" if d: "d \<in> set consensus_denominations" for d
  proof -
    obtain poly sk where "run d = Done (poly, sk)" "mul2 E sk (g2_generator E) = gpeval (mul2 E) poly (node_scalar i)"
      using runs [OF d] by (auto simp: share_of_key_def)
    then show ?thesis using K(2) d n(2)
      by (auto simp: ecash_key_ok_def validate_ecash_key_def tbs_derive_pk_share_def expect_def ensure_def)
  qed
  then have "ofold (validate_ecash_key E i K) ds () = Done ()" if "set ds \<subseteq> set consensus_denominations" for ds
    using that by (induction ds) auto
  then show ?thesis using K(1) by (auto simp: validate_ecash_config_def)
qed

lemma onchain_pk_shares_get:
  assumes s: "scalar_laws sm"
  shows "onchain_pk_shares sm poly js = Done pks \<Longrightarrow> pks = map (\<lambda>j. (j, gpeval sm poly (node_scalar j))) js"
  by (induction js arbitrary: pks) (auto simp: obind_Done_iff eval_poly_eq [OF s])

text \<open>The evaluation of the onchain key can fail, but what it returns passes the check.\<close>

theorem onchain_config_validates:
  assumes s: "scalar_laws sm" and n: "small_mint n" "i \<in> set (node_ids n)"
    and r: "share_of_key sm base i poly sks" and K: "onchain_dkg sm n (Done (poly, sks)) = Done K"
  shows "validate_onchain_config sm base i K = Done ()"
proof -
  obtain pks where p: "onchain_pk_shares sm poly (node_ids n) = Done pks" "onchain_pks K = bt_of_list pks" "onchain_sks K = sks"
    using K by (auto simp: onchain_dkg_def obind_Done_iff)
  then have "bt_get (onchain_pks K) i = Some (gpeval sm poly (node_scalar i))"
    using onchain_pk_shares_get [OF s p(1)] n distinct_node_ids [OF n(1)]
    by (simp add: bt_get_of_list_map comp_def map_of_map_restrict)
  then show ?thesis using r p(3) by (simp add: validate_onchain_config_def ok_or_def ensure_def share_of_key_def)
qed

end
