(* ===== verification/Threshold_Sample.thy ===== *)
theory Threshold_Sample
  imports Complex_Main Tpe Dkg_Config Tss_Sign
begin

text \<open>
  Concrete instances of the foreign algebra, at which the properties of the threshold schemes are
  applied: a curve over the rationals, and a curve over the field of three elements, where raising to
  the curve order less two inverts.
\<close>

section \<open>Fields large enough for the node ids\<close>

definition large_field :: "'f::field itself \<Rightarrow> bool" where
  "large_field F \<longleftrightarrow> inj_on (of_nat :: nat \<Rightarrow> 'f) {..<2 ^ 64}"

lemma large_field_points:
  assumes "large_field TYPE('f::field)"
  shows "(eval_point i :: 'f) = eval_point j \<longleftrightarrow> i = j"
proof
  assume "(eval_point i :: 'f) = eval_point j"
  then have e: "(of_nat (unat (i + 1)) :: 'f) = of_nat (unat (j + 1))" unfolding eval_point_def .
  have "unat (i + 1) < 2 ^ 64" "unat (j + 1) < 2 ^ 64" using unsigned_less [of "i + 1"] unsigned_less [of "j + 1"] by simp_all
  then have "unat (i + 1) = unat (j + 1)"
    by (intro inj_onD [OF assms [unfolded large_field_def] e]) (simp_all only: lessThan_iff)
  then have "i + 1 = j + 1" by (simp only: word_unat_eq_iff)
  then show "i = j" by simp
qed simp

lemma large_field_separated: "large_field TYPE('f::field) \<Longrightarrow> separated TYPE('f) shares"
  by (simp add: separated_def distinct_map inj_on_def large_field_points)

text \<open>A node id widened to the \<open>u64\<close> of a share map has the point it was dealt a share for.\<close>

lemma eval_point_ucast: "eval_point (ucast i) = (node_scalar i :: 'f::field)"
proof -
  have "unat i < 256" using unsigned_less [of i, where 'a = nat] by simp
  then have "unat (ucast i :: u64) = unat i" by (simp add: unsigned_ucast_eq take_bit_eq_mod)
  moreover from this \<open>unat i < 256\<close> have "(ucast i :: u64) \<noteq> - 1"
    by (auto simp: unsigned_minus_1_eq_mask mask_eq_exp_minus_1)
  ultimately show ?thesis by (simp add: eval_point_def node_scalar_def unat_succ)
qed

section \<open>A curve over the rationals\<close>

definition rat_curve :: "(rat, rat, rat, rat) curve" where
  "rat_curve = \<lparr>g1_generator = 1, g2_generator = 1, mul1 = (*), mul2 = (*), mult = (*), pairing = (*)\<rparr>"

lemma rat_curve_simps: "g1_generator rat_curve = 1" "g2_generator rat_curve = 1" "mul1 rat_curve = (*)" "mul2 rat_curve = (*)"
    "mult rat_curve = (*)" "pairing rat_curve = (*)"
  by (simp_all add: rat_curve_def)

lemma rat_scalar_laws: "scalar_laws ((*) :: rat \<Rightarrow> rat \<Rightarrow> rat)"
  by (simp add: scalar_laws_def algebra_simps)

lemma rat_curve_laws: "curve_laws rat_curve"
  by (simp add: curve_laws_def rat_curve_def rat_scalar_laws algebra_simps)

lemma rat_pairing_injective: "y \<noteq> 0 \<Longrightarrow> pairing_injective rat_curve y"
  by (simp add: pairing_injective_def rat_curve_def inj_def)

lemma rat_large: "large_field TYPE(rat)"
  by (simp add: large_field_def inj_on_def)

text \<open>The polynomials of a mint of four.\<close>

definition sample_poly :: "node_id \<Rightarrow> rat list" where
  "sample_poly j = [of_nat (unat j) + 1, 2, 3]"

definition four_nodes :: num_nodes where
  "four_nodes = NumNodes 1"

lemma mint_of_four: "small_mint four_nodes" "threshold four_nodes = 3" "total four_nodes = 4" "node_ids four_nodes = [0, 1, 2, 3]"
    "1 \<le> max_evil four_nodes" "\<forall>j \<in> set (node_ids four_nodes). length (sample_poly j) = threshold four_nodes"
  by (simp_all add: four_nodes_def small_mint_def threshold_def total_def node_ids_def upt_rec sample_poly_def)

section \<open>The field of three elements\<close>

datatype gf3 = Zero3 | One3 | Two3

instantiation gf3 :: field
begin

definition zero_gf3 :: gf3 where "zero_gf3 = Zero3"

definition one_gf3 :: gf3 where "one_gf3 = One3"

fun plus_gf3 :: "gf3 \<Rightarrow> gf3 \<Rightarrow> gf3" where
  "Zero3 + y = y"
| "x + Zero3 = x"
| "One3 + One3 = Two3"
| "Two3 + Two3 = One3"
| "One3 + Two3 = Zero3"
| "Two3 + One3 = Zero3"

fun uminus_gf3 :: "gf3 \<Rightarrow> gf3" where
  "- Zero3 = Zero3"
| "- One3 = Two3"
| "- Two3 = One3"

fun times_gf3 :: "gf3 \<Rightarrow> gf3 \<Rightarrow> gf3" where
  "Zero3 * y = Zero3"
| "One3 * y = y"
| "Two3 * y = - y"

definition minus_gf3 :: "gf3 \<Rightarrow> gf3 \<Rightarrow> gf3" where "x - y = x + - (y :: gf3)"

definition inverse_gf3 :: "gf3 \<Rightarrow> gf3" where "inverse x = (x :: gf3)"

definition divide_gf3 :: "gf3 \<Rightarrow> gf3 \<Rightarrow> gf3" where "x div y = x * (y :: gf3)"

instance
proof
  fix a b c :: gf3
  show "a + b + c = a + (b + c)" by (cases a; cases b; cases c) simp_all
  show "a + b = b + a" by (cases a; cases b) simp_all
  show "0 + a = a" by (simp add: zero_gf3_def)
  show "- a + a = 0" by (cases a) (simp_all add: zero_gf3_def)
  show "a - b = a + - b" by (simp add: minus_gf3_def)
  show "a * b * c = a * (b * c)" by (cases a; cases b; cases c) simp_all
  show "a * b = b * a" by (cases a; cases b) simp_all
  show "1 * a = a" by (simp add: one_gf3_def)
  show "(a + b) * c = a * c + b * c" by (cases a; cases b; cases c) simp_all
  show "(0 :: gf3) \<noteq> 1" by (simp add: zero_gf3_def one_gf3_def)
  show "a \<noteq> 0 \<Longrightarrow> inverse a * a = 1" by (cases a) (simp_all add: zero_gf3_def one_gf3_def inverse_gf3_def)
  show "a div b = a * inverse b" by (simp add: divide_gf3_def inverse_gf3_def)
  show "inverse (0 :: gf3) = 0" by (simp add: inverse_gf3_def)
qed

end

lemmas gf3_eval = zero_gf3_def one_gf3_def minus_gf3_def inverse_gf3_def divide_gf3_def

lemma gf3_square: "a \<noteq> 0 \<Longrightarrow> a ^ 2 = (1 :: gf3)"
  by (cases a) (simp_all add: power2_eq_square gf3_eval)

lemma gf3_fermat: "fermat TYPE(gf3)"
proof -
  have "k ^ (CURVE_ORDER - 1) = 1" if "k \<noteq> (0 :: gf3)" for k
  proof -
    have "CURVE_ORDER - 1 = 2 * ((CURVE_ORDER - 1) div 2)" by (simp add: CURVE_ORDER_def)
    then have "k ^ (CURVE_ORDER - 1) = (k ^ 2) ^ ((CURVE_ORDER - 1) div 2)" by (metis power_mult)
    then show ?thesis by (simp only: gf3_square [OF that] power_one)
  qed
  then show ?thesis by (simp add: fermat_def)
qed

text \<open>Every hash has the value one, and a point is even when it is the generator.\<close>

definition gf3_curve :: "(gf3, gf3) secp" where
  "gf3_curve = \<lparr>secp_base = 1, secp_mul = (*), secp_sha256 = (\<lambda>bs. replicate 31 0 @ [1]),
     serialize_pk = (\<lambda>p. replicate 33 2), x_only_pk = (\<lambda>p. replicate 32 7), even_y = (\<lambda>p. p = 1)\<rparr>"

lemma gf3_curve_simps: "secp_base gf3_curve = One3" "secp_mul gf3_curve = (*)" "even_y gf3_curve p = (p = One3)"
    "x_only_pk gf3_curve p = replicate 32 7"
  by (simp_all add: gf3_curve_def one_gf3_def)

lemma gf3_laws: "secp_laws gf3_curve"
proof -
  have "(- p = 1) = (p \<noteq> (1 :: gf3))" if "p \<noteq> 0" for p using that by (cases p) (simp_all add: gf3_eval)
  then show ?thesis by (simp add: secp_laws_def gf3_curve_def scalar_laws_def algebra_simps)
qed

lemma gf3_two: "(2 :: gf3) = Two3"
proof -
  have "(2 :: gf3) = 1 + 1" by (simp only: one_add_one)
  then show ?thesis by (simp add: one_gf3_def)
qed

lemma gf3_points: "(eval_point 0 :: gf3) = One3" "(eval_point 1 :: gf3) = Two3"
  by (simp_all add: eval_point_def gf3_two one_gf3_def)

text \<open>Two signers with nonces of one and a key of one.\<close>

definition gf3_nonces :: "(u64, gf3 \<times> gf3) btmap" where
  "gf3_nonces = bt_insert 0 (1, 1) (bt_insert 1 (1, 1) bt_empty)"

lemma gf3_nonces: "entries gf3_nonces = [(0, (1, 1)), (1, (1, 1))]"
  by (simp add: gf3_nonces_def)

lemma gf3_keys: "bt_keys gf3_nonces = [0, 1]" "bt_values gf3_nonces = [(1, 1), (1, 1)]" "bt_len gf3_nonces = 2"
  by (simp_all add: bt_keys_def bt_values_def bt_len_def gf3_nonces)

lemma gf3_good: "good_points TYPE(gf3) (bt_keys gf3_nonces)"
  by (simp add: good_points_def gf3_keys gf3_points gf3_eval)

lemma gf3_multipliers: "lagrange_multiplier [0, 1] 0 = Some Two3" "lagrange_multiplier [0, 1] 1 = Some Two3"
proof -
  note m = lagrange_multiplier_eq [OF gf3_fermat gf3_good, unfolded gf3_keys]
  have l: "lagrange [One3, Two3] One3 = Two3" "lagrange [One3, Two3] Two3 = Two3"
    by (simp_all add: lagrange_def gf3_eval)
  show "lagrange_multiplier [0, 1] 0 = Some Two3" "lagrange_multiplier [0, 1] 1 = Some Two3"
    using m [of 0] m [of 1] by (simp_all only: list.map gf3_points l list.set insert_iff refl simp_thms)
qed

lemma gf3_hash: "scalar_mod_order (tagged_hash gf3_curve t cs) = Some One3"
proof -
  let ?bs = "replicate 31 0 @ [1] :: bytes"
  have "be_value ?bs = 1" unfolding be_value_zeros by (simp add: be_value_def)
  moreover have "length ?bs = 32" by simp
  ultimately have "scalar_mod_order ?bs = Some (of_nat (1 mod CURVE_ORDER) :: gf3)"
    using scalar_mod_order_eq [of ?bs, where 'f = gf3] by (simp only:)
  then show ?thesis by (simp add: tagged_hash_def gf3_curve_def CURVE_ORDER_def) (simp add: gf3_eval)
qed

lemma gf3_halves: "aggregate_nonce_halves gf3_nonces = (Some Two3, Some Two3)"
  by (simp add: aggregate_nonce_halves_def gf3_keys add_point_def pk_combine_def nonzero_def gf3_eval)

lemma gf3_group_nonce: "group_nonce gf3_curve (Some Two3, Some Two3) One3 = Some One3"
  by (simp add: group_nonce_def pk_mul_tweak_def pk_combine_def nonzero_def key_from_u64_def gf3_curve_def gf3_eval)

lemma gf3_ids: "\<exists>ids. serialize_ids [0, 1] = Some ids \<and> length ids = 8"
  by (simp add: serialize_ids_def)

lemma gf3_session: "session_values gf3_curve msg gf3_nonces One3 = Some (One3, One3, One3)"
proof -
  obtain ids where "serialize_ids [0, 1] = Some ids" "length ids = 8" using gf3_ids by blast
  then show ?thesis
    by (simp add: session_values_def gf3_halves gf3_keys gf3_hash gf3_group_nonce challenge_hash_def)
qed

end
