(* ===== verification/Threshold_Claims.thy ===== *)
theory Threshold_Claims
  imports Threshold_Sample
begin

text \<open>
  The properties of the key generation and of the threshold schemes that use its keys. The curves are
  foreign code: their group laws are the hypotheses \<open>scalar_laws\<close>, \<open>curve_laws\<close> and \<open>secp_laws\<close>.
\<close>

section \<open>Key generation\<close>

text \<open>
  C11. Whatever the other nodes send, a node whose key generation ends holds the share of the joint
  key: its secret share is, in the group, the joint commitment evaluated at its own point, and the
  commitment has as many coefficients as the threshold. This is so over both curves.
\<close>

theorem dkg_share_consistent:
  assumes "scalar_laws sm" "G = g2_ops sm base h \<or> G = secp_ops sm base h"
    and "small_mint n" "i \<in> set (node_ids n)" "length p = threshold n"
    and "run_dkg G n i p rounds = Done (out, st, Some (pks, sks))"
  shows "length pks = threshold n \<and> sm sks base = gpeval sm pks (node_scalar i)"
  using assms by (intro run_dkg_share [of G]) (auto intro: g2_sound secp_sound)

definition sample_dkg :: "(rat, rat) dkg_ops" where
  "sample_dkg = g2_ops (*) 1 (\<lambda>cs. of_nat (length cs))"

definition sample_share :: "node_id \<Rightarrow> rat" where
  "sample_share i = (\<Sum>j\<leftarrow>node_ids four_nodes. peval (sample_poly j) (node_scalar i))"

definition sample_keys :: "rat list" where
  "sample_keys = joint_commitment sample_dkg four_nodes sample_poly"

lemma dkg_sample_run:
  assumes "i \<in> set (node_ids four_nodes)"
  shows "\<exists>out st. run_dkg sample_dkg four_nodes i (sample_poly i) (honest_rounds sample_dkg sample_poly i) =
    Done (out, st, Some (sample_keys, sample_share i))"
proof -
  have "dkg_works sample_dkg (*) 1 four_nodes sample_poly"
    unfolding sample_dkg_def by (rule g2_works [OF rat_scalar_laws mint_of_four(6)]) (simp add: mint_of_four)
  from honest_run [OF this mint_of_four(1,5) assms mint_of_four(6)]
  show ?thesis unfolding sample_keys_def sample_share_def by blast
qed

theorem dkg_share_consistent_witness:
  "\<exists>out st. run_dkg sample_dkg four_nodes 2 (sample_poly 2) (honest_rounds sample_dkg sample_poly 2) =
       Done (out, st, Some (sample_keys, sample_share 2)) \<and>
     sample_share 2 * 1 = gpeval (*) sample_keys (node_scalar 2)"
proof -
  have i: "2 \<in> set (node_ids four_nodes)" by (simp add: mint_of_four)
  obtain out st where r: "run_dkg sample_dkg four_nodes 2 (sample_poly 2) (honest_rounds sample_dkg sample_poly 2) =
      Done (out, st, Some (sample_keys, sample_share 2))" using dkg_sample_run [OF i] by blast
  have "length (sample_poly 2) = threshold four_nodes" by (simp add: mint_of_four sample_poly_def)
  from dkg_share_consistent [OF rat_scalar_laws disjI1 [OF sample_dkg_def] mint_of_four(1) i this r] r
  show ?thesis by blast
qed

text \<open>
  C20. Among nodes that follow the protocol the key generation ends at every node: each passes the
  rounds of hashes, commitments and shares, sends what the others wait for and nothing else, and all
  return the same joint commitment, each with its own share of the joint polynomial. Over the pairing
  curve this is always so. Over secp256k1, where the code's keys and points have no zero, it is so
  unless an intermediate value is zero - a tail of a polynomial at the point of a node, or the sum of the
  first shares of a node or of the first coefficients of a degree - which random polynomials meet with
  negligible probability, and on which the code fails.
\<close>

theorem dkg_completes:
  fixes sm :: "'f::field \<Rightarrow> 'g::ab_group_add \<Rightarrow> 'g"
  assumes "scalar_laws sm" "small_mint n" "1 \<le> max_evil n" "i \<in> set (node_ids n)"
    and "\<forall>j \<in> set (node_ids n). length (p j) = threshold n"
    and "G = g2_ops sm base h \<or> G = secp_ops sm base h \<and> never_zero n p \<and> (\<forall>r. sm r base = 0 \<longrightarrow> r = 0)"
  shows "\<exists>st. run_dkg G n i (p i) (honest_rounds G p i) =
    Done ([ToEveryone (DkgHash (h (dkg_commitment G (p i)))), ToEveryone (DkgCommitment (dkg_commitment G (p i)))] @
          map (\<lambda>j. ToNode j (DkgShare (peval (p i) (node_scalar j)))) (other_nodes n i),
      st, Some (joint_commitment G n p, \<Sum>j\<leftarrow>node_ids n. peval (p j) (node_scalar i)))"
proof -
  have "node_ids n \<noteq> []" using assms(4) by auto
  then have "dkg_works G sm base n p" using assms(6) g2_works [OF assms(1,5)] secp_works [OF assms(1) _ assms(5)] by blast
  moreover have "commitment_hash G = h" using assms(6) by (auto simp: g2_ops_def secp_ops_def)
  ultimately show ?thesis using honest_run [where G = G and n = n and i = i and p = p, OF _ assms(2-5)] by simp
qed

lemma sample_never_zero: "never_zero four_nodes sample_poly"
proof -
  have pos: "0 < sum_list (map f xs)" if "xs \<noteq> []" "\<And>x. 0 < f x" for f :: "node_id \<Rightarrow> rat" and xs
    using that by (induction xs rule: list_nonempty_induct) (simp_all add: add_pos_pos)
  have sc: "0 < (node_scalar i :: rat)" for i unfolding node_scalar_def of_nat_0_less_iff by simp
  have u: "0 < (of_nat (unat j) + 1 :: rat)" for j :: node_id by (rule add_nonneg_pos [OF of_nat_0_le_iff zero_less_one])
  have c: "0 < sample_poly j ! k" if "k < 3" for j k
    using that u by (auto simp: sample_poly_def less_Suc_eq numeral_3_eq_3)
  have peval_pos: "0 < peval cs x" if "cs \<noteq> []" "\<forall>c \<in> set cs. 0 < c" "0 < x" for cs and x :: rat
    using that
  proof (induction cs rule: list_nonempty_induct)
    case (cons y ys)
    then show ?case by (simp add: add_pos_pos)
  qed simp
  have t: "0 < peval (drop k (sample_poly j)) (node_scalar i)" if k: "k < 3" for i j k
  proof (rule peval_pos [OF _ _ sc])
    show "drop k (sample_poly j) \<noteq> []" using k by (simp add: sample_poly_def)
    show "\<forall>c \<in> set (drop k (sample_poly j)). 0 < c"
    proof
      fix c assume "c \<in> set (drop k (sample_poly j))"
      then have "c \<in> set (sample_poly j)" by (rule in_set_dropD)
      then show "0 < c" using u [of j] by (auto simp: sample_poly_def)
    qed
  qed
  have "0 < (\<Sum>j\<leftarrow>take m (node_ids four_nodes). peval (sample_poly j) (node_scalar i))"
    "k < 3 \<Longrightarrow> 0 < (\<Sum>j\<leftarrow>take m (node_ids four_nodes). sample_poly j ! k)" if "1 \<le> m" for m i k
    using that t [of 0] c [of k] by (auto intro!: pos simp: mint_of_four(4))
  moreover have "length (sample_poly j) = 3" for j by (simp add: sample_poly_def)
  ultimately show ?thesis using sc t unfolding never_zero_def mint_of_four(2) by (metis atLeastAtMost_iff less_irrefl)
qed

theorem dkg_completes_witness:
  "\<exists>out st. run_dkg (secp_ops (*) (1 :: rat) (\<lambda>cs. of_nat (length cs))) four_nodes 0 (sample_poly 0)
       (honest_rounds (secp_ops (*) 1 (\<lambda>cs. of_nat (length cs))) sample_poly 0) =
     Done (out, st, Some (joint_commitment (secp_ops (*) 1 (\<lambda>cs. of_nat (length cs))) four_nodes sample_poly,
       \<Sum>j\<leftarrow>[0, 1, 2, 3]. peval (sample_poly j) (node_scalar 0)))"
proof -
  have "0 \<in> set (node_ids four_nodes)" by (simp add: mint_of_four)
  moreover have "secp_ops (*) 1 h = g2_ops (*) (1 :: rat) h \<or> secp_ops (*) 1 h = secp_ops (*) 1 h \<and> never_zero four_nodes sample_poly \<and>
      (\<forall>r. r * 1 = 0 \<longrightarrow> r = (0 :: rat))" for h using sample_never_zero by simp
  ultimately show ?thesis
    using dkg_completes [OF rat_scalar_laws mint_of_four(1,5) _ mint_of_four(6)] unfolding mint_of_four(4) by blast
qed

section \<open>Blind signatures\<close>

text \<open>
  C5. The keys of the key generation sign: if a threshold of nodes, each with the share its own run
  returned beside the same joint commitment, sign a blinded nonce, then their shares combine, whichever
  nodes they are, and the unblinded result verifies under the mint's key.
\<close>

theorem dkg_keys_sign:
  fixes E :: "('f::field, 'a::ab_group_add, 'b::ab_group_add, 't::ab_group_add) curve"
  assumes E: "curve_laws E" and F: "large_field TYPE('f)" and n: "small_mint n" and b: "b \<noteq> 0"
    and enough: "threshold n \<le> bt_len shares"
    and keys: "\<And>k s. bt_get shares k = Some s \<Longrightarrow> \<exists>i p rounds out st sk.
      k = ucast i \<and> i \<in> set (node_ids n) \<and> length p = threshold n \<and>
      run_dkg (g2_ops (mul2 E) (g2_generator E) h) n i p rounds = Done (out, st, Some (pks, sk)) \<and>
      s = tbs_sign_nonce E (tbs_blind_nonce E x b) sk"
  shows "\<exists>bs sig. tbs_aggregate E shares = Some bs \<and> tbs_unblind E b bs = Some sig \<and> tbs_verify_signature E x sig (hd pks)"
proof -
  have share: "length pks = threshold n \<and> tbs_verify_share E (tbs_blind_nonce E x b) s (gpeval (mul2 E) pks (eval_point k))"
    if g: "bt_get shares k = Some s" for k s
  proof -
    obtain i p rounds out st sk where k: "k = ucast i" "i \<in> set (node_ids n)" "length p = threshold n"
      "run_dkg (g2_ops (mul2 E) (g2_generator E) h) n i p rounds = Done (out, st, Some (pks, sk))"
      "s = tbs_sign_nonce E (tbs_blind_nonce E x b) sk"
      using keys [OF g] by blast
    have "length pks = threshold n \<and> mul2 E sk (g2_generator E) = gpeval (mul2 E) pks (node_scalar i)"
      by (rule run_dkg_share [OF g2_sound [OF curve_lawsD(2) [OF E]] n k(2-4)])
    then show ?thesis
      using sign_verifies [OF E, of "tbs_blind_nonce E x b" sk] k by (simp add: eval_point_ucast tbs_derive_pk_share_def)
  qed
  have pos: "0 < threshold n" by (simp add: threshold_def)
  obtain k s where "bt_get shares k = Some s"
  proof -
    obtain k s es where "entries shares = (k, s) # es"
      using pos enough by (cases "entries shares") (auto simp: bt_len_def)
    then have "bt_get shares k = Some s" by (simp add: bt_get_def)
    then show thesis by (rule that)
  qed
  then have l: "length pks = threshold n" using share by blast
  then have "pks \<noteq> []" "length pks \<le> bt_len shares" using pos enough by auto
  from aggregate_verifies [OF E large_field_separated [OF F] this] share
  obtain bs where bs: "tbs_aggregate E shares = Some bs" "tbs_verify_blinded E (tbs_blind_nonce E x b) bs (hd pks)" by blast
  with unblind_verifies [OF E b bs(2)] show ?thesis by blast
qed

theorem dkg_keys_sign_witness:
  "\<exists>bs sig. tbs_aggregate rat_curve (bt_of_list [(1, 10 * sample_share 1), (3, 10 * sample_share 3), (0, 10 * sample_share 0)]) = Some bs \<and>
     tbs_unblind rat_curve 2 bs = Some sig \<and> tbs_verify_signature rat_curve 5 sig (hd sample_keys)"
proof (rule dkg_keys_sign [OF rat_curve_laws rat_large mint_of_four(1)])
  let ?S = "bt_of_list [(1, 10 * sample_share 1), (3, 10 * sample_share 3), (0 :: u64, 10 * sample_share 0)]"
  show "threshold four_nodes \<le> bt_len ?S" by (simp add: bt_len_of_list mint_of_four)
  fix k s assume g: "bt_get ?S k = Some s"
  have "(k, s) \<in> set [(1, 10 * sample_share 1), (3, 10 * sample_share 3), (0 :: u64, 10 * sample_share 0)]"
    using g by (subst (asm) bt_get_of_list_distinct) simp_all
  then have "\<exists>i :: node_id. k = ucast i \<and> i \<in> {0, 1, 3} \<and> s = 10 * sample_share i"
    by (auto intro: exI [of _ "0 :: node_id"] exI [of _ "1 :: node_id"] exI [of _ "3 :: node_id"])
  then obtain i :: node_id where i: "k = ucast i" "i \<in> set (node_ids four_nodes)" "s = 10 * sample_share i"
    by (auto simp: mint_of_four)
  moreover have "length (sample_poly i) = threshold four_nodes" by (simp add: mint_of_four sample_poly_def)
  moreover have "s = tbs_sign_nonce rat_curve (tbs_blind_nonce rat_curve 5 2) (sample_share i)"
    by (simp add: i(3) tbs_sign_nonce_def tbs_blind_nonce_def rat_curve_simps)
  moreover have "g2_ops (mul2 rat_curve) (g2_generator rat_curve) (\<lambda>cs. of_nat (length cs)) = sample_dkg"
    by (simp add: sample_dkg_def rat_curve_simps)
  ultimately show "\<exists>i p rounds out st sk. k = ucast i \<and> i \<in> set (node_ids four_nodes) \<and> length p = threshold four_nodes \<and>
      run_dkg (g2_ops (mul2 rat_curve) (g2_generator rat_curve) (\<lambda>cs. of_nat (length cs))) four_nodes i p rounds =
        Done (out, st, Some (sample_keys, sk)) \<and> s = tbs_sign_nonce rat_curve (tbs_blind_nonce rat_curve 5 2) sk"
    using dkg_sample_run [OF i(2)] by metis
qed simp

section \<open>Encrypted preimages\<close>

text \<open>
  C29. A preimage encrypted to the mint's key is opened by any set of nodes as large as the degree of
  the key's polynomial: their decryption key shares, if each passes its check, combine to the key the
  encryption was made with, which passes its own check and decrypts to the preimage.
\<close>

theorem preimage_opens:
  fixes E :: "('f::field, 'a::ab_group_add, 'b::ab_group_add, 't::ab_group_add) curve"
  assumes "curve_laws E" "large_field TYPE('f)" "length preimage = 32"
    and "2 \<le> bt_len shares" "pks \<noteq> []" "length pks \<le> bt_len shares"
    and "ct = encrypt_preimage E H (hd pks) seed preimage com" "pairing_injective E (ct_message H ct com)"
    and "\<And>i s. bt_get shares i = Some s \<Longrightarrow>
      verify_dk_share E H (gpeval (mul1 E) pks (eval_point i)) s ct com = Some True"
  shows "\<exists>dk. aggregate_dk_shares E shares = Some dk \<and> verify_agg_dk E H (hd pks) dk ct com = Some True \<and>
    decrypt_preimage H ct dk = preimage"
proof -
  have v: "verify_ciphertext E H ct com" unfolding assms(7) by (rule encrypt_verifies [OF assms(1)])
  obtain dk where dk: "aggregate_dk_shares E shares = Some dk" "verify_agg_dk E H (hd pks) dk ct com = Some True"
    using aggregate_dk_verifies [OF assms(1) v large_field_separated [OF assms(2)] assms(4-6,9)] by blast
  then have "dk = derive_agg_dk E H (hd pks) seed"
    using verify_agg_dk_exact [OF assms(1,7,8), of dk] by simp
  then show ?thesis using dk decrypt_encrypt [OF assms(3), of H E "hd pks" seed com] by (simp add: assms(7))
qed

definition rat_hashes :: "(rat, rat, rat) tpe_hashes" where
  "rat_hashes = \<lparr>tpe_sha256 = (\<lambda>bs. replicate 32 0xA5), random_scalar = (\<lambda>s. 7), random_g2 = (\<lambda>s. 3), compress_g1 = (\<lambda>p. replicate 48 1)\<rparr>"

theorem preimage_opens_witness:
  "\<exists>dk. aggregate_dk_shares rat_curve (bt_of_list [(0, 7 * 3), (1, 7 * 5)]) = Some dk \<and>
     decrypt_preimage rat_hashes (encrypt_preimage rat_curve rat_hashes 1 [] (replicate 32 9) []) dk = replicate 32 9"
proof -
  let ?S = "bt_of_list [(0 :: u64, 7 * 3), (1, 7 * 5)] :: (u64, rat) btmap"
  let ?ct = "encrypt_preimage rat_curve rat_hashes 1 [] (replicate 32 9) []"
  have m: "ct_message rat_hashes ?ct [] = 3" "ct_pk ?ct = 7" "ct_signature ?ct = 7 * 3"
    by (simp_all add: ct_message_def hash_to_message_def rat_hashes_def encrypt_preimage_def Let_def derive_ephemeral_sk_def rat_curve_simps)
  have e: "(eval_point 0 :: rat) = 1" "(eval_point 1 :: rat) = 2" by (simp_all add: eval_point_def)
  have ok: "verify_dk_share rat_curve rat_hashes (gpeval (mul1 rat_curve) [1, 2] (eval_point i)) s ?ct [] = Some True"
    if "bt_get ?S i = Some s" for i s
  proof -
    have "(i, s) \<in> set [(0 :: u64, 7 * 3), (1, 7 * 5)]" using that by (subst (asm) bt_get_of_list_distinct) simp_all
    then show ?thesis by (auto simp: verify_dk_share_def Let_def m e rat_curve_simps)
  qed
  have inj: "pairing_injective rat_curve (ct_message rat_hashes ?ct [])" unfolding m by (rule rat_pairing_injective) simp
  have len: "length (replicate 32 9 :: bytes) = 32" "2 \<le> bt_len ?S" "[1, 2 :: rat] \<noteq> []" "length [1, 2 :: rat] \<le> bt_len ?S"
    by (simp_all add: bt_len_of_list)
  have ct: "?ct = encrypt_preimage rat_curve rat_hashes (hd [1, 2]) [] (replicate 32 9) []" by simp
  from preimage_opens [OF rat_curve_laws rat_large len ct inj ok] show ?thesis by auto
qed

section \<open>Threshold Schnorr signatures\<close>

text \<open>
  A node's signature share passes the check of the other nodes: whenever signing returns a share,
  made with the nonce pair the signing set lists for the node, the check against the node's public
  share and the same nonces accepts it, and does not panic.
\<close>

theorem frost_share_accepted:
  assumes "secp_laws S" "bt_get nonces i = Some (derive_public_nonce S sn)"
    and "frost_sign_share S msg sks sn nonces i pk = Some z"
  shows "frost_verify_share S msg i (public_key S sks) z nonces pk = Some True"
  by (rule sign_share_verifies [OF assms])

lemma gf3_sign: "frost_sign_share gf3_curve msg One3 (One3, One3) gf3_nonces 0 One3 = Some One3"
  "frost_sign_share gf3_curve msg One3 (One3, One3) gf3_nonces 1 One3 = Some One3"
  by (simp_all add: frost_sign_share_def gf3_session gf3_keys gf3_multipliers key_mul_tweak_def key_add_tweak_def nonzero_def
      gf3_curve_simps gf3_eval)

lemma gf3_nonce_get: "bt_get gf3_nonces 0 = Some (derive_public_nonce gf3_curve (One3, One3))"
  "bt_get gf3_nonces 1 = Some (derive_public_nonce gf3_curve (One3, One3))"
  by (simp_all add: bt_get_def gf3_nonces derive_public_nonce_def public_key_def gf3_curve_simps gf3_eval)

theorem frost_share_accepted_witness:
  "frost_verify_share gf3_curve [] 1 (public_key gf3_curve One3) One3 gf3_nonces One3 = Some True"
  by (rule frost_share_accepted [OF gf3_laws gf3_nonce_get(2) gf3_sign(2)])

text \<open>
  C8. The shares of a signing set that each pass the check add up to a BIP340 signature: the response
  opens the even points of the group nonce and of the mint's key under their challenge, so that the
  verifier every wallet uses accepts it. The group nonce must not be the point at infinity, for which
  the scheme puts the generator.
\<close>

theorem frost_signature_accepted:
  fixes S :: "('f::field, 'g::ab_group_add) secp"
  assumes "secp_laws S" "fermat TYPE('f)" "good_points TYPE('f) (bt_keys nonces)" "nonces_ok nonces"
    and "bt_keys shares = bt_keys nonces" "cs \<noteq> []" "length cs \<le> bt_len nonces" "hd cs \<noteq> 0"
    and "\<And>b r c. session_values S msg nonces (hd cs) = Some (b, r, c) \<Longrightarrow> nonce_sum S b nonces \<noteq> 0"
    and "\<And>i z. bt_get shares i = Some z \<Longrightarrow>
      frost_verify_share S msg i (gpeval (secp_mul S) cs (eval_point i)) z nonces (hd cs) = Some True"
    and "frost_aggregate S msg nonces shares (hd cs) = Some sig"
  shows "bip340_accepts S msg sig (x_only_pk S (hd cs))"
  by (rule aggregate_accepted [OF assms])

definition gf3_shares :: "(u64, gf3) btmap" where
  "gf3_shares = bt_insert 0 One3 (bt_insert 1 One3 bt_empty)"

theorem frost_signature_accepted_witness:
  "frost_aggregate gf3_curve [] gf3_nonces gf3_shares One3 = Some (replicate 32 7, Two3) \<and>
   bip340_accepts gf3_curve [] (replicate 32 7, Two3) (x_only_pk gf3_curve (hd [One3]))"
proof
  have v: "bt_values gf3_shares = [One3, One3]" by (simp add: gf3_shares_def bt_values_def)
  show a: "frost_aggregate gf3_curve [] gf3_nonces gf3_shares One3 = Some (replicate 32 7, Two3)"
    by (simp add: frost_aggregate_def gf3_session v key_add_tweak_def nonzero_def gf3_eval) (simp add: gf3_curve_simps)
  have pk: "gpeval (secp_mul gf3_curve) [One3] x = public_key gf3_curve One3" for x
    by (cases x) (simp_all add: gf3_curve_simps public_key_def gf3_eval)
  have share: "frost_verify_share gf3_curve [] i (public_key gf3_curve One3) One3 gf3_nonces One3 = Some True" if "i = 0 \<or> i = 1" for i
    using that sign_share_verifies [OF gf3_laws gf3_nonce_get(1) gf3_sign(1)]
      sign_share_verifies [OF gf3_laws gf3_nonce_get(2) gf3_sign(2)] by blast
  show "bip340_accepts gf3_curve [] (replicate 32 7, Two3) (x_only_pk gf3_curve (hd [One3]))"
  proof (rule frost_signature_accepted [OF gf3_laws gf3_fermat gf3_good, of gf3_shares])
    show "nonces_ok gf3_nonces" by (simp add: nonces_ok_def gf3_keys)
    show "bt_keys gf3_shares = bt_keys gf3_nonces" unfolding gf3_keys by (simp add: gf3_shares_def bt_keys_def)
    show "length [One3] \<le> bt_len gf3_nonces" by (simp add: gf3_keys)
    show "hd [One3] \<noteq> 0" by (simp add: gf3_eval)
    show "nonce_sum gf3_curve b gf3_nonces \<noteq> 0" if "session_values gf3_curve [] gf3_nonces (hd [One3]) = Some (b, r, c)" for b r c
    proof -
      have "b = One3" using that by (simp add: gf3_session)
      then show ?thesis by (simp add: nonce_sum_def effective_nonce_def gf3_keys gf3_curve_simps gf3_two gf3_eval)
    qed
    show "frost_aggregate gf3_curve [] gf3_nonces gf3_shares (hd [One3]) = Some (replicate 32 7, Two3)" using a by simp
    fix i z assume "bt_get gf3_shares i = Some z"
    then have "(i = 0 \<or> i = 1) \<and> z = One3" by (auto simp: gf3_shares_def split: if_splits)
    then show "frost_verify_share gf3_curve [] i (gpeval (secp_mul gf3_curve) [One3] (eval_point i)) z gf3_nonces (hd [One3]) = Some True"
      unfolding pk using share [of i] by simp
  qed simp
qed

end
