(* ===== verification/Fountain.thy ===== *)
theory Fountain
  imports Codec "HOL-Library.List_Lexorder"
begin

unbundle bit_operations_syntax

text \<open>
  The fountain code behind animated QR codes (\<open>picomint-fountain/src\<close>): a message is cut into
  fragments, first sent one by one and then as sums (xor) of random selections, and a decoder puts it
  together from whatever it has seen. SHA-256 is the parameter \<open>sha\<close> (from bytes to the digest's
  bytes) and the selection drawn by the seeded ChaCha20 generator (\<open>WeightedIndex\<close> and
  \<open>choose_multiple\<close>) the parameter \<open>sample\<close>, of the number of fragments and the seed.
  A function that can panic returns an option, None for the panic. \<open>usize\<close> is \<open>nat\<close>;
  counts, lengths and indices on the wire keep their 32 bits.
\<close>

section \<open>Fragments\<close>

record encoding_metadata =
  simple_fragments :: u32
  message_length :: u32
  meta_checksum :: bytes

record fragment =
  fragment_meta :: encoding_metadata
  fragment_index :: u32
  fragment_data :: bytes

datatype fountain_error = InvalidFragment | InconsistentFragment

definition checksum :: "(bytes \<Rightarrow> bytes) \<Rightarrow> bytes \<Rightarrow> bytes" where
  "checksum sha x = take 4 (sha x)"

definition nat_div_ceil :: "nat \<Rightarrow> nat \<Rightarrow> nat" where
  "nat_div_ceil a b = (a + b - 1) div b"

definition fragment_length :: "nat \<Rightarrow> nat \<Rightarrow> nat" where
  "fragment_length data_length max_fragment_length = nat_div_ceil data_length (nat_div_ceil data_length max_fragment_length)"

function chunks :: "nat \<Rightarrow> 'a list \<Rightarrow> 'a list list" where
  "chunks n xs = (if n = 0 \<or> xs = [] then [] else take n xs # chunks n (drop n xs))"
  by pat_completeness auto
termination by (relation "measure (\<lambda>(n, xs). length xs)") auto

declare chunks.simps [simp del]

definition partition_data :: "bytes \<Rightarrow> nat \<Rightarrow> bytes list" where
  "partition_data x n = chunks n (x @ replicate ((n - length x mod n) mod n) 0)"

definition choose_fragments :: "(nat \<Rightarrow> bytes \<Rightarrow> nat list) \<Rightarrow> (bytes \<Rightarrow> bytes) \<Rightarrow> nat \<Rightarrow> bytes \<Rightarrow> u32 \<Rightarrow> nat list" where
  "choose_fragments sample sha count cs index =
     (if unat index < count then [unat index] else sample count (sha (enc_pair enc_byte_array enc_u32 (cs, index))))"

definition xor_bytes :: "bytes \<Rightarrow> bytes \<Rightarrow> bytes option" where
  "xor_bytes v1 v2 = (if length v1 = length v2 then Some (map2 (\<lambda>a b. a XOR b) v1 v2) else None)"

definition metadata_new :: "nat \<Rightarrow> nat \<Rightarrow> bytes \<Rightarrow> encoding_metadata" where
  "metadata_new count len cs = \<lparr>simple_fragments = of_nat count, message_length = of_nat len, meta_checksum = cs\<rparr>"

definition meta_fragment_length :: "encoding_metadata \<Rightarrow> nat" where
  "meta_fragment_length m = nat_div_ceil (unat (message_length m)) (unat (simple_fragments m))"

definition meta_verify :: "encoding_metadata \<Rightarrow> bool" where
  "meta_verify m \<longleftrightarrow> 0 < unat (simple_fragments m) \<and> 0 < unat (message_length m) \<and> 0 < meta_fragment_length m"

definition fragment_indexes :: "(nat \<Rightarrow> bytes \<Rightarrow> nat list) \<Rightarrow> (bytes \<Rightarrow> bytes) \<Rightarrow> fragment \<Rightarrow> nat list" where
  "fragment_indexes sample sha f =
     choose_fragments sample sha (unat (simple_fragments (fragment_meta f))) (meta_checksum (fragment_meta f)) (fragment_index f)"

section \<open>The encoder\<close>

record fountain_encoder =
  fragments :: "bytes list"
  encoder_length :: nat
  encoder_checksum :: bytes
  next_index :: u32

definition encoder_new :: "(bytes \<Rightarrow> bytes) \<Rightarrow> bytes \<Rightarrow> nat \<Rightarrow> fountain_encoder option" where
  "encoder_new sha message max_fragment_length =
     (if message = [] \<or> max_fragment_length = 0 then None
      else Some \<lparr>fragments = partition_data message (fragment_length (length message) max_fragment_length),
                 encoder_length = length message, encoder_checksum = checksum sha message, next_index = 0\<rparr>)"

fun xor_selected :: "bytes list \<Rightarrow> nat list \<Rightarrow> bytes \<Rightarrow> bytes option" where
  "xor_selected fs [] x = Some x"
| "xor_selected fs (i # ks) x =
     (if i < length fs then Option.bind (xor_bytes x (fs ! i)) (xor_selected fs ks) else None)"

definition next_fragment :: "(nat \<Rightarrow> bytes \<Rightarrow> nat list) \<Rightarrow> (bytes \<Rightarrow> bytes) \<Rightarrow> fountain_encoder \<Rightarrow> (fragment \<times> fountain_encoder) option" where
  "next_fragment sample sha e =
     (let index = next_index e;
          indexes = choose_fragments sample sha (length (fragments e)) (encoder_checksum e) index
      in if fragments e = [] then None
         else map_option (\<lambda>x.
           (\<lparr>fragment_meta = metadata_new (length (fragments e)) (encoder_length e) (encoder_checksum e),
             fragment_index = index, fragment_data = x\<rparr>, e\<lparr>next_index := index + 1\<rparr>))
           (xor_selected (fragments e) indexes (replicate (length (fragments e ! 0)) 0)))"

definition fountain_encoder_new :: "('a \<Rightarrow> bytes) \<Rightarrow> (bytes \<Rightarrow> bytes) \<Rightarrow> 'a \<Rightarrow> nat \<Rightarrow> fountain_encoder option" where
  "fountain_encoder_new enc sha x max_fragment_length = encoder_new sha (enc x) max_fragment_length"

section \<open>The decoder\<close>

record fountain_decoder =
  decoded :: "(nat, bytes) btmap"
  mixed :: "(nat list, bytes) btmap"
  decoder_meta :: "encoding_metadata option"

definition decoder_default :: fountain_decoder where
  "decoder_default = \<lparr>decoded = bt_empty, mixed = bt_empty, decoder_meta = None\<rparr>"

definition decoder_message :: "fountain_decoder \<Rightarrow> bytes option" where
  "decoder_message st =
     (case decoder_meta st of
        None \<Rightarrow> None
      | Some m \<Rightarrow>
          if bt_len (decoded st) < unat (simple_fragments m) then None
          else Some (take (unat (message_length m)) (concat (bt_values (decoded st)))))"

text \<open>
  \<open>process_simple\<close>: the queue is the vector with its end first. The inner loop runs over the
  entries of the buffer as they were when it started, and fails where \<open>remove\<close> finds nothing.
\<close>

type_synonym reduction = "(nat, bytes) btmap \<times> (nat list, bytes) btmap \<times> (nat \<times> bytes) list"

definition reduce_entry :: "nat \<Rightarrow> bytes \<Rightarrow> nat list \<times> bytes \<Rightarrow> reduction \<Rightarrow> reduction option" where
  "reduce_entry i s entry st =
     (let (indexes, x) = entry; (dec, buf, queue) = st
      in if bt_get buf indexes = None then None
         else let buf = bt_remove indexes buf; indexes = filter (\<lambda>j. j \<noteq> i) indexes
              in map_option (\<lambda>x.
                   (case indexes of
                      [j] \<Rightarrow> (bt_insert j x dec, buf, (j, x) # queue)
                    | _ \<Rightarrow> (dec, bt_insert indexes x buf, queue)))
                   (xor_bytes x s))"

fun reduce_entries :: "nat \<Rightarrow> bytes \<Rightarrow> (nat list \<times> bytes) list \<Rightarrow> reduction \<Rightarrow> reduction option" where
  "reduce_entries i s [] st = Some st"
| "reduce_entries i s (e # es) st = Option.bind (reduce_entry i s e st) (reduce_entries i s es)"

definition entries_with :: "nat \<Rightarrow> (nat list, bytes) btmap \<Rightarrow> (nat list \<times> bytes) list" where
  "entries_with i buf = filter (\<lambda>e. i \<in> set (fst e)) (entries buf)"

definition reduction_size :: "reduction \<Rightarrow> nat" where
  "reduction_size st = (case st of (dec, buf, queue) \<Rightarrow> 2 * bt_len buf + length queue)"

lemma case_single: "(case ks of [j] \<Rightarrow> f j | _ \<Rightarrow> g) = (if length ks = 1 then f (hd ks) else g)"
  by (auto split: list.splits)

lemma reduce_entry_eq:
  "reduce_entry i s (ks, x) (dec, buf, queue) = Some st' \<longleftrightarrow>
     (\<exists>y z. bt_get buf ks = Some y \<and> xor_bytes x s = Some z \<and>
       st' = (let ks' = filter (\<lambda>j. j \<noteq> i) ks
              in if length ks' = 1 then (bt_insert (hd ks') z dec, bt_remove ks buf, (hd ks', z) # queue)
                 else (dec, bt_insert ks' z (bt_remove ks buf), queue)))"
  unfolding reduce_entry_def Let_def prod.case case_single by auto

lemma reduce_entry_size: "reduce_entry i s e st = Some st' \<Longrightarrow> reduction_size st' \<le> reduction_size st"
proof (cases e; cases st)
  fix ks x dec buf queue
  assume e: "e = (ks, x)" and st: "st = (dec, buf, queue)" and r: "reduce_entry i s e st = Some st'"
  then obtain y z where y: "bt_get buf ks = Some y" and
    st': "st' = (let ks' = filter (\<lambda>j. j \<noteq> i) ks
              in if length ks' = 1 then (bt_insert (hd ks') z dec, bt_remove ks buf, (hd ks', z) # queue)
                 else (dec, bt_insert ks' z (bt_remove ks buf), queue))"
    by (auto simp: reduce_entry_eq)
  show "reduction_size st' \<le> reduction_size st"
    using bt_len_remove [OF y] bt_len_replace [OF y, of "filter (\<lambda>j. j \<noteq> i) ks" z]
    by (simp add: st st' Let_def reduction_size_def)
qed

lemma reduce_entries_size: "reduce_entries i s es st = Some st' \<Longrightarrow> reduction_size st' \<le> reduction_size st"
proof (induction es arbitrary: st)
  case (Cons e es)
  then obtain st1 where "reduce_entry i s e st = Some st1" "reduce_entries i s es st1 = Some st'"
    by (auto simp: bind_eq_Some_conv)
  then show ?case using reduce_entry_size Cons.IH le_trans by blast
qed simp

function process_queue :: "reduction \<Rightarrow> ((nat, bytes) btmap \<times> (nat list, bytes) btmap) option" where
  "process_queue (dec, buf, []) = Some (dec, buf)"
| "process_queue (dec, buf, (i, s) # queue) =
     (case reduce_entries i s (entries_with i buf) (dec, buf, queue) of None \<Rightarrow> None | Some st \<Rightarrow> process_queue st)"
  by pat_completeness auto
termination
proof (relation "measure reduction_size")
  fix dec buf i s queue st
  assume "reduce_entries i s (entries_with i buf) (dec, buf, queue) = Some st"
  from reduce_entries_size [OF this] show "(st, dec, buf, (i, s) # queue) \<in> measure reduction_size"
    by (simp add: reduction_size_def [of "(dec, buf, _)"])
qed simp

definition process_simple :: "nat \<Rightarrow> bytes \<Rightarrow> fountain_decoder \<Rightarrow> fountain_decoder option" where
  "process_simple i x st =
     (let dec = bt_insert i x (decoded st)
      in map_option (\<lambda>(dec, buf). st\<lparr>decoded := dec, mixed := buf\<rparr>) (process_queue (dec, mixed st, rev (entries dec))))"

fun xor_known :: "(nat, bytes) btmap \<Rightarrow> nat list \<Rightarrow> bytes \<Rightarrow> bytes option" where
  "xor_known dec [] x = Some x"
| "xor_known dec (k # ks) x =
     (case bt_get dec k of None \<Rightarrow> None | Some s \<Rightarrow> Option.bind (xor_bytes x s) (xor_known dec ks))"

definition process_complex :: "nat list \<Rightarrow> bytes \<Rightarrow> fountain_decoder \<Rightarrow> fountain_decoder option" where
  "process_complex indexes x st =
     (let to_remove = filter (\<lambda>i. bt_has (decoded st) i) indexes
      in if length indexes = length to_remove then Some st
         else map_option (\<lambda>x.
           (case filter (\<lambda>i. i \<notin> set to_remove) indexes of
              [j] \<Rightarrow> st\<lparr>decoded := bt_insert j x (decoded st)\<rparr>
            | ks \<Rightarrow> st\<lparr>mixed := bt_insert ks x (mixed st)\<rparr>))
           (xor_known (decoded st) to_remove x))"

definition receive_fragment :: "(nat \<Rightarrow> bytes \<Rightarrow> nat list) \<Rightarrow> (bytes \<Rightarrow> bytes) \<Rightarrow> fragment \<Rightarrow> fountain_decoder \<Rightarrow>
    ((fountain_error + bytes option) \<times> fountain_decoder) option" where
  "receive_fragment sample sha f st =
     (case decoder_message st of
        Some x \<Rightarrow> Some (Inr (Some x), st)
      | None \<Rightarrow>
          if \<not> meta_verify (fragment_meta f) then Some (Inl InvalidFragment, st)
          else if length (fragment_data f) \<noteq> meta_fragment_length (fragment_meta f) then Some (Inl InvalidFragment, st)
          else if (case decoder_meta st of None \<Rightarrow> False | Some m \<Rightarrow> m \<noteq> fragment_meta f) then Some (Inl InconsistentFragment, st)
          else let st = st\<lparr>decoder_meta := Some (fragment_meta f)\<rparr>
               in map_option (\<lambda>st. (Inr (decoder_message st), st))
                    (case fragment_indexes sample sha f of
                       [i] \<Rightarrow> process_simple i (fragment_data f) st
                     | indexes \<Rightarrow> process_complex indexes (fragment_data f) st))"

text \<open>\<open>FountainDecoder::add_fragment\<close>.\<close>

definition add_fragment :: "(nat \<Rightarrow> bytes \<Rightarrow> nat list) \<Rightarrow> (bytes \<Rightarrow> bytes) \<Rightarrow> 'a decoder \<Rightarrow> fragment \<Rightarrow> fountain_decoder \<Rightarrow>
    ('a option \<times> fountain_decoder) option" where
  "add_fragment sample sha d f st =
     (case receive_fragment sample sha f st of
        None \<Rightarrow> None
      | Some (Inr None, st) \<Rightarrow> Some (None, st)
      | Some (Inr (Some b), st) \<Rightarrow>
          (case consensus_decode d b of Some x \<Rightarrow> Some (Some x, st) | None \<Rightarrow> Some (None, decoder_default))
      | Some (Inl _, st) \<Rightarrow> Some (None, decoder_default))"

end
