(* ===== verification/Fountain_Laws.thy ===== *)
theory Fountain_Laws
  imports Fountain
begin

unbundle bit_operations_syntax

text \<open>
  What the decoder keeps: the loops of the decoder preserve any property of a selection and its sum
  that survives striking out a known fragment, and they never fail under such a property. The two
  instances are the lengths, which hold whatever arrives, and the sums of the fragments of one message.

  The fragments of one message: how the encoder cuts it up, what the fragments it emits hold, and that
  the decoder only ever holds sums of the pieces of that message.
\<close>

section \<open>The interface of the loops\<close>

definition holding :: "(nat list \<Rightarrow> bytes \<Rightarrow> bool) \<Rightarrow> (nat, bytes) btmap \<Rightarrow> (nat list, bytes) btmap \<Rightarrow> bool" where
  "holding holds dec buf \<longleftrightarrow>
     (\<forall>k x. bt_get dec k = Some x \<longrightarrow> holds [k] x) \<and> (\<forall>ks x. bt_get buf ks = Some x \<longrightarrow> holds ks x)"

lemma holding_empty [simp]: "holding holds bt_empty bt_empty"
  by (simp add: holding_def)

lemma holding_dec: "holding holds dec buf \<Longrightarrow> holds [k] x \<Longrightarrow> holding holds (bt_insert k x dec) buf"
  by (simp add: holding_def)

lemma holding_buf: "holding holds dec buf \<Longrightarrow> holds ks x \<Longrightarrow> holding holds dec (bt_insert ks x buf)"
  by (simp add: holding_def)

lemma holding_remove: "holding holds dec buf \<Longrightarrow> holding holds dec (bt_remove ks buf)"
  by (simp add: holding_def)

lemma holding_entries: "holding holds dec buf \<Longrightarrow> \<forall>(k, x) \<in> set (rev (entries dec)). holds [k] x"
  by (auto simp: holding_def bt_get_Some_iff)

definition grows :: "('k::linorder, 'v) btmap \<Rightarrow> ('k, 'v) btmap \<Rightarrow> bool" where
  "grows m m' \<longleftrightarrow> set (bt_keys m) \<subseteq> set (bt_keys m')"

lemma grows_refl [simp]: "grows m m"
  by (simp add: grows_def)

lemma grows_trans [trans]: "grows m m' \<Longrightarrow> grows m' m'' \<Longrightarrow> grows m m''"
  by (auto simp: grows_def)

lemma grows_insert [simp]: "grows m (bt_insert k v m)"
  by (auto simp: grows_def set_bt_keys)

locale payload =
  fixes holds :: "nat list \<Rightarrow> bytes \<Rightarrow> bool"
  assumes strike: "holds ks x \<Longrightarrow> holds [i] s \<Longrightarrow> i \<in> set ks \<Longrightarrow> \<exists>z. xor_bytes x s = Some z \<and> holds (filter (\<lambda>j. j \<noteq> i) ks) z"
begin

definition red_ok :: "reduction \<Rightarrow> bool" where
  "red_ok st \<longleftrightarrow> (case st of (dec, buf, queue) \<Rightarrow> holding holds dec buf \<and> (\<forall>(k, x) \<in> set queue. holds [k] x))"

lemma reduce_entry_ok:
  assumes "red_ok (dec, buf, queue)" "holds [i] s" "bt_get buf ks = Some x" "i \<in> set ks"
  shows "\<exists>dec' buf' queue'. reduce_entry i s (ks, x) (dec, buf, queue) = Some (dec', buf', queue') \<and>
    red_ok (dec', buf', queue') \<and> grows dec dec' \<and> (\<forall>js. i \<in> set js \<longrightarrow> js \<noteq> ks \<longrightarrow> bt_get buf' js = bt_get buf js)"
proof -
  let ?ks = "filter (\<lambda>j. j \<noteq> i) ks"
  have h: "holding holds dec buf" "\<forall>(k, x) \<in> set queue. holds [k] x" using assms(1) by (simp_all add: red_ok_def)
  have "holds ks x" using h(1) assms(3) by (simp add: holding_def)
  from strike [OF this assms(2,4)] obtain z where z: "xor_bytes x s = Some z" "holds ?ks z" by blast
  show ?thesis
  proof (cases "length ?ks = 1")
    case True
    then have "?ks = [hd ?ks]" by (metis One_nat_def length_0_conv length_Suc_conv list.sel(1))
    then have "holds [hd ?ks] z" using z(2) by metis
    moreover have "reduce_entry i s (ks, x) (dec, buf, queue) = Some (bt_insert (hd ?ks) z dec, bt_remove ks buf, (hd ?ks, z) # queue)"
      using assms(3) z(1) True by (simp add: reduce_entry_eq Let_def)
    ultimately show ?thesis using h by (auto simp: red_ok_def holding_dec holding_remove)
  next
    case False
    have "reduce_entry i s (ks, x) (dec, buf, queue) = Some (dec, bt_insert ?ks z (bt_remove ks buf), queue)"
      using assms(3) z(1) False by (simp add: reduce_entry_eq Let_def)
    moreover have "bt_get (bt_insert ?ks z (bt_remove ks buf)) js = bt_get buf js" if "i \<in> set js" "js \<noteq> ks" for js
      using that by auto
    ultimately show ?thesis using h z(2) by (auto simp: red_ok_def holding_buf holding_remove)
  qed
qed

lemma reduce_entries_ok:
  assumes "red_ok (dec, buf, queue)" "holds [i] s" "distinct (map fst es)"
    "\<forall>(ks, x) \<in> set es. i \<in> set ks \<and> bt_get buf ks = Some x"
  shows "\<exists>dec' buf' queue'. reduce_entries i s es (dec, buf, queue) = Some (dec', buf', queue') \<and>
    red_ok (dec', buf', queue') \<and> grows dec dec'"
  using assms
proof (induction es arbitrary: dec buf queue)
  case (Cons e es)
  obtain ks x where e: "e = (ks, x)" by (cases e)
  obtain dec1 buf1 queue1 where 1: "reduce_entry i s (ks, x) (dec, buf, queue) = Some (dec1, buf1, queue1)"
    "red_ok (dec1, buf1, queue1)" "grows dec dec1" "\<forall>js. i \<in> set js \<longrightarrow> js \<noteq> ks \<longrightarrow> bt_get buf1 js = bt_get buf js"
    using reduce_entry_ok [OF Cons.prems(1,2), of ks x] Cons.prems(4) e by auto
  have "\<forall>(ks, x) \<in> set es. i \<in> set ks \<and> bt_get buf1 ks = Some x"
  proof clarify
    fix js y assume m: "(js, y) \<in> set es"
    then have "js \<noteq> ks" using Cons.prems(3) e by (metis distinct.simps(2) fst_conv image_eqI list.map(2) list.set_map)
    then show "i \<in> set js \<and> bt_get buf1 js = Some y" using m 1(4) Cons.prems(4) by auto
  qed
  from Cons.IH [OF 1(2) Cons.prems(2) _ this] Cons.prems(3)
  obtain dec2 buf2 queue2 where 2: "reduce_entries i s es (dec1, buf1, queue1) = Some (dec2, buf2, queue2)"
    "red_ok (dec2, buf2, queue2)" "grows dec1 dec2"
    by auto
  then show ?case using 1 e grows_trans by auto
qed auto

lemma entries_with_ok: "distinct (map fst (entries_with i buf))" "\<forall>(ks, x) \<in> set (entries_with i buf). i \<in> set ks \<and> bt_get buf ks = Some x"
  by (auto simp: entries_with_def distinct_map_filter bt_get_Some_iff)

lemma process_queue_ok:
  "red_ok st \<Longrightarrow> \<exists>dec' buf'. process_queue st = Some (dec', buf') \<and> holding holds dec' buf' \<and> grows (fst st) dec'"
proof (induction st rule: process_queue.induct)
  case (1 dec buf)
  then show ?case by (simp add: red_ok_def)
next
  case (2 dec buf i s queue)
  have "red_ok (dec, buf, queue)" "holds [i] s" using "2.prems" by (simp_all add: red_ok_def)
  from reduce_entries_ok [OF this entries_with_ok] obtain dec' buf' queue' where
    r: "reduce_entries i s (entries_with i buf) (dec, buf, queue) = Some (dec', buf', queue')" "red_ok (dec', buf', queue')" "grows dec dec'"
    by blast
  from "2.IH" [OF r(1,2)] r(1,3) grows_trans show ?case by auto
qed

lemma process_simple_ok:
  assumes "holding holds (decoded st) (mixed st)" "holds [i] x"
  shows "\<exists>dec buf. process_simple i x st = Some (st\<lparr>decoded := dec, mixed := buf\<rparr>) \<and> holding holds dec buf \<and>
    grows (decoded st) dec \<and> i \<in> set (bt_keys dec)"
proof -
  let ?dec = "bt_insert i x (decoded st)"
  have h: "holding holds ?dec (mixed st)" using assms by (rule holding_dec)
  then have "\<forall>(k, y) \<in> set (rev (entries ?dec)). holds [k] y" by (rule holding_entries)
  with h have "red_ok (?dec, mixed st, rev (entries ?dec))" unfolding red_ok_def by blast
  from process_queue_ok [OF this] obtain dec buf where
    q: "process_queue (?dec, mixed st, rev (entries ?dec)) = Some (dec, buf)" "holding holds dec buf" "grows ?dec dec"
    by auto
  moreover have "i \<in> set (bt_keys ?dec)" by (simp add: set_bt_keys)
  ultimately show ?thesis using grows_trans [OF grows_insert q(3)]
    unfolding process_simple_def Let_def q(1) by (auto simp: grows_def)
qed

lemma xor_known_ok:
  assumes "holds ks x" "\<forall>i \<in> set rs. i \<in> set ks \<and> (\<exists>s. bt_get dec i = Some s \<and> holds [i] s)" "distinct rs"
  shows "\<exists>z. xor_known dec rs x = Some z \<and> holds (filter (\<lambda>j. j \<notin> set rs) ks) z"
  using assms
proof (induction rs arbitrary: ks x)
  case (Cons r rs)
  then obtain s where s: "bt_get dec r = Some s" "holds [r] s" "r \<in> set ks" by auto
  from strike [OF Cons.prems(1) s(2,3)] obtain z where z: "xor_bytes x s = Some z" "holds (filter (\<lambda>j. j \<noteq> r) ks) z" by blast
  have "\<forall>i \<in> set rs. i \<in> set (filter (\<lambda>j. j \<noteq> r) ks) \<and> (\<exists>s. bt_get dec i = Some s \<and> holds [i] s)"
    using Cons.prems(2,3) by auto
  from Cons.IH [OF z(2) this] Cons.prems(3) obtain y where
    y: "xor_known dec rs z = Some y" "holds (filter (\<lambda>j. j \<notin> set rs) (filter (\<lambda>j. j \<noteq> r) ks)) y"
    by auto
  have "filter (\<lambda>j. j \<notin> set rs) (filter (\<lambda>j. j \<noteq> r) ks) = filter (\<lambda>j. j \<notin> set (r # rs)) ks"
    by (simp add: conj_commute)
  then show ?case using y s(1) z(1) by simp
qed simp

lemma process_complex_ok:
  assumes "holding holds (decoded st) (mixed st)" "holds ks x" "distinct ks"
  shows "\<exists>dec buf. process_complex ks x st = Some (st\<lparr>decoded := dec, mixed := buf\<rparr>) \<and> holding holds dec buf \<and> grows (decoded st) dec"
proof -
  let ?R = "filter (\<lambda>i. bt_has (decoded st) i) ks" and ?ks = "filter (\<lambda>i. i \<notin> set (filter (\<lambda>i. bt_has (decoded st) i) ks)) ks"
  have "\<forall>i \<in> set ?R. i \<in> set ks \<and> (\<exists>s. bt_get (decoded st) i = Some s \<and> holds [i] s)"
    using assms(1) by (auto simp: bt_has_def holding_def)
  from xor_known_ok [OF assms(2) this] assms(3) obtain z where z: "xor_known (decoded st) ?R x = Some z" "holds ?ks z" by auto
  show ?thesis
  proof (cases "length ks = length ?R")
    case True
    then have "process_complex ks x st = Some (st\<lparr>decoded := decoded st, mixed := mixed st\<rparr>)"
      unfolding process_complex_def Let_def by simp
    then show ?thesis using assms(1) grows_refl by blast
  next
    case False
    then have p: "process_complex ks x st = Some (if length ?ks = 1 then st\<lparr>decoded := bt_insert (hd ?ks) z (decoded st)\<rparr>
        else st\<lparr>mixed := bt_insert ?ks z (mixed st)\<rparr>)"
      unfolding process_complex_def Let_def z(1) if_not_P [OF False] option.map by (simp split: list.split)
    show ?thesis
    proof (cases "length ?ks = 1")
      case True
      then have "?ks = [hd ?ks]" by (metis One_nat_def length_0_conv length_Suc_conv list.sel(1))
      then have "holds [hd ?ks] z" using z(2) by metis
      from holding_dec [OF assms(1) this] show ?thesis unfolding p if_P [OF True] by (intro exI conjI grows_insert) auto
    next
      case False
      from holding_buf [OF assms(1) z(2)] show ?thesis unfolding p if_not_P [OF False] by (intro exI conjI grows_refl) auto
    qed
  qed
qed

lemma receive_ok:
  assumes m: "fragment_meta f = m" "meta_verify m" "length (fragment_data f) = meta_fragment_length m"
    and st: "decoder_meta st = None \<or> decoder_meta st = Some m" "holding holds (decoded st) (mixed st)" "decoder_message st = None"
    and f: "holds (fragment_indexes sample sha f) (fragment_data f)" "distinct (fragment_indexes sample sha f)"
  shows "\<exists>dec buf. let st' = \<lparr>decoded = dec, mixed = buf, decoder_meta = Some m\<rparr> in
    receive_fragment sample sha f st = Some (Inr (decoder_message st'), st') \<and> holding holds dec buf \<and> grows (decoded st) dec \<and>
    (\<forall>i. fragment_indexes sample sha f = [i] \<longrightarrow> i \<in> set (bt_keys dec))"
proof -
  let ?st = "st\<lparr>decoder_meta := Some m\<rparr>" and ?ks = "fragment_indexes sample sha f"
  have g: "\<not> (case decoder_meta st of None \<Rightarrow> False | Some m' \<Rightarrow> m' \<noteq> fragment_meta f)" using st(1) m(1) by auto
  have r: "receive_fragment sample sha f st = map_option (\<lambda>st. (Inr (decoder_message st), st))
      (case ?ks of [i] \<Rightarrow> process_simple i (fragment_data f) ?st | indexes \<Rightarrow> process_complex indexes (fragment_data f) ?st)"
    using m st(3) g by (simp add: receive_fragment_def Let_def)
  have h: "holding holds (decoded ?st) (mixed ?st)" using st(2) by simp
  have "\<exists>dec buf. (case ?ks of [i] \<Rightarrow> process_simple i (fragment_data f) ?st | indexes \<Rightarrow> process_complex indexes (fragment_data f) ?st)
      = Some (?st\<lparr>decoded := dec, mixed := buf\<rparr>) \<and> holding holds dec buf \<and> grows (decoded st) dec \<and>
      (\<forall>i. ?ks = [i] \<longrightarrow> i \<in> set (bt_keys dec))"
  proof (cases "\<exists>i. ?ks = [i]")
    case True
    then obtain i where i: "?ks = [i]" by blast
    with f(1) have "holds [i] (fragment_data f)" by simp
    from process_simple_ok [OF h this] i show ?thesis by auto
  next
    case False
    have "(case ?ks of [i] \<Rightarrow> process_simple i (fragment_data f) ?st | indexes \<Rightarrow> process_complex indexes (fragment_data f) ?st)
        = process_complex ?ks (fragment_data f) ?st"
      using False by (auto split: list.split)
    then show ?thesis using process_complex_ok [OF h f] False by simp
  qed
  then obtain dec buf where "(case ?ks of [i] \<Rightarrow> process_simple i (fragment_data f) ?st | indexes \<Rightarrow> process_complex indexes (fragment_data f) ?st)
      = Some (?st\<lparr>decoded := dec, mixed := buf\<rparr>)" "holding holds dec buf" "grows (decoded st) dec"
      "\<forall>i. ?ks = [i] \<longrightarrow> i \<in> set (bt_keys dec)"
    by blast
  moreover have "?st\<lparr>decoded := dec, mixed := buf\<rparr> = \<lparr>decoded = dec, mixed = buf, decoder_meta = Some m\<rparr>" by simp
  ultimately show ?thesis unfolding r Let_def by (intro exI [of _ dec] exI [of _ buf]) simp
qed

end

section \<open>Lengths\<close>

text \<open>
  What \<open>choose_multiple\<close> promises: distinct indices below the number of fragments, as many as asked
  for, and the degree is at least one.
\<close>

definition sampler_ok :: "(nat \<Rightarrow> bytes \<Rightarrow> nat list) \<Rightarrow> bool" where
  "sampler_ok sample \<longleftrightarrow> (\<forall>n seed. 0 < n \<longrightarrow> distinct (sample n seed) \<and> set (sample n seed) \<subseteq> {..<n} \<and> sample n seed \<noteq> [])"

lemma choose_fragments_ok:
  assumes "sampler_ok sample" "0 < n"
  shows "distinct (choose_fragments sample sha n cs i)" "set (choose_fragments sample sha n cs i) \<subseteq> {..<n}"
  using assms by (auto simp: choose_fragments_def sampler_ok_def)

definition sized :: "nat \<Rightarrow> nat list \<Rightarrow> bytes \<Rightarrow> bool" where
  "sized n ks x \<longleftrightarrow> length x = n"

interpretation sized: payload "sized n" for n
  by unfold_locales (simp add: sized_def xor_bytes_def)

definition decoder_sized :: "fountain_decoder \<Rightarrow> bool" where
  "decoder_sized st \<longleftrightarrow>
     (case decoder_meta st of
        None \<Rightarrow> decoded st = bt_empty \<and> mixed st = bt_empty
      | Some m \<Rightarrow> meta_verify m \<and> holding (sized (meta_fragment_length m)) (decoded st) (mixed st))"

lemma receive_sized:
  assumes s: "sampler_ok sample" and st: "decoder_sized st"
  shows "\<exists>r st'. receive_fragment sample sha f st = Some (r, st') \<and> decoder_sized st'"
proof (cases "decoder_message st = None \<and> meta_verify (fragment_meta f) \<and>
    length (fragment_data f) = meta_fragment_length (fragment_meta f) \<and> (decoder_meta st = None \<or> decoder_meta st = Some (fragment_meta f))")
  case False
  then have "\<exists>r. receive_fragment sample sha f st = Some (r, st)"
    unfolding receive_fragment_def by (auto split: option.splits)
  then show ?thesis using st by blast
next
  case True
  let ?m = "fragment_meta f"
  have n: "0 < unat (simple_fragments ?m)" using True by (simp add: meta_verify_def)
  have h: "holding (sized (meta_fragment_length ?m)) (decoded st) (mixed st)"
    using st True by (auto simp: decoder_sized_def)
  have "sized (meta_fragment_length ?m) (fragment_indexes sample sha f) (fragment_data f)" using True by (simp add: sized_def)
  from sized.receive_ok [OF refl _ _ _ h _ this] True choose_fragments_ok(1) [OF s n]
  show ?thesis by (fastforce simp: fragment_indexes_def decoder_sized_def Let_def)
qed

section \<open>Cutting the message up\<close>

lemma nat_div_ceil_le_iff: "0 < b \<Longrightarrow> nat_div_ceil a b \<le> k \<longleftrightarrow> a \<le> k * b"
proof -
  assume b: "0 < b"
  have "nat_div_ceil a b \<le> k \<longleftrightarrow> (a + b - 1) div b < k + 1" by (simp add: nat_div_ceil_def less_Suc_eq_le)
  also have "\<dots> \<longleftrightarrow> a + b - 1 < (k + 1) * b" using b by (rule div_less_iff_less_mult)
  also have "\<dots> \<longleftrightarrow> a \<le> k * b" using b by (auto simp: algebra_simps)
  finally show ?thesis .
qed

lemma nat_div_ceil_pos: "0 < a \<Longrightarrow> 0 < b \<Longrightarrow> 0 < nat_div_ceil a b"
  using nat_div_ceil_le_iff [of b a 0] by linarith

lemma le_nat_div_ceil: "0 < b \<Longrightarrow> a \<le> nat_div_ceil a b * b"
  using nat_div_ceil_le_iff by blast

lemma nat_div_ceil_le: "0 < b \<Longrightarrow> nat_div_ceil a b \<le> a"
  using nat_div_ceil_le_iff [of b a a] by simp

text \<open>The length in the metadata is the length the encoder cut with.\<close>

lemma fragment_length_agrees:
  assumes "0 < L" "0 < max_len"
  defines "n \<equiv> fragment_length L max_len"
  shows "0 < n" "n \<le> L" "nat_div_ceil L (nat_div_ceil L n) = n"
proof -
  define k where "k = nat_div_ceil L max_len"
  have k: "0 < k" unfolding k_def using assms by (intro nat_div_ceil_pos)
  have n: "n = nat_div_ceil L k" by (simp add: n_def fragment_length_def k_def)
  show n0: "0 < n" unfolding n using assms(1) k by (rule nat_div_ceil_pos)
  show "n \<le> L" unfolding n using k by (rule nat_div_ceil_le)
  define c where "c = nat_div_ceil L n"
  have c: "0 < c" unfolding c_def using assms(1) n0 by (rule nat_div_ceil_pos)
  have "L \<le> k * n" using le_nat_div_ceil [OF k, of L] unfolding n [symmetric] by (simp add: mult.commute)
  then have "c \<le> k" unfolding c_def nat_div_ceil_le_iff [OF n0] .
  have "nat_div_ceil L c \<le> n" unfolding nat_div_ceil_le_iff [OF c] using le_nat_div_ceil [OF n0, of L] by (simp add: c_def mult.commute)
  moreover have "n \<le> nat_div_ceil L c"
  proof -
    have "L \<le> nat_div_ceil L c * c" by (rule le_nat_div_ceil [OF c])
    also have "\<dots> \<le> nat_div_ceil L c * k" using \<open>c \<le> k\<close> by simp
    finally show ?thesis unfolding n nat_div_ceil_le_iff [OF k] .
  qed
  ultimately show "nat_div_ceil L (nat_div_ceil L n) = n" unfolding c_def by simp
qed

lemma concat_chunks: "0 < n \<Longrightarrow> concat (chunks n xs) = xs"
proof (induction n xs rule: chunks.induct)
  case (1 n xs)
  then show ?case by (subst chunks.simps) simp
qed

lemma length_chunks: "0 < n \<Longrightarrow> length (chunks n xs) = nat_div_ceil (length xs) n"
proof (induction n xs rule: chunks.induct)
  case (1 n xs)
  show ?case
  proof (cases "xs = []")
    case True
    then show ?thesis using "1.prems" by (simp add: chunks.simps nat_div_ceil_def)
  next
    case False
    then have pos: "0 < length xs" by simp
    have "nat_div_ceil (length xs) n = nat_div_ceil (length (drop n xs)) n + 1"
    proof (cases "length xs < n")
      case True
      obtain m where "length xs = Suc m" using pos gr0_implies_Suc by blast
      then have "(length xs + n - 1) div n = 1" using True by (intro div_nat_eqI) simp_all
      then show ?thesis using True "1.prems" by (simp add: nat_div_ceil_def)
    next
      case False
      then have e: "length xs + n - 1 = (length (drop n xs) + n - 1) + n" unfolding length_drop using "1.prems" by linarith
      show ?thesis unfolding nat_div_ceil_def e using "1.prems" by (subst div_add_self2) simp_all
    qed
    moreover have "length (chunks n xs) = length (chunks n (drop n xs)) + 1"
      using "1.prems" False by (subst chunks.simps) simp
    moreover have "length (chunks n (drop n xs)) = nat_div_ceil (length (drop n xs)) n"
      using "1.IH" [OF _ "1.prems"] "1.prems" False by simp
    ultimately show ?thesis by simp
  qed
qed

lemma chunks_sizes: "0 < n \<Longrightarrow> n dvd length xs \<Longrightarrow> \<forall>c \<in> set (chunks n xs). length c = n"
proof (induction n xs rule: chunks.induct)
  case (1 n xs)
  show ?case
  proof (cases "xs = []")
    case True
    then show ?thesis by (simp add: chunks.simps)
  next
    case False
    then have le: "n \<le> length xs" using "1.prems" by (simp add: dvd_imp_le)
    have c: "\<not> (n = 0 \<or> xs = [])" using False "1.prems" by simp
    have "n dvd length (drop n xs)" using "1.prems"(2) le dvd_diff_nat [of n "length xs" n] by simp
    from "1.IH" [OF c "1.prems"(1) this] have "\<forall>c \<in> set (chunks n (drop n xs)). length c = n" .
    moreover have "chunks n xs = take n xs # chunks n (drop n xs)" using c by (subst chunks.simps) (rule if_not_P)
    moreover have "length (take n xs) = n" using le by simp
    ultimately show ?thesis by simp
  qed
qed

lemma partition_spec:
  assumes "0 < n"
  shows "length (partition_data x n) = nat_div_ceil (length x) n" "\<forall>c \<in> set (partition_data x n). length c = n"
    "take (length x) (concat (partition_data x n)) = x"
proof -
  let ?p = "(n - length x mod n) mod n"
  have dvd: "n dvd length x + ?p"
  proof (cases "length x mod n = 0")
    case True
    then show ?thesis by auto
  next
    case False
    then have "?p = n - length x mod n" using assms by simp
    then have "length x + ?p = (length x div n + 1) * n"
      using div_mult_mod_eq [of "length x" n] mod_less_divisor [OF assms, of "length x"] unfolding add_mult_distrib by linarith
    then show ?thesis by simp
  qed
  have len: "length (partition_data x n) = nat_div_ceil (length x + ?p) n"
    unfolding partition_data_def length_chunks [OF assms] length_append length_replicate ..
  show "length (partition_data x n) = nat_div_ceil (length x) n"
  proof -
    have "?p < n" using assms by simp
    have "nat_div_ceil (length x + ?p) n \<le> nat_div_ceil (length x) n"
    proof -
      obtain q where q: "length x + ?p = n * q" using dvd by blast
      have "n * q < n * (nat_div_ceil (length x) n + 1)"
        using le_nat_div_ceil [OF assms, of "length x"] \<open>?p < n\<close> q by (simp add: algebra_simps)
      then have "q < nat_div_ceil (length x) n + 1" unfolding nat_mult_less_cancel_disj ..
      then have "q \<le> nat_div_ceil (length x) n" by simp
      then show ?thesis unfolding nat_div_ceil_le_iff [OF assms] q by (simp add: mult.commute)
    qed
    moreover have "nat_div_ceil (length x) n \<le> nat_div_ceil (length x + ?p) n"
      unfolding nat_div_ceil_le_iff [OF assms] using le_nat_div_ceil [OF assms, of "length x + ?p"] by linarith
    ultimately show ?thesis unfolding len by simp
  qed
  show "\<forall>c \<in> set (partition_data x n). length c = n"
    unfolding partition_data_def using assms dvd by (intro chunks_sizes) simp_all
  show "take (length x) (concat (partition_data x n)) = x"
    unfolding partition_data_def concat_chunks [OF assms] by simp
qed

section \<open>Sums of fragments\<close>

definition xor_sum :: "(nat \<Rightarrow> u8) \<Rightarrow> nat list \<Rightarrow> u8" where
  "xor_sum f ks = foldr (\<lambda>i a. f i XOR a) ks 0"

definition sum_of :: "nat \<Rightarrow> bytes list \<Rightarrow> nat list \<Rightarrow> bytes" where
  "sum_of n fs ks = map (\<lambda>p. xor_sum (\<lambda>i. fs ! i ! p) ks) [0..<n]"

lemma xor_sum_simps [simp]: "xor_sum f [] = 0" "xor_sum f (i # ks) = f i XOR xor_sum f ks"
  by (simp_all add: xor_sum_def)

lemma xor_sum_strike: "distinct ks \<Longrightarrow> i \<in> set ks \<Longrightarrow> xor_sum f ks XOR f i = xor_sum f (filter (\<lambda>j. j \<noteq> i) ks)"
proof (induction ks)
  case (Cons k ks)
  show ?case
  proof (cases "k = i")
    case True
    then have "filter (\<lambda>j. j \<noteq> i) ks = ks" using Cons.prems(1) by (auto intro: filter_True)
    then show ?thesis using True by (simp add: xor.commute xor.left_commute)
  next
    case False
    then show ?thesis using Cons by (simp add: xor.assoc)
  qed
qed simp

lemma length_sum_of [simp]: "length (sum_of n fs ks) = n"
  by (simp add: sum_of_def)

lemma nth_sum_of: "p < n \<Longrightarrow> sum_of n fs ks ! p = xor_sum (\<lambda>i. fs ! i ! p) ks"
  by (simp add: sum_of_def)

lemma sum_of_single: "length (fs ! i) = n \<Longrightarrow> sum_of n fs [i] = fs ! i"
  by (intro nth_equalityI) (simp_all add: nth_sum_of)

lemma xor_bytes_nth: "length x = n \<Longrightarrow> length y = n \<Longrightarrow> xor_bytes x y = Some (map (\<lambda>p. x ! p XOR y ! p) [0..<n])"
  by (auto simp: xor_bytes_def intro: nth_equalityI)

definition sums :: "nat \<Rightarrow> bytes list \<Rightarrow> nat list \<Rightarrow> bytes \<Rightarrow> bool" where
  "sums n fs ks x \<longleftrightarrow> (\<forall>g \<in> set fs. length g = n) \<and> distinct ks \<and> set ks \<subseteq> {..<length fs} \<and> x = sum_of n fs ks"

lemma sums_strike:
  assumes "sums n fs ks x" "sums n fs [i] s" "i \<in> set ks"
  shows "\<exists>z. xor_bytes x s = Some z \<and> sums n fs (filter (\<lambda>j. j \<noteq> i) ks) z"
proof -
  have "xor_bytes x s = Some (sum_of n fs (filter (\<lambda>j. j \<noteq> i) ks))"
    using assms xor_sum_strike [of ks i]
    by (subst xor_bytes_nth [of _ n]) (auto simp: sums_def nth_sum_of sum_of_def)
  then show ?thesis using assms(1) by (auto simp: sums_def)
qed

interpretation sums: payload "sums n fs" for n fs
  by unfold_locales (rule sums_strike)

lemma xor_selected_sum:
  assumes "\<forall>g \<in> set fs. length g = n" "set ks \<subseteq> {..<length fs}" "length x = n"
  shows "xor_selected fs ks x = Some (map (\<lambda>p. x ! p XOR xor_sum (\<lambda>i. fs ! i ! p) ks) [0..<n])"
  using assms(2,3)
proof (induction ks arbitrary: x)
  case Nil
  then show ?case by (auto intro: nth_equalityI)
next
  case (Cons k ks)
  then have k: "k < length fs" "length (fs ! k) = n" using assms(1) by auto
  have "xor_selected fs (k # ks) x = xor_selected fs ks (map (\<lambda>p. x ! p XOR fs ! k ! p) [0..<n])"
    using k Cons.prems by (simp add: xor_bytes_nth)
  also have "\<dots> = Some (map (\<lambda>p. x ! p XOR xor_sum (\<lambda>i. fs ! i ! p) (k # ks)) [0..<n])"
    using Cons.prems by (subst Cons.IH) (auto simp: xor.assoc)
  finally show ?case .
qed

section \<open>What the decoder reads off\<close>

lemma complete_message:
  assumes "holding (sums n fs) dec buf" "length fs \<le> bt_len dec"
  shows "bt_values dec = fs"
proof -
  have sub: "set (bt_keys dec) \<subseteq> {..<length fs}" using assms(1) by (auto simp: holding_def sums_def set_bt_keys)
  have "card (set (bt_keys dec)) = bt_len dec" by (simp add: bt_len_card set_bt_keys)
  then have "set (bt_keys dec) = {..<length fs}"
    using assms(2) sub card_mono [OF _ sub] by (intro card_subset_eq) simp_all
  moreover have "sorted (bt_keys dec)" using bt_keys_strict_sorted strict_sorted_iff by blast
  ultimately have k: "bt_keys dec = [0..<length fs]"
    by (intro sorted_distinct_set_unique) (simp_all add: atLeast0LessThan)
  have "the (bt_get dec i) = fs ! i" if "i < length fs" for i
  proof -
    have "i \<in> set (bt_keys dec)" using that k by simp
    then obtain x where x: "bt_get dec i = Some x" by (auto simp: set_bt_keys)
    then have "sums n fs [i] x" using assms(1) by (simp add: holding_def)
    then show ?thesis using x that by (simp add: sums_def sum_of_single)
  qed
  then show ?thesis unfolding bt_values_keys k by (intro nth_equalityI) simp_all
qed

end
