(* ===== verification/Fountain_Claims.thy ===== *)
theory Fountain_Claims
  imports Fountain_Laws
begin

text \<open>
  What the fountain code is for: the decoder puts the message together from whatever part of the
  stream it sees, and no fragment, whoever made it, makes it panic.
\<close>

section \<open>The stream of an encoder\<close>

definition pieces :: "bytes \<Rightarrow> nat \<Rightarrow> bytes list" where
  "pieces x max_len = partition_data x (fragment_length (length x) max_len)"

definition stream_meta :: "(bytes \<Rightarrow> bytes) \<Rightarrow> bytes \<Rightarrow> nat \<Rightarrow> encoding_metadata" where
  "stream_meta sha x max_len = metadata_new (length (pieces x max_len)) (length x) (checksum sha x)"

definition stream_fragment :: "(nat \<Rightarrow> bytes \<Rightarrow> nat list) \<Rightarrow> (bytes \<Rightarrow> bytes) \<Rightarrow> bytes \<Rightarrow> nat \<Rightarrow> u32 \<Rightarrow> fragment" where
  "stream_fragment sample sha x max_len i =
     \<lparr>fragment_meta = stream_meta sha x max_len, fragment_index = i,
      fragment_data = sum_of (fragment_length (length x) max_len) (pieces x max_len)
        (choose_fragments sample sha (length (pieces x max_len)) (checksum sha x) i)\<rparr>"

definition message_ok :: "bytes \<Rightarrow> nat \<Rightarrow> bool" where
  "message_ok x max_len \<longleftrightarrow> x \<noteq> [] \<and> 0 < max_len \<and> length x < 2 ^ 32"

lemma pieces_spec:
  assumes "message_ok x max_len"
  defines "n \<equiv> fragment_length (length x) max_len"
  shows "0 < n" "\<forall>g \<in> set (pieces x max_len). length g = n" "take (length x) (concat (pieces x max_len)) = x"
    "0 < length (pieces x max_len)" "length (pieces x max_len) < 2 ^ 32" "nat_div_ceil (length x) (length (pieces x max_len)) = n"
proof -
  have x: "0 < length x" "0 < max_len" "length x < 2 ^ 32" using assms(1) by (simp_all add: message_ok_def)
  note n = fragment_length_agrees [OF x(1,2), folded n_def]
  show "0 < n" by (rule n(1))
  have l: "length (pieces x max_len) = nat_div_ceil (length x) n"
    unfolding pieces_def n_def [symmetric] by (rule partition_spec(1) [OF n(1)])
  show "\<forall>g \<in> set (pieces x max_len). length g = n" "take (length x) (concat (pieces x max_len)) = x"
    unfolding pieces_def n_def [symmetric] by (rule partition_spec [OF n(1)])+
  show "0 < length (pieces x max_len)" unfolding l using x(1) n(1) by (rule nat_div_ceil_pos)
  show "length (pieces x max_len) < 2 ^ 32" unfolding l using nat_div_ceil_le [OF n(1), of "length x"] x(3) by linarith
  show "nat_div_ceil (length x) (length (pieces x max_len)) = n" unfolding l by (rule n(3))
qed

lemma stream_meta_spec:
  assumes "message_ok x max_len"
  shows "unat (simple_fragments (stream_meta sha x max_len)) = length (pieces x max_len)"
    "unat (message_length (stream_meta sha x max_len)) = length x" "meta_verify (stream_meta sha x max_len)"
    "meta_fragment_length (stream_meta sha x max_len) = fragment_length (length x) max_len"
    "meta_checksum (stream_meta sha x max_len) = checksum sha x"
proof -
  note p = pieces_spec [OF assms]
  have x: "0 < length x" "length x < 2 ^ 32" using assms by (simp_all add: message_ok_def)
  show c: "unat (simple_fragments (stream_meta sha x max_len)) = length (pieces x max_len)"
    using p(5) by (simp add: stream_meta_def metadata_new_def unsigned_of_nat take_bit_nat_eq_self)
  show l: "unat (message_length (stream_meta sha x max_len)) = length x"
    using x(2) by (simp add: stream_meta_def metadata_new_def unsigned_of_nat take_bit_nat_eq_self)
  show f: "meta_fragment_length (stream_meta sha x max_len) = fragment_length (length x) max_len"
    unfolding meta_fragment_length_def c l by (rule p(6))
  show "meta_verify (stream_meta sha x max_len)" unfolding meta_verify_def c l f using p(1,4) x(1) by simp
  show "meta_checksum (stream_meta sha x max_len) = checksum sha x" by (simp add: stream_meta_def metadata_new_def)
qed

lemma stream_indexes:
  assumes "message_ok x max_len"
  shows "fragment_indexes sample sha (stream_fragment sample sha x max_len i) =
    choose_fragments sample sha (length (pieces x max_len)) (checksum sha x) i"
  unfolding fragment_indexes_def by (simp add: stream_fragment_def stream_meta_spec [OF assms])

lemma stream_sums:
  fixes sha :: "bytes \<Rightarrow> bytes" and i :: u32
  assumes "sampler_ok sample" "message_ok x max_len"
  defines "f \<equiv> stream_fragment sample sha x max_len i" and "n \<equiv> fragment_length (length x) max_len"
  shows "sums n (pieces x max_len) (fragment_indexes sample sha f) (fragment_data f)"
  unfolding f_def n_def stream_indexes [OF assms(2)] sums_def
  using choose_fragments_ok [OF assms(1) pieces_spec(4) [OF assms(2)]] pieces_spec(2) [OF assms(2)]
  by (simp add: stream_fragment_def)

lemma encoder_new_spec:
  assumes "message_ok x max_len"
  shows "encoder_new sha x max_len =
    Some \<lparr>fragments = pieces x max_len, encoder_length = length x, encoder_checksum = checksum sha x, next_index = 0\<rparr>"
  using assms by (simp add: encoder_new_def message_ok_def pieces_def)

lemma next_fragment_spec:
  fixes sha :: "bytes \<Rightarrow> bytes"
  assumes "sampler_ok sample" "message_ok x max_len"
  defines "e \<equiv> \<lambda>i. \<lparr>fragments = pieces x max_len, encoder_length = length x, encoder_checksum = checksum sha x, next_index = i\<rparr>"
  shows "next_fragment sample sha (e i) = Some (stream_fragment sample sha x max_len i, e (i + 1))"
proof -
  let ?ks = "choose_fragments sample sha (length (pieces x max_len)) (checksum sha x) i"
  let ?n = "fragment_length (length x) max_len"
  note p = pieces_spec [OF assms(2)]
  have ne: "pieces x max_len \<noteq> []" using p(4) by simp
  then have l: "length (pieces x max_len ! 0) = ?n" using p(2) by simp
  have "xor_selected (pieces x max_len) ?ks (replicate ?n 0) = Some (sum_of ?n (pieces x max_len) ?ks)"
    unfolding xor_selected_sum [OF p(2) choose_fragments_ok(2) [OF assms(1) p(4)] length_replicate] by (simp add: sum_of_def)
  then show ?thesis using ne by (simp add: next_fragment_def e_def l stream_fragment_def stream_meta_def Let_def)
qed

lemma stream_of_encoder:
  fixes sha :: "bytes \<Rightarrow> bytes"
  assumes "sampler_ok sample" "message_ok x max_len"
  defines "e \<equiv> \<lambda>i. \<lparr>fragments = pieces x max_len, encoder_length = length x, encoder_checksum = checksum sha x, next_index = i\<rparr>"
  shows "map_state (\<lambda>_. next_fragment sample sha) [0..<k] (e 0) =
    Some (map (\<lambda>i. stream_fragment sample sha x max_len (of_nat i)) [0..<k], e (of_nat k))"
proof -
  have "map_state (\<lambda>_. next_fragment sample sha) [j..<j + k] (e (of_nat j)) =
    Some (map (\<lambda>i. stream_fragment sample sha x max_len (of_nat i)) [j..<j + k], e (of_nat (j + k)))" for j
  proof (induction k arbitrary: j)
    case (Suc k)
    have "[j..<j + Suc k] = j # [Suc j..<Suc j + k]" by (simp add: upt_conv_Cons)
    moreover have "next_fragment sample sha (e (of_nat j)) = Some (stream_fragment sample sha x max_len (of_nat j), e (of_nat (Suc j)))"
      unfolding e_def using next_fragment_spec [OF assms(1,2), of sha "of_nat j"] by (simp add: add.commute)
    ultimately show ?case
      by (simp only: map_state.simps option.case prod.case Suc.IH [of "Suc j"] option.map list.map) (simp only: add_Suc add_Suc_right)
  qed simp
  from this [of 0] show ?thesis by simp
qed

section \<open>Gathering\<close>

text \<open>
  The state of a decoder that has seen fragments of one stream only, among them the plain fragments
  with the indices \<open>K\<close>.
\<close>

definition gathering :: "bytes list \<Rightarrow> encoding_metadata \<Rightarrow> nat set \<Rightarrow> fountain_decoder \<Rightarrow> bool" where
  "gathering fs m K st \<longleftrightarrow>
     (decoder_meta st = None \<and> K = {} \<or> decoder_meta st = Some m) \<and>
     holding (sums (meta_fragment_length m) fs) (decoded st) (mixed st) \<and>
     (decoder_message st = None \<longrightarrow> K \<subseteq> set (bt_keys (decoded st)))"

lemma gathering_default: "gathering fs m {} decoder_default"
  by (simp add: gathering_def decoder_default_def)

lemma gathering_message:
  assumes "message_ok x max_len" "gathering (pieces x max_len) (stream_meta sha x max_len) K st" "decoder_message st = Some b"
  shows "b = x"
proof -
  note m = stream_meta_spec [OF assms(1), of sha]
  have h: "holding (sums (fragment_length (length x) max_len) (pieces x max_len)) (decoded st) (mixed st)"
    using assms(2) unfolding gathering_def m by blast
  have "decoder_meta st = Some (stream_meta sha x max_len)"
    using assms(2,3) by (cases "decoder_meta st") (auto simp: gathering_def decoder_message_def)
  then have "length (pieces x max_len) \<le> bt_len (decoded st)" "b = take (length x) (concat (bt_values (decoded st)))"
    using assms(3) m by (auto simp: decoder_message_def split: if_splits)
  then show ?thesis using complete_message [OF h] pieces_spec(3) [OF assms(1)] by simp
qed

lemma gathering_complete:
  assumes "message_ok x max_len" "gathering (pieces x max_len) (stream_meta sha x max_len) K st" "{..<length (pieces x max_len)} \<subseteq> K"
  shows "decoder_message st \<noteq> None"
proof
  assume none: "decoder_message st = None"
  have "K \<noteq> {}" using assms(3) pieces_spec(4) [OF assms(1)] by blast
  then have m: "decoder_meta st = Some (stream_meta sha x max_len)" and k: "K \<subseteq> set (bt_keys (decoded st))"
    using assms(2) none by (auto simp: gathering_def)
  have "card {..<length (pieces x max_len)} \<le> card (set (bt_keys (decoded st)))"
    using assms(3) k by (intro card_mono) auto
  then have "length (pieces x max_len) \<le> bt_len (decoded st)" by (simp add: bt_len_card set_bt_keys)
  then show False using none m stream_meta_spec(1) [OF assms(1)] by (simp add: decoder_message_def)
qed

lemma gathering_receive:
  fixes i :: u32
  assumes s: "sampler_ok sample" and x: "message_ok x max_len"
    and st: "gathering (pieces x max_len) (stream_meta sha x max_len) K st"
  defines "f \<equiv> stream_fragment sample sha x max_len i"
  shows "\<exists>st'. receive_fragment sample sha f st = Some (Inr (decoder_message st'), st') \<and>
    gathering (pieces x max_len) (stream_meta sha x max_len) (K \<union> {j. fragment_indexes sample sha f = [j]}) st'"
proof (cases "decoder_message st")
  case (Some b)
  then have "receive_fragment sample sha f st = Some (Inr (decoder_message st), st)" by (simp add: receive_fragment_def)
  moreover have "decoder_meta st \<noteq> None" using Some by (cases "decoder_meta st") (auto simp: decoder_message_def)
  ultimately show ?thesis using st Some by (auto simp: gathering_def)
next
  case None
  let ?m = "stream_meta sha x max_len"
  note m = stream_meta_spec [OF x, of sha] and p = pieces_spec [OF x]
  have fm: "fragment_meta f = ?m" by (simp add: f_def stream_fragment_def)
  have fl: "length (fragment_data f) = meta_fragment_length ?m" unfolding m(4) by (simp add: f_def stream_fragment_def)
  have h: "holding (sums (meta_fragment_length ?m) (pieces x max_len)) (decoded st) (mixed st)"
    and d: "decoder_meta st = None \<or> decoder_meta st = Some ?m" using st by (auto simp: gathering_def)
  have fs: "sums (meta_fragment_length ?m) (pieces x max_len) (fragment_indexes sample sha f) (fragment_data f)"
    unfolding m(4) f_def by (rule stream_sums [OF s x])
  have di: "distinct (fragment_indexes sample sha f)" using fs by (simp add: sums_def)
  from sums.receive_ok [OF fm m(3) fl d h None fs di] obtain dec buf where
    r: "let st' = \<lparr>decoded = dec, mixed = buf, decoder_meta = Some ?m\<rparr> in
      receive_fragment sample sha f st = Some (Inr (decoder_message st'), st') \<and>
      holding (sums (meta_fragment_length ?m) (pieces x max_len)) dec buf \<and> grows (decoded st) dec \<and>
      (\<forall>i. fragment_indexes sample sha f = [i] \<longrightarrow> i \<in> set (bt_keys dec))"
    by blast
  let ?st = "\<lparr>decoded = dec, mixed = buf, decoder_meta = Some ?m\<rparr>"
  have "K \<subseteq> set (bt_keys (decoded st))" using st None by (simp add: gathering_def)
  then have "K \<union> {j. fragment_indexes sample sha f = [j]} \<subseteq> set (bt_keys dec)" using r by (auto simp: Let_def grows_def)
  then show ?thesis using r by (intro exI [of _ ?st]) (simp add: Let_def gathering_def)
qed

lemma gathering_add:
  fixes i :: u32
  assumes s: "sampler_ok sample" and x: "message_ok b max_len" and d: "consensus_decode d b = Some v"
    and st: "gathering (pieces b max_len) (stream_meta sha b max_len) K st"
  defines "f \<equiv> stream_fragment sample sha b max_len i"
  shows "\<exists>st'. add_fragment sample sha d f st = Some (if decoder_message st' = None then None else Some v, st') \<and>
    gathering (pieces b max_len) (stream_meta sha b max_len) (K \<union> {j. fragment_indexes sample sha f = [j]}) st'"
proof -
  obtain st' where r: "receive_fragment sample sha f st = Some (Inr (decoder_message st'), st')"
    "gathering (pieces b max_len) (stream_meta sha b max_len) (K \<union> {j. fragment_indexes sample sha f = [j]}) st'"
    using gathering_receive [OF s x st, of i] unfolding f_def by blast
  have "add_fragment sample sha d f st = Some (if decoder_message st' = None then None else Some v, st')"
    using r(1) gathering_message [OF x r(2)] d by (auto simp: add_fragment_def split: option.split)
  with r(2) show ?thesis by blast
qed

lemma gathering_feed:
  assumes s: "sampler_ok sample" and x: "message_ok b max_len" and d: "consensus_decode d b = Some v"
    and "gathering (pieces b max_len) (stream_meta sha b max_len) K st"
    and "\<forall>g \<in> set gs. \<exists>i. g = stream_fragment sample sha b max_len i"
  shows "\<exists>rs st'. map_state (add_fragment sample sha d) gs st = Some (rs, st') \<and> set rs \<subseteq> {None, Some v} \<and>
    gathering (pieces b max_len) (stream_meta sha b max_len) (K \<union> {j. \<exists>g \<in> set gs. fragment_indexes sample sha g = [j]}) st' \<and>
    (gs \<noteq> [] \<longrightarrow> decoder_message st' \<noteq> None \<longrightarrow> last rs = Some v)"
  using assms(4,5)
proof (induction gs arbitrary: K st)
  case (Cons g gs)
  then obtain i where g: "g = stream_fragment sample sha b max_len i" by auto
  from gathering_add [OF s x d Cons.prems(1), of i, folded g] obtain st1 where
    1: "add_fragment sample sha d g st = Some (if decoder_message st1 = None then None else Some v, st1)"
    "gathering (pieces b max_len) (stream_meta sha b max_len) (K \<union> {j. fragment_indexes sample sha g = [j]}) st1"
    by blast
  from Cons.IH [OF 1(2)] Cons.prems(2) obtain rs st2 where
    2: "map_state (add_fragment sample sha d) gs st1 = Some (rs, st2)" "set rs \<subseteq> {None, Some v}"
    "gathering (pieces b max_len) (stream_meta sha b max_len)
      (K \<union> {j. fragment_indexes sample sha g = [j]} \<union> {j. \<exists>g \<in> set gs. fragment_indexes sample sha g = [j]}) st2"
    "gs \<noteq> [] \<longrightarrow> decoder_message st2 \<noteq> None \<longrightarrow> last rs = Some v"
    by auto
  have k: "K \<union> {j. fragment_indexes sample sha g = [j]} \<union> {j. \<exists>g \<in> set gs. fragment_indexes sample sha g = [j]} =
      K \<union> {j. \<exists>g \<in> set (g # gs). fragment_indexes sample sha g = [j]}"
    by auto
  have "rs = [] \<longleftrightarrow> gs = []" using map_state_length [OF 2(1)] by auto
  then have "decoder_message st2 \<noteq> None \<Longrightarrow> last ((if decoder_message st1 = None then None else Some v) # rs) = Some v"
    using 2(1,4) by auto
  then show ?case using 1(1) 2(1,2,3) unfolding k by auto
qed simp

section \<open>Properties\<close>

text \<open>
  C40. A message survives the fountain. The encoder of a value never panics, however many fragments
  are drawn from it. A decoder fed any of them, in any order, any number of times and with any of them
  missing, never panics, and whatever it returns is the value; once the plain fragments have all
  been among them, the last call has returned the value.
\<close>

theorem fountain_recovers:
  assumes "sampler_ok sample" "fountain_encoder_new enc sha x max_len = Some e" "length (enc x) < 2 ^ 32"
    "consensus_decode d (enc x) = Some x"
  shows "\<forall>k. \<exists>frs e'. map_state (\<lambda>_. next_fragment sample sha) [0..<k] e = Some (frs, e') \<and>
    (\<forall>gs. set gs \<subseteq> set frs \<longrightarrow>
      (\<exists>rs st. map_state (add_fragment sample sha d) gs decoder_default = Some (rs, st) \<and> set rs \<subseteq> {None, Some x} \<and>
        (length (fragments e) \<le> k \<and> set (take (length (fragments e)) frs) \<subseteq> set gs \<longrightarrow> last rs = Some x)))"
proof (intro allI)
  fix k
  have x: "message_ok (enc x) max_len"
    using assms(2,3) by (auto simp: fountain_encoder_new_def encoder_new_def message_ok_def split: if_splits)
  let ?P = "pieces (enc x) max_len" and ?f = "stream_fragment sample sha (enc x) max_len"
  have e: "e = \<lparr>fragments = ?P, encoder_length = length (enc x), encoder_checksum = checksum sha (enc x), next_index = 0\<rparr>"
    using assms(2) encoder_new_spec [OF x, of sha] by (simp add: fountain_encoder_new_def)
  let ?frs = "map (\<lambda>i. ?f (of_nat i)) [0..<k]"
  from stream_of_encoder [OF assms(1) x, of sha k]
  obtain e' where r: "map_state (\<lambda>_. next_fragment sample sha) [0..<k] e = Some (?frs, e')" unfolding e by blast
  have "\<exists>rs st. map_state (add_fragment sample sha d) gs decoder_default = Some (rs, st) \<and> set rs \<subseteq> {None, Some x} \<and>
        (length (fragments e) \<le> k \<and> set (take (length (fragments e)) ?frs) \<subseteq> set gs \<longrightarrow> last rs = Some x)"
    if gs: "set gs \<subseteq> set ?frs" for gs
  proof -
    have "\<forall>g \<in> set gs. \<exists>i. g = ?f i" using gs by auto
    from gathering_feed [OF assms(1) x assms(4) gathering_default this]
    obtain rs st where rs: "map_state (add_fragment sample sha d) gs decoder_default = Some (rs, st)" "set rs \<subseteq> {None, Some x}"
      "gathering ?P (stream_meta sha (enc x) max_len) ({} \<union> {j. \<exists>g \<in> set gs. fragment_indexes sample sha g = [j]}) st"
      "gs \<noteq> [] \<longrightarrow> decoder_message st \<noteq> None \<longrightarrow> last rs = Some x"
      by blast
    have "last rs = Some x" if k: "length ?P \<le> k" and all: "set (take (length ?P) ?frs) \<subseteq> set gs"
    proof -
      have plain: "fragment_indexes sample sha (?f (of_nat j)) = [j] \<and> ?f (of_nat j) \<in> set gs" if j: "j < length ?P" for j
      proof -
        have "unat (of_nat j :: u32) = j" using j pieces_spec(5) [OF x] by (simp add: unsigned_of_nat take_bit_nat_eq_self)
        then have "fragment_indexes sample sha (?f (of_nat j)) = [j]"
          unfolding stream_indexes [OF x] choose_fragments_def using j by simp
        moreover have "?f (of_nat j) \<in> set (take (length ?P) ?frs)" using j k by (auto simp: take_map)
        ultimately show ?thesis using all by blast
      qed
      then have "{..<length ?P} \<subseteq> {} \<union> {j. \<exists>g \<in> set gs. fragment_indexes sample sha g = [j]}" by blast
      from gathering_complete [OF x rs(3) this] rs(4) plain [of 0] pieces_spec(4) [OF x] show ?thesis by auto
    qed
    then show ?thesis using rs(1,2) unfolding e by auto
  qed
  with r show "\<exists>frs e'. map_state (\<lambda>_. next_fragment sample sha) [0..<k] e = Some (frs, e') \<and>
    (\<forall>gs. set gs \<subseteq> set frs \<longrightarrow>
      (\<exists>rs st. map_state (add_fragment sample sha d) gs decoder_default = Some (rs, st) \<and> set rs \<subseteq> {None, Some x} \<and>
        (length (fragments e) \<le> k \<and> set (take (length (fragments e)) frs) \<subseteq> set gs \<longrightarrow> last rs = Some x)))"
    by blast
qed

definition first_sampler :: "nat \<Rightarrow> bytes \<Rightarrow> nat list" where
  "first_sampler n seed = [0]"

lemma first_sampler_ok: "sampler_ok first_sampler"
  by (simp add: sampler_ok_def first_sampler_def)

theorem fountain_recovers_witness:
  "\<exists>e frs e' rs st. fountain_encoder_new enc_u64 (\<lambda>_. replicate 32 1) 77 3 = Some e \<and>
     map_state (\<lambda>_. next_fragment first_sampler (\<lambda>_. replicate 32 1)) [0..<9] e = Some (frs, e') \<and>
     map_state (add_fragment first_sampler (\<lambda>_. replicate 32 1) dec_u64) (rev frs) decoder_default = Some (rs, st) \<and>
     last rs = Some 77"
proof -
  let ?sha = "\<lambda>_ :: bytes. replicate 32 1 :: bytes"
  have len: "length (enc_u64 77) = 8" by (simp add: enc_int_def length_be_bytes)
  then have "message_ok (enc_u64 77) 3" unfolding message_ok_def by (auto simp flip: length_greater_0_conv)
  from encoder_new_spec [OF this, of ?sha] obtain e where
    e: "fountain_encoder_new enc_u64 ?sha 77 3 = Some e" "fragments e = pieces (enc_u64 77) 3"
    by (simp add: fountain_encoder_new_def)
  have l: "length (enc_u64 77) < 2 ^ 32" unfolding len by simp
  have "length (pieces (enc_u64 77) 3) = 3"
    unfolding pieces_def len by (subst partition_spec(1)) (simp_all add: len fragment_length_def nat_div_ceil_def)
  then have f: "length (fragments e) \<le> 9" unfolding e by simp
  have d: "consensus_decode dec_u64 (enc_u64 77) = Some 77" by (rule u64c.decode_encode) simp
  from fountain_recovers [OF first_sampler_ok e(1) l d, rule_format, of 9] obtain frs e' where
    r: "map_state (\<lambda>_. next_fragment first_sampler ?sha) [0..<9] e = Some (frs, e')"
    "set (rev frs) \<subseteq> set frs \<Longrightarrow>
      (\<exists>rs st. map_state (add_fragment first_sampler ?sha dec_u64) (rev frs) decoder_default = Some (rs, st) \<and> set rs \<subseteq> {None, Some 77} \<and>
        (length (fragments e) \<le> 9 \<and> set (take (length (fragments e)) frs) \<subseteq> set (rev frs) \<longrightarrow> last rs = Some 77))"
    by blast
  then obtain rs st where
    "map_state (add_fragment first_sampler ?sha dec_u64) (rev frs) decoder_default = Some (rs, st)" "last rs = Some 77"
    using f set_take_subset [of "length (fragments e)" frs] by auto
  then show ?thesis using e(1) r(1) by blast
qed

text \<open>
  C39. No fragment makes a decoder panic. Whatever fragments arrive, from however many streams and
  however malformed, every call of the decoder returns.
\<close>

theorem fountain_never_panics:
  assumes "sampler_ok sample"
  shows "\<exists>rs st. map_state (add_fragment sample sha d) fs decoder_default = Some (rs, st) \<and> length rs = length fs"
proof -
  have step: "\<exists>r st'. add_fragment sample sha d f st = Some (r, st') \<and> decoder_sized st'" if "decoder_sized st" for f st
    using receive_sized [OF assms that, of sha f]
    by (fastforce simp: add_fragment_def decoder_sized_def decoder_default_def split: sum.split option.split)
  show ?thesis
    by (rule map_state_total [where I = decoder_sized, OF step])
      (simp_all add: decoder_sized_def decoder_default_def)
qed

theorem fountain_never_panics_witness:
  "\<exists>rs st. map_state (add_fragment first_sampler (\<lambda>_. replicate 32 1) dec_u64)
     [\<lparr>fragment_meta = \<lparr>simple_fragments = 8, message_length = 100, meta_checksum = [1, 2, 3, 4]\<rparr>, fragment_index = 12,
       fragment_data = [1, 5, 3, 3, 5]\<rparr>] decoder_default = Some (rs, st)"
  using fountain_never_panics [OF first_sampler_ok] by blast

end
