(* ===== verification/Query.thy ===== *)
theory Query
  imports Mint_Nodes
begin

text \<open>
  Queries to the nodes of a mint (\<open>picomint-rpc/src/query.rs\<close>, the loops of
  \<open>picomint-rpc/src/api.rs\<close>): a strategy digests one response after another, the loop keeps one
  request per node in flight, sends the retries the strategy asks for and gives up once too many nodes
  have failed. Transport, reconnection and the checks of a response are not modelled: a run is the list
  of what arrived, a response or an error, in the order it arrived.
\<close>

section \<open>Strategies\<close>

datatype ('r, 'e) query_step = Retry "node_id btset" | Continue | Success 'r | Failure 'e

text \<open>A step of a strategy; \<open>None\<close> is a failed assertion.\<close>

type_synonym ('s, 'i, 'r, 'e) strategy = "node_id \<Rightarrow> 'i \<Rightarrow> 's \<Rightarrow> (('r, 'e) query_step \<times> 's) option"

record 'r threshold_consensus =
  tc_responses :: "(node_id, 'r) btmap"
  tc_retry :: "node_id btset"
  tc_threshold :: nat

definition threshold_consensus_new :: "num_nodes \<Rightarrow> 'r threshold_consensus" where
  "threshold_consensus_new n = \<lparr>tc_responses = bt_empty, tc_retry = bt_empty, tc_threshold = threshold n\<rparr>"

definition threshold_consensus_process :: "('r threshold_consensus, 'r, 'r, 'e) strategy" where
  "threshold_consensus_process p r s =
     (let s = s\<lparr>tc_responses := bt_insert p r (tc_responses s)\<rparr>
      in if length (filter (\<lambda>r'. r' = r) (bt_values (tc_responses s))) = tc_threshold s then Some (Success r, s)
         else if bt_has (tc_retry s) p then None
         else
           (let s = s\<lparr>tc_retry := bs_insert p (tc_retry s)\<rparr>
            in if bt_len (tc_retry s) = tc_threshold s then Some (Retry (tc_retry s), s\<lparr>tc_retry := bt_empty\<rparr>)
               else Some (Continue, s)))"

record 't filter_map_threshold =
  fm_responses :: "(node_id, 't) btmap"
  fm_threshold :: nat

definition filter_map_threshold_new :: "num_nodes \<Rightarrow> 't filter_map_threshold" where
  "filter_map_threshold_new n = \<lparr>fm_responses = bt_empty, fm_threshold = threshold n\<rparr>"

definition filter_map_threshold_process ::
  "(node_id \<Rightarrow> 'i \<Rightarrow> 'e + 't) \<Rightarrow> ('t filter_map_threshold, 'i, (node_id, 't) btmap, 'e) strategy" where
  "filter_map_threshold_process filter_map p r s =
     (case filter_map p r of
        Inl e \<Rightarrow> Some (Failure e, s)
      | Inr t \<Rightarrow>
          let s = s\<lparr>fm_responses := bt_insert p t (fm_responses s)\<rparr>
          in if bt_len (fm_responses s) = fm_threshold s then Some (Success (fm_responses s), s\<lparr>fm_responses := bt_empty\<rparr>)
             else Some (Continue, s))"

section \<open>The loop\<close>

record ('s, 'e) query =
  pending :: "node_id list"
  node_errors :: "(node_id, 'e) btmap"
  strategy_state :: 's

datatype ('s, 'r, 'e) turn = Going "('s, 'e) query" | Returned 'r | GaveUp "(node_id, 'e) btmap" | QueryPanic

definition query_new :: "num_nodes \<Rightarrow> 's \<Rightarrow> ('s, 'e) query" where
  "query_new n s = \<lparr>pending = node_ids n, node_errors = bt_empty, strategy_state = s\<rparr>"

definition check_errors :: "nat \<Rightarrow> ('s, 'e) query \<Rightarrow> ('s, 'r, 'e) turn" where
  "check_errors limit q = (if bt_len (node_errors q) = limit then GaveUp (node_errors q) else Going q)"

definition failed_node :: "node_id \<Rightarrow> 'e \<Rightarrow> ('s, 'e) query \<Rightarrow> ('s, 'e) query" where
  "failed_node p e q = q\<lparr>node_errors := bt_insert p e (node_errors q)\<rparr>"

text \<open>A turn of \<open>request_with_strategy\<close>: the answer of one of the nodes with a request in flight.\<close>

definition query_turn ::
  "('s, 'i, 'r, 'e) strategy \<Rightarrow> nat \<Rightarrow> node_id \<Rightarrow> 'e + 'i \<Rightarrow> ('s, 'e) query \<Rightarrow> ('s, 'r, 'e) turn" where
  "query_turn process limit p result q0 =
     (let q = q0\<lparr>pending := remove1 p (pending q0)\<rparr>
      in case result of
           Inl e \<Rightarrow> check_errors limit (failed_node p e q)
         | Inr r \<Rightarrow>
             (case process p r (strategy_state q) of
                None \<Rightarrow> QueryPanic
              | Some (step, s) \<Rightarrow>
                  let q = q\<lparr>strategy_state := s\<rparr>
                  in case step of
                       Retry ns \<Rightarrow> check_errors limit (q\<lparr>pending := pending q @ bt_keys ns\<rparr>)
                     | Success x \<Rightarrow> Returned x
                     | Failure e \<Rightarrow> check_errors limit (failed_node p e q)
                     | Continue \<Rightarrow> check_errors limit q))"

text \<open>A turn of \<open>request_with_strategy_retry\<close>, where requests do not fail.\<close>

definition query_turn_retry ::
  "('s, 'i, 'r, 'e) strategy \<Rightarrow> node_id \<Rightarrow> 'i \<Rightarrow> ('s, 'e) query \<Rightarrow> ('s, 'r, 'e) turn" where
  "query_turn_retry process p r q0 =
     (let q = q0\<lparr>pending := remove1 p (pending q0)\<rparr>
      in case process p r (strategy_state q) of
           None \<Rightarrow> QueryPanic
         | Some (step, s) \<Rightarrow>
             let q = q\<lparr>strategy_state := s\<rparr>
             in case step of
                  Retry ns \<Rightarrow> Going (q\<lparr>pending := pending q @ bt_keys ns\<rparr>)
                | Success x \<Rightarrow> Returned x
                | Failure e \<Rightarrow> Going q
                | Continue \<Rightarrow> Going q)"

text \<open>
  A run that is still going: what arrived so far, each from a node with a request in flight, and
  the state of the loop. When nothing is in flight the first loop panics (\<open>expect\<close>) and the second
  waits forever.
\<close>

inductive query_run ::
  "('s, 'i, 'r, 'e) strategy \<Rightarrow> nat \<Rightarrow> ('s, 'e) query \<Rightarrow> (node_id \<times> ('e + 'i)) list \<Rightarrow> ('s, 'e) query \<Rightarrow> bool"
  for process :: "('s, 'i, 'r, 'e) strategy" and limit :: nat and q0 :: "('s, 'e) query"
where
  run_start: "query_run process limit q0 [] q0"
| run_turn: "query_run process limit q0 xs q \<Longrightarrow> p \<in> set (pending q) \<Longrightarrow> query_turn process limit p result q = Going q' \<Longrightarrow>
    query_run process limit q0 (xs @ [(p, result)]) q'"

section \<open>What arrived\<close>

definition latest :: "(node_id \<times> ('e + 'i)) list \<Rightarrow> node_id \<Rightarrow> 'i option" where
  "latest xs = fold (\<lambda>(p, result) m. case result of Inl e \<Rightarrow> m | Inr r \<Rightarrow> m(p \<mapsto> r)) xs (\<lambda>_. None)"

lemma latest_simps [simp]:
  "latest [] = (\<lambda>_. None)" "latest (xs @ [(p, Inl e)]) = latest xs" "latest (xs @ [(p, Inr r)]) = (latest xs)(p \<mapsto> r)"
  by (simp_all add: latest_def)

lemma latest_arrived: "latest xs p = Some r \<Longrightarrow> (p, Inr r) \<in> set xs"
proof (induction xs rule: rev_induct)
  case (snoc x xs)
  then show ?case by (cases x; cases "snd x") (auto split: if_splits)
qed simp

lemma count_values: "length (filter P (bt_values m)) = card {k. \<exists>v. bt_get m k = Some v \<and> P v}"
proof -
  have "length (filter P (bt_values m)) = length (filter (\<lambda>k. P (the (bt_get m k))) (bt_keys m))"
    by (simp add: bt_values_keys filter_map o_def)
  also have "\<dots> = card (set (filter (\<lambda>k. P (the (bt_get m k))) (bt_keys m)))"
    by (rule distinct_card [symmetric]) (intro distinct_filter distinct_bt_keys)
  also have "set (filter (\<lambda>k. P (the (bt_get m k))) (bt_keys m)) = {k. \<exists>v. bt_get m k = Some v \<and> P v}"
    by (auto simp: set_bt_keys)
  finally show ?thesis .
qed

definition answered :: "(node_id \<times> ('e + 'i)) list \<Rightarrow> 'i \<Rightarrow> node_id set" where
  "answered xs v = {p. latest xs p = Some v}"

section \<open>Bookkeeping\<close>

text \<open>
  Every node is in exactly one place: its request is in flight, it waits for the next round
  (or, for the filter, its response is in), or it has failed.
\<close>

definition accounted :: "num_nodes \<Rightarrow> node_id set \<Rightarrow> ('s, 'e) query \<Rightarrow> bool" where
  "accounted n held q \<longleftrightarrow>
     distinct (pending q) \<and> set (pending q) \<inter> held = {} \<and> set (pending q) \<inter> set (bt_keys (node_errors q)) = {} \<and>
     held \<inter> set (bt_keys (node_errors q)) = {} \<and> set (pending q) \<union> held \<union> set (bt_keys (node_errors q)) = set (node_ids n) \<and>
     card held < threshold n \<and> bt_len (node_errors q) < one_honest n"

lemma bt_len_keys: "card (set (bt_keys m)) = bt_len m"
  by (simp add: bt_len_card set_bt_keys)

lemma accounted_new: "small_mint n \<Longrightarrow> accounted n {} (query_new n s)"
  by (simp add: accounted_def query_new_def distinct_node_ids threshold_def one_honest_def bt_len_empty bt_keys_def)

text \<open>So something is in flight as long as the loop runs.\<close>

lemma accounted_pending:
  assumes n: "small_mint n" and a: "accounted n held q"
  shows "pending q \<noteq> []"
proof
  assume "pending q = []"
  then have u: "held \<union> set (bt_keys (node_errors q)) = set (node_ids n)" using a by (simp add: accounted_def)
  have "card (set (bt_keys (node_errors q))) = bt_len (node_errors q)" by (rule bt_len_keys)
  then have "card (held \<union> set (bt_keys (node_errors q))) \<le> card held + bt_len (node_errors q)"
    using card_Un_le by metis
  then show False using a u card_node_ids [OF n] by (simp add: accounted_def total_def threshold_def one_honest_def)
qed

lemma accounted_error:
  assumes a: "accounted n held q" and p: "p \<in> set (pending q)"
    and g: "check_errors (one_honest n) (failed_node p e (q\<lparr>pending := remove1 p (pending q), strategy_state := s\<rparr>)) = Going q'"
  shows "accounted n held q'"
proof -
  let ?E = "bt_insert p e (node_errors q)"
  have q': "q' = q\<lparr>pending := remove1 p (pending q), strategy_state := s, node_errors := ?E\<rparr>" and l: "bt_len ?E \<noteq> one_honest n"
    using g by (auto simp: check_errors_def failed_node_def split: if_splits)
  have "bt_len ?E \<le> bt_len (node_errors q) + 1" by (rule bt_len_insert_le)
  then have "bt_len ?E < one_honest n" using l a by (simp add: accounted_def)
  moreover have "set (bt_keys ?E) = insert p (set (bt_keys (node_errors q)))" by (auto simp: set_bt_keys)
  ultimately show ?thesis using a p unfolding q' by (auto simp: accounted_def)
qed

lemma accounted_held:
  assumes a: "accounted n held q" and p: "p \<in> set (pending q)" and f: "finite held" "card held + 1 < threshold n"
  shows "accounted n (insert p held) (q\<lparr>pending := remove1 p (pending q), strategy_state := s\<rparr>)"
  using a p f by (auto simp: accounted_def card_insert_if)

section \<open>Threshold consensus\<close>

definition consensus_inv :: "num_nodes \<Rightarrow> (node_id \<times> ('e + 'r)) list \<Rightarrow> ('r threshold_consensus, 'e) query \<Rightarrow> bool" where
  "consensus_inv n xs q \<longleftrightarrow>
     (let s = strategy_state q in
      tc_threshold s = threshold n \<and> accounted n (set (bt_keys (tc_retry s))) q \<and>
      (\<forall>p. bt_get (tc_responses s) p = latest xs p) \<and> set (bt_keys (tc_retry s)) \<subseteq> dom (latest xs) \<and>
      dom (latest xs) \<subseteq> set (node_ids n) \<and> (\<forall>v. card (answered xs v) < threshold n) \<and>
      (\<forall>p e. bt_get (node_errors q) p = Some e \<longrightarrow> (p, Inl e) \<in> set xs))"

lemma consensus_inv_new: "small_mint n \<Longrightarrow> consensus_inv n [] (query_new n (threshold_consensus_new n))"
  using accounted_new [of n "threshold_consensus_new n"]
  by (simp add: consensus_inv_def Let_def query_new_def threshold_consensus_new_def bt_keys_def answered_def threshold_def)

lemma finite_answered: "consensus_inv n xs q \<Longrightarrow> finite (answered xs v)"
  by (rule finite_subset [of _ "set (node_ids n)"]) (auto simp: consensus_inv_def Let_def answered_def)

text \<open>What a response does: it completes a quorum, or its node waits for the next round.\<close>

lemma consensus_response:
  fixes r :: 'r and xs :: "(node_id \<times> ('e + 'r)) list"
  assumes n: "small_mint n" and i: "consensus_inv n xs q" and p: "p \<in> set (pending q)"
  defines "ys \<equiv> xs @ [(p, Inr r)]"
  shows "(\<exists>q'. query_turn threshold_consensus_process (one_honest n) p (Inr r) q = Going q' \<and> consensus_inv n ys q') \<or>
    query_turn threshold_consensus_process (one_honest n) p (Inr r) q = Returned r \<and> is_quorum n (answered ys r)"
proof -
  let ?s = "strategy_state q"
  let ?R = "bt_insert p r (tc_responses ?s)"
  have a: "accounted n (set (bt_keys (tc_retry ?s))) q" and t: "tc_threshold ?s = threshold n"
    and res: "\<forall>p. bt_get (tc_responses ?s) p = latest xs p" and dom: "dom (latest xs) \<subseteq> set (node_ids n)"
    and errs: "\<forall>p e. bt_get (node_errors q) p = Some e \<longrightarrow> (p, Inl e) \<in> set ys"
    and cnt: "\<forall>v. card (answered xs v) < threshold n" and ret: "set (bt_keys (tc_retry ?s)) \<subseteq> dom (latest xs)"
    using i by (simp_all add: consensus_inv_def Let_def ys_def)
  have np: "\<not> bt_has (tc_retry ?s) p" using a p by (auto simp: accounted_def bt_has_def set_bt_keys)
  have pn: "p \<in> set (node_ids n)" using a p by (auto simp: accounted_def)
  have res': "\<forall>p. bt_get ?R p = latest ys p" using res by (simp add: ys_def)
  have dom': "dom (latest ys) \<subseteq> set (node_ids n)" using dom pn by (simp add: ys_def)
  have num: "length (filter (\<lambda>r'. r' = r) (bt_values ?R)) = card (answered ys r)"
    unfolding count_values answered_def using res' by simp
  have fin: "finite (answered ys v)" for v
    by (rule finite_subset [of _ "set (node_ids n)"]) (use dom' in \<open>auto simp: answered_def\<close>)
  show ?thesis
  proof (cases "card (answered ys r) = threshold n")
    case True
    then have "query_turn threshold_consensus_process (one_honest n) p (Inr r) q = Returned r"
      using num t by (simp add: query_turn_def threshold_consensus_process_def Let_def)
    moreover have "is_quorum n (answered ys r)" using True dom' by (auto simp: is_quorum_def answered_def)
    ultimately show ?thesis by blast
  next
    case False
    have cnt': "card (answered ys v) < threshold n" for v
    proof (cases "v = r")
      case True
      have "answered ys r \<subseteq> insert p (answered xs r)" by (auto simp: answered_def ys_def)
      then have "card (answered ys r) \<le> card (insert p (answered xs r))"
        using finite_answered [OF i] by (intro card_mono) simp_all
      also have "\<dots> \<le> card (answered xs r) + 1" by (simp add: card_insert_le_m1 card_insert_if finite_answered [OF i])
      also have "\<dots> \<le> threshold n" using cnt by (simp add: Suc_leI)
      finally show ?thesis using True False by simp
    next
      case ne: False
      have "answered ys v \<subseteq> answered xs v" using ne by (auto simp: answered_def ys_def split: if_splits)
      then have "card (answered ys v) \<le> card (answered xs v)" using finite_answered [OF i] by (intro card_mono)
      then show ?thesis using cnt le_less_trans by blast
    qed
    let ?retry = "bs_insert p (tc_retry ?s)"
    have keys: "set (bt_keys ?retry) = insert p (set (bt_keys (tc_retry ?s)))" by (auto simp: set_bt_keys)
    have "bt_get (tc_retry ?s) p = None" using np by (cases "bt_get (tc_retry ?s) p") (simp_all add: bt_has_def)
    then have card: "bt_len ?retry = card (set (bt_keys (tc_retry ?s))) + 1" unfolding bt_len_keys by (rule bt_len_insert)
    have ret': "set (bt_keys ?retry) \<subseteq> dom (latest ys)" using ret unfolding keys by (auto simp: ys_def)
    have err: "bt_len (node_errors q) \<noteq> one_honest n" using a by (simp add: accounted_def)
    show ?thesis
    proof (cases "bt_len ?retry = threshold n")
      case True
      define q' where "q' = q\<lparr>pending := remove1 p (pending q) @ bt_keys ?retry,
        strategy_state := ?s\<lparr>tc_responses := ?R, tc_retry := bt_empty\<rparr>\<rparr>"
      have "query_turn threshold_consensus_process (one_honest n) p (Inr r) q = Going q'"
        using False num t np True err
        by (simp add: query_turn_def threshold_consensus_process_def Let_def check_errors_def q'_def)
      moreover have "accounted n {} q'" using a p keys by (auto simp: accounted_def q'_def threshold_def)
      then have "consensus_inv n ys q'"
        using t res' dom' cnt' errs by (simp add: consensus_inv_def Let_def q'_def bt_keys_def)
      ultimately show ?thesis by blast
    next
      case nr: False
      define q' where "q' = q\<lparr>pending := remove1 p (pending q), strategy_state := ?s\<lparr>tc_responses := ?R, tc_retry := ?retry\<rparr>\<rparr>"
      have "query_turn threshold_consensus_process (one_honest n) p (Inr r) q = Going q'"
        using False num t np nr err
        by (simp add: query_turn_def threshold_consensus_process_def Let_def check_errors_def q'_def)
      moreover have "card (set (bt_keys (tc_retry ?s))) + 1 < threshold n"
        using a nr card by (simp add: accounted_def)
      then have "accounted n (set (bt_keys ?retry)) q'"
        unfolding keys q'_def by (intro accounted_held [OF a p]) simp_all
      then have "consensus_inv n ys q'"
        using t res' dom' cnt' ret' errs by (simp add: consensus_inv_def Let_def q'_def)
      ultimately show ?thesis by blast
    qed
  qed
qed

lemma consensus_error:
  fixes q :: "('r threshold_consensus, 'e) query"
  assumes i: "consensus_inv n xs q" and p: "p \<in> set (pending q)"
    and g: "query_turn threshold_consensus_process (one_honest n) p (Inl e) q = Going q'"
  shows "consensus_inv n (xs @ [(p, Inl e)]) q'"
proof -
  have g': "(check_errors (one_honest n) (failed_node p e (q\<lparr>pending := remove1 p (pending q), strategy_state := strategy_state q\<rparr>))
      :: ('r threshold_consensus, 'r, 'e) turn) = Going q'"
    using g by (simp add: query_turn_def)
  have a: "accounted n (set (bt_keys (tc_retry (strategy_state q)))) q" using i by (simp add: consensus_inv_def Let_def)
  have "strategy_state q' = strategy_state q" "node_errors q' = bt_insert p e (node_errors q)"
    using g' by (auto simp: check_errors_def failed_node_def split: if_splits)
  then show ?thesis using i accounted_error [OF a p g'] by (simp add: consensus_inv_def Let_def answered_def)
qed

lemma consensus_run:
  assumes n: "small_mint n"
  shows "query_run threshold_consensus_process (one_honest n) (query_new n (threshold_consensus_new n)) xs q \<Longrightarrow> consensus_inv n xs q"
proof (induction rule: query_run.induct)
  case run_start
  show ?case using n by (rule consensus_inv_new)
next
  case (run_turn xs q p result q')
  show ?case
  proof (cases result)
    case (Inl e)
    then show ?thesis using consensus_error [OF run_turn.IH run_turn.hyps(2)] run_turn.hyps(3) by simp
  next
    case (Inr r)
    then show ?thesis using consensus_response [OF n run_turn.IH run_turn.hyps(2), of r] run_turn.hyps(3) by auto
  qed
qed

text \<open>As long as the loop runs, an honest node that only ever answers the same has yet to answer.\<close>

lemma consensus_waits:
  assumes n: "honest_set n H" and i: "consensus_inv n xs q" and h: "\<forall>(p, r) \<in> set xs. p \<in> H \<longrightarrow> r = Inr v"
  shows "\<exists>p \<in> H. p \<in> set (pending q) \<and> latest xs p = None"
proof (rule ccontr)
  assume none: "\<not> ?thesis"
  let ?s = "strategy_state q"
  have a: "accounted n (set (bt_keys (tc_retry ?s))) q" and ret: "set (bt_keys (tc_retry ?s)) \<subseteq> dom (latest xs)"
    and cnt: "card (answered xs v) < threshold n" and errs: "\<forall>p e. bt_get (node_errors q) p = Some e \<longrightarrow> (p, Inl e) \<in> set xs"
    using i by (simp_all add: consensus_inv_def Let_def)
  have "H \<subseteq> answered xs v"
  proof
    fix p assume p: "p \<in> H"
    have "p \<notin> set (bt_keys (node_errors q))"
    proof
      assume "p \<in> set (bt_keys (node_errors q))"
      then obtain e where "(p, Inl e) \<in> set xs" using errs by (auto simp: set_bt_keys)
      then show False using h p by fastforce
    qed
    moreover have "p \<in> set (node_ids n)" using n p by (auto simp: honest_set_def)
    ultimately have "p \<in> set (pending q) \<or> p \<in> set (bt_keys (tc_retry ?s))" using a by (auto simp: accounted_def)
    then have "latest xs p \<noteq> None" using none p ret by auto
    then obtain r where r: "latest xs p = Some r" by blast
    then have "(p, Inr r) \<in> set xs" by (rule latest_arrived)
    then have "r = v" using h p by fastforce
    with r show "p \<in> answered xs v" by (simp add: answered_def)
  qed
  then have "card H \<le> card (answered xs v)" using finite_answered [OF i] by (intro card_mono)
  moreover have "threshold n \<le> card H"
  proof -
    have s: "small_mint n" "H \<subseteq> set (node_ids n)" "card (set (node_ids n) - H) \<le> max_evil n" using n by (simp_all add: honest_set_def)
    have "card (set (node_ids n) - H) = card (set (node_ids n)) - card H" using s(2) by (intro card_Diff_subset) (auto intro: finite_subset)
    then show ?thesis using s(3) card_node_ids [OF s(1)] by (simp add: total_def threshold_def)
  qed
  ultimately show False using cnt by simp
qed

section \<open>Filtered responses\<close>

definition filter_inv ::
  "num_nodes \<Rightarrow> (node_id \<Rightarrow> 'i \<Rightarrow> 'e + 't) \<Rightarrow> (node_id \<times> ('e + 'i)) list \<Rightarrow> ('t filter_map_threshold, 'e) query \<Rightarrow> bool" where
  "filter_inv n f xs q \<longleftrightarrow>
     (let s = strategy_state q in
      fm_threshold s = threshold n \<and> accounted n (set (bt_keys (fm_responses s))) q \<and>
      (\<forall>p t. bt_get (fm_responses s) p = Some t \<longrightarrow> (\<exists>r. (p, Inr r) \<in> set xs \<and> f p r = Inr t)))"

lemma filter_inv_new: "small_mint n \<Longrightarrow> filter_inv n f [] (query_new n (filter_map_threshold_new n))"
  using accounted_new [of n "filter_map_threshold_new n"]
  by (simp add: filter_inv_def Let_def query_new_def filter_map_threshold_new_def bt_keys_def)

lemma filter_turn:
  fixes q :: "('t filter_map_threshold, 'e) query" and result :: "'e + 'i"
  assumes i: "filter_inv n f xs q" and p: "p \<in> set (pending q)"
  defines "turn \<equiv> query_turn (filter_map_threshold_process f) (one_honest n) p result q"
  shows "(\<exists>q'. turn = Going q' \<and> filter_inv n f (xs @ [(p, result)]) q') \<or> (\<exists>es. turn = GaveUp es) \<or>
    (\<exists>m. turn = Returned m \<and> bt_len m = threshold n \<and> set (bt_keys m) \<subseteq> set (node_ids n) \<and>
      (\<forall>p' t. bt_get m p' = Some t \<longrightarrow> (\<exists>r. (p', Inr r) \<in> set (xs @ [(p, result)]) \<and> f p' r = Inr t)))"
proof -
  let ?s = "strategy_state q"
  have a: "accounted n (set (bt_keys (fm_responses ?s))) q" and t: "fm_threshold ?s = threshold n"
    and ok: "\<forall>p t. bt_get (fm_responses ?s) p = Some t \<longrightarrow> (\<exists>r. (p, Inr r) \<in> set xs \<and> f p r = Inr t)"
    using i by (simp_all add: filter_inv_def Let_def)
  have fail: "(\<exists>q'. turn = Going q' \<and> filter_inv n f (xs @ [(p, result)]) q') \<or> (\<exists>es. turn = GaveUp es)"
    if "turn = check_errors (one_honest n) (failed_node p e (q\<lparr>pending := remove1 p (pending q), strategy_state := strategy_state q\<rparr>))" for e
  proof (cases "\<exists>q'. turn = Going q'")
    case True
    then obtain q' where g: "turn = Going q'" by blast
    have "strategy_state q' = ?s" using g that by (auto simp: check_errors_def failed_node_def split: if_splits)
    moreover have "accounted n (set (bt_keys (fm_responses ?s))) q'" by (rule accounted_error [OF a p g [unfolded that]])
    ultimately show ?thesis using g t ok by (fastforce simp: filter_inv_def Let_def)
  next
    case False
    then show ?thesis using that by (auto simp: check_errors_def split: if_splits)
  qed
  show ?thesis
  proof (cases result)
    case (Inl e)
    then have "turn = check_errors (one_honest n) (failed_node p e (q\<lparr>pending := remove1 p (pending q), strategy_state := ?s\<rparr>))"
      by (simp add: turn_def query_turn_def)
    from fail [OF this] show ?thesis by blast
  next
    case (Inr r)
    show ?thesis
    proof (cases "f p r")
      case f: (Inl e)
      then have "turn = check_errors (one_honest n) (failed_node p e (q\<lparr>pending := remove1 p (pending q), strategy_state := ?s\<rparr>))"
        using Inr by (simp add: turn_def query_turn_def filter_map_threshold_process_def)
      from fail [OF this] show ?thesis by blast
    next
      case f: (Inr t')
      let ?m = "bt_insert p t' (fm_responses ?s)"
      have np: "bt_get (fm_responses ?s) p = None" using a p by (auto simp: accounted_def set_bt_keys)
      have keys: "set (bt_keys ?m) = insert p (set (bt_keys (fm_responses ?s)))" by (auto simp: set_bt_keys)
      have nodes: "set (bt_keys ?m) \<subseteq> set (node_ids n)" unfolding keys using a p by (auto simp: accounted_def)
      have ok': "\<forall>p' t. bt_get ?m p' = Some t \<longrightarrow> (\<exists>r. (p', Inr r) \<in> set (xs @ [(p, result)]) \<and> f p' r = Inr t)"
        using ok f Inr by (auto split: if_splits)
      have err: "bt_len (node_errors q) \<noteq> one_honest n" using a by (simp add: accounted_def)
      have card: "bt_len ?m = card (set (bt_keys (fm_responses ?s))) + 1" unfolding bt_len_keys using np by (rule bt_len_insert)
      show ?thesis
      proof (cases "bt_len ?m = threshold n")
        case True
        then have "turn = Returned ?m"
          using f Inr t by (simp add: turn_def query_turn_def filter_map_threshold_process_def Let_def)
        then show ?thesis using True nodes ok' by blast
      next
        case False
        define q' where "q' = q\<lparr>pending := remove1 p (pending q), strategy_state := ?s\<lparr>fm_responses := ?m\<rparr>\<rparr>"
        have "turn = Going q'"
          using f Inr t False err by (simp add: turn_def query_turn_def filter_map_threshold_process_def Let_def check_errors_def q'_def)
        moreover have "card (set (bt_keys (fm_responses ?s))) + 1 < threshold n" using a False card by (simp add: accounted_def)
        then have "accounted n (set (bt_keys ?m)) q'" unfolding keys q'_def by (intro accounted_held [OF a p]) simp_all
        then have "filter_inv n f (xs @ [(p, result)]) q'" using t ok' by (simp add: filter_inv_def Let_def q'_def)
        ultimately show ?thesis by blast
      qed
    qed
  qed
qed

lemma filter_run:
  assumes n: "small_mint n"
  shows "query_run (filter_map_threshold_process f) (one_honest n) (query_new n (filter_map_threshold_new n)) xs q \<Longrightarrow> filter_inv n f xs q"
proof (induction rule: query_run.induct)
  case run_start
  show ?case using n by (rule filter_inv_new)
next
  case (run_turn xs q p result q')
  from filter_turn [OF run_turn.IH run_turn.hyps(2), of result] run_turn.hyps(3) show ?case by auto
qed

section \<open>Properties\<close>

text \<open>A query gives up only on the errors of more nodes than can be faulty.\<close>

lemma consensus_gives_up:
  fixes q :: "('r threshold_consensus, 'e) query"
  assumes n: "small_mint n" and i: "consensus_inv n xs q" and p: "p \<in> set (pending q)"
    and g: "query_turn threshold_consensus_process (one_honest n) p result q = GaveUp es"
  shows "one_honest n \<le> card {k. \<exists>e. (k, Inl e) \<in> set (xs @ [(p, result)])}"
proof (cases result)
  case (Inl e)
  let ?E = "bt_insert p e (node_errors q)"
  have l: "bt_len ?E = one_honest n" using g Inl by (auto simp: query_turn_def Let_def check_errors_def failed_node_def split: if_splits)
  have "set (bt_keys ?E) \<subseteq> {k. \<exists>e. (k, Inl e) \<in> set (xs @ [(p, result)])}"
  proof
    fix k assume "k \<in> set (bt_keys ?E)"
    then obtain y where "bt_get ?E k = Some y" by (auto simp: set_bt_keys)
    then have "k = p \<or> bt_get (node_errors q) k = Some y" by (auto split: if_splits)
    moreover have "bt_get (node_errors q) k = Some y \<Longrightarrow> (k, Inl y) \<in> set xs" using i by (simp add: consensus_inv_def Let_def)
    ultimately show "k \<in> {k. \<exists>e. (k, Inl e) \<in> set (xs @ [(p, result)])}" using Inl by auto
  qed
  moreover have "finite (fst ` set (xs @ [(p, result)]))" by simp
  then have "finite {k. \<exists>e. (k, Inl e) \<in> set (xs @ [(p, result)])}" by (rule finite_subset [rotated]) force
  ultimately have "card (set (bt_keys ?E)) \<le> card {k. \<exists>e. (k, Inl e) \<in> set (xs @ [(p, result)])}" by (intro card_mono)
  then show ?thesis using l by (simp only: bt_len_keys)
next
  case (Inr r)
  then show ?thesis using consensus_response [OF n i p, of r] g by auto
qed

lemma honest_no_errors:
  assumes "honest_set n H" "fst ` set ys \<subseteq> set (node_ids n)" "\<forall>(p, r) \<in> set ys. p \<in> H \<longrightarrow> r = Inr v"
  shows "card {k. \<exists>e. (k, Inl e) \<in> set ys} < one_honest n"
proof -
  have "{k. \<exists>e. (k, Inl e) \<in> set ys} \<subseteq> set (node_ids n) - H" using assms(2,3) by force
  then have "card {k. \<exists>e. (k, Inl e) \<in> set ys} \<le> card (set (node_ids n) - H)" by (intro card_mono) simp_all
  then show ?thesis using assms(1) by (simp add: honest_set_def one_honest_def)
qed

lemma run_from_nodes:
  assumes "small_mint n"
  shows "query_run threshold_consensus_process (one_honest n) (query_new n (threshold_consensus_new n)) xs q \<Longrightarrow> fst ` set xs \<subseteq> set (node_ids n)"
proof (induction rule: query_run.induct)
  case (run_turn xs q p result q')
  from consensus_run [OF assms run_turn.hyps(1)] have "set (pending q) \<subseteq> set (node_ids n)"
    by (auto simp: consensus_inv_def Let_def accounted_def)
  then show ?case using run_turn by auto
qed simp

text \<open>A turn after which no honest node has answered anything but \<open>v\<close>, and the turn that completes them.\<close>

lemma consensus_decides:
  fixes q :: "('r threshold_consensus, 'e) query" and xs :: "(node_id \<times> ('e + 'r)) list"
  assumes n: "small_mint n" and r: "query_run threshold_consensus_process (one_honest n) (query_new n (threshold_consensus_new n)) xs q"
    and p: "p \<in> set (pending q)" and H: "honest_set n H" and h: "\<forall>(p', r) \<in> set (xs @ [(p, result)]). p' \<in> H \<longrightarrow> r = Inr v"
  shows "(\<exists>q'. query_turn threshold_consensus_process (one_honest n) p result q = Going q' \<and> (\<exists>p' \<in> H. latest (xs @ [(p, result)]) p' = None)) \<or>
    query_turn threshold_consensus_process (one_honest n) p result q = Returned v"
proof (cases "query_turn threshold_consensus_process (one_honest n) p result q :: ('r threshold_consensus, 'r, 'e) turn")
  case (Going q')
  from consensus_run [OF n query_run.run_turn [OF r p Going]] have "consensus_inv n (xs @ [(p, result)]) q'" .
  from consensus_waits [OF H this h] show ?thesis using Going by blast
next
  case (Returned w)
  then obtain x where x: "result = Inr x" by (cases result) (auto simp: query_turn_def Let_def check_errors_def split: if_splits)
  with consensus_response [OF n consensus_run [OF n r] p, of x] Returned have w: "w = x" "is_quorum n (answered (xs @ [(p, Inr x)]) x)" by auto
  have "card (answered (xs @ [(p, Inr x)]) x) \<le> card (set (node_ids n) - H)" if "answered (xs @ [(p, Inr x)]) x \<inter> H = {}"
    using w(2) that by (intro card_mono) (auto simp: is_quorum_def)
  moreover have "max_evil n < threshold n" by (simp add: threshold_def)
  ultimately obtain k where "k \<in> H" "latest (xs @ [(p, Inr x)]) k = Some x"
    using w(2) H by (force simp: is_quorum_def honest_set_def answered_def)
  then have "x = v" using h x latest_arrived [of "xs @ [(p, Inr x)]" k x] by fastforce
  then show ?thesis using Returned w(1) by simp
next
  case (GaveUp es)
  have i: "consensus_inv n xs q" by (rule consensus_run [OF n r])
  then have "p \<in> set (node_ids n)" using p by (auto simp: consensus_inv_def Let_def accounted_def)
  then have "fst ` set (xs @ [(p, result)]) \<subseteq> set (node_ids n)" using run_from_nodes [OF n r] by auto
  from honest_no_errors [OF H this h] consensus_gives_up [OF n i p GaveUp] show ?thesis by simp
next
  case QueryPanic
  show ?thesis
  proof (cases result)
    case (Inl e)
    then show ?thesis using QueryPanic by (simp add: query_turn_def check_errors_def Let_def split: if_splits)
  next
    case (Inr x)
    then show ?thesis using QueryPanic consensus_response [OF n consensus_run [OF n r] p, of x] by auto
  qed
qed

text \<open>
  C22. What a threshold query does. While a query for threshold consensus runs some request is in
  flight, and no turn of its loop panics; the value it returns is the latest answer of a quorum of the
  nodes; and it gives up only once more nodes have failed than can be faulty. When the honest nodes
  answer alike whenever they are asked, and do not fail, then whatever the other nodes answer and
  however often they change it, the query never gives up and returns nothing but that answer, and it
  returns it at the latest with the answer of the last honest node; until then a request to an honest
  node that has not answered is in flight.
\<close>

theorem consensus_query:
  assumes "small_mint n" "query_run threshold_consensus_process (one_honest n) (query_new n (threshold_consensus_new n)) xs q"
  shows "pending q \<noteq> [] \<and>
    (\<forall>p result. p \<in> set (pending q) \<longrightarrow>
      query_turn threshold_consensus_process (one_honest n) p result q \<noteq> QueryPanic \<and>
      (\<forall>v. query_turn threshold_consensus_process (one_honest n) p result q = Returned v \<longrightarrow>
        is_quorum n (answered (xs @ [(p, result)]) v)) \<and>
      (\<forall>es. query_turn threshold_consensus_process (one_honest n) p result q = GaveUp es \<longrightarrow>
        one_honest n \<le> card {k. \<exists>e. (k, Inl e) \<in> set (xs @ [(p, result)])})) \<and>
    (\<forall>H v. honest_set n H \<longrightarrow> (\<forall>(p, r) \<in> set xs. p \<in> H \<longrightarrow> r = Inr v) \<longrightarrow>
      (\<exists>p \<in> H. p \<in> set (pending q) \<and> latest xs p = None)) \<and>
    (\<forall>H v p result. honest_set n H \<longrightarrow> p \<in> set (pending q) \<longrightarrow>
      (\<forall>(p', r) \<in> set (xs @ [(p, result)]). p' \<in> H \<longrightarrow> r = Inr v) \<longrightarrow>
      (if \<forall>p' \<in> H. latest (xs @ [(p, result)]) p' = Some v
       then query_turn threshold_consensus_process (one_honest n) p result q = Returned v
       else query_turn threshold_consensus_process (one_honest n) p result q = Returned v \<or>
         (\<exists>q'. query_turn threshold_consensus_process (one_honest n) p result q = Going q')))"
proof (intro conjI allI impI)
  note i = consensus_run [OF assms]
  then have a: "accounted n (set (bt_keys (tc_retry (strategy_state q)))) q" by (simp add: consensus_inv_def Let_def)
  show "pending q \<noteq> []" by (rule accounted_pending [OF assms(1) a])
  show "\<exists>p \<in> H. p \<in> set (pending q) \<and> latest xs p = None"
    if "honest_set n H" "\<forall>(p, r) \<in> set xs. p \<in> H \<longrightarrow> r = Inr v" for H v
    by (rule consensus_waits [OF that(1) i that(2)])
  fix p result assume p: "p \<in> set (pending q)"
  have e: "query_turn threshold_consensus_process (one_honest n) p (Inl e) q \<noteq> QueryPanic \<and>
      query_turn threshold_consensus_process (one_honest n) p (Inl e) q \<noteq> Returned v" for e v
    by (simp add: query_turn_def check_errors_def Let_def)
  have r: "query_turn threshold_consensus_process (one_honest n) p (Inr r) q \<noteq> QueryPanic \<and>
      (query_turn threshold_consensus_process (one_honest n) p (Inr r) q = Returned v \<longrightarrow> is_quorum n (answered (xs @ [(p, Inr r)]) v))" for r v
    using consensus_response [OF assms(1) i p, of r] by auto
  show "query_turn threshold_consensus_process (one_honest n) p result q \<noteq> QueryPanic"
    using e r by (cases result) blast+
  show "is_quorum n (answered (xs @ [(p, result)]) v)"
    if "query_turn threshold_consensus_process (one_honest n) p result q = Returned v" for v
    using e r that by (cases result) blast+
  show "one_honest n \<le> card {k. \<exists>e. (k, Inl e) \<in> set (xs @ [(p, result)])}"
    if "query_turn threshold_consensus_process (one_honest n) p result q = GaveUp es" for es
    by (rule consensus_gives_up [OF assms(1) i p that])
next
  fix H v p result
  assume h: "honest_set n H" "p \<in> set (pending q)" "\<forall>(p', r) \<in> set (xs @ [(p, result)]). p' \<in> H \<longrightarrow> r = Inr v"
  note d = consensus_decides [OF assms h(2,1,3)]
  show "if \<forall>p' \<in> H. latest (xs @ [(p, result)]) p' = Some v
       then query_turn threshold_consensus_process (one_honest n) p result q = Returned v
       else query_turn threshold_consensus_process (one_honest n) p result q = Returned v \<or>
         (\<exists>q'. query_turn threshold_consensus_process (one_honest n) p result q = Going q')"
  proof (cases "\<forall>p' \<in> H. latest (xs @ [(p, result)]) p' = Some v")
    case True
    then show ?thesis using d by auto
  next
    case False
    then show ?thesis unfolding if_not_P [OF False] using d by blast
  qed
qed

text \<open>
  A query for verified shares: whatever arrives, the loop does not starve, and what it returns is a
  threshold of responses of distinct nodes, each of which passed the filter.
\<close>

theorem filter_query:
  assumes "small_mint n" "query_run (filter_map_threshold_process f) (one_honest n) (query_new n (filter_map_threshold_new n)) xs q"
    and "p \<in> set (pending q)"
  shows "pending q \<noteq> [] \<and> query_turn (filter_map_threshold_process f) (one_honest n) p result q \<noteq> QueryPanic \<and>
    (\<forall>m. query_turn (filter_map_threshold_process f) (one_honest n) p result q = Returned m \<longrightarrow>
      is_quorum n (set (bt_keys m)) \<and> (\<forall>p' t. bt_get m p' = Some t \<longrightarrow> (\<exists>r. (p', Inr r) \<in> set (xs @ [(p, result)]) \<and> f p' r = Inr t)))"
proof -
  note i = filter_run [OF assms(1,2)]
  have "pending q \<noteq> []" using assms(3) by auto
  then show ?thesis using filter_turn [OF i assms(3), of result] by (auto simp: is_quorum_def bt_len_keys)
qed

theorem consensus_query_witness:
  "\<exists>q. query_run threshold_consensus_process 2 (query_new (NumNodes 1) (threshold_consensus_new (NumNodes 1))) [(2, Inr (7 :: u64))] q \<and>
     pending (q :: (u64 threshold_consensus, unit) query) \<noteq> []"
proof -
  let ?n = "NumNodes 1" and ?q0 = "query_new (NumNodes 1) (threshold_consensus_new (NumNodes 1)) :: (u64 threshold_consensus, unit) query"
  have n: "small_mint ?n" by (simp add: small_mint_def total_def)
  have one: "one_honest ?n = 2" by (simp add: one_honest_def)
  have p: "2 \<in> set (pending ?q0)"
    using set_node_ids [OF n] by (simp add: query_new_def total_def)
  have "answered ([] @ [(2, Inr 7)] :: (node_id \<times> (unit + u64)) list) 7 = {2}"
    unfolding answered_def latest_simps by auto
  then have "\<not> is_quorum ?n (answered ([] @ [(2, Inr 7)] :: (node_id \<times> (unit + u64)) list) 7)"
    by (simp add: is_quorum_def threshold_def)
  then have "\<exists>q. query_turn threshold_consensus_process (one_honest ?n) 2 (Inr 7) ?q0 = Going q"
    using consensus_response [OF n consensus_inv_new [OF n] p, of 7] by blast
  then obtain q where q: "query_turn threshold_consensus_process (one_honest ?n) 2 (Inr 7) ?q0 = Going q" by blast
  from run_turn [OF run_start p q]
  have "query_run threshold_consensus_process (one_honest ?n) ?q0 [(2, Inr 7)] q" by simp
  with consensus_query [OF n this] show ?thesis unfolding one by blast
qed

end
