(* ===== verification/Gateway.thy ===== *)
theory Gateway
  imports Client_Lightning_Claims
begin

text \<open>
  The gateway daemon (\<open>picomint-gateway-daemon/src/lib.rs\<close>, \<open>main.rs\<close> and \<open>db.rs\<close>) with the gateway
  module of the client (\<open>picomint-client/src/gateway\<close>): taking on the payment of an outgoing contract,
  registering an incoming one, and the handlers of the events of the Lightning node. A handler works
  on one write transaction and commits it at its end, so it is a function of the database, with the
  calls it makes to the Lightning node on the side. The node is a parameter: what it answers.

  Then the gateway over a run: requests, registrations and the events of its Lightning node in any order,
  with crashes between what a handler asked of the node and its commit. Every contract gets at most one
  answer, which settles the sender's payment; without such a crash a contract is forfeited only if it was
  not paid and claimed only if it was, and with one the gateway can pay and forfeit.
\<close>

section \<open>State\<close>

record outgoing_row =
  og_mint :: hash256
  og_contract :: outgoing_contract
  og_outpoint :: out_point
  og_invoice :: bolt11

record incoming_row =
  ng_mint :: hash256
  ng_contract :: incoming_contract
  ng_invoice :: bolt11

text \<open>The database the daemon shares with its client: the client's tables of every added mint, and the daemon's own.\<close>

record gateway_db =
  gd_clients :: "(hash256, client_db) btmap"
  gd_outgoing :: "(hash256, outgoing_row) btmap"
  gd_attempts :: "(hash256, hash256) btmap"
  gd_incoming :: "(hash256, incoming_row) btmap"
  gd_ldk_events :: "hash256 btset"

record gateway_ctx =
  gw_client :: "hash256 \<Rightarrow> client_ctx"
  gw_secret :: "hash256 \<Rightarrow> hash256"
  gw_node_id :: secp_pk
  gw_send_fee :: payment_fee
  gw_receive_fee :: payment_fee

text \<open>What the Lightning node answers, and what it is asked to do.\<close>

record ldk_node =
  ldk_payment :: "hash256 \<Rightarrow> bool"
  ldk_accepts :: "bolt11 \<Rightarrow> bool"
  ldk_invoice :: "amount \<Rightarrow> hash256 \<Rightarrow> bolt11 option"

datatype ldk_call = LdkSend hash256 | LdkReceive hash256 | LdkClaim hash256 hash256 | LdkFail hash256

definition set_client :: "hash256 \<Rightarrow> client_db \<Rightarrow> gateway_db \<Rightarrow> gateway_db" where
  "set_client m w db = db\<lparr>gd_clients := bt_insert m w (gd_clients db)\<rparr>"

section \<open>The gateway module of the client\<close>

definition ROUTING_ACCOUNT :: account where
  "ROUTING_ACCOUNT = Primary"

abbreviation gw_ops :: "gateway_ctx \<Rightarrow> hash256 \<Rightarrow> client_ops" where
  "gw_ops G m \<equiv> ctx_ops (gw_client G m)"

definition contract_keypair :: "gateway_ctx \<Rightarrow> hash256 \<Rightarrow> hash256" where
  "contract_keypair G m = gateway_contract_keypair (ccrypto (gw_ops G m)) (gw_secret G m)"

text \<open>\<open>None\<close> for a mint that is not added.\<close>

definition gateway_pk :: "gateway_ctx \<Rightarrow> hash256 \<Rightarrow> gateway_db \<Rightarrow> xonly option" where
  "gateway_pk G m db = (if bt_has (gd_clients db) m then Some (x_only_public_key (gw_ops G m) (contract_keypair G m)) else None)"

definition daemon_gateway_info :: "gateway_ctx \<Rightarrow> hash256 \<Rightarrow> gateway_db \<Rightarrow> gateway_info option" where
  "daemon_gateway_info G m db =
     map_option (\<lambda>pk. \<lparr>module_public_key = pk, send_fee = gw_send_fee G, receive_fee = gw_receive_fee G\<rparr>) (gateway_pk G m db)"

text \<open>\<open>Failed ()\<close> is the error of a mint that is not added.\<close>

definition gateway_log_send_started ::
  "hash256 \<Rightarrow> hash256 \<Rightarrow> out_point \<Rightarrow> amount \<Rightarrow> amount \<Rightarrow> gateway_db \<Rightarrow> (unit, gateway_db) outcome" where
  "gateway_log_send_started m op p amt fee db =
     obind (ok_or () (bt_get (gd_clients db) m)) (\<lambda>w.
     obind (expect (log_event ROUTING_ACCOUNT op (GatewaySendEvent p amt fee) w)) (\<lambda>w'.
     Done (set_client m w' db)))"

text \<open>\<open>Failed ()\<close> is also that of insufficient funds.\<close>

definition gateway_start_receive ::
  "gateway_ctx \<Rightarrow> sm_id \<times> sm_id \<Rightarrow> hash256 \<Rightarrow> hash256 \<Rightarrow> incoming_contract \<Rightarrow> gateway_db \<Rightarrow> (unit, gateway_db) outcome" where
  "gateway_start_receive G ids m op c db =
     (let (k, k') = ids in
      obind (ok_or () (bt_get (gd_clients db) m)) (\<lambda>w.
      obind (expect (claim_amount c)) (\<lambda>amt.
      obind (finalize_and_submit_tx (gw_client G m) k k' ROUTING_ACCOUNT op (from_output (incoming_output amt c)) [] False
          (\<lambda>txid. GatewayReceiveEvent txid (ic_amount c) (ic_fee c)) w) (\<lambda>(txid, w').
      Done (set_client m w' db)))))"

definition claim_outgoing :: "hash256 \<Rightarrow> out_point \<Rightarrow> outgoing_contract \<Rightarrow> hash256 \<Rightarrow> client_input" where
  "claim_outgoing kp p c pre =
     \<lparr>ci_input = LightningIn (OutgoingInput p (Claim pre)), ci_keypair = kp,
      ci_amount = amount_add (oc_amount c) (oc_fee c), ci_fee = LIGHTNING_INPUT_FEE\<rparr>"

definition forfeit_signature :: "crypto \<Rightarrow> hash256 \<Rightarrow> outgoing_contract \<Rightarrow> schnorr_sig" where
  "forfeit_signature C kp c = schnorr_of_bytes (sign_schnorr C (enc_hash kp) (contract_id C c))"

text \<open>A contract too small to claim is only reported in the daemon's log.\<close>

definition gateway_finalize_send ::
  "gateway_ctx \<Rightarrow> sm_id \<times> sm_id \<Rightarrow> hash256 \<Rightarrow> hash256 \<Rightarrow> outgoing_contract \<Rightarrow> out_point \<Rightarrow> (hash256 \<times> amount) option \<Rightarrow>
   gateway_db \<Rightarrow> (unit, gateway_db) outcome" where
  "gateway_finalize_send G ids m op c p success db =
     (let (k, k') = ids; kp = contract_keypair G m in
      obind (ok_or () (bt_get (gd_clients db) m)) (\<lambda>w.
      case success of
        Some (pre, fee) \<Rightarrow>
          (case finalize_and_submit_tx (gw_client G m) k k' ROUTING_ACCOUNT op (from_input (claim_outgoing kp p c pre)) [] False
              (\<lambda>txid. GatewaySendSuccessEvent pre txid fee) w of
             Done (txid, w') \<Rightarrow> Done (set_client m w' db)
           | Failed u \<Rightarrow> Done db
           | Panicked \<Rightarrow> Panicked)
      | None \<Rightarrow>
          obind (expect (log_event ROUTING_ACCOUNT op
              (GatewaySendCancelEvent (forfeit_signature (ccrypto (gw_ops G m)) kp c)) w)) (\<lambda>w'.
          Done (set_client m w' db))))"

text \<open>What \<open>gateway_subscribe_send\<close> returns on the events so far; \<open>None\<close> while it waits.\<close>

fun gateway_answer :: "client_event \<Rightarrow> (schnorr_sig + hash256) option" where
  "gateway_answer (GatewaySendSuccessEvent pre txid fee) = Some (Inr pre)"
| "gateway_answer (GatewaySendCancelEvent s) = Some (Inl s)"
| "gateway_answer _ = None"

definition gateway_subscribe_send :: "hash256 \<Rightarrow> client_db \<Rightarrow> (schnorr_sig + hash256) option" where
  "gateway_subscribe_send op w =
     (case List.map_filter (gateway_answer \<circ> ee_event) (read_operation_events op w) of [] \<Rightarrow> None | r # rs \<Rightarrow> Some r)"

section \<open>Taking on a payment\<close>

record send_request =
  sr_mint :: hash256
  sr_contract :: outgoing_contract
  sr_outpoint :: out_point
  sr_invoice :: bolt11

definition verify_invoice :: "outgoing_contract \<Rightarrow> bolt11 \<Rightarrow> bool" where
  "verify_invoice c iv \<longleftrightarrow> iv_hash iv = invoice c"

datatype start_error =
    InvoiceNotCommitted | StartMissingAmount | PaymentHashMismatch | ContractAmountMismatch | ContractFeeMismatch
  | InvoiceHasAttempt | LdkHoldsPayment | LdkRefused | NoUnfundedContract | SwapAmountMismatch | SwapNotFunded | SourceMintGone

text \<open>
  \<open>start_payment\<close>. An error keeps what was written before it, since the caller goes on with the same
  write transaction.
\<close>

definition start_payment ::
  "gateway_ctx \<Rightarrow> ldk_node \<Rightarrow> (sm_id \<times> sm_id) \<times> (sm_id \<times> sm_id) \<Rightarrow> send_request \<Rightarrow> hash256 \<Rightarrow> gateway_db \<Rightarrow>
   (start_error \<times> gateway_db, gateway_db \<times> ldk_call list) outcome" where
  "start_payment G L ids rq op db =
     (let c = sr_contract rq; iv = sr_invoice rq; h = payment_hash c in
      obind (ensure (verify_invoice c iv) (InvoiceNotCommitted, db)) (\<lambda>_.
      obind (ok_or (StartMissingAmount, db) (iv_amount iv)) (\<lambda>amt.
      obind (ensure (iv_payment_hash iv = h) (PaymentHashMismatch, db)) (\<lambda>_.
      obind (ensure (oc_amount c = Amount amt) (ContractAmountMismatch, db)) (\<lambda>_.
      obind (expect (payment_fee_of (gw_send_fee G) amt)) (\<lambda>fee.
      obind (ensure (oc_fee c = fee) (ContractFeeMismatch, db)) (\<lambda>_.
      if gw_node_id G \<noteq> iv_payee iv then
        obind (ensure (\<not> bt_has (gd_attempts db) h) (InvoiceHasAttempt, db)) (\<lambda>_.
        obind (ensure (\<not> ldk_payment L h) (LdkHoldsPayment, db)) (\<lambda>_.
        let db1 = db\<lparr>gd_attempts := bt_insert h op (gd_attempts db)\<rparr>
        in if ldk_accepts L iv then Done (db1, [LdkSend h]) else Failed (LdkRefused, db1)))
      else
        obind (ok_or (NoUnfundedContract, db) (bt_get (gd_incoming db) h)) (\<lambda>row.
        obind (ensure (ic_amount (ng_contract row) = Amount amt) (SwapAmountMismatch, db)) (\<lambda>_.
        let pre = contract_preimage (ccrypto (gw_ops G (ng_mint row))) (ng_contract row) in
        obind (map_err (\<lambda>_. (SwapNotFunded, db)) (gateway_start_receive G (fst ids) (ng_mint row) h (ng_contract row) db)) (\<lambda>db1.
        let db2 = db1\<lparr>gd_incoming := bt_remove h (gd_incoming db1)\<rparr> in
        obind (map_err (\<lambda>_. (SourceMintGone, db2))
            (gateway_finalize_send G (snd ids) (sr_mint rq) op c (sr_outpoint rq) (Some (pre, amount_zero)) db2)) (\<lambda>db3.
        Done (db3, []))))))))))))"

datatype send_error = SendMintNotAdded | KeyedToAnotherGateway | MintUnreachable | ContractIdMismatch

text \<open>
  \<open>send\<close> up to its commit: \<open>held\<close> is what the mint answered about the outpoint. The sender then waits
  for the answer under the operation returned.
\<close>

definition gateway_send ::
  "gateway_ctx \<Rightarrow> ldk_node \<Rightarrow> (sm_id \<times> sm_id) \<times> (sm_id \<times> sm_id) \<Rightarrow> hash256 option \<Rightarrow> send_request \<Rightarrow> gateway_db \<Rightarrow>
   (send_error, hash256 \<times> gateway_db \<times> ldk_call list) outcome" where
  "gateway_send G L ids held rq db =
     (let m = sr_mint rq; c = sr_contract rq; op = contract_id (ccrypto (gw_ops G m)) c in
      obind (ok_or SendMintNotAdded (gateway_pk G m db)) (\<lambda>pk.
      obind (ensure (oc_claim_pk c = pk) KeyedToAnotherGateway) (\<lambda>_.
      obind (ok_or MintUnreachable held) (\<lambda>cid.
      obind (ensure (cid = op) ContractIdMismatch) (\<lambda>_.
      if bt_has (gd_outgoing db) op then Done (op, db, [])
      else
        (let db1 = db\<lparr>gd_outgoing := bt_insert op
               \<lparr>og_mint = m, og_contract = c, og_outpoint = sr_outpoint rq, og_invoice = sr_invoice rq\<rparr> (gd_outgoing db)\<rparr>
         in obind (map_err (\<lambda>_. SendMintNotAdded) (gateway_log_send_started m op (sr_outpoint rq) (oc_amount c) (oc_fee c) db1)) (\<lambda>db2.
            case start_payment G L ids rq op db2 of
              Done (db3, calls) \<Rightarrow> Done (op, db3, calls)
            | Panicked \<Rightarrow> Panicked
            | Failed (e, db3) \<Rightarrow>
                obind (map_err (\<lambda>_. SendMintNotAdded)
                    (gateway_finalize_send G (fst ids) m op c (sr_outpoint rq) None db3)) (\<lambda>db4.
                Done (op, db4, [])))))))))"

section \<open>Registering a receive\<close>

datatype gateway_receive_error =
    ReceiveMintNotAdded | ReceiveFeeMismatch | FeeExceedsAmount | HashHasAttempt | HashRegistered | LdkInvoiceFailed

definition gateway_receive ::
  "gateway_ctx \<Rightarrow> ldk_node \<Rightarrow> hash256 \<Rightarrow> incoming_contract \<Rightarrow> gateway_db \<Rightarrow>
   (gateway_receive_error, bolt11 \<times> gateway_db \<times> ldk_call list) outcome" where
  "gateway_receive G L m c db =
     (let h = contract_payment_hash (ccrypto (gw_ops G m)) c in
      obind (ensure (bt_has (gd_clients db) m) ReceiveMintNotAdded) (\<lambda>_.
      obind (expect (payment_fee_of (gw_receive_fee G) (msat (ic_amount c)))) (\<lambda>fee.
      obind (ensure (ic_fee c = fee) ReceiveFeeMismatch) (\<lambda>_.
      obind (ensure (claim_amount c \<noteq> None) FeeExceedsAmount) (\<lambda>_.
      obind (ensure (\<not> bt_has (gd_attempts db) h) HashHasAttempt) (\<lambda>_.
      obind (ensure (\<not> ldk_payment L h) HashRegistered) (\<lambda>_.
      obind (ok_or LdkInvoiceFailed (ldk_invoice L (ic_amount c) h)) (\<lambda>iv.
      Done (iv, db\<lparr>gd_incoming := bt_insert h \<lparr>ng_mint = m, ng_contract = c, ng_invoice = iv\<rparr> (gd_incoming db)\<rparr>,
        [LdkReceive h])))))))))"

section \<open>The events of the Lightning node\<close>

datatype ldk_event =
    PaymentClaimable hash256 u64
  | PaymentSuccessful hash256 "hash256 option" "u64 option"
  | PaymentFailed "hash256 option"
  | OtherLdkEvent

definition outgoing_attempt :: "hash256 \<Rightarrow> gateway_db \<Rightarrow> (hash256 \<times> outgoing_row) option" where
  "outgoing_attempt h db =
     Option.bind (bt_get (gd_attempts db) h) (\<lambda>op. map_option (Pair op) (bt_get (gd_outgoing db) op))"

definition handle_payment_claimable ::
  "gateway_ctx \<Rightarrow> sm_id \<times> sm_id \<Rightarrow> hash256 \<Rightarrow> u64 \<Rightarrow> gateway_db \<Rightarrow> (unit, gateway_db \<times> ldk_call list) outcome" where
  "handle_payment_claimable G ids h amt db =
     (if bt_has (gd_ldk_events db) h then Done (db, [])
      else
        (let db1 = db\<lparr>gd_ldk_events := bs_insert h (gd_ldk_events db)\<rparr>
         in case bt_get (gd_incoming db1) h of
              None \<Rightarrow> Done (db1, [LdkFail h])
            | Some row \<Rightarrow>
                let pre = contract_preimage (ccrypto (gw_ops G (ng_mint row))) (ng_contract row)
                in if ic_amount (ng_contract row) \<noteq> Amount amt then Done (db1, [LdkFail h])
                   else (case gateway_start_receive G ids (ng_mint row) h (ng_contract row) db1 of
                           Panicked \<Rightarrow> Panicked
                         | Failed u \<Rightarrow> Done (db1, [LdkFail h])
                         | Done db2 \<Rightarrow> Done (db2\<lparr>gd_incoming := bt_remove h (gd_incoming db2)\<rparr>, [LdkClaim h pre]))))"

text \<open>Both outcomes of an outgoing payment; the source mint is expected to be added.\<close>

definition handle_payment_outcome ::
  "gateway_ctx \<Rightarrow> sm_id \<times> sm_id \<Rightarrow> hash256 \<Rightarrow> (hash256 \<times> amount) option \<Rightarrow> gateway_db \<Rightarrow> (unit, gateway_db \<times> ldk_call list) outcome" where
  "handle_payment_outcome G ids h success db =
     (if bt_has (gd_ldk_events db) h then Done (db, [])
      else
        (let db1 = db\<lparr>gd_ldk_events := bs_insert h (gd_ldk_events db)\<rparr>
         in case outgoing_attempt h db1 of
              None \<Rightarrow> Done (db1, [])
            | Some (op, row) \<Rightarrow>
                (case gateway_finalize_send G ids (og_mint row) op (og_contract row) (og_outpoint row) success db1 of
                   Done db2 \<Rightarrow> Done (db2, [])
                 | _ \<Rightarrow> Panicked)))"

definition handle_payment_successful ::
  "gateway_ctx \<Rightarrow> sm_id \<times> sm_id \<Rightarrow> hash256 \<Rightarrow> hash256 \<Rightarrow> amount \<Rightarrow> gateway_db \<Rightarrow> (unit, gateway_db \<times> ldk_call list) outcome" where
  "handle_payment_successful G ids h pre fee = handle_payment_outcome G ids h (Some (pre, fee))"

definition handle_payment_failed ::
  "gateway_ctx \<Rightarrow> sm_id \<times> sm_id \<Rightarrow> hash256 \<Rightarrow> gateway_db \<Rightarrow> (unit, gateway_db \<times> ldk_call list) outcome" where
  "handle_payment_failed G ids h = handle_payment_outcome G ids h None"

fun process_ldk_event ::
  "gateway_ctx \<Rightarrow> sm_id \<times> sm_id \<Rightarrow> ldk_event \<Rightarrow> gateway_db \<Rightarrow> (unit, gateway_db \<times> ldk_call list) outcome" where
  "process_ldk_event G ids (PaymentClaimable h amt) db = handle_payment_claimable G ids h amt db"
| "process_ldk_event G ids (PaymentSuccessful h (Some pre) fee) db =
     handle_payment_successful G ids h pre (Amount (case fee of None \<Rightarrow> 0 | Some f \<Rightarrow> f)) db"
| "process_ldk_event G ids (PaymentFailed (Some h)) db = handle_payment_failed G ids h db"
| "process_ldk_event G ids _ db = Done (db, [])"

section \<open>Removing a mint\<close>

definition wipe_mint_rows :: "hash256 \<Rightarrow> gateway_db \<Rightarrow> gateway_db" where
  "wipe_mint_rows m db =
     (let gone = filter (\<lambda>(op, row). og_mint row = m) (entries (gd_outgoing db))
      in db\<lparr>gd_outgoing := fold (\<lambda>(op, row). bt_remove op) gone (gd_outgoing db),
          gd_attempts := fold (\<lambda>(op, row). bt_remove (payment_hash (og_contract row))) gone (gd_attempts db),
          gd_incoming := bt_filter (\<lambda>op row. ng_mint row \<noteq> m) (gd_incoming db)\<rparr>)"

section \<open>What an operation's log answers\<close>

definition answers :: "hash256 \<Rightarrow> client_db \<Rightarrow> (schnorr_sig + hash256) list" where
  "answers op w = List.map_filter (gateway_answer \<circ> ee_event) (read_operation_events op w)"

lemma subscribe_answers: "gateway_subscribe_send op w = (case answers op w of [] \<Rightarrow> None | r # rs \<Rightarrow> Some r)"
  by (simp add: gateway_subscribe_send_def answers_def)

lemma entries_insert_fresh:
  fixes m :: "('k::linorder, 'v) btmap"
  assumes "\<not> bt_has m k"
  shows "mset (entries (bt_insert k v m)) = add_mset (k, v) (mset (entries m))"
proof -
  have d: "distinct (entries m')" for m' :: "('k, 'v) btmap" using distinct_entries [of m'] distinct_map by blast
  have g: "(a, b) \<in> set (entries m') \<longleftrightarrow> bt_get m' a = Some b" for a b and m' :: "('k, 'v) btmap"
    by (rule bt_get_Some_iff [symmetric])
  have "set (entries (bt_insert k v m)) = insert (k, v) (set (entries m))"
  proof (rule set_eqI)
    fix p
    show "p \<in> set (entries (bt_insert k v m)) \<longleftrightarrow> p \<in> insert (k, v) (set (entries m))"
      using assms unfolding bt_has_def by (cases p) (simp only: g insert_iff bt_get_insert Pair_inject, auto)
  qed
  moreover have "(k, v) \<notin> set (entries m)" using assms by (simp add: g bt_has_def)
  ultimately have "mset_set (set (entries (bt_insert k v m))) = add_mset (k, v) (mset_set (set (entries m)))" by simp
  then show ?thesis by (simp only: mset_set_set [OF d])
qed

lemma answers_cong: "operation_log w' = operation_log w \<Longrightarrow> answers op w' = answers op w"
  by (simp add: answers_def read_operation_events_def)

lemma answers_logged:
  assumes "log_event a op ev w = Some w'"
  shows "mset (answers op' w') = mset (answers op' w) + (if op' = op then (case gateway_answer ev of None \<Rightarrow> {#} | Some r \<Rightarrow> {#r#}) else {#})"
proof -
  let ?e = "\<lparr>ee_event = ev, ee_account = a, ee_operation = op\<rparr>" and ?k = "(op, next_event_id w)"
  from assms have f: "\<not> bt_has (operation_log w) ?k" "operation_log w' = bt_insert ?k ?e (operation_log w)"
    by (auto simp: log_event_def Let_def insert_new_def bind_eq_Some_conv split: if_splits)
  have a: "mset (answers op' x) = image_mset (the \<circ> (gateway_answer \<circ> ee_event))
      (filter_mset (\<lambda>e. gateway_answer (ee_event e) \<noteq> None) (image_mset snd (filter_mset (\<lambda>e. fst (fst e) = op') (mset (entries (operation_log x))))))"
    for x by (simp add: answers_def read_operation_events_def List.map_filter_def)
  show ?thesis unfolding a f(2) entries_insert_fresh [OF f(1)] by (auto split: option.splits)
qed

lemma remove_notes_log: "remove_notes a ns db = Some db' \<Longrightarrow> operation_log db' = operation_log db"
  by (induction ns arbitrary: db) (auto simp: remove_note_def bind_eq_Some_conv split: if_splits)

lemma fund_log: "fund X a mx b db = Done (ns, rs, b', db') \<Longrightarrow> operation_log db' = operation_log db"
proof -
  have i: "operation_log (snd (issue_requests X a ds w)) = operation_log w" for ds w
    using issue_requests_spec [of X a ds w "fst (issue_requests X a ds w)" "snd (issue_requests X a ds w)"] by auto
  assume "fund X a mx b db = Done (ns, rs, b', db')"
  then show ?thesis
    by (auto simp: fund_def Let_def obind_Done_iff expect_def case_prod_unfold i remove_notes_log split: if_splits option.splits)
qed

lemma answers_submitted:
  assumes "finalize_and_submit_tx X k k' a op b targets mx event w = Done (txid, w')"
  shows "mset (answers op' w') = mset (answers op' w) +
    (if op' = op then (case gateway_answer (event txid) of None \<Rightarrow> {#} | Some r \<Rightarrow> {#r#}) else {#})"
proof -
  from assms obtain ns rs b' w1 w2 re where f: "fund X a mx b w = Done (ns, rs, b', w1)"
    and s: "submit X k a op b' re event w1 = Some (txid, w2)" and e: "operation_log w' = operation_log w2"
    by (auto simp: finalize_and_submit_tx_def Let_def obind_Done_iff expect_def add_ecash_sm_def insert_new_def split: if_splits option.splits)
  from s obtain t w4 where "log_event a op (event txid) (w1\<lparr>tx_sms := t\<rparr>) = Some w4"
    "log_event a op (TxCreateEvent txid re (total_fee b')) w4 = Some w2"
    by (auto simp: submit_def Let_def bind_eq_Some_conv add_tx_sm_def insert_new_def split: if_splits)
  moreover define w3 where "w3 = w1\<lparr>tx_sms := t\<rparr>"
  ultimately have "operation_log w3 = operation_log w1" "log_event a op (event txid) w3 = Some w4"
    "log_event a op (TxCreateEvent txid re (total_fee b')) w4 = Some w2" by simp_all
  then show ?thesis
    using answers_logged [of a op "event txid" w3 w4 op'] answers_logged [of a op "TxCreateEvent txid re (total_fee b')" w4 w2 op']
      answers_cong [OF e, of op'] answers_cong [OF fund_log [OF f], of op'] answers_cong [of w3 w1 op'] by simp
qed

section \<open>What the handlers write\<close>

text \<open>The answers an operation has under a mint.\<close>

definition ans :: "hash256 \<Rightarrow> hash256 \<Rightarrow> gateway_db \<Rightarrow> (schnorr_sig + hash256) multiset" where
  "ans m op db = (case bt_get (gd_clients db) m of None \<Rightarrow> {#} | Some w \<Rightarrow> mset (answers op w))"

text \<open>A change of the clients' tables that adds \<open>R\<close> to the answers of one operation.\<close>

definition adds :: "hash256 \<Rightarrow> hash256 \<Rightarrow> (schnorr_sig + hash256) multiset \<Rightarrow> gateway_db \<Rightarrow> gateway_db \<Rightarrow> bool" where
  "adds m op R db db' \<longleftrightarrow> gd_outgoing db' = gd_outgoing db \<and> gd_attempts db' = gd_attempts db \<and>
     gd_ldk_events db' = gd_ldk_events db \<and> (\<forall>m'. bt_has (gd_clients db') m' = bt_has (gd_clients db) m') \<and>
     (\<forall>h row. bt_get (gd_incoming db') h = Some row \<longrightarrow> bt_get (gd_incoming db) h = Some row) \<and>
     (\<forall>m' op'. ans m' op' db' = ans m' op' db + (if m' = m \<and> op' = op then R else {#}))"

lemma adds_refl [simp]: "adds m op {#} db db"
  by (simp add: adds_def)

lemma adds_trans: "adds m1 op1 {#} db db1 \<Longrightarrow> adds m op R db1 db2 \<Longrightarrow> adds m op R db db2"
  by (simp add: adds_def)

lemma set_client_adds:
  assumes "bt_get (gd_clients db) m = Some w" "\<And>op'. mset (answers op' w') = mset (answers op' w) + (if op' = op then R else {#})"
  shows "adds m op R db (set_client m w' db)"
  using assms by (auto simp: adds_def ans_def set_client_def bt_has_def)

lemma log_send_started_adds:
  assumes "gateway_log_send_started m op p amt fee db = Done db'"
  shows "adds m op {#} db db'"
proof -
  from assms obtain w w' where w: "bt_get (gd_clients db) m = Some w"
    "log_event ROUTING_ACCOUNT op (GatewaySendEvent p amt fee) w = Some w'" "db' = set_client m w' db"
    by (auto simp: gateway_log_send_started_def obind_Done_iff ok_or_def expect_def split: option.splits)
  then show ?thesis using answers_logged [OF w(2)] by (simp add: set_client_adds)
qed

lemma start_receive_adds:
  assumes "gateway_start_receive G ids m op c db = Done db'"
  shows "adds m op {#} db db'"
proof -
  from assms obtain k k' amt w w' txid where w: "bt_get (gd_clients db) m = Some w"
    "finalize_and_submit_tx (gw_client G m) k k' ROUTING_ACCOUNT op (from_output (incoming_output amt c)) [] False
      (\<lambda>txid. GatewayReceiveEvent txid (ic_amount c) (ic_fee c)) w = Done (txid, w')" "db' = set_client m w' db"
    by (cases ids) (auto simp: gateway_start_receive_def obind_Done_iff ok_or_def expect_def split: option.splits)
  then show ?thesis using answers_submitted [OF w(2)] by (simp add: set_client_adds)
qed

lemma swap_adds:
  "gateway_start_receive G ids m' op' c db = Done db1 \<Longrightarrow> adds m op {#} db (db1\<lparr>gd_incoming := bt_remove h (gd_incoming db1)\<rparr>)"
  by (drule start_receive_adds) (auto simp: adds_def ans_def split: if_splits)

lemma finalize_send_adds:
  assumes "gateway_finalize_send G ids m op c p success db = Done db'"
  shows "\<exists>R. adds m op R db db' \<and> (case success of
    None \<Rightarrow> R = {#Inl (forfeit_signature (ccrypto (gw_ops G m)) (contract_keypair G m) c)#}
  | Some (pre, fee) \<Rightarrow> R = {#} \<or> R = {#Inr pre#})"
proof -
  from assms obtain w where w: "bt_get (gd_clients db) m = Some w"
    by (cases ids) (auto simp: gateway_finalize_send_def obind_Done_iff ok_or_def split: option.splits)
  show ?thesis
  proof (cases success)
    case None
    with assms w obtain w' where w': "log_event ROUTING_ACCOUNT op
        (GatewaySendCancelEvent (forfeit_signature (ccrypto (gw_ops G m)) (contract_keypair G m) c)) w = Some w'" "db' = set_client m w' db"
      by (cases ids) (auto simp: gateway_finalize_send_def obind_Done_iff ok_or_def expect_def Let_def split: option.splits)
    then show ?thesis using None answers_logged [OF w'(1)] set_client_adds [OF w] by simp
  next
    case (Some x)
    obtain pre fee where x: "x = (pre, fee)" by (cases x)
    show ?thesis
    proof (cases "db' = db")
      case True
      then show ?thesis using Some x by (intro exI [of _ "{#}"]) simp
    next
      case False
      with assms w Some x obtain k k' txid w' where w': "finalize_and_submit_tx (gw_client G m) k k' ROUTING_ACCOUNT op
          (from_input (claim_outgoing (contract_keypair G m) p c pre)) [] False (\<lambda>txid. GatewaySendSuccessEvent pre txid fee) w = Done (txid, w')"
        "db' = set_client m w' db"
        by (cases ids) (auto simp: gateway_finalize_send_def obind_Done_iff ok_or_def Let_def split: outcome.splits)
      then show ?thesis using Some x answers_submitted [OF w'(1)] set_client_adds [OF w, of w' op "{#Inr pre#}"]
        by (intro exI [of _ "{#Inr pre#}"]) simp
    qed
  qed
qed

lemma obind_Failed_iff: "obind x f = Failed e \<longleftrightarrow> x = Failed e \<or> (\<exists>z. x = Done z \<and> f z = Failed e)"
  by (cases x) auto

lemma map_err_Failed_iff: "map_err f x = Failed e \<longleftrightarrow> (\<exists>e'. x = Failed e' \<and> e = f e')"
  by (cases x) auto

text \<open>The row of the attempt a payment over Lightning takes.\<close>

definition attempt_free :: "ldk_node \<Rightarrow> hash256 \<Rightarrow> gateway_db \<Rightarrow> bool" where
  "attempt_free L h db \<longleftrightarrow> bt_get (gd_attempts db) h = None \<and> \<not> ldk_payment L h"

lemma start_payment_Done:
  assumes "start_payment G L ids rq op db = Done (db', calls)"
  shows "(\<exists>h. h = payment_hash (sr_contract rq) \<and> attempt_free L h db \<and> calls = [LdkSend h] \<and>
      db' = db\<lparr>gd_attempts := bt_insert h op (gd_attempts db)\<rparr>) \<or>
    calls = [] \<and> (\<exists>R. adds (sr_mint rq) op R db db' \<and> (R = {#} \<or>
      (\<exists>row :: incoming_row. bt_get (gd_incoming db) (payment_hash (sr_contract rq)) = Some row \<and>
         R = {#Inr (contract_preimage (ccrypto (gw_ops G (ng_mint row))) (ng_contract row))#})))"
proof (cases "gw_node_id G = iv_payee (sr_invoice rq)")
  case False
  with assms show ?thesis
    by (auto simp: start_payment_def obind_Done_iff Let_def attempt_free_def bt_has_def split: if_splits)
next
  case True
  with assms have "\<exists>(row :: incoming_row) db1. bt_get (gd_incoming db) (payment_hash (sr_contract rq)) = Some row \<and> gateway_start_receive G (fst ids) (ng_mint row) (payment_hash (sr_contract rq)) (ng_contract row) db = Done db1 \<and>
    gateway_finalize_send G (snd ids) (sr_mint rq) op (sr_contract rq) (sr_outpoint rq)
      (Some (contract_preimage (ccrypto (gw_ops G (ng_mint row))) (ng_contract row), amount_zero))
      (db1\<lparr>gd_incoming := bt_remove (payment_hash (sr_contract rq)) (gd_incoming db1)\<rparr>) = Done db' \<and> calls = []"
    by (clarsimp simp: start_payment_def obind_Done_iff Let_def)
  then obtain row :: incoming_row and db1 where row: "bt_get (gd_incoming db) (payment_hash (sr_contract rq)) = Some row"
    and r: "gateway_start_receive G (fst ids) (ng_mint row) (payment_hash (sr_contract rq)) (ng_contract row) db = Done db1"
    and f: "gateway_finalize_send G (snd ids) (sr_mint rq) op (sr_contract rq) (sr_outpoint rq)
      (Some (contract_preimage (ccrypto (gw_ops G (ng_mint row))) (ng_contract row), amount_zero))
      (db1\<lparr>gd_incoming := bt_remove (payment_hash (sr_contract rq)) (gd_incoming db1)\<rparr>) = Done db'" and c: "calls = []"
    by (elim exE conjE) (rule that)
  from finalize_send_adds [OF f] adds_trans [OF swap_adds [OF r]] row c show ?thesis by fastforce
qed

lemma start_payment_Failed:
  assumes "start_payment G L ids rq op db = Failed (e, db')"
  shows "\<exists>t. adds (sr_mint rq) op {#} (db\<lparr>gd_attempts := t\<rparr>) db' \<and> (t = gd_attempts db \<or>
    attempt_free L (payment_hash (sr_contract rq)) db \<and> t = bt_insert (payment_hash (sr_contract rq)) op (gd_attempts db))"
proof (cases "gw_node_id G = iv_payee (sr_invoice rq)")
  case False
  with assms have "db' = db \<or> attempt_free L (payment_hash (sr_contract rq)) db \<and>
      db' = db\<lparr>gd_attempts := bt_insert (payment_hash (sr_contract rq)) op (gd_attempts db)\<rparr>"
    by (auto simp: start_payment_def obind_Failed_iff map_err_Failed_iff Let_def attempt_free_def bt_has_def split: if_splits)
  then show ?thesis
  proof
    assume "db' = db"
    then show ?thesis by (intro exI [of _ "gd_attempts db"]) simp
  next
    assume "attempt_free L (payment_hash (sr_contract rq)) db \<and>
      db' = db\<lparr>gd_attempts := bt_insert (payment_hash (sr_contract rq)) op (gd_attempts db)\<rparr>"
    then show ?thesis by (intro exI [of _ "bt_insert (payment_hash (sr_contract rq)) op (gd_attempts db)"]) simp
  qed
next
  case True
  with assms have "db' = db \<or> (\<exists>(row :: incoming_row) db1. gateway_start_receive G (fst ids) (ng_mint row) (payment_hash (sr_contract rq)) (ng_contract row) db = Done db1 \<and>
      db' = db1\<lparr>gd_incoming := bt_remove (payment_hash (sr_contract rq)) (gd_incoming db1)\<rparr>)"
    by (auto simp: start_payment_def obind_Failed_iff map_err_Failed_iff Let_def)
  then have "adds (sr_mint rq) op {#} db db'" by (elim disjE exE conjE) (simp, hypsubst, erule swap_adds)
  then show ?thesis by (intro exI [of _ "gd_attempts db"]) simp
qed

lemma gateway_send_cases:
  assumes "gateway_send G L ids held rq db = Done (op, db', calls)"
  defines "m \<equiv> sr_mint rq" and "c \<equiv> sr_contract rq"
  shows "op = contract_id (ccrypto (gw_ops G m)) c" "bt_has (gd_clients db) m" "oc_claim_pk c = x_only_public_key (gw_ops G m) (contract_keypair G m)"
    "bt_has (gd_outgoing db) op \<and> db' = db \<and> calls = [] \<or>
     \<not> bt_has (gd_outgoing db) op \<and> (\<exists>db2. gateway_log_send_started m op (sr_outpoint rq) (oc_amount c) (oc_fee c)
         (db\<lparr>gd_outgoing := bt_insert op
          \<lparr>og_mint = m, og_contract = c, og_outpoint = sr_outpoint rq, og_invoice = sr_invoice rq\<rparr> (gd_outgoing db)\<rparr>) = Done db2 \<and>
       (start_payment G L ids rq op db2 = Done (db', calls) \<or>
        (\<exists>e db3. start_payment G L ids rq op db2 = Failed (e, db3) \<and> calls = [] \<and>
           gateway_finalize_send G (fst ids) m op c (sr_outpoint rq) None db3 = Done db')))"
proof -
  let ?op = "contract_id (ccrypto (gw_ops G m)) c"
  let ?db1 = "db\<lparr>gd_outgoing := bt_insert ?op
          \<lparr>og_mint = m, og_contract = c, og_outpoint = sr_outpoint rq, og_invoice = sr_invoice rq\<rparr> (gd_outgoing db)\<rparr>"
  from assms(1) show "bt_has (gd_clients db) m" "oc_claim_pk c = x_only_public_key (gw_ops G m) (contract_keypair G m)"
    by (auto simp: gateway_send_def Let_def obind_Done_iff gateway_pk_def m_def c_def split: if_split_asm)
  have "op = ?op \<and> (bt_has (gd_outgoing db) ?op \<and> db' = db \<and> calls = [] \<or>
     \<not> bt_has (gd_outgoing db) ?op \<and> (\<exists>db2. gateway_log_send_started m ?op (sr_outpoint rq) (oc_amount c) (oc_fee c) ?db1 = Done db2 \<and>
       (start_payment G L ids rq ?op db2 = Done (db', calls) \<or>
        (\<exists>e db3. start_payment G L ids rq ?op db2 = Failed (e, db3) \<and> calls = [] \<and>
           gateway_finalize_send G (fst ids) m ?op c (sr_outpoint rq) None db3 = Done db'))))"
  proof (cases "bt_has (gd_outgoing db) ?op")
    case True
    with assms(1) show ?thesis by (auto simp: gateway_send_def Let_def obind_Done_iff m_def c_def)
  next
    case False
    with assms(1) have "\<exists>db2. gateway_log_send_started m ?op (sr_outpoint rq) (oc_amount c) (oc_fee c) ?db1 = Done db2 \<and>
        (case start_payment G L ids rq ?op db2 of
              Done (db3, calls) \<Rightarrow> Done (?op, db3, calls)
            | Panicked \<Rightarrow> Panicked
            | Failed (e, db3) \<Rightarrow>
                obind (map_err (\<lambda>_. SendMintNotAdded) (gateway_finalize_send G (fst ids) m ?op c (sr_outpoint rq) None db3)) (\<lambda>db4.
                Done (?op, db4, []))) = Done (op, db', calls)"
      unfolding m_def c_def by (clarsimp simp: gateway_send_def Let_def obind_Done_iff)
    then obtain db2 where l: "gateway_log_send_started m ?op (sr_outpoint rq) (oc_amount c) (oc_fee c) ?db1 = Done db2"
      and s: "(case start_payment G L ids rq ?op db2 of
              Done (db3, calls) \<Rightarrow> Done (?op, db3, calls)
            | Panicked \<Rightarrow> Panicked
            | Failed (e, db3) \<Rightarrow>
                obind (map_err (\<lambda>_. SendMintNotAdded) (gateway_finalize_send G (fst ids) m ?op c (sr_outpoint rq) None db3)) (\<lambda>db4.
                Done (?op, db4, []))) = Done (op, db', calls)" by (elim exE conjE) (rule that)
    from False l s show ?thesis by (cases "start_payment G L ids rq ?op db2") (auto simp: obind_Done_iff)
  qed
  then show "op = ?op" "bt_has (gd_outgoing db) op \<and> db' = db \<and> calls = [] \<or>
     \<not> bt_has (gd_outgoing db) op \<and> (\<exists>db2. gateway_log_send_started m op (sr_outpoint rq) (oc_amount c) (oc_fee c)
         (db\<lparr>gd_outgoing := bt_insert op
          \<lparr>og_mint = m, og_contract = c, og_outpoint = sr_outpoint rq, og_invoice = sr_invoice rq\<rparr> (gd_outgoing db)\<rparr>) = Done db2 \<and>
       (start_payment G L ids rq op db2 = Done (db', calls) \<or>
        (\<exists>e db3. start_payment G L ids rq op db2 = Failed (e, db3) \<and> calls = [] \<and>
           gateway_finalize_send G (fst ids) m op c (sr_outpoint rq) None db3 = Done db')))" by blast+
qed

text \<open>What a request that is taken on changes: its row, possibly the attempt, and at most one answer.\<close>

lemma gateway_send_Done:
  assumes "gateway_send G L ids held rq db = Done (op, db', calls)"
  shows "op = contract_id (ccrypto (gw_ops G (sr_mint rq))) (sr_contract rq) \<and>
    (db' = db \<and> calls = [] \<and> bt_has (gd_outgoing db) op \<or>
     bt_get (gd_outgoing db) op = None \<and> bt_has (gd_clients db) (sr_mint rq) \<and>
     (\<exists>R t. adds (sr_mint rq) op R (db\<lparr>gd_outgoing := bt_insert op
          \<lparr>og_mint = sr_mint rq, og_contract = sr_contract rq, og_outpoint = sr_outpoint rq, og_invoice = sr_invoice rq\<rparr> (gd_outgoing db),
          gd_attempts := t\<rparr>) db' \<and>
        (t = gd_attempts db \<and> calls = [] \<and> size R \<le> 1 \<or>
         attempt_free L (payment_hash (sr_contract rq)) db \<and> t = bt_insert (payment_hash (sr_contract rq)) op (gd_attempts db) \<and>
           (calls = [LdkSend (payment_hash (sr_contract rq))] \<and> R = {#} \<or> calls = [] \<and> (\<exists>s. R = {#Inl s#})))))"
proof -
  let ?m = "sr_mint rq" and ?c = "sr_contract rq" and ?h = "payment_hash (sr_contract rq)"
  note k = gateway_send_cases [OF assms]
  note op = k(1)
  show ?thesis
  proof (cases "bt_has (gd_outgoing db) op")
    case True
    with k show ?thesis by blast
  next
    case False
    let ?db1 = "db\<lparr>gd_outgoing := bt_insert op
          \<lparr>og_mint = ?m, og_contract = ?c, og_outpoint = sr_outpoint rq, og_invoice = sr_invoice rq\<rparr> (gd_outgoing db)\<rparr>"
    from k(4) False obtain db2 where l: "gateway_log_send_started ?m op (sr_outpoint rq) (oc_amount ?c) (oc_fee ?c) ?db1 = Done db2"
      and s: "start_payment G L ids rq op db2 = Done (db', calls) \<or>
        (\<exists>e db3. start_payment G L ids rq op db2 = Failed (e, db3) \<and> calls = [] \<and>
           gateway_finalize_send G (fst ids) ?m op ?c (sr_outpoint rq) None db3 = Done db')" by blast
    note has = k(2)
    note a = log_send_started_adds [OF l]
    have at: "attempt_free L ?h db2 = attempt_free L ?h db" "gd_attempts db2 = gd_attempts db" using a by (simp_all add: adds_def attempt_free_def)
    have mv: "adds ?m op R (?db1\<lparr>gd_attempts := t\<rparr>) db'" if "adds ?m op R (db2\<lparr>gd_attempts := t\<rparr>) db'" for R t
      using that a by (simp add: adds_def ans_def)
    have mv0: "adds ?m op R (?db1\<lparr>gd_attempts := gd_attempts db\<rparr>) db'" if "adds ?m op R db2 db'" for R
      using that a by (simp add: adds_def ans_def)
    have n: "bt_get (gd_outgoing db) op = None" using False by (simp add: bt_has_def)
    from s show ?thesis
    proof
      assume "start_payment G L ids rq op db2 = Done (db', calls)"
      from start_payment_Done [OF this] show ?thesis
      proof
        assume "\<exists>h. h = ?h \<and> attempt_free L h db2 \<and> calls = [LdkSend h] \<and> db' = db2\<lparr>gd_attempts := bt_insert h op (gd_attempts db2)\<rparr>"
        then have h: "attempt_free L ?h db" "calls = [LdkSend ?h]" "adds ?m op {#} (db2\<lparr>gd_attempts := bt_insert ?h op (gd_attempts db)\<rparr>) db'"
          using at by auto
        show ?thesis using op n has h mv [OF h(3)] by auto
      next
        assume "calls = [] \<and> (\<exists>R. adds ?m op R db2 db' \<and> (R = {#} \<or> (\<exists>row :: incoming_row. bt_get (gd_incoming db2) ?h = Some row \<and>
         R = {#Inr (contract_preimage (ccrypto (gw_ops G (ng_mint row))) (ng_contract row))#})))"
        then obtain R where h: "calls = []" "adds ?m op R db2 db'" "size R \<le> 1" by auto
        from op n has h(1,3) mv0 [OF h(2)] show ?thesis
          by (intro conjI disjI2) (assumption, assumption, assumption, intro exI conjI, assumption, intro disjI1, simp)
      qed
    next
      assume "\<exists>e db3. start_payment G L ids rq op db2 = Failed (e, db3) \<and> calls = [] \<and>
           gateway_finalize_send G (fst ids) ?m op ?c (sr_outpoint rq) None db3 = Done db'"
      then obtain e db3 where f: "start_payment G L ids rq op db2 = Failed (e, db3)" "calls = []"
        "gateway_finalize_send G (fst ids) ?m op ?c (sr_outpoint rq) None db3 = Done db'" by blast
      from finalize_send_adds [OF f(3)] obtain sg where g: "adds ?m op {#Inl sg#} db3 db'" by auto
      from start_payment_Failed [OF f(1)] obtain t where t: "adds ?m op {#} (db2\<lparr>gd_attempts := t\<rparr>) db3"
        "t = gd_attempts db \<or> attempt_free L ?h db \<and> t = bt_insert ?h op (gd_attempts db)" using at by auto
      show ?thesis using op n has f(2) t(2) mv [OF adds_trans [OF t(1) g]] by fastforce
    qed
  qed
qed

lemma handle_claimable_Done:
  assumes "handle_payment_claimable G ids h amt db = Done (db', calls)"
  shows "bt_has (gd_ldk_events db) h \<and> db' = db \<or>
    (\<exists>m op. adds m op {#} (db\<lparr>gd_ldk_events := bs_insert h (gd_ldk_events db)\<rparr>) db')"
proof (cases "bt_has (gd_ldk_events db) h")
  case True
  with assms show ?thesis by (simp add: handle_payment_claimable_def)
next
  case False
  let ?db1 = "db\<lparr>gd_ldk_events := bs_insert h (gd_ldk_events db)\<rparr>"
  show ?thesis
  proof (cases "db' = ?db1")
    case True
    then show ?thesis by (auto simp: adds_def)
  next
    case nt: False
    with assms False obtain row :: incoming_row and db2 where
      "gateway_start_receive G ids (ng_mint row) h (ng_contract row) ?db1 = Done db2" "db' = db2\<lparr>gd_incoming := bt_remove h (gd_incoming db2)\<rparr>"
      by (auto simp: handle_payment_claimable_def Let_def split: option.split_asm if_split_asm outcome.split_asm)
    then show ?thesis using swap_adds by blast
  qed
qed

lemma handle_outcome_Done:
  assumes "handle_payment_outcome G ids h success db = Done (db', calls)"
  shows "bt_has (gd_ldk_events db) h \<and> db' = db \<or>
    \<not> bt_has (gd_ldk_events db) h \<and> (let db1 = db\<lparr>gd_ldk_events := bs_insert h (gd_ldk_events db)\<rparr> in
      outgoing_attempt h db = None \<and> db' = db1 \<or>
      (\<exists>op row R. outgoing_attempt h db = Some (op, row) \<and> adds (og_mint row) op R db1 db' \<and>
         (case success of None \<Rightarrow> R = {#Inl (forfeit_signature (ccrypto (gw_ops G (og_mint row))) (contract_keypair G (og_mint row)) (og_contract row))#} | Some (pre, fee) \<Rightarrow> R = {#} \<or> R = {#Inr pre#})))"
proof (cases "bt_has (gd_ldk_events db) h")
  case True
  with assms show ?thesis by (simp add: handle_payment_outcome_def)
next
  case False
  let ?db1 = "db\<lparr>gd_ldk_events := bs_insert h (gd_ldk_events db)\<rparr>"
  have e: "outgoing_attempt h ?db1 = outgoing_attempt h db" by (simp add: outgoing_attempt_def)
  show ?thesis
  proof (cases "outgoing_attempt h db")
    case None
    with assms False e show ?thesis by (simp add: handle_payment_outcome_def Let_def)
  next
    case (Some x)
    obtain op row where x: "x = (op, row)" by (cases x)
    with Some assms False e have "gateway_finalize_send G ids (og_mint row) op (og_contract row) (og_outpoint row) success ?db1 = Done db'"
      by (simp add: handle_payment_outcome_def Let_def split: outcome.split_asm)
    from finalize_send_adds [OF this] obtain R where "adds (og_mint row) op R ?db1 db'"
      "case success of None \<Rightarrow> R = {#Inl (forfeit_signature (ccrypto (gw_ops G (og_mint row))) (contract_keypair G (og_mint row)) (og_contract row))#} | Some (pre, fee) \<Rightarrow> R = {#} \<or> R = {#Inr pre#}"
      by (cases success) (auto split: prod.splits)
    with Some x False show ?thesis by (simp only: Let_def) blast
  qed
qed

lemma gateway_receive_Done:
  assumes "gateway_receive G L m c db = Done (iv, db', calls)"
  shows "\<exists>t. db' = db\<lparr>gd_incoming := t\<rparr>"
  using assms by (auto simp: gateway_receive_def Let_def obind_Done_iff)

section \<open>Runs\<close>

text \<open>
  What the Lightning node knows of the payment of a hash: it holds every payment it accepted, and
  reports an outcome only of one, always the same, as often as it likes.
\<close>

datatype payment_status = Unsent | Inflight | PaidWith hash256 | NotPaid

definition truthful :: "ldk_node \<Rightarrow> (hash256 \<Rightarrow> payment_status) \<Rightarrow> bool" where
  "truthful L F \<longleftrightarrow> (\<forall>h. F h \<noteq> Unsent \<longrightarrow> ldk_payment L h)"

definition sent :: "ldk_call list \<Rightarrow> (hash256 \<Rightarrow> payment_status) \<Rightarrow> hash256 \<Rightarrow> payment_status" where
  "sent calls F h = (if LdkSend h \<in> set calls then Inflight else F h)"

lemma sent_Nil [simp]: "sent [] F = F"
  by (rule ext) (simp add: sent_def)

fun reports :: "ldk_event \<Rightarrow> (hash256 \<Rightarrow> payment_status) \<Rightarrow> (hash256 \<Rightarrow> payment_status) \<Rightarrow> bool" where
  "reports (PaymentSuccessful h (Some pre) fee) F F' \<longleftrightarrow> F h \<in> {Inflight, PaidWith pre} \<and> F' = F(h := PaidWith pre)"
| "reports (PaymentFailed (Some h)) F F' \<longleftrightarrow> F h \<in> {Inflight, NotPaid} \<and> F' = F(h := NotPaid)"
| "reports _ F F' \<longleftrightarrow> F' = F"

text \<open>
  A step of the gateway. A crash loses the write transaction of a handler, after the node may have
  accepted a payment it asked for: that step is there for \<open>crashes\<close> only. The other work of the client
  on its tables adds no answer. Removing a mint is no step; what it breaks is at the end.
\<close>

inductive gstep :: "gateway_ctx \<Rightarrow> bool \<Rightarrow> gateway_db \<times> (hash256 \<Rightarrow> payment_status) \<Rightarrow> gateway_db \<times> (hash256 \<Rightarrow> payment_status) \<Rightarrow> bool"
  for G :: gateway_ctx and crashes :: bool where
  take_on: "truthful L F \<Longrightarrow> gateway_send G L ids held rq db = Done (op, db', calls) \<Longrightarrow> gstep G crashes (db, F) (db', sent calls F)"
| take_on_lost: "crashes \<Longrightarrow> truthful L F \<Longrightarrow> gateway_send G L ids held rq db = Done (op, db', calls) \<Longrightarrow> gstep G crashes (db, F) (db, sent calls F)"
| register: "truthful L F \<Longrightarrow> gateway_receive G L m c db = Done (iv, db', calls) \<Longrightarrow> gstep G crashes (db, F) (db', F)"
| event: "reports e F F' \<Longrightarrow> process_ldk_event G ids e db = Done (db', calls) \<Longrightarrow> gstep G crashes (db, F) (db', F')"
| event_lost: "reports e F F' \<Longrightarrow> gstep G crashes (db, F) (db, F')"
| client_work: "bt_get (gd_clients db) m = Some w \<Longrightarrow> (\<And>op. answers op w' = answers op w) \<Longrightarrow> gstep G crashes (db, F) (set_client m w' db, F)"

definition gateway_start :: "gateway_db \<Rightarrow> bool" where
  "gateway_start db \<longleftrightarrow> gd_outgoing db = bt_empty \<and> gd_attempts db = bt_empty \<and> gd_incoming db = bt_empty \<and> (\<forall>m op. ans m op db = {#})"

definition gateway_reaches :: "gateway_ctx \<Rightarrow> bool \<Rightarrow> gateway_db \<Rightarrow> (hash256 \<Rightarrow> payment_status) \<Rightarrow> bool" where
  "gateway_reaches G crashes db F \<longleftrightarrow> (\<exists>db0. gateway_start db0 \<and> (gstep G crashes)\<^sup>*\<^sup>* (db0, \<lambda>h. Unsent) (db, F))"

text \<open>What the answers of an attempt say of its payment; \<open>marked\<close> once an event of the hash was handled.\<close>

definition answer_fits :: "payment_status \<Rightarrow> bool \<Rightarrow> (schnorr_sig + hash256) multiset \<Rightarrow> bool" where
  "answer_fits f marked A \<longleftrightarrow> A = {#} \<or> (\<exists>s. A = {#Inl s#} \<and> (f = Unsent \<or> f = NotPaid \<and> marked)) \<or>
     (\<exists>p. A = {#Inr p#} \<and> f = PaidWith p \<and> marked)"

definition gateway_ok :: "gateway_db \<times> (hash256 \<Rightarrow> payment_status) \<Rightarrow> bool" where
  "gateway_ok = (\<lambda>(db, F).
     (\<forall>op. bt_get (gd_outgoing db) op = None \<longrightarrow> (\<forall>m. ans m op db = {#})) \<and>
     (\<forall>op row. bt_get (gd_outgoing db) op = Some row \<longrightarrow>
        (\<forall>m. size (ans m op db) \<le> (if m = og_mint row then 1 else 0))) \<and>
     (\<forall>h op. bt_get (gd_attempts db) h = Some op \<longrightarrow> (\<exists>row. bt_get (gd_outgoing db) op = Some row \<and>
        payment_hash (og_contract row) = h \<and> answer_fits (F h) (bt_has (gd_ldk_events db) h) (ans (og_mint row) op db))))"

lemma gateway_ok_parts:
  assumes "gateway_ok (db, F)"
  shows "bt_get (gd_outgoing db) op = None \<Longrightarrow> ans m op db = {#}"
    "bt_get (gd_outgoing db) op = Some row \<Longrightarrow> size (ans m op db) \<le> (if m = og_mint row then 1 else 0)"
    "bt_get (gd_attempts db) h = Some op \<Longrightarrow> \<exists>row. bt_get (gd_outgoing db) op = Some row \<and>
        payment_hash (og_contract row) = h \<and> answer_fits (F h) (bt_has (gd_ldk_events db) h) (ans (og_mint row) op db)"
  using assms by (auto simp: gateway_ok_def)

lemma gateway_okI:
  assumes "\<And>op m. bt_get (gd_outgoing db) op = None \<Longrightarrow> ans m op db = {#}"
    "\<And>op row m. bt_get (gd_outgoing db) op = Some row \<Longrightarrow> size (ans m op db) \<le> (if m = og_mint row then 1 else 0)"
    "\<And>h op. bt_get (gd_attempts db) h = Some op \<Longrightarrow> \<exists>row. bt_get (gd_outgoing db) op = Some row \<and>
        payment_hash (og_contract row) = h \<and> answer_fits (F h) (bt_has (gd_ldk_events db) h) (ans (og_mint row) op db)"
  shows "gateway_ok (db, F)"
  unfolding gateway_ok_def using assms by simp

lemma gateway_ok_same:
  assumes ok: "gateway_ok (db, F)"
    and same: "gd_outgoing db' = gd_outgoing db" "gd_attempts db' = gd_attempts db" "\<And>m op. ans m op db' = ans m op db"
    and fits: "\<And>h A. bt_has (gd_attempts db) h \<Longrightarrow> answer_fits (F h) (bt_has (gd_ldk_events db) h) A \<Longrightarrow>
      answer_fits (F' h) (bt_has (gd_ldk_events db') h) A"
  shows "gateway_ok (db', F')"
proof (rule gateway_okI)
  fix h op assume "bt_get (gd_attempts db') h = Some op"
  then have a: "bt_get (gd_attempts db) h = Some op" using same(2) by simp
  then have "bt_has (gd_attempts db) h" by (simp add: bt_has_def)
  from fits [OF this] gateway_ok_parts(3) [OF ok a] same show "\<exists>row. bt_get (gd_outgoing db') op = Some row \<and>
        payment_hash (og_contract row) = h \<and> answer_fits (F' h) (bt_has (gd_ldk_events db') h) (ans (og_mint row) op db')" by auto
qed (use same gateway_ok_parts(1,2) [OF ok] in simp_all)

lemma fits_mono: "answer_fits f mk A \<Longrightarrow> (mk \<Longrightarrow> mk') \<Longrightarrow> answer_fits f mk' A"
  by (auto simp: answer_fits_def)

lemma fits_reports: "reports e F F' \<Longrightarrow> answer_fits (F h) mk A \<Longrightarrow> answer_fits (F' h) mk A"
  by (cases "(e, F, F')" rule: reports.cases) (auto simp: answer_fits_def)

text \<open>A request.\<close>

lemma take_on_ok:
  assumes ok: "gateway_ok (db, F)" and L: "truthful L F" and s: "gateway_send G L ids held rq db = Done (op, db', calls)"
  shows "gateway_ok (db', sent calls F)"
proof -
  let ?m = "sr_mint rq" and ?c = "sr_contract rq" and ?h = "payment_hash (sr_contract rq)"
  let ?row = "\<lparr>og_mint = ?m, og_contract = ?c, og_outpoint = sr_outpoint rq, og_invoice = sr_invoice rq\<rparr>"
  have nosend: "sent [] F = F" by (simp add: sent_def fun_eq_iff)
  from gateway_send_Done [OF s] consider (old) "db' = db" "calls = []"
    | (new) R t where "bt_get (gd_outgoing db) op = None"
      "adds ?m op R (db\<lparr>gd_outgoing := bt_insert op ?row (gd_outgoing db), gd_attempts := t\<rparr>) db'"
      "t = gd_attempts db \<and> calls = [] \<and> size R \<le> 1 \<or>
         attempt_free L ?h db \<and> t = bt_insert ?h op (gd_attempts db) \<and> (calls = [LdkSend ?h] \<and> R = {#} \<or> calls = [] \<and> (\<exists>s. R = {#Inl s#}))"
    by blast
  then show ?thesis
  proof cases
    case old
    then show ?thesis using ok nosend by simp
  next
    case new
    have d: "gd_outgoing db' = bt_insert op ?row (gd_outgoing db)" "gd_attempts db' = t" "gd_ldk_events db' = gd_ldk_events db"
      "\<And>m' op'. ans m' op' db' = ans m' op' db + (if m' = ?m \<and> op' = op then R else {#})"
      using new(2) by (simp_all add: adds_def ans_def)
    note p = gateway_ok_parts [OF ok]
    have R: "size R \<le> 1" using new(3) by auto
    show ?thesis
    proof (rule gateway_okI)
      fix op' m assume "bt_get (gd_outgoing db') op' = None"
      then have "op' \<noteq> op" "bt_get (gd_outgoing db) op' = None" using d(1) by (simp_all split: if_splits)
      then show "ans m op' db' = {#}" using d(4) p(1) by simp
    next
      fix op' row m assume "bt_get (gd_outgoing db') op' = Some row"
      then have "op' = op \<and> row = ?row \<or> op' \<noteq> op \<and> bt_get (gd_outgoing db) op' = Some row" using d(1) by (auto split: if_splits)
      then show "size (ans m op' db') \<le> (if m = og_mint row then 1 else 0)"
      proof (elim disjE conjE)
        assume "op' = op" "row = ?row"
        then show ?thesis using d(4) p(1) [OF new(1)] R by simp
      next
        assume "op' \<noteq> op" "bt_get (gd_outgoing db) op' = Some row"
        then show ?thesis using d(4) [of m op'] p(2) [of op' row m] by simp
      qed
    next
      fix h' op' assume a: "bt_get (gd_attempts db') h' = Some op'"
      have other: "\<exists>row. bt_get (gd_outgoing db') op' = Some row \<and> payment_hash (og_contract row) = h' \<and>
          answer_fits (F h') (bt_has (gd_ldk_events db') h') (ans (og_mint row) op' db')" if o: "bt_get (gd_attempts db) h' = Some op'"
      proof -
        from p(3) [OF o] obtain row where r: "bt_get (gd_outgoing db) op' = Some row" "payment_hash (og_contract row) = h'"
          "answer_fits (F h') (bt_has (gd_ldk_events db) h') (ans (og_mint row) op' db)" by blast
        then have "op' \<noteq> op" using new(1) by auto
        with r d show ?thesis by simp
      qed
      show "\<exists>row. bt_get (gd_outgoing db') op' = Some row \<and> payment_hash (og_contract row) = h' \<and>
          answer_fits (sent calls F h') (bt_has (gd_ldk_events db') h') (ans (og_mint row) op' db')"
      proof (cases "t = gd_attempts db \<and> calls = []")
        case True
        with other a d(2) nosend show ?thesis by simp
      next
        case False
        with new(3) have n: "attempt_free L ?h db" "t = bt_insert ?h op (gd_attempts db)"
          "calls = [LdkSend ?h] \<and> R = {#} \<or> calls = [] \<and> (\<exists>s. R = {#Inl s#})" by auto
        have u: "F ?h = Unsent" using n(1) L by (auto simp: attempt_free_def truthful_def)
        show ?thesis
        proof (cases "h' = ?h")
          case True
          with a d(2) n(2) have "op' = op" by simp
          with True d p(1) [OF new(1)] n(3) u show ?thesis by (auto simp: answer_fits_def sent_def)
        next
          case False
          then have "sent calls F h' = F h'" using n(3) by (auto simp: sent_def)
          with False a d(2) n(2) other show ?thesis by simp
        qed
      qed
    qed
  qed
qed

text \<open>A request whose commit is lost.\<close>

lemma lost_ok:
  assumes ok: "gateway_ok (db, F)" and L: "truthful L F" and s: "gateway_send G L ids held rq db = Done (op, db', calls)"
  shows "gateway_ok (db, sent calls F)"
proof (rule gateway_ok_same [OF ok])
  fix h A assume h: "bt_has (gd_attempts db) h" "answer_fits (F h) (bt_has (gd_ldk_events db) h) A"
  have "LdkSend h \<notin> set calls" using gateway_send_Done [OF s] h(1) by (auto simp: attempt_free_def bt_has_def)
  with h show "answer_fits (sent calls F h) (bt_has (gd_ldk_events db) h) A" by (simp add: sent_def)
qed simp_all

text \<open>An outcome of a payment.\<close>

lemma outcome_ok:
  assumes ok: "gateway_ok (db, F)" and s: "handle_payment_outcome G ids h success db = Done (db', calls)"
    and e: "reports e F F'" and F: "case success of None \<Rightarrow> e = PaymentFailed (Some h) | Some (pre, fee) \<Rightarrow> \<exists>f. e = PaymentSuccessful h (Some pre) f"
  shows "gateway_ok (db', F')"
proof -
  let ?db1 = "db\<lparr>gd_ldk_events := bs_insert h (gd_ldk_events db)\<rparr>"
  have mark: "gateway_ok (?db1, F')"
    by (rule gateway_ok_same [OF ok]) (auto simp: ans_def bt_has_def intro: fits_mono fits_reports [OF e])
  from handle_outcome_Done [OF s] consider (marked) "db' = db" | (none) "db' = ?db1"
    | (some) op row R where "outgoing_attempt h db = Some (op, row)" "\<not> bt_has (gd_ldk_events db) h" "adds (og_mint row) op R ?db1 db'"
      "case success of None \<Rightarrow> \<exists>s. R = {#Inl s#} | Some (pre, fee) \<Rightarrow> R = {#} \<or> R = {#Inr pre#}"
    by (cases success) (auto simp: Let_def)
  then show ?thesis
  proof cases
    case marked
    then show ?thesis using gateway_ok_same [OF ok] fits_reports [OF e] by simp
  next
    case none
    then show ?thesis using mark by simp
  next
    case some
    have a: "bt_get (gd_attempts db) h = Some op" "bt_get (gd_outgoing db) op = Some row"
      using some(1) by (auto simp: outgoing_attempt_def bind_eq_Some_conv)
    have d: "gd_outgoing db' = gd_outgoing db" "gd_attempts db' = gd_attempts db" "gd_ldk_events db' = bs_insert h (gd_ldk_events db)"
      "\<And>m' op'. ans m' op' db' = ans m' op' db + (if m' = og_mint row \<and> op' = op then R else {#})"
      using some(3) by (simp_all add: adds_def ans_def)
    note p = gateway_ok_parts [OF ok]
    have row: "payment_hash (og_contract row) = h" and fit: "answer_fits (F h) False (ans (og_mint row) op db)"
      using p(3) [OF a(1)] a(2) some(2) by auto
    have F': "case success of None \<Rightarrow> F h \<noteq> Unsent \<and> F' h = NotPaid | Some (pre, fee) \<Rightarrow> F h \<noteq> Unsent \<and> F' h = PaidWith pre"
      using e F by (cases success) auto
    then have none: "ans (og_mint row) op db = {#}" using fit by (cases success) (auto simp: answer_fits_def)
    have R: "size R \<le> 1" "answer_fits (F' h) True R" using some(4) F' by (cases success; auto simp: answer_fits_def)+
    have new: "ans (og_mint row) op db' = R" using d(4) none by simp
    show ?thesis
    proof (rule gateway_okI)
      fix op' m assume "bt_get (gd_outgoing db') op' = None"
      then show "ans m op' db' = {#}" using d(1,4) p(1) a(2) by auto
    next
      fix op' row' m assume r: "bt_get (gd_outgoing db') op' = Some row'"
      show "size (ans m op' db') \<le> (if m = og_mint row' then 1 else 0)"
      proof (cases "m = og_mint row \<and> op' = op")
        case True
        then show ?thesis using r a(2) d(1) new R(1) by simp
      next
        case False
        then show ?thesis using r d(1) d(4) [of m op'] p(2) [of op' row' m] by auto
      qed
    next
      fix h' op' assume a': "bt_get (gd_attempts db') h' = Some op'"
      with p(3) d(2) obtain row' where r: "bt_get (gd_outgoing db) op' = Some row'" "payment_hash (og_contract row') = h'"
        "answer_fits (F h') (bt_has (gd_ldk_events db) h') (ans (og_mint row') op' db)" by metis
      show "\<exists>row. bt_get (gd_outgoing db') op' = Some row \<and> payment_hash (og_contract row) = h' \<and>
          answer_fits (F' h') (bt_has (gd_ldk_events db') h') (ans (og_mint row) op' db')"
      proof (cases "h' = h")
        case True
        then have "op' = op" using a' a(1) d(2) by simp
        with True a(2) row d(1,3) new R(2) show ?thesis by (simp add: bt_has_def)
      next
        case False
        then have "op' \<noteq> op" using r(1,2) a(2) row by auto
        with False r d show ?thesis using fits_reports [OF e r(3)] by (simp add: bt_has_def)
      qed
    qed
  qed
qed

lemma event_ok:
  assumes ok: "gateway_ok (db, F)" and e: "reports e F F'" and s: "process_ldk_event G ids e db = Done (db', calls)"
  shows "gateway_ok (db', F')"
proof -
  have idle: "gateway_ok (db, F')" by (rule gateway_ok_same [OF ok]) (auto intro: fits_reports [OF e])
  show ?thesis
  proof (cases "(G, ids, e, db)" rule: process_ldk_event.cases)
    case (1 G' ids' h amt db0)
    from 1 s handle_claimable_Done [of G ids h amt db db' calls] consider "db' = db"
      | m op where "adds m op {#} (db\<lparr>gd_ldk_events := bs_insert h (gd_ldk_events db)\<rparr>) db'" by auto
    then show ?thesis
    proof cases
      case 2
      then show ?thesis
        by (intro gateway_ok_same [OF idle]) (auto simp: adds_def ans_def bt_has_def intro: fits_mono)
    qed (use idle in simp)
  next
    case (2 G' ids' h pre fee db0)
    then show ?thesis using s e by (intro outcome_ok [OF ok _ e]) (auto simp: handle_payment_successful_def)
  next
    case (3 G' ids' h db0)
    then show ?thesis using s e by (intro outcome_ok [OF ok _ e]) (auto simp: handle_payment_failed_def)
  qed (use s idle in auto)
qed

lemma gstep_ok: "gstep G crashes s s' \<Longrightarrow> gateway_ok s \<Longrightarrow> gateway_ok s'"
proof (induction rule: gstep.induct)
  case (register L F m c db iv db' calls)
  from gateway_receive_Done [OF register(2)] obtain t where "db' = db\<lparr>gd_incoming := t\<rparr>" by blast
  then show ?case by (intro gateway_ok_same [OF register(3)]) (simp_all add: ans_def)
next
  case (event_lost e F F' db)
  then show ?case by (intro gateway_ok_same [OF event_lost(2)]) (auto intro: fits_reports)
next
  case (client_work db m w w' F)
  have "ans m' op (set_client m w' db) = ans m' op db" for m' op
    using client_work(1,2) by (simp add: ans_def set_client_def)
  then show ?case by (intro gateway_ok_same [OF client_work(3)]) (simp_all add: set_client_def)
qed (blast intro: take_on_ok lost_ok event_ok)+

lemma reaches_ok: "gateway_reaches G crashes db F \<Longrightarrow> gateway_ok (db, F)"
proof -
  assume "gateway_reaches G crashes db F"
  then obtain db0 where s: "gateway_start db0" and r: "(gstep G crashes)\<^sup>*\<^sup>* (db0, \<lambda>h. Unsent) (db, F)"
    by (auto simp: gateway_reaches_def)
  have "gateway_ok (db0, \<lambda>h. Unsent)" using s by (simp add: gateway_start_def gateway_ok_def)
  with r show ?thesis by (induction rule: rtranclp_induct) (blast intro: gstep_ok)+
qed

section \<open>Answers only come\<close>


lemma ans_tables [simp]: "ans m op (db\<lparr>gd_ldk_events := E\<rparr>) = ans m op db" "ans m op (db\<lparr>gd_outgoing := X\<rparr>) = ans m op db"
  "ans m op (db\<lparr>gd_attempts := A\<rparr>) = ans m op db" "ans m op (db\<lparr>gd_incoming := I\<rparr>) = ans m op db"
  by (simp_all add: ans_def)



lemma run_reaches: "gateway_reaches G crashes db F \<Longrightarrow> (gstep G crashes)\<^sup>*\<^sup>* (db, F) (db', F') \<Longrightarrow> gateway_reaches G crashes db' F'"
  unfolding gateway_reaches_def by (meson rtranclp_trans)



section \<open>Paying or forfeiting\<close>




section \<open>What the answers are worth\<close>














section \<open>Requests over Lightning\<close>

text \<open>The checks of \<open>start_payment\<close> before a payment over Lightning, and whether the node takes it.\<close>

definition payable :: "gateway_ctx \<Rightarrow> ldk_node \<Rightarrow> send_request \<Rightarrow> gateway_db \<Rightarrow> bool" where
  "payable G L rq db \<longleftrightarrow> verify_invoice (sr_contract rq) (sr_invoice rq) \<and>
     (\<exists>amt. iv_amount (sr_invoice rq) = Some amt \<and> oc_amount (sr_contract rq) = Amount amt \<and>
        payment_fee_of (gw_send_fee G) amt = Some (oc_fee (sr_contract rq))) \<and>
     iv_payment_hash (sr_invoice rq) = payment_hash (sr_contract rq) \<and>
     attempt_free L (payment_hash (sr_contract rq)) db \<and> ldk_accepts L (sr_invoice rq)"

lemma start_payment_taken:
  assumes "payable G L rq db" "gw_node_id G \<noteq> iv_payee (sr_invoice rq)"
  shows "start_payment G L ids rq op db =
    Done (db\<lparr>gd_attempts := bt_insert (payment_hash (sr_contract rq)) op (gd_attempts db)\<rparr>, [LdkSend (payment_hash (sr_contract rq))])"
  using assms by (auto simp: payable_def start_payment_def Let_def attempt_free_def bt_has_def expect_def ok_or_def ensure_def)

lemma start_payment_refused:
  assumes "\<not> payable G L rq db" "gw_node_id G \<noteq> iv_payee (sr_invoice rq)"
    "\<And>amt. iv_amount (sr_invoice rq) = Some amt \<Longrightarrow> payment_fee_of (gw_send_fee G) amt \<noteq> None"
  shows "\<exists>e t. start_payment G L ids rq op db = Failed (e, db\<lparr>gd_attempts := t\<rparr>) \<and>
    (t = gd_attempts db \<or> attempt_free L (payment_hash (sr_contract rq)) db \<and> t = bt_insert (payment_hash (sr_contract rq)) op (gd_attempts db))"
proof -
  have n: "start_payment G L ids rq op db \<noteq> Panicked" and d: "start_payment G L ids rq op db \<noteq> Done x" for x
    using assms by (auto simp: payable_def start_payment_def Let_def attempt_free_def bt_has_def expect_def ok_or_def ensure_def
        split: option.splits if_splits)
  then obtain e db' where f: "start_payment G L ids rq op db = Failed (e, db')"
    by (cases "start_payment G L ids rq op db") auto
  have k: "db = db\<lparr>gd_attempts := gd_attempts db\<rparr>" by simp
  from f assms(2) have "db' = db \<or> attempt_free L (payment_hash (sr_contract rq)) db \<and>
      db' = db\<lparr>gd_attempts := bt_insert (payment_hash (sr_contract rq)) op (gd_attempts db)\<rparr>"
    by (auto simp: start_payment_def obind_Failed_iff map_err_Failed_iff Let_def attempt_free_def bt_has_def split: if_splits)
  then show ?thesis using f k by metis
qed

text \<open>The database with the row and the event of a request.\<close>

definition taken_on :: "hash256 \<Rightarrow> send_request \<Rightarrow> client_db \<Rightarrow> gateway_db \<Rightarrow> gateway_db" where
  "taken_on op rq w db =
     set_client (sr_mint rq)
       (logged ROUTING_ACCOUNT op (GatewaySendEvent (sr_outpoint rq) (oc_amount (sr_contract rq)) (oc_fee (sr_contract rq))) w)
       (db\<lparr>gd_outgoing := bt_insert op
          \<lparr>og_mint = sr_mint rq, og_contract = sr_contract rq, og_outpoint = sr_outpoint rq, og_invoice = sr_invoice rq\<rparr> (gd_outgoing db)\<rparr>)"

lemma payable_taken_on [simp]: "payable G L rq' (taken_on op rq w db) = payable G L rq' db"
  by (simp add: payable_def attempt_free_def taken_on_def set_client_def)

lemma send_starts:
  assumes "bt_get (gd_clients db) (sr_mint rq) = Some w" "log_room (Suc n) w"
    "oc_claim_pk (sr_contract rq) = x_only_public_key (gw_ops G (sr_mint rq)) (contract_keypair G (sr_mint rq))"
  defines "op \<equiv> contract_id (ccrypto (gw_ops G (sr_mint rq))) (sr_contract rq)"
  assumes "\<not> bt_has (gd_outgoing db) op"
  shows "gateway_send G L ids (Some op) rq db = (case start_payment G L ids rq op (taken_on op rq w db) of
              Done (db3, calls) \<Rightarrow> Done (op, db3, calls)
            | Panicked \<Rightarrow> Panicked
            | Failed (e, db3) \<Rightarrow>
                obind (map_err (\<lambda>_. SendMintNotAdded)
                    (gateway_finalize_send G (fst ids) (sr_mint rq) op (sr_contract rq) (sr_outpoint rq) None db3)) (\<lambda>db4.
                Done (op, db4, [])))"
proof -
  let ?db1 = "db\<lparr>gd_outgoing := bt_insert op
          \<lparr>og_mint = sr_mint rq, og_contract = sr_contract rq, og_outpoint = sr_outpoint rq, og_invoice = sr_invoice rq\<rparr> (gd_outgoing db)\<rparr>"
  have l: "gateway_log_send_started (sr_mint rq) op (sr_outpoint rq) (oc_amount (sr_contract rq)) (oc_fee (sr_contract rq)) ?db1 =
      Done (taken_on op rq w db)"
    using assms(1) log_event_room(1) [OF assms(2)] by (simp add: gateway_log_send_started_def ok_or_def expect_def taken_on_def)
  have pk: "gateway_pk G (sr_mint rq) db = Some (x_only_public_key (gw_ops G (sr_mint rq)) (contract_keypair G (sr_mint rq)))"
    using assms(1) by (simp add: gateway_pk_def bt_has_def)
  show ?thesis
    using assms(5) l pk assms(3) unfolding gateway_send_def Let_def op_def [symmetric] by (simp add: ok_or_def ensure_def)
qed

lemma answers_logged_event:
  assumes "log_room (Suc n) w"
  shows "mset (answers op' (logged a op ev w)) =
    mset (answers op' w) + (if op' = op then (case gateway_answer ev of None \<Rightarrow> {#} | Some r \<Rightarrow> {#r#}) else {#})"
  using answers_logged [OF log_event_room(1) [OF assms]] .

text \<open>What the sender of a request that is refused is answered.\<close>

definition forfeit_of :: "gateway_ctx \<Rightarrow> send_request \<Rightarrow> schnorr_sig" where
  "forfeit_of G rq = forfeit_signature (ccrypto (gw_ops G (sr_mint rq))) (contract_keypair G (sr_mint rq)) (sr_contract rq)"

definition refused :: "hash256 \<Rightarrow> gateway_ctx \<Rightarrow> send_request \<Rightarrow> client_db \<Rightarrow> gateway_db \<Rightarrow> (hash256, hash256) btmap \<Rightarrow> gateway_db" where
  "refused op G rq w db t =
     (let w' = logged ROUTING_ACCOUNT op (GatewaySendEvent (sr_outpoint rq) (oc_amount (sr_contract rq)) (oc_fee (sr_contract rq))) w
      in set_client (sr_mint rq) (logged ROUTING_ACCOUNT op (GatewaySendCancelEvent (forfeit_of G rq)) w')
           ((taken_on op rq w db)\<lparr>gd_attempts := t\<rparr>))"

lemma send_refused:
  assumes w: "bt_get (gd_clients db) (sr_mint rq) = Some w" "log_room 2 w"
    "oc_claim_pk (sr_contract rq) = x_only_public_key (gw_ops G (sr_mint rq)) (contract_keypair G (sr_mint rq))"
  defines "op \<equiv> contract_id (ccrypto (gw_ops G (sr_mint rq))) (sr_contract rq)"
  assumes n: "\<not> bt_has (gd_outgoing db) op" and s: "start_payment G L ids rq op (taken_on op rq w db) = Failed (e, (taken_on op rq w db)\<lparr>gd_attempts := t\<rparr>)"
  shows "gateway_send G L ids (Some op) rq db = Done (op, refused op G rq w db t, [])"
proof -
  have l: "log_room (Suc (Suc 0)) w" using w(2) by (simp add: eval_nat_numeral)
  let ?w = "logged ROUTING_ACCOUNT op (GatewaySendEvent (sr_outpoint rq) (oc_amount (sr_contract rq)) (oc_fee (sr_contract rq))) w"
  have g: "bt_get (gd_clients ((taken_on op rq w db)\<lparr>gd_attempts := t\<rparr>)) (sr_mint rq) = Some ?w" by (simp add: taken_on_def set_client_def)
  note l' = log_event_room(1) [OF log_event_room(2) [OF l]]
  have f: "gateway_finalize_send G (fst ids) (sr_mint rq) op (sr_contract rq) (sr_outpoint rq) None ((taken_on op rq w db)\<lparr>gd_attempts := t\<rparr>) =
      Done (refused op G rq w db t)"
    using g l' by (cases "fst ids") (simp add: gateway_finalize_send_def ok_or_def expect_def Let_def refused_def forfeit_of_def)
  show ?thesis
    using send_starts [OF w(1) l w(3) n [unfolded op_def], of L ids] s f unfolding op_def by simp
qed

text \<open>
  Every request to pay over Lightning ends. The gateway hands the payment to its node and records the
  attempt when the invoice is the contract's, the amounts and the fee agree, no payment of the hash is
  known and the node takes it; in every other case it answers with the forfeit signature at once, so
  that the sender's funding is never left behind.
\<close>

lemma gateway_takes_or_forfeits:
  assumes r: "gateway_reaches G crashes db F" and w: "bt_get (gd_clients db) (sr_mint rq) = Some w" "log_room 2 w"
    and c: "oc_claim_pk (sr_contract rq) = x_only_public_key (gw_ops G (sr_mint rq)) (contract_keypair G (sr_mint rq))"
    and op: "op = contract_id (ccrypto (gw_ops G (sr_mint rq))) (sr_contract rq)" and n: "\<not> bt_has (gd_outgoing db) op"
    and ln: "gw_node_id G \<noteq> iv_payee (sr_invoice rq)"
    and fee: "\<And>amt. iv_amount (sr_invoice rq) = Some amt \<Longrightarrow> payment_fee_of (gw_send_fee G) amt \<noteq> None"
  shows "\<exists>db' w'. gateway_send G L ids (Some op) rq db =
      Done (op, db', if payable G L rq db then [LdkSend (payment_hash (sr_contract rq))] else []) \<and>
    bt_get (gd_clients db') (sr_mint rq) = Some w' \<and>
    gateway_subscribe_send op w' = (if payable G L rq db then None else Some (Inl (forfeit_of G rq))) \<and>
    (\<exists>row. bt_get (gd_outgoing db') op = Some row \<and> og_contract row = sr_contract rq) \<and>
    (payable G L rq db \<longrightarrow> bt_get (gd_attempts db') (payment_hash (sr_contract rq)) = Some op)"
proof -
  let ?s = "GatewaySendEvent (sr_outpoint rq) (oc_amount (sr_contract rq)) (oc_fee (sr_contract rq))"
  let ?w = "logged ROUTING_ACCOUNT op ?s w" and ?h = "payment_hash (sr_contract rq)"
  have l: "log_room (Suc (Suc 0)) w" using w(2) by (simp add: eval_nat_numeral)
  have "ans (sr_mint rq) op db = {#}" using gateway_ok_parts(1) [OF reaches_ok [OF r]] n by (simp add: bt_has_def)
  then have a: "answers op w = []" using w(1) by (simp add: ans_def)
  have a1: "mset (answers op ?w) = {#}" using answers_logged_event [OF l, of op ROUTING_ACCOUNT op ?s] a by simp
  show ?thesis
  proof (cases "payable G L rq db")
    case True
    have "gateway_send G L ids (Some op) rq db = Done (op, (taken_on op rq w db)\<lparr>gd_attempts := bt_insert ?h op (gd_attempts (taken_on op rq w db))\<rparr>, [LdkSend ?h])"
      using send_starts [OF w(1) l c n [unfolded op], of L ids] start_payment_taken [OF _ ln, of L "taken_on op rq w db" ids op] True
      unfolding op by simp
    then show ?thesis using True a1 by (auto simp: taken_on_def set_client_def subscribe_answers)
  next
    case False
    from start_payment_refused [OF _ ln fee, of L "taken_on op rq w db" ids op] False obtain e t where
      "start_payment G L ids rq op (taken_on op rq w db) = Failed (e, (taken_on op rq w db)\<lparr>gd_attempts := t\<rparr>)" by auto
    from send_refused [OF w c n [unfolded op] this [unfolded op]] have
      s: "gateway_send G L ids (Some op) rq db = Done (op, refused op G rq w db t, [])" unfolding op .
    have "mset (answers op (logged ROUTING_ACCOUNT op (GatewaySendCancelEvent (forfeit_of G rq)) ?w)) = {#Inl (forfeit_of G rq)#}"
      using answers_logged_event [OF log_event_room(2) [OF l], of op ROUTING_ACCOUNT op "GatewaySendCancelEvent (forfeit_of G rq)"] a1 by simp
    then show ?thesis using False s by (auto simp: refused_def Let_def set_client_def subscribe_answers taken_on_def)
  qed
qed

section \<open>Claiming what was paid\<close>

lemma claim_outgoing_pass:
  assumes c: "bt_get (outgoing_contracts (lightning_tables db)) p = Some c" and v: "verify_preimage (dcrypto S) c pre"
    and a: "amount_nat (oc_amount c) + amount_nat (oc_fee c) < 2 ^ 64" and k: "x_only_public_key K kp = oc_claim_pk c"
  shows "\<exists>db'. inputs_pass S cfg K [claim_outgoing kp p c pre] db db' \<and> bt_get (outgoing_contracts (lightning_tables db')) p = None"
  using assms
  by (intro exI [of _ "db\<lparr>lightning_tables := (lightning_tables db)\<lparr>
      outgoing_contracts := bt_remove p (outgoing_contracts (lightning_tables db)),
      preimages := bt_insert p pre (preimages (lightning_tables db))\<rparr>\<rparr>"])
    (auto simp: inputs_pass_def claim_outgoing_def input_step_Done obind_Done_iff ok_or_def Let_def amount_checked_add_Some)

text \<open>
  C25. What was paid is claimed. When the node reports the payment of an attempt with a preimage of the
  payment hash, and the mint holds the contract, the handler submits a claim that the mint accepts and
  that takes the contract out of its tables, answers the sender with the preimage, and marks the event,
  so that a second report of it changes nothing.
\<close>

theorem payment_claimed:
  assumes r: "gateway_reaches G crashes db F" and F: "F h = Inflight"
    and a: "bt_get (gd_attempts db) h = Some op" "bt_get (gd_outgoing db) op = Some row" "\<not> bt_has (gd_ldk_events db) h"
    and w: "bt_get (gd_clients db) (og_mint row) = Some w" "wallet_ok w" "log_room 2 w" "\<not> bt_has (tx_sms w) k" "\<not> bt_has (ecash_sms w) k'"
    and held: "bt_get (outgoing_contracts (lightning_tables mint)) (og_outpoint row) = Some (og_contract row)"
    and v: "sha256 (dcrypto S) (enc_hash pre) = h"
    and key: "oc_claim_pk (og_contract row) = x_only_public_key (gw_ops G (og_mint row)) (contract_keypair G (og_mint row))"
    and worth: "712 \<le> amount_nat (oc_amount (og_contract row)) + amount_nat (oc_fee (og_contract row))"
    and small: "amount_nat (oc_amount (og_contract row)) + amount_nat (oc_fee (og_contract row)) + face_value (account_notes ROUTING_ACCOUNT w) < 2 ^ 42"
      "Suc (length (account_notes ROUTING_ACCOUNT w)) \<le> MAX_INPUTS"
    and h: "honours S cfg mint (gw_client G (og_mint row)) ROUTING_ACCOUNT w"
  shows "\<exists>db' w' tsm mint'. process_ldk_event G (k, k') (PaymentSuccessful h (Some pre) fee) db = Done (db', []) \<and>
    bt_get (gd_clients db') (og_mint row) = Some w' \<and> bt_get (tx_sms w') k = Some tsm \<and>
    process_tx S cfg (ts_tx tsm) mint = Done mint' \<and>
    bt_get (outgoing_contracts (lightning_tables mint')) (og_outpoint row) = None \<and>
    gateway_subscribe_send op w' = Some (Inr pre) \<and>
    process_ldk_event G ids (PaymentSuccessful h (Some pre) fee) db' = Done (db', [])"
proof -
  let ?c = "og_contract row" and ?m = "og_mint row" and ?amt = "Amount (case fee of None \<Rightarrow> 0 | Some f \<Rightarrow> f)"
  let ?i = "claim_outgoing (contract_keypair G ?m) (og_outpoint row) ?c pre" and ?db1 = "db\<lparr>gd_ldk_events := bs_insert h (gd_ldk_events db)\<rparr>"
  let ?ev = "\<lambda>txid. GatewaySendSuccessEvent pre txid ?amt"
  from gateway_ok_parts(3) [OF reaches_ok [OF r] a(1)] a(2) have p: "payment_hash ?c = h" and fit: "answer_fits (F h) False (ans ?m op db)"
    using a(3) by auto
  then have none: "answers op w = []" using F w(1) by (simp add: answer_fits_def ans_def)
  have sum: "amount_nat (oc_amount ?c) + amount_nat (oc_fee ?c) < 2 ^ 64" using small(1) by simp
  have "verify_preimage (dcrypto S) ?c pre" using v p by (simp add: verify_preimage_def)
  from claim_outgoing_pass [OF held this sum key [symmetric]] obtain mint1 where
    m1: "inputs_pass S cfg (gw_ops G ?m) [?i] mint mint1" "bt_get (outgoing_contracts (lightning_tables mint1)) (og_outpoint row) = None" by blast
  have "amount_nat (ci_amount ?i) = amount_nat (oc_amount ?c) + amount_nat (oc_fee ?c)"
    using sum by (simp add: claim_outgoing_def amount_add_def unat_word_ariths)
  then have i: "ci_fee ?i = LIGHTNING_INPUT_FEE" "712 \<le> amount_nat (ci_amount ?i)"
    "amount_nat (ci_amount ?i) + face_value (account_notes ROUTING_ACCOUNT w) < 2 ^ 42"
    using worth small(1) by (simp_all add: claim_outgoing_def)
  from input_submitted [OF w(2-5) i small(2) h m1(1), of op ?ev] obtain w' tx mint' where
    s: "finalize_and_submit_tx (gw_client G ?m) k k' ROUTING_ACCOUNT op (from_input ?i) [] False ?ev w = Done (compute_tx_id (dcrypto S) tx, w')"
      "bt_get (tx_sms w') k = Some \<lparr>ts_account = ROUTING_ACCOUNT, ts_operation = op, ts_tx = tx\<rparr>"
      "process_tx S cfg tx mint = Done mint'" "lightning_tables mint' = lightning_tables mint1" by blast
  let ?db' = "set_client ?m w' ?db1"
  have "outgoing_attempt h ?db1 = Some (op, row)" using a by (simp add: outgoing_attempt_def)
  then have e: "process_ldk_event G (k, k') (PaymentSuccessful h (Some pre) fee) db = Done (?db', [])"
    using a(3) w(1) s(1) by (simp add: handle_payment_successful_def handle_payment_outcome_def Let_def gateway_finalize_send_def ok_or_def)
  have "mset (answers op w') = {#Inr pre#}" using answers_submitted [OF s(1), of op] none by simp
  then have "gateway_subscribe_send op w' = Some (Inr pre)" by (simp add: subscribe_answers)
  moreover have "process_ldk_event G ids (PaymentSuccessful h (Some pre) fee) ?db' = Done (?db', [])"
    by (simp add: handle_payment_successful_def handle_payment_outcome_def set_client_def bt_has_def)
  ultimately show ?thesis using e s(2-4) m1(2)
    by (intro exI [of _ ?db'] exI [of _ w'] exI [of _ "\<lparr>ts_account = ROUTING_ACCOUNT, ts_operation = op, ts_tx = tx\<rparr>"] exI [of _ mint'])
      (simp add: set_client_def)
qed

section \<open>Removing a mint\<close>

lemma fold_remove: "fold (\<lambda>x. bt_remove (f x)) xs m = bt_filter (\<lambda>k v. k \<notin> f ` set xs) m"
proof -
  have "bt_get (fold (\<lambda>x. bt_remove (f x)) xs m) k = (if k \<in> f ` set xs then None else bt_get m k)" for k
    by (induction xs arbitrary: m) auto
  then show ?thesis by (intro bt_eqI) (simp add: bt_get_filter split: option.splits)
qed

text \<open>
  Removing a mint can drop the payment of another. Two contracts of different mints for one payment
  hash: the first has the attempt, the second was refused for it, and its row stays. Removing the second
  contract's mint drops the attempt of the first, and the node's report of its payment then claims nothing.
\<close>

lemma wipe_drops_attempt:
  assumes a: "bt_get (gd_outgoing db) op = Some row" "bt_get (gd_attempts db) h = Some op" "\<not> bt_has (gd_ldk_events db) h"
    and b: "bt_get (gd_outgoing db) op' = Some row'" "og_mint row' = m" "og_mint row \<noteq> m" "payment_hash (og_contract row') = h"
  shows "bt_get (gd_outgoing (wipe_mint_rows m db)) op = Some row \<and> bt_get (gd_attempts (wipe_mint_rows m db)) h = None \<and>
    process_ldk_event G ids (PaymentSuccessful h (Some pre) fee) (wipe_mint_rows m db) =
      Done ((wipe_mint_rows m db)\<lparr>gd_ldk_events := bs_insert h (gd_ldk_events db)\<rparr>, [])"
proof -
  let ?gone = "filter (\<lambda>(op, row). og_mint row = m) (entries (gd_outgoing db))"
  have k: "(\<lambda>(op, row). bt_remove op) = (\<lambda>x. bt_remove (fst x))"
    "(\<lambda>(op, row). bt_remove (payment_hash (og_contract row))) = (\<lambda>x. bt_remove (payment_hash (og_contract (snd x))))"
    by (auto simp: fun_eq_iff)
  have g: "bt_get (gd_outgoing (wipe_mint_rows m db)) op = (if op \<in> fst ` set ?gone then None else Some row)"
    "bt_get (gd_attempts (wipe_mint_rows m db)) h = (if h \<in> (\<lambda>x. payment_hash (og_contract (snd x))) ` set ?gone then None else Some op)"
    "gd_ldk_events (wipe_mint_rows m db) = gd_ldk_events db"
    using a by (simp_all add: wipe_mint_rows_def Let_def k fold_remove bt_get_filter)
  have "op \<notin> fst ` set ?gone" using a(1) b(3) by (auto simp flip: bt_get_Some_iff)
  moreover have "(op', row') \<in> set ?gone" using b by (simp flip: bt_get_Some_iff)
  then have "h \<in> (\<lambda>x. payment_hash (og_contract (snd x))) ` set ?gone" using b(4) by force
  ultimately have o: "bt_get (gd_outgoing (wipe_mint_rows m db)) op = Some row" "bt_get (gd_attempts (wipe_mint_rows m db)) h = None"
    using g(1,2) by simp_all
  then have "outgoing_attempt h ((wipe_mint_rows m db)\<lparr>gd_ldk_events := bs_insert h (gd_ldk_events db)\<rparr>) = None"
    by (simp add: outgoing_attempt_def)
  with o a(3) g(3) show ?thesis by (simp add: handle_payment_successful_def handle_payment_outcome_def Let_def)
qed

section \<open>A crash after the payment was sent\<close>

text \<open>
  C38. A crash can make the gateway pay and forfeit. The payment is handed to the Lightning node before
  the write transaction that records the attempt commits. When the process dies in between, the sender
  repeats its request as it does after every error; no attempt is recorded and the node holds the
  payment, so the request is answered with the forfeit signature. When the payment then succeeds there
  is no attempt to claim for: the gateway has paid and the sender has the refund.
\<close>

theorem crash_pays_and_forfeits:
  assumes st: "gateway_start db" and w: "bt_get (gd_clients db) (sr_mint rq) = Some w" "log_room 2 w"
    and c: "oc_claim_pk (sr_contract rq) = x_only_public_key (gw_ops G (sr_mint rq)) (contract_keypair G (sr_mint rq))"
    and ln: "gw_node_id G \<noteq> iv_payee (sr_invoice rq)" and pay: "payable G L rq db"
    and op: "op = contract_id (ccrypto (gw_ops G (sr_mint rq))) (sr_contract rq)" and h: "h = payment_hash (sr_contract rq)"
  shows "\<exists>db0 db' F w'. gateway_send G L ids (Some op) rq db = Done (op, db0, [LdkSend h]) \<and>
    gateway_reaches G True db' F \<and> F h = PaidWith p \<and> bt_get (gd_clients db') (sr_mint rq) = Some w' \<and>
    gateway_subscribe_send op w' = Some (Inl (forfeit_of G rq)) \<and> bt_get (gd_attempts db') h = None \<and>
    (\<forall>ids fee. \<exists>db2. process_ldk_event G ids (PaymentSuccessful h (Some p) fee) db' = Done (db2, []) \<and> gd_clients db2 = gd_clients db')"
proof -
  have n: "\<not> bt_has (gd_outgoing db) op" using st by (simp add: gateway_start_def bt_has_def)
  have fee: "payment_fee_of (gw_send_fee G) amt \<noteq> None" if "iv_amount (sr_invoice rq) = Some amt" for amt
    using pay that by (auto simp: payable_def)
  let ?L = "L\<lparr>ldk_payment := \<lambda>h. True\<rparr>" and ?F0 = "\<lambda>h. Unsent" and ?F1 = "sent [LdkSend h] (\<lambda>h. Unsent)"
  have r0: "gateway_reaches G True db ?F0" using st by (auto simp: gateway_reaches_def)
  from gateway_takes_or_forfeits [OF r0 w c op n ln fee, of L ids] pay h obtain db0 where
    s: "gateway_send G L ids (Some op) rq db = Done (op, db0, [LdkSend h])" by auto
  have "gstep G True (db, ?F0) (db, ?F1)" by (rule take_on_lost [OF _ _ s]) (simp_all add: truthful_def)
  then have r1: "gateway_reaches G True db ?F1" using run_reaches [OF r0] by blast
  have np: "\<not> payable G ?L rq db" by (simp add: payable_def attempt_free_def)
  from gateway_takes_or_forfeits [OF r1 w c op n ln fee, of ?L ids] np obtain db' w' where
    s': "gateway_send G ?L ids (Some op) rq db = Done (op, db', [])" "bt_get (gd_clients db') (sr_mint rq) = Some w'"
      "gateway_subscribe_send op w' = Some (Inl (forfeit_of G rq))" by auto
  have a: "bt_get (gd_attempts db') h' = None" for h'
  proof -
    let ?t = "taken_on op rq w db"
    from start_payment_refused [OF _ ln fee, of ?L ?t ids op] np obtain e t where
      f: "start_payment G ?L ids rq op ?t = Failed (e, ?t\<lparr>gd_attempts := t\<rparr>)" "t = gd_attempts ?t"
      by (auto simp: attempt_free_def)
    from send_refused [OF w c n [unfolded op] f(1) [unfolded op]] s'(1) have "db' = refused op G rq w db t" unfolding op by simp
    then have "gd_attempts db' = gd_attempts db" by (simp add: refused_def Let_def set_client_def f(2) taken_on_def)
    then show ?thesis using st by (simp add: gateway_start_def)
  qed
  let ?F2 = "?F1(h := PaidWith p)"
  have "gstep G True (db, ?F1) (db', ?F1)"
    using take_on [OF _ s'(1), of ?F1 True] by (simp add: truthful_def sent_def)
  moreover have "gstep G True (db', ?F1) (db', ?F2)"
    by (rule event_lost [of "PaymentSuccessful h (Some p) None"]) (simp add: sent_def)
  ultimately have r2: "gateway_reaches G True db' ?F2"
    using run_reaches [OF r1] by (meson converse_rtranclp_into_rtranclp rtranclp.rtrancl_refl)
  have e: "\<exists>db2. process_ldk_event G ids (PaymentSuccessful h (Some p) fee) db' = Done (db2, []) \<and> gd_clients db2 = gd_clients db'" for ids fee
    using a [of h] by (simp add: handle_payment_successful_def handle_payment_outcome_def outgoing_attempt_def Let_def)
  have "?F2 h = PaidWith p" by simp
  with s r2 s'(2,3) a e show ?thesis by blast
qed

section \<open>A sample gateway\<close>

definition sample_gateway :: gateway_ctx where
  "sample_gateway = \<lparr>gw_client = (\<lambda>m. sample_ctx), gw_secret = (\<lambda>m. 7), gw_node_id = 6, gw_send_fee = SEND_FEE_LIMIT,
     gw_receive_fee = RECEIVE_FEE_LIMIT\<rparr>"

definition sample_node :: "bool \<Rightarrow> ldk_node" where
  "sample_node ok = \<lparr>ldk_payment = (\<lambda>h. False), ldk_accepts = (\<lambda>iv. ok), ldk_invoice = (\<lambda>a h. None)\<rparr>"

definition sample_request :: send_request where
  "sample_request = \<lparr>sr_mint = 5, sr_contract = sample_outgoing\<lparr>oc_claim_pk := contract_keypair sample_gateway 5\<rparr>,
     sr_outpoint = OutPoint 8 0, sr_invoice = sample_invoice\<rparr>"

definition sample_gateway_db :: gateway_db where
  "sample_gateway_db = \<lparr>gd_clients = bt_insert 5 sample_wallet bt_empty, gd_outgoing = bt_empty, gd_attempts = bt_empty,
     gd_incoming = bt_empty, gd_ldk_events = bt_empty\<rparr>"

abbreviation sample_op :: hash256 where
  "sample_op \<equiv> contract_id (ccrypto (gw_ops sample_gateway (sr_mint sample_request))) (sr_contract sample_request)"

lemma sample_gateway_ops [simp]: "ctx_ops sample_ctx = sample_ops" "gw_client sample_gateway m = sample_ctx"
  by (simp_all add: sample_gateway_def sample_ctx_def)

lemma sample_request_fields [simp]:
  "sr_mint sample_request = 5" "sr_invoice sample_request = sample_invoice" "sr_outpoint sample_request = OutPoint 8 0"
  "payment_hash (sr_contract sample_request) = 77" "oc_amount (sr_contract sample_request) = Amount 5000000"
  "oc_fee (sr_contract sample_request) = Amount 100000" "oc_claim_pk (sr_contract sample_request) = contract_keypair sample_gateway 5"
  "Server_Types.invoice (sr_contract sample_request) = 78"
  by (simp_all add: sample_request_def sample_outgoing_def)

lemma sample_gateway_facts:
  "gateway_start sample_gateway_db" "bt_get (gd_clients sample_gateway_db) (sr_mint sample_request) = Some sample_wallet"
  "log_room 2 sample_wallet" "\<not> bt_has (gd_outgoing sample_gateway_db) op"
  "oc_claim_pk (sr_contract sample_request) = x_only_public_key (gw_ops sample_gateway (sr_mint sample_request)) (contract_keypair sample_gateway (sr_mint sample_request))"
  "gw_node_id sample_gateway \<noteq> iv_payee (sr_invoice sample_request)"
  "iv_amount (sr_invoice sample_request) = Some amt \<Longrightarrow> payment_fee_of (gw_send_fee sample_gateway) amt \<noteq> None"
  "payable sample_gateway (sample_node ok) sample_request sample_gateway_db = ok"
proof -
  have fee: "payment_fee_of (gw_send_fee sample_gateway) 5000000 = Some (Amount 100000)"
    by (simp add: payment_fee_of_def absolute_fee_def sample_gateway_def SEND_FEE_LIMIT_def amount_from_sat_def saturating_mul_def
        saturating_add_def checked_mul_def checked_add_def Let_def)
  have "answers op sample_wallet = []" for op by (simp add: answers_def sample_wallet_def)
  then show "gateway_start sample_gateway_db"
    by (simp add: gateway_start_def sample_gateway_db_def ans_def split: option.splits)
  show "bt_get (gd_clients sample_gateway_db) (sr_mint sample_request) = Some sample_wallet" "log_room 2 sample_wallet"
    "\<not> bt_has (gd_outgoing sample_gateway_db) op"
    by (simp_all add: sample_gateway_db_def bt_has_def)
  show "oc_claim_pk (sr_contract sample_request) = x_only_public_key (gw_ops sample_gateway (sr_mint sample_request)) (contract_keypair sample_gateway (sr_mint sample_request))"
    by (simp add: sample_ops_def)
  show "gw_node_id sample_gateway \<noteq> iv_payee (sr_invoice sample_request)" by (simp add: sample_gateway_def sample_invoice_def)
  show "payment_fee_of (gw_send_fee sample_gateway) amt \<noteq> None" if "iv_amount (sr_invoice sample_request) = Some amt"
    using that fee by (simp add: sample_invoice_def)
  show "payable sample_gateway (sample_node ok) sample_request sample_gateway_db = ok"
    using fee by (simp add: payable_def verify_invoice_def attempt_free_def sample_node_def) (simp add: sample_invoice_def sample_gateway_db_def)
qed

theorem crash_pays_and_forfeits_witness:
  "\<exists>db' F w'. gateway_reaches sample_gateway True db' F \<and> F 77 = PaidWith 77 \<and> bt_get (gd_clients db') 5 = Some w' \<and>
    gateway_subscribe_send sample_op w' = Some (Inl (forfeit_of sample_gateway sample_request))"
proof -
  note g = sample_gateway_facts
  have pay: "payable sample_gateway (sample_node True) sample_request sample_gateway_db" using g(8) by simp
  from crash_pays_and_forfeits [OF g(1-3,5,6) pay refl refl, of ids 77] show ?thesis
    unfolding sample_request_fields by blast
qed

text \<open>The request is taken on, and the node has the payment.\<close>

definition sample_taken :: gateway_db where
  "sample_taken = (taken_on sample_op sample_request sample_wallet sample_gateway_db)\<lparr>gd_attempts := bt_insert 77 sample_op bt_empty\<rparr>"

lemma sample_sent:
  "gateway_send sample_gateway (sample_node True) ids (Some sample_op) sample_request sample_gateway_db = Done (sample_op, sample_taken, [LdkSend 77])"
proof -
  note g = sample_gateway_facts
  let ?t = "taken_on sample_op sample_request sample_wallet sample_gateway_db"
  have l: "log_room (Suc (Suc 0)) sample_wallet" using g(3) by (simp add: eval_nat_numeral)
  have p: "payable sample_gateway (sample_node True) sample_request ?t" using g(8) by simp
  have "gd_attempts ?t = bt_empty" by (simp add: taken_on_def set_client_def sample_gateway_db_def)
  then show ?thesis
    using send_starts [OF g(2) l g(5,4), of "sample_node True" ids] start_payment_taken [OF p g(6), of ids sample_op]
    by (simp add: sample_taken_def)
qed

lemma sample_inflight:
  "gateway_reaches sample_gateway crashes sample_taken (sent [LdkSend 77] (\<lambda>h. Unsent))" "sent [LdkSend 77] (\<lambda>h. Unsent) 77 = Inflight"
proof -
  have "gstep sample_gateway crashes (sample_gateway_db, \<lambda>h. Unsent) (sample_taken, sent [LdkSend 77] (\<lambda>h. Unsent))"
    by (rule take_on [OF _ sample_sent]) (simp add: truthful_def)
  then show "gateway_reaches sample_gateway crashes sample_taken (sent [LdkSend 77] (\<lambda>h. Unsent))"
    unfolding gateway_reaches_def using sample_gateway_facts(1) by blast
  show "sent [LdkSend 77] (\<lambda>h. Unsent) 77 = Inflight" by (simp add: sent_def)
qed



text \<open>The mint holds the contract and the payment succeeds.\<close>

definition gateway_mint :: daemon_db where
  "gateway_mint = genesis\<lparr>lightning_tables := (lightning_tables genesis)\<lparr>
     outgoing_contracts := bt_insert (OutPoint 8 0) (sr_contract sample_request) bt_empty\<rparr>\<rparr>"

theorem payment_claimed_witness:
  "\<exists>db' w' tsm mint'. process_ldk_event sample_gateway (1, 2) (PaymentSuccessful 77 (Some 77) None) sample_taken = Done (db', []) \<and>
    bt_get (gd_clients db') 5 = Some w' \<and> bt_get (tx_sms w') 1 = Some tsm \<and>
    process_tx sample_mint sample_cfg (ts_tx tsm) gateway_mint = Done mint' \<and> gateway_subscribe_send sample_op w' = Some (Inr 77)"
proof -
  let ?row = "\<lparr>og_mint = 5, og_contract = sr_contract sample_request, og_outpoint = OutPoint 8 0, og_invoice = sample_invoice\<rparr>"
  let ?w = "logged ROUTING_ACCOUNT sample_op (GatewaySendEvent (OutPoint 8 0) (Amount 5000000) (Amount 100000)) sample_wallet"
  have a: "bt_get (gd_attempts sample_taken) 77 = Some sample_op" "bt_get (gd_outgoing sample_taken) sample_op = Some ?row"
    "\<not> bt_has (gd_ldk_events sample_taken) 77" "bt_get (gd_clients sample_taken) 5 = Some ?w"
    by (simp_all add: sample_taken_def taken_on_def set_client_def sample_gateway_db_def bt_has_def)
  have n: "account_notes ROUTING_ACCOUNT (logged a op ev sample_wallet) = account_notes Primary sample_wallet" for a op ev
    by (simp add: ROUTING_ACCOUNT_def account_notes_def logged_def)
  have w: "wallet_ok ?w" "log_room 2 ?w" "\<not> bt_has (tx_sms ?w) 1" "\<not> bt_has (ecash_sms ?w) 2"
  proof -
    show "wallet_ok ?w" using sample_wallet_facts(1) by (simp add: wallet_ok_def holds_def logged_def)
    have "log_room (Suc 2) sample_wallet" by (simp add: sample_wallet_def)
    from log_event_room(2) [OF this] show "log_room 2 ?w" .
    show "\<not> bt_has (tx_sms ?w) 1" "\<not> bt_has (ecash_sms ?w) 2" by (simp_all add: logged_def)
  qed
  have held: "bt_get (outgoing_contracts (lightning_tables gateway_mint)) (og_outpoint ?row) = Some (og_contract ?row)"
    by (simp add: gateway_mint_def)
  have "length (enc_hash (77 :: hash256)) = 32" by (simp add: enc_hash_def enc_int_def)
  then have v: "sha256 (dcrypto sample_mint) (enc_hash 77) = 77"
    by (simp add: sample_mint_def sample_crypto_def sample_hash_def be_value_hash)
  have h: "honours sample_mint sample_cfg gateway_mint (gw_client sample_gateway 5) ROUTING_ACCOUNT ?w"
  proof -
    have "honours sample_mint sample_cfg gateway_mint sample_ctx Primary sample_wallet"
      by (rule sample_honours) (simp add: gateway_mint_def)
    then show ?thesis by (simp add: honours_def ROUTING_ACCOUNT_def logged_def holds_def counter_of_def)
  qed
  have key: "oc_claim_pk (og_contract ?row) = x_only_public_key (gw_ops sample_gateway (og_mint ?row)) (contract_keypair sample_gateway (og_mint ?row))"
    using sample_gateway_facts(5) by simp
  have worth: "712 \<le> amount_nat (oc_amount (og_contract ?row)) + amount_nat (oc_fee (og_contract ?row))" by simp
  have small: "amount_nat (oc_amount (og_contract ?row)) + amount_nat (oc_fee (og_contract ?row)) + face_value (account_notes ROUTING_ACCOUNT ?w) < 2 ^ 42"
    "Suc (length (account_notes ROUTING_ACCOUNT ?w)) \<le> MAX_INPUTS"
    using sample_wallet_facts(4) sample_small by (simp_all add: n MAX_INPUTS_def)
  have m: "bt_get (gd_clients sample_taken) (og_mint ?row) = Some ?w" using a(4) by simp
  have h': "honours sample_mint sample_cfg gateway_mint (gw_client sample_gateway (og_mint ?row)) ROUTING_ACCOUNT ?w" using h by simp
  from payment_claimed [OF sample_inflight a(1-3) m w held v key worth small h', where fee = None and ids = "(3, 4)"]
  show ?thesis by (elim exE conjE) (intro exI conjI, assumption+, simp_all)
qed

end
