(* ===== verification/Spec2Isabelle.thy ===== *)
theory Spec2Isabelle
  imports Bft_Claims Mint_Claims Vote_Claims Signing_Claims Service_Claims Session_Claims Outcome_Claims Binding_Claims Client_Claims Client_Lightning_Claims Threshold_Claims Base32 Fountain_Claims Query Gateway
begin

text \<open>
  A verification library for picomint, a federated ecash mint: a fixed set of nodes that order
  transactions with a Byzantine fault tolerant broadcast, keep their databases as replicas, hold one
  Bitcoin wallet under threshold keys and sign ecash blindly; a client with its wallet; and a gateway
  that trades contracts of the mint for Lightning payments.

  How the parts interact. A node's engine (\<open>picomint-bft\<close>) orders units with payloads of items; the
  session loop of the daemon (\<open>consensus/engine.rs\<close>) processes them one write transaction at a time,
  cuts sessions and signs their headers; an item is a transaction, whose inputs and outputs the three
  modules (ecash, Lightning, onchain) check and whose funding the server checks, or a vote, a nonce or a
  share of the onchain module, or a vote on the height or the version. The keys come from a distributed
  key generation at setup. A client builds and funds transactions from its notes and follows them with
  state machines; it asks the nodes with queries that wait for a quorum. The gateway is a client of
  every mint it serves, with handlers of the events of its Lightning node.

  Panics, errors and overflow. An operation that may fail returns an \<open>outcome\<close> with its errors as values
  and \<open>Panicked\<close> for an \<open>expect\<close>, \<open>assert\<close> or index out of range; in the engine and the client, where
  nothing but a panic can happen, \<open>None\<close> is the panic. Integers are words of their width, with the
  checked, saturating and wrapping operations of the code.
\<close>

section \<open>The theories\<close>

text \<open>
  The base. \<open>Prelude\<close>: integers, lists and options. \<open>Outcome\<close>: results and their sequencing.
  \<open>Ordered_Map\<close>: \<open>BTreeMap\<close>, \<open>BTreeSet\<close> and the tables of the database, with their order of iteration.
  \<open>Codec\<close>: the consensus encoding of \<open>picomint-encoding\<close>, with a locale of prefix codes.
  \<open>Mint_Nodes\<close>: node ids, quorums (a locale, interpreted on the sizes of a mint), amounts, versions.
  \<open>Vote_Rank\<close>: values at a rank of votes.

  The ordering engine, \<open>picomint-bft/src\<close>. \<open>Bft_Unit\<close> (\<open>unit.rs\<close>, \<open>network.rs\<close>, \<open>keychain.rs\<close>),
  \<open>Bft_State\<close> and \<open>Bft_Engine\<close> (\<open>engine.rs\<close>: tables, extension, admission, message handlers, creation,
  replay), \<open>Bft_Extender\<close> (\<open>extender.rs\<close>: votes, decisions, heads, batches). \<open>Bft_Votes\<close> is the
  specification without caches and its safety, \<open>Bft_Refine\<close> that the code computes it, \<open>Bft_Order\<close>
  and \<open>Bft_Tables\<close> the invariants of order and tables, \<open>Bft_Run\<close> and \<open>Bft_System\<close> the engine in
  operation and the runs of a whole mint with Byzantine nodes and crashes, \<open>Bft_Claims\<close> the properties.

  The daemon, \<open>picomint-node-daemon/src/consensus\<close> and \<open>picomint-core/src\<close>. \<open>Server_Types\<close> (wire
  types), \<open>Item_Codes\<close> (their encodings as prefix codes), \<open>Ecash_Server\<close>, \<open>Lightning_Server\<close>,
  \<open>Wallet_Types\<close> and \<open>Onchain_Server\<close> (the modules), \<open>Consensus_Votes\<close> (\<open>db.rs\<close>), \<open>Funding\<close> (\<open>tx.rs\<close>),
  \<open>Mint_Server\<close> (\<open>server.rs\<close>, \<open>process_consensus_item\<close>). What they keep: \<open>Onchain_Wallet\<close> (value and chain
  of the wallet's transactions), \<open>Onchain_Blocks\<close>, \<open>Onchain_Signing\<close>, \<open>Onchain_Sessions\<close>,
  \<open>Onchain_Invariant\<close>, \<open>Mint_Invariant\<close> (the books of a transaction), \<open>Mint_Items\<close>, \<open>Mint_Runs\<close> (runs of
  items, with the locale of tables that take a key once), \<open>Mint_Replicas\<close> (nodes with different secrets).
  \<open>Session\<close> (\<open>session.rs\<close>, \<open>engine.rs\<close>), \<open>Session_Order\<close> and \<open>Session_Close\<close>: ordering until the cut,
  resumption after crashes, headers, outcomes and their adoption. Properties: \<open>Mint_Claims\<close>,
  \<open>Vote_Claims\<close>, \<open>Wallet_Claims\<close>, \<open>Signing_Claims\<close>, \<open>Service_Claims\<close>, \<open>Session_Claims\<close>, \<open>Outcome_Claims\<close>,
  \<open>Binding_Claims\<close>; \<open>Mint_Sample\<close> is the sample mint of their witnesses.

  Keys and threshold schemes. \<open>Threshold\<close> (polynomials and interpolation), \<open>Tbs\<close> (\<open>picomint-tbs\<close>, blind
  signatures), \<open>Tpe\<close> (\<open>picomint-tpe\<close>, encrypted preimages), \<open>Tss\<close> and \<open>Tss_Sign\<close> (\<open>picomint-tss\<close>, FROST),
  \<open>Tss_Wallet\<close> (the onchain module on that scheme), \<open>Dkg\<close>, \<open>Dkg_Complete\<close>, \<open>Dkg_Config\<close>
  (\<open>config/dkg_g2.rs\<close>, \<open>dkg_secp.rs\<close>, \<open>poly.rs\<close> and the keys the modules make of it),
  \<open>Threshold_Sample\<close> and \<open>Threshold_Claims\<close>.

  The client, \<open>picomint-client/src\<close>. \<open>Client_Secret\<close> (\<open>secret.rs\<close>), \<open>Client_Select\<close> and \<open>Client_Change\<close>
  (choice of notes, denominations and amounts, \<open>ecash/mod.rs\<close>), \<open>Client_Wallet\<close> (\<open>tx\<close>, \<open>eventlog.rs\<close>,
  \<open>executor.rs\<close>), \<open>Client_Ecash\<close> (\<open>ecash\<close>), \<open>Client_Lightning\<close> (\<open>lightning\<close>). What they do:
  \<open>Client_Funding\<close>, \<open>Client_Log\<close>, \<open>Client_Submit\<close>, \<open>Client_Scan\<close>, and against the mint's own
  processing \<open>Client_Accepted\<close> and \<open>Client_Reissue\<close>. Properties: \<open>Client_Claims\<close>,
  \<open>Client_Lightning_Claims\<close>, with \<open>Client_Sample\<close>. \<open>Query\<close>: the queries to the nodes (\<open>picomint-rpc\<close>).
  \<open>Gateway\<close>: the gateway daemon with the gateway module of the client, its runs and properties.

  Codes for the user: \<open>Base32\<close> (\<open>picomint-base32\<close>), \<open>Fountain\<close>, \<open>Fountain_Laws\<close> (a locale for what the
  decoder's loops keep) and \<open>Fountain_Claims\<close> (\<open>picomint-fountain\<close>).
\<close>

section \<open>State and foreign code\<close>

text \<open>
  A database is a record with one ordered map per table: the unit tables of \<open>engine\<close>, \<open>daemon_db\<close>
  with the tables of the three modules, \<open>client_db\<close> per mint, \<open>gateway_db\<close>. A write transaction is a
  function from such a record to the next; a crash between two is a step that forgets what is not in
  a table.

  Code outside the repository is a record of functions, and what is assumed of it is named: \<open>crypto\<close>
  (SHA-256, Schnorr signatures), \<open>wallet_ops\<close> (keys, scripts, ids and sighashes of the Bitcoin crates),
  \<open>curve\<close> and \<open>secp\<close> (pairing and secp256k1 groups, with their group laws as hypotheses), \<open>tbs_ops\<close> and
  \<open>client_ops\<close> (the blind signatures as the daemon and the client call them), \<open>ldk_node\<close> (what the
  Lightning node answers). Collisions of hashes and forged signatures are excluded only where a property
  says so, for the values it is about. \<open>with_tss\<close> fills the signing operations of \<open>wallet_ops\<close> with the
  modelled scheme of \<open>picomint-tss\<close>.
\<close>

section \<open>Bounds and fuel\<close>

text \<open>
  The only fuel is the recursion depth of \<open>vote\<close> in \<open>Bft_Extender\<close>: it descends one round per level, so
  \<open>vote_fuel\<close>, one more than the round of the unit it starts from, is enough, which \<open>Bft_Refine\<close> proves
  by computing the virtual vote with it. Loops that might not end are partial functions, whose result
  \<open>None\<close> is a loop that does not return: the creation of units, the tiers and bisections of
  \<open>Client_Change\<close> and \<open>Client_Lightning\<close>, and the restore scan. That they return is proved where they are
  used (\<open>handle_message_returns\<close>, \<open>restart_returns\<close>, \<open>funding_balances\<close>, \<open>restore_finds\<close>).
  Tables indexed by 64-bit words are dense and wrap after \<open>2 ^ 64\<close> rows; properties over runs take room
  in them for granted: \<open>used\<close> counts the rows and \<open>run_weight\<close> what a run can add. Rounds of the
  broadcast, 32 bits in the code and bounded in a session, are natural numbers. A client's wallet is
  small: at most \<open>MAX_INPUTS\<close> notes and less than \<open>2 ^ 42\<close> msat in an account, where a property says so.
\<close>

section \<open>What the lemmas show\<close>

text \<open>
  Ordering: honest nodes emit prefixes of one sequence over every run of the system, with Byzantine
  nodes and crashes; no honest node equivocates; no message makes an engine panic; replay from whatever
  a crash leaves restores the invariant. Sessions: nodes delivered the same items cut the same session
  with the same header and agreeing tables, whatever the crashes, and adoption ends there too. The
  mint: solvency, no double spend, claim or issue, the invariant of the database and no panic over runs
  of items; the wallet's transactions are one chain and are signed. Key generation and threshold
  schemes: what is dealt is a sharing, what is signed with it verifies. Client and gateway: what they
  submit the mint accepts, what fails is refunded, and the gateway pays or forfeits. Some theorems exhibit
  defects: bundles that no mint accepts, prices that overflow, a refund acted on too early, a crash
  after which the gateway pays and forfeits, and the removal of a mint that drops the payment of another.
\<close>

section \<open>Not modelled\<close>

text \<open>
  The layer of typed tables over redb (its tables are ordered maps here), connections and request
  dispatch over iroh, invites, administration and the loops that propose items, the setup ceremony
  around the key generation, the onchain module of the client and the adding and removing of mints, the
  probing of gateways, the LNURL services, the Bitcoin backends, command lines, analytics and tests: all
  of it moves data between the modelled parts and the outside. The clock, the random choice of nodes and
  keys, and the answers of other processes are arguments of the definitions.
\<close>

end
